(* ===== verification/Prelude.thy ===== *)
theory Prelude
  imports Main
begin

text \<open>
  Shared vocabulary of the development: the insertion-ordered \<open>Map\<close> and \<open>Set\<close> of the JavaScript
  runtime, the way a fallible call returns, and the two generic contracts the components share.

  A JavaScript \<open>Map\<close> iterates in insertion order and \<open>set\<close> on a present key keeps the key's
  place, so a map is an association list (\<open>jsmap\<close>) and not an abstract function: several
  components rely on the order (LRU eviction, listing of tools and commands, task scheduling).
  A \<open>Set\<close> is likewise the list of its elements in insertion order.

  Locales: \<open>ordered_map\<close> is the interface of the runtime's map, interpreted on the association
  lists; \<open>state_contract\<close> is a component whose operations all keep an invariant, with the
  statement lifted to every sequence of operations; each component theory interprets it on its
  own operations.
\<close>

named_theorems js_simps "simplification rules for the runtime's maps and sets"
named_theorems inv_intros "rules that establish a component's invariant"

section \<open>Insertion-ordered maps\<close>

type_synonym ('k, 'v) jsmap = "('k \<times> 'v) list"

definition jm_get :: "('k, 'v) jsmap \<Rightarrow> 'k \<Rightarrow> 'v option" where
  "jm_get m k = map_of m k"

definition jm_has :: "('k, 'v) jsmap \<Rightarrow> 'k \<Rightarrow> bool" where
  "jm_has m k = (jm_get m k \<noteq> None)"

fun jm_set :: "'k \<Rightarrow> 'v \<Rightarrow> ('k, 'v) jsmap \<Rightarrow> ('k, 'v) jsmap" where
  "jm_set k v [] = [(k, v)]"
| "jm_set k v ((k', v') # m) = (if k' = k then (k, v) # m else (k', v') # jm_set k v m)"

definition jm_del :: "'k \<Rightarrow> ('k, 'v) jsmap \<Rightarrow> ('k, 'v) jsmap" where
  "jm_del k m = filter (\<lambda>p. fst p \<noteq> k) m"

definition jm_keys :: "('k, 'v) jsmap \<Rightarrow> 'k list" where
  "jm_keys m = map fst m"

definition jm_values :: "('k, 'v) jsmap \<Rightarrow> 'v list" where
  "jm_values m = map snd m"

definition jm_wf :: "('k, 'v) jsmap \<Rightarrow> bool" where
  "jm_wf m = distinct (jm_keys m)"

text \<open>Changing the value of a present key in place, the mutation of an object held by the map.\<close>

definition jm_update :: "'k \<Rightarrow> ('v \<Rightarrow> 'v) \<Rightarrow> ('k, 'v) jsmap \<Rightarrow> ('k, 'v) jsmap" where
  "jm_update k f m = map (\<lambda>(k', v). (k', if k' = k then f v else v)) m"

lemma jm_get_Nil [simp]: "jm_get [] k = None"
  by (simp add: jm_get_def)

lemma jm_get_Cons: "jm_get ((a, b) # m) k = (if k = a then Some b else jm_get m k)"
  by (simp add: jm_get_def)

lemma jm_get_set [simp]: "jm_get (jm_set k v m) k' = (if k' = k then Some v else jm_get m k')"
  by (induction m) (auto simp: jm_get_Cons)

lemma jm_get_del [simp]: "jm_get (jm_del k m) k' = (if k' = k then None else jm_get m k')"
  by (induction m) (auto simp: jm_get_Cons jm_del_def)

lemma jm_get_update [simp]:
  "jm_get (jm_update k f m) k' = (if k' = k then map_option f (jm_get m k') else jm_get m k')"
  by (induction m) (auto simp: jm_get_Cons jm_update_def)

lemma jm_has_set [simp]: "jm_has (jm_set k v m) k' = (k' = k \<or> jm_has m k')"
  by (simp add: jm_has_def)

lemma jm_has_del [simp]: "jm_has (jm_del k m) k' = (k' \<noteq> k \<and> jm_has m k')"
  by (simp add: jm_has_def)

lemma jm_has_update [simp]: "jm_has (jm_update k f m) k' = jm_has m k'"
  by (simp add: jm_has_def)

lemma jm_has_keys: "jm_has m k = (k \<in> set (jm_keys m))"
  by (induction m) (auto simp: jm_has_def jm_get_Cons jm_keys_def)

lemma jm_get_None: "jm_get m k = None \<longleftrightarrow> k \<notin> set (jm_keys m)"
  using jm_has_keys [of m k] unfolding jm_has_def by blast

lemma jm_get_in_set: "jm_get m k = Some v \<Longrightarrow> (k, v) \<in> set m"
  by (simp add: jm_get_def map_of_SomeD)

lemma jm_get_eq: "jm_wf m \<Longrightarrow> jm_get m k = Some v \<longleftrightarrow> (k, v) \<in> set m"
  by (simp add: jm_get_def jm_wf_def jm_keys_def)

lemma jm_keys_set [simp]:
  "jm_keys (jm_set k v m) = (if jm_has m k then jm_keys m else jm_keys m @ [k])"
  by (induction m) (auto simp: jm_has_def jm_get_Cons jm_keys_def split: if_splits)

lemma jm_keys_del [simp]: "jm_keys (jm_del k m) = filter (\<lambda>x. x \<noteq> k) (jm_keys m)"
  by (induction m) (auto simp: jm_del_def jm_keys_def)

lemma jm_keys_update [simp]: "jm_keys (jm_update k f m) = jm_keys m"
  by (induction m) (auto simp: jm_update_def jm_keys_def)

lemma jm_keys_Nil [simp]: "jm_keys [] = []"
  by (simp add: jm_keys_def)

lemma jm_values_Nil [simp]: "jm_values [] = []"
  by (simp add: jm_values_def)

lemma jm_wf_Nil [simp]: "jm_wf []"
  by (simp add: jm_wf_def)

lemma jm_wf_set [simp, intro]: "jm_wf m \<Longrightarrow> jm_wf (jm_set k v m)"
  by (simp add: jm_wf_def jm_has_keys)

lemma jm_wf_del [simp, intro]: "jm_wf m \<Longrightarrow> jm_wf (jm_del k m)"
  by (simp add: jm_wf_def)

lemma jm_wf_update [simp]: "jm_wf (jm_update k f m) = jm_wf m"
  by (simp add: jm_wf_def)

lemma jm_set_new: "\<not> jm_has m k \<Longrightarrow> jm_set k v m = m @ [(k, v)]"
  by (induction m) (auto simp: jm_has_def jm_get_Cons split: if_splits)

lemma jm_del_absent: "\<not> jm_has m k \<Longrightarrow> jm_del k m = m"
  by (induction m) (auto simp: jm_has_def jm_get_Cons jm_del_def split: if_splits)

lemma length_jm_set: "length (jm_set k v m) = length m + (if jm_has m k then 0 else 1)"
  by (induction m) (auto simp: jm_has_def jm_get_Cons split: if_splits)

lemma jm_values_in: "jm_wf m \<Longrightarrow> v \<in> set (jm_values m) \<longleftrightarrow> (\<exists>k. jm_get m k = Some v)"
  by (auto simp: jm_values_def jm_get_eq image_iff) (metis snd_conv)

section \<open>Insertion-ordered sets\<close>

definition js_add :: "'a \<Rightarrow> 'a list \<Rightarrow> 'a list" where
  "js_add x xs = (if x \<in> set xs then xs else xs @ [x])"

definition js_remove :: "'a \<Rightarrow> 'a list \<Rightarrow> 'a list" where
  "js_remove x xs = filter (\<lambda>y. y \<noteq> x) xs"

lemma set_js_add [simp]: "set (js_add x xs) = insert x (set xs)"
  by (auto simp: js_add_def)

lemma set_js_remove [simp]: "set (js_remove x xs) = set xs - {x}"
  by (auto simp: js_remove_def)

lemma distinct_js_add [simp]: "distinct (js_add x xs) = distinct xs"
  by (simp add: js_add_def)

lemma distinct_js_remove [simp]: "distinct xs \<Longrightarrow> distinct (js_remove x xs)"
  by (simp add: js_remove_def)

lemma js_remove_snoc: "x \<notin> set xs \<Longrightarrow> js_remove x (xs @ [x]) = xs"
  by (simp add: js_remove_def filter_id_conv) (metis)

lemma js_remove_absent: "x \<notin> set xs \<Longrightarrow> js_remove x xs = xs"
  by (auto simp: js_remove_def filter_id_conv)

text \<open>\<open>new Set(xs)\<close> turned back into an array: the elements at their first occurrence.\<close>

definition js_dedup :: "'a list \<Rightarrow> 'a list" where
  "js_dedup xs = fold js_add xs []"

lemma set_fold_js_add: "set (fold js_add xs acc) = set acc \<union> set xs"
  by (induction xs arbitrary: acc) auto

lemma set_js_dedup [simp]: "set (js_dedup xs) = set xs"
  by (simp add: js_dedup_def set_fold_js_add)

lemma distinct_fold_js_add: "distinct (fold js_add xs acc) = distinct acc"
  by (induction xs arbitrary: acc) auto

lemma distinct_js_dedup [simp]: "distinct (js_dedup xs)"
  by (simp add: js_dedup_def distinct_fold_js_add)

lemma fold_js_add_distinct:
  "distinct xs \<Longrightarrow> set acc \<inter> set xs = {} \<Longrightarrow> fold js_add xs acc = acc @ xs"
  by (induction xs arbitrary: acc) (auto simp: js_add_def)

lemma js_dedup_distinct: "distinct xs \<Longrightarrow> js_dedup xs = xs"
  by (simp add: js_dedup_def fold_js_add_distinct)

lemmas [js_simps] = jm_get_set jm_get_del jm_has_set jm_has_del jm_keys_set jm_keys_del

section \<open>The interface of the runtime's map\<close>

locale ordered_map =
  fixes get :: "'m \<Rightarrow> 'k \<Rightarrow> 'v option"
    and put :: "'k \<Rightarrow> 'v \<Rightarrow> 'm \<Rightarrow> 'm"
    and del :: "'k \<Rightarrow> 'm \<Rightarrow> 'm"
    and keys :: "'m \<Rightarrow> 'k list"
    and ok :: "'m \<Rightarrow> bool"
  assumes get_put: "get (put k v m) k' = (if k' = k then Some v else get m k')"
    and get_del: "get (del k m) k' = (if k' = k then None else get m k')"
    and keys_get: "k \<in> set (keys m) \<longleftrightarrow> get m k \<noteq> None"
    and keys_put_old: "get m k \<noteq> None \<Longrightarrow> keys (put k v m) = keys m"
    and keys_put_new: "get m k = None \<Longrightarrow> keys (put k v m) = keys m @ [k]"
    and ok_distinct: "ok m \<Longrightarrow> distinct (keys m)"
    and ok_put: "ok m \<Longrightarrow> ok (put k v m)"
    and ok_del: "ok m \<Longrightarrow> ok (del k m)"
begin

lemma reinsert_moves_last:
  assumes "ok m" "get m k \<noteq> None"
  shows "\<exists>ks. keys (put k v (del k m)) = ks @ [k] \<and> k \<notin> set ks"
proof -
  have "get (del k m) k = None" by (simp add: get_del)
  then have "keys (put k v (del k m)) = keys (del k m) @ [k]" by (rule keys_put_new)
  moreover have "k \<notin> set (keys (del k m))" by (simp add: keys_get get_del)
  ultimately show ?thesis by blast
qed

lemma put_del_get: "get (put k v (del k m)) k' = get (put k v m) k'"
  by (simp add: get_put get_del)

lemma fold_put_ok: "ok m \<Longrightarrow> ok (fold (\<lambda>(k, v). put k v) kvs m)"
  by (induction kvs arbitrary: m) (auto intro: ok_put)

end

interpretation jsmaps: ordered_map jm_get jm_set jm_del jm_keys jm_wf
  by unfold_locales (auto simp: jm_has_keys jm_get_None jm_wf_def)

section \<open>Components that keep an invariant\<close>

text \<open>
  \<open>step e s\<close> is the state after operation \<open>e\<close>. The locale lifts a one-step invariant to every
  sequence of operations, and bounds a quantity that no single operation can decrease.
\<close>

locale state_contract =
  fixes step :: "'e \<Rightarrow> 's \<Rightarrow> 's"
    and good :: "'s \<Rightarrow> bool"
  assumes step_good: "good s \<Longrightarrow> good (step e s)"
begin

lemma run_good: "good s \<Longrightarrow> good (fold step es s)"
  by (induction es arbitrary: s) (auto intro: step_good)

lemma run_prefix_good: "good s \<Longrightarrow> good (fold step (take n es) s)"
  by (rule run_good)

end

locale monotone_contract = state_contract +
  fixes level :: "'s \<Rightarrow> nat"
  assumes step_level: "good s \<Longrightarrow> level s \<le> level (step e s)"
begin

lemma run_level: "good s \<Longrightarrow> level s \<le> level (fold step es s)"
proof (induction es arbitrary: s)
  case Nil
  then show ?case by simp
next
  case (Cons e es)
  from Cons.prems have "level s \<le> level (step e s)" by (rule step_level)
  also have "level (step e s) \<le> level (fold step es (step e s))"
    using Cons.prems by (intro Cons.IH step_good)
  finally show ?case by simp
qed

end

section \<open>Values of a fallible call\<close>

text \<open>\<open>Inl\<close> is the thrown error, \<open>Inr\<close> the returned value.\<close>

definition returns :: "'e + 'a \<Rightarrow> bool" where
  "returns r = (case r of Inl _ \<Rightarrow> False | Inr _ \<Rightarrow> True)"

lemma returns_simps [simp]: "\<not> returns (Inl e)" "returns (Inr v)"
  by (simp_all add: returns_def)

section \<open>Registries that refuse duplicates\<close>

text \<open>Registering one by one, stopping at the first call that throws.\<close>

fun add_each :: "('a \<Rightarrow> 's \<Rightarrow> 'e + 's) \<Rightarrow> 'a list \<Rightarrow> 's \<Rightarrow> 'e + 's" where
  "add_each add [] s = Inr s"
| "add_each add (x # xs) s =
     (case add x s of Inl e \<Rightarrow> Inl e | Inr s' \<Rightarrow> add_each add xs s')"

locale strict_registry =
  fixes names :: "'s \<Rightarrow> 'n list"
    and label :: "'a \<Rightarrow> 'n"
    and admissible :: "'a \<Rightarrow> bool"
    and add :: "'a \<Rightarrow> 's \<Rightarrow> 'e + 's"
  assumes add_refused: "label a \<in> set (names s) \<or> \<not> admissible a \<Longrightarrow> \<exists>e. add a s = Inl e"
    and add_accepted: "label a \<notin> set (names s) \<Longrightarrow> admissible a \<Longrightarrow>
      \<exists>s'. add a s = Inr s' \<and> names s' = names s @ [label a]"
begin

lemma add_each_accepted:
  "distinct (map label xs) \<Longrightarrow> set (map label xs) \<inter> set (names s) = {} \<Longrightarrow>
   (\<forall>x \<in> set xs. admissible x) \<Longrightarrow>
   \<exists>s'. add_each add xs s = Inr s' \<and> names s' = names s @ map label xs"
proof (induction xs arbitrary: s)
  case (Cons x xs)
  then obtain s1 where s1: "add x s = Inr s1" "names s1 = names s @ [label x]"
    using add_accepted [of x s] by auto
  with Cons.prems have "\<exists>s'. add_each add xs s1 = Inr s' \<and> names s' = names s1 @ map label xs"
    by (intro Cons.IH) auto
  with s1 show ?case by auto
qed simp

lemma add_each_refused:
  "add_each add xs s = Inr s' \<Longrightarrow>
   distinct (map label xs) \<and> set (map label xs) \<inter> set (names s) = {} \<and>
   (\<forall>x \<in> set xs. admissible x)"
proof (induction xs arbitrary: s)
  case (Cons x xs)
  then obtain s1 where s1: "add x s = Inr s1" and rest: "add_each add xs s1 = Inr s'"
    by (auto split: sum.splits)
  have ok: "label x \<notin> set (names s)" "admissible x"
    using add_refused [of x s] s1 by auto
  then have "names s1 = names s @ [label x]" using add_accepted [of x s] s1 by auto
  with ok Cons.IH [OF rest] show ?case by auto
qed simp

lemma add_each_iff:
  "(\<exists>s'. add_each add xs s = Inr s') \<longleftrightarrow>
   distinct (map label xs) \<and> set (map label xs) \<inter> set (names s) = {} \<and>
   (\<forall>x \<in> set xs. admissible x)"
  using add_each_accepted add_each_refused by blast

end

section \<open>Reachability\<close>

text \<open>A path that leaves a set closed under edges up to exits passes through an exit.\<close>

lemma leaves_through:
  assumes "(v, i) \<in> E\<^sup>*" "v \<in> V" "i \<notin> V" "\<And>a b. a \<in> V \<Longrightarrow> (a, b) \<in> E \<Longrightarrow> b \<in> V \<union> S"
  shows "\<exists>s \<in> S. (s, i) \<in> E\<^sup>*"
  using assms
proof (induction rule: converse_rtrancl_induct)
  case (step y z)
  then show ?case by (cases "z \<in> V") auto
qed simp

end
