(* ===== verification/Errors.thy ===== *)
theory Errors
  imports Prelude
begin

text \<open>
  The error values of the framework, from \<open>packages/core/src/types/errors.ts\<close>: the machine
  readable codes, the subsystem and severity tags, and the base class \<open>WrongStackError\<close>. The
  human readable message and the \<open>cause\<close> are diagnostic text and are left out; everything a
  caller can branch on is kept.
\<close>

datatype error_code =
    PROVIDER_RATE_LIMITED | PROVIDER_AUTH_FAILED | PROVIDER_OVERLOADED
  | PROVIDER_INVALID_REQUEST | PROVIDER_SERVER_ERROR | PROVIDER_NETWORK_ERROR
  | PROVIDER_CONTEXT_OVERFLOW
  | TOOL_NOT_FOUND | TOOL_PERMISSION_DENIED | TOOL_EXECUTION_FAILED | TOOL_TIMEOUT
  | TOOL_INPUT_INVALID
  | CONFIG_INVALID | CONFIG_NOT_FOUND | CONFIG_PARSE_FAILED | CONFIG_MIGRATION_NEEDED
  | PLUGIN_LOAD_FAILED | PLUGIN_API_MISMATCH | PLUGIN_MISSING_DEPENDENCY
  | AGENT_ITERATION_LIMIT | AGENT_CONTEXT_OVERFLOW | AGENT_ABORTED | AGENT_RUN_FAILED
  | SESSION_NOT_FOUND | SESSION_CORRUPTED | SESSION_WRITE_FAILED
  | CONTAINER_TOKEN_ALREADY_BOUND | CONTAINER_TOKEN_NOT_BOUND
  | CONTAINER_CIRCULAR_DEPENDENCY
  | REGISTRY_DUPLICATE | REGISTRY_NOT_FOUND | REGISTRY_INVALID
  | FS_READ_FAILED | FS_WRITE_FAILED | FS_MKDIR_FAILED | FS_DELETE_FAILED
  | FS_ATOMIC_WRITE_FAILED
  | SDD_VALIDATION_FAILED | SDD_PARSE_FAILED | SDD_INVALID_STATE | SDD_NOT_READY
  | VALIDATION_ERROR | PARSE_FAILED | UNKNOWN

datatype error_subsystem =
    SubProvider | SubTool | SubConfig | SubPlugin | SubAgent | SubSession | SubSdd
  | SubContainer | SubFs | SubGeneral

datatype error_severity = SevFatal | SevError | SevWarning

record ws_error =
  err_code :: error_code
  err_subsystem :: error_subsystem
  err_severity :: error_severity
  err_recoverable :: bool
  err_context :: "(string \<times> string) list"

text \<open>The constructor with the optional \<open>severity\<close> and \<open>recoverable\<close> left out, the way every
  call modelled here uses it: severity defaults to \<open>error\<close>, recoverable to false.\<close>

definition mk_ws_error :: "error_code \<Rightarrow> error_subsystem \<Rightarrow> (string \<times> string) list \<Rightarrow> ws_error"
  where
  "mk_ws_error code sub ctx =
     \<lparr>err_code = code, err_subsystem = sub, err_severity = SevError,
      err_recoverable = False, err_context = ctx\<rparr>"

lemma mk_ws_error_code [simp]: "err_code (mk_ws_error c s ctx) = c"
  by (simp add: mk_ws_error_def)

end
