(* ===== verification/Container.thy ===== *)
theory Container
  imports Errors
begin

text \<open>
  The dependency injection container, \<open>packages/core/src/kernel/container.ts\<close>.

  A factory or decorator is client code that may call back into the container. It is a
  \<open>prog\<close>: a tree whose nodes are the calls it makes (\<open>resolve\<close>, where it may catch the error,
  and \<open>has\<close>) and whose leaves return a value or throw. Factories that rebind tokens while they are
  being resolved are outside the model. \<open>resolve\<close> takes a fuel, the depth of nested resolutions;
  \<open>resolve_enough_fuel\<close> shows that one more than the number of bound tokens is always enough, and
  \<open>resolve_fuel_irrelevant\<close> that more fuel changes nothing, so \<open>resolve_token\<close>, which starts with
  that fuel, is the code's method.

  A token is a symbol: an identity and a description.
\<close>

datatype token = Sym (token_id: nat) (token_description: "string option")

datatype 'v exn = WS ws_error | Client 'v

datatype 'v outcome = Returned 'v | Raised "'v exn" | OutOfFuel

datatype 'v prog =
    Ret 'v
  | Throw 'v
  | CallHas token "bool \<Rightarrow> 'v prog"
  | CallResolve token "('v exn + 'v) \<Rightarrow> 'v prog"

record 'v entry =
  ent_factory :: "'v prog"
  ent_singleton :: bool
  ent_decorators :: "('v \<Rightarrow> 'v prog) list"
  ent_cache :: "'v option"
  ent_owner :: string

text \<open>The fields \<open>cache\<close> and \<open>hasCache\<close> of the code are one option: \<open>Some\<close> when \<open>hasCache\<close>.\<close>

record 'v container =
  entries :: "(token, 'v entry) jsmap"
  resolving :: "token list"

definition empty_container :: "'v container" where
  "empty_container = \<lparr>entries = [], resolving = []\<rparr>"

record bind_options =
  opt_singleton :: "bool option"
  opt_owner :: "string option"

definition token_text :: "token \<Rightarrow> string" where
  "token_text t = (case token_description t of None \<Rightarrow> ''unknown'' | Some d \<Rightarrow> d)"

definition container_error :: "error_code \<Rightarrow> token \<Rightarrow> (string \<times> string) list \<Rightarrow> ws_error" where
  "container_error code t extra =
     mk_ws_error code SubContainer
       ((case token_description t of None \<Rightarrow> [] | Some d \<Rightarrow> [(''token'', d)]) @ extra)"

section \<open>Registration\<close>

definition bind :: "token \<Rightarrow> 'v prog \<Rightarrow> bind_options \<Rightarrow> 'v container \<Rightarrow> ws_error + 'v container"
  where
  "bind t f opts c =
     (if jm_has (entries c) t then Inl (container_error CONTAINER_TOKEN_ALREADY_BOUND t [])
      else Inr (c\<lparr>entries := jm_set t
        \<lparr>ent_factory = f,
         ent_singleton = (case opt_singleton opts of None \<Rightarrow> True | Some b \<Rightarrow> b),
         ent_decorators = [], ent_cache = None,
         ent_owner = (case opt_owner opts of None \<Rightarrow> ''core'' | Some s \<Rightarrow> s)\<rparr> (entries c)\<rparr>))"

definition override_binding ::
  "token \<Rightarrow> 'v prog \<Rightarrow> bind_options \<Rightarrow> 'v container \<Rightarrow> ws_error + 'v container" where
  "override_binding t f opts c =
     (case jm_get (entries c) t of
        None \<Rightarrow> Inl (container_error CONTAINER_TOKEN_NOT_BOUND t [])
      | Some existing \<Rightarrow> Inr (c\<lparr>entries := jm_set t
        \<lparr>ent_factory = f,
         ent_singleton =
           (case opt_singleton opts of None \<Rightarrow> ent_singleton existing | Some b \<Rightarrow> b),
         ent_decorators = ent_decorators existing, ent_cache = None,
         ent_owner = (case opt_owner opts of None \<Rightarrow> ent_owner existing | Some s \<Rightarrow> s)\<rparr>
        (entries c)\<rparr>))"

definition decorate ::
  "token \<Rightarrow> ('v \<Rightarrow> 'v prog) \<Rightarrow> string \<Rightarrow> 'v container \<Rightarrow> ws_error + 'v container" where
  "decorate t d owner c =
     (case jm_get (entries c) t of
        None \<Rightarrow> Inl (container_error CONTAINER_TOKEN_NOT_BOUND t [])
      | Some e \<Rightarrow> Inr (c\<lparr>entries := jm_set t
          (e\<lparr>ent_decorators := ent_decorators e @ [d], ent_cache := None,
             ent_owner := ent_owner e @ ''+'' @ owner\<rparr>) (entries c)\<rparr>))"

definition has :: "'v container \<Rightarrow> token \<Rightarrow> bool" where
  "has c t = jm_has (entries c) t"

definition owner_of :: "'v container \<Rightarrow> token \<Rightarrow> string option" where
  "owner_of c t = map_option ent_owner (jm_get (entries c) t)"

definition unbind :: "token \<Rightarrow> 'v container \<Rightarrow> bool \<times> 'v container" where
  "unbind t c = (jm_has (entries c) t, c\<lparr>entries := jm_del t (entries c)\<rparr>)"

definition clear :: "'v container \<Rightarrow> 'v container" where
  "clear c = c\<lparr>entries := []\<rparr>"

definition list_bindings :: "'v container \<Rightarrow> (token \<times> string) list" where
  "list_bindings c = map (\<lambda>(t, e). (t, ent_owner e)) (entries c)"

record binding_info =
  info_owner :: string
  info_singleton :: bool
  info_decorator_count :: nat
  info_cached :: bool

definition inspect :: "'v container \<Rightarrow> token \<Rightarrow> binding_info option" where
  "inspect c t = map_option (\<lambda>e. \<lparr>info_owner = ent_owner e, info_singleton = ent_singleton e,
     info_decorator_count = length (ent_decorators e),
     info_cached = (ent_cache e \<noteq> None)\<rparr>) (jm_get (entries c) t)"

section \<open>Resolution\<close>

text \<open>The parts of the cycle description, in order; the code joins them with an arrow.\<close>

definition describe_cycle :: "'v container \<Rightarrow> token \<Rightarrow> string list" where
  "describe_cycle c reentry = map token_text (js_dedup (resolving c)) @ [token_text reentry]"

definition circular_error :: "'v container \<Rightarrow> token \<Rightarrow> ws_error" where
  "circular_error c t = container_error CONTAINER_CIRCULAR_DEPENDENCY t
     (map (\<lambda>d. (''cycle'', d)) (describe_cycle c t))"

text \<open>Running client code, given what a call of \<open>resolve\<close> does.\<close>

type_synonym 'v resolver = "token \<Rightarrow> 'v container \<Rightarrow> 'v outcome \<times> 'v container"

primrec exec :: "'v resolver \<Rightarrow> 'v prog \<Rightarrow> 'v container \<Rightarrow> 'v outcome \<times> 'v container" where
  "exec rs (Ret v) = (\<lambda>c. (Returned v, c))"
| "exec rs (Throw e) = (\<lambda>c. (Raised (Client e), c))"
| "exec rs (CallHas t k) = (\<lambda>c. exec rs (k (has c t)) c)"
| "exec rs (CallResolve t k) = (\<lambda>c.
     case rs t c of
       (Returned v, c') \<Rightarrow> exec rs (k (Inr v)) c'
     | (Raised e, c') \<Rightarrow> exec rs (k (Inl e)) c'
     | (OutOfFuel, c') \<Rightarrow> (OutOfFuel, c'))"

fun exec_decorators ::
  "'v resolver \<Rightarrow> ('v \<Rightarrow> 'v prog) list \<Rightarrow> 'v outcome \<times> 'v container \<Rightarrow> 'v outcome \<times> 'v container"
  where
  "exec_decorators rs (d # ds) (Returned v, c) = exec_decorators rs ds (exec rs (d v) c)"
| "exec_decorators rs _ (r, c) = (r, c)"

definition store_cache :: "token \<Rightarrow> 'v \<Rightarrow> 'v container \<Rightarrow> 'v container" where
  "store_cache t v c =
     c\<lparr>entries := jm_update t (\<lambda>e. if ent_singleton e then e\<lparr>ent_cache := Some v\<rparr> else e)
        (entries c)\<rparr>"

fun resolve :: "nat \<Rightarrow> 'v resolver" where
  "resolve 0 t c = (OutOfFuel, c)"
| "resolve (Suc n) t c =
     (case jm_get (entries c) t of
        None \<Rightarrow> (Raised (WS (container_error CONTAINER_TOKEN_NOT_BOUND t [])), c)
      | Some e \<Rightarrow>
          (case (ent_singleton e, ent_cache e) of
             (True, Some v) \<Rightarrow> (Returned v, c)
           | _ \<Rightarrow>
             (if t \<in> set (resolving c) then (Raised (WS (circular_error c t)), c)
              else
                let (r, c') = exec_decorators (resolve n) (ent_decorators e)
                      (exec (resolve n) (ent_factory e) (c\<lparr>resolving := js_add t (resolving c)\<rparr>));
                    c'' = (case r of Returned v \<Rightarrow> store_cache t v c' | _ \<Rightarrow> c')
                in (r, c''\<lparr>resolving := js_remove t (resolving c'')\<rparr>))))"

text \<open>The method \<open>resolve\<close> of the class: the nesting depth is bounded by the tokens bound.\<close>

definition resolve_token :: "'v resolver" where
  "resolve_token t c = resolve (Suc (length (entries c))) t c"

definition safe_resolve :: "token \<Rightarrow> 'v container \<Rightarrow> 'v outcome option \<times> 'v container" where
  "safe_resolve t c =
     (if \<not> has c t then (None, c)
      else let (r, c') = resolve_token t c in (Some r, c'))"

section \<open>What a resolution leaves unchanged\<close>

text \<open>
  \<open>frame c c'\<close>: the same tokens are bound and being resolved, and the only difference is that
  singletons that were neither cached nor being resolved may have been cached.
\<close>

definition may_cache :: "bool \<Rightarrow> 'v entry \<Rightarrow> 'v entry \<Rightarrow> bool" where
  "may_cache busy e e' = (e' = e \<or>
     (\<not> busy \<and> ent_singleton e \<and> ent_cache e = None \<and> (\<exists>v. e' = e\<lparr>ent_cache := Some v\<rparr>)))"

definition frame :: "'v container \<Rightarrow> 'v container \<Rightarrow> bool" where
  "frame c c' = (resolving c' = resolving c \<and> jm_keys (entries c') = jm_keys (entries c) \<and>
     (\<forall>t e. jm_get (entries c) t = Some e \<longrightarrow>
       (\<exists>e'. jm_get (entries c') t = Some e' \<and> may_cache (t \<in> set (resolving c)) e e')))"

lemma may_cache_trans: "may_cache b e e' \<Longrightarrow> may_cache b e' e'' \<Longrightarrow> may_cache b e e''"
  by (auto simp: may_cache_def)

lemma frame_refl [simp]: "frame c c"
  by (auto simp: frame_def may_cache_def)

lemma frame_trans: "frame c c' \<Longrightarrow> frame c' c'' \<Longrightarrow> frame c c''"
  unfolding frame_def by (metis may_cache_trans)

lemma frame_resolving: "frame c c' \<Longrightarrow> resolving c' = resolving c"
  by (simp add: frame_def)

lemma frame_keys: "frame c c' \<Longrightarrow> jm_keys (entries c') = jm_keys (entries c)"
  by (simp add: frame_def)

lemma frame_length: "frame c c' \<Longrightarrow> length (entries c') = length (entries c)"
  unfolding frame_def jm_keys_def by (metis length_map)

lemma frame_busy:
  "frame c c' \<Longrightarrow> t \<in> set (resolving c) \<Longrightarrow> jm_get (entries c) t = Some e \<Longrightarrow>
   jm_get (entries c') t = Some e"
  by (auto simp: frame_def may_cache_def)

lemma exec_frame:
  assumes "\<And>t c. frame c (snd (rs t c))"
  shows "frame c (snd (exec rs p c))"
proof (induction p arbitrary: c)
  case (CallResolve t k)
  obtain r c' where rc: "rs t c = (r, c')" by (cases "rs t c")
  with assms [of c t] have f: "frame c c'" by simp
  have "frame c' (snd (exec rs (k x) c'))" for x
    by (rule CallResolve.IH) simp
  with f rc show ?case by (auto split: outcome.splits intro: frame_trans)
qed simp_all

lemma exec_decorators_frame:
  assumes "\<And>t c. frame c (snd (rs t c))"
  shows "frame c (snd (exec_decorators rs ds (r, c)))"
proof (induction ds arbitrary: r c)
  case (Cons d ds)
  show ?case
  proof (cases r)
    case (Returned v)
    obtain r' c' where rc: "exec rs (d v) c = (r', c')" by (cases "exec rs (d v) c")
    have "frame c c'" using exec_frame [of rs c "d v", OF assms] rc by simp
    moreover have "frame c' (snd (exec_decorators rs ds (r', c')))" by (rule Cons.IH)
    ultimately show ?thesis using Returned rc by (auto intro: frame_trans)
  qed auto
qed simp

text \<open>The body of a resolution, after the early returns, as one state transformer.\<close>

lemma frame_after_body:
  assumes e: "jm_get (entries c) t = Some e" and nc: "\<not> (ent_singleton e \<and> ent_cache e \<noteq> None)"
    and nb: "t \<notin> set (resolving c)"
    and f: "frame (c\<lparr>resolving := js_add t (resolving c)\<rparr>) c'"
    and c'': "c'' = c' \<or> (\<exists>v. c'' = store_cache t v c')"
  shows "frame c (c''\<lparr>resolving := js_remove t (resolving c'')\<rparr>)"
proof -
  let ?c1 = "c\<lparr>resolving := js_add t (resolving c)\<rparr>"
  have t: "jm_get (entries c') t = Some e"
    using frame_busy [OF f, of t e] e by (simp add: js_add_def)
  have res: "js_remove t (resolving c'') = resolving c"
    using c'' frame_resolving [OF f] nb by (auto simp: store_cache_def js_add_def js_remove_snoc)
  have keys: "jm_keys (entries c'') = jm_keys (entries c)"
    using c'' frame_keys [OF f] by (auto simp: store_cache_def)
  have "\<exists>e''. jm_get (entries c'') s = Some e'' \<and> may_cache (s \<in> set (resolving c)) es e''"
    if s: "jm_get (entries c) s = Some es" for s es
  proof (cases "s = t")
    case True
    with c'' t e s nc nb show ?thesis by (auto simp: store_cache_def may_cache_def)
  next
    case False
    with f s obtain e' where "jm_get (entries c') s = Some e'"
      and "may_cache (s \<in> set (js_add t (resolving c))) es e'"
      unfolding frame_def by force
    with False c'' show ?thesis by (auto simp: store_cache_def may_cache_def)
  qed
  with res keys show ?thesis by (simp add: frame_def)
qed

lemma resolve_unbound:
  "jm_get (entries c) t = None \<Longrightarrow>
   resolve (Suc n) t c = (Raised (WS (container_error CONTAINER_TOKEN_NOT_BOUND t [])), c)"
  by simp

lemma resolve_cached:
  "jm_get (entries c) t = Some e \<Longrightarrow> ent_singleton e \<Longrightarrow> ent_cache e = Some v \<Longrightarrow>
   resolve (Suc n) t c = (Returned v, c)"
  by simp

definition uncached :: "'v entry \<Rightarrow> bool" where
  "uncached e = (\<not> (ent_singleton e \<and> ent_cache e \<noteq> None))"

lemma resolve_busy:
  "jm_get (entries c) t = Some e \<Longrightarrow> uncached e \<Longrightarrow> t \<in> set (resolving c) \<Longrightarrow>
   resolve (Suc n) t c = (Raised (WS (circular_error c t)), c)"
  by (cases "ent_singleton e"; cases "ent_cache e") (simp_all add: uncached_def)

definition run_entry :: "'v resolver \<Rightarrow> token \<Rightarrow> 'v entry \<Rightarrow> 'v container \<Rightarrow> 'v outcome \<times> 'v container"
  where
  "run_entry rs t e c = exec_decorators rs (ent_decorators e)
     (exec rs (ent_factory e) (c\<lparr>resolving := js_add t (resolving c)\<rparr>))"

definition leave :: "token \<Rightarrow> 'v outcome \<times> 'v container \<Rightarrow> 'v outcome \<times> 'v container" where
  "leave t rc =
     (let c' = (case fst rc of Returned v \<Rightarrow> store_cache t v (snd rc) | _ \<Rightarrow> snd rc)
      in (fst rc, c'\<lparr>resolving := js_remove t (resolving c')\<rparr>))"

lemma resolve_build:
  assumes "jm_get (entries c) t = Some e" "uncached e" "t \<notin> set (resolving c)"
  shows "resolve (Suc n) t c = leave t (run_entry (resolve n) t e c)"
  using assms
  by (cases "ent_singleton e"; cases "ent_cache e")
    (simp_all add: uncached_def leave_def run_entry_def case_prod_beta Let_def)

lemma resolve_cases [case_names unbound cached busy build]:
  assumes "jm_get (entries c) t = None \<Longrightarrow> P"
    and "\<And>e v. jm_get (entries c) t = Some e \<Longrightarrow> ent_singleton e \<Longrightarrow> ent_cache e = Some v \<Longrightarrow> P"
    and "\<And>e. jm_get (entries c) t = Some e \<Longrightarrow> uncached e \<Longrightarrow> t \<in> set (resolving c) \<Longrightarrow> P"
    and "\<And>e. jm_get (entries c) t = Some e \<Longrightarrow> uncached e \<Longrightarrow> t \<notin> set (resolving c) \<Longrightarrow> P"
  shows P
proof (cases "jm_get (entries c) t")
  case (Some e)
  with assms(2-4) show P by (cases "ent_cache e") (auto simp: uncached_def)
qed (rule assms(1))

lemmas resolve_eqs = resolve_unbound resolve_cached resolve_busy resolve_build

declare resolve.simps(2) [simp del]

lemma run_entry_frame:
  assumes "\<And>t c. frame c (snd (rs t c))"
  shows "frame (c\<lparr>resolving := js_add t (resolving c)\<rparr>) (snd (run_entry rs t e c))"
proof -
  let ?c1 = "c\<lparr>resolving := js_add t (resolving c)\<rparr>"
  obtain r1 c2 where rc1: "exec rs (ent_factory e) ?c1 = (r1, c2)" by fastforce
  have "frame ?c1 c2" using exec_frame [of rs ?c1 "ent_factory e", OF assms] rc1 by simp
  also have "frame c2 (snd (exec_decorators rs (ent_decorators e) (r1, c2)))"
    by (rule exec_decorators_frame [OF assms])
  finally (frame_trans) show ?thesis by (simp add: run_entry_def rc1)
qed

lemma leave_frame:
  assumes "jm_get (entries c) t = Some e" "uncached e" "t \<notin> set (resolving c)"
    and "frame (c\<lparr>resolving := js_add t (resolving c)\<rparr>) (snd rc)"
  shows "frame c (snd (leave t rc))"
proof -
  let ?c' = "case fst rc of Returned v \<Rightarrow> store_cache t v (snd rc) | _ \<Rightarrow> snd rc"
  have "?c' = snd rc \<or> (\<exists>v. ?c' = store_cache t v (snd rc))" by (cases "fst rc") auto
  from frame_after_body [OF assms(1) _ assms(3,4) this] assms(2) show ?thesis
    by (simp add: leave_def uncached_def Let_def)
qed

lemma resolve_frame: "frame c (snd (resolve n t c))"
proof (induction n arbitrary: t c)
  case (Suc n)
  show ?case
  proof (cases rule: resolve_cases [of c t])
    case (build e)
    with leave_frame [OF build run_entry_frame [OF Suc.IH]] show ?thesis
      by (simp add: resolve_build)
  qed (simp_all add: resolve_eqs)
qed simp

section \<open>Enough fuel\<close>

definition free_tokens :: "'v container \<Rightarrow> nat" where
  "free_tokens c = card (set (jm_keys (entries c)) - set (resolving c))"

lemma free_tokens_frame: "frame c c' \<Longrightarrow> free_tokens c' = free_tokens c"
  by (simp add: free_tokens_def frame_def)

lemma free_tokens_le: "free_tokens c \<le> length (entries c)"
proof -
  have "free_tokens c \<le> card (set (jm_keys (entries c)))"
    unfolding free_tokens_def by (intro card_mono) auto
  also have "\<dots> \<le> length (jm_keys (entries c))" by (rule card_length)
  finally show ?thesis by (simp add: jm_keys_def)
qed

lemma free_tokens_enter:
  assumes "jm_get (entries c) t = Some e" "t \<notin> set (resolving c)"
  shows "free_tokens (c\<lparr>resolving := js_add t (resolving c)\<rparr>) < free_tokens c"
proof -
  have "t \<in> set (jm_keys (entries c))" using assms(1) jm_has_keys [of "entries c" t]
    by (simp add: jm_has_def)
  with assms(2) show ?thesis
    unfolding free_tokens_def by (intro psubset_card_mono) auto
qed

lemma exec_no_fuel:
  assumes frames: "\<And>t c. frame c (snd (rs t c))"
    and fine: "\<And>t c'. frame c c' \<Longrightarrow> fst (rs t c') \<noteq> OutOfFuel"
  shows "fst (exec rs p c) \<noteq> OutOfFuel"
  using fine
proof (induction p arbitrary: c)
  case (CallResolve t k)
  obtain r c' where rc: "rs t c = (r, c')" by (cases "rs t c")
  have f: "frame c c'" using frames [of c t] rc by simp
  have r: "r \<noteq> OutOfFuel" using CallResolve.prems [of c t] rc by simp
  have fine': "fst (rs s c'') \<noteq> OutOfFuel" if "frame c' c''" for s c''
    using CallResolve.prems frame_trans [OF f that] by blast
  have "fst (exec rs (k x) c') \<noteq> OutOfFuel" for x
    by (rule CallResolve.IH [OF _ fine']) auto
  with r rc show ?case by (auto split: outcome.splits)
qed simp_all

lemma exec_decorators_no_fuel:
  assumes frames: "\<And>t c. frame c (snd (rs t c))"
    and fine: "\<And>t c'. frame c c' \<Longrightarrow> fst (rs t c') \<noteq> OutOfFuel" and r: "r \<noteq> OutOfFuel"
  shows "fst (exec_decorators rs ds (r, c)) \<noteq> OutOfFuel"
  using fine r
proof (induction ds arbitrary: r c)
  case (Cons d ds)
  show ?case
  proof (cases r)
    case (Returned v)
    obtain r' c' where rc: "exec rs (d v) c = (r', c')" by fastforce
    have f: "frame c c'" using exec_frame [of rs c "d v", OF frames] rc by simp
    have "r' \<noteq> OutOfFuel"
      using exec_no_fuel [of rs c "d v", OF frames Cons.prems(1)] rc by simp
    moreover have "fst (rs s c'') \<noteq> OutOfFuel" if "frame c' c''" for s c''
      using Cons.prems(1) frame_trans [OF f that] by blast
    ultimately have "fst (exec_decorators rs ds (r', c')) \<noteq> OutOfFuel"
      by (intro Cons.IH)
    then show ?thesis using Returned rc by simp
  qed (use Cons.prems in auto)
qed simp

lemma run_entry_no_fuel:
  assumes frames: "\<And>t c. frame c (snd (rs t c))"
    and fine: "\<And>s c'. frame (c\<lparr>resolving := js_add t (resolving c)\<rparr>) c' \<Longrightarrow>
      fst (rs s c') \<noteq> OutOfFuel"
  shows "fst (run_entry rs t e c) \<noteq> OutOfFuel"
proof -
  let ?c1 = "c\<lparr>resolving := js_add t (resolving c)\<rparr>"
  obtain r1 c2 where rc1: "exec rs (ent_factory e) ?c1 = (r1, c2)" by fastforce
  have f: "frame ?c1 c2" using exec_frame [of rs ?c1 "ent_factory e", OF frames] rc1 by simp
  have "r1 \<noteq> OutOfFuel" using exec_no_fuel [of rs ?c1 "ent_factory e", OF frames fine] rc1 by simp
  moreover have "fst (rs s c'') \<noteq> OutOfFuel" if "frame c2 c''" for s c''
    using fine frame_trans [OF f that] by blast
  ultimately have "fst (exec_decorators rs (ent_decorators e) (r1, c2)) \<noteq> OutOfFuel"
    by (intro exec_decorators_no_fuel frames)
  then show ?thesis by (simp add: run_entry_def rc1)
qed

lemma resolve_enough_fuel: "free_tokens c < n \<Longrightarrow> fst (resolve n t c) \<noteq> OutOfFuel"
proof (induction n arbitrary: t c)
  case (Suc n)
  show ?case
  proof (cases rule: resolve_cases [of c t])
    case (build e)
    from free_tokens_enter [OF build(1,3)] Suc.prems
    have "free_tokens (c\<lparr>resolving := js_add t (resolving c)\<rparr>) < n" by simp
    then have "fst (run_entry (resolve n) t e c) \<noteq> OutOfFuel"
      by (intro run_entry_no_fuel resolve_frame Suc.IH) (simp add: free_tokens_frame)
    with build show ?thesis by (simp add: resolve_build leave_def Let_def)
  qed (simp_all add: resolve_eqs)
qed simp

section \<open>More fuel changes nothing\<close>

text \<open>\<open>agree c rs rs'\<close>: two resolvers give the same answers in every state a run from \<open>c\<close> reaches.\<close>

definition agree :: "'v container \<Rightarrow> 'v resolver \<Rightarrow> 'v resolver \<Rightarrow> bool" where
  "agree c rs rs' = (\<forall>t c'. frame c c' \<longrightarrow> rs t c' = rs' t c')"

lemma agree_frame: "agree c rs rs' \<Longrightarrow> frame c c' \<Longrightarrow> agree c' rs rs'"
  unfolding agree_def by (blast intro: frame_trans)

lemma agree_at: "agree c rs rs' \<Longrightarrow> rs t c = rs' t c"
  by (simp add: agree_def)

lemma exec_agree:
  assumes frames: "\<And>t c. frame c (snd (rs t c))"
  shows "agree c rs rs' \<Longrightarrow> exec rs p c = exec rs' p c"
proof (induction p arbitrary: c)
  case (CallResolve t k)
  obtain r c' where rc: "rs t c = (r, c')" by (cases "rs t c")
  have f: "frame c c'" using frames [of c t] rc by simp
  have "exec rs (k x) c' = exec rs' (k x) c'" for x
    by (rule CallResolve.IH) (auto intro: agree_frame [OF CallResolve.prems f])
  moreover have "rs' t c = (r, c')" using agree_at [OF CallResolve.prems, of t] rc by simp
  ultimately show ?case using rc by (simp split: outcome.split)
qed simp_all

lemma exec_decorators_agree:
  assumes frames: "\<And>t c. frame c (snd (rs t c))"
  shows "agree c rs rs' \<Longrightarrow> exec_decorators rs ds (r, c) = exec_decorators rs' ds (r, c)"
proof (induction ds arbitrary: r c)
  case (Cons d ds)
  show ?case
  proof (cases r)
    case (Returned v)
    obtain r' c' where rc: "exec rs (d v) c = (r', c')" by fastforce
    have f: "frame c c'" using exec_frame [of rs c "d v", OF frames] rc by simp
    have "exec rs' (d v) c = (r', c')" using exec_agree [OF frames Cons.prems] rc by simp
    with Returned rc Cons.IH [OF agree_frame [OF Cons.prems f]] show ?thesis by simp
  qed auto
qed simp

lemma run_entry_agree:
  assumes frames: "\<And>t c. frame c (snd (rs t c))"
    and a: "agree (c\<lparr>resolving := js_add t (resolving c)\<rparr>) rs rs'"
  shows "run_entry rs t e c = run_entry rs' t e c"
proof -
  let ?c1 = "c\<lparr>resolving := js_add t (resolving c)\<rparr>"
  obtain r1 c2 where rc1: "exec rs (ent_factory e) ?c1 = (r1, c2)" by fastforce
  have f: "frame ?c1 c2" using exec_frame [of rs ?c1 "ent_factory e", OF frames] rc1 by simp
  have "exec rs' (ent_factory e) ?c1 = (r1, c2)" using exec_agree [OF frames a] rc1 by simp
  with rc1 exec_decorators_agree [OF frames agree_frame [OF a f]] show ?thesis
    by (simp add: run_entry_def)
qed

lemma resolve_fuel_irrelevant:
  "free_tokens c < n \<Longrightarrow> free_tokens c < m \<Longrightarrow> resolve n t c = resolve m t c"
proof (induction n arbitrary: m t c)
  case (Suc n)
  then obtain m' where m: "m = Suc m'" by (cases m) auto
  show ?case
  proof (cases rule: resolve_cases [of c t])
    case (build e)
    let ?c1 = "c\<lparr>resolving := js_add t (resolving c)\<rparr>"
    from free_tokens_enter [OF build(1,3)] Suc.prems m
    have lt: "free_tokens ?c1 < n" "free_tokens ?c1 < m'" by simp_all
    have "agree ?c1 (resolve n) (resolve m')"
      unfolding agree_def by (auto intro: Suc.IH simp: free_tokens_frame lt)
    from run_entry_agree [OF resolve_frame this] build m show ?thesis
      by (simp add: resolve_build)
  qed (simp_all add: resolve_eqs m)
qed simp

lemma resolve_token_eq: "free_tokens c < n \<Longrightarrow> resolve n t c = resolve_token t c"
  unfolding resolve_token_def by (rule resolve_fuel_irrelevant) (simp_all add: free_tokens_le le_imp_less_Suc)

lemma resolve_token_frame: "frame c (snd (resolve_token t c))"
  by (simp add: resolve_token_def resolve_frame)

lemma resolve_token_total: "fst (resolve_token t c) \<noteq> OutOfFuel"
  unfolding resolve_token_def by (rule resolve_enough_fuel) (simp add: free_tokens_le le_imp_less_Suc)

text \<open>The equations of the method, without fuel.\<close>

lemma resolve_token_build:
  assumes e: "jm_get (entries c) t = Some e" "uncached e" "t \<notin> set (resolving c)"
  shows "resolve_token t c = leave t (run_entry resolve_token t e c)"
proof -
  let ?c1 = "c\<lparr>resolving := js_add t (resolving c)\<rparr>"
  have "free_tokens ?c1 < length (entries c)"
    using free_tokens_enter [OF e(1,3)] free_tokens_le [of c] by simp
  then have "agree ?c1 (resolve (length (entries c))) resolve_token"
    unfolding agree_def by (auto intro: resolve_token_eq simp: free_tokens_frame)
  from run_entry_agree [OF resolve_frame this] e show ?thesis
    by (simp add: resolve_token_def resolve_build)
qed

lemmas resolve_token_early =
  resolve_unbound [of c t "length (entries c)" for c t, folded resolve_token_def]
  resolve_cached [of c t e v "length (entries c)" for c t e v, folded resolve_token_def]
  resolve_busy [of c t e "length (entries c)" for c t e, folded resolve_token_def]

text \<open>After a successful resolution of a singleton its value is cached.\<close>

lemma resolve_token_caches:
  assumes e: "jm_get (entries c) t = Some e" "ent_singleton e"
    and ret: "resolve_token t c = (Returned v, c')"
  shows "\<exists>e'. jm_get (entries c') t = Some e' \<and> ent_singleton e' \<and> ent_cache e' = Some v"
proof (cases rule: resolve_cases [of c t])
  case (build e0)
  have e0: "e0 = e" using build(1) e(1) by simp
  let ?c1 = "c\<lparr>resolving := js_add t (resolving c)\<rparr>"
  obtain r c2 where rc: "run_entry resolve_token t e c = (r, c2)" by fastforce
  have "frame ?c1 c2"
    using run_entry_frame [of resolve_token t c e, OF resolve_token_frame] rc by simp
  then have "jm_get (entries c2) t = Some e"
    by (rule frame_busy) (simp_all add: e(1))
  moreover have "r = Returned v" "c' = (store_cache t v c2)\<lparr>resolving := js_remove t (resolving c2)\<rparr>"
    using ret resolve_token_build [OF build] rc e0
    by (auto simp: leave_def Let_def store_cache_def split: outcome.splits)
  ultimately show ?thesis using e(2) by (simp add: store_cache_def)
qed (use e ret in \<open>auto simp: resolve_token_early\<close>)

section \<open>Properties\<close>

text \<open>C10. Resolving a token always ends: whatever the factories and decorators do, the call
  returns a value or throws, never runs forever, and either way the set of tokens being resolved
  and the set of bound tokens are what they were before the call.\<close>

theorem resolve_total:
  "\<exists>r c'. resolve_token t c = (r, c') \<and> (\<exists>v. r = Returned v) \<noteq> (\<exists>e. r = Raised e) \<and>
     resolving c' = resolving c \<and> jm_keys (entries c') = jm_keys (entries c)"
proof -
  obtain r c' where rc: "resolve_token t c = (r, c')" by fastforce
  then show ?thesis
    using resolve_token_frame [of c t] resolve_token_total [of t c]
    by (cases r) (auto simp: frame_def)
qed

text \<open>A singleton is built once: after its resolution returned a value, resolving it again
  returns the same value and changes nothing, so no factory runs again.\<close>

theorem resolve_memoized:
  assumes "jm_get (entries c) t = Some e" "ent_singleton e"
    and "resolve_token t c = (Returned v, c')"
  shows "resolve_token t c' = (Returned v, c')"
  using resolve_token_caches [OF assms] by (auto intro: resolve_token_early(2))

definition tok_a :: token where "tok_a = Sym 0 (Some ''a'')"
definition tok_b :: token where "tok_b = Sym 1 (Some ''b'')"

definition default_options :: bind_options where
  "default_options = \<lparr>opt_singleton = None, opt_owner = None\<rparr>"

definition rethrow :: "nat exn + nat \<Rightarrow> nat prog" where
  "rethrow r = (case r of Inl _ \<Rightarrow> Throw 0 | Inr v \<Rightarrow> Ret (v + 1))"

text \<open>A container where \<open>a\<close> is built from \<open>b\<close> and \<open>b\<close> is a constant.\<close>

definition sample_entry :: "nat prog \<Rightarrow> nat entry" where
  "sample_entry p = \<lparr>ent_factory = p, ent_singleton = True, ent_decorators = [\<lambda>v. Ret (v * 2)],
     ent_cache = None, ent_owner = ''core''\<rparr>"

definition sample_container :: "nat container" where
  "sample_container = \<lparr>entries = [(tok_a, sample_entry (CallResolve tok_b rethrow)),
     (tok_b, sample_entry (Ret 7))], resolving = []\<rparr>"

lemmas sample_defs = sample_container_def sample_entry_def tok_a_def tok_b_def rethrow_def

lemma sample_resolves:
  "resolve_token tok_a sample_container =
     (Returned 30, \<lparr>entries =
       [(tok_a, (sample_entry (CallResolve tok_b rethrow))\<lparr>ent_cache := Some 30\<rparr>),
        (tok_b, (sample_entry (Ret 7))\<lparr>ent_cache := Some 14\<rparr>)], resolving = []\<rparr>)"
  by (simp add: resolve_token_def sample_defs resolve.simps jm_get_def js_add_def js_remove_def
      store_cache_def jm_update_def)

theorem resolve_memoized_witness:
  "resolve_token tok_a (snd (resolve_token tok_a sample_container)) =
     (Returned 30, snd (resolve_token tok_a sample_container))"
  unfolding sample_resolves snd_conv
  by (rule resolve_memoized [OF _ _ sample_resolves, of "sample_entry (CallResolve tok_b rethrow)"])
    (simp_all add: sample_defs jm_get_def)

text \<open>A token that is asked for again while it is being resolved is never entered a second
  time: the call throws \<open>CONTAINER_CIRCULAR_DEPENDENCY\<close>, and its cycle names the tokens in the
  order they were entered, ending with the one asked for again.\<close>

theorem reentry_is_circular:
  assumes "jm_get (entries c) t = Some e" "\<not> (ent_singleton e \<and> ent_cache e \<noteq> None)"
    and "t \<in> set (resolving c)" "distinct (resolving c)"
  shows "\<exists>err. resolve_token t c = (Raised (WS err), c) \<and>
     err_code err = CONTAINER_CIRCULAR_DEPENDENCY \<and>
     describe_cycle c t = map token_text (resolving c) @ [token_text t]"
  using resolve_token_early(3) [of c t e] assms
  by (simp add: uncached_def circular_error_def container_error_def describe_cycle_def
      js_dedup_distinct)

definition busy_container :: "nat container" where
  "busy_container = sample_container\<lparr>resolving := [tok_a, tok_b]\<rparr>"

theorem reentry_is_circular_witness:
  "\<exists>err. resolve_token tok_a busy_container = (Raised (WS err), busy_container) \<and>
     err_code err = CONTAINER_CIRCULAR_DEPENDENCY \<and>
     describe_cycle busy_container tok_a =
       map token_text (resolving busy_container) @ [token_text tok_a]"
  by (rule reentry_is_circular [of _ _ "sample_entry (CallResolve tok_b rethrow)"])
    (simp_all add: busy_container_def sample_defs jm_get_def)

end
