(* ===== verification/Pipeline.thy ===== *)
theory Pipeline
  imports Errors
begin

text \<open>
  The middleware pipeline, \<open>packages/core/src/kernel/pipeline.ts\<close>.

  A middleware's handler is client code: a \<open>mprog\<close> whose nodes are the calls of \<open>next\<close> it makes
  (it sees whether the call resolved or rejected, and may call again) and whose leaves resolve or
  reject. \<open>dispatch\<close> recurses over the part of the chain that is left. \<open>ps_index\<close> is the variable
  \<open>index\<close> of \<open>run\<close>; \<open>ps_log\<close> records which middleware was entered and which crash was logged.
  Calls of \<open>next\<close> are awaited one after the other.
\<close>

datatype 'e failure = ClientError 'e | PipelineError ws_error

datatype policy = Rethrow | Swallow

datatype ('v, 'e) mprog =
    Done 'v
  | Fail "'e failure"
  | Next 'v "('e failure + 'v) \<Rightarrow> ('v, 'e) mprog"

record ('v, 'e) middleware =
  mw_name :: string
  mw_handler :: "'v \<Rightarrow> ('v, 'e) mprog"
  mw_owner :: "string option"

record 'e pipeline_error_event =
  ev_middleware :: string
  ev_owner :: "string option"
  ev_err :: "'e failure"

text \<open>The error handler may itself throw (\<open>Inl\<close>).\<close>

type_synonym 'e error_handler = "'e pipeline_error_event \<Rightarrow> 'e failure + policy"

record ('v, 'e) pipeline =
  chain :: "('v, 'e) middleware list"
  error_handler :: "'e error_handler option"

definition chain_names :: "('v, 'e) pipeline \<Rightarrow> string list" where
  "chain_names p = map mw_name (chain p)"

definition size_of_chain :: "('v, 'e) pipeline \<Rightarrow> nat" where
  "size_of_chain p = length (chain p)"

section \<open>Changing the chain\<close>

definition set_error_handler ::
  "'e error_handler option \<Rightarrow> ('v, 'e) pipeline \<Rightarrow> ('v, 'e) pipeline" where
  "set_error_handler h p = p\<lparr>error_handler := h\<rparr>"

definition registry_error :: "error_code \<Rightarrow> string \<Rightarrow> ws_error" where
  "registry_error code name = mk_ws_error code SubContainer [(''middleware'', name)]"

definition ensure_unique :: "string \<Rightarrow> ('v, 'e) pipeline \<Rightarrow> ws_error + unit" where
  "ensure_unique name p =
     (if name \<in> set (chain_names p) then Inl (registry_error REGISTRY_DUPLICATE name) else Inr ())"

text \<open>\<open>findIndex\<close> by name; \<open>Inr None\<close> is the index -1 of the optional lookup.\<close>

fun find_name :: "string \<Rightarrow> ('v, 'e) middleware list \<Rightarrow> nat option" where
  "find_name n [] = None"
| "find_name n (m # ms) = (if mw_name m = n then Some 0 else map_option Suc (find_name n ms))"

definition index_of :: "string \<Rightarrow> bool \<Rightarrow> ('v, 'e) pipeline \<Rightarrow> ws_error + nat option" where
  "index_of name optional p =
     (case find_name name (chain p) of
        Some i \<Rightarrow> Inr (Some i)
      | None \<Rightarrow> if optional then Inr None else Inl (registry_error REGISTRY_NOT_FOUND name))"

definition splice_in :: "nat \<Rightarrow> 'a \<Rightarrow> 'a list \<Rightarrow> 'a list" where
  "splice_in i x xs = take i xs @ x # drop i xs"

definition splice_out :: "nat \<Rightarrow> 'a list \<Rightarrow> 'a list" where
  "splice_out i xs = take i xs @ drop (Suc i) xs"

definition use_mw :: "('v, 'e) middleware \<Rightarrow> ('v, 'e) pipeline \<Rightarrow> ws_error + ('v, 'e) pipeline"
  where
  "use_mw m p =
     (case ensure_unique (mw_name m) p of
        Inl e \<Rightarrow> Inl e
      | Inr _ \<Rightarrow> Inr (p\<lparr>chain := chain p @ [m]\<rparr>))"

definition prepend :: "('v, 'e) middleware \<Rightarrow> ('v, 'e) pipeline \<Rightarrow> ws_error + ('v, 'e) pipeline"
  where
  "prepend m p =
     (case ensure_unique (mw_name m) p of
        Inl e \<Rightarrow> Inl e
      | Inr _ \<Rightarrow> Inr (p\<lparr>chain := m # chain p\<rparr>))"

definition insert_at ::
  "int \<Rightarrow> ('v, 'e) middleware \<Rightarrow> ('v, 'e) pipeline \<Rightarrow> ws_error + ('v, 'e) pipeline" where
  "insert_at index m p =
     (case ensure_unique (mw_name m) p of
        Inl e \<Rightarrow> Inl e
      | Inr _ \<Rightarrow>
          let idx = nat (max 0 (min index (int (length (chain p)))))
          in Inr (p\<lparr>chain := splice_in idx m (chain p)\<rparr>))"

definition insert_before ::
  "string \<Rightarrow> ('v, 'e) middleware \<Rightarrow> bool \<Rightarrow> ('v, 'e) pipeline \<Rightarrow> ws_error + ('v, 'e) pipeline"
  where
  "insert_before target m optional p =
     (case ensure_unique (mw_name m) p of
        Inl e \<Rightarrow> Inl e
      | Inr _ \<Rightarrow>
          (case index_of target optional p of
             Inl e \<Rightarrow> Inl e
           | Inr None \<Rightarrow> Inr p
           | Inr (Some i) \<Rightarrow> Inr (p\<lparr>chain := splice_in i m (chain p)\<rparr>)))"

definition insert_after ::
  "string \<Rightarrow> ('v, 'e) middleware \<Rightarrow> bool \<Rightarrow> ('v, 'e) pipeline \<Rightarrow> ws_error + ('v, 'e) pipeline"
  where
  "insert_after target m optional p =
     (case ensure_unique (mw_name m) p of
        Inl e \<Rightarrow> Inl e
      | Inr _ \<Rightarrow>
          (case index_of target optional p of
             Inl e \<Rightarrow> Inl e
           | Inr None \<Rightarrow> Inr p
           | Inr (Some i) \<Rightarrow> Inr (p\<lparr>chain := splice_in (i + 1) m (chain p)\<rparr>)))"

definition replace_mw ::
  "string \<Rightarrow> ('v, 'e) middleware \<Rightarrow> bool \<Rightarrow> ('v, 'e) pipeline \<Rightarrow> ws_error + ('v, 'e) pipeline"
  where
  "replace_mw target m optional p =
     (case (if mw_name m \<noteq> target then ensure_unique (mw_name m) p else Inr ()) of
        Inl e \<Rightarrow> Inl e
      | Inr _ \<Rightarrow>
          (case index_of target optional p of
             Inl e \<Rightarrow> Inl e
           | Inr None \<Rightarrow> Inr p
           | Inr (Some i) \<Rightarrow> Inr (p\<lparr>chain := (chain p)[i := m]\<rparr>)))"

definition remove_mw ::
  "string \<Rightarrow> bool \<Rightarrow> ('v, 'e) pipeline \<Rightarrow> ws_error + ('v, 'e) pipeline" where
  "remove_mw name optional p =
     (case index_of name optional p of
        Inl e \<Rightarrow> Inl e
      | Inr None \<Rightarrow> Inr p
      | Inr (Some i) \<Rightarrow> Inr (p\<lparr>chain := splice_out i (chain p)\<rparr>))"

section \<open>Running\<close>

datatype log_event = Entered nat | SwallowedCrash string

record pstate =
  ps_index :: int
  ps_log :: "log_event list"

type_synonym ('v, 'e) continuation = "'v \<Rightarrow> pstate \<Rightarrow> ('e failure + 'v) \<times> pstate"

primrec run_handler ::
  "('v, 'e) continuation \<Rightarrow> ('v, 'e) mprog \<Rightarrow> pstate \<Rightarrow> ('e failure + 'v) \<times> pstate" where
  "run_handler nxt (Done v) = (\<lambda>s. (Inr v, s))"
| "run_handler nxt (Fail e) = (\<lambda>s. (Inl e, s))"
| "run_handler nxt (Next v k) = (\<lambda>s. case nxt v s of (r, s') \<Rightarrow> run_handler nxt (k r) s')"

text \<open>The middleware an illegal second call of \<open>next\<close> is reported against: \<open>chain[index]\<close>.\<close>

definition offender :: "('v, 'e) middleware list \<Rightarrow> pstate \<Rightarrow> string option" where
  "offender ms s =
     (if 0 \<le> ps_index s \<and> nat (ps_index s) < length ms
      then Some (mw_name (ms ! nat (ps_index s))) else None)"

definition next_twice :: "('v, 'e) middleware list \<Rightarrow> pstate \<Rightarrow> 'e failure" where
  "next_twice ms s = PipelineError (mk_ws_error VALIDATION_ERROR SubContainer
     (case offender ms s of None \<Rightarrow> [] | Some n \<Rightarrow> [(''middleware'', n)]))"

definition settle ::
  "'e error_handler option \<Rightarrow> ('v, 'e) middleware \<Rightarrow> 'v \<Rightarrow> ('e failure + 'v) \<times> pstate \<Rightarrow>
   ('e failure + 'v) \<times> pstate" where
  "settle eh m v rs =
     (case rs of
        (Inr r, s) \<Rightarrow> (Inr r, s)
      | (Inl err, s) \<Rightarrow>
          (case eh of
             None \<Rightarrow> (Inl err, s)
           | Some h \<Rightarrow>
               (case h \<lparr>ev_middleware = mw_name m, ev_owner = mw_owner m, ev_err = err\<rparr> of
                  Inl err2 \<Rightarrow> (Inl err2, s)
                | Inr Rethrow \<Rightarrow> (Inl err, s)
                | Inr Swallow \<Rightarrow>
                    (Inr v, s\<lparr>ps_log := ps_log s @ [SwallowedCrash (mw_name m)]\<rparr>))))"

fun dispatch ::
  "('v, 'e) middleware list \<Rightarrow> 'e error_handler option \<Rightarrow> ('v, 'e) middleware list \<Rightarrow> nat \<Rightarrow>
   ('v, 'e) continuation" where
  "dispatch ms eh [] i v s =
     (if int i \<le> ps_index s then (Inl (next_twice ms s), s)
      else (Inr v, s\<lparr>ps_index := int i\<rparr>))"
| "dispatch ms eh (m # rest) i v s =
     (if int i \<le> ps_index s then (Inl (next_twice ms s), s)
      else settle eh m v
        (run_handler (dispatch ms eh rest (i + 1)) (mw_handler m v)
           (s\<lparr>ps_index := int i, ps_log := ps_log s @ [Entered i]\<rparr>)))"

definition start_state :: pstate where
  "start_state = \<lparr>ps_index = -1, ps_log = []\<rparr>"

definition run_pipeline :: "('v, 'e) pipeline \<Rightarrow> 'v \<Rightarrow> ('e failure + 'v) \<times> log_event list" where
  "run_pipeline p input =
     (case dispatch (chain p) (error_handler p) (chain p) 0 input start_state of
        (r, s) \<Rightarrow> (r, ps_log s))"

section \<open>Each middleware is entered at most once\<close>

fun entered :: "log_event list \<Rightarrow> nat list" where
  "entered [] = []"
| "entered (Entered i # l) = i # entered l"
| "entered (SwallowedCrash n # l) = entered l"

lemma entered_append [simp]: "entered (l @ l') = entered l @ entered l'"
  by (induction l rule: entered.induct) auto

text \<open>\<open>advance n s s'\<close>: from \<open>s\<close> to \<open>s'\<close> the run of a chain of \<open>n\<close> middlewares entered those between the
  two indices, each once, in order and without leaving one out.\<close>

definition advance :: "nat \<Rightarrow> pstate \<Rightarrow> pstate \<Rightarrow> bool" where
  "advance n s s' \<longleftrightarrow> - 1 \<le> ps_index s \<and> ps_index s \<le> ps_index s' \<and>
     (\<exists>l. ps_log s' = ps_log s @ l \<and>
        entered l = [nat (ps_index s + 1)..<min n (nat (ps_index s' + 1))])"

lemma upt_min_append: "a \<le> b \<Longrightarrow> b \<le> c \<Longrightarrow> [a..<min n b] @ [b..<min n c] = [a..<min n c]"
  using upt_add_eq_append [of a b "min n c - b"] by (cases "b \<le> n") (auto simp: min_def)

lemma advance_refl [simp]: "- 1 \<le> ps_index s \<Longrightarrow> advance n s s"
  unfolding advance_def by (auto intro: exI [of _ "[]"])

lemma advance_trans: "advance n s s' \<Longrightarrow> advance n s' s'' \<Longrightarrow> advance n s s''"
proof -
  assume a: "advance n s s'" "advance n s' s''"
  then obtain l l' where "ps_log s'' = ps_log s @ l @ l'"
    "entered l = [nat (ps_index s + 1)..<min n (nat (ps_index s' + 1))]"
    "entered l' = [nat (ps_index s' + 1)..<min n (nat (ps_index s'' + 1))]"
    unfolding advance_def by (metis append_assoc)
  moreover have "nat (ps_index s + 1) \<le> nat (ps_index s' + 1)" "nat (ps_index s' + 1) \<le> nat (ps_index s'' + 1)"
    using a by (auto simp: advance_def)
  ultimately have "ps_log s'' = ps_log s @ (l @ l')"
    "entered (l @ l') = [nat (ps_index s + 1)..<min n (nat (ps_index s'' + 1))]"
    by (simp_all add: upt_min_append)
  with a show "advance n s s''" unfolding advance_def by (blast intro: order_trans)
qed

lemma advance_crash: "- 1 \<le> ps_index s \<Longrightarrow> advance n s (s\<lparr>ps_log := ps_log s @ [SwallowedCrash x]\<rparr>)"
  unfolding advance_def by (auto intro: exI [of _ "[SwallowedCrash x]"])

lemma advance_index: "ps_index s = int n - 1 \<Longrightarrow> advance n s (s\<lparr>ps_index := int n\<rparr>)"
  unfolding advance_def by (auto intro: exI [of _ "[]"])

lemma advance_enter:
  "ps_index s = int i - 1 \<Longrightarrow> i < n \<Longrightarrow>
   advance n s (s\<lparr>ps_index := int i, ps_log := ps_log s @ [Entered i]\<rparr>)"
proof -
  assume i: "ps_index s = int i - 1" "i < n"
  then have "min n (nat (int i + 1)) = Suc i" by simp
  with i show "advance n s (s\<lparr>ps_index := int i, ps_log := ps_log s @ [Entered i]\<rparr>)"
    unfolding advance_def by (auto intro!: exI [of _ "[Entered i]"])
qed

lemma run_handler_advance:
  assumes "\<And>v s. int i \<le> ps_index s \<Longrightarrow> advance n s (snd (nxt v s))"
  shows "int i \<le> ps_index s \<Longrightarrow> advance n s (snd (run_handler nxt p s))"
proof (induction p arbitrary: s)
  case (Next v k)
  obtain r s' where rs: "nxt v s = (r, s')" by fastforce
  with assms [OF Next.prems, of v] have s': "advance n s s'" by simp
  then have "int i \<le> ps_index s'" using Next.prems by (simp add: advance_def)
  then have "advance n s' (snd (run_handler nxt (k r) s'))" by (intro Next.IH) simp_all
  with s' show ?case using rs by (auto intro: advance_trans)
qed simp_all

lemma settle_advance: "- 1 \<le> ps_index s \<Longrightarrow> advance n s (snd (settle eh m v (r, s)))"
  by (auto simp: settle_def advance_crash split: sum.splits option.splits policy.splits)

lemma dispatch_advance:
  "i + length rest = n \<Longrightarrow> int i - 1 \<le> ps_index s \<Longrightarrow> advance n s (snd (dispatch ms eh rest i v s))"
proof (induction rest arbitrary: i v s)
  case Nil
  then show ?case by (auto simp: advance_index)
next
  case (Cons m rest)
  let ?s1 = "s\<lparr>ps_index := int i, ps_log := ps_log s @ [Entered i]\<rparr>"
  obtain r s2 where rs: "run_handler (dispatch ms eh rest (i + 1)) (mw_handler m v) ?s1 = (r, s2)"
    by fastforce
  have ih: "int i \<le> ps_index s \<Longrightarrow> advance n s (snd (dispatch ms eh rest (i + 1) v s))" for v s
    by (rule Cons.IH) (use Cons.prems in simp_all)
  have "advance n ?s1 s2"
    using run_handler_advance [of i n "dispatch ms eh rest (i + 1)" ?s1 "mw_handler m v", OF ih] rs by simp
  then have s2: "ps_index s = int i - 1 \<Longrightarrow> advance n s s2"
    using advance_trans [OF advance_enter] Cons.prems by simp
  have "ps_index s < int i \<Longrightarrow> advance n s (snd (settle eh m v (r, s2)))"
  proof -
    assume "ps_index s < int i"
    with s2 Cons.prems have a: "advance n s s2" by simp
    then have "- 1 \<le> ps_index s2" by (simp add: advance_def)
    from a settle_advance [OF this] show "advance n s (snd (settle eh m v (r, s2)))"
      by (rule advance_trans)
  qed
  then show ?case using rs Cons.prems by auto
qed

section \<open>Distinct names\<close>

lemma find_name_None: "find_name n ms = None \<longleftrightarrow> n \<notin> set (map mw_name ms)"
  by (induction ms) auto

lemma find_name_Some:
  "find_name n ms = Some i \<Longrightarrow> i < length ms \<and> mw_name (ms ! i) = n \<and> n \<notin> set (map mw_name (take i ms))"
  by (induction ms arbitrary: i) (auto split: if_splits)

lemma map_splice_in: "map f (splice_in i x xs) = splice_in i (f x) (map f xs)"
  by (simp add: splice_in_def take_map drop_map)

lemma map_splice_out: "map f (splice_out i xs) = splice_out i (map f xs)"
  by (simp add: splice_out_def take_map drop_map)

lemma set_splice_in: "set (splice_in i x xs) = insert x (set xs)"
  unfolding splice_in_def by (metis append_take_drop_id list.simps(15) set_append Un_insert_right)

lemma distinct_splice_in: "distinct (splice_in i x xs) \<longleftrightarrow> x \<notin> set xs \<and> distinct xs"
proof -
  have "distinct (a @ x # b) \<longleftrightarrow> x \<notin> set (a @ b) \<and> distinct (a @ b)" for a b by auto
  from this [of "take i xs" "drop i xs"] show ?thesis by (simp add: splice_in_def)
qed

lemma distinct_splice_out: "distinct xs \<Longrightarrow> distinct (splice_out i xs)"
  unfolding splice_out_def
  by (auto simp: distinct_take distinct_drop set_take_disj_set_drop_if_distinct)

lemma distinct_list_update_name:
  assumes "distinct xs" "i < length xs" "x = xs ! i \<or> x \<notin> set xs"
  shows "distinct (xs[i := x])"
  using assms by (auto simp: distinct_list_update)

lemma ensure_unique_Inr: "ensure_unique n p = Inr u \<longleftrightarrow> n \<notin> set (chain_names p)"
  by (auto simp: ensure_unique_def)

lemma index_of_Some:
  "index_of n opt p = Inr (Some i) \<Longrightarrow> i < length (chain p) \<and> mw_name (chain p ! i) = n \<and>
    n \<notin> set (map mw_name (take i (chain p)))"
  by (auto simp: index_of_def split: option.splits if_splits dest: find_name_Some)

datatype ('v, 'e) chain_op =
    Use "('v, 'e) middleware"
  | Prepend "('v, 'e) middleware"
  | InsertAt int "('v, 'e) middleware"
  | InsertBefore string "('v, 'e) middleware" bool
  | InsertAfter string "('v, 'e) middleware" bool
  | Replace string "('v, 'e) middleware" bool
  | Remove string bool

fun apply_chain_op :: "('v, 'e) chain_op \<Rightarrow> ('v, 'e) pipeline \<Rightarrow> ws_error + ('v, 'e) pipeline" where
  "apply_chain_op (Use m) p = use_mw m p"
| "apply_chain_op (Prepend m) p = prepend m p"
| "apply_chain_op (InsertAt i m) p = insert_at i m p"
| "apply_chain_op (InsertBefore t m b) p = insert_before t m b p"
| "apply_chain_op (InsertAfter t m b) p = insert_after t m b p"
| "apply_chain_op (Replace t m b) p = replace_mw t m b p"
| "apply_chain_op (Remove t b) p = remove_mw t b p"

text \<open>An operation that throws leaves the chain as it was.\<close>

definition chain_step :: "('v, 'e) chain_op \<Rightarrow> ('v, 'e) pipeline \<Rightarrow> ('v, 'e) pipeline" where
  "chain_step op p = (case apply_chain_op op p of Inl _ \<Rightarrow> p | Inr p' \<Rightarrow> p')"

lemmas chain_op_defs = use_mw_def prepend_def insert_at_def insert_before_def insert_after_def
  replace_mw_def remove_mw_def chain_names_def map_splice_in map_splice_out Let_def

lemma chain_op_distinct:
  assumes "distinct (chain_names p)" "apply_chain_op op p = Inr p'"
  shows "distinct (chain_names p')"
proof (cases op)
  case (Replace t m b)
  then show ?thesis using assms
    by (auto simp: chain_op_defs ensure_unique_Inr map_update split: sum.splits option.splits
        if_splits dest!: index_of_Some intro!: distinct_list_update_name)
qed (use assms in \<open>auto simp: chain_op_defs ensure_unique_Inr distinct_splice_in distinct_splice_out
      split: sum.splits option.splits if_splits\<close>)

interpretation chain_contract: state_contract chain_step "\<lambda>p. distinct (chain_names p)"
  by unfold_locales (auto simp: chain_step_def split: sum.splits intro: chain_op_distinct)

interpretation chain_registry: strict_registry chain_names mw_name "\<lambda>_. True" use_mw
  by unfold_locales (auto simp: use_mw_def ensure_unique_def chain_names_def)

section \<open>Well-behaved middleware\<close>

text \<open>A middleware that transforms the value, passes it on once, and transforms what comes back.\<close>

definition wrapping :: "string \<Rightarrow> ('v \<Rightarrow> 'v) \<Rightarrow> ('v \<Rightarrow> 'v) \<Rightarrow> ('v, 'e) middleware" where
  "wrapping n pre post = \<lparr>mw_name = n,
     mw_handler = (\<lambda>v. Next (pre v) (\<lambda>r. case r of Inl e \<Rightarrow> Fail e | Inr w \<Rightarrow> Done (post w))),
     mw_owner = None\<rparr>"

definition onion :: "(string \<times> ('v \<Rightarrow> 'v) \<times> ('v \<Rightarrow> 'v)) list \<Rightarrow> 'v \<Rightarrow> 'v" where
  "onion ws = foldr (\<lambda>(n, pre, post) inner. post \<circ> inner \<circ> pre) ws id"

lemma dispatch_wrapping:
  "ps_index s < int i \<Longrightarrow>
   \<exists>s'. dispatch ms eh (map (\<lambda>(n, pre, post). wrapping n pre post) ws) i v s = (Inr (onion ws v), s') \<and>
     ps_log s' = ps_log s @ map Entered [i..<i + length ws]"
proof (induction ws arbitrary: i v s)
  case Nil
  then show ?case by (simp add: onion_def)
next
  case (Cons w ws)
  obtain n pre post where w: "w = (n, pre, post)" by (cases w)
  let ?s1 = "s\<lparr>ps_index := int i, ps_log := ps_log s @ [Entered i]\<rparr>"
  obtain s' where s': "dispatch ms eh (map (\<lambda>(n, pre, post). wrapping n pre post) ws) (i + 1) (pre v) ?s1
      = (Inr (onion ws (pre v)), s')"
    and log: "ps_log s' = ps_log ?s1 @ map Entered [i + 1..<i + 1 + length ws]"
    using Cons.IH [of ?s1 "i + 1" "pre v"] by auto
  have "[i..<i + length (w # ws)] = i # [i + 1..<i + 1 + length ws]"
    using upt_rec [of i "i + length (w # ws)"] by simp
  with s' log w Cons.prems show ?case
    by (simp add: wrapping_def settle_def onion_def)
qed

section \<open>Properties\<close>

text \<open>C5. In one run of a pipeline the middlewares entered are exactly the first ones of the chain, up to
  some place in it: in the order of the chain, each once and none left out, whatever the handlers
  (which call \<open>next\<close> never, once or again, throw and catch) and the error handler do.\<close>

theorem run_enters_once_in_order:
  "\<exists>n \<le> size_of_chain p. entered (snd (run_pipeline p v)) = [0..<n]"
  using dispatch_advance [of 0 "chain p" "length (chain p)" start_state "chain p" "error_handler p" v]
  by (auto simp: run_pipeline_def advance_def start_state_def size_of_chain_def split: prod.splits
      intro: exI [of _ "min (length (chain p)) k" for k])

text \<open>Middleware that transform the value, call \<open>next\<close> once and transform the result compose like
  an onion: the run computes the composition, first middleware outermost, and enters all of them.\<close>

theorem run_is_onion:
  assumes "chain p = map (\<lambda>(n, pre, post). wrapping n pre post) ws"
  shows "run_pipeline p v = (Inr (onion ws v), map Entered [0..<length ws])"
  using dispatch_wrapping [of start_state 0 "chain p" "error_handler p" ws v] assms
  by (auto simp: run_pipeline_def start_state_def)

definition sample_pipeline :: "(int, string) pipeline" where
  "sample_pipeline = \<lparr>chain = [wrapping ''a'' (\<lambda>v. v + 1) (\<lambda>v. v * 10), wrapping ''b'' (\<lambda>v. v * 2) uminus],
     error_handler = None\<rparr>"

theorem run_is_onion_witness:
  "run_pipeline sample_pipeline 3 = (Inr (-80), [Entered 0, Entered 1])"
  using run_is_onion [of sample_pipeline
      "[(''a'', (\<lambda>v. v + 1), (\<lambda>v. v * 10)), (''b'', (\<lambda>v. v * 2), uminus)]" 3]
  by (simp add: sample_pipeline_def onion_def)

text \<open>With an error boundary that swallows, a run never rejects; and when the first middleware
  crashes, the run resolves to the very value it was given.\<close>

theorem swallowing_run_resolves:
  assumes "error_handler p = Some (\<lambda>_. Inr Swallow)"
  shows "(\<exists>r. fst (run_pipeline p v) = Inr r) \<and>
    (\<forall>m rest e. chain p = m # rest \<longrightarrow> mw_handler m v = Fail e \<longrightarrow>
       run_pipeline p v = (Inr v, [Entered 0, SwallowedCrash (mw_name m)]))"
  using assms
  by (cases "chain p") (auto simp: run_pipeline_def start_state_def settle_def
      split: prod.splits sum.splits)

definition crashing_pipeline :: "(int, string) pipeline" where
  "crashing_pipeline = \<lparr>chain = [\<lparr>mw_name = ''x'', mw_handler = (\<lambda>v. Fail (ClientError ''boom'')),
     mw_owner = None\<rparr>], error_handler = Some (\<lambda>_. Inr Swallow)\<rparr>"

theorem swallowing_run_resolves_witness:
  "run_pipeline crashing_pipeline 5 = (Inr 5, [Entered 0, SwallowedCrash ''x''])"
proof -
  have "error_handler crashing_pipeline = Some (\<lambda>_. Inr Swallow)" by (simp add: crashing_pipeline_def)
  from swallowing_run_resolves [OF this, of 5] show ?thesis by (simp add: crashing_pipeline_def)
qed

text \<open>Names stay distinct under any sequence of chain operations, and \<open>insertBefore\<close> puts the
  new middleware directly in front of its target, leaving the others in order.\<close>

theorem chain_operations_sound:
  assumes "distinct (chain_names p)"
  shows "distinct (chain_names (fold chain_step ops p)) \<and>
    (\<forall>t m q. t \<in> set (chain_names p) \<longrightarrow> mw_name m \<notin> set (chain_names p) \<longrightarrow>
       insert_before t m False p = Inr q \<longrightarrow>
       (\<exists>xs ys. chain_names p = xs @ t # ys \<and> chain_names q = xs @ mw_name m # t # ys))"
proof (intro conjI allI impI)
  show "distinct (chain_names (fold chain_step ops p))"
    using assms by (rule chain_contract.run_good)
next
  fix t m q
  assume q: "insert_before t m False p = Inr q" "mw_name m \<notin> set (chain_names p)"
  then obtain i where i: "index_of t False p = Inr (Some i)"
    and qc: "chain q = splice_in i m (chain p)"
    by (auto simp: insert_before_def index_of_def split: sum.splits option.splits if_splits)
  let ?xs = "map mw_name (take i (chain p))" and ?ys = "map mw_name (drop (Suc i) (chain p))"
  have "chain p = take i (chain p) @ chain p ! i # drop (Suc i) (chain p)"
    using index_of_Some [OF i] id_take_nth_drop by blast
  then have "chain_names p = ?xs @ t # ?ys" "chain_names q = ?xs @ mw_name m # t # ?ys"
    using index_of_Some [OF i] qc
    by (simp_all add: chain_names_def splice_in_def Cons_nth_drop_Suc [symmetric] take_map drop_map)
       (metis list.simps(9) map_append)
  then show "\<exists>xs ys. chain_names p = xs @ t # ys \<and> chain_names q = xs @ mw_name m # t # ys"
    by blast
qed

theorem chain_operations_sound_witness:
  "distinct (chain_names (fold chain_step
     [InsertBefore ''b'' (wrapping ''c'' id id) False, Use (wrapping ''a'' id id)] sample_pipeline))"
proof -
  have "distinct (chain_names sample_pipeline)"
    by (simp add: sample_pipeline_def chain_names_def wrapping_def)
  from conjunct1 [OF chain_operations_sound [OF this]] show ?thesis .
qed

text \<open>The error for a second call of \<open>next\<close> names the deepest middleware reached, not the one
  that called twice: here the culprit is \<open>a\<close> and the error blames \<open>b\<close>.\<close>

definition calls_next_twice :: "string \<Rightarrow> ('v, 'e) middleware" where
  "calls_next_twice n = \<lparr>mw_name = n, mw_handler = (\<lambda>v. Next v (\<lambda>_. Next v
     (\<lambda>r. case r of Inl e \<Rightarrow> Fail e | Inr w \<Rightarrow> Done w))), mw_owner = None\<rparr>"

theorem second_next_blames_downstream:
  "fst (run_pipeline \<lparr>chain = [calls_next_twice a, \<lparr>mw_name = b, mw_handler = Done, mw_owner = None\<rparr>],
       error_handler = None\<rparr> v) =
     Inl (PipelineError (mk_ws_error VALIDATION_ERROR SubContainer [(''middleware'', b)]))"
  by (simp add: run_pipeline_def start_state_def calls_next_twice_def settle_def next_twice_def
      offender_def)

end
