(* ===== verification/Run_Controller.thy ===== *)
theory Run_Controller
  imports Prelude
begin

text \<open>
  Abort and cleanup of one run, \<open>packages/core/src/kernel/run-controller.ts\<close>.

  A hook is known by the identity of its function; \<open>DetachParent\<close> is the hook the constructor
  registers to stop listening on the parent signal. \<open>rc_fired\<close> logs the hooks in the order they
  are started. What a hook does is client code; a hook that calls back into the controller is a
  later operation of the sequence. \<open>rc_pending\<close> is the microtask the constructor queues when the
  parent is already aborted, and \<open>Microtask\<close> the checkpoint that runs it.
\<close>

datatype hook = Hook nat | DetachParent

record run_controller =
  rc_aborted :: bool
  rc_reason :: "string option"
  rc_hooks :: "hook list"
  rc_disposed :: bool
  rc_drained :: bool
  rc_listening :: bool
  rc_pending :: bool
  rc_fired :: "hook list"

datatype parent_signal = NoParent | Parent bool "string option"

definition new_controller :: "parent_signal \<Rightarrow> run_controller" where
  "new_controller parent =
     (let c = \<lparr>rc_aborted = False, rc_reason = None, rc_hooks = [], rc_disposed = False,
               rc_drained = False, rc_listening = False, rc_pending = False, rc_fired = []\<rparr>
      in case parent of
           NoParent \<Rightarrow> c
         | Parent aborted reason \<Rightarrow>
             if aborted then c\<lparr>rc_aborted := True, rc_reason := reason, rc_pending := True\<rparr>
             else c\<lparr>rc_listening := True, rc_hooks := [DetachParent]\<rparr>)"

definition run_hooks :: "run_controller \<Rightarrow> run_controller" where
  "run_hooks c =
     (if rc_drained c then c
      else let snapshot = rev (rc_hooks c)
           in c\<lparr>rc_drained := True, rc_hooks := [], rc_fired := rc_fired c @ snapshot,
                rc_listening := rc_listening c \<and> DetachParent \<notin> set snapshot\<rparr>)"

definition abort_run :: "string option \<Rightarrow> run_controller \<Rightarrow> run_controller" where
  "abort_run reason c =
     (if rc_aborted c then c else run_hooks (c\<lparr>rc_aborted := True, rc_reason := reason\<rparr>))"

text \<open>The listener on the parent, registered with \<open>once\<close>.\<close>

definition parent_abort :: "string option \<Rightarrow> run_controller \<Rightarrow> run_controller" where
  "parent_abort reason c =
     (if rc_listening c then abort_run reason (c\<lparr>rc_listening := False\<rparr>) else c)"

definition on_abort :: "nat \<Rightarrow> run_controller \<Rightarrow> run_controller" where
  "on_abort h c =
     (if rc_drained c then c\<lparr>rc_fired := rc_fired c @ [Hook h]\<rparr>
      else c\<lparr>rc_hooks := rc_hooks c @ [Hook h]\<rparr>)"

definition unsubscribe_hook :: "nat \<Rightarrow> run_controller \<Rightarrow> run_controller" where
  "unsubscribe_hook h c = c\<lparr>rc_hooks := remove1 (Hook h) (rc_hooks c)\<rparr>"

definition dispose :: "run_controller \<Rightarrow> run_controller" where
  "dispose c = (if rc_disposed c then c else run_hooks (c\<lparr>rc_disposed := True\<rparr>))"

definition microtask :: "run_controller \<Rightarrow> run_controller" where
  "microtask c = (if rc_pending c then run_hooks (c\<lparr>rc_pending := False\<rparr>) else c)"

datatype rc_op =
    OnAbort nat | Unsubscribe nat | Abort "string option" | ParentAbort "string option"
  | Dispose | Microtask

fun rc_step :: "rc_op \<Rightarrow> run_controller \<Rightarrow> run_controller" where
  "rc_step (OnAbort h) c = on_abort h c"
| "rc_step (Unsubscribe h) c = unsubscribe_hook h c"
| "rc_step (Abort r) c = abort_run r c"
| "rc_step (ParentAbort r) c = parent_abort r c"
| "rc_step Dispose c = dispose c"
| "rc_step Microtask c = microtask c"

section \<open>Invariant\<close>

text \<open>Once drained no hook is waiting, and an abort that was not inherited has drained.\<close>

definition rc_inv :: "run_controller \<Rightarrow> bool" where
  "rc_inv c = ((rc_drained c \<longrightarrow> rc_hooks c = []) \<and>
     (rc_disposed c \<or> rc_aborted c \<and> \<not> rc_pending c \<longrightarrow> rc_drained c) \<and>
     (rc_listening c \<longrightarrow> \<not> rc_drained c))"

named_theorems rc_defs "definitions of the run controller's operations"
lemmas [rc_defs] = run_hooks_def abort_run_def parent_abort_def on_abort_def
  unsubscribe_hook_def dispose_def microtask_def Let_def

definition rc_full :: "run_controller \<Rightarrow> bool" where
  "rc_full c = (rc_inv c \<and> (rc_listening c \<longrightarrow> DetachParent \<in> set (rc_hooks c)))"

lemma rc_full_new: "rc_full (new_controller p)"
  by (cases p) (auto simp: new_controller_def rc_full_def rc_inv_def Let_def)

lemma remove1_other: "DetachParent \<in> set hs \<Longrightarrow> DetachParent \<in> set (remove1 (Hook h) hs)"
  by (induction hs) auto

lemma rc_full_step: "rc_full c \<Longrightarrow> rc_full (rc_step op c)"
  by (cases op) (auto simp: rc_full_def rc_inv_def rc_defs remove1_other)

interpretation rc_contract: state_contract rc_step rc_full
  by unfold_locales (rule rc_full_step)

lemma drained_step:
  assumes "rc_full c" "rc_drained c"
  shows "rc_drained (rc_step op c)" "rc_fired (rc_step op c) = rc_fired c @
    (case op of OnAbort h \<Rightarrow> [Hook h] | _ \<Rightarrow> [])"
  using assms by (cases op; simp add: rc_full_def rc_inv_def rc_defs)+

fun registered :: "rc_op list \<Rightarrow> hook list" where
  "registered [] = []"
| "registered (OnAbort h # ops) = Hook h # registered ops"
| "registered (op # ops) = registered ops"

lemma registered_Cons:
  "registered (op # ops) = (case op of OnAbort h \<Rightarrow> [Hook h] | _ \<Rightarrow> []) @ registered ops"
  by (cases op) auto

lemma drained_run:
  "rc_full c \<Longrightarrow> rc_drained c \<Longrightarrow>
   rc_fired (fold rc_step ops c) = rc_fired c @ registered ops"
proof (induction ops arbitrary: c)
  case (Cons op ops)
  then have "rc_fired (fold rc_step ops (rc_step op c)) = rc_fired (rc_step op c) @ registered ops"
    by (intro Cons.IH rc_full_step drained_step)
  then show ?case using drained_step [OF Cons.prems, of op] by (simp add: registered_Cons)
qed simp

lemma fold_on_abort:
  "\<not> rc_drained c \<Longrightarrow>
   fold rc_step (map OnAbort hs) c = c\<lparr>rc_hooks := rc_hooks c @ map Hook hs\<rparr>"
  by (induction hs arbitrary: c) (auto simp: on_abort_def)

section \<open>Properties\<close>

text \<open>Hooks fire exactly once and in reverse order of registration when the run is aborted or
  disposed, whichever comes first; later aborts and disposals fire nothing again, and a hook
  registered after that fires at once.\<close>

theorem hooks_fire_once_lifo:
  assumes "first \<in> {Dispose, Abort r}"
  shows "rc_fired (fold rc_step (map OnAbort hs @ first # later) (new_controller NoParent)) =
     rev (map Hook hs) @ registered later"
proof -
  let ?c = "fold rc_step (map OnAbort hs) (new_controller NoParent)"
  have full: "rc_full ?c" by (rule rc_contract.run_good) (rule rc_full_new)
  have c: "?c = (new_controller NoParent)\<lparr>rc_hooks := map Hook hs\<rparr>"
    using fold_on_abort [of "new_controller NoParent" hs] by (simp add: new_controller_def)
  have "rc_drained (rc_step first ?c)" "rc_fired (rc_step first ?c) = rev (map Hook hs)"
    using assms unfolding c by (auto simp: rc_defs new_controller_def)
  with drained_run [OF rc_full_step [OF full, of first], of later] show ?thesis by simp
qed

theorem hooks_fire_once_lifo_witness:
  "rc_fired (fold rc_step [OnAbort 1, OnAbort 2, Abort (Some ''stop''), Dispose, OnAbort 3]
     (new_controller NoParent)) = [Hook 2, Hook 1, Hook 3]"
  using hooks_fire_once_lifo [of "Abort (Some ''stop'')" "Some ''stop''" "[1, 2]"
      "[Dispose, OnAbort 3]"] by simp

text \<open>The life cycle of any controller: an abort that reached it has fired the hooks (or, when
  the parent was aborted before, will at the next microtask), a disposed controller has fired them,
  no hook waits in a drained controller, and the parent is listened to only while hooks wait.
  An abort after the disposal still marks the signal as aborted.\<close>

theorem controller_lifecycle:
  "rc_inv (fold rc_step ops (new_controller parent)) \<and>
   (rc_aborted (rc_step (Abort r) (rc_step Dispose (fold rc_step ops (new_controller parent)))))"
proof
  show "rc_inv (fold rc_step ops (new_controller parent))"
    using rc_contract.run_good [OF rc_full_new] by (simp add: rc_full_def)
  show "rc_aborted (rc_step (Abort r) (rc_step Dispose (fold rc_step ops (new_controller parent))))"
    by (simp add: rc_defs)
qed

end
