(* ===== verification/Js_String.thy ===== *)
theory Js_String
  imports Prelude "HOL-Library.Sublist"
begin

text \<open>
  The string operations of the runtime that the program uses, over lists of 8-bit characters:
  \<open>trim\<close>, \<open>toLowerCase\<close>, \<open>startsWith\<close>, \<open>includes\<close>, \<open>indexOf\<close>, \<open>split\<close> and \<open>join\<close>. Characters
  above U+00FF do not occur in this type.
\<close>

definition is_js_space :: "char \<Rightarrow> bool" where
  "is_js_space c = (of_char c \<in> {9, 10, 11, 12, 13, 32, 160 :: nat})"

definition js_trim :: "string \<Rightarrow> string" where
  "js_trim s = rev (dropWhile is_js_space (rev (dropWhile is_js_space s)))"

definition lower_char :: "char \<Rightarrow> char" where
  "lower_char c =
     (let n = of_char c :: nat
      in if (65 \<le> n \<and> n \<le> 90) \<or> (192 \<le> n \<and> n \<le> 222 \<and> n \<noteq> 215) then char_of (n + 32) else c)"

definition to_lower :: "string \<Rightarrow> string" where
  "to_lower s = map lower_char s"

definition starts_with :: "string \<Rightarrow> string \<Rightarrow> bool" where
  "starts_with s p = prefix p s"

definition ends_with :: "string \<Rightarrow> string \<Rightarrow> bool" where
  "ends_with s t = suffix t s"

fun str_includes :: "string \<Rightarrow> string \<Rightarrow> bool" where
  "str_includes [] t = (t = [])"
| "str_includes (c # s) t = (prefix t (c # s) \<or> str_includes s t)"

fun index_of_char :: "char \<Rightarrow> string \<Rightarrow> nat option" where
  "index_of_char c [] = None"
| "index_of_char c (d # s) = (if d = c then Some 0 else map_option Suc (index_of_char c s))"

fun js_join :: "string \<Rightarrow> string list \<Rightarrow> string" where
  "js_join sep [] = ''''"
| "js_join sep [s] = s"
| "js_join sep (s # t # ss) = s @ sep @ js_join sep (t # ss)"

fun js_split :: "char \<Rightarrow> string \<Rightarrow> string list" where
  "js_split sep [] = [[]]"
| "js_split sep (c # s) =
     (if c = sep then [] # js_split sep s
      else (case js_split sep s of [] \<Rightarrow> [[c]] | p # ps \<Rightarrow> (c # p) # ps))"

lemma js_split_not_Nil [simp]: "js_split sep s \<noteq> []"
  by (induction s) (auto split: list.splits)

lemma join_split: "js_join [sep] (js_split sep s) = s"
proof (induction s)
  case (Cons c s)
  then show ?case
    by (cases "js_split sep s"; cases "tl (js_split sep s)") (auto split: list.splits)
qed simp

lemma js_split_append:
  "js_split sep (a @ b) =
     butlast (js_split sep a) @ (last (js_split sep a) @ hd (js_split sep b)) # tl (js_split sep b)"
proof (induction a)
  case Nil
  then show ?case by (cases "js_split sep b") auto
next
  case (Cons x a)
  obtain q qs where "js_split sep a = q # qs" by (cases "js_split sep a") auto
  with Cons.IH show ?case by (cases qs) auto
qed

lemma js_split_at: "js_split c (a @ c # b) = js_split c a @ js_split c b"
proof (induction a)
  case (Cons d a)
  then show ?case by (cases "js_split c a") auto
qed simp

lemma js_split_append_last:
  "\<exists>part\<in>set (js_split sep (a @ b)). prefix (last (js_split sep a)) part"
  unfolding js_split_append by auto

lemma js_split_single: "sep \<notin> set p \<Longrightarrow> js_split sep p = [p]"
  by (induction p) auto

lemma js_split_parts: "part \<in> set (js_split sep s) \<Longrightarrow> sep \<notin> set part"
proof (induction s arbitrary: part)
  case (Cons c s)
  then show ?case by (cases "js_split sep s") (auto split: if_splits)
qed simp

lemma js_split_subset: "part \<in> set (js_split sep s) \<Longrightarrow> set part \<subseteq> set s"
proof (induction s arbitrary: part)
  case (Cons x s)
  obtain q qs where q: "js_split sep s = q # qs" by (cases "js_split sep s") auto
  with Cons.IH [of q] Cons.IH [of part] Cons.prems show ?case by (auto split: if_splits)
qed simp

lemma js_split_lines:
  "list_all (\<lambda>l. sep \<notin> set l) ls \<Longrightarrow> js_split sep (concat (map (\<lambda>l. l @ [sep]) ls)) = ls @ ['''']"
proof (induction ls)
  case (Cons l ls)
  then have "js_split sep (l @ [sep] @ concat (map (\<lambda>l. l @ [sep]) ls)) =
      butlast [l] @ (last [l] @ hd (js_split sep ([sep] @ concat (map (\<lambda>l. l @ [sep]) ls)))) #
        tl (js_split sep ([sep] @ concat (map (\<lambda>l. l @ [sep]) ls)))"
    using js_split_append [of sep l] js_split_single [of sep l] by simp
  with Cons show ?case by simp
qed simp

lemma index_of_char_None: "index_of_char c s = None \<longleftrightarrow> c \<notin> set s"
  by (induction s) auto

lemma index_of_char_Some:
  "index_of_char c s = Some i \<Longrightarrow> i < length s \<and> s ! i = c \<and> c \<notin> set (take i s)"
proof (induction s arbitrary: i)
  case (Cons d s)
  then show ?case by (cases i) (auto split: if_splits)
qed simp

lemma index_of_char_append: "c \<notin> set a \<Longrightarrow> index_of_char c (a @ c # b) = Some (length a)"
  by (induction a) auto

lemma str_includes_iff: "str_includes s t \<longleftrightarrow> sublist t s"
  by (induction s) (auto simp: sublist_Cons_right)

text \<open>The words between white space, \<open>split(/\s+/)\<close> without its empty parts; \<open>acc\<close> is the word begun.\<close>

fun js_words :: "string \<Rightarrow> string \<Rightarrow> string list" where
  "js_words acc [] = (if acc = [] then [] else [rev acc])"
| "js_words acc (c # s) =
     (if is_js_space c then (if acc = [] then js_words [] s else rev acc # js_words [] s)
      else js_words (c # acc) s)"

section \<open>Decimal numerals\<close>

text \<open>\<open>String(n)\<close> for a non-negative integer.\<close>

definition digit_char :: "nat \<Rightarrow> char" where
  "digit_char d = char_of (48 + d)"

definition is_digit :: "char \<Rightarrow> bool" where
  "is_digit c = (let n = of_char c :: nat in 48 \<le> n \<and> n \<le> 57)"

fun show_nat :: "nat \<Rightarrow> string" where
  "show_nat n = (if n < 10 then [digit_char n] else show_nat (n div 10) @ [digit_char (n mod 10)])"

declare show_nat.simps [simp del]

lemma is_digit_char: "d < 10 \<Longrightarrow> is_digit (digit_char d)"
  by (simp add: is_digit_def digit_char_def Let_def)

lemma show_nat_not_Nil [simp]: "show_nat n \<noteq> []"
  by (subst show_nat.simps) simp

lemma show_nat_digits: "list_all is_digit (show_nat n)"
proof (induction n rule: show_nat.induct)
  case (1 n)
  then show ?case by (subst show_nat.simps) (auto simp: is_digit_char)
qed

end
