(* ===== verification/Event_Bus.thy ===== *)
theory Event_Bus
  imports Js_String
begin

text \<open>
  The event bus and its scoped variant, \<open>packages/core/src/kernel/events.ts\<close>.

  Functions are known by identity (\<open>nat\<close>). A listener is a registered function or the wrapper that
  \<open>once\<close> makes, with the identity of the wrapper, the event, the wrapped function and, on a scoped
  bus, the registration key it drops. What a client function does to the bus when it is called, and
  whether it throws, is a parameter of \<open>emit\<close> (\<open>reaction\<close>). \<open>emit\<close> returns the calls it made, in
  order, with the calls that threw (the ones the logger reports). A plain bus is one whose
  registrations stay empty. A regular expression is the predicate it tests.
\<close>

datatype lid = Fn nat | OnceFn nat string nat "nat option"

datatype matcher = MatchAll | MatchPrefix string | MatchExact string | MatchRegex "string \<Rightarrow> bool"

record wild =
  w_id :: nat
  w_match :: matcher
  w_fn :: nat

datatype unsub = OffListener string lid | OffWild nat

record bus =
  listeners :: "(string, lid list) jsmap"
  wildcards :: "wild list"
  next_id :: nat
  registrations :: "(nat, unsub) jsmap"
  next_key :: nat

definition new_bus :: bus where
  "new_bus = \<lparr>listeners = [], wildcards = [], next_id = 0, registrations = [], next_key = 0\<rparr>"

section \<open>Pattern matchers\<close>

definition make_pattern_matcher :: "string \<Rightarrow> matcher" where
  "make_pattern_matcher pattern =
     (if pattern = ''*'' then MatchAll
      else if ends_with pattern ''.*'' then MatchPrefix (take (length pattern - 2) pattern @ ''.'')
      else MatchExact pattern)"

fun matches :: "matcher \<Rightarrow> string \<Rightarrow> bool" where
  "matches MatchAll e = True"
| "matches (MatchPrefix p) e = prefix p e"
| "matches (MatchExact p) e = (e = p)"
| "matches (MatchRegex f) e = f e"

section \<open>Subscribing\<close>

definition listeners_of :: "string \<Rightarrow> bus \<Rightarrow> lid list" where
  "listeners_of ev b = (case jm_get (listeners b) ev of None \<Rightarrow> [] | Some s \<Rightarrow> s)"

definition on :: "string \<Rightarrow> lid \<Rightarrow> bus \<Rightarrow> bus" where
  "on ev l b = b\<lparr>listeners := jm_set ev (js_add l (listeners_of ev b)) (listeners b)\<rparr>"

definition off :: "string \<Rightarrow> lid \<Rightarrow> bus \<Rightarrow> bus" where
  "off ev l b =
     (case jm_get (listeners b) ev of
        None \<Rightarrow> b
      | Some s \<Rightarrow>
          let s' = js_remove l s
          in b\<lparr>listeners := (if s' = [] then jm_del ev (listeners b)
                             else jm_set ev s' (listeners b))\<rparr>)"

definition once :: "string \<Rightarrow> nat \<Rightarrow> bus \<Rightarrow> unsub \<times> bus" where
  "once ev f b =
     (let l = OnceFn (next_id b) ev f None
      in (OffListener ev l, on ev l (b\<lparr>next_id := next_id b + 1\<rparr>)))"

definition add_wild :: "matcher \<Rightarrow> nat \<Rightarrow> bus \<Rightarrow> unsub \<times> bus" where
  "add_wild m f b =
     (OffWild (next_id b),
      b\<lparr>wildcards := wildcards b @ [\<lparr>w_id = next_id b, w_match = m, w_fn = f\<rparr>],
        next_id := next_id b + 1\<rparr>)"

definition on_pattern :: "string \<Rightarrow> nat \<Rightarrow> bus \<Rightarrow> unsub \<times> bus" where
  "on_pattern pattern f b = add_wild (make_pattern_matcher pattern) f b"

definition on_any :: "nat \<Rightarrow> bus \<Rightarrow> unsub \<times> bus" where
  "on_any f b = on_pattern ''*'' f b"

definition on_regex :: "(string \<Rightarrow> bool) \<Rightarrow> nat \<Rightarrow> bus \<Rightarrow> unsub \<times> bus" where
  "on_regex re f b = add_wild (MatchRegex re) f b"

definition remove_wild :: "nat \<Rightarrow> bus \<Rightarrow> bus" where
  "remove_wild i b = b\<lparr>wildcards := filter (\<lambda>w. w_id w \<noteq> i) (wildcards b)\<rparr>"

text \<open>Calling the function a subscription returned; the wrapper of a scoped \<open>once\<close> also drops
  its registration.\<close>

fun drop_key :: "nat option \<Rightarrow> bus \<Rightarrow> bus" where
  "drop_key None b = b"
| "drop_key (Some k) b = b\<lparr>registrations := jm_del k (registrations b)\<rparr>"

fun run_unsub :: "unsub \<Rightarrow> bus \<Rightarrow> bus" where
  "run_unsub (OffListener ev (Fn f)) b = off ev (Fn f) b"
| "run_unsub (OffListener ev (OnceFn i e f k)) b = off ev (OnceFn i e f k) (drop_key k b)"
| "run_unsub (OffWild i) b = remove_wild i b"

section \<open>Emitting\<close>

type_synonym reaction = "nat \<Rightarrow> bus \<Rightarrow> bool \<times> bus"

fun fire :: "reaction \<Rightarrow> lid \<Rightarrow> bus \<Rightarrow> bool \<times> bus" where
  "fire rx (Fn f) b = rx f b"
| "fire rx (OnceFn i ev f k) b = rx f (drop_key k (off ev (OnceFn i ev f k) b))"

datatype call = CallNamed lid bool | CallWild wild bool

fun deliver_named :: "reaction \<Rightarrow> lid list \<Rightarrow> bus \<Rightarrow> call list \<times> bus" where
  "deliver_named rx [] b = ([], b)"
| "deliver_named rx (l # ls) b =
     (case fire rx l b of (threw, b') \<Rightarrow>
      case deliver_named rx ls b' of (cs, b'') \<Rightarrow> (CallNamed l threw # cs, b''))"

fun deliver_wild :: "reaction \<Rightarrow> string \<Rightarrow> wild list \<Rightarrow> bus \<Rightarrow> call list \<times> bus" where
  "deliver_wild rx ev [] b = ([], b)"
| "deliver_wild rx ev (w # ws) b =
     (if \<not> matches (w_match w) ev then deliver_wild rx ev ws b
      else case rx (w_fn w) b of (threw, b') \<Rightarrow>
           case deliver_wild rx ev ws b' of (cs, b'') \<Rightarrow> (CallWild w threw # cs, b''))"

definition emit :: "reaction \<Rightarrow> string \<Rightarrow> bus \<Rightarrow> call list \<times> bus" where
  "emit rx ev b =
     (case deliver_named rx (listeners_of ev b) b of (cs1, b1) \<Rightarrow>
      case deliver_wild rx ev (wildcards b1) b1 of (cs2, b2) \<Rightarrow> (cs1 @ cs2, b2))"

definition emit_custom :: "reaction \<Rightarrow> string \<Rightarrow> bus \<Rightarrow> call list \<times> bus" where
  "emit_custom rx ev b = deliver_wild rx ev (wildcards b) b"

definition clear_bus :: "bus \<Rightarrow> bus" where
  "clear_bus b = b\<lparr>listeners := [], wildcards := []\<rparr>"

definition listener_count :: "string option \<Rightarrow> bus \<Rightarrow> nat" where
  "listener_count ev b =
     (case ev of
        Some e \<Rightarrow> length (listeners_of e b)
      | None \<Rightarrow> sum_list (map length (jm_values (listeners b))))"

definition wildcard_count :: "bus \<Rightarrow> nat" where
  "wildcard_count b = length (wildcards b)"

definition has_listener_for :: "string \<Rightarrow> bus \<Rightarrow> bool" where
  "has_listener_for ev b =
     (0 < length (listeners_of ev b) \<or> (\<exists>w \<in> set (wildcards b). matches (w_match w) ev))"

section \<open>The scoped bus\<close>

definition track :: "nat \<Rightarrow> unsub \<times> bus \<Rightarrow> (nat \<times> unsub) \<times> bus" where
  "track key ub =
     ((key, fst ub), (snd ub)\<lparr>registrations := jm_set key (fst ub) (registrations (snd ub))\<rparr>)"

definition take_key :: "bus \<Rightarrow> nat \<times> bus" where
  "take_key b = (next_key b, b\<lparr>next_key := next_key b + 1\<rparr>)"

definition scoped_on :: "string \<Rightarrow> nat \<Rightarrow> bus \<Rightarrow> (nat \<times> unsub) \<times> bus" where
  "scoped_on ev f b =
     (let (key, b) = take_key b in track key (OffListener ev (Fn f), on ev (Fn f) b))"

definition scoped_once :: "string \<Rightarrow> nat \<Rightarrow> bus \<Rightarrow> (nat \<times> unsub) \<times> bus" where
  "scoped_once ev f b =
     (let (key, b) = take_key b; l = OnceFn (next_id b) ev f (Some key)
      in track key (OffListener ev l, on ev l (b\<lparr>next_id := next_id b + 1\<rparr>)))"

definition scoped_on_pattern :: "string \<Rightarrow> nat \<Rightarrow> bus \<Rightarrow> (nat \<times> unsub) \<times> bus" where
  "scoped_on_pattern pattern f b =
     (let (key, b) = take_key b in track key (on_pattern pattern f b))"

definition scoped_on_any :: "nat \<Rightarrow> bus \<Rightarrow> (nat \<times> unsub) \<times> bus" where
  "scoped_on_any f b = (let (key, b) = take_key b in track key (on_pattern ''*'' f b))"

definition scoped_on_regex :: "(string \<Rightarrow> bool) \<Rightarrow> nat \<Rightarrow> bus \<Rightarrow> (nat \<times> unsub) \<times> bus" where
  "scoped_on_regex re f b = (let (key, b) = take_key b in track key (on_regex re f b))"

text \<open>The function a scoped subscription returns.\<close>

definition scoped_unsub :: "nat \<times> unsub \<Rightarrow> bus \<Rightarrow> bus" where
  "scoped_unsub ku b =
     run_unsub (snd ku) (b\<lparr>registrations := jm_del (fst ku) (registrations b)\<rparr>)"

definition teardown :: "bus \<Rightarrow> bus" where
  "teardown b =
     clear_bus ((fold run_unsub (jm_values (registrations b)) b)\<lparr>registrations := []\<rparr>)"

definition scoped_listener_count :: "bus \<Rightarrow> nat" where
  "scoped_listener_count b = length (registrations b)"

section \<open>Invariant\<close>

text \<open>No event keeps an empty listener set, a listener is registered once per event, a \<open>once\<close> wrapper
  sits under its own event, and identities and keys in use are below the counters.\<close>

fun lid_ok :: "nat \<Rightarrow> string \<Rightarrow> lid \<Rightarrow> bool" where
  "lid_ok n ev (Fn f) = True"
| "lid_ok n ev (OnceFn i e f k) = (e = ev \<and> i < n)"

definition listeners_ok :: "bus \<Rightarrow> bool" where
  "listeners_ok b = (jm_wf (listeners b) \<and> (\<forall>ev s. jm_get (listeners b) ev = Some s \<longrightarrow>
     s \<noteq> [] \<and> distinct s \<and> (\<forall>l \<in> set s. lid_ok (next_id b) ev l)))"

definition bus_inv :: "bus \<Rightarrow> bool" where
  "bus_inv b = (listeners_ok b \<and> (\<forall>w \<in> set (wildcards b). w_id w < next_id b) \<and>
     jm_wf (registrations b) \<and> (\<forall>k \<in> set (jm_keys (registrations b)). k < next_key b))"

lemma lid_ok_mono: "lid_ok n ev l \<Longrightarrow> n \<le> m \<Longrightarrow> lid_ok m ev l"
  by (cases l) auto

lemma lid_ok_Suc: "lid_ok n ev l \<Longrightarrow> lid_ok (Suc n) ev l"
  by (erule lid_ok_mono) simp

lemma listeners_of_fields [simp]:
  "listeners_of ev (b\<lparr>next_key := k\<rparr>) = listeners_of ev b"
  "listeners_of ev (b\<lparr>next_id := k\<rparr>) = listeners_of ev b"
  "listeners_of ev (b\<lparr>registrations := r\<rparr>) = listeners_of ev b"
  "listeners_of ev (b\<lparr>wildcards := ws\<rparr>) = listeners_of ev b"
  by (simp_all add: listeners_of_def)

lemma listeners_of_on:
  "listeners_of e (on ev l b) = (if e = ev then js_add l (listeners_of ev b) else listeners_of e b)"
  by (simp add: listeners_of_def on_def)

lemma listeners_of_off:
  "listeners_of e (off ev l b) = (if e = ev then js_remove l (listeners_of ev b) else listeners_of e b)"
  by (auto simp: listeners_of_def off_def Let_def js_remove_def split: option.splits)

lemma off_fields [simp]:
  "wildcards (off ev l b) = wildcards b" "next_id (off ev l b) = next_id b"
  "registrations (off ev l b) = registrations b" "next_key (off ev l b) = next_key b"
  by (auto simp: off_def Let_def split: option.splits)

lemma on_fields [simp]:
  "wildcards (on ev l b) = wildcards b" "next_id (on ev l b) = next_id b"
  "registrations (on ev l b) = registrations b" "next_key (on ev l b) = next_key b"
  by (auto simp: on_def)

lemma drop_key_fields [simp]:
  "wildcards (drop_key k b) = wildcards b" "next_id (drop_key k b) = next_id b"
  "listeners (drop_key k b) = listeners b" "next_key (drop_key k b) = next_key b"
  "listeners_of e (drop_key k b) = listeners_of e b"
  by (cases k; simp add: listeners_of_def)+

lemma listeners_ok_on:
  "listeners_ok b \<Longrightarrow> lid_ok (next_id b) ev l \<Longrightarrow> listeners_ok (on ev l b)"
  by (auto simp: listeners_ok_def on_def listeners_of_def js_add_def split: option.splits if_splits)

lemma listeners_ok_off: "listeners_ok b \<Longrightarrow> listeners_ok (off ev l b)"
  by (auto simp: listeners_ok_def off_def Let_def js_remove_def split: option.splits if_splits)

lemma bus_inv_on: "bus_inv b \<Longrightarrow> lid_ok (next_id b) ev l \<Longrightarrow> bus_inv (on ev l b)"
  by (simp add: bus_inv_def listeners_ok_on)

lemma bus_inv_off: "bus_inv b \<Longrightarrow> bus_inv (off ev l b)"
  by (simp add: bus_inv_def listeners_ok_off)

lemma bus_inv_drop_key: "bus_inv b \<Longrightarrow> bus_inv (drop_key k b)"
  by (cases k) (auto simp: bus_inv_def listeners_ok_def)

lemma bus_inv_next_id: "bus_inv b \<Longrightarrow> bus_inv (b\<lparr>next_id := next_id b + 1\<rparr>)"
  by (auto simp: bus_inv_def listeners_ok_def less_SucI intro: lid_ok_Suc)

lemma bus_inv_take_key: "bus_inv b \<Longrightarrow> bus_inv (b\<lparr>next_key := Suc (next_key b)\<rparr>)"
  by (auto simp: bus_inv_def listeners_ok_def less_SucI)

lemma bus_inv_register:
  "bus_inv b \<Longrightarrow> k < next_key b \<Longrightarrow>
   bus_inv (b\<lparr>registrations := jm_set k u (registrations b)\<rparr>)"
  by (auto simp: bus_inv_def listeners_ok_def)

lemma bus_inv_unregister:
  "bus_inv b \<Longrightarrow> bus_inv (b\<lparr>registrations := jm_del k (registrations b)\<rparr>)"
  by (auto simp: bus_inv_def listeners_ok_def)

lemma bus_inv_once: "bus_inv b \<Longrightarrow> bus_inv (snd (once ev f b))"
  by (simp add: once_def Let_def bus_inv_on bus_inv_next_id [simplified])

lemma bus_inv_add_wild: "bus_inv b \<Longrightarrow> bus_inv (snd (add_wild m f b))"
  by (auto simp: add_wild_def bus_inv_def listeners_ok_def less_SucI intro: lid_ok_Suc)

lemma bus_inv_remove_wild: "bus_inv b \<Longrightarrow> bus_inv (remove_wild i b)"
  by (auto simp: remove_wild_def bus_inv_def listeners_ok_def)

lemma bus_inv_run_unsub: "bus_inv b \<Longrightarrow> bus_inv (run_unsub u b)"
  by (induction u b rule: run_unsub.induct)
    (auto intro: bus_inv_off bus_inv_drop_key bus_inv_remove_wild)

lemma bus_inv_teardown: "bus_inv b \<Longrightarrow> bus_inv (teardown b)"
  by (simp add: teardown_def clear_bus_def bus_inv_def listeners_ok_def)

lemma bus_inv_fire:
  "bus_inv b \<Longrightarrow> (\<And>f b. bus_inv b \<Longrightarrow> bus_inv (snd (rx f b))) \<Longrightarrow> bus_inv (snd (fire rx l b))"
  by (cases l) (auto intro: bus_inv_off bus_inv_drop_key)

lemma bus_inv_deliver_named:
  assumes rx: "\<And>f b. bus_inv b \<Longrightarrow> bus_inv (snd (rx f b))"
  shows "bus_inv b \<Longrightarrow> bus_inv (snd (deliver_named rx ls b))"
proof (induction ls arbitrary: b)
  case (Cons l ls)
  have "bus_inv (snd (fire rx l b))" using Cons.prems rx by (rule bus_inv_fire)
  then have "bus_inv (snd (deliver_named rx ls (snd (fire rx l b))))" by (rule Cons.IH)
  then show ?case by (simp add: case_prod_beta)
qed simp

lemma bus_inv_deliver_wild:
  assumes rx: "\<And>f b. bus_inv b \<Longrightarrow> bus_inv (snd (rx f b))"
  shows "bus_inv b \<Longrightarrow> bus_inv (snd (deliver_wild rx ev ws b))"
proof (induction ws arbitrary: b)
  case (Cons w ws)
  have "bus_inv (snd (rx (w_fn w) b))" using Cons.prems by (rule rx)
  then have "bus_inv (snd (deliver_wild rx ev ws (snd (rx (w_fn w) b))))" by (rule Cons.IH)
  then show ?case using Cons.IH [OF Cons.prems] by (simp add: case_prod_beta)
qed simp

lemma bus_inv_emit:
  assumes rx: "\<And>f b. bus_inv b \<Longrightarrow> bus_inv (snd (rx f b))" and b: "bus_inv b"
  shows "bus_inv (snd (emit rx ev b))"
  using bus_inv_deliver_wild [of rx, OF rx bus_inv_deliver_named [of rx, OF rx b]]
  by (simp add: emit_def case_prod_beta)

section \<open>What an emit delivers\<close>

fun named_calls :: "call list \<Rightarrow> lid list" where
  "named_calls [] = []"
| "named_calls (CallNamed l t # cs) = l # named_calls cs"
| "named_calls (CallWild w t # cs) = named_calls cs"

lemma named_calls_append [simp]: "named_calls (cs @ cs') = named_calls cs @ named_calls cs'"
  by (induction cs rule: named_calls.induct) auto

lemma named_calls_deliver_named [simp]: "named_calls (fst (deliver_named rx ls b)) = ls"
  by (induction ls arbitrary: b) (auto split: prod.splits, metis fst_conv)

lemma named_calls_deliver_wild [simp]: "named_calls (fst (deliver_wild rx ev ws b)) = []"
proof (induction ws arbitrary: b)
  case (Cons w ws)
  from Cons.IH [of "snd (rx (w_fn w) b)"] Cons.IH [of b] show ?case
    by (auto split: prod.splits)
qed simp

lemma deliver_wild_Nil:
  "fst (deliver_wild rx ev ws b) = [] \<longleftrightarrow> \<not> (\<exists>w \<in> set ws. matches (w_match w) ev)"
  by (induction ws arbitrary: b) (auto split: prod.splits)

lemma emit_named: "named_calls (fst (emit rx ev b)) = listeners_of ev b"
proof -
  obtain cs1 b1 where n: "deliver_named rx (listeners_of ev b) b = (cs1, b1)" by fastforce
  obtain cs2 b2 where w: "deliver_wild rx ev (wildcards b1) b1 = (cs2, b2)" by fastforce
  have "named_calls cs1 = listeners_of ev b" "named_calls cs2 = []"
    using named_calls_deliver_named [of rx "listeners_of ev b" b] n
      named_calls_deliver_wild [of rx ev "wildcards b1" b1] w by simp_all
  with n w show ?thesis by (simp add: emit_def)
qed

lemma emit_Nil: "fst (emit rx ev b) = [] \<longleftrightarrow> \<not> has_listener_for ev b"
proof (cases "listeners_of ev b = []")
  case True
  then show ?thesis using deliver_wild_Nil [of rx ev "wildcards b" b]
    by (auto simp: emit_def has_listener_for_def split: prod.splits)
next
  case False
  then have "fst (emit rx ev b) \<noteq> []" using emit_named [of rx ev b] by auto
  with False show ?thesis by (simp add: has_listener_for_def)
qed

section \<open>Quiet listeners and \<open>once\<close>\<close>

text \<open>Client functions that leave the bus alone; they may throw.\<close>

definition quiet :: "(nat \<Rightarrow> bool) \<Rightarrow> reaction" where
  "quiet throws f b = (throws f, b)"

fun is_plain :: "lid \<Rightarrow> bool" where
  "is_plain (Fn f) = True"
| "is_plain (OnceFn i ev f k) = False"

lemma deliver_named_quiet:
  assumes "\<forall>l \<in> set ls. lid_ok n ev l"
  shows "listeners_of ev (snd (deliver_named (quiet th) ls b)) =
      filter (\<lambda>l. is_plain l \<or> l \<notin> set ls) (listeners_of ev b) \<and>
    wildcards (snd (deliver_named (quiet th) ls b)) = wildcards b"
  using assms
proof (induction ls arbitrary: b)
  case (Cons l ls)
  let ?b1 = "snd (fire (quiet th) l b)"
  have b1: "listeners_of ev ?b1 = filter (\<lambda>x. is_plain x \<or> x \<noteq> l) (listeners_of ev b)"
    "wildcards ?b1 = wildcards b"
  proof -
    show "wildcards ?b1 = wildcards b" by (cases l) (auto simp: quiet_def)
    show "listeners_of ev ?b1 = filter (\<lambda>x. is_plain x \<or> x \<noteq> l) (listeners_of ev b)"
    proof (cases l)
      case (Fn f)
      then have "filter (\<lambda>x. is_plain x \<or> x \<noteq> l) (listeners_of ev b) = listeners_of ev b"
        by (auto simp: filter_id_conv)
      with Fn show ?thesis by (simp add: quiet_def)
    next
      case (OnceFn i e f k)
      with Cons.prems show ?thesis
        by (auto simp: quiet_def listeners_of_off js_remove_def intro!: filter_cong)
    qed
  qed
  have "listeners_of ev (snd (deliver_named (quiet th) ls ?b1)) =
      filter (\<lambda>l. is_plain l \<or> l \<notin> set ls) (listeners_of ev ?b1)"
    "wildcards (snd (deliver_named (quiet th) ls ?b1)) = wildcards ?b1"
    using Cons.IH [of ?b1] Cons.prems by auto
  with b1 show ?case by (auto split: prod.splits intro!: filter_cong)
qed simp

lemma deliver_wild_quiet [simp]: "snd (deliver_wild (quiet th) ev ws b) = b"
  by (induction ws arbitrary: b) (auto simp: quiet_def split: prod.splits, metis snd_conv)

lemma inv_lid_ok: "bus_inv b \<Longrightarrow> l \<in> set (listeners_of ev b) \<Longrightarrow> lid_ok (next_id b) ev l"
  unfolding bus_inv_def listeners_ok_def listeners_of_def
  by (cases "jm_get (listeners b) ev") auto

lemma emit_quiet:
  assumes "bus_inv b"
  shows "listeners_of ev (snd (emit (quiet th) ev b)) = filter is_plain (listeners_of ev b)"
proof -
  have ok: "\<forall>l \<in> set (listeners_of ev b). lid_ok (next_id b) ev l"
    using inv_lid_ok [OF assms] by blast
  obtain cs1 b1 where n: "deliver_named (quiet th) (listeners_of ev b) b = (cs1, b1)" by fastforce
  have "listeners_of ev b1 = filter is_plain (listeners_of ev b)"
    using deliver_named_quiet [OF ok, of th b] n by (auto intro!: filter_cong)
  then show ?thesis using n deliver_wild_quiet [of th ev "wildcards b1" b1]
    by (simp add: emit_def case_prod_beta)
qed

lemma once_id_fresh: "bus_inv b \<Longrightarrow> OnceFn (next_id b) e f k \<notin> set (listeners_of ev b)"
  by (auto dest: inv_lid_ok)

section \<open>Sequences of operations\<close>

text \<open>The subscriptions of a scoped bus and every operation a client performs on it; listeners are
  quiet here.\<close>

datatype sub = SubOn string nat | SubOnce string nat | SubPattern string nat | SubAny nat
  | SubRegex "string \<Rightarrow> bool" nat

fun scoped_subscribe :: "sub \<Rightarrow> bus \<Rightarrow> (nat \<times> unsub) \<times> bus" where
  "scoped_subscribe (SubOn ev f) = scoped_on ev f"
| "scoped_subscribe (SubOnce ev f) = scoped_once ev f"
| "scoped_subscribe (SubPattern p f) = scoped_on_pattern p f"
| "scoped_subscribe (SubAny f) = scoped_on_any f"
| "scoped_subscribe (SubRegex re f) = scoped_on_regex re f"

datatype bus_op = Subscribe sub | Unsubscribe "nat \<times> unsub" | Off string nat
  | Emit "nat \<Rightarrow> bool" string | EmitCustom "nat \<Rightarrow> bool" string | Clear | Teardown

fun bus_step :: "bus_op \<Rightarrow> bus \<Rightarrow> bus" where
  "bus_step (Subscribe u) b = snd (scoped_subscribe u b)"
| "bus_step (Unsubscribe ku) b = scoped_unsub ku b"
| "bus_step (Off ev f) b = off ev (Fn f) b"
| "bus_step (Emit th ev) b = snd (emit (quiet th) ev b)"
| "bus_step (EmitCustom th ev) b = snd (emit_custom (quiet th) ev b)"
| "bus_step Clear b = clear_bus b"
| "bus_step Teardown b = teardown b"

lemmas scoped_defs = scoped_on_def scoped_once_def scoped_on_pattern_def scoped_on_any_def
  scoped_on_regex_def track_def take_key_def Let_def on_pattern_def on_regex_def

lemma bus_inv_subscribe: "bus_inv b \<Longrightarrow> bus_inv (snd (scoped_subscribe u b))"
proof (cases u)
  case (SubOn ev f)
  assume "bus_inv b"
  then have "bus_inv (on ev (Fn f) (b\<lparr>next_key := Suc (next_key b)\<rparr>))"
    by (intro bus_inv_on bus_inv_take_key) simp_all
  from bus_inv_register [OF this] show ?thesis by (simp add: SubOn scoped_defs)
next
  case (SubOnce ev f)
  assume "bus_inv b"
  then have "bus_inv (b\<lparr>next_key := Suc (next_key b), next_id := Suc (next_id b)\<rparr>)"
    using bus_inv_next_id [OF bus_inv_take_key] by simp
  then have "bus_inv (on ev (OnceFn (next_id b) ev f (Some (next_key b)))
      (b\<lparr>next_key := Suc (next_key b), next_id := Suc (next_id b)\<rparr>))"
    by (rule bus_inv_on) simp
  from bus_inv_register [OF this] show ?thesis by (simp add: SubOnce scoped_defs)
next
  case (SubPattern p f)
  assume "bus_inv b"
  then show ?thesis using bus_inv_register [OF bus_inv_add_wild [OF bus_inv_take_key]]
    by (simp add: SubPattern scoped_defs add_wild_def)
next
  case (SubAny f)
  assume "bus_inv b"
  then show ?thesis using bus_inv_register [OF bus_inv_add_wild [OF bus_inv_take_key]]
    by (simp add: SubAny scoped_defs add_wild_def)
next
  case (SubRegex re f)
  assume "bus_inv b"
  then show ?thesis using bus_inv_register [OF bus_inv_add_wild [OF bus_inv_take_key]]
    by (simp add: SubRegex scoped_defs add_wild_def)
qed

lemma bus_inv_step: "bus_inv b \<Longrightarrow> bus_inv (bus_step e b)"
proof (cases e)
  case (Emit th ev)
  assume "bus_inv b"
  moreover have "\<And>f b. bus_inv b \<Longrightarrow> bus_inv (snd (quiet th f b))" by (simp add: quiet_def)
  ultimately show ?thesis unfolding Emit bus_step.simps by (intro bus_inv_emit)
next
  case Clear
  assume "bus_inv b"
  then show ?thesis by (simp add: Clear clear_bus_def bus_inv_def listeners_ok_def)
qed (auto simp: bus_inv_subscribe bus_inv_off bus_inv_teardown emit_custom_def scoped_unsub_def
    intro: bus_inv_run_unsub bus_inv_unregister)

lemma run_unsub_counters [simp]:
  "next_id (run_unsub u b) = next_id b" "next_key (run_unsub u b) = next_key b"
  by (induction u b rule: run_unsub.induct) (auto simp: remove_wild_def)

lemma fold_unsub_counters [simp]:
  "next_id (fold run_unsub us b) = next_id b" "next_key (fold run_unsub us b) = next_key b"
  by (induction us arbitrary: b) auto

lemma fire_quiet_counters [simp]:
  "next_id (snd (fire (quiet th) l b)) = next_id b"
  "next_key (snd (fire (quiet th) l b)) = next_key b"
  by (cases l; simp add: quiet_def)+

lemma emit_quiet_counters [simp]:
  "next_id (snd (emit (quiet th) ev b)) = next_id b"
  "next_key (snd (emit (quiet th) ev b)) = next_key b"
proof -
  have "next_id (snd (deliver_named (quiet th) ls b)) = next_id b \<and>
      next_key (snd (deliver_named (quiet th) ls b)) = next_key b" for ls
    by (induction ls arbitrary: b) (auto simp: case_prod_beta)
  then show "next_id (snd (emit (quiet th) ev b)) = next_id b"
    "next_key (snd (emit (quiet th) ev b)) = next_key b"
    by (auto simp: emit_def case_prod_beta)
qed

text \<open>Wrapper identities and registration keys are handed out once and never reused.\<close>

interpretation bus_contract: monotone_contract bus_step bus_inv "\<lambda>b. next_id b + next_key b"
proof
  fix b e
  assume b: "bus_inv b"
  then show "bus_inv (bus_step e b)" by (rule bus_inv_step)
  show "next_id b + next_key b \<le> next_id (bus_step e b) + next_key (bus_step e b)"
  proof (cases e)
    case (Subscribe u)
    then show ?thesis by (cases u) (auto simp: scoped_defs add_wild_def)
  qed (auto simp: emit_custom_def scoped_unsub_def clear_bus_def teardown_def)
qed

lemma bus_inv_new: "bus_inv new_bus"
  by (simp add: bus_inv_def listeners_ok_def new_bus_def)

section \<open>Properties\<close>

fun wild_calls :: "call list \<Rightarrow> wild list" where
  "wild_calls [] = []"
| "wild_calls (CallNamed l t # cs) = wild_calls cs"
| "wild_calls (CallWild w t # cs) = w # wild_calls cs"

lemma wild_calls_append [simp]: "wild_calls (cs @ cs') = wild_calls cs @ wild_calls cs'"
  by (induction cs rule: wild_calls.induct) auto

lemma wild_calls_named [simp]: "wild_calls (fst (deliver_named rx ls b)) = []"
  by (induction ls arbitrary: b) (auto simp: case_prod_beta)

lemma wild_calls_wild [simp]:
  "wild_calls (fst (deliver_wild rx ev ws b)) = filter (\<lambda>w. matches (w_match w) ev) ws"
  by (induction ws arbitrary: b) (auto simp: case_prod_beta)

text \<open>C29. Whatever the listeners do to the bus while they run (subscribe, unsubscribe, throw), one
  \<open>emit\<close> calls the named listeners subscribed when it started, each once, in subscription order,
  and then exactly the wildcards present once those have run whose pattern matches; nothing is
  called exactly when \<open>hasListenerFor\<close> said so. A custom event reaches the matching wildcards only.\<close>

theorem emit_delivers_snapshot:
  "named_calls (fst (emit rx ev b)) = listeners_of ev b \<and>
   wild_calls (fst (emit rx ev b)) = filter (\<lambda>w. matches (w_match w) ev)
     (wildcards (snd (deliver_named rx (listeners_of ev b) b))) \<and>
   (fst (emit rx ev b) \<noteq> []) = has_listener_for ev b \<and>
   named_calls (fst (emit_custom rx ev b)) = [] \<and>
   wild_calls (fst (emit_custom rx ev b)) = filter (\<lambda>w. matches (w_match w) ev) (wildcards b)"
  using emit_named [of rx ev b] emit_Nil [of rx ev b]
  by (simp add: emit_custom_def) (simp add: emit_def case_prod_beta)

text \<open>A \<open>once\<close> listener is called by the next \<open>emit\<close> of its event, last, also when it throws,
  and by no later one, while the plain listeners keep being called (listeners that leave the bus
  alone; the bus reachable).\<close>

theorem once_fires_once:
  assumes "bus_inv b"
  shows "let (u, b1) = once ev f b; (c1, b2) = emit (quiet th) ev b1;
      (c2, b3) = emit (quiet th') ev b2
    in named_calls c1 = listeners_of ev b @ [OnceFn (next_id b) ev f None] \<and>
       named_calls c2 = filter is_plain (listeners_of ev b) \<and>
       listeners_of ev b3 = filter is_plain (listeners_of ev b)"
proof -
  let ?b1 = "snd (once ev f b)" and ?b2 = "snd (emit (quiet th) ev (snd (once ev f b)))"
  have 1: "listeners_of ev ?b1 = listeners_of ev b @ [OnceFn (next_id b) ev f None]"
    using once_id_fresh [OF assms, of ev f None ev]
    by (simp add: once_def Let_def listeners_of_on js_add_def)
  have i1: "bus_inv ?b1" using assms by (rule bus_inv_once)
  then have i2: "bus_inv ?b2" using bus_inv_step [of ?b1 "Emit th ev"] by simp
  have 2: "listeners_of ev ?b2 = filter is_plain (listeners_of ev b)"
    using emit_quiet [OF i1, of ev th] 1 by simp
  show ?thesis
    using emit_quiet [OF i2, of ev th'] 1 2 by (simp add: Let_def case_prod_beta emit_named)
qed

definition demo_bus :: bus where
  "demo_bus = snd (once ''tool.started'' 8 (on ''tool.started'' (Fn 7) new_bus))"

lemma bus_inv_demo: "bus_inv demo_bus"
  by (simp add: demo_bus_def bus_inv_once bus_inv_on bus_inv_new)

theorem once_fires_once_witness:
  "let (u, b1) = once ''tool.started'' 9 demo_bus;
      (c1, b2) = emit (quiet (\<lambda>f. f = 9)) ''tool.started'' b1;
      (c2, b3) = emit (quiet (\<lambda>f. False)) ''tool.started'' b2
    in named_calls c1 = listeners_of ''tool.started'' demo_bus @ [OnceFn (next_id demo_bus) ''tool.started'' 9 None] \<and>
       named_calls c2 = filter is_plain (listeners_of ''tool.started'' demo_bus) \<and>
       listeners_of ''tool.started'' b3 = filter is_plain (listeners_of ''tool.started'' demo_bus)"
  by (rule once_fires_once [OF bus_inv_demo])

text \<open>On a scoped bus every kind of subscription is undone by the function it returns: the
  listeners of every event, the wildcards and the tracked registrations are what they were, when
  a plain function was not already subscribed to that event.\<close>

fun fresh_sub :: "sub \<Rightarrow> bus \<Rightarrow> bool" where
  "fresh_sub (SubOn ev f) b = (Fn f \<notin> set (listeners_of ev b))"
| "fresh_sub u b = True"

lemma registrations_roundtrip:
  "bus_inv b \<Longrightarrow> jm_del (next_key b) (jm_set (next_key b) u (registrations b)) = registrations b"
  using jm_del_absent [of "registrations b" "next_key b"]
  by (auto simp: bus_inv_def jm_set_new jm_has_keys jm_del_def)

lemma wild_roundtrip:
  "bus_inv b \<Longrightarrow> filter (\<lambda>w. w_id w \<noteq> next_id b) (wildcards b) = wildcards b"
  by (auto simp: bus_inv_def filter_id_conv)

theorem scoped_roundtrip:
  assumes "bus_inv b" and "fresh_sub u b"
  shows "case scoped_subscribe u b of (ku, b1) \<Rightarrow>
    scoped_listener_count b1 = scoped_listener_count b + 1 \<and>
    (\<forall>ev. listeners_of ev (scoped_unsub ku b1) = listeners_of ev b) \<and>
    wildcards (scoped_unsub ku b1) = wildcards b \<and>
    registrations (scoped_unsub ku b1) = registrations b"
proof -
  have new: "\<not> jm_has (registrations b) (next_key b)"
    using assms by (auto simp: bus_inv_def jm_has_keys)
  note facts = new registrations_roundtrip [OF assms(1)] wild_roundtrip [OF assms(1)]
    scoped_listener_count_def length_jm_set scoped_unsub_def js_remove_snoc jm_del_absent
    once_id_fresh [OF assms(1)] scoped_defs listeners_of_off listeners_of_on js_add_def
    add_wild_def remove_wild_def
  from assms(2) show ?thesis by (cases u) (simp_all add: facts)
qed

theorem scoped_roundtrip_witness:
  "case scoped_subscribe (SubOn ''tool.started'' 9) demo_bus of (ku, b1) \<Rightarrow>
    scoped_listener_count b1 = scoped_listener_count demo_bus + 1 \<and>
    (\<forall>ev. listeners_of ev (scoped_unsub ku b1) = listeners_of ev demo_bus) \<and>
    wildcards (scoped_unsub ku b1) = wildcards demo_bus \<and>
    registrations (scoped_unsub ku b1) = registrations demo_bus"
proof (rule scoped_roundtrip [OF bus_inv_demo])
  show "fresh_sub (SubOn ''tool.started'' 9) demo_bus" by code_simp
qed

end
