(* ===== verification/Tool_Registry.thy ===== *)
theory Tool_Registry
  imports Errors Js_String "HOL-Library.Multiset"
begin

text \<open>
  The registry of tools, \<open>packages/core/src/registry/tool-registry.ts\<close>, with the description modes
  of \<open>packages/core/src/utils/tool-description-mode.ts\<close>.

  A tool carries the fields the registry reads or writes; \<open>t_body\<close> stands for the rest of the
  object (\<open>execute\<close>, permission, ...). The summariser \<open>simplifyToolDescription\<close> and the token
  estimate are arguments (\<open>simp_desc\<close>, \<open>est\<close>): the results hold for every choice.
\<close>

section \<open>Tools and description modes\<close>

record tool =
  t_name :: string
  t_description :: string
  t_hint :: "string option"
  t_category :: "string option"
  t_schema_ok :: bool
  t_body :: nat
  t_est :: "nat option"
  t_original :: "(string \<times> string option) option"

datatype mode = Extend | Simple

definition normalize_mode :: "string option \<Rightarrow> mode option" where
  "normalize_mode v =
     (case v of
        None \<Rightarrow> None
      | Some s \<Rightarrow>
          let raw = to_lower (js_trim s)
          in if raw = ''extend'' \<or> raw = ''extended'' \<or> raw = ''full'' then Some Extend
             else if raw = ''simple'' \<or> raw = ''short'' \<or> raw = ''brief'' then Some Simple
             else None)"

definition with_description :: "tool \<Rightarrow> string \<times> string option \<Rightarrow> tool" where
  "with_description t d = t\<lparr>t_description := fst d, t_hint := snd d, t_original := None\<rparr>"

definition apply_mode :: "(string \<Rightarrow> string) \<Rightarrow> tool \<Rightarrow> mode \<Rightarrow> tool" where
  "apply_mode simp_desc t m =
     (if m = Extend \<and> t_original t = None then t
      else
        let original = (case t_original t of Some d \<Rightarrow> d | None \<Rightarrow> (t_description t, t_hint t));
            nxt = (case m of
              Simple \<Rightarrow> with_description t
                (simp_desc (fst original), map_option simp_desc (snd original))
            | Extend \<Rightarrow> with_description t original)
        in nxt\<lparr>t_original := Some original\<rparr>)"

section \<open>The registry\<close>

record registry =
  tools :: "(string, tool \<times> string) jsmap"
  modes :: "(string, mode) jsmap"
  disabled :: "string list"
  version :: nat
  list_snapshot :: "tool list option"
  snapshot_version :: int

definition new_registry :: registry where
  "new_registry = \<lparr>tools = [], modes = [], disabled = [], version = 0, list_snapshot = None,
     snapshot_version = - 1\<rparr>"

text \<open>What \<open>applyToolDescriptionModeToTool\<close> and \<open>estimateToolDefTokens\<close> are, together.\<close>

record helpers =
  h_simplify :: "string \<Rightarrow> string"
  h_est :: "tool \<Rightarrow> nat"

definition stamp :: "helpers \<Rightarrow> tool \<Rightarrow> tool" where
  "stamp h t = (if t_est t = None then t\<lparr>t_est := Some (h_est h t)\<rparr> else t)"

definition mode_of :: "registry \<Rightarrow> string \<Rightarrow> mode" where
  "mode_of r name = (case jm_get (modes r) name of None \<Rightarrow> Extend | Some m \<Rightarrow> m)"

definition prepare_for_storage :: "helpers \<Rightarrow> registry \<Rightarrow> tool \<Rightarrow> tool" where
  "prepare_for_storage h r t = apply_mode (h_simplify h) t (mode_of r (t_name t))"

definition store :: "helpers \<Rightarrow> string \<Rightarrow> tool \<Rightarrow> string \<Rightarrow> registry \<Rightarrow> registry" where
  "store h name t owner r =
     r\<lparr>tools := jm_set name (stamp h (prepare_for_storage h r t), owner) (tools r),
       version := version r + 1\<rparr>"

definition tool_error :: "error_code \<Rightarrow> string \<Rightarrow> ws_error" where
  "tool_error code name = mk_ws_error code SubContainer [(''tool'', name)]"

definition register_tool :: "helpers \<Rightarrow> string \<Rightarrow> tool \<Rightarrow> registry \<Rightarrow> ws_error + registry" where
  "register_tool h owner t r =
     (if jm_has (tools r) (t_name t) then Inl (tool_error REGISTRY_DUPLICATE (t_name t))
      else if \<not> t_schema_ok t then Inl (tool_error REGISTRY_INVALID (t_name t))
      else Inr (store h (t_name t) t owner r))"

definition try_register :: "helpers \<Rightarrow> string \<Rightarrow> tool \<Rightarrow> registry \<Rightarrow> bool \<times> registry" where
  "try_register h owner t r =
     (if jm_has (tools r) (t_name t) then (False, r)
      else if \<not> t_schema_ok t then (False, r)
      else (True, store h (t_name t) t owner r))"

definition register_all :: "helpers \<Rightarrow> string \<Rightarrow> tool list \<Rightarrow> registry \<Rightarrow> registry" where
  "register_all h owner ts r = fold (\<lambda>t r. snd (try_register h owner t r)) ts r"

text \<open>\<open>registerAllOrThrow\<close> keeps the tools registered before the one that throws.\<close>

fun register_all_or_throw ::
  "helpers \<Rightarrow> string \<Rightarrow> tool list \<Rightarrow> registry \<Rightarrow> ws_error option \<times> registry" where
  "register_all_or_throw h owner [] r = (None, r)"
| "register_all_or_throw h owner (t # ts) r =
     (case register_tool h owner t r of
        Inl e \<Rightarrow> (Some e, r)
      | Inr r' \<Rightarrow> register_all_or_throw h owner ts r')"

definition register_default :: "helpers \<Rightarrow> string \<Rightarrow> tool \<Rightarrow> registry \<Rightarrow> registry" where
  "register_default h owner t r =
     (if jm_has (tools r) (t_name t) then r else store h (t_name t) t owner r)"

definition unregister_tool :: "string \<Rightarrow> registry \<Rightarrow> bool \<times> registry" where
  "unregister_tool name r =
     (if jm_has (tools r) name
      then (True, r\<lparr>tools := jm_del name (tools r), version := version r + 1\<rparr>)
      else (False, r))"

definition override_tool ::
  "helpers \<Rightarrow> string \<Rightarrow> string \<Rightarrow> tool \<Rightarrow> registry \<Rightarrow> ws_error + registry" where
  "override_tool h name owner t r =
     (if \<not> jm_has (tools r) name then Inl (tool_error REGISTRY_NOT_FOUND name)
      else Inr (store h name t owner r))"

definition wrap ::
  "helpers \<Rightarrow> string \<Rightarrow> (tool \<Rightarrow> tool) \<Rightarrow> string \<Rightarrow> registry \<Rightarrow> ws_error + registry" where
  "wrap h name wrapper owner r =
     (case jm_get (tools r) name of
        None \<Rightarrow> Inl (tool_error REGISTRY_NOT_FOUND name)
      | Some (t, o1) \<Rightarrow>
          let current = apply_mode (h_simplify h) t Extend;
              wrapped = stamp h ((prepare_for_storage h r (wrapper current))\<lparr>t_est := None\<rparr>)
          in Inr (r\<lparr>tools := jm_set name (wrapped, o1 @ ''+'' @ owner) (tools r),
                    version := version r + 1\<rparr>))"

definition set_description_mode ::
  "helpers \<Rightarrow> string \<Rightarrow> string option \<Rightarrow> registry \<Rightarrow> bool \<times> registry" where
  "set_description_mode h name raw r =
     (case normalize_mode raw of
        None \<Rightarrow> (False, r)
      | Some m \<Rightarrow>
          (case jm_get (tools r) name of
             None \<Rightarrow> (False, r)
           | Some (t, owner) \<Rightarrow>
               let ms = (if m = Extend then jm_del name (modes r) else jm_set name m (modes r));
                   stored = stamp h ((apply_mode (h_simplify h) t m)\<lparr>t_est := None\<rparr>)
               in (True, r\<lparr>modes := ms, tools := jm_set name (stored, owner) (tools r),
                           version := version r + 1\<rparr>)))"

definition mode_string :: "mode \<Rightarrow> string" where
  "mode_string m = (case m of Extend \<Rightarrow> ''extend'' | Simple \<Rightarrow> ''simple'')"

fun apply_description_modes ::
  "helpers \<Rightarrow> (string \<times> string option) list \<Rightarrow> nat \<Rightarrow> string list \<Rightarrow> registry \<Rightarrow>
   (nat \<times> string list) \<times> registry" where
  "apply_description_modes h [] applied missing r = ((applied, missing), r)"
| "apply_description_modes h ((name, raw) # ms) applied missing r =
     (case normalize_mode raw of
        None \<Rightarrow> apply_description_modes h ms applied missing r
      | Some m \<Rightarrow>
          if jm_has (tools r) name then
            (case set_description_mode h name (Some (mode_string m)) r of
               (ok, r') \<Rightarrow>
                 apply_description_modes h ms (if ok then applied + 1 else applied) missing r')
          else
            apply_description_modes h ms applied (missing @ [name])
              (r\<lparr>modes := (if m = Simple then jm_set name m (modes r)
                           else jm_del name (modes r))\<rparr>))"

section \<open>Reading\<close>

definition get_tool :: "string \<Rightarrow> registry \<Rightarrow> tool option" where
  "get_tool name r =
     (if name \<in> set (disabled r) then None else map_option fst (jm_get (tools r) name))"

definition tool_owner_of :: "string \<Rightarrow> registry \<Rightarrow> string option" where
  "tool_owner_of name r = map_option snd (jm_get (tools r) name)"

definition disable :: "string \<Rightarrow> registry \<Rightarrow> bool \<times> registry" where
  "disable name r =
     (if \<not> jm_has (tools r) name \<or> name \<in> set (disabled r) then (False, r)
      else (True, r\<lparr>disabled := js_add name (disabled r), version := version r + 1\<rparr>))"

definition enable :: "string \<Rightarrow> registry \<Rightarrow> bool \<times> registry" where
  "enable name r =
     (if name \<notin> set (disabled r) then (False, r)
      else (True, r\<lparr>disabled := js_remove name (disabled r), version := version r + 1\<rparr>))"

definition enable_all :: "registry \<Rightarrow> nat \<times> registry" where
  "enable_all r =
     (let count = length (disabled r)
      in if count = 0 then (0, r)
         else (count, r\<lparr>disabled := [], version := version r + 1\<rparr>))"

definition is_disabled :: "string \<Rightarrow> registry \<Rightarrow> bool" where
  "is_disabled name r = (name \<in> set (disabled r))"

fun apply_disabled :: "string list \<Rightarrow> registry \<Rightarrow> nat \<times> registry" where
  "apply_disabled [] r = (0, r)"
| "apply_disabled (n # ns) r =
     (case disable n r of (b, r1) \<Rightarrow>
      case apply_disabled ns r1 of (k, r2) \<Rightarrow> ((if b then k + 1 else k), r2))"

definition list_disabled :: "registry \<Rightarrow> (tool \<times> string) list" where
  "list_disabled r = List.map_filter (\<lambda>name. jm_get (tools r) name) (disabled r)"

definition visible :: "registry \<Rightarrow> (string \<times> tool \<times> string) list" where
  "visible r = filter (\<lambda>e. fst e \<notin> set (disabled r)) (tools r)"

definition list_tools :: "registry \<Rightarrow> tool list \<times> registry" where
  "list_tools r =
     (case list_snapshot r of
        Some ts \<Rightarrow> if int (version r) = snapshot_version r then (ts, r)
                   else (let arr = map (fst \<circ> snd) (visible r)
                         in (arr, r\<lparr>list_snapshot := Some arr, snapshot_version := int (version r)\<rparr>))
      | None \<Rightarrow> (let arr = map (fst \<circ> snd) (visible r)
                 in (arr, r\<lparr>list_snapshot := Some arr, snapshot_version := int (version r)\<rparr>)))"

fun group_by_category ::
  "string list \<Rightarrow> (string \<times> tool \<times> string) list \<Rightarrow> (string, tool list) jsmap \<Rightarrow>
   (string, tool list) jsmap" where
  "group_by_category dis [] acc = acc"
| "group_by_category dis ((name, t, owner) # es) acc =
     (if name \<in> set dis then group_by_category dis es acc
      else
        let cat = (case t_category t of None \<Rightarrow> '''' | Some c \<Rightarrow> c);
            grp = (case jm_get acc cat of None \<Rightarrow> [] | Some g \<Rightarrow> g)
        in group_by_category dis es (jm_set cat (grp @ [t]) acc))"

definition list_by_category :: "registry \<Rightarrow> (string, tool list) jsmap" where
  "list_by_category r = group_by_category (disabled r) (tools r) []"

definition list_with_owner :: "registry \<Rightarrow> (tool \<times> string) list" where
  "list_with_owner r = map snd (visible r)"

definition clear_tools :: "registry \<Rightarrow> registry" where
  "clear_tools r = r\<lparr>tools := [], modes := [], disabled := [], version := version r + 1\<rparr>"

definition clone_tools :: "registry \<Rightarrow> registry" where
  "clone_tools r = new_registry\<lparr>modes := fold (\<lambda>(n, m). jm_set n m) (modes r) [],
     tools := fold (\<lambda>(n, e). jm_set n e) (tools r) [],
     disabled := fold js_add (disabled r) [], version := version r\<rparr>"

section \<open>Invariant: the cached listing is never stale\<close>

definition visible_tools :: "registry \<Rightarrow> tool list" where
  "visible_tools r = map (fst \<circ> snd) (visible r)"

definition reg_inv :: "registry \<Rightarrow> bool" where
  "reg_inv r = (jm_wf (tools r) \<and> distinct (disabled r) \<and> snapshot_version r \<le> int (version r) \<and>
     (\<forall>ts. list_snapshot r = Some ts \<longrightarrow> snapshot_version r = int (version r) \<longrightarrow>
        ts = visible_tools r))"

lemma reg_inv_bump:
  assumes "reg_inv r"
    "jm_wf (tools r) \<Longrightarrow> distinct (disabled r) \<Longrightarrow> jm_wf (tools r') \<and> distinct (disabled r')"
    "version r' = Suc (version r)"
    "snapshot_version r' = snapshot_version r"
  shows "reg_inv r'"
  using assms by (auto simp: reg_inv_def)

lemma reg_inv_modes: "reg_inv r \<Longrightarrow> reg_inv (r\<lparr>modes := ms\<rparr>)"
  by (simp add: reg_inv_def visible_tools_def visible_def)

lemma reg_inv_wf: "reg_inv r \<Longrightarrow> jm_wf (tools r)" "reg_inv r \<Longrightarrow> distinct (disabled r)"
  by (simp_all add: reg_inv_def)

lemma reg_inv_store [inv_intros]: "reg_inv r \<Longrightarrow> reg_inv (store h n t ow r)"
  by (erule reg_inv_bump) (simp_all add: store_def reg_inv_wf)

lemma reg_inv_try_register: "reg_inv r \<Longrightarrow> reg_inv (snd (try_register h ow t r))"
  by (simp add: try_register_def reg_inv_store)

lemma reg_inv_register_all: "reg_inv r \<Longrightarrow> reg_inv (register_all h ow ts r)"
  unfolding register_all_def
  by (induction ts arbitrary: r) (auto intro: reg_inv_try_register)

lemma reg_inv_or_throw: "reg_inv r \<Longrightarrow> reg_inv (snd (register_all_or_throw h ow ts r))"
  by (induction ts arbitrary: r) (auto simp: register_tool_def intro: reg_inv_store)

lemma reg_inv_unregister: "reg_inv r \<Longrightarrow> reg_inv (snd (unregister_tool n r))"
  by (auto simp: unregister_tool_def reg_inv_wf elim!: reg_inv_bump)

lemma reg_inv_wrap: "reg_inv r \<Longrightarrow> wrap h n w ow r = Inr r' \<Longrightarrow> reg_inv r'"
  by (erule reg_inv_bump) (auto simp: wrap_def Let_def reg_inv_wf split: option.splits)

lemma reg_inv_set_mode: "reg_inv r \<Longrightarrow> reg_inv (snd (set_description_mode h n raw r))"
  by (auto simp: set_description_mode_def Let_def reg_inv_wf elim!: reg_inv_bump
      split: option.splits)

lemma reg_inv_apply_modes: "reg_inv r \<Longrightarrow> reg_inv (snd (apply_description_modes h ms k xs r))"
proof (induction h ms k xs r rule: apply_description_modes.induct)
  case (2 h name raw ms k xs r)
  show ?case
  proof (cases "normalize_mode raw")
    case None
    with 2 show ?thesis by simp
  next
    case (Some m)
    have "reg_inv (snd (set_description_mode h name (Some (mode_string m)) r))"
      using 2(4) by (rule reg_inv_set_mode)
    with Some 2(2) [OF Some _ prod.collapse] 2(3) [OF Some] reg_inv_modes [OF 2(4)] show ?thesis
      by (auto simp: case_prod_beta)
  qed
qed simp

lemma reg_inv_disable: "reg_inv r \<Longrightarrow> reg_inv (snd (disable n r))"
  by (auto simp: disable_def reg_inv_wf elim!: reg_inv_bump)

lemma reg_inv_enable: "reg_inv r \<Longrightarrow> reg_inv (snd (enable n r))"
  by (auto simp: enable_def reg_inv_wf elim!: reg_inv_bump)

lemma reg_inv_enable_all: "reg_inv r \<Longrightarrow> reg_inv (snd (enable_all r))"
  by (auto simp: enable_all_def Let_def reg_inv_wf elim!: reg_inv_bump)

lemma reg_inv_apply_disabled: "reg_inv r \<Longrightarrow> reg_inv (snd (apply_disabled ns r))"
  by (induction ns arbitrary: r) (auto simp: case_prod_beta intro: reg_inv_disable)

lemma list_tools_fresh: "reg_inv r \<Longrightarrow> fst (list_tools r) = visible_tools r"
  by (auto simp: list_tools_def reg_inv_def visible_tools_def Let_def split: option.splits)

lemma reg_inv_list: "reg_inv r \<Longrightarrow> reg_inv (snd (list_tools r))"
  by (auto simp: list_tools_def reg_inv_def visible_tools_def visible_def Let_def
      split: option.splits)

lemma fold_jm_set_copy:
  "distinct (map fst acc @ map fst es) \<Longrightarrow> fold (\<lambda>(n, e). jm_set n e) es acc = acc @ es"
proof (induction es arbitrary: acc)
  case (Cons e es)
  obtain n v where e: "e = (n, v)" by fastforce
  have "jm_set n v acc = acc @ [(n, v)]"
    using Cons.prems e by (intro jm_set_new) (auto simp: jm_has_keys jm_keys_def)
  then show ?case using Cons.IH [of "acc @ [(n, v)]"] Cons.prems e by simp
qed simp

lemma clone_fields:
  assumes "reg_inv r"
  shows "tools (clone_tools r) = tools r" "disabled (clone_tools r) = disabled r"
    "version (clone_tools r) = version r"
  using assms fold_jm_set_copy [of "[]" "tools r"] js_dedup_distinct [of "disabled r"]
  by (simp_all add: clone_tools_def reg_inv_def jm_wf_def jm_keys_def js_dedup_def)

lemma reg_inv_clone: "reg_inv r \<Longrightarrow> reg_inv (clone_tools r)"
  using clone_fields [of r] by (simp add: reg_inv_def clone_tools_def new_registry_def)

datatype reg_op =
    Register string tool | TryRegister string tool | RegisterAll string "tool list"
  | RegisterAllOrThrow string "tool list" | RegisterDefault string tool | Unregister string
  | Override string string tool | Wrap string "tool \<Rightarrow> tool" string
  | SetMode string "string option" | ApplyModes "(string \<times> string option) list"
  | Disable string | Enable string | EnableAll | ApplyDisabled "string list" | ListTools
  | ClearTools | CloneTools

definition kept :: "ws_error + registry \<Rightarrow> registry \<Rightarrow> registry" where
  "kept res r = (case res of Inl _ \<Rightarrow> r | Inr r' \<Rightarrow> r')"

fun reg_step :: "helpers \<Rightarrow> reg_op \<Rightarrow> registry \<Rightarrow> registry" where
  "reg_step h (Register ow t) r = kept (register_tool h ow t r) r"
| "reg_step h (TryRegister ow t) r = snd (try_register h ow t r)"
| "reg_step h (RegisterAll ow ts) r = register_all h ow ts r"
| "reg_step h (RegisterAllOrThrow ow ts) r = snd (register_all_or_throw h ow ts r)"
| "reg_step h (RegisterDefault ow t) r = register_default h ow t r"
| "reg_step h (Unregister n) r = snd (unregister_tool n r)"
| "reg_step h (Override n ow t) r = kept (override_tool h n ow t r) r"
| "reg_step h (Wrap n w ow) r = kept (wrap h n w ow r) r"
| "reg_step h (SetMode n raw) r = snd (set_description_mode h n raw r)"
| "reg_step h (ApplyModes ms) r = snd (apply_description_modes h ms 0 [] r)"
| "reg_step h (Disable n) r = snd (disable n r)"
| "reg_step h (Enable n) r = snd (enable n r)"
| "reg_step h EnableAll r = snd (enable_all r)"
| "reg_step h (ApplyDisabled ns) r = snd (apply_disabled ns r)"
| "reg_step h ListTools r = snd (list_tools r)"
| "reg_step h ClearTools r = clear_tools r"
| "reg_step h CloneTools r = clone_tools r"

lemma reg_inv_step: "reg_inv r \<Longrightarrow> reg_inv (reg_step h e r)"
proof (cases e)
  case (Wrap n w ow)
  then show "reg_inv r \<Longrightarrow> ?thesis"
    by (auto simp: kept_def intro: reg_inv_wrap split: sum.splits)
next
  case ClearTools
  then show "reg_inv r \<Longrightarrow> ?thesis" by (auto simp: clear_tools_def elim!: reg_inv_bump)
qed (auto simp: kept_def register_tool_def override_tool_def register_default_def
    intro: reg_inv_store reg_inv_try_register reg_inv_register_all reg_inv_or_throw
      reg_inv_unregister reg_inv_set_mode reg_inv_apply_modes reg_inv_disable reg_inv_enable
      reg_inv_enable_all reg_inv_apply_disabled reg_inv_list reg_inv_clone)

lemma reg_inv_new: "reg_inv new_registry"
  by (simp add: reg_inv_def new_registry_def)

interpretation registry_contract: state_contract "reg_step h" reg_inv for h
  by unfold_locales (rule reg_inv_step)

section \<open>Strict registration\<close>

lemma tools_store: "jm_keys (tools (store h n t ow r)) =
    (if jm_has (tools r) n then jm_keys (tools r) else jm_keys (tools r) @ [n])"
  by (simp add: store_def)

interpretation tool_names: strict_registry "\<lambda>r. jm_keys (tools r)" t_name t_schema_ok
  "register_tool h ow" for h ow
  by unfold_locales (auto simp: register_tool_def tools_store jm_has_keys)

lemma register_all_or_throw_add_each:
  "fst (register_all_or_throw h ow ts r) = None \<longleftrightarrow>
   (\<exists>r'. add_each (register_tool h ow) ts r = Inr r')"
  by (induction ts arbitrary: r) (auto split: sum.splits)

lemma register_all_or_throw_prefix:
  "\<exists>k \<le> length ts. jm_keys (tools (snd (register_all_or_throw h ow ts r))) =
     jm_keys (tools r) @ map t_name (take k ts) \<and>
     (fst (register_all_or_throw h ow ts r) = None \<longleftrightarrow> k = length ts)"
proof (induction ts arbitrary: r)
  case (Cons t ts)
  show ?case
  proof (cases "register_tool h ow t r")
    case (Inl e)
    then show ?thesis by (intro exI [of _ 0]) simp
  next
    case (Inr r')
    then have keys: "jm_keys (tools r') = jm_keys (tools r) @ [t_name t]"
      by (auto simp: register_tool_def tools_store split: if_splits)
    have step: "register_all_or_throw h ow (t # ts) r = register_all_or_throw h ow ts r'"
      using Inr by simp
    from Cons.IH [of r'] obtain k where k: "k \<le> length ts"
      and k_keys: "jm_keys (tools (snd (register_all_or_throw h ow ts r'))) =
         jm_keys (tools r') @ map t_name (take k ts)"
      and k_none: "fst (register_all_or_throw h ow ts r') = None \<longleftrightarrow> k = length ts"
      by (elim exE conjE) (rule that)
    show ?thesis unfolding step
    proof (intro exI conjI)
      show "Suc k \<le> length (t # ts)" using k by simp
      show "jm_keys (tools (snd (register_all_or_throw h ow ts r'))) =
          jm_keys (tools r) @ map t_name (take (Suc k) (t # ts))"
        unfolding k_keys keys by simp
      show "fst (register_all_or_throw h ow ts r') = None \<longleftrightarrow> Suc k = length (t # ts)"
        unfolding k_none by simp
    qed
  qed
qed simp

section \<open>Description modes\<close>

text \<open>The stored tool \<open>x\<close> still knows the description of \<open>t\<close> and differs from it in nothing else.\<close>

definition derived :: "tool \<Rightarrow> tool \<Rightarrow> bool" where
  "derived t x =
     (x\<lparr>t_description := t_description t, t_hint := t_hint t, t_est := t_est t,
         t_original := None\<rparr> = t \<and>
      (t_original x = Some (t_description t, t_hint t) \<or>
       t_original x = None \<and> t_description x = t_description t \<and> t_hint x = t_hint t))"

definition shown :: "(string \<Rightarrow> string) \<Rightarrow> mode \<Rightarrow> tool \<Rightarrow> string \<times> string option" where
  "shown simp_desc m t =
     (case m of Extend \<Rightarrow> (t_description t, t_hint t)
              | Simple \<Rightarrow> (simp_desc (t_description t), map_option simp_desc (t_hint t)))"

lemma apply_mode_derived:
  assumes "derived t x"
  shows "derived t (stamp h ((apply_mode (h_simplify h) x m)\<lparr>t_est := None\<rparr>))"
    "(t_description (stamp h ((apply_mode (h_simplify h) x m)\<lparr>t_est := None\<rparr>)),
      t_hint (stamp h ((apply_mode (h_simplify h) x m)\<lparr>t_est := None\<rparr>))) =
     shown (h_simplify h) m t"
proof -
  show "derived t (stamp h ((apply_mode (h_simplify h) x m)\<lparr>t_est := None\<rparr>))"
    using assms by (cases m)
      (auto simp: derived_def apply_mode_def with_description_def stamp_def Let_def
        split: option.splits)
  show "(t_description (stamp h ((apply_mode (h_simplify h) x m)\<lparr>t_est := None\<rparr>)),
      t_hint (stamp h ((apply_mode (h_simplify h) x m)\<lparr>t_est := None\<rparr>))) =
     shown (h_simplify h) m t"
    using assms by (cases m)
      (auto simp: derived_def apply_mode_def with_description_def stamp_def Let_def shown_def
        split: option.splits)
qed

definition set_modes :: "helpers \<Rightarrow> string \<Rightarrow> mode list \<Rightarrow> registry \<Rightarrow> registry" where
  "set_modes h n ms r =
     fold (\<lambda>m r. snd (set_description_mode h n (Some (mode_string m)) r)) ms r"

lemma normalize_mode_string [simp]: "normalize_mode (Some (mode_string m)) = Some m"
proof -
  have "normalize_mode (Some ''extend'') = Some Extend" by code_simp
  moreover have "normalize_mode (Some ''simple'') = Some Simple" by code_simp
  ultimately show ?thesis by (cases m) (simp_all add: mode_string_def)
qed

lemma set_mode_entry:
  assumes "jm_get (tools r) n = Some (x, ow)" "derived t x"
  shows "\<exists>x'. jm_get (tools (snd (set_description_mode h n (Some (mode_string m)) r))) n =
      Some (x', ow) \<and> derived t x' \<and>
    (t_description x', t_hint x') = shown (h_simplify h) m t \<and>
    mode_of (snd (set_description_mode h n (Some (mode_string m)) r)) n = m"
  using assms apply_mode_derived [OF assms(2), of h m]
  by (cases m) (auto simp: set_description_mode_def Let_def mode_of_def)

lemma set_modes_entry:
  assumes "ms \<noteq> []" "jm_get (tools r) n = Some (x, ow)" "derived t x"
  shows "\<exists>x'. jm_get (tools (set_modes h n ms r)) n = Some (x', ow) \<and> derived t x' \<and>
    (t_description x', t_hint x') = shown (h_simplify h) (last ms) t \<and>
    mode_of (set_modes h n ms r) n = last ms"
  using assms
proof (induction ms arbitrary: r x)
  case (Cons m ms)
  obtain x' where x': "jm_get (tools (snd (set_description_mode h n (Some (mode_string m)) r))) n =
      Some (x', ow)" "derived t x'" "(t_description x', t_hint x') = shown (h_simplify h) m t"
    "mode_of (snd (set_description_mode h n (Some (mode_string m)) r)) n = m"
    using set_mode_entry [OF Cons.prems(2,3), of h m] by blast
  show ?case
  proof (cases "ms = []")
    case True
    with x' show ?thesis by (simp add: set_modes_def)
  next
    case False
    from Cons.IH [OF this x'(1,2)] False show ?thesis by (simp add: set_modes_def)
  qed
qed simp

section \<open>Grouping\<close>

definition category_of :: "tool \<Rightarrow> string" where
  "category_of t = (case t_category t of None \<Rightarrow> '''' | Some c \<Rightarrow> c)"

lemma group_by_category_get:
  "(case jm_get (group_by_category dis es acc) c of None \<Rightarrow> [] | Some g \<Rightarrow> g) =
     (case jm_get acc c of None \<Rightarrow> [] | Some g \<Rightarrow> g) @
     filter (\<lambda>t. category_of t = c) (map (fst \<circ> snd) (filter (\<lambda>e. fst e \<notin> set dis) es))"
  by (induction dis es acc rule: group_by_category.induct)
    (auto simp: category_of_def Let_def split: option.splits)

lemma group_by_category_nonempty:
  "\<forall>g \<in> set (jm_values acc). g \<noteq> [] \<Longrightarrow> jm_wf acc \<Longrightarrow>
   jm_wf (group_by_category dis es acc) \<and>
   (\<forall>c. jm_get (group_by_category dis es acc) c \<noteq> Some [])"
proof (induction dis es acc rule: group_by_category.induct)
  case (1 dis acc)
  then show ?case using jm_values_in [of acc "[]"] by auto
next
  case (2 dis name t ow es acc)
  have "\<forall>g \<in> set (jm_values (jm_set c (g' @ [t]) acc)). g \<noteq> []" for c g'
    using 2(3,4) by (auto simp: jm_values_in split: if_splits)
  with 2 show ?case by (auto simp: Let_def)
qed

section \<open>Properties\<close>

text \<open>After every sequence of registry operations, \<open>list()\<close> returns exactly the registered,
  enabled tools in registration order: the version-keyed snapshot is never stale.\<close>

theorem list_never_stale:
  "fst (list_tools (fold (reg_step h) ops new_registry)) =
     visible_tools (fold (reg_step h) ops new_registry) \<and>
   visible_tools (snd (list_tools (fold (reg_step h) ops new_registry))) =
     visible_tools (fold (reg_step h) ops new_registry)"
proof -
  have "reg_inv (fold (reg_step h) ops new_registry)"
    by (rule registry_contract.run_good [OF reg_inv_new])
  moreover have "visible_tools (snd (list_tools r)) = visible_tools r" for r
    by (simp add: list_tools_def visible_tools_def visible_def Let_def split: option.splits)
  ultimately show ?thesis by (simp add: list_tools_fresh)
qed

text \<open>However often the description mode of a registered tool is switched, the tool shows what
  its last mode makes of the original description (never a summary of a summary), \<open>extend\<close> gives
  back the original text, and no other field of the tool and not its owner is touched.\<close>

theorem description_modes_restore:
  assumes "jm_get (tools r) n = Some (t, ow)" and "t_original t = None" and "ms \<noteq> []"
  shows "\<exists>x. jm_get (tools (set_modes h n ms r)) n = Some (x, ow) \<and>
    (t_description x, t_hint x) = shown (h_simplify h) (last ms) t \<and>
    x\<lparr>t_description := t_description t, t_hint := t_hint t, t_est := t_est t,
      t_original := None\<rparr> = t \<and>
    mode_of (set_modes h n ms r) n = last ms"
proof -
  have "derived t t" using assms(2) by (simp add: derived_def)
  from set_modes_entry [OF assms(3,1) this, of h] show ?thesis by (auto simp: derived_def)
qed

definition demo_tool :: tool where
  "demo_tool = \<lparr>t_name = ''read'', t_description = ''Reads a file.'', t_hint = None,
     t_category = None, t_schema_ok = True, t_body = 1, t_est = None, t_original = None\<rparr>"

definition demo_registry :: registry where
  "demo_registry = new_registry\<lparr>tools := [(''read'', demo_tool, ''core'')], version := 1\<rparr>"

definition demo_helpers :: helpers where
  "demo_helpers = \<lparr>h_simplify = take 4, h_est = (\<lambda>t. length (t_description t))\<rparr>"

theorem description_modes_restore_witness:
  "\<exists>x. jm_get (tools (set_modes demo_helpers ''read'' [Simple, Simple, Extend] demo_registry))
      ''read'' = Some (x, ''core'') \<and>
    (t_description x, t_hint x) =
      shown (h_simplify demo_helpers) (last [Simple, Simple, Extend]) demo_tool \<and>
    x\<lparr>t_description := t_description demo_tool, t_hint := t_hint demo_tool,
      t_est := t_est demo_tool, t_original := None\<rparr> = demo_tool \<and>
    mode_of (set_modes demo_helpers ''read'' [Simple, Simple, Extend] demo_registry) ''read'' =
      last [Simple, Simple, Extend]"
  by (rule description_modes_restore)
    (simp_all add: demo_registry_def jm_get_Cons demo_tool_def)

text \<open>Disabling hides a tool from \<open>get\<close> and \<open>list\<close> and touches no other tool; enabling gives the
  registry back its old view. The mark outlives the tool: after a disabled tool is unregistered,
  a new tool registered under the name is accepted and stays invisible.\<close>

theorem disable_visibility:
  assumes "reg_inv r" and "jm_has (tools r) n" and "n \<notin> set (disabled r)"
  shows "let r1 = snd (disable n r) in
    get_tool n r1 = None \<and> n \<notin> set (map fst (visible r1)) \<and>
    (\<forall>m. m \<noteq> n \<longrightarrow> get_tool m r1 = get_tool m r) \<and>
    get_tool n (snd (enable n r1)) = get_tool n r \<and>
    fst (list_tools (snd (enable n r1))) = fst (list_tools r) \<and>
    (\<forall>t ow. t_name t = n \<longrightarrow> t_schema_ok t \<longrightarrow>
       (\<exists>r2. register_tool h ow t (snd (unregister_tool n r1)) = Inr r2 \<and> get_tool n r2 = None))"
proof -
  have inv: "reg_inv (snd (enable n (snd (disable n r))))"
    by (intro reg_inv_enable reg_inv_disable assms(1))
  have restored: "disabled (snd (enable n (snd (disable n r)))) = disabled r"
    "tools (snd (enable n (snd (disable n r)))) = tools r"
    using assms(2,3) by (simp_all add: disable_def enable_def js_add_def js_remove_snoc)
  have "fst (list_tools (snd (enable n (snd (disable n r))))) = fst (list_tools r)"
    using list_tools_fresh [OF inv] list_tools_fresh [OF assms(1)] restored
    by (simp add: visible_tools_def visible_def)
  with assms(2,3) restored show ?thesis
    by (auto simp: Let_def get_tool_def disable_def visible_def register_tool_def
        unregister_tool_def store_def)
qed

theorem disable_visibility_witness:
  "let r1 = snd (disable ''read'' demo_registry) in
    get_tool ''read'' r1 = None \<and> ''read'' \<notin> set (map fst (visible r1)) \<and>
    (\<forall>m. m \<noteq> ''read'' \<longrightarrow> get_tool m r1 = get_tool m demo_registry) \<and>
    get_tool ''read'' (snd (enable ''read'' r1)) = get_tool ''read'' demo_registry \<and>
    fst (list_tools (snd (enable ''read'' r1))) = fst (list_tools demo_registry) \<and>
    (\<forall>t ow. t_name t = ''read'' \<longrightarrow> t_schema_ok t \<longrightarrow>
       (\<exists>r2. register_tool demo_helpers ow t (snd (unregister_tool ''read'' r1)) = Inr r2 \<and>
          get_tool ''read'' r2 = None))"
  by (rule disable_visibility)
    (simp_all add: demo_registry_def reg_inv_def new_registry_def jm_wf_def jm_keys_def
      jm_has_def jm_get_Cons)

text \<open>Boot-time registration is strict: the batch goes through exactly when its names are new and
  pairwise different and every schema is an object; otherwise it throws, and the registry keeps
  precisely the tools before the offending one. \<open>listByCategory\<close> groups the visible tools of a
  category in registration order and has no empty group.\<close>

theorem strict_batch_and_grouping:
  "(fst (register_all_or_throw h ow ts r) = None \<longleftrightarrow>
     distinct (map t_name ts) \<and> set (map t_name ts) \<inter> set (jm_keys (tools r)) = {} \<and>
     list_all t_schema_ok ts) \<and>
   (\<exists>k \<le> length ts. jm_keys (tools (snd (register_all_or_throw h ow ts r))) =
      jm_keys (tools r) @ map t_name (take k ts) \<and>
      (fst (register_all_or_throw h ow ts r) = None \<longleftrightarrow> k = length ts)) \<and>
   jm_get (list_by_category r) c =
     (let g = filter (\<lambda>t. category_of t = c) (visible_tools r) in if g = [] then None else Some g)"
proof (intro conjI)
  show "fst (register_all_or_throw h ow ts r) = None \<longleftrightarrow>
     distinct (map t_name ts) \<and> set (map t_name ts) \<inter> set (jm_keys (tools r)) = {} \<and>
     list_all t_schema_ok ts"
    by (simp only: register_all_or_throw_add_each tool_names.add_each_iff list_all_iff)
  show "jm_get (list_by_category r) c =
     (let g = filter (\<lambda>t. category_of t = c) (visible_tools r) in if g = [] then None else Some g)"
    using group_by_category_get [of "disabled r" "tools r" "[]" c]
      group_by_category_nonempty [of "[]" "disabled r" "tools r"]
    by (auto simp: list_by_category_def visible_tools_def visible_def Let_def
        split: option.splits)
qed (rule register_all_or_throw_prefix)

end
