(* ===== verification/Commands.thy ===== *)
theory Commands
  imports Errors Js_String
begin

text \<open>
  The registries of slash commands and of provider factories,
  \<open>packages/core/src/registry/slash-command-registry.ts\<close> and \<open>provider-registry.ts\<close>.

  A command object is known by identity (\<open>c_id\<close>), as the code compares objects; what its \<open>run\<close>
  does with the arguments is a function of them that returns a result, nothing, or throws a
  message. A provider factory is its key, its wire family and what \<open>create\<close> makes of a
  configuration.
\<close>

section \<open>Slash commands\<close>

datatype 'r cmd_result = Result 'r | NoResult | Throws string

record 'r command =
  c_id :: nat
  c_name :: string
  c_aliases :: "string list"
  c_run :: "string \<Rightarrow> 'r cmd_result"

record 'r cmd_entry =
  e_cmd :: "'r command"
  e_owner :: string
  e_official :: bool

type_synonym 'r commands = "(string, 'r cmd_entry) jsmap"

definition core :: string where
  "core = ''core''"

text \<open>\<open>cmds.set\<close> for the name and then for each alias, every key under \<open>pre\<close>.\<close>

definition claim :: "string \<Rightarrow> 'r cmd_entry \<Rightarrow> 'r commands \<Rightarrow> 'r commands" where
  "claim pre e m =
     fold (\<lambda>k. jm_set (pre @ k) e) (c_name (e_cmd e) # c_aliases (e_cmd e)) m"

definition yields :: "'r command \<Rightarrow> bool \<Rightarrow> 'r commands \<Rightarrow> bool" where
  "yields c is_plugin m =
     (case jm_get m (c_name c) of
        None \<Rightarrow> False
      | Some existing \<Rightarrow>
          (\<not> is_plugin \<and> e_official existing \<and> e_owner existing \<noteq> core) \<or>
          (\<not> is_plugin \<and> e_owner existing = core))"

definition register_command ::
  "'r command \<Rightarrow> string \<Rightarrow> bool \<Rightarrow> 'r commands \<Rightarrow> 'r commands" where
  "register_command c owner opt_official m =
     (let is_plugin = (owner \<noteq> core);
          official = (\<not> is_plugin \<or> opt_official);
          e = \<lparr>e_cmd = c, e_owner = owner, e_official = official\<rparr>
      in if official \<and> yields c is_plugin m then m
         else
           let m1 = (if official then claim '''' e m else m)
           in if is_plugin then claim (owner @ '':'') e m1 else m1)"

definition unregister_command :: "string \<Rightarrow> 'r commands \<Rightarrow> bool \<times> 'r commands" where
  "unregister_command name m =
     (case jm_get m name of
        None \<Rightarrow> (False, m)
      | Some e \<Rightarrow> (True, filter (\<lambda>(k, e'). c_id (e_cmd e') \<noteq> c_id (e_cmd e)) m))"

definition register_commands ::
  "'r command list \<Rightarrow> string \<Rightarrow> 'r commands \<Rightarrow> 'r commands" where
  "register_commands cs owner m = fold (\<lambda>c. register_command c owner False) cs m"

definition get_command :: "string \<Rightarrow> 'r commands \<Rightarrow> 'r command option" where
  "get_command name m = map_option e_cmd (jm_get m name)"

definition command_owner :: "string \<Rightarrow> 'r commands \<Rightarrow> string option" where
  "command_owner name m = map_option e_owner (jm_get m name)"

fun list_commands_from ::
  "nat list \<Rightarrow> 'r commands \<Rightarrow> ('r command \<times> string \<times> string) list" where
  "list_commands_from seen [] = []"
| "list_commands_from seen ((k, e) # m) =
     (if c_id (e_cmd e) \<in> set seen then list_commands_from seen m
      else (e_cmd e, e_owner e, k) # list_commands_from (js_add (c_id (e_cmd e)) seen) m)"

definition list_with_owners :: "'r commands \<Rightarrow> ('r command \<times> string \<times> string) list" where
  "list_with_owners m = list_commands_from [] m"

definition list_commands :: "'r commands \<Rightarrow> 'r command list" where
  "list_commands m = map fst (list_commands_from [] m)"

datatype 'r reply = NotACommand | Unknown string | Reply 'r | EmptyReply | Failed string string

text \<open>The name and the arguments of a command line without its slash. The code tests for a
  namespace first, and computes the same split on every branch.\<close>

definition split_line :: "'r commands \<Rightarrow> string \<Rightarrow> string \<times> string" where
  "split_line m trimmed =
     (let space_idx = index_of_char CHR '' '' trimmed;
          first_colon = index_of_char CHR '':'' trimmed;
          name = (case space_idx of None \<Rightarrow> trimmed | Some i \<Rightarrow> take i trimmed);
          args = (case space_idx of None \<Rightarrow> '''' | Some i \<Rightarrow> drop (i + 1) trimmed)
      in case first_colon of
           Some c \<Rightarrow>
             (if (case space_idx of None \<Rightarrow> True | Some i \<Rightarrow> c < i) then
                let pre = take c trimmed
                in (case jm_get m name of
                      None \<Rightarrow> (name, args)
                    | Some e \<Rightarrow> if e_owner e \<noteq> pre then (name, args) else (name, args))
              else (name, args))
         | None \<Rightarrow> (name, args))"

definition dispatch_command :: "string \<Rightarrow> 'r commands \<Rightarrow> 'r reply" where
  "dispatch_command line m =
     (if \<not> starts_with line ''/'' then NotACommand
      else
        (case split_line m (drop 1 line) of (name, args) \<Rightarrow>
           (case jm_get m name of
              None \<Rightarrow> Unknown name
            | Some e \<Rightarrow>
                (case c_run (e_cmd e) args of
                   Result r \<Rightarrow> Reply r
                 | NoResult \<Rightarrow> EmptyReply
                 | Throws msg \<Rightarrow> Failed name msg))))"

section \<open>Provider factories\<close>

record ('c, 'p) factory =
  f_type :: string
  f_family :: string
  f_create :: "'c \<Rightarrow> 'p"

type_synonym ('c, 'p) factories = "(string, ('c, 'p) factory) jsmap"

definition register_factory :: "('c, 'p) factory \<Rightarrow> ('c, 'p) factories \<Rightarrow> ('c, 'p) factories" where
  "register_factory f m = jm_set (f_type f) f m"

definition register_factories ::
  "('c, 'p) factory list \<Rightarrow> ('c, 'p) factories \<Rightarrow> ('c, 'p) factories" where
  "register_factories fs m = fold register_factory fs m"

text \<open>The thrown error lists the requested type and the registered ones.\<close>

definition override_factory ::
  "string \<Rightarrow> ('c, 'p) factory \<Rightarrow> ('c, 'p) factories \<Rightarrow> string + ('c, 'p) factories" where
  "override_factory ty f m = (if \<not> jm_has m ty then Inl ty else Inr (jm_set ty f m))"

definition has_factory :: "string \<Rightarrow> ('c, 'p) factories \<Rightarrow> bool" where
  "has_factory ty m = jm_has m ty"

definition unregister_factory ::
  "string \<Rightarrow> ('c, 'p) factories \<Rightarrow> bool \<times> ('c, 'p) factories" where
  "unregister_factory ty m = (jm_has m ty, jm_del ty m)"

definition create_provider ::
  "string \<Rightarrow> 'c \<Rightarrow> ('c, 'p) factories \<Rightarrow> (string \<times> string list) + 'p" where
  "create_provider ty cfg m =
     (case jm_get m ty of
        None \<Rightarrow> Inl (ty, jm_keys m)
      | Some f \<Rightarrow> Inr (f_create f cfg))"

definition list_factories :: "('c, 'p) factories \<Rightarrow> string list" where
  "list_factories m = jm_keys m"

section \<open>Keys\<close>

lemma jm_get_claim:
  "jm_get (claim pre e m) k =
     (if k \<in> (\<lambda>n. pre @ n) ` set (c_name (e_cmd e) # c_aliases (e_cmd e)) then Some e
      else jm_get m k)"
proof -
  have "jm_get (fold (\<lambda>k. jm_set (pre @ k) e) ns m) k =
      (if k \<in> (\<lambda>n. pre @ n) ` set ns then Some e else jm_get m k)" for ns
    by (induction ns arbitrary: m) auto
  then show ?thesis unfolding claim_def .
qed

lemma jm_wf_claim: "jm_wf m \<Longrightarrow> jm_wf (claim pre e m)"
proof -
  have "jm_wf m \<Longrightarrow> jm_wf (fold (\<lambda>k. jm_set (pre @ k) e) ns m)" for ns
    by (induction ns arbitrary: m) auto
  then show "jm_wf m \<Longrightarrow> ?thesis" unfolding claim_def .
qed

lemma jm_wf_register: "jm_wf m \<Longrightarrow> jm_wf (register_command c owner opt m)"
  by (simp add: register_command_def Let_def jm_wf_claim)

lemma jm_get_filter:
  "jm_wf m \<Longrightarrow> jm_get (filter (\<lambda>(k, e). P e) m) k =
     (case jm_get m k of None \<Rightarrow> None | Some e \<Rightarrow> if P e then Some e else None)"
proof (induction m)
  case (Cons p m)
  obtain a e where p: "p = (a, e)" by fastforce
  have "jm_wf m" "jm_get m a = None"
    using Cons.prems by (auto simp: p jm_wf_def jm_keys_def jm_get_None)
  with Cons.IH show ?case by (auto simp: p jm_get_Cons split: option.splits)
qed simp

lemma list_commands_from_ids:
  "set (map (\<lambda>(c, ow, k). c_id c) (list_commands_from seen m)) =
     c_id ` e_cmd ` set (jm_values m) - set seen \<and>
   distinct (map (\<lambda>(c, ow, k). c_id c) (list_commands_from seen m))"
  by (induction seen m rule: list_commands_from.induct) (auto simp: jm_values_def)

section \<open>Properties\<close>

text \<open>An external plugin is isolated: registering any command under an owner other than core
  without the host's official mark leaves the lookup and the owner of every name without the
  owner's prefix exactly as they were, and makes the command and its aliases reachable under
  the prefix.\<close>

theorem external_plugin_isolated:
  assumes "owner \<noteq> core"
  shows "(\<forall>k. \<not> prefix (owner @ '':'') k \<longrightarrow>
      get_command k (register_command c owner False m) = get_command k m \<and>
      command_owner k (register_command c owner False m) = command_owner k m) \<and>
    (\<forall>a \<in> set (c_name c # c_aliases c).
      get_command (owner @ '':'' @ a) (register_command c owner False m) = Some c \<and>
      command_owner (owner @ '':'' @ a) (register_command c owner False m) = Some owner)"
proof -
  let ?e = "\<lparr>e_cmd = c, e_owner = owner, e_official = False\<rparr>"
  have reg: "register_command c owner False m = claim (owner @ '':'') ?e m"
    using assms by (simp add: register_command_def Let_def)
  show ?thesis unfolding reg get_command_def command_owner_def jm_get_claim
    by (auto simp: prefix_def)
qed

definition demo_cmd :: "string \<Rightarrow> nat \<Rightarrow> string list \<Rightarrow> string command" where
  "demo_cmd name i al = \<lparr>c_id = i, c_name = name, c_aliases = al, c_run = Result\<rparr>"

theorem external_plugin_isolated_witness:
  "get_command ''help'' (register_command (demo_cmd ''help'' 2 [''h'']) ''acme'' False
      (register_command (demo_cmd ''help'' 1 []) core False [])) = Some (demo_cmd ''help'' 1 []) \<and>
   get_command ''acme:h'' (register_command (demo_cmd ''help'' 2 [''h'']) ''acme'' False
      (register_command (demo_cmd ''help'' 1 []) core False [])) =
    Some (demo_cmd ''help'' 2 [''h''])"
proof -
  let ?m = "register_command (demo_cmd ''help'' 1 []) core False []"
  have old: "get_command ''help'' ?m = Some (demo_cmd ''help'' 1 [])"
    by (simp add: demo_cmd_def register_command_def get_command_def yields_def jm_get_claim)
  have "''acme'' \<noteq> core" by (simp add: core_def)
  from external_plugin_isolated [OF this, of "demo_cmd ''help'' 2 [''h'']" ?m] old
  show ?thesis by (auto simp: demo_cmd_def dest: spec [of _ "''help''"])
qed

text \<open>Unregistering by any key of a command removes every key of that command, bare,
  namespaced or alias, and no key of another command; the listing shows each command object once.\<close>

theorem unregister_removes_all_keys:
  assumes "jm_wf m" and "jm_get m name = Some e"
  shows "fst (unregister_command name m) \<and>
    (\<forall>k. jm_get (snd (unregister_command name m)) k =
      (case jm_get m k of None \<Rightarrow> None
       | Some e' \<Rightarrow> if c_id (e_cmd e') = c_id (e_cmd e) then None else Some e')) \<and>
    distinct (map c_id (list_commands m)) \<and>
    set (map c_id (list_commands m)) = c_id ` e_cmd ` set (jm_values m)"
proof -
  have ids: "map c_id (list_commands m) = map (\<lambda>(c, ow, k). c_id c) (list_commands_from [] m)"
    by (simp add: list_commands_def comp_def case_prod_beta)
  have "jm_get (filter (\<lambda>(k, e'). c_id (e_cmd e') \<noteq> c_id (e_cmd e)) m) k =
      (case jm_get m k of None \<Rightarrow> None
       | Some e' \<Rightarrow> if c_id (e_cmd e') = c_id (e_cmd e) then None else Some e')" for k
    by (subst jm_get_filter [OF assms(1)]) (simp split: option.splits)
  with assms(2) list_commands_from_ids [of "[]" m] show ?thesis
    unfolding ids by (simp add: unregister_command_def)
qed

definition demo_commands :: "string commands" where
  "demo_commands = register_command (demo_cmd ''prompts'' 1 [''p'']) ''acme'' True []"

theorem unregister_removes_all_keys_witness:
  "\<exists>e :: string cmd_entry. fst (unregister_command ''acme:p'' demo_commands) \<and>
    (\<forall>k. jm_get (snd (unregister_command ''acme:p'' demo_commands)) k =
      (case jm_get demo_commands k of None \<Rightarrow> None
       | Some e' \<Rightarrow> if c_id (e_cmd e') = c_id (e_cmd e) then None else Some e')) \<and>
    distinct (map c_id (list_commands demo_commands)) \<and>
    set (map c_id (list_commands demo_commands)) = c_id ` e_cmd ` set (jm_values demo_commands)"
proof -
  have "jm_wf demo_commands" by (simp add: demo_commands_def jm_wf_register)
  moreover have "jm_has demo_commands ''acme:p''" by code_simp
  then obtain e where "jm_get demo_commands ''acme:p'' = Some e" by (auto simp: jm_has_def)
  ultimately show ?thesis using unregister_removes_all_keys [of demo_commands "''acme:p''" e] by blast
qed

text \<open>Dispatch runs the command stored under the text up to the first blank, on everything after
  that blank as it is (nothing is trimmed); a line without a slash is no command, an unknown
  name and a throwing command are answered, never raised.\<close>

theorem dispatch_runs_stored_command:
  "dispatch_command line m =
     (case line of
        [] \<Rightarrow> NotACommand
      | ch # rest \<Rightarrow>
          if ch \<noteq> CHR ''/'' then NotACommand
          else
            (let name = takeWhile (\<lambda>x. x \<noteq> CHR '' '') rest;
                 args = drop 1 (dropWhile (\<lambda>x. x \<noteq> CHR '' '') rest)
             in case jm_get m name of
                  None \<Rightarrow> Unknown name
                | Some e \<Rightarrow>
                    (case c_run (e_cmd e) args of
                       Result r \<Rightarrow> Reply r | NoResult \<Rightarrow> EmptyReply | Throws msg \<Rightarrow> Failed name msg)))"
proof -
  have split: "split_line m s = (takeWhile (\<lambda>x. x \<noteq> CHR '' '') s,
      drop 1 (dropWhile (\<lambda>x. x \<noteq> CHR '' '') s))" for s
  proof -
    have "(case index_of_char CHR '' '' s of None \<Rightarrow> s | Some i \<Rightarrow> take i s) =
        takeWhile (\<lambda>x. x \<noteq> CHR '' '') s \<and>
      (case index_of_char CHR '' '' s of None \<Rightarrow> '''' | Some i \<Rightarrow> drop (i + 1) s) =
        drop 1 (dropWhile (\<lambda>x. x \<noteq> CHR '' '') s)"
      by (induction s) (auto split: option.splits)
    then show ?thesis by (simp add: split_line_def Let_def split: option.splits)
  qed
  show ?thesis
    by (cases line) (auto simp: dispatch_command_def split starts_with_def Let_def)
qed

text \<open>A core command registered after an official plugin takes the plugin's bare name when it
  carries that name as an alias; under its own name it yields.\<close>

theorem core_alias_clobbers_official:
  assumes "owner \<noteq> core" and "c_name p \<notin> set (c_aliases c)" and "c_name c \<notin> set (c_name p # c_aliases p)"
    and "\<not> prefix (owner @ '':'') (c_name c)" and "\<not> jm_has m (c_name c)"
  shows "get_command (c_name p) (register_command p owner True m) = Some p \<and>
    get_command (c_name p) (register_command (c\<lparr>c_name := c_name p\<rparr>) core False
      (register_command p owner True m)) = Some p \<and>
    get_command (c_name p) (register_command (c\<lparr>c_aliases := c_name p # c_aliases c\<rparr>) core False
      (register_command p owner True m)) = Some (c\<lparr>c_aliases := c_name p # c_aliases c\<rparr>)"
proof -
  let ?e = "\<lparr>e_cmd = p, e_owner = owner, e_official = True\<rparr>"
  have reg: "register_command p owner True m = claim (owner @ '':'') ?e (claim '''' ?e m)"
    using assms(1) by (auto simp: register_command_def Let_def yields_def split: option.splits)
  have plugin: "jm_get (register_command p owner True m) (c_name p) = Some ?e"
    unfolding reg jm_get_claim by auto
  have free: "jm_get (register_command p owner True m) (c_name c) = None"
    unfolding reg jm_get_claim using assms(3-5) by (auto simp: prefix_def jm_has_def)
  have "register_command (c\<lparr>c_name := c_name p\<rparr>) core False (register_command p owner True m) =
      register_command p owner True m"
    using plugin assms(1)
    by (simp add: register_command_def [of "c\<lparr>c_name := c_name p\<rparr>"] yields_def Let_def)
  moreover have "register_command (c\<lparr>c_aliases := c_name p # c_aliases c\<rparr>) core False
      (register_command p owner True m) =
      claim '''' \<lparr>e_cmd = c\<lparr>c_aliases := c_name p # c_aliases c\<rparr>, e_owner = core, e_official = True\<rparr>
        (register_command p owner True m)"
    using free
    by (simp add: register_command_def [of "c\<lparr>c_aliases := c_name p # c_aliases c\<rparr>"] yields_def Let_def)
  ultimately show ?thesis using plugin by (simp add: get_command_def jm_get_claim)
qed

theorem core_alias_clobbers_official_witness:
  "get_command ''prompts'' (register_command (demo_cmd ''prompts'' 1 []) ''acme'' True []) =
      Some (demo_cmd ''prompts'' 1 []) \<and>
    get_command ''prompts'' (register_command (demo_cmd ''prompts'' 2 []) core False
      (register_command (demo_cmd ''prompts'' 1 []) ''acme'' True [])) =
      Some (demo_cmd ''prompts'' 1 []) \<and>
    get_command ''prompts'' (register_command (demo_cmd ''templates'' 2 [''prompts'']) core False
      (register_command (demo_cmd ''prompts'' 1 []) ''acme'' True [])) =
      Some (demo_cmd ''templates'' 2 [''prompts''])"
  using core_alias_clobbers_official
    [of "''acme''" "demo_cmd ''prompts'' 1 []" "demo_cmd ''templates'' 2 []" "[]"]
  by (simp add: demo_cmd_def core_def jm_has_def)

end
