(* ===== verification/Task_Dag.thy ===== *)
theory Task_Dag
  imports Prelude Complex_Main
begin

text \<open>
  The task graph of the multi-agent director, \<open>packages/core/src/coordination/task-dag.ts\<close>.

  Nodes live in the runtime's map under their id; a node object is its record, and the cached
  runnable list keeps the ids of the objects it refers to. Handlers are observers: an operation
  returns the events it emits, in order (\<open>Runnables\<close> is the call of the runnable handlers). Time
  stamps and the caller's opaque result are left out.
\<close>

section \<open>Data\<close>

datatype status = Pending | Ready | Running | Done | Failed | Skipped

record node =
  n_id :: string
  n_description :: string
  n_role :: "string option"
  n_priority :: int
  n_status :: status
  n_deps :: "string list"
  n_dependents :: "string list"
  n_error :: "string option"
  n_assigned :: "string option"
  n_tags :: "string list"

datatype event =
    NodeReady string "string list"
  | NodeStarted string string
  | NodeCompleted string "string list"
  | NodeFailed string string "string list"
  | NodeSkipped string string
  | Deadlock "string list"
  | GraphDone bool
  | Runnables "string list"

type_synonym nodes = "(string, node) jsmap"

record dag =
  d_nodes :: nodes
  d_cache :: "string list option"

definition empty_dag :: dag where
  "empty_dag = \<lparr>d_nodes = [], d_cache = None\<rparr>"

datatype dag_error = UnknownDependency string string | WouldCycle string "string list"

section \<open>Cycle detection\<close>

text \<open>The stack's top is the head of the list: \<open>push(...deps)\<close> puts the last dependency on top.\<close>

function cycle_search :: "nodes \<Rightarrow> string \<Rightarrow> string list \<Rightarrow> string list \<Rightarrow> bool" where
  "cycle_search ns i visited [] = False"
| "cycle_search ns i visited (current # stack) =
     (if current = i then True
      else if current \<in> set visited then cycle_search ns i visited stack
      else (case jm_get ns current of
              None \<Rightarrow> cycle_search ns i (js_add current visited) stack
            | Some n \<Rightarrow> cycle_search ns i (js_add current visited) (rev (n_deps n) @ stack)))"
  by pat_completeness auto
termination
proof (relation "measures [\<lambda>(ns, i, visited, stack). card (set (jm_keys ns) - set visited),
    \<lambda>(ns, i, visited, stack). length stack]")
  fix ns :: nodes and i visited current stack n
  assume "current \<notin> set visited" "jm_get ns current = Some n"
  then have "current \<in> set (jm_keys ns) - set visited" using jm_has_keys [of ns current]
    by (simp add: jm_has_def)
  then have "card (set (jm_keys ns) - set (js_add current visited)) <
      card (set (jm_keys ns) - set visited)"
    by (intro psubset_card_mono) auto
  then show "((ns, i, js_add current visited, rev (n_deps n) @ stack), ns, i, visited,
      current # stack) \<in> measures [\<lambda>(ns, i, visited, stack). card (set (jm_keys ns) - set visited),
      \<lambda>(ns, i, visited, stack). length stack]"
    by simp
next
  fix ns :: nodes and i visited current stack
  have "card (set (jm_keys ns) - set (js_add current visited)) \<le>
      card (set (jm_keys ns) - set visited)"
    by (intro card_mono) auto
  then show "((ns, i, js_add current visited, stack), ns, i, visited, current # stack) \<in>
      measures [\<lambda>(ns, i, visited, stack). card (set (jm_keys ns) - set visited),
      \<lambda>(ns, i, visited, stack). length stack]"
    by auto
qed auto

definition would_cycle :: "nodes \<Rightarrow> string \<Rightarrow> string list \<Rightarrow> bool" where
  "would_cycle ns i new_deps = cycle_search ns i [] (rev new_deps)"

section \<open>Queries\<close>

definition with_status :: "(status \<Rightarrow> bool) \<Rightarrow> dag \<Rightarrow> node list" where
  "with_status p d = filter (\<lambda>n. p (n_status n)) (jm_values (d_nodes d))"

definition get_all :: "dag \<Rightarrow> node list" where
  "get_all d = jm_values (d_nodes d)"

definition get_node :: "string \<Rightarrow> dag \<Rightarrow> node option" where
  "get_node i d = jm_get (d_nodes d) i"

definition runnable :: "nodes \<Rightarrow> node list" where
  "runnable ns = sort_key n_priority (filter (\<lambda>n. n_status n = Ready) (jm_values ns))"

definition get_ready :: "dag \<Rightarrow> node list \<times> dag" where
  "get_ready d =
     (case d_cache d of
        Some ids \<Rightarrow> (List.map_filter (jm_get (d_nodes d)) ids, d)
      | None \<Rightarrow>
          let r = runnable (d_nodes d)
          in (r, d\<lparr>d_cache := Some (map n_id r)\<rparr>))"

definition get_running :: "dag \<Rightarrow> node list" where
  "get_running = with_status (\<lambda>s. s = Running)"

definition get_pending :: "dag \<Rightarrow> node list" where
  "get_pending = with_status (\<lambda>s. s = Pending)"

definition get_blocked :: "dag \<Rightarrow> node list" where
  "get_blocked = with_status (\<lambda>s. s = Pending)"

definition get_done :: "dag \<Rightarrow> node list" where
  "get_done = with_status (\<lambda>s. s = Done)"

definition get_failed :: "dag \<Rightarrow> node list" where
  "get_failed = with_status (\<lambda>s. s = Failed)"

definition get_completed :: "dag \<Rightarrow> node list" where
  "get_completed = with_status (\<lambda>s. s = Done \<or> s = Skipped)"

definition is_done :: "dag \<Rightarrow> bool" where
  "is_done d = list_all (\<lambda>n. n_status n \<in> {Done, Failed, Skipped}) (jm_values (d_nodes d))"

definition is_failed :: "dag \<Rightarrow> bool" where
  "is_failed d = list_ex (\<lambda>n. n_status n = Failed) (jm_values (d_nodes d))"

definition has_deadlock :: "dag \<Rightarrow> bool \<times> dag" where
  "has_deadlock d =
     (if is_done d then (False, d)
      else (case get_ready d of (r, d') \<Rightarrow> (r = [] \<and> get_running d' = [], d')))"

record dag_stats =
  st_total :: nat
  st_pending :: nat
  st_ready :: nat
  st_running :: nat
  st_done :: nat
  st_failed :: nat
  st_skipped :: nat
  st_progress :: rat

definition stats :: "dag \<Rightarrow> dag_stats" where
  "stats d =
     (let count = (\<lambda>p. length (with_status p d));
          total = length (get_all d);
          finished = count (\<lambda>s. s = Done \<or> s = Skipped)
      in \<lparr>st_total = total, st_pending = count (\<lambda>s. s = Pending),
          st_ready = count (\<lambda>s. s = Ready), st_running = count (\<lambda>s. s = Running),
          st_done = count (\<lambda>s. s = Done), st_failed = count (\<lambda>s. s = Failed),
          st_skipped = count (\<lambda>s. s = Skipped),
          st_progress = (if total \<noteq> 0 then of_nat finished / of_nat total else 0)\<rparr>)"

text \<open>\<open>visit\<close> recurses into the dependencies; the fuel bounds its depth.\<close>

primrec visit :: "nat \<Rightarrow> nodes \<Rightarrow> string \<Rightarrow> string list \<times> node list \<Rightarrow> string list \<times> node list"
  where
  "visit 0 ns i vr = vr"
| "visit (Suc f) ns i vr =
     (if i \<in> set (fst vr) then vr
      else
        let visited = js_add i (fst vr)
        in (case jm_get ns i of
              None \<Rightarrow> (visited, snd vr)
            | Some n \<Rightarrow>
                (let vr' = fold (visit f ns) (n_deps n) (visited, snd vr)
                 in (fst vr', snd vr' @ [n]))))"

definition topological_order :: "dag \<Rightarrow> node list" where
  "topological_order d =
     (let ns = d_nodes d
      in snd (fold (visit (Suc (length ns)) ns) (jm_keys ns) ([], [])))"

section \<open>Transitions\<close>

definition invalidate_cache :: "dag \<Rightarrow> dag" where
  "invalidate_cache d = d\<lparr>d_cache := None\<rparr>"

definition transition :: "string \<Rightarrow> status \<Rightarrow> status \<Rightarrow> dag \<Rightarrow> event list \<times> dag" where
  "transition i s_from s_to d =
     (case jm_get (d_nodes d) i of
        None \<Rightarrow> ([], d)
      | Some n \<Rightarrow>
          if n_status n \<noteq> s_from then ([], d)
          else
            let d' = invalidate_cache
              (d\<lparr>d_nodes := jm_update i (\<lambda>n. n\<lparr>n_status := s_to\<rparr>) (d_nodes d)\<rparr>)
            in (if s_to = Ready then [NodeReady i (n_deps n)] else [], d'))"

definition emit_ready :: "dag \<Rightarrow> event list \<times> dag" where
  "emit_ready d =
     (case get_ready d of (run, d1) \<Rightarrow>
      case has_deadlock d1 of (dead, d2) \<Rightarrow>
        ((if dead then [Deadlock (map n_id (get_blocked d2))] else [GraphDone (is_done d2)]) @
         (if run \<noteq> [] then [Runnables (map n_id run)] else []), d2))"

definition add_node ::
  "string \<Rightarrow> string \<Rightarrow> string list \<Rightarrow> string option \<Rightarrow> int option \<Rightarrow> string list \<Rightarrow> dag \<Rightarrow>
   dag_error + event list \<times> dag" where
  "add_node i descr deps role prio tags d =
     (if jm_has (d_nodes d) i then Inr ([], d)
      else
        (case List.find (\<lambda>x. \<not> jm_has (d_nodes d) x) deps of
           Some x \<Rightarrow> Inl (UnknownDependency x i)
         | None \<Rightarrow>
             if would_cycle (d_nodes d) i deps then Inl (WouldCycle i deps)
             else
               let n = \<lparr>n_id = i, n_description = descr, n_role = role,
                     n_priority = (case prio of None \<Rightarrow> 5 | Some p \<Rightarrow> p),
                     n_status = (if deps = [] then Ready else Pending), n_deps = deps,
                     n_dependents = [], n_error = None, n_assigned = None, n_tags = tags\<rparr>;
                   ns = fold (\<lambda>x. jm_update x (\<lambda>m. m\<lparr>n_dependents := n_dependents m @ [i]\<rparr>)) deps
                     (jm_set i n (d_nodes d))
               in Inr (emit_ready (invalidate_cache (d\<lparr>d_nodes := ns\<rparr>)))))"

text \<open>The loop over the dependents of a finished node: those whose present dependencies all satisfy
  \<open>ok\<close> become ready, the others are reported as blocked.\<close>

fun settle_dependents ::
  "(status \<Rightarrow> bool) \<Rightarrow> string list \<Rightarrow> dag \<Rightarrow> event list \<times> string list \<times> dag" where
  "settle_dependents ok [] d = ([], [], d)"
| "settle_dependents ok (x # xs) d =
     (case jm_get (d_nodes d) x of
        None \<Rightarrow> settle_dependents ok xs d
      | Some m \<Rightarrow>
          if list_all (\<lambda>y. case jm_get (d_nodes d) y of None \<Rightarrow> True | Some k \<Rightarrow> ok (n_status k))
               (n_deps m)
          then (case transition x Pending Ready d of (es, d1) \<Rightarrow>
                case settle_dependents ok xs d1 of (es', bl, d2) \<Rightarrow> (es @ es', bl, d2))
          else (case settle_dependents ok xs d of (es', bl, d2) \<Rightarrow> (es', x # bl, d2)))"

definition remove_node :: "string \<Rightarrow> dag \<Rightarrow> event list \<times> dag" where
  "remove_node i d =
     (case jm_get (d_nodes d) i of
        None \<Rightarrow> ([], d)
      | Some n \<Rightarrow>
          let ns = fold (\<lambda>x. jm_update x (\<lambda>m. m\<lparr>n_dependents :=
                filter (\<lambda>y. y \<noteq> i) (n_dependents m)\<rparr>)) (n_deps n) (d_nodes d)
          in (case settle_dependents (\<lambda>s. s = Done)
                (case jm_get ns i of None \<Rightarrow> [] | Some n' \<Rightarrow> n_dependents n') (d\<lparr>d_nodes := ns\<rparr>) of
                (es, _, d1) \<Rightarrow>
                  (es, invalidate_cache (d1\<lparr>d_nodes := jm_del i (d_nodes d1)\<rparr>))))"

definition start :: "string \<Rightarrow> string \<Rightarrow> dag \<Rightarrow> bool \<times> event list \<times> dag" where
  "start i who d =
     (case jm_get (d_nodes d) i of
        None \<Rightarrow> (False, [], d)
      | Some n \<Rightarrow>
          if n_status n \<noteq> Ready then (False, [], d)
          else (True, [NodeStarted i who], invalidate_cache
            (d\<lparr>d_nodes := jm_update i (\<lambda>n. n\<lparr>n_status := Running, n_assigned := Some who\<rparr>)
                 (d_nodes d)\<rparr>)))"

definition set_outcome :: "string \<Rightarrow> status \<Rightarrow> string option \<Rightarrow> dag \<Rightarrow> dag" where
  "set_outcome i s err d = invalidate_cache
     (d\<lparr>d_nodes := jm_update i (\<lambda>n. n\<lparr>n_status := s,
          n_error := (case err of None \<Rightarrow> n_error n | Some e \<Rightarrow> Some e)\<rparr>) (d_nodes d)\<rparr>)"

definition complete :: "string \<Rightarrow> dag \<Rightarrow> event list \<times> dag" where
  "complete i d =
     (case jm_get (d_nodes d) i of
        None \<Rightarrow> ([], d)
      | Some n \<Rightarrow>
          (case settle_dependents (\<lambda>s. s = Done) (n_dependents n) (set_outcome i Done None d) of
             (es, blocked, d1) \<Rightarrow>
               if blocked = [] then
                 (case emit_ready d1 of (es', d2) \<Rightarrow> (es @ [NodeCompleted i blocked] @ es', d2))
               else (es @ [NodeCompleted i blocked], d1)))"

definition fail :: "string \<Rightarrow> string \<Rightarrow> dag \<Rightarrow> event list \<times> dag" where
  "fail i err d =
     (case jm_get (d_nodes d) i of
        None \<Rightarrow> ([], d)
      | Some n \<Rightarrow>
          (case settle_dependents (\<lambda>s. s = Done \<or> s = Skipped) (n_dependents n)
                  (set_outcome i Failed (Some err) d) of
             (es, blocked, d1) \<Rightarrow>
               if blocked = [] then
                 (case emit_ready d1 of (es', d2) \<Rightarrow> (es @ [NodeFailed i err blocked] @ es', d2))
               else (es @ [NodeFailed i err blocked], d1)))"

definition skip :: "string \<Rightarrow> string \<Rightarrow> dag \<Rightarrow> event list \<times> dag" where
  "skip i reason d =
     (case jm_get (d_nodes d) i of
        None \<Rightarrow> ([], d)
      | Some n \<Rightarrow>
          (case settle_dependents (\<lambda>s. s = Done \<or> s = Skipped) (n_dependents n)
                  (set_outcome i Skipped None d) of
             (es, blocked, d1) \<Rightarrow> (es @ [NodeSkipped i reason], d1)))"

section \<open>The dependency relation and the search\<close>

definition dep_edges :: "nodes \<Rightarrow> (string \<times> string) set" where
  "dep_edges ns = {(a, b). \<exists>n. jm_get ns a = Some n \<and> b \<in> set (n_deps n)}"

lemma dep_edgesI: "jm_get ns a = Some n \<Longrightarrow> b \<in> set (n_deps n) \<Longrightarrow> (a, b) \<in> dep_edges ns"
  by (auto simp: dep_edges_def)

text \<open>A path that starts in a set closed up to \<open>S\<close> and ends outside it passes through \<open>S\<close>.\<close>

lemma cycle_search_correct:
  assumes "i \<notin> set visited"
    and "\<And>a b. a \<in> set visited \<Longrightarrow> (a, b) \<in> dep_edges ns \<Longrightarrow> b \<in> set visited \<union> set stack"
  shows "cycle_search ns i visited stack \<longleftrightarrow> (\<exists>s \<in> set stack. (s, i) \<in> (dep_edges ns)\<^sup>*)"
  using assms
proof (induction ns i visited stack rule: cycle_search.induct)
  case (2 ns i visited current stack)
  let ?E = "dep_edges ns"
  consider (hit) "current = i" | (seen) "current \<noteq> i" "current \<in> set visited"
    | (gone) "current \<noteq> i" "current \<notin> set visited" "jm_get ns current = None"
    | (new) n where "current \<noteq> i" "current \<notin> set visited" "jm_get ns current = Some n"
    by (cases "jm_get ns current") auto
  then show ?case
  proof cases
    case hit
    then show ?thesis by auto
  next
    case seen
    have closed: "b \<in> set visited \<union> set stack" if "a \<in> set visited" "(a, b) \<in> ?E" for a b
      using 2(5) [OF that] seen(2) by auto
    have "\<exists>s \<in> set stack. (s, i) \<in> ?E\<^sup>*" if "(current, i) \<in> ?E\<^sup>*"
      by (rule leaves_through [OF that seen(2) 2(4)]) (rule closed)
    moreover have "cycle_search ns i visited stack \<longleftrightarrow> (\<exists>s \<in> set stack. (s, i) \<in> ?E\<^sup>*)"
      using seen 2(4) closed by (intro 2(1)) blast+
    ultimately show ?thesis using seen by auto
  next
    case gone
    then have none: "(current, b) \<notin> ?E" for b by (auto simp: dep_edges_def)
    have "(current, i) \<notin> ?E\<^sup>*" using none gone(1) by (meson converse_rtranclE)
    moreover have "cycle_search ns i (js_add current visited) stack \<longleftrightarrow>
        (\<exists>s \<in> set stack. (s, i) \<in> ?E\<^sup>*)"
      using gone none 2(4,5) by (intro 2(2)) auto
    ultimately show ?thesis using gone by simp
  next
    case (new n)
    have succ: "(current, b) \<in> ?E \<longleftrightarrow> b \<in> set (n_deps n)" for b
      using new by (auto simp: dep_edges_def)
    have "cycle_search ns i (js_add current visited) (rev (n_deps n) @ stack) \<longleftrightarrow>
        (\<exists>s \<in> set (rev (n_deps n) @ stack). (s, i) \<in> ?E\<^sup>*)"
      using new 2(4,5) succ by (intro 2(3)) auto
    moreover have "(current, i) \<in> ?E\<^sup>* \<longleftrightarrow> (\<exists>s \<in> set (n_deps n). (s, i) \<in> ?E\<^sup>*)"
      using succ new(1) by (meson converse_rtranclE converse_rtrancl_into_rtrancl)
    ultimately show ?thesis using new by auto
  qed
qed simp

lemma would_cycle_iff:
  "would_cycle ns i deps \<longleftrightarrow> (\<exists>s \<in> set deps. (s, i) \<in> (dep_edges ns)\<^sup>*)"
  using cycle_search_correct [of i "[]" ns "rev deps"] by (simp add: would_cycle_def)

lemma acyclic_new_source:
  assumes "acyclic E" "\<And>d. d \<in> D \<Longrightarrow> (d, x) \<notin> E\<^sup>*"
  shows "acyclic (E \<union> {x} \<times> D)"
proof -
  have new_reach: "(a, x) \<in> E\<^sup>*" if "(a, x) \<in> (E \<union> {x} \<times> D)\<^sup>*" for a
    using that by (induction rule: converse_rtrancl_induct) (auto intro: converse_rtrancl_into_rtrancl)
  have no_new: "(a, b) \<in> E\<^sup>+" if "(a, b) \<in> (E \<union> {x} \<times> D)\<^sup>+" "(b, a) \<in> (E \<union> {x} \<times> D)\<^sup>*" for a b
    using that
  proof (induction rule: trancl_induct)
    case (base b)
    have "(a, b) \<notin> {x} \<times> D" using base(2) new_reach assms(2) by blast
    with base(1) show ?case by blast
  next
    case (step b c)
    have "(b, c) \<notin> {x} \<times> D"
    proof
      assume "(b, c) \<in> {x} \<times> D"
      with step(1,4) have "(c, x) \<in> (E \<union> {x} \<times> D)\<^sup>*"
        by (auto intro: rtrancl_trans trancl_into_rtrancl)
      with new_reach assms(2) \<open>(b, c) \<in> {x} \<times> D\<close> show False by blast
    qed
    with step(2) have "(b, c) \<in> E" by blast
    moreover have "(b, a) \<in> (E \<union> {x} \<times> D)\<^sup>*"
      using step(2,4) by (meson converse_rtrancl_into_rtrancl)
    ultimately show ?case using step.IH by auto
  qed
  show ?thesis
  proof (rule acyclicI, safe)
    fix a assume "(a, a) \<in> (E \<union> {x} \<times> D)\<^sup>+"
    then have "(a, a) \<in> E\<^sup>+" using no_new by blast
    with assms(1) show False by (auto simp: acyclic_def)
  qed
qed

section \<open>Invariant\<close>

definition cache_ok :: "dag \<Rightarrow> bool" where
  "cache_ok d = (case d_cache d of None \<Rightarrow> True | Some ids \<Rightarrow> ids = map n_id (runnable (d_nodes d)))"

definition shaped :: "nodes \<Rightarrow> bool" where
  "shaped ns = (jm_wf ns \<and> (\<forall>k n. jm_get ns k = Some n \<longrightarrow> n_id n = k) \<and> acyclic (dep_edges ns))"

definition dag_inv :: "dag \<Rightarrow> bool" where
  "dag_inv d = (shaped (d_nodes d) \<and> cache_ok d)"

text \<open>An update of nodes in place that touches neither ids nor dependencies.\<close>

definition keeps_shape :: "(node \<Rightarrow> node) \<Rightarrow> bool" where
  "keeps_shape f = (\<forall>n. n_id (f n) = n_id n \<and> n_deps (f n) = n_deps n)"

lemma dep_edges_update [simp]:
  "keeps_shape f \<Longrightarrow> dep_edges (jm_update k f ns) = dep_edges ns"
proof -
  assume "keeps_shape f"
  then have "(a, b) \<in> dep_edges (jm_update k f ns) \<longleftrightarrow> (a, b) \<in> dep_edges ns" for a b
    by (cases "jm_get ns a") (auto simp: dep_edges_def keeps_shape_def)
  then show ?thesis by auto
qed

lemma dep_edges_fold_update [simp]:
  "keeps_shape f \<Longrightarrow> dep_edges (fold (\<lambda>k. jm_update k f) ks ns) = dep_edges ns"
  by (induction ks arbitrary: ns) auto

lemma cache_ok_None [simp]: "cache_ok (invalidate_cache d)"
  by (simp add: cache_ok_def invalidate_cache_def)

lemma nodes_invalidate [simp]: "d_nodes (invalidate_cache d) = d_nodes d"
  by (simp add: invalidate_cache_def)

lemma keeps_shape_simps [simp]:
  "keeps_shape (\<lambda>n. n\<lparr>n_status := s\<rparr>)" "keeps_shape (\<lambda>n. n\<lparr>n_dependents := g n\<rparr>)"
  "keeps_shape (\<lambda>n. n\<lparr>n_status := s, n_assigned := w\<rparr>)"
  "keeps_shape (\<lambda>n. n\<lparr>n_status := s, n_error := h n\<rparr>)"
  by (simp_all add: keeps_shape_def)

lemma shaped_update: "shaped ns \<Longrightarrow> keeps_shape f \<Longrightarrow> shaped (jm_update k f ns)"
  by (auto simp: shaped_def keeps_shape_def split: if_splits)

lemma shaped_fold_update:
  "shaped ns \<Longrightarrow> keeps_shape f \<Longrightarrow> shaped (fold (\<lambda>k. jm_update k f) ks ns)"
  by (induction ks arbitrary: ns) (auto intro: shaped_update)

lemma shaped_del: "shaped ns \<Longrightarrow> shaped (jm_del k ns)"
  by (auto simp: shaped_def dep_edges_def elim!: acyclic_subset split: if_splits)

lemma shaped_transition: "shaped (d_nodes d) \<Longrightarrow> shaped (d_nodes (snd (transition i a b d)))"
  by (auto simp: transition_def Let_def intro: shaped_update split: option.splits)

lemma cache_ok_transition: "cache_ok d \<Longrightarrow> cache_ok (snd (transition i a b d))"
  by (auto simp: transition_def Let_def split: option.splits)

lemma settle_preserves:
  assumes "\<And>x d. P d \<Longrightarrow> P (snd (transition x Pending Ready d))"
  shows "P d \<Longrightarrow> P (snd (snd (settle_dependents ok xs d)))"
  by (induction xs arbitrary: d) (auto simp: case_prod_beta assms split: option.splits)

lemma dag_inv_settle: "dag_inv d \<Longrightarrow> dag_inv (snd (snd (settle_dependents ok xs d)))"
  by (rule settle_preserves) (auto simp: dag_inv_def shaped_transition cache_ok_transition)

lemma shaped_settle:
  "shaped (d_nodes d) \<Longrightarrow> shaped (d_nodes (snd (snd (settle_dependents ok xs d))))"
  by (rule settle_preserves) (rule shaped_transition)

lemma map_filter_ids:
  assumes "jm_wf ns" "\<And>k n. jm_get ns k = Some n \<Longrightarrow> n_id n = k" "set xs \<subseteq> set (jm_values ns)"
  shows "List.map_filter (jm_get ns) (map n_id xs) = xs"
  using assms(3)
proof (induction xs)
  case (Cons x xs)
  then obtain k where "jm_get ns k = Some x" using assms(1) by (auto simp: jm_values_in)
  moreover from this have "n_id x = k" by (rule assms(2))
  ultimately show ?case using Cons by (simp add: List.map_filter_simps)
qed (simp add: List.map_filter_simps)

lemma get_ready_runnable: "dag_inv d \<Longrightarrow> fst (get_ready d) = runnable (d_nodes d)"
  by (auto simp: get_ready_def dag_inv_def shaped_def cache_ok_def Let_def runnable_def
      intro!: map_filter_ids split: option.splits)

lemma get_ready_nodes [simp]: "d_nodes (snd (get_ready d)) = d_nodes d"
  by (simp add: get_ready_def Let_def split: option.splits)

lemma dag_inv_get_ready: "dag_inv d \<Longrightarrow> dag_inv (snd (get_ready d))"
  by (auto simp: get_ready_def dag_inv_def cache_ok_def Let_def split: option.splits)

lemma has_deadlock_nodes [simp]: "d_nodes (snd (has_deadlock d)) = d_nodes d"
  by (simp add: has_deadlock_def case_prod_beta)

lemma dag_inv_has_deadlock: "dag_inv d \<Longrightarrow> dag_inv (snd (has_deadlock d))"
  by (simp add: has_deadlock_def case_prod_beta dag_inv_get_ready)

lemma emit_ready_nodes [simp]: "d_nodes (snd (emit_ready d)) = d_nodes d"
  by (simp add: emit_ready_def case_prod_beta)

lemma dag_inv_emit_ready: "dag_inv d \<Longrightarrow> dag_inv (snd (emit_ready d))"
  by (simp add: emit_ready_def case_prod_beta dag_inv_has_deadlock dag_inv_get_ready)

lemma dag_inv_set_outcome: "dag_inv d \<Longrightarrow> dag_inv (set_outcome i s err d)"
  by (simp add: set_outcome_def dag_inv_def shaped_update)

lemma dag_inv_start: "dag_inv d \<Longrightarrow> dag_inv (snd (snd (start i w d)))"
  by (auto simp: start_def dag_inv_def shaped_update split: option.splits)

lemma dag_inv_complete: "dag_inv d \<Longrightarrow> dag_inv (snd (complete i d))"
  by (auto simp: complete_def case_prod_beta split: option.splits
      intro!: dag_inv_emit_ready dag_inv_settle dag_inv_set_outcome)

lemma dag_inv_fail: "dag_inv d \<Longrightarrow> dag_inv (snd (fail i err d))"
  by (auto simp: fail_def case_prod_beta split: option.splits
      intro!: dag_inv_emit_ready dag_inv_settle dag_inv_set_outcome)

lemma dag_inv_skip: "dag_inv d \<Longrightarrow> dag_inv (snd (skip i r d))"
  by (auto simp: skip_def case_prod_beta split: option.splits
      intro!: dag_inv_settle dag_inv_set_outcome)

lemma dag_inv_remove: "dag_inv d \<Longrightarrow> dag_inv (snd (remove_node i d))"
  by (auto simp: remove_node_def dag_inv_def case_prod_beta Let_def split: option.splits
      intro!: shaped_del shaped_settle shaped_fold_update)

lemma shaped_add:
  assumes "shaped ns" "\<not> jm_has ns i" "n_id n = i" "\<And>x. x \<in> set (n_deps n) \<Longrightarrow> (x, i) \<notin> (dep_edges ns)\<^sup>*"
  shows "shaped (jm_set i n ns)"
proof -
  have "dep_edges (jm_set i n ns) \<subseteq> dep_edges ns \<union> {i} \<times> set (n_deps n)"
    by (auto simp: dep_edges_def split: if_splits)
  moreover have "acyclic (dep_edges ns \<union> {i} \<times> set (n_deps n))"
    using assms(1,4) by (intro acyclic_new_source) (auto simp: shaped_def)
  ultimately have "acyclic (dep_edges (jm_set i n ns))" by (rule acyclic_subset [rotated])
  with assms(1,3) show ?thesis by (auto simp: shaped_def)
qed

lemma dag_inv_add:
  assumes "dag_inv d" "add_node i descr deps role prio tags d = Inr (es, d')"
  shows "dag_inv d'"
proof (cases "jm_has (d_nodes d) i")
  case False
  let ?n = "\<lparr>n_id = i, n_description = descr, n_role = role,
                     n_priority = (case prio of None \<Rightarrow> 5 | Some p \<Rightarrow> p),
                     n_status = (if deps = [] then Ready else Pending), n_deps = deps,
                     n_dependents = [], n_error = None, n_assigned = None, n_tags = tags\<rparr>"
  let ?ns = "fold (\<lambda>x. jm_update x (\<lambda>m. m\<lparr>n_dependents := n_dependents m @ [i]\<rparr>)) deps
                     (jm_set i ?n (d_nodes d))"
  from False assms(2) have "\<not> would_cycle (d_nodes d) i deps"
    and d': "d' = snd (emit_ready (invalidate_cache (d\<lparr>d_nodes := ?ns\<rparr>)))"
    by (auto simp: add_node_def Let_def split: option.splits if_splits)
  then have "shaped ?ns"
    using assms(1) False
    by (intro shaped_fold_update shaped_add) (auto simp: dag_inv_def would_cycle_iff)
  then show ?thesis unfolding d' by (intro dag_inv_emit_ready) (simp add: dag_inv_def)
qed (use assms in \<open>simp add: add_node_def\<close>)

section \<open>Sequences of operations\<close>

datatype dag_op =
    AddNode string string "string list" "string option" "int option" "string list"
  | RemoveNode string | Start string string | Complete string | Fail string string
  | Skip string string | GetReady | HasDeadlock

fun dag_step :: "dag_op \<Rightarrow> dag \<Rightarrow> dag" where
  "dag_step (AddNode i de ds ro pr ta) d =
     (case add_node i de ds ro pr ta d of Inl e \<Rightarrow> d | Inr (es, d') \<Rightarrow> d')"
| "dag_step (RemoveNode i) d = snd (remove_node i d)"
| "dag_step (Start i w) d = snd (snd (start i w d))"
| "dag_step (Complete i) d = snd (complete i d)"
| "dag_step (Fail i e) d = snd (fail i e d)"
| "dag_step (Skip i r) d = snd (skip i r d)"
| "dag_step GetReady d = snd (get_ready d)"
| "dag_step HasDeadlock d = snd (has_deadlock d)"

lemma dag_inv_step: "dag_inv d \<Longrightarrow> dag_inv (dag_step e d)"
  by (cases e) (auto simp: dag_inv_remove dag_inv_start dag_inv_complete dag_inv_fail dag_inv_skip
      dag_inv_get_ready dag_inv_has_deadlock intro: dag_inv_add split: sum.splits)

interpretation dag_contract: state_contract dag_step dag_inv
  by unfold_locales (rule dag_inv_step)

lemma dag_inv_empty: "dag_inv empty_dag"
  by (simp add: dag_inv_def shaped_def cache_ok_def empty_dag_def dep_edges_def acyclic_def)

section \<open>Nothing starts before its dependencies\<close>

definition finished :: "status \<Rightarrow> bool" where
  "finished s = (s = Done \<or> s = Skipped)"

definition deps_met :: "nodes \<Rightarrow> node \<Rightarrow> bool" where
  "deps_met ns n = (\<forall>x \<in> set (n_deps n). \<forall>m. jm_get ns x = Some m \<longrightarrow> finished (n_status m))"

definition safe :: "nodes \<Rightarrow> bool" where
  "safe ns = (\<forall>k n. jm_get ns k = Some n \<longrightarrow>
     (n_status n \<in> {Ready, Running} \<longrightarrow> deps_met ns n) \<and> (\<forall>x \<in> set (n_deps n). jm_has ns x))"

lemma safe_update:
  assumes safe: "safe ns" and n: "jm_get ns x = Some n" and f: "keeps_shape f"
    and fin: "finished (n_status n) \<Longrightarrow> finished (n_status (f n))"
    and go: "n_status (f n) \<in> {Ready, Running} \<Longrightarrow> deps_met ns n"
  shows "safe (jm_update x f ns)"
  unfolding safe_def
proof (intro allI impI conjI ballI)
  fix k m' assume m': "jm_get (jm_update x f ns) k = Some m'"
  then obtain m where m: "jm_get ns k = Some m" and "m' = (if k = x then f m else m)"
    by (auto split: if_splits)
  then have deps: "n_deps m' = n_deps m" using f by (auto simp: keeps_shape_def)
  show "jm_has (jm_update x f ns) y" if "y \<in> set (n_deps m')" for y
    using that safe m deps by (auto simp: safe_def)
  assume st: "n_status m' \<in> {Ready, Running}"
  have "deps_met ns m"
  proof (cases "k = x")
    case True
    with st m n \<open>m' = _\<close> go show ?thesis by auto
  next
    case False
    with st m safe \<open>m' = _\<close> show ?thesis by (auto simp: safe_def)
  qed
  then show "deps_met (jm_update x f ns) m'"
    using n fin deps by (auto simp: deps_met_def split: if_splits)
qed

lemma safe_dependents:
  assumes "safe ns" shows "safe (jm_update x (\<lambda>m. m\<lparr>n_dependents := g m\<rparr>) ns)"
proof (cases "jm_get ns x")
  case None
  then have "jm_get (jm_update x (\<lambda>m. m\<lparr>n_dependents := g m\<rparr>) ns) k = jm_get ns k" for k by simp
  with assms show ?thesis by (simp add: safe_def deps_met_def jm_has_def)
next
  case (Some n)
  with assms show ?thesis by (intro safe_update) (auto simp: safe_def)
qed

lemma safe_fold_dependents:
  "safe ns \<Longrightarrow> safe (fold (\<lambda>x. jm_update x (\<lambda>m. m\<lparr>n_dependents := g m\<rparr>)) xs ns)"
  by (induction xs arbitrary: ns) (auto intro: safe_dependents)

lemma safe_settle:
  assumes "\<And>s. ok s \<Longrightarrow> finished s"
  shows "safe (d_nodes d) \<Longrightarrow> safe (d_nodes (snd (snd (settle_dependents ok xs d))))"
proof (induction xs arbitrary: d)
  case (Cons x xs)
  show ?case
  proof (cases "jm_get (d_nodes d) x")
    case None
    with Cons show ?thesis by simp
  next
    case (Some m)
    let ?all = "list_all (\<lambda>y. case jm_get (d_nodes d) y of None \<Rightarrow> True | Some k \<Rightarrow> ok (n_status k))
        (n_deps m)"
    have "safe (d_nodes (snd (transition x Pending Ready d)))" if ?all
    proof -
      have "deps_met (d_nodes d) m"
        using that assms by (auto simp: deps_met_def list_all_iff split: option.splits)
      with Some Cons.prems show ?thesis
        by (auto simp: transition_def Let_def finished_def intro!: safe_update)
    qed
    with Some Cons show ?thesis by (simp add: case_prod_beta)
  qed
qed simp

lemma safe_outcome:
  assumes "safe (d_nodes d)" "jm_get (d_nodes d) i = Some n" "s \<notin> {Ready, Running}"
    "finished (n_status n) \<Longrightarrow> finished s"
  shows "safe (d_nodes (set_outcome i s err d))"
  unfolding set_outcome_def using assms by (auto intro!: safe_update)

text \<open>The protocol of a director: no node is removed, and no finished task is failed afterwards.\<close>

fun orderly :: "dag \<Rightarrow> dag_op \<Rightarrow> bool" where
  "orderly d (RemoveNode i) = False"
| "orderly d (Fail i e) =
     (case jm_get (d_nodes d) i of None \<Rightarrow> True | Some n \<Rightarrow> \<not> finished (n_status n))"
| "orderly d e = True"

fun orderly_run :: "dag \<Rightarrow> dag_op list \<Rightarrow> bool" where
  "orderly_run d [] = True"
| "orderly_run d (e # es) = (orderly d e \<and> orderly_run (dag_step e d) es)"

lemma safe_add:
  assumes "safe (d_nodes d)" "add_node i de ds ro pr ta d = Inr (es, d')"
  shows "safe (d_nodes d')"
proof (cases "jm_has (d_nodes d) i")
  case False
  let ?n = "\<lparr>n_id = i, n_description = de, n_role = ro,
                     n_priority = (case pr of None \<Rightarrow> 5 | Some p \<Rightarrow> p),
                     n_status = (if ds = [] then Ready else Pending), n_deps = ds,
                     n_dependents = [], n_error = None, n_assigned = None, n_tags = ta\<rparr>"
  let ?ns = "fold (\<lambda>x. jm_update x (\<lambda>m. m\<lparr>n_dependents := n_dependents m @ [i]\<rparr>)) ds
                     (jm_set i ?n (d_nodes d))"
  from False assms(2) have found: "List.find (\<lambda>x. \<not> jm_has (d_nodes d) x) ds = None"
    and d': "d' = snd (emit_ready (invalidate_cache (d\<lparr>d_nodes := ?ns\<rparr>)))"
    by (auto simp: add_node_def Let_def split: option.splits if_splits)
  from found have known: "\<forall>x \<in> set ds. jm_has (d_nodes d) x" by (auto simp: find_None_iff)
  have "safe (jm_set i ?n (d_nodes d))"
    unfolding safe_def
  proof (intro allI impI)
    fix k n assume n: "jm_get (jm_set i ?n (d_nodes d)) k = Some n"
    show "(n_status n \<in> {Ready, Running} \<longrightarrow> deps_met (jm_set i ?n (d_nodes d)) n) \<and>
        (\<forall>x \<in> set (n_deps n). jm_has (jm_set i ?n (d_nodes d)) x)"
    proof (cases "k = i")
      case True
      with n known show ?thesis by (auto simp: deps_met_def split: if_splits)
    next
      case other: False
      with n have old: "jm_get (d_nodes d) k = Some n" by simp
      then have "i \<notin> set (n_deps n)" using assms(1) False by (auto simp: safe_def)
      with old assms(1) show ?thesis by (fastforce simp: safe_def deps_met_def)
    qed
  qed
  then have "safe ?ns" by (rule safe_fold_dependents)
  then show ?thesis by (simp add: d')
qed (use assms in \<open>simp add: add_node_def\<close>)

lemma safe_step: "safe (d_nodes d) \<Longrightarrow> orderly d e \<Longrightarrow> safe (d_nodes (dag_step e d))"
proof (cases e)
  case (Start i w)
  assume safe: "safe (d_nodes d)"
  have "deps_met (d_nodes d) n" if "jm_get (d_nodes d) i = Some n" "n_status n = Ready" for n
    using safe that by (auto simp: safe_def)
  with safe show ?thesis
    by (auto simp: Start start_def finished_def intro!: safe_update split: option.splits)
next
  case (Complete i)
  assume "safe (d_nodes d)"
  then show ?thesis
    by (auto simp: Complete complete_def case_prod_beta finished_def intro!: safe_settle safe_outcome
        split: option.splits)
next
  case (Fail i err)
  assume "safe (d_nodes d)" "orderly d e"
  then show ?thesis
    by (auto simp: Fail fail_def case_prod_beta finished_def intro!: safe_settle safe_outcome
        split: option.splits)
next
  case (Skip i r)
  assume "safe (d_nodes d)"
  then show ?thesis
    by (auto simp: Skip skip_def case_prod_beta finished_def intro!: safe_settle safe_outcome
        split: option.splits)
qed (auto intro: safe_add split: sum.splits)

lemma safe_run: "safe (d_nodes d) \<Longrightarrow> orderly_run d es \<Longrightarrow> safe (d_nodes (fold dag_step es d))"
  by (induction es arbitrary: d) (auto intro: safe_step)

section \<open>Topological order\<close>

definition before_ok :: "nodes \<Rightarrow> node list \<Rightarrow> bool" where
  "before_ok ns r = (\<forall>xs n ys. r = xs @ n # ys \<longrightarrow>
     (\<forall>x \<in> set (n_deps n). jm_has ns x \<longrightarrow> x \<in> n_id ` set xs))"

lemma before_ok_snoc:
  "before_ok ns (r @ [n]) \<longleftrightarrow>
   before_ok ns r \<and> (\<forall>x \<in> set (n_deps n). jm_has ns x \<longrightarrow> x \<in> n_id ` set r)"
proof
  assume all: "before_ok ns (r @ [n])"
  have "before_ok ns r" unfolding before_ok_def
  proof (intro allI impI)
    fix xs m ys assume "r = xs @ m # ys"
    then show "\<forall>x \<in> set (n_deps m). jm_has ns x \<longrightarrow> x \<in> n_id ` set xs"
      using all [unfolded before_ok_def, rule_format, of xs m "ys @ [n]"] by simp
  qed
  with all show "before_ok ns r \<and> (\<forall>x \<in> set (n_deps n). jm_has ns x \<longrightarrow> x \<in> n_id ` set r)"
    by (simp add: before_ok_def)
next
  assume r: "before_ok ns r \<and> (\<forall>x \<in> set (n_deps n). jm_has ns x \<longrightarrow> x \<in> n_id ` set r)"
  show "before_ok ns (r @ [n])" unfolding before_ok_def
  proof (intro allI impI)
    fix xs m ys assume eq: "r @ [n] = xs @ m # ys"
    show "\<forall>x \<in> set (n_deps m). jm_has ns x \<longrightarrow> x \<in> n_id ` set xs"
    proof (cases ys rule: rev_cases)
      case Nil
      with eq r show ?thesis by simp
    next
      case (snoc zs z)
      with eq show ?thesis
        using r [THEN conjunct1, unfolded before_ok_def, rule_format, of xs m zs] by simp
    qed
  qed
qed

definition visit_inv :: "nodes \<Rightarrow> string set \<Rightarrow> string list \<times> node list \<Rightarrow> bool" where
  "visit_inv ns G vr = (distinct (map n_id (snd vr)) \<and>
     (\<forall>n \<in> set (snd vr). jm_get ns (n_id n) = Some n) \<and> before_ok ns (snd vr) \<and>
     G \<inter> n_id ` set (snd vr) = {} \<and> G \<union> n_id ` set (snd vr) = set (fst vr) \<inter> set (jm_keys ns))"

definition visit_post ::
  "nodes \<Rightarrow> string set \<Rightarrow> string list \<Rightarrow> string list \<times> node list \<Rightarrow> string list \<times> node list \<Rightarrow> bool" where
  "visit_post ns G is vr vr' = (visit_inv ns G vr' \<and> set (fst vr) \<subseteq> set (fst vr') \<and>
     set (snd vr) \<subseteq> set (snd vr') \<and>
     (\<forall>i \<in> set is. jm_has ns i \<longrightarrow> i \<in> n_id ` set (snd vr')))"

lemma fold_visit:
  assumes step: "\<And>i vr. visit_inv ns G vr \<Longrightarrow> card (set (jm_keys ns) - set (fst vr)) < f \<Longrightarrow>
    i \<in> D \<Longrightarrow> visit_post ns G [i] vr (g i vr)"
  shows "visit_inv ns G vr \<Longrightarrow> card (set (jm_keys ns) - set (fst vr)) < f \<Longrightarrow> set is \<subseteq> D \<Longrightarrow>
    visit_post ns G is vr (fold g is vr)"
proof (induction "is" arbitrary: vr)
  case (Cons i js)
  have 1: "visit_post ns G [i] vr (g i vr)" using Cons.prems by (intro step) auto
  then have "card (set (jm_keys ns) - set (fst (g i vr))) \<le> card (set (jm_keys ns) - set (fst vr))"
    by (intro card_mono) (auto simp: visit_post_def)
  with 1 Cons.prems have "visit_post ns G js (g i vr) (fold g js (g i vr))"
    by (intro Cons.IH) (auto simp: visit_post_def)
  with 1 show ?case by (auto simp: visit_post_def)
qed (simp add: visit_post_def)

lemma visit_correct:
  assumes sh: "shaped ns"
  shows "visit_inv ns G vr \<Longrightarrow> card (set (jm_keys ns) - set (fst vr)) < f \<Longrightarrow>
    \<forall>g \<in> G. (g, i) \<in> (dep_edges ns)\<^sup>+ \<Longrightarrow> visit_post ns G [i] vr (visit f ns i vr)"
proof (induction f arbitrary: G vr i)
  case (Suc f)
  have acyc: "(x, x) \<notin> (dep_edges ns)\<^sup>+" for x using sh by (auto simp: shaped_def acyclic_def)
  show ?case
  proof (cases "i \<in> set (fst vr)")
    case True
    moreover have "i \<notin> G" using Suc.prems(3) acyc by blast
    ultimately show ?thesis using Suc.prems(1)
      by (auto simp: visit_post_def visit_inv_def jm_has_keys)
  next
    case new: False
    show ?thesis
    proof (cases "jm_get ns i")
      case None
      then have "\<not> jm_has ns i" by (simp add: jm_has_def)
      with None new Suc.prems(1) show ?thesis
        by (auto simp: visit_post_def visit_inv_def jm_has_keys)
    next
      case (Some n)
      let ?v1 = "(js_add i (fst vr), snd vr)"
      let ?v2 = "fold (visit f ns) (n_deps n) ?v1"
      have key: "i \<in> set (jm_keys ns)" using Some by (simp add: jm_has_keys [symmetric] jm_has_def)
      have id: "n_id n = i" using sh Some by (auto simp: shaped_def)
      have inv1: "visit_inv ns (insert i G) ?v1"
        using Suc.prems(1) new key by (auto simp: visit_inv_def)
      have less: "card (set (jm_keys ns) - set (fst ?v1)) < f"
      proof -
        have "set (jm_keys ns) - set (fst ?v1) \<subset> set (jm_keys ns) - set (fst vr)"
          using new key by auto
        then have "card (set (jm_keys ns) - set (fst ?v1)) < card (set (jm_keys ns) - set (fst vr))"
          by (intro psubset_card_mono) auto
        with Suc.prems(2) show ?thesis by linarith
      qed
      have "visit_post ns (insert i G) (n_deps n) ?v1 ?v2"
      proof (rule fold_visit [OF _ inv1 less subset_refl])
        fix j vr'
        assume v: "visit_inv ns (insert i G) vr'"
          and c: "card (set (jm_keys ns) - set (fst vr')) < f" and j: "j \<in> set (n_deps n)"
        have "(i, j) \<in> dep_edges ns" using Some j by (rule dep_edgesI)
        then have gj: "\<forall>g \<in> insert i G. (g, j) \<in> (dep_edges ns)\<^sup>+"
          using Suc.prems(3) by (auto intro: trancl_into_trancl)
        show "visit_post ns (insert i G) [j] vr' (visit f ns j vr')"
          by (rule Suc.IH [OF v c gj])
      qed
      moreover have "i \<notin> G" using Suc.prems(1) new by (auto simp: visit_inv_def)
      ultimately show ?thesis using Some new id key
        by (auto simp: visit_post_def visit_inv_def Let_def before_ok_snoc)
    qed
  qed
qed simp

lemma topological_order_visit:
  assumes "shaped (d_nodes d)"
  shows "visit_post (d_nodes d) {} (jm_keys (d_nodes d)) ([], [])
    (fold (visit (Suc (length (d_nodes d))) (d_nodes d)) (jm_keys (d_nodes d)) ([], []))"
proof (rule fold_visit [OF visit_correct [OF assms]])
  show "visit_inv (d_nodes d) {} ([], [])" by (simp add: visit_inv_def before_ok_def)
  have "card (set (jm_keys (d_nodes d))) \<le> length (jm_keys (d_nodes d))" by (rule card_length)
  then show "card (set (jm_keys (d_nodes d)) - set (fst ([], []))) < Suc (length (d_nodes d))"
    by (simp add: jm_keys_def)
qed auto

lemma stats_partition:
  "st_total (stats d) = st_pending (stats d) + st_ready (stats d) + st_running (stats d) +
     st_done (stats d) + st_failed (stats d) + st_skipped (stats d)"
proof -
  have counts: "length ns = length (filter (\<lambda>n. n_status n = Pending) ns) +
      length (filter (\<lambda>n. n_status n = Ready) ns) + length (filter (\<lambda>n. n_status n = Running) ns) +
      length (filter (\<lambda>n. n_status n = Done) ns) + length (filter (\<lambda>n. n_status n = Failed) ns) +
      length (filter (\<lambda>n. n_status n = Skipped) ns)" for ns :: "node list"
  proof (induction ns)
    case (Cons n ns)
    then show ?case by (cases "n_status n") auto
  qed simp
  show ?thesis unfolding stats_def Let_def get_all_def with_status_def dag_stats.simps
    by (rule counts)
qed

section \<open>Properties\<close>

text \<open>C39. Whatever sequence of operations builds and drives the graph, its dependency relation is
  acyclic, the depth-first test refuses new dependencies exactly when one of them already reaches
  the node, and \<open>getReady\<close>, cached or not, is the list of ready nodes by priority, ties in
  insertion order.\<close>

theorem dag_stays_acyclic:
  "acyclic (dep_edges (d_nodes (fold dag_step ops empty_dag))) \<and>
   (would_cycle (d_nodes (fold dag_step ops empty_dag)) i deps \<longleftrightarrow>
     (\<exists>s \<in> set deps. (s, i) \<in> (dep_edges (d_nodes (fold dag_step ops empty_dag)))\<^sup>*)) \<and>
   fst (get_ready (fold dag_step ops empty_dag)) =
     sort_key n_priority (filter (\<lambda>n. n_status n = Ready)
       (jm_values (d_nodes (fold dag_step ops empty_dag))))"
proof -
  have inv: "dag_inv (fold dag_step ops empty_dag)"
    by (rule dag_contract.run_good [OF dag_inv_empty])
  then show ?thesis
    using get_ready_runnable [OF inv] by (simp add: dag_inv_def shaped_def would_cycle_iff runnable_def)
qed

text \<open>C38. No task is offered or running before its dependencies are finished: after an orderly
  sequence of operations (no node removed, no finished task failed afterwards) every dependency
  of a ready or running node exists and is done or skipped.\<close>

theorem ready_nodes_safe:
  assumes "orderly_run empty_dag ops"
    and "jm_get (d_nodes (fold dag_step ops empty_dag)) k = Some n"
    and "n_status n = Ready \<or> n_status n = Running"
    and "x \<in> set (n_deps n)"
  shows "\<exists>m. jm_get (d_nodes (fold dag_step ops empty_dag)) x = Some m \<and>
    (n_status m = Done \<or> n_status m = Skipped)"
proof -
  have "safe (d_nodes (fold dag_step ops empty_dag))"
    using assms(1) by (intro safe_run) (simp_all add: safe_def empty_dag_def)
  with assms(2-4) show ?thesis
    by (fastforce simp: safe_def deps_met_def finished_def jm_has_def)
qed

definition demo_ops :: "dag_op list" where
  "demo_ops = [AddNode ''a'' ''fetch'' [] None None [], AddNode ''b'' ''build'' [''a''] None None [],
     Start ''a'' ''w1'', Complete ''a'']"

theorem ready_nodes_safe_witness:
  "\<exists>m. jm_get (d_nodes (fold dag_step demo_ops empty_dag)) ''a'' = Some m \<and>
    (n_status m = Done \<or> n_status m = Skipped)"
proof -
  have run: "orderly_run empty_dag demo_ops" by code_simp
  have "map_option n_status (jm_get (d_nodes (fold dag_step demo_ops empty_dag)) ''b'') = Some Ready \<and>
      map_option n_deps (jm_get (d_nodes (fold dag_step demo_ops empty_dag)) ''b'') = Some [''a'']"
    by code_simp
  then obtain n where "jm_get (d_nodes (fold dag_step demo_ops empty_dag)) ''b'' = Some n"
    "n_status n = Ready" "n_deps n = [''a'']"
    by (auto simp: map_option_eq_Some)
  with ready_nodes_safe [OF run, of "''b''" n "''a''"] show ?thesis by simp
qed

text \<open>\<open>getTopologicalOrder\<close> of a reachable graph lists every node exactly once, each after all of
  its dependencies that are in the graph.\<close>

theorem topological_order_correct:
  "let d = fold dag_step ops empty_dag; r = topological_order d
   in set r = set (jm_values (d_nodes d)) \<and> distinct (map n_id r) \<and> before_ok (d_nodes d) r"
proof -
  let ?d = "fold dag_step ops empty_dag"
  have inv: "dag_inv ?d" by (rule dag_contract.run_good [OF dag_inv_empty])
  then have sh: "shaped (d_nodes ?d)" by (simp add: dag_inv_def)
  have post: "visit_post (d_nodes ?d) {} (jm_keys (d_nodes ?d)) ([], [])
      (fold (visit (Suc (length (d_nodes ?d))) (d_nodes ?d)) (jm_keys (d_nodes ?d)) ([], []))"
    by (rule topological_order_visit [OF sh])
  let ?r = "topological_order ?d"
  have r: "\<forall>n \<in> set ?r. jm_get (d_nodes ?d) (n_id n) = Some n" "distinct (map n_id ?r)"
    "before_ok (d_nodes ?d) ?r" "set (jm_keys (d_nodes ?d)) \<subseteq> n_id ` set ?r"
    using post unfolding topological_order_def Let_def
    by (auto simp: visit_post_def visit_inv_def jm_has_keys)
  have wf: "jm_wf (d_nodes ?d)" and ids: "\<And>k n. jm_get (d_nodes ?d) k = Some n \<Longrightarrow> n_id n = k"
    using sh by (auto simp: shaped_def)
  have "set ?r = set (jm_values (d_nodes ?d))"
  proof
    show "set ?r \<subseteq> set (jm_values (d_nodes ?d))" using r(1) wf by (force simp: jm_values_in)
    show "set (jm_values (d_nodes ?d)) \<subseteq> set ?r"
    proof
      fix n assume "n \<in> set (jm_values (d_nodes ?d))"
      then obtain k where k: "jm_get (d_nodes ?d) k = Some n" using wf by (auto simp: jm_values_in)
      then have "k \<in> set (jm_keys (d_nodes ?d))" by (simp add: jm_has_keys [symmetric] jm_has_def)
      with r(4) obtain m where m: "m \<in> set ?r" "n_id m = k" by auto
      with r(1) k show "n \<in> set ?r" by auto
    qed
  qed
  with r(2,3) show ?thesis by (simp add: Let_def)
qed

text \<open>Skipped tasks count as done only when they are skipped last: with \<open>c\<close> waiting for \<open>a\<close> and
  \<open>b\<close>, completing \<open>b\<close> and then skipping \<open>a\<close> readies \<open>c\<close>, while skipping \<open>a\<close> and then completing
  \<open>b\<close> leaves \<open>c\<close> pending for ever, a deadlock.\<close>

definition join_ops :: "dag_op list" where
  "join_ops = [AddNode ''a'' ''left'' [] None None [], AddNode ''b'' ''right'' [] None None [],
     AddNode ''c'' ''join'' [''a'', ''b''] None None [], Start ''b'' ''w1'']"

theorem skip_then_complete_deadlocks:
  "map n_id (fst (get_ready (fold dag_step (join_ops @ [Complete ''b'', Skip ''a'' ''unneeded''])
      empty_dag))) = [''c''] \<and>
   \<not> fst (has_deadlock (fold dag_step (join_ops @ [Complete ''b'', Skip ''a'' ''unneeded''])
      empty_dag)) \<and>
   map n_id (get_pending (fold dag_step (join_ops @ [Skip ''a'' ''unneeded'', Complete ''b''])
      empty_dag)) = [''c''] \<and>
   fst (has_deadlock (fold dag_step (join_ops @ [Skip ''a'' ''unneeded'', Complete ''b''])
      empty_dag))"
  by code_simp

end
