(* ===== verification/Js_Number.thy ===== *)
theory Js_Number
  imports Complex_Main
begin

text \<open>
  Numbers of the runtime, as exact rationals instead of doubles: \<open>Math.round\<close>, which rounds halves up.
\<close>

definition js_round :: "rat \<Rightarrow> int" where
  "js_round x = \<lfloor>x + 1 / 2\<rfloor>"

lemma js_round_near: "\<bar>of_int (js_round x) - x\<bar> \<le> 1 / 2"
  unfolding js_round_def by linarith

lemma js_round_of_int [simp]: "js_round (of_int n) = n"
  unfolding js_round_def by linarith

lemma js_round_mono: "x \<le> y \<Longrightarrow> js_round x \<le> js_round y"
  unfolding js_round_def by (intro floor_mono) simp

lemma js_round_bounds: "of_int a \<le> x \<Longrightarrow> x \<le> of_int b \<Longrightarrow> a \<le> js_round x \<and> js_round x \<le> b"
  unfolding js_round_def by linarith

lemma js_round_percent:
  assumes "c \<le> t" "0 < (t :: nat)"
  shows "0 \<le> js_round (of_nat c / of_nat t * 100)" "js_round (of_nat c / of_nat t * 100) \<le> 100"
proof -
  have "(of_nat c :: rat) / of_nat t \<le> 1" using assms by (simp add: divide_le_eq_1)
  then have "(of_nat c :: rat) / of_nat t * 100 + 1 / 2 < 101" by linarith
  then show "js_round (of_nat c / of_nat t * 100) \<le> 100" unfolding js_round_def by linarith
  have "0 \<le> (of_nat c :: rat) / of_nat t * 100" by simp
  then show "0 \<le> js_round (of_nat c / of_nat t * 100)" unfolding js_round_def by linarith
qed

end
