(* ===== verification/Task_Tracker.thy ===== *)
theory Task_Tracker
  imports Js_Number Errors
begin

text \<open>
  The task tracker of the specification-driven workflow, \<open>packages/core/src/sdd/task-tracker.ts\<close>,
  over the task graph of \<open>packages/core/src/types/task-graph.ts\<close>.

  The clock and the random identifiers are arguments (\<open>now\<close>, \<open>i\<close>). An operation returns the
  changes it notifies; the fire-and-forget persistence is left out. A \<open>depends_on\<close> edge points from
  the blocker to the task that waits for it. Hours are rationals.
\<close>

section \<open>Data\<close>

datatype task_status = TPending | TInProgress | TBlocked | TFailed | TReview | TCompleted

datatype task_priority = PCritical | PHigh | PMedium | PLow

datatype task_type = Feature | Bugfix | Refactor | Docs | TestTask | Chore

record task =
  tn_id :: string
  tn_title :: string
  tn_description :: string
  tn_type :: task_type
  tn_priority :: task_priority
  tn_status :: task_status
  tn_assignee :: "string option"
  tn_estimate :: "rat option"
  tn_actual :: "rat option"
  tn_tags :: "string list option"
  tn_requirement :: "string option"
  tn_parent :: "string option"
  tn_children :: "string list option"
  tn_created :: nat
  tn_updated :: nat
  tn_started :: "nat option"
  tn_completed :: "nat option"
  tn_metadata :: "(string, string) jsmap"

datatype edge_type = EBlocks | EDependsOn | ERelatesTo | EImplements

record edge =
  ed_id :: string
  ed_from :: string
  ed_to :: string
  ed_type :: edge_type

record graph =
  g_id :: string
  g_spec :: string
  g_title :: string
  g_nodes :: "(string, task) jsmap"
  g_edges :: "edge list"
  g_roots :: "string list"
  g_created :: nat
  g_updated :: nat

record task_transition =
  tr_from :: task_status
  tr_to :: task_status
  tr_time :: nat
  tr_reason :: "string option"

datatype tracker_change = NodeAdded task | NodeUpdated task | StatusChanged task task_transition
  | NodeRemoved task

record tracker =
  tk_graph :: "graph option"
  tk_transitions :: "task_transition list"

definition new_tracker :: tracker where
  "new_tracker = \<lparr>tk_graph = None, tk_transitions = []\<rparr>"

definition sdd_error :: "error_code \<Rightarrow> (string \<times> string) list \<Rightarrow> ws_error" where
  "sdd_error code ctx = (mk_ws_error code SubSdd ctx)\<lparr>err_recoverable := (code = SDD_NOT_READY)\<rparr>"

section \<open>Blockers and dependents\<close>

definition blockers_in :: "string \<Rightarrow> edge list \<Rightarrow> string list" where
  "blockers_in t es = map ed_from (filter (\<lambda>e. ed_to e = t \<and> ed_type e = EDependsOn) es)"

definition get_blockers :: "string \<Rightarrow> tracker \<Rightarrow> string list" where
  "get_blockers t k = (case tk_graph k of None \<Rightarrow> [] | Some g \<Rightarrow> blockers_in t (g_edges g))"

definition get_dependents :: "string \<Rightarrow> tracker \<Rightarrow> string list" where
  "get_dependents t k =
     (case tk_graph k of
        None \<Rightarrow> []
      | Some g \<Rightarrow> map ed_to (filter (\<lambda>e. ed_from e = t \<and> ed_type e = EDependsOn) (g_edges g)))"

definition settled :: "task option \<Rightarrow> bool" where
  "settled n = (case n of None \<Rightarrow> False | Some m \<Rightarrow> tn_status m = TCompleted \<or> tn_status m = TFailed)"

definition can_start_in :: "string \<Rightarrow> graph \<Rightarrow> bool" where
  "can_start_in t g = list_all (\<lambda>i. settled (jm_get (g_nodes g) i)) (blockers_in t (g_edges g))"

definition can_start :: "string \<Rightarrow> tracker \<Rightarrow> bool" where
  "can_start t k = (case tk_graph k of None \<Rightarrow> True | Some g \<Rightarrow> can_start_in t g)"

text \<open>The recursion stops at the first blocker that reaches the target; \<open>seen\<close> is shared by all
  branches. The fuel bounds the depth.\<close>

fun any_blocker ::
  "(string \<Rightarrow> string list \<Rightarrow> bool \<times> string list) \<Rightarrow> string list \<Rightarrow> string list \<Rightarrow> bool \<times> string list"
  where
  "any_blocker f [] seen = (False, seen)"
| "any_blocker f (b # bs) seen =
     (case f b seen of (hit, seen') \<Rightarrow> if hit then (True, seen') else any_blocker f bs seen')"

primrec depends_search ::
  "nat \<Rightarrow> edge list \<Rightarrow> string \<Rightarrow> string \<Rightarrow> string list \<Rightarrow> bool \<times> string list" where
  "depends_search 0 es target t seen = (False, seen)"
| "depends_search (Suc n) es target t seen =
     (if t = target then (True, seen)
      else if t \<in> set seen then (False, seen)
      else any_blocker (depends_search n es target) (blockers_in t es) (js_add t seen))"

definition depends_on_transitively :: "edge list \<Rightarrow> string \<Rightarrow> string \<Rightarrow> bool" where
  "depends_on_transitively es t target = fst (depends_search (length es + 2) es target t [])"

section \<open>Changing the graph\<close>

definition set_graph :: "graph \<Rightarrow> tracker \<Rightarrow> tracker" where
  "set_graph g k = k\<lparr>tk_graph := Some g\<rparr>"

definition create_graph :: "string \<Rightarrow> string \<Rightarrow> string \<Rightarrow> nat \<Rightarrow> tracker \<Rightarrow> tracker" where
  "create_graph i spec title now k = k\<lparr>tk_graph := Some \<lparr>g_id = i, g_spec = spec, g_title = title,
     g_nodes = [], g_edges = [], g_roots = [], g_created = now, g_updated = now\<rparr>\<rparr>"

definition add_task ::
  "string \<Rightarrow> nat \<Rightarrow> task \<Rightarrow> tracker \<Rightarrow> ws_error + task \<times> tracker_change list \<times> tracker" where
  "add_task i now n k =
     (case tk_graph k of
        None \<Rightarrow> Inl (sdd_error SDD_INVALID_STATE [])
      | Some g \<Rightarrow>
          let n' = n\<lparr>tn_id := i, tn_created := now, tn_updated := now\<rparr>;
              g' = g\<lparr>g_nodes := jm_set i n' (g_nodes g),
                     g_roots := (if (case tn_parent n of None \<Rightarrow> True | Some q \<Rightarrow> q = '''')
                                 then g_roots g @ [i] else g_roots g),
                     g_updated := now\<rparr>
          in Inr (n', [NodeAdded n'], k\<lparr>tk_graph := Some g'\<rparr>))"

definition add_edge ::
  "string \<Rightarrow> nat \<Rightarrow> string \<Rightarrow> string \<Rightarrow> edge_type \<Rightarrow> tracker \<Rightarrow> ws_error + tracker" where
  "add_edge i now a b ty k =
     (case tk_graph k of
        None \<Rightarrow> Inl (sdd_error SDD_INVALID_STATE [])
      | Some g \<Rightarrow> Inr (k\<lparr>tk_graph := Some (g\<lparr>g_edges := g_edges g @
          [\<lparr>ed_id = i, ed_from = a, ed_to = b, ed_type = ty\<rparr>], g_updated := now\<rparr>)\<rparr>))"

definition add_dependency ::
  "string \<Rightarrow> nat \<Rightarrow> string \<Rightarrow> string \<Rightarrow> tracker \<Rightarrow> bool \<times> tracker" where
  "add_dependency i now dep t k =
     (case tk_graph k of
        None \<Rightarrow> (False, k)
      | Some g \<Rightarrow>
          if dep = t then (False, k)
          else if \<not> jm_has (g_nodes g) dep \<or> \<not> jm_has (g_nodes g) t then (False, k)
          else if dep \<in> set (get_blockers t k) then (True, k)
          else if depends_on_transitively (g_edges g) dep t then (False, k)
          else (case add_edge i now dep t EDependsOn k of Inl e \<Rightarrow> (False, k) | Inr k' \<Rightarrow> (True, k')))"

definition patch_metadata ::
  "string \<Rightarrow> nat \<Rightarrow> (string \<times> string) list \<Rightarrow> tracker \<Rightarrow> tracker_change list \<times> tracker" where
  "patch_metadata i now patch k =
     (case tk_graph k of
        None \<Rightarrow> ([], k)
      | Some g \<Rightarrow>
          (case jm_get (g_nodes g) i of
             None \<Rightarrow> ([], k)
           | Some n \<Rightarrow>
               let n' = n\<lparr>tn_metadata := fold (\<lambda>(a, v). jm_set a v) patch (tn_metadata n),
                          tn_updated := now\<rparr>
               in ([NodeUpdated n'], k\<lparr>tk_graph := Some
                    (g\<lparr>g_nodes := jm_set i n' (g_nodes g), g_updated := now\<rparr>)\<rparr>)))"

definition remove_task :: "string \<Rightarrow> nat \<Rightarrow> tracker \<Rightarrow> bool \<times> tracker_change list \<times> tracker" where
  "remove_task i now k =
     (case tk_graph k of
        None \<Rightarrow> (False, [], k)
      | Some g \<Rightarrow>
          (case jm_get (g_nodes g) i of
             None \<Rightarrow> (False, [], k)
           | Some n \<Rightarrow>
               let g' = g\<lparr>g_nodes := map (\<lambda>(a, m). (a,
                       m\<lparr>tn_children := map_option (filter (\<lambda>c. c \<noteq> i)) (tn_children m)\<rparr>))
                     (jm_del i (g_nodes g)),
                   g_edges := filter (\<lambda>e. ed_from e \<noteq> i \<and> ed_to e \<noteq> i) (g_edges g),
                   g_roots := filter (\<lambda>r. r \<noteq> i) (g_roots g), g_updated := now\<rparr>
               in (True, [NodeRemoved n], k\<lparr>tk_graph := Some g'\<rparr>)))"

definition set_task_status :: "string \<Rightarrow> task_status \<Rightarrow> nat \<Rightarrow> graph \<Rightarrow> graph" where
  "set_task_status i s now g =
     g\<lparr>g_nodes := jm_update i (\<lambda>n. n\<lparr>tn_status := s, tn_updated := now\<rparr>) (g_nodes g)\<rparr>"

definition unblock_dependents :: "string \<Rightarrow> nat \<Rightarrow> graph \<Rightarrow> graph" where
  "unblock_dependents i now g =
     fold (\<lambda>d g. (case jm_get (g_nodes g) d of
             None \<Rightarrow> g
           | Some n \<Rightarrow> if tn_status n = TBlocked \<and> can_start_in d g
                       then set_task_status d TPending now g else g))
       (map ed_to (filter (\<lambda>e. ed_from e = i \<and> ed_type e = EDependsOn) (g_edges g))) g"

definition check_and_block :: "string \<Rightarrow> nat \<Rightarrow> graph \<Rightarrow> graph" where
  "check_and_block i now g =
     (if list_ex (\<lambda>b. \<not> settled (jm_get (g_nodes g) b)) (blockers_in i (g_edges g))
      then set_task_status i TBlocked now g else g)"

definition update_status ::
  "string \<Rightarrow> task_status \<Rightarrow> string option \<Rightarrow> nat \<Rightarrow> tracker \<Rightarrow>
   ws_error + tracker_change list \<times> tracker" where
  "update_status i s reason now k =
     (case tk_graph k of
        None \<Rightarrow> Inl (sdd_error SDD_INVALID_STATE [])
      | Some g \<Rightarrow>
          (case jm_get (g_nodes g) i of
             None \<Rightarrow> Inl (sdd_error SDD_NOT_READY [(''nodeId'', i)])
           | Some n \<Rightarrow>
               let n1 = n\<lparr>tn_status := s, tn_updated := now\<rparr>;
                   n2 = (if s = TCompleted then n1\<lparr>tn_completed := Some now,
                           tn_started := (case tn_started n1 of None \<Rightarrow> Some now | Some x \<Rightarrow> Some x)\<rparr>
                         else n1);
                   n3 = (if s = TInProgress then n2\<lparr>tn_started := Some now\<rparr> else n2);
                   tr = \<lparr>tr_from = tn_status n, tr_to = s, tr_time = now, tr_reason = reason\<rparr>;
                   g1 = g\<lparr>g_nodes := jm_set i n3 (g_nodes g)\<rparr>;
                   g2 = (if s = TCompleted then unblock_dependents i now g1 else g1);
                   g3 = (if s = TInProgress then check_and_block i now g2 else g2);
                   g4 = g3\<lparr>g_updated := now\<rparr>
               in Inr ([StatusChanged (case jm_get (g_nodes g4) i of None \<Rightarrow> n3 | Some m \<Rightarrow> m) tr],
                  \<lparr>tk_graph = Some g4, tk_transitions = tk_transitions k @ [tr]\<rparr>)))"

record task_patch =
  pa_title :: "string option"
  pa_description :: "string option"
  pa_priority :: "task_priority option"
  pa_estimate :: "rat option"
  pa_tags :: "string list option"
  pa_assignee :: "string option"

definition or_else :: "'a option \<Rightarrow> 'a \<Rightarrow> 'a" where
  "or_else x d = (case x of None \<Rightarrow> d | Some v \<Rightarrow> v)"

definition update_task ::
  "string \<Rightarrow> task_patch \<Rightarrow> nat \<Rightarrow> tracker \<Rightarrow> ws_error + tracker_change list \<times> tracker" where
  "update_task i q now k =
     (case tk_graph k of
        None \<Rightarrow> Inl (sdd_error SDD_INVALID_STATE [])
      | Some g \<Rightarrow>
          (case jm_get (g_nodes g) i of
             None \<Rightarrow> Inl (sdd_error SDD_NOT_READY [(''nodeId'', i)])
           | Some n \<Rightarrow>
               let n' = n\<lparr>tn_title := or_else (pa_title q) (tn_title n),
                          tn_description := or_else (pa_description q) (tn_description n),
                          tn_priority := or_else (pa_priority q) (tn_priority n),
                          tn_estimate := (case pa_estimate q of None \<Rightarrow> tn_estimate n | e \<Rightarrow> e),
                          tn_tags := (case pa_tags q of None \<Rightarrow> tn_tags n | ts \<Rightarrow> ts),
                          tn_assignee := (case pa_assignee q of None \<Rightarrow> tn_assignee n | a \<Rightarrow> a),
                          tn_updated := now\<rparr>
               in Inr ([NodeUpdated n'], k\<lparr>tk_graph := Some
                    (g\<lparr>g_nodes := jm_set i n' (g_nodes g), g_updated := now\<rparr>)\<rparr>)))"

section \<open>Queries\<close>

record task_filter =
  fl_status :: "task_status list"
  fl_priority :: "task_priority list"
  fl_type :: "task_type list"
  fl_assignee :: "string list"
  fl_tags :: "string list"
  fl_requirement :: string

definition passes_filter :: "task_filter \<Rightarrow> task \<Rightarrow> bool" where
  "passes_filter f n =
     ((fl_status f = [] \<or> tn_status n \<in> set (fl_status f)) \<and>
      (fl_priority f = [] \<or> tn_priority n \<in> set (fl_priority f)) \<and>
      (fl_type f = [] \<or> tn_type n \<in> set (fl_type f)) \<and>
      (fl_assignee f = [] \<or> (case tn_assignee n of None \<Rightarrow> True | Some a \<Rightarrow> a = '''' \<or> a \<in> set (fl_assignee f))) \<and>
      (fl_tags f = [] \<or> (case tn_tags n of None \<Rightarrow> True | Some ts \<Rightarrow> list_ex (\<lambda>t. t \<in> set (fl_tags f)) ts)) \<and>
      (fl_requirement f = '''' \<or> tn_requirement n = Some (fl_requirement f)))"

fun priority_rank :: "task_priority \<Rightarrow> int" where
  "priority_rank PCritical = 0"
| "priority_rank PHigh = 1"
| "priority_rank PMedium = 2"
| "priority_rank PLow = 3"

fun status_rank :: "task_status \<Rightarrow> int" where
  "status_rank TInProgress = 0"
| "status_rank TPending = 1"
| "status_rank TReview = 2"
| "status_rank TBlocked = 3"
| "status_rank TFailed = 4"
| "status_rank TCompleted = 5"

datatype sort_field = ByPriority | ByCreated | ByUpdated | ByStatus

fun sort_value :: "sort_field \<Rightarrow> task \<Rightarrow> int" where
  "sort_value ByPriority n = priority_rank (tn_priority n)"
| "sort_value ByStatus n = status_rank (tn_status n)"
| "sort_value ByCreated n = int (tn_created n)"
| "sort_value ByUpdated n = int (tn_updated n)"

definition get_all_nodes ::
  "task_filter option \<Rightarrow> (sort_field \<times> bool) option \<Rightarrow> tracker \<Rightarrow> task list" where
  "get_all_nodes fl so k =
     (case tk_graph k of
        None \<Rightarrow> []
      | Some g \<Rightarrow>
          let ns = (case fl of None \<Rightarrow> jm_values (g_nodes g)
                    | Some f \<Rightarrow> filter (passes_filter f) (jm_values (g_nodes g)))
          in (case so of
                None \<Rightarrow> ns
              | Some (f, asc) \<Rightarrow>
                  if asc then sort_key (sort_value f) ns else sort_key (\<lambda>n. - sort_value f n) ns))"

definition get_children :: "string \<Rightarrow> tracker \<Rightarrow> task list" where
  "get_children q k =
     (case tk_graph k of None \<Rightarrow> []
      | Some g \<Rightarrow> filter (\<lambda>n. tn_parent n = Some q) (jm_values (g_nodes g)))"

definition get_task :: "string \<Rightarrow> tracker \<Rightarrow> task option" where
  "get_task i k = (case tk_graph k of None \<Rightarrow> None | Some g \<Rightarrow> jm_get (g_nodes g) i)"

record task_progress =
  pr_total :: nat
  pr_pending :: nat
  pr_in_progress :: nat
  pr_blocked :: nat
  pr_failed :: nat
  pr_review :: nat
  pr_completed :: nat
  pr_percent :: int
  pr_estimated :: rat
  pr_actual :: rat

definition zero_progress :: task_progress where
  "zero_progress = \<lparr>pr_total = 0, pr_pending = 0, pr_in_progress = 0, pr_blocked = 0, pr_failed = 0,
     pr_review = 0, pr_completed = 0, pr_percent = 0, pr_estimated = 0, pr_actual = 0\<rparr>"

definition count_task :: "task \<Rightarrow> task_progress \<Rightarrow> task_progress" where
  "count_task n p =
     (let p1 = (case tn_status n of
            TCompleted \<Rightarrow> p\<lparr>pr_completed := pr_completed p + 1\<rparr>
          | TPending \<Rightarrow> p\<lparr>pr_pending := pr_pending p + 1\<rparr>
          | TInProgress \<Rightarrow> p\<lparr>pr_in_progress := pr_in_progress p + 1\<rparr>
          | TBlocked \<Rightarrow> p\<lparr>pr_blocked := pr_blocked p + 1\<rparr>
          | TFailed \<Rightarrow> p\<lparr>pr_failed := pr_failed p + 1\<rparr>
          | TReview \<Rightarrow> p\<lparr>pr_review := pr_review p + 1\<rparr>)
      in p1\<lparr>pr_estimated := pr_estimated p1 + or_else (tn_estimate n) 0,
            pr_actual := pr_actual p1 + or_else (tn_actual n) 0\<rparr>)"

definition compute_progress :: "graph \<Rightarrow> task_progress" where
  "compute_progress g =
     (let p = fold count_task (jm_values (g_nodes g)) zero_progress;
          total = length (g_nodes g)
      in p\<lparr>pr_total := total,
           pr_percent := (if total > 0 then js_round (of_nat (pr_completed p) / of_nat total * 100)
                          else 0)\<rparr>)"

definition get_progress :: "tracker \<Rightarrow> task_progress" where
  "get_progress k = (case tk_graph k of None \<Rightarrow> zero_progress | Some g \<Rightarrow> compute_progress g)"

definition get_transitions :: "tracker \<Rightarrow> task_transition list" where
  "get_transitions k = tk_transitions k"

record critical_path =
  cp_tasks :: "string list"
  cp_hours :: rat
  cp_bottlenecks :: "string list"

definition find_critical_path :: "graph \<Rightarrow> critical_path" where
  "find_critical_path g =
     (let crit = filter (\<lambda>n. tn_priority n = PCritical) (jm_values (g_nodes g))
      in \<lparr>cp_tasks = map tn_id crit,
          cp_hours = sum_list (map (\<lambda>n. or_else (tn_estimate n) 0) crit),
          cp_bottlenecks = map tn_id (filter (\<lambda>n. list_ex (\<lambda>e. ed_to e = tn_id n \<and>
             ed_type e = EDependsOn) (g_edges g)) crit)\<rparr>)"

section \<open>Orders on priorities and states\<close>

instantiation task_priority :: linorder
begin

definition less_eq_task_priority :: "task_priority \<Rightarrow> task_priority \<Rightarrow> bool" where
  "less_eq_task_priority a b = (priority_rank a \<le> priority_rank b)"

definition less_task_priority :: "task_priority \<Rightarrow> task_priority \<Rightarrow> bool" where
  "less_task_priority a b = (priority_rank a < priority_rank b)"

instance
proof
  fix a b :: task_priority
  show "a \<le> b \<Longrightarrow> b \<le> a \<Longrightarrow> a = b"
    by (cases a; cases b) (simp_all add: less_eq_task_priority_def)
qed (auto simp: less_eq_task_priority_def less_task_priority_def)

end

instantiation task_status :: linorder
begin

definition less_eq_task_status :: "task_status \<Rightarrow> task_status \<Rightarrow> bool" where
  "less_eq_task_status a b = (status_rank a \<le> status_rank b)"

definition less_task_status :: "task_status \<Rightarrow> task_status \<Rightarrow> bool" where
  "less_task_status a b = (status_rank a < status_rank b)"

instance
proof
  fix a b :: task_status
  show "a \<le> b \<Longrightarrow> b \<le> a \<Longrightarrow> a = b"
    by (cases a; cases b) (simp_all add: less_eq_task_status_def)
qed (auto simp: less_eq_task_status_def less_task_status_def)

end

lemma sorted_by_priority:
  "sorted (map tn_priority (get_all_nodes fl (Some (ByPriority, True)) k))"
proof -
  have "sorted (map (sort_value ByPriority) (sort_key (sort_value ByPriority) ns))" for ns
    by (rule sorted_sort_key)
  then have "sorted (map tn_priority (sort_key (sort_value ByPriority) ns))" for ns
    by (simp add: sorted_map less_eq_task_priority_def)
  then show ?thesis by (auto simp: get_all_nodes_def Let_def split: option.splits)
qed

section \<open>The dependency search\<close>

definition deps_of :: "edge list \<Rightarrow> (string \<times> string) set" where
  "deps_of es = {(t, b). b \<in> set (blockers_in t es)}"

text \<open>What one call leaves behind: a hit is a path; a miss closes everything it visited.\<close>

definition search_post ::
  "edge list \<Rightarrow> string \<Rightarrow> string list \<Rightarrow> string list \<Rightarrow> bool \<times> string list \<Rightarrow> bool" where
  "search_post es target ts seen r =
     (if fst r then \<exists>t \<in> set ts. (t, target) \<in> (deps_of es)\<^sup>*
      else set seen \<subseteq> set (snd r) \<and> set ts \<subseteq> set (snd r) \<and> target \<notin> set (snd r) - set seen \<and>
        (\<forall>x \<in> set (snd r) - set seen. set (blockers_in x es) \<subseteq> set (snd r)))"

lemma search_post_append:
  assumes "search_post es target [b] seen (False, seen1)" "search_post es target bs seen1 r"
  shows "search_post es target (b # bs) seen r"
proof (cases "fst r")
  case True
  with assms show ?thesis by (auto simp: search_post_def)
next
  case False
  have "set (blockers_in x es) \<subseteq> set (snd r)" if "x \<in> set (snd r) - set seen" for x
  proof (cases "x \<in> set seen1")
    case True
    with assms(1) that have "set (blockers_in x es) \<subseteq> set seen1" by (simp add: search_post_def)
    also have "\<dots> \<subseteq> set (snd r)" using assms(2) False by (simp add: search_post_def)
    finally show ?thesis .
  next
    case False
    with assms(2) \<open>\<not> fst r\<close> that show ?thesis by (simp add: search_post_def)
  qed
  with assms False show ?thesis by (auto simp: search_post_def)
qed

lemma any_blocker_post:
  assumes step: "\<And>b seen. b \<in> set bs \<Longrightarrow> card (V - set seen) < n \<Longrightarrow>
    search_post es target [b] seen (f b seen)"
    and fin: "finite V"
  shows "card (V - set seen) < n \<Longrightarrow> search_post es target bs seen (any_blocker f bs seen)"
  using step
proof (induction bs arbitrary: seen)
  case Nil
  then show ?case by (simp add: search_post_def)
next
  case (Cons b bs)
  obtain hit seen1 where f: "f b seen = (hit, seen1)" by fastforce
  have 1: "search_post es target [b] seen (hit, seen1)"
    using Cons.prems f by (metis list.set_intros(1))
  show ?case
  proof (cases hit)
    case True
    with 1 f show ?thesis by (auto simp: search_post_def)
  next
    case False
    with 1 have sub: "set seen \<subseteq> set seen1" by (simp add: search_post_def)
    then have "card (V - set seen1) \<le> card (V - set seen)"
      using fin by (intro card_mono) auto
    with Cons.prems have "search_post es target bs seen1 (any_blocker f bs seen1)"
      by (intro Cons.IH) auto
    with 1 False f sub show ?thesis by (simp add: search_post_append)
  qed
qed

lemma depends_search_post:
  assumes fin: "finite V" and closed: "\<And>x. x \<in> V \<Longrightarrow> set (blockers_in x es) \<subseteq> V"
  shows "t \<in> V \<Longrightarrow> card (V - set seen) < n \<Longrightarrow>
    search_post es target [t] seen (depends_search n es target t seen)"
proof (induction n arbitrary: t seen)
  case (Suc n)
  show ?case
  proof (cases "t = target \<or> t \<in> set seen")
    case True
    then show ?thesis by (auto simp: search_post_def)
  next
    case False
    let ?r = "any_blocker (depends_search n es target) (blockers_in t es) (js_add t seen)"
    have "V - set (js_add t seen) \<subset> V - set seen" using Suc.prems(1) False by auto
    then have "card (V - set (js_add t seen)) < card (V - set seen)"
      using fin by (intro psubset_card_mono) auto
    with Suc.prems(2) have less: "card (V - set (js_add t seen)) < n" by linarith
    have "search_post es target (blockers_in t es) (js_add t seen) ?r"
    proof (rule any_blocker_post [OF _ fin less])
      fix b s assume "b \<in> set (blockers_in t es)" "card (V - set s) < n"
      then show "search_post es target [b] s (depends_search n es target b s)"
        using closed [OF Suc.prems(1)] by (intro Suc.IH) auto
    qed
    moreover have "\<exists>b \<in> set (blockers_in t es). (b, target) \<in> (deps_of es)\<^sup>* \<Longrightarrow>
        (t, target) \<in> (deps_of es)\<^sup>*"
      by (auto simp: deps_of_def intro: converse_rtrancl_into_rtrancl)
    ultimately show ?thesis using False by (auto simp: search_post_def split: if_splits)
  qed
qed simp

lemma depends_on_transitively_iff:
  "depends_on_transitively es t target \<longleftrightarrow> (t, target) \<in> (deps_of es)\<^sup>*"
proof -
  let ?V = "insert t (ed_from ` set es)"
  have "card (ed_from ` set es) \<le> length es"
    by (meson card_image_le card_length finite_set order_trans)
  then have "card (?V - set []) < length es + 2" by (simp add: card_insert_if)
  then have post: "search_post es target [t] [] (depends_search (length es + 2) es target t [])"
    by (intro depends_search_post [of ?V]) (auto simp: blockers_in_def)
  show ?thesis
  proof (cases "fst (depends_search (length es + 2) es target t [])")
    case True
    with post show ?thesis by (simp add: search_post_def depends_on_transitively_def)
  next
    case False
    let ?S = "set (snd (depends_search (length es + 2) es target t []))"
    have S: "t \<in> ?S" "target \<notin> ?S" "\<And>x. x \<in> ?S \<Longrightarrow> set (blockers_in x es) \<subseteq> ?S"
      using post False by (auto simp: search_post_def)
    have closed: "b \<in> ?S" if "(a, b) \<in> deps_of es" "a \<in> ?S" for a b
      using S(3) [OF that(2)] that(1) unfolding deps_of_def by blast
    have "(t, target) \<notin> (deps_of es)\<^sup>*"
    proof
      assume "(t, target) \<in> (deps_of es)\<^sup>*"
      then have "\<exists>s \<in> {}. (s, target) \<in> (deps_of es)\<^sup>*"
        using S(1,2) closed by (intro leaves_through [of t target _ ?S]) blast+
      then show False by simp
    qed
    with False show ?thesis by (simp add: depends_on_transitively_def)
  qed
qed

section \<open>Sequences of operations\<close>

datatype tracker_op =
    CreateGraph string string string nat
  | AddTask string nat task
  | AddRelation string nat string string edge_type
  | AddDependency string nat string string
  | PatchMetadata string nat "(string \<times> string) list"
  | RemoveTask string nat
  | UpdateStatus string task_status "string option" nat
  | UpdateTask string task_patch nat

text \<open>Relations other than dependencies may be added freely; dependencies go through the guard.\<close>

fun tracker_step :: "tracker_op \<Rightarrow> tracker \<Rightarrow> tracker" where
  "tracker_step (CreateGraph i s ti now) k = create_graph i s ti now k"
| "tracker_step (AddTask i now n) k = (case add_task i now n k of Inl e \<Rightarrow> k | Inr (m, cs, k') \<Rightarrow> k')"
| "tracker_step (AddRelation i now a b ty) k =
     (if ty = EDependsOn then k else (case add_edge i now a b ty k of Inl e \<Rightarrow> k | Inr k' \<Rightarrow> k'))"
| "tracker_step (AddDependency i now a b) k = snd (add_dependency i now a b k)"
| "tracker_step (PatchMetadata i now q) k = snd (patch_metadata i now q k)"
| "tracker_step (RemoveTask i now) k = snd (snd (remove_task i now k))"
| "tracker_step (UpdateStatus i s r now) k =
     (case update_status i s r now k of Inl e \<Rightarrow> k | Inr (cs, k') \<Rightarrow> k')"
| "tracker_step (UpdateTask i q now) k = (case update_task i q now k of Inl e \<Rightarrow> k | Inr (cs, k') \<Rightarrow> k')"

definition tracker_inv :: "tracker \<Rightarrow> bool" where
  "tracker_inv k = (case tk_graph k of None \<Rightarrow> True | Some g \<Rightarrow> acyclic (deps_of (g_edges g)))"

lemma edges_set_task_status [simp]: "g_edges (set_task_status i s now g) = g_edges g"
  by (simp add: set_task_status_def)

lemma edges_unblock [simp]: "g_edges (unblock_dependents i now g) = g_edges g"
proof -
  have "g_edges (fold (\<lambda>d g. (case jm_get (g_nodes g) d of
             None \<Rightarrow> g
           | Some n \<Rightarrow> if tn_status n = TBlocked \<and> can_start_in d g
                       then set_task_status d TPending now g else g)) ds g) = g_edges g" for ds
    by (induction ds arbitrary: g) (auto split: option.splits)
  then show ?thesis by (simp add: unblock_dependents_def)
qed

lemma edges_check_and_block [simp]: "g_edges (check_and_block i now g) = g_edges g"
  by (simp add: check_and_block_def)

lemma deps_of_append:
  "deps_of (es @ [\<lparr>ed_id = i, ed_from = a, ed_to = b, ed_type = ty\<rparr>]) =
     (if ty = EDependsOn then insert (b, a) (deps_of es) else deps_of es)"
  by (auto simp: deps_of_def blockers_in_def split: if_splits)

lemma acyclic_no_deps: "acyclic (deps_of [])"
  by (simp add: deps_of_def blockers_in_def acyclic_def)

lemma deps_of_filter: "deps_of (filter P es) \<subseteq> deps_of es"
  by (auto simp: deps_of_def blockers_in_def)

lemma tracker_inv_dependency: "tracker_inv k \<Longrightarrow> tracker_inv (snd (add_dependency i now a b k))"
  by (auto simp: tracker_inv_def add_dependency_def add_edge_def deps_of_append
      depends_on_transitively_iff acyclic_insert split: option.splits)

lemma tracker_inv_step: "tracker_inv k \<Longrightarrow> tracker_inv (tracker_step e k)"
proof (cases e)
  case (RemoveTask i now)
  assume "tracker_inv k"
  then show ?thesis
    by (auto simp: RemoveTask remove_task_def tracker_inv_def Let_def
        intro: acyclic_subset [OF _ deps_of_filter] split: option.splits)
next
  case (AddRelation i now a b ty)
  assume "tracker_inv k"
  then show ?thesis by (simp add: AddRelation tracker_inv_def add_edge_def deps_of_append split: option.splits)
next
  case (AddDependency i now a b)
  assume "tracker_inv k"
  then show ?thesis by (simp add: AddDependency tracker_inv_dependency)
qed (auto simp: tracker_inv_def create_graph_def add_task_def add_edge_def patch_metadata_def
    update_status_def update_task_def Let_def acyclic_no_deps split: option.splits sum.splits)

interpretation tracker_contract: state_contract tracker_step tracker_inv
  by unfold_locales (rule tracker_inv_step)


lemma tracker_inv_run: "tracker_inv (fold tracker_step es new_tracker)"
  by (rule tracker_contract.run_good) (simp add: tracker_inv_def new_tracker_def)

text \<open>Whatever tasks, relations, dependencies and state changes are made, removals included, the
  dependencies stay free of cycles. A dependency is accepted exactly when the two tasks are distinct
  and exist and it is already there or the blocker does not itself wait, through any number of
  others, for the task; accepted, it holds afterwards; refused, nothing changes.\<close>

theorem dependency_guard_exact:
  "tracker_inv (fold tracker_step es new_tracker) \<and>
   (case add_dependency i now b t k of (ok, k') \<Rightarrow>
      (case tk_graph k of
         None \<Rightarrow> \<not> ok \<and> k' = k
       | Some g \<Rightarrow>
           (ok \<longleftrightarrow> b \<noteq> t \<and> jm_has (g_nodes g) b \<and> jm_has (g_nodes g) t \<and>
              (if (t, b) \<in> deps_of (g_edges g) then True else (b, t) \<notin> (deps_of (g_edges g))\<^sup>*)) \<and>
           (if ok then b \<in> set (get_blockers t k') else k' = k)))"
proof (cases "tk_graph k")
  case (Some g)
  have "b \<in> set (get_blockers t k) \<longleftrightarrow> (t, b) \<in> deps_of (g_edges g)"
    by (simp add: get_blockers_def deps_of_def Some)
  moreover have "b \<in> set (get_blockers t (k\<lparr>tk_graph := Some (g\<lparr>g_edges := g_edges g @
      [\<lparr>ed_id = i, ed_from = b, ed_to = t, ed_type = EDependsOn\<rparr>], g_updated := now\<rparr>)\<rparr>))"
    by (simp add: get_blockers_def blockers_in_def)
  ultimately show ?thesis
    using tracker_inv_run [of es] Some
    by (auto simp add: add_dependency_def add_edge_def depends_on_transitively_iff)
qed (use tracker_inv_run [of es] in \<open>simp add: add_dependency_def\<close>)

section \<open>What a state change does\<close>

lemma get_set_task_status:
  "jm_get (g_nodes (set_task_status i s now g)) d =
     (if d = i then map_option (\<lambda>n. n\<lparr>tn_status := s, tn_updated := now\<rparr>) (jm_get (g_nodes g) d)
      else jm_get (g_nodes g) d)"
  by (simp add: set_task_status_def)

definition unblock_one :: "nat \<Rightarrow> string \<Rightarrow> graph \<Rightarrow> graph" where
  "unblock_one now d g = (case jm_get (g_nodes g) d of
             None \<Rightarrow> g
           | Some n \<Rightarrow> if tn_status n = TBlocked \<and> can_start_in d g
                       then set_task_status d TPending now g else g)"

definition unblocked_by :: "nat \<Rightarrow> string list \<Rightarrow> graph \<Rightarrow> string \<Rightarrow> task option" where
  "unblocked_by now ds g d = map_option (\<lambda>n.
     if d \<in> set ds \<and> tn_status n = TBlocked \<and> can_start_in d g
     then n\<lparr>tn_status := TPending, tn_updated := now\<rparr> else n) (jm_get (g_nodes g) d)"

lemma settled_unblock_one:
  "settled (jm_get (g_nodes (unblock_one now d g)) b) = settled (jm_get (g_nodes g) b)"
  by (auto simp: unblock_one_def get_set_task_status settled_def split: option.splits)

lemma edges_unblock_one [simp]: "g_edges (unblock_one now d g) = g_edges g"
  by (simp add: unblock_one_def split: option.splits)

lemma can_start_unblock_one [simp]: "can_start_in c (unblock_one now d g) = can_start_in c g"
  by (simp add: can_start_in_def settled_unblock_one)

lemma get_unblock_one: "jm_get (g_nodes (unblock_one now c g)) d = unblocked_by now [c] g d"
  by (cases "jm_get (g_nodes g) d")
    (auto simp: unblock_one_def unblocked_by_def get_set_task_status split: option.splits)

lemma unblock_fold:
  "jm_get (g_nodes (fold (unblock_one now) ds g)) d = unblocked_by now ds g d"
proof (induction ds arbitrary: g)
  case Nil
  then show ?case by (cases "jm_get (g_nodes g) d") (simp_all add: unblocked_by_def)
next
  case (Cons c ds)
  then show ?case by (cases "jm_get (g_nodes g) d") (auto simp: unblocked_by_def get_unblock_one)
qed


lemma unblock_dependents_get:
  "jm_get (g_nodes (unblock_dependents i now g)) d =
     unblocked_by now (map ed_to (filter (\<lambda>e. ed_from e = i \<and> ed_type e = EDependsOn) (g_edges g))) g d"
  by (simp add: unblock_dependents_def unblock_fold [symmetric] unblock_one_def [abs_def])

lemma dependents_in:
  "d \<in> ed_to ` {e \<in> set es. ed_from e = i \<and> ed_type e = EDependsOn} \<longleftrightarrow>
     i \<in> set (blockers_in d es)"
  by (auto simp: blockers_in_def)

lemma check_and_block_get:
  "jm_get (g_nodes (check_and_block i now g)) d =
     (if d = i \<and> \<not> can_start_in i g
      then map_option (\<lambda>n. n\<lparr>tn_status := TBlocked, tn_updated := now\<rparr>) (jm_get (g_nodes g) d)
      else jm_get (g_nodes g) d)"
  by (auto simp: check_and_block_def get_set_task_status can_start_in_def list_ex_iff list_all_iff)

definition status_after :: "string \<Rightarrow> task_status \<Rightarrow> graph \<Rightarrow> string \<Rightarrow> task \<Rightarrow> task_status" where
  "status_after i s g d n =
     (if d = i then if s = TInProgress \<and> \<not> can_start_in i g then TBlocked else s
      else if s = TCompleted \<and> i \<in> set (blockers_in d (g_edges g)) \<and> tn_status n = TBlocked \<and>
          list_all (\<lambda>b. b = i \<or> settled (jm_get (g_nodes g) b)) (blockers_in d (g_edges g))
      then TPending else tn_status n)"

lemma can_start_updated:
  "can_start_in d (g\<lparr>g_nodes := jm_set i n (g_nodes g)\<rparr>) =
     list_all (\<lambda>b. if b = i then settled (Some n) else settled (jm_get (g_nodes g) b))
       (blockers_in d (g_edges g))"
  by (auto simp: can_start_in_def list_all_iff)

lemma can_start_done:
  "settled (Some n) \<Longrightarrow> can_start_in d (g\<lparr>g_nodes := jm_set i n (g_nodes g)\<rparr>) =
     list_all (\<lambda>b. b = i \<or> settled (jm_get (g_nodes g) b)) (blockers_in d (g_edges g))"
  by (auto simp: can_start_updated list_all_iff)

lemma no_self_dependency: "acyclic (deps_of es) \<Longrightarrow> i \<notin> set (blockers_in i es)"
  by (auto simp: acyclic_def deps_of_def)

lemma can_start_own_change:
  "acyclic (deps_of (g_edges g)) \<Longrightarrow>
     can_start_in i (g\<lparr>g_nodes := jm_set i n (g_nodes g)\<rparr>) = can_start_in i g"
  using no_self_dependency [of "g_edges g" i]
  by (auto simp: can_start_updated can_start_in_def list_all_iff)

text \<open>Setting a task's state records the transition and changes states exactly as follows. The
  task itself takes the state asked for, except that starting it while a blocker is neither completed
  nor failed leaves it blocked. Completing it sends to pending exactly those blocked dependents all of
  whose other blockers are settled. Every other task, and every task when the new state is another
  one (failed included), keeps its state.\<close>

theorem status_change_exact:
  assumes "tracker_inv k" "tk_graph k = Some g" "jm_get (g_nodes g) i = Some n"
  shows "case update_status i s r now k of
      Inl e \<Rightarrow> False
    | Inr (cs, k') \<Rightarrow>
        tk_transitions k' = tk_transitions k @
          [\<lparr>tr_from = tn_status n, tr_to = s, tr_time = now, tr_reason = r\<rparr>] \<and>
        (case tk_graph k' of
           None \<Rightarrow> False
         | Some g' \<Rightarrow> g_edges g' = g_edges g \<and>
             (\<forall>d. map_option tn_status (jm_get (g_nodes g') d) =
                map_option (status_after i s g d) (jm_get (g_nodes g) d)))"
proof -
  have ac: "acyclic (deps_of (g_edges g))" using assms(1,2) by (simp add: tracker_inv_def)
  note ns = no_self_dependency [OF ac, of i]
  have after: "map_option tn_status (jm_get (g_nodes g') d) =
      map_option (status_after i s g d) (jm_get (g_nodes g) d)"
    if "tk_graph k' = Some g'" "update_status i s r now k = Inr (cs, k')" for cs k' g' d
    using assms(2,3) that
    by (cases "jm_get (g_nodes g) d"; cases s)
      (auto simp: update_status_def Let_def status_after_def check_and_block_get
        unblock_dependents_get unblocked_by_def dependents_in can_start_own_change [OF ac] ns
        can_start_done settled_def)
  have "\<exists>cs k' g'. update_status i s r now k = Inr (cs, k') \<and> tk_graph k' = Some g' \<and>
      g_edges g' = g_edges g \<and> tk_transitions k' = tk_transitions k @
          [\<lparr>tr_from = tn_status n, tr_to = s, tr_time = now, tr_reason = r\<rparr>]"
    using assms(2,3) by (simp add: update_status_def Let_def)
  with after show ?thesis by fastforce
qed


definition demo_task :: "task_status \<Rightarrow> task" where
  "demo_task s = \<lparr>tn_id = '''', tn_title = ''t'', tn_description = '''', tn_type = Feature,
     tn_priority = PMedium, tn_status = s, tn_assignee = None, tn_estimate = None, tn_actual = None,
     tn_tags = None, tn_requirement = None, tn_parent = None, tn_children = None, tn_created = 0,
     tn_updated = 0, tn_started = None, tn_completed = None, tn_metadata = []\<rparr>"

definition tracker_demo :: "tracker_op list" where
  "tracker_demo = [CreateGraph ''g'' ''s'' ''t'' 1, AddTask ''a'' 2 (demo_task TPending),
     AddTask ''b'' 3 (demo_task TPending), AddDependency ''e'' 4 ''a'' ''b'',
     UpdateStatus ''b'' TInProgress None 5]"

lemma tracker_demo_state: "case tk_graph (fold tracker_step tracker_demo new_tracker) of
    None \<Rightarrow> False
  | Some g \<Rightarrow> map_option tn_status (jm_get (g_nodes g) ''a'') = Some TPending \<and>
      map_option tn_status (jm_get (g_nodes g) ''b'') = Some TBlocked \<and>
      blockers_in ''b'' (g_edges g) = [''a'']"
  by code_simp

lemma status_change_exact_witness:
  "case update_status ''a'' TCompleted None 6 (fold tracker_step tracker_demo new_tracker) of
     Inl e \<Rightarrow> False
   | Inr (cs, k') \<Rightarrow> (case tk_graph k' of None \<Rightarrow> False
       | Some g' \<Rightarrow> map_option tn_status (jm_get (g_nodes g') ''b'') = Some TPending)"
proof -
  obtain g n m where g: "tk_graph (fold tracker_step tracker_demo new_tracker) = Some g"
    "jm_get (g_nodes g) ''a'' = Some n" "jm_get (g_nodes g) ''b'' = Some m" "tn_status m = TBlocked"
    "blockers_in ''b'' (g_edges g) = [''a'']"
    using tracker_demo_state by (auto split: option.splits)
  then have "status_after ''a'' TCompleted g ''b'' m = TPending" by (simp add: status_after_def)
  with status_change_exact [OF tracker_inv_run g(1,2), where s = TCompleted and r = None and now = 6] g(3) show ?thesis
    by (auto split: sum.splits prod.splits option.splits dest!: spec [where x = "''b''"])
qed

section \<open>Progress\<close>

definition counted :: "task_progress \<Rightarrow> nat" where
  "counted p = pr_pending p + pr_in_progress p + pr_blocked p + pr_failed p + pr_review p + pr_completed p"

definition status_count :: "task_status \<Rightarrow> task list \<Rightarrow> nat" where
  "status_count s ns = length (filter (\<lambda>n. tn_status n = s) ns)"

lemma count_one:
  "pr_completed (count_task n p) = pr_completed p + (if tn_status n = TCompleted then 1 else 0)"
  "counted (count_task n p) = Suc (counted p)"
  by (cases "tn_status n"; simp add: count_task_def counted_def Let_def)+

lemma count_fold:
  "pr_completed (fold count_task ns p) = pr_completed p + status_count TCompleted ns \<and>
   counted (fold count_task ns p) = counted p + length ns"
proof (induction ns arbitrary: p)
  case (Cons n ns)
  then show ?case by (simp add: count_one status_count_def)
qed (simp add: status_count_def)

text \<open>The progress report of any graph counts every task in exactly one of its six classes, so
  that the classes add up to the total; its percentage lies between 0 and 100 and is the completed
  share of the tasks, rounded to the nearest integer with halves going up.\<close>

theorem progress_adds_up:
  "counted (compute_progress g) = length (g_nodes g) \<and> pr_total (compute_progress g) = length (g_nodes g) \<and>
   pr_completed (compute_progress g) = status_count TCompleted (jm_values (g_nodes g)) \<and>
   0 \<le> pr_percent (compute_progress g) \<and> pr_percent (compute_progress g) \<le> 100 \<and>
   (if g_nodes g = [] then pr_percent (compute_progress g) = 0
    else \<bar>of_int (pr_percent (compute_progress g)) -
         100 * of_nat (pr_completed (compute_progress g)) / of_nat (length (g_nodes g))\<bar> \<le> (1 / 2 :: rat))"
proof -
  let ?c = "status_count TCompleted (jm_values (g_nodes g))"
  have c: "pr_completed (compute_progress g) = ?c" "counted (compute_progress g) = length (g_nodes g)"
    using count_fold [of "jm_values (g_nodes g)" zero_progress]
    by (simp_all add: compute_progress_def Let_def zero_progress_def counted_def jm_values_def)
  have le: "?c \<le> length (g_nodes g)"
    using length_filter_le [of _ "jm_values (g_nodes g)"] by (simp add: status_count_def jm_values_def)
  have p: "pr_percent (compute_progress g) = (if g_nodes g = [] then 0
      else js_round (of_nat ?c / of_nat (length (g_nodes g)) * 100))"
    using c(1) by (simp add: compute_progress_def Let_def)
  have near: "\<bar>of_int (js_round (of_nat ?c / of_nat (length (g_nodes g)) * 100)) -
      100 * of_nat ?c / of_nat (length (g_nodes g))\<bar> \<le> (1 / 2 :: rat)"
    using js_round_near [of "of_nat ?c / of_nat (length (g_nodes g)) * 100"] by (simp add: mult.commute)
  show ?thesis
    using c p near js_round_percent [OF le] by (simp add: compute_progress_def Let_def)
qed

end
