(* ===== verification/Knowledge_Graph.thy ===== *)
theory Knowledge_Graph
  imports Prelude Js_String "HOL-Library.Multiset"
begin

text \<open>
  The shared graph of facts, goals, decisions, changes and votes,
  \<open>packages/core/src/coordination/knowledge-graph.ts\<close>: the working copy with its index, the queries,
  the subscriptions, and the append-only log from which the working copy is rebuilt. Adding and updating change
  the working copy at once; the line is written later, behind a lock that waiting writers poll in no fixed
  order, so a write stays pending until a step of its own lets it reach the file or fail.

  Fresh identifiers are arguments, as are the printing and parsing of a line of the log. A patch is a function
  on nodes. Fields that no query reads (rationales, votes, quality gates) are left out.
\<close>

section \<open>Nodes\<close>

datatype goal_status = Goal_pending | Goal_in_progress | Goal_blocked | Goal_done | Goal_failed

datatype change_stage = Stage_proposed | Stage_approved | Stage_rejected | Stage_applied | Stage_rolled_back

record fact_node =
  fn_id :: string
  fn_category :: string
  fn_subject :: string
  fn_detail :: string
  fn_file :: "string option"
  fn_severity :: "string option"
  fn_by :: string
  fn_tags :: "string list"
  fn_key :: string
  fn_related :: "string list"

record goal_node =
  gn_id :: string
  gn_title :: string
  gn_description :: string
  gn_status :: goal_status
  gn_priority :: string
  gn_assignee :: "string option"
  gn_blocked_by :: "string list"
  gn_depends_on :: "string list"
  gn_tags :: "string list"
  gn_children :: "string list"
  gn_parent :: "string option"
  gn_result :: "string option"

record decision_node =
  dn_id :: string
  dn_question :: string
  dn_chosen :: string
  dn_by :: string

record change_node =
  cn_id :: string
  cn_title :: string
  cn_status :: change_stage
  cn_by :: string
  cn_goals :: "string list"

record vote_node =
  vn_id :: string
  vn_change :: string
  vn_voter :: string

datatype kg_node =
    Fact fact_node
  | Goal goal_node
  | Decision decision_node
  | Change_of change_node
  | Vote_of vote_node

datatype node_type = Fact_type | Goal_type | Decision_type | Change_type | Vote_type

fun node_id :: "kg_node \<Rightarrow> string" where
  "node_id (Fact f) = fn_id f"
| "node_id (Goal g) = gn_id g"
| "node_id (Decision d) = dn_id d"
| "node_id (Change_of c) = cn_id c"
| "node_id (Vote_of v) = vn_id v"

fun type_of_node :: "kg_node \<Rightarrow> node_type" where
  "type_of_node (Fact f) = Fact_type"
| "type_of_node (Goal g) = Goal_type"
| "type_of_node (Decision d) = Decision_type"
| "type_of_node (Change_of c) = Change_type"
| "type_of_node (Vote_of v) = Vote_type"

section \<open>Filters\<close>

text \<open>An unset field of a filter is \<open>None\<close>; an empty string counts as unset, as in the code.\<close>

datatype status_filter = Goal_status_is goal_status | Change_status_is change_stage

record node_filter =
  nf_type :: "node_type option"
  nf_category :: "string option"
  nf_status :: "status_filter option"
  nf_tags :: "string list"
  nf_assignee :: "string option"
  nf_discovered_by :: "string option"
  nf_proposed_by :: "string option"
  nf_since :: "string option"

definition any_node :: node_filter where
  "any_node =
     \<lparr>nf_type = None, nf_category = None, nf_status = None, nf_tags = [], nf_assignee = None,
      nf_discovered_by = None, nf_proposed_by = None, nf_since = None\<rparr>"

text \<open>Reading a field that the node does not have gives \<open>undefined\<close>.\<close>

fun category_of :: "kg_node \<Rightarrow> string option" where
  "category_of (Fact f) = Some (fn_category f)"
| "category_of n = None"

fun assignee_of :: "kg_node \<Rightarrow> string option" where
  "assignee_of (Goal g) = gn_assignee g"
| "assignee_of n = None"

fun discovered_by :: "kg_node \<Rightarrow> string option" where
  "discovered_by (Fact f) = Some (fn_by f)"
| "discovered_by n = None"

fun proposed_by :: "kg_node \<Rightarrow> string option" where
  "proposed_by (Change_of c) = Some (cn_by c)"
| "proposed_by n = None"

fun tags_of :: "kg_node \<Rightarrow> string list" where
  "tags_of (Fact f) = fn_tags f"
| "tags_of (Goal g) = gn_tags g"
| "tags_of n = []"

definition asks :: "string option \<Rightarrow> string option \<Rightarrow> bool" where
  "asks wanted actual = (case wanted of None \<Rightarrow> True | Some w \<Rightarrow> w = '''' \<or> actual = Some w)"

fun status_matches :: "status_filter option \<Rightarrow> kg_node \<Rightarrow> bool" where
  "status_matches (Some s) (Goal g) = (s = Goal_status_is (gn_status g))"
| "status_matches (Some s) (Change_of c) = (s = Change_status_is (cn_status c))"
| "status_matches s n = True"

definition matches_filter :: "kg_node \<Rightarrow> node_filter \<Rightarrow> bool" where
  "matches_filter n f =
     (if (case nf_type f of None \<Rightarrow> False | Some t \<Rightarrow> type_of_node n \<noteq> t) then False
      else if \<not> asks (nf_category f) (category_of n) then False
      else if \<not> status_matches (nf_status f) n then False
      else if \<not> asks (nf_assignee f) (assignee_of n) then False
      else if \<not> asks (nf_discovered_by f) (discovered_by n) then False
      else if \<not> asks (nf_proposed_by f) (proposed_by n) then False
      else if nf_tags f \<noteq> [] \<and> \<not> list_ex (\<lambda>t. t \<in> set (tags_of n)) (nf_tags f) then False
      else True)"

section \<open>The working copy\<close>

datatype log_entry = Log_add kg_node | Log_update kg_node

text \<open>The writes on their way to the file are \<open>kg_pending\<close>, in the order in which they were issued; the nodes
  whose addition has reached the file and is still to be announced are \<open>kg_landed\<close>.\<close>

record kgraph =
  kg_nodes :: "(string, kg_node) jsmap"
  kg_index :: "(string, string list) jsmap"
  kg_subs :: "(string, node_filter) jsmap"
  kg_deliveries :: "(string, kg_node list) jsmap"
  kg_seq :: "(string, nat) jsmap"
  kg_counter :: nat
  kg_file :: string
  kg_pending :: "log_entry list"
  kg_landed :: "kg_node list"

definition empty_graph :: "string \<Rightarrow> kgraph" where
  "empty_graph file =
     \<lparr>kg_nodes = [], kg_index = [], kg_subs = [], kg_deliveries = [], kg_seq = [], kg_counter = 0, kg_file = file,
      kg_pending = [], kg_landed = []\<rparr>"

fun type_name :: "node_type \<Rightarrow> string" where
  "type_name Fact_type = ''fact''"
| "type_name Goal_type = ''goal''"
| "type_name Decision_type = ''decision''"
| "type_name Change_type = ''change''"
| "type_name Vote_type = ''vote''"

fun status_name :: "goal_status \<Rightarrow> string" where
  "status_name Goal_pending = ''pending''"
| "status_name Goal_in_progress = ''in_progress''"
| "status_name Goal_blocked = ''blocked''"
| "status_name Goal_done = ''done''"
| "status_name Goal_failed = ''failed''"

fun stage_name :: "change_stage \<Rightarrow> string" where
  "stage_name Stage_proposed = ''proposed''"
| "stage_name Stage_approved = ''approved''"
| "stage_name Stage_rejected = ''rejected''"
| "stage_name Stage_applied = ''applied''"
| "stage_name Stage_rolled_back = ''rolled_back''"

definition optional_key :: "string \<Rightarrow> string option \<Rightarrow> string list" where
  "optional_key k v = (case v of None \<Rightarrow> [] | Some x \<Rightarrow> if x = '''' then [] else [k @ x])"

fun own_keys :: "kg_node \<Rightarrow> string list" where
  "own_keys (Fact f) =
     [''cat:'' @ fn_category f] @ optional_key ''sev:'' (fn_severity f) @ [''by:'' @ fn_by f] @
     map ((@) ''tag:'') (fn_tags f) @ [''key:'' @ fn_key f, ''subject:'' @ fn_subject f] @
     optional_key ''detail:'' (Some (fn_detail f))"
| "own_keys (Goal g) =
     [''status:'' @ status_name (gn_status g), ''prio:'' @ gn_priority g] @ optional_key ''assign:'' (gn_assignee g) @
     map ((@) ''tag:'') (gn_tags g)"
| "own_keys (Change_of c) =
     [''change:'' @ stage_name (cn_status c), ''by:'' @ cn_by c] @ map ((@) ''goal:'') (cn_goals c)"
| "own_keys n = []"

definition index_keys :: "kg_node \<Rightarrow> string list" where
  "index_keys n = fold js_add ((''type:'' @ type_name (type_of_node n)) # own_keys n) []"

definition add_to_index :: "kg_node \<Rightarrow> kgraph \<Rightarrow> kgraph" where
  "add_to_index n g =
     g\<lparr>kg_index := fold (\<lambda>k ix. jm_set k (js_add (node_id n) (case jm_get ix k of None \<Rightarrow> [] | Some s \<Rightarrow> s)) ix)
        (index_keys n) (kg_index g)\<rparr>"

definition remove_from_index :: "kg_node \<Rightarrow> kgraph \<Rightarrow> kgraph" where
  "remove_from_index n g =
     g\<lparr>kg_index := fold (\<lambda>k. jm_update k (js_remove (node_id n))) (index_keys n) (kg_index g)\<rparr>"

definition track_seq :: "string \<Rightarrow> kgraph \<Rightarrow> kgraph" where
  "track_seq i g =
     (if jm_has (kg_seq g) i then g
      else g\<lparr>kg_seq := jm_set i (kg_counter g) (kg_seq g), kg_counter := kg_counter g + 1\<rparr>)"

definition deliver :: "kg_node \<Rightarrow> kgraph \<Rightarrow> kgraph" where
  "deliver n g =
     fold (\<lambda>(ch, f) g. if matches_filter n f then g\<lparr>kg_deliveries := jm_update ch (\<lambda>ns. ns @ [n]) (kg_deliveries g)\<rparr> else g)
       (kg_subs g) g"

definition append_line :: "(log_entry \<Rightarrow> string) \<Rightarrow> log_entry \<Rightarrow> kgraph \<Rightarrow> kgraph" where
  "append_line print e g = g\<lparr>kg_file := kg_file g @ print e @ [CHR 0x0A]\<rparr>"

definition queue_write :: "log_entry \<Rightarrow> kgraph \<Rightarrow> kgraph" where
  "queue_write e g = g\<lparr>kg_pending := kg_pending g @ [e]\<rparr>"

text \<open>What \<open>add\<close> and \<open>update\<close> do up to their \<open>await\<close>. The node of \<open>add\<close> carries the fresh identifier
  already; its delivery waits until the line is in the file.\<close>

definition add_node :: "kg_node \<Rightarrow> kgraph \<Rightarrow> kgraph" where
  "add_node n g =
     queue_write (Log_add n)
       (add_to_index n (track_seq (node_id n) (g\<lparr>kg_nodes := jm_set (node_id n) n (kg_nodes g)\<rparr>)))"

definition update_node :: "string \<Rightarrow> (kg_node \<Rightarrow> kg_node) \<Rightarrow> kgraph \<Rightarrow> kgraph" where
  "update_node i patch g =
     (case jm_get (kg_nodes g) i of
        None \<Rightarrow> g
      | Some old \<Rightarrow>
          let new = patch old;
              g1 = remove_from_index old g
          in queue_write (Log_update new)
               (deliver new (add_to_index new (g1\<lparr>kg_nodes := jm_set i new (kg_nodes g1)\<rparr>))))"

text \<open>Any of the pending writes may get the lock next, or give up: the directory cannot be made, the lock is
  not free in time, the file cannot be written. Then \<open>add\<close> and \<open>update\<close> reject, and the working copy stays.\<close>

definition without :: "nat \<Rightarrow> 'a list \<Rightarrow> 'a list" where
  "without k xs = take k xs @ drop (Suc k) xs"

definition land_write :: "(log_entry \<Rightarrow> string) \<Rightarrow> nat \<Rightarrow> kgraph \<Rightarrow> kgraph" where
  "land_write print k g =
     (if k < length (kg_pending g)
      then let e = kg_pending g ! k;
               g1 = append_line print e (g\<lparr>kg_pending := without k (kg_pending g)\<rparr>)
           in (case e of Log_add n \<Rightarrow> g1\<lparr>kg_landed := kg_landed g1 @ [n]\<rparr> | Log_update n \<Rightarrow> g1)
      else g)"

definition fail_write :: "nat \<Rightarrow> kgraph \<Rightarrow> kgraph" where
  "fail_write k g = g\<lparr>kg_pending := without k (kg_pending g)\<rparr>"

text \<open>The rest of \<open>add\<close>, after its \<open>await\<close>: it delivers the node it has put in, whatever it is by now.\<close>

definition announce :: "nat \<Rightarrow> kgraph \<Rightarrow> kgraph" where
  "announce k g =
     (if k < length (kg_landed g) then deliver (kg_landed g ! k) (g\<lparr>kg_landed := without k (kg_landed g)\<rparr>) else g)"

section \<open>Queries\<close>

definition get_node :: "kgraph \<Rightarrow> string \<Rightarrow> kg_node option" where
  "get_node g i = jm_get (kg_nodes g) i"

definition seq_of :: "kgraph \<Rightarrow> string \<Rightarrow> nat" where
  "seq_of g i = (case jm_get (kg_seq g) i of None \<Rightarrow> 0 | Some k \<Rightarrow> k)"

definition pick_matching :: "kgraph \<Rightarrow> node_filter \<Rightarrow> string list \<Rightarrow> kg_node list" where
  "pick_matching g f ids =
     filter (\<lambda>n. matches_filter n f) (concat (map (\<lambda>i. case jm_get (kg_nodes g) i of None \<Rightarrow> [] | Some n \<Rightarrow> [n]) ids))"

definition get_all :: "kgraph \<Rightarrow> node_filter \<Rightarrow> kg_node list" where
  "get_all g f =
     (case nf_type f of
        Some t \<Rightarrow>
          (case jm_get (kg_index g) (''type:'' @ type_name t) of
             None \<Rightarrow> []
           | Some ids \<Rightarrow> if ids = [] then [] else sort_key (\<lambda>n. seq_of g (node_id n)) (pick_matching g f ids))
      | None \<Rightarrow> filter (\<lambda>n. matches_filter n f) (jm_values (kg_nodes g)))"

fun goal_of :: "kg_node \<Rightarrow> goal_node option" where
  "goal_of (Goal g) = Some g"
| "goal_of n = None"

definition goals_in :: "kg_node list \<Rightarrow> goal_node list" where
  "goals_in ns = concat (map (\<lambda>n. case goal_of n of None \<Rightarrow> [] | Some g \<Rightarrow> [g]) ns)"

text \<open>\<open>getGoals\<close> spreads its filter over the type; the priority it accepts is no field of a filter.\<close>

definition get_goals :: "kgraph \<Rightarrow> goal_status option \<Rightarrow> string option \<Rightarrow> string option \<Rightarrow> goal_node list" where
  "get_goals g st assignee priority =
     goals_in (get_all g (any_node\<lparr>nf_type := Some Goal_type, nf_status := map_option Goal_status_is st, nf_assignee := assignee\<rparr>))"

definition get_open_goals :: "kgraph \<Rightarrow> goal_node list" where
  "get_open_goals g = get_goals g (Some Goal_pending) None None @ get_goals g (Some Goal_in_progress) None None"

definition get_top_level_goals :: "kgraph \<Rightarrow> goal_node list" where
  "get_top_level_goals g =
     filter (\<lambda>x. case gn_parent x of None \<Rightarrow> True | Some p \<Rightarrow> p = '''') (get_goals g None None None)"

definition get_blocked_goals :: "kgraph \<Rightarrow> goal_node list" where
  "get_blocked_goals g = get_goals g (Some Goal_blocked) None None"

definition get_facts :: "kgraph \<Rightarrow> string option \<Rightarrow> string option \<Rightarrow> kg_node list" where
  "get_facts g category severity = get_all g (any_node\<lparr>nf_type := Some Fact_type, nf_category := category\<rparr>)"

definition get_changes :: "kgraph \<Rightarrow> change_stage option \<Rightarrow> kg_node list" where
  "get_changes g st = get_all g (any_node\<lparr>nf_type := Some Change_type, nf_status := map_option Change_status_is st\<rparr>)"

definition get_decisions :: "kgraph \<Rightarrow> string option \<Rightarrow> kg_node list" where
  "get_decisions g since = get_all g (any_node\<lparr>nf_type := Some Decision_type, nf_since := since\<rparr>)"

definition fact_mentions :: "string \<Rightarrow> kg_node \<Rightarrow> bool" where
  "fact_mentions q n =
     (case n of
        Fact f \<Rightarrow>
          str_includes (to_lower (fn_subject f)) q \<or> str_includes (to_lower (fn_detail f)) q \<or>
          (case fn_file f of None \<Rightarrow> False | Some p \<Rightarrow> str_includes (to_lower p) q) \<or>
          list_ex (\<lambda>t. str_includes (to_lower t) q) (fn_tags f)
      | _ \<Rightarrow> False)"

definition search_facts :: "kgraph \<Rightarrow> string \<Rightarrow> kg_node list" where
  "search_facts g query = filter (fact_mentions (to_lower query)) (get_facts g None None)"

text \<open>A node that is no fact has no related ones to map over, which is a type error.\<close>

definition get_related_facts :: "kgraph \<Rightarrow> string \<Rightarrow> kg_node list option" where
  "get_related_facts g i =
     (case jm_get (kg_nodes g) i of
        None \<Rightarrow> Some []
      | Some (Fact f) \<Rightarrow>
          Some (filter (\<lambda>n. type_of_node n = Fact_type)
            (concat (map (\<lambda>j. case jm_get (kg_nodes g) j of None \<Rightarrow> [] | Some n \<Rightarrow> [n]) (fn_related f))))
      | Some n \<Rightarrow> None)"

section \<open>Subscriptions\<close>

definition subscribe :: "string \<Rightarrow> node_filter \<Rightarrow> kgraph \<Rightarrow> kgraph" where
  "subscribe ch f g =
     g\<lparr>kg_subs := jm_set ch f (kg_subs g), kg_deliveries := jm_set ch [] (kg_deliveries g)\<rparr>"

definition poll :: "string \<Rightarrow> kgraph \<Rightarrow> kg_node list \<times> kgraph" where
  "poll ch g =
     (case jm_get (kg_deliveries g) ch of
        None \<Rightarrow> ([], g)
      | Some ns \<Rightarrow> (ns, g\<lparr>kg_deliveries := jm_set ch [] (kg_deliveries g)\<rparr>))"

definition unsubscribe :: "string \<Rightarrow> kgraph \<Rightarrow> kgraph" where
  "unsubscribe ch g = g\<lparr>kg_subs := jm_del ch (kg_subs g), kg_deliveries := jm_del ch (kg_deliveries g)\<rparr>"

section \<open>Rebuilding from the log\<close>

definition load_entry :: "log_entry \<Rightarrow> kgraph \<Rightarrow> kgraph" where
  "load_entry e g =
     (case e of
        Log_update n \<Rightarrow>
          (let g1 = (case jm_get (kg_nodes g) (node_id n) of None \<Rightarrow> g | Some old \<Rightarrow> remove_from_index old g)
           in add_to_index n (track_seq (node_id n) (g1\<lparr>kg_nodes := jm_set (node_id n) n (kg_nodes g1)\<rparr>)))
      | Log_add n \<Rightarrow>
          add_to_index n (track_seq (node_id n) (g\<lparr>kg_nodes := jm_set (node_id n) n (kg_nodes g)\<rparr>)))"

definition load_line :: "(string \<Rightarrow> log_entry option) \<Rightarrow> string \<Rightarrow> kgraph \<Rightarrow> kgraph" where
  "load_line parse line g = (case parse line of None \<Rightarrow> g | Some e \<Rightarrow> load_entry e g)"

definition load_graph :: "(string \<Rightarrow> log_entry option) \<Rightarrow> kgraph \<Rightarrow> kgraph" where
  "load_graph parse g =
     fold (load_line parse) (filter (\<lambda>l. l \<noteq> '''') (js_split CHR 0x0A (kg_file g))) g"


section \<open>Operations\<close>

datatype kg_op =
    Add_op kg_node
  | Update_op string "kg_node \<Rightarrow> kg_node"
  | Subscribe_op string node_filter
  | Poll_op string
  | Unsubscribe_op string
  | Land_op nat
  | Fail_op nat
  | Announce_op nat

text \<open>Identifiers are fresh, and a patch leaves the identifier alone.\<close>

definition legal :: "kg_op \<Rightarrow> kgraph \<Rightarrow> bool" where
  "legal e g =
     (case e of
        Add_op n \<Rightarrow> \<not> jm_has (kg_nodes g) (node_id n)
      | Update_op i p \<Rightarrow> (case jm_get (kg_nodes g) i of None \<Rightarrow> True | Some n \<Rightarrow> node_id (p n) = node_id n)
      | _ \<Rightarrow> True)"

fun kg_apply :: "(log_entry \<Rightarrow> string) \<Rightarrow> kg_op \<Rightarrow> kgraph \<Rightarrow> kgraph" where
  "kg_apply print (Add_op n) g = add_node n g"
| "kg_apply print (Update_op i p) g = update_node i p g"
| "kg_apply print (Subscribe_op ch f) g = subscribe ch f g"
| "kg_apply print (Poll_op ch) g = snd (poll ch g)"
| "kg_apply print (Unsubscribe_op ch) g = unsubscribe ch g"
| "kg_apply print (Land_op k) g = land_write print k g"
| "kg_apply print (Fail_op k) g = fail_write k g"
| "kg_apply print (Announce_op k) g = announce k g"

definition kg_step :: "(log_entry \<Rightarrow> string) \<Rightarrow> kg_op \<Rightarrow> kgraph \<Rightarrow> kgraph" where
  "kg_step print e g = (if legal e g then kg_apply print e g else g)"

section \<open>The index\<close>

definition ids_at :: "kgraph \<Rightarrow> string \<Rightarrow> string list" where
  "ids_at g k = (case jm_get (kg_index g) k of None \<Rightarrow> [] | Some s \<Rightarrow> s)"

definition index_ok :: "kgraph \<Rightarrow> bool" where
  "index_ok g =
     ((\<forall>k. distinct (ids_at g k)) \<and>
      (\<forall>k i. i \<in> set (ids_at g k) \<longleftrightarrow> (\<exists>n. jm_get (kg_nodes g) i = Some n \<and> k \<in> set (index_keys n))))"

definition nodes_ok :: "kgraph \<Rightarrow> bool" where
  "nodes_ok g =
     (jm_wf (kg_nodes g) \<and> (\<forall>i n. jm_get (kg_nodes g) i = Some n \<longrightarrow> node_id n = i) \<and>
      kg_seq g = zip (jm_keys (kg_nodes g)) [0..<length (kg_nodes g)] \<and> kg_counter g = length (kg_nodes g))"

definition graph_ok :: "kgraph \<Rightarrow> bool" where
  "graph_ok g = (nodes_ok g \<and> index_ok g)"

lemma ids_add [simp]:
  "ids_at (add_to_index n g) k = (if k \<in> set (index_keys n) then js_add (node_id n) (ids_at g k) else ids_at g k)"
proof -
  let ?put = "\<lambda>k ix. jm_set k (js_add (node_id n) (case jm_get ix k of None \<Rightarrow> [] | Some s \<Rightarrow> s)) ix"
  let ?at = "\<lambda>ix k. case jm_get ix k of None \<Rightarrow> [] | Some s \<Rightarrow> s"
  have "?at (fold ?put ks ix) k = (if k \<in> set ks then js_add (node_id n) (?at ix k) else ?at ix k)" for ks ix
  proof (induction ks arbitrary: ix)
    case (Cons k' ks)
    have twice: "js_add x (js_add x xs) = js_add x xs" for x and xs :: "string list" by (simp add: js_add_def)
    show ?case by (simp add: Cons.IH twice)
  qed simp
  then show ?thesis by (simp add: ids_at_def add_to_index_def)
qed

lemma ids_remove [simp]:
  "ids_at (remove_from_index n g) k = (if k \<in> set (index_keys n) then js_remove (node_id n) (ids_at g k) else ids_at g k)"
proof -
  let ?at = "\<lambda>ix k. case jm_get ix k of None \<Rightarrow> [] | Some s \<Rightarrow> s"
  have "?at (fold (\<lambda>k. jm_update k (js_remove (node_id n))) ks ix) k =
      (if k \<in> set ks then js_remove (node_id n) (?at ix k) else ?at ix k)" for ks and ix :: "(string, string list) jsmap"
  proof (induction ks arbitrary: ix)
    case (Cons k' ks)
    have twice: "js_remove x (js_remove x xs) = js_remove x xs" for x and xs :: "string list" by (simp add: js_remove_def)
    have none: "js_remove x [] = []" for x :: string by (simp add: js_remove_def)
    show ?case by (simp add: Cons.IH twice none split: option.split)
  qed simp
  then show ?thesis by (simp add: ids_at_def remove_from_index_def)
qed

lemma index_fields [simp]:
  "kg_nodes (add_to_index n g) = kg_nodes g" "kg_nodes (remove_from_index n g) = kg_nodes g"
  "kg_seq (add_to_index n g) = kg_seq g" "kg_seq (remove_from_index n g) = kg_seq g"
  "kg_counter (add_to_index n g) = kg_counter g" "kg_counter (remove_from_index n g) = kg_counter g"
  "kg_subs (add_to_index n g) = kg_subs g" "kg_subs (remove_from_index n g) = kg_subs g"
  "kg_deliveries (add_to_index n g) = kg_deliveries g" "kg_deliveries (remove_from_index n g) = kg_deliveries g"
  "kg_file (add_to_index n g) = kg_file g" "kg_file (remove_from_index n g) = kg_file g"
  "kg_pending (add_to_index n g) = kg_pending g" "kg_pending (remove_from_index n g) = kg_pending g"
  "kg_landed (add_to_index n g) = kg_landed g" "kg_landed (remove_from_index n g) = kg_landed g"
  by (simp_all add: add_to_index_def remove_from_index_def)

lemma track_fields [simp]:
  "kg_nodes (track_seq i g) = kg_nodes g" "kg_index (track_seq i g) = kg_index g" "kg_subs (track_seq i g) = kg_subs g"
  "kg_deliveries (track_seq i g) = kg_deliveries g" "kg_file (track_seq i g) = kg_file g"
  "kg_pending (track_seq i g) = kg_pending g" "kg_landed (track_seq i g) = kg_landed g"
  by (simp_all add: track_seq_def)

lemma deliver_frame: "\<exists>d. deliver n g = g\<lparr>kg_deliveries := d\<rparr>"
proof -
  have "\<exists>d. fold (\<lambda>(ch, f) g. if matches_filter n f then g\<lparr>kg_deliveries := jm_update ch (\<lambda>ns. ns @ [n]) (kg_deliveries g)\<rparr> else g) ss g =
      g\<lparr>kg_deliveries := d\<rparr>" for ss g
  proof (induction ss arbitrary: g)
    case Nil
    have "g = g\<lparr>kg_deliveries := kg_deliveries g\<rparr>" by simp
    then show ?case by (metis fold_simps(1))
  next
    case (Cons s ss)
    obtain ch f where s: "s = (ch, f)" by (cases s)
    show ?case
    proof (cases "matches_filter n f")
      case True
      with Cons [of "g\<lparr>kg_deliveries := jm_update ch (\<lambda>ns. ns @ [n]) (kg_deliveries g)\<rparr>"] show ?thesis by (auto simp: s)
    next
      case False
      with Cons [of g] show ?thesis by (auto simp: s)
    qed
  qed
  then show ?thesis unfolding deliver_def .
qed

lemma deliver_fields [simp]:
  "kg_nodes (deliver n g) = kg_nodes g" "kg_index (deliver n g) = kg_index g" "kg_subs (deliver n g) = kg_subs g"
  "kg_seq (deliver n g) = kg_seq g" "kg_counter (deliver n g) = kg_counter g" "kg_file (deliver n g) = kg_file g"
  "kg_pending (deliver n g) = kg_pending g" "kg_landed (deliver n g) = kg_landed g"
  using deliver_frame [of n g] by auto

lemma append_fields [simp]:
  "kg_nodes (append_line print e g) = kg_nodes g" "kg_index (append_line print e g) = kg_index g"
  "kg_seq (append_line print e g) = kg_seq g" "kg_counter (append_line print e g) = kg_counter g"
  "kg_subs (append_line print e g) = kg_subs g" "kg_deliveries (append_line print e g) = kg_deliveries g"
  "kg_pending (append_line print e g) = kg_pending g" "kg_landed (append_line print e g) = kg_landed g"
  by (simp_all add: append_line_def)

lemma queue_fields [simp]:
  "kg_nodes (queue_write e g) = kg_nodes g" "kg_index (queue_write e g) = kg_index g"
  "kg_seq (queue_write e g) = kg_seq g" "kg_counter (queue_write e g) = kg_counter g"
  "kg_subs (queue_write e g) = kg_subs g" "kg_deliveries (queue_write e g) = kg_deliveries g"
  "kg_file (queue_write e g) = kg_file g" "kg_landed (queue_write e g) = kg_landed g"
  "kg_pending (queue_write e g) = kg_pending g @ [e]"
  by (simp_all add: queue_write_def)

lemma land_fields [simp]:
  "kg_nodes (land_write print k g) = kg_nodes g" "kg_index (land_write print k g) = kg_index g"
  "kg_seq (land_write print k g) = kg_seq g" "kg_counter (land_write print k g) = kg_counter g"
  "kg_subs (land_write print k g) = kg_subs g" "kg_deliveries (land_write print k g) = kg_deliveries g"
  by (simp_all add: land_write_def Let_def split: log_entry.split)

lemma fail_fields [simp]:
  "kg_nodes (fail_write k g) = kg_nodes g" "kg_index (fail_write k g) = kg_index g"
  "kg_seq (fail_write k g) = kg_seq g" "kg_counter (fail_write k g) = kg_counter g"
  "kg_subs (fail_write k g) = kg_subs g" "kg_deliveries (fail_write k g) = kg_deliveries g"
  by (simp_all add: fail_write_def)

lemma announce_fields [simp]:
  "kg_nodes (announce k g) = kg_nodes g" "kg_index (announce k g) = kg_index g"
  "kg_seq (announce k g) = kg_seq g" "kg_counter (announce k g) = kg_counter g"
  "kg_subs (announce k g) = kg_subs g" "kg_file (announce k g) = kg_file g" "kg_pending (announce k g) = kg_pending g"
  by (simp_all add: announce_def)

text \<open>Two graphs that agree on nodes, index and sequence are as good as each other.\<close>

lemma graph_ok_cong:
  assumes "kg_nodes g = kg_nodes h" "kg_index g = kg_index h" "kg_seq g = kg_seq h" "kg_counter g = kg_counter h"
  shows "graph_ok g = graph_ok h"
  using assms by (simp add: graph_ok_def nodes_ok_def index_ok_def ids_at_def)

definition put_new :: "kg_node \<Rightarrow> kgraph \<Rightarrow> kgraph" where
  "put_new n g = add_to_index n (track_seq (node_id n) (g\<lparr>kg_nodes := jm_set (node_id n) n (kg_nodes g)\<rparr>))"

definition put_again :: "kg_node \<Rightarrow> kg_node \<Rightarrow> kgraph \<Rightarrow> kgraph" where
  "put_again old n g =
     (let g1 = remove_from_index old g in add_to_index n (g1\<lparr>kg_nodes := jm_set (node_id n) n (kg_nodes g1)\<rparr>))"

lemma zip_snoc: "length xs = length ys \<Longrightarrow> zip (xs @ [a]) (ys @ [b]) = zip xs ys @ [(a, b)]"
  by simp

lemma put_new_ok:
  assumes "graph_ok g" "\<not> jm_has (kg_nodes g) (node_id n)"
  shows "graph_ok (put_new n g)"
proof -
  have len: "length (jm_keys (kg_nodes g)) = length (kg_nodes g)" by (simp add: jm_keys_def)
  have seqkeys: "jm_keys (kg_seq g) = jm_keys (kg_nodes g)"
    using assms(1) len by (simp add: graph_ok_def nodes_ok_def jm_keys_def)
  have fresh: "\<not> jm_has (kg_seq g) (node_id n)" using assms(2) by (simp add: jm_has_keys seqkeys)
  have nodes: "kg_nodes (put_new n g) = kg_nodes g @ [(node_id n, n)]"
    using assms(2) by (simp add: put_new_def jm_set_new)
  have "nodes_ok (put_new n g)"
    using assms fresh len unfolding nodes_ok_def nodes
    by (auto simp: graph_ok_def nodes_ok_def put_new_def track_seq_def jm_set_new jm_get_def map_of_append
        jm_keys_def jm_wf_def jm_has_def map_add_def split: option.splits)
  moreover have "index_ok (put_new n g)"
  proof -
    have ids: "ids_at (track_seq (node_id n) (g\<lparr>kg_nodes := jm_set (node_id n) n (kg_nodes g)\<rparr>)) k = ids_at g k" for k
      by (simp add: ids_at_def)
    have "node_id n \<notin> set (ids_at g k)" for k
      using assms by (simp add: graph_ok_def index_ok_def jm_has_def)
    with assms show ?thesis
      by (auto simp: graph_ok_def index_ok_def put_new_def ids)
  qed
  ultimately show ?thesis by (simp add: graph_ok_def)
qed

lemma put_again_ok:
  assumes "graph_ok g" "jm_get (kg_nodes g) (node_id n) = Some old" "node_id old = node_id n"
  shows "graph_ok (put_again old n g)"
proof -
  have has: "jm_has (kg_nodes g) (node_id n)" using assms(2) by (simp add: jm_has_def)
  have nodes: "kg_nodes (put_again old n g) = jm_set (node_id n) n (kg_nodes g)" by (simp add: put_again_def Let_def)
  have "nodes_ok (put_again old n g)"
    using assms has by (auto simp: graph_ok_def nodes_ok_def put_again_def Let_def length_jm_set)
  moreover have "index_ok (put_again old n g)"
  proof -
    have ids: "ids_at (g\<lparr>kg_nodes := ns\<rparr>) k = ids_at g k" for g ns k by (simp add: ids_at_def)
    have upd: "(remove_from_index old g)\<lparr>kg_nodes := ns\<rparr> = remove_from_index old (g\<lparr>kg_nodes := ns\<rparr>)" for ns
      by (simp add: remove_from_index_def)
    show ?thesis
      using assms unfolding graph_ok_def index_ok_def
      by (auto simp: put_again_def Let_def upd ids)
  qed
  ultimately show ?thesis by (simp add: graph_ok_def)
qed

lemma kg_step_ok:
  assumes "graph_ok g" shows "graph_ok (kg_step print e g)"
proof (cases "legal e g")
  case True
  show ?thesis
  proof (cases e)
    case (Add_op n)
    with True have "graph_ok (put_new n g)" by (intro put_new_ok [OF assms]) (simp add: legal_def)
    also have "graph_ok (put_new n g) = graph_ok (add_node n g)"
      by (rule graph_ok_cong) (simp_all add: add_node_def put_new_def)
    finally show ?thesis using Add_op True by (simp add: kg_step_def)
  next
    case (Update_op i p)
    show ?thesis
    proof (cases "jm_get (kg_nodes g) i")
      case None
      with assms Update_op show ?thesis by (simp add: kg_step_def update_node_def)
    next
      case (Some old)
      have i: "node_id old = i" using assms Some by (simp add: graph_ok_def nodes_ok_def)
      with True Some Update_op have n: "node_id (p old) = i" by (simp add: legal_def)
      have "graph_ok (put_again old (p old) g)"
        by (rule put_again_ok [OF assms]) (simp_all add: n i Some)
      also have "graph_ok (put_again old (p old) g) = graph_ok (update_node i p g)"
        by (rule graph_ok_cong) (simp_all add: update_node_def put_again_def Let_def Some n)
      finally show ?thesis using Update_op True by (simp add: kg_step_def)
    qed
  next
    case (Subscribe_op ch f)
    have "graph_ok (subscribe ch f g) = graph_ok g" by (rule graph_ok_cong) (simp_all add: subscribe_def)
    with assms Subscribe_op show ?thesis by (simp add: kg_step_def)
  next
    case (Poll_op ch)
    have "graph_ok (snd (poll ch g)) = graph_ok g" by (rule graph_ok_cong) (simp_all add: poll_def split: option.split)
    with assms Poll_op show ?thesis by (simp add: kg_step_def)
  next
    case (Unsubscribe_op ch)
    have "graph_ok (unsubscribe ch g) = graph_ok g" by (rule graph_ok_cong) (simp_all add: unsubscribe_def)
    with assms Unsubscribe_op show ?thesis by (simp add: kg_step_def)
  next
    case (Land_op k)
    have "graph_ok (land_write print k g) = graph_ok g" by (rule graph_ok_cong) simp_all
    with assms Land_op show ?thesis by (simp add: kg_step_def)
  next
    case (Fail_op k)
    have "graph_ok (fail_write k g) = graph_ok g" by (rule graph_ok_cong) simp_all
    with assms Fail_op show ?thesis by (simp add: kg_step_def)
  next
    case (Announce_op k)
    have "graph_ok (announce k g) = graph_ok g" by (rule graph_ok_cong) simp_all
    with assms Announce_op show ?thesis by (simp add: kg_step_def)
  qed
qed (use assms in \<open>simp add: kg_step_def\<close>)

interpretation knowledge: state_contract "kg_step print" graph_ok for print
  by unfold_locales (rule kg_step_ok)

lemma empty_graph_ok: "graph_ok (empty_graph file)"
  by (simp add: graph_ok_def nodes_ok_def index_ok_def empty_graph_def ids_at_def)


section \<open>Queries through the index\<close>

lemma type_key: "''type:'' @ type_name t \<in> set (index_keys n) \<longleftrightarrow> type_of_node n = t"
proof -
  have keys: "set (fold js_add ks acc) = set ks \<union> set acc" for ks acc :: "string list"
    by (induction ks arbitrary: acc) auto
  have other: "''type:'' @ x \<notin> set (own_keys n)" for x
    by (cases n) (auto simp: optional_key_def split: option.splits)
  have inj: "(''type:'' @ type_name t = ''type:'' @ type_name (type_of_node n)) = (t = type_of_node n)"
    by (cases t; cases "type_of_node n") simp_all
  have "''type:'' @ type_name t \<in> set (index_keys n) \<longleftrightarrow>
      ''type:'' @ type_name t = ''type:'' @ type_name (type_of_node n) \<or> ''type:'' @ type_name t \<in> set (own_keys n)"
    by (simp only: index_keys_def keys list.set insert_iff Un_iff empty_iff simp_thms)
  with other [of "type_name t"] inj show ?thesis by (simp only: simp_thms eq_commute)
qed

lemma filter_type: "nf_type f = Some t \<Longrightarrow> matches_filter n f = (type_of_node n = t \<and> matches_filter n f)"
  by (simp add: matches_filter_def)

lemma values_distinct: "nodes_ok g \<Longrightarrow> distinct (map node_id (jm_values (kg_nodes g)))"
proof -
  assume g: "nodes_ok g"
  have "map node_id (jm_values (kg_nodes g)) = jm_keys (kg_nodes g)"
    using g by (auto simp: nodes_ok_def jm_values_def jm_keys_def jm_get_eq comp_def)
  with g show ?thesis by (simp add: nodes_ok_def jm_wf_def)
qed

lemma seq_order:
  assumes "nodes_ok g"
  shows "map (\<lambda>n. seq_of g (node_id n)) (jm_values (kg_nodes g)) = [0..<length (kg_nodes g)]"
proof (rule nth_equalityI)
  show "length (map (\<lambda>n. seq_of g (node_id n)) (jm_values (kg_nodes g))) = length [0..<length (kg_nodes g)]"
    by (simp add: jm_values_def)
  fix k assume "k < length (map (\<lambda>n. seq_of g (node_id n)) (jm_values (kg_nodes g)))"
  then have k: "k < length (kg_nodes g)" by (simp add: jm_values_def)
  obtain i n where e: "kg_nodes g ! k = (i, n)" by fastforce
  have "(i, n) \<in> set (kg_nodes g)" using nth_mem [OF k] e by simp
  then have id: "node_id n = i" using assms by (simp add: nodes_ok_def jm_get_eq)
  have "kg_seq g ! k = (i, k)" "k < length (kg_seq g)"
    using assms k e by (simp_all add: nodes_ok_def jm_keys_def)
  then have "(i, k) \<in> set (kg_seq g)" by (metis nth_mem)
  moreover have "distinct (map fst (kg_seq g))" using assms by (simp add: nodes_ok_def jm_keys_def jm_wf_def)
  ultimately have "jm_get (kg_seq g) i = Some k" by (simp add: jm_get_def)
  then show "map (\<lambda>n. seq_of g (node_id n)) (jm_values (kg_nodes g)) ! k = [0..<length (kg_nodes g)] ! k"
    using k e id by (simp add: jm_values_def seq_of_def)
qed

lemma get_all_scan:
  assumes "graph_ok g"
  shows "get_all g f = filter (\<lambda>n. matches_filter n f) (jm_values (kg_nodes g))"
proof (cases "nf_type f")
  case (Some t)
  let ?ids = "ids_at g (''type:'' @ type_name t)"
  let ?node = "\<lambda>i. case jm_get (kg_nodes g) i of None \<Rightarrow> [] | Some n \<Rightarrow> [n]"
  let ?scan = "filter (\<lambda>n. matches_filter n f) (jm_values (kg_nodes g))"
  have n: "nodes_ok g" and ix: "index_ok g" using assms by (simp_all add: graph_ok_def)
  have vals: "set (jm_values (kg_nodes g)) = {n. \<exists>i. jm_get (kg_nodes g) i = Some n}"
    using n jm_values_in [of "kg_nodes g"] by (auto simp: nodes_ok_def)
  have ids: "i \<in> set ?ids \<longleftrightarrow> (\<exists>n. jm_get (kg_nodes g) i = Some n \<and> type_of_node n = t)" for i
    using ix type_key unfolding index_ok_def by blast
  have single: "\<exists>n. ?node i = [n] \<and> node_id n = i" if "i \<in> set ?ids" for i
    using that ids n by (auto simp: nodes_ok_def)
  have "map node_id (concat (map ?node is)) = is" if "set is \<subseteq> set ?ids" for "is"
    using that
  proof (induction "is")
    case (Cons i "is")
    then obtain m where "?node i = [m]" "node_id m = i" using single by auto
    with Cons show ?case by simp
  qed simp
  then have mapped: "map node_id (concat (map ?node ?ids)) = ?ids" by blast
  have "distinct ?ids" using ix by (simp add: index_ok_def)
  with mapped have d1: "distinct (concat (map ?node ?ids))" by (metis distinct_map)
  have in_node: "x \<in> set (?node i) \<longleftrightarrow> jm_get (kg_nodes g) i = Some x" for x i
    by (auto split: option.split)
  have "x \<in> set (concat (map ?node ?ids)) \<longleftrightarrow> (\<exists>i\<in>set ?ids. jm_get (kg_nodes g) i = Some x)" for x
    by (simp only: set_concat set_map image_image UN_iff in_node)
  moreover have "(\<exists>i\<in>set ?ids. jm_get (kg_nodes g) i = Some x) \<longleftrightarrow> (\<exists>i. jm_get (kg_nodes g) i = Some x \<and> type_of_node x = t)" for x
    unfolding Bex_def ids by auto
  ultimately have "set (concat (map ?node ?ids)) = {n. \<exists>i. jm_get (kg_nodes g) i = Some n \<and> type_of_node n = t}"
    by (simp only: set_eq_iff mem_Collect_eq simp_thms)
  then have "set (pick_matching g f ?ids) = set ?scan"
    using filter_type [OF Some] by (auto simp: pick_matching_def vals)
  moreover have "distinct (pick_matching g f ?ids)" using d1 by (simp add: pick_matching_def)
  moreover have "distinct ?scan" using values_distinct [OF n] by (simp add: distinct_map)
  ultimately have ms: "mset (pick_matching g f ?ids) = mset ?scan"
    by (metis set_eq_iff_mset_eq_distinct)
  have ord: "sorted (map (\<lambda>n. seq_of g (node_id n)) (jm_values (kg_nodes g)))"
    "distinct (map (\<lambda>n. seq_of g (node_id n)) (jm_values (kg_nodes g)))"
    by (simp_all add: seq_order [OF n])
  have "sort_key (\<lambda>n. seq_of g (node_id n)) (pick_matching g f ?ids) = ?scan"
  proof (rule sort_key_inj_key_eq [OF ms])
    show "inj_on (\<lambda>n. seq_of g (node_id n)) (set (pick_matching g f ?ids))"
      using ord(2) \<open>set (pick_matching g f ?ids) = set ?scan\<close> by (auto simp: distinct_map intro: inj_on_subset)
    show "sorted (map (\<lambda>n. seq_of g (node_id n)) ?scan)" using ord(1) by (rule sorted_filter)
  qed
  then show ?thesis
    using Some by (auto simp: get_all_def ids_at_def pick_matching_def split: option.splits)
qed (simp add: get_all_def)

text \<open>C32. In every graph that operations can produce, a query by type, which goes through the index, returns
  exactly what a scan of all nodes in the order of their creation returns.\<close>

theorem indexed_query_is_scan:
  "let g = fold (kg_step print) es (empty_graph file)
   in get_all g f = filter (\<lambda>n. matches_filter n f) (jm_values (kg_nodes g))"
  unfolding Let_def by (rule get_all_scan, rule knowledge.run_good, rule empty_graph_ok)

lemma goals_in_filter:
  "goals_in (filter (\<lambda>n. type_of_node n = Goal_type \<and> (\<forall>g. goal_of n = Some g \<longrightarrow> P g)) ns) = filter P (goals_in ns)"
proof (induction ns)
  case (Cons n ns)
  then show ?case by (cases n) (simp_all add: goals_in_def)
qed (simp add: goals_in_def)

text \<open>The query for goals returns the goals with the status and the assignee asked for, in the order of
  their creation; the priority it accepts as a filter has no influence.\<close>

theorem goals_query_exact:
  "let g = fold (kg_step print) es (empty_graph file)
   in get_goals g st assignee priority =
        filter (\<lambda>x. (case st of None \<Rightarrow> True | Some s \<Rightarrow> gn_status x = s) \<and> asks assignee (gn_assignee x))
          (goals_in (jm_values (kg_nodes g)))"
proof -
  let ?f = "any_node\<lparr>nf_type := Some Goal_type, nf_status := map_option Goal_status_is st, nf_assignee := assignee\<rparr>"
  let ?P = "\<lambda>x. (case st of None \<Rightarrow> True | Some s \<Rightarrow> gn_status x = s) \<and> asks assignee (gn_assignee x)"
  have "matches_filter n ?f = (type_of_node n = Goal_type \<and> (\<forall>g. goal_of n = Some g \<longrightarrow> ?P g))" for n
    by (cases n) (auto simp: matches_filter_def any_node_def asks_def split: option.splits)
  moreover have "get_all (fold (kg_step print) es (empty_graph file)) ?f =
      filter (\<lambda>n. matches_filter n ?f) (jm_values (kg_nodes (fold (kg_step print) es (empty_graph file))))"
    by (rule get_all_scan, rule knowledge.run_good, rule empty_graph_ok)
  ultimately show ?thesis unfolding Let_def by (simp add: get_goals_def goals_in_filter)
qed

section \<open>The log\<close>

definition replay :: "log_entry list \<Rightarrow> kgraph \<Rightarrow> kgraph" where
  "replay ls g = fold load_entry ls g"

definition log_text :: "(log_entry \<Rightarrow> string) \<Rightarrow> log_entry list \<Rightarrow> string" where
  "log_text print ls = concat (map (\<lambda>e. print e @ [CHR 0x0A]) ls)"

lemma load_nodes: "kg_nodes (load_entry e g) = (case e of Log_add n \<Rightarrow> jm_set (node_id n) n (kg_nodes g)
    | Log_update n \<Rightarrow> jm_set (node_id n) n (kg_nodes g))"
  by (simp add: load_entry_def Let_def split: log_entry.split option.split)

lemma load_entry_new: "load_entry (Log_add n) g = put_new n g"
  by (simp add: load_entry_def put_new_def)

lemma load_entry_again:
  assumes "graph_ok g" "jm_get (kg_nodes g) (node_id n) = Some old"
  shows "load_entry (Log_update n) g = put_again old n g"
proof -
  have "jm_has (kg_seq g) (node_id n)"
    using assms by (simp add: graph_ok_def nodes_ok_def jm_has_keys jm_keys_def jm_get_def)
      (metis domI dom_map_of_conv_image_fst)
  then show ?thesis
    using assms(2) by (simp add: load_entry_def put_again_def Let_def track_seq_def)
qed

text \<open>What an operation writes to the log.\<close>

definition entry_of :: "kg_op \<Rightarrow> kgraph \<Rightarrow> log_entry list" where
  "entry_of e g =
     (if \<not> legal e g then []
      else case e of
             Add_op n \<Rightarrow> [Log_add n]
           | Update_op i p \<Rightarrow> (case jm_get (kg_nodes g) i of None \<Rightarrow> [] | Some old \<Rightarrow> [Log_update (p old)])
           | _ \<Rightarrow> [])"

fun entries :: "(log_entry \<Rightarrow> string) \<Rightarrow> kg_op list \<Rightarrow> kgraph \<Rightarrow> log_entry list" where
  "entries print [] g = []"
| "entries print (e # es) g = entry_of e g @ entries print es (kg_step print e g)"

fun node_of_entry :: "log_entry \<Rightarrow> kg_node" where
  "node_of_entry (Log_add n) = n"
| "node_of_entry (Log_update n) = n"

fun is_update :: "log_entry \<Rightarrow> bool" where
  "is_update (Log_add n) = False"
| "is_update (Log_update n) = True"

definition entry_id :: "log_entry \<Rightarrow> string" where
  "entry_id e = node_id (node_of_entry e)"

text \<open>The writes about one node, and those that add a node.\<close>

abbreviation writes_to :: "string \<Rightarrow> log_entry list \<Rightarrow> log_entry list" where
  "writes_to i ls \<equiv> filter (\<lambda>e. entry_id e = i) ls"

abbreviation additions :: "log_entry list \<Rightarrow> log_entry list" where
  "additions ls \<equiv> filter (\<lambda>e. \<not> is_update e) ls"

text \<open>A node is added first and once, and updated afterwards.\<close>

fun add_then_updates :: "log_entry list \<Rightarrow> bool" where
  "add_then_updates [] = True"
| "add_then_updates (e # ls) = (\<not> is_update e \<and> list_all is_update ls)"

lemma add_then_snoc:
  "add_then_updates (ls @ [e]) = (if is_update e then ls \<noteq> [] \<and> add_then_updates ls else ls = [])"
  by (cases ls) auto

definition loadable :: "log_entry list \<Rightarrow> bool" where
  "loadable ls = (\<forall>i. add_then_updates (writes_to i ls))"

lemma loadable_snoc:
  "loadable (ls @ [e]) = (loadable ls \<and> (if is_update e then writes_to (entry_id e) ls \<noteq> [] else writes_to (entry_id e) ls = []))"
proof -
  have at: "add_then_updates (writes_to i (ls @ [e])) =
      (if i \<noteq> entry_id e then add_then_updates (writes_to i ls)
       else if is_update e then writes_to i ls \<noteq> [] \<and> add_then_updates (writes_to i ls)
       else writes_to i ls = [])" for i
    by (simp add: add_then_snoc)
  have empty: "writes_to i ls = [] \<Longrightarrow> add_then_updates (writes_to i ls)" for i by (erule ssubst) simp
  show ?thesis
  proof
    assume all: "loadable (ls @ [e])"
    then have here: "add_then_updates (writes_to i (ls @ [e]))" for i by (simp only: loadable_def)
    have "add_then_updates (writes_to i ls)" for i
      using here [of i] empty [of i] unfolding at by (simp only: split: if_splits)
    moreover from here [of "entry_id e"]
    have "if is_update e then writes_to (entry_id e) ls \<noteq> [] else writes_to (entry_id e) ls = []"
      unfolding at by (simp only: split: if_splits) simp_all
    ultimately show "loadable ls \<and> (if is_update e then writes_to (entry_id e) ls \<noteq> [] else writes_to (entry_id e) ls = [])"
      by (simp only: loadable_def simp_thms)
  next
    assume ls: "loadable ls \<and> (if is_update e then writes_to (entry_id e) ls \<noteq> [] else writes_to (entry_id e) ls = [])"
    then have "add_then_updates (writes_to i ls)" for i by (simp only: loadable_def)
    then show "loadable (ls @ [e])" using ls unfolding loadable_def at by (cases "is_update e") simp_all
  qed
qed

text \<open>Replaying loadable lines: each node is as the last line about it says, and the nodes come in the order of
  their additions.\<close>

lemma replay_result:
  assumes "loadable ls"
  shows "graph_ok (replay ls (empty_graph path)) \<and>
    (\<forall>i. jm_get (kg_nodes (replay ls (empty_graph path))) i =
       (if writes_to i ls = [] then None else Some (node_of_entry (last (writes_to i ls))))) \<and>
    jm_keys (kg_nodes (replay ls (empty_graph path))) = map entry_id (additions ls)"
  using assms
proof (induction ls rule: rev_induct)
  case Nil
  have "graph_ok (empty_graph path)" by (rule empty_graph_ok)
  then show ?case by (simp add: replay_def) (simp add: empty_graph_def)
next
  case (snoc e ls)
  let ?h = "replay ls (empty_graph path)"
  from snoc.prems have ls: "loadable ls" by (simp add: loadable_snoc)
  note IH = snoc.IH [OF ls]
  then have ok: "graph_ok ?h" by blast
  have at: "jm_get (kg_nodes ?h) i = (if writes_to i ls = [] then None else Some (node_of_entry (last (writes_to i ls))))" for i
    using IH by blast
  have keys: "jm_keys (kg_nodes ?h) = map entry_id (additions ls)" using IH by blast
  have more: "replay (ls @ [e]) (empty_graph path) = load_entry e ?h" by (simp add: replay_def)
  have nodes: "kg_nodes (load_entry e ?h) = jm_set (entry_id e) (node_of_entry e) (kg_nodes ?h)"
    by (cases e) (simp_all add: load_nodes entry_id_def)
  have has: "jm_has (kg_nodes ?h) (entry_id e) = is_update e"
    using snoc.prems at [of "entry_id e"] by (auto simp: loadable_snoc jm_has_def split: if_splits)
  have "graph_ok (load_entry e ?h)"
  proof (cases e)
    case (Log_add n)
    with has put_new_ok [OF ok, of n] show ?thesis by (simp add: load_entry_new entry_id_def)
  next
    case (Log_update n)
    with has obtain old where old: "jm_get (kg_nodes ?h) (node_id n) = Some old" by (auto simp: jm_has_def entry_id_def)
    with ok have "node_id old = node_id n" by (simp add: graph_ok_def nodes_ok_def)
    from put_again_ok [OF ok old this] Log_update show ?thesis by (simp add: load_entry_again [OF ok old])
  qed
  moreover have "jm_keys (kg_nodes (load_entry e ?h)) = map entry_id (additions (ls @ [e]))"
    using has keys by (cases "is_update e") (simp_all add: nodes jm_has_keys [symmetric])
  moreover have "jm_get (kg_nodes (load_entry e ?h)) i =
      (if writes_to i (ls @ [e]) = [] then None else Some (node_of_entry (last (writes_to i (ls @ [e])))))" for i
    by (simp add: nodes at)
  ultimately show ?case by (simp add: more)
qed

lemma same_nodes:
  assumes "jm_wf m" "jm_keys m = jm_keys m'" "\<And>i. jm_get m i = jm_get m' i"
  shows "m = m'"
proof -
  have all: "map (\<lambda>k. (k, the (jm_get xs k))) (jm_keys xs) = xs" if "jm_wf xs" for xs :: "('a, 'b) jsmap"
  proof -
    have "map (\<lambda>x. (fst x, the (jm_get xs (fst x)))) xs = xs"
    proof (rule map_idI)
      fix x assume "x \<in> set xs"
      then have "(fst x, snd x) \<in> set xs" by simp
      then have "jm_get xs (fst x) = Some (snd x)" using jm_get_eq [OF that] by blast
      then show "(fst x, the (jm_get xs (fst x))) = x" by simp
    qed
    then show ?thesis by (simp add: jm_keys_def comp_def)
  qed
  have "jm_wf m'" using assms(1,2) by (simp add: jm_wf_def)
  have "m = map (\<lambda>k. (k, the (jm_get m k))) (jm_keys m)" by (rule all [OF assms(1), symmetric])
  also have "\<dots> = map (\<lambda>k. (k, the (jm_get m' k))) (jm_keys m')" by (simp only: assms(2,3))
  also have "\<dots> = m'" by (rule all [OF \<open>jm_wf m'\<close>])
  finally show ?thesis .
qed

lemma replay_same:
  assumes "loadable ls" "\<And>i. writes_to i ks = writes_to i ls" "additions ks = additions ls"
  shows "loadable ks" "kg_nodes (replay ks (empty_graph path)) = kg_nodes (replay ls (empty_graph path))"
proof -
  show ks: "loadable ks" using assms(1,2) by (simp add: loadable_def)
  note a = replay_result [OF ks, of path] and b = replay_result [OF assms(1), of path]
  from a have "jm_wf (kg_nodes (replay ks (empty_graph path)))" by (simp add: graph_ok_def nodes_ok_def)
  then show "kg_nodes (replay ks (empty_graph path)) = kg_nodes (replay ls (empty_graph path))"
  proof (rule same_nodes)
    show "jm_keys (kg_nodes (replay ks (empty_graph path))) = jm_keys (kg_nodes (replay ls (empty_graph path)))"
      using a b assms(3) by simp
    fix i
    show "jm_get (kg_nodes (replay ks (empty_graph path))) i = jm_get (kg_nodes (replay ls (empty_graph path))) i"
      using a b assms(2) by simp
  qed
qed

text \<open>A write reaches the file in its turn when no write issued before it, and still pending, is about the same
  node, and no addition overtakes another.\<close>

definition in_turn :: "nat \<Rightarrow> log_entry list \<Rightarrow> bool" where
  "in_turn k ps =
     (k < length ps \<longrightarrow>
       list_all (\<lambda>e. entry_id e \<noteq> entry_id (ps ! k) \<and> (is_update e \<or> is_update (ps ! k))) (take k ps))"

fun lands_in_turn :: "kg_op \<Rightarrow> kgraph \<Rightarrow> bool" where
  "lands_in_turn (Land_op k) g = in_turn k (kg_pending g)"
| "lands_in_turn (Fail_op k) g = False"
| "lands_in_turn e g = True"

fun written_in_turn :: "(log_entry \<Rightarrow> string) \<Rightarrow> kg_op list \<Rightarrow> kgraph \<Rightarrow> bool" where
  "written_in_turn print [] g = True"
| "written_in_turn print (e # es) g = (lands_in_turn e g \<and> written_in_turn print es (kg_step print e g))"

text \<open>The invariant: \<open>issued\<close> are the writes of all operations so far, \<open>landed\<close> those in the file.\<close>

definition logged :: "(log_entry \<Rightarrow> string) \<Rightarrow> log_entry list \<Rightarrow> log_entry list \<Rightarrow> kgraph \<Rightarrow> bool" where
  "logged print issued landed g =
     (graph_ok g \<and> loadable issued \<and> kg_nodes g = kg_nodes (replay issued (empty_graph [])) \<and>
      kg_file g = log_text print landed \<and>
      (\<forall>i. writes_to i (landed @ kg_pending g) = writes_to i issued) \<and>
      additions (landed @ kg_pending g) = additions issued)"

lemma issue_logged:
  assumes "logged print issued landed g" "graph_ok g'" "kg_file g' = kg_file g" "kg_pending g' = kg_pending g @ [e]"
    "kg_nodes g' = jm_set (entry_id e) (node_of_entry e) (kg_nodes g)"
    "is_update e = jm_has (kg_nodes g) (entry_id e)"
  shows "logged print (issued @ [e]) landed g'"
proof -
  let ?h = "replay issued (empty_graph [])"
  have i: "loadable issued" and n: "kg_nodes g = kg_nodes ?h" using assms(1) by (simp_all add: logged_def)
  from replay_result [OF i, of "[]"]
  have "jm_has (kg_nodes ?h) (entry_id e) = (writes_to (entry_id e) issued \<noteq> [])" by (simp add: jm_has_def)
  with assms(6) n i have "loadable (issued @ [e])" by (simp add: loadable_snoc)
  moreover have "kg_nodes (replay (issued @ [e]) (empty_graph [])) = kg_nodes g'"
    using n assms(5) by (cases e) (simp_all add: replay_def load_nodes entry_id_def)
  ultimately show ?thesis using assms(1-4) unfolding logged_def by (simp flip: append_assoc)
qed

lemma move_past:
  assumes "list_all (\<lambda>x. \<not> (P x \<and> P e)) xs"
  shows "filter P (xs @ [e]) = filter P (e # xs)"
  using assms by (induction xs) auto

lemma without_split: "k < length xs \<Longrightarrow> xs = take k xs @ [xs ! k] @ drop (Suc k) xs"
  by (simp add: id_take_nth_drop)

lemma land_logged:
  assumes "logged print issued landed g" "k < length (kg_pending g)" "in_turn k (kg_pending g)"
  shows "logged print issued (landed @ [kg_pending g ! k]) (land_write print k g)"
proof -
  let ?p = "kg_pending g" and ?e = "kg_pending g ! k"
  have ok: "graph_ok (land_write print k g) = graph_ok g" by (rule graph_ok_cong) simp_all
  have fields: "kg_file (land_write print k g) = kg_file g @ print ?e @ [CHR 0x0A]"
    "kg_pending (land_write print k g) = without k ?p"
    using assms(2) by (simp_all add: land_write_def Let_def append_line_def split: log_entry.split)
  have same: "filter P (landed @ [?e] @ without k ?p) = filter P (landed @ ?p)"
    if "list_all (\<lambda>x. \<not> (P x \<and> P ?e)) (take k ?p)" for P
  proof -
    have "filter P (landed @ ?p) = filter P landed @ filter P (take k ?p @ [?e]) @ filter P (drop (Suc k) ?p)"
      using without_split [OF assms(2)] by (metis append_assoc filter_append)
    then show ?thesis unfolding move_past [OF that] by (simp add: without_def)
  qed
  have "writes_to i (landed @ [?e] @ without k ?p) = writes_to i (landed @ ?p)" for i
    by (rule same) (use assms(2,3) in \<open>auto simp: in_turn_def list_all_iff\<close>)
  moreover have "additions (landed @ [?e] @ without k ?p) = additions (landed @ ?p)"
    by (rule same) (use assms(2,3) in \<open>auto simp: in_turn_def list_all_iff\<close>)
  moreover have "kg_file (land_write print k g) = log_text print (landed @ [?e])"
    using assms(1) fields(1) by (simp add: logged_def log_text_def)
  ultimately show ?thesis
    using assms(1) ok fields(2) unfolding logged_def append_assoc by (simp only: land_fields simp_thms)
qed

text \<open>What an operation adds to the file.\<close>

definition landing_of :: "kg_op \<Rightarrow> kgraph \<Rightarrow> log_entry list" where
  "landing_of e g = (case e of Land_op k \<Rightarrow> if k < length (kg_pending g) then [kg_pending g ! k] else [] | _ \<Rightarrow> [])"

lemma kg_step_logged:
  assumes "logged print issued landed g" "lands_in_turn e g"
  shows "logged print (issued @ entry_of e g) (landed @ landing_of e g) (kg_step print e g)"
proof (cases "legal e g")
  case True
  have ok: "graph_ok g" using assms(1) by (simp add: logged_def)
  have ok': "graph_ok (kg_step print e g)" by (rule kg_step_ok [OF ok])
  show ?thesis
  proof (cases e)
    case (Add_op n)
    with True ok' have "graph_ok (add_node n g)" by (simp add: kg_step_def)
    from issue_logged [OF assms(1) this, of "Log_add n"] Add_op True show ?thesis
      by (simp add: kg_step_def entry_of_def landing_of_def legal_def entry_id_def add_node_def)
  next
    case (Update_op i p)
    show ?thesis
    proof (cases "jm_get (kg_nodes g) i")
      case None
      with assms(1) Update_op show ?thesis by (simp add: kg_step_def update_node_def entry_of_def landing_of_def)
    next
      case (Some old)
      have i: "node_id old = i" using ok Some by (simp add: graph_ok_def nodes_ok_def)
      with True Some Update_op have n: "node_id (p old) = i" by (simp add: legal_def)
      from ok' Update_op True have "graph_ok (update_node i p g)" by (simp add: kg_step_def)
      from issue_logged [OF assms(1) this, of "Log_update (p old)"] Update_op True Some show ?thesis
        by (simp add: kg_step_def entry_of_def landing_of_def entry_id_def update_node_def Let_def n jm_has_def)
    qed
  next
    case (Land_op k)
    show ?thesis
    proof (cases "k < length (kg_pending g)")
      case True
      with land_logged [OF assms(1) True] assms(2) Land_op \<open>legal e g\<close> show ?thesis
        by (simp add: kg_step_def entry_of_def landing_of_def)
    next
      case False
      with assms(1) Land_op \<open>legal e g\<close> show ?thesis
        by (simp add: kg_step_def entry_of_def landing_of_def land_write_def)
    qed
  next
    case (Poll_op ch)
    with assms(1) True ok' show ?thesis
      by (auto simp: kg_step_def entry_of_def landing_of_def logged_def poll_def split: option.splits)
  qed (use assms True ok' in \<open>simp_all add: kg_step_def entry_of_def landing_of_def logged_def subscribe_def unsubscribe_def\<close>)
qed (use assms in \<open>simp add: kg_step_def entry_of_def landing_of_def legal_def split: kg_op.splits\<close>)

lemma run_logged:
  "logged print issued landed g \<Longrightarrow> written_in_turn print es g \<Longrightarrow>
     \<exists>ls. logged print (issued @ entries print es g) ls (fold (kg_step print) es g)"
proof (induction es arbitrary: issued landed g)
  case (Cons e es)
  from Cons.prems(2) have "lands_in_turn e g" "written_in_turn print es (kg_step print e g)" by simp_all
  from Cons.IH [OF kg_step_logged [OF Cons.prems(1) this(1)] this(2)] show ?case by simp
qed auto

lemma file_of_empty: "kg_file (empty_graph path) = path"
  by (simp add: empty_graph_def)

text \<open>A line that is written can be read.\<close>

definition readable :: "(log_entry \<Rightarrow> string) \<Rightarrow> (string \<Rightarrow> log_entry option) \<Rightarrow> log_entry \<Rightarrow> bool" where
  "readable print parse e = (parse (print e) = Some e \<and> CHR 0x0A \<notin> set (print e) \<and> print e \<noteq> [])"

lemma split_log:
  "list_all (readable print parse) ls \<Longrightarrow> js_split CHR 0x0A (log_text print ls) = map print ls @ [[]]"
  by (induction ls) (simp_all add: log_text_def readable_def js_split_at js_split_single)

lemma load_log:
  assumes "list_all (readable print parse) ls" "kg_file g = log_text print ls"
  shows "load_graph parse (empty_graph (kg_file g)) = replay ls (empty_graph (kg_file g))"
proof -
  have "fold (load_line parse) (filter (\<lambda>l. l \<noteq> []) (map print ks)) h = replay ks h"
    if "list_all (readable print parse) ks" for ks h
    using that by (induction ks arbitrary: h) (simp_all add: replay_def load_line_def readable_def)
  then show ?thesis
    unfolding load_graph_def file_of_empty by (simp add: assms(2) split_log [OF assms(1)] assms(1))
qed

lemma replay_path: "kg_nodes (replay ls (empty_graph p)) = kg_nodes (replay ls (empty_graph q))"
proof -
  have "kg_nodes (replay ls g) = kg_nodes (replay ls h)" if "kg_nodes g = kg_nodes h" for g h
    using that by (induction ls arbitrary: g h) (simp_all add: replay_def load_nodes split: log_entry.split)
  then show ?thesis by (simp add: empty_graph_def)
qed

text \<open>C8. When no write fails, all have reached the file, and they reached it in turn (those about one node in
  the order in which they were issued, and the additions among each other, whatever else overtakes), then the
  log holds the whole graph: a fresh graph that loads the file holds the same nodes in the same order and answers
  every query as the graph that has written it. The lines have to be readable: parsing gives back what was
  printed, and no line is empty or contains a line break.\<close>

theorem log_rebuilds_graph:
  assumes "list_all (readable print parse) (entries print es (empty_graph []))"
    and "written_in_turn print es (empty_graph [])"
    and "kg_pending (fold (kg_step print) es (empty_graph [])) = []"
  shows "let g = fold (kg_step print) es (empty_graph []);
             h = load_graph parse (empty_graph (kg_file g))
         in kg_nodes h = kg_nodes g \<and> get_all h f = get_all g f"
proof -
  let ?g = "fold (kg_step print) es (empty_graph [])" and ?is = "entries print es (empty_graph [])"
  have "logged print [] [] (empty_graph [])"
    by (simp add: logged_def empty_graph_ok loadable_def replay_def log_text_def file_of_empty) (simp add: empty_graph_def)
  from run_logged [OF this assms(2)] obtain ls where "logged print ?is ls ?g" by auto
  then have g: "graph_ok ?g" "loadable ?is" "kg_nodes ?g = kg_nodes (replay ?is (empty_graph []))"
    "kg_file ?g = log_text print ls" "writes_to i ls = writes_to i ?is" "additions ls = additions ?is" for i
    using assms(3) by (auto simp: logged_def)
  note same = replay_same [OF g(2,5,6)]
  have "set ls \<subseteq> set ?is" using g(5) by (metis (mono_tags, lifting) mem_Collect_eq set_filter subsetI)
  with assms(1) have "list_all (readable print parse) ls" by (auto simp: list_all_iff)
  note load = load_log [OF this g(4)]
  have "kg_nodes (replay ls (empty_graph (kg_file ?g))) = kg_nodes ?g"
    using same(2) [of "[]"] g(3) replay_path [of ls "[]"] by simp
  moreover have "graph_ok (replay ls (empty_graph (kg_file ?g)))" using replay_result [OF same(1)] by blast
  ultimately show ?thesis using g(1) by (simp add: Let_def load get_all_scan)
qed

definition demo_goal :: kg_node where
  "demo_goal = Goal \<lparr>gn_id = ''1'', gn_title = ''t'', gn_description = ''d'', gn_status = Goal_pending, gn_priority = ''low'',
     gn_assignee = None, gn_blocked_by = [], gn_depends_on = [], gn_tags = [], gn_children = [], gn_parent = None,
     gn_result = None\<rparr>"

definition demo_decision :: kg_node where
  "demo_decision = Decision \<lparr>dn_id = ''2'', dn_question = ''q'', dn_chosen = ''c'', dn_by = ''a''\<rparr>"

text \<open>Two nodes are added, the first is updated before its addition is in the file, and the update overtakes the
  second addition.\<close>

theorem log_rebuilds_graph_witness:
  "let print = (\<lambda>e. if e = Log_add demo_goal then ''1'' else if e = Log_add demo_decision then ''2'' else ''3'');
       parse = (\<lambda>s. if s = ''1'' then Some (Log_add demo_goal) else if s = ''2'' then Some (Log_add demo_decision)
                    else if s = ''3'' then Some (Log_update demo_goal) else None);
       g = fold (kg_step print)
             [Add_op demo_goal, Add_op demo_decision, Update_op ''1'' id, Land_op 0, Land_op 1, Land_op 0] (empty_graph [])
   in kg_nodes (load_graph parse (empty_graph (kg_file g))) = kg_nodes g"
proof -
  let ?print = "\<lambda>e. if e = Log_add demo_goal then ''1'' else if e = Log_add demo_decision then ''2'' else ''3''"
  let ?parse = "\<lambda>s. if s = ''1'' then Some (Log_add demo_goal) else if s = ''2'' then Some (Log_add demo_decision)
                    else if s = ''3'' then Some (Log_update demo_goal) else None"
  let ?es = "[Add_op demo_goal, Add_op demo_decision, Update_op ''1'' id, Land_op 0, Land_op 1, Land_op 0]"
  have lines: "list_all (readable ?print ?parse) (entries ?print ?es (empty_graph []))" by code_simp
  have turns: "written_in_turn ?print ?es (empty_graph [])" by code_simp
  have empty: "kg_pending (fold (kg_step ?print) ?es (empty_graph [])) = []" by code_simp
  show ?thesis unfolding Let_def by (rule conjunct1 [OF log_rebuilds_graph [OF lines turns empty, unfolded Let_def]])
qed

text \<open>In the other order the log holds another graph: two updates of a node are under way, the second gets the
  lock first, and a graph that loads the file holds the node as it was before the second.\<close>

theorem overtaken_update_undone:
  assumes "node_id (p n) = node_id n" "node_id (q (p n)) = node_id n"
    and "list_all (readable print parse) [Log_add n, Log_update (p n), Log_update (q (p n))]"
  shows "let g = fold (kg_step print)
               [Add_op n, Land_op 0, Update_op (node_id n) p, Update_op (node_id n) q, Land_op 1, Land_op 0] (empty_graph [])
         in kg_pending g = [] \<and> get_node g (node_id n) = Some (q (p n)) \<and>
            get_node (load_graph parse (empty_graph (kg_file g))) (node_id n) = Some (p n)"
proof -
  let ?es = "[Add_op n, Land_op 0, Update_op (node_id n) p, Update_op (node_id n) q, Land_op 1, Land_op 0]"
  let ?g = "fold (kg_step print) ?es (empty_graph [])"
  have g: "kg_pending ?g = [] \<and> get_node ?g (node_id n) = Some (q (p n)) \<and>
      kg_file ?g = log_text print [Log_add n, Log_update (q (p n)), Log_update (p n)]"
    using assms(1,2)
    by (simp add: kg_step_def legal_def empty_graph_def jm_has_def get_node_def add_node_def update_node_def Let_def
        land_write_def without_def append_line_def log_text_def track_seq_def queue_write_def jm_get_Cons)
  have "load_graph parse (empty_graph (kg_file ?g)) =
      replay [Log_add n, Log_update (q (p n)), Log_update (p n)] (empty_graph (kg_file ?g))"
    by (rule load_log) (use assms(3) g in simp_all)
  with g assms(1,2) show ?thesis
    unfolding Let_def by (simp add: get_node_def replay_def load_nodes)
qed

text \<open>And a subscriber that is told of an addition and of an update made meanwhile gets the older node last.\<close>

theorem addition_announced_after_update:
  assumes "node_id (p n) = node_id n" "matches_filter n f" "matches_filter (p n) f"
  shows "fst (poll ch (fold (kg_step print)
     [Subscribe_op ch f, Add_op n, Update_op (node_id n) p, Land_op 0, Announce_op 0] (empty_graph []))) = [p n, n]"
proof -
  let ?g = "fold (kg_step print) [Subscribe_op ch f, Add_op n, Update_op (node_id n) p, Land_op 0] (empty_graph [])"
  have "kg_landed ?g = [n] \<and> kg_subs ?g = [(ch, f)] \<and> jm_get (kg_deliveries ?g) ch = Some [p n]"
    using assms
    by (simp add: kg_step_def legal_def empty_graph_def jm_has_def add_node_def update_node_def Let_def subscribe_def
        land_write_def deliver_def append_line_def track_seq_def queue_write_def jm_set_new jm_get_Cons
        add_to_index_def remove_from_index_def)
  then show ?thesis
    using assms by (simp add: kg_step_def legal_def announce_def deliver_def poll_def)
qed

section \<open>Channels\<close>

definition channels_ok :: "kgraph \<Rightarrow> bool" where
  "channels_ok g = (jm_wf (kg_subs g) \<and> (\<forall>ch. jm_has (kg_subs g) ch \<longrightarrow> jm_has (kg_deliveries g) ch))"

definition inbox :: "kgraph \<Rightarrow> string \<Rightarrow> kg_node list" where
  "inbox g ch = (case jm_get (kg_deliveries g) ch of None \<Rightarrow> [] | Some ns \<Rightarrow> ns)"

lemma deliver_get:
  assumes "jm_wf (kg_subs g)"
  shows "jm_get (kg_deliveries (deliver n g)) ch =
    map_option (\<lambda>ns. ns @ (case jm_get (kg_subs g) ch of None \<Rightarrow> [] | Some f \<Rightarrow> if matches_filter n f then [n] else []))
      (jm_get (kg_deliveries g) ch)"
proof -
  let ?d = "\<lambda>(ch, f) g. if matches_filter n f then g\<lparr>kg_deliveries := jm_update ch (\<lambda>ns. ns @ [n]) (kg_deliveries g)\<rparr> else g"
  have "jm_get (kg_deliveries (fold ?d ss h)) ch =
      map_option (\<lambda>ns. ns @ (case jm_get ss ch of None \<Rightarrow> [] | Some f \<Rightarrow> if matches_filter n f then [n] else []))
        (jm_get (kg_deliveries h) ch)" if "jm_wf ss" for ss h
    using that
  proof (induction ss arbitrary: h)
    case Nil
    then show ?case by (simp add: option.map_ident)
  next
    case (Cons s ss)
    obtain c f where s: "s = (c, f)" by (cases s)
    have wf: "jm_wf ss" "c \<notin> set (jm_keys ss)" using Cons.prems by (simp_all add: s jm_wf_def jm_keys_def)
    then have none: "jm_get ss c = None" by (simp add: jm_get_None)
    show ?case
      using Cons.IH [OF wf(1)] none
      by (cases "ch = c") (simp_all add: s jm_get_Cons option.map_comp comp_def option.map_ident)
  qed
  from this [OF assms, of g] show ?thesis by (simp only: deliver_def)
qed

lemma get_isSome_map: "jm_has m k = (\<exists>v. jm_get m k = Some v)"
  by (auto simp: jm_has_def)

lemma deliver_channels: "channels_ok g \<Longrightarrow> channels_ok (deliver n g)"
  by (auto simp: channels_ok_def get_isSome_map deliver_get)

lemma kg_step_channels: "channels_ok g \<Longrightarrow> channels_ok (kg_step print e g)"
proof -
  assume g: "channels_ok g"
  have same: "channels_ok h" if "kg_subs h = kg_subs g" "kg_deliveries h = kg_deliveries g" for h
    using g that by (simp add: channels_ok_def)
  have again: "channels_ok h" if "channels_ok k" "kg_subs h = kg_subs k" "kg_deliveries h = kg_deliveries k" for h k
    using that by (simp add: channels_ok_def)
  show ?thesis
  proof (cases e)
    case (Add_op n)
    have "channels_ok (add_node n g)" unfolding add_node_def by (rule same) simp_all
    with g Add_op show ?thesis by (simp add: kg_step_def)
  next
    case (Update_op i p)
    show ?thesis
    proof (cases "jm_get (kg_nodes g) i")
      case (Some old)
      have "channels_ok (update_node i p g)"
        unfolding update_node_def Some Let_def option.case
        by (rule again [OF deliver_channels]) (rule same, simp_all)
      with g Update_op show ?thesis by (simp add: kg_step_def)
    qed (use g Update_op in \<open>simp add: kg_step_def update_node_def\<close>)
  next
    case (Land_op k)
    have "channels_ok (land_write print k g)" by (rule same) simp_all
    with g Land_op show ?thesis by (simp add: kg_step_def)
  next
    case (Fail_op k)
    have "channels_ok (fail_write k g)" by (rule same) simp_all
    with g Fail_op show ?thesis by (simp add: kg_step_def)
  next
    case (Announce_op k)
    have "channels_ok (announce k g)"
      unfolding announce_def using g by (auto intro!: deliver_channels same)
    with g Announce_op show ?thesis by (simp add: kg_step_def)
  qed (use g in \<open>auto simp: kg_step_def channels_ok_def subscribe_def poll_def unsubscribe_def split: option.splits\<close>)
qed

interpretation channels: state_contract "kg_step print" channels_ok for print
  by unfold_locales (rule kg_step_channels)

definition touches :: "string \<Rightarrow> kg_op \<Rightarrow> bool" where
  "touches ch e = (e = Poll_op ch \<or> e = Unsubscribe_op ch \<or> (\<exists>f. e = Subscribe_op ch f))"

text \<open>What an operation tells the subscribers: an update at once, an addition once it is in the file.\<close>

definition news_of :: "kg_op \<Rightarrow> kgraph \<Rightarrow> kg_node list" where
  "news_of e g =
     (if \<not> legal e g then []
      else case e of
             Update_op i p \<Rightarrow> (case jm_get (kg_nodes g) i of None \<Rightarrow> [] | Some old \<Rightarrow> [p old])
           | Announce_op k \<Rightarrow> if k < length (kg_landed g) then [kg_landed g ! k] else []
           | _ \<Rightarrow> [])"

fun news :: "(log_entry \<Rightarrow> string) \<Rightarrow> kg_op list \<Rightarrow> kgraph \<Rightarrow> kg_node list" where
  "news print [] g = []"
| "news print (e # es) g = news_of e g @ news print es (kg_step print e g)"

lemma update_deliveries:
  assumes "channels_ok g" "jm_get (kg_subs g) ch = Some f" "\<not> touches ch e"
  shows "inbox (kg_step print e g) ch = inbox g ch @ filter (\<lambda>n. matches_filter n f) (news_of e g) \<and>
    jm_get (kg_subs (kg_step print e g)) ch = Some f"
proof (cases "legal e g")
  case True
  have wf: "jm_wf (kg_subs g)" and has: "jm_has (kg_deliveries g) ch"
    using assms(1,2) by (simp_all add: channels_ok_def jm_has_def)
  have inbox_deliver: "inbox (deliver n h) ch = inbox h ch @ filter (\<lambda>n. matches_filter n f) [n]"
    if "kg_subs h = kg_subs g" "kg_deliveries h = kg_deliveries g" for h n
    using deliver_get [of h n ch] that wf has assms(2) by (auto simp: inbox_def jm_has_def)
  have inbox_eq: "inbox h ch = inbox k ch" if "kg_deliveries h = kg_deliveries k" for h k
    using that by (simp add: inbox_def)
  show ?thesis
  proof (cases e)
    case (Add_op n)
    have "inbox (add_node n g) ch = inbox g ch" unfolding add_node_def by (rule inbox_eq) simp
    with Add_op True assms(2) show ?thesis by (simp add: kg_step_def news_of_def add_node_def)
  next
    case (Update_op i p)
    show ?thesis
    proof (cases "jm_get (kg_nodes g) i")
      case (Some old)
      let ?h = "add_to_index (p old) ((remove_from_index old g)\<lparr>kg_nodes := jm_set i (p old) (kg_nodes g)\<rparr>)"
      have u: "update_node i p g = queue_write (Log_update (p old)) (deliver (p old) ?h)"
        by (simp add: update_node_def Some Let_def)
      have "inbox (update_node i p g) ch = inbox (deliver (p old) ?h) ch"
        unfolding u by (rule inbox_eq) simp
      also have "\<dots> = inbox ?h ch @ filter (\<lambda>n. matches_filter n f) [p old]" by (rule inbox_deliver) simp_all
      also have "inbox ?h ch = inbox g ch" by (rule inbox_eq) simp
      finally show ?thesis
        using Update_op True Some assms(2) by (simp add: kg_step_def news_of_def u)
    qed (use Update_op assms(2) in \<open>simp add: kg_step_def news_of_def update_node_def\<close>)
  next
    case (Announce_op k)
    let ?h = "g\<lparr>kg_landed := without k (kg_landed g)\<rparr>"
    have "inbox (deliver n ?h) ch = inbox g ch @ filter (\<lambda>n. matches_filter n f) [n]" for n
      using inbox_deliver [of ?h n] inbox_eq [of ?h g] by simp
    with Announce_op True assms(2) show ?thesis by (simp add: kg_step_def news_of_def announce_def)
  next
    case (Land_op k)
    have "inbox (land_write print k g) ch = inbox g ch" by (rule inbox_eq) simp
    with Land_op True assms(2) show ?thesis by (simp add: kg_step_def news_of_def)
  next
    case (Fail_op k)
    have "inbox (fail_write k g) ch = inbox g ch" by (rule inbox_eq) simp
    with Fail_op True assms(2) show ?thesis by (simp add: kg_step_def news_of_def)
  qed (use True assms(2,3) in \<open>auto simp: kg_step_def news_of_def touches_def inbox_def subscribe_def poll_def
        unsubscribe_def split: option.splits\<close>)
qed (use assms in \<open>simp add: kg_step_def news_of_def\<close>)

lemma run_inbox:
  "channels_ok g \<Longrightarrow> jm_get (kg_subs g) ch = Some f \<Longrightarrow> list_all (\<lambda>e. \<not> touches ch e) es \<Longrightarrow>
     inbox (fold (kg_step print) es g) ch = inbox g ch @ filter (\<lambda>n. matches_filter n f) (news print es g)"
proof (induction es arbitrary: g)
  case (Cons e es)
  from Cons.prems have "\<not> touches ch e" by simp
  note step = update_deliveries [OF Cons.prems(1,2) this, of print]
  from Cons.IH [OF kg_step_channels [OF Cons.prems(1)], of print e] step Cons.prems(3) show ?case by simp
qed simp

text \<open>A channel loses nothing and repeats nothing: what a poll returns are the nodes that were updated, or whose
  addition was announced, since the subscription (or, by the same count, since the last poll) and match its
  filter, in that order.\<close>

theorem channel_exact:
  assumes "list_all (\<lambda>e. \<not> touches ch e) es"
  shows "let g = subscribe ch f (fold (kg_step print) before (empty_graph file))
    in fst (poll ch (fold (kg_step print) es g)) = filter (\<lambda>n. matches_filter n f) (news print es g)"
proof -
  let ?b = "fold (kg_step print) before (empty_graph file)"
  have "channels_ok ?b" by (rule channels.run_good) (simp add: channels_ok_def empty_graph_def jm_has_def)
  then have ok: "channels_ok (subscribe ch f ?b)" by (auto simp: channels_ok_def subscribe_def)
  have sub: "jm_get (kg_subs (subscribe ch f ?b)) ch = Some f" "inbox (subscribe ch f ?b) ch = []"
    by (simp_all add: subscribe_def inbox_def)
  have "fst (poll ch h) = inbox h ch" for h by (simp add: poll_def inbox_def split: option.split)
  with run_inbox [OF ok sub(1) assms, of print] sub(2) show ?thesis by (simp add: Let_def)
qed

theorem channel_exact_witness:
  "fst (poll ''c'' (fold (kg_step (\<lambda>_. ''x'')) [Add_op demo_goal, Land_op 0, Announce_op 0]
     (subscribe ''c'' any_node (empty_graph [])))) = [demo_goal]"
proof -
  let ?es = "[Add_op demo_goal, Land_op 0, Announce_op 0]" and ?g = "subscribe ''c'' any_node (empty_graph [])"
  have news: "news (\<lambda>_. ''x'') ?es ?g = [demo_goal]" by code_simp
  have all: "matches_filter demo_goal any_node" by code_simp
  have "list_all (\<lambda>e. \<not> touches ''c'' e) ?es" by (simp add: touches_def)
  from channel_exact [OF this, of any_node "\<lambda>_. ''x''" "[]" "[]"]
  have "fst (poll ''c'' (fold (kg_step (\<lambda>_. ''x'')) ?es ?g)) = filter (\<lambda>n. matches_filter n any_node) (news (\<lambda>_. ''x'') ?es ?g)"
    by (simp only: Let_def fold_simps)
  then show ?thesis unfolding news by (simp only: filter.simps all if_True)
qed

end
