(* ===== verification/Critical_Path.thy ===== *)
theory Critical_Path
  imports Task_Tracker
begin

text \<open>
  The analysis of a task graph, \<open>packages/core/src/sdd/critical-path.ts\<close>, with \<open>topologicalSort\<close> of
  \<open>packages/core/src/types/task-graph.ts\<close>: the order of execution, ready and blocked tasks, bottlenecks, the
  longest path and the groups of tasks that can run side by side.

  Here a \<open>depends_on\<close> edge is read from the task that waits to the task it waits for. Identifiers are not empty.
\<close>

section \<open>The topological order\<close>

definition edge_targets :: "graph \<Rightarrow> string \<Rightarrow> string list" where
  "edge_targets g i = map ed_to (filter (\<lambda>e. ed_from e = i) (g_edges g))"

text \<open>The recursion of \<open>visit\<close>, over the list of nodes still to be visited at one level, with the visited nodes and
  the result. The set of nodes on the stack is part of the visited ones and decides nothing of its own.\<close>

function topo_visit :: "graph \<Rightarrow> string list \<Rightarrow> string list \<times> string list \<Rightarrow> string list \<times> string list" where
  "topo_visit g [] vr = vr"
| "topo_visit g (i # is) (visited, res) =
     (if i \<in> set visited \<or> \<not> jm_has (g_nodes g) i then topo_visit g is (visited, res)
      else case topo_visit g (edge_targets g i) (i # visited, res) of
             (v, r) \<Rightarrow> topo_visit g is (v, r @ [i]))"
  by pat_completeness auto

lemma topo_visit_grows: "topo_visit_dom (g, is, vr) \<Longrightarrow> set (fst vr) \<subseteq> set (fst (topo_visit g is vr))"
proof (induction g "is" vr rule: topo_visit.pinduct)
  case (2 g i "is" visited res)
  show ?case
  proof (cases "i \<in> set visited \<or> \<not> jm_has (g_nodes g) i")
    case True
    then show ?thesis using 2(1) 2(2) [OF True] by (simp add: topo_visit.psimps)
  next
    case False
    obtain v r where r: "topo_visit g (edge_targets g i) (i # visited, res) = (v, r)" by fastforce
    have "set visited \<subseteq> set v" using 2(3) [OF False] by (simp add: r)
    also have "\<dots> \<subseteq> set (fst (topo_visit g is (v, r @ [i])))" using 2(4) [OF False r [symmetric]] by simp
    finally show ?thesis using 2(1) False r by (simp add: topo_visit.psimps)
  qed
qed (simp add: topo_visit.psimps)

termination topo_visit
proof (relation "inv_image (finite_psubset <*lex*> less_than)
    (\<lambda>(g, is, vr). (set (jm_keys (g_nodes g)) - set (fst vr), length is))", goal_cases)
  case (4 g i "is" visited res v r)
  then have "insert i (set visited) \<subseteq> set v"
    using topo_visit_grows [of g "edge_targets g i" "(i # visited, res)"] by (metis fst_conv list.simps(15))
  with 4 show ?case by (auto simp: finite_psubset_def jm_has_keys)
next
  case 1
  show ?case by (intro wf_inv_image wf_lex_prod wf_finite_psubset wf_less_than)
qed (auto simp: finite_psubset_def jm_has_keys)

definition topological_sort :: "graph \<Rightarrow> string list" where
  "topological_sort g = snd (topo_visit g (g_roots g) ([], []))"

section \<open>Blockers\<close>

definition set_at :: "(string, string list) jsmap \<Rightarrow> string \<Rightarrow> string list" where
  "set_at m i = (case jm_get m i of None \<Rightarrow> [] | Some s \<Rightarrow> s)"

definition add_at :: "string \<Rightarrow> string \<Rightarrow> (string, string list) jsmap \<Rightarrow> (string, string list) jsmap" where
  "add_at i j m = jm_set i (js_add j (set_at m i)) m"

definition blocked_by_map :: "edge list \<Rightarrow> (string, string list) jsmap" where
  "blocked_by_map es = fold (\<lambda>e. add_at (ed_from e) (ed_to e)) (filter (\<lambda>e. ed_type e = EDependsOn) es) []"

definition blocks_map :: "edge list \<Rightarrow> (string, string list) jsmap" where
  "blocks_map es = fold (\<lambda>e. add_at (ed_to e) (ed_from e)) (filter (\<lambda>e. ed_type e = EDependsOn) es) []"

definition is_completed :: "graph \<Rightarrow> string \<Rightarrow> bool" where
  "is_completed g i = (case jm_get (g_nodes g) i of None \<Rightarrow> False | Some n \<Rightarrow> tn_status n = TCompleted)"

definition open_tasks :: "graph \<Rightarrow> task list" where
  "open_tasks g = filter (\<lambda>n. tn_status n \<noteq> TCompleted) (jm_values (g_nodes g))"

definition blockers_completed :: "graph \<Rightarrow> task \<Rightarrow> bool" where
  "blockers_completed g n = list_all (is_completed g) (set_at (blocked_by_map (g_edges g)) (tn_id n))"

definition ready_list :: "graph \<Rightarrow> string list" where
  "ready_list g = map tn_id (filter (blockers_completed g) (open_tasks g))"

definition blocked_list :: "graph \<Rightarrow> string list" where
  "blocked_list g = map tn_id (filter (\<lambda>n. \<not> blockers_completed g n) (open_tasks g))"

section \<open>Bottlenecks\<close>

function blocked_search ::
  "(string, string list) jsmap \<Rightarrow> string \<Rightarrow> string list \<Rightarrow> string list \<Rightarrow> string list" where
  "blocked_search m t visited [] = visited"
| "blocked_search m t visited (c # queue) =
     (let new = filter (\<lambda>i. i \<notin> set visited \<and> i \<noteq> t) (set_at m c)
      in blocked_search m t (visited @ new) (queue @ new))"
  by pat_completeness auto

lemma set_at_in: "i \<in> set (set_at m c) \<Longrightarrow> i \<in> \<Union> (set ` snd ` set m)"
  by (cases "jm_get m c") (force simp: set_at_def jm_get_def dest: map_of_SomeD)+

termination blocked_search
proof (relation "inv_image (finite_psubset <*lex*> less_than)
    (\<lambda>(m, t, visited, queue). (\<Union> (set ` snd ` set m) - set visited, length queue))", goal_cases)
  case (2 m t visited c queue new)
  show ?case
  proof (cases new)
    case (Cons i js)
    have "set new = {i \<in> set (set_at m c). i \<notin> set visited \<and> i \<noteq> t}" by (auto simp: 2)
    with Cons have i: "i \<notin> set visited" "i \<in> set (set_at m c)" "i \<in> set new" by auto
    then have "\<Union> (set ` snd ` set m) - set (visited @ new) \<subset> \<Union> (set ` snd ` set m) - set visited"
      using set_at_in [of i m c] by auto
    then show ?thesis by (simp add: finite_psubset_def)
  qed simp
qed (intro wf_inv_image wf_lex_prod wf_finite_psubset wf_less_than)

declare blocked_search.simps(2) [simp del]

definition transitive_blocked :: "string \<Rightarrow> (string, string list) jsmap \<Rightarrow> string list" where
  "transitive_blocked t m = blocked_search m t [] [t]"

record bottleneck =
  bn_task :: string
  bn_title :: string
  bn_count :: nat
  bn_hours :: rat
  bn_severity :: int

definition hours_of :: "graph \<Rightarrow> string \<Rightarrow> rat" where
  "hours_of g i = (case jm_get (g_nodes g) i of None \<Rightarrow> 0 | Some n \<Rightarrow> or_else (tn_estimate n) 0)"

definition bottleneck_of :: "graph \<Rightarrow> task \<Rightarrow> bottleneck" where
  "bottleneck_of g n =
     (let down = transitive_blocked (tn_id n) (blocks_map (g_edges g))
      in \<lparr>bn_task = tn_id n, bn_title = tn_title n, bn_count = length down,
          bn_hours = sum_list (map (hours_of g) down),
          bn_severity = min 100 (js_round (of_nat (length down) / of_nat (length (g_nodes g)) * 100))\<rparr>)"

definition bottlenecks :: "graph \<Rightarrow> bottleneck list" where
  "bottlenecks g =
     sort_key (\<lambda>b. - bn_severity b) (filter (\<lambda>b. 0 < bn_count b) (map (bottleneck_of g) (open_tasks g)))"

section \<open>The longest path\<close>

text \<open>A task without an estimate counts one hour here and none in the total.\<close>

definition weight :: "graph \<Rightarrow> string \<Rightarrow> rat" where
  "weight g i = (case jm_get (g_nodes g) i of None \<Rightarrow> 1 | Some n \<Rightarrow> or_else (tn_estimate n) 1)"

definition reverse_map :: "(string, string list) jsmap \<Rightarrow> (string, string list) jsmap" where
  "reverse_map m = fold (\<lambda>(t, bs). fold (\<lambda>b. add_at b t) bs) m []"

definition dist_at :: "(string, rat) jsmap \<Rightarrow> string \<Rightarrow> rat" where
  "dist_at d i = (case jm_get d i of None \<Rightarrow> 0 | Some x \<Rightarrow> x)"

record relaxation =
  rx_dist :: "(string, rat) jsmap"
  rx_prev :: "(string, string) jsmap"
  rx_changed :: bool

definition relax :: "graph \<Rightarrow> string \<Rightarrow> string \<Rightarrow> relaxation \<Rightarrow> relaxation" where
  "relax g i j x =
     (let candidate = dist_at (rx_dist x) i + weight g j
      in if dist_at (rx_dist x) j < candidate
         then \<lparr>rx_dist = jm_set j candidate (rx_dist x), rx_prev = jm_set j i (rx_prev x), rx_changed = True\<rparr>
         else x)"

definition relax_round :: "graph \<Rightarrow> (string, string list) jsmap \<Rightarrow> relaxation \<Rightarrow> relaxation" where
  "relax_round g m x = fold (\<lambda>i. fold (relax g i) (set_at m i)) (jm_keys (g_nodes g)) (x\<lparr>rx_changed := False\<rparr>)"

primrec relax_rounds :: "nat \<Rightarrow> graph \<Rightarrow> (string, string list) jsmap \<Rightarrow> relaxation \<Rightarrow> relaxation" where
  "relax_rounds 0 g m x = x"
| "relax_rounds (Suc n) g m x =
     (let y = relax_round g m x in if rx_changed y then relax_rounds n g m y else y)"

definition start_relaxation :: "graph \<Rightarrow> relaxation" where
  "start_relaxation g =
     \<lparr>rx_dist = fold (\<lambda>i. jm_set i (weight g i)) (jm_keys (g_nodes g)) [], rx_prev = [], rx_changed = False\<rparr>"

definition farthest :: "string list \<Rightarrow> (string, rat) jsmap \<Rightarrow> string" where
  "farthest ids d =
     snd (fold (\<lambda>i (best, far). if best < dist_at d i then (dist_at d i, i) else (best, far)) ids (0, hd ids))"

function trace_back :: "(string, string) jsmap \<Rightarrow> string \<Rightarrow> string list \<Rightarrow> string list" where
  "trace_back p i path =
     (if i \<in> set path then path
      else case jm_get p i of None \<Rightarrow> i # path | Some j \<Rightarrow> trace_back p j (i # path))"
  by pat_completeness auto

termination trace_back
proof (relation "measure (\<lambda>(p, i, path). card (set (jm_keys p) - set path))", goal_cases)
  case (2 p i path j)
  then have "i \<in> set (jm_keys p)" by (metis jm_get_None option.distinct(1))
  with 2 have "set (jm_keys p) - set (i # path) \<subset> set (jm_keys p) - set path" by auto
  then show ?case by (simp add: psubset_card_mono)
qed simp

declare trace_back.simps [simp del]

definition compute_critical_path :: "graph \<Rightarrow> (string, string list) jsmap \<Rightarrow> string list" where
  "compute_critical_path g blocked_by =
     (let ids = jm_keys (g_nodes g)
      in if ids = [] then []
         else let x = relax_rounds (length ids - 1) g (reverse_map blocked_by) (start_relaxation g)
              in trace_back (rx_prev x) (farthest ids (rx_dist x)) [])"

section \<open>Groups that run side by side\<close>

function level_groups :: "(string, string list) jsmap \<Rightarrow> string list \<Rightarrow> string list \<Rightarrow> string list list" where
  "level_groups m assigned [] = []"
| "level_groups m assigned (i # is) =
     (let free = filter (\<lambda>j. list_all (\<lambda>b. b \<in> set assigned) (set_at m j)) (i # is);
          group = (if free = [] then [i] else free)
      in group # level_groups m (assigned @ group) (filter (\<lambda>j. j \<notin> set group) (i # is)))"
  by pat_completeness auto

termination level_groups
proof (relation "measure (\<lambda>(m, assigned, remaining). length remaining)", goal_cases)
  case (2 m assigned i "is" free group)
  have "group \<noteq> []" "set group \<subseteq> set (i # is)" using 2 by auto
  then obtain j where "j \<in> set (i # is)" "j \<in> set group" by (cases group) auto
  then have "length (filter (\<lambda>j. j \<notin> set group) (i # is)) < length (i # is)"
    by (intro length_filter_less) auto
  then show ?case by simp
qed simp

definition compute_parallel_groups :: "graph \<Rightarrow> (string, string list) jsmap \<Rightarrow> string list list" where
  "compute_parallel_groups g blocked_by = level_groups blocked_by [] (js_dedup (map tn_id (open_tasks g)))"

section \<open>The analysis\<close>

record path_analysis =
  an_path :: "string list"
  an_hours :: rat
  an_bottlenecks :: "bottleneck list"
  an_groups :: "string list list"
  an_order :: "string list"
  an_ready :: "string list"
  an_blocked :: "string list"

definition analyze_critical_path :: "graph \<Rightarrow> path_analysis" where
  "analyze_critical_path g =
     (let blocked_by = blocked_by_map (g_edges g);
          path = compute_critical_path g blocked_by
      in \<lparr>an_path = path, an_hours = sum_list (map (hours_of g) path), an_bottlenecks = bottlenecks g,
          an_groups = compute_parallel_groups g blocked_by,
          an_order = filter (\<lambda>i. jm_has (g_nodes g) i \<and> \<not> is_completed g i) (topological_sort g),
          an_ready = ready_list g, an_blocked = blocked_list g\<rparr>)"

section \<open>What the maps hold\<close>

lemma set_at_Nil [simp]: "set_at [] k = []"
  by (simp add: set_at_def)

lemma set_at_add [simp]: "set_at (add_at i j m) k = (if k = i then js_add j (set_at m i) else set_at m k)"
  by (simp add: set_at_def add_at_def)

lemma set_at_fold:
  "set (set_at (fold (\<lambda>e. add_at (f e) (h e)) es m) i) = set (set_at m i) \<union> h ` {e \<in> set es. f e = i}"
  by (induction es arbitrary: m) auto

definition waits :: "edge list \<Rightarrow> (string \<times> string) set" where
  "waits es = (\<lambda>e. (ed_from e, ed_to e)) ` {e \<in> set es. ed_type e = EDependsOn}"

lemma blocked_by_set: "set (set_at (blocked_by_map es) i) = {b. (i, b) \<in> waits es}"
  by (auto simp: blocked_by_map_def set_at_fold waits_def)

lemma blocks_set: "set (set_at (blocks_map es) b) = {t. (t, b) \<in> waits es}"
  by (auto simp: blocks_map_def set_at_fold waits_def)

lemma wf_add_at: "jm_wf m \<Longrightarrow> jm_wf (add_at i j m)"
  by (simp add: add_at_def)

lemma wf_blocked_by: "jm_wf (blocked_by_map es)"
proof -
  have "jm_wf m \<Longrightarrow> jm_wf (fold (\<lambda>e. add_at (f e) (h e)) xs m)" for f h m and xs :: "edge list"
    by (induction xs arbitrary: m) (simp_all add: wf_add_at)
  then show ?thesis by (simp add: blocked_by_map_def)
qed

lemma set_at_entries: "set (set_at (fold (\<lambda>(t, bs). fold (\<lambda>b. add_at b t) bs) m acc) b) =
    set (set_at acc b) \<union> {t. \<exists>bs. (t, bs) \<in> set m \<and> b \<in> set bs}"
proof (induction m arbitrary: acc)
  case (Cons p m)
  obtain t bs where p: "p = (t, bs)" by fastforce
  have "set (set_at (fold (\<lambda>b. add_at b t) bs acc) b) = set (set_at acc b) \<union> (if b \<in> set bs then {t} else {})"
    using set_at_fold [of "\<lambda>b. b" "\<lambda>_. t" bs acc b] by auto
  with Cons show ?case by (auto simp: p)
qed simp

lemma reverse_set: "set (set_at (reverse_map (blocked_by_map es)) b) = {t. (t, b) \<in> waits es}"
proof -
  have "(\<exists>bs. (t, bs) \<in> set (blocked_by_map es) \<and> b \<in> set bs) = ((t, b) \<in> waits es)" for t
  proof -
    have "(\<exists>bs. (t, bs) \<in> set (blocked_by_map es) \<and> b \<in> set bs) = (b \<in> set (set_at (blocked_by_map es) t))"
      unfolding jm_get_eq [OF wf_blocked_by, symmetric]
      by (cases "jm_get (blocked_by_map es) t") (simp_all add: set_at_def)
    then show ?thesis by (simp add: blocked_by_set)
  qed
  then show ?thesis by (simp add: reverse_map_def set_at_entries)
qed

section \<open>Ready tasks\<close>

text \<open>The tasks of a graph are kept under their own identifiers.\<close>

definition keyed :: "graph \<Rightarrow> bool" where
  "keyed g = (jm_wf (g_nodes g) \<and> list_all (\<lambda>(i, n). tn_id n = i) (g_nodes g))"

lemma keyed_values:
  assumes "keyed g"
  shows "n \<in> set (jm_values (g_nodes g)) \<longleftrightarrow> jm_get (g_nodes g) (tn_id n) = Some n"
proof -
  have wf: "jm_wf (g_nodes g)" using assms by (simp add: keyed_def)
  show ?thesis
    using assms by (fastforce simp: jm_values_in [OF wf] jm_get_eq [OF wf] keyed_def list_all_iff)
qed

lemma keyed_open: "keyed g \<Longrightarrow> n \<in> set (open_tasks g) \<longleftrightarrow> jm_get (g_nodes g) (tn_id n) = Some n \<and> tn_status n \<noteq> TCompleted"
  by (auto simp: open_tasks_def keyed_values)

lemma keyed_id: "keyed g \<Longrightarrow> jm_get (g_nodes g) i = Some n \<Longrightarrow> tn_id n = i"
  by (auto simp: keyed_def list_all_iff dest!: jm_get_in_set)

lemma ready_iff:
  assumes "keyed g"
  shows "i \<in> set (ready_list g) \<longleftrightarrow>
    jm_has (g_nodes g) i \<and> \<not> is_completed g i \<and> (\<forall>b. (i, b) \<in> waits (g_edges g) \<longrightarrow> is_completed g b)"
proof -
  have "i \<in> set (ready_list g) \<longleftrightarrow> (\<exists>n. n \<in> set (open_tasks g) \<and> blockers_completed g n \<and> i = tn_id n)"
    by (auto simp: ready_list_def)
  also have "\<dots> \<longleftrightarrow> (\<exists>n. jm_get (g_nodes g) i = Some n \<and> tn_status n \<noteq> TCompleted \<and>
      (\<forall>b. (i, b) \<in> waits (g_edges g) \<longrightarrow> is_completed g b))"
    using keyed_id [OF assms] by (auto simp: keyed_open [OF assms] blockers_completed_def list_all_iff blocked_by_set)
  finally show ?thesis by (auto simp: jm_has_def is_completed_def)
qed

text \<open>The analysis reads the edges against the tracker: in a graph of the tracker a task is listed as ready exactly
  when it is not completed and every task that waits for it is.\<close>

theorem readiness_inverted:
  assumes "keyed g" "tk_graph k = Some g"
  shows "set (ready_list g) = {i. jm_has (g_nodes g) i \<and> \<not> is_completed g i \<and>
    list_all (is_completed g) (get_dependents i k)}"
  using ready_iff [OF assms(1)] assms(2) by (auto simp: get_dependents_def list_all_iff waits_def)

section \<open>Bottlenecks\<close>

lemma blocked_search_sound:
  "j \<in> set (blocked_search m t v q) \<Longrightarrow>
     j \<in> set v \<or> j \<noteq> t \<and> (\<exists>c \<in> set q. (c, j) \<in> {(c, i). i \<in> set (set_at m c)}\<^sup>+)"
proof (induction m t v q rule: blocked_search.induct)
  case (2 m t v c q)
  let ?E = "{(c, i). i \<in> set (set_at m c)}"
  let ?new = "filter (\<lambda>i. i \<notin> set v \<and> i \<noteq> t) (set_at m c)"
  from 2 have "j \<in> set (v @ ?new) \<or> j \<noteq> t \<and> (\<exists>c \<in> set (q @ ?new). (c, j) \<in> ?E\<^sup>+)" by (simp add: Let_def blocked_search.simps)
  moreover have "(c, j) \<in> ?E\<^sup>+" if "d \<in> set ?new" "(d, j) \<in> ?E\<^sup>+" for d
    using that by (auto intro: trancl_into_trancl2)
  ultimately show ?case by auto
qed simp

lemma blocked_search_closed:
  "set v \<subseteq> set (blocked_search m t v q) \<and>
   (\<forall>c \<in> (set (blocked_search m t v q) - set v) \<union> set q. set (set_at m c) - {t} \<subseteq> set (blocked_search m t v q))"
proof (induction m t v q rule: blocked_search.induct)
  case (2 m t v c q)
  let ?new = "filter (\<lambda>i. i \<notin> set v \<and> i \<noteq> t) (set_at m c)"
  have eq: "blocked_search m t v (c # q) = blocked_search m t (v @ ?new) (q @ ?new)"
    by (simp add: Let_def blocked_search.simps)
  from 2 [OF refl] show ?case unfolding eq by auto
qed simp

lemma blocked_search_distinct: "distinct v \<Longrightarrow> (\<And>c. distinct (set_at m c)) \<Longrightarrow> distinct (blocked_search m t v q)"
  by (induction m t v q rule: blocked_search.induct) (auto simp: Let_def blocked_search.simps)

lemma distinct_set_at: "(\<And>c. distinct (set_at m c)) \<Longrightarrow> distinct (set_at (fold (\<lambda>e. add_at (f e) (h e)) es m) c)"
  by (induction es arbitrary: m) simp_all

text \<open>What a task blocks: the search lists each task that waits for it, directly or through others, once, itself
  never.\<close>

theorem bottleneck_exact:
  "distinct (transitive_blocked t (blocks_map es)) \<and>
   set (transitive_blocked t (blocks_map es)) = {j. (j, t) \<in> (waits es)\<^sup>+} - {t}"
proof
  let ?m = "blocks_map es" and ?r = "set (transitive_blocked t (blocks_map es))"
  let ?E = "{(c, i). i \<in> set (set_at ?m c)}"
  have "distinct (set_at ?m c)" for c by (simp add: blocks_map_def distinct_set_at)
  then show "distinct (transitive_blocked t ?m)"
    unfolding transitive_blocked_def by (intro blocked_search_distinct) simp_all
  have E: "?E = (waits es)\<inverse>" by (auto simp: blocks_set)
  have closed: "j \<in> insert t ?r" if "(t, j) \<in> ?E\<^sup>*" for j
    using that
  proof (induction rule: rtrancl_induct)
    case (step y z)
    have "set (set_at ?m y) - {t} \<subseteq> ?r"
      using blocked_search_closed [of "[]" ?m t "[t]"] step.IH by (auto simp: transitive_blocked_def)
    with step.hyps(2) show ?case by auto
  qed simp
  show "?r = {j. (j, t) \<in> (waits es)\<^sup>+} - {t}"
  proof
    show "?r \<subseteq> {j. (j, t) \<in> (waits es)\<^sup>+} - {t}"
      using blocked_search_sound [of _ ?m t "[]" "[t]"] by (auto simp: transitive_blocked_def E trancl_converse)
    show "{j. (j, t) \<in> (waits es)\<^sup>+} - {t} \<subseteq> ?r"
    proof
      fix j assume j: "j \<in> {j. (j, t) \<in> (waits es)\<^sup>+} - {t}"
      then have "(t, j) \<in> ?E\<^sup>+" by (simp add: E trancl_converse)
      with closed [of j] j show "j \<in> ?r" by (auto dest: trancl_into_rtrancl)
    qed
  qed
qed

section \<open>Groups\<close>

definition first_group :: "(string, string list) jsmap \<Rightarrow> string list \<Rightarrow> string list \<Rightarrow> string list" where
  "first_group m assigned remaining =
     (let free = filter (\<lambda>j. list_all (\<lambda>b. b \<in> set assigned) (set_at m j)) remaining
      in if free = [] then [hd remaining] else free)"

lemma level_groups_step:
  "remaining \<noteq> [] \<Longrightarrow> level_groups m assigned remaining =
     first_group m assigned remaining #
     level_groups m (assigned @ first_group m assigned remaining)
       (filter (\<lambda>j. j \<notin> set (first_group m assigned remaining)) remaining)"
  by (cases remaining) (simp_all add: first_group_def Let_def)

declare level_groups.simps(2) [simp del]

lemma first_group_facts:
  assumes "remaining \<noteq> []"
  shows "first_group m assigned remaining \<noteq> []" "set (first_group m assigned remaining) \<subseteq> set remaining"
    "distinct remaining \<Longrightarrow> distinct (first_group m assigned remaining)"
  using assms by (auto simp: first_group_def Let_def)

lemma shorter: "remaining \<noteq> [] \<Longrightarrow>
    length (filter (\<lambda>j. j \<notin> set (first_group m assigned remaining)) remaining) < length remaining"
proof -
  assume r: "remaining \<noteq> []"
  note f = first_group_facts(1,2) [OF r, of m assigned]
  show ?thesis
    by (rule length_filter_less [of "hd (first_group m assigned remaining)"]) (use f in \<open>auto dest: hd_in_set\<close>)
qed

lemma groups_induct [case_names empty step]:
  assumes "\<And>a. P a []"
    and "\<And>a is. is \<noteq> [] \<Longrightarrow> P (a @ first_group m a is) (filter (\<lambda>j. j \<notin> set (first_group m a is)) is) \<Longrightarrow> P a is"
  shows "P a is"
proof (induction "length is" arbitrary: a "is" rule: less_induct)
  case less
  show ?case
  proof (cases "is = []")
    case False
    show ?thesis by (rule assms(2) [OF False less [OF shorter [OF False]]])
  qed (simp add: assms(1))
qed

lemma level_groups_sets:
  "distinct is \<Longrightarrow> distinct (concat (level_groups m a is)) \<and> set (concat (level_groups m a is)) = set is \<and>
     [] \<notin> set (level_groups m a is)"
proof (induction a "is" rule: groups_induct [where m = m])
  case (step a "is")
  note f = first_group_facts [OF step.hyps, of m a]
  from step.IH step.prems have ih: "distinct (concat (level_groups m (a @ first_group m a is)
      (filter (\<lambda>j. j \<notin> set (first_group m a is)) is)))"
    "set (concat (level_groups m (a @ first_group m a is) (filter (\<lambda>j. j \<notin> set (first_group m a is)) is))) =
      set is - set (first_group m a is)"
    "[] \<notin> set (level_groups m (a @ first_group m a is) (filter (\<lambda>j. j \<notin> set (first_group m a is)) is))"
    by auto
  have "distinct (concat (level_groups m a is))"
    unfolding level_groups_step [OF step.hyps] concat.simps distinct_append using ih f step.prems by blast
  moreover have "set (concat (level_groups m a is)) = set is"
    unfolding level_groups_step [OF step.hyps] concat.simps set_append using ih f by blast
  moreover have "[] \<notin> set (level_groups m a is)"
    unfolding level_groups_step [OF step.hyps] using ih(3) f(1) by simp
  ultimately show ?case by blast
qed simp

lemma forced_alone:
  "b \<notin> set a \<Longrightarrow> b \<notin> set is \<Longrightarrow> b \<in> set (set_at m j) \<Longrightarrow> grp \<in> set (level_groups m a is) \<Longrightarrow> j \<in> set grp \<Longrightarrow> grp = [j]"
proof (induction a "is" rule: groups_induct [where m = m])
  case (step a "is")
  have "set (first_group m a is) \<subseteq> set is" by (rule first_group_facts(2) [OF step.hyps])
  then have "b \<notin> set (a @ first_group m a is)" "b \<notin> set (filter (\<lambda>j. j \<notin> set (first_group m a is)) is)"
    using step.prems(1,2) by auto
  note ih = step.IH [OF this step.prems(3)]
  have "first_group m a is = [j]" if "j \<in> set (first_group m a is)"
    using that step.prems(1,3) by (auto simp: first_group_def Let_def list_all_iff split: if_splits)
  with ih step.prems(4,5) show ?case unfolding level_groups_step [OF step.hyps] by auto
qed simp

lemma open_ids: "keyed g \<Longrightarrow> i \<in> set (map tn_id (open_tasks g)) \<longleftrightarrow> jm_has (g_nodes g) i \<and> \<not> is_completed g i"
  using keyed_id [of g i] by (auto simp: keyed_open jm_has_def is_completed_def image_iff split: option.splits)

text \<open>The groups hold every open task exactly once, and none is empty; but a task with a completed blocker is
  always in a group of its own, since completed tasks are never counted as assigned.\<close>

theorem completed_blocker_isolates:
  assumes "keyed g"
  shows "let gs = compute_parallel_groups g (blocked_by_map (g_edges g))
    in distinct (concat gs) \<and> set (concat gs) = {i. jm_has (g_nodes g) i \<and> \<not> is_completed g i} \<and> [] \<notin> set gs \<and>
       list_all (\<lambda>grp. list_all (\<lambda>i. list_ex (is_completed g) (set_at (blocked_by_map (g_edges g)) i) \<longrightarrow> grp = [i]) grp) gs"
proof -
  let ?m = "blocked_by_map (g_edges g)" and ?is = "js_dedup (map tn_id (open_tasks g))"
  have ids: "set ?is = {i. jm_has (g_nodes g) i \<and> \<not> is_completed g i}" using open_ids [OF assms] by auto
  have alone: "grp = [i]" if "grp \<in> set (level_groups ?m [] ?is)" "i \<in> set grp" "b \<in> set (set_at ?m i)" "is_completed g b" for grp i b
    by (rule forced_alone [of b "[]" ?is ?m i grp]) (use ids that in auto)
  have sets: "distinct (concat (level_groups ?m [] ?is))" "set (concat (level_groups ?m [] ?is)) = set ?is"
    "[] \<notin> set (level_groups ?m [] ?is)"
    using level_groups_sets [of ?is ?m "[]"] by auto
  show ?thesis unfolding Let_def compute_parallel_groups_def
    by (intro conjI) (use sets ids alone in \<open>auto simp: list_all_iff list_ex_iff\<close>)
qed

lemma first_group_free:
  assumes "acyclic {(j, b). b \<in> set (set_at m j)}" "is \<noteq> []" "\<And>j. j \<in> set is \<Longrightarrow> set (set_at m j) \<subseteq> set a \<union> set is"
    "j \<in> set (first_group m a is)"
  shows "set (set_at m j) \<subseteq> set a"
proof -
  define R where "R = {(b, j). j \<in> set is \<and> b \<in> set is \<and> b \<in> set (set_at m j)}"
  have "acyclic (R\<inverse>)" by (rule acyclic_subset [OF assms(1)]) (auto simp: R_def)
  moreover have "finite R" by (rule finite_subset [of _ "set is \<times> set is"]) (auto simp: R_def)
  ultimately have "wf R" by (simp add: finite_acyclic_wf acyclic_converse)
  obtain x where x: "x \<in> set is" and least: "\<And>y. (y, x) \<in> R \<Longrightarrow> y \<notin> set is"
  proof (rule wfE_min [OF \<open>wf R\<close> hd_in_set [OF assms(2)]])
    fix z assume "z \<in> set is" "\<And>y. (y, z) \<in> R \<Longrightarrow> y \<notin> set is"
    then show thesis by (rule that)
  qed
  have "set (set_at m x) \<subseteq> set a" using assms(3) [OF x] least x by (auto simp: R_def)
  with x have "filter (\<lambda>j. list_all (\<lambda>b. b \<in> set a) (set_at m j)) is \<noteq> []"
    by (auto simp: filter_empty_conv list_all_iff)
  with assms(4) show ?thesis by (auto simp: first_group_def Let_def list_all_iff)
qed

lemma level_groups_order:
  assumes "acyclic {(j, b). b \<in> set (set_at m j)}"
  shows "(\<And>j. j \<in> set is \<Longrightarrow> set (set_at m j) \<subseteq> set a \<union> set is) \<Longrightarrow>
    level_groups m a is = xs @ grp # ys \<Longrightarrow> j \<in> set grp \<Longrightarrow> set (set_at m j) \<subseteq> set a \<union> set (concat xs)"
proof (induction a "is" arbitrary: xs rule: groups_induct [where m = m])
  case (step a "is")
  let ?f = "first_group m a is"
  note free = first_group_free [OF assms step.hyps step.prems(1)]
  show ?case
  proof (cases xs)
    case Nil
    then have "grp = ?f" using step.prems(2) unfolding level_groups_step [OF step.hyps] by simp
    with free step.prems(3) Nil show ?thesis by auto
  next
    case (Cons x zs)
    then have eq: "x = ?f" "level_groups m (a @ ?f) (filter (\<lambda>j. j \<notin> set ?f) is) = zs @ grp # ys"
      using step.prems(2) unfolding level_groups_step [OF step.hyps] by auto
    have "set (set_at m j) \<subseteq> set (a @ ?f) \<union> set (concat zs)"
    proof (rule step.IH [OF _ eq(2) step.prems(3)])
      fix i assume "i \<in> set (filter (\<lambda>j. j \<notin> set ?f) is)"
      with step.prems(1) show "set (set_at m i) \<subseteq> set (a @ ?f) \<union> set (filter (\<lambda>j. j \<notin> set ?f) is)" by fastforce
    qed
    then show ?thesis by (auto simp: Cons eq(1))
  qed
qed simp

text \<open>In a graph without cycles in which nothing is completed, every task a group holds has all its blockers in
  earlier groups.\<close>

theorem groups_respect_blockers:
  assumes "keyed g" "acyclic (waits (g_edges g))" "\<And>i. \<not> is_completed g i"
    "\<And>i b. (i, b) \<in> waits (g_edges g) \<Longrightarrow> jm_has (g_nodes g) b"
    "compute_parallel_groups g (blocked_by_map (g_edges g)) = xs @ grp # ys" "i \<in> set grp" "(i, b) \<in> waits (g_edges g)"
  shows "b \<in> set (concat xs)"
proof -
  let ?m = "blocked_by_map (g_edges g)"
  have m: "{(j, b). b \<in> set (set_at ?m j)} = waits (g_edges g)" by (auto simp: blocked_by_set)
  have "set (set_at ?m i) \<subseteq> set [] \<union> set (concat xs)"
  proof (rule level_groups_order [of ?m "js_dedup (map tn_id (open_tasks g))" "[]" xs grp ys])
    show "acyclic {(j, b). b \<in> set (set_at ?m j)}" by (simp add: m assms(2))
    show "level_groups ?m [] (js_dedup (map tn_id (open_tasks g))) = xs @ grp # ys"
      using assms(5) by (simp add: compute_parallel_groups_def)
    show "set (set_at ?m j) \<subseteq> set [] \<union> set (js_dedup (map tn_id (open_tasks g)))" for j
      using assms(3,4) open_ids [OF assms(1)] by (auto simp: blocked_by_set)
  qed (rule assms(6))
  with assms(7) show ?thesis by (auto simp: blocked_by_set)
qed

section \<open>The order of execution\<close>

definition steps :: "graph \<Rightarrow> (string \<times> string) set" where
  "steps g = {(i, j). j \<in> set (edge_targets g i) \<and> jm_has (g_nodes g) j}"

definition ordered :: "graph \<Rightarrow> string list \<Rightarrow> bool" where
  "ordered g r = (distinct r \<and> (\<forall>us i ws. r = us @ i # ws \<longrightarrow> steps g `` {i} \<subseteq> set us))"

lemma ordered_snoc: "ordered g (r @ [i]) \<longleftrightarrow> ordered g r \<and> i \<notin> set r \<and> steps g `` {i} \<subseteq> set r"
proof
  assume o: "ordered g (r @ [i])"
  have "steps g `` {j} \<subseteq> set us" if "r = us @ j # ws" for us j ws
    using o that unfolding ordered_def by (metis append.assoc append_Cons)
  with o show "ordered g r \<and> i \<notin> set r \<and> steps g `` {i} \<subseteq> set r" by (auto simp: ordered_def)
next
  assume a: "ordered g r \<and> i \<notin> set r \<and> steps g `` {i} \<subseteq> set r"
  have "steps g `` {j} \<subseteq> set us" if "r @ [i] = us @ j # ws" for us j ws
    using a that by (cases ws rule: rev_cases) (auto simp: ordered_def)
  with a show "ordered g (r @ [i])" by (auto simp: ordered_def)
qed

lemma topo_visit_post:
  "acyclic (steps g) \<Longrightarrow> set r \<subseteq> set v \<Longrightarrow> ordered g r \<Longrightarrow>
    (\<And>x y. x \<in> set v - set r \<Longrightarrow> y \<in> set is \<Longrightarrow> jm_has (g_nodes g) y \<Longrightarrow> (x, y) \<in> (steps g)\<^sup>+) \<Longrightarrow>
    case topo_visit g is (v, r) of (v', r') \<Rightarrow>
      set v \<subseteq> set v' \<and> set r' \<subseteq> set v' \<and> set v' - set r' = set v - set r \<and> ordered g r' \<and>
      {i \<in> set is. jm_has (g_nodes g) i} \<subseteq> set v'"
proof (induction g "is" "(v, r)" arbitrary: v r rule: topo_visit.induct)
  case (2 g i "is" v r)
  show ?case
  proof (cases "i \<in> set v \<or> \<not> jm_has (g_nodes g) i")
    case True
    with 2(1) [OF True 2(4,5,6)] 2(7) show ?thesis by (auto split: prod.splits)
  next
    case False
    obtain v1 r1 where 1: "topo_visit g (edge_targets g i) (i # v, r) = (v1, r1)" by fastforce
    obtain v2 r2 where 22: "topo_visit g is (v1, r1 @ [i]) = (v2, r2)" by fastforce
    have grey: "(x, i) \<in> (steps g)\<^sup>*" if "x \<in> set (i # v) - set r" for x
      using that 2(7) [of x i] False by (auto dest: trancl_into_rtrancl)
    have in1: "set r \<subseteq> set (i # v)" using 2(5) by auto
    have "x \<in> set (i # v) - set r \<Longrightarrow> y \<in> set (edge_targets g i) \<Longrightarrow> jm_has (g_nodes g) y \<Longrightarrow> (x, y) \<in> (steps g)\<^sup>+" for x y
      using grey [of x] by (auto simp: steps_def intro: rtrancl_into_trancl1)
    from 2(2) [OF False 2(4) in1 2(6) this] have
      p1: "set (i # v) \<subseteq> set v1" "set r1 \<subseteq> set v1" "set v1 - set r1 = set (i # v) - set r" "ordered g r1"
        "{j \<in> set (edge_targets g i). jm_has (g_nodes g) j} \<subseteq> set v1" by (auto simp: 1)
    have "i \<notin> set r" using False 2(5) by auto
    then have i1: "i \<in> set v1 - set r1" using p1(3) by auto
    have "j \<in> set r1" if "(i, j) \<in> steps g" for j
    proof (rule ccontr)
      assume "j \<notin> set r1"
      then have "j \<in> set (i # v) - set r" using that p1(3,5) by (auto simp: steps_def)
      with grey [of j] that have "(i, i) \<in> (steps g)\<^sup>+" by (meson rtrancl_into_trancl2)
      with 2(4) show False unfolding acyclic_def by blast
    qed
    then have o1: "ordered g (r1 @ [i])" using p1(4) i1 by (auto simp: ordered_snoc)
    have sub: "set (r1 @ [i]) \<subseteq> set v1" using p1(2) i1 by auto
    have diff: "set v1 - set (r1 @ [i]) = set v - set r" using p1(3) False by auto
    have "x \<in> set v1 - set (r1 @ [i]) \<Longrightarrow> y \<in> set is \<Longrightarrow> jm_has (g_nodes g) y \<Longrightarrow> (x, y) \<in> (steps g)\<^sup>+" for x y
      using 2(7) [of x y] unfolding diff by simp
    from 2(3) [OF False 1 [symmetric] 2(4) sub o1 this] have
      p2: "set v1 \<subseteq> set v2" "set r2 \<subseteq> set v2" "set v2 - set r2 = set v - set r" "ordered g r2"
        "{j \<in> set is. jm_has (g_nodes g) j} \<subseteq> set v2" by (auto simp: 22 diff [simplified])
    have "topo_visit g (i # is) (v, r) = (v2, r2)" using False 1 22 by simp
    with p1(1) p2 show ?thesis by auto
  qed
qed simp

text \<open>In a graph without cycles the order lists no task twice and every task after all tasks its edges lead to.\<close>

theorem execution_order_sound:
  assumes "acyclic (steps g)"
  shows "ordered g (topological_sort g) \<and> {i \<in> set (g_roots g). jm_has (g_nodes g) i} \<subseteq> set (topological_sort g)"
proof -
  have "ordered g []" by (simp add: ordered_def)
  from topo_visit_post [OF assms, of "[]" "[]" "g_roots g", simplified, OF this]
  show ?thesis by (auto simp: topological_sort_def split: prod.splits)
qed

section \<open>The longest path\<close>

definition chain :: "graph \<Rightarrow> string list \<Rightarrow> bool" where
  "chain g q = (set q \<subseteq> set (jm_keys (g_nodes g)) \<and> successively (\<lambda>b t. (t, b) \<in> waits (g_edges g)) q)"

definition path_weight :: "graph \<Rightarrow> string list \<Rightarrow> rat" where
  "path_weight g q = sum_list (map (weight g) q)"

definition closed_edges :: "graph \<Rightarrow> bool" where
  "closed_edges g = (\<forall>e \<in> set (g_edges g). jm_has (g_nodes g) (ed_from e) \<and> jm_has (g_nodes g) (ed_to e))"

definition relax_all :: "graph \<Rightarrow> (string \<times> string) list \<Rightarrow> relaxation \<Rightarrow> relaxation" where
  "relax_all g ps x = fold (\<lambda>(i, j). relax g i j) ps x"

lemma relax_round_all:
  "relax_round g m x =
     relax_all g (concat (map (\<lambda>i. map (Pair i) (set_at m i)) (jm_keys (g_nodes g)))) (x\<lparr>rx_changed := False\<rparr>)"
proof -
  have inner: "fold (relax g i) js y = relax_all g (map (Pair i) js) y" for i js y
    by (induction js arbitrary: y) (simp_all add: relax_all_def)
  have "fold (\<lambda>i. fold (relax g i) (set_at m i)) is y = relax_all g (concat (map (\<lambda>i. map (Pair i) (set_at m i)) is)) y" for "is" y
    by (induction "is" arbitrary: y) (simp_all add: inner, simp_all add: relax_all_def)
  then show ?thesis by (simp add: relax_round_def)
qed

lemma dist_relax:
  "dist_at (rx_dist (relax g i j x)) k =
     (if k = j then max (dist_at (rx_dist x) j) (dist_at (rx_dist x) i + weight g j) else dist_at (rx_dist x) k)"
  by (auto simp: relax_def Let_def dist_at_def max_def)

lemma relax_all_mono: "dist_at (rx_dist x) k \<le> dist_at (rx_dist (relax_all g ps x)) k"
proof (induction ps arbitrary: x)
  case (Cons p ps)
  obtain i j where p: "p = (i, j)" by fastforce
  have "dist_at (rx_dist x) k \<le> dist_at (rx_dist (relax g i j x)) k" by (simp add: dist_relax)
  also have "\<dots> \<le> dist_at (rx_dist (relax_all g ps (relax g i j x))) k" by (rule Cons)
  finally show ?case by (simp add: p relax_all_def)
qed (simp add: relax_all_def)

lemma relax_all_covers:
  "(i, j) \<in> set ps \<Longrightarrow> dist_at (rx_dist x) i + weight g j \<le> dist_at (rx_dist (relax_all g ps x)) j"
proof (induction ps arbitrary: x)
  case (Cons p ps)
  obtain a b where p: "p = (a, b)" by fastforce
  have all: "relax_all g (p # ps) x = relax_all g ps (relax g a b x)" by (simp add: p relax_all_def)
  show ?case
  proof (cases "p = (i, j)")
    case True
    have "dist_at (rx_dist x) i + weight g j \<le> dist_at (rx_dist (relax g i j x)) j" by (simp add: dist_relax)
    also have "\<dots> \<le> dist_at (rx_dist (relax_all g ps (relax g i j x))) j" by (rule relax_all_mono)
    finally show ?thesis using True p all by simp
  next
    case False
    have "dist_at (rx_dist x) i \<le> dist_at (rx_dist (relax g a b x)) i" by (simp add: dist_relax)
    with Cons.IH [of "relax g a b x"] Cons.prems False show ?thesis by (fastforce simp: all)
  qed
qed simp

lemma relax_all_changed: "rx_changed x \<Longrightarrow> rx_changed (relax_all g ps x)"
  by (induction ps arbitrary: x) (auto simp: relax_all_def relax_def Let_def split: prod.split)

lemma relax_all_unchanged: "\<not> rx_changed (relax_all g ps x) \<Longrightarrow> relax_all g ps x = x"
proof (induction ps arbitrary: x)
  case (Cons p ps)
  obtain i j where p: "p = (i, j)" by fastforce
  have "relax g i j x = x"
  proof (rule ccontr)
    assume "relax g i j x \<noteq> x"
    then have "rx_changed (relax g i j x)" by (auto simp: relax_def Let_def split: if_splits)
    from relax_all_changed [OF this, of g ps] Cons.prems show False by (simp add: p relax_all_def)
  qed
  with Cons show ?case by (simp add: p relax_all_def)
qed (simp add: relax_all_def)

text \<open>Every distance is the weight of a chain, and predecessors are tight.\<close>

definition tight :: "graph \<Rightarrow> relaxation \<Rightarrow> bool" where
  "tight g x =
     ((\<forall>i \<in> set (jm_keys (g_nodes g)). \<exists>q. chain g (q @ [i]) \<and> dist_at (rx_dist x) i = path_weight g (q @ [i])) \<and>
      (\<forall>i \<in> set (jm_keys (g_nodes g)). case jm_get (rx_prev x) i of
          None \<Rightarrow> dist_at (rx_dist x) i = weight g i
        | Some j \<Rightarrow> (i, j) \<in> waits (g_edges g) \<and> dist_at (rx_dist x) i \<le> dist_at (rx_dist x) j + weight g i))"

lemma chain_snoc: "chain g (q @ [j]) \<Longrightarrow> (i, j) \<in> waits (g_edges g) \<Longrightarrow> i \<in> set (jm_keys (g_nodes g)) \<Longrightarrow> chain g (q @ [j, i])"
  by (auto simp: chain_def successively_append_iff)

lemma relax_tight:
  assumes "tight g x" "(j, i) \<in> waits (g_edges g)" "closed_edges g" "i \<noteq> j"
  shows "tight g (relax g i j x)"
proof (cases "dist_at (rx_dist x) j < dist_at (rx_dist x) i + weight g j")
  case True
  have n: "i \<in> set (jm_keys (g_nodes g))" "j \<in> set (jm_keys (g_nodes g))"
    using assms(2,3) by (auto simp: waits_def closed_edges_def jm_has_keys)
  have d: "dist_at (rx_dist (relax g i j x)) k = (if k = j then dist_at (rx_dist x) i + weight g j else dist_at (rx_dist x) k)" for k
    using True by (simp add: dist_relax)
  have p: "jm_get (rx_prev (relax g i j x)) k = (if k = j then Some i else jm_get (rx_prev x) k)" for k
    using True by (simp add: relax_def Let_def)
  obtain q where q: "chain g (q @ [i])" "dist_at (rx_dist x) i = path_weight g (q @ [i])"
    using assms(1) n(1) by (auto simp: tight_def)
  have "\<exists>q. chain g (q @ [j]) \<and> dist_at (rx_dist x) i + weight g j = path_weight g (q @ [j])"
    using chain_snoc [OF q(1) assms(2) n(2)] q(2) by (intro exI [of _ "q @ [i]"]) (simp add: path_weight_def)
  moreover have "case jm_get (rx_prev (relax g i j x)) k of
          None \<Rightarrow> dist_at (rx_dist (relax g i j x)) k = weight g k
        | Some l \<Rightarrow> (k, l) \<in> waits (g_edges g) \<and>
            dist_at (rx_dist (relax g i j x)) k \<le> dist_at (rx_dist (relax g i j x)) l + weight g k"
    if k: "k \<in> set (jm_keys (g_nodes g))" for k
  proof (cases "k = j")
    case True
    with assms(2,4) show ?thesis by (simp add: p d)
  next
    case False
    show ?thesis
    proof (cases "jm_get (rx_prev x) k")
      case None
      with assms(1) k False show ?thesis by (auto simp: tight_def p d)
    next
      case (Some l)
      then have "(k, l) \<in> waits (g_edges g)" "dist_at (rx_dist x) k \<le> dist_at (rx_dist x) l + weight g k"
        using assms(1) k by (auto simp: tight_def dest!: bspec [of _ _ k])
      with False Some True show ?thesis by (auto simp: p d)
    qed
  qed
  ultimately show ?thesis using assms(1) by (auto simp: tight_def d)
next
  case False
  then have "relax g i j x = x" by (simp add: relax_def Let_def)
  with assms(1) show ?thesis by simp
qed

lemma relax_all_tight:
  assumes "closed_edges g" "acyclic (waits (g_edges g))"
  shows "tight g x \<Longrightarrow> (\<And>i j. (i, j) \<in> set ps \<Longrightarrow> (j, i) \<in> waits (g_edges g)) \<Longrightarrow> tight g (relax_all g ps x)"
proof (induction ps arbitrary: x)
  case (Cons p ps)
  obtain i j where p: "p = (i, j)" by fastforce
  then have e: "(j, i) \<in> waits (g_edges g)" using Cons.prems(2) by auto
  then have "i \<noteq> j" using assms(2) by (auto simp: acyclic_def)
  from relax_tight [OF Cons.prems(1) e assms(1) this] Cons.IH Cons.prems(2) show ?case
    by (simp add: p relax_all_def)
qed (simp add: relax_all_def)

definition bounds_chains :: "nat \<Rightarrow> graph \<Rightarrow> relaxation \<Rightarrow> bool" where
  "bounds_chains k g x = (\<forall>q i. chain g (q @ [i]) \<and> length q < k \<longrightarrow> path_weight g (q @ [i]) \<le> dist_at (rx_dist x) i)"

lemma bounds_chainsD:
  "bounds_chains k g x \<Longrightarrow> chain g (q @ [i]) \<Longrightarrow> length q < k \<Longrightarrow> path_weight g (q @ [i]) \<le> dist_at (rx_dist x) i"
  unfolding bounds_chains_def by blast

lemma bounds_chains_mono: "bounds_chains k g x \<Longrightarrow> j \<le> k \<Longrightarrow> bounds_chains j g x"
  unfolding bounds_chains_def by (meson less_le_trans)

definition settled_dist :: "graph \<Rightarrow> relaxation \<Rightarrow> bool" where
  "settled_dist g x = (\<forall>(j, i) \<in> waits (g_edges g). dist_at (rx_dist x) i + weight g j \<le> dist_at (rx_dist x) j)"

lemma bounds_step:
  assumes "bounds_chains k g x" "0 < k"
    "\<And>j i. (j, i) \<in> waits (g_edges g) \<Longrightarrow> dist_at (rx_dist x) i + weight g j \<le> dist_at (rx_dist y) j"
    "\<And>i. dist_at (rx_dist x) i \<le> dist_at (rx_dist y) i"
  shows "bounds_chains (Suc k) g y"
  unfolding bounds_chains_def
proof (intro allI impI)
  fix q i assume q: "chain g (q @ [i]) \<and> length q < Suc k"
  show "path_weight g (q @ [i]) \<le> dist_at (rx_dist y) i"
  proof (cases q rule: rev_cases)
    case Nil
    with q assms(2) have "path_weight g (q @ [i]) \<le> dist_at (rx_dist x) i" by (intro bounds_chainsD [OF assms(1)]) auto
    with assms(4) [of i] show ?thesis by linarith
  next
    case (snoc r j)
    then have "chain g (r @ [j])" "length r < k" "(i, j) \<in> waits (g_edges g)"
      using q by (auto simp: chain_def successively_append_iff)
    then have "path_weight g (r @ [j]) \<le> dist_at (rx_dist x) j" "dist_at (rx_dist x) j + weight g i \<le> dist_at (rx_dist y) i"
      using assms(1,3) by (auto simp: bounds_chains_def)
    then show ?thesis using snoc by (simp add: path_weight_def)
  qed
qed

lemma settled_bounds: "settled_dist g x \<Longrightarrow> bounds_chains 1 g x \<Longrightarrow> bounds_chains (Suc k) g x"
proof (induction k)
  case (Suc k)
  then show ?case by (intro bounds_step [of "Suc k" g x x]) (auto simp: settled_dist_def)
qed simp

definition good_edges :: "graph \<Rightarrow> bool" where
  "good_edges g = (closed_edges g \<and> acyclic (waits (g_edges g)) \<and> (\<forall>i. 0 \<le> weight g i))"

definition blocks_of :: "graph \<Rightarrow> (string, string list) jsmap" where
  "blocks_of g = reverse_map (blocked_by_map (g_edges g))"

lemma round_pairs:
  assumes "closed_edges g"
  shows "(i, j) \<in> set (concat (map (\<lambda>i. map (Pair i) (set_at (blocks_of g) i)) (jm_keys (g_nodes g)))) \<longleftrightarrow>
    (j, i) \<in> waits (g_edges g)"
  using assms by (auto simp: blocks_of_def reverse_set) (auto simp: waits_def closed_edges_def jm_has_keys)

lemma tight_unchanged [simp]: "tight g (x\<lparr>rx_changed := c\<rparr>) = tight g x"
  by (simp add: tight_def cong: option.case_cong)

lemma round_tight:
  assumes "good_edges g" "tight g x" shows "tight g (relax_round g (blocks_of g) x)"
  unfolding relax_round_all
  by (rule relax_all_tight) (use assms round_pairs [of g] in \<open>auto simp: good_edges_def\<close>)

lemma round_bounds:
  assumes "good_edges g" "bounds_chains k g x" "0 < k"
  shows "bounds_chains (Suc k) g (relax_round g (blocks_of g) x)"
proof (rule bounds_step [OF assms(2,3)])
  fix j i assume "(j, i) \<in> waits (g_edges g)"
  then have "(i, j) \<in> set (concat (map (\<lambda>i. map (Pair i) (set_at (blocks_of g) i)) (jm_keys (g_nodes g))))"
    using assms(1) round_pairs [of g] by (simp add: good_edges_def)
  from relax_all_covers [OF this, of "x\<lparr>rx_changed := False\<rparr>" g]
  show "dist_at (rx_dist x) i + weight g j \<le> dist_at (rx_dist (relax_round g (blocks_of g) x)) j"
    by (simp add: relax_round_all)
next
  fix i show "dist_at (rx_dist x) i \<le> dist_at (rx_dist (relax_round g (blocks_of g) x)) i"
    using relax_all_mono [of "x\<lparr>rx_changed := False\<rparr>" i g] by (simp add: relax_round_all)
qed

lemma round_settled:
  assumes "good_edges g" "\<not> rx_changed (relax_round g (blocks_of g) x)"
  shows "settled_dist g (relax_round g (blocks_of g) x)"
proof -
  let ?ps = "concat (map (\<lambda>i. map (Pair i) (set_at (blocks_of g) i)) (jm_keys (g_nodes g)))"
  let ?x = "x\<lparr>rx_changed := False\<rparr>"
  have eq: "relax_all g ?ps ?x = ?x" using assms(2) relax_all_unchanged [of g ?ps ?x] by (simp add: relax_round_all)
  have "dist_at (rx_dist ?x) i + weight g j \<le> dist_at (rx_dist ?x) j" if "(j, i) \<in> waits (g_edges g)" for i j
  proof -
    have "(i, j) \<in> set ?ps" using that assms(1) round_pairs [of g i j] by (simp add: good_edges_def)
    from relax_all_covers [OF this, of ?x g] show ?thesis unfolding eq .
  qed
  then have "settled_dist g ?x" unfolding settled_dist_def by blast
  then show ?thesis by (simp add: relax_round_all eq)
qed

lemma rounds_bounds:
  assumes "good_edges g"
  shows "tight g x \<Longrightarrow> bounds_chains (Suc k) g x \<Longrightarrow>
    tight g (relax_rounds n g (blocks_of g) x) \<and> bounds_chains (Suc k + n) g (relax_rounds n g (blocks_of g) x)"
proof (induction n arbitrary: x k)
  case (Suc n)
  let ?y = "relax_round g (blocks_of g) x"
  have y: "tight g ?y" "bounds_chains (Suc (Suc k)) g ?y"
    using round_tight [OF assms Suc.prems(1)] round_bounds [OF assms Suc.prems(2)] by auto
  show ?case
  proof (cases "rx_changed ?y")
    case True
    with Suc.IH [OF y] show ?thesis by (simp add: Let_def)
  next
    case False
    have "bounds_chains 1 g ?y" by (rule bounds_chains_mono [OF y(2)]) simp
    from settled_bounds [OF round_settled [OF assms False] this, of "Suc k + n"] y(1) False
    show ?thesis by (simp add: Let_def)
  qed
qed simp

lemma dist_start: "dist_at (rx_dist (start_relaxation g)) i = (if i \<in> set (jm_keys (g_nodes g)) then weight g i else 0)"
proof -
  have "dist_at (fold (\<lambda>i. jm_set i (weight g i)) ids d) i = (if i \<in> set ids then weight g i else dist_at d i)" for ids d
    by (induction ids arbitrary: d) (auto simp: dist_at_def)
  then show ?thesis by (simp add: start_relaxation_def dist_at_def)
qed

lemma start_good: "tight g (start_relaxation g) \<and> bounds_chains 1 g (start_relaxation g)"
proof -
  have "jm_get (rx_prev (start_relaxation g)) i = None" for i by (simp add: start_relaxation_def)
  then show ?thesis
    by (auto simp: tight_def bounds_chains_def dist_start chain_def path_weight_def intro!: exI [of _ "[]"])
qed

lemma chain_distinct:
  assumes "acyclic (waits (g_edges g))" "chain g q"
  shows "distinct q"
proof -
  have reach: "(y, x) \<in> (waits (g_edges g))\<^sup>+" if "successively (\<lambda>b t. (t, b) \<in> waits (g_edges g)) (x # xs)" "y \<in> set xs" for x y xs
    using that
  proof (induction xs arbitrary: x)
    case (Cons z xs)
    show ?case
    proof (cases "y = z")
      case False
      with Cons have "(y, z) \<in> (waits (g_edges g))\<^sup>+" by simp
      with Cons.prems(1) show ?thesis by (auto intro: trancl_into_trancl)
    qed (use Cons.prems(1) in auto)
  qed simp
  show ?thesis using assms(2)
  proof (induction q)
    case (Cons x q)
    then have "x \<notin> set q" using reach [of x q x] assms(1) by (auto simp: chain_def acyclic_def)
    moreover have "chain g q" using Cons.prems by (cases q) (auto simp: chain_def)
    ultimately show ?case using Cons.IH by simp
  qed simp
qed

lemma chain_short:
  assumes "acyclic (waits (g_edges g))" "chain g q"
  shows "length q \<le> length (g_nodes g)"
proof -
  have "length q = card (set q)" using chain_distinct [OF assms] by (simp add: distinct_card)
  also have "\<dots> \<le> card (set (jm_keys (g_nodes g)))" using assms(2) by (intro card_mono) (auto simp: chain_def)
  also have "\<dots> \<le> length (g_nodes g)" by (metis card_length jm_keys_def length_map)
  finally show ?thesis .
qed

definition final_relaxation :: "graph \<Rightarrow> relaxation" where
  "final_relaxation g = relax_rounds (length (jm_keys (g_nodes g)) - 1) g (blocks_of g) (start_relaxation g)"

lemma final_dist:
  assumes "good_edges g" "chain g (q @ [i])"
  shows "path_weight g (q @ [i]) \<le> dist_at (rx_dist (final_relaxation g)) i"
proof -
  have f: "bounds_chains (1 + (length (jm_keys (g_nodes g)) - 1)) g (final_relaxation g)"
    using rounds_bounds [OF assms(1), of "start_relaxation g" 0] start_good [of g] by (simp add: final_relaxation_def)
  have "length (q @ [i]) \<le> length (jm_keys (g_nodes g))"
    using chain_short [OF _ assms(2)] assms(1) by (simp add: good_edges_def jm_keys_def)
  with f assms(2) show ?thesis by (auto simp: bounds_chains_def)
qed

lemma final_tight:
  assumes "good_edges g" shows "tight g (final_relaxation g)"
  using rounds_bounds [OF assms, of "start_relaxation g" 0] start_good [of g] by (simp add: final_relaxation_def)

lemma trace_back_weight:
  assumes "good_edges g"
  shows "i \<in> set (jm_keys (g_nodes g)) \<Longrightarrow> chain g (i # path) \<Longrightarrow>
    chain g (trace_back (rx_prev (final_relaxation g)) i path) \<and>
    path_weight g (trace_back (rx_prev (final_relaxation g)) i path) =
      dist_at (rx_dist (final_relaxation g)) i + path_weight g path"
proof (induction "rx_prev (final_relaxation g)" i path rule: trace_back.induct)
  case (1 i path)
  let ?x = "final_relaxation g"
  have fresh: "i \<notin> set path" using chain_distinct [OF _ "1.prems"(2)] assms by (simp add: good_edges_def)
  note t = final_tight [OF assms]
  show ?case
  proof (cases "jm_get (rx_prev ?x) i")
    case None
    then have "dist_at (rx_dist ?x) i = weight g i" using t "1.prems"(1) by (auto simp: tight_def)
    with None fresh "1.prems"(2) show ?thesis by (simp add: trace_back.simps path_weight_def)
  next
    case (Some j)
    then have e: "(i, j) \<in> waits (g_edges g)" "dist_at (rx_dist ?x) i \<le> dist_at (rx_dist ?x) j + weight g i"
      using t "1.prems"(1) by (auto simp: tight_def dest!: bspec [of _ _ i])
    have j: "j \<in> set (jm_keys (g_nodes g))"
      using e(1) assms(1) by (auto simp: good_edges_def closed_edges_def waits_def jm_has_keys)
    obtain q where q: "chain g (q @ [j])" "dist_at (rx_dist ?x) j = path_weight g (q @ [j])"
      using t j by (auto simp: tight_def)
    have "path_weight g ((q @ [j]) @ [i]) \<le> dist_at (rx_dist ?x) i"
      using chain_snoc [OF q(1) e(1) "1.prems"(1)] by (intro final_dist [OF assms]) simp
    with q(2) e(2) have d: "dist_at (rx_dist ?x) i = dist_at (rx_dist ?x) j + weight g i" by (simp add: path_weight_def)
    have "chain g (j # i # path)" using "1.prems" e(1) j by (auto simp: chain_def)
    from "1.hyps" [OF fresh Some j this] show ?thesis
      using fresh Some d by (subst (1 2) trace_back.simps) (simp add: path_weight_def)
  qed
qed

lemma farthest_max:
  assumes "ids \<noteq> []" "\<And>i. i \<in> set ids \<Longrightarrow> 0 \<le> dist_at d i"
  shows "farthest ids d \<in> set ids \<and> (\<forall>i \<in> set ids. dist_at d i \<le> dist_at d (farthest ids d))"
proof -
  let ?step = "\<lambda>i (best, far). if best < dist_at d i then (dist_at d i, i) else (best, far)"
  have run: "case fold ?step js (best, far) of (best', far') \<Rightarrow>
      best \<le> best' \<and> (\<forall>i \<in> set js. dist_at d i \<le> best') \<and>
      (best' = best \<and> far' = far \<or> far' \<in> set js \<and> best' = dist_at d far')" for js best far
  proof (induction js arbitrary: best far)
    case (Cons i js)
    show ?case
    proof (cases "best < dist_at d i")
      case True
      with Cons [of "dist_at d i" i] show ?thesis by (auto split: prod.splits)
    next
      case False
      with Cons [of best far] show ?thesis by (auto split: prod.splits)
    qed
  qed simp
  obtain b f where r: "fold ?step ids (0, hd ids) = (b, f)" by fastforce
  have far: "farthest ids d = f" by (simp add: farthest_def r)
  have r1: "0 \<le> b" "\<forall>i \<in> set ids. dist_at d i \<le> b" "b = 0 \<and> f = hd ids \<or> f \<in> set ids \<and> b = dist_at d f"
    using run [where js = ids and best = 0 and far = "hd ids"] by (auto simp: r)
  show ?thesis
  proof (cases "f \<in> set ids \<and> b = dist_at d f")
    case False
    then have "b = 0" "f = hd ids" using r1(3) by auto
    with r1(2) assms show ?thesis by (simp add: far) (metis hd_in_set order_trans)
  qed (use r1 far in auto)
qed

text \<open>C24. The relaxation finds a longest path: in a graph without cycles whose edges lie between its tasks and
  whose estimates are not negative, the path is a chain of tasks each waiting for the one before, and no chain weighs
  more.\<close>

theorem critical_path_longest:
  assumes "good_edges g" "g_nodes g \<noteq> []"
  shows "chain g (an_path (analyze_critical_path g)) \<and>
    (chain g q \<longrightarrow> path_weight g q \<le> path_weight g (an_path (analyze_critical_path g)))"
proof -
  let ?x = "final_relaxation g" and ?ids = "jm_keys (g_nodes g)"
  let ?far = "farthest ?ids (rx_dist ?x)"
  have ids: "?ids \<noteq> []" using assms(2) by (simp add: jm_keys_def)
  have path: "an_path (analyze_critical_path g) = trace_back (rx_prev ?x) ?far []"
    using ids by (simp add: analyze_critical_path_def compute_critical_path_def Let_def final_relaxation_def blocks_of_def)
  have own: "weight g i \<le> dist_at (rx_dist ?x) i" if "i \<in> set ?ids" for i
    using final_dist [OF assms(1), of "[]" i] that by (simp add: chain_def path_weight_def)
  have "0 \<le> dist_at (rx_dist ?x) i" if "i \<in> set ?ids" for i
    using own [OF that] assms(1) by (meson good_edges_def order_trans)
  from farthest_max [OF ids this] have far: "?far \<in> set ?ids" "\<And>i. i \<in> set ?ids \<Longrightarrow> dist_at (rx_dist ?x) i \<le> dist_at (rx_dist ?x) ?far"
    by auto
  have "chain g [?far]" using far(1) by (simp add: chain_def)
  from trace_back_weight [OF assms(1) far(1) this]
  have tr: "chain g (an_path (analyze_critical_path g))"
    "path_weight g (an_path (analyze_critical_path g)) = dist_at (rx_dist ?x) ?far"
    by (simp_all add: path path_weight_def)
  have "path_weight g q \<le> dist_at (rx_dist ?x) ?far" if q: "chain g q"
  proof (cases q rule: rev_cases)
    case Nil
    have "0 \<le> dist_at (rx_dist ?x) ?far" using own [OF far(1)] assms(1) by (meson good_edges_def order_trans)
    with Nil show ?thesis by (simp add: path_weight_def)
  next
    case (snoc r i)
    then have "path_weight g q \<le> dist_at (rx_dist ?x) i" using final_dist [OF assms(1)] q by simp
    also have "\<dots> \<le> dist_at (rx_dist ?x) ?far" using q snoc by (intro far(2)) (simp add: chain_def)
    finally show ?thesis .
  qed
  with tr show ?thesis by simp
qed

section \<open>A small graph\<close>

definition small_task :: "string \<Rightarrow> task_status \<Rightarrow> task" where
  "small_task i s = (demo_task s)\<lparr>tn_id := i, tn_title := i\<rparr>"

definition small_edge :: "string \<Rightarrow> string \<Rightarrow> edge" where
  "small_edge a b = \<lparr>ed_id = a @ b, ed_from = a, ed_to = b, ed_type = EDependsOn\<rparr>"

text \<open>\<open>x\<close> waits for \<open>y\<close>, which waits for the completed \<open>a\<close>.\<close>

definition small_graph :: "task_status \<Rightarrow> graph" where
  "small_graph s =
     \<lparr>g_id = ''g'', g_spec = ''s'', g_title = ''t'',
      g_nodes = [(''x'', small_task ''x'' TPending), (''y'', small_task ''y'' TPending), (''a'', small_task ''a'' s)],
      g_edges = [small_edge ''x'' ''y'', small_edge ''y'' ''a''], g_roots = [''x'', ''y'', ''a''],
      g_created = 0, g_updated = 0\<rparr>"

text \<open>With its blocker's blocker completed, a task is put in a group before its own blocker.\<close>

theorem groups_out_of_order:
  "compute_parallel_groups (small_graph TCompleted) (blocked_by_map (g_edges (small_graph TCompleted))) = [[''x''], [''y'']]"
  by code_simp

lemma waits_list: "waits es = set (map (\<lambda>e. (ed_from e, ed_to e)) (filter (\<lambda>e. ed_type e = EDependsOn) es))"
  by (auto simp: waits_def)

lemma small_waits: "waits (g_edges (small_graph s)) = {(''x'', ''y''), (''y'', ''a'')}"
  by (simp add: waits_list small_graph_def small_edge_def)

lemma small_good: "good_edges (small_graph s)" "keyed (small_graph s)" "g_nodes (small_graph s) \<noteq> []"
proof -
  have "acyclic (waits (g_edges (small_graph s)))"
    unfolding small_waits by (simp add: acyclic_insert) (auto simp: acyclic_def elim: rtranclE)
  then show "good_edges (small_graph s)"
    by (auto simp: good_edges_def closed_edges_def small_graph_def small_edge_def jm_has_keys jm_keys_def weight_def jm_get_Cons
        small_task_def demo_task_def or_else_def split: option.splits)
  show "keyed (small_graph s)" by (simp add: keyed_def small_graph_def jm_wf_def jm_keys_def small_task_def)
  show "g_nodes (small_graph s) \<noteq> []" by (simp add: small_graph_def)
qed

lemma critical_path_longest_witness: "chain (small_graph TPending) (an_path (analyze_critical_path (small_graph TPending)))"
  using critical_path_longest [OF small_good(1,3)] by simp

lemma completed_blocker_isolates_witness:
  "distinct (concat (compute_parallel_groups (small_graph TCompleted) (blocked_by_map (g_edges (small_graph TCompleted)))))"
  using completed_blocker_isolates [OF small_good(2) [of TCompleted]] by (simp add: Let_def)

lemma readiness_inverted_witness:
  "set (ready_list (small_graph TPending)) = {i. jm_has (g_nodes (small_graph TPending)) i \<and>
     \<not> is_completed (small_graph TPending) i \<and>
     list_all (is_completed (small_graph TPending)) (get_dependents i \<lparr>tk_graph = Some (small_graph TPending), tk_transitions = []\<rparr>)}"
  by (rule readiness_inverted [OF small_good(2)]) simp

lemma groups_respect_blockers_witness: "''y'' \<in> set (concat [[''a''], [''y'']])"
proof (rule groups_respect_blockers [OF small_good(2) [of TPending], where i = "''x''" and grp = "[''x'']" and ys = "[]"])
  show "acyclic (waits (g_edges (small_graph TPending)))" using small_good(1) by (simp add: good_edges_def)
  show "\<not> is_completed (small_graph TPending) i" for i
    by (auto simp: is_completed_def small_graph_def jm_get_Cons small_task_def demo_task_def)
  show "(i, b) \<in> waits (g_edges (small_graph TPending)) \<Longrightarrow> jm_has (g_nodes (small_graph TPending)) b" for i b
    by (auto simp: small_waits) (simp_all add: small_graph_def jm_has_keys jm_keys_def)
  show "compute_parallel_groups (small_graph TPending) (blocked_by_map (g_edges (small_graph TPending))) =
      [[''a''], [''y'']] @ [''x''] # []" by code_simp
qed (simp_all add: small_waits)

lemma execution_order_sound_witness: "ordered (small_graph TPending) (topological_sort (small_graph TPending))"
proof -
  have "e \<in> set (g_edges (small_graph TPending)) \<Longrightarrow> ed_type e = EDependsOn" for e
    by (auto simp: small_graph_def small_edge_def)
  then have "steps (small_graph TPending) \<subseteq> waits (g_edges (small_graph TPending))"
    by (auto simp: steps_def edge_targets_def waits_def)
  then have "acyclic (steps (small_graph TPending))"
    using small_good(1) [of TPending] acyclic_subset by (auto simp: good_edges_def)
  from execution_order_sound [OF this] show ?thesis by simp
qed

end
