(* ===== verification/Auto_Executor.thy ===== *)
theory Auto_Executor
  imports Critical_Path "HOL-Library.While_Combinator"
begin

text \<open>
  The executor of a task graph, \<open>packages/core/src/sdd/auto-executor.ts\<close>, over the tracker that holds the graph.

  What the function that carries out a task does is an argument: the outcome of a task's n-th call, and whether
  \<open>stop\<close> is called meanwhile. The calls of a batch are taken one after the other: until the whole batch has ended
  each of them only changes the state of its own task, and no state that another one reads. The graph handed over is the one
  the tracker holds, so a change of state of one of its tasks does not fail. The loop is \<open>while_option\<close>: \<open>None\<close> when
  it does not end.
\<close>

section \<open>State\<close>

record task_result =
  rs_success :: bool
  rs_error :: "string option"
  rs_retry :: bool

datatype outcome = Answered task_result | Threw string | Start_threw string

record exec_env =
  ee_outcome :: "string \<Rightarrow> nat \<Rightarrow> outcome"
  ee_stop :: "nat \<Rightarrow> bool"
  ee_concurrent :: "nat option"
  ee_retries :: "nat option"
  ee_now :: nat

record executor =
  ex_tracker :: tracker
  ex_retries :: "(string, nat) jsmap"
  ex_stopped :: bool
  ex_calls :: "string list"
  ex_completed :: nat
  ex_failed :: nat
  ex_retried :: nat

section \<open>Ready tasks\<close>

text \<open>A blocker that is not in the graph is ignored.\<close>

definition exec_blockers :: "graph \<Rightarrow> string \<Rightarrow> task list" where
  "exec_blockers g i =
     List.map_filter (\<lambda>e. if ed_type e = EDependsOn \<and> ed_from e = i then jm_get (g_nodes g) (ed_to e) else None) (g_edges g)"

definition is_exec_ready :: "graph \<Rightarrow> task \<Rightarrow> bool" where
  "is_exec_ready g n = (tn_status n = TPending \<and>
     list_all (\<lambda>b. tn_status b = TCompleted) (exec_blockers g (tn_id n)))"

definition exec_ready :: "graph \<Rightarrow> task list" where
  "exec_ready g = sort_key (\<lambda>n. priority_rank (tn_priority n)) (filter (is_exec_ready g) (jm_values (g_nodes g)))"

definition ready_now :: "executor \<Rightarrow> task list" where
  "ready_now x = (case tk_graph (ex_tracker x) of None \<Rightarrow> [] | Some g \<Rightarrow> exec_ready g)"

section \<open>One task with its retries\<close>

definition set_state :: "exec_env \<Rightarrow> string \<Rightarrow> task_status \<Rightarrow> string option \<Rightarrow> executor \<Rightarrow> executor" where
  "set_state env i s r x =
     (case update_status i s r (ee_now env) (ex_tracker x) of
        Inl e \<Rightarrow> x
      | Inr (cs, k) \<Rightarrow> x\<lparr>ex_tracker := k\<rparr>)"

definition max_retries :: "exec_env \<Rightarrow> nat" where
  "max_retries env = (case ee_retries env of None \<Rightarrow> 2 | Some n \<Rightarrow> n)"

definition call_task :: "exec_env \<Rightarrow> string \<Rightarrow> executor \<Rightarrow> executor" where
  "call_task env i x = x\<lparr>ex_calls := ex_calls x @ [i], ex_stopped := ex_stopped x \<or> ee_stop env (length (ex_calls x))\<rparr>"

definition outcome_of :: "exec_env \<Rightarrow> string \<Rightarrow> executor \<Rightarrow> outcome" where
  "outcome_of env i x = ee_outcome env i (length (filter (\<lambda>j. j = i) (ex_calls x)))"

definition retry_later :: "exec_env \<Rightarrow> string \<Rightarrow> nat \<Rightarrow> executor \<Rightarrow> executor" where
  "retry_later env i count x = set_state env i TPending None (x\<lparr>ex_retries := jm_set i count (ex_retries x)\<rparr>)"

definition failure :: "string \<Rightarrow> task_result" where
  "failure e = \<lparr>rs_success = False, rs_error = Some e, rs_retry = False\<rparr>"

definition retries_of :: "string \<Rightarrow> executor \<Rightarrow> nat" where
  "retries_of i x = (case jm_get (ex_retries x) i of None \<Rightarrow> 0 | Some n \<Rightarrow> n)"

text \<open>\<open>Inl\<close>: the announcement of the start threw, and with it the whole attempt.\<close>

function run_attempts ::
  "exec_env \<Rightarrow> string \<Rightarrow> nat \<Rightarrow> executor \<Rightarrow> (string + task_result \<times> nat) \<times> executor" where
  "run_attempts env i count x =
     (if max_retries env < count then (Inr (failure ''Max retries exceeded'', count), x)
      else let x1 = set_state env i TInProgress None x in
        case outcome_of env i x1 of
          Start_threw e \<Rightarrow> (Inl e, x1)
        | Answered r \<Rightarrow>
            let x2 = call_task env i x1 in
            if rs_success r then (Inr (r, retries_of i x2), x2\<lparr>ex_retries := jm_del i (ex_retries x2)\<rparr>)
            else if rs_retry r \<and> count < max_retries env then run_attempts env i (count + 1) (retry_later env i (count + 1) x2)
            else (Inr (r, count), x2)
        | Threw e \<Rightarrow>
            let x2 = call_task env i x1 in
            if count < max_retries env then run_attempts env i (count + 1) (retry_later env i (count + 1) x2)
            else (Inr (failure e, count), x2))"
  by pat_completeness auto

termination by (relation "measure (\<lambda>(env, i, count, x). Suc (max_retries env) - count)") auto

declare run_attempts.simps [simp del]

definition execute_with_retry :: "exec_env \<Rightarrow> string \<Rightarrow> executor \<Rightarrow> (string + task_result \<times> nat) \<times> executor" where
  "execute_with_retry env i x = run_attempts env i (retries_of i x) x"

section \<open>Batches and the loop\<close>

fun run_batch :: "exec_env \<Rightarrow> string list \<Rightarrow> executor \<Rightarrow> (string \<times> (string + task_result \<times> nat)) list \<times> executor" where
  "run_batch env [] x = ([], x)"
| "run_batch env (i # is) x =
     (case execute_with_retry env i x of
        (r, x1) \<Rightarrow> (case run_batch env is x1 of (rs, x2) \<Rightarrow> ((i, r) # rs, x2)))"

definition settle_result :: "exec_env \<Rightarrow> string \<times> (string + task_result \<times> nat) \<Rightarrow> executor \<Rightarrow> executor" where
  "settle_result env ir x =
     (case ir of
        (i, Inl e) \<Rightarrow> (set_state env i TFailed (Some e) x)\<lparr>ex_failed := ex_failed x + 1\<rparr>
      | (i, Inr (r, retries)) \<Rightarrow>
          if rs_success r
          then (set_state env i TCompleted None x)
                 \<lparr>ex_completed := ex_completed x + 1, ex_retried := ex_retried x + (if 0 < retries then 1 else 0)\<rparr>
          else if rs_retry r then x\<lparr>ex_retried := ex_retried x + 1\<rparr>
          else (set_state env i TFailed (rs_error r) x)\<lparr>ex_failed := ex_failed x + 1\<rparr>)"

definition batch_of :: "exec_env \<Rightarrow> executor \<Rightarrow> string list" where
  "batch_of env x = map tn_id (take (case ee_concurrent env of None \<Rightarrow> 1 | Some n \<Rightarrow> n) (ready_now x))"

definition exec_round :: "exec_env \<Rightarrow> executor \<Rightarrow> executor" where
  "exec_round env x = (case run_batch env (batch_of env x) x of (rs, x1) \<Rightarrow> fold (settle_result env) rs x1)"

text \<open>With no task ready the loop ends on each of its three branches, whether all is done, deadlocked, or neither.\<close>

definition going :: "executor \<Rightarrow> bool" where
  "going x = (\<not> ex_stopped x \<and> ready_now x \<noteq> [])"

definition start_executor :: "tracker \<Rightarrow> executor" where
  "start_executor k = \<lparr>ex_tracker = k, ex_retries = [], ex_stopped = False, ex_calls = [], ex_completed = 0,
     ex_failed = 0, ex_retried = 0\<rparr>"

definition execute :: "exec_env \<Rightarrow> tracker \<Rightarrow> executor option" where
  "execute env k = while_option going (exec_round env) (start_executor k)"

record exec_summary =
  sm_total :: nat
  sm_completed :: nat
  sm_failed :: nat
  sm_skipped :: nat
  sm_retried :: nat
  sm_path :: "string list"

definition execute_graph :: "exec_env \<Rightarrow> graph \<Rightarrow> executor \<Rightarrow> exec_summary" where
  "execute_graph env g x =
     \<lparr>sm_total = length (g_nodes g), sm_completed = ex_completed x, sm_failed = ex_failed x, sm_skipped = 0,
      sm_retried = ex_retried x, sm_path = an_path (analyze_critical_path g)\<rparr>"

definition detect_deadlock :: "graph \<Rightarrow> bool" where
  "detect_deadlock g =
     (let remaining = filter (\<lambda>n. tn_status n = TPending \<or> tn_status n = TBlocked) (jm_values (g_nodes g))
      in remaining \<noteq> [] \<and>
         list_all (\<lambda>n. list_ex (\<lambda>b. tn_status b = TFailed) (exec_blockers g (tn_id n))) remaining)"

section \<open>What an operation changes\<close>

definition stat :: "executor \<Rightarrow> string \<Rightarrow> task_status option" where
  "stat x i = (case tk_graph (ex_tracker x) of None \<Rightarrow> None | Some g \<Rightarrow> map_option tn_status (jm_get (g_nodes g) i))"

definition task_keys :: "executor \<Rightarrow> string list" where
  "task_keys x = (case tk_graph (ex_tracker x) of None \<Rightarrow> [] | Some g \<Rightarrow> jm_keys (g_nodes g))"

definition sound_graph :: "executor \<Rightarrow> bool" where
  "sound_graph x = (case tk_graph (ex_tracker x) of None \<Rightarrow> True | Some g \<Rightarrow> keyed g)"

lemma keyed_set_status: "keyed g \<Longrightarrow> keyed (set_task_status i s now g)"
  by (auto simp: keyed_def set_task_status_def list_all_iff) (auto simp: jm_update_def)

lemma keyed_unblock: "keyed g \<Longrightarrow> keyed (fold (unblock_one now) ds g)"
  by (induction ds arbitrary: g) (auto simp: unblock_one_def keyed_set_status split: option.split)

lemma keys_unblock: "jm_keys (g_nodes (fold (unblock_one now) ds g)) = jm_keys (g_nodes g)"
  by (induction ds arbitrary: g) (auto simp: unblock_one_def set_task_status_def split: option.split)

lemma keyed_set: "keyed g \<Longrightarrow> tn_id n = i \<Longrightarrow> keyed (g\<lparr>g_nodes := jm_set i n (g_nodes g)\<rparr>)"
proof -
  have "list_all (\<lambda>(i, n). tn_id n = i) m \<Longrightarrow> tn_id n = i \<Longrightarrow> list_all (\<lambda>(i, n). tn_id n = i) (jm_set i n m)" for m
    by (induction m) auto
  then show "keyed g \<Longrightarrow> tn_id n = i \<Longrightarrow> ?thesis" by (simp add: keyed_def)
qed

lemma unblock_fold_eq: "unblock_dependents i now g =
    fold (unblock_one now) (map ed_to (filter (\<lambda>e. ed_from e = i \<and> ed_type e = EDependsOn) (g_edges g))) g"
  by (simp add: unblock_dependents_def unblock_one_def [abs_def])

lemma update_status_effect:
  assumes "tk_graph k = Some g" "jm_get (g_nodes g) i = Some n" "keyed g"
  obtains cs k' g' where "update_status i s r now k = Inr (cs, k')" "tk_graph k' = Some g'" "keyed g'"
    "jm_keys (g_nodes g') = jm_keys (g_nodes g)"
    "map_option tn_status (jm_get (g_nodes g') i) = Some s \<or>
      s = TInProgress \<and> map_option tn_status (jm_get (g_nodes g') i) = Some TBlocked"
    "\<And>d. d \<noteq> i \<Longrightarrow> map_option tn_status (jm_get (g_nodes g') d) = map_option tn_status (jm_get (g_nodes g) d) \<or>
      s = TCompleted \<and> map_option tn_status (jm_get (g_nodes g) d) = Some TBlocked \<and>
      map_option tn_status (jm_get (g_nodes g') d) = Some TPending"
proof -
  define n3 where "n3 = (let n1 = n\<lparr>tn_status := s, tn_updated := now\<rparr>;
      n2 = (if s = TCompleted then n1\<lparr>tn_completed := Some now,
              tn_started := (case tn_started n1 of None \<Rightarrow> Some now | Some x \<Rightarrow> Some x)\<rparr> else n1)
    in if s = TInProgress then n2\<lparr>tn_started := Some now\<rparr> else n2)"
  define g1 where "g1 = g\<lparr>g_nodes := jm_set i n3 (g_nodes g)\<rparr>"
  define g2 where "g2 = (if s = TCompleted then unblock_dependents i now g1 else g1)"
  define g3 where "g3 = (if s = TInProgress then check_and_block i now g2 else g2)"
  have n3: "tn_id n3 = i" "tn_status n3 = s" using keyed_id [OF assms(3,2)] by (simp_all add: n3_def Let_def)
  have has: "jm_has (g_nodes g) i" using assms(2) by (simp add: jm_has_def)
  have k1: "keyed g1" "jm_keys (g_nodes g1) = jm_keys (g_nodes g)"
    using keyed_set [OF assms(3) n3(1)] has by (simp_all add: g1_def jm_has_keys)
  have k2: "keyed g2" "jm_keys (g_nodes g2) = jm_keys (g_nodes g)"
    using k1 by (simp_all add: g2_def unblock_fold_eq keyed_unblock keys_unblock)
  have k3: "keyed g3" "jm_keys (g_nodes g3) = jm_keys (g_nodes g)"
    using k2 by (simp_all add: g3_def check_and_block_def keyed_set_status) (simp_all add: set_task_status_def)

  have s2: "map_option tn_status (jm_get (g_nodes g2) i) = Some s"
    by (auto simp: g2_def unblock_dependents_get unblocked_by_def g1_def n3)
  have o2: "map_option tn_status (jm_get (g_nodes g2) d) = map_option tn_status (jm_get (g_nodes g) d) \<or>
      s = TCompleted \<and> map_option tn_status (jm_get (g_nodes g) d) = Some TBlocked \<and>
      map_option tn_status (jm_get (g_nodes g2) d) = Some TPending" if "d \<noteq> i" for d
  proof -
    have "jm_get (g_nodes g1) d = jm_get (g_nodes g) d" using that by (simp add: g1_def)
    with that show ?thesis
      by (cases "jm_get (g_nodes g) d") (auto simp: g2_def unblock_dependents_get unblocked_by_def)
  qed
  have s3: "map_option tn_status (jm_get (g_nodes g3) i) = Some s \<or>
      s = TInProgress \<and> map_option tn_status (jm_get (g_nodes g3) i) = Some TBlocked"
    using s2 by (auto simp: g3_def check_and_block_get)
  have o3: "jm_get (g_nodes g3) d = jm_get (g_nodes g2) d" if "d \<noteq> i" for d
    using that by (simp add: g3_def check_and_block_get)
  have "\<exists>cs k'. update_status i s r now k = Inr (cs, k') \<and> tk_graph k' = Some (g3\<lparr>g_updated := now\<rparr>)"
    by (simp add: update_status_def assms(1,2) Let_def g3_def g2_def g1_def n3_def)
  then obtain cs k' where "update_status i s r now k = Inr (cs, k')" "tk_graph k' = Some (g3\<lparr>g_updated := now\<rparr>)" by blast
  then show ?thesis
  proof (rule that)
    show "keyed (g3\<lparr>g_updated := now\<rparr>)" using k3(1) by (simp add: keyed_def)
  qed (use k3(2) s3 o2 o3 in simp_all)
qed

lemma set_state_stat:
  assumes "sound_graph x" "stat x i \<noteq> None"
  shows "sound_graph (set_state env i s r x)" "task_keys (set_state env i s r x) = task_keys x"
    "stat (set_state env i s r x) i = Some s \<or> s = TInProgress \<and> stat (set_state env i s r x) i = Some TBlocked"
    "d \<noteq> i \<Longrightarrow> stat (set_state env i s r x) d = stat x d \<or>
      s = TCompleted \<and> stat x d = Some TBlocked \<and> stat (set_state env i s r x) d = Some TPending"
proof -
  obtain g n where g: "tk_graph (ex_tracker x) = Some g" "jm_get (g_nodes g) i = Some n"
    using assms(2) by (auto simp: stat_def split: option.splits)
  then have "keyed g" using assms(1) by (simp add: sound_graph_def)
  from update_status_effect [OF g this, of s r "ee_now env"] obtain cs k' g' where
    u: "update_status i s r (ee_now env) (ex_tracker x) = Inr (cs, k')" "tk_graph k' = Some g'" "keyed g'"
      "jm_keys (g_nodes g') = jm_keys (g_nodes g)"
    and st: "map_option tn_status (jm_get (g_nodes g') i) = Some s \<or>
      s = TInProgress \<and> map_option tn_status (jm_get (g_nodes g') i) = Some TBlocked"
    and ot: "\<And>d. d \<noteq> i \<Longrightarrow> map_option tn_status (jm_get (g_nodes g') d) = map_option tn_status (jm_get (g_nodes g) d) \<or>
      s = TCompleted \<and> map_option tn_status (jm_get (g_nodes g) d) = Some TBlocked \<and>
      map_option tn_status (jm_get (g_nodes g') d) = Some TPending" by metis
  show "sound_graph (set_state env i s r x)" "task_keys (set_state env i s r x) = task_keys x"
    using u g by (simp_all add: set_state_def sound_graph_def task_keys_def)
  show "stat (set_state env i s r x) i = Some s \<or> s = TInProgress \<and> stat (set_state env i s r x) i = Some TBlocked"
    using st u(1,2) by (simp add: set_state_def stat_def)
  show "d \<noteq> i \<Longrightarrow> stat (set_state env i s r x) d = stat x d \<or>
      s = TCompleted \<and> stat x d = Some TBlocked \<and> stat (set_state env i s r x) d = Some TPending"
    using ot [of d] u(1,2) g(1) by (simp add: set_state_def stat_def)
qed

lemma stat_frame [simp]:
  "stat (call_task env i x) d = stat x d" "stat (x\<lparr>ex_retries := m\<rparr>) d = stat x d" "stat (x\<lparr>ex_completed := a\<rparr>) d = stat x d"
  "stat (x\<lparr>ex_failed := b\<rparr>) d = stat x d" "stat (x\<lparr>ex_retried := c\<rparr>) d = stat x d"
  "sound_graph (call_task env i x) = sound_graph x" "sound_graph (x\<lparr>ex_retries := m\<rparr>) = sound_graph x"
  "sound_graph (x\<lparr>ex_completed := a\<rparr>) = sound_graph x" "sound_graph (x\<lparr>ex_failed := b\<rparr>) = sound_graph x"
  "sound_graph (x\<lparr>ex_retried := c\<rparr>) = sound_graph x"
  "task_keys (call_task env i x) = task_keys x" "task_keys (x\<lparr>ex_retries := m\<rparr>) = task_keys x"
  "task_keys (x\<lparr>ex_completed := a\<rparr>) = task_keys x" "task_keys (x\<lparr>ex_failed := b\<rparr>) = task_keys x"
  "task_keys (x\<lparr>ex_retried := c\<rparr>) = task_keys x"
  by (simp_all add: stat_def call_task_def sound_graph_def task_keys_def)

lemma stat_keys: "stat x i \<noteq> None \<longleftrightarrow> i \<in> set (task_keys x)"
  by (auto simp: stat_def task_keys_def jm_has_keys [symmetric] jm_has_def split: option.split)

text \<open>What a task's attempts leave: nothing else has changed, and the task is in progress or blocked if it was tried.\<close>

lemma attempts_stat:
  "sound_graph x \<Longrightarrow> stat x i \<noteq> None \<Longrightarrow>
   case run_attempts env i count x of (r, y) \<Rightarrow>
     sound_graph y \<and> task_keys y = task_keys x \<and> (\<forall>d. d \<noteq> i \<longrightarrow> stat y d = stat x d) \<and>
     (if max_retries env < count then stat y i = stat x i \<and> r = Inr (failure ''Max retries exceeded'', count)
      else stat y i = Some TInProgress \<or> stat y i = Some TBlocked)"
proof (induction env i count x rule: run_attempts.induct)
  case (1 env i count x)
  show ?case
  proof (cases "max_retries env < count")
    case True
    then show ?thesis using 1(3,4) by (simp add: run_attempts.simps)
  next
    case False
    define x1 where "x1 = set_state env i TInProgress None x"
    note s1 = set_state_stat [OF 1(3,4), where env = env and s = TInProgress and r = None, folded x1_def]
    have p1: "stat x1 i = Some TInProgress \<or> stat x1 i = Some TBlocked" "\<And>d. d \<noteq> i \<Longrightarrow> stat x1 d = stat x d"
      using s1(3,4) by auto
    define x2 where "x2 = call_task env i x1"
    define x3 where "x3 = retry_later env i (count + 1) x2"
    let ?z = "x2\<lparr>ex_retries := jm_set i (count + 1) (ex_retries x2)\<rparr>"
    have "sound_graph ?z" "stat ?z i \<noteq> None" using s1(1) p1(1) by (auto simp: x2_def)
    note s3 = set_state_stat [OF this, where env = env and s = TPending and r = None, folded retry_later_def, folded x3_def]
    have p3: "sound_graph x3" "stat x3 i \<noteq> None" "task_keys x3 = task_keys x" "\<And>d. d \<noteq> i \<Longrightarrow> stat x3 d = stat x d"
      using s3 s1(2) p1(2) by (auto simp: x2_def)
    have again: "case run_attempts env i (count + 1) x3 of (r, y) \<Rightarrow>
        sound_graph y \<and> task_keys y = task_keys x \<and> (\<forall>d. d \<noteq> i \<longrightarrow> stat y d = stat x d) \<and>
        (stat y i = Some TInProgress \<or> stat y i = Some TBlocked)"
      if "count < max_retries env"
        "case run_attempts env i (count + 1) x3 of (r, y) \<Rightarrow>
           sound_graph y \<and> task_keys y = task_keys x3 \<and> (\<forall>d. d \<noteq> i \<longrightarrow> stat y d = stat x3 d) \<and>
           (if max_retries env < count + 1 then stat y i = stat x3 i \<and> r = Inr (failure ''Max retries exceeded'', count + 1)
            else stat y i = Some TInProgress \<or> stat y i = Some TBlocked)"
      using that p3 by (auto split: prod.splits)
    have eq: "run_attempts env i count x =
        (case outcome_of env i x1 of
           Start_threw e \<Rightarrow> (Inl e, x1)
         | Answered r \<Rightarrow>
             if rs_success r then (Inr (r, retries_of i x2), x2\<lparr>ex_retries := jm_del i (ex_retries x2)\<rparr>)
             else if rs_retry r \<and> count < max_retries env then run_attempts env i (count + 1) x3
             else (Inr (r, count), x2)
         | Threw e \<Rightarrow>
             if count < max_retries env then run_attempts env i (count + 1) x3 else (Inr (failure e, count), x2))"
      using False unfolding x3_def x2_def x1_def
      by (subst run_attempts.simps) (simp add: Let_def cong: outcome.case_cong)
    have p2: "sound_graph x1 \<and> task_keys x1 = task_keys x \<and> stat x2 d = stat x1 d \<and> sound_graph x2 \<and> task_keys x2 = task_keys x" for d
      using s1 by (simp add: x2_def)
    show ?thesis
    proof (cases "outcome_of env i x1")
      case (Start_threw e)
      with p1 p2 False show ?thesis by (simp add: eq)
    next
      case (Answered r)
      show ?thesis
      proof (cases "\<not> rs_success r \<and> rs_retry r \<and> count < max_retries env")
        case True
        with again 1(1) [OF False x1_def Answered x2_def, folded x3_def, OF _ _ p3(1,2)] False show ?thesis
          by (simp add: eq Answered)
      next
        case not_again: False
        with p1 p2 False show ?thesis by (auto simp: eq Answered)
      qed
    next
      case (Threw e)
      show ?thesis
      proof (cases "count < max_retries env")
        case True
        with again 1(2) [OF False x1_def Threw x2_def True, folded x3_def, OF p3(1,2)] False show ?thesis
          by (simp add: eq Threw)
      next
        case not_again: False
        with p1 p2 False show ?thesis by (auto simp: eq Threw)
      qed
    qed
  qed
qed

section \<open>The loop ends\<close>

definition with_status :: "executor \<Rightarrow> (task_status option \<Rightarrow> bool) \<Rightarrow> string set" where
  "with_status x P = {i \<in> set (task_keys x). P (stat x i)}"

definition pending_set :: "executor \<Rightarrow> string set" where
  "pending_set x = with_status x (\<lambda>s. s = Some TPending)"

definition unfinished_set :: "executor \<Rightarrow> string set" where
  "unfinished_set x = with_status x (\<lambda>s. s \<noteq> Some TCompleted)"

definition work_left :: "executor \<Rightarrow> nat" where
  "work_left x = card (unfinished_set x) * (card (set (task_keys x)) + 1) + card (pending_set x)"

text \<open>Progress: something was completed, or no further task is pending.\<close>

definition onward :: "executor \<Rightarrow> executor \<Rightarrow> bool" where
  "onward x y = (sound_graph y \<and> task_keys y = task_keys x \<and>
     (unfinished_set y \<subset> unfinished_set x \<or> unfinished_set y = unfinished_set x \<and> pending_set y \<subseteq> pending_set x))"

lemma onward_refl: "sound_graph x \<Longrightarrow> onward x x"
  by (simp add: onward_def)

lemma onward_trans: "onward x y \<Longrightarrow> onward y z \<Longrightarrow> onward x z"
  unfolding onward_def by (elim conjE disjE) auto

lemma finite_sets [simp]: "finite (pending_set x)" "finite (unfinished_set x)"
  by (simp_all add: pending_set_def unfinished_set_def with_status_def)

lemma onward_less:
  assumes "onward x y" "unfinished_set y \<noteq> unfinished_set x \<or> i \<in> pending_set x \<and> i \<notin> pending_set y"
  shows "work_left y < work_left x"
proof (cases "unfinished_set y = unfinished_set x")
  case True
  then have "pending_set y \<subset> pending_set x" using assms unfolding onward_def by blast
  then have "card (pending_set y) < card (pending_set x)" by (simp add: psubset_card_mono)
  with True assms(1) show ?thesis by (simp add: work_left_def onward_def)
next
  case False
  then have "unfinished_set y \<subset> unfinished_set x" using assms(1) unfolding onward_def by blast
  then have less: "card (unfinished_set y) + 1 \<le> card (unfinished_set x)" by (simp add: psubset_card_mono Suc_leI)
  let ?n = "card (set (task_keys x))"
  have keys: "task_keys y = task_keys x" using assms(1) by (simp add: onward_def)
  have "pending_set y \<subseteq> set (task_keys x)" by (auto simp: pending_set_def with_status_def keys)
  then have "card (pending_set y) \<le> ?n" by (simp add: card_mono)
  then have "work_left y \<le> card (unfinished_set y) * (?n + 1) + ?n" by (simp add: work_left_def keys)
  also have "\<dots> < (card (unfinished_set y) + 1) * (?n + 1)" by simp
  also have "\<dots> \<le> card (unfinished_set x) * (?n + 1)" using less by (intro mult_le_mono1)
  also have "\<dots> \<le> work_left x" by (simp add: work_left_def)
  finally show ?thesis .
qed

text \<open>The attempts of a task that is not completed.\<close>

lemma attempts_onward:
  assumes "sound_graph x" "stat x i \<noteq> None" "stat x i \<noteq> Some TCompleted"
  shows "onward x (snd (execute_with_retry env i x))"
    "d \<noteq> i \<Longrightarrow> stat (snd (execute_with_retry env i x)) d = stat x d"
    "stat (snd (execute_with_retry env i x)) i \<noteq> Some TCompleted"
    "stat (snd (execute_with_retry env i x)) i = Some TPending \<Longrightarrow>
       fst (execute_with_retry env i x) = Inr (failure ''Max retries exceeded'', retries_of i x)"
proof -
  obtain r y where y: "execute_with_retry env i x = (r, y)" by fastforce
  have p: "sound_graph y" "task_keys y = task_keys x" "\<And>d. d \<noteq> i \<Longrightarrow> stat y d = stat x d"
    "(if max_retries env < retries_of i x
      then stat y i = stat x i \<and> r = Inr (failure ''Max retries exceeded'', retries_of i x)
      else stat y i = Some TInProgress \<or> stat y i = Some TBlocked)"
    using attempts_stat [OF assms(1,2), of env "retries_of i x"] y by (auto simp: execute_with_retry_def)
  have i: "stat y i \<noteq> Some TCompleted" "stat y i = Some TPending \<Longrightarrow> stat x i = Some TPending"
    using p(4) assms(3) by (auto split: if_splits)
  have "unfinished_set y = unfinished_set x"
    using p(2,3) i(1) assms(3) unfolding unfinished_set_def with_status_def by (metis (mono_tags, lifting))
  moreover have "pending_set y \<subseteq> pending_set x"
    using p(2,3) i(2) unfolding pending_set_def with_status_def by (metis (mono_tags, lifting) mem_Collect_eq subsetI)
  ultimately show "onward x (snd (execute_with_retry env i x))" by (simp add: onward_def y p(1,2))
  show "d \<noteq> i \<Longrightarrow> stat (snd (execute_with_retry env i x)) d = stat x d" by (simp add: y p(3))
  show "stat (snd (execute_with_retry env i x)) i \<noteq> Some TCompleted" by (simp add: y i(1))
  show "stat (snd (execute_with_retry env i x)) i = Some TPending \<Longrightarrow>
       fst (execute_with_retry env i x) = Inr (failure ''Max retries exceeded'', retries_of i x)"
    using p(4) by (auto simp: y split: if_splits)
qed

lemma batch_onward:
  "sound_graph x \<Longrightarrow> distinct is \<Longrightarrow> list_all (\<lambda>i. stat x i \<noteq> None \<and> stat x i \<noteq> Some TCompleted) is \<Longrightarrow>
   case run_batch env is x of (rs, y) \<Rightarrow>
     onward x y \<and> map fst rs = is \<and> (\<forall>d. d \<notin> set is \<longrightarrow> stat y d = stat x d) \<and>
     list_all (\<lambda>i. stat y i \<noteq> Some TCompleted) is"
proof (induction env "is" x rule: run_batch.induct)
  case (2 env i "is" x)
  let ?x1 = "snd (execute_with_retry env i x)"
  have a: "stat x i \<noteq> None" "stat x i \<noteq> Some TCompleted" using 2 by auto
  note one = attempts_onward [OF 2(2) a, where env = env]
  have "sound_graph ?x1" using one(1) by (simp add: onward_def)
  moreover have "list_all (\<lambda>i. stat ?x1 i \<noteq> None \<and> stat ?x1 i \<noteq> Some TCompleted) is"
    unfolding list_all_iff
  proof
    fix j assume j: "j \<in> set is"
    then have "j \<noteq> i" using 2(3) by auto
    with one(2) [of j] 2(4) j show "stat ?x1 j \<noteq> None \<and> stat ?x1 j \<noteq> Some TCompleted" by (simp add: list_all_iff)
  qed
  ultimately have "case run_batch env is ?x1 of (rs, y) \<Rightarrow>
     onward ?x1 y \<and> map fst rs = is \<and> (\<forall>d. d \<notin> set is \<longrightarrow> stat y d = stat ?x1 d) \<and>
     list_all (\<lambda>i. stat y i \<noteq> Some TCompleted) is"
    using 2(1) [of "fst (execute_with_retry env i x)" ?x1] 2(3) by simp
  then show ?case
    using one 2(3) by (auto split: prod.splits intro: onward_trans)
qed (simp add: onward_refl)

lemma set_state_onward:
  assumes "sound_graph x" "stat x i \<noteq> None" "stat x i \<noteq> Some TCompleted" "s = TCompleted \<or> s = TFailed"
  shows "onward x (set_state env i s r x)" "stat (set_state env i s r x) i = Some s"
    "d \<noteq> i \<Longrightarrow> stat (set_state env i s r x) d = Some TCompleted \<Longrightarrow> stat x d = Some TCompleted"
proof -
  note e = set_state_stat [OF assms(1,2), where env = env and s = s and r = r]
  let ?y = "set_state env i s r x"
  show yi: "stat ?y i = Some s" using e(3) assms(4) by auto
  show other: "d \<noteq> i \<Longrightarrow> stat ?y d = Some TCompleted \<Longrightarrow> stat x d = Some TCompleted" for d
    using e(4) [of d] by auto
  have ik: "i \<in> set (task_keys x)" using assms(2) stat_keys by blast
  show "onward x ?y"
  proof (cases "s = TCompleted")
    case True
    have "unfinished_set ?y \<subseteq> unfinished_set x"
    proof
      fix d assume d: "d \<in> unfinished_set ?y"
      then have "d \<noteq> i" using yi True by (auto simp: unfinished_set_def with_status_def)
      with d e(2) e(4) [of d] show "d \<in> unfinished_set x" by (auto simp: unfinished_set_def with_status_def)
    qed
    moreover have "i \<in> unfinished_set x" "i \<notin> unfinished_set ?y"
      using ik assms(3) yi True by (auto simp: unfinished_set_def with_status_def)
    ultimately show ?thesis using e(1,2) unfolding onward_def by blast
  next
    case False
    have same: "d \<noteq> i \<Longrightarrow> stat ?y d = stat x d" for d using e(4) [of d] False by auto
    have "unfinished_set ?y = unfinished_set x"
      using same yi assms(3) False e(2) unfolding unfinished_set_def with_status_def
      by (metis (mono_tags, lifting) option.inject)
    moreover have "pending_set ?y \<subseteq> pending_set x"
    proof
      fix d assume "d \<in> pending_set ?y"
      with same [of d] yi e(2) assms(4) show "d \<in> pending_set x"
        by (cases "d = i") (auto simp: pending_set_def with_status_def)
    qed
    ultimately show ?thesis using e(1,2) by (simp add: onward_def)
  qed
qed

lemma onward_frame [simp]:
  "onward x (y\<lparr>ex_completed := a\<rparr>) = onward x y" "onward x (y\<lparr>ex_failed := b\<rparr>) = onward x y"
  "onward x (y\<lparr>ex_retried := c\<rparr>) = onward x y"
  by (simp_all add: onward_def unfinished_set_def pending_set_def with_status_def)

lemma settle_onward:
  assumes "sound_graph x" "stat x i \<noteq> None" "stat x i \<noteq> Some TCompleted"
  shows "onward x (settle_result env (i, r) x)"
    "d \<noteq> i \<Longrightarrow> stat (settle_result env (i, r) x) d = Some TCompleted \<Longrightarrow> stat x d = Some TCompleted"
proof -
  note f = set_state_onward [OF assms, where env = env]
  show "onward x (settle_result env (i, r) x)"
    using f(1) onward_refl [OF assms(1)] by (auto simp: settle_result_def split: sum.split prod.split)
  show "d \<noteq> i \<Longrightarrow> stat (settle_result env (i, r) x) d = Some TCompleted \<Longrightarrow> stat x d = Some TCompleted"
    using f(3) by (auto simp: settle_result_def split: sum.splits prod.splits if_splits)
qed

lemma settles_onward:
  "sound_graph x \<Longrightarrow> distinct (map fst rs) \<Longrightarrow> list_all (\<lambda>ir. stat x (fst ir) \<noteq> None \<and> stat x (fst ir) \<noteq> Some TCompleted) rs \<Longrightarrow>
     onward x (fold (settle_result env) rs x)"
proof (induction rs arbitrary: x)
  case (Cons ir rs)
  obtain i r where ir: "ir = (i, r)" by fastforce
  let ?y = "settle_result env (i, r) x"
  have a: "stat x i \<noteq> None" "stat x i \<noteq> Some TCompleted" using Cons.prems(3) by (auto simp: ir)
  note one = settle_onward [OF Cons.prems(1) a, where env = env and r = r]
  have keys: "task_keys ?y = task_keys x" "sound_graph ?y" using one(1) by (auto simp: onward_def)
  have "stat ?y (fst q) \<noteq> None \<and> stat ?y (fst q) \<noteq> Some TCompleted" if "q \<in> set rs" for q
  proof -
    have "fst q \<noteq> i" "stat x (fst q) \<noteq> None" "stat x (fst q) \<noteq> Some TCompleted"
      using that Cons.prems(2,3) by (auto simp: ir list_all_iff)
    with one(2) [of "fst q"] show ?thesis using keys(1) stat_keys by metis
  qed
  then have "onward ?y (fold (settle_result env) rs ?y)"
    using Cons.prems(2) keys(2) by (intro Cons.IH) (auto simp: list_all_iff)
  with one(1) show ?case by (simp add: ir onward_trans)
qed (simp add: onward_refl)

lemma ready_now_pending: "sound_graph x \<Longrightarrow> n \<in> set (ready_now x) \<Longrightarrow> stat x (tn_id n) = Some TPending"
  using keyed_values by (auto simp: ready_now_def exec_ready_def is_exec_ready_def sound_graph_def stat_def split: option.splits)

lemma ready_now_distinct:
  assumes "sound_graph x" shows "distinct (map tn_id (ready_now x))"
proof (cases "tk_graph (ex_tracker x)")
  case (Some g)
  then have k: "keyed g" using assms by (simp add: sound_graph_def)
  have ids: "list_all (\<lambda>(i, n). tn_id n = i) m \<Longrightarrow> map tn_id (jm_values m) = jm_keys m" for m
    by (induction m) (auto simp: jm_values_def jm_keys_def)
  have "distinct (map tn_id (jm_values (g_nodes g)))"
    using k ids [of "g_nodes g"] by (metis jm_wf_def keyed_def)
  then show ?thesis using Some by (auto simp: ready_now_def exec_ready_def distinct_map intro: inj_on_subset)
qed (simp add: ready_now_def)

lemma batch_facts:
  assumes "sound_graph x"
  shows "distinct (batch_of env x)" "\<And>i. i \<in> set (batch_of env x) \<Longrightarrow> stat x i = Some TPending"
proof -
  show "distinct (batch_of env x)"
    using ready_now_distinct [OF assms] by (simp add: batch_of_def flip: take_map)
  show "\<And>i. i \<in> set (batch_of env x) \<Longrightarrow> stat x i = Some TPending"
    using ready_now_pending [OF assms] by (auto simp: batch_of_def dest: in_set_takeD)
qed

lemma settled_not_pending:
  assumes "sound_graph x" "stat x i \<noteq> None" "stat x i \<noteq> Some TCompleted"
    "stat x i = Some TPending \<Longrightarrow> r = Inr (failure e, n)"
  shows "stat (settle_result env (i, r) x) i \<noteq> Some TPending"
proof -
  note f = set_state_onward(2) [OF assms(1-3), where env = env]
  show ?thesis using f assms(4) by (auto simp: settle_result_def failure_def split: sum.split prod.split)
qed

lemma round_onward:
  assumes "sound_graph x" "batch_of env x \<noteq> []"
  shows "onward x (exec_round env x) \<and> work_left (exec_round env x) < work_left x"
proof -
  obtain i js where b: "batch_of env x = i # js" using assms(2) by (cases "batch_of env x") auto
  note facts = batch_facts [OF assms(1), where env = env, unfolded b]
  have p: "stat x i = Some TPending" "i \<notin> set js" using facts by auto
  obtain r x1 where 1: "execute_with_retry env i x = (r, x1)" by fastforce
  obtain rs x2 where 2: "run_batch env js x1 = (rs, x2)" by fastforce
  define x3 where "x3 = settle_result env (i, r) x2"
  have round: "exec_round env x = fold (settle_result env) rs x3"
    by (simp add: exec_round_def b 1 2 x3_def)
  note one = attempts_onward [OF assms(1), where i = i and env = env, unfolded 1 snd_conv fst_conv]
  have js: "list_all (\<lambda>j. stat x1 j \<noteq> None \<and> stat x1 j \<noteq> Some TCompleted) js"
    unfolding list_all_iff
  proof
    fix j assume "j \<in> set js"
    then have "j \<noteq> i" "stat x j = Some TPending" using facts p(2) by auto
    with one(2) [of j] p(1) show "stat x1 j \<noteq> None \<and> stat x1 j \<noteq> Some TCompleted" by simp
  qed
  have o1: "onward x x1" using one(1) p(1) by simp
  then have s1: "sound_graph x1" by (simp add: onward_def)
  have two: "onward x1 x2" "map fst rs = js" "\<And>d. d \<notin> set js \<Longrightarrow> stat x2 d = stat x1 d"
    "\<And>j. j \<in> set js \<Longrightarrow> stat x2 j \<noteq> Some TCompleted"
    using batch_onward [OF s1 _ js, of env] facts(1) by (auto simp: 2 list_all_iff)
  have keys: "task_keys x2 = task_keys x" "sound_graph x2" using o1 two(1) by (auto simp: onward_def)
  have i2: "stat x2 i = stat x1 i" using two(3) p(2) by simp
  have in2: "stat x2 j \<noteq> None" if "stat x j \<noteq> None" for j using that stat_keys keys(1) by metis
  have c2: "stat x2 i \<noteq> None" "stat x2 i \<noteq> Some TCompleted" using in2 [of i] p(1) one(3) i2 by auto
  have notp: "stat x3 i \<noteq> Some TPending" unfolding x3_def
    by (rule settled_not_pending [OF keys(2) c2]) (use one(4) i2 p(1) in auto)
  note three = settle_onward [OF keys(2) c2, where env = env and r = r, folded x3_def]
  have s3: "sound_graph x3" "task_keys x3 = task_keys x" using three(1) keys by (auto simp: onward_def)
  have "stat x3 j \<noteq> None \<and> stat x3 j \<noteq> Some TCompleted" if j: "j \<in> set js" for j
  proof -
    have "j \<noteq> i" "stat x j \<noteq> None" using j facts p(2) by auto
    then show ?thesis using three(2) [of j] two(4) [OF j] s3(2) stat_keys by metis
  qed
  then have "list_all (\<lambda>j. stat x3 j \<noteq> None \<and> stat x3 j \<noteq> Some TCompleted) (map fst rs)"
    unfolding two(2) list_all_iff by blast
  then have "list_all (\<lambda>ir. stat x3 (fst ir) \<noteq> None \<and> stat x3 (fst ir) \<noteq> Some TCompleted) rs"
    by (simp add: list_all_iff)
  from settles_onward [OF s3(1) _ this, of env] have four: "onward x3 (exec_round env x)"
    using two(2) facts(1) by (simp add: round)
  have x3: "onward x x3" using o1 two(1) three(1) onward_trans by blast
  have "i \<in> pending_set x" using p(1) stat_keys [of x i] by (auto simp: pending_set_def with_status_def)
  moreover have "i \<notin> pending_set x3" using notp by (simp add: pending_set_def with_status_def)
  ultimately have "work_left x3 < work_left x" by (intro onward_less [OF x3]) blast
  moreover have "work_left (exec_round env x) \<le> work_left x3"
  proof (cases "unfinished_set (exec_round env x) = unfinished_set x3")
    case True
    with four show ?thesis by (auto simp: onward_def work_left_def intro!: card_mono)
  next
    case False
    with onward_less [OF four] show ?thesis by force
  qed
  ultimately show ?thesis using onward_trans [OF x3 four] by simp
qed

text \<open>C23. The executor comes to an end, on every graph and whatever the tasks do: it has been stopped, or nothing is
  ready any more.\<close>

theorem executor_terminates:
  assumes "case tk_graph k of None \<Rightarrow> True | Some g \<Rightarrow> keyed g" "ee_concurrent env \<noteq> Some 0"
  shows "case execute env k of None \<Rightarrow> False | Some x \<Rightarrow> ex_stopped x \<or> ready_now x = []"
proof -
  have batch: "batch_of env x \<noteq> []" if "going x" for x
    using that assms(2) by (auto simp: going_def batch_of_def split: option.splits)
  have "\<exists>x. while_option going (exec_round env) (start_executor k) = Some x"
  proof (rule measure_while_option_Some [where P = sound_graph and f = work_left])
    show "sound_graph (start_executor k)" using assms(1) by (simp add: sound_graph_def start_executor_def)
    show "sound_graph (exec_round env x) \<and> work_left (exec_round env x) < work_left x" if "sound_graph x" "going x" for x
      using round_onward [OF that(1) batch [OF that(2)]] by (simp add: onward_def)
  qed
  then obtain x where x: "execute env k = Some x" by (auto simp: execute_def)
  then have "\<not> going x" unfolding execute_def by (rule while_option_stop)
  with x show ?thesis by (simp add: going_def)
qed

text \<open>With a concurrency of zero it does not: the batch is empty, and the loop turns for ever.\<close>

theorem zero_concurrency_hangs:
  assumes "ee_concurrent env = Some 0" "tk_graph k = Some g" "exec_ready g \<noteq> []"
  shows "execute env k = None"
proof -
  let ?x = "start_executor k"
  have "exec_round env ?x = ?x" by (simp add: exec_round_def batch_of_def assms(1))
  then have same: "(exec_round env ^^ n) ?x = ?x" for n by (induction n) simp_all
  have "going ?x" using assms(2,3) by (simp add: going_def start_executor_def ready_now_def)
  with same show ?thesis by (simp add: execute_def while_option_def)
qed

section \<open>What is run first\<close>

text \<open>C33. The executor, too, reads the edges against the tracker that supplies the graph: it takes the pending tasks all of
  whose dependents are completed.\<close>

theorem exec_ready_inverted:
  assumes "keyed g" "tk_graph k = Some g"
  shows "set (map tn_id (exec_ready g)) = {i. map_option tn_status (jm_get (g_nodes g) i) = Some TPending \<and>
    list_all (\<lambda>d. case jm_get (g_nodes g) d of None \<Rightarrow> True | Some n \<Rightarrow> tn_status n = TCompleted) (get_dependents i k)}"
proof -
  have b: "list_all (\<lambda>b. tn_status b = TCompleted) (exec_blockers g i) \<longleftrightarrow>
      list_all (\<lambda>d. case jm_get (g_nodes g) d of None \<Rightarrow> True | Some n \<Rightarrow> tn_status n = TCompleted) (get_dependents i k)" for i
    by (auto simp: exec_blockers_def get_dependents_def assms(2) list_all_iff map_filter_def split: option.splits)
  have "i \<in> set (map tn_id (exec_ready g)) \<longleftrightarrow>
      (\<exists>n. jm_get (g_nodes g) i = Some n \<and> tn_status n = TPending \<and> list_all (\<lambda>b. tn_status b = TCompleted) (exec_blockers g i))" for i
  proof -
    have "i \<in> set (map tn_id (exec_ready g)) \<longleftrightarrow> (\<exists>n. n \<in> set (jm_values (g_nodes g)) \<and> is_exec_ready g n \<and> i = tn_id n)"
      by (auto simp: exec_ready_def)
    also have "\<dots> \<longleftrightarrow> (\<exists>n. jm_get (g_nodes g) i = Some n \<and> is_exec_ready g n)"
      using keyed_id [OF assms(1), of i] keyed_values [OF assms(1)] by metis
    also have "\<dots> \<longleftrightarrow> (\<exists>n. jm_get (g_nodes g) i = Some n \<and> tn_status n = TPending \<and>
        list_all (\<lambda>b. tn_status b = TCompleted) (exec_blockers g i))"
      using keyed_id [OF assms(1), of i] unfolding is_exec_ready_def by metis
    finally show ?thesis .
  qed
  then show ?thesis by (auto simp: b)
qed

definition happy_env :: exec_env where
  "happy_env = \<lparr>ee_outcome = \<lambda>i n. Answered \<lparr>rs_success = True, rs_error = None, rs_retry = False\<rparr>, ee_stop = \<lambda>n. False,
     ee_concurrent = None, ee_retries = None, ee_now = 0\<rparr>"

definition two_tasks :: tracker where
  "two_tasks = fold tracker_step
     [CreateGraph ''g'' ''s'' ''t'' 0, AddTask ''b'' 0 (demo_task TPending), AddTask ''w'' 0 (demo_task TPending),
      AddDependency ''e'' 0 ''b'' ''w''] new_tracker"

text \<open>Two tasks, the second declared to the tracker as waiting for the first: the executor runs the second one first,
  although the tracker says it cannot start.\<close>

theorem waiter_runs_first:
  "get_blockers ''w'' two_tasks = [''b''] \<and> \<not> can_start ''w'' two_tasks \<and>
   (case execute happy_env two_tasks of None \<Rightarrow> False | Some x \<Rightarrow> ex_calls x = [''w'', ''b''] \<and> ex_completed x = 2)"
  by code_simp

section \<open>A task that keeps asking\<close>

lemma set_state_frame [simp]:
  "ex_calls (set_state env i s r x) = ex_calls x" "ex_completed (set_state env i s r x) = ex_completed x"
  "ex_failed (set_state env i s r x) = ex_failed x" "ex_retried (set_state env i s r x) = ex_retried x"
  by (simp_all add: set_state_def split: sum.split prod.split)

lemma insisting_attempts:
  assumes "\<And>n. ee_outcome env i n = Answered r" "\<not> rs_success r" "rs_retry r"
  shows "count \<le> max_retries env \<Longrightarrow> \<exists>y. run_attempts env i count x = (Inr (r, max_retries env), y) \<and>
    ex_calls y = ex_calls x @ replicate (max_retries env + 1 - count) i \<and>
    ex_completed y = ex_completed x \<and> ex_failed y = ex_failed x \<and> ex_retried y = ex_retried x"
proof (induction "max_retries env - count" arbitrary: count x)
  case 0
  then show ?case using assms
    by (subst run_attempts.simps) (simp add: outcome_of_def call_task_def Let_def)
next
  case (Suc m)
  then have c: "count < max_retries env" "m = max_retries env - (count + 1)" by auto
  let ?x = "retry_later env i (count + 1) (call_task env i (set_state env i TInProgress None x))"
  from Suc(1) [OF c(2), of ?x] c(1) obtain y where
    y: "run_attempts env i (count + 1) ?x = (Inr (r, max_retries env), y)"
      "ex_calls y = ex_calls ?x @ replicate (max_retries env - count) i"
      "ex_completed y = ex_completed x" "ex_failed y = ex_failed x" "ex_retried y = ex_retried x"
    by (auto simp: retry_later_def call_task_def)
  have "run_attempts env i count x = run_attempts env i (count + 1) ?x"
    using c(1) assms by (subst run_attempts.simps) (simp add: outcome_of_def Let_def)
  moreover have "ex_calls ?x = ex_calls x @ [i]" by (simp add: retry_later_def call_task_def)
  moreover have "max_retries env + 1 - count = Suc (max_retries env - count)" using c(1) by simp
  ultimately show ?case using y by simp
qed

text \<open>A task that fails and asks for another try on its last attempt is left in progress or blocked: it is counted
  among the retried ones, neither as completed nor as failed, and no later round takes it up.\<close>

theorem insistent_task_left_open:
  assumes "\<And>n. ee_outcome env i n = Answered r" "\<not> rs_success r" "rs_retry r"
    "sound_graph x" "batch_of env x = [i]" "retries_of i x = 0"
  shows "let y = exec_round env x
    in ex_calls y = ex_calls x @ replicate (max_retries env + 1) i \<and> ex_completed y = ex_completed x \<and>
       ex_failed y = ex_failed x \<and> ex_retried y = ex_retried x + 1 \<and>
       (stat y i = Some TInProgress \<or> stat y i = Some TBlocked) \<and> i \<notin> set (map tn_id (ready_now y))"
proof -
  obtain y where y: "run_attempts env i 0 x = (Inr (r, max_retries env), y)"
    "ex_calls y = ex_calls x @ replicate (max_retries env + 1) i"
    "ex_completed y = ex_completed x" "ex_failed y = ex_failed x" "ex_retried y = ex_retried x"
    using insisting_attempts [OF assms(1-3), of 0 x] by auto
  have "stat x i \<noteq> None" using batch_facts(2) [OF assms(4), of i env] assms(5) by simp
  from attempts_stat [OF assms(4) this, of env 0] y(1) have
    s: "sound_graph y" "stat y i = Some TInProgress \<or> stat y i = Some TBlocked" by auto
  have e: "exec_round env x = y\<lparr>ex_retried := ex_retried y + 1\<rparr>"
    using y(1) assms(2,3) by (simp add: exec_round_def assms(5,6) execute_with_retry_def settle_result_def)
  have "i \<notin> set (map tn_id (ready_now (y\<lparr>ex_retried := ex_retried y + 1\<rparr>)))"
    using ready_now_pending [of "y\<lparr>ex_retried := ex_retried y + 1\<rparr>"] s by auto
  with y s show ?thesis by (simp add: e Let_def)
qed

definition insisting_env :: exec_env where
  "insisting_env = happy_env\<lparr>ee_outcome := \<lambda>i n. Answered \<lparr>rs_success = False, rs_error = None, rs_retry = True\<rparr>\<rparr>"

definition one_task :: tracker where
  "one_task = fold tracker_step [CreateGraph ''g'' ''s'' ''t'' 0, AddTask ''b'' 0 (demo_task TPending)] new_tracker"

lemma two_tasks_keyed: "case tk_graph two_tasks of None \<Rightarrow> True | Some g \<Rightarrow> keyed g"
  by code_simp

lemma executor_terminates_witness:
  "case execute insisting_env two_tasks of None \<Rightarrow> False | Some x \<Rightarrow> ex_stopped x \<or> ready_now x = []"
  by (rule executor_terminates [OF two_tasks_keyed]) (simp add: insisting_env_def happy_env_def)

lemma zero_concurrency_hangs_witness: "execute (happy_env\<lparr>ee_concurrent := Some 0\<rparr>) one_task = None"
proof -
  have "case tk_graph one_task of None \<Rightarrow> False | Some g \<Rightarrow> exec_ready g \<noteq> []" by code_simp
  then obtain g where "tk_graph one_task = Some g" "exec_ready g \<noteq> []" by (cases "tk_graph one_task") auto
  then show ?thesis by (intro zero_concurrency_hangs) simp_all
qed

lemma exec_ready_inverted_witness:
  "case tk_graph two_tasks of None \<Rightarrow> False | Some g \<Rightarrow> ''w'' \<in> set (map tn_id (exec_ready g))"
proof -
  have "case tk_graph two_tasks of None \<Rightarrow> False | Some g \<Rightarrow> keyed g \<and> jm_get (g_nodes g) ''w'' \<noteq> None \<and>
      map_option tn_status (jm_get (g_nodes g) ''w'') = Some TPending" by code_simp
  moreover have "get_dependents ''w'' two_tasks = []" by code_simp
  ultimately show ?thesis using exec_ready_inverted [of _ two_tasks] by (cases "tk_graph two_tasks") auto
qed

lemma insistent_task_left_open_witness:
  "ex_failed (exec_round insisting_env (start_executor one_task)) = 0"
proof -
  have f: "sound_graph (start_executor one_task)" "batch_of insisting_env (start_executor one_task) = [''b'']"
    "retries_of ''b'' (start_executor one_task) = 0" "ex_failed (start_executor one_task) = 0"
    by (code_simp+)
  have o: "ee_outcome insisting_env ''b'' n = Answered \<lparr>rs_success = False, rs_error = None, rs_retry = True\<rparr>" for n
    by (simp add: insisting_env_def)
  show ?thesis using insistent_task_left_open [OF o _ _ f(1-3)] by (simp add: Let_def f(4))
qed

end
