(* ===== verification/Dispatcher.thy ===== *)
theory Dispatcher
  imports Prelude Js_String Complex_Main
begin

text \<open>
  Routing of a task to an agent, \<open>packages/core/src/coordination/dispatcher.ts\<close>: the score of every agent of
  the catalog by its keywords, the confidence in the best one, and the choice between it, a classifier
  and the generalist.

  The classifier is an argument (what it returns, or that it declines or throws). The catalog is a map of
  its own entries. Texts of reasons and the definitions of agents beyond role, name and keywords are left out.
\<close>

section \<open>Scores\<close>

record agent_entry =
  ag_role :: string
  ag_name :: string
  ag_keywords :: "string list"

type_synonym catalog = "(string, agent_entry) jsmap"

record candidate =
  ca_role :: string
  ca_name :: string
  ca_score :: nat
  ca_matched :: "string list"

definition is_plain :: "char \<Rightarrow> bool" where
  "is_plain c = (let n = of_char c :: nat in (97 \<le> n \<and> n \<le> 122) \<or> (48 \<le> n \<and> n \<le> 57))"

text \<open>\<open>replace(/[^a-z0-9]+/g, ' ')\<close>: \<open>gap\<close> holds while a run is being replaced.\<close>

fun blank_runs :: "bool \<Rightarrow> string \<Rightarrow> string" where
  "blank_runs gap [] = []"
| "blank_runs gap (c # s) =
     (if is_plain c then c # blank_runs False s
      else if gap then blank_runs True s else CHR '' '' # blank_runs True s)"

definition normalize_text :: "string \<Rightarrow> string" where
  "normalize_text t = '' '' @ js_trim (blank_runs False (to_lower t)) @ '' ''"

definition words_of :: "string \<Rightarrow> string list" where
  "words_of t = js_words [] (normalize_text t)"

definition keyword_hits :: "string list \<Rightarrow> string \<Rightarrow> bool" where
  "keyword_hits hay kw = list_all (\<lambda>w. w \<in> set hay) (words_of kw)"

definition score_agent :: "string list \<Rightarrow> agent_entry \<Rightarrow> candidate list" where
  "score_agent hay d =
     (if ag_role d = '''' then []
      else
        let matched = filter (keyword_hits hay) (ag_keywords d);
            score = sum_list (map (\<lambda>kw. length (words_of kw)) matched)
        in if 0 < score
           then [\<lparr>ca_role = ag_role d, ca_name = ag_name d, ca_score = score, ca_matched = matched\<rparr>]
           else [])"

definition score_agents :: "string \<Rightarrow> catalog \<Rightarrow> candidate list" where
  "score_agents task cat =
     sort_key (\<lambda>c. - int (ca_score c)) (concat (map (score_agent (words_of task)) (jm_values cat)))"

definition heuristic_confidence :: "candidate list \<Rightarrow> rat" where
  "heuristic_confidence cs =
     (case cs of
        [] \<Rightarrow> 0
      | c # rest \<Rightarrow>
          let top = of_nat (ca_score c);
              second = (case rest of [] \<Rightarrow> 0 | d # _ \<Rightarrow> of_nat (ca_score d));
              strength = min 1 (top / 3);
              margin = (top - second + 1) / (top + 1)
          in min 1 (strength * margin))"

section \<open>The choice\<close>

datatype dispatch_method = By_heuristic | By_llm | By_fallback

record dispatch_result =
  dr_role :: string
  dr_confidence :: rat
  dr_method :: dispatch_method
  dr_alternatives :: "candidate list"

record dispatch_options =
  do_classifier :: "(string \<Rightarrow> string list \<Rightarrow> string option) option"
  do_threshold :: "rat option"
  do_max_candidates :: "nat option"

definition default_dispatch_role :: string where "default_dispatch_role = ''executor''"

definition dispatch_agent :: "string list \<Rightarrow> catalog \<Rightarrow> dispatch_options \<Rightarrow> string \<Rightarrow> dispatch_result" where
  "dispatch_agent all_roles cat opts task =
     (let threshold = (case do_threshold opts of None \<Rightarrow> 2 / 5 | Some x \<Rightarrow> x);
          most = (case do_max_candidates opts of None \<Rightarrow> 6 | Some n \<Rightarrow> n);
          cs = score_agents task cat;
          confidence = heuristic_confidence cs;
          guess = (case cs of
              [] \<Rightarrow>
                let role = (if jm_has cat default_dispatch_role then default_dispatch_role
                            else case jm_keys cat of [] \<Rightarrow> default_dispatch_role | k # _ \<Rightarrow> k)
                in \<lparr>dr_role = role, dr_confidence = 0, dr_method = By_fallback, dr_alternatives = []\<rparr>
            | c # rest \<Rightarrow>
                \<lparr>dr_role = ca_role c, dr_confidence = confidence, dr_method = By_heuristic,
                 dr_alternatives = take (most - 1) rest\<rparr>)
      in if cs \<noteq> [] \<and> threshold \<le> confidence then guess
         else case do_classifier opts of
                None \<Rightarrow> guess
              | Some classify_task \<Rightarrow>
                  let pool = (if cs \<noteq> [] then map ca_role (take most cs) else all_roles)
                  in case classify_task task pool of
                       None \<Rightarrow> guess
                     | Some role \<Rightarrow>
                         if jm_has cat role then
                           \<lparr>dr_role = role, dr_confidence = 1, dr_method = By_llm,
                            dr_alternatives = filter (\<lambda>c. ca_role c \<noteq> role) (take most cs)\<rparr>
                         else guess)"

section \<open>The confidence\<close>

lemma score_pos: "c \<in> set (score_agents task cat) \<Longrightarrow> 0 < ca_score c"
  by (auto simp: score_agents_def score_agent_def Let_def split: if_splits)

lemma score_sorted: "score_agents task cat = c # d # rest \<Longrightarrow> ca_score d \<le> ca_score c"
proof -
  assume s: "score_agents task cat = c # d # rest"
  have "sorted (map (\<lambda>c. - int (ca_score c)) (score_agents task cat))"
    unfolding score_agents_def by (rule sorted_sort_key)
  with s show ?thesis by simp
qed

text \<open>The confidence lies between zero and one, it is zero exactly when no keyword hits, and when the two
  best agents tie it is at most a quarter, so a tie never passes the default threshold.\<close>

theorem confidence_bounds:
  "let cs = score_agents task cat; conf = heuristic_confidence cs
   in 0 \<le> conf \<and> conf \<le> 1 \<and> (conf = 0 \<longleftrightarrow> cs = []) \<and>
      (case cs of c # d # rest \<Rightarrow> if ca_score c = ca_score d then conf \<le> 1 / 4 else True | _ \<Rightarrow> True)"
proof (cases "score_agents task cat")
  case Nil
  then show ?thesis by (simp add: heuristic_confidence_def Let_def)
next
  case (Cons c rest)
  define t where "t = (of_nat (ca_score c) :: rat)"
  define u where "u = (case rest of [] \<Rightarrow> 0 | d # _ \<Rightarrow> (of_nat (ca_score d) :: rat))"
  have c: "0 < ca_score c" using score_pos [of c task cat] Cons by simp
  then have t: "1 \<le> t" by (simp add: t_def)
  have u: "0 \<le> u" "u \<le> t"
    using score_sorted [of task cat c] Cons by (auto simp: u_def t_def split: list.split)
  have conf: "heuristic_confidence (score_agents task cat) = min 1 (min 1 (t / 3) * ((t - u + 1) / (t + 1)))"
    by (simp add: heuristic_confidence_def Cons t_def u_def Let_def)
  have s: "0 < min 1 (t / 3)" "min 1 (t / 3) \<le> 1" using t by auto
  have m: "0 < (t - u + 1) / (t + 1)" using t u by (simp add: divide_pos_pos)
  have "0 < min 1 (t / 3) * ((t - u + 1) / (t + 1))" using s(1) m by (rule mult_pos_pos)
  then have pos: "0 < heuristic_confidence (score_agents task cat)" "heuristic_confidence (score_agents task cat) \<le> 1"
    unfolding conf by simp_all
  have tie: "min 1 (t / 3) * (1 / (t + 1)) \<le> 1 / 4"
  proof (cases "t \<le> 3")
    case True
    then have "min 1 (t / 3) * (1 / (t + 1)) = t / (3 * (t + 1))" by simp
    also have "\<dots> \<le> 1 / 4" using True t by (simp add: divide_simps)
    finally show ?thesis .
  next
    case False
    then have "min 1 (t / 3) = 1" by simp
    then show ?thesis using False by (simp add: divide_simps)
  qed
  have "heuristic_confidence (score_agents task cat) \<le> 1 / 4" if "u = t"
  proof -
    have "heuristic_confidence (score_agents task cat) = min 1 (min 1 (t / 3) * (1 / (t + 1)))"
      unfolding conf that by simp
    also have "\<dots> \<le> 1 / 4" by (rule min.coboundedI2 [OF tie])
    finally show ?thesis .
  qed
  moreover have "case score_agents task cat of c # d # rest \<Rightarrow> (ca_score c = ca_score d) = (u = t) | _ \<Rightarrow> True"
    by (auto simp: Cons u_def t_def split: list.split)
  ultimately show ?thesis
    using pos by (auto simp: Cons Let_def split: list.splits)
qed

text \<open>Whatever the classifier answers, a task goes to a role of the catalog: one that scored, one the
  classifier chose among its keys, or the generalist.\<close>

theorem dispatch_stays_in_catalog:
  "let r = dispatch_agent all_roles cat opts task
   in (case dr_method r of
         By_heuristic \<Rightarrow> list_ex (\<lambda>c. ca_role c = dr_role r) (score_agents task cat)
       | By_llm \<Rightarrow> jm_has cat (dr_role r) \<and> dr_confidence r = 1
       | By_fallback \<Rightarrow> score_agents task cat = [] \<and> (jm_has cat (dr_role r) \<or> cat = [] \<and> dr_role r = default_dispatch_role))"
proof -
  have "jm_keys cat = k # ks \<Longrightarrow> jm_has cat k" for k ks by (simp add: jm_has_keys)
  moreover have "jm_keys cat = [] \<Longrightarrow> cat = []" by (simp add: jm_keys_def)
  ultimately show ?thesis
    by (cases "score_agents task cat")
      (auto simp: dispatch_agent_def Let_def split: option.splits list.splits)
qed

end
