(* ===== verification/Task_Auction.thy ===== *)
theory Task_Auction
  imports Knowledge_Graph Dispatcher
begin

text \<open>
  The market of tasks, \<open>packages/core/src/coordination/task-auctioneer.ts\<close>, over the goals of the knowledge graph:
  publishing, bids, the bid window and its evaluation, claims, completion and failure, the unblocking of
  dependents, and the queries of idle agents.

  Expiry of a bid window is an operation. A claim writes the graph and waits for that before it counts the task for the
  agent, so it comes in two operations (\<open>claim_begin\<close>, \<open>claim_end\<close>); the other operations run to their end.
  The lines they write to the log of the graph stay pending in the graph.
  The rating of a description by the dispatcher is an argument; mail and events are one list of notices.
\<close>

section \<open>State\<close>

record bid =
  bd_task :: string
  bd_agent :: string
  bd_name :: string
  bd_role :: string
  bd_score :: rat
  bd_rationale :: string

datatype notice =
    Published string
  | Available string
  | Bid_placed string string
  | Assigned string string
  | Claimed string string
  | Completed string string
  | Failed string string

record auction =
  au_graph :: kgraph
  au_bids :: "(string, bid list) jsmap"
  au_windows :: "string list"
  au_retries :: "(string, nat) jsmap"
  au_counts :: "(string, nat) jsmap"
  au_settling :: "(string \<times> string) list"
  au_log :: "notice list"
  au_max_tasks :: nat
  au_min_confidence :: rat
  au_max_retries :: nat

definition new_auction :: "kgraph \<Rightarrow> nat option \<Rightarrow> rat option \<Rightarrow> nat option \<Rightarrow> auction" where
  "new_auction g tasks conf retries =
     \<lparr>au_graph = g, au_bids = [], au_windows = [], au_retries = [], au_counts = [],
      au_settling = [], au_log = [],
      au_max_tasks = (case tasks of None \<Rightarrow> 3 | Some n \<Rightarrow> n),
      au_min_confidence = (case conf of None \<Rightarrow> 3 / 10 | Some c \<Rightarrow> c),
      au_max_retries = (case retries of None \<Rightarrow> 3 | Some n \<Rightarrow> n)\<rparr>"

definition goal_at :: "auction \<Rightarrow> string \<Rightarrow> goal_node option" where
  "goal_at s i = (case get_node (au_graph s) i of None \<Rightarrow> None | Some n \<Rightarrow> goal_of n)"

definition status_at :: "auction \<Rightarrow> string \<Rightarrow> goal_status option" where
  "status_at s i = map_option gn_status (goal_at s i)"

definition on_goal :: "(goal_node \<Rightarrow> goal_node) \<Rightarrow> kg_node \<Rightarrow> kg_node" where
  "on_goal f n = (case n of Goal g \<Rightarrow> Goal (f g) | _ \<Rightarrow> n)"

definition update_goal :: "string \<Rightarrow> (goal_node \<Rightarrow> goal_node) \<Rightarrow> auction \<Rightarrow> auction" where
  "update_goal i f s = s\<lparr>au_graph := update_node i (on_goal f) (au_graph s)\<rparr>"

definition say :: "notice \<Rightarrow> auction \<Rightarrow> auction" where
  "say n s = s\<lparr>au_log := au_log s @ [n]\<rparr>"

definition task_count :: "auction \<Rightarrow> string \<Rightarrow> nat" where
  "task_count s a = (case jm_get (au_counts s) a of None \<Rightarrow> 0 | Some n \<Rightarrow> n)"

text \<open>The counter stops at zero.\<close>

definition count_up :: "string \<Rightarrow> auction \<Rightarrow> auction" where
  "count_up a s = s\<lparr>au_counts := jm_set a (task_count s a + 1) (au_counts s)\<rparr>"

definition count_down :: "string \<Rightarrow> auction \<Rightarrow> auction" where
  "count_down a s = s\<lparr>au_counts := jm_set a (task_count s a - 1) (au_counts s)\<rparr>"

definition cancel_window :: "string \<Rightarrow> auction \<Rightarrow> auction" where
  "cancel_window i s = s\<lparr>au_windows := js_remove i (au_windows s)\<rparr>"

definition start_window :: "string \<Rightarrow> auction \<Rightarrow> auction" where
  "start_window i s = (let s1 = cancel_window i s in s1\<lparr>au_windows := au_windows s1 @ [i]\<rparr>)"

definition drop_bids :: "string \<Rightarrow> auction \<Rightarrow> auction" where
  "drop_bids i s = s\<lparr>au_bids := jm_del i (au_bids s)\<rparr>"

definition drop_retries :: "string \<Rightarrow> auction \<Rightarrow> auction" where
  "drop_retries i s = s\<lparr>au_retries := jm_del i (au_retries s)\<rparr>"

definition broadcast :: "string \<Rightarrow> auction \<Rightarrow> auction" where
  "broadcast i s = say (Available i) s"

section \<open>Publishing\<close>

record task_input =
  ti_title :: string
  ti_description :: string
  ti_priority :: "string option"
  ti_tags :: "string list"
  ti_target :: "string option"
  ti_parent :: "string option"
  ti_satisfies :: "string list"
  ti_blocked_by :: "string list"

text \<open>An empty target or parent counts as none.\<close>

definition given :: "string option \<Rightarrow> string option" where
  "given x = (case x of None \<Rightarrow> None | Some s \<Rightarrow> if s = '''' then None else Some s)"

definition has_open_blockers :: "auction \<Rightarrow> task_input \<Rightarrow> bool" where
  "has_open_blockers s t = list_ex (\<lambda>b. status_at s b \<noteq> Some Goal_done) (ti_blocked_by t)"

definition new_goal :: "string \<Rightarrow> task_input \<Rightarrow> auction \<Rightarrow> goal_node" where
  "new_goal i t s =
     \<lparr>gn_id = i, gn_title = ti_title t, gn_description = ti_description t,
      gn_status = (if given (ti_target t) \<noteq> None then Goal_in_progress
                   else if has_open_blockers s t then Goal_blocked else Goal_pending),
      gn_priority = (case ti_priority t of None \<Rightarrow> ''medium'' | Some p \<Rightarrow> p), gn_assignee = ti_target t,
      gn_blocked_by = ti_blocked_by t, gn_depends_on = ti_satisfies t, gn_tags = ti_tags t, gn_children = [],
      gn_parent = ti_parent t, gn_result = None\<rparr>"

definition add_child :: "string \<Rightarrow> goal_node \<Rightarrow> goal_node" where
  "add_child i g = g\<lparr>gn_children := gn_children g @ [i]\<rparr>"

definition link_parent :: "string \<Rightarrow> task_input \<Rightarrow> auction \<Rightarrow> auction" where
  "link_parent i t s =
     (case given (ti_parent t) of
        None \<Rightarrow> s
      | Some p \<Rightarrow> if goal_at s p = None then s else update_goal p (add_child i) s)"

definition link_blocker :: "string \<Rightarrow> string \<Rightarrow> auction \<Rightarrow> auction" where
  "link_blocker i b s =
     (case goal_at s b of
        None \<Rightarrow> s
      | Some g \<Rightarrow> if i \<in> set (gn_children g) then s else update_goal b (add_child i) s)"

definition take_goal :: "string \<Rightarrow> goal_node \<Rightarrow> goal_node" where
  "take_goal a g = g\<lparr>gn_status := Goal_in_progress, gn_assignee := Some a\<rparr>"

definition assign_direct :: "string \<Rightarrow> string \<Rightarrow> auction \<Rightarrow> auction" where
  "assign_direct i a s =
     (if goal_at s i = None then s
      else say (Assigned i a) (count_up a (update_goal i (take_goal a) s)))"

definition publish_task :: "string \<Rightarrow> task_input \<Rightarrow> auction \<Rightarrow> auction" where
  "publish_task i t s =
     (let s1 = s\<lparr>au_graph := add_node (Goal (new_goal i t s)) (au_graph s)\<rparr>;
          s2 = fold (link_blocker i) (ti_blocked_by t) (link_parent i t s1);
          s3 = (case given (ti_target t) of
                  Some a \<Rightarrow> assign_direct i a s2
                | None \<Rightarrow> start_window i (broadcast i s2))
      in say (Published i) s3)"

section \<open>Bids\<close>

text \<open>What the dispatcher makes of a description: the role and its confidence.\<close>

type_synonym rating = "string \<Rightarrow> string \<times> rat"

definition bid_score :: "rating \<Rightarrow> string \<Rightarrow> string \<Rightarrow> rat" where
  "bid_score rate description role =
     snd (rate description) * (if fst (rate description) = role then 6 / 5 else 1)"

definition place_bid :: "bid \<Rightarrow> bid list \<Rightarrow> bid list" where
  "place_bid b bs =
     (if list_ex (\<lambda>x. bd_agent x = bd_agent b) bs
      then bs[length (takeWhile (\<lambda>x. bd_agent x \<noteq> bd_agent b) bs) := b]
      else bs @ [b])"

definition place_bid_op ::
  "rating \<Rightarrow> string \<Rightarrow> string \<Rightarrow> string \<Rightarrow> string \<Rightarrow> string \<Rightarrow> auction \<Rightarrow> bool \<times> auction" where
  "place_bid_op rate i a name role why s =
     (case goal_at s i of
        None \<Rightarrow> (False, s)
      | Some g \<Rightarrow>
          if gn_status g \<noteq> Goal_pending then (False, s)
          else if au_max_tasks s \<le> task_count s a then (False, s)
          else if bid_score rate (gn_description g) role < au_min_confidence s then (False, s)
          else
            let b = \<lparr>bd_task = i, bd_agent = a, bd_name = name, bd_role = role,
                     bd_score = bid_score rate (gn_description g) role, bd_rationale = why\<rparr>;
                bs = (case jm_get (au_bids s) i of None \<Rightarrow> [] | Some bs \<Rightarrow> bs)
            in (True, say (Bid_placed i a) (s\<lparr>au_bids := jm_set i (place_bid b bs) (au_bids s)\<rparr>)))"

section \<open>Claims\<close>

definition claim_begin :: "string \<Rightarrow> string \<Rightarrow> auction \<Rightarrow> bool \<times> auction" where
  "claim_begin i a s =
     (case goal_at s i of
        None \<Rightarrow> (False, s)
      | Some g \<Rightarrow>
          if gn_status g \<noteq> Goal_pending then (False, s)
          else
            let s1 = update_goal i (take_goal a) (cancel_window i s)
            in (True, s1\<lparr>au_settling := au_settling s1 @ [(i, a)]\<rparr>))"

definition settle :: "string \<times> string \<Rightarrow> auction \<Rightarrow> auction" where
  "settle ia s =
     (case ia of (i, a) \<Rightarrow>
        say (Claimed i a) (say (Assigned i a) (count_up a (drop_bids i s))))"

text \<open>\<open>claim_end\<close>: the write that was begun first is done.\<close>

definition claim_end :: "auction \<Rightarrow> auction" where
  "claim_end s =
     (case au_settling s of [] \<Rightarrow> s | ia # rest \<Rightarrow> settle ia (s\<lparr>au_settling := rest\<rparr>))"

section \<open>Completion and failure\<close>

definition agent_of :: "goal_node \<Rightarrow> string" where
  "agent_of g = (case gn_assignee g of None \<Rightarrow> ''unknown'' | Some a \<Rightarrow> a)"

definition forget :: "string \<Rightarrow> auction \<Rightarrow> auction" where
  "forget i s = cancel_window i (drop_bids i (drop_retries i s))"

definition unblock_child :: "string \<Rightarrow> auction \<Rightarrow> auction" where
  "unblock_child c s =
     (case goal_at s c of
        None \<Rightarrow> s
      | Some g \<Rightarrow>
          if gn_status g = Goal_blocked \<and> list_all (\<lambda>b. status_at s b = Some Goal_done) (gn_blocked_by g)
          then start_window c (broadcast c (update_goal c (\<lambda>g. g\<lparr>gn_status := Goal_pending\<rparr>) s))
          else s)"

definition complete_task :: "string \<Rightarrow> string option \<Rightarrow> auction \<Rightarrow> auction" where
  "complete_task i result s =
     (case goal_at s i of
        None \<Rightarrow> s
      | Some g \<Rightarrow>
          let s1 = update_goal i (\<lambda>g. g\<lparr>gn_status := Goal_done,
                     gn_result := (case result of None \<Rightarrow> gn_result g | Some r \<Rightarrow> Some r)\<rparr>)
                     (count_down (agent_of g) s)
          in say (Completed i (agent_of g)) (fold unblock_child (gn_children g) (forget i s1)))"

definition fail_task :: "string \<Rightarrow> string \<Rightarrow> auction \<Rightarrow> auction" where
  "fail_task i e s =
     (case goal_at s i of
        None \<Rightarrow> s
      | Some g \<Rightarrow>
          say (Failed i (agent_of g))
            (forget i (update_goal i (\<lambda>g. g\<lparr>gn_status := Goal_failed, gn_result := Some e\<rparr>)
              (count_down (agent_of g) s))))"

section \<open>The bid window\<close>

definition no_bids_text :: "nat \<Rightarrow> string" where
  "no_bids_text n = ''No bids received after '' @ show_nat n @ '' attempts''"

definition reopen :: "string \<Rightarrow> auction \<Rightarrow> auction" where
  "reopen i s = (if goal_at s i = None then s else start_window i (broadcast i s))"

definition evaluate_bids :: "string \<Rightarrow> auction \<Rightarrow> auction" where
  "evaluate_bids i s =
     (case (case jm_get (au_bids s) i of None \<Rightarrow> [] | Some bs \<Rightarrow> bs) of
        [] \<Rightarrow>
          let n = (case jm_get (au_retries s) i of None \<Rightarrow> 0 | Some k \<Rightarrow> k) + 1;
              s1 = s\<lparr>au_retries := jm_set i n (au_retries s)\<rparr>
          in if au_max_retries s \<le> n then drop_retries i (fail_task i (no_bids_text (au_max_retries s)) s1)
             else reopen i s1
      | b # bs \<Rightarrow>
          let sorted = sort_key (\<lambda>x. - bd_score x) (b # bs);
              s1 = s\<lparr>au_bids := jm_set i sorted (au_bids s)\<rparr>
          in case List.find (\<lambda>x. task_count s (bd_agent x) < au_max_tasks s) sorted of
               None \<Rightarrow> reopen i s1
             | Some w \<Rightarrow> snd (claim_begin i (bd_agent w) s1))"

text \<open>The timer of a window fires.\<close>

definition window_expires :: "string \<Rightarrow> auction \<Rightarrow> auction" where
  "window_expires i s =
     (if i \<in> set (au_windows s) then evaluate_bids i (s\<lparr>au_windows := js_remove i (au_windows s)\<rparr>) else s)"

text \<open>\<open>_onClaimedEvent\<close>, also for claims announced by other sessions, and \<open>dispose\<close>.\<close>

definition on_claimed_event :: "string \<Rightarrow> auction \<Rightarrow> auction" where
  "on_claimed_event i s = cancel_window i (drop_bids i s)"

definition dispose :: "auction \<Rightarrow> auction" where
  "dispose s = s\<lparr>au_windows := []\<rparr>"

section \<open>Queries\<close>

definition work_score :: "rating \<Rightarrow> string \<Rightarrow> goal_node \<Rightarrow> rat" where
  "work_score rate role g =
     snd (rate (gn_description g)) *
     (if role \<noteq> '''' \<and> role \<in> set (gn_tags g) then 13 / 10 else 1) *
     (if gn_priority g = ''critical'' then 3 / 2 else if gn_priority g = ''high'' then 6 / 5 else 1)"

definition bid_count :: "auction \<Rightarrow> string \<Rightarrow> nat" where
  "bid_count s i = (case jm_get (au_bids s) i of None \<Rightarrow> 0 | Some bs \<Rightarrow> length bs)"

definition find_work :: "rating \<Rightarrow> string \<Rightarrow> nat \<Rightarrow> auction \<Rightarrow> (goal_node \<times> rat \<times> nat) list" where
  "find_work rate role limit s =
     take limit (sort_key (\<lambda>w. - fst (snd w))
       (map (\<lambda>g. (g, work_score rate role g, bid_count s (gn_id g)))
         (filter (\<lambda>g. gn_blocked_by g = []) (get_goals (au_graph s) (Some Goal_pending) None None))))"

definition pending_tasks :: "auction \<Rightarrow> goal_node list" where
  "pending_tasks s = filter (\<lambda>g. gn_blocked_by g = []) (get_goals (au_graph s) (Some Goal_pending) None None)"

definition tasks_for_agent :: "auction \<Rightarrow> string \<Rightarrow> goal_node list" where
  "tasks_for_agent s a = filter (\<lambda>g. gn_assignee g = Some a) (get_goals (au_graph s) None None None)"

record auction_stats =
  as_total :: nat
  as_pending :: nat
  as_in_progress :: nat
  as_done :: nat
  as_failed :: nat
  as_bids :: nat

text \<open>The average is left to its two numbers.\<close>

definition auction_stats_of :: "auction \<Rightarrow> auction_stats" where
  "auction_stats_of s =
     (let every = get_goals (au_graph s) None None None
      in \<lparr>as_total = length every,
          as_pending = length (filter (\<lambda>g. gn_status g = Goal_pending \<and> gn_blocked_by g = []) every),
          as_in_progress = length (filter (\<lambda>g. gn_status g = Goal_in_progress) every),
          as_done = length (filter (\<lambda>g. gn_status g = Goal_done) every),
          as_failed = length (filter (\<lambda>g. gn_status g = Goal_failed) every),
          as_bids = sum_list (map length (jm_values (au_bids s)))\<rparr>)"


section \<open>The store of goals\<close>

text \<open>What the auction relies on in the graph: a look-up after a change and after an insertion.\<close>

locale node_store =
  fixes look :: "'s \<Rightarrow> 'k \<Rightarrow> 'n option"
    and change :: "'k \<Rightarrow> ('n \<Rightarrow> 'n) \<Rightarrow> 's \<Rightarrow> 's"
    and put :: "'n \<Rightarrow> 's \<Rightarrow> 's"
    and key :: "'n \<Rightarrow> 'k"
  assumes look_change: "look (change i f s) j = (if j = i then map_option f (look s j) else look s j)"
    and look_put: "look (put n s) j = (if j = key n then Some n else look s j)"
begin

lemma change_kept: "(\<And>n. h (f n) = h n) \<Longrightarrow> map_option h (look (change i f s) j) = map_option h (look s j)"
  by (simp add: look_change option.map_comp comp_def)

lemma changes_kept:
  "(\<And>i n. h (f i n) = h n) \<Longrightarrow>
     map_option h (look (fold (\<lambda>i. change i (f i)) is s) j) = map_option h (look s j)"
  by (induction "is" arbitrary: s) (simp_all add: change_kept)

end

definition put_goal :: "goal_node \<Rightarrow> auction \<Rightarrow> auction" where
  "put_goal g s = s\<lparr>au_graph := add_node (Goal g) (au_graph s)\<rparr>"

interpretation goals: node_store goal_at update_goal put_goal gn_id
proof
  show "goal_at (update_goal i f s) j = (if j = i then map_option f (goal_at s j) else goal_at s j)" for i f s j
  proof (cases "jm_get (kg_nodes (au_graph s)) i")
    case None
    then show ?thesis by (auto simp: goal_at_def get_node_def update_goal_def update_node_def)
  next
    case (Some n)
    then show ?thesis
      by (cases n) (auto simp: goal_at_def get_node_def update_goal_def update_node_def on_goal_def Let_def)
  qed
  show "goal_at (put_goal n s) j = (if j = gn_id n then Some n else goal_at s j)" for n s j
    by (auto simp: goal_at_def get_node_def put_goal_def add_node_def)
qed

lemmas goal_simps [simp] = goals.look_change goals.look_put

lemma frame_simps [simp]:
  "goal_at (say n s) j = goal_at s j" "goal_at (count_up a s) j = goal_at s j" "goal_at (count_down a s) j = goal_at s j"
  "goal_at (cancel_window i s) j = goal_at s j" "goal_at (start_window i s) j = goal_at s j"
  "goal_at (drop_bids i s) j = goal_at s j" "goal_at (drop_retries i s) j = goal_at s j"
  "goal_at (broadcast i s) j = goal_at s j" "goal_at (forget i s) j = goal_at s j"
  by (simp_all add: goal_at_def say_def count_up_def count_down_def cancel_window_def start_window_def drop_bids_def
      drop_retries_def broadcast_def forget_def Let_def)

lemma goal_at_fields [simp]:
  "goal_at (s\<lparr>au_bids := b\<rparr>) j = goal_at s j" "goal_at (s\<lparr>au_retries := r\<rparr>) j = goal_at s j"
  "goal_at (s\<lparr>au_windows := w\<rparr>) j = goal_at s j" "goal_at (s\<lparr>au_settling := q\<rparr>) j = goal_at s j"
  "goal_at (s\<lparr>au_counts := c\<rparr>) j = goal_at s j" "goal_at (s\<lparr>au_log := l\<rparr>) j = goal_at s j"
  by (simp_all add: goal_at_def)

lemma status_simps [simp]:
  "status_at (say n s) j = status_at s j" "status_at (count_up a s) j = status_at s j" "status_at (count_down a s) j = status_at s j"
  "status_at (cancel_window i s) j = status_at s j" "status_at (start_window i s) j = status_at s j"
  "status_at (drop_bids i s) j = status_at s j" "status_at (drop_retries i s) j = status_at s j"
  "status_at (broadcast i s) j = status_at s j" "status_at (forget i s) j = status_at s j"
  "status_at (s\<lparr>au_bids := b\<rparr>) j = status_at s j" "status_at (s\<lparr>au_retries := r\<rparr>) j = status_at s j"
  "status_at (s\<lparr>au_windows := w\<rparr>) j = status_at s j" "status_at (s\<lparr>au_settling := q\<rparr>) j = status_at s j"
  by (simp_all add: status_at_def)

lemma status_update: "status_at (update_goal i f s) j =
    (if j = i then map_option (\<lambda>g. gn_status (f g)) (goal_at s j) else status_at s j)"
  by (simp add: status_at_def option.map_comp comp_def)

lemma windows_simps [simp]:
  "au_windows (say n s) = au_windows s" "au_windows (count_up a s) = au_windows s" "au_windows (count_down a s) = au_windows s"
  "au_windows (cancel_window i s) = js_remove i (au_windows s)"
  "au_windows (start_window i s) = js_remove i (au_windows s) @ [i]"
  "au_windows (drop_bids i s) = au_windows s" "au_windows (drop_retries i s) = au_windows s"
  "au_windows (broadcast i s) = au_windows s" "au_windows (forget i s) = js_remove i (au_windows s)"
  "au_windows (update_goal i f s) = au_windows s" "au_windows (put_goal g s) = au_windows s"
  by (simp_all add: say_def count_up_def count_down_def cancel_window_def start_window_def drop_bids_def
      drop_retries_def broadcast_def forget_def update_goal_def put_goal_def Let_def)

lemma counts_simps [simp]:
  "task_count (say n s) a = task_count s a" "task_count (cancel_window i s) a = task_count s a"
  "task_count (start_window i s) a = task_count s a" "task_count (drop_bids i s) a = task_count s a"
  "task_count (drop_retries i s) a = task_count s a" "task_count (broadcast i s) a = task_count s a"
  "task_count (forget i s) a = task_count s a" "task_count (update_goal i f s) a = task_count s a"
  "task_count (put_goal g s) a = task_count s a"
  "task_count (count_up b s) a = (if a = b then task_count s a + 1 else task_count s a)"
  "task_count (count_down b s) a = (if a = b then task_count s a - 1 else task_count s a)"
  by (simp_all add: task_count_def say_def count_up_def count_down_def cancel_window_def start_window_def drop_bids_def
      drop_retries_def broadcast_def forget_def update_goal_def put_goal_def Let_def)

lemma publish_alt:
  "publish_task i t s =
     (let s2 = fold (link_blocker i) (ti_blocked_by t) (link_parent i t (put_goal (new_goal i t s) s))
      in say (Published i)
           (case given (ti_target t) of Some a \<Rightarrow> assign_direct i a s2 | None \<Rightarrow> start_window i (broadcast i s2)))"
  by (simp add: publish_task_def put_goal_def Let_def)

section \<open>Histories\<close>

datatype auction_op =
    Publish string task_input
  | Place string string string string string
  | Claim_hand string string
  | Settle
  | Complete string "string option"
  | Fail string string
  | Expire string
  | Elsewhere string
  | Dispose

text \<open>The identifier of a published goal is fresh.\<close>

fun auction_step :: "rating \<Rightarrow> auction_op \<Rightarrow> auction \<Rightarrow> auction" where
  "auction_step rate (Publish i t) s = (if jm_has (kg_nodes (au_graph s)) i then s else publish_task i t s)"
| "auction_step rate (Place i a n r w) s = snd (place_bid_op rate i a n r w s)"
| "auction_step rate (Claim_hand i a) s = snd (claim_begin i a s)"
| "auction_step rate Settle s = claim_end s"
| "auction_step rate (Complete i r) s = complete_task i r s"
| "auction_step rate (Fail i e) s = fail_task i e s"
| "auction_step rate (Expire i) s = window_expires i s"
| "auction_step rate (Elsewhere i) s = on_claimed_event i s"
| "auction_step rate Dispose s = dispose s"

section \<open>How statuses change\<close>

lemma link_status: "status_at (link_blocker i b s) j = status_at s j"
  by (simp add: link_blocker_def status_update add_child_def split: option.split) (simp add: status_at_def)

lemma links_status: "status_at (fold (link_blocker i) bs s) j = status_at s j"
  by (induction bs arbitrary: s) (simp_all add: link_status)

lemma parent_status: "status_at (link_parent i t s) j = status_at s j"
  by (simp add: link_parent_def status_update add_child_def split: option.split) (simp add: status_at_def)

lemma publish_status:
  "status_at (publish_task i t s) j =
     (if j = i then Some (gn_status (new_goal i t s)) else status_at s j)"
proof -
  have new: "gn_id (new_goal i t s) = i" by (simp add: new_goal_def)
  let ?s2 = "fold (link_blocker i) (ti_blocked_by t) (link_parent i t (put_goal (new_goal i t s) s))"
  have s2: "status_at ?s2 j = (if j = i then Some (gn_status (new_goal i t s)) else status_at s j)" for j
    unfolding links_status parent_status by (simp add: status_at_def new)
  show ?thesis
  proof (cases "given (ti_target t)")
    case None
    with s2 show ?thesis by (simp add: publish_alt Let_def)
  next
    case (Some a)
    have "status_at (assign_direct i a ?s2) j = status_at ?s2 j"
    proof (cases "j = i")
      case True
      with s2 [of i] Some show ?thesis
        by (auto simp: assign_direct_def status_update take_goal_def new_goal_def status_at_def)
    qed (simp add: assign_direct_def status_update)
    with s2 [of j] Some show ?thesis by (simp add: publish_alt Let_def)
  qed
qed

lemma unblock_status:
  "status_at (unblock_child c s) j =
     (if j = c \<and> status_at s c = Some Goal_blocked \<and>
         (case goal_at s c of None \<Rightarrow> False | Some g \<Rightarrow> list_all (\<lambda>b. status_at s b = Some Goal_done) (gn_blocked_by g))
      then Some Goal_pending else status_at s j)"
proof (cases "goal_at s c")
  case None
  then show ?thesis by (simp add: unblock_child_def status_at_def)
next
  case (Some g)
  have "status_at s c = Some (gn_status g)" using Some by (simp add: status_at_def)
  with Some show ?thesis by (auto simp: unblock_child_def status_update)
qed

lemma unblocks_status:
  "status_at (fold unblock_child cs s) j = status_at s j \<or>
     status_at s j = Some Goal_blocked \<and> status_at (fold unblock_child cs s) j = Some Goal_pending"
proof (induction cs arbitrary: s)
  case (Cons c cs)
  from Cons [of "unblock_child c s"] unblock_status [of c s j] show ?case by (auto split: if_splits)
qed simp

lemma complete_status:
  assumes "goal_at s i = Some g"
  shows "status_at (complete_task i r s) j =
    status_at (fold unblock_child (gn_children g) (forget i (update_goal i (\<lambda>g. g\<lparr>gn_status := Goal_done,
      gn_result := (case r of None \<Rightarrow> gn_result g | Some r \<Rightarrow> Some r)\<rparr>) (count_down (agent_of g) s)))) j"
  by (simp add: complete_task_def assms Let_def)

lemma complete_status_cases:
  assumes "goal_at s i = Some g"
  shows "status_at (complete_task i r s) j =
      (if j = i then Some Goal_done else status_at s j) \<or>
    j \<noteq> i \<and> status_at s j = Some Goal_blocked \<and> status_at (complete_task i r s) j = Some Goal_pending"
  using unblocks_status [of "gn_children g" "forget i (update_goal i (\<lambda>g. g\<lparr>gn_status := Goal_done,
      gn_result := (case r of None \<Rightarrow> gn_result g | Some r \<Rightarrow> Some r)\<rparr>) (count_down (agent_of g) s))" j]
  by (auto simp: complete_status [OF assms] status_update assms)

lemma fail_status:
  "status_at (fail_task i e s) j = (if j = i \<and> status_at s i \<noteq> None then Some Goal_failed else status_at s j)"
  by (auto simp: fail_task_def status_update split: option.split) (simp_all add: status_at_def)

lemma claim_status:
  "status_at (snd (claim_begin i a s)) j =
     (if j = i \<and> status_at s i = Some Goal_pending then Some Goal_in_progress else status_at s j)"
  by (auto simp: claim_begin_def status_update take_goal_def Let_def split: option.split) (simp_all add: status_at_def)

lemma reopen_status [simp]: "status_at (reopen i s) j = status_at s j"
  by (simp add: reopen_def)

lemma settle_status [simp]: "status_at (claim_end s) j = status_at s j"
  by (simp add: claim_end_def settle_def split: list.split prod.split)

text \<open>A window that expires fails the task, or gives it away, or changes no status.\<close>

lemma evaluate_status:
  "status_at (evaluate_bids i s) j = status_at s j \<or>
   j = i \<and> status_at s i \<noteq> None \<and> status_at (evaluate_bids i s) j = Some Goal_failed \<or>
   j = i \<and> status_at s i = Some Goal_pending \<and> status_at (evaluate_bids i s) j = Some Goal_in_progress"
  by (auto simp: evaluate_bids_def Let_def fail_status claim_status split: list.split option.split)

lemma place_status [simp]: "status_at (snd (place_bid_op rate i a n r w s)) j = status_at s j"
  by (simp add: place_bid_op_def Let_def split: option.split)


section \<open>A task is awarded once\<close>

definition is_claim_of :: "string \<Rightarrow> notice \<Rightarrow> bool" where
  "is_claim_of i n = (case n of Claimed j a \<Rightarrow> j = i | _ \<Rightarrow> False)"

definition awards :: "auction \<Rightarrow> string \<Rightarrow> nat" where
  "awards s i = length (filter (\<lambda>x. fst x = i) (au_settling s)) + length (filter (is_claim_of i) (au_log s))"

lemma awards_simps [simp]:
  "awards (say n s) i = awards s i + (if is_claim_of i n then 1 else 0)"
  "awards (count_up a s) i = awards s i" "awards (count_down a s) i = awards s i"
  "awards (cancel_window j s) i = awards s i" "awards (start_window j s) i = awards s i"
  "awards (drop_bids j s) i = awards s i" "awards (drop_retries j s) i = awards s i"
  "awards (broadcast j s) i = awards s i" "awards (forget j s) i = awards s i"
  "awards (update_goal j f s) i = awards s i" "awards (put_goal g s) i = awards s i"
  "awards (s\<lparr>au_bids := b\<rparr>) i = awards s i" "awards (s\<lparr>au_retries := r\<rparr>) i = awards s i"
  "awards (s\<lparr>au_windows := w\<rparr>) i = awards s i"
  by (simp_all add: awards_def say_def count_up_def count_down_def cancel_window_def start_window_def drop_bids_def
      drop_retries_def broadcast_def forget_def update_goal_def put_goal_def is_claim_of_def Let_def)

lemma not_claims [simp]:
  "\<not> is_claim_of i (Published j)" "\<not> is_claim_of i (Assigned j a)" "\<not> is_claim_of i (Completed j a)"
  "\<not> is_claim_of i (Failed j a)" "\<not> is_claim_of i (Bid_placed j a)" "is_claim_of i (Claimed j a) = (j = i)"
  by (simp_all add: is_claim_of_def)

lemma awards_links: "awards (fold (link_blocker j) bs s) i = awards s i"
  by (induction bs arbitrary: s) (simp_all add: link_blocker_def split: option.split)

lemma awards_publish [simp]: "awards (publish_task j t s) i = awards s i"
  by (simp add: publish_alt Let_def assign_direct_def awards_links link_parent_def split: option.split)

lemma awards_unblocks [simp]: "awards (fold unblock_child cs s) i = awards s i"
  by (induction cs arbitrary: s) (simp_all add: unblock_child_def split: option.split)

lemma awards_complete [simp]: "awards (complete_task j r s) i = awards s i"
  by (simp add: complete_task_def Let_def split: option.split)

lemma awards_fail [simp]: "awards (fail_task j e s) i = awards s i"
  by (simp add: fail_task_def split: option.split)

lemma awards_place [simp]: "awards (snd (place_bid_op rate j a n r w s)) i = awards s i"
  by (simp add: place_bid_op_def Let_def split: option.split)

lemma awards_claim: "awards (snd (claim_begin j a s)) i = awards s i + (if j = i \<and> status_at s i = Some Goal_pending then 1 else 0)"
  by (auto simp: claim_begin_def Let_def status_at_def awards_def update_goal_def cancel_window_def split: option.split)

lemma awards_settle [simp]: "awards (claim_end s) i = awards s i"
  by (auto simp: claim_end_def settle_def awards_def say_def count_up_def drop_bids_def is_claim_of_def split: list.split prod.split)

lemma awards_evaluate:
  "awards (evaluate_bids j s) i = awards s i \<or>
   j = i \<and> status_at s i = Some Goal_pending \<and> status_at (evaluate_bids j s) i = Some Goal_in_progress \<and>
     awards (evaluate_bids j s) i = awards s i + 1"
  by (auto simp: evaluate_bids_def Let_def reopen_def awards_claim claim_status split: list.split option.split)

definition waiting :: "goal_status option \<Rightarrow> bool" where
  "waiting st = (st = None \<or> st = Some Goal_pending \<or> st = Some Goal_blocked)"

definition awarded_ok :: "auction \<Rightarrow> bool" where
  "awarded_ok s = (\<forall>i. awards s i \<le> 1 \<and> (if waiting (status_at s i) then awards s i = 0 else True))"

lemma awarded_same:
  assumes "awarded_ok s" "\<And>i. awards s' i = awards s i" "\<And>i. waiting (status_at s' i) \<Longrightarrow> waiting (status_at s i)"
  shows "awarded_ok s'"
  using assms by (auto simp: awarded_ok_def)

lemma fresh_goal: "\<not> jm_has (kg_nodes (au_graph s)) i \<Longrightarrow> goal_at s i = None"
  by (simp add: goal_at_def get_node_def jm_has_def)

lemma auction_step_awarded:
  assumes "awarded_ok s" shows "awarded_ok (auction_step rate e s)"
proof (cases e)
  case (Publish i t)
  have old: "jm_has (kg_nodes (au_graph s)) i \<or> status_at s i = None"
    using fresh_goal [of s i] by (cases "jm_has (kg_nodes (au_graph s)) i") (simp_all add: status_at_def)
  show ?thesis
  proof (cases "jm_has (kg_nodes (au_graph s)) i")
    case False
    with old have "status_at s i = None" by simp
    then show ?thesis
      using Publish False by (auto intro!: awarded_same [OF assms] simp: publish_status waiting_def split: if_splits)
  qed (use assms Publish in simp)
next
  case (Place i a n r w)
  then show ?thesis by (auto intro!: awarded_same [OF assms])
next
  case (Claim_hand i a)
  from assms show ?thesis
    by (auto simp: Claim_hand awarded_ok_def awards_claim claim_status waiting_def)
next
  case Settle
  then show ?thesis by (auto intro!: awarded_same [OF assms])
next
  case (Complete i r)
  show ?thesis
  proof (cases "goal_at s i")
    case None
    with assms Complete show ?thesis by (simp add: complete_task_def)
  next
    case (Some g)
    show ?thesis
      using Complete complete_status_cases [OF Some, of r]
      by (auto intro!: awarded_same [OF assms] simp: waiting_def split: if_splits) (metis goal_status.distinct option.distinct option.inject)+
  qed
next
  case (Fail i e)
  then show ?thesis by (auto intro!: awarded_same [OF assms] simp: fail_status waiting_def split: if_splits)
next
  case (Expire i)
  show ?thesis
  proof (cases "i \<in> set (au_windows s)")
    case True
    let ?s = "s\<lparr>au_windows := js_remove i (au_windows s)\<rparr>"

    have "awarded_ok (evaluate_bids i ?s)"
      unfolding awarded_ok_def
    proof
      fix j
      from assms have "awards ?s j \<le> 1" "waiting (status_at ?s j) \<Longrightarrow> awards ?s j = 0"
        by (auto simp: awarded_ok_def split: if_splits)
      with awards_evaluate [of i ?s j] evaluate_status [of i ?s j]
      show "awards (evaluate_bids i ?s) j \<le> 1 \<and>
          (if waiting (status_at (evaluate_bids i ?s) j) then awards (evaluate_bids i ?s) j = 0 else True)"
        by (auto simp: waiting_def)
    qed
    with Expire True show ?thesis by (simp add: window_expires_def)
  qed (use assms Expire in \<open>simp add: window_expires_def\<close>)
next
  case (Elsewhere i)
  then show ?thesis by (auto intro!: awarded_same [OF assms] simp: on_claimed_event_def)
next
  case Dispose
  then show ?thesis by (auto intro!: awarded_same [OF assms] simp: dispose_def)
qed

interpretation awarding: state_contract "auction_step rate" awarded_ok for rate
  by unfold_locales (rule auction_step_awarded)

text \<open>C21. Whatever happens in whatever order, also between the two halves of a claim, a task is awarded at
  most once.\<close>

theorem awarded_once:
  "let s = fold (auction_step rate) es (new_auction (empty_graph file) tasks conf retries)
   in length (filter (\<lambda>x. fst x = i) (au_settling s)) + length (filter (is_claim_of i) (au_log s)) \<le> 1"
proof -
  let ?s0 = "new_auction (empty_graph file) tasks conf retries"
  have "awarded_ok ?s0" by (simp add: awarded_ok_def awards_def new_auction_def)
  from awarding.run_good [OF this, of rate es] show ?thesis by (simp add: awarded_ok_def awards_def Let_def)
qed


section \<open>Blockers come first\<close>

definition blockers_of :: "auction \<Rightarrow> string \<Rightarrow> string list" where
  "blockers_of s i = (case goal_at s i of None \<Rightarrow> [] | Some g \<Rightarrow> gn_blocked_by g)"

definition settled_blockers :: "auction \<Rightarrow> string \<Rightarrow> bool" where
  "settled_blockers s i = list_all (\<lambda>b. status_at s b = Some Goal_done) (blockers_of s i)"

text \<open>Only waiting goals have a window, and a goal that can be worked on has all its blockers done.\<close>

definition orderly :: "auction \<Rightarrow> bool" where
  "orderly s =
     ((\<forall>i \<in> set (au_windows s). status_at s i = Some Goal_pending \<or> status_at s i = Some Goal_blocked) \<and>
      (\<forall>i. status_at s i = Some Goal_pending \<or> status_at s i = Some Goal_in_progress \<longrightarrow> settled_blockers s i))"

text \<open>Histories without tasks published for an agent in person, and in which nobody fails a finished task.\<close>

definition regular :: "auction_op \<Rightarrow> auction \<Rightarrow> bool" where
  "regular e s =
     (case e of
        Publish i t \<Rightarrow> given (ti_target t) = None
      | Fail i m \<Rightarrow> status_at s i \<noteq> Some Goal_done
      | _ \<Rightarrow> True)"

definition regular_step :: "rating \<Rightarrow> auction_op \<Rightarrow> auction \<Rightarrow> auction" where
  "regular_step rate e s = (if regular e s then auction_step rate e s else s)"

lemma blockers_update: "(\<And>g. gn_blocked_by (f g) = gn_blocked_by g) \<Longrightarrow> blockers_of (update_goal i f s) j = blockers_of s j"
  by (simp add: blockers_of_def split: option.split)

lemma blockers_frame:
  "goal_at s' j = goal_at s j \<Longrightarrow> blockers_of s' j = blockers_of s j"
  by (simp add: blockers_of_def)

lemma blockers_links: "blockers_of (fold (link_blocker i) bs s) j = blockers_of s j"
proof (induction bs arbitrary: s)
  case (Cons b bs)
  have "blockers_of (link_blocker i b s) j = blockers_of s j"
    by (simp add: link_blocker_def blockers_update add_child_def split: option.split)
  with Cons show ?case by simp
qed simp

lemma blockers_parent: "blockers_of (link_parent i t s) j = blockers_of s j"
  by (simp add: link_parent_def blockers_update add_child_def split: option.split)

lemma blockers_unblocks: "blockers_of (fold unblock_child cs s) j = blockers_of s j"
proof (induction cs arbitrary: s)
  case (Cons c cs)
  have "blockers_of (unblock_child c s) j = blockers_of s j"
    by (auto simp: unblock_child_def blockers_of_def split: option.split)
  with Cons show ?case by simp
qed simp

lemma blockers_simps:
  "blockers_of (say n s) j = blockers_of s j" "blockers_of (forget i s) j = blockers_of s j"
  "blockers_of (count_down a s) j = blockers_of s j" "blockers_of (cancel_window i s) j = blockers_of s j"
  "blockers_of (drop_bids i s) j = blockers_of s j" "blockers_of (drop_retries i s) j = blockers_of s j"
  "blockers_of (broadcast i s) j = blockers_of s j" "blockers_of (start_window i s) j = blockers_of s j"
  "blockers_of (s\<lparr>au_bids := b\<rparr>) j = blockers_of s j" "blockers_of (s\<lparr>au_retries := r\<rparr>) j = blockers_of s j"
  "blockers_of (s\<lparr>au_windows := w\<rparr>) j = blockers_of s j"
  by (simp_all add: blockers_of_def)

lemma blockers_complete: "blockers_of (complete_task i r s) j = blockers_of s j"
  by (cases "goal_at s i") (simp_all add: complete_task_def Let_def blockers_unblocks blockers_simps blockers_update)

lemma blockers_fail: "blockers_of (fail_task i e s) j = blockers_of s j"
  by (auto simp: fail_task_def blockers_of_def split: option.split)

lemma blockers_claim: "blockers_of (snd (claim_begin i a s)) j = blockers_of s j"
  by (auto simp: claim_begin_def Let_def take_goal_def blockers_of_def split: option.split)

lemma blockers_evaluate: "blockers_of (evaluate_bids i s) j = blockers_of s j"
  by (simp add: evaluate_bids_def Let_def reopen_def blockers_claim blockers_fail blockers_simps split: list.split option.split)

lemma settled_mono:
  assumes "settled_blockers s i" "blockers_of s' i = blockers_of s i"
    "\<And>b. status_at s b = Some Goal_done \<Longrightarrow> status_at s' b = Some Goal_done"
  shows "settled_blockers s' i"
  using assms by (auto simp: settled_blockers_def list_all_iff)

lemma orderly_keeps:
  assumes "orderly s" "\<And>j. blockers_of s' j = blockers_of s j"
    "\<And>b. status_at s b = Some Goal_done \<Longrightarrow> status_at s' b = Some Goal_done"
    "\<And>j. status_at s' j = Some Goal_pending \<or> status_at s' j = Some Goal_in_progress \<Longrightarrow>
       status_at s j = Some Goal_pending \<or> status_at s j = Some Goal_in_progress"
    "\<And>j. j \<in> set (au_windows s') \<Longrightarrow> status_at s' j = Some Goal_pending \<or> status_at s' j = Some Goal_blocked"
  shows "orderly s'"
  using assms unfolding orderly_def by (metis settled_mono)

lemma unblock_orderly:
  assumes "orderly s" shows "orderly (unblock_child c s)"
proof (cases "status_at s c = Some Goal_blocked \<and> settled_blockers s c")
  case True
  then obtain g where g: "goal_at s c = Some g" "gn_status g = Goal_blocked" by (auto simp: status_at_def)
  have set: "list_all (\<lambda>b. status_at s b = Some Goal_done) (gn_blocked_by g)"
    using True g by (simp add: settled_blockers_def blockers_of_def)
  have win: "au_windows (unblock_child c s) = js_remove c (au_windows s) @ [c]"
    using g set by (simp add: unblock_child_def)
  have st: "status_at (unblock_child c s) j = (if j = c then Some Goal_pending else status_at s j)" for j
    using unblock_status [of c s j] True g set by simp
  have bl: "blockers_of (unblock_child c s) j = blockers_of s j" for j
    using blockers_unblocks [of "[c]" s j] by simp
  have "settled_blockers (unblock_child c s) j" if "settled_blockers s j" for j
    using that True by (intro settled_mono [OF that bl]) (auto simp: st)
  with assms True show ?thesis by (auto simp: orderly_def win st)
next
  case False
  then have "unblock_child c s = s"
    by (auto simp: unblock_child_def settled_blockers_def blockers_of_def status_at_def split: option.splits)
  with assms show ?thesis by simp
qed

interpretation unblocking: state_contract unblock_child orderly
  by unfold_locales (rule unblock_orderly)

lemma complete_orderly:
  assumes "orderly s" shows "orderly (complete_task i r s)"
proof (cases "goal_at s i")
  case (Some g)
  let ?s1 = "forget i (update_goal i (\<lambda>g. g\<lparr>gn_status := Goal_done,
      gn_result := (case r of None \<Rightarrow> gn_result g | Some r \<Rightarrow> Some r)\<rparr>) (count_down (agent_of g) s))"
  have "orderly ?s1"
  proof (rule orderly_keeps [OF assms])
    show "blockers_of ?s1 j = blockers_of s j" for j by (simp add: blockers_simps blockers_update)
    show "j \<in> set (au_windows ?s1) \<Longrightarrow> status_at ?s1 j = Some Goal_pending \<or> status_at ?s1 j = Some Goal_blocked" for j
      using assms by (auto simp: status_update Some orderly_def)
  qed (auto simp: status_update Some split: if_splits)
  from unblocking.run_good [OF this, of "gn_children g"]
  have "orderly (fold unblock_child (gn_children g) ?s1)" .
  moreover have "orderly (say n s') = orderly s'" for n s'
    by (simp add: orderly_def settled_blockers_def blockers_of_def)
  ultimately show ?thesis using Some by (simp add: complete_task_def Let_def)
qed (use assms in \<open>simp add: complete_task_def\<close>)

lemma fail_orderly:
  assumes "orderly s" "status_at s i \<noteq> Some Goal_done" shows "orderly (fail_task i e s)"
proof (cases "goal_at s i")
  case (Some g)
  have win: "au_windows (fail_task i e s) = js_remove i (au_windows s)" using Some by (simp add: fail_task_def)
  show ?thesis
    by (rule orderly_keeps [OF assms(1)])
      (use assms in \<open>auto simp: fail_status blockers_fail win orderly_def split: if_splits\<close>)
qed (use assms in \<open>simp add: fail_task_def\<close>)

lemma claim_orderly:
  assumes "orderly s" shows "orderly (snd (claim_begin i a s))"
proof (cases "status_at s i = Some Goal_pending")
  case True
  then obtain g where g: "goal_at s i = Some g" "gn_status g = Goal_pending" by (auto simp: status_at_def)
  have win: "au_windows (snd (claim_begin i a s)) = js_remove i (au_windows s)"
    using g by (simp add: claim_begin_def Let_def)
  show ?thesis
    by (rule orderly_keeps [OF assms])
      (use assms True in \<open>auto simp: claim_status blockers_claim win orderly_def split: if_splits\<close>)
next
  case False
  then have "snd (claim_begin i a s) = s" by (auto simp: claim_begin_def status_at_def split: option.splits)
  with assms show ?thesis by simp
qed

lemma reopen_orderly:
  assumes "orderly s" "status_at s i = Some Goal_pending \<or> status_at s i = Some Goal_blocked"
  shows "orderly (reopen i s)"
proof (rule orderly_keeps [OF assms(1)])
  show "blockers_of (reopen i s) j = blockers_of s j" for j by (simp add: reopen_def blockers_of_def)
  show "j \<in> set (au_windows (reopen i s)) \<Longrightarrow> status_at (reopen i s) j = Some Goal_pending \<or> status_at (reopen i s) j = Some Goal_blocked" for j
    using assms by (auto simp: reopen_def orderly_def split: if_splits)
qed simp_all

lemma orderly_fields [simp]:
  "orderly (s\<lparr>au_bids := b\<rparr>) = orderly s" "orderly (s\<lparr>au_retries := r\<rparr>) = orderly s"
  "orderly (drop_retries i s) = orderly s"
  by (simp_all add: orderly_def settled_blockers_def blockers_of_def)

lemma evaluate_orderly:
  assumes "orderly s" "status_at s i = Some Goal_pending \<or> status_at s i = Some Goal_blocked"
  shows "orderly (evaluate_bids i s)"
  using assms by (auto simp: evaluate_bids_def Let_def fail_orderly claim_orderly reopen_orderly split: list.split option.split)

lemma regular_step_orderly:
  assumes "orderly s" shows "orderly (regular_step rate e s)"
proof (cases "regular e s")
  case True
  have "orderly (auction_step rate e s)"
  proof (cases e)
    case (Publish i t)
    show ?thesis
    proof (cases "jm_has (kg_nodes (au_graph s)) i")
      case False
      have none: "goal_at s i = None" "status_at s i = None" using fresh_goal [OF False] by (simp_all add: status_at_def)
      have tgt: "given (ti_target t) = None" using True Publish by (simp add: regular_def)
      have wlinks: "au_windows (fold (link_blocker i) bs s') = au_windows s'" for bs s'
        by (induction bs arbitrary: s') (simp_all add: link_blocker_def split: option.split)
      have win: "au_windows (publish_task i t s) = js_remove i (au_windows s) @ [i]"
        by (simp add: publish_alt Let_def tgt wlinks link_parent_def split: option.split)
      have bl: "blockers_of (publish_task i t s) j = (if j = i then ti_blocked_by t else blockers_of s j)" for j
        by (simp add: publish_alt Let_def tgt blockers_links blockers_parent blockers_frame [of "say n s'" j s' for n s'])
          (simp add: blockers_of_def blockers_links [unfolded blockers_of_def] blockers_parent [unfolded blockers_of_def] new_goal_def)
      note st = publish_status [of i t s]
      have new: "gn_status (new_goal i t s) = (if has_open_blockers s t then Goal_blocked else Goal_pending)"
        by (simp add: new_goal_def tgt)
      have "settled_blockers (publish_task i t s) j"
        if "status_at (publish_task i t s) j = Some Goal_pending \<or> status_at (publish_task i t s) j = Some Goal_in_progress" for j
      proof (cases "j = i")
        case True
        then have "\<not> has_open_blockers s t" using that by (auto simp: st new)
        then show ?thesis
          using True none by (auto simp: settled_blockers_def bl st has_open_blockers_def list_ex_iff list_all_iff)
      next
        case False
        then have "settled_blockers s j" using that assms by (auto simp: orderly_def st)
        then show ?thesis using False none by (auto simp: settled_blockers_def bl st list_all_iff)
      qed
      moreover have "status_at (publish_task i t s) j = Some Goal_pending \<or> status_at (publish_task i t s) j = Some Goal_blocked"
        if "j \<in> set (au_windows (publish_task i t s))" for j
        using that assms by (auto simp: win st new orderly_def)
      ultimately show ?thesis using Publish False by (auto simp: orderly_def)
    qed (use assms Publish in simp)
  next
    case (Place i a n r w)
    have "au_windows (snd (place_bid_op rate i a n r w s)) = au_windows s" "goal_at (snd (place_bid_op rate i a n r w s)) j = goal_at s j" for j
      by (simp_all add: place_bid_op_def Let_def split: option.split)
    with assms Place show ?thesis by (simp add: orderly_def settled_blockers_def blockers_of_def)
  next
    case Settle
    have "au_windows (claim_end s) = au_windows s" "goal_at (claim_end s) j = goal_at s j" for j
      by (simp_all add: claim_end_def settle_def split: list.split prod.split)
    with assms Settle show ?thesis by (simp add: orderly_def settled_blockers_def blockers_of_def)
  next
    case (Fail i m)
    with True assms show ?thesis by (simp add: regular_def fail_orderly)
  next
    case (Expire i)
    show ?thesis
    proof (cases "i \<in> set (au_windows s)")
      case True
      let ?s = "s\<lparr>au_windows := js_remove i (au_windows s)\<rparr>"
      have "status_at ?s i = Some Goal_pending \<or> status_at ?s i = Some Goal_blocked" using assms True by (simp add: orderly_def)
      moreover have "orderly ?s" using assms by (auto simp: orderly_def settled_blockers_def blockers_of_def)
      ultimately show ?thesis using Expire True by (simp add: window_expires_def evaluate_orderly)
    qed (use assms Expire in \<open>simp add: window_expires_def\<close>)
  next
    case (Elsewhere i)
    with assms show ?thesis by (auto simp: on_claimed_event_def orderly_def settled_blockers_def blockers_simps)
  next
    case Dispose
    with assms show ?thesis by (simp add: dispose_def orderly_def settled_blockers_def blockers_of_def)
  qed (use assms in \<open>simp_all add: complete_orderly claim_orderly\<close>)
  with True show ?thesis by (simp add: regular_step_def)
qed (use assms in \<open>simp add: regular_step_def\<close>)

interpretation market: state_contract "regular_step rate" orderly for rate
  by unfold_locales (rule regular_step_orderly)

text \<open>C9. Order is respected: in every history in which tasks go through the market and no finished task is
  failed, a task that is biddable or in progress has all its blockers done.\<close>

theorem blockers_done_first:
  "let s = fold (regular_step rate) es (new_auction (empty_graph file) tasks conf retries)
   in status_at s i = Some Goal_pending \<or> status_at s i = Some Goal_in_progress \<longrightarrow> settled_blockers s i"
proof -
  let ?s0 = "new_auction (empty_graph file) tasks conf retries"
  have "status_at ?s0 j = None" for j by (simp add: new_auction_def empty_graph_def status_at_def goal_at_def get_node_def)
  then have "orderly ?s0" by (simp add: orderly_def new_auction_def)
  from market.run_good [OF this, of rate es] show ?thesis by (auto simp: orderly_def Let_def)
qed


definition plain_task :: "string \<Rightarrow> string list \<Rightarrow> task_input" where
  "plain_task d bs = \<lparr>ti_title = d, ti_description = d, ti_priority = None, ti_tags = [], ti_target = None,
     ti_parent = None, ti_satisfies = [], ti_blocked_by = bs\<rparr>"

definition small_market :: "nat \<Rightarrow> auction" where
  "small_market n = new_auction (empty_graph '''') (Some n) None None"

definition chained_market :: auction where
  "chained_market = publish_task ''2'' (plain_task ''y'' [''1'']) (publish_task ''1'' (plain_task ''x'' []) (small_market 1))"

definition plain_history :: "auction_op list" where
  "plain_history = [Publish ''1'' (plain_task ''x'' []), Publish ''2'' (plain_task ''y'' [''1'']), Complete ''1'' None]"

lemma blockers_done_first_witness:
  "settled_blockers (fold (regular_step (\<lambda>_. ([], 1))) plain_history (small_market 1)) ''2''"
proof -
  let ?r = "\<lambda>_ :: string. ([] :: string, 1 :: rat)"
  have "status_at (fold (regular_step ?r) plain_history (small_market 1)) ''2'' = Some Goal_pending" by code_simp
  then show ?thesis
    using blockers_done_first [of ?r plain_history "[]" "Some 1" None None "''2''"]
    by (simp add: small_market_def Let_def)
qed

section \<open>Windows that run out\<close>

definition quiet :: "nat \<Rightarrow> string \<Rightarrow> auction \<Rightarrow> bool" where
  "quiet k i s =
     (i \<in> set (au_windows s) \<and> goal_at s i \<noteq> None \<and> jm_get (au_bids s) i = None \<and>
      (case jm_get (au_retries s) i of None \<Rightarrow> 0 | Some n \<Rightarrow> n) = k)"

lemma reopen_frame [simp]:
  "au_bids (reopen i s) = au_bids s" "au_retries (reopen i s) = au_retries s"
  "au_max_retries (reopen i s) = au_max_retries s" "goal_at (reopen i s) j = goal_at s j"
  by (simp_all add: reopen_def broadcast_def say_def start_window_def cancel_window_def Let_def goal_at_def)

lemma reopen_window: "goal_at s i \<noteq> None \<Longrightarrow> i \<in> set (au_windows (reopen i s))"
  by (auto simp: reopen_def)

lemma quiet_expiry:
  assumes "quiet k i s" "k + 1 < au_max_retries s"
  shows "quiet (k + 1) i (window_expires i s) \<and> au_max_retries (window_expires i s) = au_max_retries s \<and>
    status_at (window_expires i s) j = status_at s j"
  using assms by (auto simp: quiet_def window_expires_def evaluate_bids_def Let_def reopen_window)

lemma last_expiry:
  assumes "quiet k i s" "au_max_retries s \<le> k + 1"
  shows "status_at (window_expires i s) j = (if j = i then Some Goal_failed else status_at s j)"
proof -
  have "status_at s i \<noteq> None" using assms(1) by (simp add: quiet_def status_at_def)
  with assms show ?thesis by (simp add: quiet_def window_expires_def evaluate_bids_def Let_def fail_status)
qed

lemma quiet_expiries:
  assumes "quiet 0 i s" "n < au_max_retries s"
  shows "quiet n i ((window_expires i ^^ n) s) \<and> au_max_retries ((window_expires i ^^ n) s) = au_max_retries s \<and>
    status_at ((window_expires i ^^ n) s) j = status_at s j"
  using assms(2)
proof (induction n)
  case (Suc n)
  then show ?case using quiet_expiry [of n i "(window_expires i ^^ n) s" j] by auto
qed (use assms(1) in simp)

lemma quiet_bids_refused:
  "status_at s i \<noteq> Some Goal_pending \<Longrightarrow> place_bid_op rate i a n r w s = (False, s)"
  by (auto simp: place_bid_op_def status_at_def split: option.split)

text \<open>C35. A blocked task is on a clock it cannot win: its bid window runs from the start, every bid on it is refused
  while it is blocked, after the last window it is marked failed for want of bids, and completing its blocker later
  does not bring it back.\<close>

theorem blocked_task_expires:
  assumes "status_at s i = Some Goal_blocked" "i \<in> set (au_windows s)" "jm_get (au_bids s) i = None"
    "jm_get (au_retries s) i = None" "n < au_max_retries s" "b \<noteq> i"
  shows "place_bid_op rate i a nm role why ((window_expires i ^^ n) s) = (False, (window_expires i ^^ n) s) \<and>
    status_at ((window_expires i ^^ au_max_retries s) s) i = Some Goal_failed \<and>
    status_at (complete_task b r ((window_expires i ^^ au_max_retries s) s)) i = Some Goal_failed"
proof -
  let ?s = "(window_expires i ^^ au_max_retries s) s"
  have q: "quiet 0 i s" using assms(1-4) by (auto simp: quiet_def status_at_def)
  have refused: "place_bid_op rate i a nm role why ((window_expires i ^^ n) s) = (False, (window_expires i ^^ n) s)"
    using quiet_expiries [OF q assms(5), of i] assms(1) by (intro quiet_bids_refused) simp
  obtain m where m: "au_max_retries s = Suc m" using assms(5) by (cases "au_max_retries s") auto
  have fl: "status_at ?s i = Some Goal_failed"
    using quiet_expiries [OF q, of m i] last_expiry [of m i "(window_expires i ^^ m) s" i] by (simp add: m)
  have "status_at (complete_task b r ?s) i = Some Goal_failed"
  proof (cases "goal_at ?s b")
    case None
    with fl show ?thesis by (simp add: complete_task_def)
  next
    case (Some g)
    from complete_status_cases [OF Some, of r i] fl assms(6) show ?thesis by auto
  qed
  with refused fl show ?thesis by simp
qed

lemma blocked_task_expires_witness:
  "status_at ((window_expires ''2'' ^^ 3) chained_market) ''2'' = Some Goal_failed"
proof -
  have f: "status_at chained_market ''2'' = Some Goal_blocked" "''2'' \<in> set (au_windows chained_market)"
    "jm_get (au_bids chained_market) ''2'' = None" "jm_get (au_retries chained_market) ''2'' = None"
    "au_max_retries chained_market = 3"
    by (code_simp+)
  show ?thesis
    using blocked_task_expires [OF f(1-4), where n = 0 and b = "''1''"] by (simp add: f(5))
qed

section \<open>The limit of tasks per agent\<close>

definition lone_bid :: "auction \<Rightarrow> string \<Rightarrow> string \<Rightarrow> bool" where
  "lone_bid s i a = (case jm_get (au_bids s) i of Some [b] \<Rightarrow> bd_agent b = a | _ \<Rightarrow> False)"

definition ripe :: "auction \<Rightarrow> string \<Rightarrow> string \<Rightarrow> bool" where
  "ripe s i a = (i \<in> set (au_windows s) \<and> status_at s i = Some Goal_pending \<and> lone_bid s i a)"

lemma ripe_expiry:
  assumes "ripe s i a" "task_count s a < au_max_tasks s"
  shows "au_settling (window_expires i s) = au_settling s @ [(i, a)]"
    and "task_count (window_expires i s) c = task_count s c"
    and "au_max_tasks (window_expires i s) = au_max_tasks s"
    and "j \<noteq> i \<Longrightarrow> ripe s j c \<Longrightarrow> ripe (window_expires i s) j c"
proof -
  obtain b where b: "jm_get (au_bids s) i = Some [b]" "bd_agent b = a"
    using assms(1) by (auto simp: ripe_def lone_bid_def split: option.splits list.splits)
  obtain g where g: "goal_at s i = Some g" "gn_status g = Goal_pending"
    using assms(1) by (auto simp: ripe_def status_at_def)
  define t where "t = s\<lparr>au_windows := js_remove i (au_windows s), au_bids := jm_set i [b] (au_bids s)\<rparr>"
  have "goal_at t i = Some g" using g by (simp add: t_def)
  then have "window_expires i s = (let u = update_goal i (take_goal a) (cancel_window i t)
      in u\<lparr>au_settling := au_settling u @ [(i, a)]\<rparr>)"
    using assms b g
    by (simp add: window_expires_def ripe_def evaluate_bids_def Let_def claim_begin_def t_def task_count_def)
  note w = this [unfolded Let_def]
  show "au_settling (window_expires i s) = au_settling s @ [(i, a)]"
    by (simp add: w update_goal_def cancel_window_def t_def)
  show "task_count (window_expires i s) c = task_count s c"
    by (simp add: w update_goal_def cancel_window_def t_def task_count_def)
  show "au_max_tasks (window_expires i s) = au_max_tasks s"
    by (simp add: w update_goal_def cancel_window_def t_def)
  show "j \<noteq> i \<Longrightarrow> ripe s j c \<Longrightarrow> ripe (window_expires i s) j c"
    by (simp add: w ripe_def lone_bid_def status_at_def)
      (simp add: update_goal_def cancel_window_def t_def)
qed

lemma two_settle:
  "au_settling s = [(i, a), (j, a)] \<Longrightarrow> task_count (claim_end (claim_end s)) a = task_count s a + 2"
  by (simp add: claim_end_def settle_def task_count_def drop_bids_def count_up_def say_def)

text \<open>Two windows that run out at once: the second winner is chosen before the first award is counted, so an agent
  with room for one more task is given two and ends above its limit.\<close>

theorem concurrent_awards_exceed:
  assumes "ripe s i a" "ripe s j a" "i \<noteq> j" "au_settling s = []" "task_count s a + 1 = au_max_tasks s"
  shows "task_count (claim_end (claim_end (window_expires j (window_expires i s)))) a = au_max_tasks s + 1"
proof -
  have c: "task_count s a < au_max_tasks s" using assms(5) by simp
  note e1 = ripe_expiry [OF assms(1) c]
  let ?s = "window_expires i s"
  have r: "ripe ?s j a" "task_count ?s a < au_max_tasks ?s" using e1 assms c by auto
  note e2 = ripe_expiry [OF r]
  have "au_settling (window_expires j ?s) = [(i, a), (j, a)]" by (simp add: e1 e2 assms(4))
  from two_settle [OF this] show ?thesis by (simp add: e1 e2 flip: assms(5))
qed

definition one_bid :: "string \<Rightarrow> bid" where
  "one_bid i = \<lparr>bd_task = i, bd_agent = ''a'', bd_name = ''A'', bd_role = ''r'', bd_score = 1, bd_rationale = ''''\<rparr>"

definition crowded_market :: auction where
  "crowded_market =
     (let s = publish_task ''2'' (plain_task ''y'' []) (publish_task ''1'' (plain_task ''x'' []) (small_market 1))
      in s\<lparr>au_bids := [(''1'', [one_bid ''1'']), (''2'', [one_bid ''2''])]\<rparr>)"

lemma concurrent_awards_exceed_witness:
  "task_count (claim_end (claim_end (window_expires ''2'' (window_expires ''1'' crowded_market)))) ''a'' = 2"
proof -
  have f: "ripe crowded_market ''1'' ''a''" "ripe crowded_market ''2'' ''a''" "au_settling crowded_market = []"
    "task_count crowded_market ''a'' = 0" "au_max_tasks crowded_market = 1"
    by (code_simp+)
  show ?thesis using concurrent_awards_exceed [OF f(1,2) _ f(3)] by (simp add: f(4,5))
qed

section \<open>What idle agents are shown\<close>

lemma blockers_stay:
  "blockers_of (auction_step rate e s) i = blockers_of s i \<or> goal_at s i = None"
proof (cases e)
  case (Publish j t)
  show ?thesis
  proof (cases "jm_has (kg_nodes (au_graph s)) j \<or> i = j")
    case True
    then show ?thesis using Publish fresh_goal [of s j] by auto
  next
    case False
    then have "i \<noteq> j" by simp
    then have put: "blockers_of (put_goal (new_goal j t s) s) i = blockers_of s i"
      by (simp add: blockers_of_def new_goal_def)
    have dir: "blockers_of (assign_direct j a s') i = blockers_of s' i" for a s'
      by (simp add: assign_direct_def blockers_update take_goal_def blockers_simps blockers_of_def split: option.split)
    from False show ?thesis
      by (simp add: Publish publish_alt Let_def blockers_simps blockers_links blockers_parent put dir split: option.split)
  qed
next
  case (Place j a n r w)
  have "goal_at (snd (place_bid_op rate j a n r w s)) i = goal_at s i"
    by (simp add: place_bid_op_def Let_def split: option.split)
  from blockers_frame [OF this] show ?thesis by (simp add: Place)
next
  case Settle
  have "goal_at (claim_end s) i = goal_at s i" by (simp add: claim_end_def settle_def split: list.split prod.split)
  from blockers_frame [OF this] show ?thesis by (simp add: Settle)
next
  case (Expire j)
  then show ?thesis by (simp add: window_expires_def blockers_evaluate blockers_simps)
qed (simp_all add: blockers_claim blockers_complete blockers_fail on_claimed_event_def blockers_simps dispose_def)

lemma goal_stays: "goal_at s i \<noteq> None \<Longrightarrow> goal_at (auction_step rate e s) i \<noteq> None"
proof -
  have st: "(goal_at t i \<noteq> None) = (status_at t i \<noteq> None)" for t by (simp add: status_at_def)
  assume "goal_at s i \<noteq> None"
  then have s: "status_at s i \<noteq> None" unfolding st .
  have "status_at (auction_step rate e s) i \<noteq> None"
  proof (cases e)
    case (Publish j t)
    with s show ?thesis by (simp add: publish_status)
  next
    case (Complete j r)
    with s complete_status_cases [of s j _ r i] show ?thesis
      by (cases "goal_at s j") (auto simp: complete_task_def split: if_splits)
  next
    case (Expire j)
    with s evaluate_status [of j "s\<lparr>au_windows := js_remove j (au_windows s)\<rparr>" i] show ?thesis
      by (auto simp: window_expires_def)
  qed (use s in \<open>simp_all add: claim_status fail_status on_claimed_event_def dispose_def\<close>)
  then show ?thesis unfolding st .
qed

lemma blockers_kept:
  "goal_at s i \<noteq> None \<Longrightarrow> goal_at (fold (auction_step rate) es s) i \<noteq> None \<and>
     blockers_of (fold (auction_step rate) es s) i = blockers_of s i"
proof (induction es arbitrary: s)
  case (Cons e es)
  from goal_stays [OF Cons.prems] blockers_stay [of rate e s i] Cons.prems Cons.IH [of "auction_step rate e s"]
  show ?case by (metis fold_simps(2))
qed simp

text \<open>A task published with a blocker is never shown to an idle agent: the list of blockers is not emptied when
  they complete, and both the search for work and the list of pending tasks pass over every task that has one.\<close>

theorem unblocked_task_hidden:
  assumes "goal_at s i = Some g" "gn_blocked_by g \<noteq> []"
  shows "case goal_at (fold (auction_step rate) es s) i of
      None \<Rightarrow> False
    | Some h \<Rightarrow> h \<notin> set (pending_tasks (fold (auction_step rate) es s)) \<and>
        h \<notin> fst ` set (find_work rate role limit (fold (auction_step rate) es s))"
proof -
  let ?s = "fold (auction_step rate) es s"
  obtain h where h: "goal_at ?s i = Some h" "gn_blocked_by h \<noteq> []"
    using blockers_kept [of s i rate es] assms by (auto simp: blockers_of_def)
  have "fst w \<in> set (pending_tasks ?s)" if "w \<in> set (find_work rate role limit ?s)" for w
    using in_set_takeD that by (fastforce simp: find_work_def pending_tasks_def)
  moreover have "h \<notin> set (pending_tasks ?s)" using h(2) by (simp add: pending_tasks_def)
  ultimately show ?thesis using h(1) by auto
qed

lemma unblocked_task_hidden_witness:
  "case goal_at (complete_task ''1'' None chained_market) ''2'' of
     None \<Rightarrow> False
   | Some h \<Rightarrow> gn_status h = Goal_pending \<and> h \<notin> set (pending_tasks (complete_task ''1'' None chained_market))"
proof -
  obtain g where g: "goal_at chained_market ''2'' = Some g" "gn_blocked_by g \<noteq> []"
  proof -
    have "case goal_at chained_market ''2'' of None \<Rightarrow> False | Some g \<Rightarrow> gn_blocked_by g \<noteq> []" by code_simp
    then show ?thesis using that by (cases "goal_at chained_market ''2''") auto
  qed
  have "status_at (complete_task ''1'' None chained_market) ''2'' = Some Goal_pending" by code_simp
  then show ?thesis
    using unblocked_task_hidden [OF g, of "\<lambda>_. (''r'', 1)" "[Complete ''1'' None]" "''''" 0]
    by (auto simp: status_at_def split: option.splits)
qed


section \<open>The winner\<close>

lemma found_best:
  assumes "sorted (map f xs)" "List.find P xs = Some w" "y \<in> set xs" "P y"
  shows "f w \<le> (f y :: 'b :: linorder)"
  using assms
proof (induction xs)
  case (Cons x xs)
  then show ?case by (cases "P x") auto
qed simp

lemma found_holds: "List.find P xs = Some w \<Longrightarrow> w \<in> set xs \<and> P w"
  by (induction xs) (auto split: if_splits)

text \<open>The window of a biddable task goes to a bidder with room whose score no bidder with room exceeds.\<close>

theorem winner_is_best:
  assumes "status_at s i = Some Goal_pending" "jm_get (au_bids s) i = Some bs"
    "list_ex (\<lambda>b. task_count s (bd_agent b) < au_max_tasks s) bs"
  shows "list_ex (\<lambda>w. task_count s (bd_agent w) < au_max_tasks s \<and>
      list_all (\<lambda>b. task_count s (bd_agent b) < au_max_tasks s \<longrightarrow> bd_score b \<le> bd_score w) bs \<and>
      map_option gn_assignee (goal_at (evaluate_bids i s) i) = Some (Some (bd_agent w)) \<and>
      au_settling (evaluate_bids i s) = au_settling s @ [(i, bd_agent w)]) bs"
proof -
  let ?P = "\<lambda>b. task_count s (bd_agent b) < au_max_tasks s"
  let ?bs = "sort_key (\<lambda>x. - bd_score x) bs"
  obtain w where w: "List.find ?P ?bs = Some w"
    using assms(3) by (cases "List.find ?P ?bs") (auto simp: find_None_iff list_ex_iff)
  have in_bs: "w \<in> set bs" "?P w" using found_holds [OF w] by auto
  have best: "bd_score b \<le> bd_score w" if "b \<in> set bs" "?P b" for b
    using found_best [OF sorted_sort_key w, of b] that by simp
  obtain g where g: "goal_at s i = Some g" "gn_status g = Goal_pending" using assms(1) by (auto simp: status_at_def)
  obtain c cs where bs: "bs = c # cs" using in_bs by (cases bs) auto
  have e: "evaluate_bids i s = snd (claim_begin i (bd_agent w) (s\<lparr>au_bids := jm_set i ?bs (au_bids s)\<rparr>))"
    using w by (simp add: evaluate_bids_def assms(2) bs Let_def del: sort_key_simps)
  have "map_option gn_assignee (goal_at (evaluate_bids i s) i) = Some (Some (bd_agent w))"
    "au_settling (evaluate_bids i s) = au_settling s @ [(i, bd_agent w)]"
    by (simp_all add: e claim_begin_def g Let_def take_goal_def) (simp add: update_goal_def cancel_window_def)
  with in_bs best show ?thesis by (auto simp: list_ex_iff list_all_iff)
qed

lemma winner_is_best_witness:
  "au_settling (evaluate_bids ''1'' crowded_market) = [(''1'', ''a'')]"
proof -
  have f: "status_at crowded_market ''1'' = Some Goal_pending" "jm_get (au_bids crowded_market) ''1'' = Some [one_bid ''1'']"
    "list_ex (\<lambda>b. task_count crowded_market (bd_agent b) < au_max_tasks crowded_market) [one_bid ''1'']"
    "au_settling crowded_market = []" "bd_agent (one_bid ''1'') = ''a''"
    by (code_simp+)
  show ?thesis using winner_is_best [OF f(1-3)] by (simp add: f(4,5))
qed

end
