(* ===== verification/Consensus.thy ===== *)
theory Consensus
  imports Prelude Complex_Main
begin

text \<open>
  Agent voting on proposed changes, \<open>packages/core/src/coordination/consensus-protocol.ts\<close>, over the
  change nodes of \<open>knowledge-graph.ts\<close> (of which only \<open>get\<close> and \<open>update\<close> are used).

  Weights and fractions are exact rationals, where the program has doubles. Rationale texts, time
  stamps and the fleet notifications are left out.
\<close>

section \<open>Data\<close>

datatype vote_value = Approve | Reject | Abstain

record vote =
  v_agent :: string
  v_name :: string
  v_value :: vote_value

record voter =
  vc_agent :: string
  vc_name :: string
  vc_role :: string
  vc_weight :: rat
  vc_veto :: bool

record quorum_rule =
  q_quorum :: rat
  q_approval :: rat
  q_veto_roles :: "string list"
  q_weight :: "rat option"

datatype outcome = Approved | Rejected | PendingVote | Vetoed | QuorumNotMet

record consensus_result =
  r_outcome :: outcome
  r_votes :: "vote list"
  r_approve :: nat
  r_reject :: nat
  r_abstain :: nat
  r_weight_approve :: rat
  r_weight_reject :: rat
  r_eligible :: "string list"
  r_quorum_met :: bool
  r_approval_met :: bool
  r_vetoed_by :: "string option"

datatype change_status = Proposed | ChApproved | ChRejected | Applied | RolledBack

record change =
  ch_status :: change_status
  ch_proposer :: string
  ch_votes :: "vote list"

datatype gnode = Change change | OtherNode

type_synonym graph = "(string, gnode) jsmap"

record protocol =
  p_rules :: quorum_rule
  p_voters :: "(string, voter) jsmap"
  p_graph :: graph

datatype consensus_error = NoChange string | UnknownVoter string | NotEligible string | VotesUndefined

section \<open>Construction and queries\<close>

record rule_options =
  o_quorum :: "rat option"
  o_approval :: "rat option"
  o_veto_roles :: "string list option"
  o_weight :: "rat option"

definition new_protocol :: "rule_options \<Rightarrow> voter list \<Rightarrow> graph \<Rightarrow> protocol" where
  "new_protocol o1 vs g =
     \<lparr>p_rules = \<lparr>q_quorum = (case o_quorum o1 of None \<Rightarrow> 1 / 2 | Some q \<Rightarrow> q),
        q_approval = (case o_approval o1 of None \<Rightarrow> 3 / 5 | Some q \<Rightarrow> q),
        q_veto_roles = (case o_veto_roles o1 of None \<Rightarrow> [] | Some r \<Rightarrow> r), q_weight = o_weight o1\<rparr>,
      p_voters = fold (\<lambda>v. jm_set (vc_agent v) v) vs [], p_graph = g\<rparr>"

definition register_voter :: "voter \<Rightarrow> protocol \<Rightarrow> protocol" where
  "register_voter v p = p\<lparr>p_voters := jm_set (vc_agent v) v (p_voters p)\<rparr>"

definition eligible_voters :: "protocol \<Rightarrow> change \<Rightarrow> string list" where
  "eligible_voters p c = filter (\<lambda>a. a \<noteq> ch_proposer c) (jm_keys (p_voters p))"

definition weight_of :: "protocol \<Rightarrow> vote \<Rightarrow> rat" where
  "weight_of p v = (case jm_get (p_voters p) (v_agent v) of None \<Rightarrow> 1 | Some c \<Rightarrow> vc_weight c)"

definition of_value :: "vote_value \<Rightarrow> vote list \<Rightarrow> vote list" where
  "of_value x vs = filter (\<lambda>v. v_value v = x) vs"

definition is_veto :: "protocol \<Rightarrow> vote \<Rightarrow> bool" where
  "is_veto p v =
     (case jm_get (p_voters p) (v_agent v) of
        None \<Rightarrow> False
      | Some c \<Rightarrow> vc_veto c \<and> vc_role c \<in> set (q_veto_roles (p_rules p)))"

text \<open>The result every branch of \<open>_resolve\<close> fills in, with the fields that differ as arguments.\<close>

definition mk_result ::
  "protocol \<Rightarrow> vote list \<Rightarrow> string list \<Rightarrow> outcome \<Rightarrow> bool \<Rightarrow> bool \<Rightarrow> string option \<Rightarrow> consensus_result"
  where
  "mk_result p vs eligible oc quorum approval vetoed =
     \<lparr>r_outcome = oc, r_votes = vs, r_approve = length (of_value Approve vs),
      r_reject = length (of_value Reject vs), r_abstain = length (of_value Abstain vs),
      r_weight_approve = sum_list (map (weight_of p) (of_value Approve vs)),
      r_weight_reject = sum_list (map (weight_of p) (of_value Reject vs)),
      r_eligible = eligible, r_quorum_met = quorum, r_approval_met = approval,
      r_vetoed_by = vetoed\<rparr>"

definition quorum_required :: "protocol \<Rightarrow> string list \<Rightarrow> int" where
  "quorum_required p eligible = \<lceil>of_nat (length eligible) * q_quorum (p_rules p)\<rceil>"

definition approval_required :: "protocol \<Rightarrow> vote list \<Rightarrow> int" where
  "approval_required p vs = \<lceil>of_nat (length vs) * q_approval (p_rules p)\<rceil>"

definition total_weight :: "protocol \<Rightarrow> rat" where
  "total_weight p = sum_list (map vc_weight (jm_values (p_voters p)))"

definition resolve_votes :: "protocol \<Rightarrow> vote list \<Rightarrow> string list \<Rightarrow> consensus_result" where
  "resolve_votes p vs eligible =
     (let approves = of_value Approve vs;
          rejects = of_value Reject vs;
          quorum_met = (quorum_required p eligible \<le> int (length vs))
      in case List.find (is_veto p) rejects of
           Some v \<Rightarrow>
             mk_result p vs eligible Vetoed quorum_met False
               (map_option vc_agent (jm_get (p_voters p) (v_agent v)))
         | None \<Rightarrow>
             if \<not> quorum_met then mk_result p vs eligible QuorumNotMet False False None
             else
               let approval_met = (approval_required p vs \<le> int (length approves));
                   light = (case q_weight (p_rules p) of
                       None \<Rightarrow> False
                     | Some w \<Rightarrow> approval_met \<and>
                         sum_list (map (weight_of p) approves) < total_weight p * w)
               in if light then mk_result p vs eligible Rejected True False None
                  else if approval_met then mk_result p vs eligible Approved True True None
                  else mk_result p vs eligible Rejected True False None)"

fun to_change_status :: "outcome \<Rightarrow> change_status" where
  "to_change_status Approved = ChApproved"
| "to_change_status Rejected = ChRejected"
| "to_change_status Vetoed = ChRejected"
| "to_change_status QuorumNotMet = Proposed"
| "to_change_status PendingVote = Proposed"

definition get_status :: "string \<Rightarrow> protocol \<Rightarrow> consensus_result option" where
  "get_status i p =
     (case jm_get (p_graph p) i of
        Some (Change c) \<Rightarrow> Some (resolve_votes p (ch_votes c) (eligible_voters p c))
      | _ \<Rightarrow> None)"

section \<open>The life cycle of a vote\<close>

definition update_change :: "string \<Rightarrow> (change \<Rightarrow> change) \<Rightarrow> protocol \<Rightarrow> protocol" where
  "update_change i f p = p\<lparr>p_graph :=
     jm_update i (\<lambda>g. case g of Change c \<Rightarrow> Change (f c) | OtherNode \<Rightarrow> OtherNode) (p_graph p)\<rparr>"

definition initiate_vote :: "string \<Rightarrow> protocol \<Rightarrow> consensus_error + protocol" where
  "initiate_vote i p =
     (case jm_get (p_graph p) i of
        Some (Change c) \<Rightarrow> Inr (update_change i (\<lambda>c. c\<lparr>ch_status := Proposed, ch_votes := []\<rparr>) p)
      | _ \<Rightarrow> Inl (NoChange i))"

fun find_vote :: "string \<Rightarrow> vote list \<Rightarrow> nat option" where
  "find_vote a [] = None"
| "find_vote a (v # vs) = (if v_agent v = a then Some 0 else map_option Suc (find_vote a vs))"

definition put_vote :: "vote \<Rightarrow> vote list \<Rightarrow> vote list" where
  "put_vote v vs = (case find_vote (v_agent v) vs of Some k \<Rightarrow> vs[k := v] | None \<Rightarrow> vs @ [v])"

definition cast_vote ::
  "string \<Rightarrow> string \<Rightarrow> vote_value \<Rightarrow> protocol \<Rightarrow> consensus_error + consensus_result \<times> protocol" where
  "cast_vote i a x p =
     (case jm_get (p_graph p) i of
        Some (Change c) \<Rightarrow>
          (case jm_get (p_voters p) a of
             None \<Rightarrow> Inl (UnknownVoter a)
           | Some cfg \<Rightarrow>
               let eligible = eligible_voters p c
               in if a \<notin> set eligible then Inl (NotEligible a)
                  else
                    let vs = put_vote \<lparr>v_agent = a, v_name = vc_name cfg, v_value = x\<rparr> (ch_votes c);
                        r = resolve_votes p vs eligible
                    in Inr (r, update_change i (\<lambda>c. (if r_outcome r \<noteq> PendingVote
                             then c\<lparr>ch_votes := vs, ch_status := to_change_status (r_outcome r)\<rparr>
                             else c\<lparr>ch_votes := vs\<rparr>)) p))
      | _ \<Rightarrow> Inl (NoChange i))"

definition resolve_now :: "string \<Rightarrow> protocol \<Rightarrow> consensus_error + consensus_result \<times> protocol" where
  "resolve_now i p =
     (case jm_get (p_graph p) i of
        None \<Rightarrow> Inl (NoChange i)
      | Some OtherNode \<Rightarrow> Inl VotesUndefined
      | Some (Change c) \<Rightarrow>
          let r = resolve_votes p (ch_votes c) (eligible_voters p c)
          in Inr (r, if r_outcome r \<noteq> PendingVote
                     then update_change i (\<lambda>c. c\<lparr>ch_status := to_change_status (r_outcome r)\<rparr>) p
                     else p))"

section \<open>Lemmas\<close>

lemma mk_result_fields [simp]:
  "r_outcome (mk_result p vs el oc q a ve) = oc" "r_votes (mk_result p vs el oc q a ve) = vs"
  "r_eligible (mk_result p vs el oc q a ve) = el" "r_vetoed_by (mk_result p vs el oc q a ve) = ve"
  "r_quorum_met (mk_result p vs el oc q a ve) = q" "r_approval_met (mk_result p vs el oc q a ve) = a"
  by (simp_all add: mk_result_def)

definition vetoing :: "protocol \<Rightarrow> vote list \<Rightarrow> bool" where
  "vetoing p vs = (\<exists>v \<in> set vs. v_value v = Reject \<and> is_veto p v)"

definition passes :: "protocol \<Rightarrow> vote list \<Rightarrow> bool" where
  "passes p vs = (approval_required p vs \<le> int (length (of_value Approve vs)) \<and>
     (case q_weight (p_rules p) of None \<Rightarrow> True
      | Some w \<Rightarrow> total_weight p * w \<le> sum_list (map (weight_of p) (of_value Approve vs))))"

lemma find_veto_None: "List.find (is_veto p) (of_value Reject vs) = None \<longleftrightarrow> \<not> vetoing p vs"
  by (auto simp: find_None_iff vetoing_def of_value_def)

lemma find_veto_Some: "(\<exists>v. List.find (is_veto p) (of_value Reject vs) = Some v) \<longleftrightarrow> vetoing p vs"
  using find_veto_None [of p vs] by auto

lemma outcome_cases:
  "r_outcome (resolve_votes p vs el) =
     (if vetoing p vs then Vetoed
      else if int (length vs) < quorum_required p el then QuorumNotMet
      else if passes p vs then Approved else Rejected)"
  using find_veto_None [of p vs]
  by (auto simp: resolve_votes_def Let_def passes_def not_le split: option.splits)

lemma find_vote_None: "find_vote a vs = None \<longleftrightarrow> a \<notin> v_agent ` set vs"
  by (induction vs) auto

lemma find_vote_Some:
  "find_vote a vs = Some k \<Longrightarrow> k < length vs \<and> v_agent (vs ! k) = a"
  by (induction vs arbitrary: k) (auto split: if_splits)

lemma put_vote_agents:
  "map v_agent (put_vote v vs) =
     (if v_agent v \<in> v_agent ` set vs then map v_agent vs else map v_agent vs @ [v_agent v])"
proof (cases "find_vote (v_agent v) vs")
  case None
  then show ?thesis using find_vote_None [of "v_agent v" vs] by (simp add: put_vote_def)
next
  case (Some k)
  then have k: "k < length vs" "v_agent (vs ! k) = v_agent v" by (auto dest: find_vote_Some)
  have "map v_agent (vs[k := v]) = (map v_agent vs)[k := v_agent v]" by (simp add: map_update)
  also have "\<dots> = map v_agent vs" using k by (metis length_map list_update_id nth_map)
  finally show ?thesis using Some find_vote_None [of "v_agent v" vs] by (simp add: put_vote_def)
qed

lemma put_vote_new: "v_agent v \<notin> v_agent ` set vs \<Longrightarrow> put_vote v vs = vs @ [v]"
  using find_vote_None [of "v_agent v" vs] by (simp add: put_vote_def)

lemma jm_get_update_change:
  "jm_get (p_graph (update_change i f p)) k =
     (if k = i then (case jm_get (p_graph p) i of Some (Change c) \<Rightarrow> Some (Change (f c)) | g \<Rightarrow> g)
      else jm_get (p_graph p) k)"
  by (auto simp: update_change_def split: option.splits gnode.splits)

lemma update_change_fields [simp]:
  "p_voters (update_change i f p) = p_voters p" "p_rules (update_change i f p) = p_rules p"
  by (simp_all add: update_change_def)

section \<open>Invariant: one vote per eligible voter\<close>

definition votes_ok :: "protocol \<Rightarrow> change \<Rightarrow> bool" where
  "votes_ok p c = (distinct (map v_agent (ch_votes c)) \<and>
     v_agent ` set (ch_votes c) \<subseteq> set (eligible_voters p c))"

definition protocol_inv :: "protocol \<Rightarrow> bool" where
  "protocol_inv p = (jm_wf (p_voters p) \<and>
     (\<forall>i c. jm_get (p_graph p) i = Some (Change c) \<longrightarrow> votes_ok p c))"

lemma votes_ok_put:
  assumes "votes_ok p c" "a \<in> set (eligible_voters p c)" "v_agent v = a"
  shows "votes_ok p (c\<lparr>ch_votes := put_vote v (ch_votes c)\<rparr>)"
proof -
  have "map v_agent (put_vote v (ch_votes c)) =
      (if a \<in> v_agent ` set (ch_votes c) then map v_agent (ch_votes c)
       else map v_agent (ch_votes c) @ [a])"
    using assms(3) by (simp add: put_vote_agents)
  moreover from this have "v_agent ` set (put_vote v (ch_votes c)) = insert a (v_agent ` set (ch_votes c))"
    by (metis (no_types, lifting) insert_absorb list.set_map list.simps(15) rotate1.simps(2) set_rotate1)
  ultimately show ?thesis using assms(1,2)
    by (auto simp: votes_ok_def eligible_voters_def)
qed

lemma votes_ok_status [simp]: "votes_ok p (c\<lparr>ch_status := s\<rparr>) = votes_ok p c"
  by (simp add: votes_ok_def eligible_voters_def)

lemma votes_ok_update_change [simp]: "votes_ok (update_change i f p) c = votes_ok p c"
  by (simp add: votes_ok_def eligible_voters_def)

lemma protocol_inv_update:
  assumes "protocol_inv p" "\<And>c. votes_ok p c \<Longrightarrow> jm_get (p_graph p) i = Some (Change c) \<Longrightarrow> votes_ok p (f c)"
  shows "protocol_inv (update_change i f p)"
  using assms by (auto simp: protocol_inv_def jm_get_update_change split: option.splits gnode.splits if_splits)

datatype vote_op = Initiate string | Cast string string vote_value | ResolveNow string
  | RegisterVoter voter

fun vote_step :: "vote_op \<Rightarrow> protocol \<Rightarrow> protocol" where
  "vote_step (Initiate i) p = (case initiate_vote i p of Inl e \<Rightarrow> p | Inr p' \<Rightarrow> p')"
| "vote_step (Cast i a x) p = (case cast_vote i a x p of Inl e \<Rightarrow> p | Inr (r, p') \<Rightarrow> p')"
| "vote_step (ResolveNow i) p = (case resolve_now i p of Inl e \<Rightarrow> p | Inr (r, p') \<Rightarrow> p')"
| "vote_step (RegisterVoter v) p = register_voter v p"

lemma protocol_inv_cast:
  assumes inv: "protocol_inv p" and cast: "cast_vote i a x p = Inr (r, p')"
  shows "protocol_inv p'"
proof -
  from cast obtain c cfg where c: "jm_get (p_graph p) i = Some (Change c)"
    and cfg: "jm_get (p_voters p) a = Some cfg" and el: "a \<in> set (eligible_voters p c)"
    by (auto simp: cast_vote_def Let_def split: option.splits gnode.splits if_splits)
  let ?vs = "put_vote \<lparr>v_agent = a, v_name = vc_name cfg, v_value = x\<rparr> (ch_votes c)"
  have "\<exists>F s. p' = update_change i F p \<and> F c = c\<lparr>ch_votes := ?vs, ch_status := s\<rparr>"
    using cast c cfg el
    by (intro exI [of _ "\<lambda>c0. if r_outcome r \<noteq> PendingVote
          then c0\<lparr>ch_votes := ?vs, ch_status := to_change_status (r_outcome r)\<rparr>
          else c0\<lparr>ch_votes := ?vs\<rparr>"]
        exI [of _ "if r_outcome r \<noteq> PendingVote then to_change_status (r_outcome r) else ch_status c"])
      (auto simp: cast_vote_def Let_def)
  then obtain F s where p': "p' = update_change i F p"
    and F: "F c = c\<lparr>ch_votes := ?vs, ch_status := s\<rparr>"
    by blast
  have "votes_ok p (c\<lparr>ch_votes := ?vs\<rparr>)"
    using inv c el by (intro votes_ok_put [where a = a]) (auto simp: protocol_inv_def)
  then have "votes_ok p (F c)" unfolding F by (simp add: votes_ok_def eligible_voters_def)
  with inv c show ?thesis unfolding p' by (auto intro!: protocol_inv_update)
qed

lemma protocol_inv_step: "protocol_inv p \<Longrightarrow> protocol_inv (vote_step e p)"
proof (cases e)
  case (Initiate i)
  assume "protocol_inv p"
  then show ?thesis
    by (auto simp: Initiate initiate_vote_def votes_ok_def intro!: protocol_inv_update
        split: option.splits gnode.splits)
next
  case (Cast i a x)
  assume "protocol_inv p"
  then show ?thesis by (auto simp: Cast intro: protocol_inv_cast split: sum.splits)
next
  case (ResolveNow i)
  assume "protocol_inv p"
  then show ?thesis
    by (auto simp: ResolveNow resolve_now_def Let_def intro!: protocol_inv_update
        split: option.splits gnode.splits)
next
  case (RegisterVoter v)
  assume "protocol_inv p"
  then show ?thesis
    by (fastforce simp: RegisterVoter register_voter_def protocol_inv_def votes_ok_def eligible_voters_def)
qed

interpretation vote_contract: state_contract vote_step protocol_inv
  by unfold_locales (rule protocol_inv_step)

section \<open>Properties\<close>

text \<open>The outcome of a vote, completely: a reject by a flagged voter of a veto role vetoes
  whatever the counts; otherwise too few votes leave the quorum unmet; otherwise the change is
  approved exactly when the approvals reach both the count and the weight threshold, and rejected
  if not (it is never pending). \<open>resolveNow\<close> writes that outcome to the change; with no eligible
  voter and no weight rule it approves a change nobody voted on.\<close>

theorem consensus_outcome:
  assumes "jm_get (p_graph p) i = Some (Change c)"
  shows "case resolve_now i p of
      Inl e \<Rightarrow> False
    | Inr (r, p') \<Rightarrow>
        r_outcome r =
          (if vetoing p (ch_votes c) then Vetoed
           else if int (length (ch_votes c)) < quorum_required p (eligible_voters p c) then QuorumNotMet
           else if passes p (ch_votes c) then Approved else Rejected) \<and>
        jm_get (p_graph p') i = Some (Change (c\<lparr>ch_status := to_change_status (r_outcome r)\<rparr>)) \<and>
        get_status i p = Some r \<and>
        (eligible_voters p c = [] \<and> ch_votes c = [] \<and> q_weight (p_rules p) = None \<longrightarrow>
           r_outcome r = Approved)"
proof -
  have "passes p []" if "q_weight (p_rules p) = None"
    using that by (simp add: passes_def approval_required_def)
  moreover have "r_outcome (resolve_votes p vs el) \<noteq> PendingVote" for vs el
    by (simp add: outcome_cases)
  ultimately show ?thesis
    using assms
    by (auto simp: resolve_now_def Let_def jm_get_update_change outcome_cases get_status_def
        vetoing_def quorum_required_def)
qed

definition demo_voter :: "string \<Rightarrow> string \<Rightarrow> bool \<Rightarrow> voter" where
  "demo_voter a role veto =
     \<lparr>vc_agent = a, vc_name = a, vc_role = role, vc_weight = 1, vc_veto = veto\<rparr>"

definition demo_protocol :: "voter list \<Rightarrow> vote list \<Rightarrow> protocol" where
  "demo_protocol ws vs = new_protocol
     \<lparr>o_quorum = None, o_approval = None, o_veto_roles = Some [''security''], o_weight = None\<rparr>
     ws [(''c1'', Change \<lparr>ch_status = Proposed, ch_proposer = ''dev'', ch_votes = vs\<rparr>)]"

theorem consensus_outcome_witness:
  "case resolve_now ''c1'' (demo_protocol [demo_voter ''dev'' ''dev'' False] []) of
     Inl e \<Rightarrow> False
   | Inr (r, p') \<Rightarrow> r_outcome r = Approved"
proof -
  let ?c = "\<lparr>ch_status = Proposed, ch_proposer = ''dev'', ch_votes = []\<rparr>"
  let ?p = "demo_protocol [demo_voter ''dev'' ''dev'' False] []"
  have c: "jm_get (p_graph ?p) ''c1'' = Some (Change ?c)"
    by (simp add: demo_protocol_def new_protocol_def jm_get_Cons)
  have "eligible_voters ?p ?c = []" "q_weight (p_rules ?p) = None"
    by (simp_all add: demo_protocol_def new_protocol_def eligible_voters_def demo_voter_def jm_keys_def)
  with consensus_outcome [OF c] show ?thesis by (auto split: sum.splits)
qed

text \<open>One agent, one vote: through any sequence of initiations, casts (first or repeated,
  refused or accepted), early resolutions and registrations, a change's votes come from
  different agents, all registered and none of them its proposer, so they never outnumber the
  eligible voters the quorum is computed from.\<close>

theorem one_vote_per_voter:
  assumes "protocol_inv p" and "jm_get (p_graph (fold vote_step ops p)) i = Some (Change c)"
  shows "distinct (map v_agent (ch_votes c)) \<and>
    v_agent ` set (ch_votes c) \<subseteq> set (eligible_voters (fold vote_step ops p) c) \<and>
    ch_proposer c \<notin> v_agent ` set (ch_votes c) \<and>
    length (ch_votes c) \<le> length (eligible_voters (fold vote_step ops p) c)"
proof -
  have "protocol_inv (fold vote_step ops p)" by (rule vote_contract.run_good [OF assms(1)])
  with assms(2) have ok: "votes_ok (fold vote_step ops p) c" by (auto simp: protocol_inv_def)
  then have "length (map v_agent (ch_votes c)) \<le> length (eligible_voters (fold vote_step ops p) c)"
    by (metis card_length card_mono distinct_card finite_set list.set_map order_trans votes_ok_def)
  with ok show ?thesis by (auto simp: votes_ok_def eligible_voters_def)
qed

definition demo_votes :: "vote_op list" where
  "demo_votes = [Initiate ''c1'', Cast ''c1'' ''qa'' Reject, Cast ''c1'' ''qa'' Approve,
     Cast ''c1'' ''dev'' Approve]"

theorem one_vote_per_voter_witness:
  "\<exists>c. jm_get (p_graph (fold vote_step demo_votes
      (demo_protocol [demo_voter ''dev'' ''dev'' False, demo_voter ''qa'' ''qa'' False] []))) ''c1'' =
      Some (Change c) \<and> distinct (map v_agent (ch_votes c)) \<and>
    ch_proposer c \<notin> v_agent ` set (ch_votes c)"
proof -
  let ?p = "demo_protocol [demo_voter ''dev'' ''dev'' False, demo_voter ''qa'' ''qa'' False] []"
  have inv: "protocol_inv ?p"
    by (auto simp: demo_protocol_def demo_voter_def new_protocol_def protocol_inv_def votes_ok_def
        jm_get_Cons jm_wf_def jm_keys_def split: if_splits)
  have "(case jm_get (p_graph (fold vote_step demo_votes ?p)) ''c1'' of
      Some (Change c) \<Rightarrow> True | _ \<Rightarrow> False)"
    by code_simp
  then obtain c where "jm_get (p_graph (fold vote_step demo_votes ?p)) ''c1'' = Some (Change c)"
    by (auto split: option.splits gnode.splits)
  with one_vote_per_voter [OF inv this] show ?thesis by blast
qed

text \<open>Approving never hurts: a change the cast votes approve stays approved when a further agent
  with a non-negative weight approves, for an approval fraction of at most one.\<close>

theorem approval_monotone:
  assumes "r_outcome (resolve_votes p vs el) = Approved"
    and "v_agent w \<notin> v_agent ` set vs" and "v_value w = Approve" and "0 \<le> weight_of p w"
    and "q_approval (p_rules p) \<le> 1"
  shows "r_outcome (resolve_votes p (put_vote w vs) el) = Approved"
proof -
  have old: "\<not> vetoing p vs" "quorum_required p el \<le> int (length vs)" "passes p vs"
    using assms(1) by (auto simp: outcome_cases split: if_splits)
  have approves: "of_value Approve (vs @ [w]) = of_value Approve vs @ [w]"
    using assms(3) by (simp add: of_value_def)
  have "of_nat (length (vs @ [w])) * q_approval (p_rules p) \<le>
      of_nat (length vs) * q_approval (p_rules p) + 1"
    using assms(5) by (simp add: distrib_right)
  then have "approval_required p (vs @ [w]) \<le> approval_required p vs + 1"
    unfolding approval_required_def by (metis ceiling_add_one ceiling_mono)
  then have "passes p (vs @ [w])"
    using old(3) assms(4) approves by (auto simp: passes_def split: option.splits)
  moreover have "\<not> vetoing p (vs @ [w])" using old(1) assms(3) by (auto simp: vetoing_def)
  ultimately show ?thesis using old(2) by (simp add: outcome_cases put_vote_new [OF assms(2)])
qed

theorem approval_monotone_witness:
  "r_outcome (resolve_votes (demo_protocol [] []) (put_vote
      \<lparr>v_agent = ''b'', v_name = ''b'', v_value = Approve\<rparr>
      [\<lparr>v_agent = ''a'', v_name = ''a'', v_value = Approve\<rparr>]) [''a'', ''b'']) = Approved"
proof (rule approval_monotone)
  show "r_outcome (resolve_votes (demo_protocol [] []) [\<lparr>v_agent = ''a'', v_name = ''a'',
      v_value = Approve\<rparr>] [''a'', ''b'']) = Approved"
    by code_simp
qed (simp_all add: demo_protocol_def new_protocol_def weight_of_def)

end
