(* ===== verification/Json.thy ===== *)
theory Json
  imports Js_Number Js_String
begin

text \<open>
  The values the program reads from JSON files and from model-produced tool arguments, as the
  runtime holds them: \<open>null\<close>, booleans, numbers (exact rationals), strings, arrays and objects
  whose properties keep their order. Two more constructors stand for the run-time values that
  reach the same code: a function inherited from \<open>Object.prototype\<close> (\<open>JFun\<close>), which a property
  read or an \<open>in\<close> test finds on every object literal, and a \<open>Set\<close> of strings (\<open>JSet\<close>), which the
  configuration loader stores in the configuration. \<open>is_json\<close> holds of the values that
  \<open>JSON.parse\<close> can return. Integer-like property names are kept in insertion order, where the
  runtime lists them first; no result below depends on the order of two properties.
\<close>

datatype json =
    JNull
  | JBool bool
  | JNum rat
  | JStr string
  | JArr "json list"
  | JObj "(string \<times> json) list"
  | JFun string
  | JSet "string list"

type_synonym fields = "(string, json) jsmap"

section \<open>Tests the source makes\<close>

text \<open>\<open>typeof v === 'object' && v !== null && !Array.isArray(v)\<close>, with the own properties.\<close>

definition record_of :: "json \<Rightarrow> fields option" where
  "record_of v = (case v of JObj es \<Rightarrow> Some es | JSet _ \<Rightarrow> Some [] | _ \<Rightarrow> None)"

definition is_record :: "json \<Rightarrow> bool" where
  "is_record v = (record_of v \<noteq> None)"

definition is_array :: "json \<Rightarrow> bool" where
  "is_array v = (case v of JArr _ \<Rightarrow> True | _ \<Rightarrow> False)"

definition truthy :: "json \<Rightarrow> bool" where
  "truthy v =
     (case v of JNull \<Rightarrow> False | JBool b \<Rightarrow> b | JNum x \<Rightarrow> x \<noteq> 0 | JStr s \<Rightarrow> s \<noteq> '''' | _ \<Rightarrow> True)"

definition js_typeof :: "json \<Rightarrow> string" where
  "js_typeof v =
     (case v of JBool _ \<Rightarrow> ''boolean'' | JNum _ \<Rightarrow> ''number'' | JStr _ \<Rightarrow> ''string''
      | JFun _ \<Rightarrow> ''function'' | _ \<Rightarrow> ''object'')"

section \<open>Property access\<close>

text \<open>What every object literal inherits: functions, and the prototype itself.\<close>

definition prototype_functions :: "string list" where
  "prototype_functions =
     [''constructor'', ''__defineGetter__'', ''__defineSetter__'', ''hasOwnProperty'',
      ''__lookupGetter__'', ''__lookupSetter__'', ''isPrototypeOf'', ''propertyIsEnumerable'',
      ''toString'', ''valueOf'', ''toLocaleString'']"

definition inherited :: "string \<Rightarrow> json option" where
  "inherited k =
     (if k = ''__proto__'' then Some (JObj [])
      else if k \<in> set prototype_functions then Some (JFun k) else None)"

definition js_prop :: "fields \<Rightarrow> string \<Rightarrow> json option" where
  "js_prop es k = (case jm_get es k of Some v \<Rightarrow> Some v | None \<Rightarrow> inherited k)"

definition js_in :: "string \<Rightarrow> fields \<Rightarrow> bool" where
  "js_in k es = (js_prop es k \<noteq> None)"

text \<open>An own property of a value that may not be an object, and a path of own properties.\<close>

definition own :: "json \<Rightarrow> string \<Rightarrow> json option" where
  "own v k = (case v of JObj es \<Rightarrow> jm_get es k | _ \<Rightarrow> None)"

fun at_path :: "string list \<Rightarrow> json \<Rightarrow> json option" where
  "at_path [] v = Some v"
| "at_path (k # ks) v = (case own v k of None \<Rightarrow> None | Some w \<Rightarrow> at_path ks w)"

text \<open>\<open>Object.entries\<close>: the own enumerable properties; a string and an array have their indices.\<close>

definition indexed :: "'a list \<Rightarrow> (string \<times> 'a) list" where
  "indexed xs = zip (map show_nat [0..<length xs]) xs"

definition js_entries :: "json \<Rightarrow> fields" where
  "js_entries v =
     (case v of JObj es \<Rightarrow> es
      | JArr xs \<Rightarrow> indexed xs
      | JStr s \<Rightarrow> indexed (map (\<lambda>c. JStr [c]) s)
      | _ \<Rightarrow> [])"

fun is_json :: "json \<Rightarrow> bool" where
  "is_json (JArr xs) = list_all is_json xs"
| "is_json (JObj es) = (jm_wf es \<and> list_all (\<lambda>(k, v). is_json v) es)"
| "is_json (JFun _) = False"
| "is_json (JSet _) = False"
| "is_json _ = True"

section \<open>Facts\<close>

lemma record_of_simps [simp]:
  "record_of JNull = None" "record_of (JBool b) = None" "record_of (JNum x) = None"
  "record_of (JStr s) = None" "record_of (JArr xs) = None" "record_of (JObj es) = Some es"
  "record_of (JFun f) = None" "record_of (JSet ss) = Some []"
  by (simp_all add: record_of_def)

lemma is_record_simps [simp]:
  "\<not> is_record JNull" "\<not> is_record (JBool b)" "\<not> is_record (JNum x)"
  "\<not> is_record (JStr s)" "\<not> is_record (JArr xs)" "is_record (JObj es)"
  "\<not> is_record (JFun f)" "is_record (JSet ss)"
  by (simp_all add: is_record_def)

lemma is_array_simps [simp]:
  "\<not> is_array JNull" "\<not> is_array (JBool b)" "\<not> is_array (JNum x)"
  "\<not> is_array (JStr s)" "is_array (JArr xs)" "\<not> is_array (JObj es)"
  "\<not> is_array (JFun f)" "\<not> is_array (JSet ss)"
  by (simp_all add: is_array_def)

lemma own_simps [simp]:
  "own JNull k = None" "own (JBool b) k = None" "own (JNum x) k = None" "own (JStr s) k = None"
  "own (JArr xs) k = None" "own (JObj es) k = jm_get es k" "own (JFun f) k = None"
  "own (JSet ss) k = None"
  by (simp_all add: own_def)

lemma own_Some: "own v k = Some w \<Longrightarrow> \<exists>es. v = JObj es \<and> jm_get es k = Some w"
  by (cases v) auto

lemma js_entries_JObj [simp]: "js_entries (JObj es) = es"
  by (simp add: js_entries_def)

lemma js_prop_own: "jm_get es k = Some v \<Longrightarrow> js_prop es k = Some v"
  by (simp add: js_prop_def)

lemma js_prop_plain: "inherited k = None \<Longrightarrow> js_prop es k = jm_get es k"
  by (simp add: js_prop_def split: option.splits)

lemma js_prop_set: "js_prop (jm_set k v es) k' = (if k' = k then Some v else js_prop es k')"
  by (simp add: js_prop_def)

lemma is_json_field:
  assumes "is_json (JObj es)" "jm_get es k = Some v"
  shows "is_json v"
proof -
  have "(k, v) \<in> set es" using assms(2) by (rule jm_get_in_set)
  then show ?thesis using assms(1) by (auto simp: list_all_iff)
qed

lemma is_json_set:
  "is_json (JObj es) \<Longrightarrow> is_json v \<Longrightarrow> is_json (JObj (jm_set k v es))"
proof -
  have "list_all (\<lambda>(k, v). is_json v) (jm_set k v es)"
    if "list_all (\<lambda>(k, v). is_json v) es" "is_json v" for es
    using that by (induction es) auto
  then show "is_json (JObj es) \<Longrightarrow> is_json v \<Longrightarrow> ?thesis" by auto
qed

lemma is_json_del: "is_json (JObj es) \<Longrightarrow> is_json (JObj (jm_del k es))"
  by (auto simp: jm_del_def list_all_iff jm_wf_def jm_keys_def distinct_map_filter)

lemma size_field: "(k, v) \<in> set es \<Longrightarrow> size v < size (JObj es)"
  by (induction es) auto

lemma size_item: "v \<in> set xs \<Longrightarrow> size v < size (JArr xs)"
  by (induction xs) auto

end
