(* ===== verification/Messages.thy ===== *)
theory Messages
  imports Json "HOL-Library.Multiset"
begin

text \<open>
  Messages and the repair of tool-call adjacency,
  \<open>packages/core/src/utils/message-invariants.ts\<close>, over the blocks of \<open>types/blocks.ts\<close>.

  A tool-use block keeps its id, name and input, a result its id, content, tool name and error
  flag; image and thinking blocks are opaque. The loop of the code carries the output built so far: the results of a message are
  checked against the message that really precedes them in the output.
\<close>

section \<open>Data\<close>

datatype block =
    TextBlock string
  | ToolUse string string json
  | ToolResult string string "string option" "bool option"
  | ImageBlock string
  | ThinkingBlock string

datatype role = User | Assistant | System

datatype content = Text string | Blocks "block list"

record message =
  m_role :: role
  m_content :: content
  m_est :: "nat option"

record repair_report =
  rr_changed :: bool
  rr_uses :: "string list"
  rr_results :: "string list"
  rr_messages :: nat

section \<open>The repair\<close>

definition content_blocks :: "message option \<Rightarrow> block list" where
  "content_blocks m =
     (case m of None \<Rightarrow> [] | Some m \<Rightarrow> (case m_content m of Text s \<Rightarrow> [] | Blocks bs \<Rightarrow> bs))"

fun is_tool_use :: "block \<Rightarrow> bool" where
  "is_tool_use (ToolUse i n v) = True"
| "is_tool_use b = False"

fun is_tool_result :: "block \<Rightarrow> bool" where
  "is_tool_result (ToolResult i c n e) = True"
| "is_tool_result b = False"

definition has_tool_use :: "message option \<Rightarrow> bool" where
  "has_tool_use m = list_ex is_tool_use (content_blocks m)"

definition has_tool_result :: "message option \<Rightarrow> bool" where
  "has_tool_result m = list_ex is_tool_result (content_blocks m)"

fun use_ids :: "block list \<Rightarrow> string list" where
  "use_ids [] = []"
| "use_ids (ToolUse i n v # bs) = i # use_ids bs"
| "use_ids (b # bs) = use_ids bs"

fun result_ids :: "block list \<Rightarrow> string list" where
  "result_ids [] = []"
| "result_ids (ToolResult i c n e # bs) = i # result_ids bs"
| "result_ids (b # bs) = result_ids bs"

definition tool_use_ids :: "message option \<Rightarrow> string set" where
  "tool_use_ids m =
     (case m of None \<Rightarrow> {} | Some m' \<Rightarrow>
        if m_role m' \<noteq> Assistant then {} else set (use_ids (content_blocks m)))"

definition tool_result_ids :: "message option \<Rightarrow> string set" where
  "tool_result_ids m =
     (case m of None \<Rightarrow> {} | Some m' \<Rightarrow>
        if m_role m' \<noteq> User then {} else set (result_ids (content_blocks m)))"

definition map_content :: "message \<Rightarrow> (block list \<Rightarrow> block list) \<Rightarrow> message" where
  "map_content m f =
     (case m_content m of Text s \<Rightarrow> m | Blocks bs \<Rightarrow> m\<lparr>m_content := Blocks (f bs)\<rparr>)"

definition is_empty_message :: "message \<Rightarrow> bool" where
  "is_empty_message m =
     (case m_content m of Text s \<Rightarrow> js_trim s = '''' | Blocks bs \<Rightarrow> bs = [])"

definition orphan_use :: "string set \<Rightarrow> block \<Rightarrow> bool" where
  "orphan_use ids b = (case b of ToolUse i n v \<Rightarrow> i \<notin> ids | _ \<Rightarrow> False)"

definition orphan_result :: "string set \<Rightarrow> block \<Rightarrow> bool" where
  "orphan_result ids b = (case b of ToolResult i c n e \<Rightarrow> i \<notin> ids | _ \<Rightarrow> False)"

definition drop_uses :: "message option \<Rightarrow> message \<Rightarrow> repair_report \<Rightarrow> message \<times> repair_report" where
  "drop_uses nxt m r =
     (if has_tool_use (Some m) then
        let ids = tool_result_ids nxt;
            gone = filter (orphan_use ids) (content_blocks (Some m))
        in (map_content m (filter (\<lambda>b. \<not> orphan_use ids b)),
            r\<lparr>rr_uses := rr_uses r @ use_ids gone, rr_changed := rr_changed r \<or> gone \<noteq> []\<rparr>)
      else (m, r))"

definition drop_results ::
  "message option \<Rightarrow> message \<Rightarrow> repair_report \<Rightarrow> message \<times> repair_report" where
  "drop_results prev m r =
     (if has_tool_result (Some m) then
        let ids = tool_use_ids prev;
            gone = filter (orphan_result ids) (content_blocks (Some m))
        in (map_content m (filter (\<lambda>b. \<not> orphan_result ids b)),
            r\<lparr>rr_results := rr_results r @ result_ids gone, rr_changed := rr_changed r \<or> gone \<noteq> []\<rparr>)
      else (m, r))"

definition last_of :: "'a list \<Rightarrow> 'a option" where
  "last_of xs = (if xs = [] then None else Some (last xs))"

definition first_of :: "'a list \<Rightarrow> 'a option" where
  "first_of xs = (case xs of [] \<Rightarrow> None | x # _ \<Rightarrow> Some x)"

fun repair_loop ::
  "message list \<Rightarrow> message list \<Rightarrow> repair_report \<Rightarrow> message list \<times> repair_report" where
  "repair_loop [] out r = (out, r)"
| "repair_loop (m # ms) out r =
     (case drop_uses (first_of ms) m r of (m1, r1) \<Rightarrow>
      case drop_results (last_of out) m1 r1 of (m2, r2) \<Rightarrow>
        if is_empty_message m2
        then repair_loop ms out (r2\<lparr>rr_messages := rr_messages r2 + 1, rr_changed := True\<rparr>)
        else repair_loop ms (out @ [m2]) r2)"

definition no_repair :: repair_report where
  "no_repair = \<lparr>rr_changed = False, rr_uses = [], rr_results = [], rr_messages = 0\<rparr>"

definition repair_tool_use_adjacency :: "message list \<Rightarrow> message list \<times> repair_report" where
  "repair_tool_use_adjacency ms =
     (case repair_loop ms [] no_repair of (out, r) \<Rightarrow> ((if rr_changed r then out else ms), r))"

section \<open>What a provider requires\<close>

text \<open>Every tool use of an assistant message is answered in the next message, a user message, and
  every tool result answers a tool use of the assistant message just before it.\<close>

definition uses_answered :: "message \<Rightarrow> message option \<Rightarrow> bool" where
  "uses_answered m nxt =
     (m_role m = Assistant \<longrightarrow> set (use_ids (content_blocks (Some m))) \<subseteq> tool_result_ids nxt)"

definition results_asked :: "message option \<Rightarrow> message \<Rightarrow> bool" where
  "results_asked prev m = (set (result_ids (content_blocks (Some m))) \<subseteq> tool_use_ids prev)"

fun adjacent_from :: "message option \<Rightarrow> message list \<Rightarrow> bool" where
  "adjacent_from prev [] = True"
| "adjacent_from prev (m # ms) =
     (results_asked prev m \<and> uses_answered m (first_of ms) \<and> adjacent_from (Some m) ms)"

definition adjacent :: "message list \<Rightarrow> bool" where
  "adjacent ms = adjacent_from None ms"

fun is_protocol :: "block \<Rightarrow> bool" where
  "is_protocol b = (is_tool_use b \<or> is_tool_result b)"

text \<open>The conversation without protocol blocks: texts that are not blank, and the other blocks.\<close>

definition visible_of :: "message \<Rightarrow> string list \<times> block list" where
  "visible_of m =
     (case m_content m of
        Text s \<Rightarrow> (if js_trim s = '''' then [] else [s], [])
      | Blocks bs \<Rightarrow> ([], filter (\<lambda>b. \<not> is_protocol b) bs))"

definition transcript :: "message list \<Rightarrow> string list \<times> block list" where
  "transcript ms = (concat (map (fst \<circ> visible_of) ms), concat (map (snd \<circ> visible_of) ms))"

section \<open>Lemmas\<close>

lemma first_of_simps [simp]: "first_of [] = None" "first_of (x # xs) = Some x"
  by (simp_all add: first_of_def)

lemma last_of_simps [simp]: "last_of [] = None" "last_of (xs @ [x]) = Some x"
  by (simp_all add: last_of_def)

lemma content_blocks_simps [simp]:
  "content_blocks None = []"
  "content_blocks (Some m) = (case m_content m of Text s \<Rightarrow> [] | Blocks bs \<Rightarrow> bs)"
  by (simp_all add: content_blocks_def)

lemma use_ids_filter_results [simp]: "use_ids (filter (\<lambda>b. \<not> orphan_result ids b) bs) = use_ids bs"
  by (induction bs rule: use_ids.induct) (auto simp: orphan_result_def)

lemma result_ids_filter_uses [simp]: "result_ids (filter (\<lambda>b. \<not> orphan_use ids b) bs) = result_ids bs"
  by (induction bs rule: result_ids.induct) (auto simp: orphan_use_def)

lemma use_ids_kept: "use_ids (filter (\<lambda>b. \<not> orphan_use ids b) bs) = filter (\<lambda>i. i \<in> ids) (use_ids bs)"
  by (induction bs rule: use_ids.induct) (auto simp: orphan_use_def)

lemma result_ids_kept:
  "result_ids (filter (\<lambda>b. \<not> orphan_result ids b) bs) = filter (\<lambda>i. i \<in> ids) (result_ids bs)"
  by (induction bs rule: result_ids.induct) (auto simp: orphan_result_def)

lemma no_uses: "\<not> list_ex is_tool_use bs \<Longrightarrow> use_ids bs = []"
  by (induction bs rule: use_ids.induct) auto

lemma no_results: "\<not> list_ex is_tool_result bs \<Longrightarrow> result_ids bs = []"
  by (induction bs rule: result_ids.induct) auto

lemma no_orphan_uses: "\<not> list_ex is_tool_use bs \<Longrightarrow> filter (\<lambda>b. \<not> orphan_use ids b) bs = bs"
  by (induction bs) (auto simp: orphan_use_def split: block.splits)

lemma no_orphan_results: "\<not> list_ex is_tool_result bs \<Longrightarrow> filter (\<lambda>b. \<not> orphan_result ids b) bs = bs"
  by (induction bs) (auto simp: orphan_result_def split: block.splits)

text \<open>The two filters as one equation each, whether or not there is a block of the kind.\<close>

lemma drop_uses_message:
  "fst (drop_uses nxt m r) = map_content m (filter (\<lambda>b. \<not> orphan_use (tool_result_ids nxt) b))"
  by (auto simp: drop_uses_def Let_def has_tool_use_def map_content_def no_orphan_uses
      split: content.splits)

lemma drop_results_message:
  "fst (drop_results prev m r) = map_content m (filter (\<lambda>b. \<not> orphan_result (tool_use_ids prev) b))"
  by (auto simp: drop_results_def Let_def has_tool_result_def map_content_def no_orphan_results
      split: content.splits)

text \<open>The message the loop pushes or drops.\<close>

definition cleaned :: "message option \<Rightarrow> message option \<Rightarrow> message \<Rightarrow> message" where
  "cleaned prev nxt m =
     map_content (map_content m (filter (\<lambda>b. \<not> orphan_use (tool_result_ids nxt) b)))
       (filter (\<lambda>b. \<not> orphan_result (tool_use_ids prev) b))"

fun repaired :: "message option \<Rightarrow> message list \<Rightarrow> message list" where
  "repaired prev [] = []"
| "repaired prev (m # ms) =
     (let c = cleaned prev (first_of ms) m
      in if is_empty_message c then repaired prev ms else c # repaired (Some c) ms)"

lemma repair_loop_repaired:
  "fst (repair_loop ms out r) = out @ repaired (last_of out) ms"
proof (induction ms arbitrary: out r)
  case (Cons m ms)
  obtain m1 r1 where 1: "drop_uses (first_of ms) m r = (m1, r1)" by fastforce
  obtain m2 r2 where 2: "drop_results (last_of out) m1 r1 = (m2, r2)" by fastforce
  have "m2 = cleaned (last_of out) (first_of ms) m"
    using drop_uses_message [of "first_of ms" m r] drop_results_message [of "last_of out" m1 r1] 1 2
    by (simp add: cleaned_def)
  with 1 2 Cons.IH show ?case by (simp add: Let_def)
qed simp

lemma cleaned_role [simp]: "m_role (cleaned prev nxt m) = m_role m"
  by (simp add: cleaned_def map_content_def split: content.splits)

lemma cleaned_uses:
  "use_ids (content_blocks (Some (cleaned prev nxt m))) =
     filter (\<lambda>i. i \<in> tool_result_ids nxt) (use_ids (content_blocks (Some m)))"
  by (simp add: cleaned_def map_content_def use_ids_kept del: filter_filter split: content.splits)

lemma cleaned_results:
  "result_ids (content_blocks (Some (cleaned prev nxt m))) =
     filter (\<lambda>i. i \<in> tool_use_ids prev) (result_ids (content_blocks (Some m)))"
  by (simp add: cleaned_def map_content_def result_ids_kept del: filter_filter split: content.splits)

lemma empty_no_ids: "is_empty_message m \<Longrightarrow> use_ids (content_blocks (Some m)) = [] \<and>
    result_ids (content_blocks (Some m)) = []"
  by (auto simp: is_empty_message_def split: content.splits)

text \<open>The message after a kept assistant message is its raw successor, and keeps the results it needs.\<close>

lemma repaired_answers:
  assumes "m_role c = Assistant" "set (use_ids (content_blocks (Some c))) \<subseteq> tool_result_ids (first_of ms)"
  shows "uses_answered c (first_of (repaired (Some c) ms))"
proof (cases ms)
  case Nil
  with assms show ?thesis by (simp add: uses_answered_def)
next
  case (Cons n ns)
  let ?c = "cleaned (Some c) (first_of ns) n"
  show ?thesis
  proof (cases "use_ids (content_blocks (Some c)) = []")
    case True
    then show ?thesis unfolding uses_answered_def by simp
  next
    case False
    then obtain i where i: "i \<in> set (use_ids (content_blocks (Some c)))" by (metis list.set_sel(1))
    have n: "m_role n = User"
      using assms(2) i Cons by (auto simp: tool_result_ids_def split: if_splits)
    have answered: "set (use_ids (content_blocks (Some c))) \<subseteq>
        set (result_ids (content_blocks (Some ?c)))"
      using assms Cons n unfolding cleaned_results
      by (auto simp: tool_result_ids_def tool_use_ids_def)
    then have "\<not> is_empty_message ?c" using empty_no_ids [of ?c] i by auto
    with Cons n answered show ?thesis
      by (simp add: uses_answered_def Let_def tool_result_ids_def)
  qed
qed

lemma repaired_adjacent: "adjacent_from prev (repaired prev ms)"
proof (induction ms arbitrary: prev)
  case (Cons m ms)
  let ?c = "cleaned prev (first_of ms) m"
  have "results_asked prev ?c" unfolding results_asked_def cleaned_results by auto
  moreover have "uses_answered ?c (first_of (repaired (Some ?c) ms))"
  proof (cases "m_role ?c = Assistant")
    case True
    then show ?thesis
      by (rule repaired_answers) (unfold cleaned_uses, auto)
  next
    case False
    then show ?thesis by (simp add: uses_answered_def)
  qed
  ultimately show ?case using Cons.IH by (simp add: Let_def)
qed simp

lemma visible_cleaned [simp]: "visible_of (cleaned prev nxt m) = visible_of m"
proof -
  have "filter (\<lambda>b. \<not> is_protocol b) (filter (\<lambda>b. \<not> orphan_result x b) (filter (\<lambda>b. \<not> orphan_use y b) bs)) =
      filter (\<lambda>b. \<not> is_protocol b) bs" for x y bs
    by (induction bs) (auto simp: orphan_use_def orphan_result_def split: block.splits)
  then show ?thesis
    by (simp add: visible_of_def cleaned_def map_content_def split: content.splits)
qed

lemma empty_visible: "is_empty_message m \<Longrightarrow> visible_of m = ([], [])"
  by (auto simp: is_empty_message_def visible_of_def split: content.splits)

lemma transcript_repaired: "transcript (repaired prev ms) = transcript ms"
proof (induction ms arbitrary: prev)
  case (Cons m ms)
  let ?c = "cleaned prev (first_of ms) m"
  have "is_empty_message ?c \<Longrightarrow> visible_of m = ([], [])"
    using empty_visible [of ?c] by simp
  with Cons.IH show ?case by (auto simp: transcript_def Let_def)
qed (simp add: transcript_def)

section \<open>The report\<close>

lemma orphan_uses_none: "filter (orphan_use ids) bs = [] \<longleftrightarrow> set (use_ids bs) \<subseteq> ids"
  by (induction bs rule: use_ids.induct) (auto simp: orphan_use_def)

lemma orphan_results_none: "filter (orphan_result ids) bs = [] \<longleftrightarrow> set (result_ids bs) \<subseteq> ids"
  by (induction bs rule: result_ids.induct) (auto simp: orphan_result_def)

lemma filter_none: "filter P xs = [] \<Longrightarrow> filter (\<lambda>x. \<not> P x) xs = xs"
  by (auto simp: filter_empty_conv filter_id_conv)

lemma drop_uses_noop:
  "filter (orphan_use (tool_result_ids nxt)) (content_blocks (Some m)) = [] \<Longrightarrow>
   drop_uses nxt m r = (m, r)"
  by (auto simp: drop_uses_def Let_def map_content_def filter_none split: content.splits)

lemma drop_results_noop:
  "filter (orphan_result (tool_use_ids prev)) (content_blocks (Some m)) = [] \<Longrightarrow>
   drop_results prev m r = (m, r)"
  by (auto simp: drop_results_def Let_def map_content_def filter_none split: content.splits)

lemma drop_uses_changed:
  "rr_changed (snd (drop_uses nxt m r)) \<longleftrightarrow> rr_changed r \<or>
     filter (orphan_use (tool_result_ids nxt)) (content_blocks (Some m)) \<noteq> []"
  using no_uses [of "content_blocks (Some m)"]
  by (auto simp: drop_uses_def Let_def has_tool_use_def orphan_uses_none simp del: content_blocks_simps)

lemma drop_results_changed:
  "rr_changed (snd (drop_results prev m r)) \<longleftrightarrow> rr_changed r \<or>
     filter (orphan_result (tool_use_ids prev)) (content_blocks (Some m)) \<noteq> []"
  using no_results [of "content_blocks (Some m)"]
  by (auto simp: drop_results_def Let_def has_tool_result_def orphan_results_none
      simp del: content_blocks_simps)

lemma repair_loop_unchanged:
  "\<not> rr_changed (snd (repair_loop ms out r)) \<Longrightarrow> fst (repair_loop ms out r) = out @ ms \<and> \<not> rr_changed r"
proof (induction ms arbitrary: out r)
  case (Cons m ms)
  obtain m1 r1 where 1: "drop_uses (first_of ms) m r = (m1, r1)" by fastforce
  obtain m2 r2 where 2: "drop_results (last_of out) m1 r1 = (m2, r2)" by fastforce
  have ne: "\<not> is_empty_message m2"
    using Cons.prems Cons.IH [of out "r2\<lparr>rr_messages := rr_messages r2 + 1, rr_changed := True\<rparr>"] 1 2
    by auto
  with Cons.prems 1 2 have rest: "fst (repair_loop ms (out @ [m2]) r2) = (out @ [m2]) @ ms \<and> \<not> rr_changed r2"
    by (intro Cons.IH) simp
  then have r1: "\<not> rr_changed r1"
    "filter (orphan_result (tool_use_ids (last_of out))) (content_blocks (Some m1)) = []"
    using drop_results_changed [of "last_of out" m1 r1] 2 by auto
  then have "m2 = m1" using drop_results_noop [of "last_of out" m1 r1] 2 by simp
  moreover have "\<not> rr_changed r"
    "filter (orphan_use (tool_result_ids (first_of ms))) (content_blocks (Some m)) = []"
    using drop_uses_changed [of "first_of ms" m r] 1 r1 by auto
  moreover from this have "m1 = m" using drop_uses_noop [of "first_of ms" m r] 1 by simp
  ultimately show ?case using rest ne 1 2 by simp
qed simp

lemma repair_is_repaired: "fst (repair_tool_use_adjacency ms) = repaired None ms"
proof -
  obtain out r where l: "repair_loop ms [] no_repair = (out, r)" by fastforce
  then have "out = repaired None ms" using repair_loop_repaired [of ms "[]" no_repair] by simp
  moreover have "\<not> rr_changed r \<Longrightarrow> out = ms"
    using repair_loop_unchanged [of ms "[]" no_repair] l by simp
  ultimately show ?thesis using l by (auto simp: repair_tool_use_adjacency_def)
qed

lemma repaired_nonempty: "list_all (\<lambda>m. \<not> is_empty_message m) (repaired prev ms)"
  by (induction ms arbitrary: prev) (auto simp: Let_def)

text \<open>Tool uses are made by the assistant only.\<close>

definition assistant_uses :: "message list \<Rightarrow> bool" where
  "assistant_uses ms =
     list_all (\<lambda>m. m_role m = Assistant \<or> use_ids (content_blocks (Some m)) = []) ms"

lemma assistant_uses_repaired: "assistant_uses ms \<Longrightarrow> assistant_uses (repaired prev ms)"
  by (induction ms arbitrary: prev)
    (auto simp: assistant_uses_def Let_def cleaned_uses simp del: content_blocks_simps)

lemma repair_loop_noop:
  assumes "adjacent_from (last_of out) ms" "list_all (\<lambda>m. \<not> is_empty_message m) ms" "assistant_uses ms"
  shows "repair_loop ms out r = (out @ ms, r)"
  using assms
proof (induction ms arbitrary: out)
  case (Cons m ms)
  have "set (use_ids (content_blocks (Some m))) \<subseteq> tool_result_ids (first_of ms)"
    using Cons.prems by (auto simp: uses_answered_def assistant_uses_def simp del: content_blocks_simps)
  then have 1: "drop_uses (first_of ms) m r = (m, r)"
    by (simp add: drop_uses_noop orphan_uses_none del: content_blocks_simps)
  have "set (result_ids (content_blocks (Some m))) \<subseteq> tool_use_ids (last_of out)"
    using Cons.prems by (simp add: results_asked_def del: content_blocks_simps)
  then have 2: "drop_results (last_of out) m r = (m, r)"
    by (simp add: drop_results_noop orphan_results_none del: content_blocks_simps)
  have "repair_loop ms (out @ [m]) r = ((out @ [m]) @ ms, r)"
    using Cons.prems by (intro Cons.IH) (auto simp: assistant_uses_def)
  with 1 2 Cons.prems show ?case by simp
qed simp

definition all_uses :: "message list \<Rightarrow> string list" where
  "all_uses ms = concat (map (\<lambda>m. use_ids (content_blocks (Some m))) ms)"

definition all_results :: "message list \<Rightarrow> string list" where
  "all_results ms = concat (map (\<lambda>m. result_ids (content_blocks (Some m))) ms)"

lemma use_ids_partition:
  "mset (use_ids bs) = mset (use_ids (filter (\<lambda>b. \<not> orphan_use ids b) bs)) +
     mset (use_ids (filter (orphan_use ids) bs))"
  by (induction bs rule: use_ids.induct) (auto simp: orphan_use_def)

lemma result_ids_partition:
  "mset (result_ids bs) = mset (result_ids (filter (\<lambda>b. \<not> orphan_result ids b) bs)) +
     mset (result_ids (filter (orphan_result ids) bs))"
  by (induction bs rule: result_ids.induct) (auto simp: orphan_result_def)

lemma drop_uses_report:
  "drop_uses nxt m r = (m1, r1) \<Longrightarrow>
   mset (rr_uses r1) + mset (use_ids (content_blocks (Some m1))) =
     mset (rr_uses r) + mset (use_ids (content_blocks (Some m))) \<and>
   rr_results r1 = rr_results r \<and>
   result_ids (content_blocks (Some m1)) = result_ids (content_blocks (Some m))"
  using use_ids_partition [of "content_blocks (Some m)" "tool_result_ids nxt"]
  by (auto simp: drop_uses_def Let_def map_content_def split: if_splits content.splits)

lemma drop_results_report:
  "drop_results prev m r = (m1, r1) \<Longrightarrow>
   mset (rr_results r1) + mset (result_ids (content_blocks (Some m1))) =
     mset (rr_results r) + mset (result_ids (content_blocks (Some m))) \<and>
   rr_uses r1 = rr_uses r \<and> use_ids (content_blocks (Some m1)) = use_ids (content_blocks (Some m))"
  using result_ids_partition [of "content_blocks (Some m)" "tool_use_ids prev"]
  by (auto simp: drop_results_def Let_def map_content_def split: if_splits content.splits)

lemma repair_loop_report:
  "repair_loop ms out r = (out', r') \<Longrightarrow>
   mset (rr_uses r') + mset (all_uses out') = mset (rr_uses r) + mset (all_uses out) + mset (all_uses ms) \<and>
   mset (rr_results r') + mset (all_results out') =
     mset (rr_results r) + mset (all_results out) + mset (all_results ms)"
proof (induction ms arbitrary: out r)
  case Nil
  then show ?case by (simp add: all_uses_def all_results_def)
next
  case (Cons m ms)
  obtain m1 r1 where 1: "drop_uses (first_of ms) m r = (m1, r1)" by fastforce
  obtain m2 r2 where 2: "drop_results (last_of out) m1 r1 = (m2, r2)" by fastforce
  note acc = drop_uses_report [OF 1] drop_results_report [OF 2]
  show ?case
  proof (cases "is_empty_message m2")
    case True
    with Cons.prems 1 2
    have "repair_loop ms out (r2\<lparr>rr_messages := rr_messages r2 + 1, rr_changed := True\<rparr>) = (out', r')"
      by simp
    from Cons.IH [OF this] acc empty_no_ids [OF True] show ?thesis
      by (simp add: all_uses_def all_results_def del: content_blocks_simps)
  next
    case False
    with Cons.prems 1 2 have "repair_loop ms (out @ [m2]) r2 = (out', r')" by simp
    from Cons.IH [OF this] acc show ?thesis
      by (simp add: all_uses_def all_results_def del: content_blocks_simps)
  qed
qed

section \<open>Properties\<close>

lemma repair_facts:
  "case repair_tool_use_adjacency ms of (out, r) \<Rightarrow>
     adjacent out \<and> list_all (\<lambda>m. \<not> is_empty_message m) out \<and> transcript out = transcript ms \<and>
     mset (rr_uses r) + mset (all_uses out) = mset (all_uses ms) \<and>
     mset (rr_results r) + mset (all_results out) = mset (all_results ms) \<and>
     (if rr_changed r then True else out = ms)"
proof -
  obtain out0 r where l: "repair_loop ms [] no_repair = (out0, r)" by fastforce
  have out: "fst (repair_tool_use_adjacency ms) = repaired None ms" by (rule repair_is_repaired)
  have "out0 = repaired None ms" using repair_loop_repaired [of ms "[]" no_repair] l by simp
  with out l repair_loop_report [OF l] show ?thesis
    using repaired_adjacent [of None ms] repaired_nonempty [of None ms] transcript_repaired [of None ms]
    by (auto simp: repair_tool_use_adjacency_def adjacent_def no_repair_def all_uses_def all_results_def
        simp del: content_blocks_simps split: if_splits)
qed

text \<open>C12. Repairing any history restores what the provider requires (every assistant tool use is
  answered in the next message, every result answers the message before it, no message is empty),
  keeps every visible text, image and thinking block in order, and loses nothing silently: each
  tool use and each result of the input is either kept or in the report. An unchanged report
  means an unchanged history.\<close>

theorem repair_restores_adjacency:
  "case repair_tool_use_adjacency ms of (out, r) \<Rightarrow>
     adjacent out \<and> list_all (\<lambda>m. \<not> is_empty_message m) out \<and> transcript out = transcript ms \<and>
     mset (rr_uses r) + mset (all_uses out) = mset (all_uses ms) \<and>
     mset (rr_results r) + mset (all_results out) = mset (all_results ms) \<and>
     (if rr_changed r then True else out = ms)"
  by (rule repair_facts)

text \<open>One repair is enough: repairing a repaired history changes and reports nothing, when only
  assistant messages carry tool uses.\<close>

theorem repair_idempotent:
  assumes "assistant_uses ms"
  shows "repair_tool_use_adjacency (fst (repair_tool_use_adjacency ms)) =
    (fst (repair_tool_use_adjacency ms), no_repair)"
proof -
  have "repair_loop (repaired None ms) [] no_repair = (repaired None ms, no_repair)"
    using repair_loop_noop [of "[]" "repaired None ms" no_repair] repaired_adjacent [of None ms]
      repaired_nonempty [of None ms] assistant_uses_repaired [OF assms, of None]
    by simp
  then show ?thesis
    by (simp add: repair_is_repaired) (simp add: repair_tool_use_adjacency_def no_repair_def)
qed

definition demo_history :: "message list" where
  "demo_history =
     [\<lparr>m_role = User, m_content = Text ''go'', m_est = None\<rparr>,
      \<lparr>m_role = Assistant, m_content = Blocks [TextBlock ''x'', ToolUse ''t1'' ''read'' (JObj []),
         ToolUse ''t2'' ''bash'' (JObj [])], m_est = None\<rparr>,
      \<lparr>m_role = User, m_content = Blocks [ToolResult ''t1'' ''ok'' (Some ''read'') (Some False)], m_est = None\<rparr>,
      \<lparr>m_role = User, m_content = Blocks [ToolResult ''t1'' ''again'' None None], m_est = None\<rparr>]"

theorem repair_idempotent_witness:
  "repair_tool_use_adjacency (fst (repair_tool_use_adjacency demo_history)) =
    (fst (repair_tool_use_adjacency demo_history), no_repair) \<and>
   rr_uses (snd (repair_tool_use_adjacency demo_history)) = [''t2''] \<and>
   rr_results (snd (repair_tool_use_adjacency demo_history)) = [''t1'']"
proof -
  have "assistant_uses demo_history" by code_simp
  moreover have "rr_uses (snd (repair_tool_use_adjacency demo_history)) = [''t2''] \<and>
      rr_results (snd (repair_tool_use_adjacency demo_history)) = [''t1'']"
    by code_simp
  ultimately show ?thesis using repair_idempotent [of demo_history] by simp
qed

end
