(* ===== verification/Conversation.thy ===== *)
theory Conversation
  imports Messages
begin

text \<open>
  The observable conversation state, \<open>packages/core/src/core/conversation-state.ts\<close>, and the
  least-recently-used cache of \<open>packages/core/src/utils/lru-cache.ts\<close>.

  An operation returns the changes it emits to every subscriber and the new context; subscribers
  only observe. The token estimate of a message is an argument (\<open>est\<close>).
\<close>

section \<open>Conversation state\<close>

datatype todo_status = TodoPending | TodoInProgress | TodoCompleted

record todo =
  td_id :: string
  td_content :: string
  td_status :: todo_status

record 'v conversation =
  cv_messages :: "message list"
  cv_todos :: "todo list"
  cv_meta :: "(string, 'v) jsmap"
  cv_dirty :: bool

datatype 'v change =
    MessageAppended message
  | MessagesReplaced "message list"
  | MessageUpdated nat message
  | TodosReplaced "todo list"
  | MetaSet string 'v
  | MetaDeleted string
  | MetaCleared

definition with_estimate :: "(message \<Rightarrow> nat) \<Rightarrow> message \<Rightarrow> message" where
  "with_estimate est m = (if m_est m = None then m\<lparr>m_est := Some (est m)\<rparr> else m)"

definition append_message ::
  "(message \<Rightarrow> nat) \<Rightarrow> message \<Rightarrow> 'v conversation \<Rightarrow> 'v change list \<times> 'v conversation" where
  "append_message est m c =
     (let m' = with_estimate est m
      in ([MessageAppended m'], c\<lparr>cv_messages := cv_messages c @ [m']\<rparr>))"

definition append_block_to_last_user ::
  "(message \<Rightarrow> nat) \<Rightarrow> block \<Rightarrow> 'v conversation \<Rightarrow> bool \<times> 'v change list \<times> 'v conversation" where
  "append_block_to_last_user est b c =
     (case last_of (cv_messages c) of
        None \<Rightarrow> (False, [], c)
      | Some m \<Rightarrow>
          if m_role m \<noteq> User then (False, [], c)
          else
            let content = (case m_content m of
                  Text s \<Rightarrow> Blocks [TextBlock s, b]
                | Blocks bs \<Rightarrow> Blocks (bs @ [b]));
                updated = m\<lparr>m_content := content, m_est := Some (est (m\<lparr>m_content := content\<rparr>))\<rparr>;
                i = length (cv_messages c) - 1
            in (True, [MessageUpdated i updated],
                c\<lparr>cv_messages := (cv_messages c)[i := updated]\<rparr>))"

definition carries_tool_block :: "message \<Rightarrow> bool" where
  "carries_tool_block m =
     (case m_content m of Text s \<Rightarrow> False
      | Blocks bs \<Rightarrow> list_ex (\<lambda>b. is_tool_use b \<or> is_tool_result b) bs)"

text \<open>The single pass: estimates are filled in, and only messages without one are scanned.\<close>

definition replace_messages ::
  "(message \<Rightarrow> nat) \<Rightarrow> message list \<Rightarrow> 'v conversation \<Rightarrow> 'v change list \<times> 'v conversation" where
  "replace_messages est ms c =
     (let has_tool_block = list_ex (\<lambda>m. m_est m = None \<and> carries_tool_block m) ms;
          ms' = map (with_estimate est) ms
      in ([MessagesReplaced ms'],
          c\<lparr>cv_messages := ms', cv_dirty := cv_dirty c \<or> has_tool_block\<rparr>))"

definition replace_todos :: "todo list \<Rightarrow> 'v conversation \<Rightarrow> 'v change list \<times> 'v conversation" where
  "replace_todos ts c =
     (let all_done = (ts \<noteq> [] \<and> list_all (\<lambda>t. td_status t = TodoCompleted) ts);
          effective = (if all_done then [] else ts)
      in ([TodosReplaced effective], c\<lparr>cv_todos := effective\<rparr>))"

definition set_meta :: "string \<Rightarrow> 'v \<Rightarrow> 'v conversation \<Rightarrow> 'v change list \<times> 'v conversation" where
  "set_meta k v c = ([MetaSet k v], c\<lparr>cv_meta := jm_set k v (cv_meta c)\<rparr>)"

definition delete_meta :: "string \<Rightarrow> 'v conversation \<Rightarrow> 'v change list \<times> 'v conversation" where
  "delete_meta k c =
     (if \<not> jm_has (cv_meta c) k then ([], c)
      else ([MetaDeleted k], c\<lparr>cv_meta := jm_del k (cv_meta c)\<rparr>))"

definition clear_meta :: "'v conversation \<Rightarrow> 'v change list \<times> 'v conversation" where
  "clear_meta c =
     (if jm_keys (cv_meta c) = [] then ([], c)
      else ([MetaCleared], c\<lparr>cv_meta := fold jm_del (jm_keys (cv_meta c)) (cv_meta c)\<rparr>))"

text \<open>What a subscriber sees of the state (\<open>ReadonlyConversationState\<close>), and the mirror it keeps by
  applying the changes it receives.\<close>

definition snapshot_of :: "'v conversation \<Rightarrow> message list \<times> todo list \<times> (string, 'v) jsmap" where
  "snapshot_of c = (cv_messages c, cv_todos c, cv_meta c)"

fun apply_change :: "'v change \<Rightarrow> message list \<times> todo list \<times> (string, 'v) jsmap \<Rightarrow>
    message list \<times> todo list \<times> (string, 'v) jsmap" where
  "apply_change (MessageAppended m) (ms, ts, mt) = (ms @ [m], ts, mt)"
| "apply_change (MessagesReplaced ms') (ms, ts, mt) = (ms', ts, mt)"
| "apply_change (MessageUpdated i m) (ms, ts, mt) = (ms[i := m], ts, mt)"
| "apply_change (TodosReplaced ts') (ms, ts, mt) = (ms, ts', mt)"
| "apply_change (MetaSet k v) (ms, ts, mt) = (ms, ts, jm_set k v mt)"
| "apply_change (MetaDeleted k) (ms, ts, mt) = (ms, ts, jm_del k mt)"
| "apply_change MetaCleared (ms, ts, mt) = (ms, ts, [])"

datatype 'v cv_op =
    AppendMessage message | AppendBlock block | ReplaceMessages "message list"
  | ReplaceTodos "todo list" | SetMeta string 'v | DeleteMeta string | ClearMeta

fun cv_apply :: "(message \<Rightarrow> nat) \<Rightarrow> 'v cv_op \<Rightarrow> 'v conversation \<Rightarrow> 'v change list \<times> 'v conversation"
  where
  "cv_apply est (AppendMessage m) c = append_message est m c"
| "cv_apply est (AppendBlock b) c = snd (append_block_to_last_user est b c)"
| "cv_apply est (ReplaceMessages ms) c = replace_messages est ms c"
| "cv_apply est (ReplaceTodos ts) c = replace_todos ts c"
| "cv_apply est (SetMeta k v) c = set_meta k v c"
| "cv_apply est (DeleteMeta k) c = delete_meta k c"
| "cv_apply est ClearMeta c = clear_meta c"

fun cv_run :: "(message \<Rightarrow> nat) \<Rightarrow> 'v cv_op list \<Rightarrow> 'v conversation \<Rightarrow> 'v change list \<times> 'v conversation"
  where
  "cv_run est [] c = ([], c)"
| "cv_run est (e # es) c =
     (case cv_apply est e c of (cs, c1) \<Rightarrow> case cv_run est es c1 of (cs', c2) \<Rightarrow> (cs @ cs', c2))"

lemma fold_jm_del_keys: "set (jm_keys m) \<subseteq> set ks \<Longrightarrow> fold jm_del ks m = []"
proof (induction ks arbitrary: m)
  case Nil
  then show ?case by (simp add: jm_keys_def)
next
  case (Cons k ks)
  then have "fold jm_del ks (jm_del k m) = []" by (intro Cons.IH) auto
  then show ?case by simp
qed

lemma clear_meta_empties: "fold jm_del (jm_keys m) m = []"
  by (rule fold_jm_del_keys) simp

lemma mirror_step:
  "fold apply_change (fst (cv_apply est e c)) (snapshot_of c) = snapshot_of (snd (cv_apply est e c))"
  by (cases e)
    (auto simp: append_message_def append_block_to_last_user_def replace_messages_def
      replace_todos_def set_meta_def delete_meta_def clear_meta_def snapshot_of_def Let_def
      clear_meta_empties split: option.splits)

section \<open>The LRU cache\<close>

record ('k, 'v) lru =
  lru_store :: "('k, 'v) jsmap"
  lru_capacity :: nat

text \<open>The constructor throws on a capacity below one.\<close>

definition new_lru :: "int \<Rightarrow> (int + ('k, 'v) lru)" where
  "new_lru n = (if n < 1 then Inl n else Inr \<lparr>lru_store = [], lru_capacity = nat n\<rparr>)"

definition lru_get :: "'k \<Rightarrow> ('k, 'v) lru \<Rightarrow> 'v option \<times> ('k, 'v) lru" where
  "lru_get k c =
     (case jm_get (lru_store c) k of
        None \<Rightarrow> (None, c)
      | Some v \<Rightarrow> (Some v, c\<lparr>lru_store := jm_set k v (jm_del k (lru_store c))\<rparr>))"

fun evict :: "nat \<Rightarrow> ('k, 'v) jsmap \<Rightarrow> ('k, 'v) jsmap" where
  "evict cap [] = []"
| "evict cap ((k, v) # m) = (if cap < length ((k, v) # m) then evict cap m else (k, v) # m)"

definition lru_set :: "'k \<Rightarrow> 'v \<Rightarrow> ('k, 'v) lru \<Rightarrow> ('k, 'v) lru" where
  "lru_set k v c =
     (let s = (if jm_has (lru_store c) k then jm_del k (lru_store c) else lru_store c)
      in c\<lparr>lru_store := evict (lru_capacity c) (jm_set k v s)\<rparr>)"

definition lru_has :: "'k \<Rightarrow> ('k, 'v) lru \<Rightarrow> bool" where
  "lru_has k c = jm_has (lru_store c) k"

definition lru_clear :: "('k, 'v) lru \<Rightarrow> ('k, 'v) lru" where
  "lru_clear c = c\<lparr>lru_store := []\<rparr>"

definition lru_size :: "('k, 'v) lru \<Rightarrow> nat" where
  "lru_size c = length (lru_store c)"

datatype ('k, 'v) lru_op = LruGet 'k | LruSet 'k 'v | LruClear

fun lru_step :: "('k, 'v) lru_op \<Rightarrow> ('k, 'v) lru \<Rightarrow> ('k, 'v) lru" where
  "lru_step (LruGet k) c = snd (lru_get k c)"
| "lru_step (LruSet k v) c = lru_set k v c"
| "lru_step LruClear c = lru_clear c"

definition lru_inv :: "('k, 'v) lru \<Rightarrow> bool" where
  "lru_inv c = (jm_wf (lru_store c) \<and> 1 \<le> lru_capacity c \<and> length (lru_store c) \<le> lru_capacity c)"

lemma evict_drop: "evict cap m = drop (length m - cap) m"
  by (induction cap m rule: evict.induct) (auto simp: Suc_diff_le)

lemma jm_wf_drop: "jm_wf m \<Longrightarrow> jm_wf (drop n m)"
  by (simp add: jm_wf_def jm_keys_def drop_map [symmetric])

lemma jm_set_del_append: "jm_set k v (jm_del k m) = jm_del k m @ [(k, v)]"
  by (rule jm_set_new) simp

lemma lru_set_store:
  "lru_store (lru_set k v c) =
     drop (Suc (length (jm_del k (lru_store c))) - lru_capacity c) (jm_del k (lru_store c) @ [(k, v)])"
proof -
  have "(if jm_has (lru_store c) k then jm_del k (lru_store c) else lru_store c) =
      jm_del k (lru_store c)"
    by (simp add: jm_del_absent)
  then show ?thesis by (simp add: lru_set_def Let_def evict_drop jm_set_del_append)
qed

lemma length_jm_del: "length (jm_del k m) \<le> length m"
  by (simp add: jm_del_def)

lemma length_jm_del_present:
  "jm_wf m \<Longrightarrow> jm_get m k = Some v \<Longrightarrow> Suc (length (jm_del k m)) = length m"
proof (induction m)
  case (Cons p m)
  obtain a b where p: "p = (a, b)" by fastforce
  have "jm_wf m" "a \<notin> set (jm_keys m)" using Cons.prems(1) by (auto simp: p jm_wf_def jm_keys_def)
  then have "a = k \<Longrightarrow> jm_del k m = m" by (auto simp: jm_has_keys jm_del_absent)
  with Cons p show ?case by (auto simp: jm_get_Cons jm_del_def jm_wf_def jm_keys_def split: if_splits)
qed simp

lemma lru_inv_step: "lru_inv c \<Longrightarrow> lru_inv (lru_step e c)"
proof (cases e)
  case (LruGet k)
  assume "lru_inv c"
  then show ?thesis
    using length_jm_del_present [of "lru_store c" k]
    by (auto simp: LruGet lru_get_def lru_inv_def jm_set_del_append [symmetric] split: option.splits)
       (simp add: jm_set_del_append)
next
  case (LruSet k v)
  assume inv: "lru_inv c"
  have "jm_wf (jm_del k (lru_store c) @ [(k, v)])"
    using inv jm_wf_set [of "jm_del k (lru_store c)" k v] by (simp add: lru_inv_def jm_set_del_append)
  then have "jm_wf (lru_store (lru_set k v c))"
    unfolding lru_set_store by (rule jm_wf_drop)
  moreover have "length (lru_store (lru_set k v c)) \<le> lru_capacity c"
    using inv length_jm_del [of k "lru_store c"] by (auto simp: lru_set_store lru_inv_def)
  moreover have "lru_capacity (lru_set k v c) = lru_capacity c" by (simp add: lru_set_def Let_def)
  ultimately show ?thesis using inv by (simp add: LruSet lru_inv_def)
next
  case LruClear
  assume "lru_inv c"
  then show ?thesis by (simp add: LruClear lru_clear_def lru_inv_def)
qed

interpretation lru_contract: state_contract lru_step lru_inv
  by unfold_locales (rule lru_inv_step)

text \<open>The entry of \<open>k\<close>, with only keys of \<open>T\<close> used after it.\<close>

definition recent :: "'k \<Rightarrow> 'v \<Rightarrow> 'k set \<Rightarrow> ('k, 'v) lru \<Rightarrow> bool" where
  "recent k v T c = (\<exists>xs ys. lru_store c = xs @ (k, v) # ys \<and> k \<notin> set (jm_keys xs) \<and>
     k \<notin> set (jm_keys ys) \<and> set (jm_keys ys) \<subseteq> T)"

fun touched :: "('k, 'v) lru_op \<Rightarrow> 'k set" where
  "touched (LruGet k) = {k}"
| "touched (LruSet k v) = {k}"
| "touched LruClear = {}"

fun spares :: "'k \<Rightarrow> ('k, 'v) lru_op \<Rightarrow> bool" where
  "spares k (LruGet j) = True"
| "spares k (LruSet j v) = (j \<noteq> k)"
| "spares k LruClear = False"

lemma jm_keys_append [simp]: "jm_keys (a @ b) = jm_keys a @ jm_keys b"
  by (simp add: jm_keys_def)

lemma jm_keys_Cons [simp]: "jm_keys ((k, v) # m) = k # jm_keys m"
  by (simp add: jm_keys_def)

lemma jm_del_append: "jm_del j (a @ b) = jm_del j a @ jm_del j b"
  by (simp add: jm_del_def)

lemma recent_reinsert:
  assumes r: "recent k v T c" and inv: "lru_inv c" and jk: "j \<noteq> k" "j \<in> T"
    and T: "finite T" "card T < lru_capacity c"
    and st: "lru_store c' = drop n (jm_del j (lru_store c) @ [(j, w)])"
    and n: "n = Suc (length (jm_del j (lru_store c))) - lru_capacity c"
  shows "recent k v T c'"
proof -
  obtain xs ys where s: "lru_store c = xs @ (k, v) # ys" and k: "k \<notin> set (jm_keys xs)"
    "k \<notin> set (jm_keys ys)" and ys: "set (jm_keys ys) \<subseteq> T"
    using r by (auto simp: recent_def)
  let ?xs = "jm_del j xs" and ?ys = "jm_del j ys @ [(j, w)]"
  have new: "jm_del j (lru_store c) @ [(j, w)] = ?xs @ (k, v) # ?ys"
    using jk by (simp add: s jm_del_def)
  have "distinct (jm_keys ?ys)" using inv s by (auto simp: lru_inv_def jm_wf_def)
  moreover have sub: "set (jm_keys ?ys) \<subseteq> T" using ys jk by auto
  ultimately have "length ?ys \<le> card T"
    by (metis T(1) card_mono distinct_card jm_keys_def length_map)
  then have "n \<le> length ?xs"
    using T(2) arg_cong [OF new, of length] by (simp add: n)
  then have "lru_store c' = drop n ?xs @ (k, v) # ?ys" by (simp add: st new)
  moreover have "k \<notin> set (jm_keys (drop n ?xs))"
    using k(1) set_drop_subset [of n "jm_del j xs"] by (auto simp: jm_keys_def jm_del_def)
  moreover have "k \<notin> set (jm_keys ?ys)" using k(2) jk by auto
  ultimately show ?thesis using sub unfolding recent_def by blast
qed

lemma recent_step:
  assumes r: "recent k v T c" and inv: "lru_inv c" and op: "spares k e" "touched e \<subseteq> insert k T"
    and T: "finite T" "card T < lru_capacity c"
  shows "recent k v T (lru_step e c)"
proof (cases e)
  case (LruGet j)
  show ?thesis
  proof (cases "j = k")
    case True
    obtain xs ys where s: "lru_store c = xs @ (k, v) # ys" "k \<notin> set (jm_keys xs)"
      "k \<notin> set (jm_keys ys)"
      using r by (auto simp: recent_def)
    then have "jm_get (lru_store c) k = Some v"
      using inv by (simp add: jm_get_eq lru_inv_def)
    moreover have "jm_del k (lru_store c) = xs @ ys"
      using s jm_del_absent [of xs k] jm_del_absent [of ys k] by (simp add: jm_del_def jm_has_keys)
    moreover from this have "jm_set k v (xs @ ys) = (xs @ ys) @ [(k, v)]"
      by (metis jm_set_del_append)
    ultimately have "lru_store (lru_step e c) = (xs @ ys) @ (k, v) # []"
      by (simp add: LruGet True lru_get_def jm_set_del_append)
    with s show ?thesis unfolding recent_def by (intro exI [of _ "xs @ ys"] exI [of _ "[]"]) auto
  next
    case False
    show ?thesis
    proof (cases "jm_get (lru_store c) j")
      case None
      with r show ?thesis by (simp add: LruGet lru_get_def)
    next
      case (Some w)
      have len: "Suc (length (jm_del j (lru_store c))) = length (lru_store c)"
        using inv Some by (intro length_jm_del_present) (auto simp: lru_inv_def)
      show ?thesis
      proof (rule recent_reinsert [OF r inv False _ T])
        show "j \<in> T" using op(2) False by (auto simp: LruGet)
        show "lru_store (lru_step e c) = drop (Suc (length (jm_del j (lru_store c))) - lru_capacity c)
            (jm_del j (lru_store c) @ [(j, w)])"
          using inv len by (simp add: LruGet lru_get_def Some jm_set_del_append lru_inv_def)
      qed simp
    qed
  qed
next
  case (LruSet j w)
  show ?thesis
    by (rule recent_reinsert [OF r inv _ _ T, of j _ _ w])
      (use op in \<open>auto simp: LruSet lru_set_store\<close>)
next
  case LruClear
  with op(1) show ?thesis by simp
qed

lemma lru_capacity_step [simp]: "lru_capacity (lru_step e c) = lru_capacity c"
  by (cases e) (auto simp: lru_get_def lru_set_def lru_clear_def Let_def split: option.splits)

lemma lru_capacity_run: "lru_capacity (fold lru_step es c) = lru_capacity c"
  by (induction es arbitrary: c) auto

lemma recent_run:
  assumes "finite T" "card T < lru_capacity c" "recent k v T c" "lru_inv c"
    "list_all (spares k) es" "\<Union>(touched ` set es) \<subseteq> insert k T"
  shows "recent k v T (fold lru_step es c)"
  using assms
proof (induction es arbitrary: c)
  case (Cons e es)
  then have "recent k v T (lru_step e c)" by (intro recent_step) auto
  with Cons show ?case by (auto intro!: Cons.IH lru_inv_step)
qed simp

section \<open>Properties\<close>

text \<open>The change stream is complete: after any sequence of appended, edited or replaced messages,
  replaced todos and meta updates, a subscriber that applied the changes it received to the
  snapshot it started from holds exactly the current messages, todos and meta.\<close>

theorem change_stream_mirrors_state:
  "fold apply_change (fst (cv_run est es c)) (snapshot_of c) = snapshot_of (snd (cv_run est es c))"
proof (induction es arbitrary: c)
  case (Cons e es)
  then show ?case using mirror_step [of est e c] by (simp add: case_prod_beta)
qed simp

text \<open>The cache never exceeds its capacity and evicts by recency: a value that was set is still
  there after any reads and writes of other keys (and reads of its own) that touch fewer
  different keys than the capacity.\<close>

theorem lru_keeps_recent:
  assumes "lru_inv c" and "list_all (spares k) es"
    and "card (\<Union>(touched ` set es) - {k}) < lru_capacity c"
  shows "fst (lru_get k (fold lru_step es (lru_set k v c))) = Some v \<and>
    lru_size (fold lru_step es (lru_set k v c)) \<le> lru_capacity c"
proof -
  let ?T = "\<Union>(touched ` set es) - {k}"
  have fin: "finite ?T"
  proof -
    have "finite (touched e)" for e :: "('a, 'b) lru_op" by (cases e) auto
    then show ?thesis by auto
  qed
  have inv: "lru_inv (lru_set k v c)" using lru_inv_step [OF assms(1), of "LruSet k v"] by simp
  have cap: "lru_capacity (lru_set k v c) = lru_capacity c"
    using lru_capacity_step [of "LruSet k v" c] by simp
  have "lru_store (lru_set k v c) =
      drop (Suc (length (jm_del k (lru_store c))) - lru_capacity c) (jm_del k (lru_store c)) @ (k, v) # []"
    using assms(1) by (simp add: lru_set_store lru_inv_def)
  moreover have "k \<notin> set (jm_keys (drop n (jm_del k (lru_store c))))" for n
    using set_drop_subset [of n "jm_del k (lru_store c)"] by (auto simp: jm_keys_def jm_del_def)
  ultimately have "recent k v ?T (lru_set k v c)" unfolding recent_def by fastforce
  then have r: "recent k v ?T (fold lru_step es (lru_set k v c))"
    using fin assms(2,3) inv cap by (intro recent_run) auto
  have run: "lru_inv (fold lru_step es (lru_set k v c))"
    by (rule lru_contract.run_good [OF inv])
  have "lru_capacity (fold lru_step es (lru_set k v c)) = lru_capacity c"
    using lru_capacity_run [of es "lru_set k v c"] cap by simp
  moreover have "jm_get (lru_store (fold lru_step es (lru_set k v c))) k = Some v"
    using r run by (subst jm_get_eq) (auto simp: recent_def lru_inv_def)
  ultimately show ?thesis using run by (simp add: lru_get_def lru_inv_def lru_size_def)
qed

theorem lru_keeps_recent_witness:
  "fst (lru_get ''a'' (fold lru_step [LruSet ''b'' 2, LruGet ''a'', LruSet ''b'' (3 :: int)]
      (lru_set ''a'' 1 \<lparr>lru_store = [], lru_capacity = 2\<rparr>))) = Some 1 \<and>
   lru_size (fold lru_step [LruSet ''b'' 2, LruGet ''a'', LruSet ''b'' (3 :: int)]
      (lru_set ''a'' 1 \<lparr>lru_store = [], lru_capacity = 2\<rparr>)) \<le> 2"
proof -
  let ?es = "[LruSet ''b'' 2, LruGet ''a'', LruSet ''b'' (3 :: int)]"
  have "\<Union>(touched ` set ?es) - {''a''} = {''b''}" by auto
  then show ?thesis
    using lru_keeps_recent [of "\<lparr>lru_store = [], lru_capacity = 2\<rparr>" "''a''" ?es 1]
    by (simp add: lru_inv_def)
qed

end
