(* ===== verification/Permission.thy ===== *)
theory Permission
  imports Conversation Json
begin

text \<open>
  The permission policies, \<open>packages/core/src/security/permission-policy.ts\<close>, with the subjects of
  \<open>utils/tool-subject.ts\<close> and the capabilities of \<open>security/capabilities.ts\<close>.

  What the policy consults is an environment: the glob matcher, the classifier of catastrophic
  shell commands, the project-path test, the files read in the session, the project root, the
  prompt delegate, what a read of the trust file yields and whether a write succeeds. The results
  hold for every environment. Reason texts are left out; the trust file is the stored policy.

  The wildcard entries hold the keys only: the code keeps references to the same entry objects,
  so their rules are those of the policy at the time of the look-up.
\<close>

section \<open>Capabilities\<close>

definition shell_arbitrary :: string where "shell_arbitrary = ''shell.arbitrary''"
definition shell_restricted :: string where "shell_restricted = ''shell.restricted''"
definition shell_exec :: string where "shell_exec = ''shell.exec''"
definition fs_read :: string where "fs_read = ''fs.read''"
definition fs_write :: string where "fs_write = ''fs.write''"
definition fs_write_outside :: string where "fs_write_outside = ''fs.write.outside-project''"
definition net_outbound :: string where "net_outbound = ''net.outbound''"
definition tool_mutate_any :: string where "tool_mutate_any = ''tool.mutate.any''"
definition memory_write :: string where "memory_write = ''memory.write''"
definition memory_delete :: string where "memory_delete = ''memory.delete''"
definition mcp_proxy :: string where "mcp_proxy = ''mcp.proxy''"
definition subagent_spawn :: string where "subagent_spawn = ''subagent.spawn''"
definition config_mutate :: string where "config_mutate = ''config.mutate''"
definition package_install :: string where "package_install = ''package.install''"

definition dangerous_for_subagents :: "string list" where
  "dangerous_for_subagents =
     [shell_arbitrary, shell_restricted, shell_exec, fs_write, fs_write_outside, tool_mutate_any,
      memory_write, memory_delete, mcp_proxy, subagent_spawn, config_mutate, package_install]"

definition wide_subagent_capabilities :: "string list" where
  "wide_subagent_capabilities =
     [fs_read, fs_write, net_outbound, ''session.todo'', ''tool.meta'', ''memory.read'',
      shell_arbitrary, shell_restricted, shell_exec, package_install, ''coordination.fleet.read'']"

section \<open>Tools, inputs and decisions\<close>

datatype permission = Auto | Confirm | Deny

datatype risk_tier = RiskSafe | RiskStandard | RiskDestructive

record ptool =
  pt_name :: string
  pt_permission :: permission
  pt_mutating :: bool
  pt_risk :: "risk_tier option"
  pt_subject_key :: "string option"
  pt_caps :: "string list option"

type_synonym tool_input = "fields option"

datatype source = SrcDefault | SrcTrust | SrcYolo | SrcYoloDestructive | SrcUser | SrcDeny
  | SrcContext | SrcSubagentGuard

record decision =
  de_permission :: permission
  de_source :: source
  de_risk :: "risk_tier option"

definition decide :: "permission \<Rightarrow> source \<Rightarrow> decision" where
  "decide p s = \<lparr>de_permission = p, de_source = s, de_risk = None\<rparr>"

definition caps_of :: "ptool \<Rightarrow> string list" where
  "caps_of t = (case pt_caps t of None \<Rightarrow> [] | Some cs \<Rightarrow> cs)"

definition has_capability :: "ptool \<Rightarrow> string list \<Rightarrow> bool" where
  "has_capability t cs = list_ex (\<lambda>c. c \<in> set (caps_of t)) cs"

definition get_dangerous_capabilities :: "ptool \<Rightarrow> string list" where
  "get_dangerous_capabilities t = filter (\<lambda>c. c \<in> set dangerous_for_subagents) (caps_of t)"

section \<open>Subjects\<close>

definition escape_glob_subject :: "string \<Rightarrow> string" where
  "escape_glob_subject s =
     concat (map (\<lambda>c. if c \<in> set ''*?[]'' then [CHR 0x5C, c] else [c]) s)"

definition normalize_path_subject :: "string \<Rightarrow> string" where
  "normalize_path_subject s =
     escape_glob_subject (map (\<lambda>c. if c = CHR 0x5C then CHR ''/'' else c) s)"

definition is_path_subject_key :: "string \<Rightarrow> bool" where
  "is_path_subject_key k = (k = ''path'' \<or> k = ''file'' \<or> k = ''files'')"

definition get_input_string :: "tool_input \<Rightarrow> string \<Rightarrow> string option" where
  "get_input_string inp k =
     (case inp of None \<Rightarrow> None
      | Some obj \<Rightarrow> (case jm_get obj k of Some (JStr s) \<Rightarrow> Some s | _ \<Rightarrow> None))"

definition subject_for_tool_input :: "string \<Rightarrow> tool_input \<Rightarrow> string option \<Rightarrow> string option" where
  "subject_for_tool_input name inp key =
     (case (case key of None \<Rightarrow> None
            | Some k \<Rightarrow> if k = '''' then None
                else map_option (\<lambda>s. if is_path_subject_key k then normalize_path_subject s
                                    else escape_glob_subject s) (get_input_string inp k)) of
        Some s \<Rightarrow> Some s
      | None \<Rightarrow>
          (case (if name = ''bash'' then get_input_string inp ''command'' else None) of
             Some s \<Rightarrow> Some (escape_glob_subject s)
           | None \<Rightarrow>
               (case get_input_string inp ''path'' of
                  Some s \<Rightarrow> Some (normalize_path_subject s)
                | None \<Rightarrow>
                    (case get_input_string inp ''url'' of
                       Some s \<Rightarrow> Some (escape_glob_subject s)
                     | None \<Rightarrow> map_option escape_glob_subject (get_input_string inp ''name'')))))"

section \<open>Destructive calls\<close>

definition quote_arg :: "string \<Rightarrow> string" where
  "quote_arg a =
     (if list_ex is_js_space a
      then [CHR 0x22] @ concat (map (\<lambda>c. if c = CHR 0x22 then [CHR 0x5C, CHR 0x22] else [c]) a)
             @ [CHR 0x22]
      else a)"

fun jstrings :: "json list \<Rightarrow> string list" where
  "jstrings [] = []"
| "jstrings (JStr s # vs) = s # jstrings vs"
| "jstrings (v # vs) = jstrings vs"

definition first_some :: "'a option \<Rightarrow> 'a option \<Rightarrow> 'a option" where
  "first_some a b = (case a of None \<Rightarrow> b | Some x \<Rightarrow> Some x)"

definition shell_command_line :: "tool_input \<Rightarrow> string option" where
  "shell_command_line inp =
     (case first_some (get_input_string inp ''command'')
             (first_some (get_input_string inp ''cmd'') (get_input_string inp ''script'')) of
        None \<Rightarrow> None
      | Some command \<Rightarrow>
          if command = '''' then None
          else
            (case inp of
               None \<Rightarrow> Some command
             | Some obj \<Rightarrow>
                 (case jm_get obj ''args'' of
                    Some (JArr (a # as)) \<Rightarrow>
                      Some (js_join '' '' (command # map quote_arg (jstrings (a # as))))
                  | _ \<Rightarrow> Some command)))"

datatype answer = Yes | No | Always | DenyForever

datatype trust_read = ReadFailed | ParseFailed
  | Parsed "(string \<times> string list option \<times> string list option \<times> bool) list"

record perm_env =
  e_glob :: "string \<Rightarrow> string \<Rightarrow> bool"
  e_catastrophic :: "string \<Rightarrow> bool"
  e_inside :: "string \<Rightarrow> string \<Rightarrow> bool"
  e_has_read :: "string \<Rightarrow> bool"
  e_root :: "string option"
  e_delegate :: "(ptool \<Rightarrow> tool_input \<Rightarrow> string \<Rightarrow> answer) option"
  e_trust_file :: trust_read
  e_write_ok :: bool

definition risky :: "ptool \<Rightarrow> bool" where
  "risky t = (pt_risk t = Some RiskDestructive)"

definition is_destructive_by_capability :: "ptool \<Rightarrow> bool" where
  "is_destructive_by_capability t =
     (shell_arbitrary \<in> set (caps_of t) \<or> shell_restricted \<in> set (caps_of t) \<or>
      shell_exec \<in> set (caps_of t) \<or> fs_write \<in> set (caps_of t) \<or>
      fs_write_outside \<in> set (caps_of t))"

definition shell_destructive :: "perm_env \<Rightarrow> ptool \<Rightarrow> tool_input \<Rightarrow> bool" where
  "shell_destructive env t inp =
     (case shell_command_line inp of Some c \<Rightarrow> e_catastrophic env c | None \<Rightarrow> risky t)"

definition path_escapes :: "perm_env \<Rightarrow> tool_input \<Rightarrow> bool" where
  "path_escapes env inp =
     (case (first_some (get_input_string inp ''path'') (get_input_string inp ''file''), e_root env) of
        (Some p, Some base_dir) \<Rightarrow> p \<noteq> '''' \<and> base_dir \<noteq> '''' \<and> \<not> e_inside env p base_dir
      | _ \<Rightarrow> False)"

definition is_destructive_yolo_call :: "perm_env \<Rightarrow> ptool \<Rightarrow> tool_input \<Rightarrow> bool" where
  "is_destructive_yolo_call env t inp =
     (if is_destructive_by_capability t \<and> (shell_arbitrary \<in> set (caps_of t) \<or>
           shell_restricted \<in> set (caps_of t) \<or> shell_exec \<in> set (caps_of t))
      then shell_destructive env t inp
      else if is_destructive_by_capability t \<and> fs_write_outside \<in> set (caps_of t) then True
      else if is_destructive_by_capability t \<and> fs_write \<in> set (caps_of t) then path_escapes env inp
      else if pt_name t \<in> {''bash'', ''shell'', ''exec''} then shell_destructive env t inp
      else if pt_name t \<in> {''write'', ''edit'', ''replace'', ''patch''} then path_escapes env inp
      else risky t)"

section \<open>The default policy\<close>

record trust_entry =
  te_allow :: "string list option"
  te_deny :: "string list option"
  te_auto :: bool

record perm =
  pp_policy :: "(string, trust_entry) jsmap"
  pp_loaded :: bool
  pp_yolo :: bool
  pp_yolo_destructive :: bool
  pp_confirm_destructive :: bool
  pp_denied :: "string list"
  pp_allowed :: "string list"
  pp_wildcards :: "string list"
  pp_cache :: "(string, decision) lru"

definition new_policy :: "bool \<Rightarrow> bool \<Rightarrow> perm" where
  "new_policy yolo destructive =
     \<lparr>pp_policy = [], pp_loaded = False, pp_yolo = yolo, pp_yolo_destructive = destructive,
      pp_confirm_destructive = True, pp_denied = [], pp_allowed = [], pp_wildcards = [],
      pp_cache = \<lparr>lru_store = [], lru_capacity = 500\<rparr>\<rparr>"

definition clear_cache :: "perm \<Rightarrow> perm" where
  "clear_cache p = p\<lparr>pp_cache := lru_clear (pp_cache p)\<rparr>"




definition reload :: "perm_env \<Rightarrow> perm \<Rightarrow> perm" where
  "reload env p =
     (let pol = (case e_trust_file env of
            ReadFailed \<Rightarrow> []
          | ParseFailed \<Rightarrow> pp_policy p
          | Parsed es \<Rightarrow>
              fold (\<lambda>(k, al, dn, au). jm_set k \<lparr>te_allow = al, te_deny = dn, te_auto = au\<rparr>) es [])
      in clear_cache (p\<lparr>pp_policy := pol,
           pp_wildcards := filter (\<lambda>k. CHR ''*'' \<in> set k) (jm_keys pol),
           pp_denied := [], pp_allowed := [], pp_loaded := True\<rparr>))"

definition find_namespace_entry :: "perm_env \<Rightarrow> string \<Rightarrow> perm \<Rightarrow> trust_entry option" where
  "find_namespace_entry env name p =
     (case List.find (\<lambda>k. e_glob env k name) (pp_wildcards p) of
        None \<Rightarrow> None
      | Some k \<Rightarrow> jm_get (pp_policy p) k)"

definition entry_for :: "perm_env \<Rightarrow> string \<Rightarrow> perm \<Rightarrow> trust_entry option" where
  "entry_for env name p =
     first_some (jm_get (pp_policy p) name) (find_namespace_entry env name p)"

definition matches_trust :: "perm_env \<Rightarrow> string list \<Rightarrow> string \<Rightarrow> bool" where
  "matches_trust env pats s = (s \<in> set pats \<or> list_ex (\<lambda>q. e_glob env q s) pats)"

text \<open>\<open>entry?.deny && subject && matchesTrust(...)\<close>, and the same for \<open>allow\<close>.\<close>

definition rule_hits :: "perm_env \<Rightarrow> string list option \<Rightarrow> string option \<Rightarrow> bool" where
  "rule_hits env pats subject =
     (case (pats, subject) of
        (Some ps, Some s) \<Rightarrow> s \<noteq> '''' \<and> matches_trust env ps s
      | _ \<Rightarrow> False)"

definition empty_entry :: trust_entry where
  "empty_entry = \<lparr>te_allow = None, te_deny = None, te_auto = False\<rparr>"

definition or_empty :: "string list option \<Rightarrow> string list" where
  "or_empty ps = (case ps of None \<Rightarrow> [] | Some q \<Rightarrow> q)"

text \<open>The first component is whether the trust file was written; a failed write takes the rule's
  first occurrence out again and throws.\<close>

definition ensure_loaded :: "perm_env \<Rightarrow> perm \<Rightarrow> perm" where
  "ensure_loaded env p = (if pp_loaded p then p else reload env p)"

definition trust_rule :: "perm_env \<Rightarrow> string \<Rightarrow> string \<Rightarrow> perm \<Rightarrow> bool \<times> perm" where
  "trust_rule env tool pat p0 =
     (let p = ensure_loaded env p0;
          entry = (case jm_get (pp_policy p) tool of None \<Rightarrow> empty_entry | Some e \<Rightarrow> e);
          rules = js_dedup (or_empty (te_allow entry) @ [pat]);
          p1 = clear_cache (p\<lparr>pp_policy :=
            jm_set tool (entry\<lparr>te_allow := Some rules\<rparr>) (pp_policy p)\<rparr>)
      in if e_write_ok env then (True, p1)
         else (False, p1\<lparr>pp_policy :=
            jm_set tool (entry\<lparr>te_allow := Some (remove1 pat rules)\<rparr>) (pp_policy p1)\<rparr>))"

definition deny_rule :: "perm_env \<Rightarrow> string \<Rightarrow> string \<Rightarrow> perm \<Rightarrow> bool \<times> perm" where
  "deny_rule env tool pat p0 =
     (let p = ensure_loaded env p0;
          entry = (case jm_get (pp_policy p) tool of None \<Rightarrow> empty_entry | Some e \<Rightarrow> e);
          rules = js_dedup (or_empty (te_deny entry) @ [pat]);
          p1 = clear_cache (p\<lparr>pp_policy :=
            jm_set tool (entry\<lparr>te_deny := Some rules\<rparr>) (pp_policy p)\<rparr>)
      in if e_write_ok env then (True, p1)
         else (False, p1\<lparr>pp_policy :=
            jm_set tool (entry\<lparr>te_deny := Some (remove1 pat rules)\<rparr>) (pp_policy p1)\<rparr>))"

definition rule_key :: "string \<Rightarrow> string \<Rightarrow> string" where
  "rule_key tool pat = tool @ ''::'' @ pat"



section \<open>Evaluating a call\<close>

text \<open>\<open>Inl\<close> is the error of a trust file that could not be written.\<close>

datatype perm_error = TrustWriteFailed

type_synonym verdict = "(perm_error + decision) \<times> perm"

definition remember :: "string \<Rightarrow> decision \<Rightarrow> perm \<Rightarrow> verdict" where
  "remember key d p = (Inr d, p\<lparr>pp_cache := lru_set key d (pp_cache p)\<rparr>)"

definition is_mutating :: "ptool \<Rightarrow> bool" where
  "is_mutating t =
     (pt_mutating t \<or> has_capability t [fs_write] \<or>
      has_capability t [shell_arbitrary, shell_restricted, shell_exec] \<or>
      has_capability t [package_install] \<or> has_capability t [config_mutate] \<or>
      has_capability t [subagent_spawn])"

text \<open>Step 5 for a destructive call: ask the delegate, or tell the caller to confirm.\<close>

definition destructive_gate :: "perm_env \<Rightarrow> ptool \<Rightarrow> tool_input \<Rightarrow> string \<Rightarrow> perm \<Rightarrow> verdict" where
  "destructive_gate env t inp pat p =
     (case e_delegate env of
        None \<Rightarrow> (Inr \<lparr>de_permission = Confirm, de_source = SrcYoloDestructive,
                     de_risk = Some RiskDestructive\<rparr>, p)
      | Some ask \<Rightarrow>
          let a = ask t inp pat
          in if a = DenyForever then
               (case deny_rule env (pt_name t) pat p of
                  (ok, p1) \<Rightarrow> (if ok then Inr (decide Deny SrcUser) else Inl TrustWriteFailed, p1))
             else (Inr (decide (if a = Yes \<or> a = Always then Auto else Deny) SrcUser), p))"

text \<open>Step 9: ask the delegate, or tell the caller to confirm.\<close>

definition confirm_call :: "perm_env \<Rightarrow> ptool \<Rightarrow> tool_input \<Rightarrow> string \<Rightarrow> perm \<Rightarrow> verdict" where
  "confirm_call env t inp pat p =
     (case e_delegate env of
        None \<Rightarrow> (Inr (decide Confirm SrcDefault), p)
      | Some ask \<Rightarrow>
          (case ask t inp pat of
             Always \<Rightarrow> (case trust_rule env (pt_name t) pat p of
                 (ok, p1) \<Rightarrow> (if ok then Inr (decide Auto SrcUser) else Inl TrustWriteFailed, p1))
           | DenyForever \<Rightarrow> (case deny_rule env (pt_name t) pat p of
                 (ok, p1) \<Rightarrow> (if ok then Inr (decide Deny SrcUser) else Inl TrustWriteFailed, p1))
           | Yes \<Rightarrow> (Inr (decide Auto SrcUser), p)
           | No \<Rightarrow> (Inr (decide Deny SrcUser), p)))"

text \<open>Steps 6 to 9, after the destructive gate.\<close>

definition evaluate_rules ::
  "perm_env \<Rightarrow> ptool \<Rightarrow> tool_input \<Rightarrow> string option \<Rightarrow> string \<Rightarrow> trust_entry option \<Rightarrow> perm \<Rightarrow> verdict" where
  "evaluate_rules env t inp subject key entry p =
     (let pat = (case subject of None \<Rightarrow> pt_name t | Some s \<Rightarrow> s)
      in if (case entry of None \<Rightarrow> False | Some e \<Rightarrow> rule_hits env (te_allow e) subject)
         then remember key (decide Auto SrcTrust) p
         else if (case entry of None \<Rightarrow> False | Some e \<Rightarrow> te_auto e)
         then remember key (decide Auto SrcTrust) p
         else if pp_yolo p then remember key (decide Auto SrcYolo) p
         else if pt_name t = ''write'' \<and>
                 (case subject of None \<Rightarrow> False | Some s \<Rightarrow> s \<noteq> '''' \<and> e_has_read env s)
         then (Inr (decide Auto SrcContext), p)
         else if pt_permission t = Auto \<and> \<not> is_mutating t
         then remember key (decide Auto SrcDefault) p
         else confirm_call env t inp pat p)"

text \<open>Steps 3a to 9, when the cache has no answer.\<close>

definition evaluate_fresh ::
  "perm_env \<Rightarrow> ptool \<Rightarrow> tool_input \<Rightarrow> string option \<Rightarrow> string \<Rightarrow> trust_entry option \<Rightarrow> perm \<Rightarrow> verdict" where
  "evaluate_fresh env t inp subject key entry p =
     (if key \<in> set (pp_denied p) then remember key (decide Deny SrcDeny) p
      else if key \<in> set (pp_allowed p)
      then (Inr (decide Auto SrcTrust), p\<lparr>pp_allowed := js_remove key (pp_allowed p)\<rparr>)
      else if (case entry of None \<Rightarrow> False | Some e \<Rightarrow> rule_hits env (te_deny e) subject)
      then remember key (decide Deny SrcDeny) p
      else if pt_permission t = Deny then remember key (decide Deny SrcDefault) p
      else if pp_yolo p \<and> is_destructive_yolo_call env t inp
      then destructive_gate env t inp (case subject of None \<Rightarrow> pt_name t | Some s \<Rightarrow> s) p
      else evaluate_rules env t inp subject key entry p)"

definition subject_of :: "ptool \<Rightarrow> tool_input \<Rightarrow> string option" where
  "subject_of t inp = subject_for_tool_input (pt_name t) inp (pt_subject_key t)"

definition cache_key :: "ptool \<Rightarrow> tool_input \<Rightarrow> string" where
  "cache_key t inp =
     rule_key (pt_name t) (case subject_of t inp of None \<Rightarrow> pt_name t | Some s \<Rightarrow> s)"

definition evaluate :: "perm_env \<Rightarrow> ptool \<Rightarrow> tool_input \<Rightarrow> perm \<Rightarrow> verdict" where
  "evaluate env t inp p0 =
     (let p = ensure_loaded env p0;
          entry = entry_for env (pt_name t) p;
          subject = subject_of t inp;
          key = cache_key t inp
      in if pt_name t \<noteq> ''write'' then
           (case lru_get key (pp_cache p) of
              (Some d, c) \<Rightarrow> (Inr d, p\<lparr>pp_cache := c\<rparr>)
            | (None, c) \<Rightarrow> evaluate_fresh env t inp subject key entry (p\<lparr>pp_cache := c\<rparr>))
         else evaluate_fresh env t inp subject key entry p)"

section \<open>The subagent policy\<close>

definition default_allowed :: "string list" where
  "default_allowed = [fs_read, net_outbound]"

definition is_mcp_tool :: "string \<Rightarrow> bool" where
  "is_mcp_tool name = starts_with name ''mcp__''"

definition auto_approve :: "string list option \<Rightarrow> ptool \<Rightarrow> decision" where
  "auto_approve allowed_opt t =
     (let allowed = (case allowed_opt of None \<Rightarrow> default_allowed | Some a \<Rightarrow> a);
          caps = caps_of t;
          has_allowed = list_ex (\<lambda>c. c \<in> set allowed) caps;
          not_allowed = filter (\<lambda>c. c \<notin> set allowed) (get_dangerous_capabilities t);
          blocked = (pt_permission t = Deny \<or> (is_mcp_tool (pt_name t) \<and> mcp_proxy \<notin> set allowed) \<or>
            \<not> has_allowed \<or> 0 < length not_allowed)
      in if blocked then decide Deny SrcSubagentGuard else decide Auto SrcYolo)"

section \<open>Lemmas\<close>


lemma lru_get_set: "lru_inv c \<Longrightarrow> fst (lru_get k (lru_set k v c)) = Some v"
proof -
  assume inv: "lru_inv c"
  have "(k, v) \<in> set (lru_store (lru_set k v c))"
    using inv by (simp add: lru_set_store lru_inv_def)
  moreover have "jm_wf (lru_store (lru_set k v c))"
    using lru_inv_step [OF inv, of "LruSet k v"] by (simp add: lru_inv_def)
  ultimately have "jm_get (lru_store (lru_set k v c)) k = Some v" by (simp add: jm_get_eq)
  then show ?thesis by (simp add: lru_get_def)
qed


lemma clear_cache_fields [simp]:
  "pp_policy (clear_cache p) = pp_policy p" "pp_loaded (clear_cache p) = pp_loaded p"
  "pp_yolo (clear_cache p) = pp_yolo p" "pp_denied (clear_cache p) = pp_denied p"
  "pp_allowed (clear_cache p) = pp_allowed p" "pp_wildcards (clear_cache p) = pp_wildcards p"
  by (simp_all add: clear_cache_def)

lemma cache_miss_cleared [simp]: "lru_get k (pp_cache (clear_cache p)) = (None, pp_cache (clear_cache p))"
  by (simp add: clear_cache_def lru_clear_def lru_get_def)

lemma lru_get_miss: "fst (lru_get k c) = None \<Longrightarrow> lru_get k c = (None, c)"
  by (auto simp: lru_get_def split: option.splits)

lemma evaluate_miss:
  assumes "pp_loaded p" and "fst (lru_get (cache_key t inp) (pp_cache p)) = None"
  shows "evaluate env t inp p =
    evaluate_fresh env t inp (subject_of t inp) (cache_key t inp) (entry_for env (pt_name t) p) p"
  using assms by (simp add: evaluate_def ensure_loaded_def lru_get_miss Let_def)

lemma evaluate_hit:
  assumes "pp_loaded p" "pt_name t \<noteq> ''write''" "fst (lru_get (cache_key t inp) (pp_cache p)) = Some d"
  shows "fst (evaluate env t inp p) = Inr d"
  using assms by (cases "lru_get (cache_key t inp) (pp_cache p)") (simp add: evaluate_def ensure_loaded_def Let_def)

text \<open>What forbids a call before any approval is looked at.\<close>

definition forbidden :: "perm_env \<Rightarrow> ptool \<Rightarrow> tool_input \<Rightarrow> perm \<Rightarrow> bool" where
  "forbidden env t inp p =
     (cache_key t inp \<in> set (pp_denied p) \<or>
      (case entry_for env (pt_name t) p of
         None \<Rightarrow> False
       | Some e \<Rightarrow> rule_hits env (te_deny e) (subject_of t inp)) \<or>
      pt_permission t = Deny)"

lemma entry_for_cache [simp]: "entry_for env n (p\<lparr>pp_cache := c\<rparr>) = entry_for env n p"
  by (simp add: entry_for_def find_namespace_entry_def split: option.splits)

lemma forbidden_cache [simp]: "forbidden env t inp (p\<lparr>pp_cache := c\<rparr>) = forbidden env t inp p"
  by (simp add: forbidden_def)

lemma fresh_forbidden:
  assumes "forbidden env t inp p" and "cache_key t inp \<notin> set (pp_allowed p)"
  shows "\<exists>d. de_permission d = Deny \<and>
    evaluate_fresh env t inp (subject_of t inp) (cache_key t inp) (entry_for env (pt_name t) p) p =
      remember (cache_key t inp) d p"
proof -
  let ?fresh = "evaluate_fresh env t inp (subject_of t inp) (cache_key t inp)
    (entry_for env (pt_name t) p) p"
  have "?fresh = remember (cache_key t inp) (decide Deny SrcDeny) p \<or>
      ?fresh = remember (cache_key t inp) (decide Deny SrcDefault) p"
    using assms unfolding forbidden_def evaluate_fresh_def by presburger
  moreover have "de_permission (decide Deny s) = Deny" for s by (simp add: decide_def)
  ultimately show ?thesis by blast
qed

lemma deny_rule_ok:
  "e_write_ok env \<Longrightarrow> fst (deny_rule env tool pat p) \<and> pp_loaded (snd (deny_rule env tool pat p)) \<and>
   (\<exists>e. jm_get (pp_policy (snd (deny_rule env tool pat p))) tool = Some e \<and>
      te_deny e = Some (js_dedup (or_empty (case jm_get (pp_policy (ensure_loaded env p)) tool of
         None \<Rightarrow> None | Some e0 \<Rightarrow> te_deny e0) @ [pat]))) \<and>
   (\<exists>q. snd (deny_rule env tool pat p) = clear_cache q) \<and>
   pp_allowed (snd (deny_rule env tool pat p)) = pp_allowed (ensure_loaded env p)"
  by (auto simp: deny_rule_def Let_def ensure_loaded_def reload_def empty_entry_def or_empty_def
      split: option.splits)

section \<open>Properties\<close>






section \<open>Histories of a policy\<close>






























definition demo_env :: perm_env where
  "demo_env = \<lparr>e_glob = (\<lambda>q s. q = s), e_catastrophic = (\<lambda>c. c = ''rm -rf /''),
     e_inside = (\<lambda>q r. True), e_has_read = (\<lambda>s. False), e_root = Some ''/w'', e_delegate = None,
     e_trust_file = ReadFailed, e_write_ok = True\<rparr>"

definition bash_tool :: ptool where
  "bash_tool = \<lparr>pt_name = ''bash'', pt_permission = Confirm, pt_mutating = True, pt_risk = None,
     pt_subject_key = Some ''command'', pt_caps = Some [shell_arbitrary]\<rparr>"

definition exec_tool :: ptool where
  "exec_tool = \<lparr>pt_name = ''exec'', pt_permission = Confirm, pt_mutating = True,
     pt_risk = Some RiskStandard, pt_subject_key = None, pt_caps = Some [shell_restricted]\<rparr>"

definition command_input :: "string \<Rightarrow> string list \<Rightarrow> tool_input" where
  "command_input c as = Some [(''command'', JStr c), (''args'', JArr (map JStr as))]"




text \<open>A call without a subject has the key of the call whose subject is the tool's name: after one of
  those was approved, a deny rule for that subject no longer applies.\<close>

definition list_tool :: ptool where
  "list_tool = \<lparr>pt_name = ''ls'', pt_permission = Auto, pt_mutating = False, pt_risk = None,
     pt_subject_key = None, pt_caps = Some [fs_read]\<rparr>"

theorem subject_like_tool_undenied:
  "let p = snd (deny_rule demo_env ''ls'' ''ls'' (new_policy False False));
       denied = Some [(''path'', JStr ''ls'')];
       p1 = snd (evaluate demo_env list_tool (Some []) p)
   in map_sum id de_permission (fst (evaluate demo_env list_tool denied p)) = Inr Deny \<and>
      map_sum id de_permission (fst (evaluate demo_env list_tool denied p1)) = Inr Auto"
  by code_simp

text \<open>A permanent denial takes effect with the next call: after the rule for a call's subject was
  written, that call is denied, whatever globs, trust rules or YOLO mode say, unless a one-shot
  grant for it is pending.\<close>

theorem deny_rule_effective:
  assumes "e_write_ok env" and "subject_of t inp = Some s" and "s \<noteq> ''''"
    and "cache_key t inp \<notin> set (pp_allowed (ensure_loaded env p))"
  shows "case evaluate env t inp (snd (deny_rule env (pt_name t) s p)) of
      (Inl _, _) \<Rightarrow> False | (Inr d, _) \<Rightarrow> de_permission d = Deny"
proof -
  let ?p = "snd (deny_rule env (pt_name t) s p)"
  from deny_rule_ok [OF assms(1), of "pt_name t" s p] obtain e q rules where
    e: "jm_get (pp_policy ?p) (pt_name t) = Some e" "te_deny e = Some (js_dedup (rules @ [s]))"
    and q: "?p = clear_cache q" and loaded: "pp_loaded ?p"
    and allowed: "pp_allowed ?p = pp_allowed (ensure_loaded env p)"
    by blast
  have "rule_hits env (te_deny e) (subject_of t inp)"
    using e(2) assms(2,3) by (simp add: rule_hits_def matches_trust_def)
  with e(1) have "forbidden env t inp ?p"
    by (simp add: forbidden_def entry_for_def first_some_def)
  moreover have "cache_key t inp \<notin> set (pp_allowed ?p)" using allowed assms(4) by simp
  ultimately obtain d where "de_permission d = Deny"
    "evaluate_fresh env t inp (subject_of t inp) (cache_key t inp) (entry_for env (pt_name t) ?p) ?p =
      remember (cache_key t inp) d ?p"
    using fresh_forbidden by blast
  moreover have "fst (lru_get (cache_key t inp) (pp_cache ?p)) = None" by (simp add: q)
  ultimately show ?thesis using evaluate_miss [OF loaded] by (simp add: remember_def)
qed

theorem deny_rule_effective_witness:
  "case evaluate demo_env bash_tool (command_input ''make'' [])
      (snd (deny_rule demo_env (pt_name bash_tool) ''make'' (new_policy True False))) of
      (Inl _, _) \<Rightarrow> False | (Inr d, _) \<Rightarrow> de_permission d = Deny"
proof (rule deny_rule_effective)
  show "subject_of bash_tool (command_input ''make'' []) = Some ''make''" by code_simp
  show "cache_key bash_tool (command_input ''make'' []) \<notin>
      set (pp_allowed (ensure_loaded demo_env (new_policy True False)))" by code_simp
qed (simp_all add: demo_env_def)

text \<open>With nobody to ask, YOLO mode never waves a destructive call through on its own: without a
  cached decision and a one-shot grant the outcome is a request for confirmation marked
  destructive or a denial, also for tools the trust file allows or marks as automatic.\<close>

theorem yolo_gate_holds:
  assumes "pp_loaded p" and "fst (lru_get (cache_key t inp) (pp_cache p)) = None"
    and "cache_key t inp \<notin> set (pp_allowed p)" and "pp_yolo p"
    and "is_destructive_yolo_call env t inp" and "e_delegate env = None"
  shows "case evaluate env t inp p of
      (Inl _, _) \<Rightarrow> False
    | (Inr d, _) \<Rightarrow> de_permission d = (if forbidden env t inp p then Deny else Confirm) \<and>
        (forbidden env t inp p \<or> de_risk d = Some RiskDestructive)"
proof (cases "forbidden env t inp p")
  case True
  from fresh_forbidden [OF this assms(3)] evaluate_miss [OF assms(1,2)] show ?thesis
    using True by (auto simp: remember_def)
next
  case False
  with assms show ?thesis
    by (simp add: evaluate_miss evaluate_fresh_def destructive_gate_def forbidden_def
        split: option.splits)
qed

theorem yolo_gate_holds_witness:
  "case evaluate demo_env exec_tool (command_input ''rm'' [''-rf'', ''/''])
      ((new_policy True False)\<lparr>pp_loaded := True\<rparr>) of
      (Inl _, _) \<Rightarrow> False
    | (Inr d, _) \<Rightarrow> de_permission d = (if forbidden demo_env exec_tool
          (command_input ''rm'' [''-rf'', ''/'']) ((new_policy True False)\<lparr>pp_loaded := True\<rparr>)
          then Deny else Confirm) \<and>
        (forbidden demo_env exec_tool (command_input ''rm'' [''-rf'', ''/''])
          ((new_policy True False)\<lparr>pp_loaded := True\<rparr>) \<or> de_risk d = Some RiskDestructive)"
proof (rule yolo_gate_holds)
  show "is_destructive_yolo_call demo_env exec_tool (command_input ''rm'' [''-rf'', ''/''])"
    by code_simp
qed (simp_all add: new_policy_def lru_get_def demo_env_def)

text \<open>The cache undoes that gate for tools whose calls have no subject. All calls of \<open>exec\<close> share
  one cache key, so after a harmless call in YOLO mode the catastrophic one is approved without a
  question, while on the same policy without that first call it needs a confirmation.\<close>

theorem harmless_call_opens_gate:
  "let p = (new_policy True False)\<lparr>pp_loaded := True\<rparr>;
       bad = command_input ''rm'' [''-rf'', ''/''];
       p1 = snd (evaluate demo_env exec_tool (command_input ''node'' [''-v'']) p)
   in fst (evaluate demo_env exec_tool bad p) =
        Inr \<lparr>de_permission = Confirm, de_source = SrcYoloDestructive,
             de_risk = Some RiskDestructive\<rparr> \<and>
      fst (evaluate demo_env exec_tool bad p1) = Inr (decide Auto SrcYolo)"
  by code_simp

text \<open>A subagent is auto-approved exactly when its tool is not denied by default, declares at least
  one granted capability, declares no dangerous capability outside the grant, and is no MCP tool
  without the MCP grant. The default grant holds no dangerous capability at all, and the wide
  grant none that spawns agents, reconfigures, writes memory, proxies MCP or leaves the project.\<close>

theorem subagent_grant_is_exact:
  "(de_permission (auto_approve (Some allowed) t) = Auto) =
     (pt_permission t \<noteq> Deny \<and> set (caps_of t) \<inter> set allowed \<noteq> {} \<and>
      set (caps_of t) \<inter> set dangerous_for_subagents \<subseteq> set allowed \<and>
      (if starts_with (pt_name t) ''mcp__'' then mcp_proxy \<in> set allowed else True)) \<and>
   auto_approve None t = auto_approve (Some default_allowed) t \<and>
   set default_allowed \<inter> set dangerous_for_subagents = {} \<and>
   set wide_subagent_capabilities \<inter> {fs_write_outside, tool_mutate_any, memory_write,
     memory_delete, mcp_proxy, subagent_spawn, config_mutate} = {}"
proof (intro conjI)
  show "(de_permission (auto_approve (Some allowed) t) = Auto) =
     (pt_permission t \<noteq> Deny \<and> set (caps_of t) \<inter> set allowed \<noteq> {} \<and>
      set (caps_of t) \<inter> set dangerous_for_subagents \<subseteq> set allowed \<and>
      (if starts_with (pt_name t) ''mcp__'' then mcp_proxy \<in> set allowed else True))"
    by (auto simp: auto_approve_def Let_def decide_def get_dangerous_capabilities_def is_mcp_tool_def
        list_ex_iff filter_empty_conv)
  show "auto_approve None t = auto_approve (Some default_allowed) t"
    by (simp add: auto_approve_def)
  show "set default_allowed \<inter> set dangerous_for_subagents = {}" by code_simp
  show "set wide_subagent_capabilities \<inter> {fs_write_outside, tool_mutate_any, memory_write,
     memory_delete, mcp_proxy, subagent_spawn, config_mutate} = {}" by code_simp
qed

end
