(* ===== verification/Circuit_Breaker.thy ===== *)
theory Circuit_Breaker
  imports Prelude
begin

text \<open>
  The circuit breaker in front of processes, \<open>packages/tools/src/circuit-breaker.ts\<close>.

  Times and durations are whole milliseconds; each operation takes the time of its call. The two
  notifications are returned: \<open>Tripped\<close> for \<open>onTrip\<close>, \<open>Recovered\<close> for \<open>onReset\<close>; what the listeners do
  has no access to the breaker's fields and their exceptions are dropped.
\<close>

section \<open>State\<close>

record breaker_options =
  bo_max_failures :: "int option"
  bo_slow_ms :: "int option"
  bo_max_slow :: "int option"
  bo_window_ms :: "int option"
  bo_max_calls :: "int option"
  bo_cooldown_ms :: "int option"

record breaker_config =
  bc_max_failures :: int
  bc_slow_ms :: int
  bc_max_slow :: int
  bc_window_ms :: int
  bc_max_calls :: int
  bc_cooldown_ms :: int

record call_record =
  cr_at :: int
  cr_failed :: bool
  cr_slow :: bool

datatype breaker_state = Closed | Open | HalfOpen

datatype breaker_event = Tripped | Recovered

record breaker =
  cb_config :: breaker_config
  cb_state :: breaker_state
  cb_failures :: int
  cb_window :: "call_record list"
  cb_last_failure :: "int option"
  cb_last_slow :: "int option"
  cb_opened :: "int option"
  cb_enabled :: bool

definition given :: "int option \<Rightarrow> int \<Rightarrow> int" where
  "given x d = (case x of None \<Rightarrow> d | Some v \<Rightarrow> v)"

definition breaker_config_of :: "breaker_options \<Rightarrow> breaker_config" where
  "breaker_config_of o1 = \<lparr>bc_max_failures = given (bo_max_failures o1) 5,
     bc_slow_ms = given (bo_slow_ms o1) 180000, bc_max_slow = given (bo_max_slow o1) 3,
     bc_window_ms = given (bo_window_ms o1) 60000, bc_max_calls = given (bo_max_calls o1) 30,
     bc_cooldown_ms = given (bo_cooldown_ms o1) 30000\<rparr>"

definition no_options :: breaker_options where
  "no_options = \<lparr>bo_max_failures = None, bo_slow_ms = None, bo_max_slow = None, bo_window_ms = None,
     bo_max_calls = None, bo_cooldown_ms = None\<rparr>"

definition new_breaker :: "breaker_config \<Rightarrow> breaker" where
  "new_breaker c = \<lparr>cb_config = c, cb_state = Closed, cb_failures = 0, cb_window = [],
     cb_last_failure = None, cb_last_slow = None, cb_opened = None, cb_enabled = True\<rparr>"

section \<open>Transitions\<close>

definition trip :: "int \<Rightarrow> breaker \<Rightarrow> breaker_event list \<times> breaker" where
  "trip now b =
     (if cb_state b = Open then ([], b)
      else ([Tripped], b\<lparr>cb_state := Open, cb_opened := Some now, cb_window := []\<rparr>))"

definition reset_breaker :: "breaker \<Rightarrow> breaker_event list \<times> breaker" where
  "reset_breaker b =
     (if cb_state b \<noteq> Closed then [Recovered] else [],
      b\<lparr>cb_state := Closed, cb_failures := 0, cb_window := [], cb_opened := None\<rparr>)"

definition check_transition :: "int \<Rightarrow> breaker \<Rightarrow> breaker" where
  "check_transition now b =
     (case cb_opened b of
        None \<Rightarrow> b
      | Some t \<Rightarrow>
          if cb_state b = Open \<and> bc_cooldown_ms (cb_config b) \<le> now - t
          then b\<lparr>cb_state := HalfOpen, cb_opened := None\<rparr> else b)"

definition prune_window :: "int \<Rightarrow> breaker \<Rightarrow> breaker" where
  "prune_window now b = b\<lparr>cb_window :=
     filter (\<lambda>r. now - bc_window_ms (cb_config b) \<le> cr_at r) (cb_window b)\<rparr>"

section \<open>Operations\<close>

definition set_enabled :: "bool \<Rightarrow> breaker \<Rightarrow> breaker_event list \<times> breaker" where
  "set_enabled e b =
     (if cb_enabled b = e then ([], b)
      else if e then ([], b\<lparr>cb_enabled := True\<rparr>) else reset_breaker (b\<lparr>cb_enabled := False\<rparr>))"

definition can_proceed :: "int \<Rightarrow> breaker \<Rightarrow> bool \<times> breaker" where
  "can_proceed now b =
     (if \<not> cb_enabled b then (True, b)
      else let b' = check_transition now b in (cb_state b' \<noteq> Open, b'))"

definition before_call :: "int \<Rightarrow> bool \<Rightarrow> breaker \<Rightarrow> bool \<times> breaker" where
  "before_call now bypass b =
     (if bypass \<or> \<not> cb_enabled b then (True, b)
      else let b' = check_transition now b in (cb_state b' \<noteq> Open, b'))"

definition slow_count :: "breaker \<Rightarrow> int" where
  "slow_count b = int (length (filter cr_slow (cb_window b)))"

definition after_success :: "int \<Rightarrow> bool \<Rightarrow> breaker \<Rightarrow> breaker_event list \<times> breaker" where
  "after_success now slow b =
     (let b0 = b\<lparr>cb_failures := 0\<rparr>;
          (es, b1) =
            (if slow then
               let b' = b0\<lparr>cb_last_slow := Some now\<rparr>
               in if bc_max_slow (cb_config b') \<le> slow_count b' then trip now b' else ([], b')
             else ([], b0));
          (es', b2) = (if bc_max_calls (cb_config b1) \<le> int (length (cb_window b1)) then trip now b1 else ([], b1))
      in (es @ es', b2))"

definition after_call :: "int \<Rightarrow> int \<Rightarrow> bool \<Rightarrow> bool \<Rightarrow> breaker \<Rightarrow> breaker_event list \<times> breaker" where
  "after_call now dur failed bypass b =
     (if bypass \<or> \<not> cb_enabled b then ([], b)
      else if cb_state b = HalfOpen then (if failed then trip now b else reset_breaker b)
      else
        let slow = (bc_slow_ms (cb_config b) \<le> dur);
            p = prune_window now b;
            b1 = p\<lparr>cb_window := cb_window p @ [\<lparr>cr_at = now, cr_failed = failed, cr_slow = slow\<rparr>]\<rparr>
        in if failed then
             let b2 = b1\<lparr>cb_failures := cb_failures b1 + 1, cb_last_failure := Some now\<rparr>
             in if bc_max_failures (cb_config b2) \<le> cb_failures b2 then trip now b2 else ([], b2)
           else after_success now slow b1)"

definition force_open :: "int \<Rightarrow> breaker \<Rightarrow> breaker_event list \<times> breaker" where
  "force_open now b = trip now b"

definition force_reset :: "breaker \<Rightarrow> breaker_event list \<times> breaker" where
  "force_reset b = reset_breaker b"

record breaker_snapshot =
  bs_state :: breaker_state
  bs_failures :: int
  bs_slow :: int
  bs_calls :: int
  bs_window_ms :: int
  bs_remaining :: "int option"
  bs_last_failure :: "int option"
  bs_last_slow :: "int option"

definition breaker_snap :: "int \<Rightarrow> breaker \<Rightarrow> breaker_snapshot \<times> breaker" where
  "breaker_snap now b0 =
     (let b = check_transition now b0
      in (\<lparr>bs_state = cb_state b, bs_failures = cb_failures b, bs_slow = slow_count b,
           bs_calls = int (length (cb_window b)), bs_window_ms = bc_window_ms (cb_config b),
           bs_remaining = (case cb_opened b of None \<Rightarrow> None
             | Some t \<Rightarrow> if cb_state b = Open then Some (max 0 (bc_cooldown_ms (cb_config b) - (now - t)))
                         else None),
           bs_last_failure = cb_last_failure b, bs_last_slow = cb_last_slow b\<rparr>, b))"

section \<open>Sequences of operations\<close>

datatype breaker_op = BeforeCall int bool | CanProceed int | AfterCall int int bool bool | ForceOpen int
  | ForceReset | SetEnabled bool | Snap int

fun breaker_step :: "breaker_op \<Rightarrow> breaker \<Rightarrow> breaker" where
  "breaker_step (BeforeCall now by0) b = snd (before_call now by0 b)"
| "breaker_step (CanProceed now) b = snd (can_proceed now b)"
| "breaker_step (AfterCall now dur failed by0) b = snd (after_call now dur failed by0 b)"
| "breaker_step (ForceOpen now) b = snd (force_open now b)"
| "breaker_step ForceReset b = snd (force_reset b)"
| "breaker_step (SetEnabled e) b = snd (set_enabled e b)"
| "breaker_step (Snap now) b = snd (breaker_snap now b)"

text \<open>The time of opening is set exactly while the breaker is open; a closed breaker has fewer
  failures in a row than the limit, and its window holds fewer calls than the two limits together.\<close>

definition breaker_inv :: "breaker \<Rightarrow> bool" where
  "breaker_inv b =
     ((cb_opened b \<noteq> None \<longleftrightarrow> cb_state b = Open) \<and>
      (cb_state b = Closed \<longrightarrow>
         0 \<le> cb_failures b \<and> (cb_failures b < bc_max_failures (cb_config b) \<or> cb_failures b = 0) \<and>
         (0 < bc_max_calls (cb_config b) \<longrightarrow>
           int (length (cb_window b)) < bc_max_calls (cb_config b) + cb_failures b)))"

lemmas breaker_defs = trip_def reset_breaker_def check_transition_def prune_window_def

lemma breaker_inv_new: "breaker_inv (new_breaker c)"
  by (simp add: breaker_inv_def new_breaker_def)

lemma breaker_inv_reset: "breaker_inv (snd (reset_breaker b))"
  by (simp add: breaker_inv_def reset_breaker_def)

lemma breaker_inv_trip: "breaker_inv b \<or> cb_state b \<noteq> Open \<Longrightarrow> breaker_inv (snd (trip now b))"
  by (auto simp: breaker_inv_def trip_def)

lemma breaker_inv_check: "breaker_inv b \<Longrightarrow> breaker_inv (check_transition now b)"
  by (auto simp: breaker_inv_def check_transition_def split: option.splits)


lemma length_prune: "length (cb_window (prune_window now b)) \<le> length (cb_window b)"
  by (simp add: prune_window_def)

lemma after_success_state:
  "cb_state (snd (after_success now slow b)) =
     (if cb_state b = Open \<or> (slow \<and> bc_max_slow (cb_config b) \<le> slow_count b) \<or>
         bc_max_calls (cb_config b) \<le> int (length (cb_window b)) then Open else cb_state b)"
  by (auto simp: after_success_def trip_def slow_count_def Let_def)

lemma after_success_kept:
  "cb_state (snd (after_success now slow b)) = Closed \<Longrightarrow>
     cb_window (snd (after_success now slow b)) = cb_window b \<and> cb_failures (snd (after_success now slow b)) = 0"
  by (auto simp: after_success_def trip_def slow_count_def Let_def split: if_splits)

lemma trip_config [simp]: "cb_config (snd (trip now b)) = cb_config b"
  "cb_enabled (snd (trip now b)) = cb_enabled b"
  by (simp_all add: trip_def)

lemma after_success_config [simp]: "cb_config (snd (after_success now slow b)) = cb_config b"
  "cb_enabled (snd (after_success now slow b)) = cb_enabled b"
  by (simp_all add: after_success_def Let_def slow_count_def case_prod_beta)

lemma after_call_config [simp]: "cb_config (snd (after_call now d f by0 b)) = cb_config b"
  "cb_enabled (snd (after_call now d f by0 b)) = cb_enabled b"
  by (simp_all add: after_call_def Let_def reset_breaker_def prune_window_def)

lemma trip_opened: "(cb_opened b \<noteq> None \<longleftrightarrow> cb_state b = Open) \<Longrightarrow>
    cb_opened (snd (trip now b)) \<noteq> None \<longleftrightarrow> cb_state (snd (trip now b)) = Open"
  by (simp add: trip_def)

lemma after_success_opened: "(cb_opened b \<noteq> None \<longleftrightarrow> cb_state b = Open) \<Longrightarrow>
    cb_opened (snd (after_success now slow b)) \<noteq> None \<longleftrightarrow>
    cb_state (snd (after_success now slow b)) = Open"
  by (auto simp: after_success_def trip_def slow_count_def Let_def)

lemma breaker_inv_success:
  assumes "breaker_inv b \<or> cb_state b = Closed \<and> cb_opened b = None"
  shows "breaker_inv (snd (after_success now slow b))"
proof -
  have "cb_opened b \<noteq> None \<longleftrightarrow> cb_state b = Open" using assms by (auto simp: breaker_inv_def)
  from after_success_opened [OF this] show ?thesis
    using after_success_kept [of now slow b] after_success_state [of now slow b]
    unfolding breaker_inv_def by (auto split: if_splits)
qed

lemma breaker_inv_after: "breaker_inv b \<Longrightarrow> breaker_inv (snd (after_call now d f by0 b))"
proof -
  assume inv: "breaker_inv b"
  show ?thesis
  proof (cases "by0 \<or> \<not> cb_enabled b \<or> cb_state b = HalfOpen")
    case True
    with inv show ?thesis by (auto simp: after_call_def breaker_inv_reset intro!: breaker_inv_trip)
  next
    case False
    let ?p = "prune_window now b"
    have len: "int (length (cb_window ?p)) \<le> int (length (cb_window b))" using length_prune by simp
    have same: "cb_state ?p = cb_state b" "cb_opened ?p = cb_opened b" "cb_failures ?p = cb_failures b"
      "cb_config ?p = cb_config b" by (simp_all add: prune_window_def)
    show ?thesis
    proof (cases f)
      case True
      with False inv len same show ?thesis
        by (auto simp: after_call_def Let_def breaker_inv_def trip_def)
    next
      case f: False
      let ?b1 = "?p\<lparr>cb_window := cb_window ?p @ [\<lparr>cr_at = now, cr_failed = f, cr_slow =
        bc_slow_ms (cb_config b) \<le> d\<rparr>]\<rparr>"
      have "breaker_inv ?b1 \<or> cb_state ?b1 = Closed \<and> cb_opened ?b1 = None"
        using False inv same by (cases "cb_state b") (auto simp: breaker_inv_def)
      from breaker_inv_success [OF this] False f show ?thesis by (simp add: after_call_def Let_def)
    qed
  qed
qed

lemma breaker_inv_step: "breaker_inv b \<Longrightarrow> breaker_inv (breaker_step e b)"
proof (cases e)
  case (SetEnabled x)
  assume inv: "breaker_inv b"
  then have "breaker_inv (b\<lparr>cb_enabled := True\<rparr>)" by (simp add: breaker_inv_def)
  with inv show ?thesis by (simp add: SetEnabled set_enabled_def breaker_inv_reset)
qed (simp_all add: before_call_def can_proceed_def force_open_def force_reset_def breaker_snap_def Let_def
    breaker_inv_check breaker_inv_after breaker_inv_trip breaker_inv_reset)

interpretation breaker_contract: state_contract breaker_step breaker_inv
  by unfold_locales (rule breaker_inv_step)


section \<open>The gate\<close>

fun waiting :: "int \<Rightarrow> breaker_op \<Rightarrow> bool" where
  "waiting limit (BeforeCall now by0) = (now < limit)"
| "waiting limit (CanProceed now) = (now < limit)"
| "waiting limit (AfterCall now dur failed by0) = True"
| "waiting limit (ForceOpen now) = True"
| "waiting limit ForceReset = False"
| "waiting limit (SetEnabled e) = e"
| "waiting limit (Snap now) = (now < limit)"

fun admissions :: "int list \<Rightarrow> breaker \<Rightarrow> bool list" where
  "admissions [] b = []"
| "admissions (t # ts) b = (case before_call t False b of (ok, b') \<Rightarrow> ok # admissions ts b')"

definition open_since :: "int \<Rightarrow> breaker_config \<Rightarrow> breaker \<Rightarrow> bool" where
  "open_since t c b =
     (cb_state b = Open \<and> cb_opened b = Some t \<and> cb_enabled b \<and> cb_config b = c)"

lemma open_since_trip: "open_since t c b \<Longrightarrow> trip now b = ([], b)"
  by (simp add: open_since_def trip_def)

lemma open_since_update [simp]:
  "open_since t c (b\<lparr>cb_window := w\<rparr>) = open_since t c b"
  "open_since t c (b\<lparr>cb_failures := n\<rparr>) = open_since t c b"
  "open_since t c (b\<lparr>cb_last_failure := l\<rparr>) = open_since t c b"
  "open_since t c (b\<lparr>cb_last_slow := l\<rparr>) = open_since t c b"
  by (simp_all add: open_since_def)

lemma open_since_trip': "open_since t c b \<Longrightarrow> open_since t c (snd (trip now b))"
  by (simp add: open_since_trip)

lemma open_since_after: "open_since t c b \<Longrightarrow> open_since t c (snd (after_call now d f by0 b))"
proof -
  assume op: "open_since t c b"
  then have "cb_state b \<noteq> HalfOpen" by (simp add: open_since_def)
  with op show ?thesis
    by (auto simp: after_call_def after_success_def prune_window_def Let_def case_prod_beta
        intro!: open_since_trip')
qed

lemma open_since_step:
  "open_since t c b \<Longrightarrow> waiting (t + bc_cooldown_ms c) e \<Longrightarrow> open_since t c (breaker_step e b)"
proof (cases e)
  case (AfterCall now d f by0)
  assume "open_since t c b"
  then show ?thesis by (simp add: AfterCall open_since_after)
qed (auto simp: before_call_def can_proceed_def breaker_snap_def force_open_def set_enabled_def
    check_transition_def Let_def trip_def open_since_def)

lemma open_since_run:
  "open_since t c b \<Longrightarrow> list_all (waiting (t + bc_cooldown_ms c)) es \<Longrightarrow>
     open_since t c (fold breaker_step es b)"
  by (induction es arbitrary: b) (auto intro: open_since_step)

lemma half_open_admits: "cb_state b = HalfOpen \<Longrightarrow> admissions ts b = replicate (length ts) True"
  by (induction ts arbitrary: b)
    (auto simp: before_call_def check_transition_def Let_def split: option.splits)

text \<open>An open breaker lets nothing through until its cooldown is over, whatever is asked of it and
  whichever calls end in the meantime (short of a forced reset or of switching it off); at the end of
  the cooldown it lets a call through, and then every further one, until one of them has ended.\<close>

theorem cooldown_gate:
  assumes "open_since t c b" and "list_all (waiting (t + bc_cooldown_ms c)) es"
  shows "(fst (before_call now False (fold breaker_step es b)) \<longleftrightarrow> bc_cooldown_ms c \<le> now - t) \<and>
    (bc_cooldown_ms c \<le> now - t \<longrightarrow>
       admissions (now # ts) (fold breaker_step es b) = replicate (Suc (length ts)) True)"
proof -
  let ?b = "fold breaker_step es b"
  have op: "open_since t c ?b" using assms by (rule open_since_run)
  have "admissions (now # ts) ?b = replicate (Suc (length ts)) True" if "bc_cooldown_ms c \<le> now - t"
  proof -
    have "before_call now False ?b = (True, ?b\<lparr>cb_state := HalfOpen, cb_opened := None\<rparr>)"
      using op that by (auto simp: before_call_def check_transition_def open_since_def Let_def)
    then show ?thesis by (simp add: half_open_admits)
  qed
  with op show ?thesis by (auto simp: before_call_def check_transition_def open_since_def Let_def)
qed

definition failing_calls :: breaker where
  "failing_calls = fold breaker_step (replicate 5 (AfterCall 1000 20 True False))
     (new_breaker (breaker_config_of no_options))"

theorem cooldown_gate_witness:
  "\<not> fst (before_call 30999 False (fold breaker_step
       [BeforeCall 2000 False, AfterCall 2500 10 False False, Snap 3000] failing_calls)) \<and>
   admissions [31000, 31001, 31002] (fold breaker_step
       [BeforeCall 2000 False, AfterCall 2500 10 False False, Snap 3000] failing_calls) = [True, True, True]"
proof -
  let ?es = "[BeforeCall 2000 False, AfterCall 2500 10 False False, Snap 3000]"
  have "open_since 1000 (breaker_config_of no_options) failing_calls" by code_simp
  moreover have "list_all (waiting (1000 + bc_cooldown_ms (breaker_config_of no_options))) ?es" by code_simp
  moreover have "bc_cooldown_ms (breaker_config_of no_options) = 30000" by code_simp
  ultimately show ?thesis
    using cooldown_gate [of 1000 "breaker_config_of no_options" failing_calls ?es 30999 "[]"]
      cooldown_gate [of 1000 "breaker_config_of no_options" failing_calls ?es 31000 "[31001, 31002]"]
    by (simp add: numeral_3_eq_3)
qed

section \<open>When a closed breaker trips\<close>

text \<open>A finished call: when it ended, how long it took, whether it failed. The specification looks at
  the whole history; the code keeps a counter and a window.\<close>

type_synonym finished = "int \<times> int \<times> bool"

definition run_calls :: "finished list \<Rightarrow> breaker \<Rightarrow> breaker" where
  "run_calls h b = fold (\<lambda>(t, d, f) b. snd (after_call t d f False b)) h b"

definition recent :: "breaker_config \<Rightarrow> int \<Rightarrow> finished list \<Rightarrow> finished list" where
  "recent c now h = filter (\<lambda>(t, d, f). now - bc_window_ms c \<le> t) h"

definition streak :: "finished list \<Rightarrow> nat" where
  "streak h = length (takeWhile (\<lambda>(t, d, f). f) (rev h))"

definition trips_at :: "breaker_config \<Rightarrow> finished list \<Rightarrow> bool" where
  "trips_at c h =
     (case rev h of
        [] \<Rightarrow> False
      | (now, dur, failed) # _ \<Rightarrow>
          if failed then bc_max_failures c \<le> int (streak h)
          else (bc_slow_ms c \<le> dur \<and>
                bc_max_slow c \<le> int (length (filter (\<lambda>(t, d, f). bc_slow_ms c \<le> d) (recent c now h)))) \<or>
               bc_max_calls c \<le> int (length (recent c now h)))"

definition as_record :: "breaker_config \<Rightarrow> finished \<Rightarrow> call_record" where
  "as_record c x = (case x of (t, d, f) \<Rightarrow> \<lparr>cr_at = t, cr_failed = f, cr_slow = bc_slow_ms c \<le> d\<rparr>)"

definition tracks :: "breaker_config \<Rightarrow> finished list \<Rightarrow> breaker \<Rightarrow> bool" where
  "tracks c h b =
     (cb_state b = Closed \<and> cb_enabled b \<and> cb_config b = c \<and> cb_failures b = int (streak h) \<and>
      (case rev h of [] \<Rightarrow> cb_window b = []
       | (now, _) # _ \<Rightarrow> cb_window b = map (as_record c) (recent c now h)))"

lemma run_calls_snoc: "run_calls (h @ [(t, d, f)]) b = snd (after_call t d f False (run_calls h b))"
  by (simp add: run_calls_def)

lemma run_calls_open:
  "cb_state b = Open \<Longrightarrow> cb_state (run_calls h b) = Open"
proof (induction h arbitrary: b)
  case (Cons x h)
  have "cb_state (snd (after_call t d f False b)) = Open" for t d f
    using Cons.prems by (auto simp: after_call_def Let_def after_success_state trip_def prune_window_def)
  with Cons.IH show ?case by (cases x) (auto simp: run_calls_def)
qed (simp add: run_calls_def)

lemma prune_records:
  "filter (\<lambda>r. m \<le> cr_at r) (map (as_record c) h) = map (as_record c) (filter (\<lambda>(t, d, f). m \<le> t) h)"
  by (induction h) (auto simp: as_record_def)

lemma recent_later: "s \<le> now \<Longrightarrow> filter (\<lambda>(t, d, f). now - bc_window_ms c \<le> t) (recent c s h) = recent c now h"
  by (induction h) (auto simp: recent_def)

lemma pruned_window:
  assumes "tracks c h b" "\<forall>x \<in> set h. fst x \<le> now"
  shows "cb_window (prune_window now b) = map (as_record c) (recent c now h)"
proof (cases h rule: rev_cases)
  case Nil
  with assms show ?thesis by (simp add: tracks_def prune_window_def recent_def)
next
  case (snoc h' x)
  obtain s d f where x: "x = (s, d, f)" by (cases x)
  with assms snoc have "s \<le> now" "cb_window b = map (as_record c) (recent c s h)" "cb_config b = c"
    by (simp_all add: tracks_def)
  then show ?thesis by (simp add: prune_window_def prune_records recent_later)
qed


lemma streak_snoc: "streak (h @ [(t, d, f)]) = (if f then Suc (streak h) else 0)"
  by (simp add: streak_def)

lemma recent_snoc: "0 \<le> bc_window_ms c \<Longrightarrow> recent c t (h @ [(t, d, f)]) = recent c t h @ [(t, d, f)]"
  by (simp add: recent_def)

lemma slow_records:
  "length (filter cr_slow (map (as_record c) h)) = length (filter (\<lambda>(t, d, f). bc_slow_ms c \<le> d) h)"
  by (induction h) (auto simp: as_record_def)

lemma tracks_step:
  assumes tr: "tracks c h b" and le: "\<forall>x \<in> set h. fst x \<le> t" and w: "0 \<le> bc_window_ms c"
  shows "if trips_at c (h @ [(t, d, f)]) then cb_state (snd (after_call t d f False b)) = Open
    else tracks c (h @ [(t, d, f)]) (snd (after_call t d f False b))"
proof -
  let ?p = "prune_window t b"
  let ?b1 = "?p\<lparr>cb_window := cb_window ?p @ [\<lparr>cr_at = t, cr_failed = f, cr_slow = bc_slow_ms c \<le> d\<rparr>]\<rparr>"
  have b: "cb_state b = Closed" "cb_enabled b" "cb_config b = c" "cb_failures b = int (streak h)"
    using tr by (simp_all add: tracks_def)
  have win: "cb_window ?b1 = map (as_record c) (recent c t (h @ [(t, d, f)]))"
    using pruned_window [OF tr le] w by (simp add: recent_snoc as_record_def)
  have same: "cb_state ?b1 = Closed" "cb_enabled ?b1" "cb_config ?b1 = c" "cb_failures ?b1 = int (streak h)"
    using b by (simp_all add: prune_window_def)
  have call: "snd (after_call t d f False b) =
      (if f then snd (if bc_max_failures c \<le> int (streak h) + 1
         then trip t (?b1\<lparr>cb_failures := int (streak h) + 1, cb_last_failure := Some t\<rparr>)
         else ([], ?b1\<lparr>cb_failures := int (streak h) + 1, cb_last_failure := Some t\<rparr>))
       else snd (after_success t (bc_slow_ms c \<le> d) ?b1))"
    using b same by (simp add: after_call_def Let_def)
  show ?thesis
  proof (cases f)
    case True
    with call same win show ?thesis
      by (auto simp: trips_at_def tracks_def streak_snoc trip_def)
  next
    case False
    have slow: "slow_count ?b1 =
        int (length (filter (\<lambda>(t, d, f). bc_slow_ms c \<le> d) (recent c t (h @ [(t, d, f)]))))"
      unfolding slow_count_def win slow_records ..
    have len: "length (cb_window ?b1) = length (recent c t (h @ [(t, d, f)]))" unfolding win by simp
    have state: "cb_state (snd (after_success t (bc_slow_ms c \<le> d) ?b1)) =
        (if trips_at c (h @ [(t, d, f)]) then Open else Closed)"
      unfolding after_success_state slow len using same False by (simp add: trips_at_def)
    show ?thesis
    proof (cases "trips_at c (h @ [(t, d, f)])")
      case True
      with state call False show ?thesis by simp
    next
      case quiet: False
      with state have "cb_state (snd (after_success t (bc_slow_ms c \<le> d) ?b1)) = Closed" by simp
      from after_success_kept [OF this] this same win call quiet False show ?thesis
        by (simp add: tracks_def streak_snoc)
    qed
  qed
qed

lemma run_calls_tracks:
  assumes "0 \<le> bc_window_ms c"
  shows "sorted (map fst h) \<Longrightarrow>
    if \<exists>k \<le> length h. trips_at c (take k h) then cb_state (run_calls h (new_breaker c)) = Open
    else tracks c h (run_calls h (new_breaker c))"
proof (induction h rule: rev_induct)
  case Nil
  then show ?case by (simp add: trips_at_def tracks_def run_calls_def new_breaker_def streak_def)
next
  case (snoc x h)
  obtain t d f where x: "x = (t, d, f)" by (cases x)
  have ex: "(\<exists>k \<le> length (h @ [x]). trips_at c (take k (h @ [x]))) \<longleftrightarrow>
      (\<exists>k \<le> length h. trips_at c (take k h)) \<or> trips_at c (h @ [x])"
    by (auto simp: le_Suc_eq)
  show ?case
  proof (cases "\<exists>k \<le> length h. trips_at c (take k h)")
    case True
    with snoc have "cb_state (run_calls h (new_breaker c)) = Open" by (simp add: sorted_append)
    then have "cb_state (run_calls [x] (run_calls h (new_breaker c))) = Open" by (rule run_calls_open)
    with True ex show ?thesis by (simp add: run_calls_def)
  next
    case False
    with snoc have "tracks c h (run_calls h (new_breaker c))" "\<forall>y \<in> set h. fst y \<le> t"
      by (auto simp: sorted_append x)
    from tracks_step [OF this assms, of d f] False ex show ?thesis
      by (auto simp: x run_calls_snoc split: if_splits)
  qed
qed

text \<open>C40. The counter and the pruned window implement a rule about the whole history of calls since
  the breaker was closed: it trips at the first call that completes a run of failures of the
  limit's length, or is a slow success with the limit of slow calls in the window behind it, or is a
  success that fills the window; and it is still closed as long as there is no such call.\<close>

theorem closed_breaker_refines_history:
  assumes "0 \<le> bc_window_ms c" and "sorted (map fst h)"
  shows "cb_state (run_calls h (new_breaker c)) =
    (if \<exists>k \<le> length h. trips_at c (take k h) then Open else Closed)"
  using run_calls_tracks [OF assms] by (auto simp: tracks_def split: if_splits)

definition eager_config :: breaker_config where
  "eager_config = \<lparr>bc_max_failures = 2, bc_slow_ms = 100, bc_max_slow = 2, bc_window_ms = 1000,
     bc_max_calls = 4, bc_cooldown_ms = 50\<rparr>"

theorem closed_breaker_refines_history_witness:
  "cb_state (run_calls [(10, 5, True), (20, 200, False), (30, 300, False)] (new_breaker eager_config)) = Open"
proof -
  let ?h = "[(10, 5, True), (20, 200, False), (30, 300, False)] :: finished list"
  have "trips_at eager_config (take 3 ?h)" by code_simp
  then have "\<exists>k \<le> length ?h. trips_at eager_config (take k ?h)" by (intro exI [of _ 3]) simp
  moreover have "0 \<le> bc_window_ms eager_config" "sorted (map fst ?h)" by (simp_all add: eager_config_def)
  ultimately show ?thesis using closed_breaker_refines_history [of eager_config ?h] by simp
qed

section \<open>Slow calls one after the other\<close>

lemma sequential_recent:
  assumes "bc_window_ms c < bc_slow_ms c" "\<forall>x \<in> set h. fst x \<le> t - d" "bc_slow_ms c \<le> d"
  shows "recent c t h = []"
  using assms by (auto simp: recent_def filter_empty_conv)

text \<open>With the default settings no sequence of slow successful calls ever trips the breaker when
  each call starts after the one before it has ended: a call counts as slow after three minutes, and by
  the time the next one ends the last has left the window of one minute.\<close>

theorem sequential_slow_calls_never_trip:
  assumes "sorted_wrt (\<lambda>x y. fst x \<le> fst y - fst (snd y)) h"
    and "\<forall>x \<in> set h. 180000 \<le> fst (snd x) \<and> \<not> snd (snd x)"
  shows "cb_state (run_calls h (new_breaker (breaker_config_of no_options))) = Closed"
proof -
  let ?c = "breaker_config_of no_options"
  have c: "bc_window_ms ?c = 60000" "bc_slow_ms ?c = 180000" "bc_max_slow ?c = 3" "bc_max_calls ?c = 30"
    by (simp_all add: breaker_config_of_def no_options_def given_def)
  have "\<not> trips_at ?c (take k h)" for k
  proof (cases "take k h" rule: rev_cases)
    case Nil
    show ?thesis unfolding Nil by (simp add: trips_at_def)
  next
    case (snoc h' x)
    obtain t d f where x: "x = (t, d, f)" by (cases x)
    have "sorted_wrt (\<lambda>x y. fst x \<le> fst y - fst (snd y)) (take k h)" using assms(1) by (rule sorted_wrt_take)
    then have "\<forall>y \<in> set h'. fst y \<le> t - d" unfolding snoc x by (simp add: sorted_wrt_append)
    moreover have "(t, d, f) \<in> set h" using set_take_subset [of k h] unfolding snoc x by auto
    then have d: "180000 \<le> d" "\<not> f" using assms(2) by fastforce+
    ultimately have "recent ?c t h' = []" by (intro sequential_recent [of _ _ _ d]) (simp_all add: c)
    then show ?thesis unfolding snoc x using d by (simp add: trips_at_def recent_snoc c)
  qed
  moreover have "sorted (map fst h)"
    using assms(1)
    by (simp add: sorted_map) (rule sorted_wrt_mono_rel [rotated], assumption, use assms(2) in fastforce)
  ultimately show ?thesis using closed_breaker_refines_history [of ?c h] c(1) by simp
qed

theorem sequential_slow_calls_never_trip_witness:
  "cb_state (run_calls [(200000, 200000, False), (400000, 190000, False), (600000, 181000, False),
     (900000, 299000, False)] (new_breaker (breaker_config_of no_options))) = Closed"
  by (rule sequential_slow_calls_never_trip) simp_all

end
