(* ===== verification/Retry.thy ===== *)
theory Retry
  imports Js_Number Js_String Errors
begin

text \<open>
  Retrying provider calls: the policy of \<open>packages/core/src/execution/retry-policy.ts\<close>, the loop of
  \<open>packages/core/src/core/provider-runner.ts\<close>, and the classification of HTTP answers of
  \<open>packages/providers/src/error-parse.ts\<close>.

  What the provider does at each attempt, the random jitter and an abort during a wait are arguments.
  Tracing and logging are left out; the two events are in the log. Milliseconds are rationals.
\<close>

section \<open>Errors\<close>

record provider_error =
  pe_status :: int
  pe_retryable :: bool
  pe_provider :: string
  pe_type :: "string option"
  pe_message :: string
  pe_retry_after :: "rat option"

text \<open>What a call may throw: a provider's error, another error of the framework, any other error, or
  a value that is not an error, given by its text.\<close>

datatype thrown = ProviderErr provider_error | FrameworkErr error_code string | PlainErr string
  | OtherValue string

fun error_text :: "thrown \<Rightarrow> string" where
  "error_text (ProviderErr e) = pe_message e"
| "error_text (FrameworkErr c m) = m"
| "error_text (PlainErr m) = m"
| "error_text (OtherValue m) = m"

definition network_patterns :: "string list" where
  "network_patterns = [''ECONN'', ''ETIMEDOUT'', ''ETIME'', ''ENOTFOUND'', ''EAI_AGAIN'', ''fetch failed'']"

definition is_network_text :: "string \<Rightarrow> bool" where
  "is_network_text m = list_ex (\<lambda>p. str_includes (to_lower m) (to_lower p)) network_patterns"

definition is_retryable :: "int \<Rightarrow> string option \<Rightarrow> bool" where
  "is_retryable status ty =
     (if status = 0 then True
      else if status = 408 \<or> status = 429 \<or> status = 529 then True
      else if 500 \<le> status \<and> status < 600 then True
      else ty = Some ''overloaded_error'' \<or> ty = Some ''rate_limit_error'')"

definition http_error :: "string \<Rightarrow> int \<Rightarrow> string option \<Rightarrow> string \<Rightarrow> provider_error" where
  "http_error prov status ty msg = \<lparr>pe_status = status, pe_retryable = is_retryable status ty,
     pe_provider = prov, pe_type = ty, pe_message = msg, pe_retry_after = None\<rparr>"

text \<open>What the wire adapter throws when the request itself fails.\<close>

definition fetch_error :: "string \<Rightarrow> string \<Rightarrow> provider_error" where
  "fetch_error prov msg = \<lparr>pe_status = 0, pe_retryable = True, pe_provider = prov, pe_type = None,
     pe_message = msg, pe_retry_after = None\<rparr>"

section \<open>The policy\<close>

fun max_attempts :: "thrown \<Rightarrow> nat" where
  "max_attempts (ProviderErr e) =
     (if pe_status e = 429 then 5
      else if pe_status e = 529 then 3
      else if pe_status e = 599 then 5
      else if 500 \<le> pe_status e then 3
      else 0)"
| "max_attempts _ = 2"

fun should_retry :: "thrown \<Rightarrow> nat \<Rightarrow> bool" where
  "should_retry (ProviderErr e) attempt =
     (if \<not> pe_retryable e then False else attempt < max_attempts (ProviderErr e))"
| "should_retry t attempt = (if is_network_text (error_text t) then attempt < 2 else False)"

definition max_retry_after :: rat where
  "max_retry_after = 60000"

fun retry_hint :: "thrown \<Rightarrow> rat option" where
  "retry_hint (ProviderErr e) =
     (case pe_retry_after e of None \<Rightarrow> None | Some ms \<Rightarrow> if ms \<le> 0 then None else Some ms)"
| "retry_hint _ = None"

definition delay_ms :: "nat \<Rightarrow> thrown \<Rightarrow> nat \<Rightarrow> rat" where
  "delay_ms attempt t jitter =
     (case retry_hint t of
        Some hint \<Rightarrow> max 0 (min hint max_retry_after)
      | None \<Rightarrow> min 30000 (1000 * 2 ^ attempt + of_nat (jitter mod 1000)))"

section \<open>The loop\<close>

text \<open>\<open>Threw e aborted\<close>: the attempt threw \<open>e\<close>, and whether the signal was aborted by then.\<close>

datatype 'r attempt = Responded 'r | Threw thrown bool

record 'r provider_run =
  ru_attempt :: "nat \<Rightarrow> 'r attempt"
  ru_jitter :: "nat \<Rightarrow> nat"
  ru_abort_wait :: "nat \<Rightarrow> bool"

datatype run_event = Attempt nat | RetryEvent nat int int | Wait int | ErrorEvent int

datatype run_failure = Rethrown thrown | Wrapped thrown | AbortedWait

definition to_wrongstack :: "thrown \<Rightarrow> run_failure" where
  "to_wrongstack t = (case t of ProviderErr e \<Rightarrow> Rethrown t | FrameworkErr c m \<Rightarrow> Rethrown t | _ \<Rightarrow> Wrapped t)"

lemma max_attempts_le: "max_attempts t \<le> 5"
  by (cases t) simp_all

lemma should_retry_bound: "should_retry t a \<Longrightarrow> a < max_attempts t"
  by (cases t) (simp_all split: if_splits)

text \<open>The loop ends because the policy does: an attempt is only repeated below its bound.\<close>

function provider_loop :: "'r provider_run \<Rightarrow> nat \<Rightarrow> (run_failure + 'r) \<times> run_event list" where
  "provider_loop p a =
     (case ru_attempt p a of
        Responded r \<Rightarrow> (Inr r, [Attempt a])
      | Threw t aborted \<Rightarrow>
          if aborted then (Inl (Rethrown t), [Attempt a])
          else if \<not> should_retry t a
          then (Inl (to_wrongstack t), Attempt a #
            (case t of ProviderErr e \<Rightarrow> [ErrorEvent (pe_status e)] | _ \<Rightarrow> []))
          else
            (let delay = js_round (delay_ms a t (ru_jitter p a));
                 es = Attempt a # (case t of ProviderErr e \<Rightarrow> [RetryEvent (a + 1) delay (pe_status e)] | _ \<Rightarrow> [])
                   @ [Wait delay]
             in if ru_abort_wait p a then (Inl AbortedWait, es)
                else (case provider_loop p (a + 1) of (r, es') \<Rightarrow> (r, es @ es'))))"
  by pat_completeness auto
termination
proof (relation "measure (\<lambda>(p, a). 5 - a)")
  show "wf (measure (\<lambda>(p, a). 5 - a))" by simp
next
  fix p :: "'r provider_run" and a t aborted delay es
  assume "\<not> \<not> should_retry t a"
  then have "a < 5" using should_retry_bound [of t a] max_attempts_le [of t] by simp
  then show "((p, a + 1), p, a) \<in> measure (\<lambda>(p, a). 5 - a)" by simp
qed

declare provider_loop.simps [simp del]

definition run_provider :: "'r provider_run \<Rightarrow> (run_failure + 'r) \<times> run_event list" where
  "run_provider p = provider_loop p 0"

section \<open>Bounds\<close>

definition attempts :: "run_event list \<Rightarrow> nat list" where
  "attempts es = concat (map (\<lambda>e. case e of Attempt a \<Rightarrow> [a] | _ \<Rightarrow> []) es)"

definition waits :: "run_event list \<Rightarrow> int list" where
  "waits es = concat (map (\<lambda>e. case e of Wait d \<Rightarrow> [d] | _ \<Rightarrow> []) es)"

lemma log_simps [simp]:
  "attempts [] = []" "attempts (Attempt a # es) = a # attempts es"
  "attempts (RetryEvent n d s # es) = attempts es" "attempts (Wait d # es) = attempts es"
  "attempts (ErrorEvent s # es) = attempts es"
  "waits [] = []" "waits (Attempt a # es) = waits es" "waits (RetryEvent n d s # es) = waits es"
  "waits (Wait d # es) = d # waits es" "waits (ErrorEvent s # es) = waits es"
  "attempts (es @ fs) = attempts es @ attempts fs" "waits (es @ fs) = waits es @ waits fs"
  by (simp_all add: attempts_def waits_def)

lemma delay_bounds: "0 \<le> js_round (delay_ms a t j)" "js_round (delay_ms a t j) \<le> 60000"
proof -
  have "of_int 0 \<le> delay_ms a t j \<and> delay_ms a t j \<le> of_int 60000"
    by (auto simp: delay_ms_def max_retry_after_def split: option.splits)
  then show "0 \<le> js_round (delay_ms a t j)" "js_round (delay_ms a t j) \<le> 60000"
    using js_round_bounds by blast+
qed


lemma waits_retry [simp]:
  "waits (case t of ProviderErr e \<Rightarrow> [RetryEvent n d (pe_status e)] | _ \<Rightarrow> []) = []"
  "attempts (case t of ProviderErr e \<Rightarrow> [RetryEvent n d (pe_status e)] | _ \<Rightarrow> []) = []"
  "waits (case t of ProviderErr e \<Rightarrow> [ErrorEvent (pe_status e)] | _ \<Rightarrow> []) = []"
  "attempts (case t of ProviderErr e \<Rightarrow> [ErrorEvent (pe_status e)] | _ \<Rightarrow> []) = []"
  by (cases t; simp)+

definition bounded_log :: "nat \<Rightarrow> run_event list \<Rightarrow> bool" where
  "bounded_log a es =
     (attempts es = [a..<a + length (attempts es)] \<and> a + length (attempts es) \<le> max 6 (a + 1) \<and>
      a + length (waits es) \<le> max 5 a \<and> length (attempts es) \<le> length (waits es) + 1 \<and>
      list_all (\<lambda>d. 0 \<le> d \<and> d \<le> 60000) (waits es))"

lemma upt_extend:
  assumes "xs = [Suc a..<Suc a + length xs]"
  shows "a # xs = [a..<a + length (a # xs)]"
proof -
  have "[a..<a + length (a # xs)] = a # [Suc a..<Suc a + length xs]" by (subst upt_conv_Cons) simp_all
  then show ?thesis by (simp only: assms [symmetric])
qed

lemma provider_loop_bounded: "bounded_log a (snd (provider_loop p a))"
proof (induction p a rule: provider_loop.induct)
  case (1 p a)
  show ?case
  proof (cases "ru_attempt p a")
    case (Responded r)
    then show ?thesis by (simp add: provider_loop.simps [of p a] bounded_log_def)
  next
    case (Threw t aborted)
    show ?thesis
    proof (cases "aborted \<or> \<not> should_retry t a")
      case True
      with Threw show ?thesis by (auto simp: provider_loop.simps [of p a] bounded_log_def)
    next
      case False
      then have a: "a < 5" using should_retry_bound [of t a] max_attempts_le [of t] by simp
      let ?d = "js_round (delay_ms a t (ru_jitter p a))"
      show ?thesis
      proof (cases "ru_abort_wait p a")
        case True
        with False Threw a show ?thesis
          by (simp add: provider_loop.simps [of p a] bounded_log_def Let_def delay_bounds)
      next
        case go: False
        obtain r es where rest: "provider_loop p (a + 1) = (r, es)" by fastforce
        have "bounded_log (a + 1) es"
          using "1.IH" [of t aborted] Threw False go rest by simp
        then have es: "attempts es = [Suc a..<Suc a + length (attempts es)]"
          "a + 1 + length (attempts es) \<le> max 6 (a + 2)" "Suc a + length (waits es) \<le> max 5 (Suc a)"
          "length (attempts es) \<le> length (waits es) + 1" "list_all (\<lambda>d. 0 \<le> d \<and> d \<le> 60000) (waits es)"
          by (simp_all add: bounded_log_def)
        have "attempts (snd (provider_loop p a)) = a # attempts es"
          "waits (snd (provider_loop p a)) = ?d # waits es"
          using Threw False go rest by (simp_all add: provider_loop.simps [of p a] Let_def)
        moreover have "a # attempts es = [a..<a + length (a # attempts es)]"
          using es(1) by (rule upt_extend)
        ultimately show ?thesis using es a by (simp add: bounded_log_def delay_bounds)
      qed
    qed
  qed
qed

text \<open>Whatever the provider does, a run makes at most six attempts, one after the other, with at
  most five waits, each of at most a minute; the loop,
  which has no bound of its own, always ends.\<close>

theorem provider_retries_bounded:
  "attempts (snd (run_provider p)) = [0..<length (attempts (snd (run_provider p)))] \<and>
   length (attempts (snd (run_provider p))) \<le> 6 \<and> length (waits (snd (run_provider p))) \<le> 5 \<and>
   list_all (\<lambda>d. 0 \<le> d \<and> d \<le> 60000) (waits (snd (run_provider p)))"
  using provider_loop_bounded [of 0 p] by (auto simp: run_provider_def bounded_log_def)

section \<open>Which errors are retried\<close>

lemma should_retry_provider:
  "should_retry (ProviderErr e) a \<longleftrightarrow> pe_retryable e \<and>
     (if pe_status e = 429 \<or> pe_status e = 599 then a < 5 else 500 \<le> pe_status e \<and> a < 3)"
  by auto

text \<open>The classification of a provider's answer and the retry policy disagree on exactly the answers
  below: with status 0 or 408, and below 500 with an overload or rate-limit type but another status than
  429, an error is marked retryable and never retried. A request that fails before any answer is thrown
  with status 0, so it ends the run at its first attempt, with whatever message, though the policy
  retries a plain error with a network message.\<close>

theorem retryable_but_never_retried:
  "(is_retryable s ty \<and> \<not> should_retry (ProviderErr (http_error prov s ty msg)) 0 \<longleftrightarrow>
      s = 0 \<or> s = 408 \<or>
      (s < 500 \<and> s \<noteq> 429 \<and> (ty = Some ''overloaded_error'' \<or> ty = Some ''rate_limit_error''))) \<and>
   run_provider (p\<lparr>ru_attempt := \<lambda>_. Threw (ProviderErr (fetch_error prov msg)) False\<rparr>) =
     (Inl (Rethrown (ProviderErr (fetch_error prov msg))), [Attempt 0, ErrorEvent 0]) \<and>
   (should_retry (PlainErr msg) a \<longleftrightarrow> is_network_text msg \<and> a < 2)"
proof -
  have "run_provider (p\<lparr>ru_attempt := \<lambda>_. Threw (ProviderErr (fetch_error prov msg)) False\<rparr>) =
     (Inl (Rethrown (ProviderErr (fetch_error prov msg))), [Attempt 0, ErrorEvent 0])"
    by (simp add: run_provider_def provider_loop.simps fetch_error_def to_wrongstack_def)
  moreover have "is_retryable s ty \<and> \<not> should_retry (ProviderErr (http_error prov s ty msg)) 0 \<longleftrightarrow>
      s = 0 \<or> s = 408 \<or>
      (s < 500 \<and> s \<noteq> 429 \<and> (ty = Some ''overloaded_error'' \<or> ty = Some ''rate_limit_error''))"
    by (simp add: http_error_def is_retryable_def)
  ultimately show ?thesis by simp
qed

end
