(* ===== verification/Error_Recovery.thy ===== *)
theory Error_Recovery
  imports Retry
begin

text \<open>
  Recovery from provider errors that were not retried, \<open>packages/core/src/execution/error-handler.ts\<close>:
  the classification of errors and the three strategies that are tried in order (compact the
  conversation, wait out a rate limit, switch to a cheaper model).

  The compactor's report and what the registry of models answers are arguments. A missing cost
  counts as infinite, as in the code.
\<close>

section \<open>Errors\<close>

text \<open>The parts of a provider's error that the retry policy does not look at.\<close>

record failed_call = provider_error +
  fc_body_message :: "string option"
  fc_raw :: "string option"

datatype failure =
    Abort_failure
  | Provider_failure failed_call
  | Plain_failure string
  | Not_an_error

definition overflow_patterns :: "string list" where
  "overflow_patterns = [''context'', ''too long'', ''tokens'', ''exceeds the context window'', ''context window'']"

text \<open>\<open>filter(Boolean)\<close> drops the missing and the empty parts.\<close>

definition error_parts :: "failed_call \<Rightarrow> string list" where
  "error_parts e =
     filter (\<lambda>s. s \<noteq> '''')
       (pe_message e # concat (map (\<lambda>o1. case o1 of None \<Rightarrow> [] | Some s \<Rightarrow> [s]) [fc_body_message e, pe_type e, fc_raw e]))"

definition is_context_overflow :: "failed_call \<Rightarrow> bool" where
  "is_context_overflow e =
     list_ex (\<lambda>p. str_includes (to_lower (js_join [CHR 0x0A] (error_parts e))) p) overflow_patterns"

datatype failure_kind =
    Rate_limit | Overloaded | Server_failure | Client_failure | Network_failure | Abort_kind
  | Context_overflow | Unknown_failure

definition classify_message :: "string \<Rightarrow> failure_kind \<times> bool" where
  "classify_message m = (if is_network_text m then (Network_failure, True) else (Unknown_failure, False))"

definition classify :: "failure \<Rightarrow> failure_kind \<times> bool" where
  "classify f =
     (case f of
        Abort_failure \<Rightarrow> (Abort_kind, False)
      | Provider_failure e \<Rightarrow>
          if pe_status e = 429 then (Rate_limit, True)
          else if pe_status e = 529 then (Overloaded, True)
          else if 500 \<le> pe_status e then (Server_failure, True)
          else if pe_status e = 413 \<or> is_context_overflow e then (Context_overflow, False)
          else if 400 \<le> pe_status e then (Client_failure, False)
          else classify_message (pe_message e)
      | Plain_failure m \<Rightarrow> classify_message m
      | Not_an_error \<Rightarrow> (Unknown_failure, False))"

section \<open>The strategies\<close>

record model_entry =
  md_id :: string
  md_cost :: "rat option"
  md_tools :: bool
  md_inputs :: "string list"

datatype compaction = Compacted nat nat | Compaction_failed

text \<open>What the strategies ask of their surroundings: the compactor, if there is one, and its report; the
  registry, if there is one; the provider of the running agent and its model; the models the registry
  lists for the provider, or that it throws or knows none; the models the configuration makes visible.\<close>

datatype lookup = Lookup_throws | Lookup_none | Lookup_found "model_entry list"

record surroundings =
  su_compaction :: "compaction option"
  su_registry :: bool
  su_provider :: "string option"
  su_lookup :: lookup
  su_model :: string
  su_visible :: "string list option"

datatype decision =
    Retry_compacted
  | Retry_after_wait rat
  | Retry_with_model string

definition compact_strategy :: "failed_call \<Rightarrow> surroundings \<Rightarrow> decision option" where
  "compact_strategy e su =
     (if pe_status e \<noteq> 413 \<and> \<not> is_context_overflow e then None
      else case su_compaction su of
             Some (Compacted before after) \<Rightarrow> if after < before then Some Retry_compacted else None
           | _ \<Rightarrow> None)"

definition rate_limit_strategy :: "failed_call \<Rightarrow> decision option" where
  "rate_limit_strategy e =
     (if pe_status e \<noteq> 429 then None
      else Some (Retry_after_wait
        (min 60000 (max 1000 (case pe_retry_after e of None \<Rightarrow> 5000 | Some ms \<Rightarrow> ms)))))"

definition cost_ge :: "rat option \<Rightarrow> rat option \<Rightarrow> bool" where
  "cost_ge a b = (case a of None \<Rightarrow> True | Some x \<Rightarrow> (case b of None \<Rightarrow> False | Some y \<Rightarrow> y \<le> x))"

definition cost_less :: "rat option \<Rightarrow> rat option \<Rightarrow> bool" where
  "cost_less a b = (\<not> cost_ge a b)"

definition sees_images :: "model_entry \<Rightarrow> bool" where
  "sees_images m = (''image'' \<in> set (md_inputs m))"

definition is_candidate :: "string list option \<Rightarrow> model_entry \<Rightarrow> model_entry \<Rightarrow> bool" where
  "is_candidate visible current m =
     (if (case visible of None \<Rightarrow> False | Some vs \<Rightarrow> md_id m \<notin> set vs) then False
      else if cost_ge (md_cost m) (md_cost current) then False
      else if md_tools current \<and> \<not> md_tools m then False
      else if sees_images current \<and> \<not> sees_images m then False
      else True)"

definition cheaper :: "model_entry \<Rightarrow> model_entry \<Rightarrow> model_entry" where
  "cheaper best m = (if cost_less (md_cost m) (md_cost best) then m else best)"

definition downgrade_strategy :: "failed_call \<Rightarrow> surroundings \<Rightarrow> decision option" where
  "downgrade_strategy e su =
     (if pe_status e \<noteq> 529 \<and> pe_status e < 500 then None
      else if \<not> su_registry su then None
      else case su_provider su of
             None \<Rightarrow> None
           | Some p \<Rightarrow>
               (case su_lookup su of
                  Lookup_found ms \<Rightarrow>
                    (case List.find (\<lambda>m. md_id m = su_model su) ms of
                       None \<Rightarrow> None
                     | Some current \<Rightarrow>
                         (case filter (is_candidate (su_visible su) current) ms of
                            [] \<Rightarrow> None
                          | c # cs \<Rightarrow> Some (Retry_with_model (md_id (foldl cheaper c cs)))))
                | _ \<Rightarrow> None))"

text \<open>\<open>recover\<close>: the first strategy with an answer. A failure that is not a provider's error falls through
  all of them.\<close>

definition recover :: "failure \<Rightarrow> surroundings \<Rightarrow> decision option" where
  "recover f su =
     (case f of
        Provider_failure e \<Rightarrow>
          (case compact_strategy e su of
             Some d \<Rightarrow> Some d
           | None \<Rightarrow>
               (case rate_limit_strategy e of
                  Some d \<Rightarrow> Some d
                | None \<Rightarrow> downgrade_strategy e su))
      | _ \<Rightarrow> None)"

section \<open>The cheapest candidate\<close>

lemma cost_ge_refl: "cost_ge a a"
  by (cases a) (simp_all add: cost_ge_def)

lemma cost_ge_trans: "cost_ge a b \<Longrightarrow> cost_ge b c \<Longrightarrow> cost_ge a c"
  by (auto simp: cost_ge_def split: option.splits)

lemma cost_less_trans: "cost_less a b \<Longrightarrow> cost_less b c \<Longrightarrow> cost_less a c"
  by (auto simp: cost_less_def cost_ge_def split: option.splits)

lemma cost_less_irrefl [simp]: "\<not> cost_less a a"
  by (simp add: cost_less_def cost_ge_refl)

lemma cheaper_fold:
  "foldl cheaper c cs \<in> set (c # cs) \<and> (\<forall>m \<in> set (c # cs). cost_ge (md_cost m) (md_cost (foldl cheaper c cs)))"
proof (induction cs rule: rev_induct)
  case (snoc d ds)
  let ?b = "foldl cheaper c ds"
  show ?case
  proof (cases "cost_less (md_cost d) (md_cost ?b)")
    case True
    then have b: "cost_ge (md_cost ?b) (md_cost d)" by (auto simp: cost_less_def cost_ge_def split: option.splits)
    have new: "foldl cheaper c (ds @ [d]) = d" using True by (simp add: cheaper_def)
    have "cost_ge (md_cost m) (md_cost d)" if "m \<in> set (c # ds @ [d])" for m
    proof (cases "m = d")
      case False
      with that snoc have "cost_ge (md_cost m) (md_cost ?b)" by auto
      then show ?thesis using b by (rule cost_ge_trans)
    qed (simp add: cost_ge_refl)
    then show ?thesis unfolding new by auto
  next
    case False
    then have new: "foldl cheaper c (ds @ [d]) = ?b" "cost_ge (md_cost d) (md_cost ?b)"
      by (simp_all add: cheaper_def cost_less_def)
    from snoc new(2) show ?thesis unfolding new(1) by auto
  qed
qed (simp add: cost_ge_refl)


section \<open>Switching models\<close>

lemma downgrade_sound:
  assumes "downgrade_strategy e su = Some d"
  obtains ms current m where "su_lookup su = Lookup_found ms" "List.find (\<lambda>m. md_id m = su_model su) ms = Some current"
    "m \<in> set ms" "is_candidate (su_visible su) current m" "d = Retry_with_model (md_id m)"
    "\<forall>m'\<in>set ms. is_candidate (su_visible su) current m' \<longrightarrow> cost_ge (md_cost m') (md_cost m)"
proof -
  obtain p ms current where s: "su_lookup su = Lookup_found ms" "List.find (\<lambda>m. md_id m = su_model su) ms = Some current"
    "su_provider su = Some p"
    using assms by (auto simp: downgrade_strategy_def split: if_splits option.splits lookup.splits)
  then obtain c cs where c: "filter (is_candidate (su_visible su) current) ms = c # cs"
    "d = Retry_with_model (md_id (foldl cheaper c cs))"
    using assms by (auto simp: downgrade_strategy_def split: if_splits list.splits)
  have "set (c # cs) = {m \<in> set ms. is_candidate (su_visible su) current m}"
    by (metis c(1) set_filter)
  with cheaper_fold [of c cs] that [OF s(1,2), of "foldl cheaper c cs"] c(2) show thesis by blast
qed

text \<open>When recovery switches models, the new model is one of the provider's and visible, strictly
  cheaper than the current one, no less able (tools, images), and the cheapest of all such models.\<close>

theorem downgrade_is_cheapest_fit:
  assumes "recover f su = Some (Retry_with_model new)" "su_lookup su = Lookup_found ms"
    "List.find (\<lambda>m. md_id m = su_model su) ms = Some current"
  shows "list_ex (\<lambda>m. md_id m = new \<and> is_candidate (su_visible su) current m \<and>
      list_all (\<lambda>m'. if is_candidate (su_visible su) current m' then cost_ge (md_cost m') (md_cost m) else True) ms) ms"
proof -
  obtain e where "downgrade_strategy e su = Some (Retry_with_model new)"
    using assms(1)
    by (auto simp: recover_def compact_strategy_def rate_limit_strategy_def split: failure.splits option.splits if_splits compaction.splits)
  then show ?thesis
    by (rule downgrade_sound) (use assms(2,3) in \<open>auto simp: list_ex_iff list_all_iff\<close>)
qed

definition server_error :: failed_call where
  "server_error =
     \<lparr>pe_status = 529, pe_retryable = True, pe_provider = ''p'', pe_type = None, pe_message = ''overloaded'',
      pe_retry_after = None, fc_body_message = None, fc_raw = None\<rparr>"

definition three_models :: "model_entry list" where
  "three_models =
     [\<lparr>md_id = ''big'', md_cost = Some 5, md_tools = True, md_inputs = []\<rparr>,
      \<lparr>md_id = ''mini'', md_cost = Some 1, md_tools = False, md_inputs = []\<rparr>,
      \<lparr>md_id = ''mid'', md_cost = Some 2, md_tools = True, md_inputs = []\<rparr>]"

definition three_around :: "string \<Rightarrow> surroundings" where
  "three_around m =
     \<lparr>su_compaction = None, su_registry = True, su_provider = Some ''p'', su_lookup = Lookup_found three_models,
      su_model = m, su_visible = None\<rparr>"

lemma server_error_switches: "recover (Provider_failure server_error) (three_around ''big'') = Some (Retry_with_model ''mid'')"
  by code_simp

theorem downgrade_is_cheapest_fit_witness:
  "list_ex (\<lambda>m. md_id m = ''mid'' \<and> is_candidate None (hd three_models) m) three_models"
proof -
  have found: "su_lookup (three_around ''big'') = Lookup_found three_models"
    "List.find (\<lambda>m. md_id m = su_model (three_around ''big'')) three_models = Some (hd three_models)"
    by (simp_all add: three_around_def three_models_def)
  from downgrade_is_cheapest_fit [OF server_error_switches this]
  show ?thesis by (auto simp: list_ex_iff three_around_def)
qed

section \<open>Switching ends\<close>

text \<open>The models a failure that persists leads through, for at most \<open>n\<close> recoveries.\<close>

fun downgrades :: "nat \<Rightarrow> failure \<Rightarrow> surroundings \<Rightarrow> string list" where
  "downgrades 0 f su = []"
| "downgrades (Suc n) f su =
     (case recover f su of
        Some (Retry_with_model m) \<Rightarrow> m # downgrades n f (su\<lparr>su_model := m\<rparr>)
      | _ \<Rightarrow> [])"

definition cost_of :: "model_entry list \<Rightarrow> string \<Rightarrow> rat option" where
  "cost_of ms i = (case List.find (\<lambda>m. md_id m = i) ms of None \<Rightarrow> None | Some m \<Rightarrow> md_cost m)"

lemma find_by_id: "distinct (map md_id ms) \<Longrightarrow> m \<in> set ms \<Longrightarrow> List.find (\<lambda>x. md_id x = md_id m) ms = Some m"
  by (induction ms) auto

lemma recover_cheaper:
  assumes "recover f su = Some (Retry_with_model new)" "su_lookup su = Lookup_found ms" "distinct (map md_id ms)"
  shows "new \<in> md_id ` set ms \<and> su_model su \<in> md_id ` set ms \<and> cost_less (cost_of ms new) (cost_of ms (su_model su))"
proof -
  obtain e where "downgrade_strategy e su = Some (Retry_with_model new)"
    using assms(1)
    by (auto simp: recover_def compact_strategy_def rate_limit_strategy_def split: failure.splits option.splits if_splits compaction.splits)
  then show ?thesis
  proof (rule downgrade_sound)
    fix ms' current m
    assume a: "su_lookup su = Lookup_found ms'" "List.find (\<lambda>m. md_id m = su_model su) ms' = Some current" "m \<in> set ms'"
      "is_candidate (su_visible su) current m" "Retry_with_model new = Retry_with_model (md_id m)"
    from a(4) have "cost_less (md_cost m) (md_cost current)" by (auto simp: is_candidate_def cost_less_def split: if_splits)
    moreover have "current \<in> set ms \<and> md_id current = su_model su"
      using a(1,2) assms(2) by (auto simp: find_Some_iff)
    ultimately show ?thesis
      using a find_by_id [OF assms(3)] assms(2) by (auto simp: cost_of_def intro!: image_eqI [of _ md_id current])
  qed
qed

lemma downgrades_descend:
  "su_lookup su = Lookup_found ms \<Longrightarrow> distinct (map md_id ms) \<Longrightarrow>
     set (downgrades n f su) \<subseteq> md_id ` set ms \<and>
     (downgrades n f su \<noteq> [] \<longrightarrow> su_model su \<in> md_id ` set ms) \<and>
     sorted_wrt (\<lambda>a b. cost_less (cost_of ms b) (cost_of ms a)) (su_model su # downgrades n f su)"
proof (induction n arbitrary: su)
  case (Suc n)
  show ?case
  proof (cases "\<exists>new. recover f su = Some (Retry_with_model new)")
    case True
    then obtain new where new: "recover f su = Some (Retry_with_model new)" by blast
    let ?su = "su\<lparr>su_model := new\<rparr>"
    note step = recover_cheaper [OF new Suc.prems]
    from Suc.IH [of ?su] Suc.prems have rest: "set (downgrades n f ?su) \<subseteq> md_id ` set ms"
      "sorted_wrt (\<lambda>a b. cost_less (cost_of ms b) (cost_of ms a)) (new # downgrades n f ?su)" by auto
    with step new show ?thesis by (auto intro: cost_less_trans)
  qed (auto split: option.splits decision.splits)
qed simp

lemma descending_distinct: "sorted_wrt (\<lambda>a b. cost_less (cost_of ms b) (cost_of ms a)) xs \<Longrightarrow> distinct xs"
  by (induction xs) auto

text \<open>C20. Switching ends: however often the provider keeps failing, recovery proposes fewer switches than
  the provider has models, and never returns to a model it left.\<close>

theorem downgrades_end:
  assumes "su_lookup su = Lookup_found ms" "distinct (map md_id ms)"
  shows "length (downgrades n f su) \<le> length ms - 1 \<and> distinct (su_model su # downgrades n f su)"
proof -
  note d = downgrades_descend [OF assms, of n f]
  then have dist: "distinct (su_model su # downgrades n f su)" by (blast intro: descending_distinct)
  show ?thesis
  proof (cases "downgrades n f su = []")
    case False
    with d have "set (su_model su # downgrades n f su) \<subseteq> set (map md_id ms)" by auto
    with dist have "length (su_model su # downgrades n f su) \<le> length (map md_id ms)"
      by (metis card_mono distinct_card List.finite_set assms(2))
    with dist show ?thesis by simp
  qed (use dist in simp)
qed

theorem downgrades_end_witness:
  "length (downgrades 10 (Provider_failure server_error) (three_around ''big'')) \<le> 2"
  using downgrades_end [of "three_around ''big''" three_models 10 "Provider_failure server_error"]
  by (simp add: three_around_def three_models_def)

section \<open>Rate limits\<close>

text \<open>A rate limit whose texts do not speak of tokens or context is always waited out, for between one second and
  one minute, and the wait is the provider's hint when it lies in between.\<close>

theorem rate_limit_waited_out:
  assumes "pe_status e = 429" "\<not> is_context_overflow e"
  shows "\<exists>w. recover (Provider_failure e) su = Some (Retry_after_wait w) \<and> 1000 \<le> w \<and> w \<le> 60000 \<and>
    (case pe_retry_after e of None \<Rightarrow> w = 5000 | Some ms \<Rightarrow> if 1000 \<le> ms \<and> ms \<le> 60000 then w = ms else True)"
  using assms by (auto simp: recover_def compact_strategy_def rate_limit_strategy_def split: option.split)

definition tpm_error :: failed_call where
  "tpm_error =
     \<lparr>pe_status = 429, pe_retryable = True, pe_provider = ''openai'', pe_type = None,
      pe_message = ''Rate limit reached on tokens per min'', pe_retry_after = Some 20000,
      fc_body_message = None, fc_raw = None\<rparr>"

theorem rate_limit_waited_out_witness:
  "\<exists>w. recover (Provider_failure (tpm_error\<lparr>pe_message := ''slow down''\<rparr>)) (three_around ''big'') =
     Some (Retry_after_wait w) \<and> w = 20000"
proof -
  have "pe_status (tpm_error\<lparr>pe_message := ''slow down''\<rparr>) = 429"
    "\<not> is_context_overflow (tpm_error\<lparr>pe_message := ''slow down''\<rparr>)"
    by code_simp+
  from rate_limit_waited_out [OF this, of "three_around ''big''"] show ?thesis by (auto simp: tpm_error_def)
qed

text \<open>A rate limit counted in tokens is taken for an overflow of the context: the conversation is
  compacted and the request repeated at once, although the provider asked to wait and the same error is
  classified as a rate limit.\<close>

theorem token_limit_compacts:
  "if after < before then
     recover (Provider_failure tpm_error) ((three_around m)\<lparr>su_compaction := Some (Compacted before after)\<rparr>) = Some Retry_compacted \<and>
     classify (Provider_failure tpm_error) = (Rate_limit, True)
   else True"
proof -
  have "is_context_overflow tpm_error" by code_simp
  then show ?thesis by (simp add: recover_def compact_strategy_def classify_def tpm_error_def)
qed

section \<open>The two classifications\<close>

text \<open>Of the errors of HTTP answers, the handler's classification and the providers' disagree about
  being retryable exactly for requests that timed out (408), for status zero and for statuses from 600 on.\<close>

theorem classifications_agree_except:
  assumes "pe_retryable e = is_retryable (pe_status e) None" "\<not> is_network_text (pe_message e)"
  shows "(snd (classify (Provider_failure e)) = pe_retryable e) =
    (pe_status e \<noteq> 0 \<and> pe_status e \<noteq> 408 \<and> pe_status e < 600)"
  using assms by (auto simp: classify_def classify_message_def is_retryable_def)

theorem classifications_agree_except_witness:
  "snd (classify (Provider_failure (server_error\<lparr>pe_status := 408\<rparr>))) \<noteq> is_retryable 408 None"
proof -
  let ?e = "server_error\<lparr>pe_status := 408\<rparr>"
  have "pe_retryable ?e = is_retryable (pe_status ?e) None" "\<not> is_network_text (pe_message ?e)" by code_simp+
  from classifications_agree_except [OF this] show ?thesis by (simp add: server_error_def is_retryable_def)
qed

end
