(* ===== verification/Fallback_Model.thy ===== *)
theory Fallback_Model
  imports Prelude Js_String Complex_Main "HOL-Library.Sublist"
begin

text \<open>
  The fallback to other models when the configured one fails, \<open>packages/core/src/core/fallback-model.ts\<close>:
  references to models, the chain derived from the configuration, and the extension of the provider
  runner that rotates through the chain and keeps a failing primary model out for a while.

  The environment variables that are set, the locale's order of names, the building of providers and
  the outcome of each call are arguments; times are rationals. The host's callback on a switch,
  events and logging are left out.
\<close>

section \<open>References\<close>

record model_ref =
  mr_provider :: "string option"
  mr_model :: string

definition parse_model_ref :: "string \<Rightarrow> model_ref" where
  "parse_model_ref ref =
     (let trimmed = js_trim ref
      in case index_of_char CHR ''/'' trimmed of
           Some i \<Rightarrow>
             \<lparr>mr_provider = (if take i trimmed = '''' then None else Some (take i trimmed)),
              mr_model = js_trim (drop (i + 1) trimmed)\<rparr>
         | None \<Rightarrow>
             (case js_words [] trimmed of
                p # w # ws \<Rightarrow> \<lparr>mr_provider = Some p, mr_model = js_join '' '' (w # ws)\<rparr>
              | _ \<Rightarrow> \<lparr>mr_provider = None, mr_model = trimmed\<rparr>))"

definition format_model_ref :: "model_ref \<Rightarrow> string option \<Rightarrow> string" where
  "format_model_ref r dflt =
     (case (case mr_provider r of None \<Rightarrow> dflt | Some p \<Rightarrow> Some p) of
        None \<Rightarrow> mr_model r
      | Some p \<Rightarrow> if p = '''' then mr_model r else p @ ''/'' @ mr_model r)"

definition normalize_model_ref :: "string \<Rightarrow> string option \<Rightarrow> string" where
  "normalize_model_ref ref dflt = format_model_ref (parse_model_ref ref) dflt"

section \<open>The chain\<close>

record provider_entry =
  pc_key :: "string option"
  pc_keys :: "string list"
  pc_env :: "string list"
  pc_models :: "string list option"

record fallback_config =
  fm_provider :: string
  fm_model :: string
  fm_providers :: "(string, provider_entry) jsmap"
  fm_favorites :: "string list"
  fm_favorites_only :: bool
  fm_fallback :: "string list"
  fm_auto_off :: bool
  fm_profiles :: "(string, string list) jsmap"

definition fallback_profile_chain :: "fallback_config \<Rightarrow> string option \<Rightarrow> string list" where
  "fallback_profile_chain cfg name =
     (case name of
        None \<Rightarrow> []
      | Some n \<Rightarrow>
          if n = '''' then []
          else (case jm_get (fm_profiles cfg) n of
                  None \<Rightarrow> []
                | Some chain \<Rightarrow> filter (\<lambda>ref. mr_model (parse_model_ref ref) \<noteq> '''') chain))"

text \<open>\<open>env\<close>: the environment variables that are set and not empty.\<close>

definition provider_has_key :: "(string \<Rightarrow> bool) \<Rightarrow> provider_entry option \<Rightarrow> bool" where
  "provider_has_key env e =
     (case e of
        None \<Rightarrow> False
      | Some p \<Rightarrow>
          (case pc_key p of None \<Rightarrow> False | Some k \<Rightarrow> k \<noteq> '''') \<or> list_ex (\<lambda>k. k \<noteq> '''') (pc_keys p) \<or>
          list_ex env (pc_env p))"

definition smart_default_max :: nat where "smart_default_max = 4"

record chain_state =
  cs_seen :: "string list"
  cs_favorites :: "string list"
  cs_same :: "string list"
  cs_cross :: "string list"

definition favorite_set :: "fallback_config \<Rightarrow> string list" where
  "favorite_set cfg = map (\<lambda>ref. normalize_model_ref ref (Some (fm_provider cfg))) (fm_favorites cfg)"

definition consider_model :: "fallback_config \<Rightarrow> string \<Rightarrow> string \<Rightarrow> chain_state \<Rightarrow> chain_state" where
  "consider_model cfg i m st =
     (let ref = i @ ''/'' @ m
      in if i = fm_provider cfg \<and> m = fm_model cfg then st
         else if ref \<in> set (cs_seen st) then st
         else
           let st1 = st\<lparr>cs_seen := js_add ref (cs_seen st)\<rparr>
           in if ref \<in> set (favorite_set cfg) then st1\<lparr>cs_favorites := cs_favorites st1 @ [ref]\<rparr>
              else if fm_favorites_only cfg \<and> favorite_set cfg \<noteq> [] then st1
              else if i = fm_provider cfg then st1\<lparr>cs_same := cs_same st1 @ [ref]\<rparr>
              else st1\<lparr>cs_cross := cs_cross st1 @ [ref]\<rparr>)"

definition consider_provider :: "(string \<Rightarrow> bool) \<Rightarrow> fallback_config \<Rightarrow> string \<Rightarrow> chain_state \<Rightarrow> chain_state" where
  "consider_provider env cfg i st =
     (let entry = jm_get (fm_providers cfg) i
      in if \<not> provider_has_key env entry then st
         else fold (consider_model cfg i)
                (case entry of None \<Rightarrow> [] | Some p \<Rightarrow> (case pc_models p of None \<Rightarrow> [] | Some ms \<Rightarrow> ms)) st)"

text \<open>The comparison of the sort puts the leader's provider first and leaves the rest to the locale.\<close>

definition ordered_providers :: "(string list \<Rightarrow> string list) \<Rightarrow> fallback_config \<Rightarrow> string list" where
  "ordered_providers locale_sort cfg =
     filter (\<lambda>i. i = fm_provider cfg) (jm_keys (fm_providers cfg)) @
     locale_sort (filter (\<lambda>i. i \<noteq> fm_provider cfg) (jm_keys (fm_providers cfg)))"

definition smart_default_fallback_chain ::
  "(string \<Rightarrow> bool) \<Rightarrow> (string list \<Rightarrow> string list) \<Rightarrow> fallback_config \<Rightarrow> string list" where
  "smart_default_fallback_chain env locale_sort cfg =
     (let st = fold (consider_provider env cfg) (ordered_providers locale_sort cfg)
                 \<lparr>cs_seen = [], cs_favorites = [], cs_same = [], cs_cross = []\<rparr>
      in take smart_default_max (cs_favorites st @ cs_same st @ cs_cross st))"

definition explicit_ref_ok :: "fallback_config \<Rightarrow> string \<Rightarrow> bool" where
  "explicit_ref_ok cfg ref =
     (let parsed = parse_model_ref ref
      in if mr_model parsed = '''' then False
         else case jm_get (fm_providers cfg)
                     (case mr_provider parsed of None \<Rightarrow> fm_provider cfg | Some p \<Rightarrow> p) of
                None \<Rightarrow> True
              | Some e \<Rightarrow> (case pc_models e of None \<Rightarrow> True | Some ms \<Rightarrow> mr_model parsed \<in> set ms))"

definition effective_fallback_chain ::
  "(string \<Rightarrow> bool) \<Rightarrow> (string list \<Rightarrow> string list) \<Rightarrow> fallback_config \<Rightarrow> string list" where
  "effective_fallback_chain env locale_sort cfg =
     (let explicit = filter (explicit_ref_ok cfg) (fm_fallback cfg)
      in if explicit \<noteq> [] then explicit
         else if fm_auto_off cfg then []
         else smart_default_fallback_chain env locale_sort cfg)"

section \<open>The extension\<close>

datatype call_error = Stream_hang | Http_status int | Other_error string

definition should_fallback :: "call_error \<Rightarrow> int option" where
  "should_fallback e =
     (case e of
        Stream_hang \<Rightarrow> Some 599
      | Http_status s \<Rightarrow> if s = 0 then Some s else if s = 429 \<or> s = 529 \<or> 500 \<le> s then Some s else None
      | Other_error m \<Rightarrow> None)"

type_synonym target = "string \<times> string"

record ladder =
  fb_dirty :: bool
  fb_streak :: nat
  fb_blocked :: "target option"
  fb_until :: rat

definition fresh_ladder :: ladder where
  "fresh_ladder = \<lparr>fb_dirty = False, fb_streak = 0, fb_blocked = None, fb_until = 0\<rparr>"

text \<open>The two options, with the defaults of one and ten minutes.\<close>

record cooldowns =
  cd_base :: "rat option"
  cd_max :: "rat option"

definition cooldown_base :: "cooldowns \<Rightarrow> rat" where
  "cooldown_base cd = max 0 (case cd_base cd of None \<Rightarrow> 60000 | Some b \<Rightarrow> b)"

definition cooldown_max :: "cooldowns \<Rightarrow> rat" where
  "cooldown_max cd = max (cooldown_base cd) (case cd_max cd of None \<Rightarrow> 600000 | Some m \<Rightarrow> m)"

definition primary :: "fallback_config \<Rightarrow> target" where
  "primary cfg = (fm_provider cfg, fm_model cfg)"

definition in_cooldown :: "fallback_config \<Rightarrow> rat \<Rightarrow> ladder \<Rightarrow> bool" where
  "in_cooldown cfg now l = (fb_blocked l = Some (primary cfg) \<and> now < fb_until l)"

definition mark_failure :: "cooldowns \<Rightarrow> fallback_config \<Rightarrow> rat \<Rightarrow> ladder \<Rightarrow> ladder" where
  "mark_failure cd cfg now l =
     (let streak = (if fb_blocked l = Some (primary cfg) then fb_streak l + 1 else 1);
          l1 = l\<lparr>fb_streak := streak, fb_blocked := Some (primary cfg)\<rparr>
      in if cooldown_base cd \<le> 0 then l1\<lparr>fb_until := 0\<rparr>
         else l1\<lparr>fb_until := now + min (cooldown_max cd) (cooldown_base cd * 2 ^ (streak - 1))\<rparr>)"

definition reset_ladder :: "fallback_config \<Rightarrow> ladder \<Rightarrow> ladder" where
  "reset_ladder cfg l =
     (if fb_blocked l \<noteq> Some (primary cfg) then l
      else l\<lparr>fb_streak := 0, fb_blocked := None, fb_until := 0\<rparr>)"

text \<open>\<open>beforeRun\<close>: the live target is the provider the context holds, by its own id, and the model.
  \<open>build p m\<close> is the id of the provider that is built, or nothing when that throws.\<close>

definition before_run ::
  "cooldowns \<Rightarrow> fallback_config \<Rightarrow> (string \<Rightarrow> string \<Rightarrow> string option) \<Rightarrow> rat \<Rightarrow> ladder \<times> target \<Rightarrow> ladder \<times> target" where
  "before_run cd cfg build now s =
     (let l = fst s
      in if \<not> fb_dirty l then s
         else if in_cooldown cfg now l then s
         else case build (fm_provider cfg) (fm_model cfg) of
                None \<Rightarrow> (mark_failure cd cfg now l, snd s)
              | Some p \<Rightarrow> (l\<lparr>fb_until := 0, fb_dirty := False\<rparr>, (p, fm_model cfg)))"

record rotation =
  ro_ladder :: ladder
  ro_live :: target
  ro_calls :: "target list"
  ro_error :: call_error

datatype rotation_step = Skip | Stop_rotation | Attempt target

text \<open>What the loop does with one entry of the chain.\<close>

definition consider_entry ::
  "fallback_config \<Rightarrow> (string \<Rightarrow> string \<Rightarrow> string option) \<Rightarrow> rat \<Rightarrow> string \<Rightarrow> rotation \<Rightarrow> rotation_step" where
  "consider_entry cfg build now ref ro =
     (if should_fallback (ro_error ro) = None then Stop_rotation
      else
        let parsed = parse_model_ref ref;
            p = (case mr_provider parsed of None \<Rightarrow> fm_provider cfg | Some p \<Rightarrow> p)
        in if mr_model parsed = '''' then Skip
           else if (p, mr_model parsed) = ro_live ro then Skip
           else if in_cooldown cfg now (ro_ladder ro) \<and> (p, mr_model parsed) = primary cfg then Skip
           else case build p (mr_model parsed) of
                  None \<Rightarrow> Skip
                | Some built \<Rightarrow> Attempt (built, mr_model parsed))"

text \<open>\<open>clock i\<close> is the time when the entry \<open>i\<close> is considered, \<open>inner n t\<close> the outcome of the call \<open>n\<close> to
  the target \<open>t\<close>: nothing when it succeeds.\<close>

fun rotate ::
  "fallback_config \<Rightarrow> (string \<Rightarrow> string \<Rightarrow> string option) \<Rightarrow> (nat \<Rightarrow> rat) \<Rightarrow> (nat \<Rightarrow> target \<Rightarrow> call_error option) \<Rightarrow>
     nat \<Rightarrow> string list \<Rightarrow> rotation \<Rightarrow> call_error option \<times> rotation" where
  "rotate cfg build clock inner i [] ro = (Some (ro_error ro), ro)"
| "rotate cfg build clock inner i (ref # refs) ro =
     (case consider_entry cfg build (clock i) ref ro of
        Stop_rotation \<Rightarrow> (Some (ro_error ro), ro)
      | Skip \<Rightarrow> rotate cfg build clock inner (i + 1) refs ro
      | Attempt t \<Rightarrow>
          let ro1 = ro\<lparr>ro_ladder := (ro_ladder ro)\<lparr>fb_dirty := True\<rparr>, ro_live := t, ro_calls := ro_calls ro @ [t]\<rparr>
          in case inner (length (ro_calls ro)) t of
               None \<Rightarrow> (None, ro1)
             | Some e \<Rightarrow> rotate cfg build clock inner (i + 1) refs (ro1\<lparr>ro_error := e\<rparr>))"

text \<open>\<open>wrapProviderRunner\<close> with its chain: the error thrown, if any, and the state and calls.\<close>

definition run_wrapped ::
  "cooldowns \<Rightarrow> fallback_config \<Rightarrow> (string \<Rightarrow> string \<Rightarrow> string option) \<Rightarrow> rat \<Rightarrow> (nat \<Rightarrow> rat) \<Rightarrow>
     (nat \<Rightarrow> target \<Rightarrow> call_error option) \<Rightarrow> string list \<Rightarrow> ladder \<times> target \<Rightarrow>
     call_error option \<times> ladder \<times> target \<times> target list" where
  "run_wrapped cd cfg build now clock inner chain s =
     (case s of (l, live) \<Rightarrow>
        case inner 0 live of
          None \<Rightarrow> (None, if live = primary cfg then reset_ladder cfg l else l, live, [live])
        | Some e \<Rightarrow>
            let l1 = (if should_fallback e \<noteq> None \<and> live = primary cfg then mark_failure cd cfg now l else l)
            in case rotate cfg build clock inner 0 chain
                      \<lparr>ro_ladder = l1, ro_live = live, ro_calls = [live], ro_error = e\<rparr> of
                 (res, ro) \<Rightarrow> (res, ro_ladder ro, ro_live ro, ro_calls ro))"


definition wrap_provider_runner ::
  "(string \<Rightarrow> bool) \<Rightarrow> (string list \<Rightarrow> string list) \<Rightarrow> cooldowns \<Rightarrow> fallback_config \<Rightarrow>
     (string \<Rightarrow> string \<Rightarrow> string option) \<Rightarrow> rat \<Rightarrow> (nat \<Rightarrow> rat) \<Rightarrow> (nat \<Rightarrow> target \<Rightarrow> call_error option) \<Rightarrow>
     ladder \<times> target \<Rightarrow> call_error option \<times> ladder \<times> target \<times> target list" where
  "wrap_provider_runner env locale_sort cd cfg build now clock inner s =
     run_wrapped cd cfg build now clock inner (effective_fallback_chain env locale_sort cfg) s"

section \<open>Rotation\<close>

definition fallback_worthy :: "call_error option \<Rightarrow> bool" where
  "fallback_worthy e = (case e of None \<Rightarrow> False | Some x \<Rightarrow> should_fallback x \<noteq> None)"

text \<open>The calls so far: all but the last failed in a way that is worth a fallback, and the last is the
  one the loop is at.\<close>

definition rotating :: "(nat \<Rightarrow> target \<Rightarrow> call_error option) \<Rightarrow> rotation \<Rightarrow> bool" where
  "rotating inner ro =
     (ro_calls ro \<noteq> [] \<and> ro_live ro = last (ro_calls ro) \<and>
      inner (length (ro_calls ro) - 1) (ro_live ro) = Some (ro_error ro) \<and>
      list_all (\<lambda>i. fallback_worthy (inner i (ro_calls ro ! i))) [0..<length (ro_calls ro) - 1])"

definition outcome_ok ::
  "(nat \<Rightarrow> target \<Rightarrow> call_error option) \<Rightarrow> call_error option \<Rightarrow> target \<Rightarrow> target list \<Rightarrow> bool" where
  "outcome_ok inner res live calls =
     (calls \<noteq> [] \<and> live = last calls \<and> res = inner (length calls - 1) live \<and>
      list_all (\<lambda>i. fallback_worthy (inner i (calls ! i))) [0..<length calls - 1])"

lemma rotating_outcome: "rotating inner ro \<Longrightarrow> outcome_ok inner (Some (ro_error ro)) (ro_live ro) (ro_calls ro)"
  by (auto simp: rotating_def outcome_ok_def)

lemma attempt_extends:
  assumes "rotating inner ro" "should_fallback (ro_error ro) \<noteq> None"
  shows "list_all (\<lambda>i. fallback_worthy (inner i ((ro_calls ro @ [t]) ! i))) [0..<length (ro_calls ro)]"
proof -
  obtain n where n: "length (ro_calls ro) = Suc n" using assms(1) by (cases "ro_calls ro") (auto simp: rotating_def)
  have "ro_calls ro ! n = ro_live ro" using assms(1) n by (simp add: rotating_def last_conv_nth)
  with assms n show ?thesis
    by (auto simp: rotating_def list_all_iff nth_append fallback_worthy_def less_Suc_eq)
qed

lemma consider_attempt: "consider_entry cfg build now ref ro = Attempt t \<Longrightarrow> should_fallback (ro_error ro) \<noteq> None"
  by (auto simp: consider_entry_def split: if_splits)

lemma rotate_outcome:
  "rotating inner ro \<Longrightarrow>
     (case rotate cfg build clock inner i refs ro of
        (res, ro') \<Rightarrow> outcome_ok inner res (ro_live ro') (ro_calls ro') \<and>
          length (ro_calls ro') \<le> length (ro_calls ro) + length refs \<and> prefix (ro_calls ro) (ro_calls ro'))"
proof (induction refs arbitrary: i ro)
  case Nil
  then show ?case by (simp add: rotating_outcome)
next
  case (Cons ref refs)
  show ?case
  proof (cases "consider_entry cfg build (clock i) ref ro")
    case Skip
    with Cons.IH [OF Cons.prems, of "i + 1"] show ?thesis by (auto split: prod.splits)
  next
    case Stop_rotation
    with Cons.prems show ?thesis by (simp add: rotating_outcome)
  next
    case (Attempt t)
    note more = attempt_extends [OF Cons.prems consider_attempt [OF Attempt], of t]
    define ro1 where "ro1 = ro\<lparr>ro_ladder := (ro_ladder ro)\<lparr>fb_dirty := True\<rparr>, ro_live := t, ro_calls := ro_calls ro @ [t]\<rparr>"
    show ?thesis
    proof (cases "inner (length (ro_calls ro)) t")
      case None
      with Attempt more show ?thesis by (simp add: Let_def outcome_ok_def)
    next
      case (Some e)
      have "rotating inner (ro1\<lparr>ro_error := e\<rparr>)"
        using more Some by (simp add: rotating_def ro1_def)
      from Cons.IH [OF this, of "i + 1"] Attempt Some show ?thesis
        by (auto simp: Let_def ro1_def prefix_def split: prod.splits)
    qed
  qed
qed

text \<open>C22. A wrapped call tries the model that is live, then at most one target for each entry of the
  chain; it goes on only after an error that is worth a fallback, and what it returns or throws is the
  outcome of its last call.\<close>

theorem rotation_outcome:
  "case run_wrapped cd cfg build now clock inner chain (l, live) of
     (res, l', live', calls) \<Rightarrow>
       outcome_ok inner res live' calls \<and> hd calls = live \<and> length calls \<le> Suc (length chain)"
proof (cases "inner 0 live")
  case None
  then show ?thesis by (simp add: run_wrapped_def outcome_ok_def)
next
  case (Some e)
  define l1 where "l1 = (if should_fallback e \<noteq> None \<and> live = primary cfg then mark_failure cd cfg now l else l)"
  let ?ro = "\<lparr>ro_ladder = l1, ro_live = live, ro_calls = [live], ro_error = e\<rparr>"
  have "rotating inner ?ro" using Some by (simp add: rotating_def)
  from rotate_outcome [OF this, where cfg = cfg and build = build and clock = clock and i = 0 and refs = chain] Some
  show ?thesis
    by (auto simp: run_wrapped_def l1_def Let_def prefix_def split: prod.splits)
qed

section \<open>The primary is spared while it cools down\<close>

lemma rotate_spares_primary:
  "(\<And>p m. build p m = None \<or> build p m = Some p) \<Longrightarrow> (\<And>k. clock k < fb_until (ro_ladder ro)) \<Longrightarrow>
   fb_blocked (ro_ladder ro) = Some (primary cfg) \<Longrightarrow> primary cfg \<notin> set (ro_calls ro) \<Longrightarrow>
   primary cfg \<notin> set (ro_calls (snd (rotate cfg build clock inner i refs ro)))"
proof (induction refs arbitrary: i ro)
  case (Cons ref refs)
  show ?case
  proof (cases "consider_entry cfg build (clock i) ref ro")
    case Skip
    with Cons show ?thesis by simp
  next
    case Stop_rotation
    with Cons.prems show ?thesis by simp
  next
    case (Attempt t)
    have "t \<noteq> primary cfg"
    proof
      assume t: "t = primary cfg"
      from Attempt obtain p where p: "build p (snd t) = Some (fst t)" "(p, snd t) \<noteq> primary cfg \<or> \<not> in_cooldown cfg (clock i) (ro_ladder ro)"
        by (auto simp: consider_entry_def Let_def split: if_splits option.splits)
      from Cons.prems(1) [of p "snd t"] p(1) have "p = fst t" by auto
      with p(2) t Cons.prems(2,3) show False by (simp add: in_cooldown_def)
    qed
    with Cons Attempt show ?thesis by (auto simp: Let_def split: option.split)
  qed
qed simp

text \<open>As long as the primary cools down it is left alone: neither the start of a run nor the rotation
  of a call, however it goes, sends anything to it.\<close>

theorem cooling_primary_spared:
  assumes "\<And>p m. build p m = None \<or> build p m = Some p" "\<And>k. clock k < fb_until l" "now < fb_until l"
    "fb_blocked l = Some (primary cfg)" "live \<noteq> primary cfg"
  shows "before_run cd cfg build now (l, live) = (l, live) \<and>
    primary cfg \<notin> set (snd (snd (snd (run_wrapped cd cfg build now clock inner chain (l, live)))))"
proof
  show "before_run cd cfg build now (l, live) = (l, live)"
    using assms by (simp add: before_run_def in_cooldown_def)
  show "primary cfg \<notin> set (snd (snd (snd (run_wrapped cd cfg build now clock inner chain (l, live)))))"
  proof (cases "inner 0 live")
    case (Some e)
    with assms rotate_spares_primary [where build = build and clock = clock and cfg = cfg and inner = inner
        and i = 0 and refs = chain and ro = "\<lparr>ro_ladder = l, ro_live = live, ro_calls = [live], ro_error = e\<rparr>"]
    show ?thesis by (auto simp: run_wrapped_def Let_def split: prod.splits)
  qed (use assms in \<open>simp add: run_wrapped_def\<close>)
qed

definition demo_config :: fallback_config where
  "demo_config =
     \<lparr>fm_provider = ''p'', fm_model = ''m'', fm_providers = [(''p'', \<lparr>pc_key = Some ''k'', pc_keys = [], pc_env = [], pc_models = Some [''m'', ''n'']\<rparr>)],
      fm_favorites = [], fm_favorites_only = False, fm_fallback = [''p/m'', ''p/n''], fm_auto_off = False, fm_profiles = []\<rparr>"

definition cooling :: ladder where
  "cooling = \<lparr>fb_dirty = True, fb_streak = 1, fb_blocked = Some (''p'', ''m''), fb_until = 100\<rparr>"

theorem cooling_primary_spared_witness:
  "(''p'', ''m'') \<notin> set (snd (snd (snd (run_wrapped \<lparr>cd_base = None, cd_max = None\<rparr> demo_config (\<lambda>p m. Some p) 50 (\<lambda>_. 50)
     (\<lambda>_ _. Some Stream_hang) [''p/m'', ''p/n''] (cooling, (''q'', ''x''))))))"
  using cooling_primary_spared [of "\<lambda>p m. Some p" "\<lambda>_. 50" cooling 50 demo_config "(''q'', ''x'')"
      "\<lparr>cd_base = None, cd_max = None\<rparr>" "\<lambda>_ _. Some Stream_hang" "[''p/m'', ''p/n'']"]
  by (simp add: cooling_def primary_def demo_config_def)

section \<open>The ladder\<close>

lemma marks_ladder:
  "fb_blocked l = Some (primary cfg) \<Longrightarrow>
     fb_blocked (fold (mark_failure cd cfg) ts l) = Some (primary cfg) \<and>
     fb_streak (fold (mark_failure cd cfg) ts l) = fb_streak l + length ts"
  by (induction ts arbitrary: l) (simp_all add: mark_failure_def Let_def)

text \<open>The ladder is exponential and bounded: after a number of failures of the primary in a row it is
  kept out from the last one for the base times a power of two, never longer than the maximum.\<close>

theorem ladder_exact:
  assumes "0 < cooldown_base cd"
  shows "fb_until (fold (mark_failure cd cfg) (ts @ [t]) fresh_ladder) =
      t + min (cooldown_max cd) (cooldown_base cd * 2 ^ length ts) \<and>
    fb_until (fold (mark_failure cd cfg) (ts @ [t]) fresh_ladder) \<le> t + cooldown_max cd"
proof -
  have s: "fb_streak (fold (mark_failure cd cfg) ts fresh_ladder) = length ts \<and>
      (ts \<noteq> [] \<longrightarrow> fb_blocked (fold (mark_failure cd cfg) ts fresh_ladder) = Some (primary cfg)) \<and>
      (ts = [] \<longrightarrow> fb_blocked (fold (mark_failure cd cfg) ts fresh_ladder) = None)"
  proof (cases ts)
    case (Cons u us)
    have "fb_blocked (mark_failure cd cfg u fresh_ladder) = Some (primary cfg)"
      "fb_streak (mark_failure cd cfg u fresh_ladder) = 1"
      by (simp_all add: mark_failure_def fresh_ladder_def Let_def)
    with marks_ladder [of "mark_failure cd cfg u fresh_ladder" cfg cd us] Cons show ?thesis by simp
  qed (simp add: fresh_ladder_def)
  then have "fb_until (fold (mark_failure cd cfg) (ts @ [t]) fresh_ladder) =
      t + min (cooldown_max cd) (cooldown_base cd * 2 ^ length ts)"
    using assms by (cases "ts = []") (simp_all add: mark_failure_def Let_def)
  then show ?thesis by simp
qed

theorem ladder_exact_witness:
  "fb_until (fold (mark_failure \<lparr>cd_base = None, cd_max = None\<rparr> demo_config) ([0, 60000] @ [180000]) fresh_ladder) = 420000"
  using ladder_exact [of "\<lparr>cd_base = None, cd_max = None\<rparr>" demo_config "[0, 60000]" 180000]
  by (simp add: cooldown_base_def cooldown_max_def)


section \<open>The derived chain\<close>

text \<open>An entry of the derived chain: a declared model of a provider with a key, other than the leader's.\<close>

definition offered :: "(string \<Rightarrow> bool) \<Rightarrow> fallback_config \<Rightarrow> string \<Rightarrow> bool" where
  "offered env cfg ref =
     (\<exists>i m p ms. ref = i @ ''/'' @ m \<and> (i, m) \<noteq> primary cfg \<and> jm_get (fm_providers cfg) i = Some p \<and>
        provider_has_key env (Some p) \<and> pc_models p = Some ms \<and> m \<in> set ms)"

definition collected :: "chain_state \<Rightarrow> string list" where
  "collected st = cs_favorites st @ cs_same st @ cs_cross st"

definition chain_ok :: "(string \<Rightarrow> bool) \<Rightarrow> fallback_config \<Rightarrow> chain_state \<Rightarrow> bool" where
  "chain_ok env cfg st =
     (distinct (collected st) \<and> set (collected st) \<subseteq> set (cs_seen st) \<and>
      (\<forall>ref \<in> set (collected st). offered env cfg ref) \<and>
      (\<forall>ref \<in> set (cs_favorites st). ref \<in> set (favorite_set cfg)) \<and>
      (\<forall>ref \<in> set (cs_same st @ cs_cross st). ref \<notin> set (favorite_set cfg) \<and>
         \<not> (fm_favorites_only cfg \<and> favorite_set cfg \<noteq> [])))"

lemma consider_model_ok:
  assumes "chain_ok env cfg st" "jm_get (fm_providers cfg) i = Some p" "provider_has_key env (Some p)"
    "pc_models p = Some ms" "m \<in> set ms"
  shows "chain_ok env cfg (consider_model cfg i m st)"
proof (cases "i = fm_provider cfg \<and> m = fm_model cfg \<or> i @ ''/'' @ m \<in> set (cs_seen st)")
  case True
  with assms(1) show ?thesis by (auto simp: consider_model_def Let_def)
next
  case False
  have "offered env cfg (i @ ''/'' @ m)"
    unfolding offered_def using assms(2-5) False by (auto simp: primary_def)
  with assms(1) False show ?thesis
    by (auto simp: consider_model_def Let_def chain_ok_def collected_def)
qed

lemma consider_provider_ok:
  assumes "chain_ok env cfg st" shows "chain_ok env cfg (consider_provider env cfg i st)"
proof (cases "provider_has_key env (jm_get (fm_providers cfg) i)")
  case True
  then obtain p where p: "jm_get (fm_providers cfg) i = Some p" "provider_has_key env (Some p)"
    by (cases "jm_get (fm_providers cfg) i") (auto simp: provider_has_key_def)
  show ?thesis
  proof (cases "pc_models p")
    case (Some ms)
    have "chain_ok env cfg (fold (consider_model cfg i) ns st)" if "set ns \<subseteq> set ms" for ns
      using that assms
    proof (induction ns arbitrary: st)
      case (Cons n ns)
      with consider_model_ok [OF Cons.prems(2) p Some, of n] show ?case by auto
    qed simp
    with p Some show ?thesis by (simp add: consider_provider_def)
  qed (use p assms in \<open>simp add: consider_provider_def\<close>)
qed (use assms in \<open>simp add: consider_provider_def Let_def\<close>)

interpretation derived_chain: state_contract "consider_provider env cfg" "chain_ok env cfg" for env cfg
  by unfold_locales (rule consider_provider_ok)

text \<open>The derived chain has at most four entries, all different, each a declared model of a provider with
  a key and none of them the leader's own; and it lists only favorites when the user asked for that.\<close>

theorem derived_chain_sound:
  "let chain = smart_default_fallback_chain env locale_sort cfg
   in length chain \<le> 4 \<and> distinct chain \<and> list_all (offered env cfg) chain \<and>
      (if fm_favorites_only cfg \<and> fm_favorites cfg \<noteq> []
       then list_all (\<lambda>ref. ref \<in> set (favorite_set cfg)) chain else True)"
proof -
  let ?st = "fold (consider_provider env cfg) (ordered_providers locale_sort cfg)
      \<lparr>cs_seen = [], cs_favorites = [], cs_same = [], cs_cross = []\<rparr>"
  have ok: "chain_ok env cfg ?st"
    by (rule derived_chain.run_good) (simp add: chain_ok_def collected_def)
  have chain: "smart_default_fallback_chain env locale_sort cfg = take 4 (collected ?st)"
    by (simp add: smart_default_fallback_chain_def smart_default_max_def collected_def Let_def)
  have sub: "set (take 4 (collected ?st)) \<subseteq> set (collected ?st)" by (rule set_take_subset)
  have "list_all (offered env cfg) (take 4 (collected ?st))" "distinct (take 4 (collected ?st))"
    using ok sub by (auto simp: chain_ok_def list_all_iff)
  moreover have "list_all (\<lambda>ref. ref \<in> set (favorite_set cfg)) (take 4 (collected ?st))"
    if "fm_favorites_only cfg" "fm_favorites cfg \<noteq> []"
  proof -
    have "favorite_set cfg \<noteq> []" using that(2) by (simp add: favorite_set_def)
    with that(1) ok have "cs_same ?st @ cs_cross ?st = []" unfolding chain_ok_def by (metis last_in_set)
    with ok sub show ?thesis by (auto simp: chain_ok_def collected_def list_all_iff)
  qed
  ultimately show ?thesis by (simp add: chain Let_def)
qed

section \<open>References are read back\<close>

definition plain_word :: "string \<Rightarrow> bool" where
  "plain_word s = (s \<noteq> [] \<and> \<not> is_js_space (hd s) \<and> \<not> is_js_space (last s))"

lemma trim_plain: "plain_word s \<Longrightarrow> js_trim s = s"
proof -
  assume s: "plain_word s"
  then have "dropWhile is_js_space s = s" by (cases s) (auto simp: plain_word_def)
  moreover have "dropWhile is_js_space (rev s) = rev s"
    using s by (cases s rule: rev_exhaust) (auto simp: plain_word_def)
  ultimately show ?thesis by (simp add: js_trim_def)
qed

text \<open>A reference that is printed with its provider is read back as it was, also when the model's
  name contains slashes or spaces.\<close>

theorem model_ref_roundtrip:
  assumes "plain_word p" "plain_word m" "CHR ''/'' \<notin> set p"
  shows "parse_model_ref (format_model_ref \<lparr>mr_provider = Some p, mr_model = m\<rparr> dflt) =
    \<lparr>mr_provider = Some p, mr_model = m\<rparr>"
proof -
  have "plain_word (p @ CHR ''/'' # m)" using assms(1,2) by (simp add: plain_word_def)
  with assms show ?thesis
    by (simp add: parse_model_ref_def format_model_ref_def plain_word_def trim_plain index_of_char_append)
qed

theorem model_ref_roundtrip_witness:
  "parse_model_ref (format_model_ref \<lparr>mr_provider = Some ''openrouter'', mr_model = ''a/b c''\<rparr> None) =
     \<lparr>mr_provider = Some ''openrouter'', mr_model = ''a/b c''\<rparr>"
  by (rule model_ref_roundtrip) (simp_all add: plain_word_def is_js_space_def)

end
