(* ===== verification/Concurrency.thy ===== *)
theory Concurrency
  imports Complex_Main Prelude
begin

text \<open>
  The controller that adapts the number of concurrent agents to rate limits,
  \<open>packages/core/src/coordination/adaptive-concurrency.ts\<close>.

  The factor is a rational, counts are integers. An operation returns what it does to the outside:
  \<open>SetMax\<close> for the call of \<open>setMaxConcurrent\<close>, \<open>Notify\<close> for the state handed to a handler; handlers are
  numbered and do not call back.
\<close>

section \<open>State\<close>

record ac_options =
  ao_enabled :: "bool option"
  ao_min :: "int option"
  ao_max :: "int option"
  ao_factor :: "rat option"
  ao_threshold :: "int option"
  ao_recovery_ms :: "int option"

record ac_config =
  ac_on :: bool
  ac_min :: int
  ac_max :: int
  ac_factor :: rat
  ac_threshold :: int
  ac_recovery_ms :: int

record ac_state =
  as_current :: int
  as_min :: int
  as_max :: int
  as_successes :: nat
  as_failures :: nat
  as_decreases :: nat
  as_increases :: nat
  as_enabled :: bool

record controller =
  ct_config :: ac_config
  ct_state :: ac_state
  ct_subscribed :: bool
  ct_handlers :: "nat list"

datatype ac_out = SetMax int | Notify nat ac_state

definition fallback :: "'a option \<Rightarrow> 'a \<Rightarrow> 'a" where
  "fallback x d = (case x of None \<Rightarrow> d | Some v \<Rightarrow> v)"

definition default_config :: ac_config where
  "default_config = \<lparr>ac_on = False, ac_min = 1, ac_max = 16, ac_factor = 1 / 2, ac_threshold = 10,
     ac_recovery_ms = 30000\<rparr>"

definition merge_config :: "ac_options \<Rightarrow> ac_config \<Rightarrow> ac_config" where
  "merge_config q c = \<lparr>ac_on = fallback (ao_enabled q) (ac_on c), ac_min = fallback (ao_min q) (ac_min c),
     ac_max = fallback (ao_max q) (ac_max c), ac_factor = fallback (ao_factor q) (ac_factor c),
     ac_threshold = fallback (ao_threshold q) (ac_threshold c),
     ac_recovery_ms = fallback (ao_recovery_ms q) (ac_recovery_ms c)\<rparr>"

definition new_controller :: "ac_options \<Rightarrow> nat option \<Rightarrow> ac_out list \<times> controller" where
  "new_controller q handler =
     (let c = merge_config q default_config;
          s = \<lparr>as_current = ac_max c, as_min = ac_min c, as_max = ac_max c, as_successes = 0,
            as_failures = 0, as_decreases = 0, as_increases = 0, as_enabled = ac_on c\<rparr>
      in (if ac_on c then [SetMax (as_current s)] else [],
          \<lparr>ct_config = c, ct_state = s, ct_subscribed = ac_on c,
            ct_handlers = (case handler of None \<Rightarrow> [] | Some i \<Rightarrow> [i])\<rparr>))"

section \<open>Operations\<close>

definition notify :: "controller \<Rightarrow> ac_out list" where
  "notify k = map (\<lambda>h. Notify h (ct_state k)) (ct_handlers k)"

definition shrunk :: "controller \<Rightarrow> int" where
  "shrunk k = max (ac_min (ct_config k)) \<lfloor>of_int (as_current (ct_state k)) * ac_factor (ct_config k)\<rfloor>"

definition handle_rate_limit :: "controller \<Rightarrow> ac_out list \<times> controller" where
  "handle_rate_limit k =
     (let s = ct_state k
      in if as_current s \<le> ac_min (ct_config k)
         then let k' = k\<lparr>ct_state := s\<lparr>as_failures := as_failures s + 1, as_successes := 0\<rparr>\<rparr>
              in (notify k', k')
         else if shrunk k < as_current s
         then let k' = k\<lparr>ct_state := s\<lparr>as_current := shrunk k, as_failures := as_failures s + 1,
                  as_successes := 0, as_decreases := as_decreases s + 1\<rparr>\<rparr>
              in (SetMax (shrunk k) # notify k', k')
         else ([], k))"

record fleet_event =
  fe_type :: string
  fe_status :: "int option"
  fe_code :: "string option"
  fe_kind :: "string option"

definition is_rate_limit :: "fleet_event \<Rightarrow> bool" where
  "is_rate_limit e =
     ((fe_type e = ''error'' \<or> fe_type e = ''provider_error'') \<and>
      (fe_status e = Some 429 \<or> fe_code e = Some ''rate_limit_error'' \<or> fe_kind e = Some ''rate_limit''))"

definition on_fleet_event :: "fleet_event \<Rightarrow> controller \<Rightarrow> ac_out list \<times> controller" where
  "on_fleet_event e k =
     (if ct_subscribed k \<and> ac_on (ct_config k) \<and> is_rate_limit e then handle_rate_limit k else ([], k))"

definition decrease :: "int option \<Rightarrow> controller \<Rightarrow> ac_out list \<times> controller" where
  "decrease target k =
     (if \<not> ac_on (ct_config k) then ([], k)
      else
        let s = ct_state k; n = fallback target (shrunk k)
        in if n < as_current s
           then let k' = k\<lparr>ct_state := s\<lparr>as_current := n, as_successes := 0,
                    as_decreases := as_decreases s + 1\<rparr>\<rparr>
                in (notify k', k')
           else ([], k))"

definition update_config :: "ac_options \<Rightarrow> controller \<Rightarrow> ac_out list \<times> controller" where
  "update_config q k =
     (let c = merge_config q (ct_config k); s = ct_state k;
          k' = k\<lparr>ct_config := c, ct_state := s\<lparr>as_current := max (ac_min c) (min (as_current s) (ac_max c)),
            as_enabled := ac_on c, as_min := ac_min c, as_max := ac_max c\<rparr>\<rparr>
      in (notify k', k'))"

definition dispose :: "controller \<Rightarrow> ac_out list \<times> controller" where
  "dispose k = ([], k\<lparr>ct_subscribed := False, ct_handlers := []\<rparr>)"

definition on_state_change :: "nat \<Rightarrow> controller \<Rightarrow> ac_out list \<times> controller" where
  "on_state_change h k = ([], k\<lparr>ct_handlers := ct_handlers k @ [h]\<rparr>)"

definition off_state_change :: "nat \<Rightarrow> controller \<Rightarrow> ac_out list \<times> controller" where
  "off_state_change h k = ([], k\<lparr>ct_handlers := remove1 h (ct_handlers k)\<rparr>)"

datatype ac_op = FleetEvent fleet_event | Decrease "int option" | UpdateConfig ac_options | Dispose
  | AddHandler nat | DropHandler nat

fun ac_step :: "ac_op \<Rightarrow> controller \<Rightarrow> controller" where
  "ac_step (FleetEvent e) k = snd (on_fleet_event e k)"
| "ac_step (Decrease t) k = snd (decrease t k)"
| "ac_step (UpdateConfig q) k = snd (update_config q k)"
| "ac_step Dispose k = snd (dispose k)"
| "ac_step (AddHandler h) k = snd (on_state_change h k)"
| "ac_step (DropHandler h) k = snd (off_state_change h k)"

section \<open>Bounds\<close>

definition no_growth :: "controller \<Rightarrow> bool" where
  "no_growth k = (as_increases (ct_state k) = 0 \<and> as_successes (ct_state k) = 0)"

lemma no_growth_step: "no_growth k \<Longrightarrow> no_growth (ac_step e k)"
  by (cases e) (auto simp: no_growth_def on_fleet_event_def handle_rate_limit_def decrease_def
      update_config_def dispose_def on_state_change_def off_state_change_def Let_def)

interpretation ac_contract: state_contract ac_step no_growth
  by unfold_locales (rule no_growth_step)

lemma no_growth_new: "no_growth (snd (new_controller q h))"
  by (simp add: no_growth_def new_controller_def Let_def)

fun is_update :: "ac_op \<Rightarrow> bool" where
  "is_update (UpdateConfig q) = True"
| "is_update _ = False"

lemma current_step: "\<not> is_update e \<Longrightarrow> as_current (ct_state (ac_step e k)) \<le> as_current (ct_state k)"
  by (cases e) (auto simp: on_fleet_event_def handle_rate_limit_def decrease_def dispose_def on_state_change_def off_state_change_def Let_def)

lemma current_run:
  "as_current (ct_state (fold ac_step (filter (\<lambda>e. \<not> is_update e) es) k)) \<le> as_current (ct_state k)"
proof (induction es arbitrary: k)
  case (Cons e es)
  show ?case
  proof (cases "is_update e")
    case False
    then have "as_current (ct_state (ac_step e k)) \<le> as_current (ct_state k)" by (rule current_step)
    with Cons.IH [of "ac_step e k"] False show ?thesis by simp
  qed (use Cons.IH in simp)
qed simp

text \<open>The controller only ever goes down. Through every sequence of events and calls no success is
  counted and no increase happens, and, as long as the configuration is not updated, the concurrency
  allowed at any later time is at most the one allowed now; rate limits that are long over are never
  recovered from.\<close>

theorem concurrency_never_recovers:
  "no_growth (fold ac_step es (snd (new_controller q h))) \<and>
   as_current (ct_state (fold ac_step (filter (\<lambda>e. \<not> is_update e) fs) k)) \<le> as_current (ct_state k)"
  using ac_contract.run_good [OF no_growth_new] current_run by blast

text \<open>What an orderly client does: it names no target for a decrease, and its updates keep the minimum
  below the maximum.\<close>

fun orderly_op :: "controller \<Rightarrow> ac_op \<Rightarrow> bool" where
  "orderly_op k (Decrease t) = (t = None)"
| "orderly_op k (UpdateConfig q) =
     (ac_min (merge_config q (ct_config k)) \<le> ac_max (merge_config q (ct_config k)))"
| "orderly_op k _ = True"

fun orderly :: "ac_op list \<Rightarrow> controller \<Rightarrow> bool" where
  "orderly [] k = True"
| "orderly (e # es) k = (orderly_op k e \<and> orderly es (ac_step e k))"

definition in_bounds :: "controller \<Rightarrow> bool" where
  "in_bounds k =
     (ac_min (ct_config k) \<le> as_current (ct_state k) \<and> as_current (ct_state k) \<le> ac_max (ct_config k) \<and>
      as_min (ct_state k) = ac_min (ct_config k) \<and> as_max (ct_state k) = ac_max (ct_config k) \<and>
      as_enabled (ct_state k) = ac_on (ct_config k))"

lemma in_bounds_step: "in_bounds k \<Longrightarrow> orderly_op k e \<Longrightarrow> in_bounds (ac_step e k)"
  by (cases e) (auto simp: in_bounds_def on_fleet_event_def handle_rate_limit_def decrease_def
      update_config_def dispose_def on_state_change_def off_state_change_def shrunk_def fallback_def Let_def)

lemma in_bounds_run: "in_bounds k \<Longrightarrow> orderly es k \<Longrightarrow> in_bounds (fold ac_step es k)"
  by (induction es arbitrary: k) (auto intro: in_bounds_step)

definition silent :: "ac_out \<Rightarrow> bool" where
  "silent x = (case x of SetMax n \<Rightarrow> False | Notify i s \<Rightarrow> True)"

lemma in_bounds_new:
  "ac_min (merge_config q default_config) \<le> ac_max (merge_config q default_config) \<Longrightarrow>
     in_bounds (snd (new_controller q h))"
  by (simp add: in_bounds_def new_controller_def Let_def)

lemma decrease_to_target:
  "ac_on (ct_config k) \<Longrightarrow> t < as_current (ct_state k) \<Longrightarrow>
     as_current (ct_state (snd (decrease (Some t) k))) = t"
  by (simp add: decrease_def fallback_def Let_def)

lemma decrease_silent: "list_all silent (fst (decrease t k))"
  by (simp add: decrease_def notify_def silent_def Let_def list_all_iff)

text \<open>A controller whose configuration has its minimum below its maximum keeps the concurrency between
  the two, and reports its configuration truly, through every orderly sequence of operations. A decrease
  to a named target takes whatever is named, below the minimum too; and no decrease, named or not, is
  handed on to the coordinator, so that only the reported number changes.\<close>

theorem concurrency_within_bounds:
  assumes "ac_min (merge_config q default_config) \<le> ac_max (merge_config q default_config)"
    and "orderly es (snd (new_controller q h))"
  shows "in_bounds (fold ac_step es (snd (new_controller q h))) \<and> list_all silent (fst (decrease u k)) \<and>
    (ac_on (ct_config k) \<and> t < as_current (ct_state k) \<longrightarrow>
       as_current (ct_state (snd (decrease (Some t) k))) = t)"
  using in_bounds_run [OF in_bounds_new [OF assms(1)] assms(2)] decrease_to_target [of k t] decrease_silent
  by blast

definition enabled_options :: ac_options where
  "enabled_options = \<lparr>ao_enabled = Some True, ao_min = Some 2, ao_max = Some 8, ao_factor = None,
     ao_threshold = None, ao_recovery_ms = None\<rparr>"

definition limit_event :: fleet_event where
  "limit_event = \<lparr>fe_type = ''provider_error'', fe_status = Some 429, fe_code = None, fe_kind = None\<rparr>"

theorem concurrency_within_bounds_witness:
  "in_bounds (fold ac_step [FleetEvent limit_event, Decrease None, FleetEvent limit_event]
     (snd (new_controller enabled_options (Some 0)))) \<and>
   as_current (ct_state (snd (decrease (Some 0) (snd (new_controller enabled_options (Some 0)))))) = 0"
proof -
  have 1: "ac_min (merge_config enabled_options default_config) \<le>
      ac_max (merge_config enabled_options default_config)" by code_simp
  have 2: "orderly [FleetEvent limit_event, Decrease None, FleetEvent limit_event]
      (snd (new_controller enabled_options (Some 0)))" by simp
  have 3: "ac_on (ct_config (snd (new_controller enabled_options (Some 0))))"
    "0 < as_current (ct_state (snd (new_controller enabled_options (Some 0))))"
    by (simp_all add: new_controller_def enabled_options_def merge_config_def fallback_def Let_def)
  show ?thesis
    using concurrency_within_bounds [OF 1 2, of None "snd (new_controller enabled_options (Some 0))" 0] 3 by blast
qed

end
