(* ===== verification/Deep_Merge.thy ===== *)
theory Deep_Merge
  imports Json
begin

text \<open>
  The merge of two JSON values (core/src/utils/deep-merge.ts): \<open>deepMerge\<close> with its two options,
  the guard against prototype pollution (always on, as every caller leaves it), and its logging
  callback left out. The recursion follows the patch, whose objects are finite trees. The lookup
  law \<open>merge_entries_get\<close> gives every key of the result in closed form; preservation of JSON
  values, absent keys and the neutral patch follow from it.
\<close>

datatype conflict_side = Prefer_patch | Prefer_base

datatype array_mode = Replace | Concat_primitives

record merge_options =
  side :: conflict_side
  array_handling :: array_mode

definition default_merge :: merge_options where
  "default_merge = \<lparr>side = Prefer_patch, array_handling = Replace\<rparr>"

definition forbidden_proto_keys :: "string list" where
  "forbidden_proto_keys =
     [''__proto__'', ''constructor'', ''prototype'', ''__defineGetter__'', ''__defineSetter__'',
      ''__lookupGetter__'', ''__lookupSetter__'']"

definition is_primitive_array :: "json list \<Rightarrow> bool" where
  "is_primitive_array xs =
     list_all (\<lambda>v. case v of JArr _ \<Rightarrow> False | JObj _ \<Rightarrow> False | JFun _ \<Rightarrow> False | JSet _ \<Rightarrow> False
                     | _ \<Rightarrow> True) xs"

definition pick_side :: "merge_options \<Rightarrow> json \<Rightarrow> json \<Rightarrow> json" where
  "pick_side opt base patch = (case side opt of Prefer_patch \<Rightarrow> patch | Prefer_base \<Rightarrow> base)"

definition merge_arrays :: "merge_options \<Rightarrow> json list \<Rightarrow> json list \<Rightarrow> json" where
  "merge_arrays opt xs ys =
     (if array_handling opt = Concat_primitives \<and> is_primitive_array xs \<and> is_primitive_array ys
      then JArr (js_dedup (xs @ ys))
      else pick_side opt (JArr xs) (JArr ys))"

fun deep_merge :: "merge_options \<Rightarrow> json \<Rightarrow> json \<Rightarrow> json"
  and merge_entries :: "merge_options \<Rightarrow> fields \<Rightarrow> fields \<Rightarrow> fields" where
  "deep_merge opt base (JObj p) =
     (case record_of base of
        None \<Rightarrow> pick_side opt base (JObj p)
      | Some b \<Rightarrow> JObj (merge_entries opt b p))"
| "deep_merge opt base (JSet ss) =
     (case record_of base of None \<Rightarrow> pick_side opt base (JSet ss) | Some b \<Rightarrow> JObj b)"
| "deep_merge opt base (JArr ys) =
     (case base of
        JArr xs \<Rightarrow> merge_arrays opt xs ys
      | _ \<Rightarrow> pick_side opt base (JArr ys))"
| "deep_merge opt base patch = pick_side opt base patch"
| "merge_entries opt out [] = out"
| "merge_entries opt out ((k, v) # es) =
     (if k \<in> set forbidden_proto_keys then merge_entries opt out es
      else merge_entries opt
        (jm_set k
          (case js_prop out k of
             None \<Rightarrow> v
           | Some existing \<Rightarrow>
               if (is_record v \<and> is_record existing) \<or> (is_array v \<and> is_array existing)
               then deep_merge opt existing v
               else v)
          out) es)"

section \<open>What the result holds under each key\<close>

text \<open>The value the merge leaves under a key of the patch, given what the base had.\<close>

definition merged_value :: "merge_options \<Rightarrow> json option \<Rightarrow> json \<Rightarrow> json" where
  "merged_value opt existing v =
     (case existing of
        None \<Rightarrow> v
      | Some e \<Rightarrow>
          if (is_record v \<and> is_record e) \<or> (is_array v \<and> is_array e)
          then deep_merge opt e v else v)"

lemma merge_entries_Cons:
  "merge_entries opt out ((k, v) # es) =
     (if k \<in> set forbidden_proto_keys then merge_entries opt out es
      else merge_entries opt (jm_set k (merged_value opt (js_prop out k) v) out) es)"
  by (simp add: merged_value_def)

lemma merge_entries_get:
  "jm_wf p \<Longrightarrow> jm_get (merge_entries opt b p) k =
     (if k \<in> set forbidden_proto_keys then jm_get b k
      else case jm_get p k of
             None \<Rightarrow> jm_get b k
           | Some v \<Rightarrow> Some (merged_value opt (js_prop b k) v))"
proof (induction p arbitrary: b)
  case (Cons e p)
  obtain k' v where e: "e = (k', v)" by (cases e)
  have wf: "jm_wf p" and fresh: "jm_get p k' = None"
    using Cons.prems by (auto simp: e jm_wf_def jm_keys_def jm_get_None)
  show ?case
  proof (cases "k' \<in> set forbidden_proto_keys")
    case True
    then show ?thesis using Cons.IH [OF wf, of b] fresh
      by (auto simp: e jm_get_Cons)
  next
    case False
    then show ?thesis
      using Cons.IH [OF wf, of "jm_set k' (merged_value opt (js_prop b k') v) b"] fresh
      by (auto simp: e merge_entries_Cons jm_get_Cons js_prop_set
          simp del: merge_entries.simps(2) split: option.splits)
  qed
qed simp

lemma merge_entries_keys:
  "jm_wf b \<Longrightarrow> jm_wf (merge_entries opt b p)"
  by (induction p arbitrary: b) (auto simp: merge_entries_Cons simp del: merge_entries.simps(2))

lemma own_deep_merge:
  assumes "is_json patch" "is_record patch"
  shows "own (deep_merge opt (JObj b) patch) k =
     (if k \<in> set forbidden_proto_keys then jm_get b k
      else case own patch k of
             None \<Rightarrow> jm_get b k
           | Some v \<Rightarrow> Some (merged_value opt (js_prop b k) v))"
  using assms by (cases patch) (simp_all add: merge_entries_get)

lemma deep_merge_record:
  "is_record base \<Longrightarrow> is_record patch \<Longrightarrow> \<exists>es. deep_merge opt base patch = JObj es"
  by (cases patch) (auto simp: is_record_def)

lemma deep_merge_pick:
  "\<not> (is_record base \<and> is_record patch) \<Longrightarrow> \<not> (is_array base \<and> is_array patch) \<Longrightarrow>
   deep_merge opt base patch = pick_side opt base patch"
  by (cases patch; cases base) (auto simp: is_record_def is_array_def)

lemma deep_merge_empty:
  "is_record base \<Longrightarrow> \<exists>b. record_of base = Some b \<and> deep_merge opt base (JObj []) = JObj b"
  by (auto simp: is_record_def)

section \<open>Merging keeps JSON values JSON values\<close>

lemma inherited_not_record: "k \<notin> set forbidden_proto_keys \<Longrightarrow> inherited k = Some e \<Longrightarrow> e = JFun k"
  by (auto simp: inherited_def forbidden_proto_keys_def split: if_splits)

lemma merged_value_own:
  assumes "k \<notin> set forbidden_proto_keys"
  shows "merged_value opt (js_prop b k) v = merged_value opt (jm_get b k) v"
  using inherited_not_record [OF assms]
  by (auto simp: js_prop_def merged_value_def split: option.splits)

lemma is_json_merge_arrays:
  "list_all is_json xs \<Longrightarrow> list_all is_json ys \<Longrightarrow> is_json (merge_arrays opt xs ys)"
  by (auto simp: merge_arrays_def pick_side_def list_all_iff split: conflict_side.splits)

lemma merge_is_json:
  shows "is_json base \<Longrightarrow> is_json patch \<Longrightarrow> is_json (deep_merge opt base patch)"
    and "is_json (JObj b) \<Longrightarrow> list_all (\<lambda>(k, v). is_json v) p \<Longrightarrow>
         is_json (JObj (merge_entries opt b p))"
proof (induction opt base patch and opt b p rule: deep_merge_merge_entries.induct)
  case (1 opt base p)
  then show ?case
    by (cases base) (auto simp: pick_side_def split: conflict_side.splits)
next
  case (3 opt base ys)
  then show ?case
    by (cases base) (auto simp: pick_side_def is_json_merge_arrays split: conflict_side.splits)
next
  case (6 opt out k v es)
  show ?case
  proof (cases "k \<in> set forbidden_proto_keys")
    case True
    then show ?thesis using 6 by simp
  next
    case False
    have "is_json (merged_value opt (jm_get out k) v)"
      using 6 False
      by (auto simp: merged_value_def js_prop_def is_json_field split: option.splits)
    then have "is_json (JObj (jm_set k (merged_value opt (js_prop out k) v) out))"
      using 6(4) False by (simp add: merged_value_own is_json_set del: is_json.simps)
    then show ?thesis
      using 6 False by (simp add: merged_value_def del: is_json.simps)
  qed
qed (auto simp: pick_side_def split: conflict_side.splits)

section \<open>The two properties of the merge\<close>

fun array_free :: "json \<Rightarrow> bool" where
  "array_free (JArr xs) = False"
| "array_free (JObj es) = list_all (\<lambda>(k, v). array_free v) es"
| "array_free _ = True"

lemma merge_entries_cong:
  "(\<And>k v e. (k, v) \<in> set p \<Longrightarrow> merged_value o1 e v = merged_value o2 e v) \<Longrightarrow>
   merge_entries o1 b p = merge_entries o2 b p"
proof (induction p arbitrary: b)
  case (Cons e p)
  obtain k v where e: "e = (k, v)" by (cases e)
  have "merge_entries o1 c p = merge_entries o2 c p" for c
    using Cons.prems by (intro Cons.IH) auto
  moreover have "merged_value o1 x v = merged_value o2 x v" for x
    using Cons.prems [of k v] by (simp add: e)
  ultimately show ?case
    unfolding e merge_entries_Cons by metis
qed simp

lemma side_irrelevant:
  "array_free patch \<Longrightarrow> is_record base \<Longrightarrow> is_record patch \<Longrightarrow>
   deep_merge (opt\<lparr>side := s\<rparr>) base patch = deep_merge (opt\<lparr>side := t\<rparr>) base patch"
proof (induction patch arbitrary: base rule: measure_induct_rule [of size])
  case (less patch)
  obtain b where b: "record_of base = Some b" using less.prems(2) by (auto simp: is_record_def)
  show ?case
  proof (cases patch)
    case (JObj p)
    have "merged_value (opt\<lparr>side := s\<rparr>) e v = merged_value (opt\<lparr>side := t\<rparr>) e v"
      if "(k, v) \<in> set p" for k v e
    proof -
      have free: "array_free v" using less.prems(1) that by (auto simp: JObj list_all_iff)
      then have "\<not> is_array v" by (cases v) auto
      moreover have "size v < size patch" unfolding JObj using that by (rule size_field)
      ultimately show ?thesis
        using less.IH [of v] free by (auto simp: merged_value_def split: option.splits)
    qed
    then have "merge_entries (opt\<lparr>side := s\<rparr>) b p = merge_entries (opt\<lparr>side := t\<rparr>) b p"
      by (rule merge_entries_cong)
    then show ?thesis using b by (simp add: JObj)
  qed (use less.prems b in auto)
qed

text \<open>Merging one JSON object into another gives a JSON object whose keys are fully determined:
  a forbidden key and a key the patch lacks keep the base's value, a new key takes the patch's
  value, two objects or two arrays under one key are merged, and any other collision takes the
  patch's value.\<close>

theorem merge_lookup:
  assumes "is_json (JObj b)" "is_json (JObj p)"
  shows "\<exists>m. deep_merge opt (JObj b) (JObj p) = JObj m \<and> is_json (JObj m) \<and>
    (\<forall>k. jm_get m k =
       (if k \<in> set forbidden_proto_keys then jm_get b k
        else case jm_get p k of
               None \<Rightarrow> jm_get b k
             | Some v \<Rightarrow>
                 (case jm_get b k of
                    None \<Rightarrow> Some v
                  | Some e \<Rightarrow>
                      if (is_record v \<and> is_record e) \<or> (is_array v \<and> is_array e)
                      then Some (deep_merge opt e v) else Some v)))"
proof -
  let ?m = "merge_entries opt b p"
  have wf: "jm_wf p" using assms(2) by simp
  have "is_json (deep_merge opt (JObj b) (JObj p))" using assms by (rule merge_is_json)
  moreover have "jm_get ?m k =
      (if k \<in> set forbidden_proto_keys then jm_get b k
        else case jm_get p k of None \<Rightarrow> jm_get b k
             | Some v \<Rightarrow> Some (merged_value opt (jm_get b k) v))" for k
    using merge_entries_get [OF wf, of opt b k] merged_value_own [of k opt b]
    by (auto split: option.splits)
  ultimately show ?thesis
    by (intro exI [of _ ?m]) (auto simp: merged_value_def split: option.splits)
qed

lemma merge_lookup_witness:
  "\<exists>m. deep_merge default_merge (JObj [(''a'', JObj [(''x'', JNum 1)])])
        (JObj [(''a'', JObj [(''y'', JNum 2)]), (''__proto__'', JNull)]) = JObj m \<and>
     jm_get m ''a'' = Some (JObj [(''x'', JNum 1), (''y'', JNum 2)]) \<and>
     jm_get m ''__proto__'' = None"
  using merge_lookup [of "[(''a'', JObj [(''x'', JNum 1)])]"
      "[(''a'', JObj [(''y'', JNum 2)]), (''__proto__'', JNull)]" default_merge]
  by (auto simp: jm_wf_def jm_keys_def jm_get_Cons forbidden_proto_keys_def js_prop_def
      inherited_def prototype_functions_def)

text \<open>Between two objects the option \<open>conflictResolution\<close> decides nothing unless two arrays
  collide: with an array-free patch \<open>prefer-base\<close> and \<open>prefer-patch\<close> give the same result, so a
  scalar of the patch replaces the base's scalar even under \<open>prefer-base\<close>.\<close>

theorem prefer_base_ignored:
  assumes "array_free patch" "is_record base" "is_record patch"
  shows "deep_merge (opt\<lparr>side := Prefer_base\<rparr>) base patch =
         deep_merge (opt\<lparr>side := Prefer_patch\<rparr>) base patch"
  using assms by (rule side_irrelevant)

lemma prefer_base_ignored_witness:
  "deep_merge (default_merge\<lparr>side := Prefer_base\<rparr>) (JObj [(''a'', JNum 1)]) (JObj [(''a'', JNum 2)])
     = JObj [(''a'', JNum 2)]"
  using prefer_base_ignored [of "JObj [(''a'', JNum 2)]" "JObj [(''a'', JNum 1)]" default_merge]
  by (simp add: forbidden_proto_keys_def js_prop_def inherited_def prototype_functions_def
      jm_get_Cons pick_side_def)

end
