(* ===== verification/Secret_Vault.thy ===== *)
theory Secret_Vault
  imports Json
begin

text \<open>
  The vault that keeps credentials encrypted in the configuration file
  (core/src/security/secret-vault.ts): the wire format \<open>enc:v<N>:<iv>:<tag>:<ciphertext>\<close>, the
  name test for secret-bearing fields, the four walks over a configuration (encrypt, decrypt,
  decrypt-and-count, re-encrypt) and the migration and rotation built on them. The cipher and
  base64 are Node's: they are the record \<open>crypto\<close>, whose documented behaviour is \<open>crypto_ok\<close>.
  The key file on disk and its passphrase wrapping are not modelled; a key is a value.
\<close>

section \<open>The wire format\<close>

text \<open>\<open>seal key text\<close> is the initialisation vector, the tag and the ciphertext of AES-256-GCM;
  \<open>unseal\<close> fails when the tag does not verify. A byte string is a \<open>string\<close>.\<close>

record 'k crypto =
  seal :: "'k \<Rightarrow> string \<Rightarrow> string \<times> string \<times> string"
  unseal :: "'k \<Rightarrow> string \<Rightarrow> string \<Rightarrow> string \<Rightarrow> string option"
  b64_encode :: "string \<Rightarrow> string"
  b64_decode :: "string \<Rightarrow> string"

definition iv_bytes :: nat where "iv_bytes = 12"

definition tag_bytes :: nat where "tag_bytes = 16"

definition crypto_ok :: "'k crypto \<Rightarrow> bool" where
  "crypto_ok c =
     ((\<forall>s. b64_decode c (b64_encode c s) = s \<and> CHR '':'' \<notin> set (b64_encode c s)) \<and>
      (\<forall>k s. case seal c k s of (iv, tag, ct) \<Rightarrow>
         length iv = iv_bytes \<and> length tag = tag_bytes \<and> unseal c k iv tag ct = Some s))"

record 'k vault =
  vault_key :: 'k
  key_version :: nat

text \<open>What follows the prefix \<open>enc:v<digits>:\<close>, when the value has it.\<close>

definition enc_payload :: "string \<Rightarrow> string option" where
  "enc_payload s =
     (if starts_with s ''enc:v''
      then let r = drop 5 s
           in if takeWhile is_digit r \<noteq> [] \<and> starts_with (dropWhile is_digit r) '':''
              then Some (tl (dropWhile is_digit r)) else None
      else None)"

definition is_encrypted :: "string \<Rightarrow> bool" where
  "is_encrypted s = (enc_payload s \<noteq> None)"

definition encrypted_prefix :: "nat \<Rightarrow> string" where
  "encrypted_prefix n = ''enc:v'' @ show_nat n @ '':''"

definition encrypt :: "'k crypto \<Rightarrow> 'k vault \<Rightarrow> string \<Rightarrow> string" where
  "encrypt c v s =
     (if is_encrypted s then s
      else case seal c (vault_key v) s of (iv, tag, ct) \<Rightarrow>
        encrypted_prefix (key_version v) @
        js_join '':'' [b64_encode c iv, b64_encode c tag, b64_encode c ct])"

text \<open>\<open>None\<close> is a thrown error: a malformed value, a wrong length, or a tag that does not verify.\<close>

definition decrypt :: "'k crypto \<Rightarrow> 'k vault \<Rightarrow> string \<Rightarrow> string option" where
  "decrypt c v s =
     (case enc_payload s of
        None \<Rightarrow> Some s
      | Some rest \<Rightarrow>
          (case js_split (CHR '':'') rest of
             [iv64, tag64, ct64] \<Rightarrow>
               (let iv = b64_decode c iv64; tag = b64_decode c tag64; ct = b64_decode c ct64
                in if length iv \<noteq> iv_bytes then None
                   else if length tag \<noteq> tag_bytes then None
                   else unseal c (vault_key v) iv tag ct)
           | _ \<Rightarrow> None))"

definition rotate_key :: "'k \<Rightarrow> 'k vault \<Rightarrow> 'k vault" where
  "rotate_key fresh v = \<lparr>vault_key = fresh, key_version = key_version v + 1\<rparr>"

section \<open>Secret-bearing fields\<close>

definition secret_tokens :: "string list" where
  "secret_tokens =
     [''apikey'', ''api_key'', ''authtoken'', ''auth_token'', ''bearer'', ''secret'', ''password'',
      ''passwd'', ''pwd'', ''refreshtoken'', ''refresh_token'', ''sessionkey'', ''session_key'',
      ''accesstoken'', ''access_token'', ''access-token'',
      ''privatekey'', ''private_key'', ''private-key'']"

definition non_secret_overrides :: "string list" where
  "non_secret_overrides = [''publickey'', ''public_key'']"

definition is_secret_field :: "string \<Rightarrow> bool" where
  "is_secret_field name =
     (let lc = to_lower name
      in if lc \<in> set non_secret_overrides then False
         else list_ex (str_includes lc) secret_tokens)"

section \<open>The walks\<close>

text \<open>The traversal every walk makes: arrays and objects are rebuilt, \<open>f k s\<close> replaces a string \<open>s\<close>
  stored directly under the field \<open>k\<close>, everything else is kept. A string that is an element of an
  array is not under a field and is never replaced. The \<open>Set\<close> of the run time has no own
  properties, so a walk turns it into an empty object.\<close>

fun walk_fields :: "(string \<Rightarrow> string \<Rightarrow> string) \<Rightarrow> json \<Rightarrow> json"
  and walk_field :: "(string \<Rightarrow> string \<Rightarrow> string) \<Rightarrow> string \<Rightarrow> json \<Rightarrow> json" where
  "walk_fields f (JArr xs) = JArr (map (walk_fields f) xs)"
| "walk_fields f (JObj es) = JObj (map (\<lambda>(k, v). (k, walk_field f k v)) es)"
| "walk_fields f (JSet ss) = JObj []"
| "walk_fields f v = v"
| "walk_field f k (JStr s) = JStr (f k s)"
| "walk_field f k v = walk_fields f v"

definition walk_secrets :: "(string \<Rightarrow> string) \<Rightarrow> json \<Rightarrow> json" where
  "walk_secrets f = walk_fields (\<lambda>k s. if is_secret_field k then f s else s)"

definition decrypt_config_secrets :: "'k crypto \<Rightarrow> 'k vault \<Rightarrow> json \<Rightarrow> json" where
  "decrypt_config_secrets c v cfg =
     walk_secrets (\<lambda>s. case decrypt c v s of None \<Rightarrow> '''' | Some p \<Rightarrow> p) cfg"

definition encrypt_config_secrets :: "'k crypto \<Rightarrow> 'k vault \<Rightarrow> json \<Rightarrow> json" where
  "encrypt_config_secrets c v cfg = walk_secrets (encrypt c v) cfg"

text \<open>\<open>walkReencrypt\<close> and \<open>walkCount\<close> rewrite the same fields: the secret names whose string is
  non-empty and not encrypted yet. \<open>walkCount\<close> also counts them.\<close>

definition needs_encryption :: "string \<Rightarrow> string \<Rightarrow> bool" where
  "needs_encryption k s = (is_secret_field k \<and> s \<noteq> '''' \<and> \<not> is_encrypted s)"

definition walk_reencrypt :: "'k crypto \<Rightarrow> 'k vault \<Rightarrow> json \<Rightarrow> json" where
  "walk_reencrypt c v = walk_fields (\<lambda>k s. if needs_encryption k s then encrypt c v s else s)"

fun walk_count :: "'k crypto \<Rightarrow> 'k vault \<Rightarrow> json \<Rightarrow> json \<times> nat"
  and walk_count_field :: "'k crypto \<Rightarrow> 'k vault \<Rightarrow> string \<Rightarrow> json \<Rightarrow> json \<times> nat"
  and walk_count_items :: "'k crypto \<Rightarrow> 'k vault \<Rightarrow> json list \<Rightarrow> json list \<times> nat"
  and walk_count_fields :: "'k crypto \<Rightarrow> 'k vault \<Rightarrow> fields \<Rightarrow> fields \<times> nat" where
  "walk_count c vt (JArr xs) = (let r = walk_count_items c vt xs in (JArr (fst r), snd r))"
| "walk_count c vt (JObj es) = (let r = walk_count_fields c vt es in (JObj (fst r), snd r))"
| "walk_count c vt (JSet ss) = (JObj [], 0)"
| "walk_count c vt v = (v, 0)"
| "walk_count_field c vt k (JStr s) =
     (if needs_encryption k s then (JStr (encrypt c vt s), 1) else (JStr s, 0))"
| "walk_count_field c vt k v = walk_count c vt v"
| "walk_count_items c vt [] = ([], 0)"
| "walk_count_items c vt (x # xs) =
     (let r = walk_count c vt x; r' = walk_count_items c vt xs
      in (fst r # fst r', snd r + snd r'))"
| "walk_count_fields c vt [] = ([], 0)"
| "walk_count_fields c vt ((k, v) # es) =
     (let r = walk_count_field c vt k v; r' = walk_count_fields c vt es
      in ((k, fst r) # fst r', snd r + snd r'))"

text \<open>\<open>migratePlaintextSecrets\<close> on the parsed file: the number of fields migrated and the new
  content, or \<open>None\<close> when nothing is written.\<close>

definition migrate_plaintext :: "'k crypto \<Rightarrow> 'k vault \<Rightarrow> json \<Rightarrow> nat \<times> json option" where
  "migrate_plaintext c v cfg =
     (case walk_count c v cfg of (new, n) \<Rightarrow> if n = 0 then (0, None) else (n, Some new))"

text \<open>\<open>walkDecryptCount\<close>: the decrypted value, how many strings were decrypted, and the paths of
  the strings that could not be.\<close>

definition key_path :: "string \<Rightarrow> string \<Rightarrow> string" where
  "key_path parent k = (if parent = '''' then k else parent @ ''.'' @ k)"

definition item_path :: "string \<Rightarrow> nat \<Rightarrow> string" where
  "item_path parent i = parent @ ''['' @ show_nat i @ '']''"

type_synonym 'a decrypted = "'a \<times> nat \<times> string list"

definition both :: "('a \<Rightarrow> 'b \<Rightarrow> 'c) \<Rightarrow> 'a decrypted \<Rightarrow> 'b decrypted \<Rightarrow> 'c decrypted" where
  "both f r r' =
     (f (fst r) (fst r'), fst (snd r) + fst (snd r'), snd (snd r) @ snd (snd r'))"

function (sequential) walk_decrypt :: "'k crypto \<Rightarrow> 'k vault \<Rightarrow> string \<Rightarrow> json \<Rightarrow> json decrypted"
  and walk_decrypt_field ::
    "'k crypto \<Rightarrow> 'k vault \<Rightarrow> string \<Rightarrow> string \<Rightarrow> json \<Rightarrow> json decrypted"
  and walk_decrypt_items ::
    "'k crypto \<Rightarrow> 'k vault \<Rightarrow> string \<Rightarrow> nat \<Rightarrow> json list \<Rightarrow> json list decrypted"
  and walk_decrypt_fields ::
    "'k crypto \<Rightarrow> 'k vault \<Rightarrow> string \<Rightarrow> fields \<Rightarrow> fields decrypted" where
  "walk_decrypt c vt path (JArr xs) = apfst JArr (walk_decrypt_items c vt path 0 xs)"
| "walk_decrypt c vt path (JObj es) = apfst JObj (walk_decrypt_fields c vt path es)"
| "walk_decrypt c vt path (JSet ss) = (JObj [], 0, [])"
| "walk_decrypt c vt path v = (v, 0, [])"
| "walk_decrypt_field c vt path k (JStr s) =
     (if is_encrypted s
      then case decrypt c vt s of
             Some p \<Rightarrow> (JStr p, 1, [])
           | None \<Rightarrow> (JStr s, 0, [key_path path k])
      else (JStr s, 0, []))"
| "walk_decrypt_field c vt path k v = walk_decrypt c vt (key_path path k) v"
| "walk_decrypt_items c vt path i [] = ([], 0, [])"
| "walk_decrypt_items c vt path i (x # xs) =
     both (#) (walk_decrypt c vt (item_path path i) x) (walk_decrypt_items c vt path (Suc i) xs)"
| "walk_decrypt_fields c vt path [] = ([], 0, [])"
| "walk_decrypt_fields c vt path ((k, v) # es) =
     both (\<lambda>w fs. (k, w) # fs)
       (walk_decrypt_field c vt path k v) (walk_decrypt_fields c vt path es)"
  by pat_completeness auto
termination
  by (relation "measure (\<lambda>x. case x of
        Inl (Inl (c, vt, path, v)) \<Rightarrow> 2 * size v
      | Inl (Inr (c, vt, path, k, v)) \<Rightarrow> 2 * size v + 1
      | Inr (Inl (c, vt, path, i, xs)) \<Rightarrow> 2 * size (JArr xs) - 1
      | Inr (Inr (c, vt, path, es)) \<Rightarrow> 2 * size (JObj es) - 1)") auto

section \<open>Rotation\<close>

text \<open>The file's content is absent, not JSON, or a value. The result is the error of an aborted
  rotation (the paths that cannot be decrypted) or the new vault, the number of fields rotated
  and the content written, if any.\<close>

datatype config_file = Absent | Not_json | Content json

definition rotate_config_keys ::
    "'k crypto \<Rightarrow> 'k \<Rightarrow> 'k vault \<Rightarrow> config_file \<Rightarrow>
     string list + ('k vault \<times> nat \<times> json option)" where
  "rotate_config_keys c fresh v file =
     (case file of
        Absent \<Rightarrow> Inr (rotate_key fresh v, 0, None)
      | Not_json \<Rightarrow> Inr (v, 0, None)
      | Content cfg \<Rightarrow>
          (case walk_decrypt c v '''' cfg of (plain, n, failed) \<Rightarrow>
             if failed \<noteq> [] then Inl failed
             else if n = 0 then Inr (rotate_key fresh v, 0, None)
             else let v' = rotate_key fresh v
                  in Inr (v', n, Some (walk_reencrypt c v' plain))))"

section \<open>One field\<close>

lemma enc_payload_prefix [simp]: "enc_payload (encrypted_prefix n @ rest) = Some rest"
proof -
  have digits: "takeWhile is_digit (show_nat n @ CHR '':'' # rest) = show_nat n"
    "dropWhile is_digit (show_nat n @ CHR '':'' # rest) = CHR '':'' # rest"
    using show_nat_digits [of n]
    by (auto simp: list_all_iff takeWhile_append dropWhile_append is_digit_def)
  show ?thesis
    by (simp add: enc_payload_def encrypted_prefix_def starts_with_def digits Let_def)
qed

lemma js_split_clean: "sep \<notin> set a \<Longrightarrow> js_split sep a = [a]"
  by (induction a) auto

lemma js_split_piece: "sep \<notin> set a \<Longrightarrow> js_split sep (a @ sep # b) = a # js_split sep b"
  by (induction a) auto

lemma is_encrypted_encrypt: "is_encrypted (encrypt c v s)"
  by (simp add: encrypt_def is_encrypted_def split: prod.splits)

lemma not_encrypted_Nil [simp]: "\<not> is_encrypted ''''"
  by (simp add: is_encrypted_def enc_payload_def starts_with_def)

lemma decrypt_plain: "\<not> is_encrypted s \<Longrightarrow> decrypt c v s = Some s"
  by (simp add: decrypt_def is_encrypted_def)

lemma decrypt_encrypt:
  assumes "crypto_ok c" "\<not> is_encrypted s"
  shows "decrypt c v (encrypt c v s) = Some s"
proof -
  obtain iv tag ct where seal: "seal c (vault_key v) s = (iv, tag, ct)" by (cases "seal c (vault_key v) s")
  have b64: "b64_decode c (b64_encode c x) = x" "CHR '':'' \<notin> set (b64_encode c x)" for x
    using assms(1) by (auto simp: crypto_ok_def)
  have "length iv = iv_bytes \<and> length tag = tag_bytes \<and> unseal c (vault_key v) iv tag ct = Some s"
    using assms(1) unfolding crypto_ok_def by (auto simp: seal dest!: spec [of _ "vault_key v"] spec [of _ s])
  moreover have "js_split (CHR '':'') (js_join '':'' [b64_encode c iv, b64_encode c tag, b64_encode c ct])
      = [b64_encode c iv, b64_encode c tag, b64_encode c ct]"
    by (simp add: js_split_piece js_split_clean b64)
  ultimately show ?thesis
    using assms(2) by (simp add: decrypt_def encrypt_def seal b64 del: js_join.simps)
qed

lemma encrypt_encrypted: "is_encrypted s \<Longrightarrow> encrypt c v s = s"
  by (simp add: encrypt_def)

lemma decrypt_again: "crypto_ok c \<Longrightarrow> decrypt c v (encrypt c v s) = decrypt c v s"
  by (cases "is_encrypted s") (simp_all add: encrypt_encrypted decrypt_encrypt decrypt_plain)

section \<open>Whole configurations\<close>

text \<open>The strings a walk can replace, with the field each is under.\<close>

fun field_strings :: "json \<Rightarrow> (string \<times> string) list"
  and strings_under :: "string \<Rightarrow> json \<Rightarrow> (string \<times> string) list" where
  "field_strings (JArr xs) = concat (map field_strings xs)"
| "field_strings (JObj es) = concat (map (\<lambda>(k, v). strings_under k v) es)"
| "field_strings v = []"
| "strings_under k (JStr s) = [(k, s)]"
| "strings_under k v = field_strings v"

lemma walk_fields_comp:
  shows "walk_fields g (walk_fields f v) = walk_fields (\<lambda>k s. g k (f k s)) v"
    and "walk_field g k (walk_field f k v) = walk_field (\<lambda>k s. g k (f k s)) k v"
proof (induction f v and f k v rule: walk_fields_walk_field.induct)
  case (2 f es)
  then show ?case by auto
qed (auto)

lemma walk_fields_cong:
  shows "(\<forall>(k, s) \<in> set (field_strings v). f k s = g k s) \<Longrightarrow> walk_fields f v = walk_fields g v"
    and "(\<forall>(k', s) \<in> set (strings_under k v). f k' s = g k' s) \<Longrightarrow>
         walk_field f k v = walk_field g k v"
proof (induction f v and f k v rule: walk_fields_walk_field.induct)
  case (2 f es)
  then show ?case by fastforce
qed (auto)

lemma walk_fields_id:
  shows "(\<And>k s. f k s = s) \<Longrightarrow> is_json v \<Longrightarrow> walk_fields f v = v"
    and "(\<And>k s. f k s = s) \<Longrightarrow> is_json v \<Longrightarrow> walk_field f k v = v"
proof (induction f v and f k v rule: walk_fields_walk_field.induct)
  case (1 f xs)
  then show ?case by (auto simp: list_all_iff intro!: map_idI)
next
  case (2 f es)
  have f: "f = (\<lambda>k s. s)" using 2(2) by blast
  have "(case e of (k, v) \<Rightarrow> (k, walk_field f k v)) = e" if "e \<in> set es" for e
    using 2 that by (cases e) (auto simp: list_all_iff f)
  then show ?case by (simp add: map_idI)
qed auto

lemma field_strings_walk:
  shows "field_strings (walk_fields f v) = map (\<lambda>(k, s). (k, f k s)) (field_strings v)"
    and "strings_under k (walk_field f k v) = map (\<lambda>(k, s). (k, f k s)) (strings_under k v)"
proof (induction f v and f k v rule: walk_fields_walk_field.induct)
  case (1 f xs)
  then show ?case by (induction xs) auto
next
  case (2 f es)
  then show ?case by (induction es) auto
qed auto

definition plaintext_secrets :: "json \<Rightarrow> bool" where
  "plaintext_secrets cfg =
     list_all (\<lambda>(k, s). is_secret_field k \<longrightarrow> \<not> is_encrypted s) (field_strings cfg)"

definition no_ciphertext :: "json \<Rightarrow> bool" where
  "no_ciphertext cfg = list_all (\<lambda>(k, s). \<not> is_encrypted s) (field_strings cfg)"

definition all_readable :: "'k crypto \<Rightarrow> 'k vault \<Rightarrow> json \<Rightarrow> bool" where
  "all_readable c v cfg = list_all (\<lambda>(k, s). decrypt c v s \<noteq> None) (field_strings cfg)"

text \<open>The configuration with every readable encrypted field in the clear.\<close>

definition opened :: "'k crypto \<Rightarrow> 'k vault \<Rightarrow> string \<Rightarrow> string \<Rightarrow> string" where
  "opened c v k s = (case decrypt c v s of Some p \<Rightarrow> p | None \<Rightarrow> s)"

definition open_all :: "'k crypto \<Rightarrow> 'k vault \<Rightarrow> json \<Rightarrow> json" where
  "open_all c v cfg = walk_fields (opened c v) cfg"

lemma opened_plain: "\<not> is_encrypted s \<Longrightarrow> opened c v k s = s"
  by (simp add: opened_def decrypt_plain)

lemma opened_Some: "decrypt c v s = Some p \<Longrightarrow> opened c v k s = p"
  by (simp add: opened_def)

lemma opened_None: "decrypt c v s = None \<Longrightarrow> opened c v k s = s"
  by (simp add: opened_def)

lemma both_simps [simp]:
  "fst (both f r r') = f (fst r) (fst r')"
  "fst (snd (both f r r')) = fst (snd r) + fst (snd r')"
  "snd (snd (both f r r')) = snd (snd r) @ snd (snd r')"
  by (simp_all add: both_def)

lemma walk_decrypt_value:
  shows "fst (walk_decrypt c vt path v) = open_all c vt v"
    and "fst (walk_decrypt_field c vt path k v) = walk_field (opened c vt) k v"
    and "fst (walk_decrypt_items c vt path i xs) = map (open_all c vt) xs"
    and "fst (walk_decrypt_fields c vt path es) = map (\<lambda>(k, v). (k, walk_field (opened c vt) k v)) es"
  by (induction c vt path v and c vt path k v and c vt path i xs and c vt path es
      rule: walk_decrypt_walk_decrypt_field_walk_decrypt_items_walk_decrypt_fields.induct)
    (auto simp: open_all_def opened_plain opened_Some opened_None split: option.splits)

lemma walk_decrypt_failed:
  shows "snd (snd (walk_decrypt c vt path v)) = [] \<longleftrightarrow> all_readable c vt v"
    and "snd (snd (walk_decrypt_field c vt path k v)) = [] \<longleftrightarrow>
         list_all (\<lambda>(k, s). decrypt c vt s \<noteq> None) (strings_under k v)"
    and "snd (snd (walk_decrypt_items c vt path i xs)) = [] \<longleftrightarrow> list_all (all_readable c vt) xs"
    and "snd (snd (walk_decrypt_fields c vt path es)) = [] \<longleftrightarrow>
         list_all (\<lambda>(k, v). list_all (\<lambda>(k, s). decrypt c vt s \<noteq> None) (strings_under k v)) es"
proof (induction c vt path v and c vt path k v and c vt path i xs and c vt path es
    rule: walk_decrypt_walk_decrypt_field_walk_decrypt_items_walk_decrypt_fields.induct)
  case (1 c vt path xs)
  then show ?case by (simp add: all_readable_def list_all_iff)
next
  case (2 c vt path es)
  then show ?case by (simp add: all_readable_def list_all_iff case_prod_beta)
qed (auto simp: all_readable_def decrypt_plain split: option.splits)

lemma walk_decrypt_counts:
  shows "fst (snd (walk_decrypt c vt path v)) = 0 \<longleftrightarrow>
         list_all (\<lambda>(k, s). is_encrypted s \<longrightarrow> decrypt c vt s = None) (field_strings v)"
    and "fst (snd (walk_decrypt_field c vt path k v)) = 0 \<longleftrightarrow>
         list_all (\<lambda>(k, s). is_encrypted s \<longrightarrow> decrypt c vt s = None) (strings_under k v)"
    and "fst (snd (walk_decrypt_items c vt path i xs)) = 0 \<longleftrightarrow>
         list_all (\<lambda>v. list_all (\<lambda>(k, s). is_encrypted s \<longrightarrow> decrypt c vt s = None) (field_strings v)) xs"
    and "fst (snd (walk_decrypt_fields c vt path es)) = 0 \<longleftrightarrow>
         list_all (\<lambda>(k, v). list_all (\<lambda>(k, s). is_encrypted s \<longrightarrow> decrypt c vt s = None)
           (strings_under k v)) es"
proof (induction c vt path v and c vt path k v and c vt path i xs and c vt path es
    rule: walk_decrypt_walk_decrypt_field_walk_decrypt_items_walk_decrypt_fields.induct)
  case (1 c vt path xs)
  then show ?case by (simp add: list_all_iff)
next
  case (2 c vt path es)
  then show ?case by (simp add: list_all_iff case_prod_beta)
qed (auto split: option.splits)

lemma walk_count_walk:
  shows "fst (walk_count c vt v) = walk_reencrypt c vt v"
    and "fst (walk_count_field c vt k v) =
         walk_field (\<lambda>k s. if needs_encryption k s then encrypt c vt s else s) k v"
    and "fst (walk_count_items c vt xs) = map (walk_reencrypt c vt) xs"
    and "fst (walk_count_fields c vt es) =
         map (\<lambda>(k, v). (k, walk_field (\<lambda>k s. if needs_encryption k s then encrypt c vt s else s) k v)) es"
  by (induction c vt v and c vt k v and c vt xs and c vt es
      rule: walk_count_walk_count_field_walk_count_items_walk_count_fields.induct)
    (auto simp: walk_reencrypt_def Let_def)

lemma walk_count_zero:
  shows "snd (walk_count c vt v) = 0 \<longleftrightarrow>
         list_all (\<lambda>(k, s). \<not> needs_encryption k s) (field_strings v)"
    and "snd (walk_count_field c vt k v) = 0 \<longleftrightarrow>
         list_all (\<lambda>(k, s). \<not> needs_encryption k s) (strings_under k v)"
    and "snd (walk_count_items c vt xs) = 0 \<longleftrightarrow>
         list_all (\<lambda>v. list_all (\<lambda>(k, s). \<not> needs_encryption k s) (field_strings v)) xs"
    and "snd (walk_count_fields c vt es) = 0 \<longleftrightarrow>
         list_all (\<lambda>(k, v). list_all (\<lambda>(k, s). \<not> needs_encryption k s) (strings_under k v)) es"
proof (induction c vt v and c vt k v and c vt xs and c vt es
    rule: walk_count_walk_count_field_walk_count_items_walk_count_fields.induct)
  case (1 c vt xs)
  then show ?case by (simp add: list_all_iff Let_def)
next
  case (2 c vt es)
  then show ?case by (simp add: list_all_iff case_prod_beta Let_def)
qed (auto simp: Let_def)

lemma decrypt_reencrypted:
  assumes "crypto_ok c" "no_ciphertext cfg" "is_json cfg"
  shows "decrypt_config_secrets c v (walk_reencrypt c v cfg) = cfg"
proof -
  have "decrypt_config_secrets c v (walk_reencrypt c v cfg) = walk_fields (\<lambda>k s. s) cfg"
    unfolding decrypt_config_secrets_def walk_secrets_def walk_reencrypt_def walk_fields_comp
    using assms(2)
    by (intro walk_fields_cong)
      (auto simp: no_ciphertext_def list_all_iff needs_encryption_def decrypt_encrypt [OF assms(1)]
        decrypt_plain)
  then show ?thesis using assms(3) by (simp add: walk_fields_id)
qed

section \<open>Rotation keeps every readable secret\<close>

lemma opened_not_encrypted:
  "no_ciphertext cfg \<Longrightarrow> open_all c v cfg = walk_fields (\<lambda>k s. s) cfg"
  unfolding open_all_def
  by (intro walk_fields_cong) (auto simp: no_ciphertext_def list_all_iff opened_plain)

lemma is_json_walk:
  shows "is_json v \<Longrightarrow> is_json (walk_fields f v)"
    and "is_json v \<Longrightarrow> is_json (walk_field f k v)"
proof (induction f v and f k v rule: walk_fields_walk_field.induct)
  case (2 f es)
  have "map (fst \<circ> (\<lambda>(k, v). (k, walk_field f k v))) es = map fst es" by (induction es) auto
  then show ?case using 2 by (auto simp: list_all_iff jm_wf_def jm_keys_def simp del: map_eq_conv)
qed (auto simp: list_all_iff)

text \<open>A key and a configuration for the witnesses: the cipher marks the text with the key, base64
  spells every character with two letters.\<close>

definition demo_enc :: "string \<Rightarrow> string" where
  "demo_enc s = concat (map (\<lambda>c. let n = of_char c :: nat
     in [char_of (65 + n div 16), char_of (65 + n mod 16)]) s)"

fun demo_dec :: "string \<Rightarrow> string" where
  "demo_dec (a # b # r) =
     char_of (((of_char a :: nat) - 65) * 16 + (of_char b - 65)) # demo_dec r"
| "demo_dec _ = []"

definition demo_crypto :: "char crypto" where
  "demo_crypto =
     \<lparr>seal = (\<lambda>k s. (replicate 12 CHR ''i'', replicate 16 CHR ''t'', k # s)),
      unseal = (\<lambda>k iv tag ct. case ct of [] \<Rightarrow> None | d # s \<Rightarrow> if d = k then Some s else None),
      b64_encode = demo_enc, b64_decode = demo_dec\<rparr>"

lemma demo_char:
  "char_of (((of_char (char_of (65 + n div 16) :: char) :: nat) - 65) * 16
     + (of_char (char_of (65 + n mod 16) :: char) - 65)) = (char_of n :: char)"
  if "n < 256" for n :: nat
proof -
  have "of_char (char_of (65 + n div 16) :: char) = 65 + n div 16"
    "of_char (char_of (65 + n mod 16) :: char) = 65 + n mod 16"
    using that by (simp_all add: take_bit_eq_mod)
  then show ?thesis by simp
qed

lemma demo_inverse: "demo_dec (demo_enc s) = s"
proof (induction s)
  case (Cons c s)
  have "(of_char c :: nat) < 256" by simp
  from demo_char [OF this] Cons show ?case by (simp add: demo_enc_def Let_def)
qed (simp add: demo_enc_def)

lemma demo_no_colon: "CHR '':'' \<notin> set (demo_enc s)"
proof -
  have "CHR '':'' \<noteq> char_of (65 + m)" if "m < 16" for m :: nat
  proof
    assume "CHR '':'' = char_of (65 + m)"
    then have "(of_char (CHR '':'') :: nat) = of_char (char_of (65 + m) :: char)" by simp
    then show False using that by (simp add: take_bit_eq_mod)
  qed
  moreover have "(of_char c :: nat) div 16 < 16" for c :: char
    using nat_of_char_less_256 [of c] by linarith
  ultimately show ?thesis by (auto simp: demo_enc_def Let_def)
qed

lemma demo_crypto_ok: "crypto_ok demo_crypto"
  by (simp add: crypto_ok_def demo_crypto_def demo_inverse demo_no_colon iv_bytes_def tag_bytes_def)

definition demo_vault :: "char vault" where
  "demo_vault = \<lparr>vault_key = CHR ''k'', key_version = 1\<rparr>"

definition demo_config :: json where
  "demo_config =
     JObj [(''apiKey'', JStr ''sk''), (''sync'', JObj [(''githubToken'', JStr ''gh'')])]"

text \<open>C16. For every configuration, with ciphertexts in it or not, and a cipher that decrypts what it
  encrypted: after the secret fields are encrypted, every string under a secret name is a ciphertext,
  and every string that was one or is under another name is as before; encrypting again changes
  nothing; decrypting gives what decrypting the original would have given, which is the original itself
  when it is JSON and no secret field held a ciphertext.\<close>

theorem secrets_roundtrip:
  assumes "crypto_ok c"
  shows "decrypt_config_secrets c v (encrypt_config_secrets c v cfg) = decrypt_config_secrets c v cfg \<and>
    (is_json cfg \<and> plaintext_secrets cfg \<longrightarrow>
       decrypt_config_secrets c v (encrypt_config_secrets c v cfg) = cfg) \<and>
    list_all (\<lambda>(k, s). is_secret_field k \<longrightarrow> is_encrypted s) (field_strings (encrypt_config_secrets c v cfg)) \<and>
    list_all2 (\<lambda>(k, s) (k', s'). k' = k \<and> (is_secret_field k \<and> \<not> is_encrypted s \<or> s' = s))
      (field_strings cfg) (field_strings (encrypt_config_secrets c v cfg)) \<and>
    encrypt_config_secrets c v (encrypt_config_secrets c v cfg) = encrypt_config_secrets c v cfg"
proof -
  have same: "decrypt_config_secrets c v (encrypt_config_secrets c v cfg) = decrypt_config_secrets c v cfg"
    unfolding decrypt_config_secrets_def encrypt_config_secrets_def walk_secrets_def walk_fields_comp
    by (intro walk_fields_cong) (auto simp: decrypt_again [OF assms])
  have plain: "decrypt_config_secrets c v cfg = cfg" if "is_json cfg" "plaintext_secrets cfg"
  proof -
    have "decrypt_config_secrets c v cfg = walk_fields (\<lambda>k s. s) cfg"
      unfolding decrypt_config_secrets_def walk_secrets_def using that(2)
      by (intro walk_fields_cong) (auto simp: plaintext_secrets_def list_all_iff decrypt_plain)
    then show ?thesis using that(1) by (simp add: walk_fields_id)
  qed
  have strings: "field_strings (encrypt_config_secrets c v cfg) =
      map (\<lambda>(k, s). (k, if is_secret_field k then encrypt c v s else s)) (field_strings cfg)"
    by (simp add: encrypt_config_secrets_def walk_secrets_def field_strings_walk)
  have twice: "encrypt_config_secrets c v (encrypt_config_secrets c v cfg) = encrypt_config_secrets c v cfg"
    unfolding encrypt_config_secrets_def walk_secrets_def walk_fields_comp
    by (intro walk_fields_cong) (auto simp: encrypt_encrypted is_encrypted_encrypt)
  show ?thesis
    unfolding strings using same plain twice
    by (auto simp: list_all_iff is_encrypted_encrypt list.rel_map encrypt_encrypted
        intro!: list.rel_refl split: if_splits)
qed

lemma demo_config_ok: "is_json demo_config" "plaintext_secrets demo_config" "no_ciphertext demo_config"
  by (simp_all add: demo_config_def plaintext_secrets_def no_ciphertext_def is_encrypted_def
      enc_payload_def starts_with_def jm_wf_def jm_keys_def)

lemma secrets_roundtrip_witness:
  "decrypt_config_secrets demo_crypto demo_vault
     (encrypt_config_secrets demo_crypto demo_vault demo_config) = demo_config"
  using secrets_roundtrip [OF demo_crypto_ok, of demo_vault demo_config] demo_config_ok(1,2) by blast

text \<open>Rotating the key either aborts, with the paths of the fields the current key cannot open,
  and this exactly when there are such fields; or it installs the fresh key and leaves a file that
  the new vault reads as the old one did, every encrypted field in the clear.\<close>

theorem rotation_keeps_secrets:
  assumes "crypto_ok c" "is_json cfg" "no_ciphertext (open_all c v cfg)"
  shows "if all_readable c v cfg
    then \<exists>n new. rotate_config_keys c fresh v (Content cfg) = Inr (rotate_key fresh v, n, new) \<and>
           decrypt_config_secrets c (rotate_key fresh v)
             (case new of None \<Rightarrow> cfg | Some written \<Rightarrow> written) = open_all c v cfg
    else \<exists>failed. failed \<noteq> [] \<and> rotate_config_keys c fresh v (Content cfg) = Inl failed"
proof -
  obtain plain n failed where w: "walk_decrypt c v '''' cfg = (plain, n, failed)"
    by (cases "walk_decrypt c v '''' cfg")
  have plain: "plain = open_all c v cfg"
    and failed: "failed = [] \<longleftrightarrow> all_readable c v cfg"
    and zero: "n = 0 \<longleftrightarrow> list_all (\<lambda>(k, s). is_encrypted s \<longrightarrow> decrypt c v s = None) (field_strings cfg)"
    using walk_decrypt_value(1) [of c v "''''" cfg] walk_decrypt_failed(1) [of c v "''''" cfg]
      walk_decrypt_counts(1) [of c v "''''" cfg] by (simp_all add: w)
  have json: "is_json (open_all c v cfg)" unfolding open_all_def by (rule is_json_walk [OF assms(2)])
  show ?thesis
  proof (cases "all_readable c v cfg")
    case True
    show ?thesis
    proof (cases "n = 0")
      case True
      then have clear: "no_ciphertext cfg"
        using zero \<open>all_readable c v cfg\<close>
        unfolding no_ciphertext_def all_readable_def list_all_iff by fastforce
      have "decrypt_config_secrets c (rotate_key fresh v) cfg = walk_fields (\<lambda>k s. s) cfg"
        unfolding decrypt_config_secrets_def walk_secrets_def using clear
        by (intro walk_fields_cong) (auto simp: no_ciphertext_def list_all_iff decrypt_plain)
      then have "decrypt_config_secrets c (rotate_key fresh v) cfg = open_all c v cfg"
        using opened_not_encrypted [OF clear, of c v] by (rule trans [OF _ sym])
      then show ?thesis
        using True failed \<open>all_readable c v cfg\<close> by (simp add: rotate_config_keys_def w)
    next
      case False
      then show ?thesis
        using failed True plain decrypt_reencrypted [OF assms(1,3) json, of "rotate_key fresh v"]
        by (simp add: rotate_config_keys_def w Let_def)
    qed
  next
    case False
    then show ?thesis using failed by (simp add: rotate_config_keys_def w)
  qed
qed

definition demo_cipher :: json where
  "demo_cipher = JObj [(''apiKey'', JStr (encrypt demo_crypto demo_vault ''sk'')),
     (''githubToken'', JStr (encrypt demo_crypto demo_vault ''gh''))]"

lemma demo_plain: "\<not> is_encrypted ''sk''" "\<not> is_encrypted ''gh''"
  by (simp_all add: is_encrypted_def enc_payload_def starts_with_def)

lemma demo_cipher_ok:
  "is_json demo_cipher" "all_readable demo_crypto demo_vault demo_cipher"
  "open_all demo_crypto demo_vault demo_cipher =
     JObj [(''apiKey'', JStr ''sk''), (''githubToken'', JStr ''gh'')]"
  by (simp_all add: demo_cipher_def jm_wf_def jm_keys_def all_readable_def open_all_def opened_def
      decrypt_encrypt [OF demo_crypto_ok] demo_plain)

lemma rotation_keeps_secrets_witness:
  "\<exists>n new. rotate_config_keys demo_crypto CHR ''n'' demo_vault (Content demo_cipher) =
       Inr (rotate_key CHR ''n'' demo_vault, n, new) \<and>
     decrypt_config_secrets demo_crypto (rotate_key CHR ''n'' demo_vault)
       (case new of None \<Rightarrow> demo_cipher | Some written \<Rightarrow> written) =
       JObj [(''apiKey'', JStr ''sk''), (''githubToken'', JStr ''gh'')]"
  using rotation_keeps_secrets [OF demo_crypto_ok demo_cipher_ok(1), of demo_vault "CHR ''n''"]
  by (simp add: demo_cipher_ok(2,3) no_ciphertext_def demo_plain)

text \<open>A rotation that rewrites the file stores in the clear every encrypted string whose field
  name is not a secret name: the decrypting walk opens all encrypted strings, the re-encrypting
  walk closes only the secret names.\<close>

theorem rotation_exposes_other_fields:
  assumes "rotate_config_keys c fresh v (Content (JObj es)) = Inr (v', n, Some written)"
    and "jm_get es k = Some (JStr s)" "is_encrypted s" "\<not> is_secret_field k"
  shows "\<exists>p. decrypt c v s = Some p \<and> own written k = Some (JStr p)"
proof -
  obtain plain m failed where w: "walk_decrypt c v '''' (JObj es) = (plain, m, failed)"
    by (cases "walk_decrypt c v '''' (JObj es)")
  from assms(1) have written: "written = walk_reencrypt c (rotate_key fresh v) plain" and ok: "failed = []"
    unfolding rotate_config_keys_def by (auto simp: w Let_def split: if_splits simp del: walk_decrypt.simps)
  have plain: "plain = open_all c v (JObj es)"
    using walk_decrypt_value(1) [of c v "''''" "JObj es"] by (simp add: w del: walk_decrypt.simps)
  have "all_readable c v (JObj es)"
    using walk_decrypt_failed(1) [of c v "''''" "JObj es"] ok by (simp add: w del: walk_decrypt.simps)
  moreover have "(k, JStr s) \<in> set es" using assms(2) by (rule jm_get_in_set)
  ultimately obtain p where p: "decrypt c v s = Some p"
    unfolding all_readable_def by (force simp: list_all_iff)
  have get: "jm_get (map (\<lambda>(k, v). (k, walk_field f k v)) xs) k =
      map_option (walk_field f k) (jm_get xs k)" for f xs
    by (induction xs) (auto simp: jm_get_Cons)
  have "own written k = Some (JStr p)"
    unfolding written plain walk_reencrypt_def open_all_def
    using assms(2,4) p by (simp add: get opened_def needs_encryption_def del: map_map)
  with p show ?thesis by blast
qed

lemma rotation_exposes_other_fields_witness:
  "\<exists>v' n written. rotate_config_keys demo_crypto CHR ''n'' demo_vault (Content demo_cipher) =
       Inr (v', n, Some written) \<and>
     own written ''githubToken'' = Some (JStr ''gh'')"
proof -
  define es where "es = [(''apiKey'', JStr (encrypt demo_crypto demo_vault ''sk'')),
     (''githubToken'', JStr (encrypt demo_crypto demo_vault ''gh''))]"
  have rot: "\<exists>v' n written. rotate_config_keys demo_crypto CHR ''n'' demo_vault (Content (JObj es)) =
       Inr (v', n, Some written)"
    by (simp add: es_def rotate_config_keys_def is_encrypted_encrypt Let_def
        decrypt_encrypt [OF demo_crypto_ok] demo_plain both_def)
  then obtain v' n written where r:
    "rotate_config_keys demo_crypto CHR ''n'' demo_vault (Content (JObj es)) = Inr (v', n, Some written)"
    by blast
  have "\<not> is_secret_field ''githubToken''" by code_simp
  from rotation_exposes_other_fields [OF r _ is_encrypted_encrypt this, of demo_crypto demo_vault "''gh''"]
  have "own written ''githubToken'' = Some (JStr ''gh'')"
    by (auto simp: es_def jm_get_Cons decrypt_encrypt [OF demo_crypto_ok] demo_plain)
  with r show ?thesis unfolding demo_cipher_def es_def by blast
qed

end
