(* ===== verification/Config_Loader.thy ===== *)
theory Config_Loader
  imports Deep_Merge Secret_Vault
begin

text \<open>
  The configuration loader and the configuration store (core/src/storage/config-loader.ts and
  config-store.ts). A configuration is a \<open>json\<close> value; \<open>load_config\<close> layers the built-in
  defaults, the global file, the project-local file, the stripped in-project file, the environment,
  the extra sources and the command line, opens the secrets, picks the active provider keys and
  validates. The files are given by their parsed state; the cache by modification time, the log
  lines and the storage events are left out. The comparison of source names, \<open>localeCompare\<close>, is
  an argument. Errors are values of \<open>config_error\<close>.
\<close>

section \<open>Built-in tables\<close>

definition behavior_defaults :: fields where
  "behavior_defaults =
    [(''version'', JNum 1),
     (''context'', JObj
       [(''mode'', JStr ''balanced''), (''warnThreshold'', JNum (3/5)),
        (''softThreshold'', JNum (3/4)), (''hardThreshold'', JNum (9/10)),
        (''autoCompact'', JBool True), (''preserveK'', JNum 10), (''eliseThreshold'', JNum 2000),
        (''strategy'', JStr ''hybrid'')]),
     (''tools'', JObj
       [(''defaultExecutionStrategy'', JStr ''smart''), (''maxIterations'', JNum 100),
        (''iterationTimeoutMs'', JNum 300000), (''sessionTimeoutMs'', JNum 1800000),
        (''perIterationOutputCapBytes'', JNum 100000), (''descriptionMode'', JObj []),
        (''disabledTools'', JArr []), (''autoExtendLimit'', JBool True),
        (''restrictToProjectRoot'', JBool False)]),
     (''log'', JObj [(''level'', JStr ''info'')]),
     (''features'', JObj
       [(''mcp'', JBool True), (''plugins'', JBool True), (''memory'', JBool True),
        (''modelsRegistry'', JBool True), (''skills'', JBool True), (''prompts'', JBool True),
        (''tokenSavingMode'', JStr ''off''), (''allowOutsideProjectRoot'', JBool True)]),
     (''skills'', JObj [(''readClaudeSkills'', JBool True)]),
     (''mcpServers'', JObj []),
     (''fallbackAuto'', JBool True),
     (''maxConcurrent'', JNum 4),
     (''yolo'', JBool True),
     (''nextPrediction'', JBool False),
     (''hints'', JBool True),
     (''debugStream'', JBool False),
     (''configScope'', JStr ''global''),
     (''indexing'', JObj
       [(''onSessionStart'', JBool True), (''onEdit'', JBool True),
        (''watchExternal'', JBool True), (''debounceMs'', JNum 400)]),
     (''session'', JObj
       [(''auditLevel'', JStr ''standard''),
        (''sampling'', JObj [(''toolProgress'', JObj [(''sampleRate'', JNum 8)])])]),
     (''autonomy'', JObj
       [(''defaultMode'', JStr ''auto''), (''autoProceedDelayMs'', JNum 45000),
        (''autoProceedMaxIterations'', JNum 50),
        (''autonomyNextPrompt'', JStr ''auto {{suggestion}}''),
        (''terminalTitleAnimation'', JBool True), (''yolo'', JBool True),
        (''streamFleet'', JBool True), (''chime'', JBool False), (''confirmExit'', JBool True),
        (''mouseMode'', JBool False), (''enhance'', JBool True), (''enhanceDelayMs'', JNum 60000),
        (''enhanceLanguage'', JStr ''original''), (''statuslineMode'', JStr ''detailed''),
        (''thinkingWord'', JStr ''thinking'')]),
     (''circuitBreaker'', JObj [(''enabled'', JBool False), (''autoKillResetMs'', JNum 60000)]),
     (''modelRuntime'', JObj
       [(''reasoning'', JObj [(''mode'', JStr ''auto'')]), (''cache'', JObj [])])]"

definition in_project_allowed_keys :: "string list" where
  "in_project_allowed_keys =
     [''version'', ''model'', ''cwd'', ''context'', ''tools'', ''features'', ''skills'',
      ''autonomy'', ''indexing'', ''session'', ''log'', ''launch'', ''nextPrediction'', ''hints'',
      ''debugStream'', ''configScope'', ''maxConcurrent'', ''uiLocale'', ''fallbackModels'',
      ''fallbackProfiles'', ''favoriteModels'', ''favoriteModelsOnly'', ''fallbackAuto'',
      ''models'', ''modelMatrix'', ''circuitBreaker'', ''adaptiveConcurrency'', ''modelRuntime'']"

definition known_denied_in_project :: "string list" where
  "known_denied_in_project =
     [''provider'', ''apiKey'', ''baseUrl'', ''providers'', ''mcpServers'', ''hooks'', ''plugins'',
      ''sync'', ''yolo'', ''extensions'', ''hq'', ''acp'', ''fleet'']"

definition known_config_top_level_keys :: "string list" where
  "known_config_top_level_keys =
     [''version'', ''provider'', ''model'', ''apiKey'', ''baseUrl'', ''maxConcurrent'',
      ''uiLocale'', ''providers'', ''models'', ''modelMatrix'', ''context'', ''tools'',
      ''mcpServers'', ''fallbackModels'', ''fallbackProfiles'', ''favoriteModels'',
      ''favoriteModelsOnly'', ''fallbackAuto'', ''hooks'', ''plugins'', ''log'', ''features'',
      ''skills'', ''yolo'', ''nextPrediction'', ''cwd'', ''autonomy'', ''hints'', ''debugStream'',
      ''configScope'', ''indexing'', ''circuitBreaker'', ''adaptiveConcurrency'', ''launch'',
      ''session'', ''modelRuntime'', ''hq'', ''sync'', ''extensions'', ''acp'', ''fleet'']"

definition context_window_modes :: "string list" where
  "context_window_modes = [''balanced'', ''frugal'', ''deep'', ''archival'']"

definition default_indexing :: fields where
  "default_indexing =
     [(''onSessionStart'', JBool True), (''onEdit'', JBool True),
      (''watchExternal'', JBool True), (''debounceMs'', JNum 400)]"

datatype config_error =
    Drift "string list" "string list" "string list"
  | Type_error string
  | Missing_version
  | Unsupported_version json
  | Missing_context
  | Threshold_type string
  | Threshold_order
  | No_provider
  | No_model

section \<open>Seeding the global file\<close>

fun fill_missing :: "fields \<Rightarrow> fields \<Rightarrow> fields \<times> bool" where
  "fill_missing target [] = (target, False)"
| "fill_missing target ((k, d) # ds) =
     (case jm_get target k of
        None \<Rightarrow> (fst (fill_missing (jm_set k d target) ds), True)
      | Some (JObj cur) \<Rightarrow>
          (case d of
             JObj sub \<Rightarrow>
               (let r = fill_missing cur sub;
                    r' = fill_missing (jm_set k (JObj (fst r)) target) ds
                in (fst r', snd r \<or> snd r'))
           | _ \<Rightarrow> fill_missing target ds)
      | Some _ \<Rightarrow> fill_missing target ds)"

datatype file_state = File_missing | File_unreadable | File_garbage | File_json json

text \<open>The content written to the global file, if any.\<close>

definition ensure_global_defaults :: "file_state \<Rightarrow> json option" where
  "ensure_global_defaults f =
     (case (case f of
              File_missing \<Rightarrow> Some []
            | File_json v \<Rightarrow> (case v of JObj es \<Rightarrow> Some es | _ \<Rightarrow> None)
            | _ \<Rightarrow> None) of
        None \<Rightarrow> None
      | Some parsed \<Rightarrow>
          (case fill_missing parsed behavior_defaults of
             (new, changed) \<Rightarrow> if changed then Some (JObj new) else None))"

definition read_json :: "file_state \<Rightarrow> json" where
  "read_json f = (case f of File_json v \<Rightarrow> if truthy v then v else JObj [] | _ \<Rightarrow> JObj [])"

section \<open>The untrusted layer\<close>

definition allow_list_problems :: "string list \<times> string list \<times> string list" where
  "allow_list_problems =
     (filter (\<lambda>k. k \<notin> set in_project_allowed_keys \<and> k \<notin> set known_denied_in_project)
        known_config_top_level_keys,
      filter (\<lambda>k. k \<notin> set known_config_top_level_keys) known_denied_in_project,
      filter (\<lambda>k. k \<in> set in_project_allowed_keys) known_denied_in_project)"

definition assert_allow_list_complete :: "config_error + unit" where
  "assert_allow_list_complete =
     (case allow_list_problems of (missing, stale, duplicate) \<Rightarrow>
        if missing = [] \<and> stale = [] \<and> duplicate = [] then Inr ()
        else Inl (Drift missing stale duplicate))"

text \<open>The removal of some keys from the object under a key, and the names reported.\<close>

definition strip_exec :: "fields \<Rightarrow> fields \<times> string list" where
  "strip_exec out =
     (case jm_get out ''tools'' of
        Some (JObj t) \<Rightarrow>
          (case jm_get t ''exec'' of
             Some (JObj e) \<Rightarrow>
               if js_in ''allow'' e \<or> js_in ''danger'' e
               then (let e1 = (if js_in ''allow'' e then jm_del ''allow'' e else e);
                         e2 = (if js_in ''danger'' e then jm_del ''danger'' e1 else e1)
                     in (jm_set ''tools'' (JObj (jm_set ''exec'' (JObj e2) t)) out,
                         (if js_in ''allow'' e then [''tools.exec.allow''] else []) @
                         (if js_in ''danger'' e then [''tools.exec.danger''] else [])))
               else (out, [])
           | _ \<Rightarrow> (out, []))
      | _ \<Rightarrow> (out, []))"

definition strip_skills :: "fields \<Rightarrow> fields \<times> string list" where
  "strip_skills out =
     (case jm_get out ''skills'' of
        Some (JObj s) \<Rightarrow>
          if js_in ''extraDirs'' s \<or> js_in ''registryUrl'' s
          then (let s1 = (if js_in ''extraDirs'' s then jm_del ''extraDirs'' s else s);
                    s2 = (if js_in ''registryUrl'' s1 then jm_del ''registryUrl'' s1 else s1)
                in (jm_set ''skills'' (JObj s2) out,
                    (if js_in ''extraDirs'' s then [''skills.extraDirs''] else []) @
                    (if js_in ''registryUrl'' s1 then [''skills.registryUrl''] else [])))
          else (out, [])
      | _ \<Rightarrow> (out, []))"

definition strip_unsafe_in_project_fields :: "json \<Rightarrow> config_error + (json \<times> string list)" where
  "strip_unsafe_in_project_fields ip =
     (case assert_allow_list_complete of
        Inl e \<Rightarrow> Inl e
      | Inr _ \<Rightarrow>
          (let entries = js_entries ip;
               out = filter (\<lambda>(k, v). k \<in> set in_project_allowed_keys) entries;
               stripped = filter (\<lambda>k. k \<notin> set in_project_allowed_keys) (map fst entries)
           in case strip_exec out of (out1, names1) \<Rightarrow>
              case strip_skills out1 of (out2, names2) \<Rightarrow>
                Inr (JObj out2, stripped @ names1 @ names2)))"

definition merge_layer :: "json \<Rightarrow> json \<Rightarrow> json" where
  "merge_layer base patch =
     deep_merge \<lparr>side = Prefer_patch, array_handling = Concat_primitives\<rparr> base patch"

section \<open>The environment layer\<close>

definition env_bool :: "string \<Rightarrow> bool" where
  "env_bool v = (to_lower (js_trim v) \<notin> {''0'', ''false'', ''no'', ''off''})"

definition env_log_level :: "string \<Rightarrow> string" where
  "env_log_level v =
     (if v \<in> {''error'', ''warn'', ''info'', ''debug'', ''trace''} then v else ''info'')"

definition set_field :: "string \<Rightarrow> json \<Rightarrow> json \<Rightarrow> json" where
  "set_field k v c = (case c of JObj es \<Rightarrow> JObj (jm_set k v es) | _ \<Rightarrow> c)"

text \<open>Storing an identity field and marking it as environment-sourced: \<open>_envSource\<close> is created as a
  \<open>Set\<close> when absent; any other value there has no \<open>add\<close>.\<close>

definition env_identity :: "string \<Rightarrow> string \<Rightarrow> json \<Rightarrow> config_error + json" where
  "env_identity field v c =
     (let c1 = set_field field (JStr v) c
      in case own c1 ''_envSource'' of
           None \<Rightarrow> Inr (set_field ''_envSource'' (JSet [field]) c1)
         | Some (JSet ss) \<Rightarrow> Inr (set_field ''_envSource'' (JSet (js_add field ss)) c1)
         | Some _ \<Rightarrow> Inl (Type_error ''c._envSource.add''))"

text \<open>A property written on an array is not kept by this value type; on a string, number or boolean
  the assignment throws.\<close>

definition env_level :: "string \<Rightarrow> json \<Rightarrow> config_error + json" where
  "env_level v c =
     (let log = (case own c ''log'' of
                   Some l \<Rightarrow> if truthy l then l else JObj [(''level'', JStr ''info'')]
                 | None \<Rightarrow> JObj [(''level'', JStr ''info'')])
      in case log of
           JObj es \<Rightarrow> Inr (set_field ''log'' (JObj (jm_set ''level'' (JStr (env_log_level v)) es)) c)
         | JArr xs \<Rightarrow> Inr c
         | JSet ss \<Rightarrow> Inr c
         | JFun f \<Rightarrow> Inr c
         | _ \<Rightarrow> Inl (Type_error ''c.log.level''))"

definition spread :: "fields \<Rightarrow> fields \<Rightarrow> fields" where
  "spread base es = fold (\<lambda>(k, v). jm_set k v) es base"

definition env_index :: "string \<Rightarrow> string \<Rightarrow> json \<Rightarrow> config_error + json" where
  "env_index flag v c =
     (let given = (case own c ''indexing'' of None \<Rightarrow> [] | Some i \<Rightarrow> js_entries i)
      in Inr (set_field ''indexing''
           (JObj (jm_set flag (JBool (env_bool v)) (spread default_indexing given))) c))"

definition env_map :: "(string \<times> (string \<Rightarrow> json \<Rightarrow> config_error + json)) list" where
  "env_map =
     [(''WRONGSTACK_PROVIDER'', env_identity ''provider''),
      (''WRONGSTACK_MODEL'', env_identity ''model''),
      (''WRONGSTACK_API_KEY'', env_identity ''apiKey''),
      (''WRONGSTACK_BASE_URL'', env_identity ''baseUrl''),
      (''WRONGSTACK_LOG_LEVEL'', env_level),
      (''WRONGSTACK_INDEX_ON_START'', env_index ''onSessionStart''),
      (''WRONGSTACK_INDEX_ON_EDIT'', env_index ''onEdit''),
      (''WRONGSTACK_INDEX_WATCH'', env_index ''watchExternal'')]"

fun apply_env ::
    "(string \<Rightarrow> string option) \<Rightarrow> (string \<times> (string \<Rightarrow> json \<Rightarrow> config_error + json)) list \<Rightarrow>
     json \<Rightarrow> config_error + json" where
  "apply_env env [] c = Inr c"
| "apply_env env ((name, f) # fs) c =
     (case env name of
        None \<Rightarrow> apply_env env fs c
      | Some v \<Rightarrow>
          if v = '''' then apply_env env fs c
          else case f v c of Inl e \<Rightarrow> Inl e | Inr c' \<Rightarrow> apply_env env fs c')"

section \<open>Extra sources\<close>

text \<open>What \<open>read\<close> gives: a patch, nothing, or an error that is logged and skipped.\<close>

record config_source =
  source_name :: string
  priority :: "rat option"
  patch_read :: "string + json option"

definition source_priority :: "config_source \<Rightarrow> rat" where
  "source_priority s = (case priority s of None \<Rightarrow> 50 | Some p \<Rightarrow> p)"

definition source_le :: "(string \<Rightarrow> string \<Rightarrow> bool) \<Rightarrow> config_source \<Rightarrow> config_source \<Rightarrow> bool" where
  "source_le le a b =
     (if source_priority a \<noteq> source_priority b then source_priority a < source_priority b
      else le (source_name a) (source_name b))"

text \<open>The stable sort of the runtime.\<close>

fun insert_source ::
    "(string \<Rightarrow> string \<Rightarrow> bool) \<Rightarrow> config_source \<Rightarrow> config_source list \<Rightarrow> config_source list" where
  "insert_source le s [] = [s]"
| "insert_source le s (t # ts) =
     (if source_le le s t then s # t # ts else t # insert_source le s ts)"

definition sort_sources ::
    "(string \<Rightarrow> string \<Rightarrow> bool) \<Rightarrow> config_source list \<Rightarrow> config_source list" where
  "sort_sources le ss = foldr (insert_source le) ss []"

definition merge_source :: "config_source \<Rightarrow> json \<Rightarrow> json" where
  "merge_source s cfg =
     (case patch_read s of
        Inl _ \<Rightarrow> cfg
      | Inr None \<Rightarrow> cfg
      | Inr (Some patch) \<Rightarrow>
          if truthy patch \<and> js_entries patch \<noteq> [] then merge_layer cfg patch else cfg)"

section \<open>Choosing the active provider key\<close>

text \<open>\<open>existing && existing.length > 0\<close>.\<close>

definition non_empty :: "json option \<Rightarrow> bool" where
  "non_empty v =
     (case v of
        Some (JStr s) \<Rightarrow> s \<noteq> ''''
      | Some (JArr xs) \<Rightarrow> xs \<noteq> []
      | Some (JObj es) \<Rightarrow> (case jm_get es ''length'' of Some (JNum n) \<Rightarrow> n > 0 | _ \<Rightarrow> False)
      | _ \<Rightarrow> False)"

definition labelled_keys :: "json list \<Rightarrow> (string \<times> string) list" where
  "labelled_keys raw =
     concat (map (\<lambda>k.
       case (own k ''label'', own k ''apiKey'') of
         (Some (JStr l), Some (JStr a)) \<Rightarrow> [(l, a)]
       | _ \<Rightarrow> []) raw)"

definition resolve_provider :: "json \<Rightarrow> json" where
  "resolve_provider pcfg =
     (case own pcfg ''apiKeys'' of
        Some (JArr raw) \<Rightarrow>
          (case labelled_keys raw of
             [] \<Rightarrow> pcfg
           | (l, a) # rest \<Rightarrow>
               if non_empty (own pcfg ''apiKey'') then pcfg
               else
                 (let chosen =
                    (case own pcfg ''activeKey'' of
                       Some (JStr active) \<Rightarrow>
                         (case find (\<lambda>(l', a'). l' = active) ((l, a) # rest) of
                            None \<Rightarrow> a | Some (l', a') \<Rightarrow> if active = '''' then a else a')
                     | _ \<Rightarrow> a)
                  in if chosen \<noteq> '''' then set_field ''apiKey'' (JStr chosen) pcfg else pcfg))
      | _ \<Rightarrow> pcfg)"

definition resolve_providers :: "json \<Rightarrow> json" where
  "resolve_providers cfg =
     (case own cfg ''providers'' of
        Some (JObj ps) \<Rightarrow>
          set_field ''providers'' (JObj (map (\<lambda>(k, p). (k, resolve_provider p)) ps)) cfg
      | Some (JArr ps) \<Rightarrow> set_field ''providers'' (JArr (map resolve_provider ps)) cfg
      | _ \<Rightarrow> cfg)"

section \<open>Validation\<close>

definition number_field :: "json \<Rightarrow> string \<Rightarrow> rat option" where
  "number_field c f = (case own c f of Some (JNum x) \<Rightarrow> Some x | _ \<Rightarrow> None)"

definition validate_behavior :: "json \<Rightarrow> config_error + json" where
  "validate_behavior cfg =
     (case own cfg ''version'' of
        None \<Rightarrow> Inl Missing_version
      | Some v \<Rightarrow>
          if v \<noteq> JNum 1 then Inl (Unsupported_version v)
          else
            (case own cfg ''context'' of
               None \<Rightarrow> Inl Missing_context
             | Some c \<Rightarrow>
                 if \<not> truthy c then Inl Missing_context
                 else
                   (case number_field c ''warnThreshold'' of
                      None \<Rightarrow> Inl (Threshold_type ''warnThreshold'')
                    | Some warn \<Rightarrow>
                   (case number_field c ''softThreshold'' of
                      None \<Rightarrow> Inl (Threshold_type ''softThreshold'')
                    | Some soft \<Rightarrow>
                   (case number_field c ''hardThreshold'' of
                      None \<Rightarrow> Inl (Threshold_type ''hardThreshold'')
                    | Some hard \<Rightarrow>
                        if warn \<ge> soft \<or> soft \<ge> hard then Inl Threshold_order
                        else
                          (case own c ''mode'' of
                             None \<Rightarrow> Inr cfg
                           | Some m \<Rightarrow>
                               if m \<in> JStr ` set context_window_modes then Inr cfg
                               else Inr (set_field ''context''
                                      (set_field ''mode'' (JStr ''balanced'') c) cfg)))))))"

definition validate_identity :: "json \<Rightarrow> config_error + unit" where
  "validate_identity cfg =
     (case own cfg ''provider'' of
        None \<Rightarrow> Inl No_provider
      | Some p \<Rightarrow>
          if \<not> truthy p then Inl No_provider
          else (case own cfg ''model'' of
                  None \<Rightarrow> Inl No_model
                | Some m \<Rightarrow> if truthy m then Inr () else Inl No_model))"

section \<open>Loading\<close>

record load_input =
  global_file :: file_state
  global_writable :: bool
  local_file :: file_state
  in_project_file :: file_state
  in_project_collides :: bool
  environment :: "string \<Rightarrow> string option"
  sources :: "config_source list"
  cli_flags :: "json option"
  strict :: bool

definition seeded_global :: "load_input \<Rightarrow> file_state" where
  "seeded_global i =
     (case ensure_global_defaults (global_file i) of
        None \<Rightarrow> global_file i
      | Some new \<Rightarrow> if global_writable i then File_json new else global_file i)"

definition in_project_layer :: "load_input \<Rightarrow> json" where
  "in_project_layer i =
     (if in_project_collides i then JObj [] else read_json (in_project_file i))"

text \<open>The layers above the files.\<close>

definition upper_layers ::
    "(string \<Rightarrow> string \<Rightarrow> bool) \<Rightarrow> 'k crypto \<Rightarrow> 'k vault option \<Rightarrow> load_input \<Rightarrow> json \<Rightarrow>
     config_error + json" where
  "upper_layers le c vault i cfg =
     (case apply_env (environment i) env_map cfg of
        Inl e \<Rightarrow> Inl e
      | Inr cfg1 \<Rightarrow>
          (let cfg2 = fold merge_source (sort_sources le (sources i)) cfg1;
               cfg3 = (case cli_flags i of None \<Rightarrow> cfg2 | Some f \<Rightarrow> merge_layer cfg2 f);
               cfg4 = (case vault of None \<Rightarrow> cfg3 | Some v \<Rightarrow> decrypt_config_secrets c v cfg3);
               cfg5 = resolve_providers cfg4
           in case validate_behavior cfg5 of
                Inl e \<Rightarrow> Inl e
              | Inr cfg6 \<Rightarrow>
                  if strict i
                  then (case validate_identity cfg6 of Inl e \<Rightarrow> Inl e | Inr _ \<Rightarrow> Inr cfg6)
                  else Inr cfg6))"

definition load_config ::
    "(string \<Rightarrow> string \<Rightarrow> bool) \<Rightarrow> 'k crypto \<Rightarrow> 'k vault option \<Rightarrow> load_input \<Rightarrow>
     config_error + json" where
  "load_config le c vault i =
     (let cfg1 = merge_layer (JObj behavior_defaults) (read_json (seeded_global i));
          cfg2 = merge_layer cfg1 (read_json (local_file i))
      in case strip_unsafe_in_project_fields (in_project_layer i) of
           Inl e \<Rightarrow> Inl e
         | Inr (safe, _) \<Rightarrow> upper_layers le c vault i (merge_layer cfg2 safe))"

section \<open>The synchronisation file\<close>

text \<open>The content written to \<open>sync.json\<close>, and what reading it back gives.\<close>

definition persist_sync_config :: "'k crypto \<Rightarrow> 'k vault option \<Rightarrow> fields \<Rightarrow> fields" where
  "persist_sync_config c vault cfg =
     (case (vault, jm_get cfg ''githubToken'') of
        (Some v, Some (JStr t)) \<Rightarrow>
          if t \<noteq> '''' \<and> \<not> starts_with t ''enc:''
          then jm_set ''githubToken'' (JStr (encrypt c v t)) cfg else cfg
      | _ \<Rightarrow> cfg)"

definition load_sync_config :: "'k crypto \<Rightarrow> 'k vault option \<Rightarrow> file_state \<Rightarrow> json option" where
  "load_sync_config c vault f =
     (case f of
        File_json v \<Rightarrow>
          if \<not> truthy v then None
          else (case vault of
                  None \<Rightarrow> Some v
                | Some vt \<Rightarrow>
                    (case own (decrypt_config_secrets c vt (JObj [(''sync'', v)])) ''sync'' of
                       Some JNull \<Rightarrow> None
                     | r \<Rightarrow> r))
      | _ \<Rightarrow> None)"

section \<open>The configuration store\<close>

text \<open>Only a non-empty \<open>Set\<close> under \<open>_envSource\<close> has a size to test and fields to drop.\<close>

definition strip_ephemeral_fields :: "fields \<Rightarrow> fields" where
  "strip_ephemeral_fields cfg =
     (case jm_get cfg ''_envSource'' of
        Some (JSet ss) \<Rightarrow>
          if ss = [] then cfg else jm_del ''_envSource'' (fold jm_del ss cfg)
      | _ \<Rightarrow> cfg)"

record config_store =
  current :: fields
  store_watchers :: "nat list"

definition store_update :: "fields \<Rightarrow> config_store \<Rightarrow> config_error + (config_store \<times> nat list)" where
  "store_update partial st =
     (let scrubbed = strip_ephemeral_fields partial;
          next = spread (current st) scrubbed
      in case jm_get next ''version'' of
           Some (JNum x) \<Rightarrow>
             if x = 1 then Inr (st\<lparr>current := next\<rparr>, store_watchers st)
             else Inl (Unsupported_version (JNum x))
         | Some v \<Rightarrow> Inl (Unsupported_version v)
         | None \<Rightarrow> Inl Missing_version)"

definition store_section :: "string \<Rightarrow> config_store \<Rightarrow> json option" where
  "store_section k st = jm_get (current st) k"

definition store_extension :: "string \<Rightarrow> config_store \<Rightarrow> json" where
  "store_extension plugin st =
     (case jm_get (current st) ''extensions'' of
        Some (JObj exts) \<Rightarrow>
          (case js_prop exts plugin of
             Some e \<Rightarrow> if truthy e then e else JObj []
           | None \<Rightarrow> JObj [])
      | _ \<Rightarrow> JObj [])"

definition store_watch :: "nat \<Rightarrow> config_store \<Rightarrow> config_store" where
  "store_watch w st = st\<lparr>store_watchers := js_add w (store_watchers st)\<rparr>"

definition store_unwatch :: "nat \<Rightarrow> config_store \<Rightarrow> config_store" where
  "store_unwatch w st = st\<lparr>store_watchers := js_remove w (store_watchers st)\<rparr>"

section \<open>The in-project file cannot reach what it must not\<close>

lemma allow_list_is_complete: "assert_allow_list_complete = Inr ()"
  by code_simp

lemma denied_not_allowed: "k \<in> set known_denied_in_project \<Longrightarrow> k \<notin> set in_project_allowed_keys"
proof -
  have "list_all (\<lambda>k. k \<notin> set in_project_allowed_keys) known_denied_in_project" by code_simp
  then show "k \<in> set known_denied_in_project \<Longrightarrow> ?thesis" by (auto simp: list_all_iff)
qed

lemma index_not_allowed: "show_nat n \<notin> set in_project_allowed_keys"
proof -
  have "list_all (\<lambda>k. \<not> list_all is_digit k) in_project_allowed_keys" by code_simp
  then show ?thesis using show_nat_digits [of n] by (auto simp: list_all_iff)
qed

lemma indexed_not_allowed: "filter (\<lambda>(k, v). k \<in> set in_project_allowed_keys) (indexed xs) = []"
  using index_not_allowed by (auto simp: indexed_def filter_empty_conv dest!: set_zip_leftD)

lemma js_in_plain [simp]: "inherited k = None \<Longrightarrow> js_in k es = jm_has es k"
  by (simp add: js_in_def js_prop_plain jm_has_def)

lemma nested_names [simp]:
  "inherited ''allow'' = None" "inherited ''danger'' = None" "inherited ''extraDirs'' = None"
  "inherited ''registryUrl'' = None"
  by (simp_all add: inherited_def prototype_functions_def)

lemma jm_has_None: "\<not> jm_has m k \<longleftrightarrow> jm_get m k = None"
  by (simp add: jm_has_def)

text \<open>The paths below allowed keys that a repository must not set.\<close>

definition guarded_paths :: "string list list" where
  "guarded_paths =
     [[''tools'', ''exec'', ''allow''], [''tools'', ''exec'', ''danger''],
      [''skills'', ''extraDirs''], [''skills'', ''registryUrl'']]"

text \<open>A stripped layer: nothing outside the allow-list, nothing under a guarded path.\<close>

definition stripped_layer :: "fields \<Rightarrow> bool" where
  "stripped_layer out \<longleftrightarrow>
     jm_wf out \<and> (\<forall>k. k \<notin> set in_project_allowed_keys \<longrightarrow> jm_get out k = None) \<and>
     (\<forall>path \<in> set guarded_paths. at_path path (JObj out) = None)"

lemma strip_exec_get:
  assumes "strip_exec out = (out', names)"
  shows "\<And>k. k \<noteq> ''tools'' \<Longrightarrow> jm_get out' k = jm_get out k"
    and "jm_get out ''tools'' = None \<Longrightarrow> jm_get out' ''tools'' = None"
    and "at_path [''tools'', ''exec'', ''allow''] (JObj out') = None"
    and "at_path [''tools'', ''exec'', ''danger''] (JObj out') = None"
    and "jm_wf out \<Longrightarrow> jm_wf out'"
  using assms unfolding strip_exec_def Let_def
  by (auto simp: jm_has_None own_def split: option.splits json.splits if_splits)

lemma strip_skills_get:
  assumes "strip_skills out = (out', names)"
  shows "\<And>k. k \<noteq> ''skills'' \<Longrightarrow> jm_get out' k = jm_get out k"
    and "jm_get out ''skills'' = None \<Longrightarrow> jm_get out' ''skills'' = None"
    and "at_path [''skills'', ''extraDirs''] (JObj out') = None"
    and "at_path [''skills'', ''registryUrl''] (JObj out') = None"
    and "jm_wf out \<Longrightarrow> jm_wf out'"
  using assms unfolding strip_skills_def Let_def
  by (auto simp: jm_has_None own_def split: option.splits json.splits if_splits)

lemma at_path_two: "at_path [a, b, c] (JObj es) =
    (case jm_get es a of None \<Rightarrow> None | Some v \<Rightarrow> at_path [b, c] v)"
  by simp

lemma strip_result:
  assumes "is_json ip"
  shows "\<exists>out names. strip_unsafe_in_project_fields ip = Inr (JObj out, names) \<and> stripped_layer out"
proof -
  let ?out = "filter (\<lambda>(k, v). k \<in> set in_project_allowed_keys) (js_entries ip)"
  obtain out1 names1 where e: "strip_exec ?out = (out1, names1)" by (cases "strip_exec ?out")
  obtain out2 names2 where s: "strip_skills out1 = (out2, names2)" by (cases "strip_skills out1")
  have wf: "jm_wf ?out"
    using assms by (cases ip) (auto simp: js_entries_def indexed_not_allowed jm_wf_def jm_keys_def
        distinct_map_filter)
  have none: "jm_get ?out k = None" if "k \<notin> set in_project_allowed_keys" for k
    using that by (auto simp: jm_get_None jm_keys_def)
  have tools: "''tools'' \<in> set in_project_allowed_keys" and skills: "''skills'' \<in> set in_project_allowed_keys"
    by code_simp+
  have outside: "jm_get out2 k = None" if "k \<notin> set in_project_allowed_keys" for k
    using that tools skills none strip_exec_get(1) [OF e] strip_skills_get(1) [OF s] by metis
  have same: "jm_get out2 ''tools'' = jm_get out1 ''tools''"
    using strip_skills_get(1) [OF s, of "''tools''"] by simp
  have "at_path path (JObj out2) = None" if "path \<in> set guarded_paths" for path
    using that strip_exec_get(3,4) [OF e] strip_skills_get(3,4) [OF s] same
    by (auto simp: guarded_paths_def)
  then have "stripped_layer out2"
    using strip_skills_get(5) [OF s strip_exec_get(5) [OF e wf]] outside
    by (simp add: stripped_layer_def)
  then show ?thesis
    by (simp add: strip_unsafe_in_project_fields_def allow_list_is_complete e s Let_def)
qed

lemma merge_layer_get:
  "jm_wf p \<Longrightarrow> \<exists>m. merge_layer (JObj b) (JObj p) = JObj m \<and>
     (\<forall>k. jm_get m k =
       (if k \<in> set forbidden_proto_keys then jm_get b k
        else case jm_get p k of None \<Rightarrow> jm_get b k
             | Some v \<Rightarrow> Some (merged_value \<lparr>side = Prefer_patch, array_handling = Concat_primitives\<rparr>
                 (js_prop b k) v)))"
  by (simp add: merge_layer_def merge_entries_get)

text \<open>A merge cannot create a value below a path where the patch has none.\<close>

lemma deep_merge_path:
  assumes "is_json patch" "at_path path patch = None"
    "side opt = Prefer_patch" "path \<noteq> []" "set path \<inter> set forbidden_proto_keys = {}"
  shows "at_path path (deep_merge opt base patch) \<in> {None, at_path path base}"
  using assms
proof (induction path arbitrary: base patch)
  case (Cons k ks)
  show ?case
  proof (cases "is_record base \<and> is_record patch")
    case False
    then have "deep_merge opt base patch = patch \<or> is_array base \<and> is_array patch"
      using Cons.prems(3) deep_merge_pick [of base patch opt] by (auto simp: pick_side_def)
    moreover have "own (deep_merge opt base patch) k = None" if "is_array base \<and> is_array patch"
      using that by (cases base; cases patch)
        (auto simp: merge_arrays_def pick_side_def split: conflict_side.splits)
    ultimately show ?thesis using Cons.prems(2) by auto
  next
    case True
    then obtain b where b: "record_of base = Some b" by (auto simp: is_record_def)
    from True Cons.prems(1) obtain p where p: "patch = JObj p" by (cases patch) auto
    have own: "own (deep_merge opt base patch) k =
        (case jm_get p k of None \<Rightarrow> jm_get b k | Some v \<Rightarrow> Some (merged_value opt (jm_get b k) v))"
      using Cons.prems(1,5) b p merged_value_own [of k opt b]
      by (simp add: merge_entries_get split: option.split)
    have base: "own base k = jm_get b k" using b by (cases base) auto
    show ?thesis
    proof (cases "jm_get p k")
      case None
      then show ?thesis using own base by simp
    next
      case (Some v)
      have at: "at_path ks v = None" using Cons.prems(2) Some p by simp
      then have ne: "ks \<noteq> []" by (cases ks) auto
      have v: "is_json v" using Cons.prems(1) Some p is_json_field by blast
      show ?thesis
      proof (cases "jm_get b k")
        case None
        then show ?thesis using own Some at by (simp add: merged_value_def)
      next
        case e: (Some e)
        have "at_path ks (deep_merge opt e v) \<in> {None, at_path ks e}"
          using Cons.IH [OF v at Cons.prems(3) ne] Cons.prems(5) by simp
        then show ?thesis using own Some e at base by (auto simp: merged_value_def)
      qed
    qed
  qed
qed simp

lemma stripped_is_json:
  assumes "is_json ip" "strip_unsafe_in_project_fields ip = Inr (JObj out, names)"
  shows "is_json (JObj out)"
proof -
  let ?out = "filter (\<lambda>(k, v). k \<in> set in_project_allowed_keys) (js_entries ip)"
  have out: "is_json (JObj ?out)"
    using assms(1) by (cases ip) (auto simp: js_entries_def indexed_not_allowed jm_wf_def jm_keys_def
        distinct_map_filter list_all_iff)
  have exec: "is_json (JObj (fst (strip_exec es)))" if "is_json (JObj es)" for es
    using that unfolding strip_exec_def Let_def
    by (auto split: option.splits json.splits if_splits simp del: is_json.simps
        intro!: is_json_set is_json_del dest: is_json_field)
  have skills: "is_json (JObj (fst (strip_skills es)))" if "is_json (JObj es)" for es
    using that unfolding strip_skills_def Let_def
    by (auto split: option.splits json.splits if_splits simp del: is_json.simps
        intro!: is_json_set is_json_del dest: is_json_field)
  have "out = fst (strip_skills (fst (strip_exec ?out)))"
    using assms(2) by (auto simp: strip_unsafe_in_project_fields_def allow_list_is_complete Let_def
        split: prod.splits)
  then show ?thesis using skills [OF exec [OF out]] by simp
qed

text \<open>Whatever the in-project file holds, merging its stripped content changes no key outside
  the allow-list, and at each guarded path (the executables the agent may run, the danger
  bypasses, the skill directories and registry) the result has the old value or none.\<close>

theorem in_project_confined:
  assumes "is_json ip"
  shows "\<exists>out names merged.
    strip_unsafe_in_project_fields ip = Inr (JObj out, names) \<and>
    merge_layer (JObj cfg) (JObj out) = JObj merged \<and>
    (\<forall>k. if k \<in> set in_project_allowed_keys then True else jm_get merged k = jm_get cfg k) \<and>
    list_all (\<lambda>path. at_path path (JObj merged) \<in> {None, at_path path (JObj cfg)}) guarded_paths"
proof -
  obtain out names where s: "strip_unsafe_in_project_fields ip = Inr (JObj out, names)"
    and layer: "stripped_layer out" using strip_result [OF assms] by blast
  have json: "is_json (JObj out)" by (rule stripped_is_json [OF assms s])
  obtain merged where m: "merge_layer (JObj cfg) (JObj out) = JObj merged"
    and get: "\<And>k. k \<notin> set in_project_allowed_keys \<Longrightarrow> jm_get merged k = jm_get cfg k"
    using merge_layer_get [of out cfg] layer by (auto simp: stripped_layer_def)
  have "at_path path (JObj merged) \<in> {None, at_path path (JObj cfg)}" if "path \<in> set guarded_paths" for path
  proof -
    have "list_all (\<lambda>p. p \<noteq> [] \<and> list_all (\<lambda>k. k \<notin> set forbidden_proto_keys) p) guarded_paths"
      by code_simp
    then have "path \<noteq> []" "set path \<inter> set forbidden_proto_keys = {}"
      using that by (auto simp: list_all_iff)
    then show ?thesis
      using deep_merge_path [OF json, of path "\<lparr>side = Prefer_patch, array_handling = Concat_primitives\<rparr>"
          "JObj cfg"] layer that m
      by (auto simp: stripped_layer_def merge_layer_def)
  qed
  then show ?thesis using s m get by (auto simp: list_all_iff)
qed

definition hostile_project :: json where
  "hostile_project =
     JObj [(''provider'', JStr ''evil''), (''yolo'', JBool True), (''model'', JStr ''m''),
       (''tools'', JObj [(''exec'', JObj [(''allow'', JArr [JStr ''curl'']), (''deny'', JNull)])])]"

lemma in_project_confined_witness:
  "\<exists>out names merged.
    strip_unsafe_in_project_fields hostile_project = Inr (JObj out, names) \<and>
    merge_layer (JObj [(''provider'', JStr ''mine'')]) (JObj out) = JObj merged \<and>
    jm_get merged ''provider'' = Some (JStr ''mine'')"
proof -
  have "is_json hostile_project" by (simp add: hostile_project_def jm_wf_def jm_keys_def)
  from in_project_confined [OF this, of "[(''provider'', JStr ''mine'')]"] obtain out names merged
    where r: "strip_unsafe_in_project_fields hostile_project = Inr (JObj out, names)"
      "merge_layer (JObj [(''provider'', JStr ''mine'')]) (JObj out) = JObj merged"
      and k: "\<And>k. if k \<in> set in_project_allowed_keys then True
        else jm_get merged k = jm_get [(''provider'', JStr ''mine'')] k" by blast
  have "''provider'' \<notin> set in_project_allowed_keys" by code_simp
  with k [of "''provider''"] r show ?thesis by (auto simp: jm_get_Cons)
qed

section \<open>Non-interference of the in-project file\<close>

text \<open>Two configurations that cannot be told apart at key \<open>k\<close>.\<close>

definition agree_at :: "string \<Rightarrow> json \<Rightarrow> json \<Rightarrow> bool" where
  "agree_at k c1 c2 \<longleftrightarrow>
     c1 = c2 \<or> (\<exists>e1 e2. c1 = JObj e1 \<and> c2 = JObj e2 \<and> jm_get e1 k = jm_get e2 k)"

lemma agree_own: "agree_at k c1 c2 \<Longrightarrow> own c1 k = own c2 k"
  by (auto simp: agree_at_def)

lemma agree_objects: "agree_at k (JObj e1) (JObj e2) \<longleftrightarrow> jm_get e1 k = jm_get e2 k"
  by (auto simp: agree_at_def)

lemma merge_entries_local:
  "jm_get b k = jm_get b' k \<Longrightarrow>
   jm_get (merge_entries opt b p) k = jm_get (merge_entries opt b' p) k"
proof (induction p arbitrary: b b')
  case (Cons e p)
  obtain k' v where e: "e = (k', v)" by (cases e)
  have step: "jm_get (jm_set k' (merged_value opt (js_prop b k') v) b) k =
        jm_get (jm_set k' (merged_value opt (js_prop b' k') v) b') k"
    using Cons.prems by (cases "k = k'") (simp_all add: js_prop_def)
  then show ?case
    using Cons.IH [OF step] Cons.IH [OF Cons.prems]
    by (simp add: e merge_entries_Cons del: merge_entries.simps(2))
qed simp

lemma agree_merge: "agree_at k c1 c2 \<Longrightarrow> agree_at k (merge_layer c1 p) (merge_layer c2 p)"
  by (cases p) (auto simp: agree_at_def merge_layer_def pick_side_def intro: merge_entries_local)

text \<open>An environment handler that keeps two configurations indistinguishable at \<open>k\<close>.\<close>

definition transparent :: "string \<Rightarrow> (string \<Rightarrow> json \<Rightarrow> config_error + json) \<Rightarrow> bool" where
  "transparent k f \<longleftrightarrow>
     (\<forall>v c1 c2 d1 d2. agree_at k c1 c2 \<and> f v c1 = Inr d1 \<and> f v c2 = Inr d2 \<longrightarrow> agree_at k d1 d2)"

lemma transparentI:
  assumes "\<And>v e1 e2 d1 d2. jm_get e1 k = jm_get e2 k \<Longrightarrow> f v (JObj e1) = Inr d1 \<Longrightarrow>
    f v (JObj e2) = Inr d2 \<Longrightarrow> agree_at k d1 d2"
  shows "transparent k f"
  unfolding transparent_def
proof (intro allI impI)
  fix v c1 c2 d1 d2
  assume a: "agree_at k c1 c2 \<and> f v c1 = Inr d1 \<and> f v c2 = Inr d2"
  show "agree_at k d1 d2"
  proof (cases "c1 = c2")
    case True
    then have "d1 = d2" using a by auto
    then show ?thesis by (simp add: agree_at_def)
  next
    case False
    then show ?thesis using a assms unfolding agree_at_def [of k c1 c2] by blast
  qed
qed

lemma transparent_identity: "transparent k (env_identity f)"
  by (rule transparentI)
    (auto simp: env_identity_def Let_def set_field_def agree_objects split: option.splits json.splits if_splits)

lemma transparent_level: "k \<noteq> ''log'' \<Longrightarrow> transparent k env_level"
  by (rule transparentI)
    (auto simp: env_level_def Let_def set_field_def agree_objects split: option.splits json.splits if_splits)

lemma transparent_index: "k \<noteq> ''indexing'' \<Longrightarrow> transparent k (env_index f)"
  by (rule transparentI) (auto simp: env_index_def Let_def set_field_def agree_objects)

lemma apply_env_agree:
  "list_all (\<lambda>(name, f). transparent k f) fs \<Longrightarrow> agree_at k c1 c2 \<Longrightarrow>
   apply_env env fs c1 = Inr d1 \<Longrightarrow> apply_env env fs c2 = Inr d2 \<Longrightarrow> agree_at k d1 d2"
proof (induction fs arbitrary: c1 c2)
  case (Cons e fs)
  obtain name f where e: "e = (name, f)" by (cases e)
  show ?case
  proof (cases "env name = None \<or> env name = Some ''''")
    case True
    then show ?thesis using Cons by (auto simp: e)
  next
    case False
    then obtain v x1 x2 where x: "f v c1 = Inr x1" "f v c2 = Inr x2"
      "apply_env env fs x1 = Inr d1" "apply_env env fs x2 = Inr d2"
      using Cons.prems(3,4) by (auto simp: e split: sum.splits option.splits if_splits)
    then have "agree_at k x1 x2" using Cons.prems(1,2) unfolding e transparent_def by auto
    then show ?thesis using Cons.IH Cons.prems(1) x(3,4) by simp
  qed
qed simp

lemma env_map_transparent:
  assumes "k \<notin> set in_project_allowed_keys"
  shows "list_all (\<lambda>(name, f). transparent k f) env_map"
proof -
  have "''log'' \<in> set in_project_allowed_keys" "''indexing'' \<in> set in_project_allowed_keys"
    by code_simp+
  then have "k \<noteq> ''log''" "k \<noteq> ''indexing''" using assms by auto
  then show ?thesis
    by (simp add: env_map_def transparent_identity transparent_level transparent_index)
qed

lemma agree_source: "agree_at k c1 c2 \<Longrightarrow> agree_at k (merge_source s c1) (merge_source s c2)"
  by (auto simp: merge_source_def agree_merge split: sum.splits option.splits)

lemma agree_sources: "agree_at k c1 c2 \<Longrightarrow> agree_at k (fold merge_source ss c1) (fold merge_source ss c2)"
  by (induction ss arbitrary: c1 c2) (auto simp: agree_source)

lemma get_walked: "jm_get (map (\<lambda>(k, v). (k, f k v)) xs) k = map_option (f k) (jm_get xs k)"
  by (induction xs) (auto simp: jm_get_Cons)

lemma agree_decrypt:
  "agree_at k c1 c2 \<Longrightarrow> agree_at k (decrypt_config_secrets c v c1) (decrypt_config_secrets c v c2)"
  by (auto simp: agree_at_def decrypt_config_secrets_def walk_secrets_def get_walked)

lemma agree_resolve:
  assumes "agree_at k c1 c2"
  shows "agree_at k (resolve_providers c1) (resolve_providers c2)"
  using assms unfolding agree_at_def resolve_providers_def set_field_def
  by (auto split: option.splits json.splits)

lemma validate_other:
  assumes "validate_behavior c = Inr d" "k \<noteq> ''context''"
  shows "own d k = own c k"
  using assms unfolding validate_behavior_def set_field_def
  by (auto split: option.splits if_splits json.splits)

lemma upper_layers_agree:
  assumes "upper_layers le c vault i c1 = Inr d1" "upper_layers le c vault i c2 = Inr d2"
    "agree_at k c1 c2" "k \<notin> set in_project_allowed_keys"
  shows "own d1 k = own d2 k"
proof -
  obtain e1 where e1: "apply_env (environment i) env_map c1 = Inr e1"
    using assms(1) by (auto simp: upper_layers_def split: sum.splits)
  obtain e2 where e2: "apply_env (environment i) env_map c2 = Inr e2"
    using assms(2) by (auto simp: upper_layers_def split: sum.splits)
  define up where "up c' = resolve_providers (case vault of
      None \<Rightarrow> (case cli_flags i of None \<Rightarrow> fold merge_source (sort_sources le (sources i)) c'
             | Some f \<Rightarrow> merge_layer (fold merge_source (sort_sources le (sources i)) c') f)
    | Some v \<Rightarrow> decrypt_config_secrets c v
        (case cli_flags i of None \<Rightarrow> fold merge_source (sort_sources le (sources i)) c'
             | Some f \<Rightarrow> merge_layer (fold merge_source (sort_sources le (sources i)) c') f))" for c'
  have "agree_at k e1 e2"
    by (rule apply_env_agree [OF env_map_transparent [OF assms(4)] assms(3) e1 e2])
  then have "agree_at k (up e1) (up e2)"
    unfolding up_def
    by (cases vault; cases "cli_flags i")
      (auto intro!: agree_resolve agree_decrypt agree_merge agree_sources)
  moreover have "validate_behavior (up e1) = Inr d1"
    using assms(1) by (auto simp: upper_layers_def e1 up_def Let_def split: sum.splits if_splits)
  moreover have "validate_behavior (up e2) = Inr d2"
    using assms(2) by (auto simp: upper_layers_def e2 up_def Let_def split: sum.splits if_splits)
  moreover have "k \<noteq> ''context''"
  proof -
    have "''context'' \<in> set in_project_allowed_keys" by code_simp
    then show ?thesis using assms(4) by auto
  qed
  ultimately show ?thesis by (metis agree_own validate_other)
qed

lemma layer_json: "is_json (read_json f)" if "case f of File_json v \<Rightarrow> is_json v | _ \<Rightarrow> True"
  using that by (cases f) (auto simp: read_json_def)

lemma upper_layers_in_project:
  "upper_layers le c vault (i\<lparr>in_project_file := f\<rparr>) cfg = upper_layers le c vault i cfg"
  by (cases i, hypsubst, unfold upper_layers_def load_input.update_convs load_input.select_convs)
    (rule refl)

text \<open>Loading with two different in-project files, all other inputs equal, gives the same value
  under every key outside the allow-list, whenever both loads succeed: the repository's file has
  no influence on the provider, its keys and endpoints, the hooks, the plugins, the servers or
  the confirmation switch.\<close>

theorem in_project_no_influence:
  assumes "load_config le c vault (i\<lparr>in_project_file := File_json ip1\<rparr>) = Inr cfg1"
    and "load_config le c vault (i\<lparr>in_project_file := File_json ip2\<rparr>) = Inr cfg2"
    and "is_json ip1" "is_json ip2" "k \<in> set known_denied_in_project"
  shows "own cfg1 k = own cfg2 k"
proof -
  let ?i1 = "i\<lparr>in_project_file := File_json ip1\<rparr>" and ?i2 = "i\<lparr>in_project_file := File_json ip2\<rparr>"
  let ?base = "merge_layer (merge_layer (JObj behavior_defaults) (read_json (seeded_global i)))
    (read_json (local_file i))"
  have k: "k \<notin> set in_project_allowed_keys" by (rule denied_not_allowed [OF assms(5)])
  have same: "seeded_global ?i1 = seeded_global i" "seeded_global ?i2 = seeded_global i"
    by (simp_all add: seeded_global_def split: option.split)
  have layers: "is_json (in_project_layer ?i1)" "is_json (in_project_layer ?i2)"
    using assms(3,4) by (simp_all add: in_project_layer_def layer_json)
  obtain o1 n1 where o1: "strip_unsafe_in_project_fields (in_project_layer ?i1) = Inr (JObj o1, n1)"
    "stripped_layer o1" using strip_result [OF layers(1)] by blast
  obtain o2 n2 where o2: "strip_unsafe_in_project_fields (in_project_layer ?i2) = Inr (JObj o2, n2)"
    "stripped_layer o2" using strip_result [OF layers(2)] by blast
  have u: "upper_layers le c vault i (merge_layer ?base (JObj o1)) = Inr cfg1"
    "upper_layers le c vault i (merge_layer ?base (JObj o2)) = Inr cfg2"
    using assms(1,2) by (simp_all add: load_config_def same o1 o2 Let_def upper_layers_in_project)
  have "own (merge_layer base (JObj p)) k = own base k" if "stripped_layer p" "is_record base" for base p
  proof -
    have "jm_get p k = None" "jm_wf p" using that(1) k by (auto simp: stripped_layer_def)
    then show ?thesis using that(2) by (cases base) (auto simp: merge_layer_def merge_entries_get)
  qed
  moreover have "merge_layer base (JObj p) = JObj p \<or> is_record base" for base p
    by (cases base) (auto simp: merge_layer_def pick_side_def)
  moreover have "jm_get o1 k = None" "jm_get o2 k = None"
    using o1(2) o2(2) k by (auto simp: stripped_layer_def)
  moreover have "\<exists>es. merge_layer base (JObj p) = JObj es" for base p
    by (cases base) (auto simp: merge_layer_def pick_side_def)
  ultimately have "agree_at k (merge_layer ?base (JObj o1)) (merge_layer ?base (JObj o2))"
    using o1(2) o2(2) unfolding agree_at_def by (metis own_simps(6))
  then show ?thesis by (rule upper_layers_agree [OF u _ k])
qed

definition demo_input :: load_input where
  "demo_input =
     \<lparr>global_file = File_json (JObj [(''provider'', JStr ''mine'')]), global_writable = False,
      local_file = File_missing, in_project_file = File_missing, in_project_collides = False,
      environment = (\<lambda>_. None), sources = [], cli_flags = None, strict = False\<rparr>"

lemma in_project_no_influence_witness:
  "\<exists>cfg. load_config (\<lambda>a b. True) demo_crypto None
       (demo_input\<lparr>in_project_file := File_json hostile_project\<rparr>) = Inr cfg \<and>
     own cfg ''provider'' = Some (JStr ''mine'')"
proof -
  let ?load = "\<lambda>ip. load_config (\<lambda>a b. True) demo_crypto None (demo_input\<lparr>in_project_file := File_json ip\<rparr>)"
  have "case ?load hostile_project of Inr cfg \<Rightarrow> True | Inl e \<Rightarrow> False" by code_simp
  then obtain c1 where c1: "?load hostile_project = Inr c1" by (auto split: sum.splits)
  have "case ?load (JObj []) of Inr cfg \<Rightarrow> own cfg ''provider'' = Some (JStr ''mine'') | Inl e \<Rightarrow> False"
    by code_simp
  then obtain c2 where c2: "?load (JObj []) = Inr c2" "own c2 ''provider'' = Some (JStr ''mine'')"
    by (auto split: sum.splits)
  have "''provider'' \<in> set known_denied_in_project" by code_simp
  from in_project_no_influence [OF c1 c2(1) _ _ this] c1 c2(2) show ?thesis
    by (auto simp: hostile_project_def jm_wf_def jm_keys_def)
qed

section \<open>Seeding only adds\<close>

text \<open>\<open>extends_missing t n\<close>: \<open>n\<close> keeps every value of \<open>t\<close>, objects being extended inside.\<close>

fun extends_missing :: "json \<Rightarrow> json \<Rightarrow> bool" where
  "extends_missing (JObj t) (JObj n) =
     list_all (\<lambda>(k, v). case jm_get n k of None \<Rightarrow> False | Some w \<Rightarrow> extends_missing v w) t"
| "extends_missing v w = (v = w)"

lemma extends_refl: "is_json v \<Longrightarrow> extends_missing v v"
proof (induction v)
  case (JObj es)
  have "case e of (k, v) \<Rightarrow> (case jm_get es k of None \<Rightarrow> False | Some w \<Rightarrow> extends_missing v w)"
    if "e \<in> set es" for e
  proof -
    obtain k v where e: "e = (k, v)" by (cases e)
    have "jm_get es k = Some v" using JObj.prems that e by (simp add: jm_get_eq)
    moreover have "is_json v" using JObj.prems that e by (auto simp: list_all_iff)
    then have "extends_missing v v" using JObj.IH [of e v] that e by simp
    ultimately show ?thesis by (simp add: e)
  qed
  then show ?case by (auto simp: list_all_iff)
qed auto

lemma fill_missing_get:
  shows "jm_wf ds \<Longrightarrow> jm_get (fst (fill_missing t ds)) k =
     (case jm_get t k of
        None \<Rightarrow> jm_get ds k
      | Some v \<Rightarrow>
          Some (case (v, jm_get ds k) of
                  (JObj cur, Some (JObj sub)) \<Rightarrow> JObj (fst (fill_missing cur sub))
                | _ \<Rightarrow> v))"
proof (induction ds arbitrary: t)
  case Nil
  show ?case by (auto split: option.splits json.splits)
next
  case (Cons e ds)
  obtain k' d where e: "e = (k', d)" by (cases e)
  have wf: "jm_wf ds" and fresh: "jm_get ds k' = None"
    using Cons.prems by (auto simp: e jm_wf_def jm_keys_def jm_get_None)
  note IH = Cons.IH [OF wf]
  show ?case
  proof (cases "k = k'")
    case True
    show ?thesis
      by (cases "jm_get t k'")
        (auto simp: e IH [unfolded True] True fresh jm_get_Cons Let_def split: option.splits json.splits)
  next
    case False
    then show ?thesis
      by (cases "jm_get t k'")
        (auto simp: e IH jm_get_Cons Let_def split: option.splits json.splits)
  qed
qed

fun covers :: "json \<Rightarrow> json \<Rightarrow> bool" where
  "covers (JObj t) (JObj ds) =
     list_all (\<lambda>(k, d). case jm_get t k of None \<Rightarrow> False | Some w \<Rightarrow> covers w d) ds"
| "covers v d = True"

lemma covers_refl: "is_json v \<Longrightarrow> covers v v"
proof (induction v)
  case (JObj es)
  have "case e of (k, v) \<Rightarrow> (case jm_get es k of None \<Rightarrow> False | Some w \<Rightarrow> covers w v)"
    if "e \<in> set es" for e
  proof -
    obtain k v where e: "e = (k, v)" by (cases e)
    have "jm_get es k = Some v" using JObj.prems that e by (simp add: jm_get_eq)
    moreover have "is_json v" using JObj.prems that e by (auto simp: list_all_iff)
    then have "covers v v" using JObj.IH [of e v] that e by simp
    ultimately show ?thesis by (simp add: e)
  qed
  then show ?case by (auto simp: list_all_iff)
qed auto

lemma jm_set_same: "jm_get t k = Some v \<Longrightarrow> jm_set k v t = t"
  by (induction t) (auto simp: jm_get_Cons split: if_splits)

lemma covers_stable: "covers (JObj t) (JObj ds) \<Longrightarrow> fill_missing t ds = (t, False)"
proof (induction "JObj ds" arbitrary: t ds rule: measure_induct_rule [of size])
  case less
  have nested: "fill_missing cur sub = (cur, False)"
    if "(k, JObj sub) \<in> set ds" "jm_get t k = Some (JObj cur)" for k sub cur
  proof -
    have "case (k, JObj sub) of (k, d) \<Rightarrow> (case jm_get t k of None \<Rightarrow> False | Some w \<Rightarrow> covers w d)"
      using less.prems that(1) unfolding covers.simps(1) list_all_iff by (rule bspec)
    then have "covers (JObj cur) (JObj sub)" using that(2) by (simp del: covers.simps)
    moreover have "size (JObj sub) < size (JObj ds)" using that(1) by (rule size_field)
    ultimately show ?thesis using less.hyps [of sub cur] by blast
  qed
  have "fill_missing t es = (t, False)" if "set es \<subseteq> set ds" for es
    using that
  proof (induction es)
    case (Cons e es)
    obtain k d where e: "e = (k, d)" by (cases e)
    obtain w where w: "jm_get t k = Some w"
      using less.prems Cons.prems by (auto simp: e list_all_iff split: option.splits)
    have rest: "fill_missing t es = (t, False)" using Cons by simp
    show ?case
    proof (cases "\<exists>cur sub. w = JObj cur \<and> d = JObj sub")
      case True
      then obtain cur sub where o: "w = JObj cur" "d = JObj sub" by blast
      have "(k, JObj sub) \<in> set ds" using Cons.prems by (simp add: e o)
      then have "fill_missing cur sub = (cur, False)" using w o by (intro nested) simp_all
      then show ?thesis using w rest by (simp add: e o jm_set_same)
    next
      case False
      then show ?thesis using w rest by (cases w; cases d) (auto simp: e)
    qed
  qed simp
  then show ?case by simp
qed

lemma fill_covers:
  "is_json (JObj ds) \<Longrightarrow> covers (JObj (fst (fill_missing t ds))) (JObj ds)"
proof (induction "JObj ds" arbitrary: t ds rule: measure_induct_rule [of size])
  case less
  have "case e of (k, d) \<Rightarrow> (case jm_get (fst (fill_missing t ds)) k of
        None \<Rightarrow> False | Some w \<Rightarrow> covers w d)" if e: "e \<in> set ds" for e
  proof -
    obtain k d where kd: "e = (k, d)" by (cases e)
    have get: "jm_get ds k = Some d" using less.prems e kd by (simp add: jm_get_eq)
    have d: "is_json d" using less.prems e kd by (auto simp: list_all_iff)
    have small: "size d < size (JObj ds)" using e kd size_field by blast
    have sub: "covers (JObj (fst (fill_missing cur sub))) (JObj sub)" if "d = JObj sub" for cur sub
      using less.hyps [of sub] small d that by simp
    show ?thesis
      using less.prems get sub covers_refl [OF d] kd
      by (cases "jm_get t k"; cases d) (auto simp: fill_missing_get split: json.splits)
  qed
  then show ?case by (auto simp: list_all_iff)
qed

lemma fill_extends:
  "is_json (JObj t) \<Longrightarrow> is_json (JObj ds) \<Longrightarrow> extends_missing (JObj t) (JObj (fst (fill_missing t ds)))"
proof (induction "JObj t" arbitrary: t ds rule: measure_induct_rule [of size])
  case less
  have "case e of (k, v) \<Rightarrow> (case jm_get (fst (fill_missing t ds)) k of
        None \<Rightarrow> False | Some w \<Rightarrow> extends_missing v w)" if e: "e \<in> set t" for e
  proof -
    obtain k v where kv: "e = (k, v)" by (cases e)
    have get: "jm_get t k = Some v" using less.prems(1) e kv by (simp add: jm_get_eq)
    have v: "is_json v" using less.prems(1) e kv by (auto simp: list_all_iff)
    have small: "size v < size (JObj t)" using e kv size_field by blast
    have sub: "extends_missing (JObj cur) (JObj (fst (fill_missing cur s)))"
      if "v = JObj cur" "jm_get ds k = Some (JObj s)" for cur s
    proof -
      have "is_json (JObj s)" by (rule is_json_field [OF less.prems(2) that(2)])
      then show ?thesis using less.hyps [of cur s] small v that by simp
    qed
    show ?thesis
      using less.prems(2) get sub extends_refl [OF v] kv
      by (cases "jm_get ds k"; cases v) (auto simp: fill_missing_get split: json.splits)
  qed
  then show ?case by (auto simp: list_all_iff)
qed

lemma defaults_json: "is_json (JObj behavior_defaults)"
  by code_simp

text \<open>Seeding the global file keeps every value the user wrote, at every depth, and is done once:
  the file it writes needs no second seeding.\<close>

theorem seeding_once:
  assumes "ensure_global_defaults (File_json v) = Some new" "is_json v"
  shows "extends_missing v new \<and> ensure_global_defaults (File_json new) = None"
proof -
  obtain t where t: "v = JObj t"
    and new: "new = JObj (fst (fill_missing t behavior_defaults))"
    using assms(1) by (auto simp: ensure_global_defaults_def split: json.splits if_splits prod.splits)
  have "fill_missing (fst (fill_missing t behavior_defaults)) behavior_defaults =
        (fst (fill_missing t behavior_defaults), False)"
    by (intro covers_stable fill_covers defaults_json)
  then show ?thesis
    using fill_extends [of t behavior_defaults] assms(2) defaults_json
    by (simp add: t new ensure_global_defaults_def del: is_json.simps extends_missing.simps)
qed

lemma seeding_once_witness:
  "\<exists>new. ensure_global_defaults (File_json (JObj [(''yolo'', JBool False)])) = Some new \<and>
     own new ''yolo'' = Some (JBool False) \<and> ensure_global_defaults (File_json new) = None"
proof -
  have "case ensure_global_defaults (File_json (JObj [(''yolo'', JBool False)])) of
      Some new \<Rightarrow> own new ''yolo'' = Some (JBool False) | None \<Rightarrow> False" by code_simp
  then obtain new where n: "ensure_global_defaults (File_json (JObj [(''yolo'', JBool False)])) = Some new"
    "own new ''yolo'' = Some (JBool False)" by (auto split: option.splits)
  from seeding_once [OF n(1)] n show ?thesis by (auto simp: jm_wf_def jm_keys_def)
qed

section \<open>What the vault does to the loaded configuration\<close>

text \<open>With a vault the marker of environment-sourced fields does not survive loading: no loaded
  configuration has a \<open>Set\<close> under \<open>_envSource\<close>, so the store's scrubbing of environment secrets
  removes nothing from it.\<close>

theorem env_marker_lost:
  assumes "load_config le c (Some v) i = Inr (JObj cfg)"
  shows "strip_ephemeral_fields cfg = cfg"
proof -
  obtain b where u: "upper_layers le c (Some v) i b = Inr (JObj cfg)"
    using assms by (auto simp: load_config_def Let_def split: sum.splits prod.splits)
  then obtain d where val: "validate_behavior (resolve_providers (decrypt_config_secrets c v d)) = Inr (JObj cfg)"
    by (auto simp: upper_layers_def Let_def split: sum.splits if_splits)
  have "own (decrypt_config_secrets c v d) ''_envSource'' \<noteq> Some (JSet ss)" for ss
  proof (cases d)
    case (JObj es)
    have "walk_field f k w \<noteq> JSet ss" for f k w by (cases w) auto
    then show ?thesis
      by (simp add: JObj decrypt_config_secrets_def walk_secrets_def get_walked)
  qed (auto simp: decrypt_config_secrets_def walk_secrets_def)
  moreover have "own (resolve_providers x) ''_envSource'' = own x ''_envSource''" for x
    unfolding resolve_providers_def set_field_def by (auto split: option.splits json.splits)
  ultimately have "own (JObj cfg) ''_envSource'' \<noteq> Some (JSet ss)" for ss
    using validate_other [OF val, of "''_envSource''"] by simp
  then show ?thesis by (auto simp: strip_ephemeral_fields_def split: option.splits json.splits)
qed

lemma env_marker_lost_witness:
  "\<exists>cfg. load_config (\<lambda>a b. True) demo_crypto (Some demo_vault)
       (demo_input\<lparr>environment := [''WRONGSTACK_API_KEY'' \<mapsto> ''sk'']\<rparr>) = Inr (JObj cfg) \<and>
     jm_get (strip_ephemeral_fields cfg) ''apiKey'' = Some (JStr ''sk'')"
proof -
  let ?r = "load_config (\<lambda>a b. True) demo_crypto (Some demo_vault)
       (demo_input\<lparr>environment := [''WRONGSTACK_API_KEY'' \<mapsto> ''sk'']\<rparr>)"
  have "case ?r of Inr (JObj cfg) \<Rightarrow> jm_get cfg ''apiKey'' = Some (JStr ''sk'') | _ \<Rightarrow> False" by code_simp
  then obtain cfg where r: "?r = Inr (JObj cfg)" "jm_get cfg ''apiKey'' = Some (JStr ''sk'')"
    by (auto split: sum.splits json.splits)
  from env_marker_lost [OF r(1)] r show ?thesis by auto
qed

text \<open>The token of the synchronisation file is never decrypted: \<open>githubToken\<close> is not a secret
  field name, so reading back a persisted synchronisation configuration gives the ciphertext.\<close>

theorem sync_token_stays_encrypted:
  assumes "jm_get cfg ''githubToken'' = Some (JStr t)" "t \<noteq> ''''" "\<not> starts_with t ''enc:''"
  shows "\<exists>r. load_sync_config c (Some v) (File_json (JObj (persist_sync_config c (Some v) cfg))) = Some r \<and>
    own r ''githubToken'' = Some (JStr (encrypt c v t))"
proof -
  have n: "\<not> is_secret_field ''githubToken''" by code_simp
  show ?thesis
    using assms n
    by (simp add: load_sync_config_def persist_sync_config_def truthy_def decrypt_config_secrets_def
        walk_secrets_def get_walked jm_get_Cons)
qed

lemma sync_token_stays_encrypted_witness:
  "\<exists>r s. load_sync_config demo_crypto (Some demo_vault)
       (File_json (JObj (persist_sync_config demo_crypto (Some demo_vault)
          [(''githubToken'', JStr ''gh'')]))) = Some r \<and>
     own r ''githubToken'' = Some (JStr s) \<and> is_encrypted s"
  using sync_token_stays_encrypted [of "[(''githubToken'', JStr ''gh'')]" "''gh''" demo_crypto demo_vault]
    is_encrypted_encrypt [of demo_crypto demo_vault "''gh''"]
  by (auto simp: jm_get_Cons starts_with_def)

end
