(* ===== verification/Schema.thy ===== *)
theory Schema
  imports Json
begin

text \<open>
  The JSON Schema subset that guards tool inputs and plugin configurations
  (core/src/utils/json-schema-validate.ts). \<open>walk_schema\<close> is the validator, with its depth cap,
  \<open>deep_equal\<close> the comparison behind \<open>enum\<close>. \<open>conforms\<close> is what the walk
  accepts without its paths, depths and errors; \<open>well_typed\<close> is the typing relation the validator is meant
  to decide, stated in its own terms.
  A schema is its recognised keywords; other keywords are ignored by the code. The text of a
  message is the constructor of \<open>schema_problem\<close>.
\<close>

datatype schema =
  Schema (schema_type: "string option")
    (schema_properties: "(string \<times> schema) list")
    (schema_required: "string list")
    (schema_items: "schema option")
    (schema_enum: "json list option")

datatype schema_problem =
    Too_deep
  | Not_in_enum "json list" json
  | Expected_type string string
  | Missing_property

type_synonym schema_error = "string \<times> schema_problem"

definition max_schema_depth :: nat where "max_schema_depth = 64"

section \<open>Comparison\<close>

text \<open>\<open>b[k]\<close> for any value: the methods an array inherits are left out, since no JSON value equals
  them.\<close>

definition js_get :: "json \<Rightarrow> string \<Rightarrow> json option" where
  "js_get b k =
     (case b of
        JObj es \<Rightarrow> js_prop es k
      | JSet _ \<Rightarrow> js_prop [] k
      | JArr xs \<Rightarrow>
          (if k = ''length'' then Some (JNum (of_nat (length xs))) else jm_get (indexed xs) k)
      | _ \<Rightarrow> None)"

definition key_count :: "json \<Rightarrow> nat option" where
  "key_count b =
     (case b of JObj es \<Rightarrow> Some (length es) | JSet _ \<Rightarrow> Some 0 | JArr xs \<Rightarrow> Some (length xs) | _ \<Rightarrow> None)"

fun deep_equal :: "json \<Rightarrow> json \<Rightarrow> bool"
  and items_equal :: "json list \<Rightarrow> json list \<Rightarrow> bool"
  and indices_equal :: "nat \<Rightarrow> json list \<Rightarrow> json \<Rightarrow> bool"
  and fields_equal :: "fields \<Rightarrow> json \<Rightarrow> bool" where
  "deep_equal (JArr xs) b =
     (case b of
        JArr ys \<Rightarrow> length xs = length ys \<and> items_equal xs ys
      | _ \<Rightarrow> key_count b = Some (length xs) \<and> indices_equal 0 xs b)"
| "deep_equal (JObj es) b = (key_count b = Some (length es) \<and> fields_equal es b)"
| "deep_equal (JSet ss) b = (key_count b = Some 0)"
| "deep_equal a b = (a = b)"
| "items_equal [] ys = True"
| "items_equal (x # xs) ys =
     (case ys of [] \<Rightarrow> False | y # ys' \<Rightarrow> deep_equal x y \<and> items_equal xs ys')"
| "indices_equal i [] b = True"
| "indices_equal i (x # xs) b =
     ((case js_get b (show_nat i) of None \<Rightarrow> False | Some y \<Rightarrow> deep_equal x y) \<and>
      indices_equal (Suc i) xs b)"
| "fields_equal [] b = True"
| "fields_equal ((k, v) # es) b =
     ((case js_get b k of None \<Rightarrow> False | Some w \<Rightarrow> deep_equal v w) \<and> fields_equal es b)"

section \<open>Types\<close>

definition is_integer :: "rat \<Rightarrow> bool" where
  "is_integer x = (x = of_int \<lfloor>x\<rfloor>)"

definition check_type :: "json \<Rightarrow> string \<Rightarrow> bool" where
  "check_type v t =
     (if t = ''string'' then (case v of JStr _ \<Rightarrow> True | _ \<Rightarrow> False)
      else if t = ''number'' then (case v of JNum _ \<Rightarrow> True | _ \<Rightarrow> False)
      else if t = ''integer'' then (case v of JNum x \<Rightarrow> is_integer x | _ \<Rightarrow> False)
      else if t = ''boolean'' then (case v of JBool _ \<Rightarrow> True | _ \<Rightarrow> False)
      else if t = ''null'' then v = JNull
      else if t = ''array'' then is_array v
      else if t = ''object'' then is_record v
      else True)"

definition describe_type :: "json \<Rightarrow> string" where
  "describe_type v =
     (case v of JNull \<Rightarrow> ''null'' | JArr _ \<Rightarrow> ''array'' | _ \<Rightarrow> js_typeof v)"

section \<open>The walk\<close>

definition join_path :: "string \<Rightarrow> string \<Rightarrow> string" where
  "join_path parent key = (if parent = '''' then key else parent @ ''.'' @ key)"

definition root_path :: "string \<Rightarrow> string" where
  "root_path path = (if path = '''' then ''<root>'' else path)"

definition enum_ok :: "json \<Rightarrow> schema \<Rightarrow> bool" where
  "enum_ok v s =
     (case schema_enum s of None \<Rightarrow> True | Some es \<Rightarrow> list_ex (\<lambda>e. deep_equal e v) es)"

definition type_ok :: "json \<Rightarrow> schema \<Rightarrow> bool" where
  "type_ok v s = (case schema_type s of None \<Rightarrow> True | Some t \<Rightarrow> check_type v t)"

definition missing_errors :: "string \<Rightarrow> fields \<Rightarrow> string list \<Rightarrow> schema_error list" where
  "missing_errors path obj req =
     map (\<lambda>k. (join_path path k, Missing_property)) (filter (\<lambda>k. \<not> js_in k obj) req)"

function (sequential) walk_schema :: "schema \<Rightarrow> json \<Rightarrow> string \<Rightarrow> nat \<Rightarrow> schema_error list"
  and walk_properties ::
    "(string \<times> schema) list \<Rightarrow> fields \<Rightarrow> string \<Rightarrow> nat \<Rightarrow> schema_error list"
  and walk_items :: "schema \<Rightarrow> json list \<Rightarrow> string \<Rightarrow> nat \<Rightarrow> nat \<Rightarrow> schema_error list" where
  "walk_schema (Schema ty props req items enum) v path depth =
     (let s = Schema ty props req items enum
      in if depth > max_schema_depth then [(root_path path, Too_deep)]
         else if \<not> enum_ok v s then [(root_path path, Not_in_enum (the enum) v)]
         else if \<not> type_ok v s then [(root_path path, Expected_type (the ty) (describe_type v))]
         else
           (case record_of v of
              Some obj \<Rightarrow>
                if ty = Some ''object''
                then missing_errors path obj req @ walk_properties props obj path (Suc depth)
                else []
            | None \<Rightarrow> []) @
           (case v of
              JArr xs \<Rightarrow>
                if ty = Some ''array''
                then (case items of None \<Rightarrow> [] | Some it \<Rightarrow> walk_items it xs path 0 (Suc depth))
                else []
            | _ \<Rightarrow> []))"
| "walk_properties [] obj path depth = []"
| "walk_properties ((k, sub) # props) obj path depth =
     (case js_prop obj k of
        None \<Rightarrow> []
      | Some w \<Rightarrow> walk_schema sub w (join_path path k) depth) @
     walk_properties props obj path depth"
| "walk_items it [] path i depth = []"
| "walk_items it (x # xs) path i depth =
     walk_schema it x (path @ ''['' @ show_nat i @ '']'') depth @ walk_items it xs path (Suc i) depth"
  by pat_completeness auto
termination
  by (relation "measures
      [\<lambda>x. case x of Inl (s, v, path, d) \<Rightarrow> 2 * size s
         | Inr (Inl (ps, obj, path, d)) \<Rightarrow> 2 * size_list (size_prod (\<lambda>_. 0) size) ps + 1
         | Inr (Inr (it, xs, path, i, d)) \<Rightarrow> 2 * size it + 1,
       \<lambda>x. case x of Inl _ \<Rightarrow> 0 | Inr (Inl _) \<Rightarrow> 0 | Inr (Inr (it, xs, path, i, d)) \<Rightarrow> Suc (length xs)]")
    auto

definition validate_against_schema :: "json \<Rightarrow> schema \<Rightarrow> bool \<times> schema_error list" where
  "validate_against_schema v s = (let es = walk_schema s v '''' 0 in (es = [], es))"

section \<open>The typing relation\<close>

inductive conforms :: "json \<Rightarrow> schema \<Rightarrow> bool" where
  conforms_intro:
  "enum_ok v (Schema ty props req items enum) \<Longrightarrow> type_ok v (Schema ty props req items enum) \<Longrightarrow>
   (\<forall>obj. ty = Some ''object'' \<and> record_of v = Some obj \<longrightarrow>
      list_all (\<lambda>k. js_in k obj) req \<and>
      (\<forall>k sub w. (k, sub) \<in> set props \<and> js_prop obj k = Some w \<longrightarrow> conforms w sub)) \<Longrightarrow>
   (\<forall>xs it. ty = Some ''array'' \<and> v = JArr xs \<and> items = Some it \<longrightarrow>
      (\<forall>x. x \<in> set xs \<longrightarrow> conforms x it)) \<Longrightarrow>
   conforms v (Schema ty props req items enum)"

inductive_simps conforms_schema: "conforms v (Schema ty props req items enum)"

text \<open>The nesting of a schema below its root.\<close>

fun schema_height :: "schema \<Rightarrow> nat" where
  "schema_height (Schema ty props req items enum) =
     max (foldr (\<lambda>(k, sub) m. max (Suc (schema_height sub)) m) props 0)
       (case items of None \<Rightarrow> 0 | Some it \<Rightarrow> Suc (schema_height it))"

lemma height_property:
  "(k, sub) \<in> set props \<Longrightarrow> schema_height sub < schema_height (Schema ty props req items enum)"
proof -
  have "Suc (schema_height sub) \<le> foldr (\<lambda>(k, sub) m. max (Suc (schema_height sub)) m) props 0"
    if "(k, sub) \<in> set props" for props
    using that by (induction props) auto
  then show "(k, sub) \<in> set props \<Longrightarrow> ?thesis" by (simp add: le_max_iff_disj Suc_le_eq less_max_iff_disj)
qed

lemma height_items: "schema_height it < schema_height (Schema ty props req (Some it) enum)"
  by simp

lemma missing_errors_Nil: "missing_errors path obj req = [] \<longleftrightarrow> list_all (\<lambda>k. js_in k obj) req"
  by (auto simp: missing_errors_def filter_empty_conv list_all_iff)

lemma record_not_array: "record_of v = Some obj \<Longrightarrow> v \<noteq> JArr xs"
  by (cases v) auto

lemma walk_sound:
  shows "walk_schema s v path d = [] \<Longrightarrow> conforms v s"
    and "walk_properties props obj path d = [] \<Longrightarrow> (k, sub) \<in> set props \<Longrightarrow>
         js_prop obj k = Some w \<Longrightarrow> conforms w sub"
    and "walk_items it xs path i d = [] \<Longrightarrow> x \<in> set xs \<Longrightarrow> conforms x it"
proof (induction s v path d and props obj path d and it xs path i d
    arbitrary: and k sub w and x rule: walk_schema_walk_properties_walk_items.induct)
  case (1 ty props req items enum v path depth)
  then show ?case
    by (auto simp: conforms_schema Let_def missing_errors_Nil split: if_splits option.splits json.splits)
next
  case (3 k' sub' props obj path depth)
  then show ?case by (auto split: option.splits)
qed auto

lemma walk_complete:
  shows "conforms v s \<Longrightarrow> d + schema_height s \<le> max_schema_depth \<Longrightarrow> walk_schema s v path d = []"
    and "(\<forall>k sub w. (k, sub) \<in> set props \<and> js_prop obj k = Some w \<longrightarrow> conforms w sub) \<Longrightarrow>
         (\<forall>k sub. (k, sub) \<in> set props \<longrightarrow> d + schema_height sub \<le> max_schema_depth) \<Longrightarrow>
         walk_properties props obj path d = []"
    and "(\<forall>x. x \<in> set xs \<longrightarrow> conforms x it) \<Longrightarrow> d + schema_height it \<le> max_schema_depth \<Longrightarrow>
         walk_items it xs path i d = []"
proof (induction s v path d and props obj path d and it xs path i d
    rule: walk_schema_walk_properties_walk_items.induct)
  case (1 ty props req items enum v path depth)
  have c: "enum_ok v (Schema ty props req items enum)" "type_ok v (Schema ty props req items enum)"
    "\<not> depth > max_schema_depth"
    using 1(3,4) by (auto simp: conforms_schema simp del: schema_height.simps)
  have props: "walk_properties props obj path (Suc depth) = []" "missing_errors path obj req = []"
    if "ty = Some ''object''" "record_of v = Some obj" for obj
  proof -
    have "Suc depth + schema_height sub \<le> max_schema_depth" if "(k, sub) \<in> set props" for k sub
      using height_property [OF that, of ty req items enum] 1(4) by linarith
    then show "walk_properties props obj path (Suc depth) = []"
      using 1(1) [OF refl _ _ _ that(2)] 1(3) that c by (auto simp: conforms_schema)
    show "missing_errors path obj req = []"
      using 1(3) that by (simp add: conforms_schema missing_errors_Nil)
  qed
  have items: "walk_items it xs path 0 (Suc depth) = []"
    if "ty = Some ''array''" "v = JArr xs" "items = Some it" for it xs
  proof -
    have "Suc depth + schema_height it \<le> max_schema_depth"
      using height_items [of it ty props req enum] 1(4) unfolding that(3) by linarith
    then show ?thesis using 1(2) [OF refl] 1(3) that c by (auto simp: conforms_schema)
  qed
  show ?case using c props items by (auto simp: Let_def split: option.splits json.splits)
qed (auto split: option.splits)

section \<open>Typing in its own terms\<close>

text \<open>The kinds of JSON values by their names; a value has any kind whose name is not one of the seven.\<close>

inductive of_kind :: "json \<Rightarrow> string \<Rightarrow> bool" where
  kind_string: "of_kind (JStr s) ''string''"
| kind_number: "of_kind (JNum x) ''number''"
| kind_integer: "of_kind (JNum (of_int z)) ''integer''"
| kind_boolean: "of_kind (JBool b) ''boolean''"
| kind_null: "of_kind JNull ''null''"
| kind_array: "of_kind (JArr xs) ''array''"
| kind_object: "of_kind (JObj es) ''object''"
| kind_unknown: "t \<notin> {''string'', ''number'', ''integer'', ''boolean'', ''null'', ''array'', ''object''} \<Longrightarrow> of_kind v t"

text \<open>A value has the type of a schema when it is a member of the enumeration, has the kind, has every
  required name as a field of its own, and its fields and items have the types given for them. Names
  count for the kind \<open>object\<close> only and items for the kind \<open>array\<close>.\<close>

inductive well_typed :: "json \<Rightarrow> schema \<Rightarrow> bool" where
  well_typed_intro:
  "(\<forall>es. enum = Some es \<longrightarrow> v \<in> set es) \<Longrightarrow>
   (\<forall>t. ty = Some t \<longrightarrow> of_kind v t) \<Longrightarrow>
   (\<forall>fs. ty = Some ''object'' \<and> v = JObj fs \<longrightarrow>
      set req \<subseteq> fst ` set fs \<and>
      (\<forall>k sub w. (k, sub) \<in> set props \<and> (k, w) \<in> set fs \<longrightarrow> well_typed w sub)) \<Longrightarrow>
   (\<forall>xs it. ty = Some ''array'' \<and> v = JArr xs \<and> items = Some it \<longrightarrow>
      (\<forall>x. x \<in> set xs \<longrightarrow> well_typed x it)) \<Longrightarrow>
   well_typed v (Schema ty props req items enum)"

inductive_simps well_typed_schema: "well_typed v (Schema ty props req items enum)"

inductive_simps of_kind_simps:
  "of_kind v ''string''" "of_kind v ''number''" "of_kind v ''integer''" "of_kind v ''boolean''"
  "of_kind v ''null''" "of_kind v ''array''" "of_kind v ''object''"

text \<open>The schemas whose enumerations list only null, booleans, numbers and strings, and whose property
  names are not those of what every object inherits.\<close>

fun scalar :: "json \<Rightarrow> bool" where
  "scalar JNull = True"
| "scalar (JBool b) = True"
| "scalar (JNum x) = True"
| "scalar (JStr s) = True"
| "scalar v = False"

fun plain_schema :: "schema \<Rightarrow> bool" where
  "plain_schema (Schema ty props req items enum) \<longleftrightarrow>
     (case enum of None \<Rightarrow> True | Some es \<Rightarrow> list_all scalar es) \<and>
     list_all (\<lambda>k. inherited k = None) req \<and>
     list_all (\<lambda>(k, sub). inherited k = None \<and> plain_schema sub) props \<and>
     (case items of None \<Rightarrow> True | Some it \<Rightarrow> plain_schema it)"

lemma enum_ok_plain:
  "(case enum of None \<Rightarrow> True | Some es \<Rightarrow> list_all scalar es) \<Longrightarrow>
   enum_ok v (Schema ty props req items enum) \<longleftrightarrow> (\<forall>es. enum = Some es \<longrightarrow> v \<in> set es)"
proof -
  have "deep_equal e v \<longleftrightarrow> e = v" if "scalar e" for e
    using that by (cases e) auto
  then show "(case enum of None \<Rightarrow> True | Some es \<Rightarrow> list_all scalar es) \<Longrightarrow> ?thesis"
    by (cases enum) (auto simp: enum_ok_def list_ex_iff list_all_iff)
qed

lemma check_type_kind:
  assumes "is_json v"
  shows "check_type v t \<longleftrightarrow> of_kind v t"
proof (cases "t \<in> {''string'', ''number'', ''integer'', ''boolean'', ''null'', ''array'', ''object''}")
  case True
  have int: "is_integer x \<longleftrightarrow> (\<exists>z. x = of_int z)" for x
    by (auto simp: is_integer_def intro: floor_of_int [symmetric])
  from True show ?thesis
    using assms by (cases v) (auto simp: check_type_def of_kind_simps int)
next
  case False
  then have "of_kind v t" by (rule kind_unknown)
  moreover have "check_type v t" using False by (simp add: check_type_def)
  ultimately show ?thesis by simp
qed

lemma type_ok_kind:
  "is_json v \<Longrightarrow> type_ok v (Schema ty props req items enum) \<longleftrightarrow> (\<forall>t. ty = Some t \<longrightarrow> of_kind v t)"
  by (cases ty) (simp_all add: type_ok_def check_type_kind)

lemma own_fields:
  assumes "is_json (JObj fs)" "inherited k = None"
  shows "js_prop fs k = Some w \<longleftrightarrow> (k, w) \<in> set fs" "js_in k fs \<longleftrightarrow> k \<in> fst ` set fs"
proof -
  have wf: "jm_wf fs" using assms(1) by simp
  show "js_prop fs k = Some w \<longleftrightarrow> (k, w) \<in> set fs"
    using assms(2) by (simp add: js_prop_plain jm_get_eq [OF wf])
  show "js_in k fs \<longleftrightarrow> k \<in> fst ` set fs"
    using assms(2) jm_get_eq [OF wf, of k] by (force simp: js_prop_plain js_in_def image_iff)
qed

lemma conforms_well_typed:
  "plain_schema s \<Longrightarrow> is_json v \<Longrightarrow> conforms v s \<longleftrightarrow> well_typed v s"
proof (induction "schema_height s" arbitrary: s v rule: less_induct)
  case less
  obtain ty props req items enum where s: "s = Schema ty props req items enum" by (cases s)
  have plain: "list_all (\<lambda>k. inherited k = None) req" "\<And>k sub. (k, sub) \<in> set props \<Longrightarrow> inherited k = None \<and> plain_schema sub"
    using less.prems(1) by (auto simp: s list_all_iff)
  have fields: "(list_all (\<lambda>k. js_in k obj) req \<and>
        (\<forall>k sub w. (k, sub) \<in> set props \<and> js_prop obj k = Some w \<longrightarrow> conforms w sub)) \<longleftrightarrow>
      (set req \<subseteq> fst ` set obj \<and>
        (\<forall>k sub w. (k, sub) \<in> set props \<and> (k, w) \<in> set obj \<longrightarrow> well_typed w sub))"
    if v: "v = JObj obj" for obj
  proof -
    have json: "is_json (JObj obj)" using less.prems(2) v by simp
    have "js_in k obj \<longleftrightarrow> k \<in> fst ` set obj" if "k \<in> set req" for k
      using own_fields(2) [OF json] plain(1) that by (auto simp: list_all_iff)
    moreover have "js_prop obj k = Some w \<longleftrightarrow> (k, w) \<in> set obj" if "(k, sub) \<in> set props" for k sub w
      using own_fields(1) [OF json] plain(2) [OF that] by blast
    moreover have "conforms w sub \<longleftrightarrow> well_typed w sub" if "(k, sub) \<in> set props" "(k, w) \<in> set obj" for k sub w
    proof (rule less.hyps)
      show "schema_height sub < schema_height s" unfolding s by (rule height_property [OF that(1)])
      show "plain_schema sub" using plain(2) [OF that(1)] by simp
      show "is_json w" using json that(2) by (auto simp: list_all_iff)
    qed
    ultimately show ?thesis by (simp add: list_all_iff subset_iff) metis
  qed
  have items: "conforms x it \<longleftrightarrow> well_typed x it"
    if "v = JArr xs" "items = Some it" "x \<in> set xs" for xs it x
  proof (rule less.hyps)
    show "schema_height it < schema_height s" unfolding s that(2) by (rule height_items)
    show "plain_schema it" using less.prems(1) by (simp add: s that(2))
    show "is_json x" using less.prems(2) that by (auto simp: list_all_iff)
  qed
  have set: "v \<noteq> JSet ss" for ss using less.prems(2) by auto
  then have rec: "record_of v = Some obj \<longleftrightarrow> v = JObj obj" for obj by (cases v) auto
  have enum: "(case enum of None \<Rightarrow> True | Some es \<Rightarrow> list_all scalar es)"
    using less.prems(1) by (simp add: s)
  show ?case
    unfolding s conforms_schema well_typed_schema enum_ok_plain [OF enum] type_ok_kind [OF less.prems(2)] rec
  proof (intro conj_cong refl)
    show "(\<forall>obj. ty = Some ''object'' \<and> v = JObj obj \<longrightarrow>
        list_all (\<lambda>k. js_in k obj) req \<and>
        (\<forall>k sub w. (k, sub) \<in> set props \<and> js_prop obj k = Some w \<longrightarrow> conforms w sub)) \<longleftrightarrow>
      (\<forall>fs. ty = Some ''object'' \<and> v = JObj fs \<longrightarrow>
        set req \<subseteq> fst ` set fs \<and>
        (\<forall>k sub w. (k, sub) \<in> set props \<and> (k, w) \<in> set fs \<longrightarrow> well_typed w sub))"
      by (intro iff_allI imp_cong refl fields) (erule conjunct2)
    show "(\<forall>xs it. ty = Some ''array'' \<and> v = JArr xs \<and> items = Some it \<longrightarrow>
        (\<forall>x. x \<in> set xs \<longrightarrow> conforms x it)) \<longleftrightarrow>
      (\<forall>xs it. ty = Some ''array'' \<and> v = JArr xs \<and> items = Some it \<longrightarrow>
        (\<forall>x. x \<in> set xs \<longrightarrow> well_typed x it))"
      by (intro iff_allI imp_cong refl) (rule items; simp)
  qed
qed

text \<open>C36. Validation decides typing: for a JSON value and a schema whose enumerations list only null,
  booleans, numbers and strings and whose property names are not inherited by every object (the cases
  in which the code's comparison and its \<open>in\<close> test are wrong), the value is accepted exactly when it has
  the type, provided that the schema is nested at most 64 levels; a deeper schema accepts only values
  of its type.\<close>

theorem validation_decides_typing:
  assumes "plain_schema s" "is_json v"
  shows "if schema_height s \<le> 64
    then fst (validate_against_schema v s) \<longleftrightarrow> well_typed v s
    else if fst (validate_against_schema v s) then well_typed v s else True"
proof -
  have ok: "fst (validate_against_schema v s) \<longleftrightarrow> walk_schema s v '''' 0 = []"
    by (simp add: validate_against_schema_def Let_def)
  have sound: "fst (validate_against_schema v s) \<Longrightarrow> well_typed v s"
    unfolding ok conforms_well_typed [OF assms, symmetric] by (rule walk_sound(1))
  have complete: "well_typed v s \<Longrightarrow> schema_height s \<le> 64 \<Longrightarrow> fst (validate_against_schema v s)"
    unfolding ok conforms_well_typed [OF assms, symmetric]
    by (rule walk_complete(1)) (simp_all add: max_schema_depth_def)
  show ?thesis using sound complete by presburger
qed

definition demo_schema :: schema where
  "demo_schema = Schema (Some ''object'')
     [(''mode'', Schema (Some ''string'') [] [] None (Some [JStr ''a'', JStr ''b''])),
      (''lines'', Schema (Some ''array'') [] [] (Some (Schema (Some ''integer'') [] [] None None)) None)]
     [''mode''] None None"

theorem validation_decides_typing_witness:
  "well_typed (JObj [(''mode'', JStr ''b''), (''lines'', JArr [JNum 1])]) demo_schema \<and>
   \<not> well_typed (JObj [(''lines'', JArr [])]) demo_schema"
proof -
  have plain: "plain_schema demo_schema" by (simp add: demo_schema_def inherited_def prototype_functions_def)
  have "is_json (JObj [(''mode'', JStr ''b''), (''lines'', JArr [JNum 1])])" "is_json (JObj [(''lines'', JArr [])])"
    by (simp_all add: jm_wf_def jm_keys_def)
  from validation_decides_typing [OF plain this(1)] validation_decides_typing [OF plain this(2)]
  show ?thesis
    by (simp add: demo_schema_def validate_against_schema_def Let_def enum_ok_def type_ok_def check_type_def
        max_schema_depth_def js_prop_def jm_get_Cons missing_errors_def js_in_def inherited_def
        prototype_functions_def is_integer_def)
qed

section \<open>The comparison\<close>


lemma deep_equal_refl:
  shows "is_json a \<Longrightarrow> deep_equal a a"
proof (induction a)
  case (JArr xs)
  have "items_equal ys ys" if "set ys \<subseteq> set xs" for ys
    using that JArr by (induction ys) (auto simp: list_all_iff)
  then show ?case by simp
next
  case (JObj es)
  have "fields_equal fs (JObj es)" if "set fs \<subseteq> set es" for fs
    using that
  proof (induction fs)
    case (Cons e fs)
    obtain k v where e: "e = (k, v)" by (cases e)
    have "jm_get es k = Some v" using JObj.prems Cons.prems by (simp add: e jm_get_eq)
    moreover have "deep_equal v v"
      using JObj.IH [of e v] JObj.prems Cons.prems by (auto simp: e list_all_iff)
    ultimately show ?case using Cons by (simp add: e js_get_def js_prop_def)
  qed simp
  then show ?case by (simp add: key_count_def)
qed auto

text \<open>The comparison confuses arrays with objects: the empty array equals the empty object, and the
  object with the single key \<open>length\<close> and value 1 equals every array of one element.\<close>

lemma enum_confuses_arrays:
  "enum_ok (JObj []) (Schema None [] [] None (Some [JArr []]))"
  "enum_ok (JArr [x]) (Schema None [] [] None (Some [JObj [(''length'', JNum 1)]]))"
  by (simp_all add: enum_ok_def key_count_def js_get_def)

text \<open>A required property named like an inherited method is never missing.\<close>

lemma required_inherited: "missing_errors path obj [''toString''] = []"
  by (simp add: missing_errors_def js_in_def js_prop_def inherited_def prototype_functions_def
      split: option.splits)

end
