(* ===== verification/Tool_Executor.thy ===== *)
theory Tool_Executor
  imports Schema Permission Errors "HOL-Library.Multiset"
begin

text \<open>
  The tool executor (core/src/execution/tool-executor.ts) with the output cap of
  utils/tool-output-serializer.ts: from a batch of model-requested calls to their results.

  A call passes the registry lookup, the schema, the malformed-argument check, the pre-hook with
  its re-validation, the tool's own cross-field check, the permission policy (the models of
  \<open>Permission\<close>) and the elevation of dangerous capabilities; then it runs, its output is capped
  against the shared budget, and a post-hook may append to it. Every call is a small state machine
  (\<open>call_status\<close>) whose steps end where the code awaits, so a parallel batch is an arbitrary
  sequence of steps of its calls; the budget, the policy state and the log of executions are
  shared. The registry, the hooks, the confirmation prompt and the tools are functions of the
  environment; the text of an error result is its constructor with \<open>refusal_bytes\<close> its length.
  Rendering, tracing, logging and the abort signals are left out.
\<close>

section \<open>Tools, calls and results\<close>

record exec_tool =
  x_perm :: ptool
  x_schema :: schema
  x_validate :: "(json \<Rightarrow> string list) option"

record tool_use =
  u_id :: string
  u_name :: string
  u_input :: json

datatype pre_verdict = Hook_block "string option" | Hook_proceed "json option" | Hook_throws string

datatype refusal =
    Unknown_tool string "string list"
  | Invalid_arguments string "schema_error list"
  | Malformed_arguments string "json option"
  | Blocked_by_hook string "string option"
  | Hook_rewrote_invalid string "schema_error list"
  | Cross_field_errors string "string list"
  | Policy_failed string perm_error
  | Policy_denied string
  | User_denied string
  | Tool_threw string string
  | Structured_error string
  | Execution_failed string string

text \<open>A capped output: the whole text, the text with its middle cut out (so many bytes over), or the
  notice alone.\<close>

datatype capped = Whole string | Cut string nat string | Exceeded

datatype call_result =
    Success capped "string option"
  | Refused refusal
  | Confirm_pending string source "risk_tier option"

record call_output =
  o_use :: string
  o_result :: call_result

datatype policy = Leader perm | Subagent "string list option"

record exec_env =
  lookup :: "string \<Rightarrow> exec_tool option"
  tool_names :: "string list"
  pre_hook :: "(string \<Rightarrow> json \<Rightarrow> pre_verdict) option"
  post_hook :: "(string \<Rightarrow> json \<Rightarrow> capped \<Rightarrow> string + string option) option"
  deep_strict_equal :: "json \<Rightarrow> json \<Rightarrow> bool"
  perm_environment :: perm_env
  confirm_awaiter :: "(exec_tool \<Rightarrow> json \<Rightarrow> string \<Rightarrow> string + answer) option"
  run_tool :: "exec_tool \<Rightarrow> json \<Rightarrow> nat \<Rightarrow> (bool \<times> string) + string"
  refusal_bytes :: "refusal \<Rightarrow> nat"

section \<open>The output cap\<close>

definition utf8_length :: "string \<Rightarrow> nat" where
  "utf8_length s = sum_list (map (\<lambda>c. if (of_char c :: nat) < 128 then 1 else 2) s)"

text \<open>The marker is a line break, an ellipsis of three bytes, \<open>[truncated\<close> with a space, the number,
  \<open>bytes]\<close> with a space before it, an ellipsis and a line break.\<close>

definition marker_bytes :: "nat \<Rightarrow> nat" where
  "marker_bytes n = length (show_nat n) + 26"

definition enforce_cap :: "string \<Rightarrow> nat \<Rightarrow> capped \<times> nat" where
  "enforce_cap text budget =
     (if budget = 0 then (Exceeded, 0)
      else if utf8_length text \<le> budget then (Whole text, budget - utf8_length text)
      else let over = utf8_length text - budget
           in if budget \<le> marker_bytes over then (Exceeded, 0)
              else let half = (budget - marker_bytes over) div 2
                   in (Cut (take half text) over (drop (length text - half) text), 0))"

definition capped_bytes :: "capped \<Rightarrow> nat" where
  "capped_bytes c =
     (case c of
        Whole s \<Rightarrow> utf8_length s
      | Cut a n b \<Rightarrow> utf8_length a + marker_bytes n + utf8_length b
      | Exceeded \<Rightarrow> 42)"

section \<open>Malformed arguments\<close>

definition malformed_arg_markers :: "string list" where
  "malformed_arg_markers = [''__raw'', ''__raw_arguments'', ''_raw'']"

definition has_malformed_arguments :: "json \<Rightarrow> bool" where
  "has_malformed_arguments v =
     (case v of JObj [(k, w)] \<Rightarrow> k \<in> set malformed_arg_markers | _ \<Rightarrow> False)"

definition extract_malformed_raw :: "json \<Rightarrow> json option" where
  "extract_malformed_raw v =
     (case v of
        JObj [(k, w)] \<Rightarrow>
          if k \<in> set malformed_arg_markers \<and> w \<noteq> JNull then Some w else None
      | _ \<Rightarrow> None)"

section \<open>Permission\<close>

definition policy_evaluate ::
    "perm_env \<Rightarrow> ptool \<Rightarrow> json \<Rightarrow> policy \<Rightarrow> (perm_error + decision) \<times> policy" where
  "policy_evaluate penv t inp pol =
     (case pol of
        Leader p \<Rightarrow> (case evaluate penv t (record_of inp) p of (r, p') \<Rightarrow> (r, Leader p'))
      | Subagent allowed \<Rightarrow> (Inr (auto_approve allowed t), pol))"

definition get_yolo :: "policy \<Rightarrow> bool" where
  "get_yolo pol = (case pol of Leader p \<Rightarrow> pp_yolo p | Subagent _ \<Rightarrow> False)"

definition effective_permission :: "bool \<Rightarrow> ptool \<Rightarrow> decision \<Rightarrow> permission" where
  "effective_permission yolo t d =
     (if get_dangerous_capabilities t \<noteq> [] \<and> de_permission d = Auto \<and> \<not> yolo \<and>
         de_source d \<noteq> SrcYolo
      then Confirm else de_permission d)"

section \<open>One call\<close>

record execution =
  ex_use :: string
  ex_tool :: exec_tool
  ex_input :: json

record exec_state =
  x_budget :: nat
  x_policy :: policy
  x_log :: "execution list"

datatype call_status =
    Waiting
  | Ready exec_tool json nat
  | Posting exec_tool json capped
  | Finished call_output

definition budget_for :: "exec_env \<Rightarrow> refusal \<Rightarrow> nat \<Rightarrow> nat" where
  "budget_for env r budget = budget - refusal_bytes env r"

definition refuse :: "exec_env \<Rightarrow> tool_use \<Rightarrow> refusal \<Rightarrow> exec_state \<Rightarrow> call_status \<times> exec_state" where
  "refuse env u r s =
     (Finished \<lparr>o_use = u_id u, o_result = Refused r\<rparr>, s\<lparr>x_budget := budget_for env r (x_budget s)\<rparr>)"

text \<open>The schema, the sentinel, the pre-hook and the cross-field check: a refusal or the input to run.\<close>

definition validated_input :: "exec_env \<Rightarrow> exec_tool \<Rightarrow> tool_use \<Rightarrow> refusal + json" where
  "validated_input env t u =
     (let name = pt_name (x_perm t);
          checked = validate_against_schema (u_input u) (x_schema t)
      in if \<not> fst checked then Inl (Invalid_arguments name (snd checked))
         else if has_malformed_arguments (u_input u)
         then Inl (Malformed_arguments (u_name u) (extract_malformed_raw (u_input u)))
         else
           (case (case pre_hook env of
                    None \<Rightarrow> Inr (u_input u)
                  | Some hook \<Rightarrow>
                      (case hook name (u_input u) of
                         Hook_throws msg \<Rightarrow> Inl (Execution_failed (u_name u) msg)
                       | Hook_block reason \<Rightarrow> Inl (Blocked_by_hook (u_name u) reason)
                       | Hook_proceed None \<Rightarrow> Inr (u_input u)
                       | Hook_proceed (Some new) \<Rightarrow>
                           if \<not> truthy new \<or> deep_strict_equal env new (u_input u)
                           then Inr (u_input u)
                           else (let again = validate_against_schema new (x_schema t)
                                 in if fst again then Inr new
                                    else Inl (Hook_rewrote_invalid name (snd again))))) of
              Inl r \<Rightarrow> Inl r
            | Inr inp \<Rightarrow>
                (case x_validate t of
                   None \<Rightarrow> Inr inp
                 | Some f \<Rightarrow> if f inp \<noteq> [] then Inl (Cross_field_errors name (f inp)) else Inr inp)))"

definition ask_user ::
    "exec_env \<Rightarrow> tool_use \<Rightarrow> exec_tool \<Rightarrow> json \<Rightarrow> decision \<Rightarrow> exec_state \<Rightarrow>
     call_status \<times> exec_state" where
  "ask_user env u t inp d s =
     (case confirm_awaiter env of
        None \<Rightarrow>
          (Finished \<lparr>o_use = u_id u,
             o_result = Confirm_pending
               (case subject_for_tool_input (pt_name (x_perm t)) (record_of inp)
                       (pt_subject_key (x_perm t)) of
                  None \<Rightarrow> pt_name (x_perm t) | Some p \<Rightarrow> p)
               (de_source d)
               (case de_risk d of None \<Rightarrow> pt_risk (x_perm t) | Some r \<Rightarrow> Some r)\<rparr>, s)
      | Some ask \<Rightarrow>
          (case ask t inp (u_id u) of
             Inl msg \<Rightarrow> refuse env u (Execution_failed (u_name u) msg) s
           | Inr choice \<Rightarrow>
               if choice = Yes \<or> choice = Always then (Ready t inp (x_budget s), s)
               else refuse env u (User_denied (pt_name (x_perm t))) s))"

definition prepare :: "exec_env \<Rightarrow> tool_use \<Rightarrow> exec_state \<Rightarrow> call_status \<times> exec_state" where
  "prepare env u s =
     (case lookup env (u_name u) of
        None \<Rightarrow> refuse env u (Unknown_tool (u_name u) (tool_names env)) s
      | Some t \<Rightarrow>
          (case validated_input env t u of
             Inl r \<Rightarrow> refuse env u r s
           | Inr inp \<Rightarrow>
               (case policy_evaluate (perm_environment env) (x_perm t) inp (x_policy s) of
                  (Inl e, pol) \<Rightarrow>
                    refuse env u (Policy_failed (u_name u) e) (s\<lparr>x_policy := pol\<rparr>)
                | (Inr d, pol) \<Rightarrow>
                    (case effective_permission (get_yolo pol) (x_perm t) d of
                       Deny \<Rightarrow> refuse env u (Policy_denied (u_name u)) (s\<lparr>x_policy := pol\<rparr>)
                     | Confirm \<Rightarrow> ask_user env u t inp d (s\<lparr>x_policy := pol\<rparr>)
                     | Auto \<Rightarrow> (Ready t inp (x_budget s), s\<lparr>x_policy := pol\<rparr>)))))"

text \<open>The run and the synchronous settling of its output; a thrown structured error keeps its own
  text.\<close>

definition thrown :: "exec_tool \<Rightarrow> bool \<times> string \<Rightarrow> refusal" where
  "thrown t e = (if fst e then Structured_error (snd e) else Tool_threw (pt_name (x_perm t)) (snd e))"

definition run_call ::
    "exec_env \<Rightarrow> tool_use \<Rightarrow> exec_tool \<Rightarrow> json \<Rightarrow> nat \<Rightarrow> exec_state \<Rightarrow> call_status \<times> exec_state" where
  "run_call env u t inp hint s0 =
     (let s = s0\<lparr>x_log := x_log s0 @ [\<lparr>ex_use = u_id u, ex_tool = t, ex_input = inp\<rparr>]\<rparr>
      in case run_tool env t inp hint of
           Inl e \<Rightarrow> refuse env u (thrown t e) s
         | Inr text \<Rightarrow>
             (case enforce_cap text (x_budget s) of
                (out, left) \<Rightarrow>
                  (if post_hook env = None
                   then Finished \<lparr>o_use = u_id u, o_result = Success out None\<rparr>
                   else Posting t inp out,
                   s\<lparr>x_budget := left\<rparr>)))"

definition run_post_hook ::
    "exec_env \<Rightarrow> tool_use \<Rightarrow> exec_tool \<Rightarrow> json \<Rightarrow> capped \<Rightarrow> exec_state \<Rightarrow> call_status \<times> exec_state" where
  "run_post_hook env u t inp out s =
     (case (case post_hook env of None \<Rightarrow> Inr None | Some f \<Rightarrow> f (pt_name (x_perm t)) inp out) of
        Inl msg \<Rightarrow> refuse env u (Tool_threw (pt_name (x_perm t)) msg) s
      | Inr None \<Rightarrow> (Finished \<lparr>o_use = u_id u, o_result = Success out None\<rparr>, s)
      | Inr (Some extra) \<Rightarrow>
          if extra = '''' then (Finished \<lparr>o_use = u_id u, o_result = Success out None\<rparr>, s)
          else (Finished \<lparr>o_use = u_id u, o_result = Success out (Some extra)\<rparr>,
                s\<lparr>x_budget := x_budget s - (2 + utf8_length extra)\<rparr>))"

definition call_step ::
    "exec_env \<Rightarrow> tool_use \<Rightarrow> call_status \<Rightarrow> exec_state \<Rightarrow> call_status \<times> exec_state" where
  "call_step env u st s =
     (case st of
        Waiting \<Rightarrow> prepare env u s
      | Ready t inp hint \<Rightarrow> run_call env u t inp hint s
      | Posting t inp out \<Rightarrow> run_post_hook env u t inp out s
      | Finished out \<Rightarrow> (Finished out, s))"

section \<open>A batch\<close>

datatype strategy = Sequential | Parallel | Smart

type_synonym batch_state = "call_status list \<times> exec_state"

definition batch_step :: "exec_env \<Rightarrow> tool_use list \<Rightarrow> nat \<Rightarrow> batch_state \<Rightarrow> batch_state" where
  "batch_step env uses i bs =
     (case bs of (sts, s) \<Rightarrow>
        if i < length uses
        then (case call_step env (uses ! i) (sts ! i) s of (st, s') \<Rightarrow> (sts[i := st], s'))
        else bs)"

definition run_schedule :: "exec_env \<Rightarrow> tool_use list \<Rightarrow> nat list \<Rightarrow> batch_state \<Rightarrow> batch_state" where
  "run_schedule env uses sched bs = fold (batch_step env uses) sched bs"

text \<open>A call on its own takes three steps; a group awaited together takes any steps \<open>sched\<close> of its
  members first and is then run to the end.\<close>

definition alone :: "nat list \<Rightarrow> nat list" where
  "alone is = concat (map (\<lambda>i. [i, i, i]) is)"

definition together :: "nat list \<Rightarrow> nat list \<Rightarrow> nat list" where
  "together sched is = filter (\<lambda>i. i \<in> set is) sched @ alone is"

definition is_mutating_call :: "exec_env \<Rightarrow> tool_use \<Rightarrow> bool" where
  "is_mutating_call env u =
     (case lookup env (u_name u) of None \<Rightarrow> False | Some t \<Rightarrow> pt_mutating (x_perm t))"

definition batch_order :: "exec_env \<Rightarrow> strategy \<Rightarrow> tool_use list \<Rightarrow> nat list" where
  "batch_order env strat uses =
     (case strat of
        Smart \<Rightarrow>
          filter (\<lambda>i. \<not> is_mutating_call env (uses ! i)) [0..<length uses] @
          filter (\<lambda>i. is_mutating_call env (uses ! i)) [0..<length uses]
      | _ \<Rightarrow> [0..<length uses])"

definition batch_schedule :: "exec_env \<Rightarrow> strategy \<Rightarrow> nat list \<Rightarrow> tool_use list \<Rightarrow> nat list" where
  "batch_schedule env strat sched uses =
     (case strat of
        Sequential \<Rightarrow> alone [0..<length uses]
      | Parallel \<Rightarrow> together sched [0..<length uses]
      | Smart \<Rightarrow>
          together sched (filter (\<lambda>i. \<not> is_mutating_call env (uses ! i)) [0..<length uses]) @
          alone (filter (\<lambda>i. is_mutating_call env (uses ! i)) [0..<length uses]))"

definition finished_output :: "call_status \<Rightarrow> call_output option" where
  "finished_output st = (case st of Finished out \<Rightarrow> Some out | _ \<Rightarrow> None)"

definition run_batch ::
    "exec_env \<Rightarrow> strategy \<Rightarrow> nat list \<Rightarrow> tool_use list \<Rightarrow> exec_state \<Rightarrow> batch_state" where
  "run_batch env strat sched uses s =
     run_schedule env uses (batch_schedule env strat sched uses)
       (replicate (length uses) Waiting, s)"

definition execute_batch ::
    "exec_env \<Rightarrow> strategy \<Rightarrow> nat list \<Rightarrow> tool_use list \<Rightarrow> exec_state \<Rightarrow>
     call_output option list \<times> exec_state" where
  "execute_batch env strat sched uses s =
     (case run_batch env strat sched uses s of (sts, s') \<Rightarrow>
        (map (\<lambda>i. finished_output (sts ! i)) (batch_order env strat uses), s'))"

section \<open>What an execution needs\<close>

text \<open>The policy states a batch can reach from \<open>p0\<close>.\<close>

inductive reachable_policy :: "exec_env \<Rightarrow> policy \<Rightarrow> policy \<Rightarrow> bool" for env p0 where
  reachable_start: "reachable_policy env p0 p0"
| reachable_step: "reachable_policy env p0 p \<Longrightarrow>
     policy_evaluate (perm_environment env) t inp p = (r, p') \<Longrightarrow> reachable_policy env p0 p'"

definition approved :: "exec_env \<Rightarrow> policy \<Rightarrow> tool_use \<Rightarrow> exec_tool \<Rightarrow> json \<Rightarrow> bool" where
  "approved env p0 u t inp \<longleftrightarrow>
     (\<exists>p d p'. reachable_policy env p0 p \<and>
        policy_evaluate (perm_environment env) (x_perm t) inp p = (Inr d, p') \<and>
        (case effective_permission (get_yolo p') (x_perm t) d of
           Auto \<Rightarrow> True
         | Confirm \<Rightarrow>
             (\<exists>ask choice. confirm_awaiter env = Some ask \<and> ask t inp (u_id u) = Inr choice \<and>
                choice \<in> {Yes, Always})
         | Deny \<Rightarrow> False))"

definition authorised :: "exec_env \<Rightarrow> policy \<Rightarrow> tool_use \<Rightarrow> exec_tool \<Rightarrow> json \<Rightarrow> bool" where
  "authorised env p0 u t inp \<longleftrightarrow>
     lookup env (u_name u) = Some t \<and> validated_input env t u = Inr inp \<and> approved env p0 u t inp"

lemma validated_input_ok:
  assumes "validated_input env t u = Inr inp"
  shows "conforms inp (x_schema t)" "\<not> has_malformed_arguments (u_input u)"
    "x_validate t = Some f \<Longrightarrow> f inp = []"
proof -
  have sound: "conforms v s" if "fst (validate_against_schema v s)" for v s
    using that walk_sound(1) [of s v "''''" 0] by (simp add: validate_against_schema_def Let_def)
  show "conforms inp (x_schema t)"
    using assms sound unfolding validated_input_def Let_def
    by (auto split: if_splits option.splits pre_verdict.splits sum.splits)
  show "\<not> has_malformed_arguments (u_input u)"
    using assms unfolding validated_input_def Let_def by (auto split: if_splits)
  show "x_validate t = Some f \<Longrightarrow> f inp = []"
    using assms unfolding validated_input_def Let_def
    by (auto split: if_splits option.splits pre_verdict.splits sum.splits)
qed

section \<open>The invariant of a batch\<close>

definition status_good :: "exec_env \<Rightarrow> policy \<Rightarrow> tool_use \<Rightarrow> call_status \<Rightarrow> bool" where
  "status_good env p0 u st \<longleftrightarrow>
     (case st of
        Waiting \<Rightarrow> True
      | Ready t inp hint \<Rightarrow> authorised env p0 u t inp
      | Posting t inp out \<Rightarrow> True
      | Finished out \<Rightarrow> o_use out = u_id u)"

definition log_good :: "exec_env \<Rightarrow> policy \<Rightarrow> tool_use list \<Rightarrow> execution list \<Rightarrow> bool" where
  "log_good env p0 uses l \<longleftrightarrow>
     list_all (\<lambda>e. \<exists>u \<in> set uses. ex_use e = u_id u \<and> authorised env p0 u (ex_tool e) (ex_input e)) l"

definition batch_good :: "exec_env \<Rightarrow> policy \<Rightarrow> tool_use list \<Rightarrow> batch_state \<Rightarrow> bool" where
  "batch_good env p0 uses bs \<longleftrightarrow>
     (case bs of (sts, s) \<Rightarrow>
        length sts = length uses \<and> (\<forall>i < length uses. status_good env p0 (uses ! i) (sts ! i)) \<and>
        reachable_policy env p0 (x_policy s) \<and> log_good env p0 uses (x_log s))"

lemma refuse_good:
  assumes "refuse env u r s = (st, s')"
  shows "status_good env p0 u st" "x_policy s' = x_policy s" "x_log s' = x_log s"
  using assms by (auto simp: refuse_def status_good_def)

lemma ask_user_good:
  assumes "ask_user env u t inp d s = (st, s')"
    and "lookup env (u_name u) = Some t" "validated_input env t u = Inr inp"
    and "reachable_policy env p0 p" "policy_evaluate (perm_environment env) (x_perm t) inp p = (Inr d, p')"
    and "effective_permission (get_yolo p') (x_perm t) d = Confirm"
  shows "status_good env p0 u st \<and> x_policy s' = x_policy s \<and> x_log s' = x_log s"
proof (cases "confirm_awaiter env")
  case None
  then show ?thesis using assms(1) by (auto simp: ask_user_def status_good_def)
next
  case (Some ask)
  show ?thesis
  proof (cases "ask t inp (u_id u)")
    case (Inl msg)
    then show ?thesis using assms(1) Some refuse_good by (simp add: ask_user_def)
  next
    case (Inr choice)
    show ?thesis
    proof (cases "choice = Yes \<or> choice = Always")
      case True
      then have "approved env p0 u t inp"
        unfolding approved_def using assms(4-6) Some Inr
        by (intro exI [of _ p] exI [of _ d] exI [of _ p']) auto
      then show ?thesis
        using assms(1-3) Some Inr True by (auto simp: ask_user_def status_good_def authorised_def)
    next
      case False
      then show ?thesis using assms(1) Some Inr refuse_good by (simp add: ask_user_def)
    qed
  qed
qed

lemma prepare_good:
  assumes "prepare env u s = (st, s')" "reachable_policy env p0 (x_policy s)"
  shows "status_good env p0 u st \<and> reachable_policy env p0 (x_policy s') \<and> x_log s' = x_log s"
proof (cases "lookup env (u_name u)")
  case None
  then show ?thesis using assms refuse_good by (fastforce simp: prepare_def)
next
  case (Some t)
  show ?thesis
  proof (cases "validated_input env t u")
    case (Inl r)
    then show ?thesis using assms Some refuse_good by (fastforce simp: prepare_def)
  next
    case (Inr inp)
    obtain r pol where ev: "policy_evaluate (perm_environment env) (x_perm t) inp (x_policy s) = (r, pol)"
      by (cases "policy_evaluate (perm_environment env) (x_perm t) inp (x_policy s)")
    have pol: "reachable_policy env p0 pol" using assms(2) ev by (rule reachable_step)
    show ?thesis
    proof (cases r)
      case (Inl e)
      then show ?thesis using assms(1) Some Inr ev pol refuse_good by (fastforce simp: prepare_def)
    next
      case d: (Inr d)
      show ?thesis
      proof (cases "effective_permission (get_yolo pol) (x_perm t) d")
        case Auto
        have "approved env p0 u t inp"
          unfolding approved_def using assms(2) ev d Auto
          by (intro exI [of _ "x_policy s"] exI [of _ d] exI [of _ pol]) simp
        then show ?thesis
          using assms(1) Some Inr ev d Auto pol
          by (auto simp: prepare_def status_good_def authorised_def)
      next
        case Confirm
        then show ?thesis
          using assms(1) Some Inr ev d pol
            ask_user_good [OF _ Some Inr assms(2) ev [unfolded d] Confirm]
          by (fastforce simp: prepare_def)
      next
        case Deny
        then show ?thesis using assms(1) Some Inr ev d pol refuse_good by (fastforce simp: prepare_def)
      qed
    qed
  qed
qed

lemma run_call_good:
  assumes "run_call env u t inp hint s = (st, s')" "authorised env p0 u t inp"
  shows "status_good env p0 u st \<and> x_policy s' = x_policy s \<and>
    (\<exists>e. x_log s' = x_log s @ [e] \<and> ex_use e = u_id u \<and> authorised env p0 u (ex_tool e) (ex_input e))"
  using assms
  by (auto simp: run_call_def Let_def refuse_def status_good_def split: sum.splits prod.splits if_splits)

lemma run_post_hook_good:
  assumes "run_post_hook env u t inp out s = (st, s')"
  shows "status_good env p0 u st \<and> x_policy s' = x_policy s \<and> x_log s' = x_log s"
  using assms
  by (auto simp: run_post_hook_def refuse_def status_good_def split: sum.splits option.splits if_splits)

lemma call_step_good:
  assumes "call_step env u st s = (st', s')" "status_good env p0 u st"
    "reachable_policy env p0 (x_policy s)" "log_good env p0 uses (x_log s)" "u \<in> set uses"
  shows "status_good env p0 u st' \<and> reachable_policy env p0 (x_policy s') \<and> log_good env p0 uses (x_log s')"
proof (cases st)
  case Waiting
  then show ?thesis using assms prepare_good [of env u s st' s' p0] by (simp add: call_step_def)
next
  case (Ready t inp hint)
  then have "authorised env p0 u t inp" using assms(2) by (simp add: status_good_def)
  then show ?thesis
    using assms(1,3-5) Ready run_call_good [of env u t inp hint s st' s' p0]
    by (auto simp: call_step_def log_good_def)
next
  case (Posting t inp out)
  then show ?thesis
    using assms run_post_hook_good [of env u t inp out s st' s' p0] by (simp add: call_step_def)
next
  case (Finished out)
  then show ?thesis using assms by (simp add: call_step_def)
qed

lemma batch_step_good: "batch_good env p0 uses bs \<Longrightarrow> batch_good env p0 uses (batch_step env uses i bs)"
proof -
  assume good: "batch_good env p0 uses bs"
  obtain sts s where bs: "bs = (sts, s)" by (cases bs)
  show "batch_good env p0 uses (batch_step env uses i bs)"
  proof (cases "i < length uses")
    case True
    obtain st' s' where st: "call_step env (uses ! i) (sts ! i) s = (st', s')"
      by (cases "call_step env (uses ! i) (sts ! i) s")
    have "status_good env p0 (uses ! i) st' \<and> reachable_policy env p0 (x_policy s') \<and>
        log_good env p0 uses (x_log s')"
      using good True by (intro call_step_good [OF st]) (auto simp: bs batch_good_def)
    then show ?thesis
      using good True by (auto simp: bs batch_good_def batch_step_def st nth_list_update)
  qed (use good bs in \<open>simp add: batch_step_def\<close>)
qed

interpretation batches: state_contract "batch_step env uses" "batch_good env p0 uses"
  for env p0 uses
  by unfold_locales (rule batch_step_good)

lemma run_batch_good:
  "batch_good env (x_policy s) uses (run_batch env strat sched uses (s\<lparr>x_log := []\<rparr>))"
  unfolding run_batch_def run_schedule_def
  by (rule batches.run_good)
    (simp add: batch_good_def status_good_def reachable_start log_good_def)

lemma execute_batch_log:
  "log_good env (x_policy s) uses (x_log (snd (execute_batch env strat sched uses (s\<lparr>x_log := []\<rparr>))))"
  using run_batch_good [of env s uses strat sched]
  by (auto simp: execute_batch_def batch_good_def split: prod.splits)

text \<open>C2. Nothing runs unchecked: whatever the strategy and however the calls of a batch interleave,
  each executed tool is the one registered under the name of a call of the batch, its input
  conforms to the tool's schema and passes its cross-field check, and the permission policy, in
  a state the batch reached, allowed it, by itself or with the user's approval.\<close>

theorem every_execution_authorised:
  "list_all (\<lambda>e. \<exists>u \<in> set uses. ex_use e = u_id u \<and> lookup env (u_name u) = Some (ex_tool e) \<and>
      conforms (ex_input e) (x_schema (ex_tool e)) \<and>
      (case x_validate (ex_tool e) of None \<Rightarrow> True | Some f \<Rightarrow> f (ex_input e) = []) \<and>
      approved env (x_policy s) u (ex_tool e) (ex_input e))
    (x_log (snd (execute_batch env strat sched uses (s\<lparr>x_log := []\<rparr>))))"
proof -
  have impl: "\<exists>u \<in> set uses. ex_use e = u_id u \<and> lookup env (u_name u) = Some (ex_tool e) \<and>
      conforms (ex_input e) (x_schema (ex_tool e)) \<and>
      (case x_validate (ex_tool e) of None \<Rightarrow> True | Some f \<Rightarrow> f (ex_input e) = []) \<and>
      approved env (x_policy s) u (ex_tool e) (ex_input e)"
    if "\<exists>u \<in> set uses. ex_use e = u_id u \<and> authorised env (x_policy s) u (ex_tool e) (ex_input e)" for e
    using that validated_input_ok unfolding authorised_def by (fastforce split: option.splits)
  show ?thesis
    using execute_batch_log [of env s uses strat sched] unfolding log_good_def
    by (rule list.pred_mono_strong) (rule impl)
qed

lemma subagent_state:
  assumes "reachable_policy env p0 p" "p0 = Subagent allowed"
  shows "p = Subagent allowed"
  using assms by induction (auto simp: policy_evaluate_def)

text \<open>A subagent's batch runs a tool only if every dangerous capability the tool declares was
  granted, and never a tool whose permission is \<open>deny\<close>; no confirmation can widen the grant.\<close>

theorem subagent_runs_only_granted:
  "list_all (\<lambda>e.
      set (get_dangerous_capabilities (x_perm (ex_tool e))) \<subseteq>
        set (case allowed of None \<Rightarrow> default_allowed | Some a \<Rightarrow> a) \<and>
      pt_permission (x_perm (ex_tool e)) \<noteq> Deny)
    (x_log (snd (execute_batch env strat sched uses (s\<lparr>x_policy := Subagent allowed, x_log := []\<rparr>))))"
proof -
  have "set (get_dangerous_capabilities (x_perm t)) \<subseteq>
      set (case allowed of None \<Rightarrow> default_allowed | Some a \<Rightarrow> a) \<and> pt_permission (x_perm t) \<noteq> Deny"
    if "approved env (Subagent allowed) u t inp" for u t inp
  proof -
    obtain p d p' where p: "reachable_policy env (Subagent allowed) p"
      and ev: "policy_evaluate (perm_environment env) (x_perm t) inp p = (Inr d, p')"
      and ok: "effective_permission (get_yolo p') (x_perm t) d \<noteq> Deny"
      using \<open>approved env (Subagent allowed) u t inp\<close>
      unfolding approved_def by (fastforce split: permission.splits)
    have "d = auto_approve allowed (x_perm t)"
      using ev subagent_state [OF p refl] by (simp add: policy_evaluate_def)
    then have "de_permission (auto_approve allowed (x_perm t)) \<noteq> Deny"
      using ok by (auto simp: effective_permission_def split: if_splits)
    then show ?thesis
      by (auto simp: auto_approve_def decide_def Let_def filter_empty_conv split: if_splits)
  qed
  then show ?thesis
    using execute_batch_log [of env "s\<lparr>x_policy := Subagent allowed\<rparr>" uses strat sched]
    by (fastforce simp: log_good_def list_all_iff authorised_def)
qed

section \<open>Every call is answered once\<close>

definition stage :: "call_status \<Rightarrow> nat" where
  "stage st = (case st of Waiting \<Rightarrow> 3 | Ready _ _ _ \<Rightarrow> 2 | Posting _ _ _ \<Rightarrow> 1 | Finished _ \<Rightarrow> 0)"

lemma refuse_finished: "refuse env u r s = (st, s') \<Longrightarrow> stage st = 0"
  by (auto simp: refuse_def stage_def)

lemma ask_user_stage: "ask_user env u t inp d s = (st, s') \<Longrightarrow> stage st \<le> 2"
  by (auto simp: ask_user_def refuse_def stage_def split: option.splits sum.splits if_splits)

lemma prepare_stage: "prepare env u s = (st, s') \<Longrightarrow> stage st \<le> 2"
  unfolding prepare_def
  by (auto simp: stage_def refuse_def dest: ask_user_stage
      split: option.splits sum.splits prod.splits permission.splits)

lemma run_call_stage: "run_call env u t inp hint s = (st, s') \<Longrightarrow> stage st \<le> 1"
  by (auto simp: run_call_def Let_def refuse_def stage_def split: sum.splits prod.splits if_splits)

lemma run_post_hook_stage: "run_post_hook env u t inp out s = (st, s') \<Longrightarrow> stage st = 0"
  by (auto simp: run_post_hook_def refuse_def stage_def split: sum.splits option.splits if_splits)

lemma call_step_stage:
  "call_step env u st s = (st', s') \<Longrightarrow> stage st' \<le> stage st - 1"
  using prepare_stage [of env u s st' s'] run_post_hook_stage [of env u]
  by (cases st) (auto simp: call_step_def stage_def [of Waiting] stage_def [of "Ready _ _ _"]
      stage_def [of "Posting _ _ _"] stage_def [of "Finished _"] dest: run_call_stage)

lemma call_step_finished: "call_step env u (Finished out) s = (Finished out, s)"
  by (simp add: call_step_def)

lemma stage_zero: "stage st = 0 \<longleftrightarrow> (\<exists>out. st = Finished out)"
  by (cases st) (auto simp: stage_def)

lemma batch_step_stage:
  assumes "batch_step env uses i (sts, s) = (sts', s')" "length sts = length uses"
  shows "length sts' = length uses \<and>
    (\<forall>j. stage (sts' ! j) \<le> (if j = i \<and> i < length uses then stage (sts ! j) - 1 else stage (sts ! j)))"
  using assms call_step_stage [of env "uses ! i" "sts ! i" s]
  by (auto simp: batch_step_def nth_list_update split: if_splits prod.splits)

lemma run_schedule_stage:
  "run_schedule env uses sched (sts, s) = (sts', s') \<Longrightarrow> length sts = length uses \<Longrightarrow>
   length sts' = length uses \<and>
   (\<forall>j. j < length uses \<longrightarrow> stage (sts' ! j) \<le> stage (sts ! j) - count_list sched j)"
proof (induction sched arbitrary: sts s)
  case Nil
  then show ?case by (simp add: run_schedule_def)
next
  case (Cons i sched)
  obtain sts1 s1 where one: "batch_step env uses i (sts, s) = (sts1, s1)"
    by (cases "batch_step env uses i (sts, s)")
  have rest: "run_schedule env uses sched (sts1, s1) = (sts', s')"
    using Cons.prems(1) one by (simp add: run_schedule_def)
  note b = batch_step_stage [OF one Cons.prems(2)]
  note IH = Cons.IH [OF rest] b
  have "stage (sts' ! j) \<le> stage (sts ! j) - count_list (i # sched) j" if "j < length uses" for j
  proof -
    have "stage (sts' ! j) \<le> stage (sts1 ! j) - count_list sched j" using IH that by blast
    moreover have "stage (sts1 ! j) \<le> (if j = i \<and> i < length uses then stage (sts ! j) - 1 else stage (sts ! j))"
      using b by blast
    ultimately show ?thesis using that by (cases "j = i") auto
  qed
  then show ?case using IH by simp
qed

lemma count_alone: "count_list (alone is) j = 3 * count_list is j"
  by (induction "is") (auto simp: alone_def)

lemma count_alone_member: "j \<in> set is \<Longrightarrow> 3 \<le> count_list (alone is) j"
  using count_list_0_iff [of "is" j] by (simp add: count_alone)

lemma count_schedule:
  assumes "j < length uses"
  shows "3 \<le> count_list (batch_schedule env strat sched uses) j"
proof (cases strat)
  case Sequential
  then show ?thesis using assms by (simp add: batch_schedule_def count_alone_member)
next
  case Parallel
  then show ?thesis
    using assms by (simp add: batch_schedule_def together_def trans_le_add2 count_alone_member)
next
  case Smart
  let ?a = "alone (filter (\<lambda>i. \<not> is_mutating_call env (uses ! i)) [0..<length uses])"
    and ?b = "alone (filter (\<lambda>i. is_mutating_call env (uses ! i)) [0..<length uses])"
  have "3 \<le> count_list ?a j \<or> 3 \<le> count_list ?b j"
    using assms by (cases "is_mutating_call env (uses ! j)") (auto intro!: count_alone_member)
  then show ?thesis using Smart by (auto simp: batch_schedule_def together_def)
qed

lemma mset_split: "mset (filter (\<lambda>x. \<not> P x) xs @ filter P xs) = mset xs"
  by (induction xs) auto

lemma map_indices: "map (\<lambda>i. f (xs ! i)) [0..<length xs] = map f xs"
  by (rule nth_equalityI) simp_all

lemma run_batch_finished:
  assumes "run_batch env strat sched uses s = (sts, s')" "j < length uses"
  shows "\<exists>out. sts ! j = Finished out"
proof -
  have "stage (sts ! j) \<le> 3 - count_list (batch_schedule env strat sched uses) j"
    using run_schedule_stage [OF assms(1) [unfolded run_batch_def]] assms(2) by (simp add: stage_def)
  then have "stage (sts ! j) = 0" using count_schedule [OF assms(2), of env strat sched] by simp
  then show ?thesis by (simp add: stage_zero)
qed

lemma batch_order_mset: "mset (batch_order env strat uses) = mset [0..<length uses]"
  by (cases strat) (simp_all only: batch_order_def strategy.simps mset_split)

text \<open>A call whose tool is registered and declared mutating.\<close>

definition calls_mutating_tool :: "exec_env \<Rightarrow> tool_use \<Rightarrow> bool" where
  "calls_mutating_tool env u \<longleftrightarrow> (\<exists>t. lookup env (u_name u) = Some t \<and> pt_mutating (x_perm t))"

lemma filter_indices: "map (\<lambda>i. f (xs ! i)) (filter (\<lambda>i. P (xs ! i)) [0..<length xs]) = map f (filter P xs)"
proof -
  have "filter P (map ((!) xs) [0..<length xs]) = map ((!) xs) (filter (P \<circ> (!) xs) [0..<length xs])"
    by (rule filter_map)
  then show ?thesis by (simp add: map_nth comp_def)
qed

text \<open>C30. Every batch ends with one result per call, each carrying its call's id: sequentially and in
  parallel in the order of the calls; under the smart strategy those of the calls whose tool is unknown
  or not mutating first, in their order, and then those of the mutating tools in theirs.\<close>

theorem batch_answers_every_call:
  "\<exists>outs. fst (execute_batch env strat sched uses (s\<lparr>x_log := []\<rparr>)) = map Some outs \<and>
     map o_use outs =
       (case strat of
          Sequential \<Rightarrow> map u_id uses
        | Parallel \<Rightarrow> map u_id uses
        | Smart \<Rightarrow> map u_id (filter (\<lambda>u. \<not> calls_mutating_tool env u) uses @
                            filter (calls_mutating_tool env) uses))"
proof -
  obtain sts s' where run: "run_batch env strat sched uses (s\<lparr>x_log := []\<rparr>) = (sts, s')"
    by (cases "run_batch env strat sched uses (s\<lparr>x_log := []\<rparr>)")
  have fin: "\<exists>out. sts ! j = Finished out \<and> o_use out = u_id (uses ! j)" if "j < length uses" for j
    using run_batch_finished [OF run that] run_batch_good [of env s uses strat sched] that
    by (auto simp: run batch_good_def status_good_def)
  have in_range: "set (batch_order env strat uses) = set [0..<length uses]"
    by (rule mset_eq_setD [OF batch_order_mset])
  define outs where "outs = map (\<lambda>i. the (finished_output (sts ! i))) (batch_order env strat uses)"
  have some: "finished_output (sts ! i) = Some (the (finished_output (sts ! i))) \<and>
      o_use (the (finished_output (sts ! i))) = u_id (uses ! i)" if "i \<in> set (batch_order env strat uses)" for i
  proof -
    have "i < length uses" using that unfolding in_range by simp
    from fin [OF this] show ?thesis by (auto simp: finished_output_def)
  qed
  have ids: "map o_use outs = map (\<lambda>i. u_id (uses ! i)) (batch_order env strat uses)"
    using some by (simp add: outs_def)
  have "is_mutating_call env = calls_mutating_tool env"
    by (auto simp: fun_eq_iff is_mutating_call_def calls_mutating_tool_def split: option.splits)
  then have "map (\<lambda>i. u_id (uses ! i)) (batch_order env strat uses) =
      (case strat of
         Sequential \<Rightarrow> map u_id uses
       | Parallel \<Rightarrow> map u_id uses
       | Smart \<Rightarrow> map u_id (filter (\<lambda>u. \<not> calls_mutating_tool env u) uses @
                           filter (calls_mutating_tool env) uses))"
    using filter_indices [where P = "\<lambda>u. \<not> calls_mutating_tool env u" and f = u_id and xs = uses]
    by (cases strat) (simp_all add: batch_order_def map_indices filter_indices)
  moreover have "fst (execute_batch env strat sched uses (s\<lparr>x_log := []\<rparr>)) = map Some outs"
    using some by (auto simp: execute_batch_def run outs_def)
  ultimately show ?thesis using ids by auto
qed

section \<open>No call runs twice\<close>

definition ran :: "call_status list \<Rightarrow> nat set" where
  "ran sts = {i. i < length sts \<and> stage (sts ! i) \<le> 1}"

definition once_good :: "tool_use list \<Rightarrow> batch_state \<Rightarrow> bool" where
  "once_good uses bs \<longleftrightarrow>
     (case bs of (sts, s) \<Rightarrow>
        length sts = length uses \<and>
        mset (map ex_use (x_log s)) \<subseteq># image_mset (\<lambda>i. u_id (uses ! i)) (mset_set (ran sts)))"

lemma call_step_log:
  assumes "call_step env u st s = (st', s')"
  shows "x_log s' = x_log s \<or>
    (stage st = 2 \<and> stage st' \<le> 1 \<and> (\<exists>e. x_log s' = x_log s @ [e] \<and> ex_use e = u_id u))"
proof (cases st)
  case Waiting
  have "x_log s' = x_log s"
    using assms Waiting unfolding call_step_def prepare_def ask_user_def refuse_def
    by (auto split: option.splits sum.splits prod.splits permission.splits if_splits)
  then show ?thesis by simp
next
  case (Ready t inp hint)
  then show ?thesis
    using assms run_call_stage [of env u t inp hint s st' s']
    by (auto simp: call_step_def stage_def run_call_def Let_def refuse_def
        split: sum.splits prod.splits if_splits)
next
  case (Posting t inp out)
  then show ?thesis
    using assms
    by (auto simp: call_step_def run_post_hook_def refuse_def split: sum.splits option.splits if_splits)
next
  case (Finished out)
  then show ?thesis using assms by (simp add: call_step_def)
qed

lemma once_step: "once_good uses bs \<Longrightarrow> once_good uses (batch_step env uses i bs)"
proof -
  assume good: "once_good uses bs"
  obtain sts s where bs: "bs = (sts, s)" by (cases bs)
  show "once_good uses (batch_step env uses i bs)"
  proof (cases "i < length uses")
    case True
    obtain st' s' where st: "call_step env (uses ! i) (sts ! i) s = (st', s')"
      by (cases "call_step env (uses ! i) (sts ! i) s")
    have len: "length sts = length uses" using good by (simp add: bs once_good_def)
    have fin: "finite (ran xs)" for xs by (simp add: ran_def)
    have grow: "ran sts \<subseteq> ran (sts[i := st'])"
    proof
      fix x assume "x \<in> ran sts"
      then show "x \<in> ran (sts[i := st'])"
        using call_step_stage [OF st] by (cases "x = i") (auto simp: ran_def)
    qed
    let ?f = "\<lambda>i. u_id (uses ! i)"
    have old: "mset (map ex_use (x_log s)) \<subseteq># image_mset ?f (mset_set (ran sts))"
      using good by (simp add: bs once_good_def)
    have "mset (map ex_use (x_log s')) \<subseteq># image_mset ?f (mset_set (ran (sts[i := st'])))"
    proof (cases "x_log s' = x_log s")
      case True
      have "image_mset ?f (mset_set (ran sts)) \<subseteq># image_mset ?f (mset_set (ran (sts[i := st'])))"
        by (intro image_mset_subseteq_mono subset_imp_msubset_mset_set grow fin)
      then show ?thesis using old unfolding True by (rule subset_mset.order_trans [rotated])
    next
      case False
      then obtain e where e: "stage (sts ! i) = 2" "stage st' \<le> 1" "x_log s' = x_log s @ [e]"
        "ex_use e = ?f i"
        using call_step_log [OF st] by auto
      have "i \<notin> ran sts" using e(1) by (simp add: ran_def)
      moreover have "insert i (ran sts) \<subseteq> ran (sts[i := st'])"
        using grow e(2) True len by (auto simp: ran_def)
      then have "image_mset ?f (mset_set (insert i (ran sts))) \<subseteq>#
          image_mset ?f (mset_set (ran (sts[i := st'])))"
        by (intro image_mset_subseteq_mono subset_imp_msubset_mset_set fin)
      ultimately have "add_mset (?f i) (image_mset ?f (mset_set (ran sts))) \<subseteq>#
          image_mset ?f (mset_set (ran (sts[i := st'])))"
        using fin by simp
      moreover have "mset (map ex_use (x_log s')) \<subseteq>#
          add_mset (?f i) (image_mset ?f (mset_set (ran sts)))"
        using old e(3,4) by simp
      ultimately show ?thesis by (rule subset_mset.order_trans [rotated])
    qed
    then show ?thesis using good True by (simp add: bs once_good_def batch_step_def st)
  qed (use good bs in \<open>simp add: batch_step_def\<close>)
qed

interpretation once: state_contract "batch_step env uses" "once_good uses"
  for env uses
  by unfold_locales (rule once_step)

text \<open>No call is executed more often than it was requested: counted by id, the executions of a
  batch are among its calls.\<close>

theorem executes_at_most_once:
  "mset (map ex_use (x_log (snd (execute_batch env strat sched uses (s\<lparr>x_log := []\<rparr>)))))
     \<subseteq># mset (map u_id uses)"
proof -
  obtain sts s' where run: "run_batch env strat sched uses (s\<lparr>x_log := []\<rparr>) = (sts, s')"
    by (cases "run_batch env strat sched uses (s\<lparr>x_log := []\<rparr>)")
  let ?f = "\<lambda>i. u_id (uses ! i)"
  have "once_good uses (sts, s')"
    unfolding run [symmetric] run_batch_def run_schedule_def
    by (rule once.run_good) (simp add: once_good_def)
  then have "mset (map ex_use (x_log s')) \<subseteq># image_mset ?f (mset_set (ran sts))"
    and len: "length sts = length uses" by (simp_all add: once_good_def)
  moreover have "image_mset ?f (mset_set (ran sts)) \<subseteq># image_mset ?f (mset_set {0..<length uses})"
    by (intro image_mset_subseteq_mono subset_imp_msubset_mset_set) (auto simp: ran_def len)
  moreover have "image_mset ?f (mset_set {0..<length uses}) = mset (map ?f [0..<length uses])"
    by simp
  moreover have "map ?f [0..<length uses] = map u_id uses" by (rule map_indices)
  ultimately have "mset (map ex_use (x_log s')) \<subseteq># mset (map u_id uses)"
    using subset_mset.order_trans by (simp del: mset_map)
  then show ?thesis by (simp add: execute_batch_def run)
qed

section \<open>The output budget is shared\<close>

definition ascii :: "string \<Rightarrow> bool" where
  "ascii s = list_all (\<lambda>c. (of_char c :: nat) < 128) s"

lemma utf8_ascii: "ascii s \<Longrightarrow> utf8_length s = length s"
  by (induction s) (auto simp: ascii_def utf8_length_def)

lemma utf8_append: "utf8_length (a @ b) = utf8_length a + utf8_length b"
  by (simp add: utf8_length_def)

lemma ascii_take: "ascii s \<Longrightarrow> ascii (take n s)"
  by (auto simp: ascii_def list_all_iff dest: in_set_takeD)

lemma ascii_drop: "ascii s \<Longrightarrow> ascii (drop n s)"
  by (auto simp: ascii_def list_all_iff dest: in_set_dropD)

text \<open>What a settled output spends: the notice that replaces an output is not charged.\<close>

definition spent :: "capped \<Rightarrow> nat" where
  "spent c = (if c = Exceeded then 0 else capped_bytes c)"

lemma enforce_cap_spends:
  assumes "enforce_cap text budget = (c, left)" "ascii text"
  shows "spent c + left \<le> budget"
proof (cases "budget = 0 \<or> utf8_length text \<le> budget")
  case True
  then show ?thesis using assms(1) by (auto simp: enforce_cap_def spent_def capped_bytes_def split: if_splits)
next
  case False
  define over where "over = utf8_length text - budget"
  define half where "half = (budget - marker_bytes over) div 2"
  show ?thesis
  proof (cases "budget \<le> marker_bytes over")
    case True
    then show ?thesis
      using assms(1) False by (simp add: enforce_cap_def spent_def over_def [symmetric] Let_def)
  next
    case room: False
    have c: "c = Cut (take half text) over (drop (length text - half) text)" "left = 0"
      using assms(1) False room
      by (auto simp: enforce_cap_def over_def [symmetric] half_def [symmetric] Let_def)
    have "length (take half text) \<le> half" "length (drop (length text - half) text) \<le> half" by simp_all
    then have "spent c \<le> half + marker_bytes over + half"
      using assms(2) by (simp add: c spent_def capped_bytes_def utf8_ascii ascii_take ascii_drop)
    also have "\<dots> \<le> budget" using room unfolding half_def by linarith
    finally show ?thesis by (simp add: c)
  qed
qed

definition ascii_tools :: "exec_env \<Rightarrow> bool" where
  "ascii_tools env \<longleftrightarrow> (\<forall>t inp hint text. run_tool env t inp hint = Inr text \<longrightarrow> ascii text)"

definition status_spent :: "call_status \<Rightarrow> nat" where
  "status_spent st =
     (case st of
        Posting t inp c \<Rightarrow> spent c
      | Finished out \<Rightarrow> (case o_result out of Success c extra \<Rightarrow> spent c | _ \<Rightarrow> 0)
      | _ \<Rightarrow> 0)"

lemma call_step_spends:
  assumes "ascii_tools env" "call_step env u st s = (st', s')"
  shows "status_spent st' + x_budget s' \<le> status_spent st + x_budget s"
proof (cases st)
  case Waiting
  have "status_spent st' = 0 \<and> x_budget s' \<le> x_budget s"
    using assms(2) Waiting unfolding call_step_def prepare_def ask_user_def refuse_def budget_for_def
    by (auto simp: status_spent_def split: option.splits sum.splits prod.splits permission.splits if_splits)
  then show ?thesis by simp
next
  case (Ready t inp hint)
  show ?thesis
  proof (cases "run_tool env t inp hint")
    case (Inl e)
    then show ?thesis
      using assms(2) Ready
      by (auto simp: call_step_def run_call_def Let_def refuse_def budget_for_def status_spent_def)
  next
    case (Inr printed)
    obtain c left where cap: "enforce_cap printed (x_budget s) = (c, left)"
      by (cases "enforce_cap printed (x_budget s)")
    have "ascii printed" using assms(1) Inr unfolding ascii_tools_def by blast
    from enforce_cap_spends [OF cap this] show ?thesis
      using assms(2) Ready Inr cap
      by (auto simp: call_step_def run_call_def Let_def status_spent_def split: if_splits)
  qed
next
  case (Posting t inp c)
  then show ?thesis
    using assms(2)
    by (auto simp: call_step_def run_post_hook_def refuse_def budget_for_def status_spent_def
        split: sum.splits option.splits if_splits)
next
  case (Finished out)
  then show ?thesis using assms(2) by (simp add: call_step_def)
qed

definition budget_good :: "tool_use list \<Rightarrow> nat \<Rightarrow> batch_state \<Rightarrow> bool" where
  "budget_good uses cap bs \<longleftrightarrow>
     (case bs of (sts, s) \<Rightarrow>
        length sts = length uses \<and> sum_list (map status_spent sts) + x_budget s \<le> cap)"

lemma sum_list_set:
  assumes "i < length xs"
  shows "sum_list (map f (xs[i := v])) + f (xs ! i) = sum_list (map f xs) + (f v :: nat)"
  using assms by (induction xs arbitrary: i) (auto split: nat.split simp: less_Suc_eq_0_disj)

lemma sum_list_perm: "mset xs = mset ys \<Longrightarrow> sum_list (map f xs) = (sum_list (map f ys) :: nat)"
  by (simp only: sum_mset_sum_list [symmetric] mset_map)

lemma budget_step:
  assumes "ascii_tools env" "budget_good uses cap bs"
  shows "budget_good uses cap (batch_step env uses i bs)"
proof -
  obtain sts s where bs: "bs = (sts, s)" by (cases bs)
  show ?thesis
  proof (cases "i < length uses")
    case True
    obtain st' s' where st: "call_step env (uses ! i) (sts ! i) s = (st', s')"
      by (cases "call_step env (uses ! i) (sts ! i) s")
    have "i < length sts" using True assms(2) by (simp add: bs budget_good_def)
    from sum_list_set [OF this, of status_spent st'] call_step_spends [OF assms(1) st]
    show ?thesis using assms(2) True by (simp add: bs budget_good_def batch_step_def st)
  qed (use assms(2) bs in \<open>simp add: batch_step_def\<close>)
qed

lemma run_schedule_budget:
  "ascii_tools env \<Longrightarrow> budget_good uses cap bs \<Longrightarrow> budget_good uses cap (run_schedule env uses sched bs)"
  by (induction sched arbitrary: bs) (auto simp: run_schedule_def budget_step)

text \<open>The bytes of the outputs a batch returns.\<close>

definition output_spent :: "call_output option \<Rightarrow> nat" where
  "output_spent r = (case r of None \<Rightarrow> 0 | Some out \<Rightarrow> status_spent (Finished out))"

text \<open>The output cap is cumulative: with tools that print ASCII, the outputs of a batch, whole or
  cut, take together no more bytes than the budget it started with, however the parallel calls
  interleave; an output replaced by the notice is charged nothing.\<close>

theorem output_cap_is_cumulative:
  assumes "ascii_tools env"
  shows "sum_list (map output_spent (fst (execute_batch env strat sched uses s))) \<le> x_budget s"
proof -
  obtain sts s' where run: "run_batch env strat sched uses s = (sts, s')"
    by (cases "run_batch env strat sched uses s")
  have "budget_good uses (x_budget s) (sts, s')"
    unfolding run [symmetric] run_batch_def
    by (rule run_schedule_budget [OF assms])
      (simp add: budget_good_def status_spent_def sum_list_replicate)
  then have total: "length sts = length uses" "sum_list (map status_spent sts) \<le> x_budget s"
    by (simp_all add: budget_good_def)
  have le: "output_spent (finished_output st) \<le> status_spent st" for st
    by (cases st) (simp_all add: output_spent_def finished_output_def)
  have "sum_list (map (\<lambda>i. output_spent (finished_output (sts ! i))) (batch_order env strat uses)) =
        sum_list (map (\<lambda>i. output_spent (finished_output (sts ! i))) [0..<length uses])"
    by (rule sum_list_perm [OF batch_order_mset])
  also have "\<dots> = sum_list (map (\<lambda>st. output_spent (finished_output st)) sts)"
    unfolding total(1) [symmetric] by (rule arg_cong [OF map_indices])
  also have "\<dots> \<le> sum_list (map status_spent sts)" by (rule sum_list_mono) (rule le)
  finally show ?thesis using total(2) by (simp add: execute_batch_def run comp_def)
qed

definition demo_tool :: exec_tool where
  "demo_tool =
     \<lparr>x_perm = \<lparr>pt_name = ''read'', pt_permission = Auto, pt_mutating = False, pt_risk = None,
        pt_subject_key = None, pt_caps = Some [fs_read]\<rparr>,
      x_schema = Schema (Some ''object'') [(''path'', Schema (Some ''string'') [] [] None None)]
        [''path''] None None,
      x_validate = None\<rparr>"

definition demo_exec_env :: exec_env where
  "demo_exec_env =
     \<lparr>lookup = (\<lambda>n. if n = ''read'' then Some demo_tool else None), tool_names = [''read''],
      pre_hook = None, post_hook = None, deep_strict_equal = (=),
      perm_environment = demo_env, confirm_awaiter = None,
      run_tool = (\<lambda>t inp hint. Inr (replicate 50 CHR ''x'')), refusal_bytes = (\<lambda>_. 40)\<rparr>"

definition demo_use :: "string \<Rightarrow> tool_use" where
  "demo_use i = \<lparr>u_id = i, u_name = ''read'', u_input = JObj [(''path'', JStr ''a'')]\<rparr>"

definition demo_exec_state :: exec_state where
  "demo_exec_state = \<lparr>x_budget = 60, x_policy = Subagent None, x_log = []\<rparr>"

lemma output_cap_is_cumulative_witness:
  "ascii_tools demo_exec_env \<and>
   sum_list (map output_spent (fst (execute_batch demo_exec_env Parallel [1, 0, 1, 0]
     [demo_use ''a'', demo_use ''b''] demo_exec_state))) \<le> 60"
proof -
  have a: "ascii_tools demo_exec_env" by (simp add: ascii_tools_def demo_exec_env_def ascii_def list_all_iff)
  from output_cap_is_cumulative [OF a, of Parallel "[1, 0, 1, 0]" "[demo_use ''a'', demo_use ''b'']"
      demo_exec_state]
  show ?thesis using a by (simp add: demo_exec_state_def)
qed

text \<open>The cut is made in characters and the budget is in bytes: with characters of two bytes a cut
  output exceeds the budget it was cut to.\<close>

lemma cut_exceeds_budget:
  "case enforce_cap (replicate 200 CHR 0xE9) 100 of (c, left) \<Rightarrow> capped_bytes c = 169 \<and> left = 0"
  by code_simp

section \<open>Refused calls\<close>

text \<open>A call whose arguments could not be parsed, wrapped by the provider under a sentinel key, is
  reported as a schema violation and not as malformed arguments whenever the tool requires any
  property: the schema check comes first.\<close>

theorem malformed_reported_as_schema_error:
  assumes "x_schema t = Schema (Some ''object'') props req items None"
    and "u_input u = JObj [(marker, raw)]" "marker \<in> set malformed_arg_markers"
    and "k \<in> set req" "k \<noteq> marker" "inherited k = None"
  shows "\<exists>errors. validated_input env t u = Inl (Invalid_arguments (pt_name (x_perm t)) errors)"
proof -
  have "\<not> js_in k [(marker, raw)]"
    using assms(5,6) by (simp add: js_in_def js_prop_def jm_get_Cons)
  then have "missing_errors '''' [(marker, raw)] req \<noteq> []"
    using assms(4) by (auto simp: missing_errors_Nil list_all_iff)
  then have "\<not> fst (validate_against_schema (u_input u) (x_schema t))"
    by (auto simp: validate_against_schema_def assms(1,2) Let_def max_schema_depth_def enum_ok_def
        type_ok_def check_type_def)
  then show ?thesis by (simp add: validated_input_def Let_def)
qed

lemma malformed_reported_as_schema_error_witness:
  "\<exists>errors. validated_input demo_exec_env demo_tool
     \<lparr>u_id = ''1'', u_name = ''read'', u_input = JObj [(''__raw'', JStr ''{'')]\<rparr> =
     Inl (Invalid_arguments ''read'' errors)"
  using malformed_reported_as_schema_error [of demo_tool
      "[(''path'', Schema (Some ''string'') [] [] None None)]" "[''path'']" None
      "\<lparr>u_id = ''1'', u_name = ''read'', u_input = JObj [(''__raw'', JStr ''{'')]\<rparr>"
      "''__raw''" "JStr ''{''" "''path''" demo_exec_env]
  by (simp add: demo_tool_def malformed_arg_markers_def inherited_def prototype_functions_def)

section \<open>Timeouts and error classes\<close>

text \<open>A number that may be infinite or not a number is \<open>None\<close>.\<close>

definition clamp_timeout_ms :: "rat option \<Rightarrow> rat option \<Rightarrow> rat" where
  "clamp_timeout_ms timeout bound =
     (let fin = (\<lambda>v. case v of Some x \<Rightarrow> if x > 0 then x else 300000 | None \<Rightarrow> 300000)
      in max 1 (min (fin timeout) (fin bound)))"

lemma clamp_timeout_bounds:
  "1 \<le> clamp_timeout_ms t b" "0 < x \<Longrightarrow> clamp_timeout_ms t (Some x) \<le> max 1 x"
  by (auto simp: clamp_timeout_ms_def Let_def)

datatype tool_error_category = Transient | Not_found | Permission_error | Validation_error | Fatal

definition http_status_to_category :: "nat \<Rightarrow> tool_error_category \<times> bool" where
  "http_status_to_category status =
     (if status = 429 \<or> status = 503 \<or> status = 502 \<or> status = 504 then (Transient, True)
      else if status = 404 \<or> status = 410 then (Not_found, False)
      else if status = 401 \<or> status = 403 then (Permission_error, False)
      else if status = 400 then (Validation_error, False)
      else (Fatal, False))"

text \<open>What the classification reads of a thrown value: whether it is an \<open>Error\<close>, its name, system
  code and message, the status of a fetch error or of an attached response, whether it is a
  \<open>ToolValidationError\<close>, and the structured part of a \<open>WrongStackError\<close>.\<close>

record thrown_error =
  te_is_error :: bool
  te_name :: string
  te_code :: "string option"
  te_message :: string
  te_fetch_status :: "nat option"
  te_response_status :: "nat option"
  te_is_validation :: bool
  te_structured :: "ws_error option"

definition errno_category :: "string \<Rightarrow> (tool_error_category \<times> bool) option" where
  "errno_category code =
     (if code \<in> {''ETIMEDOUT'', ''ECONNRESET'', ''ECONNREFUSED'', ''ENETUNREACH'', ''EHOSTUNREACH''}
      then Some (Transient, True)
      else if code \<in> {''ENOENT'', ''ENOTDIR''} then Some (Not_found, False)
      else if code \<in> {''EACCES'', ''EPERM''} then Some (Permission_error, False)
      else if code \<in> {''EBUSY'', ''EMFILE'', ''ENFILE''} then Some (Transient, True)
      else None)"

definition classify_tool_error :: "thrown_error \<Rightarrow> tool_error_category \<times> bool" where
  "classify_tool_error e =
     (if te_is_error e \<and> te_name e = ''AbortError'' then (Fatal, False)
      else
        (case (if te_is_error e then Option.bind (te_code e) errno_category else None) of
           Some r \<Rightarrow> r
         | None \<Rightarrow>
        (case te_fetch_status e of
           Some status \<Rightarrow> http_status_to_category status
         | None \<Rightarrow>
        (case (if te_is_error e then te_response_status e else None) of
           Some status \<Rightarrow> http_status_to_category status
         | None \<Rightarrow>
             if te_is_validation e then (Validation_error, False)
             else if te_is_error e \<and> str_includes (te_message e) ''validation''
             then (Validation_error, False)
             else
               (case te_structured e of
                  Some w \<Rightarrow> (if err_severity w = SevWarning then Transient else Fatal, err_recoverable w)
                | None \<Rightarrow> (Fatal, False))))))"

text \<open>Outside structured errors, retryable and transient are the same thing; a structured error of
  severity \<open>error\<close> can be fatal and still marked retryable.\<close>

lemma retryable_is_transient:
  "te_structured e = None \<Longrightarrow> classify_tool_error e = (cat, retry) \<Longrightarrow> retry \<longleftrightarrow> cat = Transient"
  unfolding classify_tool_error_def errno_category_def http_status_to_category_def
  by (cases "te_code e") (auto split: option.splits if_splits)

lemma fatal_yet_retryable:
  "classify_tool_error
     \<lparr>te_is_error = True, te_name = ''FsError'', te_code = None, te_message = ''disk'',
      te_fetch_status = None, te_response_status = None, te_is_validation = False,
      te_structured = Some ((mk_ws_error FS_READ_FAILED SubFs [])\<lparr>err_recoverable := True\<rparr>)\<rparr> =
   (Fatal, True)"
  by code_simp

end
