(* ===== verification/Steering.thy ===== *)
theory Steering
  imports Json
begin

text \<open>
  What the host and the model tell a running agent between two requests: the notes of \<open>/btw\<close>
  (core/src/core/btw.ts), the snapshot of the input queue (core/src/core/queued-messages.ts), and
  the continue directive (core/src/core/continue-to-next-iteration.ts), a tool that sets a flag or
  a marker on a line of its own.

  All of them live in \<open>ctx.meta\<close>, an insertion-ordered map of run-time values. The dash and the
  ellipsis of the message texts have their Windows codes, since characters have eight bits.
\<close>

type_synonym meta = "(string, json) jsmap"

definition newline :: char where
  "newline = CHR 0x0A"

definition ellipsis :: string where
  "ellipsis = [CHR 0x85]"

definition long_dash :: string where
  "long_dash = [CHR 0x97]"

text \<open>A value in a template literal; the queues below only ever hold strings.\<close>

fun as_text :: "json \<Rightarrow> string" where
  "as_text (JStr s) = s"
| "as_text v = ''''"

section \<open>Notes typed while the agent works\<close>

definition btw_key :: string where
  "btw_key = ''_btwNotes''"

definition read_btw_queue :: "meta \<Rightarrow> json list" where
  "read_btw_queue m = (case jm_get m btw_key of Some (JArr xs) \<Rightarrow> xs | _ \<Rightarrow> [])"

definition last_n :: "nat \<Rightarrow> 'a list \<Rightarrow> 'a list" where
  "last_n n xs = drop (length xs - n) xs"

definition set_btw_note :: "string \<Rightarrow> meta \<Rightarrow> nat \<times> meta" where
  "set_btw_note text0 m =
     (let trimmed = js_trim text0
      in if trimmed = '''' then (length (read_btw_queue m), m)
         else let nxt = last_n 20 (read_btw_queue m @ [JStr trimmed])
              in (length nxt, jm_set btw_key (JArr nxt) m))"

definition pending_btw_count :: "meta \<Rightarrow> nat" where
  "pending_btw_count m = length (read_btw_queue m)"

definition consume_btw_notes :: "meta \<Rightarrow> string list \<times> meta" where
  "consume_btw_notes m =
     (let notes = read_btw_queue m
      in (map as_text notes, if notes \<noteq> [] then jm_del btw_key m else m))"

definition build_btw_block :: "string list \<Rightarrow> string" where
  "build_btw_block notes =
     (let body = js_join [newline] (map (\<lambda>n. ''- '' @ n) notes)
      in js_join [newline]
           [''[BY THE WAY '' @ long_dash @ '' the user added this while you were working. Fold it into'',
            ''your current task; do not restart from scratch unless it contradicts the'',
            ''goal:'', '''', body, '']''])"

section \<open>The queue of messages for later\<close>

definition queue_key :: string where
  "queue_key = ''_queuedMessagesAwareness''"

record awareness =
  aw_items :: "string list"
  aw_seen :: "string list"

definition read_awareness :: "meta \<Rightarrow> awareness option" where
  "read_awareness m =
     (case jm_get m queue_key of
        None \<Rightarrow> None
      | Some v \<Rightarrow>
          (case (own v ''items'', own v ''seen'') of
             (Some (JArr xs), Some (JArr ys)) \<Rightarrow>
               Some \<lparr>aw_items = map as_text xs, aw_seen = map as_text ys\<rparr>
           | _ \<Rightarrow> None))"

definition write_awareness :: "awareness \<Rightarrow> meta \<Rightarrow> meta" where
  "write_awareness a m =
     jm_set queue_key (JObj [(''items'', JArr (map JStr (aw_items a))),
                             (''seen'', JArr (map JStr (aw_seen a)))]) m"

definition to_preview :: "string \<Rightarrow> string" where
  "to_preview s =
     (let trimmed = js_trim s
      in if length trimmed \<le> 500 then trimmed else take 499 trimmed @ ellipsis)"

definition previews :: "string list \<Rightarrow> string list" where
  "previews ts = take 20 (filter (\<lambda>t. t \<noteq> '''') (map to_preview ts))"

definition set_queued_snapshot :: "string list \<Rightarrow> meta \<Rightarrow> meta" where
  "set_queued_snapshot ts m =
     (let items = previews ts; prev = read_awareness m
      in if items = [] \<and> (case prev of None \<Rightarrow> True | Some p \<Rightarrow> aw_seen p = [])
         then (if prev = None then m else jm_del queue_key m)
         else write_awareness
                \<lparr>aw_items = items, aw_seen = (case prev of None \<Rightarrow> [] | Some p \<Rightarrow> aw_seen p)\<rparr> m)"

definition peek_queued :: "meta \<Rightarrow> string list" where
  "peek_queued m = (case read_awareness m of None \<Rightarrow> [] | Some a \<Rightarrow> aw_items a)"

definition consume_queued_update :: "meta \<Rightarrow> string list option \<times> meta" where
  "consume_queued_update m =
     (case read_awareness m of
        None \<Rightarrow> (None, m)
      | Some a \<Rightarrow>
          if aw_items a = aw_seen a then (None, m)
          else if aw_items a = [] then (None, jm_del queue_key m)
          else (Some (aw_items a), write_awareness \<lparr>aw_items = aw_items a, aw_seen = aw_items a\<rparr> m))"

definition build_queued_block :: "string list \<Rightarrow> string" where
  "build_queued_block items =
     (let body = js_join [newline]
            (map (\<lambda>i. show_nat (i + 1) @ ''. '' @ items ! i) [0..<length items])
      in js_join [newline]
           [''[QUEUED MESSAGES '' @ long_dash @ '' the user typed these while you were working. They are'',
            ''waiting in the input queue and each will be delivered as its own turn'',
            ''after you finish, so do NOT answer or act on them as new tasks now. Read'',
            ''them as a heads-up: if one changes what you should be doing right now'',
            ''(new constraint, invalidated approach), adapt your current work; if one'',
            ''is just an FYI, fold it in. The queue may still change before delivery.'',
            ''This notice replaces any earlier one '' @ long_dash @ '' the queue now holds exactly:'',
            '''', body, '']''])"

section \<open>The continue directive\<close>

datatype directive = Go_on | Stop_now | No_directive

text \<open>The multi-line regular expression matches exactly the lines whose trimmed text is a marker;
  the rightmost match decides. Only the last 2048 characters are scanned.\<close>

definition line_end :: "char \<Rightarrow> bool" where
  "line_end c = (c = newline \<or> c = CHR 0x0D)"

fun lines_of :: "string \<Rightarrow> string list" where
  "lines_of [] = [[]]"
| "lines_of (c # s) =
     (if line_end c then [] # lines_of s
      else (case lines_of s of [] \<Rightarrow> [[c]] | l # ls \<Rightarrow> (c # l) # ls))"

definition line_directive :: "string \<Rightarrow> directive option" where
  "line_directive l =
     (let v = to_lower (js_trim l)
      in if v \<in> {''[continue]'', ''[next step]'', ''[proceed]''} then Some Go_on
         else if v = ''[done]'' then Some Stop_now else None)"

definition scan_window :: nat where
  "scan_window = 2048"

definition parse_continue_directive :: "string \<Rightarrow> directive" where
  "parse_continue_directive t =
     (let tail = (if length t \<le> scan_window then t else drop (length t - scan_window) t)
      in fold (\<lambda>l d. case line_directive l of None \<Rightarrow> d | Some d' \<Rightarrow> d') (lines_of tail) No_directive)"

definition continue_key :: string where
  "continue_key = ''_autonomousContinue''"

definition set_autonomous_continue :: "meta \<Rightarrow> meta" where
  "set_autonomous_continue m = jm_set continue_key (JBool True) m"

definition clear_autonomous_continue :: "meta \<Rightarrow> meta" where
  "clear_autonomous_continue m = jm_del continue_key m"

definition consume_autonomous_continue :: "meta \<Rightarrow> bool \<times> meta" where
  "consume_autonomous_continue m =
     (jm_get m continue_key = Some (JBool True), jm_del continue_key m)"

section \<open>Facts about the notes\<close>

lemma as_text_JStr [simp]: "map as_text (map JStr xs) = xs"
  by (induction xs) auto

lemma last_n_last_n: "last_n n (last_n n xs @ ys) = last_n n (xs @ ys)"
  by (cases "length xs \<le> n") (auto simp: last_n_def add.commute)

lemma last_n_length [simp]: "length (last_n n xs) = min n (length xs)"
  by (simp add: last_n_def)

lemma map_last_n: "map f (last_n n xs) = last_n n (map f xs)"
  by (simp add: last_n_def drop_map)

lemma read_btw_after_set:
  "read_btw_queue (snd (set_btw_note t m)) =
     (if js_trim t = '''' then read_btw_queue m else last_n 20 (read_btw_queue m @ [JStr (js_trim t)]))"
  by (simp add: set_btw_note_def Let_def read_btw_queue_def)

lemma read_btw_consumed [simp]: "read_btw_queue (snd (consume_btw_notes m)) = []"
  by (simp add: consume_btw_notes_def Let_def read_btw_queue_def)

definition note_texts :: "string list \<Rightarrow> string list" where
  "note_texts ts = filter (\<lambda>t. t \<noteq> '''') (map js_trim ts)"

lemma read_btw_fold:
  "length (read_btw_queue m) \<le> 20 \<Longrightarrow>
   read_btw_queue (fold (\<lambda>t m. snd (set_btw_note t m)) ts m) =
     last_n 20 (read_btw_queue m @ map JStr (note_texts ts))"
proof (induction ts arbitrary: m)
  case Nil
  then show ?case by (simp add: note_texts_def last_n_def)
next
  case (Cons t ts)
  have "length (read_btw_queue (snd (set_btw_note t m))) \<le> 20"
    using Cons.prems by (simp add: read_btw_after_set)
  from Cons.IH [OF this] show ?case
    by (simp add: read_btw_after_set note_texts_def last_n_last_n)
qed

text \<open>The agent receives the notes typed since it last looked, trimmed, blank ones left out, in the
  order they were typed, and of more than twenty the last twenty.\<close>

theorem btw_delivered_in_order:
  "fst (consume_btw_notes
     (fold (\<lambda>t m. snd (set_btw_note t m)) ts (snd (consume_btw_notes m)))) = last_n 20 (note_texts ts)"
proof -
  define m' where "m' = snd (consume_btw_notes m)"
  have "read_btw_queue (fold (\<lambda>t m. snd (set_btw_note t m)) ts m') = map JStr (last_n 20 (note_texts ts))"
    using read_btw_fold [of m' ts] by (simp add: m'_def map_last_n)
  then show ?thesis
    unfolding m'_def [symmetric] by (simp add: consume_btw_notes_def [of "fold _ _ _"] Let_def del: map_map)
qed

section \<open>Facts about the queue snapshot\<close>

lemma read_write_awareness [simp]: "read_awareness (write_awareness a m) = Some a"
  by (simp add: read_awareness_def write_awareness_def own_def jm_get_Cons del: map_map)

lemma read_awareness_del [simp]: "read_awareness (jm_del queue_key m) = None"
  by (simp add: read_awareness_def)

lemma previews_bounded:
  "length (previews ts) \<le> 20 \<and> list_all (\<lambda>t. 0 < length t \<and> length t \<le> 500) (previews ts)"
proof -
  have "length (to_preview t) \<le> 500" for t
    by (simp add: to_preview_def Let_def ellipsis_def)
  then have "list_all (\<lambda>t. 0 < length t \<and> length t \<le> 500) (filter (\<lambda>t. t \<noteq> '''') (map to_preview ts))"
    by (auto simp: list_all_iff)
  then show ?thesis
    by (auto simp: previews_def list_all_iff dest: in_set_takeD)
qed

definition seen_of :: "meta \<Rightarrow> string list" where
  "seen_of m = (case read_awareness m of None \<Rightarrow> [] | Some a \<Rightarrow> aw_seen a)"

text \<open>At an iteration boundary the model is told of the queue exactly when the last snapshot is not
  empty and differs from the one it was told of before; a second look tells it nothing.\<close>

theorem queue_notice_exact:
  "fst (consume_queued_update (set_queued_snapshot ts m)) =
     (if previews ts = [] \<or> previews ts = seen_of m then None else Some (previews ts))"
  by (auto simp: consume_queued_update_def set_queued_snapshot_def seen_of_def Let_def
      split: option.splits if_splits)

theorem queue_notice_once:
  "fst (consume_queued_update (snd (consume_queued_update m))) = None"
  by (auto simp: consume_queued_update_def split: option.splits)

lemma seen_after_notice:
  "fst (consume_queued_update m) = Some items \<Longrightarrow> seen_of (snd (consume_queued_update m)) = items"
  by (auto simp: consume_queued_update_def seen_of_def split: option.splits if_splits)

section \<open>Facts about the directive\<close>

lemma lines_of_not_Nil [simp]: "lines_of s \<noteq> []"
  by (induction s) (auto split: list.splits)

lemma lines_of_plain: "list_all (\<lambda>c. \<not> line_end c) l \<Longrightarrow> lines_of l = [l]"
  by (induction l) auto

lemma lines_of_append:
  "lines_of (s @ newline # t) = lines_of s @ lines_of t"
proof (induction s)
  case Nil
  then show ?case by (simp add: line_end_def)
next
  case (Cons c s)
  then show ?case by (cases "lines_of s") auto
qed

definition directive_of_lines :: "string list \<Rightarrow> directive" where
  "directive_of_lines ls =
     fold (\<lambda>l d. case line_directive l of None \<Rightarrow> d | Some d' \<Rightarrow> d') ls No_directive"

lemma fold_directive_last:
  "fold (\<lambda>l d. case line_directive l of None \<Rightarrow> d | Some d' \<Rightarrow> d') ls d =
     (case filter (\<lambda>l. line_directive l \<noteq> None) ls of
        [] \<Rightarrow> d | ms \<Rightarrow> the (line_directive (last ms)))"
proof (induction ls arbitrary: d)
  case (Cons l ls)
  show ?case
    by (simp only: fold_simps Cons.IH) (auto split: list.splits option.splits)
qed simp

text \<open>A marker on the last line decides, whatever stands before it, even the opposite marker, and
  even when the window cuts the text.\<close>

theorem last_marker_wins:
  assumes "list_all (\<lambda>c. \<not> line_end c) l" and "line_directive l = Some d" and "length l < scan_window"
  shows "parse_continue_directive (t @ newline # l) = d"
proof -
  define tail where "tail =
    (if length (t @ newline # l) \<le> scan_window then t @ newline # l
     else drop (length (t @ newline # l) - scan_window) (t @ newline # l))"
  have "\<exists>t'. tail = t' @ newline # l"
    using assms(3) by (auto simp: tail_def)
  then obtain t' where t': "tail = t' @ newline # l" ..
  have "parse_continue_directive (t @ newline # l) = directive_of_lines (lines_of tail)"
    unfolding parse_continue_directive_def directive_of_lines_def Let_def tail_def ..
  also have "\<dots> = d"
    using assms(1,2) by (simp add: t' directive_of_lines_def lines_of_append lines_of_plain)
  finally show ?thesis .
qed

theorem last_marker_wins_witness:
  "parse_continue_directive (''[continue]'' @ newline # ''  [DONE] '') = Stop_now"
  by (rule last_marker_wins) code_simp+

definition padding :: string where
  "padding = replicate 2041 CHR ''x''"

lemma padding_plain: "list_all (\<lambda>c. \<not> line_end c) padding"
  by (simp add: padding_def list_all_iff line_end_def newline_def)

lemma padding_directive: "line_directive padding = None"
proof -
  have x: "\<not> is_js_space CHR ''x''" "lower_char CHR ''x'' = CHR ''x''"
    by code_simp+
  obtain n where n: "(2041::nat) = Suc n" by (metis numeral_eq_Suc)
  have "to_lower (js_trim padding) = padding"
    unfolding padding_def js_trim_def to_lower_def using x by (simp add: dropWhile_replicate)
  moreover have "hd padding = CHR ''x''"
    unfolding padding_def n by simp
  then have "hd s \<noteq> CHR ''x'' \<Longrightarrow> padding \<noteq> s" for s
    by auto
  then have "padding \<notin> {''[continue]'', ''[next step]'', ''[proceed]''}" "padding \<noteq> ''[done]''"
    by simp_all
  ultimately show ?thesis by (simp add: line_directive_def Let_def)
qed

text \<open>The window may begin in the middle of a line. What is left of that line is then read as a
  line of its own, so a marker quoted at the end of a sentence is obeyed.\<close>

theorem cut_line_obeyed:
  "parse_continue_directive (p @ ''[done]'' @ newline # padding) = Stop_now"
proof -
  have marker: "list_all (\<lambda>c. \<not> line_end c) ''[done]''" "line_directive ''[done]'' = Some Stop_now"
    by code_simp+
  have len: "length (''[done]'' @ newline # padding) = scan_window"
    by (simp add: padding_def scan_window_def)
  let ?t = "p @ ''[done]'' @ newline # padding"
  have "(if length ?t \<le> scan_window then ?t else drop (length ?t - scan_window) ?t) =
      ''[done]'' @ newline # padding"
    using len by auto
  then have "parse_continue_directive ?t = directive_of_lines (lines_of (''[done]'' @ newline # padding))"
    unfolding parse_continue_directive_def directive_of_lines_def Let_def by (simp only:)
  also have "\<dots> = Stop_now"
    unfolding lines_of_append lines_of_plain [OF marker(1)] lines_of_plain [OF padding_plain]
    by (simp add: directive_of_lines_def marker padding_directive)
  finally show ?thesis .
qed

text \<open>Read as a whole, the same text has no marker.\<close>

lemma whole_text_has_no_marker:
  "directive_of_lines (lines_of (''Remember to write [done]'' @ newline # padding)) = No_directive"
proof -
  have "list_all (\<lambda>c. \<not> line_end c) ''Remember to write [done]''"
    "line_directive ''Remember to write [done]'' = None"
    by code_simp+
  then show ?thesis
    unfolding lines_of_append lines_of_plain [OF padding_plain]
    by (simp add: lines_of_plain directive_of_lines_def padding_directive)
qed

end
