(* ===== verification/Mailbox.thy ===== *)
theory Mailbox
  imports Steering
begin

text \<open>
  The mailbox through which agents of several processes talk to each other
  (core/src/coordination/global-mailbox.ts over the types of coordination/mailbox-types.ts) and the
  part of the agent loop that reads it (core/src/core/mailbox-loop.ts).

  The messages are the lines of one file that all processes share; every write holds a file lock,
  so writes of different processes do not overlap. A process keeps an in-memory copy with the
  modification time and size it was read at, and decides from these what to read again; a read holds
  no lock and is two steps (\<open>start_read\<close>, \<open>finish_read\<close>), between which anything may happen. The file
  is its text, so the offsets of the incremental read are those of the code; printing and parsing
  of one line are parameters. A write advances the modification time. The late refresh of time
  and size that the code starts without waiting for it is an operation of its own (\<open>late_stat\<close>).
  Times are numbers, fresh identifiers are arguments, and publishing to observers is left out.
\<close>

section \<open>Messages\<close>

datatype mail_type =
    Note | Ask | Assign | Steer | Btw | Broadcast | Status | Result | Review | Control

datatype mail_priority = Low | Normal | High

record mail =
  ml_id :: string
  ml_from :: string
  ml_to :: string
  ml_type :: mail_type
  ml_subject :: string
  ml_body :: string
  ml_priority :: mail_priority
  ml_read_by :: "(string, nat) jsmap"
  ml_completed :: bool
  ml_completed_by :: "string option"
  ml_outcome :: "string option"
  ml_time :: nat
  ml_completed_at :: "nat option"
  ml_deleted_at :: "nat option"
  ml_deleted_by :: "string option"
  ml_reply_to :: "string option"
  ml_context :: "json option"

record mail_query =
  mq_to :: "string option"
  mq_from :: "string option"
  mq_unread_by :: "string option"
  mq_incomplete :: bool
  mq_type :: "mail_type option"
  mq_priority :: "mail_priority option"
  mq_limit :: "nat option"
  mq_since :: "nat option"
  mq_deleted :: bool

record mail_input =
  mi_from :: string
  mi_to :: string
  mi_type :: mail_type
  mi_subject :: string
  mi_body :: string
  mi_priority :: "mail_priority option"
  mi_reply_to :: "string option"
  mi_context :: "json option"

record mail_ack =
  ma_message :: string
  ma_reader :: string
  ma_read :: "bool option"
  ma_completed :: "bool option"
  ma_outcome :: "string option"

definition normalize_recipient :: "string \<Rightarrow> string" where
  "normalize_recipient t = (if to_lower (js_trim t) = ''all'' then ''*'' else js_trim t)"

definition priority_rank :: "mail_priority \<Rightarrow> nat" where
  "priority_rank p = (case p of Low \<Rightarrow> 0 | Normal \<Rightarrow> 1 | High \<Rightarrow> 2)"

text \<open>\<open>id in m.readBy\<close>: the receipts, and what an object inherits.\<close>

definition has_read :: "string \<Rightarrow> mail \<Rightarrow> bool" where
  "has_read a m = (jm_has (ml_read_by m) a \<or> inherited a \<noteq> None)"

section \<open>The shared file and a process's copy of it\<close>

record line_codec =
  print_line :: "mail \<Rightarrow> string"
  parse_line :: "string \<Rightarrow> mail option"

record mail_file =
  mf_text :: string
  mf_mtime :: nat

record mail_cache =
  mc_messages :: "mail list option"
  mc_mtime :: int
  mc_size :: int

type_synonym mail_state = "mail_file option \<times> mail_cache"

definition cache_limit :: nat where
  "cache_limit = 10000"

definition drop_cache :: mail_cache where
  "drop_cache = \<lparr>mc_messages = None, mc_mtime = -1, mc_size = -1\<rparr>"

definition parse_lines :: "line_codec \<Rightarrow> string \<Rightarrow> mail list" where
  "parse_lines cd raw =
     List.map_filter (parse_line cd) (filter (\<lambda>l. js_trim l \<noteq> '''') (js_split newline raw))"

definition read_messages :: "line_codec \<Rightarrow> mail_file option \<Rightarrow> mail list" where
  "read_messages cd f = (case f of None \<Rightarrow> [] | Some d \<Rightarrow> parse_lines cd (mf_text d))"

definition set_message_cache :: "mail list \<Rightarrow> (int \<times> int) option \<Rightarrow> mail_cache \<Rightarrow> mail_cache" where
  "set_message_cache ms st c =
     (if cache_limit < length ms then drop_cache
      else case st of
             None \<Rightarrow> c\<lparr>mc_messages := Some ms\<rparr>
           | Some (mtime, bytes) \<Rightarrow> \<lparr>mc_messages = Some ms, mc_mtime = mtime, mc_size = bytes\<rparr>)"

definition late_stat :: "mail_file option \<Rightarrow> mail_cache \<Rightarrow> mail_cache" where
  "late_stat f c =
     (case f of
        None \<Rightarrow> c
      | Some d \<Rightarrow> c\<lparr>mc_mtime := int (mf_mtime d), mc_size := int (length (mf_text d))\<rparr>)"

definition push_to_cache :: "mail \<Rightarrow> mail_cache \<Rightarrow> mail_cache" where
  "push_to_cache m c =
     (case mc_messages c of
        None \<Rightarrow> c
      | Some ms \<Rightarrow> if cache_limit \<le> length ms then drop_cache else c\<lparr>mc_messages := Some (ms @ [m])\<rparr>)"

definition read_fresh :: "line_codec \<Rightarrow> mail_state \<Rightarrow> mail list \<times> mail_cache" where
  "read_fresh cd s =
     (let all = read_messages cd (fst s) in (all, set_message_cache all None (snd s)))"

text \<open>A read through the copy is two steps, without the lock: a \<open>stat\<close>, which decides what to read, and
  the read itself, before which other processes may write and other calls of this process may run.
  The second step gives \<open>None\<close> when the copy is gone by then and the caller fails on \<open>null\<close>.\<close>

datatype read_plan = Answer "mail list" | Read_tail nat nat int | Read_all int int

definition start_read :: "mail_state \<Rightarrow> read_plan \<times> mail_cache" where
  "start_read s =
     (case s of (f, c) \<Rightarrow>
        case f of
          None \<Rightarrow> (Answer [], set_message_cache [] (Some (-1, -1)) c)
        | Some d \<Rightarrow>
            let mtime = int (mf_mtime d); bytes = length (mf_text d) in
            case mc_messages c of
              None \<Rightarrow> (Read_all mtime (int bytes), c)
            | Some ms \<Rightarrow>
                if mc_mtime c = mtime \<and> mc_size c = int bytes then (Answer ms, c)
                else if 0 \<le> mc_size c \<and> mc_size c < int bytes
                then (Read_tail (nat (mc_size c)) bytes mtime, c)
                else (Read_all mtime (int bytes), c))"

text \<open>The bytes between two offsets; the buffer keeps its zeros where the file ends before.\<close>

definition read_between :: "nat \<Rightarrow> nat \<Rightarrow> string \<Rightarrow> string" where
  "read_between a b t =
     (let part = take (b - a) (drop a t) in part @ replicate (b - a - length part) (CHR 0x00))"

definition finish_read ::
    "line_codec \<Rightarrow> read_plan \<Rightarrow> mail_state \<Rightarrow> mail list option \<times> mail_cache" where
  "finish_read cd plan s =
     (case s of (f, c) \<Rightarrow>
        case plan of
          Answer ms \<Rightarrow> (Some ms, c)
        | Read_tail a b mtime \<Rightarrow>
            (case f of
               None \<Rightarrow> (Some [], set_message_cache [] (Some (-1, -1)) c)
             | Some d \<Rightarrow>
                 (case mc_messages c of
                    None \<Rightarrow> (None, c\<lparr>mc_mtime := mtime, mc_size := int b\<rparr>)
                  | Some ms \<Rightarrow>
                      let ms' = ms @ parse_lines cd (read_between a b (mf_text d))
                      in (Some ms', \<lparr>mc_messages = Some ms', mc_mtime = mtime, mc_size = int b\<rparr>)))
        | Read_all mtime bytes \<Rightarrow>
            let all = read_messages cd f in (Some all, set_message_cache all (Some (mtime, bytes)) c))"

section \<open>Operations on messages\<close>

definition append_text :: "string \<Rightarrow> mail_file option \<Rightarrow> mail_file option" where
  "append_text t f =
     (case f of
        None \<Rightarrow> Some \<lparr>mf_text = t, mf_mtime = 0\<rparr>
      | Some d \<Rightarrow> Some \<lparr>mf_text = mf_text d @ t, mf_mtime = mf_mtime d + 1\<rparr>)"

definition write_text :: "string \<Rightarrow> mail_file option \<Rightarrow> mail_file option" where
  "write_text t f =
     (case f of
        None \<Rightarrow> Some \<lparr>mf_text = t, mf_mtime = 0\<rparr>
      | Some d \<Rightarrow> Some \<lparr>mf_text = t, mf_mtime = mf_mtime d + 1\<rparr>)"

definition serialize :: "line_codec \<Rightarrow> mail list \<Rightarrow> string" where
  "serialize cd ms = js_join [newline] (map (print_line cd) ms) @ [newline]"

definition new_mail :: "string \<Rightarrow> nat \<Rightarrow> mail_input \<Rightarrow> mail" where
  "new_mail i now inp =
     \<lparr>ml_id = i, ml_from = mi_from inp, ml_to = normalize_recipient (mi_to inp),
      ml_type = mi_type inp, ml_subject = mi_subject inp, ml_body = mi_body inp,
      ml_priority = (case mi_priority inp of None \<Rightarrow> Normal | Some p \<Rightarrow> p),
      ml_read_by = [], ml_completed = False, ml_completed_by = None, ml_outcome = None,
      ml_time = now, ml_completed_at = None, ml_deleted_at = None, ml_deleted_by = None,
      ml_reply_to = mi_reply_to inp, ml_context = mi_context inp\<rparr>"

definition send_mail :: "line_codec \<Rightarrow> string \<Rightarrow> nat \<Rightarrow> mail_input \<Rightarrow> mail_state \<Rightarrow> mail \<times> mail_state" where
  "send_mail cd i now inp s =
     (let m = new_mail i now inp
      in (m, (append_text (print_line cd m @ [newline]) (fst s), push_to_cache m (snd s))))"

definition matches_query :: "mail_query \<Rightarrow> mail \<Rightarrow> bool" where
  "matches_query q m \<longleftrightarrow>
     (case mq_to q of None \<Rightarrow> True | Some t \<Rightarrow> ml_to m = t \<or> ml_to m = ''*'') \<and>
     (case mq_from q of None \<Rightarrow> True | Some t \<Rightarrow> ml_from m = t) \<and>
     (case mq_unread_by q of None \<Rightarrow> True | Some a \<Rightarrow> \<not> has_read a m) \<and>
     \<not> (mq_incomplete q \<and> ml_completed m) \<and>
     (case mq_type q of None \<Rightarrow> True | Some t \<Rightarrow> ml_type m = t) \<and>
     (case mq_priority q of None \<Rightarrow> True | Some p \<Rightarrow> priority_rank p \<le> priority_rank (ml_priority m)) \<and>
     (case mq_since q of None \<Rightarrow> True | Some t \<Rightarrow> t < ml_time m) \<and>
     (mq_deleted q \<or> ml_deleted_at m = None)"

definition select_mail :: "mail_query \<Rightarrow> mail list \<Rightarrow> mail list" where
  "select_mail q all =
     take (case mq_limit q of None \<Rightarrow> 50 | Some n \<Rightarrow> n)
       (sort_key (\<lambda>m. - int (ml_time m)) (filter (matches_query q) all))"

text \<open>The rest of a query and of the unread count, from the second step of their read on.\<close>

definition query_mail ::
    "line_codec \<Rightarrow> mail_query \<Rightarrow> read_plan \<Rightarrow> mail_state \<Rightarrow> mail list option \<times> mail_state" where
  "query_mail cd q plan s =
     (case finish_read cd plan s of (all, c) \<Rightarrow> (map_option (select_mail q) all, (fst s, c)))"

definition count_unread :: "string \<Rightarrow> mail list \<Rightarrow> nat" where
  "count_unread a all =
     length (filter (\<lambda>m. (ml_to m = a \<or> ml_to m = ''*'') \<and> \<not> has_read a m \<and> \<not> ml_completed m) all)"

definition unread_count ::
    "line_codec \<Rightarrow> string \<Rightarrow> read_plan \<Rightarrow> mail_state \<Rightarrow> nat option \<times> mail_state" where
  "unread_count cd a plan s =
     (case finish_read cd plan s of (all, c) \<Rightarrow> (map_option (count_unread a) all, (fst s, c)))"

definition apply_ack :: "nat \<Rightarrow> mail_ack \<Rightarrow> mail \<Rightarrow> mail" where
  "apply_ack now a m0 =
     (let m1 = (if ma_read a \<noteq> Some False \<and> \<not> has_read (ma_reader a) m0
                then m0\<lparr>ml_read_by := jm_set (ma_reader a) now (ml_read_by m0)\<rparr> else m0);
          m2 = (if ma_completed a = Some True \<and> \<not> ml_completed m1
                then m1\<lparr>ml_completed := True, ml_completed_by := Some (ma_reader a),
                        ml_completed_at := Some now\<rparr> else m1)
      in if ma_outcome a \<noteq> None \<and> ml_outcome m2 \<noteq> ma_outcome a
         then m2\<lparr>ml_outcome := ma_outcome a\<rparr> else m2)"

definition acks_by_id :: "mail_ack list \<Rightarrow> (string, mail_ack) jsmap" where
  "acks_by_id as = fold (\<lambda>a. jm_set (ma_message a) a) as []"

definition acked :: "nat \<Rightarrow> (string, mail_ack) jsmap \<Rightarrow> mail \<Rightarrow> mail" where
  "acked now by m = (case jm_get by (ml_id m) of None \<Rightarrow> m | Some a \<Rightarrow> apply_ack now a m)"

definition ack_many :: "line_codec \<Rightarrow> nat \<Rightarrow> mail_ack list \<Rightarrow> mail_state \<Rightarrow> mail list \<times> mail_state" where
  "ack_many cd now as s =
     (if as = [] then ([], s)
      else
        let by = acks_by_id as;
            (all, c) = read_fresh cd s;
            all' = map (acked now by) all;
            f = (if all' \<noteq> all then write_text (serialize cd all') (fst s) else fst s)
        in (filter (\<lambda>m. jm_has by (ml_id m)) all', (f, set_message_cache all' None c)))"

definition ack_mail :: "line_codec \<Rightarrow> nat \<Rightarrow> mail_ack \<Rightarrow> mail_state \<Rightarrow> mail option \<times> mail_state" where
  "ack_mail cd now a s =
     (case ack_many cd now [a] s of (ms, s') \<Rightarrow> (case ms of [] \<Rightarrow> None | m # _ \<Rightarrow> Some m, s'))"

text \<open>The last message with the identifier, after the change.\<close>

definition last_with_id :: "string \<Rightarrow> mail list \<Rightarrow> mail option" where
  "last_with_id i ms = (case rev (filter (\<lambda>m. ml_id m = i) ms) of [] \<Rightarrow> None | m # _ \<Rightarrow> Some m)"

definition rewrite_mail ::
    "line_codec \<Rightarrow> (mail \<Rightarrow> mail) \<Rightarrow> string \<Rightarrow> mail_state \<Rightarrow> mail option \<times> mail_state" where
  "rewrite_mail cd g i s =
     (let (all, c) = read_fresh cd s;
          all' = map (\<lambda>m. if ml_id m = i then g m else m) all
      in (last_with_id i all',
          (write_text (serialize cd all') (fst s), set_message_cache all' None c)))"

definition soft_delete ::
    "line_codec \<Rightarrow> nat \<Rightarrow> string \<Rightarrow> string \<Rightarrow> mail_state \<Rightarrow> mail option \<times> mail_state" where
  "soft_delete cd now i by s =
     rewrite_mail cd
       (\<lambda>m. if ml_deleted_at m \<noteq> None then m
            else m\<lparr>ml_deleted_at := Some now, ml_deleted_by := Some by\<rparr>) i s"

definition restore_mail :: "line_codec \<Rightarrow> string \<Rightarrow> mail_state \<Rightarrow> mail option \<times> mail_state" where
  "restore_mail cd i s =
     rewrite_mail cd (\<lambda>m. m\<lparr>ml_deleted_at := None, ml_deleted_by := None\<rparr>) i s"

definition clear_all :: "mail_state \<Rightarrow> mail_state" where
  "clear_all s = (write_text '''' (fst s), set_message_cache [] None (snd s))"

record purge_result =
  pr_completed :: nat
  pr_incomplete :: nat
  pr_total :: nat
  pr_remaining :: nat

definition stale_completed :: "int \<Rightarrow> int \<Rightarrow> mail \<Rightarrow> bool" where
  "stale_completed now age m \<longleftrightarrow>
     ml_completed m \<and> int (case ml_completed_at m of None \<Rightarrow> 0 | Some t \<Rightarrow> t) < now - age"

definition stale_incomplete :: "int \<Rightarrow> int \<Rightarrow> mail \<Rightarrow> bool" where
  "stale_incomplete now age m \<longleftrightarrow> \<not> ml_completed m \<and> int (ml_time m) < now - age"

definition purge_stale ::
    "line_codec \<Rightarrow> nat \<Rightarrow> nat option \<Rightarrow> nat option \<Rightarrow> mail_state \<Rightarrow> purge_result \<times> mail_state" where
  "purge_stale cd now done_age open_age s =
     (let completed_age = int (case done_age of None \<Rightarrow> 86400000 | Some a \<Rightarrow> a);
          incomplete_age = int (case open_age of None \<Rightarrow> 604800000 | Some a \<Rightarrow> a);
          (all, c) = read_fresh cd s;
          done_gone = filter (stale_completed (int now) completed_age) all;
          open_gone = filter (stale_incomplete (int now) incomplete_age) all;
          kept = filter (\<lambda>m. \<not> stale_completed (int now) completed_age m \<and>
                             \<not> stale_incomplete (int now) incomplete_age m) all;
          f = (if length kept < length all then write_text (serialize cd kept) (fst s) else fst s)
      in (\<lparr>pr_completed = length done_gone, pr_incomplete = length open_gone,
           pr_total = length done_gone + length open_gone, pr_remaining = length kept\<rparr>,
          (f, set_message_cache kept None c)))"

definition close_mailbox :: "mail_state \<Rightarrow> mail_state" where
  "close_mailbox s = (fst s, drop_cache)"

section \<open>The registries of agents and clients\<close>

datatype agent_status = Idle | Running | Streaming | Waiting_user | Agent_error

record agent_entry =
  ae_id :: string
  ae_session :: string
  ae_name :: string
  ae_role :: "string option"
  ae_status :: agent_status
  ae_tool :: "string option"
  ae_task :: "string option"
  ae_iterations :: nat
  ae_tool_calls :: nat
  ae_registered :: nat
  ae_last_seen :: nat
  ae_pid :: nat
  ae_source :: "string option"

record registry =
  rg_file :: "(string, agent_entry) jsmap"
  rg_cache :: "(string, agent_entry) jsmap option"
  rg_cached_at :: nat
  rg_last_beat :: "(string, nat) jsmap"

record heartbeat_input =
  hb_id :: string
  hb_status :: "agent_status option"
  hb_tool :: "string option"
  hb_task :: "string option"
  hb_iterations :: "nat option"
  hb_tool_calls :: "nat option"

definition agent_stale_ms :: nat where "agent_stale_ms = 60000"
definition agent_purge_ms :: nat where "agent_purge_ms = 86400000"
definition heartbeat_throttle_ms :: nat where "heartbeat_throttle_ms = 5000"
definition registry_cache_ttl_ms :: nat where "registry_cache_ttl_ms = 2000"

text \<open>A cached read within the time to live, or the file, which then becomes the copy.\<close>

definition read_registry :: "bool \<Rightarrow> nat \<Rightarrow> registry \<Rightarrow> (string, agent_entry) jsmap \<times> registry" where
  "read_registry fresh now r =
     (case (if fresh then None else rg_cache r) of
        Some m \<Rightarrow>
          if now - rg_cached_at r < registry_cache_ttl_ms then (m, r)
          else (rg_file r, r\<lparr>rg_cache := Some (rg_file r), rg_cached_at := now\<rparr>)
      | None \<Rightarrow> (rg_file r, r\<lparr>rg_cache := Some (rg_file r), rg_cached_at := now\<rparr>))"

definition prune_stale :: "nat \<Rightarrow> (string, agent_entry) jsmap \<Rightarrow> (string, agent_entry) jsmap" where
  "prune_stale now m =
     map (\<lambda>(k, a). (k, if int (ae_last_seen a) < int now - int agent_stale_ms
                       then a\<lparr>ae_status := Idle\<rparr> else a))
       (filter (\<lambda>(k, a). \<not> int (ae_last_seen a) < int now - int agent_purge_ms) m)"

text \<open>A change under the lock: read the file, prune, change, keep as the copy, write.\<close>

definition change_registry ::
    "nat \<Rightarrow> ((string, agent_entry) jsmap \<Rightarrow> (string, agent_entry) jsmap) \<Rightarrow> registry \<Rightarrow> registry" where
  "change_registry now g r =
     (let m = g (prune_stale now (fst (read_registry True now r)))
      in r\<lparr>rg_file := m, rg_cache := Some m, rg_cached_at := now\<rparr>)"

definition register_agent :: "nat \<Rightarrow> agent_entry \<Rightarrow> registry \<Rightarrow> registry" where
  "register_agent now inp r =
     change_registry now
       (jm_set (ae_id inp)
          (inp\<lparr>ae_status := Idle, ae_tool := None, ae_task := None, ae_iterations := 0,
               ae_tool_calls := 0, ae_registered := now, ae_last_seen := now\<rparr>)) r"

definition deregister_agent :: "nat \<Rightarrow> string \<Rightarrow> registry \<Rightarrow> registry" where
  "deregister_agent now i r = change_registry now (jm_del i) r"

definition beat :: "nat \<Rightarrow> heartbeat_input \<Rightarrow> agent_entry \<Rightarrow> agent_entry" where
  "beat now h a =
     a\<lparr>ae_last_seen := now,
       ae_status := (case hb_status h of None \<Rightarrow> ae_status a | Some x \<Rightarrow> x),
       ae_tool := (case hb_tool h of None \<Rightarrow> ae_tool a | Some x \<Rightarrow> Some x),
       ae_task := (case hb_task h of None \<Rightarrow> ae_task a | Some x \<Rightarrow> Some x),
       ae_iterations := (case hb_iterations h of None \<Rightarrow> ae_iterations a | Some x \<Rightarrow> x),
       ae_tool_calls := (case hb_tool_calls h of None \<Rightarrow> ae_tool_calls a | Some x \<Rightarrow> x)\<rparr>"

definition agent_heartbeat :: "nat \<Rightarrow> heartbeat_input \<Rightarrow> registry \<Rightarrow> registry" where
  "agent_heartbeat now h r =
     (let last = (case jm_get (rg_last_beat r) (hb_id h) of None \<Rightarrow> 0 | Some t \<Rightarrow> t)
      in if now - last < heartbeat_throttle_ms then r
         else change_registry now (jm_update (hb_id h) (beat now h))
                (r\<lparr>rg_last_beat := jm_set (hb_id h) now (rg_last_beat r)\<rparr>))"

text \<open>The statuses, newest first, each with whether it counts as online.\<close>

definition agent_statuses :: "nat \<Rightarrow> registry \<Rightarrow> (agent_entry \<times> bool) list \<times> registry" where
  "agent_statuses now r =
     (case read_registry False now r of (m, r') \<Rightarrow>
        (sort_key (\<lambda>p. - int (ae_last_seen (fst p)))
           (map (\<lambda>(k, a). (a, int now - int (ae_last_seen a) < int agent_stale_ms)) (prune_stale now m)), r'))"

definition online_agents :: "nat \<Rightarrow> registry \<Rightarrow> agent_entry list \<times> registry" where
  "online_agents now r =
     (case agent_statuses now r of (xs, r') \<Rightarrow> (map fst (filter snd xs), r'))"

record client_entry =
  ce_id :: string
  ce_session :: string
  ce_name :: string
  ce_source :: string
  ce_registered :: nat
  ce_last_seen :: nat
  ce_pid :: nat

text \<open>Stale clients get the cutoff as the time they were last seen.\<close>

definition prune_clients :: "nat \<Rightarrow> (string, client_entry) jsmap \<Rightarrow> (string, client_entry) jsmap" where
  "prune_clients now m =
     map (\<lambda>(k, c). (k, if int (ce_last_seen c) < int now - 60000
                       then c\<lparr>ce_last_seen := now - 60000\<rparr> else c)) m"

definition register_client ::
    "nat \<Rightarrow> client_entry \<Rightarrow> (string, client_entry) jsmap \<Rightarrow> (string, client_entry) jsmap" where
  "register_client now inp m =
     jm_set (ce_id inp) (inp\<lparr>ce_registered := now, ce_last_seen := now\<rparr>) (prune_clients now m)"

text \<open>The beats of this process, and the file.\<close>

definition client_heartbeat ::
    "nat \<Rightarrow> string \<Rightarrow> string option \<Rightarrow> (string, nat) jsmap \<times> (string, client_entry) jsmap \<Rightarrow>
     (string, nat) jsmap \<times> (string, client_entry) jsmap" where
  "client_heartbeat now i session s =
     (case s of (beats, m) \<Rightarrow>
        if now - (case jm_get beats i of None \<Rightarrow> 0 | Some t \<Rightarrow> t) < heartbeat_throttle_ms then s
        else (jm_set i now beats,
              jm_update i
                (\<lambda>c. c\<lparr>ce_last_seen := now,
                       ce_session := (case session of
                          Some t \<Rightarrow> if t \<noteq> '''' then t else ce_session c | None \<Rightarrow> ce_session c)\<rparr>)
                (prune_clients now m)))"

definition client_statuses :: "nat \<Rightarrow> (string, client_entry) jsmap \<Rightarrow> (client_entry \<times> bool) list" where
  "client_statuses now m =
     sort_key (\<lambda>p. - int (ce_last_seen (fst p)))
       (map (\<lambda>(k, c). (c, int now - int (ce_last_seen c) < 60000)) (prune_clients now m))"

definition client_online :: "nat \<Rightarrow> client_entry \<Rightarrow> bool" where
  "client_online now c \<longleftrightarrow> int now - int (ce_last_seen c) < 60000"

section \<open>The part of the loop that reads the mailbox\<close>

definition tracked_limit :: nat where
  "tracked_limit = 1000"

text \<open>The answers of the queries, one for each address; identifiers already seen in this round, then
  those injected before and completed messages, are left out.\<close>

definition add_by_id :: "mail \<Rightarrow> mail list \<Rightarrow> mail list" where
  "add_by_id m out = (if ml_id m \<in> ml_id ` set out then out else out @ [m])"

definition first_by_id :: "mail list \<Rightarrow> mail list" where
  "first_by_id ms = fold add_by_id ms []"

definition check_mailbox :: "mail list list \<Rightarrow> string list \<Rightarrow> mail list \<times> string list" where
  "check_mailbox batches injected =
     (let messages = first_by_id (concat batches);
          fresh = filter (\<lambda>m. ml_id m \<notin> set injected \<and> \<not> ml_completed m) messages;
          injected' = fold js_add (map ml_id fresh) injected
      in (fresh, if tracked_limit < length injected' then last_n 500 injected' else injected'))"

definition checker_acks :: "string \<Rightarrow> mail list \<Rightarrow> mail_ack list" where
  "checker_acks a fresh =
     map (\<lambda>m. \<lparr>ma_message = ml_id m, ma_reader = a, ma_read = Some True,
               ma_completed = None, ma_outcome = None\<rparr>) fresh"


text \<open>Steering first, then the others in their order.\<close>

definition render_order :: "mail list \<Rightarrow> mail list" where
  "render_order ms = filter (\<lambda>m. ml_type m = Steer) ms @ filter (\<lambda>m. ml_type m \<noteq> Steer) ms"

definition is_word_char :: "char \<Rightarrow> bool" where
  "is_word_char c = (let n = of_char c :: nat in
     48 \<le> n \<and> n \<le> 57 \<or> 65 \<le> n \<and> n \<le> 90 \<or> 97 \<le> n \<and> n \<le> 122 \<or> n = 95)"

text \<open>The words of a text: maximal runs of word characters.\<close>

fun words_of :: "string \<Rightarrow> string \<Rightarrow> string list" where
  "words_of acc [] = (if acc = [] then [] else [acc])"
| "words_of acc (c # s) =
     (if is_word_char c then words_of (acc @ [c]) s
      else (if acc = [] then [] else [acc]) @ words_of [] s)"

definition names_a_stop :: "mail \<Rightarrow> bool" where
  "names_a_stop m =
     list_ex (\<lambda>w. to_lower w \<in> {''interrupt'', ''stop'', ''halt'', ''abort'', ''cancel''})
       (words_of [] (ml_subject m @ '' '' @ ml_body m))"

definition interrupt_reason :: "mail \<Rightarrow> string" where
  "interrupt_reason m =
     (if ml_body m \<noteq> '''' then ml_body m
      else if ml_subject m \<noteq> '''' then ml_subject m else ''operator interrupt'')"

text \<open>The messages to fold into the conversation, in the order shown, and the reason of an
  interrupt.\<close>

definition inject_mail :: "mail list \<Rightarrow> mail list \<times> string option" where
  "inject_mail messages =
     (let control = filter (\<lambda>m. ml_type m = Control) messages;
          content = filter (\<lambda>m. ml_type m \<noteq> Control) messages
      in (render_order content,
          case filter names_a_stop control of [] \<Rightarrow> None | m # _ \<Rightarrow> Some (interrupt_reason m)))"

section \<open>Lines\<close>

definition line_ok :: "line_codec \<Rightarrow> mail \<Rightarrow> bool" where
  "line_ok cd m \<longleftrightarrow>
     parse_line cd (print_line cd m) = Some m \<and> newline \<notin> set (print_line cd m) \<and>
     js_trim (print_line cd m) \<noteq> ''''"

definition ends_line :: "string \<Rightarrow> bool" where
  "ends_line t = (t = '''' \<or> last t = newline)"

lemma js_trim_Nil [simp]: "js_trim '''' = ''''"
  by (simp add: js_trim_def)

lemma map_filter_append: "List.map_filter f (xs @ ys) = List.map_filter f xs @ List.map_filter f ys"
  by (simp add: List.map_filter_def)

lemma parse_lines_append: "ends_line a \<Longrightarrow> parse_lines cd (a @ b) = parse_lines cd a @ parse_lines cd b"
proof (cases "a = ''''")
  case True
  then show ?thesis by (simp add: parse_lines_def List.map_filter_def)
next
  case False
  assume "ends_line a"
  with False have a: "a = butlast a @ newline # ''''"
    by (auto simp: ends_line_def append_butlast_last_id dest: append_butlast_last_id)
  then have b: "a @ b = butlast a @ newline # b"
    by (metis append.assoc append_Cons append_Nil)
  have "js_split newline (a @ b) = js_split newline (butlast a) @ js_split newline b"
    by (simp only: b js_split_at)
  moreover have "js_split newline a = js_split newline (butlast a) @ [[]]"
    using js_split_at [of newline "butlast a" "''''"] a by simp
  ultimately show ?thesis
    by (simp add: parse_lines_def List.map_filter_def)
qed

lemma parse_own_line: "line_ok cd m \<Longrightarrow> parse_lines cd (print_line cd m @ [newline]) = [m]"
  using js_split_at [of newline "print_line cd m" "''''"]
  by (simp add: parse_lines_def line_ok_def js_split_single List.map_filter_def)

section \<open>Reading through the copy\<close>


text \<open>The copy is that of a prefix of the file that ends a line: nothing was done to the file since,
  but appending.\<close>

definition behind :: "line_codec \<Rightarrow> mail_state \<Rightarrow> bool" where
  "behind cd s \<longleftrightarrow>
     (case fst s of None \<Rightarrow> True | Some d \<Rightarrow> ends_line (mf_text d)) \<and>
     (case mc_messages (snd s) of
        None \<Rightarrow> True
      | Some ms \<Rightarrow>
          mc_size (snd s) < 0 \<or>
          (\<exists>d n. fst s = Some d \<and> mc_size (snd s) = int n \<and> n \<le> length (mf_text d) \<and>
             ends_line (take n (mf_text d)) \<and> ms = parse_lines cd (take n (mf_text d)) \<and>
             (n = length (mf_text d) \<longrightarrow> mc_mtime (snd s) = int (mf_mtime d))))"

definition append_all :: "line_codec \<Rightarrow> mail list \<Rightarrow> mail_file option \<Rightarrow> mail_file option" where
  "append_all cd ms f = fold (\<lambda>m. append_text (print_line cd m @ [newline])) ms f"

lemma append_all_simps [simp]:
  "append_all cd [] f = f"
  "append_all cd (m # ms) f = append_all cd ms (append_text (print_line cd m @ [newline]) f)"
  by (simp_all add: append_all_def)

lemma append_all_text: "\<exists>d' t. append_all cd ms (Some d) = Some d' \<and> mf_text d' = mf_text d @ t"
proof (induction ms arbitrary: d)
  case (Cons m ms)
  from Cons [of "\<lparr>mf_text = mf_text d @ print_line cd m @ [newline], mf_mtime = mf_mtime d + 1\<rparr>"]
  show ?case by (auto simp: append_text_def)
qed simp

fun reads_all :: "read_plan \<Rightarrow> bool" where
  "reads_all (Read_all mtime bytes) = True"
| "reads_all plan = False"

lemma read_between_prefix: "b \<le> length t \<Longrightarrow> read_between a b (t @ u) = take (b - a) (drop a t)"
  by (simp add: read_between_def Let_def)

text \<open>A read during which other processes append, unless it reads the whole file, gives the messages
  the file had when it started.\<close>

lemma read_exact:
  assumes "behind cd (f, c)" and "start_read (f, c) = (plan, c')" and "ms = [] \<or> \<not> reads_all plan"
  shows "fst (finish_read cd plan (append_all cd ms f, c')) = Some (read_messages cd f) \<and>
    behind cd (f, snd (finish_read cd plan (append_all cd ms f, c')))"
proof (cases f)
  case None
  with assms(2) have "plan = Answer []" "c' = set_message_cache [] (Some (-1, -1)) c"
    by (simp_all add: start_read_def)
  with None show ?thesis
    by (simp add: finish_read_def read_messages_def behind_def set_message_cache_def cache_limit_def)
next
  case f: (Some d)
  have ends: "ends_line (mf_text d)" using assms(1) by (simp add: behind_def f)
  have all: "behind cd (f, set_message_cache (parse_lines cd (mf_text d))
      (Some (int (mf_mtime d), int (length (mf_text d)))) x)" for x
    using ends by (simp add: behind_def f set_message_cache_def drop_cache_def)
  show ?thesis
  proof (cases plan)
    case (Read_all mtime bytes)
    then have "mtime = int (mf_mtime d)" "bytes = int (length (mf_text d))" "ms = []"
      using assms(2,3) by (auto simp: start_read_def f Let_def split: option.splits if_splits)
    with Read_all all show ?thesis
      by (simp add: finish_read_def f read_messages_def Let_def)
  next
    case (Answer xs)
    then obtain n where n: "c' = c" "mc_messages c = Some xs" "mc_size c = int (length (mf_text d))"
      using assms(2) by (auto simp: start_read_def f Let_def split: option.splits if_splits)
    then have "xs = parse_lines cd (mf_text d)" using assms(1) by (auto simp: behind_def f)
    with n Answer assms(1) show ?thesis by (simp add: finish_read_def f read_messages_def)
  next
    case (Read_tail a b mtime)
    then obtain xs where p: "c' = c" "mc_messages c = Some xs" "mc_size c = int a" "b = length (mf_text d)"
      "mtime = int (mf_mtime d)" "a < b"
      using assms(2) by (auto simp: start_read_def f Let_def split: option.splits if_splits)
    then have xs: "ends_line (take a (mf_text d))" "xs = parse_lines cd (take a (mf_text d))"
      using assms(1) by (auto simp: behind_def f)
    obtain d' t where d': "append_all cd ms (Some d) = Some d'" "mf_text d' = mf_text d @ t"
      using append_all_text by blast
    have "read_between a b (mf_text d') = drop a (mf_text d)"
      using p(4) by (simp add: d'(2) read_between_prefix)
    moreover have "xs @ parse_lines cd (drop a (mf_text d)) = parse_lines cd (mf_text d)"
      using parse_lines_append [OF xs(1), of cd "drop a (mf_text d)"] xs(2) by simp
    ultimately have "finish_read cd plan (append_all cd ms f, c') =
        (Some (parse_lines cd (mf_text d)),
         \<lparr>mc_messages = Some (parse_lines cd (mf_text d)), mc_mtime = mtime, mc_size = int b\<rparr>)"
      using p(1,2) by (simp add: finish_read_def Read_tail f d'(1) Let_def)
    then show ?thesis using p(4,5) ends by (simp add: f read_messages_def behind_def)
  qed
qed

lemma behind_append:
  assumes "behind cd (f, c)" and "line_ok cd m"
  shows "behind cd (append_text (print_line cd m @ [newline]) f, c)"
proof (cases f)
  case None
  then show ?thesis
    using assms(1) by (auto simp: append_text_def behind_def ends_line_def split: option.splits)
next
  case (Some d)
  then show ?thesis
    using assms(1) by (force simp: append_text_def behind_def ends_line_def split: option.splits)
qed

lemma behind_append_all:
  "behind cd (f, c) \<Longrightarrow> list_all (line_ok cd) ms \<Longrightarrow> behind cd (append_all cd ms f, c)"
  by (induction ms arbitrary: f) (simp_all add: behind_append)

text \<open>What may happen to the file and to one process's copy of it while nobody changes a message and this
  process sends nothing: other processes send, this process reads, one read after the other, or closes
  its mailbox. A read comes with the messages that are appended between its two steps.\<close>

datatype mail_event = Sent_elsewhere mail | Read_through "mail list" | Closed

fun mail_step :: "line_codec \<Rightarrow> mail_event \<Rightarrow> mail_state \<Rightarrow> mail_state" where
  "mail_step cd (Sent_elsewhere m) s = (append_text (print_line cd m @ [newline]) (fst s), snd s)"
| "mail_step cd (Read_through ms) s =
     (case start_read s of (plan, c) \<Rightarrow>
        let f = append_all cd ms (fst s) in (f, snd (finish_read cd plan (f, c))))"
| "mail_step cd Closed s = close_mailbox s"

text \<open>No append falls into a read of the whole file.\<close>

fun event_ok :: "line_codec \<Rightarrow> mail_event \<Rightarrow> mail_state \<Rightarrow> bool" where
  "event_ok cd (Sent_elsewhere m) s = line_ok cd m"
| "event_ok cd (Read_through ms) s =
     (list_all (line_ok cd) ms \<and> (ms = [] \<or> \<not> reads_all (fst (start_read s))))"
| "event_ok cd Closed s = True"

fun undisturbed :: "line_codec \<Rightarrow> mail_event list \<Rightarrow> mail_state \<Rightarrow> bool" where
  "undisturbed cd [] s = True"
| "undisturbed cd (e # es) s = (event_ok cd e s \<and> undisturbed cd es (mail_step cd e s))"

fun sent_by :: "mail_event \<Rightarrow> mail list" where
  "sent_by (Sent_elsewhere m) = [m]"
| "sent_by (Read_through ms) = ms"
| "sent_by Closed = []"

definition sent_in :: "mail_event list \<Rightarrow> mail list" where
  "sent_in es = concat (map sent_by es)"

lemma mail_step_behind:
  assumes "behind cd s" and "event_ok cd e s"
  shows "behind cd (mail_step cd e s)"
proof -
  obtain f c where s: "s = (f, c)" by (cases s)
  show ?thesis
  proof (cases e)
    case (Sent_elsewhere m)
    then show ?thesis using assms by (simp add: s behind_append)
  next
    case (Read_through ms)
    obtain plan c' where p: "start_read (f, c) = (plan, c')" by (cases "start_read (f, c)")
    have "behind cd (f, snd (finish_read cd plan (append_all cd ms f, c')))"
      using read_exact [OF _ p] assms Read_through by (simp add: s p)
    then show ?thesis using assms(2) Read_through by (simp add: s p Let_def behind_append_all)
  next
    case Closed
    then show ?thesis using assms(1) by (simp add: s close_mailbox_def behind_def drop_cache_def)
  qed
qed

interpretation reading: state_contract
    "\<lambda>e s. if event_ok cd e s then mail_step cd e s else s" "behind cd" for cd
  by unfold_locales (simp add: mail_step_behind)

lemma mail_steps_behind:
  "behind cd s \<Longrightarrow> undisturbed cd es s \<Longrightarrow> behind cd (fold (mail_step cd) es s)"
proof -
  assume b: "behind cd s" and u: "undisturbed cd es s"
  have "fold (mail_step cd) es s = fold (\<lambda>e s. if event_ok cd e s then mail_step cd e s else s) es s"
    using u by (induction es arbitrary: s) simp_all
  then show ?thesis using reading.run_good [OF b, of es] by simp
qed

lemma read_messages_append:
  assumes "case f of None \<Rightarrow> True | Some d \<Rightarrow> ends_line (mf_text d)" and "line_ok cd m"
  shows "read_messages cd (append_text (print_line cd m @ [newline]) f) = read_messages cd f @ [m]"
  using assms by (cases f) (simp_all add: read_messages_def append_text_def parse_lines_append parse_own_line)

lemma read_messages_append_all:
  "behind cd (f, c) \<Longrightarrow> list_all (line_ok cd) ms \<Longrightarrow>
   read_messages cd (append_all cd ms f) = read_messages cd f @ ms"
proof (induction ms arbitrary: f)
  case (Cons m ms)
  have "case f of None \<Rightarrow> True | Some d \<Rightarrow> ends_line (mf_text d)"
    using Cons.prems(1) by (simp add: behind_def)
  with Cons show ?case by (simp add: behind_append read_messages_append)
qed simp

lemma mail_step_messages:
  assumes "behind cd s" and "event_ok cd e s"
  shows "read_messages cd (fst (mail_step cd e s)) = read_messages cd (fst s) @ sent_by e"
proof -
  obtain f c where s: "s = (f, c)" by (cases s)
  have "case f of None \<Rightarrow> True | Some d \<Rightarrow> ends_line (mf_text d)"
    using assms(1) by (simp add: behind_def s)
  with assms show ?thesis
    by (cases e)
      (auto simp: s close_mailbox_def Let_def read_messages_append read_messages_append_all split: prod.split)
qed

lemma mail_steps_messages:
  "behind cd s \<Longrightarrow> undisturbed cd es s \<Longrightarrow>
   read_messages cd (fst (fold (mail_step cd) es s)) = read_messages cd (fst s) @ sent_in es"
proof (induction es arbitrary: s)
  case Nil
  then show ?case by (simp add: sent_in_def)
next
  case (Cons e es)
  then show ?case
    by (simp add: mail_step_behind mail_step_messages sent_in_def)
qed

lemma undisturbed_append:
  "undisturbed cd (es @ es') s \<longleftrightarrow> undisturbed cd es s \<and> undisturbed cd es' (fold (mail_step cd) es s)"
  by (induction es arbitrary: s) simp_all

text \<open>C7. A process that starts without a copy, sends nothing itself and lets one read finish before it
  starts the next answers every query, and counts the unread messages, from exactly the messages that
  the file held when the read started: those it held at first and all that other processes appended
  since, whenever they did and however often the process reads and closes, provided that nobody changes
  a message and no append falls between the two steps of a read of the whole file (when it does, see
  \<open>append_during_read_doubles\<close>; own sends, \<open>own_message_read_twice\<close>; overlapping reads,
  \<open>overlapping_reads_double\<close>). Appends between the two steps of the other reads do no harm.\<close>

theorem cached_query_exact:
  assumes "ends_line (mf_text d)" and "undisturbed cd (es @ [Read_through ms]) (Some d, drop_cache)"
    and "s = fold (mail_step cd) es (Some d, drop_cache)" and "start_read s = (plan, c)"
  shows "fst (query_mail cd q plan (append_all cd ms (fst s), c)) =
      Some (select_mail q (parse_lines cd (mf_text d) @ sent_in es)) \<and>
    fst (unread_count cd a plan (append_all cd ms (fst s), c)) =
      Some (count_unread a (parse_lines cd (mf_text d) @ sent_in es))"
proof -
  have start: "behind cd (Some d, drop_cache)"
    using assms(1) by (simp add: behind_def drop_cache_def)
  have u: "undisturbed cd es (Some d, drop_cache)" "event_ok cd (Read_through ms) s"
    using assms(2,3) by (simp_all add: undisturbed_append)
  have "behind cd (fst s, snd s)"
    using mail_steps_behind [OF start u(1)] assms(3) by simp
  moreover have "ms = [] \<or> \<not> reads_all plan" using u(2) assms(4) by simp
  ultimately have "fst (finish_read cd plan (append_all cd ms (fst s), c)) = Some (read_messages cd (fst s))"
    using read_exact [of cd "fst s" "snd s" plan c ms] assms(4) by simp
  also have "read_messages cd (fst s) = parse_lines cd (mf_text d) @ sent_in es"
    using mail_steps_messages [OF start u(1)] assms(3) by (simp add: read_messages_def)
  finally show ?thesis
    by (simp add: query_mail_def unread_count_def split_beta)
qed

section \<open>Where the copy fails\<close>

text \<open>The copy is that of the whole file.\<close>

definition current :: "line_codec \<Rightarrow> mail_file \<Rightarrow> mail_cache \<Rightarrow> bool" where
  "current cd d c \<longleftrightarrow>
     ends_line (mf_text d) \<and> mc_messages c = Some (parse_lines cd (mf_text d)) \<and>
     mc_mtime c = int (mf_mtime d) \<and> mc_size c = int (length (mf_text d))"

text \<open>A read between whose steps nothing happens.\<close>

definition read_at_once :: "line_codec \<Rightarrow> mail_state \<Rightarrow> mail list option \<times> mail_cache" where
  "read_at_once cd s = (case start_read s of (plan, c) \<Rightarrow> finish_read cd plan (fst s, c))"

lemma read_tail_append:
  "read_between (length t) (length t + length u) (t @ u @ w) = u"
  by (simp add: read_between_def Let_def)

text \<open>C18. Sending puts the message into the copy but leaves the size: the next read takes the own
  message from the tail of the file once more, whatever is appended to the file while it reads.\<close>

theorem own_message_read_twice:
  assumes "current cd d c" and "length (parse_lines cd (mf_text d)) < cache_limit"
    and "line_ok cd (new_mail i now inp)"
    and "snd (send_mail cd i now inp (Some d, c)) = (Some d', c')" and "start_read (Some d', c') = (plan, c'')"
  shows "fst (finish_read cd plan (Some (d'\<lparr>mf_text := mf_text d' @ later\<rparr>), c'')) =
    Some (parse_lines cd (mf_text d) @ [new_mail i now inp, new_mail i now inp])"
proof -
  let ?line = "print_line cd (new_mail i now inp) @ [newline]"
  have sent: "mf_text d' = mf_text d @ ?line" "mf_mtime d' = mf_mtime d + 1"
    "c' = c\<lparr>mc_messages := Some (parse_lines cd (mf_text d) @ [new_mail i now inp])\<rparr>"
    using assms(1,2,4) by (auto simp: current_def send_mail_def Let_def push_to_cache_def append_text_def)
  have "plan = Read_tail (length (mf_text d)) (length (mf_text d) + length ?line) (int (mf_mtime d'))" "c'' = c'"
    using assms(1,5) by (auto simp: start_read_def sent current_def Let_def)
  then show ?thesis
    using read_tail_append [of "mf_text d" ?line later] parse_own_line [OF assms(3)]
    by (simp add: finish_read_def sent Let_def)
qed

text \<open>A file that got longer is taken to have been appended to: whatever another process rewrote in
  it, the messages of the copy are returned as they were.\<close>

theorem longer_rewrite_unseen:
  assumes "current cd d c" and "length (mf_text d) < length (mf_text d')"
  shows "map_option (take (length (parse_lines cd (mf_text d)))) (fst (read_at_once cd (Some d', c))) =
    Some (parse_lines cd (mf_text d))"
  using assms by (simp add: current_def read_at_once_def start_read_def finish_read_def Let_def)

text \<open>The size kept with the copy is that of the \<open>stat\<close> before the read: a message appended between the
  two steps of a read of the whole file is in the copy, and the next read takes it from the tail once
  more, although only another process appended.\<close>

theorem append_during_read_doubles:
  assumes "ends_line (mf_text d)" and "line_ok cd m" and "length (parse_lines cd (mf_text d)) < cache_limit"
  shows "case start_read (Some d, drop_cache) of (plan, c) \<Rightarrow>
    let f = append_text (print_line cd m @ [newline]) (Some d)
    in case finish_read cd plan (f, c) of (first, c1) \<Rightarrow>
         first = Some (parse_lines cd (mf_text d) @ [m]) \<and>
         fst (read_at_once cd (f, c1)) = Some (parse_lines cd (mf_text d) @ [m, m])"
proof -
  let ?line = "print_line cd m @ [newline]"
  have all: "parse_lines cd (mf_text d @ ?line) = parse_lines cd (mf_text d) @ [m]"
    using assms(1,2) by (simp add: parse_lines_append parse_own_line)
  show ?thesis
    using assms(3) read_tail_append [of "mf_text d" ?line "''''"] parse_own_line [OF assms(2)]
    by (simp add: start_read_def finish_read_def drop_cache_def append_text_def read_messages_def
        read_at_once_def set_message_cache_def all Let_def del: append_assoc)
qed

text \<open>Two reads of one process that overlap both take the same tail into the shared copy.\<close>

theorem overlapping_reads_double:
  assumes "current cd d c" and "line_ok cd m"
    and "append_text (print_line cd m @ [newline]) (Some d) = f"
  shows "case start_read (f, c) of (plan, c1) \<Rightarrow> case start_read (f, c1) of (plan', c2) \<Rightarrow>
    case finish_read cd plan (f, c2) of (first, c3) \<Rightarrow>
      first = Some (parse_lines cd (mf_text d) @ [m]) \<and>
      fst (finish_read cd plan' (f, c3)) = Some (parse_lines cd (mf_text d) @ [m, m])"
proof -
  let ?line = "print_line cd m @ [newline]"
  show ?thesis
    using assms(1) read_tail_append [of "mf_text d" ?line "''''"] parse_own_line [OF assms(2)]
    by (simp add: current_def start_read_def finish_read_def append_text_def Let_def flip: assms(3)
        del: append_assoc)
qed

section \<open>Queries\<close>

text \<open>No matching message that a query leaves out is newer than one it returns.\<close>

theorem query_keeps_newest:
  "if m \<in> set all \<and> matches_query q m \<and> m \<notin> set (select_mail q all)
   then list_all (\<lambda>x. ml_time m \<le> ml_time x) (select_mail q all) else True"
proof -
  let ?key = "\<lambda>m. - int (ml_time m)"
  let ?sorted = "sort_key ?key (filter (matches_query q) all)"
  let ?n = "case mq_limit q of None \<Rightarrow> 50 | Some n \<Rightarrow> n"
  have "ml_time m \<le> ml_time x"
    if "m \<in> set all" "matches_query q m" "m \<notin> set (take ?n ?sorted)" "x \<in> set (take ?n ?sorted)" for x
  proof -
    have "m \<in> set ?sorted" using that by simp
    then have "m \<in> set (take ?n ?sorted @ drop ?n ?sorted)" by simp
    with that(3) have m: "m \<in> set (drop ?n ?sorted)" unfolding set_append by blast
    have "sorted (map ?key (take ?n ?sorted @ drop ?n ?sorted))" by simp
    then have "?key x \<le> ?key m"
      using that(4) m unfolding map_append sorted_append by auto
    then show ?thesis by simp
  qed
  then show ?thesis by (simp add: select_mail_def list_all_iff)
qed

lemma query_sorted: "sorted_wrt (\<lambda>a b. ml_time b \<le> ml_time a) (select_mail q all)"
proof -
  have "sorted (map (\<lambda>m. - int (ml_time m)) (select_mail q all))"
    unfolding select_mail_def take_map [symmetric] by (intro sorted_wrt_take sorted_sort_key)
  then show ?thesis by (simp add: sorted_map)
qed

lemma query_sound: "m \<in> set (select_mail q all) \<Longrightarrow> m \<in> set all \<and> matches_query q m"
  by (auto simp: select_mail_def dest: in_set_takeD)

section \<open>Acknowledging\<close>

lemma has_read_after: "has_read (ma_reader a) (m\<lparr>ml_read_by := jm_set (ma_reader a) now r\<rparr>)"
  by (simp add: has_read_def)

text \<open>An acknowledgement has an effect once: repeated at any later time it changes nothing, so the
  first reading, and the first completion with its author and time, stay.\<close>

theorem ack_idempotent: "apply_ack later a (apply_ack now a m) = apply_ack now a m"
proof -
  let ?m = "apply_ack now a m"
  have "\<not> (ma_read a \<noteq> Some False \<and> \<not> has_read (ma_reader a) ?m)"
    by (simp add: apply_ack_def Let_def has_read_def)
  moreover have "\<not> (ma_completed a = Some True \<and> \<not> ml_completed ?m)"
    by (simp add: apply_ack_def Let_def)
  moreover have "\<not> (ma_outcome a \<noteq> None \<and> ml_outcome ?m \<noteq> ma_outcome a)"
    by (simp add: apply_ack_def Let_def)
  ultimately show ?thesis
    by (simp only: apply_ack_def [of later] Let_def if_False)
qed

lemma completion_is_final:
  "ml_completed m \<Longrightarrow> ml_completed (apply_ack now a m) \<and>
     ml_completed_by (apply_ack now a m) = ml_completed_by m \<and>
     ml_completed_at (apply_ack now a m) = ml_completed_at m"
  by (auto simp: apply_ack_def Let_def)

text \<open>A message acknowledged as read is no longer unread for its reader.\<close>

lemma acked_is_read:
  "ma_read a \<noteq> Some False \<Longrightarrow> mq_unread_by q = Some (ma_reader a) \<Longrightarrow> \<not> matches_query q (apply_ack now a m)"
  by (auto simp: matches_query_def apply_ack_def Let_def has_read_def)

text \<open>The unread test finds inherited names: an agent of such a name never has unread mail.\<close>

lemma inherited_name_has_no_mail:
  "matches_query (q\<lparr>mq_unread_by := Some ''constructor''\<rparr>) m = False"
  by (simp add: matches_query_def has_read_def inherited_def prototype_functions_def)

text \<open>The unread counter counts what queries hide: a deleted message.\<close>

lemma deleted_message_counted:
  assumes "current cd d c" and "parse_lines cd (mf_text d) = [m]" and "ml_to m = a"
    and "\<not> has_read a m" and "\<not> ml_completed m" and "ml_deleted_at m = Some t" and "\<not> mq_deleted q"
  shows "case start_read (Some d, c) of (plan, c') \<Rightarrow>
    fst (unread_count cd a plan (Some d, c')) = Some 1 \<and> fst (query_mail cd q plan (Some d, c')) = Some []"
  using assms
  by (simp add: current_def unread_count_def count_unread_def query_mail_def start_read_def finish_read_def
      Let_def select_mail_def matches_query_def)

section \<open>A concrete mailbox\<close>

definition demo_mail_input :: mail_input where
  "demo_mail_input =
     \<lparr>mi_from = ''x'', mi_to = ''all'', mi_type = Note, mi_subject = ''s'', mi_body = ''t'',
      mi_priority = None, mi_reply_to = None, mi_context = None\<rparr>"

definition demo_mail :: "string \<Rightarrow> mail" where
  "demo_mail i = new_mail i 1 demo_mail_input"

definition demo_ack :: mail_ack where
  "demo_ack = \<lparr>ma_message = ''a'', ma_reader = ''r'', ma_read = None, ma_completed = None, ma_outcome = None\<rparr>"

definition demo_codec :: line_codec where
  "demo_codec =
     \<lparr>print_line = (\<lambda>m. ml_id m @ (if ml_read_by m = [] then '''' else ''+'')),
      parse_line = (\<lambda>l. if l = ''a'' then Some (demo_mail ''a'')
                         else if l = ''b'' then Some (demo_mail ''b'')
                         else if l = ''a+'' then Some (apply_ack 5 demo_ack (demo_mail ''a''))
                         else None)\<rparr>"

definition demo_file :: mail_file where
  "demo_file = \<lparr>mf_text = ''a'' @ [newline], mf_mtime = 7\<rparr>"

definition demo_cache :: mail_cache where
  "demo_cache = \<lparr>mc_messages = Some [demo_mail ''a''], mc_mtime = 7, mc_size = 2\<rparr>"

definition everything :: mail_query where
  "everything =
     \<lparr>mq_to = None, mq_from = None, mq_unread_by = None, mq_incomplete = False, mq_type = None,
      mq_priority = None, mq_limit = None, mq_since = None, mq_deleted = False\<rparr>"

lemma demo_line: "line_ok demo_codec (demo_mail ''b'')"
  by (simp add: line_ok_def demo_codec_def demo_mail_def new_mail_def newline_def js_trim_def is_js_space_def)

lemma demo_parsed: "parse_lines demo_codec (mf_text demo_file) = [demo_mail ''a'']"
  by (simp add: parse_lines_def demo_file_def demo_codec_def newline_def js_trim_def is_js_space_def
      List.map_filter_def)

lemma demo_current: "current demo_codec demo_file demo_cache"
  by (simp add: current_def demo_parsed) (simp add: demo_file_def demo_cache_def ends_line_def)

text \<open>A first read, a message from another process, one more while the second read is under way.\<close>

theorem cached_query_exact_witness:
  "let s = fold (mail_step demo_codec) [Read_through [], Sent_elsewhere (demo_mail ''b'')] (Some demo_file, drop_cache)
   in case start_read s of (plan, c) \<Rightarrow>
        fst (query_mail demo_codec everything plan
          (append_all demo_codec [demo_mail ''b''] (fst s), c)) =
          Some (select_mail everything [demo_mail ''a'', demo_mail ''b''])"
proof -
  let ?es = "[Read_through [], Sent_elsewhere (demo_mail ''b'')]"
  let ?s = "fold (mail_step demo_codec) ?es (Some demo_file, drop_cache)"
  have "ends_line (mf_text demo_file)" by (simp add: demo_file_def ends_line_def)
  moreover have "\<not> reads_all (fst (start_read ?s))" by code_simp
  then have "undisturbed demo_codec (?es @ [Read_through [demo_mail ''b'']]) (Some demo_file, drop_cache)"
    by (simp add: undisturbed_append demo_line)
  moreover obtain plan c where "start_read ?s = (plan, c)" by (cases "start_read ?s")
  ultimately show ?thesis
    using cached_query_exact [of demo_file demo_codec ?es "[demo_mail ''b'']" ?s plan c everything]
    by (simp add: demo_parsed sent_in_def)
qed

theorem own_message_read_twice_witness:
  "fst (read_at_once demo_codec (snd (send_mail demo_codec ''b'' 1 demo_mail_input (Some demo_file, demo_cache)))) =
    Some [demo_mail ''a'', demo_mail ''b'', demo_mail ''b'']"
proof -
  obtain d' c' where s: "snd (send_mail demo_codec ''b'' 1 demo_mail_input (Some demo_file, demo_cache)) = (Some d', c')"
    by (simp add: send_mail_def Let_def append_text_def)
  obtain plan c'' where p: "start_read (Some d', c') = (plan, c'')" by (cases "start_read (Some d', c')")
  have "line_ok demo_codec (new_mail ''b'' 1 demo_mail_input)" using demo_line by (simp add: demo_mail_def)
  from own_message_read_twice [OF demo_current _ this s p, of "''''"] show ?thesis
    unfolding read_at_once_def s p split_conv by (simp add: demo_parsed cache_limit_def demo_mail_def)
qed

theorem append_during_read_doubles_witness:
  "case start_read (Some demo_file, drop_cache) of (plan, c) \<Rightarrow>
    let f = append_text (print_line demo_codec (demo_mail ''b'') @ [newline]) (Some demo_file)
    in case finish_read demo_codec plan (f, c) of (first, c1) \<Rightarrow>
         first = Some ([demo_mail ''a''] @ [demo_mail ''b'']) \<and>
         fst (read_at_once demo_codec (f, c1)) = Some ([demo_mail ''a''] @ [demo_mail ''b'', demo_mail ''b''])"
  using append_during_read_doubles [of demo_file demo_codec, OF _ demo_line] demo_parsed
  by (simp add: demo_file_def ends_line_def cache_limit_def)

text \<open>Another process acknowledges the message; this one still sees it unread.\<close>

theorem longer_rewrite_unseen_witness:
  "map_option (take 1) (fst (read_at_once demo_codec
       (fst (snd (ack_many demo_codec 5 [demo_ack] (Some demo_file, drop_cache))), demo_cache))) =
     Some [demo_mail ''a''] \<and>
   read_messages demo_codec (fst (snd (ack_many demo_codec 5 [demo_ack] (Some demo_file, drop_cache)))) =
     [apply_ack 5 demo_ack (demo_mail ''a'')]"
proof -
  have after: "fst (snd (ack_many demo_codec 5 [demo_ack] (Some demo_file, drop_cache))) =
      Some \<lparr>mf_text = ''a+'' @ [newline], mf_mtime = 8\<rparr>"
    by code_simp
  have "read_messages demo_codec (Some \<lparr>mf_text = ''a+'' @ [newline], mf_mtime = 8\<rparr>) =
      [apply_ack 5 demo_ack (demo_mail ''a'')]"
    by code_simp
  moreover have "length (mf_text demo_file) < length (''a+'' @ [newline])"
    by (simp add: demo_file_def)
  ultimately show ?thesis
    using longer_rewrite_unseen [OF demo_current, of "\<lparr>mf_text = ''a+'' @ [newline], mf_mtime = 8\<rparr>"]
    by (simp add: after demo_parsed)
qed

section \<open>What the loop injects\<close>

fun run_checks :: "mail list list list \<Rightarrow> string list \<Rightarrow> mail list list" where
  "run_checks [] injected = []"
| "run_checks (r # rs) injected =
     (case check_mailbox r injected of (fresh, injected') \<Rightarrow> fresh # run_checks rs injected')"

lemma first_by_id_distinct: "distinct (map ml_id (first_by_id ms))"
proof -
  have "distinct (map ml_id (add_by_id m out))" if "distinct (map ml_id out)" for m out
    using that by (simp add: add_by_id_def)
  then have "distinct (map ml_id out) \<Longrightarrow> distinct (map ml_id (fold add_by_id ms out))" for out
    by (induction ms arbitrary: out) simp_all
  then show ?thesis by (simp add: first_by_id_def)
qed

lemma first_by_id_set: "set (first_by_id ms) \<subseteq> set ms"
proof -
  have step: "set (add_by_id m out) \<subseteq> insert m (set out)" for m out
    by (auto simp: add_by_id_def)
  have "set (fold add_by_id ms out) \<subseteq> set out \<union> set ms" for out
  proof (induction ms arbitrary: out)
    case (Cons m ms)
    then show ?case using step [of m out] by (simp, blast)
  qed simp
  from this [of "[]"] show ?thesis by (simp add: first_by_id_def)
qed

lemma fold_js_add: "set (fold js_add xs ys) = set xs \<union> set ys"
  "distinct ys \<Longrightarrow> distinct (fold js_add xs ys)"
  by (induction xs arbitrary: ys) (auto simp: js_add_def)

lemma check_mailbox_step:
  assumes "distinct injected" and "finite U" and "card U \<le> tracked_limit" and "set injected \<subseteq> U"
    and "ml_id ` set (concat r) \<subseteq> U" and "check_mailbox r injected = (fresh, injected')"
  shows "distinct (map ml_id fresh) \<and> ml_id ` set fresh \<inter> set injected = {} \<and> distinct injected' \<and>
    set injected' = ml_id ` set fresh \<union> set injected \<and> set injected' \<subseteq> U"
proof -
  let ?all = "fold js_add (map ml_id fresh) injected"
  have fresh: "fresh = filter (\<lambda>m. ml_id m \<notin> set injected \<and> \<not> ml_completed m) (first_by_id (concat r))"
    and injected': "injected' = (if tracked_limit < length ?all then last_n 500 ?all else ?all)"
    using assms(6) by (auto simp: check_mailbox_def Let_def)
  have all: "distinct ?all" "set ?all = ml_id ` set fresh \<union> set injected"
    using assms(1) by (simp_all add: fold_js_add)
  have "ml_id ` set fresh \<subseteq> U"
    using assms(5) first_by_id_set [of "concat r"] fresh by fastforce
  then have sub: "set ?all \<subseteq> U" using all(2) assms(4) by simp
  have "length ?all = card (set ?all)" using all(1) by (simp add: distinct_card)
  also have "\<dots> \<le> card U" using sub assms(2) by (simp add: card_mono)
  finally have "injected' = ?all" using assms(3) injected' by simp
  moreover have "distinct (map ml_id fresh)"
    unfolding fresh by (simp add: first_by_id_distinct distinct_map_filter)
  moreover have "ml_id ` set fresh \<inter> set injected = {}"
    unfolding fresh by auto
  ultimately show ?thesis using all sub by blast
qed

lemma run_checks_once:
  assumes "finite U" and "card U \<le> tracked_limit"
  shows "distinct injected \<Longrightarrow> set injected \<subseteq> U \<Longrightarrow> ml_id ` set (concat (concat rs)) \<subseteq> U \<Longrightarrow>
    distinct (map ml_id (concat (run_checks rs injected))) \<and>
    ml_id ` set (concat (run_checks rs injected)) \<inter> set injected = {}"
proof (induction rs arbitrary: injected)
  case Nil
  then show ?case by simp
next
  case (Cons r rs)
  obtain fresh injected' where c: "check_mailbox r injected = (fresh, injected')"
    by (cases "check_mailbox r injected")
  have "ml_id ` set (concat r) \<subseteq> U" "ml_id ` set (concat (concat rs)) \<subseteq> U"
    using Cons.prems(3) by (simp_all add: image_Un)
  note step = check_mailbox_step [OF Cons.prems(1) assms Cons.prems(2) this(1) c]
  have "distinct (map ml_id (concat (run_checks rs injected'))) \<and>
      ml_id ` set (concat (run_checks rs injected')) \<inter> set injected' = {}"
    using step \<open>ml_id ` set (concat (concat rs)) \<subseteq> U\<close> by (intro Cons.IH) auto
  with step show ?case by (auto simp: c)
qed

text \<open>Whatever the queries answer, round after round and with whatever receipts lost, a message is
  shown to the agent at most once, as long as it has met at most a thousand.\<close>

theorem mail_injected_once:
  assumes "card (ml_id ` set (concat (concat rounds))) \<le> tracked_limit"
  shows "distinct (map ml_id (concat (run_checks rounds [])))"
  using run_checks_once [of "ml_id ` set (concat (concat rounds))" "[]" rounds] assms by simp

theorem mail_injected_once_witness:
  "distinct (map ml_id (concat (run_checks [[[demo_mail ''a''], [demo_mail ''a'']], [[demo_mail ''a'']]] [])))"
  by (rule mail_injected_once) (simp add: tracked_limit_def)

lemma injection_is_complete:
  "inject_mail ms = (shown, reason) \<Longrightarrow> set shown = {m \<in> set ms. ml_type m \<noteq> Control}"
  by (auto simp: inject_mail_def Let_def render_order_def)

text \<open>An interrupt is recognised by a word, also where the word is denied.\<close>

lemma denied_stop_interrupts:
  "snd (inject_mail [(demo_mail ''a'')\<lparr>ml_type := Control, ml_body := ''please do not stop''\<rparr>]) \<noteq> None"
  by code_simp

section \<open>Facts about the registries\<close>

lemma prune_keys: "jm_keys (prune_stale now m) =
    jm_keys (filter (\<lambda>(k, a). \<not> int (ae_last_seen a) < int now - int agent_purge_ms) m)"
  by (simp add: prune_stale_def jm_keys_def comp_def split_beta)

lemma prune_wf [simp, intro]: "jm_wf m \<Longrightarrow> jm_wf (prune_stale now m)"
  unfolding jm_wf_def prune_keys by (simp add: jm_keys_def distinct_map_filter)

datatype registry_op =
    Register_agent nat agent_entry
  | Deregister_agent nat string
  | Heartbeat nat heartbeat_input
  | Ask_statuses nat

fun registry_step :: "registry_op \<Rightarrow> registry \<Rightarrow> registry" where
  "registry_step (Register_agent now a) r = register_agent now a r"
| "registry_step (Deregister_agent now i) r = deregister_agent now i r"
| "registry_step (Heartbeat now h) r = agent_heartbeat now h r"
| "registry_step (Ask_statuses now) r = snd (agent_statuses now r)"

text \<open>One entry for an agent, in the file and in the copy, and under its own identifier.\<close>

definition entries_ok :: "(string, agent_entry) jsmap \<Rightarrow> bool" where
  "entries_ok m = (jm_wf m \<and> list_all (\<lambda>(k, a). ae_id a = k) m)"

definition registry_good :: "registry \<Rightarrow> bool" where
  "registry_good r =
     (entries_ok (rg_file r) \<and> (case rg_cache r of None \<Rightarrow> True | Some m \<Rightarrow> entries_ok m))"

lemma entries_prune [inv_intros]: "entries_ok m \<Longrightarrow> entries_ok (prune_stale now m)"
  by (auto simp: entries_ok_def list_all_iff) (auto simp: prune_stale_def split: if_splits)

lemma entries_set [inv_intros]: "entries_ok m \<Longrightarrow> ae_id a = k \<Longrightarrow> entries_ok (jm_set k a m)"
proof -
  have "list_all (\<lambda>(k, a). ae_id a = k) m \<Longrightarrow> ae_id a = k \<Longrightarrow> list_all (\<lambda>(k, a). ae_id a = k) (jm_set k a m)"
    by (induction m) auto
  then show "entries_ok m \<Longrightarrow> ae_id a = k \<Longrightarrow> entries_ok (jm_set k a m)"
    by (auto simp: entries_ok_def)
qed

lemma entries_del [inv_intros]: "entries_ok m \<Longrightarrow> entries_ok (jm_del k m)"
  by (auto simp: entries_ok_def jm_del_def list_all_iff intro: jm_wf_del [unfolded jm_del_def])

lemma entries_beat [inv_intros]: "entries_ok m \<Longrightarrow> entries_ok (jm_update k (beat now h) m)"
  by (auto simp: entries_ok_def jm_update_def list_all_iff beat_def
      intro: jm_wf_update [unfolded jm_update_def, THEN iffD2])

lemma change_registry_good:
  "registry_good r \<Longrightarrow> (\<And>m. entries_ok m \<Longrightarrow> entries_ok (g m)) \<Longrightarrow> registry_good (change_registry now g r)"
  by (simp add: registry_good_def change_registry_def read_registry_def Let_def entries_prune)

interpretation agents: state_contract registry_step registry_good
proof
  fix r e
  assume good: "registry_good r"
  show "registry_good (registry_step e r)"
  proof (cases e)
    case (Heartbeat now h)
    have "registry_good (r\<lparr>rg_last_beat := x\<rparr>)" for x
      using good by (simp add: registry_good_def)
    then show ?thesis
      using good Heartbeat by (simp add: agent_heartbeat_def Let_def change_registry_good entries_beat)
  next
    case (Ask_statuses now)
    then show ?thesis
      using good by (auto simp: agent_statuses_def read_registry_def registry_good_def split: option.splits)
  qed (use good in \<open>auto simp: register_agent_def deregister_agent_def intro!: change_registry_good inv_intros\<close>)
qed

text \<open>Whatever the agents of all processes do, each has at most one entry, under its own name.\<close>

theorem registry_stays_good:
  "entries_ok (rg_file (fold registry_step es \<lparr>rg_file = [], rg_cache = None, rg_cached_at = 0, rg_last_beat = []\<rparr>))"
  using agents.run_good [of "\<lparr>rg_file = [], rg_cache = None, rg_cached_at = 0, rg_last_beat = []\<rparr>" es]
  by (simp add: registry_good_def entries_ok_def)

text \<open>A heartbeat revives nobody: an agent not in the registry stays out.\<close>

lemma heartbeat_registers_nobody:
  "\<not> jm_has (rg_file r) i \<Longrightarrow> \<not> jm_has (rg_file (agent_heartbeat now h r)) i"
  by (auto simp: agent_heartbeat_def Let_def change_registry_def read_registry_def jm_has_keys prune_keys)
    (auto simp: jm_keys_def)

text \<open>A client is never removed, and a silent one is recorded as seen a minute ago.\<close>

lemma clients_never_purged: "jm_keys (prune_clients now m) = jm_keys m"
  by (simp add: prune_clients_def jm_keys_def comp_def split_beta)

lemma silent_client_redated:
  "60000 \<le> now \<Longrightarrow> jm_get m k = Some c \<Longrightarrow> ce_last_seen c < now - 60000 \<Longrightarrow>
   map_option ce_last_seen (jm_get (prune_clients now m) k) = Some (now - 60000)"
  by (induction m) (auto simp: jm_get_Cons prune_clients_def split: if_splits)

end
