(* ===== verification/Agent_Loop.thy ===== *)
theory Agent_Loop
  imports Conversation Mailbox Retry "HOL-Library.Word" "HOL-Library.Char_ord" "HOL-Library.List_Lexorder"
begin

text \<open>
  The loop of an agent run (core/src/core/agent-loop.ts with agent-response.ts, iteration-limit.ts
  and the outer \<open>run\<close> of agent.ts): iteration after iteration it looks at the abort signal and the
  limit, folds what was said meanwhile into the conversation, repairs and sends it, handles errors
  of the provider, records the answer, detects repetition, and runs the tools asked for.

  \<open>loop_state\<close> holds the variables of \<open>runInner\<close> and the conversation of \<open>Conversation\<close>; a \<open>turn\<close>
  is what the outside does in one iteration (signals, replies of listeners, the provider's answer,
  hooks, compaction, tools), so a run is a function of the sequence of turns. The parts of an
  iteration are composed like the code (\<open>Go\<close> goes on, \<open>Leave\<close> returns, \<open>Crash\<close> throws to \<open>run\<close>).
  The request holds the live array of messages, so the messages sent are those of the
  conversation at the time of the call. Events are the \<open>ls_trace\<close>; token estimates, markers for
  crash recovery and the session log are left out.
\<close>

section \<open>Fingerprints of answers\<close>

text \<open>The content of an answer and the inputs of its tool calls, in order, as JSON text.\<close>

record response =
  rs_content :: "block list"
  rs_inputs :: "string list"

definition hash_step :: "char \<Rightarrow> 32 word \<Rightarrow> 32 word" where
  "hash_step c h =
     (let h1 = xor h (of_nat (of_char c))
      in h1 + (push_bit 1 h1 + push_bit 4 h1 + push_bit 7 h1 + push_bit 8 h1 + push_bit 24 h1))"

definition digit36 :: "nat \<Rightarrow> char" where
  "digit36 d = char_of (if d < 10 then 48 + d else 87 + d)"

fun show36 :: "nat \<Rightarrow> string" where
  "show36 n = (if n < 36 then [digit36 n] else show36 (n div 36) @ [digit36 (n mod 36)])"

declare show36.simps [simp del]

definition hash_small :: "string \<Rightarrow> string" where
  "hash_small s = show36 (unat (fold hash_step s 0x811C9DC5))"

fun text_of :: "block \<Rightarrow> string" where
  "text_of (TextBlock s) = s"
| "text_of b = ''''"

fun tool_name :: "block \<Rightarrow> string option" where
  "tool_name (ToolUse i n v) = Some n"
| "tool_name b = None"

definition tool_names_of :: "block list \<Rightarrow> string list" where
  "tool_names_of bs = List.map_filter tool_name bs"

definition all_text :: "block list \<Rightarrow> string" where
  "all_text bs = concat (map text_of bs)"

definition no_fingerprint :: string where
  "no_fingerprint = ''__empty__''"

definition iteration_fingerprint :: "response \<Rightarrow> string" where
  "iteration_fingerprint r =
     (let names = sort (js_dedup (tool_names_of (rs_content r)));
          first_hash = (if tool_names_of (rs_content r) = [] then ''''
                        else hash_small (case rs_inputs r of [] \<Rightarrow> ''{}'' | t # _ \<Rightarrow> t));
          text_blob = take 512 (all_text (rs_content r));
          joined = js_join ''+'' names
      in if names = [] \<and> text_blob = '''' then no_fingerprint
         else js_join [newline]
                [''tools='' @ (if joined = '''' then ''-'' else joined),
                 ''in0='' @ first_hash, ''txt='' @ text_blob])"

definition loop_threshold :: nat where
  "loop_threshold = 3"

text \<open>The last signature and how often it came in a row.\<close>

definition note_fingerprint :: "string \<Rightarrow> string \<times> nat \<Rightarrow> string \<times> nat" where
  "note_fingerprint fp s =
     (if fp = no_fingerprint then ('''', 0)
      else if fp = fst s then (fst s, snd s + 1) else (fp, 1))"

section \<open>The limit\<close>

datatype limit_reply = Grant int | Deny_more

text \<open>The replies given while the event is emitted, and those that come later, before the timer. With
  \<open>autoExtend\<close> the later ones lose against the automatic grant.\<close>

definition request_limit_extension :: "bool \<Rightarrow> limit_reply list \<Rightarrow> limit_reply list \<Rightarrow> int" where
  "request_limit_extension auto sync later =
     (case sync @ (if auto then [Grant 100] else later) of
        [] \<Rightarrow> 0
      | Grant n # _ \<Rightarrow> max 0 n
      | Deny_more # _ \<Rightarrow> 0)"

section \<open>State of a run\<close>

datatype run_status = Run_done | Run_failed | Run_max_iterations | Run_aborted

record run_result =
  out_status :: run_status
  out_iterations :: nat
  out_text :: "string option"
  out_error :: "thrown option"
  out_delegates :: "(string \<times> bool) list option"
  out_reason :: "string option"

datatype loop_event =
    Limit_asked nat int int
  | Iteration_started nat
  | Requested "message list"
  | Provider_failed thrown
  | Retried
  | Answered string
  | Loop_detected nat string
  | Tools_ran "(string \<times> string) list"
  | Iteration_completed nat

record loop_state =
  ls_index :: nat
  ls_conv :: "json conversation"
  ls_limit :: "int option"
  ls_retries :: nat
  ls_signature :: "string \<times> nat"
  ls_final :: string
  ls_delegates :: "(string \<times> bool) list"
  ls_trace :: "loop_event list"

datatype ext_decision = Ext_fail | Ext_continue | Ext_retry

datatype recovery = No_recovery | Recover_fail "thrown option" | Recover_retry | Recover_with response

text \<open>The tool phase throws, or gives the results, the subagents that finished, and whether the
  continuation tool ran.\<close>

datatype tool_phase = Tools_throw string | Tools_done "block list" "(string \<times> bool) list" bool

record turn =
  tn_aborted :: bool
  tn_reason :: string
  tn_replies :: "limit_reply list"
  tn_late_replies :: "limit_reply list"
  tn_host :: "meta \<Rightarrow> meta"
  tn_pulse :: "string option"
  tn_mail :: "mail list"
  tn_request_throws :: "string option"
  tn_compact_before :: "message list \<Rightarrow> message list option"
  tn_call :: "message list \<Rightarrow> thrown + response"
  tn_aborted_call :: bool
  tn_extension :: "ext_decision option"
  tn_recover_compact :: "message list \<Rightarrow> message list option"
  tn_recovery :: recovery
  tn_aborted_answer :: bool
  tn_tools :: "(string \<times> string) list \<Rightarrow> tool_phase"
  tn_aborted_tools :: bool
  tn_compact_after :: "message list \<Rightarrow> message list option"

record agent =
  ag_max :: "int option"
  ag_auto_extend :: bool
  ag_autonomous :: bool
  ag_pulse_every :: nat
  ag_estimate :: "message \<Rightarrow> nat"
  ag_mail_text :: "mail list \<Rightarrow> string"
  ag_response :: "block list \<Rightarrow> string + block list"
  ag_output :: "string \<Rightarrow> string + string"

text \<open>An iteration limit of \<open>None\<close> is \<open>Infinity\<close>; zero and less switch it off too.\<close>

definition has_hard_limit :: "agent \<Rightarrow> bool" where
  "has_hard_limit ag = (case ag_max ag of None \<Rightarrow> False | Some n \<Rightarrow> 0 < n)"

datatype 'a flow = Go 'a | Leave run_result loop_state | Crash string loop_state

definition and_then :: "'a flow \<Rightarrow> ('a \<Rightarrow> 'b flow) \<Rightarrow> 'b flow" where
  "and_then x f = (case x of Go a \<Rightarrow> f a | Leave r s \<Rightarrow> Leave r s | Crash m s \<Rightarrow> Crash m s)"

definition emit :: "loop_event \<Rightarrow> loop_state \<Rightarrow> loop_state" where
  "emit e s = s\<lparr>ls_trace := ls_trace s @ [e]\<rparr>"

definition with_conv :: "(json conversation \<Rightarrow> json conversation) \<Rightarrow> loop_state \<Rightarrow> loop_state" where
  "with_conv f s = s\<lparr>ls_conv := f (ls_conv s)\<rparr>"

definition iterations :: "loop_state \<Rightarrow> nat" where
  "iterations s = ls_index s + 1"

section \<open>The parts of an iteration\<close>

definition fold_block :: "agent \<Rightarrow> block \<Rightarrow> json conversation \<Rightarrow> json conversation" where
  "fold_block ag b c =
     (case append_block_to_last_user (ag_estimate ag) b c of
        (True, ch, c') \<Rightarrow> c'
      | (False, ch, c') \<Rightarrow>
          snd (append_message (ag_estimate ag) \<lparr>m_role = User, m_content = Blocks [b], m_est = None\<rparr> c'))"

text \<open>Reading the flag of the continuation tool clears it.\<close>

definition take_flag :: "loop_state \<Rightarrow> bool \<times> loop_state" where
  "take_flag s =
     (case consume_autonomous_continue (cv_meta (ls_conv s)) of (flag, m) \<Rightarrow>
        (flag, with_conv (\<lambda>c. c\<lparr>cv_meta := m\<rparr>) s))"

definition head_phase :: "agent \<Rightarrow> turn \<Rightarrow> loop_state \<Rightarrow> loop_state flow" where
  "head_phase ag t s =
     (if tn_aborted t
      then Leave \<lparr>out_status = Run_aborted, out_iterations = iterations s, out_text = None,
                  out_error = None, out_delegates = None, out_reason = Some (tn_reason t)\<rparr> s
      else
        let s1 = (if ag_autonomous ag then snd (take_flag s) else s)
        in case ls_limit s1 of
             Some limit \<Rightarrow>
               if has_hard_limit ag \<and> limit \<le> int (ls_index s1) then
                 let extra = request_limit_extension (ag_auto_extend ag) (tn_replies t) (tn_late_replies t);
                     s2 = emit (Limit_asked (iterations s1) limit extra) s1
                 in if 0 < extra then Go (s2\<lparr>ls_limit := Some (limit + extra)\<rparr>)
                    else Leave \<lparr>out_status = Run_max_iterations, out_iterations = iterations s2,
                                out_text = Some (ls_final s2), out_error = None,
                                out_delegates = Some (ls_delegates s2), out_reason = None\<rparr> s2
               else Go s1
           | None \<Rightarrow> Go s1)"

definition inject_btw :: "agent \<Rightarrow> json conversation \<Rightarrow> json conversation" where
  "inject_btw ag c =
     (case consume_btw_notes (cv_meta c) of (notes, m) \<Rightarrow>
        let c' = c\<lparr>cv_meta := m\<rparr>
        in if notes = [] then c' else fold_block ag (TextBlock (build_btw_block notes)) c')"

definition inject_queue :: "agent \<Rightarrow> json conversation \<Rightarrow> json conversation" where
  "inject_queue ag c =
     (case consume_queued_update (cv_meta c) of (update, m) \<Rightarrow>
        let c' = c\<lparr>cv_meta := m\<rparr>
        in case update of
             None \<Rightarrow> c'
           | Some items \<Rightarrow> fold_block ag (TextBlock (build_queued_block items)) c')"

definition pulse_due :: "agent \<Rightarrow> nat \<Rightarrow> bool" where
  "pulse_due ag i = (let n = max 1 (ag_pulse_every ag) in i mod n = 1 \<or> n = 1)"

definition inject_pulse :: "agent \<Rightarrow> turn \<Rightarrow> nat \<Rightarrow> json conversation \<Rightarrow> json conversation" where
  "inject_pulse ag t i c =
     (if pulse_due ag i
      then (case tn_pulse t of None \<Rightarrow> c | Some p \<Rightarrow> fold_block ag (TextBlock p) c) else c)"

definition notes_phase :: "agent \<Rightarrow> turn \<Rightarrow> loop_state \<Rightarrow> loop_state flow" where
  "notes_phase ag t s0 =
     (let s = emit (Iteration_started (ls_index s0))
                (with_conv (\<lambda>c. c\<lparr>cv_meta := tn_host t (cv_meta c)\<rparr>) s0);
          s1 = with_conv (inject_pulse ag t (ls_index s) \<circ> inject_queue ag \<circ> inject_btw ag) s
      in case inject_mail (tn_mail t) of (shown, interrupt) \<Rightarrow>
           let s2 = (if shown = [] then s1
                     else with_conv (fold_block ag (TextBlock (ag_mail_text ag shown))) s1)
           in case interrupt of
                None \<Rightarrow> Go s2
              | Some reason \<Rightarrow>
                  Leave \<lparr>out_status = Run_aborted, out_iterations = iterations s2,
                         out_text = Some (ls_final s2), out_error = None, out_delegates = None,
                         out_reason = Some (''interrupted: '' @ reason)\<rparr> s2)"

text \<open>The repair before a request, when something was added that may need it.\<close>

definition build_request :: "agent \<Rightarrow> json conversation \<Rightarrow> json conversation" where
  "build_request ag c =
     (if cv_dirty c then
        (case repair_tool_use_adjacency (cv_messages c) of (ms, report) \<Rightarrow>
           let c' = c\<lparr>cv_dirty := False\<rparr>
           in if rr_changed report then snd (replace_messages (ag_estimate ag) ms c') else c')
      else c)"

text \<open>The context-window pipeline; it counts as a change when the number of messages differs, since
  messages are replaced in place.\<close>

definition compact ::
    "agent \<Rightarrow> (message list \<Rightarrow> message list option) \<Rightarrow> json conversation \<Rightarrow> bool \<times> json conversation" where
  "compact ag f c =
     (case f (cv_messages c) of
        None \<Rightarrow> (False, c)
      | Some ms \<Rightarrow>
          let c' = snd (replace_messages (ag_estimate ag) ms c)
          in (length (cv_messages c') \<noteq> length (cv_messages c), c'))"

definition request_phase :: "agent \<Rightarrow> turn \<Rightarrow> loop_state \<Rightarrow> loop_state flow" where
  "request_phase ag t s =
     (let s1 = with_conv (build_request ag) s
      in case tn_request_throws t of
           Some msg \<Rightarrow> Crash msg s1
         | None \<Rightarrow>
             (case compact ag (tn_compact_before t) (ls_conv s1) of (changed, c) \<Rightarrow>
                let s2 = s1\<lparr>ls_conv := if changed then build_request ag c else c\<rparr>
                in Go (emit (Requested (cv_messages (ls_conv s2))) s2)))"

definition failed :: "thrown \<Rightarrow> bool \<Rightarrow> loop_state \<Rightarrow> 'a flow" where
  "failed err with_delegates s =
     Leave \<lparr>out_status = Run_failed, out_iterations = iterations s, out_text = None,
            out_error = Some err,
            out_delegates = (if with_delegates then Some (ls_delegates s) else None),
            out_reason = None\<rparr> s"

text \<open>One more retry, unless there were two already.\<close>

definition count_retry :: "thrown \<Rightarrow> bool \<Rightarrow> loop_state \<Rightarrow> (response option \<times> loop_state) flow" where
  "count_retry err with_delegates s =
     (let s1 = s\<lparr>ls_retries := ls_retries s + 1\<rparr>
      in if 2 < ls_retries s1 then failed err with_delegates s1
         else Go (None, emit Retried s1))"

text \<open>An answer, or none when the turn is to be tried again in the next iteration. When no extension
  decides, the error handler is asked; a context overflow makes it compact the conversation
  (error-handler.ts), and what it replaced stays replaced whatever it decides then.\<close>

definition call_phase :: "agent \<Rightarrow> turn \<Rightarrow> loop_state \<Rightarrow> (response option \<times> loop_state) flow" where
  "call_phase ag t s =
     (case tn_call t (cv_messages (ls_conv s)) of
        Inr r \<Rightarrow> Go (Some r, s\<lparr>ls_retries := 0\<rparr>)
      | Inl err \<Rightarrow>
          let s1 = emit (Provider_failed err) s in
          if tn_aborted_call t
          then Leave \<lparr>out_status = Run_aborted, out_iterations = iterations s1, out_text = None,
                      out_error = Some err, out_delegates = None, out_reason = Some (tn_reason t)\<rparr> s1
          else
            (case tn_extension t of
               Some Ext_fail \<Rightarrow> failed err True s1
             | Some Ext_continue \<Rightarrow> Go (None, s1)
             | Some Ext_retry \<Rightarrow> count_retry err True s1
             | None \<Rightarrow>
                 let s2 = with_conv (\<lambda>c. snd (compact ag (tn_recover_compact t) c)) s1
                 in (case tn_recovery t of
                       No_recovery \<Rightarrow> failed err True s2
                     | Recover_fail e \<Rightarrow> failed (case e of None \<Rightarrow> err | Some e' \<Rightarrow> e') True s2
                     | Recover_retry \<Rightarrow> count_retry err False s2
                     | Recover_with r \<Rightarrow> Go (Some r, s2\<lparr>ls_retries := 0\<rparr>))))"

fun render_all :: "(string \<Rightarrow> string + string) \<Rightarrow> block list \<Rightarrow> string + string" where
  "render_all f [] = Inr ''''"
| "render_all f (TextBlock u # bs) =
     (case f u of
        Inl e \<Rightarrow> Inl e
      | Inr out \<Rightarrow> (case render_all f bs of Inl e \<Rightarrow> Inl e | Inr others \<Rightarrow> Inr (out @ others)))"
| "render_all f (b # bs) = render_all f bs"

text \<open>The answer as the response pipeline leaves it is recorded; the directive is that of the
  rendered text.\<close>

definition answer_phase :: "agent \<Rightarrow> turn \<Rightarrow> response \<Rightarrow> loop_state \<Rightarrow> (directive \<times> loop_state) flow" where
  "answer_phase ag t r s =
     (case ag_response ag (rs_content r) of
        Inl e \<Rightarrow> Crash e s
      | Inr content \<Rightarrow>
          let s1 = with_conv
                (\<lambda>c. let c' = snd (append_message (ag_estimate ag)
                               \<lparr>m_role = Assistant, m_content = Blocks content, m_est = None\<rparr> c)
                      in c'\<lparr>cv_dirty := cv_dirty c' \<or> list_ex is_tool_use content\<rparr>) s in
          if tn_aborted_answer t
          then Leave \<lparr>out_status = Run_aborted, out_iterations = iterations s1,
                      out_text = Some (all_text content), out_error = None,
                      out_delegates = Some (ls_delegates s1), out_reason = Some (tn_reason t)\<rparr> s1
          else
            (case render_all (ag_output ag) content of
               Inl e \<Rightarrow> Crash e s1
             | Inr final \<Rightarrow>
                 Go (if final = '''' then No_directive else parse_continue_directive final,
                     s1\<lparr>ls_final := final\<rparr>)))"

definition loop_summary :: "string \<Rightarrow> bool \<Rightarrow> bool \<Rightarrow> nat \<Rightarrow> string" where
  "loop_summary names uses_tools has_text n =
     (let times = show_nat n; q = [CHR 0x22];
          detail = (if uses_tools \<and> \<not> has_text
                    then q @ names @ q @ '' called with effectively identical inputs '' @ times @ '' times in a row''
                    else q @ names @ q @ '' + same text repeated '' @ times @ '' times in a row'')
      in if uses_tools
         then ''[Loop detected: '' @ detail @ '' '' @ long_dash @ '' stopping to prevent infinite repetition.]''
         else ''[Loop detected: same assistant message repeated '' @ times @ [CHR 0xD7] @ '' '' @ long_dash @
              '' stopping to prevent infinite repetition.]'')"

fun is_text_block :: "block \<Rightarrow> bool" where
  "is_text_block (TextBlock s) = True"
| "is_text_block b = False"

definition repeat_phase :: "response \<Rightarrow> loop_state \<Rightarrow> loop_state flow" where
  "repeat_phase r s =
     (let fp = iteration_fingerprint r;
          sg = note_fingerprint fp (ls_signature s);
          s1 = emit (Answered fp) (s\<lparr>ls_signature := sg\<rparr>)
      in if fp \<noteq> no_fingerprint \<and> loop_threshold \<le> snd sg then
           let names = js_join '', '' (tool_names_of (rs_content r));
               s2 = emit (Loop_detected (snd sg) names) s1;
               summary = loop_summary names (tool_names_of (rs_content r) \<noteq> [])
                           (list_ex is_text_block (rs_content r)) (snd sg)
           in Leave \<lparr>out_status = Run_max_iterations, out_iterations = iterations s2,
                     out_text = Some (if ls_final s2 = '''' then summary else ls_final s2),
                     out_error = None, out_delegates = Some (ls_delegates s2), out_reason = None\<rparr> s2
         else Go s1)"

definition calls_of :: "block list \<Rightarrow> (string \<times> string) list" where
  "calls_of bs = List.map_filter (\<lambda>b. case b of ToolUse i n v \<Rightarrow> Some (i, n) | _ \<Rightarrow> None) bs"

definition finish_iteration :: "agent \<Rightarrow> turn \<Rightarrow> loop_state \<Rightarrow> loop_state" where
  "finish_iteration ag t s =
     emit (Iteration_completed (ls_index s)) (with_conv (\<lambda>c. snd (compact ag (tn_compact_after t) c)) s)"

definition run_finished :: "loop_state \<Rightarrow> 'a flow" where
  "run_finished s =
     Leave \<lparr>out_status = Run_done, out_iterations = iterations s, out_text = Some (ls_final s),
            out_error = None, out_delegates = Some (ls_delegates s), out_reason = None\<rparr> s"

definition record_results ::
    "agent \<Rightarrow> (string \<times> string) list \<Rightarrow> block list \<Rightarrow> (string \<times> bool) list \<Rightarrow> bool \<Rightarrow> loop_state \<Rightarrow> loop_state" where
  "record_results ag calls results delegates go_on s =
     with_conv
       (\<lambda>c. let c' = snd (append_message (ag_estimate ag)
                      \<lparr>m_role = User, m_content = Blocks results, m_est = None\<rparr> c)
             in c'\<lparr>cv_dirty := cv_dirty c' \<or> results \<noteq> [],
                  cv_meta := if go_on then set_autonomous_continue (cv_meta c') else cv_meta c'\<rparr>)
       (emit (Tools_ran calls) (s\<lparr>ls_delegates := ls_delegates s @ delegates\<rparr>))"

text \<open>The tools asked for by the answer as the provider gave it, and their results in one message.\<close>

definition tools_phase :: "agent \<Rightarrow> turn \<Rightarrow> response \<Rightarrow> directive \<Rightarrow> loop_state \<Rightarrow> loop_state flow" where
  "tools_phase ag t r d s =
     (let calls = calls_of (rs_content r) in
      if calls = [] then
        let s1 = finish_iteration ag t s
        in if ag_autonomous ag \<and> d = Go_on then Go s1 else run_finished s1
      else
        (case tn_tools t calls of
           Tools_throw msg \<Rightarrow>
             if tn_aborted_tools t
             then Leave \<lparr>out_status = Run_aborted, out_iterations = iterations s,
                         out_text = Some (ls_final s), out_error = None,
                         out_delegates = Some (ls_delegates s), out_reason = Some (tn_reason t)\<rparr> s
             else Crash msg s
         | Tools_done results delegates go_on \<Rightarrow>
             let s1 = record_results ag calls results delegates go_on s
             in if ag_autonomous ag then
                  (case take_flag s1 of (flag, s2) \<Rightarrow>
                     let s3 = finish_iteration ag t s2
                     in if \<not> flag \<and> d = Stop_now then run_finished s3 else Go s3)
                else Go (finish_iteration ag t s1)))"

definition iteration :: "agent \<Rightarrow> turn \<Rightarrow> loop_state \<Rightarrow> loop_state flow" where
  "iteration ag t s =
     and_then (and_then (and_then (and_then (head_phase ag t s) (notes_phase ag t)) (request_phase ag t))
       (call_phase ag t))
       (\<lambda>(answer, s1).
          case answer of
            None \<Rightarrow> Go s1
          | Some r \<Rightarrow>
              and_then (answer_phase ag t r s1)
                (\<lambda>(d, s2). and_then (repeat_phase r s2) (tools_phase ag t r d)))"

section \<open>A run\<close>

text \<open>The loop with fuel for the number of iterations: the result or what was thrown, \<open>None\<close> when the
  loop is still going, and the state it left or reached.\<close>

fun run_loop :: "agent \<Rightarrow> (nat \<Rightarrow> turn) \<Rightarrow> nat \<Rightarrow> loop_state \<Rightarrow> (string + run_result) option \<times> loop_state" where
  "run_loop ag turns 0 s = (None, s)"
| "run_loop ag turns (Suc fuel) s =
     (case iteration ag (turns (ls_index s)) s of
        Go s' \<Rightarrow> run_loop ag turns fuel (s'\<lparr>ls_index := ls_index s + 1\<rparr>)
      | Leave r s' \<Rightarrow> (Some (Inr r), s')
      | Crash m s' \<Rightarrow> (Some (Inl m), s'))"

definition start_run :: "agent \<Rightarrow> int option option \<Rightarrow> block list \<Rightarrow> json conversation \<Rightarrow> agent \<times> loop_state" where
  "start_run ag limit content c =
     (let ag' = ag\<lparr>ag_max := case limit of None \<Rightarrow> ag_max ag | Some l \<Rightarrow> l\<rparr>
      in (ag',
          \<lparr>ls_index = 0,
           ls_conv = snd (append_message (ag_estimate ag)
             \<lparr>m_role = User, m_content = Blocks content, m_est = None\<rparr> c),
           ls_limit = ag_max ag', ls_retries = 0, ls_signature = ('''', 0), ls_final = '''',
           ls_delegates = [], ls_trace = []\<rparr>))"

definition run_inner ::
    "agent \<Rightarrow> int option option \<Rightarrow> (nat \<Rightarrow> turn) \<Rightarrow> nat \<Rightarrow> block list \<Rightarrow> json conversation \<Rightarrow>
     (string + run_result) option \<times> loop_state" where
  "run_inner ag limit turns fuel content c =
     (case start_run ag limit content c of (ag', s) \<Rightarrow> run_loop ag' turns fuel s)"

text \<open>\<open>Agent.run\<close>: what was thrown becomes a result without iterations.\<close>

definition settle_run :: "bool \<Rightarrow> string \<Rightarrow> string + run_result \<Rightarrow> run_result" where
  "settle_run signal_aborted reason x =
     (case x of
        Inr r \<Rightarrow> r
      | Inl msg \<Rightarrow>
          \<lparr>out_status = if signal_aborted then Run_aborted else Run_failed, out_iterations = 0,
           out_text = None, out_error = Some (PlainErr msg), out_delegates = None,
           out_reason = if signal_aborted then Some reason else None\<rparr>)"

definition normalize_input :: "string + block list \<Rightarrow> block list \<times> string" where
  "normalize_input inp = (case inp of Inl s \<Rightarrow> ([TextBlock s], s) | Inr bs \<Rightarrow> (bs, all_text bs))"

section \<open>Invariants of the loop\<close>

text \<open>What holds of an iteration however it ends.\<close>

definition flow_holds :: "('a \<Rightarrow> bool) \<Rightarrow> (loop_state \<Rightarrow> bool) \<Rightarrow> 'a flow \<Rightarrow> bool" where
  "flow_holds P Q x = (case x of Go a \<Rightarrow> P a | Leave r s \<Rightarrow> Q s | Crash m s \<Rightarrow> Q s)"

lemma flow_holds_simps [simp]:
  "flow_holds P Q (Go a) = P a" "flow_holds P Q (Leave r s) = Q s" "flow_holds P Q (Crash m s) = Q s"
  by (simp_all add: flow_holds_def)

lemma flow_holds_and_then:
  "flow_holds P Q x \<Longrightarrow> (\<And>a. P a \<Longrightarrow> flow_holds P' Q (f a)) \<Longrightarrow> flow_holds P' Q (and_then x f)"
  by (cases x) (simp_all add: and_then_def)

locale loop_contract =
  fixes ag :: agent and turns :: "nat \<Rightarrow> turn" and good final :: "loop_state \<Rightarrow> bool"
  assumes good_final: "good s \<Longrightarrow> final s"
    and iteration_good: "good s \<Longrightarrow>
      flow_holds (\<lambda>s'. good (s'\<lparr>ls_index := ls_index s + 1\<rparr>)) final (iteration ag (turns (ls_index s)) s)"
begin

lemma run_good: "good s \<Longrightarrow> final (snd (run_loop ag turns fuel s))"
proof (induction fuel arbitrary: s)
  case 0
  then show ?case by (simp add: good_final)
next
  case (Suc fuel)
  show ?case
    using iteration_good [OF Suc.prems] by (auto intro: Suc.IH split: flow.split)
qed

lemma run_going: "good s \<Longrightarrow> fst (run_loop ag turns fuel s) = None \<Longrightarrow> good (snd (run_loop ag turns fuel s))"
proof (induction fuel arbitrary: s)
  case (Suc fuel)
  show ?case
    using iteration_good [OF Suc.prems(1)] Suc.prems(2) by (auto intro: Suc.IH split: flow.splits)
qed simp

end

text \<open>An invariant of the conversation and the trace is kept by an iteration when each part keeps it.\<close>

lemma iteration_by_phases:
  assumes "pre s"
    and head: "\<And>s. pre s \<Longrightarrow> flow_holds good Q (head_phase ag t s)"
    and said: "\<And>s. good s \<Longrightarrow> flow_holds good Q (notes_phase ag t s)"
    and req: "\<And>s. good s \<Longrightarrow> flow_holds mid Q (request_phase ag t s)"
    and call: "\<And>s. mid s \<Longrightarrow>
      flow_holds (\<lambda>(a, s'). case a of None \<Rightarrow> out s' | Some r \<Rightarrow> called r s') Q (call_phase ag t s)"
    and answer: "\<And>r s. called r s \<Longrightarrow> flow_holds (\<lambda>(d, s'). given s') Q (answer_phase ag t r s)"
    and repeated: "\<And>r s. given s \<Longrightarrow> flow_holds known Q (repeat_phase r s)"
    and tools: "\<And>r d s. known s \<Longrightarrow> flow_holds out Q (tools_phase ag t r d s)"
  shows "flow_holds out Q (iteration ag t s)"
  unfolding iteration_def
proof (rule flow_holds_and_then)
  show "flow_holds (\<lambda>(a, s'). case a of None \<Rightarrow> out s' | Some r \<Rightarrow> called r s') Q
      (and_then (and_then (and_then (head_phase ag t s) (notes_phase ag t)) (request_phase ag t)) (call_phase ag t))"
  proof -
    have "flow_holds good Q (and_then (head_phase ag t s) (notes_phase ag t))"
      by (rule flow_holds_and_then [OF head [OF assms(1)] said])
    then have "flow_holds mid Q (and_then (and_then (head_phase ag t s) (notes_phase ag t)) (request_phase ag t))"
      by (rule flow_holds_and_then [OF _ req])
    then show ?thesis by (rule flow_holds_and_then [OF _ call])
  qed
next
  fix x :: "response option \<times> loop_state"
  assume x: "case x of (a, s') \<Rightarrow> (case a of None \<Rightarrow> out s' | Some r \<Rightarrow> called r s')"
  obtain a s1 where [simp]: "x = (a, s1)" by (cases x)
  show "flow_holds out Q (case x of (answer, s1) \<Rightarrow> case answer of None \<Rightarrow> Go s1
      | Some r \<Rightarrow> and_then (answer_phase ag t r s1) (\<lambda>(d, s2). and_then (repeat_phase r s2) (tools_phase ag t r d)))"
  proof (cases a)
    case None
    with x show ?thesis by simp
  next
    case (Some r)
    with x have "called r s1" by simp
    then have "flow_holds out Q
        (and_then (answer_phase ag t r s1) (\<lambda>(d, s2). and_then (repeat_phase r s2) (tools_phase ag t r d)))"
    proof (rule flow_holds_and_then [OF answer])
      fix y :: "directive \<times> loop_state"
      assume y: "case y of (d, s') \<Rightarrow> given s'"
      obtain d s2 where [simp]: "y = (d, s2)" by (cases y)
      show "flow_holds out Q (case y of (d, s2) \<Rightarrow> and_then (repeat_phase r s2) (tools_phase ag t r d))"
        using y by (simp add: flow_holds_and_then [OF repeated tools])
    qed
    with Some show ?thesis by simp
  qed
qed

section \<open>Every request is well formed\<close>

text \<open>Messages that differ in nothing a provider's adjacency rule looks at.\<close>

definition same_protocol :: "message \<Rightarrow> message \<Rightarrow> bool" where
  "same_protocol m m' \<longleftrightarrow>
     m_role m' = m_role m \<and> use_ids (content_blocks (Some m')) = use_ids (content_blocks (Some m)) \<and>
     result_ids (content_blocks (Some m')) = result_ids (content_blocks (Some m))"

definition no_protocol :: "message \<Rightarrow> bool" where
  "no_protocol m \<longleftrightarrow>
     use_ids (content_blocks (Some m)) = [] \<and> result_ids (content_blocks (Some m)) = []"

lemma same_protocol_refl [simp]: "same_protocol m m"
  by (simp add: same_protocol_def)

lemma same_protocol_ids:
  "rel_option same_protocol p p' \<Longrightarrow> tool_use_ids p' = tool_use_ids p \<and> tool_result_ids p' = tool_result_ids p"
  by (cases p; cases p') (auto simp: same_protocol_def tool_use_ids_def tool_result_ids_def)

lemma adjacent_from_same:
  "list_all2 same_protocol ms ms' \<Longrightarrow> rel_option same_protocol p p' \<Longrightarrow>
   adjacent_from p ms \<Longrightarrow> adjacent_from p' ms'"
proof (induction ms ms' arbitrary: p p' rule: list_all2_induct)
  case (Cons m ms m' ms')
  have "rel_option same_protocol (first_of ms) (first_of ms')"
    using Cons.hyps(2) by (cases ms; cases ms') auto
  then have "tool_result_ids (first_of ms') = tool_result_ids (first_of ms)"
    using same_protocol_ids by blast
  moreover have "tool_use_ids p' = tool_use_ids p"
    using Cons.prems(1) same_protocol_ids by blast
  ultimately show ?case
    using Cons.prems Cons.hyps(1) Cons.IH [of "Some m" "Some m'"]
    by (auto simp: results_asked_def uses_answered_def same_protocol_def)
qed simp

lemma adjacent_same: "list_all2 same_protocol ms ms' \<Longrightarrow> adjacent ms \<Longrightarrow> adjacent ms'"
  unfolding adjacent_def by (rule adjacent_from_same) auto

lemma adjacent_from_snoc:
  "adjacent_from p ms \<Longrightarrow> no_protocol m \<Longrightarrow> adjacent_from p (ms @ [m])"
proof (induction ms arbitrary: p)
  case Nil
  then show ?case
    by (simp add: results_asked_def uses_answered_def no_protocol_def)
next
  case (Cons x ms)
  then have "uses_answered x (first_of (ms @ [m]))"
    by (cases ms) (auto simp: uses_answered_def tool_result_ids_def)
  with Cons show ?case by simp
qed

lemma adjacent_snoc: "adjacent ms \<Longrightarrow> no_protocol m \<Longrightarrow> adjacent (ms @ [m])"
  unfolding adjacent_def by (rule adjacent_from_snoc)

lemma with_estimate_same: "same_protocol m (with_estimate est m)"
  by (simp add: same_protocol_def with_estimate_def)

lemma adjacent_estimates: "adjacent ms \<Longrightarrow> adjacent (map (with_estimate est) ms)"
  by (rule adjacent_same [rotated]) (auto simp: list.rel_map with_estimate_same intro: list.rel_refl)

lemma use_ids_append [simp]: "use_ids (a @ b) = use_ids a @ use_ids b"
  by (induction a rule: use_ids.induct) auto

lemma result_ids_append [simp]: "result_ids (a @ b) = result_ids a @ result_ids b"
  by (induction a rule: result_ids.induct) auto

text \<open>The invariant: a conversation that may need a repair is marked.\<close>

definition conv_ok :: "json conversation \<Rightarrow> bool" where
  "conv_ok c \<longleftrightarrow> cv_dirty c \<or> adjacent (cv_messages c)"

lemma append_messages [simp]:
  "cv_messages (snd (append_message est m c)) = cv_messages c @ [with_estimate est m]"
  "cv_dirty (snd (append_message est m c)) = cv_dirty c"
  "cv_meta (snd (append_message est m c)) = cv_meta c"
  by (simp_all add: append_message_def Let_def)

lemma no_protocol_estimate [simp]: "no_protocol (with_estimate est m) = no_protocol m"
  by (simp add: no_protocol_def with_estimate_def)

lemma fold_block_messages:
  assumes "adjacent (cv_messages c)"
  shows "adjacent (cv_messages (fold_block ag (TextBlock u) c))"
proof (cases "\<exists>m. last_of (cv_messages c) = Some m \<and> m_role m = User")
  case False
  then have "append_block_to_last_user (ag_estimate ag) (TextBlock u) c = (False, [], c)"
    by (auto simp: append_block_to_last_user_def split: option.splits)
  moreover have "no_protocol \<lparr>m_role = User, m_content = Blocks [TextBlock u], m_est = None\<rparr>"
    by (simp add: no_protocol_def)
  ultimately show ?thesis
    using assms by (simp add: fold_block_def adjacent_snoc)
next
  case True
  then obtain m where m: "last_of (cv_messages c) = Some m" "m_role m = User" by blast
  then have ms: "cv_messages c = butlast (cv_messages c) @ [m]"
    by (metis append_butlast_last_id last_of_def option.inject option.distinct(1))
  define blocks where "blocks = (case m_content m of Text s \<Rightarrow> Blocks [TextBlock s, TextBlock u]
      | Blocks bs \<Rightarrow> Blocks (bs @ [TextBlock u]))"
  define m' where "m' = m\<lparr>m_content := blocks, m_est := Some (ag_estimate ag (m\<lparr>m_content := blocks\<rparr>))\<rparr>"
  have "cv_messages (fold_block ag (TextBlock u) c) = (cv_messages c)[length (cv_messages c) - 1 := m']"
    using m by (simp add: fold_block_def append_block_to_last_user_def Let_def blocks_def m'_def)
  also have "\<dots> = butlast (cv_messages c) @ [m']"
    by (metis length_butlast list_update_length ms)
  finally have after: "cv_messages (fold_block ag (TextBlock u) c) = butlast (cv_messages c) @ [m']" .
  have "same_protocol m m'"
    by (auto simp: same_protocol_def m'_def blocks_def split: content.split)
  then have "list_all2 same_protocol (cv_messages c) (butlast (cv_messages c) @ [m'])"
    by (subst ms) (simp add: list_all2_appendI list.rel_refl)
  with assms show ?thesis unfolding after by (rule adjacent_same [rotated])
qed

lemma fold_block_dirty [simp]: "cv_dirty (fold_block ag b c) = cv_dirty c"
  by (auto simp: fold_block_def append_block_to_last_user_def Let_def split: option.split)

lemma fold_block_ok: "conv_ok c \<Longrightarrow> conv_ok (fold_block ag (TextBlock u) c)"
  by (auto simp: conv_ok_def fold_block_messages)

lemma conv_ok_meta [simp]: "conv_ok (c\<lparr>cv_meta := m\<rparr>) = conv_ok c"
  by (simp add: conv_ok_def)

lemma inject_ok:
  "conv_ok c \<Longrightarrow> conv_ok (inject_btw ag c)" "conv_ok c \<Longrightarrow> conv_ok (inject_queue ag c)"
  "conv_ok c \<Longrightarrow> conv_ok (inject_pulse ag t i c)"
  by (auto simp: inject_btw_def inject_queue_def inject_pulse_def Let_def split_beta
      intro!: fold_block_ok split: option.split)

lemma repair_adjacent: "adjacent (fst (repair_tool_use_adjacency ms))"
  unfolding repair_is_repaired adjacent_def by (rule repaired_adjacent)

lemma replace_messages_cv [simp]:
  "cv_messages (snd (replace_messages est ms c)) = map (with_estimate est) ms"
  by (simp add: replace_messages_def Let_def)

lemma replace_dirty: "cv_dirty c \<Longrightarrow> cv_dirty (snd (replace_messages est ms c))"
  by (simp add: replace_messages_def Let_def)

lemma build_request_adjacent: "conv_ok c \<Longrightarrow> adjacent (cv_messages (build_request ag c))"
proof -
  obtain ms report where r: "repair_tool_use_adjacency (cv_messages c) = (ms, report)"
    by (cases "repair_tool_use_adjacency (cv_messages c)")
  have "adjacent ms" using repair_adjacent [of "cv_messages c"] by (simp add: r)
  moreover have "\<not> rr_changed report \<Longrightarrow> ms = cv_messages c"
    using r by (auto simp: repair_tool_use_adjacency_def split: prod.splits if_splits)
  ultimately show "conv_ok c \<Longrightarrow> adjacent (cv_messages (build_request ag c))"
    by (auto simp: build_request_def r Let_def conv_ok_def intro: adjacent_estimates)
qed

text \<open>What the theorem asks of the outside: the compactions before a request, in the recovery from an
  error and after an iteration keep adjacency, and no answer contains results of tools.\<close>

definition keeps_adjacent :: "(message list \<Rightarrow> message list option) \<Rightarrow> bool" where
  "keeps_adjacent f \<longleftrightarrow> (\<forall>ms ms'. adjacent ms \<longrightarrow> f ms = Some ms' \<longrightarrow> adjacent ms')"

definition answer_ok :: "agent \<Rightarrow> response \<Rightarrow> bool" where
  "answer_ok ag r =
     (case ag_response ag (rs_content r) of Inl e \<Rightarrow> True | Inr bs \<Rightarrow> \<not> list_ex is_tool_result bs)"

definition turn_ok :: "agent \<Rightarrow> turn \<Rightarrow> bool" where
  "turn_ok ag t \<longleftrightarrow>
     keeps_adjacent (tn_compact_before t) \<and> keeps_adjacent (tn_recover_compact t) \<and>
     keeps_adjacent (tn_compact_after t) \<and>
     (\<forall>ms r. tn_call t ms = Inr r \<longrightarrow> answer_ok ag r) \<and>
     (\<forall>r. tn_recovery t = Recover_with r \<longrightarrow> answer_ok ag r)"

lemma compact_ok: "keeps_adjacent f \<Longrightarrow> conv_ok c \<Longrightarrow> conv_ok (snd (compact ag f c))"
  by (auto simp: compact_def conv_ok_def keeps_adjacent_def Let_def replace_dirty
      intro: adjacent_estimates split: option.split)

lemma compact_adjacent:
  "keeps_adjacent f \<Longrightarrow> adjacent (cv_messages c) \<Longrightarrow> adjacent (cv_messages (snd (compact ag f c)))"
  by (auto simp: compact_def keeps_adjacent_def Let_def intro: adjacent_estimates split: option.split)

fun requests_of :: "loop_event list \<Rightarrow> message list list" where
  "requests_of [] = []"
| "requests_of (Requested ms # tr) = ms # requests_of tr"
| "requests_of (e # tr) = requests_of tr"

lemma requests_of_append [simp]: "requests_of (a @ b) = requests_of a @ requests_of b"
  by (induction a rule: requests_of.induct) auto

definition well_requested :: "loop_state \<Rightarrow> bool" where
  "well_requested s \<longleftrightarrow> conv_ok (ls_conv s) \<and> list_all adjacent (requests_of (ls_trace s))"

lemmas phase_simps = emit_def with_conv_def well_requested_def

lemma head_requested: "well_requested s \<Longrightarrow> flow_holds well_requested well_requested (head_phase ag t s)"
  by (auto simp: head_phase_def phase_simps take_flag_def Let_def split_beta split: option.split)

lemma notes_requested: "well_requested s \<Longrightarrow> flow_holds well_requested well_requested (notes_phase ag t s)"
  by (auto simp: notes_phase_def phase_simps Let_def intro!: fold_block_ok inject_ok split: prod.split option.split)

lemma request_requested:
  assumes "turn_ok ag t" and "well_requested s"
  shows "flow_holds well_requested well_requested (request_phase ag t s)"
proof -
  let ?c = "build_request ag (ls_conv s)"
  have built: "adjacent (cv_messages ?c)"
    using assms(2) by (simp add: well_requested_def build_request_adjacent)
  have f: "keeps_adjacent (tn_compact_before t)"
    using assms(1) by (simp add: turn_ok_def)
  obtain changed c where c: "compact ag (tn_compact_before t) ?c = (changed, c)"
    by (cases "compact ag (tn_compact_before t) ?c")
  have "adjacent (cv_messages c)"
    using compact_adjacent [OF f built, of ag] by (simp add: c)
  then have "adjacent (cv_messages (build_request ag c))"
    by (simp add: build_request_adjacent conv_ok_def)
  then show ?thesis
    using assms(2) built \<open>adjacent (cv_messages c)\<close>
    by (auto simp: request_phase_def phase_simps Let_def c conv_ok_def split: option.split)
qed

lemma call_requested:
  assumes "turn_ok ag t" and "well_requested s"
  shows "flow_holds (\<lambda>(a, s'). case a of None \<Rightarrow> well_requested s'
      | Some r \<Rightarrow> answer_ok ag r \<and> well_requested s') well_requested (call_phase ag t s)"
  using assms
  by (auto simp: call_phase_def phase_simps Let_def failed_def count_retry_def turn_ok_def compact_ok
      split: sum.split option.split ext_decision.split recovery.split)

lemma no_uses_iff: "list_ex is_tool_use bs \<or> use_ids bs = []"
  by (induction bs rule: use_ids.induct) auto

lemma answer_requested:
  assumes "answer_ok ag r \<and> well_requested s"
  shows "flow_holds (\<lambda>(d, s'). well_requested s') well_requested (answer_phase ag t r s)"
proof (cases "ag_response ag (rs_content r)")
  case (Inl e)
  then show ?thesis using assms by (simp add: answer_phase_def)
next
  case (Inr content)
  let ?m = "\<lparr>m_role = Assistant, m_content = Blocks content, m_est = None\<rparr>"
  have "\<not> list_ex is_tool_result content"
    using assms Inr by (simp add: answer_ok_def)
  then have "list_ex is_tool_use content \<or> no_protocol ?m"
    using no_uses_iff [of content] no_results [of content] by (auto simp: no_protocol_def)
  then have "conv_ok (ls_conv s) \<Longrightarrow>
      cv_dirty (ls_conv s) \<or> list_ex is_tool_use content \<or>
      adjacent (cv_messages (ls_conv s) @ [with_estimate (ag_estimate ag) ?m])"
    by (auto simp: conv_ok_def adjacent_snoc)
  then show ?thesis
    using assms
    by (auto simp: answer_phase_def Inr phase_simps Let_def conv_ok_def split: sum.split)
qed

lemma repeat_requested: "well_requested s \<Longrightarrow> flow_holds well_requested well_requested (repeat_phase r s)"
  by (simp add: repeat_phase_def phase_simps Let_def)

lemma tool_results_ok:
  assumes "conv_ok c"
  shows "conv_ok ((snd (append_message est \<lparr>m_role = User, m_content = Blocks results, m_est = None\<rparr> c))
      \<lparr>cv_dirty := cv_dirty c \<or> results \<noteq> []\<rparr>)"
proof (cases "results = []")
  case True
  have "no_protocol \<lparr>m_role = User, m_content = Blocks [], m_est = None\<rparr>"
    by (simp add: no_protocol_def)
  with True assms show ?thesis by (auto simp: conv_ok_def adjacent_snoc)
qed (simp add: conv_ok_def)

lemma finish_requested:
  "turn_ok ag t \<Longrightarrow> well_requested s \<Longrightarrow> well_requested (finish_iteration ag t s)"
  by (simp add: finish_iteration_def phase_simps compact_ok turn_ok_def)

lemma take_flag_requested: "well_requested s \<Longrightarrow> well_requested (snd (take_flag s))"
  by (simp add: take_flag_def well_requested_def with_conv_def split_beta)

lemma conv_ok_update: "conv_ok (c\<lparr>cv_dirty := d, cv_meta := m\<rparr>) = conv_ok (c\<lparr>cv_dirty := d\<rparr>)"
  by (simp add: conv_ok_def)

lemma tools_requested:
  assumes "turn_ok ag t" and "well_requested s"
  shows "flow_holds well_requested well_requested (tools_phase ag t r d s)"
proof (cases "calls_of (rs_content r) = []")
  case True
  then show ?thesis
    using assms finish_requested [OF assms] by (simp add: tools_phase_def Let_def run_finished_def)
next
  case False
  show ?thesis
  proof (cases "tn_tools t (calls_of (rs_content r))")
    case (Tools_throw msg)
    then show ?thesis using assms False by (simp add: tools_phase_def Let_def)
  next
    case (Tools_done results delegates go_on)
    define s1 where "s1 = record_results ag (calls_of (rs_content r)) results delegates go_on s"
    have "well_requested s1"
      using assms(2) tool_results_ok [where c = "ls_conv s" and est = "ag_estimate ag" and results = results]
      unfolding s1_def by (simp add: record_results_def phase_simps Let_def conv_ok_update)
    then have "well_requested (finish_iteration ag t s1)"
      "well_requested (finish_iteration ag t (snd (take_flag s1)))"
      using finish_requested [OF assms(1)] take_flag_requested by blast+
    then show ?thesis
      using False Tools_done
      by (simp add: tools_phase_def Let_def s1_def [symmetric] run_finished_def split_beta)
  qed
qed

lemma iteration_requested:
  "turn_ok ag t \<Longrightarrow> well_requested s \<Longrightarrow> flow_holds well_requested well_requested (iteration ag t s)"
  by (rule iteration_by_phases
      [where pre = well_requested and good = well_requested and mid = well_requested and given = well_requested and
        known = well_requested and called = "\<lambda>r s. answer_ok ag r \<and> well_requested s"])
    (auto intro: head_requested notes_requested request_requested call_requested answer_requested
      repeat_requested tools_requested)

lemma well_requested_index [simp]: "well_requested (s\<lparr>ls_index := i\<rparr>) = well_requested s"
  by (simp add: well_requested_def)

interpretation requests: loop_contract ag turns
    "\<lambda>s. (\<forall>i. turn_ok ag (turns i)) \<and> well_requested s"
    "\<lambda>s. (\<forall>i. turn_ok ag (turns i)) \<and> well_requested s" for ag turns
proof
  fix s
  assume s: "(\<forall>i. turn_ok ag (turns i)) \<and> well_requested s"
  then have "flow_holds well_requested well_requested (iteration ag (turns (ls_index s)) s)"
    by (intro iteration_requested) auto
  with s show "flow_holds
      (\<lambda>s'. (\<forall>i. turn_ok ag (turns i)) \<and> well_requested (s'\<lparr>ls_index := ls_index s + 1\<rparr>))
      (\<lambda>s. (\<forall>i. turn_ok ag (turns i)) \<and> well_requested s) (iteration ag (turns (ls_index s)) s)"
    by simp
qed assumption

text \<open>C1. Each request that goes to the provider answers every tool call of an assistant message in the
  next message and has no result without its call, in every run (however it ends and while it lasts)
  in which: every compaction (before a request, in the recovery from a provider error, after an
  iteration) turns an adjacent conversation into an adjacent one; no answer of the provider or of the
  recovery contains tool results; the conversation at the start is adjacent or marked for repair; and
  the user's input contains no tool calls or results.\<close>

theorem requests_adjacent:
  assumes "\<forall>i. turn_ok ag (turns i)" and "cv_dirty c \<or> adjacent (cv_messages c)"
    and "\<not> list_ex is_protocol content"
  shows "list_all adjacent (requests_of (ls_trace (snd (run_inner ag limit turns fuel content c))))"
proof -
  obtain ag' s where s: "start_run ag limit content c = (ag', s)" by (cases "start_run ag limit content c")
  let ?m = "\<lparr>m_role = User, m_content = Blocks content, m_est = None\<rparr>"
  have "no_protocol ?m"
    using assms(3) no_uses_iff [of content] no_results [of content]
    by (auto simp: no_protocol_def list_ex_iff)
  then have start: "well_requested s"
    using s assms(2) by (auto simp: start_run_def Let_def well_requested_def conv_ok_def adjacent_snoc)
  have "answer_ok ag' r = answer_ok ag r" for r
    using s by (auto simp: start_run_def Let_def answer_ok_def)
  then have ok: "turn_ok ag' (turns i)" for i
    using assms(1) by (simp add: turn_ok_def)
  show ?thesis
    using requests.run_good [of ag' turns s fuel] start ok by (simp add: run_inner_def s well_requested_def)
qed

section \<open>The limit holds\<close>

fun granted :: "loop_event list \<Rightarrow> int" where
  "granted [] = 0"
| "granted (Limit_asked i l extra # tr) = extra + granted tr"
| "granted (e # tr) = granted tr"

lemma granted_append [simp]: "granted (a @ b) = granted a + granted b"
  by (induction a rule: granted.induct) auto

lemma extension_nonneg: "0 \<le> request_limit_extension auto sync later"
  by (auto simp: request_limit_extension_def split: list.split limit_reply.split)

definition limited :: "int \<Rightarrow> nat \<Rightarrow> nat \<Rightarrow> nat \<Rightarrow> loop_state \<Rightarrow> bool" where
  "limited L i a b s \<longleftrightarrow>
     ls_index s = i \<and> ls_limit s = Some (L + granted (ls_trace s)) \<and>
     length (requests_of (ls_trace s)) \<le> a \<and> int b \<le> L + granted (ls_trace s)"

definition within_limit :: "int \<Rightarrow> loop_state \<Rightarrow> bool" where
  "within_limit L s \<longleftrightarrow> int (length (requests_of (ls_trace s))) \<le> L + granted (ls_trace s)"

lemma limited_within: "limited L i a a s \<Longrightarrow> within_limit L s"
  by (auto simp: limited_def within_limit_def)

lemmas limit_simps = limited_def within_limit_def emit_def with_conv_def

lemma head_limited:
  assumes "has_hard_limit ag" and "limited L i i i s"
  shows "flow_holds (limited L i i (i + 1)) (within_limit L) (head_phase ag t s)"
  using assms extension_nonneg [of "ag_auto_extend ag" "tn_replies t" "tn_late_replies t"]
  by (auto simp: head_phase_def take_flag_def limit_simps Let_def split_beta)

lemma notes_limited:
  "limited L i i (i + 1) s \<Longrightarrow> flow_holds (limited L i i (i + 1)) (within_limit L) (notes_phase ag t s)"
  by (auto simp: notes_phase_def limit_simps Let_def split: prod.split option.split)

lemma request_limited:
  "limited L i i (i + 1) s \<Longrightarrow> flow_holds (limited L i (i + 1) (i + 1)) (within_limit L) (request_phase ag t s)"
  by (auto simp: request_phase_def limit_simps Let_def split: prod.split option.split)

lemma call_limited:
  "limited L i (i + 1) (i + 1) s \<Longrightarrow>
   flow_holds (\<lambda>(a, s'). case a of None \<Rightarrow> limited L i (i + 1) (i + 1) s'
     | Some r \<Rightarrow> limited L i (i + 1) (i + 1) s') (within_limit L) (call_phase ag t s)"
  by (auto simp: call_phase_def failed_def count_retry_def limit_simps Let_def
      split: sum.split option.split ext_decision.split recovery.split)

lemma answer_limited:
  "limited L i (i + 1) (i + 1) s \<Longrightarrow>
   flow_holds (\<lambda>(d, s'). limited L i (i + 1) (i + 1) s') (within_limit L) (answer_phase ag t r s)"
  by (auto simp: answer_phase_def limit_simps Let_def split: sum.split)

lemma repeat_limited:
  "limited L i (i + 1) (i + 1) s \<Longrightarrow>
   flow_holds (limited L i (i + 1) (i + 1)) (within_limit L) (repeat_phase r s)"
  by (auto simp: repeat_phase_def limit_simps Let_def)

lemma tools_limited:
  "limited L i (i + 1) (i + 1) s \<Longrightarrow>
   flow_holds (limited L i (i + 1) (i + 1)) (within_limit L) (tools_phase ag t r d s)"
  by (auto simp: tools_phase_def finish_iteration_def run_finished_def record_results_def take_flag_def
      limit_simps Let_def split_beta split: tool_phase.split)

lemma iteration_limited:
  assumes "has_hard_limit ag" and "limited L i i i s"
  shows "flow_holds (limited L i (i + 1) (i + 1)) (within_limit L) (iteration ag t s)"
  by (rule iteration_by_phases
      [where pre = "limited L i i i" and good = "limited L i i (i + 1)" and
        mid = "limited L i (i + 1) (i + 1)" and given = "limited L i (i + 1) (i + 1)" and
        known = "limited L i (i + 1) (i + 1)" and called = "\<lambda>r. limited L i (i + 1) (i + 1)"])
    (rule assms(2), erule head_limited [OF assms(1)], erule notes_limited, erule request_limited,
      erule call_limited, erule answer_limited, erule repeat_limited, erule tools_limited)

definition effective_limit :: "agent \<Rightarrow> int option option \<Rightarrow> int option" where
  "effective_limit ag limit = (case limit of None \<Rightarrow> ag_max ag | Some l \<Rightarrow> l)"

lemma limited_next:
  "limited L i (Suc i) (Suc i) s \<Longrightarrow> limited L (Suc i) (Suc i) (Suc i) (s\<lparr>ls_index := Suc i\<rparr>)"
  by (simp add: limited_def)

lemma flow_holds_mono:
  "flow_holds P Q x \<Longrightarrow> (\<And>a. P a \<Longrightarrow> P' a) \<Longrightarrow> (\<And>s. Q s \<Longrightarrow> Q' s) \<Longrightarrow> flow_holds P' Q' x"
  by (cases x) simp_all

interpretation limits: loop_contract ag turns
    "\<lambda>s. has_hard_limit ag \<and> limited L (ls_index s) (ls_index s) (ls_index s) s" "within_limit L"
    for ag turns L
proof
  fix s
  assume "has_hard_limit ag \<and> limited L (ls_index s) (ls_index s) (ls_index s) s"
  then show "flow_holds
      (\<lambda>s'. has_hard_limit ag \<and> limited L (ls_index (s'\<lparr>ls_index := ls_index s + 1\<rparr>))
        (ls_index (s'\<lparr>ls_index := ls_index s + 1\<rparr>)) (ls_index (s'\<lparr>ls_index := ls_index s + 1\<rparr>))
        (s'\<lparr>ls_index := ls_index s + 1\<rparr>)) (within_limit L) (iteration ag (turns (ls_index s)) s)"
    by (intro flow_holds_mono [OF iteration_limited]) (auto dest: limited_next)
qed (auto intro: limited_within)

text \<open>C34. With a limit, the number of requests sent to the provider never exceeds it by more than what was
  granted when the limit was reached.\<close>

theorem requests_within_limit:
  "case effective_limit ag limit of
     None \<Rightarrow> True
   | Some L \<Rightarrow>
       if 0 < L then
         int (length (requests_of (ls_trace (snd (run_inner ag limit turns fuel content c)))))
           \<le> L + granted (ls_trace (snd (run_inner ag limit turns fuel content c)))
       else True"
proof (cases "effective_limit ag limit")
  case (Some L)
  obtain ag' s where s: "start_run ag limit content c = (ag', s)" by (cases "start_run ag limit content c")
  have "within_limit L (snd (run_loop ag' turns fuel s))" if "0 < L"
    using s that Some
    by (intro limits.run_good) (auto simp: start_run_def Let_def has_hard_limit_def effective_limit_def limited_def)
  with Some show ?thesis by (simp add: run_inner_def s within_limit_def)
qed simp

section \<open>The run ends\<close>

definition refused :: "agent \<Rightarrow> turn \<Rightarrow> bool" where
  "refused ag t \<longleftrightarrow> request_limit_extension (ag_auto_extend ag) (tn_replies t) (tn_late_replies t) = 0"

definition keeps_limit :: "int option \<Rightarrow> loop_state \<Rightarrow> bool" where
  "keeps_limit L s \<longleftrightarrow> ls_limit s = L"

lemma phases_keep_limit:
  "refused ag t \<Longrightarrow> keeps_limit L s \<Longrightarrow> flow_holds (keeps_limit L) (\<lambda>s. True) (head_phase ag t s)"
  "keeps_limit L s \<Longrightarrow> flow_holds (keeps_limit L) (\<lambda>s. True) (notes_phase ag t s)"
  "keeps_limit L s \<Longrightarrow> flow_holds (keeps_limit L) (\<lambda>s. True) (request_phase ag t s)"
  "keeps_limit L s \<Longrightarrow> flow_holds (\<lambda>(a, s'). case a of None \<Rightarrow> keeps_limit L s' | Some r \<Rightarrow> keeps_limit L s')
     (\<lambda>s. True) (call_phase ag t s)"
  "keeps_limit L s \<Longrightarrow> flow_holds (\<lambda>(d, s'). keeps_limit L s') (\<lambda>s. True) (answer_phase ag t r s)"
  "keeps_limit L s \<Longrightarrow> flow_holds (keeps_limit L) (\<lambda>s. True) (repeat_phase r s)"
  "keeps_limit L s \<Longrightarrow> flow_holds (keeps_limit L) (\<lambda>s. True) (tools_phase ag t r d s)"
  by (auto simp: keeps_limit_def refused_def head_phase_def notes_phase_def request_phase_def call_phase_def
      answer_phase_def repeat_phase_def tools_phase_def failed_def count_retry_def finish_iteration_def
      run_finished_def record_results_def take_flag_def emit_def with_conv_def Let_def split_beta
      split: sum.split option.split ext_decision.split recovery.split tool_phase.split)

lemma iteration_keeps_limit:
  assumes "refused ag t"
  shows "flow_holds (keeps_limit (ls_limit s)) (\<lambda>s. True) (iteration ag t s)"
  by (rule iteration_by_phases
      [where pre = "keeps_limit (ls_limit s)" and good = "keeps_limit (ls_limit s)" and
        mid = "keeps_limit (ls_limit s)" and given = "keeps_limit (ls_limit s)" and
        known = "keeps_limit (ls_limit s)" and called = "\<lambda>r. keeps_limit (ls_limit s)"],
    simp add: keeps_limit_def)
    (erule phases_keep_limit phases_keep_limit(1) [OF assms])+

lemma no_iteration_past_limit:
  assumes "refused ag t" and "has_hard_limit ag" and "ls_limit s = Some L" and "L \<le> int (ls_index s)"
  shows "\<not> (\<exists>s'. iteration ag t s = Go s')"
proof -
  have "\<not> (\<exists>s'. head_phase ag t s = Go s')"
    using assms by (auto simp: head_phase_def refused_def take_flag_def with_conv_def Let_def split_beta)
  then show ?thesis
    by (cases "head_phase ag t s") (auto simp: iteration_def and_then_def)
qed

lemma run_loop_ends:
  assumes "\<And>i. refused ag (turns i)" and "has_hard_limit ag"
  shows "ls_limit s = Some L \<Longrightarrow> L < int (ls_index s) + int fuel \<Longrightarrow> 0 < fuel \<Longrightarrow>
    fst (run_loop ag turns fuel s) \<noteq> None"
proof (induction fuel arbitrary: s)
  case (Suc fuel)
  show ?case
  proof (cases "iteration ag (turns (ls_index s)) s")
    case (Go s')
    have "\<not> L \<le> int (ls_index s)"
      using no_iteration_past_limit [OF assms Suc.prems(1)] Go by blast
    moreover have "ls_limit s' = Some L"
      using iteration_keeps_limit [OF assms(1), of s "ls_index s"] Go Suc.prems(1) by (simp add: keeps_limit_def)
    ultimately have "fst (run_loop ag turns fuel (s'\<lparr>ls_index := ls_index s + 1\<rparr>)) \<noteq> None"
      using Suc.prems by (intro Suc.IH) auto
    then show ?thesis using Go by simp
  qed simp_all
qed simp

text \<open>C14. When nobody extends the limit, a run with a limit ends within one iteration more than it, whatever
  the provider, the extensions and the tools do.\<close>

theorem run_ends_unless_extended:
  assumes "effective_limit ag limit = Some L" and "0 < L" and "\<forall>i. refused ag (turns i)"
  shows "fst (run_inner ag limit turns (nat L + 1) content c) \<noteq> None"
proof -
  obtain ag' s where s: "start_run ag limit content c = (ag', s)" by (cases "start_run ag limit content c")
  have "has_hard_limit ag'" "ls_limit s = Some L" "ls_index s = 0" "ag_auto_extend ag' = ag_auto_extend ag"
    using s assms(1,2) by (auto simp: start_run_def Let_def has_hard_limit_def effective_limit_def)
  moreover from this have "refused ag' (turns i)" for i
    using assms(3) by (simp add: refused_def)
  ultimately have "fst (run_loop ag' turns (nat L + 1) s) \<noteq> None"
    using assms(2) by (intro run_loop_ends) auto
  then show ?thesis by (simp add: run_inner_def s)
qed

section \<open>Retries\<close>

fun retry_streak :: "nat \<Rightarrow> loop_event list \<Rightarrow> nat" where
  "retry_streak n [] = n"
| "retry_streak n (Retried # tr) = retry_streak (n + 1) tr"
| "retry_streak n (Answered fp # tr) = retry_streak 0 tr"
| "retry_streak n (e # tr) = retry_streak n tr"

lemma retry_streak_append [simp]: "retry_streak n (a @ b) = retry_streak (retry_streak n a) b"
  by (induction n a rule: retry_streak.induct) auto

definition retries_bounded :: "loop_event list \<Rightarrow> bool" where
  "retries_bounded tr = list_all (\<lambda>n. retry_streak 0 (take n tr) \<le> 2) [0..<length tr + 1]"

lemma retries_bounded_snoc [simp]:
  "retries_bounded (tr @ [e]) \<longleftrightarrow> retries_bounded tr \<and> retry_streak 0 (tr @ [e]) \<le> 2"
  by (auto simp: retries_bounded_def list_all_iff less_Suc_eq simp del: retry_streak_append)

lemma retries_bounded_snoc2 [simp]:
  "retries_bounded (tr @ [e, e']) \<longleftrightarrow>
     retries_bounded tr \<and> retry_streak 0 (tr @ [e]) \<le> 2 \<and> retry_streak 0 (tr @ [e, e']) \<le> 2"
  using retries_bounded_snoc [of "tr @ [e]" e'] by simp

lemma retries_bounded_now: "retries_bounded tr \<Longrightarrow> retry_streak 0 tr \<le> 2"
  by (auto simp: retries_bounded_def list_all_iff dest: bspec [of _ _ "length tr"])

definition retries_ok :: "loop_state \<Rightarrow> bool" where
  "retries_ok s \<longleftrightarrow> retries_bounded (ls_trace s)"

definition retries_counted :: "loop_state \<Rightarrow> bool" where
  "retries_counted s \<longleftrightarrow> retries_ok s \<and> ls_retries s = retry_streak 0 (ls_trace s)"

definition retries_reset :: "loop_state \<Rightarrow> bool" where
  "retries_reset s \<longleftrightarrow> retries_ok s \<and> ls_retries s = 0"

lemmas retry_simps = retries_ok_def retries_counted_def retries_reset_def emit_def with_conv_def

lemma phases_count_retries:
  "retries_counted s \<Longrightarrow> flow_holds retries_counted retries_ok (head_phase ag t s)"
  "retries_counted s \<Longrightarrow> flow_holds retries_counted retries_ok (notes_phase ag t s)"
  "retries_counted s \<Longrightarrow> flow_holds retries_counted retries_ok (request_phase ag t s)"
  "retries_counted s \<Longrightarrow> flow_holds
     (\<lambda>(a, s'). case a of None \<Rightarrow> retries_counted s' | Some r \<Rightarrow> retries_reset s') retries_ok (call_phase ag t s)"
  "retries_reset s \<Longrightarrow> flow_holds (\<lambda>(d, s'). retries_reset s') retries_ok (answer_phase ag t r s)"
  "retries_reset s \<Longrightarrow> flow_holds retries_counted retries_ok (repeat_phase r s)"
  "retries_counted s \<Longrightarrow> flow_holds retries_counted retries_ok (tools_phase ag t r d s)"
  by (auto simp: retry_simps head_phase_def notes_phase_def request_phase_def call_phase_def
      answer_phase_def repeat_phase_def tools_phase_def failed_def count_retry_def finish_iteration_def
      run_finished_def record_results_def take_flag_def Let_def split_beta retries_bounded_now
      split: sum.split option.split ext_decision.split recovery.split tool_phase.split)

lemma iteration_counts_retries:
  "retries_counted s \<Longrightarrow> flow_holds retries_counted retries_ok (iteration ag t s)"
  by (rule iteration_by_phases
      [where pre = retries_counted and good = retries_counted and mid = retries_counted and
        given = retries_reset and known = retries_counted and called = "\<lambda>r. retries_reset"])
    (assumption | erule phases_count_retries)+

interpretation retrying: loop_contract ag turns retries_counted retries_ok for ag turns
proof
  fix s
  assume "retries_counted s"
  then show "flow_holds (\<lambda>s'. retries_counted (s'\<lparr>ls_index := ls_index s + 1\<rparr>)) retries_ok
      (iteration ag (turns (ls_index s)) s)"
    by (intro flow_holds_mono [OF iteration_counts_retries]) (auto simp: retries_counted_def retries_ok_def)
qed (simp add: retries_counted_def)

text \<open>In every run, and at every point of it, there were at most two recovery retries since the last
  answer, whatever extensions and the error handler ask for.\<close>

theorem at_most_two_retries:
  "retries_bounded (ls_trace (snd (run_inner ag limit turns fuel content c)))"
proof -
  obtain ag' s where s: "start_run ag limit content c = (ag', s)" by (cases "start_run ag limit content c")
  then have "retries_counted s"
    by (auto simp: start_run_def Let_def retries_counted_def retries_ok_def retries_bounded_def)
  then show ?thesis
    using retrying.run_good [of s ag' turns fuel] by (simp add: run_inner_def s retries_ok_def)
qed

section \<open>Repetition\<close>

text \<open>The counter is the length of the streak of equal fingerprints at the end of the history.\<close>

definition streak :: "string list \<Rightarrow> nat" where
  "streak fps = (if fps = [] \<or> last fps = no_fingerprint then 0
     else length (takeWhile (\<lambda>fp. fp = last fps) (rev fps)))"

lemma note_fold:
  "'''' \<notin> set fps \<Longrightarrow>
   fold note_fingerprint fps ('''', 0) =
     (if fps = [] \<or> last fps = no_fingerprint then '''' else last fps, streak fps)"
proof (induction fps rule: rev_induct)
  case Nil
  then show ?case by (simp add: streak_def)
next
  case (snoc fp fps)
  then have IH: "fold note_fingerprint fps ('''', 0) =
      (if fps = [] \<or> last fps = no_fingerprint then '''' else last fps, streak fps)"
    and fp: "fp \<noteq> ''''" by auto
  show ?case
  proof (cases "fps = []")
    case True
    with IH fp show ?thesis by (simp add: note_fingerprint_def streak_def)
  next
    case False
    then obtain gs g where gs: "fps = gs @ [g]" by (cases fps rule: rev_exhaust) auto
    have step: "fold note_fingerprint (fps @ [fp]) ('''', 0) =
        note_fingerprint fp (if fps = [] \<or> last fps = no_fingerprint then '''' else last fps, streak fps)"
      by (simp add: IH)
    show ?thesis
      by (subst step) (use fp in \<open>auto simp: gs note_fingerprint_def streak_def\<close>)
  qed
qed

lemma fingerprint_not_empty [simp]: "iteration_fingerprint r \<noteq> ''''"
  by (simp add: iteration_fingerprint_def Let_def no_fingerprint_def)

text \<open>The counter the loop keeps is, for every sequence of answers, the number of answers at the end
  that have the fingerprint of the last one, and zero after an empty answer.\<close>

theorem repetition_counter_exact:
  "snd (fold note_fingerprint (map iteration_fingerprint rs) ('''', 0)) = streak (map iteration_fingerprint rs)"
proof -
  have "'''' \<notin> set (map iteration_fingerprint rs)"
    using fingerprint_not_empty by (metis image_iff set_map)
  then show ?thesis by (simp add: note_fold)
qed

text \<open>The fingerprints of the answers of a history, and three of them in a row that are equal and not
  those of an empty answer.\<close>

fun answers_of :: "loop_event list \<Rightarrow> string list" where
  "answers_of [] = []"
| "answers_of (Answered fp # tr) = fp # answers_of tr"
| "answers_of (e # tr) = answers_of tr"

lemma answers_of_append [simp]: "answers_of (a @ b) = answers_of a @ answers_of b"
  by (induction a rule: answers_of.induct) auto

definition three_in_a_row :: "string list \<Rightarrow> bool" where
  "three_in_a_row fps =
     (case rev fps of a # b # c # others \<Rightarrow> a = b \<and> b = c \<and> a \<noteq> no_fingerprint | _ \<Rightarrow> False)"

lemma three_in_a_row_streak: "three_in_a_row fps \<longleftrightarrow> 3 \<le> streak fps"
proof (cases "fps = []")
  case False
  then have "rev fps = last fps # tl (rev fps)" by (cases fps rule: rev_exhaust) auto
  then obtain a others where r: "rev fps = a # others" "last fps = a" by blast
  show ?thesis
    using False r by (auto simp: three_in_a_row_def streak_def numeral_3_eq_3 split: list.split)
qed (simp add: three_in_a_row_def streak_def)

fun detected :: "loop_event \<Rightarrow> bool" where
  "detected (Loop_detected n names) = True"
| "detected e = False"

text \<open>A history in which there were never three in a row, and no loop was reported.\<close>

definition never_repeated :: "loop_event list \<Rightarrow> bool" where
  "never_repeated tr \<longleftrightarrow>
     (\<forall>a b. tr = a @ b \<longrightarrow> \<not> three_in_a_row (answers_of a)) \<and> \<not> list_ex detected tr"

lemma never_repeated_nil [simp]: "never_repeated []"
  by (simp add: never_repeated_def three_in_a_row_def)

lemma never_repeated_snoc:
  "never_repeated (tr @ [e]) \<longleftrightarrow>
     never_repeated tr \<and> \<not> three_in_a_row (answers_of (tr @ [e])) \<and> \<not> detected e"
proof
  assume n: "never_repeated (tr @ [e])"
  then have "\<not> three_in_a_row (answers_of a)" if "tr = a @ b" for a b
    using that by (auto simp: never_repeated_def)
  moreover have "\<not> three_in_a_row (answers_of (tr @ [e]))"
    using n by (simp add: never_repeated_def del: answers_of_append)
  ultimately show "never_repeated tr \<and> \<not> three_in_a_row (answers_of (tr @ [e])) \<and> \<not> detected e"
    using n by (simp add: never_repeated_def)
next
  assume n: "never_repeated tr \<and> \<not> three_in_a_row (answers_of (tr @ [e])) \<and> \<not> detected e"
  have "\<not> three_in_a_row (answers_of a)" if "tr @ [e] = a @ b" for a b
  proof (cases b rule: rev_exhaust)
    case Nil
    with that n show ?thesis by auto
  next
    case (snoc b' x)
    with that n show ?thesis by (auto simp: never_repeated_def)
  qed
  with n show "never_repeated (tr @ [e])"
    by (auto simp: never_repeated_def)
qed

lemma never_repeated_now: "never_repeated tr \<Longrightarrow> \<not> three_in_a_row (answers_of tr)"
  by (auto simp: never_repeated_def)

lemma never_repeated_more:
  "never_repeated tr \<Longrightarrow> answers_of es = [] \<Longrightarrow> \<not> list_ex detected es \<Longrightarrow> never_repeated (tr @ es)"
proof (induction es rule: rev_induct)
  case (snoc e es)
  then have "never_repeated (tr @ es)" by simp
  with snoc.prems show ?case
    using never_repeated_snoc [of "tr @ es" e] never_repeated_now [of "tr @ es"] by simp
qed simp

text \<open>What every run's history is: three in a row never happened, or it happened with the last answer
  and the report of the loop is the end.\<close>

definition stops_at_third :: "loop_event list \<Rightarrow> bool" where
  "stops_at_third tr \<longleftrightarrow>
     never_repeated tr \<or>
     (\<exists>tr' fp names. tr = tr' @ [Answered fp, Loop_detected 3 names] \<and> never_repeated tr' \<and>
        three_in_a_row (answers_of tr))"

definition stopped :: "loop_state \<Rightarrow> bool" where
  "stopped s \<longleftrightarrow> stops_at_third (ls_trace s)"

definition counting :: "loop_state \<Rightarrow> bool" where
  "counting s \<longleftrightarrow> never_repeated (ls_trace s) \<and> '''' \<notin> set (answers_of (ls_trace s)) \<and>
     ls_signature s = fold note_fingerprint (answers_of (ls_trace s)) ('''', 0)"

lemma counting_stopped: "counting s \<Longrightarrow> stopped s"
  by (simp add: counting_def stopped_def stops_at_third_def)

lemma counting_same:
  "counting s \<Longrightarrow> ls_trace s' = ls_trace s @ es \<Longrightarrow> answers_of es = [] \<Longrightarrow> \<not> list_ex detected es \<Longrightarrow>
   ls_signature s' = ls_signature s \<Longrightarrow> counting s'"
  by (simp add: counting_def never_repeated_more)

text \<open>Every part but the detection adds other events only.\<close>

definition silent :: "loop_state \<Rightarrow> loop_state \<Rightarrow> bool" where
  "silent s s' \<longleftrightarrow> ls_signature s' = ls_signature s \<and>
     (\<exists>es. ls_trace s' = ls_trace s @ es \<and> answers_of es = [] \<and> \<not> list_ex detected es)"

lemma silent_counts: "silent s s' \<Longrightarrow> counting s \<Longrightarrow> counting s'"
  by (auto simp: silent_def intro: counting_same)

lemma phases_silent:
  "flow_holds (silent s) (silent s) (head_phase ag t s)"
  "flow_holds (silent s) (silent s) (notes_phase ag t s)"
  "flow_holds (silent s) (silent s) (request_phase ag t s)"
  "flow_holds (\<lambda>(a, s'). case a of None \<Rightarrow> silent s s' | Some r \<Rightarrow> silent s s') (silent s) (call_phase ag t s)"
  "flow_holds (\<lambda>(d, s'). silent s s') (silent s) (answer_phase ag t r s)"
  "flow_holds (silent s) (silent s) (tools_phase ag t r d s)"
  by (auto simp: silent_def head_phase_def notes_phase_def request_phase_def call_phase_def
      answer_phase_def tools_phase_def failed_def count_retry_def finish_iteration_def
      run_finished_def record_results_def take_flag_def emit_def with_conv_def Let_def split_beta
      split: sum.split option.split ext_decision.split recovery.split tool_phase.split)

lemma silent_flow:
  "counting s \<Longrightarrow> flow_holds (silent s) (silent s) x \<Longrightarrow> flow_holds counting stopped x"
  by (erule flow_holds_mono) (auto dest: silent_counts counting_stopped)

lemma phases_count:
  "counting s \<Longrightarrow> flow_holds counting stopped (head_phase ag t s)"
  "counting s \<Longrightarrow> flow_holds counting stopped (notes_phase ag t s)"
  "counting s \<Longrightarrow> flow_holds counting stopped (request_phase ag t s)"
  "counting s \<Longrightarrow> flow_holds counting stopped (tools_phase ag t r d s)"
  by (erule silent_flow, rule phases_silent)+

lemma answers_count:
  assumes "counting s"
  shows "flow_holds (\<lambda>(a, s'). case a of None \<Rightarrow> counting s' | Some r \<Rightarrow> counting s') stopped (call_phase ag t s)"
    and "flow_holds (\<lambda>(d, s'). counting s') stopped (answer_phase ag t r s)"
  by (rule flow_holds_mono [OF phases_silent(4) [of s]], use assms in
        \<open>auto dest: silent_counts counting_stopped split: option.splits\<close>)
    (rule flow_holds_mono [OF phases_silent(5) [of s]], use assms in
        \<open>auto dest: silent_counts counting_stopped\<close>)

lemma counted:
  "counting s \<Longrightarrow> snd (note_fingerprint (iteration_fingerprint r) (ls_signature s)) =
     streak (answers_of (ls_trace s) @ [iteration_fingerprint r])"
  using note_fold [of "answers_of (ls_trace s) @ [iteration_fingerprint r]"] fingerprint_not_empty [of r]
  by (simp add: counting_def)

text \<open>The streak grows by one at most.\<close>

lemma streak_grows: "streak (fps @ [fp]) \<le> streak fps + 1"
  by (cases fps rule: rev_exhaust) (auto simp: streak_def)

lemma repeat_counts:
  assumes c: "counting s"
  shows "flow_holds counting stopped (repeat_phase r s)"
proof -
  let ?fp = "iteration_fingerprint r"
  define n where "n = snd (note_fingerprint ?fp (ls_signature s))"
  have n: "n = streak (answers_of (ls_trace s) @ [?fp])"
    using counted [OF c] by (simp add: n_def)
  have before: "never_repeated (ls_trace s)" using c by (simp add: counting_def)
  then have "streak (answers_of (ls_trace s)) < 3"
    using never_repeated_now by (force simp: three_in_a_row_streak)
  then have most: "n \<le> 3" using streak_grows [of "answers_of (ls_trace s)" ?fp] by (simp add: n)
  show ?thesis
  proof (cases "three_in_a_row (answers_of (ls_trace s) @ [?fp])")
    case True
    then have three: "n = 3" using most by (simp add: three_in_a_row_streak n)
    from True have "?fp \<noteq> no_fingerprint" by (auto simp: three_in_a_row_def split: list.splits)
    with three True before show ?thesis
      by (auto simp: repeat_phase_def Let_def emit_def loop_threshold_def stopped_def stops_at_third_def
          n_def [symmetric])
  next
    case False
    then have "n < 3" by (simp add: three_in_a_row_streak n)
    moreover have "counting (s\<lparr>ls_signature := note_fingerprint ?fp (ls_signature s),
        ls_trace := ls_trace s @ [Answered ?fp]\<rparr>)"
      using c False by (simp add: counting_def never_repeated_snoc) (metis fingerprint_not_empty)
    ultimately show ?thesis
      by (simp add: repeat_phase_def Let_def emit_def loop_threshold_def n_def)
  qed
qed

lemma iteration_counts: "counting s \<Longrightarrow> flow_holds counting stopped (iteration ag t s)"
  by (rule iteration_by_phases
      [where pre = counting and good = counting and mid = counting and given = counting and
        known = counting and called = "\<lambda>r. counting"])
    (assumption | erule phases_count answers_count repeat_counts)+

interpretation repeating: loop_contract ag turns counting stopped for ag turns
proof
  fix s
  assume "counting s"
  then show "flow_holds (\<lambda>s'. counting (s'\<lparr>ls_index := ls_index s + 1\<rparr>)) stopped
      (iteration ag (turns (ls_index s)) s)"
    by (intro flow_holds_mono [OF iteration_counts]) (auto simp: counting_def stopped_def)
qed (rule counting_stopped)

text \<open>An answer that calls a tool or contains text counts.\<close>

lemma fingerprint_counts:
  "iteration_fingerprint r = no_fingerprint \<longleftrightarrow>
     tool_names_of (rs_content r) = [] \<and> all_text (rs_content r) = ''''"
proof -
  have "sort (js_dedup (tool_names_of (rs_content r))) = [] \<longleftrightarrow> tool_names_of (rs_content r) = []"
    by (metis set_js_dedup set_empty set_sort)
  then show ?thesis
    by (auto simp: iteration_fingerprint_def Let_def no_fingerprint_def)
qed

text \<open>C11. Once the last three answers of a run have the same fingerprint, and are not empty, the report of the
  loop with the number three is the end of its history: no tool runs and no request is sent any more,
  and the run has returned. The report is never given otherwise, so two answers in a row do not
  stop a run. An answer is empty for this purpose exactly when it has no tool call and no text.\<close>

theorem third_repetition_stops:
  "case run_inner ag limit turns fuel content c of (result, s) \<Rightarrow>
     (if three_in_a_row (answers_of (ls_trace s))
      then result \<noteq> None \<and>
           (\<exists>tr fp names. ls_trace s = tr @ [Answered fp, Loop_detected 3 names] \<and> never_repeated tr)
      else never_repeated (ls_trace s)) \<and>
     (iteration_fingerprint r = no_fingerprint \<longleftrightarrow>
        tool_names_of (rs_content r) = [] \<and> all_text (rs_content r) = '''')"
proof -
  obtain ag' s where s: "start_run ag limit content c = (ag', s)" by (cases "start_run ag limit content c")
  then have start: "counting s"
    by (auto simp: start_run_def Let_def counting_def)
  define out where "out = run_loop ag' turns fuel s"
  have "stopped (snd out)" using repeating.run_good [OF start] by (simp add: out_def)
  moreover have "fst out = None \<Longrightarrow> never_repeated (ls_trace (snd out))"
    using repeating.run_going [OF start] by (simp add: out_def counting_def)
  ultimately show ?thesis
    by (auto simp: run_inner_def s out_def [symmetric] split_beta stopped_def stops_at_third_def
        fingerprint_counts dest: never_repeated_now)
qed

section \<open>The hash\<close>

text \<open>The shifts and additions are a multiplication by the prime of the 32-bit FNV-1a hash.\<close>

lemma hash_step_fnv: "hash_step c h = xor h (of_nat (of_char c)) * 0x01000193"
  by (simp add: hash_step_def Let_def push_bit_eq_mult algebra_simps)

theorem hash_is_fnv:
  "fold hash_step s h = fold (\<lambda>c h. xor h (of_nat (of_char c)) * 0x01000193) s h"
  by (intro fold_cong) (simp_all add: hash_step_fnv fun_eq_iff)

text \<open>Only the first call's input counts: two answers with the same text that call the same tools have
  one fingerprint, whatever the inputs of the later calls are.\<close>

lemma later_inputs_ignored:
  "iteration_fingerprint \<lparr>rs_content = bs, rs_inputs = i # is\<rparr> =
   iteration_fingerprint \<lparr>rs_content = bs, rs_inputs = i # js\<rparr>"
  by (simp add: iteration_fingerprint_def Let_def)

section \<open>Concrete runs\<close>

definition quiet_turn :: turn where
  "quiet_turn =
     \<lparr>tn_aborted = False, tn_reason = '''', tn_replies = [], tn_late_replies = [], tn_host = (\<lambda>m. m),
      tn_pulse = None, tn_mail = [], tn_request_throws = None, tn_compact_before = (\<lambda>_. None),
      tn_call = (\<lambda>_. Inr \<lparr>rs_content = [TextBlock ''hi''], rs_inputs = []\<rparr>), tn_aborted_call = False,
      tn_extension = None, tn_recover_compact = (\<lambda>_. None), tn_recovery = No_recovery, tn_aborted_answer = False,
      tn_tools = (\<lambda>cs. Tools_done (map (\<lambda>c. ToolResult (fst c) ''ok'' None None) cs) [] False),
      tn_aborted_tools = False, tn_compact_after = (\<lambda>_. None)\<rparr>"

definition calling_turn :: "string \<Rightarrow> turn" where
  "calling_turn n = quiet_turn\<lparr>tn_call := (\<lambda>_. Inr \<lparr>rs_content = [ToolUse ''1'' n (JObj [])], rs_inputs = [''{}'']\<rparr>)\<rparr>"

definition demo_agent :: agent where
  "demo_agent =
     \<lparr>ag_max = Some 3, ag_auto_extend = False, ag_autonomous = False, ag_pulse_every = 5,
      ag_estimate = (\<lambda>m. 0), ag_mail_text = (\<lambda>ms. ''mail''), ag_response = Inr, ag_output = Inr\<rparr>"

definition empty_conversation :: "json conversation" where
  "empty_conversation = \<lparr>cv_messages = [], cv_todos = [], cv_meta = [], cv_dirty = False\<rparr>"

definition demo_turns :: "nat \<Rightarrow> turn" where
  "demo_turns i = (if i = 0 then calling_turn ''ls'' else quiet_turn)"

lemma demo_turn_ok: "turn_ok demo_agent (demo_turns i)"
  by (auto simp: demo_turns_def calling_turn_def quiet_turn_def turn_ok_def keeps_adjacent_def answer_ok_def
      demo_agent_def)

theorem requests_adjacent_witness:
  "list_all adjacent
     (requests_of (ls_trace (snd (run_inner demo_agent None demo_turns 5 [TextBlock ''go''] empty_conversation))))"
  by (rule requests_adjacent)
    (simp_all add: demo_turn_ok empty_conversation_def adjacent_def)

theorem run_ends_unless_extended_witness:
  "fst (run_inner demo_agent None demo_turns (nat 3 + 1) [TextBlock ''go''] empty_conversation) \<noteq> None"
  by (rule run_ends_unless_extended)
    (auto simp: effective_limit_def demo_agent_def refused_def request_limit_extension_def demo_turns_def
      calling_turn_def quiet_turn_def)

definition the_call :: "string \<Rightarrow> response" where
  "the_call n = \<lparr>rs_content = [ToolUse ''1'' n (JObj [])], rs_inputs = [''{}'']\<rparr>"

definition call_fingerprint :: "string \<Rightarrow> string" where
  "call_fingerprint n = iteration_fingerprint (the_call n)"

lemma call_fingerprints:
  "call_fingerprint ''a'' \<noteq> call_fingerprint ''b''" "call_fingerprint n \<noteq> no_fingerprint"
  "call_fingerprint n \<noteq> ''''"
  by (simp_all add: call_fingerprint_def the_call_def iteration_fingerprint_def tool_names_of_def
      List.map_filter_def js_dedup_def js_add_def Let_def no_fingerprint_def)

lemma calling_turn_fields [simp]:
  "\<not> tn_aborted (calling_turn n)" "tn_replies (calling_turn n) = []" "tn_late_replies (calling_turn n) = []"
  "tn_host (calling_turn n) = (\<lambda>m. m)" "tn_pulse (calling_turn n) = None" "tn_mail (calling_turn n) = []"
  "tn_request_throws (calling_turn n) = None" "tn_compact_before (calling_turn n) = (\<lambda>_. None)"
  "tn_call (calling_turn n) = (\<lambda>_. Inr (the_call n))"
  "\<not> tn_aborted_answer (calling_turn n)" "tn_compact_after (calling_turn n) = (\<lambda>_. None)"
  "tn_tools (calling_turn n) = (\<lambda>cs. Tools_done (map (\<lambda>c. ToolResult (fst c) ''ok'' None None) cs) [] False)"
  by (simp_all add: calling_turn_def quiet_turn_def the_call_def)

text \<open>An iteration of a calling turn: the tools run, and the answer as the pipeline left it and the
  results are appended.\<close>

lemma calling_iteration:
  assumes "\<not> ag_autonomous ag" and resp: "ag_response ag [ToolUse ''1'' n (JObj [])] = Inr content"
    and out: "render_all (ag_output ag) content = Inr final"
    and sg: "fst (ls_signature s) \<noteq> call_fingerprint n"
    and limit: "case ls_limit s of None \<Rightarrow> True | Some l \<Rightarrow> int (ls_index s) < l \<or> ag_auto_extend ag"
  shows "\<exists>s'. iteration ag (calling_turn n) s = Go s' \<and> ls_signature s' = (call_fingerprint n, 1) \<and>
    Tools_ran [(''1'', n)] \<in> set (ls_trace s') \<and>
    (\<exists>ms. cv_messages (ls_conv s') = ms @
      [with_estimate (ag_estimate ag) \<lparr>m_role = Assistant, m_content = Blocks content, m_est = None\<rparr>,
       with_estimate (ag_estimate ag) \<lparr>m_role = User, m_content = Blocks [ToolResult ''1'' ''ok'' None None], m_est = None\<rparr>])"
proof -
  have calls: "calls_of (rs_content (the_call n)) = [(''1'', n)]"
    by (simp add: calls_of_def the_call_def List.map_filter_def)
  have "\<exists>s0. head_phase ag (calling_turn n) s = Go s0 \<and> ls_signature s0 = ls_signature s"
    using assms(1) limit
    by (auto simp: head_phase_def request_limit_extension_def Let_def emit_def split: option.splits)
  then obtain s0 where s0: "head_phase ag (calling_turn n) s = Go s0" "ls_signature s0 = ls_signature s"
    by blast
  obtain s1 where s1: "notes_phase ag (calling_turn n) s0 = Go s1" "ls_signature s1 = ls_signature s0"
    by (auto simp: notes_phase_def inject_mail_def Let_def emit_def with_conv_def render_order_def)
  obtain s2 where s2: "request_phase ag (calling_turn n) s1 = Go s2" "ls_signature s2 = ls_signature s1"
    by (auto simp: request_phase_def compact_def Let_def emit_def with_conv_def)
  obtain d s3 where s3: "answer_phase ag (calling_turn n) (the_call n) (s2\<lparr>ls_retries := 0\<rparr>) = Go (d, s3)"
    "ls_signature s3 = ls_signature s2"
    "cv_messages (ls_conv s3) = cv_messages (ls_conv s2) @
      [with_estimate (ag_estimate ag) \<lparr>m_role = Assistant, m_content = Blocks content, m_est = None\<rparr>]"
    using resp out by (auto simp: answer_phase_def the_call_def Let_def with_conv_def)
  obtain s4 where s4: "repeat_phase (the_call n) s3 = Go s4" "ls_signature s4 = (call_fingerprint n, 1)"
    "ls_conv s4 = ls_conv s3"
    using sg s0(2) s1(2) s2(2) s3(2) call_fingerprints(2) [of n]
    by (auto simp: repeat_phase_def note_fingerprint_def loop_threshold_def Let_def emit_def
        call_fingerprint_def [symmetric])
  have "\<exists>s5. tools_phase ag (calling_turn n) (the_call n) d s4 = Go s5 \<and> ls_signature s5 = ls_signature s4 \<and>
    Tools_ran [(''1'', n)] \<in> set (ls_trace s5) \<and>
    cv_messages (ls_conv s5) = cv_messages (ls_conv s4) @
      [with_estimate (ag_estimate ag) \<lparr>m_role = User, m_content = Blocks [ToolResult ''1'' ''ok'' None None], m_est = None\<rparr>]"
    using assms(1)
    by (simp add: tools_phase_def calls finish_iteration_def record_results_def emit_def with_conv_def
        compact_def Let_def)
  then obtain s5 where s5: "tools_phase ag (calling_turn n) (the_call n) d s4 = Go s5"
    "ls_signature s5 = ls_signature s4" "Tools_ran [(''1'', n)] \<in> set (ls_trace s5)"
    "cv_messages (ls_conv s5) = cv_messages (ls_conv s4) @
      [with_estimate (ag_estimate ag) \<lparr>m_role = User, m_content = Blocks [ToolResult ''1'' ''ok'' None None], m_est = None\<rparr>]"
    by blast
  have "call_phase ag (calling_turn n) s2 = Go (Some (the_call n), s2\<lparr>ls_retries := 0\<rparr>)"
    by (simp add: call_phase_def)
  then have "iteration ag (calling_turn n) s = Go s5"
    unfolding iteration_def
    using s0(1) s1(1) s2(1) s3(1) s4(1) s5(1) by (simp add: and_then_def)
  with s5 s4 s3 show ?thesis by auto
qed

text \<open>The response pipeline may take a tool call out of an answer before it is recorded.\<close>

definition filtering_agent :: agent where
  "filtering_agent = demo_agent\<lparr>ag_response := (\<lambda>bs. Inr (filter (\<lambda>b. \<not> is_tool_use b) bs))\<rparr>"

lemma filtering_fields [simp]:
  "ag_max filtering_agent = Some 3" "\<not> ag_autonomous filtering_agent"
  "ag_response filtering_agent = (\<lambda>bs. Inr (filter (\<lambda>b. \<not> is_tool_use b) bs))"
  "ag_output filtering_agent = Inr" "ag_estimate filtering_agent = (\<lambda>m. 0)"
  by (simp_all add: filtering_agent_def demo_agent_def)

lemma removed_call_iteration:
  "\<exists>s'. snd (run_inner filtering_agent None (\<lambda>i. calling_turn n) 1 content c) = s' \<and>
     Tools_ran [(''1'', n)] \<in> set (ls_trace s') \<and>
     (\<exists>ms. cv_messages (ls_conv s') = ms @
       [\<lparr>m_role = Assistant, m_content = Blocks [], m_est = Some 0\<rparr>,
        \<lparr>m_role = User, m_content = Blocks [ToolResult ''1'' ''ok'' None None], m_est = Some 0\<rparr>])"
proof -
  obtain ag s where s: "start_run filtering_agent None content c = (ag, s)"
    by (cases "start_run filtering_agent None content c")
  have ag: "ag = filtering_agent" and st: "ls_signature s = ('''', 0)" "ls_limit s = Some 3" "ls_index s = 0"
    using s by (auto simp: start_run_def Let_def filtering_agent_def demo_agent_def)
  obtain s' where "iteration filtering_agent (calling_turn n) s = Go s'" "Tools_ran [(''1'', n)] \<in> set (ls_trace s')"
    "\<exists>ms. cv_messages (ls_conv s') = ms @
      [with_estimate (ag_estimate filtering_agent) \<lparr>m_role = Assistant, m_content = Blocks [], m_est = None\<rparr>,
       with_estimate (ag_estimate filtering_agent) \<lparr>m_role = User, m_content = Blocks [ToolResult ''1'' ''ok'' None None], m_est = None\<rparr>]"
    using calling_iteration [of filtering_agent n "[]" "''''" s] call_fingerprints(3) [of n]
    by (auto simp: st)
  then show ?thesis
    by (auto simp: run_inner_def s ag with_estimate_def)
qed

text \<open>The tools run from the answer as it came: a call that the pipeline removed is executed all the
  same, and its result is appended to a conversation that does not contain the call.\<close>

theorem removed_call_still_runs:
  "list_ex (\<lambda>e. e = Tools_ran [(''1'', n)])
     (ls_trace (snd (run_inner filtering_agent None (\<lambda>i. calling_turn n) 1 content c)))"
  using removed_call_iteration [of n content c] by (auto simp: list_ex_iff)

section \<open>Automatic extension\<close>

definition tireless_agent :: agent where
  "tireless_agent = demo_agent\<lparr>ag_auto_extend := True\<rparr>"

definition alternating :: "nat \<Rightarrow> turn" where
  "alternating i = calling_turn (if even i then ''a'' else ''b'')"

lemma tireless_fields [simp]:
  "ag_max tireless_agent = Some 3" "ag_auto_extend tireless_agent" "\<not> ag_autonomous tireless_agent"
  "ag_response tireless_agent = Inr" "ag_output tireless_agent = Inr"
  "ag_estimate tireless_agent = (\<lambda>m. 0)"
  by (simp_all add: tireless_agent_def demo_agent_def)

lemma tireless_iteration:
  "fst (ls_signature s) \<noteq> call_fingerprint n \<Longrightarrow>
   \<exists>s'. iteration tireless_agent (calling_turn n) s = Go s' \<and> ls_signature s' = (call_fingerprint n, 1)"
  using calling_iteration [of tireless_agent n "[ToolUse ''1'' n (JObj [])]" "''''" s]
  by (cases "ls_limit s") auto

lemma tireless_loop:
  "fst (ls_signature s) \<noteq> call_fingerprint (if even (ls_index s) then ''a'' else ''b'') \<Longrightarrow>
   fst (run_loop tireless_agent alternating fuel s) = None"
proof (induction fuel arbitrary: s)
  case (Suc fuel)
  from tireless_iteration [OF Suc.prems] obtain s' where
    s': "iteration tireless_agent (alternating (ls_index s)) s = Go s'"
    "ls_signature s' = (call_fingerprint (if even (ls_index s) then ''a'' else ''b''), 1)"
    by (auto simp: alternating_def)
  have "fst (run_loop tireless_agent alternating fuel (s'\<lparr>ls_index := ls_index s + 1\<rparr>)) = None"
    using s'(2) call_fingerprints(1) by (intro Suc.IH) auto
  with s'(1) show ?case by simp
qed simp

text \<open>With the automatic extension and nobody denying it, the limit stops nothing: an agent that calls
  two tools in turn goes on for ever.\<close>

theorem automatic_extension_never_stops:
  "fst (run_inner tireless_agent (Some (Some 3)) alternating fuel content empty_conversation) = None"
proof -
  have "tireless_agent\<lparr>ag_max := Some 3\<rparr> = tireless_agent"
    by (simp add: tireless_agent_def demo_agent_def)
  then obtain s where s: "start_run tireless_agent (Some (Some 3)) content empty_conversation = (tireless_agent, s)"
    "ls_signature s = ('''', 0)"
    by (auto simp: start_run_def Let_def)
  then have "fst (ls_signature s) \<noteq> call_fingerprint (if even (ls_index s) then ''a'' else ''b'')"
    using call_fingerprints(3) [of "if even (ls_index s) then ''a'' else ''b''"] by simp
  then show ?thesis
    unfolding run_inner_def s(1) by (simp add: tireless_loop)
qed

end
