(* ===== verification/Compaction.thy ===== *)
theory Compaction
  imports Token_Estimate Steering
begin

text \<open>
  Compaction of a conversation: the shared primitives of
  \<open>packages/core/src/execution/compaction-core.ts\<close> (where the preserved window starts, elision of
  old tool payloads, the lossless and the content-aware digest, safe boundaries) and the three
  compactors built on them (\<open>compactor.ts\<close>, \<open>intelligent-compactor.ts\<close>,
  \<open>selective-compactor.ts\<close>). Every compactor ends with the repair of \<open>Messages\<close>.

  Regular expressions are arguments (a record of tests), as are the answers of the summarizing
  and the selecting model and the text of the evidence ledger. A message that an elision rewrites
  is a copy of the old one with new content, so it keeps the estimate of the old content.
\<close>

section \<open>The preserved window\<close>

definition has_text_content :: "message \<Rightarrow> bool" where
  "has_text_content m =
     (case m_content m of Text s \<Rightarrow> js_trim s \<noteq> ''''
      | Blocks bs \<Rightarrow> list_ex (\<lambda>b. case b of TextBlock s \<Rightarrow> js_trim s \<noteq> '''' | _ \<Rightarrow> False) bs)"

text \<open>The backward scan, over the messages before position \<open>i\<close>.\<close>

fun preserve_scan :: "message list \<Rightarrow> nat \<Rightarrow> nat \<Rightarrow> nat \<Rightarrow> nat \<Rightarrow> nat" where
  "preserve_scan ms k 0 pairs start = start"
| "preserve_scan ms k (Suc i) pairs start =
     (if pairs < k
      then if m_role (ms ! i) = User \<or> m_role (ms ! i) = Assistant
           then preserve_scan ms k i (pairs + 1) i
           else preserve_scan ms k i pairs start
      else start)"

definition has_matching_tool_pair :: "block list \<Rightarrow> block list \<Rightarrow> bool" where
  "has_matching_tool_pair results uses =
     (result_ids results \<noteq> [] \<and> list_ex (\<lambda>i. i \<in> set (result_ids results)) (use_ids uses))"

definition splits_pair :: "message \<Rightarrow> message \<Rightarrow> bool" where
  "splits_pair prev first =
     (m_role first = User \<and> m_role prev = Assistant \<and>
      (case (m_content first, m_content prev) of
         (Blocks rs, Blocks us) \<Rightarrow> has_matching_tool_pair rs us | _ \<Rightarrow> False))"

fun widen_start :: "message list \<Rightarrow> nat \<Rightarrow> nat" where
  "widen_start ms 0 = 0"
| "widen_start ms (Suc s) =
     (if Suc s < length ms \<and> splits_pair (ms ! s) (ms ! Suc s) then widen_start ms s else Suc s)"

definition find_preserve_start :: "message list \<Rightarrow> nat \<Rightarrow> nat" where
  "find_preserve_start ms k = widen_start ms (preserve_scan ms k (length ms) 0 (length ms))"

section \<open>Elision of old tool payloads\<close>

record elider =
  el_show :: shower
  el_paths :: "string \<Rightarrow> string list"
  el_is_error :: "string \<Rightarrow> bool"

text \<open>\<open>replace(/\\s+/g, ' ')\<close>.\<close>

fun collapse_spaces :: "bool \<Rightarrow> string \<Rightarrow> string" where
  "collapse_spaces inside [] = []"
| "collapse_spaces inside (c # s) =
     (if is_js_space c then (if inside then collapse_spaces True s else CHR '' '' # collapse_spaces True s)
      else c # collapse_spaces False s)"

definition one_line :: "string \<Rightarrow> string" where
  "one_line s = js_trim (collapse_spaces False s)"

definition summarize_input_value :: "elider \<Rightarrow> json \<Rightarrow> json" where
  "summarize_input_value el v =
     (case v of
        JStr s \<Rightarrow>
          let line = one_line s
          in JStr (if length line \<le> 160 then line
                   else take 120 line @ ''...('' @ show_nat (length line) @ '' chars)'')
      | JArr xs \<Rightarrow> JStr (''[array:'' @ show_nat (length xs) @ '']'')
      | JObj es \<Rightarrow>
          JStr (''[object:'' @ js_join '','' (take 8 (jm_keys es)) @ (if 8 < length es then '',...'' else '''') @ '']'')
      | JSet _ \<Rightarrow> JStr ''[object:]''
      | JFun _ \<Rightarrow> JStr (sh_string (el_show el) v)
      | _ \<Rightarrow> v)"

definition summarize_input :: "elider \<Rightarrow> string \<Rightarrow> json \<Rightarrow> nat \<Rightarrow> json" where
  "summarize_input el name v tokens =
     JObj [(''__elided_tool_input'',
              JStr (''~'' @ show_nat tokens @ '' tokens; original arguments are in the session log'')),
           (''tool'', JStr name),
           (''fields'', JObj (fold (\<lambda>(k, w) es. jm_set k (summarize_input_value el w) es) (js_entries v) []))]"

definition is_quote :: "char \<Rightarrow> bool" where
  "is_quote c = (of_char c \<in> {34, 39, 96 :: nat})"

definition is_path_end :: "char \<Rightarrow> bool" where
  "is_path_end c = (is_quote c \<or> of_char c \<in> {41, 44, 59, 58 :: nat})"

definition clean_path :: "string \<Rightarrow> string" where
  "clean_path s =
     (let t = map (\<lambda>c. if c = CHR 0x5C then CHR ''/'' else c) s
      in rev (dropWhile is_path_end (rev (dropWhile is_quote t))))"

fun gather_paths :: "string list \<Rightarrow> string list \<Rightarrow> string list" where
  "gather_paths [] out = out"
| "gather_paths (p # ps) out =
     (let c = clean_path p;
          out' = (if c \<noteq> '''' \<and> length c \<le> 220 then js_add c out else out)
      in if 5 \<le> length out' then out' else gather_paths ps out')"

text \<open>\<open>split(/\\r?\\n/)\<close>: a carriage return at the end of a part belongs to the separator.\<close>

definition drop_return :: "string \<Rightarrow> string" where
  "drop_return l = (if l \<noteq> [] \<and> last l = CHR 0x0D then butlast l else l)"

definition split_lines :: "string \<Rightarrow> string list" where
  "split_lines s = (let ps = js_split newline s in map drop_return (butlast ps) @ [last ps])"

fun first_error_line :: "(string \<Rightarrow> bool) \<Rightarrow> string list \<Rightarrow> string option" where
  "first_error_line is_error [] = None"
| "first_error_line is_error (l # ls) =
     (if is_error l \<and> one_line l \<noteq> '''' then Some (take 180 (one_line l)) else first_error_line is_error ls)"

definition summarize_result :: "elider \<Rightarrow> string \<Rightarrow> string option \<Rightarrow> nat \<Rightarrow> string" where
  "summarize_result el c name tokens =
     (let files = take 5 (gather_paths (el_paths el c) []);
          error = first_error_line (el_is_error el) (split_lines c)
      in ''['' @ js_join ''; ''
           ([''elided: ~'' @ show_nat tokens @ '' tokens''] @
            (case name of Some n \<Rightarrow> if n \<noteq> '''' then [''tool='' @ n] else [] | None \<Rightarrow> []) @
            (if files \<noteq> [] then [''files='' @ js_join '', '' files] else []) @
            (case error of Some e \<Rightarrow> [''error='' @ e] | None \<Rightarrow> [])) @ '']'')"

definition oversized :: "elider \<Rightarrow> nat \<Rightarrow> block \<Rightarrow> bool" where
  "oversized el threshold b =
     (case b of ToolResult i c n e \<Rightarrow> threshold \<le> estimate_tool_result_tokens c
      | ToolUse i n v \<Rightarrow> threshold \<le> estimate_tool_input_tokens (el_show el) v
      | _ \<Rightarrow> False)"

text \<open>The replacement of a block and the tokens it is said to save. The result block is built afresh,
  without the tool name.\<close>

definition elide_block :: "elider \<Rightarrow> nat \<Rightarrow> block \<Rightarrow> block \<times> nat" where
  "elide_block el threshold b =
     (case b of
        ToolUse i n v \<Rightarrow>
          let tokens = estimate_tool_input_tokens (el_show el) v;
              v' = summarize_input el n v tokens
          in if tokens < threshold then (b, 0)
             else (ToolUse i n v', tokens - estimate_tool_input_tokens (el_show el) v')
      | ToolResult i c n e \<Rightarrow>
          let tokens = estimate_tool_result_tokens c
          in if tokens < threshold then (b, 0)
             else (ToolResult i (summarize_result el c n tokens) None e, tokens)
      | _ \<Rightarrow> (b, 0))"

definition has_oversized :: "elider \<Rightarrow> nat \<Rightarrow> message \<Rightarrow> bool" where
  "has_oversized el threshold m =
     (case m_content m of Text s \<Rightarrow> False | Blocks bs \<Rightarrow> list_ex (oversized el threshold) bs)"

definition elide_message :: "elider \<Rightarrow> nat \<Rightarrow> message \<Rightarrow> message \<times> nat" where
  "elide_message el threshold m =
     (case m_content m of Text s \<Rightarrow> (m, 0)
      | Blocks bs \<Rightarrow>
          if has_oversized el threshold m
          then (m\<lparr>m_content := Blocks (map (fst \<circ> elide_block el threshold) bs)\<rparr>,
                sum_list (map (snd \<circ> elide_block el threshold) bs))
          else (m, 0))"

text \<open>The first position with an oversized block before the preserved window.\<close>

fun first_oversized :: "elider \<Rightarrow> nat \<Rightarrow> message list \<Rightarrow> nat option" where
  "first_oversized el threshold [] = None"
| "first_oversized el threshold (m # ms) =
     (if has_oversized el threshold m then Some 0 else map_option Suc (first_oversized el threshold ms))"

record elise_result =
  er_messages :: "message list"
  er_saved :: nat
  er_changed :: bool

definition elise_old_tool_results :: "elider \<Rightarrow> nat \<Rightarrow> nat \<Rightarrow> message list \<Rightarrow> elise_result" where
  "elise_old_tool_results el preserve_k threshold ms =
     (let start = find_preserve_start ms preserve_k
      in case first_oversized el threshold (take start ms) of
           None \<Rightarrow> \<lparr>er_messages = ms, er_saved = 0, er_changed = False\<rparr>
         | Some i \<Rightarrow>
             let done = map (elide_message el threshold) (drop i (take start ms))
             in \<lparr>er_messages = take i ms @ map fst done @ drop start ms,
                 er_saved = sum_list (map snd done), er_changed = True\<rparr>)"

section \<open>Digests\<close>

fun role_name :: "role \<Rightarrow> string" where
  "role_name User = ''user''"
| "role_name Assistant = ''assistant''"
| "role_name System = ''system''"

fun texts_of :: "block list \<Rightarrow> string list" where
  "texts_of [] = []"
| "texts_of (TextBlock s # bs) = s # texts_of bs"
| "texts_of (b # bs) = texts_of bs"

definition extract_text :: "message \<Rightarrow> string" where
  "extract_text m = (case m_content m of Text s \<Rightarrow> s | Blocks bs \<Rightarrow> js_join '' '' (texts_of bs))"

definition count_tool_blocks :: "message \<Rightarrow> nat" where
  "count_tool_blocks m = (case m_content m of Text s \<Rightarrow> 0 | Blocks bs \<Rightarrow> length (filter is_protocol bs))"

definition omitted_marker :: "nat \<Rightarrow> string" where
  "omitted_marker n =
     (if 0 < n then '' ['' @ show_nat n @ '' tool call(s) omitted '' @ long_dash @ '' see session log]'' else '''')"

definition digest_line :: "message \<Rightarrow> string option" where
  "digest_line m =
     (let t = extract_text m; omitted = count_tool_blocks m
      in if js_trim t = '''' \<and> omitted = 0 then None
         else Some (''['' @ role_name (m_role m) @ '']: '' @ t @ omitted_marker omitted))"

definition build_lossless_digest :: "message list \<Rightarrow> string" where
  "build_lossless_digest ms = js_join [newline] (List.map_filter digest_line ms)"


section \<open>Content-aware digest\<close>

record scorer =
  sc_failure :: "string \<Rightarrow> string option"
  sc_correction :: "string \<Rightarrow> bool"
  sc_error :: "string \<Rightarrow> bool"
  sc_security :: "string \<Rightarrow> bool"
  sc_architecture :: "string \<Rightarrow> bool"
  sc_boilerplate :: "string \<Rightarrow> bool"

definition has_large_tool_result :: "nat \<Rightarrow> message \<Rightarrow> bool" where
  "has_large_tool_result threshold m =
     (case m_content m of Text s \<Rightarrow> False
      | Blocks bs \<Rightarrow> list_ex (\<lambda>b. case b of ToolResult i c n e \<Rightarrow> c \<noteq> '''' \<and> threshold < length c | _ \<Rightarrow> False) bs)"

definition is_block_content :: "message \<Rightarrow> bool" where
  "is_block_content m = (case m_content m of Text s \<Rightarrow> False | Blocks bs \<Rightarrow> True)"

definition content_score :: "scorer \<Rightarrow> message \<Rightarrow> string \<Rightarrow> nat" where
  "content_score sc m t =
     (if m_role m = User \<and> sc_correction sc t then 5
      else if sc_error sc t then 5
      else if sc_security sc t then 5
      else if m_role m = Assistant \<and> sc_architecture sc t then 5
      else if has_large_tool_result 3000 m then 1
      else if m_role m = User \<and> \<not> has_tool_use (Some m) \<and> sc_boilerplate sc t then 1
      else 3)"

definition score_message ::
  "scorer \<Rightarrow> message \<Rightarrow> (string, nat) jsmap \<Rightarrow> nat \<times> (string, nat) jsmap" where
  "score_message sc m counts =
     (let t = to_lower (extract_text m)
      in if js_trim t = '''' \<and> (has_tool_use (Some m) \<or> is_block_content m) \<and>
            (has_tool_use (Some m) \<or> has_tool_result (Some m))
         then (0, counts)
         else
           case (if m_role m = User \<and> \<not> has_tool_use (Some m) then sc_failure sc t else None) of
             Some matched \<Rightarrow>
               let key = to_lower matched;
                   n = (case jm_get counts key of Some c \<Rightarrow> c | None \<Rightarrow> 0) + 1;
                   counts' = jm_set key n counts
               in (if 5 \<le> n then 0 else if 3 \<le> n then 1 else content_score sc m t, counts')
           | None \<Rightarrow> (content_score sc m t, counts))"

fun index_of_sub :: "string \<Rightarrow> string \<Rightarrow> nat option" where
  "index_of_sub p [] = (if p = [] then Some 0 else None)"
| "index_of_sub p (c # s) = (if prefix p (c # s) then Some 0 else map_option Suc (index_of_sub p s))"

definition first_sentence :: "string \<Rightarrow> string" where
  "first_sentence t =
     (let trimmed = js_trim t
      in if trimmed = '''' then ''''
         else
           let sentence = (case index_of_sub ''. '' trimmed of None \<Rightarrow> trimmed | Some d \<Rightarrow> take (d + 1) trimmed)
           in if 150 < length sentence then take 147 sentence @ ellipsis else sentence)"

definition one_line_summary :: "message \<Rightarrow> string \<Rightarrow> string" where
  "one_line_summary m t =
     (let trimmed = js_trim t
      in if trimmed = '''' then
           (case m_content m of
              Text s \<Rightarrow> ''[no text content]''
            | Blocks bs \<Rightarrow>
                let n = length (filter is_tool_result bs)
                in if 0 < n then ''['' @ show_nat n @ '' tool result(s) '' @ long_dash @ '' see session log]''
                   else ''[no text content]'')
         else
           let line = hd (js_split newline trimmed)
           in if 100 < length line then take 97 line @ ellipsis else line)"

definition is_pure_tool_io :: "message \<Rightarrow> bool" where
  "is_pure_tool_io m =
     (case m_content m of Text s \<Rightarrow> False | Blocks bs \<Rightarrow> bs \<noteq> [] \<and> list_all is_tool_result bs)"

definition smart_display :: "message \<Rightarrow> nat \<Rightarrow> string" where
  "smart_display m score =
     (let t = extract_text m
      in if score = 5 then js_trim t
         else if score = 1 then one_line_summary m t
         else first_sentence t)"

definition smart_line :: "message \<Rightarrow> nat \<Rightarrow> string option" where
  "smart_line m score =
     (let display = smart_display m score; n = count_tool_blocks m
      in if display = '''' \<and> n = 0 then None
         else Some (''['' @ role_name (m_role m) @ '']: '' @ display @
                (if 0 < n then '' ['' @ show_nat n @ '' tool call(s)]'' else '''')))"

text \<open>The lines and the number of messages counted as noise.\<close>

fun smart_lines ::
  "scorer \<Rightarrow> message list \<Rightarrow> (string, nat) jsmap \<Rightarrow> string list \<times> nat" where
  "smart_lines sc [] counts = ([], 0)"
| "smart_lines sc (m # ms) counts =
     (if is_pure_tool_io m then
        (case smart_lines sc ms counts of (ls, noise) \<Rightarrow> (ls, noise + 1))
      else
        (case score_message sc m counts of (score, counts') \<Rightarrow>
         case smart_lines sc ms counts' of (ls, noise) \<Rightarrow>
           if score = 0 then (ls, noise + 1)
           else (case smart_line m score of None \<Rightarrow> (ls, noise) | Some l \<Rightarrow> (l # ls, noise))))"

definition build_smart_digest :: "scorer \<Rightarrow> message list \<Rightarrow> string" where
  "build_smart_digest sc ms =
     (case smart_lines sc ms [] of (ls, noise) \<Rightarrow>
        js_join [newline] (ls @ (if 0 < noise
          then [''[system]: '' @ show_nat noise @
                '' low-importance turn(s) collapsed (repeated failures / pure tool I/O)''] else [])))"

section \<open>Boundaries\<close>

fun find_exchange_start :: "message list \<Rightarrow> nat \<Rightarrow> nat" where
  "find_exchange_start ms 0 = 0"
| "find_exchange_start ms (Suc i) =
     (case m_role (ms ! i) of
        Assistant \<Rightarrow> if has_tool_use (Some (ms ! i)) then find_exchange_start ms i else Suc i
      | User \<Rightarrow> i
      | System \<Rightarrow> find_exchange_start ms i)"

definition is_user_text :: "message \<Rightarrow> bool" where
  "is_user_text m = (m_role m = User \<and> has_text_content m)"

text \<open>The downward scan from \<open>to\<close> to \<open>from\<close>; positions past the end are skipped.\<close>

fun find_safe_boundary :: "message list \<Rightarrow> nat \<Rightarrow> nat \<Rightarrow> nat option" where
  "find_safe_boundary ms low 0 =
     (if low = 0 \<and> 0 < length ms \<and> is_user_text (ms ! 0) then Some (find_exchange_start ms 0) else None)"
| "find_safe_boundary ms low (Suc i) =
     (if Suc i < low then None
      else if Suc i < length ms \<and> is_user_text (ms ! Suc i) then Some (find_exchange_start ms (Suc i))
      else find_safe_boundary ms low i)"

text \<open>The upward scan for the next user message with text.\<close>

fun next_user_text :: "message list \<Rightarrow> nat option" where
  "next_user_text [] = None"
| "next_user_text (m # ms) = (if is_user_text m then Some 0 else map_option Suc (next_user_text ms))"

section \<open>What every compactor does\<close>

datatype phase = Elision | Summary | Selective

record compact_report =
  cr_before :: nat
  cr_after :: nat
  cr_full_before :: nat
  cr_full_after :: nat
  cr_reductions :: "(phase \<times> nat) list"
  cr_digest :: "string option"
  cr_evidence :: "string option"
  cr_repaired :: "repair_report option"

text \<open>The setting of a compaction: how values are printed and the tokens of the system prompt and the
  tool definitions.\<close>

record setting =
  st_elider :: elider
  st_overhead :: nat

abbreviation st_show :: "setting \<Rightarrow> shower" where
  "st_show st \<equiv> el_show (st_elider st)"

definition rewrite :: "setting \<Rightarrow> message list \<Rightarrow> 'v conversation \<Rightarrow> 'v conversation" where
  "rewrite st ms c = snd (replace_messages (compute_message_tokens (st_show st)) ms c)"

definition full_request :: "setting \<Rightarrow> message list \<Rightarrow> nat" where
  "full_request st ms =
     sum_list (map (message_tokens (request_message_tokens (st_show st))) ms) + st_overhead st"

definition elide_phase :: "setting \<Rightarrow> nat \<Rightarrow> nat \<Rightarrow> 'v conversation \<Rightarrow> nat \<times> 'v conversation" where
  "elide_phase st k threshold c =
     (let r = elise_old_tool_results (st_elider st) k threshold (cv_messages c)
      in (er_saved r, if er_changed r then rewrite st (er_messages r) c else c))"

definition repair_phase :: "setting \<Rightarrow> 'v conversation \<Rightarrow> repair_report option \<times> 'v conversation" where
  "repair_phase st c =
     (case repair_tool_use_adjacency (cv_messages c) of
        (out, r) \<Rightarrow> if rr_changed r then (Some r, rewrite st out c) else (None, c))"

definition reduction :: "phase \<Rightarrow> nat \<Rightarrow> (phase \<times> nat) list" where
  "reduction p saved = (if 0 < saved then [(p, saved)] else [])"

text \<open>Replacing a prefix by one system message.\<close>

definition digest_message :: "string \<Rightarrow> message" where
  "digest_message t = \<lparr>m_role = System, m_content = Text t, m_est = None\<rparr>"

definition collapse_prefix :: "setting \<Rightarrow> nat \<Rightarrow> string \<Rightarrow> 'v conversation \<Rightarrow> nat \<times> 'v conversation" where
  "collapse_prefix st boundary t c =
     (let removed = take boundary (cv_messages c); sh = st_show st
      in (estimate_message_tokens sh removed - estimate_message_tokens sh [digest_message t],
          rewrite st (digest_message t # drop boundary (cv_messages c)) c))"

definition finish_report ::
  "setting \<Rightarrow> (phase \<times> nat) list \<Rightarrow> string option \<Rightarrow> string option \<Rightarrow>
   'v conversation \<Rightarrow> 'v conversation \<Rightarrow> compact_report \<times> 'v conversation" where
  "finish_report st reductions digest evidence c0 c =
     (case repair_phase st c of (fixed, c') \<Rightarrow>
        (\<lparr>cr_before = estimate_message_tokens (st_show st) (cv_messages c0),
          cr_after = estimate_message_tokens (st_show st) (cv_messages c'),
          cr_full_before = full_request st (cv_messages c0), cr_full_after = full_request st (cv_messages c'),
          cr_reductions = reductions, cr_digest = digest, cr_evidence = evidence, cr_repaired = fixed\<rparr>, c'))"


section \<open>The rule-based compactor\<close>

record hybrid =
  hy_preserve_k :: nat
  hy_threshold :: nat
  hy_smart :: bool
  hy_scorer :: scorer
  hy_evidence :: string
  hy_policy :: "(nat \<times> nat) option"

definition history_digest :: "hybrid \<Rightarrow> message list \<Rightarrow> string" where
  "history_digest h removed =
     (let d = (if hy_smart h then build_smart_digest (hy_scorer h) removed else build_lossless_digest removed)
      in if d \<noteq> '''' then d
         else show_nat (length removed) @
              '' earlier turns (no textual content; tool I/O omitted; see session log)'')"

definition full_digest :: "hybrid \<Rightarrow> message list \<Rightarrow> string" where
  "full_digest h removed =
     (if hy_evidence h \<noteq> ''''
      then ''[context_state]'' @ [newline] @ hy_evidence h @ [newline, newline] @
           ''[prior_history]'' @ [newline] @ history_digest h removed
      else history_digest h removed)"

text \<open>The boundary: the next user message with text at or after the cut target. No boundary without a
  positive cut target.\<close>

definition collapse_boundary :: "nat \<Rightarrow> message list \<Rightarrow> nat option" where
  "collapse_boundary k ms =
     (let cutoff = length ms - k * 2
      in if cutoff = 0 then None else map_option (\<lambda>j. cutoff + j) (next_user_text (drop cutoff ms)))"

definition collapse_ancient_turns ::
  "setting \<Rightarrow> hybrid \<Rightarrow> nat \<Rightarrow> 'v conversation \<Rightarrow>
   (nat \<times> string option \<times> string option) \<times> 'v conversation" where
  "collapse_ancient_turns st h k c =
     (case collapse_boundary k (cv_messages c) of
        None \<Rightarrow> ((0, None, None), c)
      | Some b \<Rightarrow>
          let digest = full_digest h (take b (cv_messages c))
          in (case collapse_prefix st b (''[prior_turns_digest: '' @ digest @ '']'') c of
                (saved, c') \<Rightarrow>
                  ((saved, Some digest, if hy_evidence h \<noteq> '''' then Some (hy_evidence h) else None), c')))"

definition hybrid_compact ::
  "setting \<Rightarrow> hybrid \<Rightarrow> bool \<Rightarrow> 'v conversation \<Rightarrow> compact_report \<times> 'v conversation" where
  "hybrid_compact st h aggressive c =
     (let k = (case hy_policy h of Some p \<Rightarrow> fst p | None \<Rightarrow> hy_preserve_k h);
          threshold = (case hy_policy h of Some p \<Rightarrow> snd p | None \<Rightarrow> hy_threshold h);
          (saved1, c1) = elide_phase st k threshold c;
          ((saved2, digest, evidence), c2) =
            (if aggressive then collapse_ancient_turns st h k c1 else ((0, None, None), c1))
      in finish_report st (reduction Elision saved1 @ reduction Summary saved2) digest evidence c c2)"

section \<open>The summarizing compactor\<close>

record intelligent =
  in_warn :: rat
  in_soft :: rat
  in_hard :: rat
  in_max_context :: nat
  in_preserve_k :: nat
  in_threshold :: nat
  in_answer :: "message list \<Rightarrow> block list option"

text \<open>The summarizer's answer, None when the call throws.\<close>

definition call_summarizer :: "intelligent \<Rightarrow> message list \<Rightarrow> string option" where
  "call_summarizer i ms =
     map_option (\<lambda>bs. let t = js_trim (js_join [newline] (texts_of bs))
                      in if t \<noteq> '''' then t else ''(empty summary)'') (in_answer i ms)"

definition summary_text :: "intelligent \<Rightarrow> message list \<Rightarrow> string" where
  "summary_text i ms =
     (case call_summarizer i ms of
        Some t \<Rightarrow> t
      | None \<Rightarrow> (let d = build_lossless_digest ms
                 in if d \<noteq> '''' then d
                    else show_nat (length ms) @ '' earlier turns (semantic content preserved)''))"

definition summarize_boundary :: "nat \<Rightarrow> message list \<Rightarrow> nat option" where
  "summarize_boundary k ms =
     (let cutoff = length ms - k * 2
      in if cutoff \<le> 2 then None
         else case find_safe_boundary ms 0 cutoff of
                None \<Rightarrow> None
              | Some b \<Rightarrow> if b \<le> 1 then None else Some b)"

definition summarize_ancient_turns ::
  "setting \<Rightarrow> intelligent \<Rightarrow> 'v conversation \<Rightarrow> (nat \<times> string option) \<times> 'v conversation" where
  "summarize_ancient_turns st i c =
     (case summarize_boundary (in_preserve_k i) (cv_messages c) of
        None \<Rightarrow> ((0, None), c)
      | Some b \<Rightarrow>
          let t = summary_text i (take b (cv_messages c))
          in (case collapse_prefix st b (''[prior_turns_summary: '' @ t @ '']'') c of
                (saved, c') \<Rightarrow> ((saved, Some t), c')))"

definition load_of :: "nat \<Rightarrow> nat \<Rightarrow> rat" where
  "load_of tokens max_context = of_nat tokens / of_nat max_context"

definition intelligent_compact ::
  "setting \<Rightarrow> intelligent \<Rightarrow> bool option \<Rightarrow> 'v conversation \<Rightarrow> compact_report \<times> 'v conversation" where
  "intelligent_compact st i wanted c =
     (let load = load_of (full_request st (cv_messages c)) (in_max_context i);
          aggressive = (if in_hard i \<le> load then True
                        else case wanted of Some a \<Rightarrow> a | None \<Rightarrow> in_soft i \<le> load);
          (saved1, c1) = elide_phase st (in_preserve_k i) (in_threshold i) c;
          ((phase2, digest), c2) =
            (if aggressive then
               (case summarize_ancient_turns st i c1 of
                  ((saved2, digest), c2) \<Rightarrow> ((reduction Summary saved2, digest), c2))
             else if in_warn i \<le> load then
               (case elide_phase st (in_preserve_k i) (in_threshold i) c1 of
                  (saved2, c2) \<Rightarrow> ((reduction Elision saved2, None), c2))
             else (([], None), c1))
      in finish_report st (reduction Elision saved1 @ phase2) digest None c c2)"

section \<open>The selecting compactor\<close>

record collapsed_range =
  rg_from :: int
  rg_to :: int
  rg_summary :: "string option"

record selective =
  se_warn :: rat
  se_soft :: rat
  se_hard :: rat
  se_max_context :: nat
  se_preserve_k :: nat
  se_threshold :: nat
  se_select :: "message list \<Rightarrow> int \<Rightarrow> collapsed_range list option"
  se_answer :: "message list \<Rightarrow> block list option"

definition summarize_range :: "selective \<Rightarrow> message list \<Rightarrow> string" where
  "summarize_range s ms =
     (case se_answer s ms of
        Some bs \<Rightarrow> (let t = js_trim (js_join [newline] (texts_of bs)) in if t \<noteq> '''' then t else ''(empty)'')
      | None \<Rightarrow> ''['' @ show_nat (length ms) @ '' earlier turns omitted]'')"

definition show_int :: "int \<Rightarrow> string" where
  "show_int n = (if n < 0 then ''-'' @ show_nat (nat (- n)) else show_nat (nat n))"

definition collapse_range :: "selective \<Rightarrow> collapsed_range \<Rightarrow> message list \<Rightarrow> message list" where
  "collapse_range s r ms =
     (if rg_from r < 0 \<or> int (length ms) \<le> rg_to r \<or> rg_to r < rg_from r then ms
      else
        let a = nat (rg_from r); b = nat (rg_to r);
            summary = (case rg_summary r of
                Some t \<Rightarrow> if t \<noteq> '''' then t else summarize_range s (drop a (take (b + 1) ms))
              | None \<Rightarrow> summarize_range s (drop a (take (b + 1) ms)))
        in take a ms @
           digest_message (''[prior_turns_'' @ show_int (rg_from r) @ ''-'' @ show_int (rg_to r) @ '': '' @ summary @ '']'') #
           drop (b + 1) ms)"

definition execute_plan ::
  "setting \<Rightarrow> selective \<Rightarrow> collapsed_range list \<Rightarrow> 'v conversation \<Rightarrow> 'v conversation" where
  "execute_plan st s plan c =
     (if cv_messages c = [] then c
      else rewrite st (fold (collapse_range s) (sort_key (\<lambda>r. - rg_from r) plan) (cv_messages c)) c)"

text \<open>The fallback when the selector throws: the cut may move up to five messages to the next user text.\<close>

definition trim_boundary :: "nat \<Rightarrow> message list \<Rightarrow> nat" where
  "trim_boundary cutoff ms =
     (case next_user_text (take 6 (drop cutoff ms)) of Some j \<Rightarrow> cutoff + j | None \<Rightarrow> cutoff)"

definition aggressive_recency_trim :: "setting \<Rightarrow> selective \<Rightarrow> 'v conversation \<Rightarrow> nat \<times> 'v conversation" where
  "aggressive_recency_trim st s c =
     (let cutoff = length (cv_messages c) - se_preserve_k s * 2
      in if cutoff = 0 then (0, c)
         else
           let b = trim_boundary cutoff (cv_messages c)
           in collapse_prefix st b
                (''['' @ show_nat b @ '' earlier turns trimmed '' @ long_dash @ '' see session log for details]'') c)"

definition run_selector :: "setting \<Rightarrow> selective \<Rightarrow> int \<Rightarrow> 'v conversation \<Rightarrow> nat \<times> 'v conversation" where
  "run_selector st s budget c =
     (case se_select s (cv_messages c) budget of
        None \<Rightarrow> aggressive_recency_trim st s c
      | Some plan \<Rightarrow>
          let c' = execute_plan st s plan c; sh = st_show st
          in (estimate_message_tokens sh (cv_messages c) - estimate_message_tokens sh (cv_messages c'), c'))"

definition target_budget :: "selective \<Rightarrow> rat \<Rightarrow> int" where
  "target_budget s load =
     (let m = of_nat (se_max_context s) :: rat
      in if se_hard s \<le> load then \<lfloor>m * (1 / 2)\<rfloor>
         else if se_soft s \<le> load then \<lfloor>m * (65 / 100)\<rfloor> else \<lfloor>m * (3 / 4)\<rfloor>)"

definition selective_compact ::
  "setting \<Rightarrow> selective \<Rightarrow> bool \<Rightarrow> 'v conversation \<Rightarrow> compact_report \<times> 'v conversation" where
  "selective_compact st s aggressive c =
     (let load = load_of (full_request st (cv_messages c)) (se_max_context s);
          (saved1, c1) = elide_phase st (se_preserve_k s) (se_threshold s) c;
          budget = target_budget s load
      in if \<not> (se_warn s \<le> load \<or> aggressive) then
           finish_report st (reduction Elision saved1) None None c c1
         else
           (case (if budget < int (estimate_message_tokens (st_show st) (cv_messages c1))
                  then run_selector st s budget c1 else (0, c1)) of
              (saved2, c2) \<Rightarrow>
                finish_report st (reduction Elision saved1 @ reduction Selective saved2) None None c c2))"

section \<open>Choosing a compactor\<close>

datatype compactor_kind = Hybrid_kind bool | Intelligent_kind | Selective_kind

text \<open>\<open>createStrategyCompactor\<close> and \<open>resolveInner\<close>: a model-backed strategy needs a provider at the time
  of the compaction, and falls back to the rules without one.\<close>

definition resolve_strategy :: "string option \<Rightarrow> bool \<Rightarrow> bool \<Rightarrow> bool \<Rightarrow> compactor_kind" where
  "resolve_strategy strategy llm_selector smart has_provider =
     (let requested = (case strategy of Some s \<Rightarrow> s | None \<Rightarrow> if llm_selector then ''selective'' else ''hybrid'')
      in if requested = ''intelligent'' \<or> requested = ''selective'' then
           (if \<not> has_provider then Hybrid_kind False
            else if requested = ''selective'' then Selective_kind else Intelligent_kind)
         else Hybrid_kind smart)"


section \<open>What adjacency depends on\<close>

definition protocol_of :: "message \<Rightarrow> role \<times> string list \<times> string list" where
  "protocol_of m =
     (m_role m, use_ids (content_blocks (Some m)), result_ids (content_blocks (Some m)))"

lemma adjacent_from_protocol:
  "map protocol_of ms = map protocol_of ns \<Longrightarrow> map_option protocol_of p = map_option protocol_of q \<Longrightarrow>
   adjacent_from p ms = adjacent_from q ns"
proof (induction ms arbitrary: ns p q)
  case Nil
  then show ?case by simp
next
  case (Cons m ms)
  then obtain n ns' where ns: "ns = n # ns'" and mn: "protocol_of m = protocol_of n"
    and rest: "map protocol_of ms = map protocol_of ns'" by auto
  have ids: "tool_use_ids x = tool_use_ids y" "tool_result_ids x = tool_result_ids y"
    if "map_option protocol_of x = map_option protocol_of y" for x y
    using that
    by (cases x; cases y; simp add: tool_use_ids_def tool_result_ids_def protocol_of_def del: content_blocks_simps)+
  have "map_option protocol_of (first_of ms) = map_option protocol_of (first_of ns')"
    using rest by (cases ms; cases ns') auto
  from ids(2) [OF this] ids(1) [OF Cons.prems(2)] mn
  have "results_asked p m = results_asked q n" "uses_answered m (first_of ms) = uses_answered n (first_of ns')"
    by (simp_all add: results_asked_def uses_answered_def protocol_of_def del: content_blocks_simps)
  with Cons.IH [OF rest, of "Some m" "Some n"] mn ns show ?case by simp
qed

lemma adjacent_protocol: "map protocol_of ms = map protocol_of ns \<Longrightarrow> adjacent ms = adjacent ns"
  unfolding adjacent_def by (rule adjacent_from_protocol) simp_all

lemma protocol_with_estimate [simp]: "protocol_of (with_estimate est m) = protocol_of m"
  by (simp add: protocol_of_def with_estimate_def)

lemma visible_with_estimate [simp]: "visible_of (with_estimate est m) = visible_of m"
  by (simp add: visible_of_def with_estimate_def)

lemma empty_with_estimate [simp]: "is_empty_message (with_estimate est m) = is_empty_message m"
  by (simp add: is_empty_message_def with_estimate_def)

lemma rewrite_messages: "cv_messages (rewrite st ms c) = map (with_estimate (compute_message_tokens (st_show st))) ms"
  by (simp add: rewrite_def replace_messages_def Let_def)

lemma adjacent_rewrite [simp]: "adjacent (cv_messages (rewrite st ms c)) = adjacent ms"
  unfolding rewrite_messages by (rule adjacent_protocol) simp

section \<open>Elision\<close>

text \<open>Elision as one map over the messages before the preserved window.\<close>

definition elided :: "elider \<Rightarrow> nat \<Rightarrow> nat \<Rightarrow> message list \<Rightarrow> message list" where
  "elided el threshold start ms = map (fst \<circ> elide_message el threshold) (take start ms) @ drop start ms"

lemma elide_message_small: "\<not> has_oversized el threshold m \<Longrightarrow> elide_message el threshold m = (m, 0)"
  by (simp add: elide_message_def split: content.split)

lemma first_oversized_None: "first_oversized el threshold ms = None \<Longrightarrow>
    map (fst \<circ> elide_message el threshold) ms = ms"
  by (induction ms) (auto simp: elide_message_small split: if_splits)

lemma first_oversized_Some: "first_oversized el threshold ms = Some i \<Longrightarrow>
    i < length ms \<and> map (fst \<circ> elide_message el threshold) (take i ms) = take i ms"
  by (induction ms arbitrary: i) (auto simp: elide_message_small split: if_splits)

lemma elise_messages:
  "er_messages (elise_old_tool_results el k threshold ms) =
     elided el threshold (find_preserve_start ms k) ms"
proof (cases "first_oversized el threshold (take (find_preserve_start ms k) ms)")
  case None
  from first_oversized_None [OF this] None show ?thesis
    by (simp add: elise_old_tool_results_def elided_def Let_def)
next
  case (Some i)
  let ?t = "take (find_preserve_start ms k) ms"
  from first_oversized_Some [OF Some]
  have i: "i < length ?t" "map (fst \<circ> elide_message el threshold) (take i ?t) = take i ?t" by auto
  then have "take i ?t = take i ms" by (simp add: min_absorb1)
  moreover have "map (fst \<circ> elide_message el threshold) ?t =
      map (fst \<circ> elide_message el threshold) (take i ?t) @ map (fst \<circ> elide_message el threshold) (drop i ?t)"
    by (metis append_take_drop_id map_append)
  ultimately show ?thesis using Some i
    by (simp add: elise_old_tool_results_def elided_def Let_def)
qed

lemma elide_block_ids:
  "use_ids (map (fst \<circ> elide_block el threshold) bs) = use_ids bs"
  "result_ids (map (fst \<circ> elide_block el threshold) bs) = result_ids bs"
  by (induction bs rule: use_ids.induct) (auto simp: elide_block_def Let_def)

lemma elide_block_visible:
  "filter (\<lambda>b. \<not> is_protocol b) (map (fst \<circ> elide_block el threshold) bs) = filter (\<lambda>b. \<not> is_protocol b) bs"
  by (induction bs) (auto simp: elide_block_def Let_def split: block.splits)

lemma elide_message_protocol [simp]: "protocol_of (fst (elide_message el threshold m)) = protocol_of m"
  by (simp add: protocol_of_def elide_message_def elide_block_ids split: content.split)

lemma elide_message_visible [simp]: "visible_of (fst (elide_message el threshold m)) = visible_of m"
  by (auto simp: visible_of_def elide_message_def elide_block_visible simp del: is_protocol.simps
      split: content.split)

lemma elide_message_est [simp]: "m_est (fst (elide_message el threshold m)) = m_est m"
  by (simp add: elide_message_def split: content.split)

lemma elided_same:
  assumes "\<And>m. f (fst (elide_message el threshold m)) = f m"
  shows "map f (elided el threshold s ms) = map f ms"
proof -
  have "map f (elided el threshold s ms) = map f (take s ms) @ map f (drop s ms)"
    by (simp add: elided_def assms)
  then show ?thesis by (metis append_take_drop_id map_append)
qed

lemma elided_protocol: "map protocol_of (elided el threshold s ms) = map protocol_of ms"
  by (rule elided_same) simp

lemma elided_length [simp]: "length (elided el threshold s ms) = length ms"
  by (simp add: elided_def min_def)

lemma transcript_append: "transcript (a @ b) = (fst (transcript a) @ fst (transcript b), snd (transcript a) @ snd (transcript b))"
  by (simp add: transcript_def)

lemma transcript_visible: "map visible_of ms = map visible_of ns \<Longrightarrow> transcript ms = transcript ns"
  by (simp add: transcript_def flip: map_map)

lemma elided_visible: "map visible_of (elided el threshold s ms) = map visible_of ms"
  by (rule elided_same) simp

lemma find_preserve_start_le: "find_preserve_start ms k \<le> length ms"
proof -
  have "preserve_scan ms k i p s \<le> length ms" if "i \<le> length ms" "s \<le> length ms" for i p s
    using that by (induction ms k i p s rule: preserve_scan.induct) auto
  moreover have "widen_start ms s \<le> s" for s
    by (induction ms s rule: widen_start.induct) auto
  ultimately show ?thesis unfolding find_preserve_start_def by (meson le_trans order_refl)
qed

text \<open>Elision only shrinks payloads: it changes no text, image or thinking block, no role and no
  protocol id, so a history is adjacent after it exactly when it was before, and the messages of the
  preserved window are untouched.\<close>

theorem elision_keeps_protocol:
  "let start = find_preserve_start ms k; out = er_messages (elise_old_tool_results el k threshold ms)
   in length out = length ms \<and> drop start out = drop start ms \<and> transcript out = transcript ms \<and>
      adjacent out = adjacent ms"
proof -
  let ?s = "find_preserve_start ms k"
  have "drop ?s (elided el threshold ?s ms) = drop ?s ms"
    using find_preserve_start_le [of ms k] by (simp add: elided_def min_def)
  then show ?thesis
    using transcript_visible [OF elided_visible] adjacent_protocol [OF elided_protocol]
    by (simp add: elise_messages Let_def)
qed


section \<open>The preserved window\<close>

definition user_results :: "message list \<Rightarrow> bool" where
  "user_results ms = list_all (\<lambda>m. m_role m = User \<or> result_ids (content_blocks (Some m)) = []) ms"

lemma widen_stop:
  "widen_start ms s0 = s \<Longrightarrow> s = 0 \<or> length ms \<le> s \<or> \<not> splits_pair (ms ! (s - 1)) (ms ! s)"
  by (induction ms s0 rule: widen_start.induct) (auto split: if_splits)

lemma adjacent_from_drop:
  "adjacent_from p ms \<Longrightarrow> s \<le> length ms \<Longrightarrow>
   adjacent_from (if s = 0 then p else Some (ms ! (s - 1))) (drop s ms)"
proof (induction s arbitrary: p ms)
  case (Suc s)
  then obtain m ms' where ms: "ms = m # ms'" by (cases ms) auto
  with Suc.prems Suc.IH [of "Some m" ms'] show ?case by (cases s) auto
qed simp

lemma asked_pair:
  assumes "results_asked (Some prev) m" "m_role m = User" "result_ids (content_blocks (Some m)) \<noteq> []"
  shows "splits_pair prev m"
proof -
  obtain rs where rs: "m_content m = Blocks rs" "result_ids rs \<noteq> []"
    using assms(3) by (cases "m_content m") auto
  then have sub: "set (result_ids rs) \<subseteq> tool_use_ids (Some prev)" "set (result_ids rs) \<noteq> {}"
    using assms(1) by (auto simp: results_asked_def)
  then have "tool_use_ids (Some prev) \<noteq> {}" by (metis subset_empty)
  then obtain us where us: "m_role prev = Assistant" "m_content prev = Blocks us"
    by (cases "m_content prev") (simp_all add: tool_use_ids_def split: if_splits)
  with sub have "set (result_ids rs) \<subseteq> set (use_ids us)" by (simp add: tool_use_ids_def)
  with sub(2) have "list_ex (\<lambda>i. i \<in> set (result_ids rs)) (use_ids us)"
    unfolding list_ex_iff by (metis subsetD equals0I)
  with rs us assms(2) show ?thesis by (simp add: splits_pair_def has_matching_tool_pair_def)
qed

text \<open>The preserved window never starts between a tool call and its results: of a conversation a
  provider accepts, the window alone is one a provider accepts, whatever the window size.\<close>

theorem preserved_window_self_contained:
  assumes "adjacent ms" "user_results ms"
  shows "adjacent (drop (find_preserve_start ms k) ms)"
proof (cases "drop (find_preserve_start ms k) ms")
  case Nil
  then show ?thesis by (simp add: adjacent_def)
next
  case (Cons m rest)
  let ?s = "find_preserve_start ms k"
  have s: "?s < length ms" "ms ! ?s = m" "m \<in> set ms"
  proof -
    show "?s < length ms" using Cons by (metis drop_all list.distinct(1) not_le)
    then show "ms ! ?s = m" "m \<in> set ms" using nth_via_drop [OF Cons] nth_mem by blast+
  qed
  have from_s: "adjacent_from (if ?s = 0 then None else Some (ms ! (?s - 1))) (m # rest)"
    using adjacent_from_drop [of None ms ?s] assms(1) s(1) Cons by (simp add: adjacent_def)
  have "results_asked None m"
  proof (cases "?s = 0")
    case True
    with from_s show ?thesis by simp
  next
    case False
    then have "\<not> splits_pair (ms ! (?s - 1)) m"
      using widen_stop [of ms _ ?s] s unfolding find_preserve_start_def by fastforce
    moreover have "m_role m = User \<or> result_ids (content_blocks (Some m)) = []"
      using assms(2) s(3) by (auto simp: user_results_def list_all_iff)
    moreover from from_s False have "results_asked (Some (ms ! (?s - 1))) m" by simp
    ultimately have "result_ids (content_blocks (Some m)) = []" using asked_pair by blast
    then show ?thesis unfolding results_asked_def by (simp only: list.set empty_subsetI)
  qed
  with from_s Cons show ?thesis by (simp add: adjacent_def)
qed

definition demo_exchange :: "message list" where
  "demo_exchange =
     [\<lparr>m_role = User, m_content = Text ''go'', m_est = Some 1\<rparr>,
      \<lparr>m_role = Assistant, m_content = Blocks [ToolUse ''t1'' ''read'' (JObj [])], m_est = Some 1\<rparr>,
      \<lparr>m_role = User, m_content = Blocks [ToolResult ''t1'' ''ok'' (Some ''read'') None, TextBlock ''note''],
       m_est = Some 2\<rparr>]"

lemma demo_exchange_start: "find_preserve_start demo_exchange 1 = 1"
  by code_simp

lemma demo_exchange_adjacent: "adjacent demo_exchange" "user_results demo_exchange"
  by code_simp+

theorem preserved_window_self_contained_witness:
  "find_preserve_start demo_exchange 1 = 1 \<and> adjacent (drop 1 demo_exchange)"
  using preserved_window_self_contained [OF demo_exchange_adjacent, of 1] demo_exchange_start by simp

section \<open>The lossless digest\<close>

definition message_texts :: "message \<Rightarrow> string list" where
  "message_texts m = (case m_content m of Text s \<Rightarrow> [s] | Blocks bs \<Rightarrow> texts_of bs)"

definition has_text :: "string \<Rightarrow> message list \<Rightarrow> bool" where
  "has_text t ms = list_ex (\<lambda>m. list_ex (sublist t) (message_texts m)) ms"

lemma js_trim_blank: "js_trim s = '''' \<longleftrightarrow> list_all is_js_space s"
proof -
  let ?d = "dropWhile is_js_space s"
  have "js_trim s = '''' \<longleftrightarrow> (\<forall>c\<in>set ?d. is_js_space c)"
    by (simp add: js_trim_def)
  also have "\<dots> \<longleftrightarrow> ?d = []"
    using hd_dropWhile [of is_js_space s] hd_in_set [of ?d] by (metis empty_iff empty_set)
  also have "\<dots> \<longleftrightarrow> list_all is_js_space s"
    by (simp add: list_all_iff)
  finally show ?thesis .
qed

lemma sublist_js_join: "t \<in> set ts \<Longrightarrow> sublist t (js_join sep ts)"
proof (induction sep ts rule: js_join.induct)
  case (3 sep s u ss)
  then show ?case by (auto simp: sublist_append)
qed auto


lemma sublist_blank: "sublist t s \<Longrightarrow> js_trim t \<noteq> '''' \<Longrightarrow> js_trim s \<noteq> ''''"
  by (auto simp: js_trim_blank list_all_iff dest: set_mono_sublist)

lemma texts_in_extract: "t \<in> set (message_texts m) \<Longrightarrow> sublist t (extract_text m)"
  by (auto simp: message_texts_def extract_text_def sublist_js_join split: content.splits)

lemma digest_keeps_text:
  assumes "m \<in> set ms" "t \<in> set (message_texts m)" "js_trim t \<noteq> ''''"
  shows "sublist t (build_lossless_digest ms)"
proof -
  have t: "sublist t (extract_text m)" by (rule texts_in_extract [OF assms(2)])
  define l where "l = (''['' @ role_name (m_role m) @ '']: '') @ extract_text m @ omitted_marker (count_tool_blocks m)"
  have l: "digest_line m = Some l" "sublist (extract_text m) l"
    unfolding l_def using sublist_blank [OF t assms(3)]
    by (simp add: digest_line_def Let_def) (rule sublist_appendI)
  have "l \<in> set (List.map_filter digest_line ms)"
    using assms(1) l(1) by (force simp: List.map_filter_def)
  then have "sublist l (build_lossless_digest ms)"
    unfolding build_lossless_digest_def by (rule sublist_js_join)
  with t l(2) show ?thesis by (meson sublist_order.order_trans)
qed

section \<open>Every compactor ends repaired\<close>

text \<open>What a provider accepts: adjacency, and no empty message.\<close>

definition settled :: "message list \<Rightarrow> bool" where
  "settled ms = (adjacent ms \<and> list_all (\<lambda>m. \<not> is_empty_message m) ms)"

locale compactor_contract =
  fixes compact :: "'v conversation \<Rightarrow> 'r \<times> 'v conversation"
  assumes ends_settled: "settled (cv_messages (snd (compact c)))"
begin

lemma compacted_adjacent: "adjacent (cv_messages (snd (compact c)))"
  using ends_settled [of c] by (simp add: settled_def)

lemma compacted_repaired:
  "assistant_uses (cv_messages (snd (compact c))) \<Longrightarrow>
   repair_tool_use_adjacency (cv_messages (snd (compact c))) = (cv_messages (snd (compact c)), no_repair)"
  using ends_settled [of c] repair_loop_noop [of "[]" "cv_messages (snd (compact c))" no_repair]
  by (simp add: settled_def adjacent_def repair_tool_use_adjacency_def no_repair_def)

end

lemma settled_rewrite [simp]: "settled (cv_messages (rewrite st ms c)) = settled ms"
  by (simp add: settled_def) (simp add: rewrite_messages list_all_iff)

lemma repair_phase_settled: "settled (cv_messages (snd (repair_phase st c)))"
proof -
  obtain out r where r: "repair_tool_use_adjacency (cv_messages c) = (out, r)" by fastforce
  with repair_facts [of "cv_messages c"]
  have "settled out" "rr_changed r \<or> out = cv_messages c"
    by (auto simp: settled_def split: if_splits)
  with r show ?thesis by (auto simp: repair_phase_def)
qed


lemma finish_settled: "settled (cv_messages (snd (finish_report st rs d e c0 c)))"
  using repair_phase_settled [of st c] by (auto simp: finish_report_def split: prod.split)

interpretation rules: compactor_contract "hybrid_compact st h aggressive"
  by unfold_locales (simp add: hybrid_compact_def Let_def finish_settled split: prod.split)

interpretation summaries: compactor_contract "intelligent_compact st i wanted"
  by unfold_locales (simp add: intelligent_compact_def Let_def finish_settled split: prod.split)

interpretation selections: compactor_contract "selective_compact st s aggressive"
  by unfold_locales (simp add: selective_compact_def Let_def finish_settled split: prod.split)

text \<open>C6. Whatever the strategy, the settings, the answers of the models and the conversation before,
  a compaction leaves a conversation a provider accepts, in which a further repair finds nothing
  to remove.\<close>

theorem compaction_settles:
  "settled (cv_messages (snd (hybrid_compact st h aggressive c))) \<and>
   settled (cv_messages (snd (intelligent_compact st i wanted c))) \<and>
   settled (cv_messages (snd (selective_compact st s aggressive c)))"
  by (simp add: rules.ends_settled summaries.ends_settled selections.ends_settled)

section \<open>No text is lost to the rules\<close>

lemma texts_visible:
  "js_trim t \<noteq> '''' \<Longrightarrow>
   (\<exists>m\<in>set ms. t \<in> set (message_texts m)) \<longleftrightarrow>
   t \<in> set (fst (transcript ms)) \<or> TextBlock t \<in> set (snd (transcript ms))"
proof -
  assume t: "js_trim t \<noteq> ''''"
  have "t \<in> set (texts_of bs) \<longleftrightarrow> TextBlock t \<in> set (filter (\<lambda>b. \<not> is_protocol b) bs)" for bs
    by (induction bs rule: texts_of.induct) auto
  with t have "t \<in> set (message_texts m) \<longleftrightarrow> t \<in> set (fst (visible_of m)) \<or> TextBlock t \<in> set (snd (visible_of m))" for m
    by (cases "m_content m") (auto simp: message_texts_def visible_of_def)
  then show ?thesis by (auto simp: transcript_def)
qed

lemma has_text_transcript:
  assumes "transcript ms = transcript ns" "js_trim t \<noteq> ''''"
  shows "has_text t ms \<Longrightarrow> has_text t ns"
proof -
  assume "has_text t ms"
  then obtain m u where u: "m \<in> set ms" "u \<in> set (message_texts m)" "sublist t u"
    by (auto simp: has_text_def list_ex_iff)
  with assms sublist_blank [OF u(3) assms(2)]
  obtain n where "n \<in> set ns" "u \<in> set (message_texts n)"
    by (metis texts_visible)
  with u(3) show "has_text t ns" by (auto simp: has_text_def list_ex_iff)
qed

lemma transcript_rewrite [simp]: "transcript (cv_messages (rewrite st ms c)) = transcript ms"
  unfolding rewrite_messages by (rule transcript_visible) simp

lemma elide_phase_transcript: "transcript (cv_messages (snd (elide_phase st k th c))) = transcript (cv_messages c)"
  using transcript_visible [OF elided_visible]
  by (simp add: elide_phase_def Let_def elise_messages)

lemma repair_phase_transcript: "transcript (cv_messages (snd (repair_phase st c))) = transcript (cv_messages c)"
proof -
  obtain out r where "repair_tool_use_adjacency (cv_messages c) = (out, r)" by fastforce
  with repair_facts [of "cv_messages c"] show ?thesis by (simp add: repair_phase_def)
qed

lemma has_text_append [simp]: "has_text t (a @ b) = (has_text t a \<or> has_text t b)"
  by (simp add: has_text_def)

lemma has_text_digest:
  assumes "has_text t ms" "js_trim t \<noteq> ''''"
  shows "sublist t (build_lossless_digest ms)"
proof -
  obtain m u where u: "m \<in> set ms" "u \<in> set (message_texts m)" "sublist t u"
    using assms(1) by (auto simp: has_text_def list_ex_iff)
  with digest_keeps_text [OF u(1,2)] sublist_blank [OF u(3) assms(2)] show ?thesis
    by (meson sublist_order.order_trans)
qed

lemma full_digest_keeps:
  assumes "has_text t ms" "js_trim t \<noteq> ''''" "\<not> hy_smart h"
  shows "sublist t (full_digest h ms)"
proof -
  have d: "sublist t (build_lossless_digest ms)" by (rule has_text_digest [OF assms(1,2)])
  then have "build_lossless_digest ms \<noteq> ''''" using assms(2) by (auto simp: js_trim_def)
  with d assms(3) have h: "sublist t (history_digest h ms)" by (simp add: history_digest_def Let_def)
  then have "sublist t ((''[context_state]'' @ [newline] @ hy_evidence h @ [newline, newline] @
      ''[prior_history]'' @ [newline]) @ history_digest h ms @ [])"
    by (meson sublist_appendI sublist_order.order_trans)
  with h show ?thesis by (simp add: full_digest_def)
qed

lemma collapse_keeps_text:
  assumes "has_text t (cv_messages c)" "js_trim t \<noteq> ''''" "\<not> hy_smart h"
  shows "has_text t (cv_messages (snd (collapse_ancient_turns st h k c)))"
proof (cases "collapse_boundary k (cv_messages c)")
  case None
  with assms(1) show ?thesis by (simp add: collapse_ancient_turns_def)
next
  case (Some b)
  let ?ms = "cv_messages c"
  let ?d = "digest_message (''[prior_turns_digest: '' @ full_digest h (take b ?ms) @ '']'')"
  have split: "has_text t (take b ?ms) \<or> has_text t (drop b ?ms)"
    using assms(1) has_text_append [of t "take b ?ms" "drop b ?ms"] by simp
  have "has_text t (?d # drop b ?ms)"
  proof (cases "has_text t (take b ?ms)")
    case True
    then have "sublist t (full_digest h (take b ?ms))" by (rule full_digest_keeps [OF _ assms(2,3)])
    then have "sublist t (''[prior_turns_digest: '' @ full_digest h (take b ?ms) @ '']'')"
      by (meson sublist_appendI sublist_order.order_trans)
    then show ?thesis by (simp add: has_text_def digest_message_def message_texts_def)
  next
    case False
    with split show ?thesis by (simp add: has_text_def)
  qed
  moreover have "cv_messages (snd (collapse_ancient_turns st h k c)) =
      cv_messages (rewrite st (?d # drop b ?ms) c)"
    by (simp add: collapse_ancient_turns_def Some Let_def collapse_prefix_def)
  ultimately show ?thesis
    using has_text_transcript [OF _ assms(2), of "?d # drop b ?ms"] by simp
qed

text \<open>C26. The rule-based compactor without its content-aware digest is lossless on text: when the
  digest is switched off, or the compaction is not an aggressive one, every text of the conversation
  that is not blank still occurs in some message afterwards, verbatim, whatever is elided, collapsed and
  repaired.\<close>

theorem hybrid_compaction_lossless:
  assumes "has_text t (cv_messages c)" "js_trim t \<noteq> ''''" "\<not> (hy_smart h \<and> aggressive)"
  shows "has_text t (cv_messages (snd (hybrid_compact st h aggressive c)))"
proof -
  define k th where "k = (case hy_policy h of Some p \<Rightarrow> fst p | None \<Rightarrow> hy_preserve_k h)"
    and "th = (case hy_policy h of Some p \<Rightarrow> snd p | None \<Rightarrow> hy_threshold h)"
  obtain s1 c1 where c1: "elide_phase st k th c = (s1, c1)" by fastforce
  have "has_text t (cv_messages c1)"
    using has_text_transcript [OF elide_phase_transcript [symmetric, of c st k th] assms(2) assms(1)] c1 by simp
  then have c2: "has_text t (cv_messages (snd (if aggressive then collapse_ancient_turns st h k c1
      else ((0, None, None), c1))))"
    using collapse_keeps_text [OF _ assms(2), of c1 h st k] assms(3) by auto
  obtain s2 d e c2 where p2: "(if aggressive then collapse_ancient_turns st h k c1
      else ((0, None, None), c1)) = ((s2, d, e), c2)" by (metis prod_cases3 surj_pair)
  have "has_text t (cv_messages (snd (repair_phase st c2)))"
    using has_text_transcript [OF repair_phase_transcript [symmetric, of c2 st] assms(2)] c2 p2 by simp
  with c1 p2 show ?thesis
    by (auto simp: hybrid_compact_def Let_def k_def [symmetric] th_def [symmetric] finish_report_def
        split: prod.split)
qed


section \<open>Evaluating the examples\<close>

definition plain_elider :: elider where
  "plain_elider =
     \<lparr>el_show = \<lparr>sh_json = (\<lambda>v. ''{}''), sh_string = (\<lambda>v. ''x''), sh_block = (\<lambda>b. ''{}'')\<rparr>,
      el_paths = (\<lambda>s. []), el_is_error = (\<lambda>s. False)\<rparr>"

definition plain_setting :: setting where
  "plain_setting = \<lparr>st_elider = plain_elider, st_overhead = 0\<rparr>"

definition plain_hybrid :: hybrid where
  "plain_hybrid =
     \<lparr>hy_preserve_k = 1, hy_threshold = 2000, hy_smart = False,
      hy_scorer = \<lparr>sc_failure = (\<lambda>s. None), sc_correction = (\<lambda>s. False), sc_error = (\<lambda>s. False),
        sc_security = (\<lambda>s. False), sc_architecture = (\<lambda>s. False), sc_boilerplate = (\<lambda>s. False)\<rparr>,
      hy_evidence = '''', hy_policy = None\<rparr>"

definition demo_conversation :: "message list \<Rightarrow> json conversation" where
  "demo_conversation ms = \<lparr>cv_messages = ms, cv_todos = [], cv_meta = [], cv_dirty = False\<rparr>"

lemma demo_conversation_messages [simp]: "cv_messages (demo_conversation ms) = ms"
  by (simp add: demo_conversation_def)

theorem hybrid_compaction_lossless_witness:
  "has_text ''note'' (cv_messages (snd (hybrid_compact plain_setting plain_hybrid True
     (demo_conversation demo_exchange))))"
proof -
  have "has_text ''note'' (cv_messages (demo_conversation demo_exchange))" by code_simp
  moreover have "js_trim ''note'' \<noteq> ''''" by code_simp
  moreover have "\<not> (hy_smart plain_hybrid \<and> True)" by (simp add: plain_hybrid_def)
  ultimately show ?thesis by (rule hybrid_compaction_lossless)
qed

section \<open>Findings\<close>

text \<open>An elision keeps the estimate of the message it rewrites, so the tokens of a conversation whose
  messages carry estimates, as all messages of a conversation do, are the same before and after.\<close>

definition estimated :: "message list \<Rightarrow> bool" where
  "estimated ms = list_all (\<lambda>e. case e of Some n \<Rightarrow> 0 < n | None \<Rightarrow> False) (map m_est ms)"

lemma message_tokens_estimated:
  "(case m_est m of Some n \<Rightarrow> 0 < n | None \<Rightarrow> False) \<Longrightarrow>
   message_tokens f m = (case m_est m of Some n \<Rightarrow> n | None \<Rightarrow> 0)"
  by (simp add: message_tokens_def split: option.splits)

lemma estimated_tokens:
  "estimated ms \<Longrightarrow> map (message_tokens f) ms = map (\<lambda>m. case m_est m of Some n \<Rightarrow> n | None \<Rightarrow> 0) ms"
  by (simp add: estimated_def list_all_iff message_tokens_estimated)

lemma elided_est: "map m_est (elided el threshold s ms) = map m_est ms"
  by (rule elided_same) simp

lemma estimates_from_est:
  assumes "map m_est ms = map m_est ns" "estimated ms"
  shows "map (message_tokens f) ns = map (message_tokens f) ms"
proof -
  have "estimated ns" using assms
    by (simp only: estimated_def)
  moreover have "map (\<lambda>m. case m_est m of Some n \<Rightarrow> n | None \<Rightarrow> 0) ns =
      map (\<lambda>m. case m_est m of Some n \<Rightarrow> n | None \<Rightarrow> 0) ms"
    using arg_cong [OF assms(1), of "map (\<lambda>e. case e of Some n \<Rightarrow> n | None \<Rightarrow> 0)"] by (simp add: comp_def)
  ultimately show ?thesis using estimated_tokens assms(2) by metis
qed

text \<open>Elision is invisible to the token counts that decide about compaction: on a conversation
  whose messages carry estimates it reports tokens saved, but the estimate of the rewritten
  conversation, and of the request made of it, is the old one.\<close>

theorem elision_unseen_by_estimates:
  assumes "estimated ms"
  shows "estimate_message_tokens sh (er_messages (elise_old_tool_results el k threshold ms)) =
      estimate_message_tokens sh ms \<and>
    full_request st (er_messages (elise_old_tool_results el k threshold ms)) = full_request st ms"
  unfolding elise_messages estimate_message_tokens_def full_request_def
  using estimates_from_est [OF elided_est [symmetric] assms] by metis

definition bulky_exchange :: "message list" where
  "bulky_exchange =
     [\<lparr>m_role = Assistant, m_content = Blocks [ToolUse ''t1'' ''read'' (JObj [])], m_est = Some 1\<rparr>,
      \<lparr>m_role = User, m_content = Blocks [ToolResult ''t1'' (replicate 7000 CHR ''x'') (Some ''read'') None],
       m_est = Some 2000\<rparr>,
      \<lparr>m_role = Assistant, m_content = Text ''done'', m_est = Some 2\<rparr>]"

lemma rough_tokens_replicate: "rough_tokens (replicate n c) = max 1 (nat \<lceil>of_nat n * (2 / 7 :: rat)\<rceil>)"
  by (simp add: rough_tokens_def)

theorem elision_unseen_by_estimates_witness:
  "let r = elise_old_tool_results plain_elider 1 2000 bulky_exchange
   in er_saved r = 2000 \<and>
      estimate_message_tokens (el_show plain_elider) (er_messages r) =
        estimate_message_tokens (el_show plain_elider) bulky_exchange"
proof -
  have start: "find_preserve_start bulky_exchange 1 = 2"
    by (simp add: find_preserve_start_def bulky_exchange_def splits_pair_def numeral_2_eq_2)
  have small: "rough_tokens ''{}'' = 1"
  proof -
    have "\<lceil>4 / 7 :: rat\<rceil> = 1" by (simp add: ceiling_eq_iff)
    then show ?thesis by (simp add: rough_tokens_def)
  qed
  have big: "rough_tokens (replicate 7000 CHR ''x'') = 2000"
    unfolding rough_tokens_replicate by simp
  have "er_saved (elise_old_tool_results plain_elider 1 2000 bulky_exchange) = 2000"
    unfolding elise_old_tool_results_def start
    by (simp add: bulky_exchange_def plain_elider_def has_oversized_def oversized_def
        estimate_tool_result_tokens_def estimate_tool_input_tokens_def small big elide_message_def
        elide_block_def Let_def numeral_2_eq_2)
  moreover have "estimated bulky_exchange" by (simp add: estimated_def bulky_exchange_def)
  ultimately show ?thesis using elision_unseen_by_estimates by (simp add: Let_def)
qed

text \<open>The elided result loses the tool name, which \<open>types/blocks.ts\<close> says a provider may need on every
  result.\<close>

lemma elision_drops_name:
  "if threshold \<le> estimate_tool_result_tokens c
   then \<exists>s. fst (elide_block el threshold (ToolResult i c (Some n) e)) = ToolResult i s None e else True"
  by (simp add: elide_block_def Let_def)


lemma all_results_rewrite [simp]: "all_results (cv_messages (rewrite st ms c)) = all_results ms"
proof -
  have "result_ids (content_blocks (Some (with_estimate f m))) = result_ids (content_blocks (Some m))" for f m
    by (simp add: with_estimate_def)
  then show ?thesis unfolding rewrite_messages all_results_def by (simp add: comp_def del: content_blocks_simps)
qed

lemma repair_phase_results:
  "all_results (cv_messages (snd (repair_phase st c))) = all_results (repaired None (cv_messages c))"
  using repair_is_repaired [of "cv_messages c"]
  by (auto simp: repair_phase_def repair_tool_use_adjacency_def split: prod.splits)

lemma hybrid_compact_aggressive:
  "hy_policy h = None \<Longrightarrow> elide_phase st (hy_preserve_k h) (hy_threshold h) c = (s, c1) \<Longrightarrow>
   collapse_ancient_turns st h (hy_preserve_k h) c1 = (r, c2) \<Longrightarrow>
   snd (hybrid_compact st h True c) = snd (repair_phase st c2)"
  by (cases r) (auto simp: hybrid_compact_def finish_report_def split: prod.split)

lemma plain_hybrid_settings:
  "hy_policy plain_hybrid = None" "hy_preserve_k plain_hybrid = 1" "hy_threshold plain_hybrid = 2000"
  by (simp_all add: plain_hybrid_def)

lemma demo_collapse:
  "collapse_boundary 1 demo_exchange = Some 2"
  "first_oversized plain_elider 2000 (take 1 demo_exchange) = None"
  by (code_simp, simp add: demo_exchange_def has_oversized_def)

text \<open>The collapse cuts at the next user message with text, and the message that carries the newest
  tool results is one as soon as a note has been folded into it. Then its tool call is collapsed,
  and the repair deletes the results, which the model has not seen: here the only result of the
  conversation is gone after an aggressive compaction, though nothing reports it but the repair.\<close>

theorem collapse_loses_newest_results:
  "all_results demo_exchange = [''t1''] \<and>
   all_results (cv_messages (snd (hybrid_compact plain_setting plain_hybrid True
     (demo_conversation demo_exchange)))) = []"
proof -
  have e: "elide_phase plain_setting 1 2000 (demo_conversation demo_exchange) = (0, demo_conversation demo_exchange)"
    using demo_collapse(2) demo_exchange_start
    by (simp add: elide_phase_def elise_old_tool_results_def plain_setting_def)
  obtain dg r where dg: "collapse_ancient_turns plain_setting plain_hybrid 1 (demo_conversation demo_exchange) =
      (r, rewrite plain_setting (digest_message dg # drop 2 demo_exchange) (demo_conversation demo_exchange))"
    using demo_collapse(1) by (simp add: collapse_ancient_turns_def Let_def collapse_prefix_def)
  have "all_results (repaired None (cv_messages (rewrite plain_setting (digest_message dg # drop 2 demo_exchange)
      (demo_conversation demo_exchange)))) = []"
    by (simp add: rewrite_messages demo_exchange_def digest_message_def with_estimate_def Let_def
        cleaned_def map_content_def orphan_use_def orphan_result_def all_results_def tool_use_ids_def
        is_empty_message_def)
  then have "all_results (cv_messages (snd (hybrid_compact plain_setting plain_hybrid True
      (demo_conversation demo_exchange)))) = []"
    using hybrid_compact_aggressive [of plain_hybrid plain_setting "demo_conversation demo_exchange"] e dg
    by (simp add: plain_hybrid_settings repair_phase_results)
  then show ?thesis by (simp add: all_results_def demo_exchange_def)
qed


section \<open>The content-aware digest\<close>

text \<open>What \<open>content_score\<close> calls critical.\<close>

definition is_critical :: "scorer \<Rightarrow> message \<Rightarrow> bool" where
  "is_critical sc m =
     (let t = to_lower (extract_text m)
      in m_role m = User \<and> sc_correction sc t \<or> sc_error sc t \<or> sc_security sc t \<or>
         m_role m = Assistant \<and> sc_architecture sc t)"

lemma lower_space: "is_js_space (lower_char c) \<longleftrightarrow> is_js_space c"
proof (cases "lower_char c = c")
  case False
  then have c: "(65 \<le> (of_char c :: nat) \<and> (of_char c :: nat) \<le> 90) \<or>
      (192 \<le> (of_char c :: nat) \<and> (of_char c :: nat) \<le> 222)"
    by (auto simp: lower_char_def Let_def split: if_splits)
  then have "lower_char c = c \<or> of_char (lower_char c) = (of_char c + 32 :: nat)"
    by (auto simp: lower_char_def Let_def)
  with False c show ?thesis by (auto simp: is_js_space_def)
qed simp

lemma blank_lower: "js_trim (to_lower s) = '''' \<longleftrightarrow> js_trim s = ''''"
  by (simp add: js_trim_blank to_lower_def list_all_iff lower_space)

lemma critical_score:
  assumes "is_critical sc m" "js_trim (extract_text m) \<noteq> ''''" "sc_failure sc (to_lower (extract_text m)) = None"
  shows "score_message sc m counts = (5, counts)"
  using assms by (auto simp: score_message_def Let_def blank_lower is_critical_def content_score_def)

lemma pure_io_no_text: "is_pure_tool_io m \<Longrightarrow> extract_text m = ''''"
proof -
  have "list_all is_tool_result bs \<Longrightarrow> texts_of bs = []" for bs
    by (induction bs rule: texts_of.induct) auto
  then show "is_pure_tool_io m \<Longrightarrow> extract_text m = ''''"
    by (auto simp: is_pure_tool_io_def extract_text_def split: content.splits)
qed

lemma critical_line:
  assumes "m \<in> set ms" "is_critical sc m" "js_trim (extract_text m) \<noteq> ''''"
    "sc_failure sc (to_lower (extract_text m)) = None"
  shows "\<exists>l\<in>set (fst (smart_lines sc ms counts)). sublist (js_trim (extract_text m)) l"
  using assms(1)
proof (induction ms arbitrary: counts)
  case (Cons n ms)
  show ?case
  proof (cases "m = n")
    case True
    define l where "l = (''['' @ role_name (m_role m) @ '']: '') @ js_trim (extract_text m) @
      (if 0 < count_tool_blocks m then '' ['' @ show_nat (count_tool_blocks m) @ '' tool call(s)]'' else '''')"
    have "\<not> is_pure_tool_io m" using pure_io_no_text [of m] assms(3) by (auto simp: js_trim_def)
    moreover have "smart_line m 5 = Some l"
      using assms(3) by (simp add: smart_line_def smart_display_def Let_def l_def)
    ultimately have "l \<in> set (fst (smart_lines sc (n # ms) counts))"
      using True critical_score [OF assms(2-4)] by (simp split: prod.split)
    moreover have "sublist (js_trim (extract_text m)) l" unfolding l_def by (rule sublist_appendI)
    ultimately show ?thesis by blast
  next
    case False
    with Cons.prems have "m \<in> set ms" by simp
    moreover obtain s c' where s: "score_message sc n counts = (s, c')" by fastforce
    moreover obtain ls k where l: "smart_lines sc ms counts = (ls, k)" by fastforce
    moreover obtain ls' k' where l': "smart_lines sc ms c' = (ls', k')" by fastforce
    ultimately show ?thesis using Cons.IH [of counts] Cons.IH [of c'] by (auto split: option.split)
  qed
qed simp

text \<open>The content-aware digest keeps what it judges critical word for word: a user's correction, an
  error, a security finding or an architecture decision of the assistant is in the digest with its
  whole trimmed text, unless the text matches the failure pattern.\<close>

theorem critical_text_verbatim:
  assumes "m \<in> set ms" "is_critical sc m" "js_trim (extract_text m) \<noteq> ''''"
    "sc_failure sc (to_lower (extract_text m)) = None"
  shows "sublist (js_trim (extract_text m)) (build_smart_digest sc ms)"
proof -
  obtain l where l: "l \<in> set (fst (smart_lines sc ms []))" "sublist (js_trim (extract_text m)) l"
    using critical_line [OF assms] by blast
  obtain ls n where s: "smart_lines sc ms [] = (ls, n)" by fastforce
  with l(1) have "l \<in> set (ls @ x)" for x by simp
  then have "sublist l (build_smart_digest sc ms)"
    unfolding build_smart_digest_def s prod.case by (rule sublist_js_join)
  with l(2) show ?thesis by (meson sublist_order.order_trans)
qed

definition demo_scorer :: scorer where
  "demo_scorer =
     \<lparr>sc_failure = (\<lambda>t. if str_includes t ''error'' then Some ''error'' else None),
      sc_correction = (\<lambda>t. str_includes t ''stop''), sc_error = (\<lambda>t. False), sc_security = (\<lambda>t. False),
      sc_architecture = (\<lambda>t. False), sc_boilerplate = (\<lambda>t. False)\<rparr>"

definition user_says :: "string \<Rightarrow> message" where
  "user_says t = \<lparr>m_role = User, m_content = Text t, m_est = None\<rparr>"

theorem critical_text_verbatim_witness:
  "sublist ''Stop it'' (build_smart_digest demo_scorer [user_says ''hello'', user_says '' Stop it''])"
proof -
  have "js_trim (extract_text (user_says '' Stop it'')) = ''Stop it''" by code_simp
  moreover have "is_critical demo_scorer (user_says '' Stop it'')" by code_simp
  moreover have "sc_failure demo_scorer (to_lower (extract_text (user_says '' Stop it''))) = None" by code_simp
  ultimately show ?thesis
    using critical_text_verbatim [of "user_says '' Stop it''" "[user_says ''hello'', user_says '' Stop it'']" demo_scorer]
    by simp
qed

text \<open>The counter of repeated failures is per matched word, not per tool and error: the fifth user
  message that mentions an error is noise, correction or not.\<close>

lemma fifth_mention_is_noise:
  "if m_role m = User \<and> \<not> has_tool_use (Some m) \<and> sc_failure sc (to_lower (extract_text m)) = Some w \<and>
      (case jm_get counts (to_lower w) of None \<Rightarrow> False | Some n \<Rightarrow> 4 \<le> n)
   then fst (score_message sc m counts) = 0 else True"
  by (auto simp: score_message_def Let_def split: option.splits)

lemma fifth_correction_lost:
  "\<not> sublist ''stop deleting'' (build_smart_digest demo_scorer
     [user_says ''error a'', user_says ''error b'', user_says ''error c'', user_says ''error d'',
      user_says ''stop deleting, the error is back''])"
proof -
  have "\<not> str_includes (build_smart_digest demo_scorer
     [user_says ''error a'', user_says ''error b'', user_says ''error c'', user_says ''error d'',
      user_says ''stop deleting, the error is back'']) ''stop deleting''"
    by code_simp
  then show ?thesis by (simp add: str_includes_iff)
qed

end
