(* ===== verification/Auto_Compaction.thy ===== *)
theory Auto_Compaction
  imports Compaction
begin

text \<open>
  The middleware that compacts a conversation before a request when the context window fills up,
  \<open>packages/core/src/execution/auto-compaction-middleware.ts\<close>.

  The state is the middleware's own fields. What it reads of the context is a \<open>view\<close>; the
  compactor is an argument that returns a report (\<open>Compaction\<close>) or an error. A call of the handler
  returns the new state, the events it emits and either the overflow error or normal return, after
  which the next middleware runs. Thresholds and loads are exact rationals.
\<close>

section \<open>State and view\<close>

datatype level = Warn_level | Soft_level | Hard_level

datatype aggressive_on = On_hard | On_soft | On_warn

datatype failure_mode = Throw_always | Throw_on_hard | Continue_on

record thresholds =
  th_warn :: rat
  th_soft :: rat
  th_hard :: rat

record middleware =
  mw_thresholds :: thresholds
  mw_max_context :: int
  mw_enabled :: bool
  mw_aggressive_on :: aggressive_on
  mw_failure_mode :: failure_mode
  mw_last_noop :: "(level \<times> int) option"
  mw_cached :: "int \<times> int \<times> int"

text \<open>\<open>vw_estimator\<close> is the result of a custom estimator, \<open>vw_fresh\<close> of the default one; the stash is the
  total the agent loop left on the context with the counts it was computed at; \<open>vw_log_error\<close> is the
  failure of the session log.\<close>

record view =
  vw_messages :: int
  vw_tools :: int
  vw_estimator :: "int option"
  vw_stash :: "int option"
  vw_stashed_at :: "(int \<times> int option) option"
  vw_calibration :: "rat \<times> bool"
  vw_fresh :: int
  vw_policy :: "(thresholds \<times> aggressive_on) option"
  vw_output_reserve :: "rat option"
  vw_safety_buffer :: "rat option"
  vw_repeated_reads :: nat
  vw_log_error :: "string option"

record budget =
  bg_max_context :: int
  bg_input :: int
  bg_available :: int
  bg_remaining :: int
  bg_output_reserve :: int
  bg_safety_reserve :: int
  bg_load :: rat
  bg_overflow :: int

datatype event =
    Fired level int rat budget compact_report bool
  | Failed level int rat budget bool
  | File_tracking_cleared

datatype outcome = Continues | Overflow_error string

definition level_rank :: "level \<Rightarrow> nat" where
  "level_rank l = (case l of Warn_level \<Rightarrow> 0 | Soft_level \<Rightarrow> 1 | Hard_level \<Rightarrow> 2)"

definition level_name :: "level \<Rightarrow> string" where
  "level_name l = (case l of Warn_level \<Rightarrow> ''warn'' | Soft_level \<Rightarrow> ''soft'' | Hard_level \<Rightarrow> ''hard'')"

section \<open>Reading the pressure\<close>

definition read_positive :: "rat option \<Rightarrow> int option" where
  "read_positive v = (case v of Some x \<Rightarrow> if 0 \<le> x then Some \<lfloor>x\<rfloor> else None | None \<Rightarrow> None)"

definition context_budget :: "view \<Rightarrow> int \<Rightarrow> int \<Rightarrow> budget" where
  "context_budget v input max_context =
     (let out = (case read_positive (vw_output_reserve v) of Some n \<Rightarrow> n
                 | None \<Rightarrow> \<lfloor>min 8192 (of_int max_context * (8 / 100) :: rat)\<rfloor>);
          safety = (case read_positive (vw_safety_buffer v) of Some n \<Rightarrow> n
                    | None \<Rightarrow> \<lfloor>min 4096 (of_int max_context * (2 / 100) :: rat)\<rfloor>);
          available = max 1 (max_context - out - safety);
          remaining = available - input
      in \<lparr>bg_max_context = max_context, bg_input = input, bg_available = available, bg_remaining = remaining,
          bg_output_reserve = out, bg_safety_reserve = safety, bg_load = of_int input / of_int available,
          bg_overflow = max 0 (- remaining)\<rparr>)"

definition adapt_thresholds :: "thresholds \<Rightarrow> nat \<Rightarrow> thresholds" where
  "adapt_thresholds t repeated =
     (if repeated < 3 then t
      else \<lparr>th_warn = max (25 / 100) (th_warn t - 8 / 100), th_soft = max (35 / 100) (th_soft t - 4 / 100),
            th_hard = th_hard t\<rparr>)"

definition pressure :: "thresholds \<Rightarrow> rat \<Rightarrow> level option" where
  "pressure t load =
     (if th_hard t \<le> load then Some Hard_level
      else if th_soft t \<le> load then Some Soft_level
      else if th_warn t \<le> load then Some Warn_level else None)"

definition try_stashed :: "view \<Rightarrow> int option" where
  "try_stashed v =
     (case vw_stash v of
        None \<Rightarrow> None
      | Some s \<Rightarrow>
          if s \<le> 0 then None
          else case vw_stashed_at v of
                 None \<Rightarrow> None
               | Some (n, tools) \<Rightarrow>
                   if n \<noteq> vw_messages v then None
                   else case tools of
                          Some k \<Rightarrow> if k \<noteq> vw_tools v then None else Some s
                        | None \<Rightarrow> Some s)"

text \<open>The tokens and the cache they leave behind; a custom estimator is never cached.\<close>

definition read_tokens :: "middleware \<Rightarrow> view \<Rightarrow> int \<times> middleware" where
  "read_tokens m v =
     (case vw_estimator v of
        Some t \<Rightarrow> (t, m)
      | None \<Rightarrow>
          (case mw_cached m of (tokens, msgs, tools) \<Rightarrow>
             if vw_messages v = msgs \<and> vw_tools v = tools \<and> 0 \<le> tokens then (tokens, m)
             else
               let t = (case try_stashed v of
                          Some s \<Rightarrow> if snd (vw_calibration v)
                                    then js_round (of_int s * clamp_ratio (fst (vw_calibration v))) else s
                        | None \<Rightarrow> vw_fresh v)
               in (t, m\<lparr>mw_cached := (t, vw_messages v, vw_tools v)\<rparr>)))"

section \<open>The handler\<close>

definition noop_retry_delta :: int where
  "noop_retry_delta = 2000"

definition should_skip :: "middleware \<Rightarrow> level \<Rightarrow> int \<Rightarrow> bool" where
  "should_skip m l tokens =
     (case mw_last_noop m of
        None \<Rightarrow> False
      | Some (l0, t0) \<Rightarrow> \<not> level_rank l0 < level_rank l \<and> tokens - t0 < noop_retry_delta)"

definition record_attempt :: "level \<Rightarrow> int \<Rightarrow> compact_report \<Rightarrow> middleware \<Rightarrow> middleware" where
  "record_attempt l tokens r m =
     (if cr_full_after r < cr_full_before r \<or> cr_repaired r \<noteq> None then m\<lparr>mw_last_noop := None\<rparr>
      else m\<lparr>mw_last_noop := Some (l, tokens)\<rparr>)"

definition is_fatal :: "middleware \<Rightarrow> level \<Rightarrow> bool" where
  "is_fatal m l = (mw_failure_mode m = Throw_always \<or> mw_failure_mode m = Throw_on_hard \<and> l = Hard_level)"

definition after_load :: "middleware \<Rightarrow> compact_report \<Rightarrow> rat" where
  "after_load m r =
     (if 0 < mw_max_context m then of_nat (cr_full_after r) / of_int (mw_max_context m) else 0)"

text \<open>The catch block.\<close>

definition compaction_failed :: "middleware \<Rightarrow> level \<Rightarrow> int \<Rightarrow> rat \<Rightarrow> budget \<Rightarrow> event list \<times> outcome" where
  "compaction_failed m l tokens load b =
     ([Failed l tokens load b (is_fatal m l)],
      if is_fatal m l then Overflow_error (''Auto-compaction failed at '' @ level_name l @ '' threshold'')
      else Continues)"

definition compact_now ::
  "(bool \<Rightarrow> string + compact_report) \<Rightarrow> view \<Rightarrow> bool \<Rightarrow> level \<Rightarrow> int \<Rightarrow> rat \<Rightarrow> rat \<Rightarrow> budget \<Rightarrow>
   middleware \<Rightarrow> middleware \<times> event list \<times> outcome" where
  "compact_now compactor v aggressive l tokens load hard b m =
     (case compactor aggressive of
        Inl err \<Rightarrow> (m, compaction_failed m l tokens load b)
      | Inr r \<Rightarrow>
          let m1 = record_attempt l tokens r m; fired = Fired l tokens load b r aggressive
          in case vw_log_error v of
               Some err \<Rightarrow>
                 (case compaction_failed m1 l tokens load b of (es, out) \<Rightarrow> (m1, fired # es, out))
             | None \<Rightarrow>
                 let still_hard = (hard \<le> after_load m r);
                     fatal = (still_hard \<and> is_fatal m l)
                 in (m1,
                     [fired, File_tracking_cleared] @
                     (if still_hard
                      then [Failed l (int (cr_full_after r)) (after_load m r)
                              (context_budget v (int (cr_full_after r)) (mw_max_context m)) fatal] else []),
                     if fatal then Overflow_error ''Auto-compaction did not reduce context below hard threshold''
                     else Continues))"

definition wants_aggressive :: "aggressive_on \<Rightarrow> level \<Rightarrow> bool" where
  "wants_aggressive a l =
     (case l of Hard_level \<Rightarrow> True | Soft_level \<Rightarrow> a \<noteq> On_hard | Warn_level \<Rightarrow> a = On_warn)"

definition effective_thresholds :: "middleware \<Rightarrow> view \<Rightarrow> thresholds" where
  "effective_thresholds m v =
     adapt_thresholds (case vw_policy v of Some p \<Rightarrow> fst p | None \<Rightarrow> mw_thresholds m) (vw_repeated_reads v)"

definition handler ::
  "(bool \<Rightarrow> string + compact_report) \<Rightarrow> view \<Rightarrow> middleware \<Rightarrow> middleware \<times> event list \<times> outcome" where
  "handler compactor v m =
     (if \<not> mw_enabled m then (m, [], Continues)
      else
        let (tokens, m1) = read_tokens m v;
            b = context_budget v tokens (mw_max_context m);
            t = effective_thresholds m v;
            a = (case vw_policy v of Some p \<Rightarrow> snd p | None \<Rightarrow> mw_aggressive_on m)
        in case pressure t (bg_load b) of
             None \<Rightarrow> (m1\<lparr>mw_last_noop := None\<rparr>, [], Continues)
           | Some l \<Rightarrow>
               if should_skip m1 l tokens then (m1, [], Continues)
               else compact_now compactor v (wants_aggressive a l) l tokens (bg_load b) (th_hard t) b m1)"

definition set_max_context :: "int \<Rightarrow> middleware \<Rightarrow> middleware" where
  "set_max_context n m = m\<lparr>mw_max_context := n\<rparr>"

definition set_enabled :: "bool \<Rightarrow> middleware \<Rightarrow> middleware" where
  "set_enabled b m = m\<lparr>mw_enabled := b\<rparr>"


section \<open>One call\<close>

lemma handler_estimated:
  assumes "mw_enabled m" "vw_estimator v = Some t"
  shows "handler compactor v m =
    (let b = context_budget v t (mw_max_context m); th = effective_thresholds m v;
         a = (case vw_policy v of Some p \<Rightarrow> snd p | None \<Rightarrow> mw_aggressive_on m)
     in case pressure th (bg_load b) of
          None \<Rightarrow> (m\<lparr>mw_last_noop := None\<rparr>, [], Continues)
        | Some l \<Rightarrow>
            if should_skip m l t then (m, [], Continues)
            else compact_now compactor v (wants_aggressive a l) l t (bg_load b) (th_hard th) b m)"
  using assms by (simp add: handler_def read_tokens_def Let_def)

text \<open>The level at which a call would compact.\<close>

definition level_seen :: "middleware \<Rightarrow> view \<Rightarrow> int \<Rightarrow> level option" where
  "level_seen m v t = pressure (effective_thresholds m v) (bg_load (context_budget v t (mw_max_context m)))"

fun is_failed :: "event \<Rightarrow> bool" where
  "is_failed (Failed l t x b fatal) = True"
| "is_failed e = False"

lemma read_tokens_keeps:
  "mw_last_noop (snd (read_tokens m v)) = mw_last_noop m"
  "mw_failure_mode (snd (read_tokens m v)) = mw_failure_mode m"
  "mw_max_context (snd (read_tokens m v)) = mw_max_context m"
  by (auto simp: read_tokens_def Let_def split: option.split prod.split)

text \<open>A compaction at the hard level.\<close>

lemma compact_now_hard:
  "case compact_now compactor v True Hard_level t load hard b m of (m', es, out) \<Rightarrow>
     (out = Continues \<longleftrightarrow> mw_failure_mode m = Continue_on \<or> \<not> list_ex is_failed es) \<and>
     (list_ex is_failed es \<longleftrightarrow>
        (case compactor True of
           Inl err \<Rightarrow> True
         | Inr r \<Rightarrow> vw_log_error v \<noteq> None \<or> hard \<le> after_load m r))"
proof -
  have "is_fatal m Hard_level \<longleftrightarrow> mw_failure_mode m \<noteq> Continue_on"
    by (cases "mw_failure_mode m") (auto simp: is_fatal_def)
  moreover have "is_fatal (record_attempt Hard_level t r m) l = is_fatal m l" for r l
    by (simp add: is_fatal_def record_attempt_def)
  ultimately show ?thesis
    by (auto simp: compact_now_def compaction_failed_def Let_def split: sum.split option.split)
qed

text \<open>C13. Hard pressure is never passed in silence. Let the middleware be on, the tokens it reads (from a
  custom estimator, its cache, the stash or the default estimate) be at or above the hard threshold
  of what the window leaves for the input after the two reserves, and the attempt not be skipped as a
  recent useless one. Then the handler reports a failure exactly when the compactor threw, the session
  log refused the event, or the compacted request is at or above the hard threshold of the whole
  window; and it returns normally exactly when nothing failed or the failure mode is to continue.\<close>

theorem hard_pressure_resolved_or_thrown:
  assumes "mw_enabled m" and "fst (read_tokens m v) = t" and "\<not> should_skip m Hard_level t"
    and "th_hard (effective_thresholds m v) \<le>
      of_int t / of_int (max 1 (mw_max_context m
        - bg_output_reserve (context_budget v t (mw_max_context m))
        - bg_safety_reserve (context_budget v t (mw_max_context m))))"
  shows "case handler compactor v m of (m', es, out) \<Rightarrow>
    (list_ex is_failed es \<longleftrightarrow>
       (case compactor True of
          Inl err \<Rightarrow> True
        | Inr r \<Rightarrow> vw_log_error v \<noteq> None \<or>
            th_hard (effective_thresholds m v) \<le>
              (if 0 < mw_max_context m then of_nat (cr_full_after r) / of_int (mw_max_context m) else 0))) \<and>
    (out = Continues \<longleftrightarrow> \<not> list_ex is_failed es \<or> mw_failure_mode m = Continue_on)"
proof -
  obtain m1 where m1: "read_tokens m v = (t, m1)" using assms(2) by (cases "read_tokens m v") auto
  let ?b = "context_budget v t (mw_max_context m)"
  let ?hard = "th_hard (effective_thresholds m v)"
  have "pressure (effective_thresholds m v) (bg_load ?b) = Some Hard_level"
    using assms(4) by (simp add: pressure_def context_budget_def Let_def)
  moreover have "\<not> should_skip m1 Hard_level t"
    using assms(3) read_tokens_keeps(1) [of m v] by (simp add: should_skip_def m1)
  ultimately have "handler compactor v m = compact_now compactor v True Hard_level t (bg_load ?b) ?hard ?b m1"
    using assms(1) by (simp add: handler_def m1 Let_def wants_aggressive_def)
  moreover have "mw_failure_mode m1 = mw_failure_mode m" "after_load m1 r = after_load m r" for r
    using read_tokens_keeps [of m v] by (simp_all add: m1 after_load_def)
  ultimately show ?thesis
    using compact_now_hard [where compactor = compactor and v = v and t = t and load = "bg_load ?b" and
        hard = ?hard and b = ?b and m = m1]
    unfolding after_load_def [of m, symmetric]
    by (cases "compactor True") (auto split: prod.splits)
qed

section \<open>Runs\<close>

fun run_handler ::
  "(bool \<Rightarrow> string + compact_report) \<Rightarrow> view list \<Rightarrow> middleware \<Rightarrow> event list \<times> middleware" where
  "run_handler compactor [] m = ([], m)"
| "run_handler compactor (v # vs) m =
     (case handler compactor v m of (m1, es, out) \<Rightarrow>
      case run_handler compactor vs m1 of (es', m2) \<Rightarrow> (es @ es', m2))"

fun is_fired :: "event \<Rightarrow> bool" where
  "is_fired (Fired l t x b r a) = True"
| "is_fired e = False"

definition attempts :: "event list \<Rightarrow> nat" where
  "attempts es = length (filter is_fired es)"

text \<open>A compactor that returns, but reduces and repairs nothing.\<close>

definition futile :: "(bool \<Rightarrow> string + compact_report) \<Rightarrow> bool" where
  "futile compactor =
     (\<forall>a. case compactor a of Inl e \<Rightarrow> False
          | Inr r \<Rightarrow> cr_full_before r \<le> cr_full_after r \<and> cr_repaired r = None)"

text \<open>A view under pressure whose tokens lie in the given range.\<close>

definition pressed :: "middleware \<Rightarrow> int \<Rightarrow> view \<Rightarrow> bool" where
  "pressed m low v =
     (case vw_estimator v of None \<Rightarrow> False
      | Some t \<Rightarrow> low \<le> t \<and> t < low + noop_retry_delta \<and> level_seen m v t \<noteq> None)"

definition same_setup :: "middleware \<Rightarrow> middleware \<Rightarrow> bool" where
  "same_setup m m' = (m' = m\<lparr>mw_last_noop := mw_last_noop m'\<rparr>)"

definition noop_height :: "middleware \<Rightarrow> nat" where
  "noop_height m = (case mw_last_noop m of None \<Rightarrow> 0 | Some (l, t) \<Rightarrow> level_rank l + 1)"

definition noop_above :: "int \<Rightarrow> middleware \<Rightarrow> bool" where
  "noop_above low m = (case mw_last_noop m of None \<Rightarrow> True | Some (l, t) \<Rightarrow> low \<le> t)"

lemma noop_height_le: "noop_height m \<le> 3"
  by (auto simp: noop_height_def level_rank_def split: option.split level.split)

lemma level_seen_noop [simp]: "level_seen (m\<lparr>mw_last_noop := x\<rparr>) v t = level_seen m v t"
  by (cases "vw_policy v") (simp_all add: level_seen_def effective_thresholds_def)

lemma futile_call:
  assumes "futile compactor" "pressed m low v" "mw_enabled m" "noop_above low m"
    "handler compactor v m = (m', es, out)"
  shows "(\<exists>x. m' = m\<lparr>mw_last_noop := x\<rparr>) \<and> noop_above low m' \<and> attempts es + noop_height m \<le> noop_height m'"
proof -
  obtain t l where t: "vw_estimator v = Some t" "low \<le> t" "t < low + noop_retry_delta"
    and l: "level_seen m v t = Some l"
    using assms(2) by (auto simp: pressed_def split: option.splits)
  let ?a = "wants_aggressive (case vw_policy v of Some p \<Rightarrow> snd p | None \<Rightarrow> mw_aggressive_on m) l"
  have "case compactor ?a of Inl e \<Rightarrow> False
      | Inr r \<Rightarrow> cr_full_before r \<le> cr_full_after r \<and> cr_repaired r = None"
    using assms(1) by (simp only: futile_def)
  then obtain r where r: "compactor ?a = Inr r" "\<not> (cr_full_after r < cr_full_before r \<or> cr_repaired r \<noteq> None)"
    by (cases "compactor ?a") (simp_all add: not_less)
  have call: "handler compactor v m =
      (if should_skip m l t then (m, [], Continues)
       else compact_now compactor v ?a l t (bg_load (context_budget v t (mw_max_context m)))
              (th_hard (effective_thresholds m v)) (context_budget v t (mw_max_context m)) m)"
    using l unfolding handler_estimated [OF assms(3) t(1)] level_seen_def by (simp add: Let_def)
  show ?thesis
  proof (cases "should_skip m l t")
    case True
    with call assms(4,5) have "m' = m" "es = []" by simp_all
    with assms(4) show ?thesis by (auto simp: attempts_def intro: exI [of _ "mw_last_noop m"])
  next
    case False
    have up: "noop_height m < level_rank l + 2"
      using False t assms(4) by (auto simp: should_skip_def noop_height_def noop_above_def split: option.splits)
    have h: "noop_height m \<le> level_rank l"
      using False t assms(4)
      by (auto simp: should_skip_def noop_height_def noop_above_def split: option.splits)
    have m': "m' = m\<lparr>mw_last_noop := Some (l, t)\<rparr>" and "attempts es = 1"
      using call assms(5) False r
      by (auto simp: compact_now_def record_attempt_def compaction_failed_def attempts_def Let_def
          split: option.splits)
    with h t show ?thesis by (auto simp: noop_height_def noop_above_def)
  qed
qed

lemma futile_run:
  "futile compactor \<Longrightarrow> list_all (pressed m low) vs \<Longrightarrow> mw_enabled m \<Longrightarrow> noop_above low m \<Longrightarrow>
   attempts (fst (run_handler compactor vs m)) + noop_height m \<le> 3"
proof (induction vs arbitrary: m)
  case Nil
  then show ?case using noop_height_le by (simp add: attempts_def)
next
  case (Cons v vs)
  obtain m1 es out where h: "handler compactor v m = (m1, es, out)" by (metis prod_cases3)
  with futile_call [OF Cons.prems(1) _ Cons.prems(3,4) h] Cons.prems(2)
  obtain x where m1: "m1 = m\<lparr>mw_last_noop := x\<rparr>" "noop_above low m1"
    "attempts es + noop_height m \<le> noop_height m1" by auto
  then have "pressed m1 low = pressed m low" by (auto simp: pressed_def fun_eq_iff split: option.split)
  with Cons.prems m1 have "attempts (fst (run_handler compactor vs m1)) + noop_height m1 \<le> 3"
    by (intro Cons.IH) auto
  moreover obtain es' m2 where "run_handler compactor vs m1 = (es', m2)" by fastforce
  ultimately show ?case using h m1(3) by (simp add: attempts_def)
qed

text \<open>A compactor that can do nothing is not called over and over: in a run of any length under
  pressure, in which the request stays within two thousand tokens of its smallest size, at most
  three compactions are attempted, one for each level the pressure rises to.\<close>

theorem futile_compactions_bounded:
  assumes "futile compactor" "mw_enabled m" "mw_last_noop m = None" "list_all (pressed m low) vs"
  shows "attempts (fst (run_handler compactor vs m)) \<le> 3"
  using futile_run [OF assms(1,4,2)] assms(3) by (simp add: noop_above_def)


section \<open>Examples\<close>

definition demo_middleware :: middleware where
  "demo_middleware =
     \<lparr>mw_thresholds = \<lparr>th_warn = 6 / 10, th_soft = 75 / 100, th_hard = 9 / 10\<rparr>, mw_max_context = 100000,
      mw_enabled = True, mw_aggressive_on = On_soft, mw_failure_mode = Throw_on_hard,
      mw_last_noop = None, mw_cached = (-1, -1, -1)\<rparr>"

definition demo_view :: "int \<Rightarrow> view" where
  "demo_view t =
     \<lparr>vw_messages = 3, vw_tools = 1, vw_estimator = Some t, vw_stash = None, vw_stashed_at = None,
      vw_calibration = (1, False), vw_fresh = t, vw_policy = None, vw_output_reserve = None,
      vw_safety_buffer = None, vw_repeated_reads = 0, vw_log_error = None\<rparr>"

definition report_of :: "nat \<Rightarrow> nat \<Rightarrow> compact_report" where
  "report_of before after =
     \<lparr>cr_before = before, cr_after = after, cr_full_before = before, cr_full_after = after,
      cr_reductions = [], cr_digest = None, cr_evidence = None, cr_repaired = None\<rparr>"

definition idle_compactor :: "nat \<Rightarrow> bool \<Rightarrow> string + compact_report" where
  "idle_compactor n a = Inr (report_of n n)"

lemma demo_fields [simp]:
  "mw_enabled demo_middleware" "mw_max_context demo_middleware = 100000"
  "mw_failure_mode demo_middleware = Throw_on_hard" "mw_last_noop demo_middleware = None"
  "vw_estimator (demo_view t) = Some t" "vw_log_error (demo_view t) = None"
  "cr_full_before (report_of b a) = b" "cr_full_after (report_of b a) = a" "cr_repaired (report_of b a) = None"
  by (simp_all add: demo_middleware_def demo_view_def report_of_def)

lemma demo_thresholds [simp]:
  "effective_thresholds demo_middleware (demo_view t) =
     \<lparr>th_warn = 6 / 10, th_soft = 75 / 100, th_hard = 9 / 10\<rparr>"
  by (simp add: effective_thresholds_def adapt_thresholds_def demo_view_def demo_middleware_def)

text \<open>Ninety thousand tokens of the hundred thousand are available for the input.\<close>

lemma demo_load: "bg_load (context_budget (demo_view t) n 100000) = of_int n / 90000"
  by (simp add: context_budget_def demo_view_def read_positive_def Let_def)

lemma demo_level:
  "level_seen demo_middleware (demo_view t) n =
     (if 81000 \<le> n then Some Hard_level else if 67500 \<le> n then Some Soft_level
      else if 54000 \<le> n then Some Warn_level else None)"
proof -
  have "(9 / 10 \<le> (of_int n :: rat) / 90000) = (81000 \<le> n)" "(75 / 100 \<le> (of_int n :: rat) / 90000) = (67500 \<le> n)"
    "(6 / 10 \<le> (of_int n :: rat) / 90000) = (54000 \<le> n)"
    using of_int_le_iff [of 81000 n, where ?'a = rat] of_int_le_iff [of 67500 n, where ?'a = rat]
      of_int_le_iff [of 54000 n, where ?'a = rat] by (simp_all add: field_simps)
  then show ?thesis by (simp add: level_seen_def pressure_def demo_load)
qed

lemma idle_futile: "futile (idle_compactor n)"
  by (simp add: futile_def idle_compactor_def)

theorem hard_pressure_resolved_or_thrown_witness:
  "case handler (idle_compactor 95000) (demo_view 95000) demo_middleware of (m', es, out) \<Rightarrow>
     out \<noteq> Continues \<and> list_ex is_failed es"
proof -
  have t: "fst (read_tokens demo_middleware (demo_view 95000)) = 95000"
    by (simp add: read_tokens_def)
  have skip: "\<not> should_skip demo_middleware Hard_level 95000"
    by (simp add: should_skip_def)
  have hard: "th_hard (effective_thresholds demo_middleware (demo_view 95000)) \<le>
      of_int 95000 / of_int (max 1 (mw_max_context demo_middleware
        - bg_output_reserve (context_budget (demo_view 95000) 95000 (mw_max_context demo_middleware))
        - bg_safety_reserve (context_budget (demo_view 95000) 95000 (mw_max_context demo_middleware))))"
    by (simp add: context_budget_def demo_view_def read_positive_def Let_def effective_thresholds_def
        adapt_thresholds_def demo_middleware_def)
  show ?thesis
    using hard_pressure_resolved_or_thrown [OF demo_fields(1) t skip hard, of "idle_compactor 95000"]
    by (auto simp: idle_compactor_def)
qed

theorem futile_compactions_bounded_witness:
  "attempts (fst (run_handler (idle_compactor 60000) (replicate 5 (demo_view 60000)) demo_middleware)) \<le> 3"
proof -
  have "pressed demo_middleware 60000 (demo_view 60000)"
    by (simp add: pressed_def demo_level noop_retry_delta_def)
  then have "list_all (pressed demo_middleware 60000) (replicate 5 (demo_view 60000))"
    by (simp add: list_all_iff)
  with idle_futile show ?thesis by (intro futile_compactions_bounded) simp_all
qed

section \<open>Findings\<close>

text \<open>The overflow error is thrown once only: the useless attempt is remembered before the error is
  thrown, so the next call with the same request skips the compaction and returns normally, and the
  oversized request is sent.\<close>

theorem second_overflow_passes:
  "let v = demo_view 95000; (m1, es1, out1) = handler (idle_compactor 95000) v demo_middleware
   in out1 = Overflow_error ''Auto-compaction did not reduce context below hard threshold'' \<and>
      handler (idle_compactor 95000) v m1 = (m1, [], Continues)"
proof -
  let ?m = "demo_middleware\<lparr>mw_last_noop := Some (Hard_level, 95000)\<rparr>"
  let ?v = "demo_view 95000"
  have hard: "level_seen demo_middleware ?v 95000 = Some Hard_level" by (simp add: demo_level)
  have stuck: "9 / 10 \<le> after_load demo_middleware (report_of 95000 95000)" by (simp add: after_load_def)
  have "\<exists>es. handler (idle_compactor 95000) ?v demo_middleware =
      (?m, es, Overflow_error ''Auto-compaction did not reduce context below hard threshold'')"
    using hard stuck unfolding level_seen_def handler_estimated [OF demo_fields(1) demo_fields(5)]
    by (simp add: Let_def should_skip_def compact_now_def idle_compactor_def record_attempt_def is_fatal_def)
  moreover have "level_seen ?m ?v 95000 = Some Hard_level" by (simp add: demo_level)
  then have "handler (idle_compactor 95000) ?v ?m = (?m, [], Continues)"
    unfolding level_seen_def by (subst handler_estimated [where t = 95000])
      (simp_all add: Let_def should_skip_def noop_retry_delta_def)
  ultimately show ?thesis by (auto simp: Let_def)
qed

text \<open>The pressure is measured against the part of the window left for the input, the result of a
  compaction against the whole window, so a compaction that reduces nothing can pass at the hard
  level.\<close>

lemma hard_level_passes_unreduced:
  "case handler (idle_compactor 85000) (demo_view 85000) demo_middleware of (m', es, out) \<Rightarrow>
     level_seen demo_middleware (demo_view 85000) 85000 = Some Hard_level \<and> out = Continues"
proof -
  have hard: "level_seen demo_middleware (demo_view 85000) 85000 = Some Hard_level" by (simp add: demo_level)
  moreover have "\<not> 9 / 10 \<le> after_load demo_middleware (report_of 85000 85000)" by (simp add: after_load_def)
  ultimately show ?thesis
    unfolding level_seen_def handler_estimated [OF demo_fields(1) demo_fields(5)]
    by (simp add: Let_def should_skip_def compact_now_def idle_compactor_def wants_aggressive_def)
qed

text \<open>Repeated reads are meant to lower the thresholds, but the floors raise a threshold that was
  configured below them.\<close>

lemma repeated_reads_raise_low_thresholds:
  "th_warn \<lparr>th_warn = 2 / 10, th_soft = 3 / 10, th_hard = 9 / 10\<rparr> <
     th_warn (adapt_thresholds \<lparr>th_warn = 2 / 10, th_soft = 3 / 10, th_hard = 9 / 10\<rparr> 3)"
  by (simp add: adapt_thresholds_def)

text \<open>Without a custom estimator the tokens are remembered by the number of messages and tools only: an
  elision changes neither, so the middleware goes on with the count from before it.\<close>

lemma elision_hidden_by_cache:
  "case read_tokens m v of (t, m') \<Rightarrow>
     if vw_estimator v = None \<and> 0 \<le> t
     then read_tokens m' (v\<lparr>vw_fresh := n, vw_stash := None\<rparr>) = (t, m') else True"
  by (auto simp: read_tokens_def Let_def split: option.splits prod.splits if_splits)

end
