(* ===== verification/Sse.thy ===== *)
theory Sse
  imports Js_String
begin

text \<open>
  Server-sent events, \<open>packages/providers/src/sse.ts\<close>: the incremental parser of a byte stream that
  arrives in chunks, and the transform that folds oversized data lines.

  A byte is a character of eight bits. Decoding a line as UTF-8 is an argument (\<open>dec\<close>). The generator
  yields messages as it goes; its result here is the messages yielded and the error that ended it,
  if one did.
\<close>

section \<open>Lines of a chunked stream\<close>

definition lf :: char where "lf = CHR 0x0A"
definition cr :: char where "cr = CHR 0x0D"

definition strip_cr :: "string \<Rightarrow> string" where
  "strip_cr l = (if l \<noteq> [] \<and> last l = cr then butlast l else l)"

text \<open>\<open>cur\<close> is the part of the current line that lies in this chunk: a carriage return is only seen
  there. The result is the complete lines and the new pending bytes.\<close>

fun scan_chunk :: "string \<Rightarrow> string \<Rightarrow> string \<Rightarrow> string list \<times> string" where
  "scan_chunk pending cur [] = ([], pending @ cur)"
| "scan_chunk pending cur (b # bs) =
     (if b = lf
      then (case scan_chunk [] [] bs of (ls, p) \<Rightarrow> ((pending @ strip_cr cur) # ls, p))
      else scan_chunk pending (cur @ [b]) bs)"

section \<open>The parser\<close>

record sse_message =
  sm_event :: string
  sm_data :: string

record parser =
  ps_pending :: string
  ps_event :: string
  ps_data :: "string list"

definition fresh_parser :: parser where
  "fresh_parser = \<lparr>ps_pending = [], ps_event = ''message'', ps_data = []\<rparr>"

definition max_buffer_bytes :: nat where
  "max_buffer_bytes = 256 * 1024"

definition flush :: "parser \<Rightarrow> sse_message list \<times> parser" where
  "flush s =
     (if ps_data s = [] \<and> ps_event s = ''message'' then ([], s)
      else ([\<lparr>sm_event = ps_event s, sm_data = js_join [lf] (ps_data s)\<rparr>],
            s\<lparr>ps_event := ''message'', ps_data := []\<rparr>))"

definition field_of :: "string \<Rightarrow> string \<times> string" where
  "field_of line =
     (case index_of_char CHR '':'' line of
        None \<Rightarrow> (line, '''')
      | Some i \<Rightarrow>
          let v = drop (i + 1) line
          in (take i line, if starts_with v '' '' then drop 1 v else v))"

definition process_line :: "string \<Rightarrow> parser \<Rightarrow> sse_message list \<times> parser" where
  "process_line line s =
     (if line = '''' then flush s
      else if starts_with line '':'' then ([], s)
      else case field_of line of (f, v) \<Rightarrow>
             if f = ''event'' then ([], s\<lparr>ps_event := (if v \<noteq> '''' then v else ''message'')\<rparr>)
             else if f = ''data'' then ([], s\<lparr>ps_data := ps_data s @ [v]\<rparr>)
             else ([], s))"

fun process_lines :: "(string \<Rightarrow> string) \<Rightarrow> string list \<Rightarrow> parser \<Rightarrow> sse_message list \<times> parser" where
  "process_lines dec [] s = ([], s)"
| "process_lines dec (l # ls) s =
     (case process_line (dec l) s of (ms, s1) \<Rightarrow>
      case process_lines dec ls s1 of (ms', s2) \<Rightarrow> (ms @ ms', s2))"

text \<open>A chunk, None when the pending bytes exceed the cap. The messages of the chunk are lost with the
  exception: the generator gets them only when \<open>consumeChunk\<close> returns.\<close>

definition consume_chunk ::
  "(string \<Rightarrow> string) \<Rightarrow> string \<Rightarrow> parser \<Rightarrow> (sse_message list \<times> parser) option" where
  "consume_chunk dec chunk s =
     (if chunk = [] then Some ([], s)
      else
        case scan_chunk (ps_pending s) [] chunk of (ls, p) \<Rightarrow>
        case process_lines dec ls s of (ms, s') \<Rightarrow>
          if max_buffer_bytes < length p then None else Some (ms, s'\<lparr>ps_pending := p\<rparr>))"

definition finish_stream :: "(string \<Rightarrow> string) \<Rightarrow> parser \<Rightarrow> sse_message list" where
  "finish_stream dec s =
     (case (if ps_pending s \<noteq> [] then process_line (dec (strip_cr (ps_pending s))) s else ([], s)) of
        (ms, s') \<Rightarrow> ms @ fst (flush s'))"

fun parse_from :: "(string \<Rightarrow> string) \<Rightarrow> string list \<Rightarrow> parser \<Rightarrow> sse_message list \<times> string option" where
  "parse_from dec [] s = (finish_stream dec s, None)"
| "parse_from dec (c # cs) s =
     (case consume_chunk dec c s of
        None \<Rightarrow> ([], Some ''SSE: pending line exceeds 262144 bytes'')
      | Some (ms, s') \<Rightarrow> (case parse_from dec cs s' of (ms', err) \<Rightarrow> (ms @ ms', err)))"

definition parse_sse :: "(string \<Rightarrow> string) \<Rightarrow> string list \<Rightarrow> sse_message list \<times> string option" where
  "parse_sse dec chunks = parse_from dec chunks fresh_parser"

section \<open>Scanning across chunk boundaries\<close>

lemma scan_shift: "d \<noteq> [] \<Longrightarrow> scan_chunk p (c @ d) bs = scan_chunk (p @ c) d bs"
proof (induction bs arbitrary: d)
  case (Cons b bs)
  then show ?case
    using Cons.IH [of "d @ [b]"]
    by (cases "b = lf") (auto simp: strip_cr_def butlast_append split: prod.split)
qed simp

text \<open>A boundary is clean unless it separates a carriage return from its line feed.\<close>

definition clean_boundary :: "string \<Rightarrow> string \<Rightarrow> bool" where
  "clean_boundary a b = (\<not> (a \<noteq> [] \<and> b \<noteq> [] \<and> last a = cr \<and> hd b = lf))"

lemma scan_clean: "clean_boundary c bs \<Longrightarrow> scan_chunk p c bs = scan_chunk (p @ c) [] bs"
proof (cases bs)
  case (Cons b bs')
  assume "clean_boundary c bs"
  with Cons show ?thesis
    using scan_shift [of "[b]" p c bs'] by (auto simp: clean_boundary_def strip_cr_def split: prod.split)
qed simp

lemma scan_append:
  "clean_boundary (c @ a) b \<Longrightarrow>
   scan_chunk p c (a @ b) =
     (case scan_chunk p c a of (l1, p1) \<Rightarrow> case scan_chunk p1 [] b of (l2, p2) \<Rightarrow> (l1 @ l2, p2))"
proof (induction a arbitrary: p c)
  case Nil
  with scan_clean [of c b p] show ?case by (simp split: prod.split)
next
  case (Cons x a)
  show ?case
  proof (cases "x = lf")
    case True
    have "clean_boundary ([] @ a) b"
      using Cons.prems True by (cases a) (auto simp: clean_boundary_def)
    from Cons.IH [OF this] True show ?thesis by (auto split: prod.split)
  next
    case False
    with Cons.IH [of "c @ [x]" p] Cons.prems show ?thesis by simp
  qed
qed

lemma scan_pending: "snd (scan_chunk p c bs) = (if lf \<in> set bs then last (js_split lf bs) else p @ c @ bs)"
proof (induction bs arbitrary: p c)
  case (Cons b bs)
  show ?case
  proof (cases "b = lf")
    case True
    have "js_split lf bs = [bs]" if "lf \<notin> set bs"
      using that by (induction bs) auto
    with True Cons.IH [of "[]" "[]"] show ?thesis by (auto split: prod.split)
  next
    case False
    obtain q qs where q: "js_split lf bs = q # qs" by (cases "js_split lf bs") auto
    have "qs \<noteq> []" if "lf \<in> set bs"
      using that q
    proof (induction bs arbitrary: q qs)
      case (Cons y ys)
      then show ?case by (cases "y = lf"; cases "js_split lf ys") auto
    qed simp
    with False Cons.IH [of p "c @ [b]"] q show ?thesis by auto
  qed
qed simp

lemma scan_pending_split: "lf \<notin> set p \<Longrightarrow> snd (scan_chunk p [] bs) = last (js_split lf (p @ bs))"
proof -
  assume p: "lf \<notin> set p"
  have "tl (js_split lf bs) \<noteq> []" if "lf \<in> set bs"
    using that
  proof (induction bs)
    case (Cons y ys)
    then show ?case by (cases "js_split lf ys") auto
  qed simp
  then show ?thesis
    unfolding scan_pending js_split_append js_split_single [OF p]
    using js_split_single [of lf bs] by (cases "js_split lf bs") auto
qed

text \<open>Without a boundary to hide a carriage return, scanning is splitting.\<close>

lemma scan_is_split:
  "scan_chunk p c bs = (case js_split lf bs of
     q # qs \<Rightarrow> if qs = [] then ([], p @ c @ q)
               else ((p @ strip_cr (c @ q)) # map strip_cr (butlast qs), last qs))"
proof (induction p c bs rule: scan_chunk.induct)
  case (2 p c b bs)
  obtain q qs where q: "js_split lf bs = q # qs" by (cases "js_split lf bs") auto
  with 2 show ?case by (cases "b = lf") auto
qed simp

section \<open>The reference parser\<close>

text \<open>The lines of the whole stream, split at line feeds, each without a final carriage return; the last
  one only if it is not empty.\<close>

definition stream_lines :: "string \<Rightarrow> string list" where
  "stream_lines bs =
     (let parts = js_split lf bs
      in map strip_cr (butlast parts) @ (if last parts \<noteq> [] then [strip_cr (last parts)] else []))"

definition reference_parse :: "(string \<Rightarrow> string) \<Rightarrow> string \<Rightarrow> sse_message list" where
  "reference_parse dec bs =
     (case process_lines dec (stream_lines bs) fresh_parser of (ms, s) \<Rightarrow> ms @ fst (flush s))"

fun clean_chunks :: "string list \<Rightarrow> bool" where
  "clean_chunks [] = True"
| "clean_chunks (c # cs) = (clean_boundary c (concat cs) \<and> clean_chunks cs)"

definition short_lines :: "string \<Rightarrow> bool" where
  "short_lines bs = list_all (\<lambda>l. length l \<le> max_buffer_bytes) (js_split lf bs)"

lemma process_line_pending:
  "process_line l (s\<lparr>ps_pending := p\<rparr>) = (case process_line l s of (ms, s') \<Rightarrow> (ms, s'\<lparr>ps_pending := p\<rparr>))"
  by (auto simp: process_line_def flush_def split: prod.split)

lemma process_lines_pending:
  "process_lines dec ls (s\<lparr>ps_pending := p\<rparr>) =
     (case process_lines dec ls s of (ms, s') \<Rightarrow> (ms, s'\<lparr>ps_pending := p\<rparr>))"
  by (induction ls arbitrary: s) (auto simp: process_line_pending split: prod.split)

lemma process_lines_append:
  "process_lines dec (ls @ ls') s =
     (case process_lines dec ls s of (ms, s1) \<Rightarrow>
      case process_lines dec ls' s1 of (ms', s2) \<Rightarrow> (ms @ ms', s2))"
  by (induction ls arbitrary: s) (auto split: prod.split)

definition finish_lines :: "(string \<Rightarrow> string) \<Rightarrow> string list \<times> string \<Rightarrow> parser \<Rightarrow> sse_message list" where
  "finish_lines dec lp s =
     (case process_lines dec (fst lp) s of
        (ms, s') \<Rightarrow> ms @ finish_stream dec (s'\<lparr>ps_pending := snd lp\<rparr>))"

lemma finish_lines_append:
  "finish_lines dec (ls @ ls', p) s =
     (case process_lines dec ls s of (ms, s1) \<Rightarrow> ms @ finish_lines dec (ls', p) (s1\<lparr>ps_pending := q\<rparr>))"
  by (auto simp: finish_lines_def process_lines_append process_lines_pending split: prod.split)

lemma parse_from_whole:
  assumes "lf \<notin> set (ps_pending s)" "clean_chunks cs" "short_lines (ps_pending s @ concat cs)"
  shows "parse_from dec cs s = (finish_lines dec (scan_chunk (ps_pending s) [] (concat cs)) s, None)"
  using assms
proof (induction cs arbitrary: s)
  case Nil
  then show ?case by (simp add: finish_lines_def)
next
  case (Cons c cs)
  obtain l1 p1 where sc: "scan_chunk (ps_pending s) [] c = (l1, p1)" by fastforce
  obtain l2 p2 where rest: "scan_chunk p1 [] (concat cs) = (l2, p2)" by fastforce
  obtain ms s1 where pl: "process_lines dec l1 s = (ms, s1)" by fastforce
  have whole: "scan_chunk (ps_pending s) [] (c @ concat cs) = (l1 @ l2, p2)"
    using Cons.prems(2) scan_append [of "[]" c "concat cs" "ps_pending s"] sc rest by simp
  have p1: "p1 = last (js_split lf (ps_pending s @ c))"
    using scan_pending_split [OF Cons.prems(1), of c] sc by simp
  have p1_lf: "lf \<notin> set p1" unfolding p1 by (rule js_split_parts [of _ lf "ps_pending s @ c"]) simp
  have split: "js_split lf (ps_pending s @ concat (c # cs)) =
      butlast (js_split lf (ps_pending s @ c)) @ (p1 @ hd (js_split lf (concat cs))) # tl (js_split lf (concat cs))"
    using js_split_append [of lf "ps_pending s @ c" "concat cs"] p1 by simp
  have "js_split lf (p1 @ concat cs) = (p1 @ hd (js_split lf (concat cs))) # tl (js_split lf (concat cs))"
    unfolding js_split_append js_split_single [OF p1_lf] by simp
  with split Cons.prems(3) have short: "short_lines (p1 @ concat cs)" "length p1 \<le> max_buffer_bytes"
    by (auto simp: short_lines_def)
  have chunk: "consume_chunk dec c s = Some (ms, s1\<lparr>ps_pending := p1\<rparr>)"
  proof (cases "c = []")
    case True
    with sc pl have "p1 = ps_pending s" "ms = []" "s1 = s" by auto
    with True show ?thesis by (simp add: consume_chunk_def)
  next
    case False
    with sc pl short(2) show ?thesis by (simp add: consume_chunk_def)
  qed
  have "parse_from dec cs (s1\<lparr>ps_pending := p1\<rparr>) =
      (finish_lines dec (scan_chunk p1 [] (concat cs)) (s1\<lparr>ps_pending := p1\<rparr>), None)"
    using Cons.IH [of "s1\<lparr>ps_pending := p1\<rparr>"] p1_lf Cons.prems(2) short(1) by simp
  with chunk rest show ?case
    by (simp add: whole finish_lines_append [of dec l1 l2 p2 s p1] pl)
qed

lemma finish_is_reference:
  "finish_lines dec (scan_chunk [] [] bs) fresh_parser = reference_parse dec bs"
proof -
  obtain q qs where q: "js_split lf bs = q # qs" by (cases "js_split lf bs") auto
  have pend: "fresh_parser\<lparr>ps_pending := p\<rparr> = fresh_parser\<lparr>ps_pending := p\<rparr>" for p ..
  have tail: "finish_stream dec (s\<lparr>ps_pending := p\<rparr>) =
      (case process_lines dec (if p \<noteq> [] then [strip_cr p] else []) s of (ms, s') \<Rightarrow> ms @ fst (flush s'))" for p s
    by (auto simp: finish_stream_def process_line_pending flush_def split: prod.split)
  show ?thesis
    unfolding scan_is_split q
    by (cases "qs = []")
      (auto simp: finish_lines_def tail reference_parse_def stream_lines_def q process_lines_append Let_def
        split: prod.split)
qed

lemma chunks_parse:
  assumes "clean_chunks cs" "short_lines (concat cs)"
  shows "parse_sse dec cs = (reference_parse dec (concat cs), None)"
  using parse_from_whole [of fresh_parser cs dec] assms finish_is_reference [of dec "concat cs"]
  by (simp add: parse_sse_def fresh_parser_def)

text \<open>C17. The chunks in which a stream arrives do not matter: whenever no chunk ends between the two
  characters of a line end and no line exceeds the cap, the messages are those of the reference
  parser on the whole stream, and the parser does not fail.\<close>

theorem chunking_irrelevant:
  assumes "clean_chunks cs" "short_lines (concat cs)"
  shows "parse_sse dec cs = (reference_parse dec (concat cs), None)"
  using assms by (rule chunks_parse)

definition id_decoder :: "string \<Rightarrow> string" where
  "id_decoder l = l"

definition demo_stream :: "string list" where
  "demo_stream = [''da'', ''ta: a'' @ [cr, lf] @ ''data:b'' @ [lf], [cr, lf]]"

theorem chunking_irrelevant_witness:
  "parse_sse id_decoder demo_stream = (reference_parse id_decoder (concat demo_stream), None) \<and>
   map sm_data (reference_parse id_decoder (concat demo_stream)) = [''a'' @ [lf] @ ''b'']"
proof -
  have "clean_chunks demo_stream" by code_simp
  moreover have "short_lines (concat demo_stream)"
    by (simp add: short_lines_def demo_stream_def lf_def cr_def max_buffer_bytes_def)
  moreover have "map sm_data (reference_parse id_decoder (concat demo_stream)) = [''a'' @ [lf] @ ''b'']"
    by code_simp
  ultimately show ?thesis using chunking_irrelevant [of demo_stream id_decoder] by simp
qed

section \<open>Encoding and parsing\<close>

text \<open>The canonical text of a message.\<close>

definition encode_message :: "sse_message \<Rightarrow> string list" where
  "encode_message m =
     (''event: '' @ sm_event m) # map (\<lambda>l. ''data: '' @ l) (js_split lf (sm_data m)) @ ['''']"

definition encode_stream :: "sse_message list \<Rightarrow> string" where
  "encode_stream ms = concat (map (\<lambda>l. l @ [lf]) (concat (map encode_message ms)))"

definition encodable :: "sse_message \<Rightarrow> bool" where
  "encodable m = (sm_event m \<noteq> '''' \<and> lf \<notin> set (sm_event m) \<and> cr \<notin> set (sm_event m) \<and> cr \<notin> set (sm_data m))"

lemma field_of_prefixed:
  "field_of (''event: '' @ v) = (''event'', v)" "field_of (''data: '' @ v) = (''data'', v)"
  by (simp_all add: field_of_def starts_with_def)

lemma process_event: "e \<noteq> '''' \<Longrightarrow> process_line (''event: '' @ e) s = ([], s\<lparr>ps_event := e\<rparr>)"
  unfolding process_line_def field_of_prefixed by (simp add: starts_with_def)

lemma process_data: "process_line (''data: '' @ l) s = ([], s\<lparr>ps_data := ps_data s @ [l]\<rparr>)"
  unfolding process_line_def field_of_prefixed by (simp add: starts_with_def)

lemma process_datas:
  "process_lines id_decoder (map (\<lambda>l. ''data: '' @ l) ls) s = ([], s\<lparr>ps_data := ps_data s @ ls\<rparr>)"
  by (induction ls arbitrary: s) (simp_all add: id_decoder_def process_data del: append_Cons)

lemma process_message:
  assumes "encodable m"
  shows "process_lines id_decoder (encode_message m) fresh_parser = ([m], fresh_parser)"
proof -
  let ?s = "fresh_parser\<lparr>ps_event := sm_event m, ps_data := js_split lf (sm_data m)\<rparr>"
  have "process_lines id_decoder (encode_message m) fresh_parser =
      (case process_line '''' ?s of (ms, s) \<Rightarrow> (ms, s))"
    using assms unfolding encode_message_def process_lines.simps process_lines_append
    by (simp add: process_datas process_event encodable_def id_decoder_def fresh_parser_def del: append_Cons)
  also have "\<dots> = ([m], fresh_parser)"
    by (simp add: process_line_def flush_def join_split fresh_parser_def)
  finally show ?thesis .
qed

lemma process_messages:
  "list_all encodable ms \<Longrightarrow>
   process_lines id_decoder (concat (map encode_message ms)) fresh_parser = (ms, fresh_parser)"
  by (induction ms) (simp_all add: process_lines_append process_message)

lemma encoded_lines_plain:
  assumes "encodable m"
  shows "list_all (\<lambda>l. lf \<notin> set l \<and> cr \<notin> set l) (encode_message m)"
  using assms js_split_subset [of _ lf "sm_data m"] js_split_parts [of _ lf "sm_data m"]
  by (fastforce simp: encode_message_def encodable_def list_all_iff lf_def cr_def)

text \<open>C25. Messages survive the wire: of any list of messages without carriage returns, written in the
  canonical form and cut into chunks in any clean way, the parser yields exactly those messages,
  in order, with lines joined as they were.\<close>

theorem encode_parse_roundtrip:
  assumes "list_all encodable ms" "concat cs = encode_stream ms" "clean_chunks cs" "short_lines (encode_stream ms)"
  shows "parse_sse id_decoder cs = (ms, None)"
proof -
  let ?ls = "concat (map encode_message ms)"
  have plain: "list_all (\<lambda>l. lf \<notin> set l \<and> cr \<notin> set l) ?ls"
    using assms(1) encoded_lines_plain by (auto simp: list_all_iff)
  then have strip: "map strip_cr ?ls = ?ls"
    by (intro map_idI) (auto simp: strip_cr_def list_all_iff dest: last_in_set)
  have "js_split lf (encode_stream ms) = ?ls @ ['''']"
    unfolding encode_stream_def using plain by (intro js_split_lines) (auto simp: list_all_iff)
  then have "stream_lines (encode_stream ms) = ?ls" by (simp add: stream_lines_def Let_def strip)
  then have "reference_parse id_decoder (encode_stream ms) = ms"
    using process_messages [OF assms(1)] by (simp add: reference_parse_def flush_def fresh_parser_def)
  with chunks_parse [OF assms(3)] assms(2,4) show ?thesis by simp
qed

theorem encode_parse_roundtrip_witness:
  "let ms = [\<lparr>sm_event = ''ping'', sm_data = ''x'' @ [lf] @ ''y''\<rparr>, \<lparr>sm_event = ''message'', sm_data = ''''\<rparr>]
   in parse_sse id_decoder [encode_stream ms] = (ms, None)"
proof -
  let ?ms = "[\<lparr>sm_event = ''ping'', sm_data = ''x'' @ [lf] @ ''y''\<rparr>, \<lparr>sm_event = ''message'', sm_data = ''''\<rparr>]"
  have "list_all encodable ?ms" by code_simp
  moreover have "clean_chunks [encode_stream ?ms]" by (simp add: clean_boundary_def)
  moreover have "short_lines (encode_stream ?ms)"
    by (simp add: short_lines_def encode_stream_def encode_message_def lf_def max_buffer_bytes_def)
  ultimately show ?thesis
    using encode_parse_roundtrip [of ?ms "[encode_stream ?ms]"] by (simp add: Let_def)
qed

text \<open>Between the two characters of a line end a chunk boundary is not harmless: the blank line that
  separates two events is read as a line with a carriage return, and the two events become one.\<close>

theorem split_line_end_merges_events:
  "map sm_data (fst (parse_sse id_decoder [''data: a'' @ [cr, lf, cr, lf] @ ''data: b'' @ [cr, lf, cr, lf]])) =
     [''a'', ''b''] \<and>
   map sm_data (fst (parse_sse id_decoder [''data: a'' @ [cr, lf, cr], [lf] @ ''data: b'' @ [cr, lf, cr, lf]])) =
     [''a'' @ [lf] @ ''b'']"
  by (simp add: parse_sse_def consume_chunk_def fresh_parser_def max_buffer_bytes_def lf_def cr_def
      strip_cr_def process_line_def flush_def field_of_def starts_with_def finish_stream_def id_decoder_def)

section \<open>Folding oversized data lines\<close>

record split_state =
  sp_string :: bool
  sp_escaped :: bool
  sp_safe :: "nat option"
  sp_close :: "nat option"

definition split_step :: "nat \<Rightarrow> char \<Rightarrow> split_state \<Rightarrow> split_state" where
  "split_step i b s =
     (if sp_string s then
        (if sp_escaped s then s\<lparr>sp_escaped := False\<rparr>
         else if b = CHR 0x5C then s\<lparr>sp_escaped := True\<rparr>
         else if b = CHR 0x22 then s\<lparr>sp_string := False, sp_close := Some (i + 1)\<rparr>
         else s)
      else if b = CHR 0x22 then s\<lparr>sp_string := True\<rparr>
      else if b \<in> {CHR '','', CHR 0x7D, CHR '']''} then s\<lparr>sp_safe := Some (i + 1)\<rparr>
      else s)"

fun split_scan :: "nat \<Rightarrow> string \<Rightarrow> split_state \<Rightarrow> split_state" where
  "split_scan i [] s = s"
| "split_scan i (b # bs) s = split_scan (i + 1) bs (split_step i b s)"

text \<open>The extra scan stops as soon as the string is closed.\<close>

fun split_close :: "nat \<Rightarrow> string \<Rightarrow> split_state \<Rightarrow> split_state" where
  "split_close i [] s = s"
| "split_close i (b # bs) s = (if sp_string s then split_close (i + 1) bs (split_step i b s) else s)"

definition after :: "nat \<Rightarrow> nat option \<Rightarrow> bool" where
  "after start p = (case p of None \<Rightarrow> False | Some i \<Rightarrow> start < i)"

definition slice :: "nat \<Rightarrow> nat \<Rightarrow> string \<Rightarrow> string" where
  "slice a b s = take (b - a) (drop a s)"

definition find_json_safe_split :: "string \<Rightarrow> nat \<Rightarrow> nat \<Rightarrow> nat" where
  "find_json_safe_split payload start max_line =
     (let hard = min (start + max_line) (length payload);
          s0 = \<lparr>sp_string = False, sp_escaped = False, sp_safe = None, sp_close = None\<rparr>;
          s1 = split_scan start (slice start hard payload) s0;
          s2 = (if \<not> after start (sp_safe s1) \<and> sp_string s1
                then split_close hard (slice hard (min (length payload) (hard + 4096)) payload) s1 else s1)
      in if after start (sp_safe s2) then the (sp_safe s2)
         else if after start (sp_close s2) then the (sp_close s2)
         else hard)"

lemma split_step_bounds:
  assumes "\<forall>p. sp_safe s = Some p \<longrightarrow> p \<le> i" "\<forall>p. sp_close s = Some p \<longrightarrow> p \<le> i"
  shows "(\<forall>p. sp_safe (split_step i b s) = Some p \<longrightarrow> p \<le> i + 1) \<and>
    (\<forall>p. sp_close (split_step i b s) = Some p \<longrightarrow> p \<le> i + 1)"
  using assms by (auto simp: split_step_def)

lemma split_scan_bounds:
  "\<forall>p. sp_safe s = Some p \<longrightarrow> p \<le> i \<Longrightarrow> \<forall>p. sp_close s = Some p \<longrightarrow> p \<le> i \<Longrightarrow>
   (\<forall>p. sp_safe (split_scan i bs s) = Some p \<longrightarrow> p \<le> i + length bs) \<and>
   (\<forall>p. sp_close (split_scan i bs s) = Some p \<longrightarrow> p \<le> i + length bs)"
proof (induction i bs s rule: split_scan.induct)
  case (2 i b bs s)
  from split_step_bounds [OF 2(2,3)] 2(1) show ?case by simp
qed simp

lemma split_close_bounds:
  "\<forall>p. sp_safe s = Some p \<longrightarrow> p \<le> i \<Longrightarrow> \<forall>p. sp_close s = Some p \<longrightarrow> p \<le> i \<Longrightarrow>
   (\<forall>p. sp_safe (split_close i bs s) = Some p \<longrightarrow> p \<le> i + length bs) \<and>
   (\<forall>p. sp_close (split_close i bs s) = Some p \<longrightarrow> p \<le> i + length bs)"
proof (induction i bs s rule: split_close.induct)
  case (2 i b bs s)
  show ?case
  proof (cases "sp_string s")
    case True
    from split_step_bounds [OF 2(2,3)] 2(1) [OF True] True show ?thesis by simp
  next
    case False
    with 2(2,3) show ?thesis by auto
  qed
qed simp

lemma split_progress:
  assumes "start < length payload" "0 < max_line"
  shows "start < find_json_safe_split payload start max_line \<and>
    find_json_safe_split payload start max_line \<le> length payload \<and>
    find_json_safe_split payload start max_line \<le> start + max_line + 4096"
proof -
  define hard where "hard = min (start + max_line) (length payload)"
  define cap where "cap = min (length payload) (hard + 4096)"
  let ?s0 = "\<lparr>sp_string = False, sp_escaped = False, sp_safe = None, sp_close = None\<rparr>"
  define s1 where "s1 = split_scan start (slice start hard payload) ?s0"
  define s2 where "s2 = (if \<not> after start (sp_safe s1) \<and> sp_string s1
      then split_close hard (slice hard cap payload) s1 else s1)"
  have h: "start < hard" "hard \<le> length payload" "hard \<le> start + max_line" "hard \<le> cap"
    "cap \<le> length payload" "cap \<le> start + max_line + 4096"
    using assms by (auto simp: hard_def cap_def)
  have l: "start + length (slice start hard payload) = hard" "hard + length (slice hard cap payload) = cap"
    using h by (auto simp: slice_def)
  have b1: "\<forall>p. sp_safe s1 = Some p \<longrightarrow> p \<le> hard" "\<forall>p. sp_close s1 = Some p \<longrightarrow> p \<le> hard"
    using split_scan_bounds [of ?s0 start "slice start hard payload"] l by (auto simp: s1_def)
  have b2: "\<forall>p. sp_safe s2 = Some p \<longrightarrow> p \<le> cap" "\<forall>p. sp_close s2 = Some p \<longrightarrow> p \<le> cap"
    using split_close_bounds [OF b1, of "slice hard cap payload"] b1 h l by (auto simp: s2_def intro: le_trans)
  have "find_json_safe_split payload start max_line =
      (if after start (sp_safe s2) then the (sp_safe s2)
       else if after start (sp_close s2) then the (sp_close s2) else hard)"
    by (simp add: find_json_safe_split_def Let_def hard_def cap_def s1_def s2_def)
  then show ?thesis using b2 h by (auto simp: after_def split: option.splits)
qed

text \<open>The loop over the payload. A positive limit is checked by the caller.\<close>

function fold_segments :: "nat \<Rightarrow> string \<Rightarrow> nat \<Rightarrow> string list" where
  "fold_segments max_line payload offset =
     (if offset < length payload \<and> 0 < max_line
      then let e = find_json_safe_split payload offset max_line
           in slice offset e payload # fold_segments max_line payload e
      else [])"
  by pat_completeness auto
termination
  by (relation "measure (\<lambda>(m, payload, offset). length payload - offset)")
    (auto simp: diff_less_mono2 split_progress)

declare fold_segments.simps [simp del]

definition data_prefix :: string where
  "data_prefix = ''data:''"

definition fold_line :: "nat \<Rightarrow> string \<Rightarrow> string list" where
  "fold_line max_line line =
     (if starts_with line data_prefix \<and> max_line < length line
      then map (\<lambda>seg. data_prefix @ seg) (fold_segments max_line (drop 5 line) 0)
      else [line])"

text \<open>The bytes the transform emits for a source that arrives in chunks; an unfinished last line is
  passed on as it is.\<close>

definition fold_stream :: "nat \<Rightarrow> string list \<Rightarrow> string" where
  "fold_stream max_line chunks =
     (if max_line = 0 then concat chunks
      else
        case fold (\<lambda>c (out, p). case scan_chunk p [] c of (ls, p') \<Rightarrow> (out @ ls, p')) chunks ([], []) of
          (ls, p) \<Rightarrow> concat (map (\<lambda>l. l @ [lf]) (concat (map (fold_line max_line) ls))) @ p)"

lemma slice_concat: "a \<le> b \<Longrightarrow> b \<le> length s \<Longrightarrow> slice a b s @ drop b s = drop a s"
  unfolding slice_def by (metis append_take_drop_id drop_drop le_add_diff_inverse2)

lemma fold_segments_props:
  "offset \<le> length payload \<Longrightarrow> 0 < max_line \<Longrightarrow>
   concat (fold_segments max_line payload offset) = drop offset payload \<and>
   list_all (\<lambda>seg. seg \<noteq> [] \<and> length seg \<le> max_line + 4096) (fold_segments max_line payload offset)"
proof (induction max_line payload offset rule: fold_segments.induct)
  case (1 max_line payload offset)
  show ?case
  proof (cases "offset < length payload")
    case True
    define e where "e = find_json_safe_split payload offset max_line"
    have e: "offset < e" "e \<le> length payload" "e \<le> offset + max_line + 4096"
      using split_progress [OF True 1(3)] by (simp_all add: e_def)
    have step: "fold_segments max_line payload offset = slice offset e payload # fold_segments max_line payload e"
      using True 1(3) by (subst fold_segments.simps) (simp add: e_def Let_def)
    have "concat (fold_segments max_line payload e) = drop e payload \<and>
        list_all (\<lambda>seg. seg \<noteq> [] \<and> length seg \<le> max_line + 4096) (fold_segments max_line payload e)"
      using 1(1) [of e] True 1(3) e e_def by simp
    with e slice_concat [of offset e payload] step True show ?thesis
      by (auto simp: slice_def)
  next
    case False
    with 1(2) show ?thesis by (subst (1 2) fold_segments.simps) simp
  qed
qed

lemmas folding_preserves_payload_fact = fold_segments_props [of 0, simplified]

text \<open>Folding ends, loses no byte and bounds every line it makes: the segments of a data line joined
  together are its payload, none is empty, and none is longer than the limit plus the four
  kilobytes the search may add.\<close>

theorem folding_preserves_payload:
  "if max_line = 0 then True
   else concat (fold_segments max_line payload 0) = payload \<and>
     list_all (\<lambda>seg. seg \<noteq> [] \<and> length seg \<le> max_line + 4096) (fold_segments max_line payload 0)"
  using fold_segments_props [of 0 payload max_line] by simp

text \<open>With the limit the providers use, every data line fits the parser's buffer after folding.\<close>

lemma folded_lines_fit:
  "if starts_with line data_prefix then list_all (\<lambda>l. length l \<le> max_buffer_bytes) (fold_line (200 * 1024) line)
   else True"
  using folding_preserves_payload_fact [of "200 * 1024" "drop 5 line"]
  by (auto simp: fold_line_def list_all_iff max_buffer_bytes_def data_prefix_def)

end
