(* ===== verification/Json_Repair.thy ===== *)
theory Json_Repair
  imports Json
begin

text \<open>
  Completion of truncated JSON, \<open>packages/core/src/utils/json-repair.ts\<close>: the arguments of a tool call
  arrive as fragments of text, and a stream that is cut leaves an object whose strings and brackets
  are still open. \<open>JSON.parse\<close> is a parameter. A character has eight bits.
\<close>

section \<open>The scan\<close>

abbreviation quote_char :: char where "quote_char \<equiv> CHR 0x22"
abbreviation backslash :: char where "backslash \<equiv> CHR 0x5C"

text \<open>The top of the stack comes first.\<close>

record scan =
  sc_stack :: string
  sc_string :: bool
  sc_escaped :: bool
  sc_key :: bool
  sc_prev :: "char option"
  sc_pos :: nat
  sc_end :: nat
  sc_depth :: nat

definition scan_start :: scan where
  "scan_start =
     \<lparr>sc_stack = [], sc_string = False, sc_escaped = False, sc_key = False, sc_prev = None,
      sc_pos = 0, sc_end = 0, sc_depth = 0\<rparr>"

definition scan_inside :: "char \<Rightarrow> scan \<Rightarrow> scan" where
  "scan_inside c st =
     (if sc_escaped st then st\<lparr>sc_escaped := False\<rparr>
      else if c = backslash then st\<lparr>sc_escaped := True\<rparr>
      else if c = quote_char then st\<lparr>sc_string := False, sc_prev := Some quote_char, sc_depth := 0\<rparr>
      else if c = CHR ''{'' then st\<lparr>sc_depth := sc_depth st + 1\<rparr>
      else if c = CHR ''}'' \<and> 0 < sc_depth st then st\<lparr>sc_depth := sc_depth st - 1\<rparr>
      else st)"

definition scan_outside :: "char \<Rightarrow> scan \<Rightarrow> scan" where
  "scan_outside c st =
     (if c = quote_char
      then st\<lparr>sc_string := True, sc_key := True, sc_depth := 0, sc_prev := Some quote_char\<rparr>
      else if c = CHR ''{'' \<or> c = CHR ''['' then st\<lparr>sc_stack := c # sc_stack st, sc_prev := Some c\<rparr>
      else if c = CHR ''}'' \<or> c = CHR '']'' then st\<lparr>sc_stack := tl (sc_stack st), sc_prev := Some c\<rparr>
      else st\<lparr>sc_prev := Some c\<rparr>)"

definition is_blank :: "char \<Rightarrow> bool" where
  "is_blank c = (c \<in> {CHR '' '', CHR 0x09, CHR 0x0A, CHR 0x0D})"

definition scan_char :: "char \<Rightarrow> scan \<Rightarrow> scan" where
  "scan_char c st =
     (let next = st\<lparr>sc_pos := sc_pos st + 1\<rparr>;
          seen = next\<lparr>sc_end := sc_pos st + 1\<rparr>
      in if sc_string st then scan_inside c seen
         else if is_blank c then next
         else scan_outside c seen)"

definition scan_text :: "string \<Rightarrow> scan" where
  "scan_text s = fold scan_char s scan_start"

section \<open>The completion\<close>

definition valid_escapes :: string where
  "valid_escapes = [quote_char, backslash, CHR ''/'', CHR ''b'', CHR ''f'', CHR ''n'', CHR ''r'', CHR ''t'', CHR ''u'']"

definition ends_with_invalid_escape :: "string \<Rightarrow> bool" where
  "ends_with_invalid_escape s =
     (case rev s of
        l # b # rest \<Rightarrow> b = backslash \<and> l \<notin> set valid_escapes \<and>
          odd (length (takeWhile (\<lambda>x. x = backslash) (b # rest)))
      | _ \<Rightarrow> False)"

definition closer :: "char \<Rightarrow> char" where
  "closer c = (if c = CHR ''{'' then CHR ''}'' else CHR '']'')"

definition trim_escape :: "scan \<Rightarrow> string \<Rightarrow> string" where
  "trim_escape st kept =
     (if sc_escaped st then butlast kept
      else if ends_with_invalid_escape kept then butlast (butlast kept)
      else kept)"

definition close_text :: "scan \<Rightarrow> string \<Rightarrow> string" where
  "close_text st s =
     (let kept = take (sc_end st) s
      in (if sc_string st then trim_escape st kept @ replicate (sc_depth st) CHR ''}'' @ [quote_char]
          else if sc_prev st = Some CHR '':'' then kept @ ''null''
          else kept) @ map closer (sc_stack st))"

text \<open>The replacement of \<open>:(\s*)([}\]])\<close> by \<open>:null$2\<close>, everywhere.\<close>

fun fill_nulls :: "string \<Rightarrow> string" where
  "fill_nulls [] = []"
| "fill_nulls (c # s) =
     (if c = CHR '':'' then
        (case dropWhile is_js_space s of
           [] \<Rightarrow> c # fill_nulls s
         | d # rest \<Rightarrow>
             if d = CHR ''}'' \<or> d = CHR '']'' then '':null'' @ d # fill_nulls (drop (Suc (length (takeWhile is_js_space s))) s)
             else c # fill_nulls s)
      else c # fill_nulls s)"

definition repair_truncated :: "(string \<Rightarrow> json option) \<Rightarrow> string \<Rightarrow> string" where
  "repair_truncated parse s =
     (let st = scan_text s
      in if \<not> sc_key st \<and> \<not> sc_string st then s
         else
           let result = close_text st s
           in if parse result = None \<and> parse (fill_nulls result) \<noteq> None then fill_nulls result
              else result)"

definition complete_partial_object :: "(string \<Rightarrow> json option) \<Rightarrow> string \<Rightarrow> string" where
  "complete_partial_object parse s =
     (if \<not> starts_with (js_trim s) ''{'' then s
      else if parse s \<noteq> None then s
      else repair_truncated parse s)"

section \<open>What the scan knows\<close>

lemma scan_Nil [simp]: "scan_text [] = scan_start"
  by (simp add: scan_text_def)

lemma scan_snoc [simp]: "scan_text (s @ [c]) = scan_char c (scan_text s)"
  by (simp add: scan_text_def)

lemma scan_text_append: "scan_text (s @ t) = fold scan_char t (scan_text s)"
  by (simp add: scan_text_def)

lemmas scan_defs = scan_char_def scan_inside_def scan_outside_def Let_def

lemma scan_pos [simp]: "sc_pos (scan_text s) = length s"
  by (induction s rule: rev_induct) (auto simp: scan_start_def scan_defs)

lemma scan_end_le: "sc_end (scan_text s) \<le> length s"
  by (induction s rule: rev_induct) (auto simp: scan_start_def scan_defs)

lemma string_ends_here: "sc_string (scan_text s) \<Longrightarrow> sc_end (scan_text s) = length s"
  by (induction s rule: rev_induct) (auto simp: scan_start_def scan_defs split: if_splits)

lemma string_has_key: "sc_string (scan_text s) \<Longrightarrow> sc_key (scan_text s)"
  by (induction s rule: rev_induct) (auto simp: scan_start_def scan_defs split: if_splits)

lemma escaped_in_string: "sc_escaped (scan_text s) \<Longrightarrow> sc_string (scan_text s)"
  by (induction s rule: rev_induct) (auto simp: scan_start_def scan_defs split: if_splits)

lemma tl_in: "set xs \<subseteq> A \<Longrightarrow> x \<in> set (tl xs) \<Longrightarrow> x \<in> A"
  by (cases xs) auto

lemma stack_brackets: "set (sc_stack (scan_text s)) \<subseteq> {CHR ''{'', CHR ''[''}"
  by (induction s rule: rev_induct)
    (auto simp: scan_start_def scan_defs split: if_splits dest: tl_in)

text \<open>Blanks after the last significant character change nothing but the position.\<close>

lemma cut_scan:
  "scan_text (take (sc_end (scan_text s)) s) = (scan_text s)\<lparr>sc_pos := sc_end (scan_text s)\<rparr>"
proof (induction s rule: rev_induct)
  case (snoc c s)
  show ?case
  proof (cases "\<not> sc_string (scan_text s) \<and> is_blank c")
    case True
    with snoc scan_end_le [of s] show ?thesis by (simp add: scan_char_def Let_def)
  next
    case False
    then have "sc_end (scan_text (s @ [c])) = Suc (length s)"
      by (auto simp: scan_defs)
    then show ?thesis by (simp del: scan_snoc)
  qed
qed (simp add: scan_start_def)


section \<open>Escapes\<close>

lemma escaped_count:
  "sc_string (scan_text s) \<Longrightarrow>
     sc_escaped (scan_text s) = odd (length (takeWhile (\<lambda>x. x = backslash) (rev s)))"
proof (induction s rule: rev_induct)
  case (snoc c s)
  show ?case
  proof (cases "sc_string (scan_text s)")
    case True
    with snoc show ?thesis by (auto simp: scan_defs)
  next
    case False
    with snoc.prems escaped_in_string [of s] show ?thesis by (auto simp: scan_defs split: if_splits)
  qed
qed (simp add: scan_start_def)

text \<open>What is cut off the end of an open string leaves it open, with no escape pending.\<close>

definition open_string :: "scan \<Rightarrow> string \<Rightarrow> bool" where
  "open_string st s =
     (sc_string (scan_text s) \<and> \<not> sc_escaped (scan_text s) \<and>
      sc_stack (scan_text s) = sc_stack st \<and> sc_depth (scan_text s) = sc_depth st)"

lemma pending_escape_open:
  assumes "sc_escaped (scan_text s)" shows "open_string (scan_text s) (butlast s)"
proof (cases s rule: rev_exhaust)
  case (snoc t c)
  with assms escaped_in_string [of s] show ?thesis
    by (auto simp: open_string_def scan_defs split: if_splits dest: escaped_in_string)
qed (use assms in \<open>simp add: scan_start_def\<close>)

lemma invalid_escape_open:
  assumes "sc_string (scan_text s)" "ends_with_invalid_escape s"
  shows "open_string (scan_text s) (butlast (butlast s))"
proof -
  obtain c b rest where r: "rev s = c # b # rest" "b = backslash" "c \<notin> set valid_escapes"
    and run: "odd (length (takeWhile (\<lambda>x. x = backslash) (b # rest)))"
    using assms(2) by (auto simp: ends_with_invalid_escape_def split: list.splits)
  define u where "u = rev rest @ [b]"
  have s: "s = u @ [c]" using arg_cong [OF r(1), of rev] by (simp add: u_def)
  have c: "c \<noteq> quote_char" "c \<noteq> backslash" using r(3) by (auto simp: valid_escapes_def)
  have b: "sc_string (scan_text u)"
    using assms(1) c by (simp add: s scan_defs split: if_splits)
  with escaped_count [OF this] run have e: "sc_escaped (scan_text u)" by (simp add: u_def del: scan_snoc)
  from pending_escape_open [OF e] have o: "open_string (scan_text u) (rev rest)" by (simp add: u_def del: scan_snoc)
  moreover have "sc_stack (scan_text s) = sc_stack (scan_text u)" "sc_depth (scan_text s) = sc_depth (scan_text u)"
    using b e by (simp_all add: s scan_char_def scan_inside_def Let_def)
  moreover have "butlast (butlast s) = rev rest" by (simp add: s u_def butlast_append)
  ultimately show ?thesis by (simp add: open_string_def)
qed

lemma trim_escape_open:
  "sc_string (scan_text s) \<Longrightarrow> open_string (scan_text s) (trim_escape (scan_text s) s)"
  using pending_escape_open [of s] invalid_escape_open [of s]
  by (auto simp: trim_escape_def open_string_def)


section \<open>Everything is closed\<close>

lemma closing_brackets:
  "set stk \<subseteq> {CHR ''{'', CHR ''[''} \<Longrightarrow> sc_stack st = stk \<Longrightarrow> \<not> sc_string st \<Longrightarrow> sc_end st = sc_pos st \<Longrightarrow>
     sc_prev st \<noteq> Some CHR '':'' \<Longrightarrow>
   (let st' = fold scan_char (map closer stk) st
    in sc_stack st' = [] \<and> \<not> sc_string st' \<and> sc_key st' = sc_key st \<and>
       sc_end st' = sc_pos st' \<and> sc_prev st' \<noteq> Some CHR '':'')"
proof (induction stk arbitrary: st)
  case (Cons b stk)
  let ?st = "scan_char (closer b) st"
  have "closer b = CHR ''}'' \<or> closer b = CHR '']''" by (simp add: closer_def)
  with Cons.prems have "sc_stack ?st = stk" "\<not> sc_string ?st" "sc_end ?st = sc_pos ?st" "sc_prev ?st \<noteq> Some CHR '':''"
    "sc_key ?st = sc_key st"
    by (auto simp: scan_defs is_blank_def)
  with Cons.IH [of ?st] Cons.prems show ?case by (simp add: Let_def)
qed (simp add: Let_def)

definition closed :: "string \<Rightarrow> bool" where
  "closed s = (\<not> sc_string (scan_text s) \<and> sc_stack (scan_text s) = [])"

text \<open>The text before the closing brackets: no string is open, and no value is missing.\<close>

definition settled :: "scan \<Rightarrow> scan \<Rightarrow> bool" where
  "settled st st' =
     (sc_stack st' = sc_stack st \<and> \<not> sc_string st' \<and> sc_key st' \<and> sc_end st' = sc_pos st' \<and>
      sc_prev st' \<noteq> Some CHR '':'')"

lemma fold_braces:
  "sc_string st \<Longrightarrow> \<not> sc_escaped st \<Longrightarrow>
     (let st' = fold scan_char (replicate n CHR ''}'') st
      in sc_string st' \<and> \<not> sc_escaped st' \<and> sc_stack st' = sc_stack st \<and> sc_key st' = sc_key st)"
  by (induction n arbitrary: st) (auto simp: scan_defs)

lemma settled_string:
  assumes "sc_string (scan_text s)"
  shows "settled (scan_text s)
    (scan_text (trim_escape (scan_text s) s @ replicate n CHR ''}'' @ [quote_char]))"
proof -
  define t where "t = trim_escape (scan_text s) s"
  have o: "open_string (scan_text s) t" unfolding t_def by (rule trim_escape_open [OF assms])
  then have k: "sc_key (scan_text t)" by (simp add: open_string_def string_has_key)
  from o fold_braces [of "scan_text t" n]
  have "let st' = scan_text (t @ replicate n CHR ''}'')
        in sc_string st' \<and> \<not> sc_escaped st' \<and> sc_stack st' = sc_stack (scan_text s) \<and> sc_key st'"
    using k by (simp add: open_string_def scan_text_append Let_def)
  then have "settled (scan_text s) (scan_text ((t @ replicate n CHR ''}'') @ [quote_char]))"
    unfolding scan_snoc by (simp add: settled_def scan_defs)
  then show ?thesis by (simp add: t_def)
qed

lemma settled_text:
  assumes "sc_key (scan_text s) \<or> sc_string (scan_text s)"
  shows "\<exists>body. close_text (scan_text s) s = body @ map closer (sc_stack (scan_text s)) \<and>
    settled (scan_text s) (scan_text body)"
proof (cases "sc_string (scan_text s)")
  case True
  with settled_string [OF True] show ?thesis by (auto simp: close_text_def Let_def string_ends_here)
next
  case False
  define t where "t = take (sc_end (scan_text s)) s"
  have t: "scan_text t = (scan_text s)\<lparr>sc_pos := sc_end (scan_text s)\<rparr>" unfolding t_def by (rule cut_scan)
  show ?thesis
  proof (cases "sc_prev (scan_text s) = Some CHR '':''")
    case True
    have "settled (scan_text s) (scan_text (t @ ''null''))"
      using t False assms by (simp add: settled_def scan_text_append scan_defs is_blank_def)
    with True False show ?thesis by (auto simp: close_text_def Let_def t_def)
  next
    case other: False
    then have "settled (scan_text s) (scan_text t)" using t False assms by (simp add: settled_def)
    with other False show ?thesis by (auto simp: close_text_def Let_def t_def)
  qed
qed

lemma close_text_settled:
  assumes "sc_key (scan_text s) \<or> sc_string (scan_text s)"
  defines "r \<equiv> close_text (scan_text s) s"
  shows "closed r" "sc_key (scan_text r)" "sc_end (scan_text r) = length r" "sc_prev (scan_text r) \<noteq> Some CHR '':''"
proof -
  obtain body where b: "r = body @ map closer (sc_stack (scan_text s))" "settled (scan_text s) (scan_text body)"
    using settled_text [OF assms(1)] unfolding r_def by blast
  have "let st' = scan_text r
    in sc_stack st' = [] \<and> \<not> sc_string st' \<and> sc_key st' = sc_key (scan_text body) \<and>
       sc_end st' = sc_pos st' \<and> sc_prev st' \<noteq> Some CHR '':''"
    unfolding b(1) scan_text_append
    by (rule closing_brackets [OF stack_brackets]) (use b(2) in \<open>simp_all add: settled_def del: scan_pos\<close>)
  with b(2) show "closed r" "sc_key (scan_text r)" "sc_end (scan_text r) = length r"
      "sc_prev (scan_text r) \<noteq> Some CHR '':''"
    by (simp_all add: closed_def settled_def Let_def)
qed

text \<open>Completing a completed text changes nothing, whatever the parser accepts.\<close>

theorem completion_idempotent:
  "complete_partial_object parse (complete_partial_object parse s) = complete_partial_object parse s"
proof (cases "\<not> starts_with (js_trim s) ''{'' \<or> parse s \<noteq> None \<or> \<not> sc_key (scan_text s) \<and> \<not> sc_string (scan_text s)")
  case True
  then have "complete_partial_object parse s = s"
    by (auto simp: complete_partial_object_def repair_truncated_def)
  then show ?thesis by simp
next
  case False
  define r where "r = close_text (scan_text s) s"
  have sk: "sc_key (scan_text s) \<or> sc_string (scan_text s)" using False by blast
  note r = close_text_settled [OF sk, folded r_def]
  have same: "close_text (scan_text r) r = r"
    using r by (simp add: close_text_def closed_def)
  have "complete_partial_object parse s =
      (if parse r = None \<and> parse (fill_nulls r) \<noteq> None then fill_nulls r else r)"
    using False by (auto simp: complete_partial_object_def repair_truncated_def r_def Let_def)
  then show ?thesis
    using same r(2) by (auto simp: complete_partial_object_def repair_truncated_def Let_def)
qed

section \<open>Brackets match\<close>

fun nests :: "string \<Rightarrow> scan \<Rightarrow> bool" where
  "nests [] st = True"
| "nests (c # cs) st =
     ((if \<not> sc_string st \<and> (c = CHR ''}'' \<or> c = CHR '']'')
       then sc_stack st \<noteq> [] \<and> closer (hd (sc_stack st)) = c else True) \<and> nests cs (scan_char c st))"

definition well_nested :: "string \<Rightarrow> bool" where
  "well_nested s = nests s scan_start"

lemma nests_append: "nests (a @ b) st = (nests a st \<and> nests b (fold scan_char a st))"
  by (induction a arbitrary: st) auto

lemma well_nested_append: "well_nested (a @ b) = (well_nested a \<and> nests b (scan_text a))"
  by (simp add: well_nested_def nests_append scan_text_def)

lemma well_nested_take: "well_nested s \<Longrightarrow> well_nested (take n s)"
  using well_nested_append [of "take n s" "drop n s"] by simp

lemma nests_closers:
  "set stk \<subseteq> {CHR ''{'', CHR ''[''} \<Longrightarrow> sc_stack st = stk \<Longrightarrow> \<not> sc_string st \<Longrightarrow> nests (map closer stk) st"
proof (induction stk arbitrary: st)
  case (Cons b stk)
  have "closer b = CHR ''}'' \<or> closer b = CHR '']''" by (simp add: closer_def)
  then have "sc_stack (scan_char (closer b) st) = stk" "\<not> sc_string (scan_char (closer b) st)"
    using Cons.prems by (auto simp: scan_defs is_blank_def)
  with Cons show ?case by simp
qed simp

lemma nests_in_string:
  "sc_string st \<Longrightarrow> \<not> sc_escaped st \<Longrightarrow> nests (replicate n CHR ''}'' @ [quote_char]) st"
  by (induction n arbitrary: st) (auto simp: scan_defs)

lemma well_nested_trim: "well_nested s \<Longrightarrow> well_nested (trim_escape st s)"
  by (simp add: trim_escape_def butlast_conv_take well_nested_take)

lemma close_text_nested:
  assumes "well_nested s" "sc_key (scan_text s) \<or> sc_string (scan_text s)"
  shows "well_nested (close_text (scan_text s) s)"
proof -
  obtain body where b: "close_text (scan_text s) s = body @ map closer (sc_stack (scan_text s))"
    "settled (scan_text s) (scan_text body)"
    using settled_text [OF assms(2)] by blast
  have "well_nested body"
  proof (cases "sc_string (scan_text s)")
    case True
    have "body = trim_escape (scan_text s) s @ replicate (sc_depth (scan_text s)) CHR ''}'' @ [quote_char]"
      using b(1) True by (simp add: close_text_def Let_def string_ends_here)
    moreover have "nests (replicate (sc_depth (scan_text s)) CHR ''}'' @ [quote_char]) (scan_text (trim_escape (scan_text s) s))"
      using trim_escape_open [OF True] by (intro nests_in_string) (simp_all add: open_string_def)
    ultimately show ?thesis
      using well_nested_trim [OF assms(1)] by (simp add: well_nested_append)
  next
    case False
    then have "body = take (sc_end (scan_text s)) s @ (if sc_prev (scan_text s) = Some CHR '':'' then ''null'' else [])"
      using b(1) by (auto simp: close_text_def Let_def split: if_splits)
    with well_nested_take [OF assms(1)] show ?thesis
      by (auto simp: well_nested_append scan_defs is_blank_def)
  qed
  with b show ?thesis by (simp add: well_nested_append nests_closers stack_brackets settled_def)
qed

text \<open>A truncated object whose brackets match as far as it goes is completed to a text that the
  parser accepts, or to one with every string closed and every bracket matched.\<close>

theorem completion_closes:
  assumes "well_nested s" "sc_key (scan_text s)" "starts_with (js_trim s) ''{''"
  shows "parse (complete_partial_object parse s) \<noteq> None \<or>
    closed (complete_partial_object parse s) \<and> well_nested (complete_partial_object parse s)"
  using assms close_text_nested [of s] close_text_settled(1) [of s]
  by (auto simp: complete_partial_object_def repair_truncated_def Let_def)

definition cut_arguments :: string where
  "cut_arguments = CHR ''{'' # quote_char # CHR ''k'' # quote_char # CHR '':'' # CHR ''['' # quote_char # CHR ''v'' # [backslash]"

theorem completion_closes_witness:
  "closed (complete_partial_object (\<lambda>_. None) cut_arguments) \<and>
   well_nested (complete_partial_object (\<lambda>_. None) cut_arguments)"
proof -
  have "well_nested cut_arguments" "sc_key (scan_text cut_arguments)" "starts_with (js_trim cut_arguments) ''{''"
    by code_simp+
  from completion_closes [OF this, of "\<lambda>_. None"] show ?thesis by simp
qed

text \<open>A trailing comma is not completed: the text stays as unparsable as it was.\<close>

theorem trailing_comma_stays:
  "let s = CHR ''{'' # quote_char # CHR ''a'' # quote_char # '':1,''
   in complete_partial_object (\<lambda>_. None) s = s @ ''}''"
  by code_simp

end
