(* ===== verification/Stream_Builder.thy ===== *)
theory Stream_Builder
  imports Json_Repair
begin

text \<open>
  The builder of a response from the events of a provider's stream,
  \<open>packages/core/src/core/streaming-response-builder.ts\<close>: the handlers of the events, the response at the
  end, and the loop that announces text, thinking and tool calls on the event bus while it reads.
  \<open>JSON.parse\<close> and the identifiers generated for blocks without one are parameters; the index \<open>-1\<close> is \<open>None\<close>.
  The handlers do not throw on the events of the type, so the branch for a throwing handler is left
  out, as are logging and the draining of an abandoned stream.
\<close>

section \<open>State\<close>

record thinking_entry =
  te_text :: string
  te_signature :: "string option"
  te_meta :: "fields option"

record tool_entry =
  to_name :: string
  to_partial :: string
  to_input :: "json option"
  to_meta :: "fields option"

datatype block_ref = Text_at nat | Tool_ref string | Thinking_at nat

record usage = us_in :: nat us_out :: nat

record streaming =
  sb_model :: string
  sb_stop :: string
  sb_usage :: usage
  sb_texts :: "string list"
  sb_text_at :: "nat option"
  sb_tools :: "(string, tool_entry) jsmap"
  sb_thinking :: "thinking_entry list"
  sb_thinking_at :: "nat option"
  sb_order :: "block_ref list"

definition create_streaming_state :: "string \<Rightarrow> streaming" where
  "create_streaming_state m =
     \<lparr>sb_model = m, sb_stop = ''end_turn'', sb_usage = \<lparr>us_in = 0, us_out = 0\<rparr>, sb_texts = [],
      sb_text_at = None, sb_tools = [], sb_thinking = [], sb_thinking_at = None, sb_order = []\<rparr>"

section \<open>The response\<close>

datatype out_block =
    Out_text string
  | Out_thinking string "string option" "fields option"
  | Out_tool string string json "fields option"

record stream_response =
  sr_content :: "out_block list"
  sr_stop :: string
  sr_usage :: usage
  sr_model :: string

text \<open>\<open>providerMeta\<close> is copied when it has keys; an empty signature counts as none.\<close>

definition kept_meta :: "fields option \<Rightarrow> fields option" where
  "kept_meta m = (case m of None \<Rightarrow> None | Some fs \<Rightarrow> if fs = [] then None else Some fs)"

definition kept_signature :: "string option \<Rightarrow> string option" where
  "kept_signature s = (case s of None \<Rightarrow> None | Some x \<Rightarrow> if x = '''' then None else Some x)"

definition build_block :: "streaming \<Rightarrow> block_ref \<Rightarrow> out_block list" where
  "build_block st b =
     (case b of
        Text_at i \<Rightarrow>
          if i < length (sb_texts st) \<and> sb_texts st ! i \<noteq> '''' then [Out_text (sb_texts st ! i)] else []
      | Thinking_at i \<Rightarrow>
          if i < length (sb_thinking st) then
            let t = sb_thinking st ! i
            in if te_text t = '''' \<and> kept_signature (te_signature t) = None then []
               else [Out_thinking (te_text t) (kept_signature (te_signature t)) (kept_meta (te_meta t))]
          else []
      | Tool_ref i \<Rightarrow>
          (case jm_get (sb_tools st) i of
             None \<Rightarrow> []
           | Some t \<Rightarrow>
               [Out_tool i (to_name t)
                  (case to_input t of None \<Rightarrow> JObj [] | Some v \<Rightarrow> if v = JNull then JObj [] else v)
                  (kept_meta (to_meta t))]))"

definition build_response :: "streaming \<Rightarrow> stream_response" where
  "build_response st =
     (let content = concat (map (build_block st) (sb_order st))
      in \<lparr>sr_content = (if content = [] then [Out_text ''''] else content), sr_stop = sb_stop st,
          sr_usage = sb_usage st, sr_model = sb_model st\<rparr>)"

section \<open>The handlers\<close>

datatype stream_event =
    Message_start string
  | Block_start "string option" "string option" "string option" "fields option"
  | Block_stop
  | Text_delta string
  | Tool_start string string
  | Tool_input string string
  | Tool_stop string "json option" "fields option"
  | Thinking_start "fields option"
  | Thinking_delta string
  | Thinking_signature string
  | Thinking_stop
  | Message_stop "string option" "usage option"
  | Unknown_event string

definition handle_message_start :: "string \<Rightarrow> streaming \<Rightarrow> streaming" where
  "handle_message_start m st = st\<lparr>sb_model := m\<rparr>"

definition open_text :: "streaming \<Rightarrow> streaming" where
  "open_text st =
     st\<lparr>sb_text_at := Some (length (sb_texts st)), sb_texts := sb_texts st @ [''''],
        sb_order := sb_order st @ [Text_at (length (sb_texts st))]\<rparr>"

definition handle_thinking_start :: "fields option \<Rightarrow> streaming \<Rightarrow> streaming" where
  "handle_thinking_start meta st =
     st\<lparr>sb_thinking_at := Some (length (sb_thinking st)),
        sb_thinking := sb_thinking st @ [\<lparr>te_text = '''', te_signature = None, te_meta = meta\<rparr>],
        sb_order := sb_order st @ [Thinking_at (length (sb_thinking st))], sb_text_at := None\<rparr>"

definition handle_tool_use_start :: "string \<Rightarrow> string \<Rightarrow> streaming \<Rightarrow> streaming" where
  "handle_tool_use_start i n st =
     st\<lparr>sb_text_at := None,
        sb_tools := jm_set i \<lparr>to_name = n, to_partial = '''', to_input = None, to_meta = None\<rparr> (sb_tools st),
        sb_order := sb_order st @ [Tool_ref i]\<rparr>"

text \<open>The generated identifier is the argument \<open>fresh\<close>.\<close>

definition handle_content_block_start ::
  "string \<Rightarrow> string option \<Rightarrow> string option \<Rightarrow> string option \<Rightarrow> fields option \<Rightarrow> streaming \<Rightarrow> streaming" where
  "handle_content_block_start fresh kind i n meta st =
     (let k = (case kind of None \<Rightarrow> ''text'' | Some k \<Rightarrow> k)
      in if k = ''text'' then open_text st
         else if k = ''tool_use'' then
           handle_tool_use_start (case i of None \<Rightarrow> fresh | Some x \<Rightarrow> x)
             (case n of None \<Rightarrow> ''unknown'' | Some x \<Rightarrow> x) st
         else if k = ''thinking'' then handle_thinking_start meta st
         else st)"

definition handle_text_delta :: "string \<Rightarrow> streaming \<Rightarrow> streaming" where
  "handle_text_delta t st =
     (let st1 = (if sb_text_at st = None then open_text st else st)
      in case sb_text_at st1 of
           None \<Rightarrow> st1
         | Some i \<Rightarrow> st1\<lparr>sb_texts := (sb_texts st1)[i := sb_texts st1 ! i @ t]\<rparr>)"

definition handle_tool_use_input_delta :: "string \<Rightarrow> string \<Rightarrow> streaming \<Rightarrow> streaming" where
  "handle_tool_use_input_delta i p st =
     st\<lparr>sb_tools := jm_update i (\<lambda>t. t\<lparr>to_partial := to_partial t @ p\<rparr>) (sb_tools st)\<rparr>"

definition safe_json_or_raw :: "(string \<Rightarrow> json option) \<Rightarrow> string \<Rightarrow> json" where
  "safe_json_or_raw parse s =
     (if s = '''' then JObj []
      else case parse s of
             Some v \<Rightarrow> v
           | None \<Rightarrow>
               (case parse (complete_partial_object parse s) of
                  Some v \<Rightarrow> v
                | None \<Rightarrow> JObj [(''_raw'', JStr (complete_partial_object parse s))]))"

definition handle_tool_use_stop ::
  "(string \<Rightarrow> json option) \<Rightarrow> string \<Rightarrow> json option \<Rightarrow> fields option \<Rightarrow> streaming \<Rightarrow> streaming" where
  "handle_tool_use_stop parse i input meta st =
     st\<lparr>sb_tools := jm_update i (\<lambda>t. t\<lparr>
            to_input := Some (case input of Some v \<Rightarrow> v | None \<Rightarrow> safe_json_or_raw parse (to_partial t)),
            to_meta := (case meta of None \<Rightarrow> to_meta t | Some m \<Rightarrow> Some m)\<rparr>) (sb_tools st),
        sb_text_at := None\<rparr>"

definition on_thinking :: "(thinking_entry \<Rightarrow> thinking_entry) \<Rightarrow> streaming \<Rightarrow> streaming" where
  "on_thinking f st =
     (let st1 = (if sb_thinking_at st = None then handle_thinking_start None st else st)
      in case sb_thinking_at st1 of
           None \<Rightarrow> st1
         | Some i \<Rightarrow>
             if i < length (sb_thinking st1)
             then st1\<lparr>sb_thinking := (sb_thinking st1)[i := f (sb_thinking st1 ! i)]\<rparr>
             else st1)"

definition handle_thinking_delta :: "string \<Rightarrow> streaming \<Rightarrow> streaming" where
  "handle_thinking_delta t = on_thinking (\<lambda>e. e\<lparr>te_text := te_text e @ t\<rparr>)"

definition handle_thinking_signature :: "string \<Rightarrow> streaming \<Rightarrow> streaming" where
  "handle_thinking_signature s = on_thinking (\<lambda>e. e\<lparr>te_signature := Some s\<rparr>)"

definition handle_thinking_stop :: "streaming \<Rightarrow> streaming" where
  "handle_thinking_stop st = st\<lparr>sb_thinking_at := None\<rparr>"

definition handle_message_stop :: "string option \<Rightarrow> usage option \<Rightarrow> streaming \<Rightarrow> streaming" where
  "handle_message_stop reason u st =
     st\<lparr>sb_stop := (case reason of None \<Rightarrow> ''end_turn'' | Some r \<Rightarrow> r),
        sb_usage := (case u of None \<Rightarrow> \<lparr>us_in = 0, us_out = 0\<rparr> | Some x \<Rightarrow> x)\<rparr>"

section \<open>The loop\<close>

datatype emission =
    Emit_text string
  | Emit_tool_start string string
  | Emit_tool_stop string string
  | Emit_thinking string

record reader =
  rd_state :: streaming
  rd_pending :: string
  rd_count :: nat
  rd_sent :: "emission list"

definition text_batch_size :: nat where "text_batch_size = 4"

definition flush_text :: "reader \<Rightarrow> reader" where
  "flush_text r =
     (if 0 < rd_count r
      then r\<lparr>rd_sent := rd_sent r @ [Emit_text (rd_pending r)], rd_pending := '''', rd_count := 0\<rparr>
      else r)"

definition announce :: "emission \<Rightarrow> reader \<Rightarrow> reader" where
  "announce e r = r\<lparr>rd_sent := rd_sent r @ [e]\<rparr>"

definition on_state :: "(streaming \<Rightarrow> streaming) \<Rightarrow> reader \<Rightarrow> reader" where
  "on_state f r = r\<lparr>rd_state := f (rd_state r)\<rparr>"

definition read_event :: "(string \<Rightarrow> json option) \<Rightarrow> stream_event \<times> string \<Rightarrow> reader \<Rightarrow> reader" where
  "read_event parse e r =
     (case fst e of
        Message_start m \<Rightarrow> on_state (handle_message_start m) r
      | Block_start k i n meta \<Rightarrow> on_state (handle_content_block_start (snd e) k i n meta) r
      | Block_stop \<Rightarrow> r
      | Text_delta t \<Rightarrow>
          (let r1 = (on_state (handle_text_delta t) r)\<lparr>rd_pending := rd_pending r @ t, rd_count := rd_count r + 1\<rparr>
           in if text_batch_size \<le> rd_count r1 then flush_text r1 else r1)
      | Tool_start i n \<Rightarrow> announce (Emit_tool_start i n) (on_state (handle_tool_use_start i n) (flush_text r))
      | Tool_input i p \<Rightarrow> on_state (handle_tool_use_input_delta i p) r
      | Tool_stop i input meta \<Rightarrow>
          (let r1 = flush_text r;
               name = (case jm_get (sb_tools (rd_state r1)) i of None \<Rightarrow> ''unknown'' | Some t \<Rightarrow> to_name t)
           in announce (Emit_tool_stop i name) (on_state (handle_tool_use_stop parse i input meta) r1))
      | Thinking_start meta \<Rightarrow> on_state (handle_thinking_start meta) r
      | Thinking_delta t \<Rightarrow>
          announce (Emit_thinking t) (on_state (handle_thinking_delta t) (flush_text r))
      | Thinking_signature s \<Rightarrow> on_state (handle_thinking_signature s) r
      | Thinking_stop \<Rightarrow> on_state handle_thinking_stop r
      | Message_stop reason u \<Rightarrow> on_state (handle_message_stop reason u) r
      | Unknown_event t \<Rightarrow> r)"

definition start_reader :: "string \<Rightarrow> reader" where
  "start_reader m =
     \<lparr>rd_state = create_streaming_state m, rd_pending = '''', rd_count = 0, rd_sent = []\<rparr>"

text \<open>How the stream ends: by itself, by a failure after the run was aborted, or by another failure.\<close>

datatype stream_end = Stream_done | Stream_aborted | Stream_failed string

definition stream_to_response ::
  "(string \<Rightarrow> json option) \<Rightarrow> string \<Rightarrow> (stream_event \<times> string) list \<Rightarrow> stream_end \<Rightarrow>
     (string + stream_response) \<times> emission list" where
  "stream_to_response parse m es how =
     (let r = fold (read_event parse) es (start_reader m)
      in case how of
           Stream_done \<Rightarrow> (let r1 = flush_text r in (Inr (build_response (rd_state r1)), rd_sent r1))
         | Stream_aborted \<Rightarrow>
             (let r1 = flush_text (on_state (\<lambda>st. st\<lparr>sb_stop := ''end_turn''\<rparr>) r)
              in (Inr (build_response (rd_state r1)), rd_sent r1))
         | Stream_failed e \<Rightarrow> (Inl e, rd_sent r))"


section \<open>What an event does to the state\<close>

definition apply_event :: "(string \<Rightarrow> json option) \<Rightarrow> stream_event \<times> string \<Rightarrow> streaming \<Rightarrow> streaming" where
  "apply_event parse e st = rd_state (read_event parse e \<lparr>rd_state = st, rd_pending = '''', rd_count = 0, rd_sent = []\<rparr>)"

lemma flush_state [simp]: "rd_state (flush_text r) = rd_state r"
  by (simp add: flush_text_def)

lemma read_state: "rd_state (read_event parse e r) = apply_event parse e (rd_state r)"
  by (cases "fst e") (simp_all add: apply_event_def read_event_def on_state_def announce_def Let_def)

lemma run_state: "rd_state (fold (read_event parse) es r) = fold (apply_event parse) es (rd_state r)"
  by (induction es arbitrary: r) (simp_all add: read_state)

lemma apply_event_simps [simp]:
  "apply_event parse (Message_start m, i) = handle_message_start m"
  "apply_event parse (Block_start k x y meta, i) = handle_content_block_start i k x y meta"
  "apply_event parse (Block_stop, i) = (\<lambda>st. st)"
  "apply_event parse (Text_delta t, i) = handle_text_delta t"
  "apply_event parse (Tool_start j n, i) = handle_tool_use_start j n"
  "apply_event parse (Tool_input j p, i) = handle_tool_use_input_delta j p"
  "apply_event parse (Tool_stop j input meta, i) = handle_tool_use_stop parse j input meta"
  "apply_event parse (Thinking_start meta, i) = handle_thinking_start meta"
  "apply_event parse (Thinking_delta t, i) = handle_thinking_delta t"
  "apply_event parse (Thinking_signature s, i) = handle_thinking_signature s"
  "apply_event parse (Thinking_stop, i) = handle_thinking_stop"
  "apply_event parse (Message_stop reason us, i) = handle_message_stop reason us"
  "apply_event parse (Unknown_event s, i) = (\<lambda>st. st)"
  by (rule ext, simp add: apply_event_def read_event_def on_state_def announce_def flush_text_def Let_def)+

text \<open>The state a stream leaves behind, which every response is built from.\<close>

definition read_stream :: "(string \<Rightarrow> json option) \<Rightarrow> string \<Rightarrow> (stream_event \<times> string) list \<Rightarrow> streaming" where
  "read_stream parse m es = fold (apply_event parse) es (create_streaming_state m)"

lemma response_of_state:
  "\<exists>stop. fst (stream_to_response parse m es how) =
     (case how of Stream_failed e \<Rightarrow> Inl e
      | _ \<Rightarrow> Inr (build_response ((read_stream parse m es)\<lparr>sb_stop := stop\<rparr>)))"
proof -
  have r: "rd_state (fold (read_event parse) es (start_reader m)) = read_stream parse m es"
    by (simp add: run_state read_stream_def start_reader_def)
  have "build_response st = build_response (st\<lparr>sb_stop := sb_stop st\<rparr>)" for st by simp
  then have "\<exists>stop. build_response st = build_response (st\<lparr>sb_stop := stop\<rparr>)" for st by blast
  with r show ?thesis
    by (cases how) (auto simp: stream_to_response_def Let_def on_state_def)
qed

section \<open>Batching is invisible\<close>

fun merge :: "emission list \<Rightarrow> emission list" where
  "merge [] = []"
| "merge (Emit_text a # es) =
     (case merge es of Emit_text b # es' \<Rightarrow> Emit_text (a @ b) # es' | es' \<Rightarrow> Emit_text a # es')"
| "merge (e # es) = e # merge es"

definition emission_of :: "stream_event \<Rightarrow> streaming \<Rightarrow> emission list" where
  "emission_of e st =
     (case e of
        Text_delta t \<Rightarrow> [Emit_text t]
      | Tool_start i n \<Rightarrow> [Emit_tool_start i n]
      | Tool_stop i input meta \<Rightarrow>
          [Emit_tool_stop i (case jm_get (sb_tools st) i of None \<Rightarrow> ''unknown'' | Some t \<Rightarrow> to_name t)]
      | Thinking_delta t \<Rightarrow> [Emit_thinking t]
      | _ \<Rightarrow> [])"

fun plain_emissions :: "(string \<Rightarrow> json option) \<Rightarrow> (stream_event \<times> string) list \<Rightarrow> streaming \<Rightarrow> emission list" where
  "plain_emissions parse [] st = []"
| "plain_emissions parse (e # es) st = emission_of (fst e) st @ plain_emissions parse es (apply_event parse e st)"

lemma merge_cong: "merge xs = merge ys \<Longrightarrow> merge (e # xs) = merge (e # ys)"
  by (cases e) simp_all

lemma merge_left: "merge (merge xs @ ys) = merge (xs @ ys)"
proof (induction xs rule: merge.induct)
  case (2 a es)
  show ?case
  proof (cases "merge es")
    case Nil
    with 2 show ?thesis by (simp split: list.split emission.split)
  next
    case (Cons e es')
    with 2 have "merge (e # es' @ ys) = merge (es @ ys)" by simp
    moreover have "merge (Emit_text (a @ b) # zs) = merge (Emit_text a # Emit_text b # zs)" for b zs
      by (simp split: list.split emission.split)
    ultimately show ?thesis using Cons by (cases e) (auto simp del: merge.simps(2) intro: merge_cong simp: merge.simps(2) [of a es])
  qed
qed simp_all

lemma merge_append_eq: "merge xs = merge ys \<Longrightarrow> merge (xs @ zs) = merge (ys @ zs)"
  using merge_left by metis

lemma merge_join: "merge (xs @ [Emit_text a, Emit_text b]) = merge (xs @ [Emit_text (a @ b)])"
  by (induction xs) (auto intro: merge_cong)

text \<open>What is sent, with what is still held back.\<close>

definition sent_and_held :: "reader \<Rightarrow> emission list" where
  "sent_and_held r = rd_sent r @ (if 0 < rd_count r then [Emit_text (rd_pending r)] else [])"

definition held_empty :: "reader \<Rightarrow> bool" where
  "held_empty r = (if rd_count r = 0 then rd_pending r = '''' else True)"

lemma flush_sent: "held_empty r \<Longrightarrow> rd_sent (flush_text r) = sent_and_held r \<and> rd_count (flush_text r) = 0 \<and> rd_pending (flush_text r) = ''''"
  by (simp add: flush_text_def sent_and_held_def held_empty_def)

lemma read_sent:
  assumes "held_empty r"
  shows "held_empty (read_event parse e r) \<and>
    merge (sent_and_held (read_event parse e r)) = merge (sent_and_held r @ emission_of (fst e) (rd_state r))"
proof (cases "fst e")
  case (Text_delta t)
  have "merge (sent_and_held r @ [Emit_text t]) =
      merge (rd_sent r @ [Emit_text (rd_pending r @ t)])"
    using assms by (simp add: sent_and_held_def held_empty_def merge_join)
  with Text_delta show ?thesis
    by (simp add: read_event_def emission_of_def on_state_def flush_text_def held_empty_def sent_and_held_def Let_def)
next
  case (Tool_start i n)
  with flush_sent [OF assms] show ?thesis
    by (simp add: read_event_def emission_of_def on_state_def announce_def held_empty_def) (simp add: sent_and_held_def)
next
  case (Tool_stop i input meta)
  with flush_sent [OF assms] show ?thesis
    by (simp add: read_event_def emission_of_def on_state_def announce_def held_empty_def Let_def) (simp add: sent_and_held_def)
next
  case (Thinking_delta t)
  with flush_sent [OF assms] show ?thesis
    by (simp add: read_event_def emission_of_def on_state_def announce_def held_empty_def) (simp add: sent_and_held_def)
qed (use assms in \<open>simp_all add: read_event_def emission_of_def on_state_def held_empty_def sent_and_held_def\<close>)

lemma run_sent:
  "held_empty r \<Longrightarrow>
     held_empty (fold (read_event parse) es r) \<and>
     merge (sent_and_held (fold (read_event parse) es r)) =
       merge (sent_and_held r @ plain_emissions parse es (rd_state r))"
proof (induction es arbitrary: r)
  case (Cons e es)
  note step = read_sent [OF Cons.prems, of parse e]
  with Cons.IH [of "read_event parse e r"] have
    "held_empty (fold (read_event parse) (e # es) r)"
    "merge (sent_and_held (fold (read_event parse) (e # es) r)) =
       merge (sent_and_held (read_event parse e r) @ plain_emissions parse es (apply_event parse e (rd_state r)))"
    by (simp_all add: read_state)
  with merge_append_eq [OF conjunct2 [OF step]] show ?case by simp
qed simp

text \<open>Sending text in batches is invisible: unless the stream fails, what is announced is, up to the
  places where text is cut, what would be announced event by event, in the same order.\<close>

theorem batching_invisible:
  assumes "\<And>e. how \<noteq> Stream_failed e"
  shows "merge (snd (stream_to_response parse m es how)) =
    merge (plain_emissions parse es (create_streaming_state m))"
proof -
  let ?r = "fold (read_event parse) es (start_reader m)"
  have "held_empty ?r \<and> merge (sent_and_held ?r) = merge (plain_emissions parse es (create_streaming_state m))"
    using run_sent [of "start_reader m" parse es] by (simp add: start_reader_def held_empty_def sent_and_held_def)
  moreover have "held_empty (on_state f ?r) = held_empty ?r" "sent_and_held (on_state f ?r) = sent_and_held ?r" for f
    by (simp_all add: held_empty_def sent_and_held_def on_state_def)
  ultimately show ?thesis
    using assms by (cases how) (auto simp: stream_to_response_def Let_def flush_sent)
qed

definition demo_stream :: "(stream_event \<times> string) list" where
  "demo_stream = map (\<lambda>e. (e, ''''))
     [Text_delta ''a'', Text_delta ''b'', Text_delta ''c'', Text_delta ''d'', Text_delta ''e'', Tool_start ''t'' ''bash'',
      Tool_input ''t'' ''{'', Tool_input ''t'' ''}'', Tool_stop ''t'' None None]"

theorem batching_invisible_witness:
  "merge (snd (stream_to_response (\<lambda>_. None) ''m'' demo_stream Stream_done)) =
     [Emit_text ''abcde'', Emit_tool_start ''t'' ''bash'', Emit_tool_stop ''t'' ''bash'']"
proof -
  have "merge (snd (stream_to_response (\<lambda>_. None) ''m'' demo_stream Stream_done)) =
      merge (plain_emissions (\<lambda>_. None) demo_stream (create_streaming_state ''m''))"
    by (rule batching_invisible) simp
  also have "\<dots> = [Emit_text ''abcde'', Emit_tool_start ''t'' ''bash'', Emit_tool_stop ''t'' ''bash'']"
    by code_simp
  finally show ?thesis .
qed


section \<open>No text is lost\<close>

fun text_refs :: "block_ref list \<Rightarrow> nat list" where
  "text_refs [] = []"
| "text_refs (Text_at i # bs) = i # text_refs bs"
| "text_refs (b # bs) = text_refs bs"

fun thinking_refs :: "block_ref list \<Rightarrow> nat list" where
  "thinking_refs [] = []"
| "thinking_refs (Thinking_at i # bs) = i # thinking_refs bs"
| "thinking_refs (b # bs) = thinking_refs bs"

lemma text_refs_append [simp]: "text_refs (a @ b) = text_refs a @ text_refs b"
  by (induction a rule: text_refs.induct) simp_all

lemma thinking_refs_append [simp]: "thinking_refs (a @ b) = thinking_refs a @ thinking_refs b"
  by (induction a rule: thinking_refs.induct) simp_all

definition at_last :: "nat option \<Rightarrow> 'a list \<Rightarrow> bool" where
  "at_last i xs = (case i of None \<Rightarrow> True | Some k \<Rightarrow> Suc k = length xs)"

text \<open>The blocks refer to the buffers in order, and only the last buffer of each kind can be open.\<close>

definition shaped :: "streaming \<Rightarrow> bool" where
  "shaped st =
     (text_refs (sb_order st) = [0..<length (sb_texts st)] \<and>
      thinking_refs (sb_order st) = [0..<length (sb_thinking st)] \<and>
      at_last (sb_text_at st) (sb_texts st) \<and> at_last (sb_thinking_at st) (sb_thinking st))"

definition thinking_text :: "streaming \<Rightarrow> string" where
  "thinking_text st = concat (map te_text (sb_thinking st))"

lemma last_split: "Suc i = length xs \<Longrightarrow> xs = butlast xs @ [xs ! i] \<and> i = length (butlast xs)"
  by (cases xs rule: rev_exhaust) (auto simp: nth_append)

lemma update_last: "Suc i = length xs \<Longrightarrow> xs[i := y] = butlast xs @ [y]"
  by (cases xs rule: rev_exhaust) auto

lemma concat_update_last:
  "Suc i = length xs \<Longrightarrow> f y = f (xs ! i) @ t \<Longrightarrow> concat (map f (xs[i := y])) = concat (map f xs) @ t"
  by (cases xs rule: rev_exhaust) (auto simp: nth_append)

definition text_part :: "stream_event \<Rightarrow> string" where
  "text_part e = (case e of Text_delta t \<Rightarrow> t | _ \<Rightarrow> '''')"

definition thinking_part :: "stream_event \<Rightarrow> string" where
  "thinking_part e = (case e of Thinking_delta t \<Rightarrow> t | _ \<Rightarrow> '''')"

definition grows :: "string \<Rightarrow> string \<Rightarrow> streaming \<Rightarrow> streaming \<Rightarrow> bool" where
  "grows t u st st' =
     (shaped st' \<and> concat (sb_texts st') = concat (sb_texts st) @ t \<and> thinking_text st' = thinking_text st @ u)"

lemma open_text_grows: "shaped st \<Longrightarrow> grows [] [] st (open_text st)"
  by (auto simp: grows_def shaped_def open_text_def at_last_def thinking_text_def)

lemma thinking_start_grows: "shaped st \<Longrightarrow> grows [] [] st (handle_thinking_start meta st)"
  by (auto simp: grows_def shaped_def handle_thinking_start_def at_last_def thinking_text_def)

lemma tool_start_grows: "shaped st \<Longrightarrow> grows [] [] st (handle_tool_use_start i n st)"
  by (simp add: grows_def shaped_def handle_tool_use_start_def at_last_def thinking_text_def)

lemma append_open_text:
  assumes "shaped st" "sb_text_at st = Some i"
  shows "grows t [] st (st\<lparr>sb_texts := (sb_texts st)[i := sb_texts st ! i @ t]\<rparr>)"
proof -
  have i: "Suc i = length (sb_texts st)" using assms by (simp add: shaped_def at_last_def)
  from concat_update_last [OF i, of "\<lambda>s. s"] assms i show ?thesis
    by (simp add: grows_def shaped_def at_last_def thinking_text_def)
qed

lemma text_delta_grows:
  assumes "shaped st" shows "grows t [] st (handle_text_delta t st)"
proof (cases "sb_text_at st")
  case None
  have at: "sb_text_at (open_text st) = Some (length (sb_texts st))" by (simp add: open_text_def)
  from open_text_grows [OF assms] have o: "grows [] [] st (open_text st)" .
  then have "shaped (open_text st)" by (simp add: grows_def)
  from append_open_text [OF this at, of t] o None at show ?thesis
    by (simp add: handle_text_delta_def grows_def Let_def)
next
  case (Some i)
  with append_open_text [OF assms Some, of t] show ?thesis by (simp add: handle_text_delta_def)
qed

lemma on_thinking_grows:
  assumes "shaped st" "\<And>e. te_text (f e) = te_text e @ u"
  shows "grows [] u st (on_thinking f st)"
proof -
  have open_case: "grows [] u st' (on_thinking f st')" if "shaped st'" "sb_thinking_at st' = Some i" for st' i
  proof -
    have i: "Suc i = length (sb_thinking st')" using that by (simp add: shaped_def at_last_def)
    from concat_update_last [where f = te_text and xs = "sb_thinking st'" and i = i and t = u
        and y = "f (sb_thinking st' ! i)"] that i assms(2) show ?thesis
      by (simp add: grows_def on_thinking_def shaped_def at_last_def thinking_text_def)
  qed
  show ?thesis
  proof (cases "sb_thinking_at st")
    case None
    let ?st = "handle_thinking_start None st"
    from thinking_start_grows [OF assms(1)] have g: "grows [] [] st ?st" .
    have at: "sb_thinking_at ?st = Some (length (sb_thinking st))" by (simp add: handle_thinking_start_def)
    have "on_thinking f st = on_thinking f ?st" using None at by (simp add: on_thinking_def)
    with g open_case [OF _ at] show ?thesis by (simp add: grows_def)
  qed (use open_case assms(1) in blast)
qed

lemma event_grows:
  assumes "shaped st"
  shows "grows (text_part (fst e)) (thinking_part (fst e)) st (apply_event parse e st)"
proof -
  obtain ev i where e: "e = (ev, i)" by (cases e)
  have same: "grows [] [] st st" using assms by (simp add: grows_def)
  show ?thesis
  proof (cases ev)
    case (Block_start k j n meta)
    with assms show ?thesis
      by (simp add: e text_part_def thinking_part_def handle_content_block_start_def Let_def same
          open_text_grows thinking_start_grows tool_start_grows)
  next
    case (Tool_stop j input meta)
    with assms show ?thesis
      by (simp add: e text_part_def thinking_part_def handle_tool_use_stop_def grows_def shaped_def at_last_def thinking_text_def)
  qed (use assms in \<open>simp_all add: e text_part_def thinking_part_def same open_text_grows thinking_start_grows
      tool_start_grows text_delta_grows handle_thinking_delta_def handle_thinking_signature_def on_thinking_grows
      handle_thinking_stop_def handle_message_start_def handle_message_stop_def handle_tool_use_input_delta_def\<close>,
      simp_all add: grows_def shaped_def at_last_def thinking_text_def)
qed

lemma run_grows:
  "shaped st \<Longrightarrow>
     grows (concat (map (text_part \<circ> fst) es)) (concat (map (thinking_part \<circ> fst) es)) st (fold (apply_event parse) es st)"
proof (induction es arbitrary: st)
  case (Cons e es)
  from event_grows [OF Cons.prems, of e parse] Cons.IH [of "apply_event parse e st"] show ?case
    by (simp add: grows_def)
qed (simp add: grows_def)

definition text_of_block :: "out_block \<Rightarrow> string" where
  "text_of_block b = (case b of Out_text t \<Rightarrow> t | _ \<Rightarrow> '''')"

definition thinking_of_block :: "out_block \<Rightarrow> string" where
  "thinking_of_block b = (case b of Out_thinking t s m \<Rightarrow> t | _ \<Rightarrow> '''')"

definition all_of :: "(out_block \<Rightarrow> string) \<Rightarrow> stream_response \<Rightarrow> string" where
  "all_of f r = concat (map f (sr_content r))"

lemma content_texts:
  "set (text_refs bs) \<subseteq> {..<length (sb_texts st)} \<Longrightarrow>
   concat (map text_of_block (concat (map (build_block st) bs))) = concat (map ((!) (sb_texts st)) (text_refs bs))"
  by (induction bs rule: text_refs.induct)
    (auto simp: build_block_def text_of_block_def Let_def split: option.split)

lemma content_thinking:
  "set (thinking_refs bs) \<subseteq> {..<length (sb_thinking st)} \<Longrightarrow>
   concat (map thinking_of_block (concat (map (build_block st) bs))) =
     concat (map (\<lambda>i. te_text (sb_thinking st ! i)) (thinking_refs bs))"
  by (induction bs rule: thinking_refs.induct)
    (auto simp: build_block_def thinking_of_block_def Let_def split: option.split)

lemma all_of_build:
  "f (Out_text []) = [] \<Longrightarrow>
     all_of f (build_response st) = concat (map f (concat (map (build_block st) (sb_order st))))"
  by (simp add: all_of_def build_response_def Let_def)

lemma response_texts:
  assumes "shaped st"
  shows "all_of text_of_block (build_response st) = concat (sb_texts st)"
    "all_of thinking_of_block (build_response st) = thinking_text st"
proof -
  have "concat (map text_of_block (concat (map (build_block st) (sb_order st)))) =
      concat (map ((!) (sb_texts st)) [0..<length (sb_texts st)])"
    using content_texts [of "sb_order st" st] assms by (simp add: shaped_def lessThan_atLeast0)
  then show "all_of text_of_block (build_response st) = concat (sb_texts st)"
    by (simp add: all_of_build text_of_block_def map_nth)
  have texts: "map (\<lambda>i. te_text (sb_thinking st ! i)) [0..<length (sb_thinking st)] = map te_text (sb_thinking st)"
    by (rule nth_equalityI) simp_all
  have "concat (map thinking_of_block (concat (map (build_block st) (sb_order st)))) =
      concat (map te_text (sb_thinking st))"
    using content_thinking [of "sb_order st" st] assms by (simp add: shaped_def lessThan_atLeast0 texts)
  then show "all_of thinking_of_block (build_response st) = thinking_text st"
    by (simp add: all_of_build thinking_of_block_def thinking_text_def)
qed

text \<open>No text is lost and none is invented: unless the stream fails, also when it is aborted, the
  texts of the response put together are the text deltas put together, and likewise for thinking.\<close>

theorem response_text_exact:
  assumes "fst (stream_to_response parse m es how) = Inr r"
  shows "all_of text_of_block r = concat (map (text_part \<circ> fst) es) \<and>
    all_of thinking_of_block r = concat (map (thinking_part \<circ> fst) es)"
proof -
  obtain stop where "r = build_response ((read_stream parse m es)\<lparr>sb_stop := stop\<rparr>)"
    using response_of_state [of parse m es how] assms by (cases how) auto
  moreover have "grows (concat (map (text_part \<circ> fst) es)) (concat (map (thinking_part \<circ> fst) es))
      (create_streaming_state m) (read_stream parse m es)"
    unfolding read_stream_def
    by (rule run_grows) (simp add: shaped_def create_streaming_state_def at_last_def)
  ultimately show ?thesis
    using response_texts [of "(read_stream parse m es)\<lparr>sb_stop := stop\<rparr>"]
    by (simp add: grows_def shaped_def thinking_text_def create_streaming_state_def)
qed

theorem response_text_exact_witness:
  "\<exists>r. fst (stream_to_response (\<lambda>_. None) ''m'' demo_stream Stream_aborted) = Inr r \<and> all_of text_of_block r = ''abcde''"
proof -
  obtain r where r: "fst (stream_to_response (\<lambda>_. None) ''m'' demo_stream Stream_aborted) = Inr r"
    using response_of_state [of "\<lambda>_. None" "''m''" demo_stream Stream_aborted] by auto
  from response_text_exact [OF this] r show ?thesis
    by (auto simp: demo_stream_def text_part_def)
qed


section \<open>Calls are assembled from their own fragments\<close>

definition names_call :: "string \<Rightarrow> stream_event \<times> string \<Rightarrow> bool" where
  "names_call i e =
     (case fst e of
        Tool_start j n \<Rightarrow> j = i
      | Tool_input j p \<Rightarrow> j = i
      | Tool_stop j input meta \<Rightarrow> j = i
      | Block_start k j n meta \<Rightarrow>
          k = Some ''tool_use'' \<and> (case j of None \<Rightarrow> snd e | Some x \<Rightarrow> x) = i
      | _ \<Rightarrow> False)"

definition call_of :: "streaming \<Rightarrow> string \<Rightarrow> tool_entry option" where
  "call_of st i = jm_get (sb_tools st) i"

definition refs_of :: "streaming \<Rightarrow> string \<Rightarrow> nat" where
  "refs_of st i = length (filter (\<lambda>b. b = Tool_ref i) (sb_order st))"

definition same_calls :: "streaming \<Rightarrow> streaming \<Rightarrow> bool" where
  "same_calls st st' = (sb_tools st = sb_tools st' \<and> (\<forall>i. refs_of st i = refs_of st' i))"

lemma open_text_calls: "same_calls (open_text st) st"
  by (simp add: same_calls_def open_text_def refs_of_def)

lemma thinking_start_calls: "same_calls (handle_thinking_start meta st) st"
  by (simp add: same_calls_def handle_thinking_start_def refs_of_def)

lemma text_delta_calls: "same_calls (handle_text_delta t st) st"
  using open_text_calls [of st]
  by (simp add: same_calls_def handle_text_delta_def refs_of_def Let_def split: option.split)

lemma on_thinking_calls: "same_calls (on_thinking f st) st"
  using thinking_start_calls [of None st]
  by (simp add: same_calls_def on_thinking_def refs_of_def Let_def split: option.split)

lemma event_other_calls:
  "(case ev of Text_delta t \<Rightarrow> True | Thinking_start t \<Rightarrow> True | Thinking_delta t \<Rightarrow> True | Thinking_signature s \<Rightarrow> True
      | Thinking_stop \<Rightarrow> True | Message_start s \<Rightarrow> True | Message_stop r u \<Rightarrow> True | Block_stop \<Rightarrow> True
      | Unknown_event s \<Rightarrow> True | _ \<Rightarrow> False) \<Longrightarrow> same_calls (apply_event parse (ev, x) st) st"
  by (cases ev)
    (simp_all add: text_delta_calls thinking_start_calls on_thinking_calls handle_thinking_delta_def
      handle_thinking_signature_def handle_thinking_stop_def handle_message_start_def handle_message_stop_def,
     simp_all add: same_calls_def refs_of_def)

lemma block_start_calls:
  "k \<noteq> Some ''tool_use'' \<Longrightarrow> same_calls (handle_content_block_start f k i n meta st) st"
  by (auto simp: handle_content_block_start_def Let_def open_text_calls thinking_start_calls split: option.split)
    (simp_all add: same_calls_def)

lemma event_other_call:
  assumes "\<not> names_call i e"
  shows "call_of (apply_event parse e st) i = call_of st i \<and> refs_of (apply_event parse e st) i = refs_of st i"
proof -
  obtain ev x where e: "e = (ev, x)" by (cases e)
  note facts = event_other_calls [of ev parse x st]
  show ?thesis
  proof (cases ev)
    case (Block_start k j n meta)
    show ?thesis
    proof (cases "k = Some ''tool_use''")
      case True
      with assms Block_start show ?thesis
        by (cases j) (simp_all add: e names_call_def call_of_def refs_of_def handle_content_block_start_def handle_tool_use_start_def)
    next
      case False
      from block_start_calls [OF this, of x j n meta st] Block_start show ?thesis
        by (simp add: e same_calls_def call_of_def)
    qed
  qed (use facts assms in \<open>simp_all add: e names_call_def same_calls_def call_of_def\<close>,
      simp_all add: refs_of_def handle_tool_use_start_def handle_tool_use_input_delta_def handle_tool_use_stop_def)
qed

lemma event_own_call:
  assumes "names_call i e" "call_of st i = call_of st' i" "refs_of st i = refs_of st' i"
  shows "call_of (apply_event parse e st) i = call_of (apply_event parse e st') i \<and>
    refs_of (apply_event parse e st) i = refs_of (apply_event parse e st') i"
proof -
  obtain ev x where e: "e = (ev, x)" by (cases e)
  show ?thesis
    using assms
    by (cases ev)
      (simp_all add: e names_call_def call_of_def refs_of_def handle_content_block_start_def handle_tool_use_start_def
        handle_tool_use_input_delta_def handle_tool_use_stop_def)
qed

text \<open>However the fragments of several calls are interleaved, what becomes of a call depends only on
  the events that carry its identifier.\<close>

lemma calls_independent:
  "call_of st i = call_of st' i \<Longrightarrow> refs_of st i = refs_of st' i \<Longrightarrow>
     call_of (fold (apply_event parse) es st) i =
       call_of (fold (apply_event parse) (filter (names_call i) es) st') i \<and>
     refs_of (fold (apply_event parse) es st) i =
       refs_of (fold (apply_event parse) (filter (names_call i) es) st') i"
proof (induction es arbitrary: st st')
  case (Cons e es)
  show ?case
  proof (cases "names_call i e")
    case True
    with Cons event_own_call [OF True Cons.prems, of parse] show ?thesis by simp
  next
    case False
    with Cons event_other_call [OF False, of parse st] show ?thesis by simp
  qed
qed simp

definition is_call :: "string \<Rightarrow> out_block \<Rightarrow> bool" where
  "is_call i b = (case b of Out_tool j n v m \<Rightarrow> j = i | _ \<Rightarrow> False)"

definition call_block :: "string \<Rightarrow> tool_entry \<Rightarrow> out_block" where
  "call_block i t =
     Out_tool i (to_name t)
       (case to_input t of None \<Rightarrow> JObj [] | Some v \<Rightarrow> if v = JNull then JObj [] else v) (kept_meta (to_meta t))"

lemma calls_of_content:
  "filter (is_call i) (sr_content (build_response st)) =
     (case call_of st i of None \<Rightarrow> [] | Some t \<Rightarrow> replicate (refs_of st i) (call_block i t))"
proof -
  have block: "filter (is_call i) (build_block st b) =
      (if b = Tool_ref i then (case call_of st i of None \<Rightarrow> [] | Some t \<Rightarrow> [call_block i t]) else [])" for b
    by (cases b) (auto simp: build_block_def is_call_def call_of_def call_block_def Let_def split: option.split)
  have "filter (is_call i) (concat (map (build_block st) bs)) =
      (case call_of st i of None \<Rightarrow> [] | Some t \<Rightarrow> replicate (length (filter (\<lambda>b. b = Tool_ref i) bs)) (call_block i t))" for bs
    by (induction bs) (auto simp: block split: option.split)
  moreover have "filter (is_call i) (if c = [] then [Out_text '''' ] else c) = filter (is_call i) c" for c
    by (simp add: is_call_def)
  ultimately show ?thesis by (simp only: build_response_def refs_of_def Let_def stream_response.simps)
qed

lemma inputs_collected:
  "call_of st i = Some t \<Longrightarrow> list_all (\<lambda>e. \<exists>p. fst e = Tool_input i p) es \<Longrightarrow>
     call_of (fold (apply_event parse) es st) i =
       Some (t\<lparr>to_partial := to_partial t @ concat (map (\<lambda>e. case fst e of Tool_input j p \<Rightarrow> p | _ \<Rightarrow> '''') es)\<rparr>) \<and>
     refs_of (fold (apply_event parse) es st) i = refs_of st i"
proof (induction es arbitrary: st t)
  case (Cons e es)
  obtain p x where e: "e = (Tool_input i p, x)" using Cons.prems(2) by (cases e) auto
  let ?st = "apply_event parse e st"
  have "call_of ?st i = Some (t\<lparr>to_partial := to_partial t @ p\<rparr>)" "refs_of ?st i = refs_of st i"
    using Cons.prems(1) by (simp_all add: e call_of_def refs_of_def handle_tool_use_input_delta_def)
  with Cons.IH [of ?st] Cons.prems(2) show ?case by (simp add: e)
qed simp

text \<open>C4. A call that is opened once, whose arguments arrive in any number of fragments and which is then
  closed appears in the response exactly once, with the parse of its fragments put together, whatever
  other events lie between them.\<close>

theorem call_assembled:
  assumes "fst (stream_to_response parse m es how) = Inr r"
    "map fst (filter (names_call i) es) = Tool_start i n # map (Tool_input i) ps @ [Tool_stop i None meta]"
    "safe_json_or_raw parse (concat ps) \<noteq> JNull"
  shows "filter (is_call i) (sr_content r) =
    [Out_tool i n (safe_json_or_raw parse (concat ps)) (kept_meta meta)]"
proof -
  obtain a bs c where f: "filter (names_call i) es = a # bs @ [c]"
    "fst a = Tool_start i n" "map fst bs = map (Tool_input i) ps" "fst c = Tool_stop i None meta"
    using assms(2) by (auto simp: map_eq_Cons_conv map_eq_append_conv)
  obtain xa where a: "a = (Tool_start i n, xa)" using f(2) by (cases a) auto
  obtain xc where c: "c = (Tool_stop i None meta, xc)" using f(4) by (cases c) auto
  obtain stop where r: "r = build_response ((read_stream parse m es)\<lparr>sb_stop := stop\<rparr>)"
    using response_of_state [of parse m es how] assms(1) by (cases how) auto
  let ?s0 = "create_streaming_state m"
  let ?s1 = "apply_event parse a ?s0"
  let ?s2 = "fold (apply_event parse) bs ?s1"
  have s1: "call_of ?s1 i = Some \<lparr>to_name = n, to_partial = '''', to_input = None, to_meta = None\<rparr>" "refs_of ?s1 i = 1"
    by (simp_all add: a call_of_def refs_of_def handle_tool_use_start_def create_streaming_state_def jm_get_Cons)
  have "list_all (\<lambda>e. \<exists>p. fst e = Tool_input i p) bs"
  proof -
    have "\<forall>x\<in>set (map fst bs). \<exists>p. x = Tool_input i p" unfolding f(3) by auto
    then show ?thesis by (simp add: list_all_iff)
  qed
  moreover have "concat (map (\<lambda>e. case fst e of Tool_input j p \<Rightarrow> p | _ \<Rightarrow> '''') bs) = concat ps"
  proof -
    have "map (\<lambda>e. case fst e of Tool_input j p \<Rightarrow> p | _ \<Rightarrow> '''') bs =
        map (\<lambda>ev. case ev of Tool_input j p \<Rightarrow> p | _ \<Rightarrow> '''') (map fst bs)" by simp
    also have "\<dots> = ps" unfolding f(3) by (simp add: comp_def)
    finally show ?thesis by simp
  qed
  ultimately have s2: "call_of ?s2 i = Some \<lparr>to_name = n, to_partial = concat ps, to_input = None, to_meta = None\<rparr>"
      "refs_of ?s2 i = 1"
    using inputs_collected [OF s1(1), of bs parse] s1(2) by simp_all
  have "call_of (apply_event parse c ?s2) i =
      Some \<lparr>to_name = n, to_partial = concat ps, to_input = Some (safe_json_or_raw parse (concat ps)), to_meta = meta\<rparr>"
      "refs_of (apply_event parse c ?s2) i = 1"
    using s2 by (simp_all add: c call_of_def refs_of_def handle_tool_use_stop_def split: option.split)
  then have "call_of (read_stream parse m es) i =
      Some \<lparr>to_name = n, to_partial = concat ps, to_input = Some (safe_json_or_raw parse (concat ps)), to_meta = meta\<rparr>"
      "refs_of (read_stream parse m es) i = 1"
    using calls_independent [OF refl refl, of parse es ?s0 i] unfolding f(1) by (simp_all add: read_stream_def)
  with assms(3) show ?thesis
    unfolding r calls_of_content by (simp add: call_of_def refs_of_def call_block_def)
qed

theorem call_assembled_witness:
  "\<exists>r. fst (stream_to_response (\<lambda>s. if s = ''{}'' then Some (JObj []) else None) ''m'' demo_stream Stream_done) = Inr r \<and>
     filter (is_call ''t'') (sr_content r) = [Out_tool ''t'' ''bash'' (JObj []) None]"
proof -
  let ?parse = "\<lambda>s. if s = ''{}'' then Some (JObj []) else None"
  obtain r where r: "fst (stream_to_response ?parse ''m'' demo_stream Stream_done) = Inr r"
    using response_of_state [of ?parse "''m''" demo_stream Stream_done] by auto
  have "map fst (filter (names_call ''t'') demo_stream) =
      Tool_start ''t'' ''bash'' # map (Tool_input ''t'') [''{'', ''}''] @ [Tool_stop ''t'' None None]"
    by (simp add: demo_stream_def names_call_def)
  from call_assembled [OF r this] r show ?thesis by (simp add: safe_json_or_raw_def kept_meta_def)
qed

text \<open>A call that the stream never closes loses what was sent of its arguments: it is in the response
  with an empty object.\<close>

theorem unclosed_call_is_empty:
  "let es = map (\<lambda>e. (e, '''')) [Tool_start ''t'' ''bash'', Tool_input ''t'' args]
   in (case fst (stream_to_response parse m es Stream_done) of
         Inl e \<Rightarrow> False
       | Inr r \<Rightarrow> sr_content r = [Out_tool ''t'' ''bash'' (JObj []) None])"
  by (simp add: stream_to_response_def read_event_def start_reader_def create_streaming_state_def on_state_def
      announce_def flush_text_def handle_tool_use_start_def handle_tool_use_input_delta_def build_response_def
      build_block_def jm_update_def jm_get_Cons kept_meta_def Let_def)

text \<open>An identifier that is opened twice yields two blocks with the same identifier, both with what
  arrived last.\<close>

theorem reopened_call_doubles:
  "let es = map (\<lambda>e. (e, '''')) [Tool_start ''t'' ''read'', Tool_stop ''t'' (Some (JObj [])) None, Tool_start ''t'' ''bash'']
   in (case fst (stream_to_response parse m es Stream_done) of
         Inl e \<Rightarrow> False
       | Inr r \<Rightarrow> sr_content r = [Out_tool ''t'' ''bash'' (JObj []) None, Out_tool ''t'' ''bash'' (JObj []) None])"
  by (simp add: stream_to_response_def read_event_def start_reader_def create_streaming_state_def on_state_def
      announce_def flush_text_def handle_tool_use_start_def handle_tool_use_stop_def build_response_def
      build_block_def jm_update_def jm_get_Cons kept_meta_def Let_def)

end
