(* ===== verification/Ip_Guard.thy ===== *)
theory Ip_Guard
  imports Js_String "HOL-Library.Word"
begin

text \<open>
  The guard against requests to private addresses, \<open>packages/core/src/utils/ip-guard.ts\<close>: IPv4 and
  IPv6 literals and the check of a host name. Name resolution and the test whether a host is an
  address literal are the runtime's and arguments of the definitions.

  The reference for the guard is a list of address blocks over words of 32 and 16 bits.
\<close>

unbundle bit_operations_syntax

section \<open>Number.parseInt\<close>

definition hex_value :: "char \<Rightarrow> nat option" where
  "hex_value c =
     (let n = of_char c :: nat
      in if 48 \<le> n \<and> n \<le> 57 then Some (n - 48)
         else if 97 \<le> n \<and> n \<le> 102 then Some (n - 87)
         else if 65 \<le> n \<and> n \<le> 70 then Some (n - 55)
         else None)"

definition digit_value :: "nat \<Rightarrow> char \<Rightarrow> nat option" where
  "digit_value base c = (case hex_value c of Some d \<Rightarrow> if d < base then Some d else None | None \<Rightarrow> None)"

text \<open>The longest prefix of digits.\<close>

fun parse_digits :: "nat \<Rightarrow> string \<Rightarrow> nat \<Rightarrow> nat" where
  "parse_digits base [] acc = acc"
| "parse_digits base (c # s) acc =
     (case digit_value base c of Some d \<Rightarrow> parse_digits base s (acc * base + d) | None \<Rightarrow> acc)"

definition parse_magnitude :: "nat \<Rightarrow> string \<Rightarrow> int option" where
  "parse_magnitude base s =
     (let t = (if base = 16 \<and> (starts_with s ''0x'' \<or> starts_with s ''0X'') then drop 2 s else s)
      in case t of [] \<Rightarrow> None
         | c # _ \<Rightarrow> (case digit_value base c of None \<Rightarrow> None | Some _ \<Rightarrow> Some (int (parse_digits base t 0))))"

text \<open>None is \<open>NaN\<close>.\<close>

definition js_parse_int :: "nat \<Rightarrow> string \<Rightarrow> int option" where
  "js_parse_int base s =
     (let t = dropWhile is_js_space s
      in case t of
           c # r \<Rightarrow> if c = CHR ''-'' then map_option uminus (parse_magnitude base r)
                    else if c = CHR ''+'' then parse_magnitude base r
                    else parse_magnitude base t
         | [] \<Rightarrow> None)"

section \<open>IPv4\<close>

definition is_private_ipv4 :: "string \<Rightarrow> bool" where
  "is_private_ipv4 addr =
     (case map (js_parse_int 10) (js_split CHR ''.'' addr) of
        [Some a, Some b, Some c, Some d] \<Rightarrow>
          if list_ex (\<lambda>n. n < 0 \<or> 255 < n) [a, b, c, d] then True
          else if a = 0 then True
          else if a = 10 then True
          else if a = 127 then True
          else if a = 169 \<and> b = 254 then True
          else if a = 172 \<and> 16 \<le> b \<and> b \<le> 31 then True
          else if a = 192 \<and> b = 168 then True
          else if a = 192 \<and> b = 0 \<and> c = 0 then True
          else if a = 100 \<and> 64 \<le> b \<and> b \<le> 127 then True
          else 224 \<le> a
      | _ \<Rightarrow> True)"

section \<open>IPv6\<close>

fun split_double :: "string \<Rightarrow> string list" where
  "split_double [] = [[]]"
| "split_double (c # s) =
     (if starts_with (c # s) ''::'' then [] # split_double (drop 2 (c # s))
      else (case split_double s of [] \<Rightarrow> [[c]] | p # ps \<Rightarrow> (c # p) # ps))"

fun parse_group_list :: "string list \<Rightarrow> int list option" where
  "parse_group_list [] = Some []"
| "parse_group_list (g # gs) =
     (if g = [] \<or> 4 < length g then None
      else case js_parse_int 16 g of
             None \<Rightarrow> None
           | Some n \<Rightarrow> if n < 0 \<or> 0xFFFF < n then None else map_option (\<lambda>ns. n # ns) (parse_group_list gs))"

definition parse_groups :: "string \<Rightarrow> int list option" where
  "parse_groups s = (if s = '''' then Some [] else parse_group_list (js_split CHR '':'' s))"

definition expand_ipv6 :: "string \<Rightarrow> int list option" where
  "expand_ipv6 addr =
     (case split_double addr of
        [whole] \<Rightarrow>
          (case parse_groups whole of
             Some gs \<Rightarrow> if length gs = 8 then Some gs else None
           | None \<Rightarrow> None)
      | [h, t] \<Rightarrow>
          (case (parse_groups h, parse_groups t) of
             (Some hs, Some ts) \<Rightarrow>
               if 8 < length hs + length ts then None
               else Some (hs @ replicate (8 - length hs - length ts) 0 @ ts)
           | _ \<Rightarrow> None)
      | _ \<Rightarrow> None)"

definition dotted :: "nat \<Rightarrow> nat \<Rightarrow> nat \<Rightarrow> nat \<Rightarrow> string" where
  "dotted a b c d = show_nat a @ ''.'' @ show_nat b @ ''.'' @ show_nat c @ ''.'' @ show_nat d"

definition group_word :: "int \<Rightarrow> 16 word" where
  "group_word n = word_of_int n"

definition private_groups :: "int list \<Rightarrow> bool" where
  "private_groups gs =
     (if take 6 gs = [0, 0, 0, 0, 0, 0xFFFF] then
        let g6 = group_word (gs ! 6); g7 = group_word (gs ! 7)
        in is_private_ipv4 (dotted (unat (drop_bit 8 g6)) (unat (g6 AND 0xFF))
                              (unat (drop_bit 8 g7)) (unat (g7 AND 0xFF)))
      else
        let high = group_word (gs ! 0)
        in if high AND 0xFE00 = 0xFC00 then True
           else if high AND 0xFFC0 = 0xFE80 then True
           else high AND 0xFF00 = 0xFF00)"

definition is_private_ipv6 :: "string \<Rightarrow> bool" where
  "is_private_ipv6 raw =
     (let lower = to_lower raw
      in if lower = ''::'' \<or> lower = ''::1'' then True
         else case expand_ipv6 lower of None \<Rightarrow> True | Some gs \<Rightarrow> private_groups gs)"

section \<open>Host names\<close>

definition bad_record :: "nat \<times> string \<Rightarrow> bool" where
  "bad_record r = (if fst r = 4 then is_private_ipv4 (snd r) else is_private_ipv6 (snd r))"

text \<open>\<open>is_ip\<close> is \<open>net.isIP\<close>; \<open>lookup\<close> the records of a name with their families, None when resolution
  fails. The result is the error, if one is thrown.\<close>

definition assert_not_private_host ::
  "(string \<Rightarrow> nat) \<Rightarrow> (string \<Rightarrow> (nat \<times> string) list option) \<Rightarrow> string \<Rightarrow> string option" where
  "assert_not_private_host is_ip lookup hostname =
     (let host = (if starts_with hostname ''['' \<and> ends_with hostname '']''
                  then butlast (drop 1 hostname) else hostname)
      in if host = ''localhost'' \<or> ends_with host ''.localhost'' then Some ''fetch: blocked localhost target''
         else if is_ip host = 4 then
           (if is_private_ipv4 host
            then Some (''fetch: blocked private/loopback address '' @ [CHR 0x22] @ host @ [CHR 0x22]) else None)
         else if is_ip host = 6 then
           (if is_private_ipv6 host
            then Some (''fetch: blocked private/loopback address '' @ [CHR 0x22] @ host @ [CHR 0x22]) else None)
         else
           (case lookup host of
              None \<Rightarrow> None
            | Some rs \<Rightarrow>
                map_option (\<lambda>r. ''fetch: resolved to private address '' @ snd r) (List.find bad_record rs)))"


section \<open>The reference: blocks of addresses\<close>

definition in_block :: "32 word \<Rightarrow> nat \<Rightarrow> 32 word \<Rightarrow> bool" where
  "in_block net len w = (drop_bit (32 - len) w = drop_bit (32 - len) net)"

definition private_blocks :: "(32 word \<times> nat) list" where
  "private_blocks =
     [(0x00000000, 8), (0x0A000000, 8), (0x7F000000, 8), (0xA9FE0000, 16), (0xAC100000, 12),
      (0xC0A80000, 16), (0xC0000000, 24), (0x64400000, 10), (0xE0000000, 4), (0xF0000000, 4)]"

definition in_private_block :: "32 word \<Rightarrow> bool" where
  "in_private_block w = list_ex (\<lambda>(net, len). in_block net len w) private_blocks"

text \<open>An octet of an address, the first being number 3, and the text of an address.\<close>

definition octet :: "nat \<Rightarrow> 32 word \<Rightarrow> nat" where
  "octet i w = unat (drop_bit (8 * i) w) mod 256"

definition address_text :: "32 word \<Rightarrow> string" where
  "address_text w = dotted (octet 3 w) (octet 2 w) (octet 1 w) (octet 0 w)"

section \<open>Reading numerals\<close>

lemma of_char_digit: "d < 10 \<Longrightarrow> (of_char (digit_char d) :: nat) = 48 + d"
  by (simp add: digit_char_def)

lemma digit_value_decimal: "d < 10 \<Longrightarrow> digit_value 10 (digit_char d) = Some d"
  by (simp add: digit_value_def hex_value_def of_char_digit Let_def)

lemma parse_digits_append:
  "list_all (\<lambda>c. digit_value base c \<noteq> None) s \<Longrightarrow>
   parse_digits base (s @ t) acc = parse_digits base t (parse_digits base s acc)"
  by (induction base s acc rule: parse_digits.induct) (auto split: option.splits)

lemma show_nat_values: "list_all (\<lambda>c. digit_value 10 c \<noteq> None) (show_nat n)"
proof (induction n rule: show_nat.induct)
  case (1 n)
  then show ?case by (subst show_nat.simps) (auto simp: digit_value_decimal)
qed

lemma parse_show_nat: "parse_digits 10 (show_nat n) 0 = n"
proof (induction n rule: show_nat.induct)
  case (1 n)
  show ?case
  proof (cases "n < 10")
    case True
    then show ?thesis by (subst show_nat.simps) (simp add: digit_value_decimal)
  next
    case False
    with 1 show ?thesis
      by (subst show_nat.simps)
        (simp add: parse_digits_append [OF show_nat_values] digit_value_decimal)
  qed
qed

lemma hex_value_not_special:
  "hex_value c \<noteq> None \<Longrightarrow> \<not> is_js_space c \<and> c \<noteq> CHR ''-'' \<and> c \<noteq> CHR ''+'' \<and> c \<noteq> CHR ''.'' \<and> c \<noteq> CHR '':'' \<and>
   c \<noteq> CHR ''x'' \<and> c \<noteq> CHR ''X''"
  by (auto simp: hex_value_def is_js_space_def Let_def split: if_splits)

lemma digit_value_hex: "digit_value base c \<noteq> None \<Longrightarrow> hex_value c \<noteq> None"
  by (auto simp: digit_value_def split: option.splits)

lemma js_parse_digits:
  assumes "s \<noteq> []" "list_all (\<lambda>c. digit_value base c \<noteq> None) s"
  shows "js_parse_int base s = Some (int (parse_digits base s 0))"
proof -
  obtain c r where s: "s = c # r" using assms(1) by (cases s) auto
  with assms(2) obtain d where d: "digit_value base c = Some d" by auto
  have c: "hex_value c \<noteq> None" using d digit_value_hex [of base c] by simp
  have r: "list_all (\<lambda>c. hex_value c \<noteq> None) r"
    using assms(2) s digit_value_hex [of base] by (auto simp: list_all_iff)
  have "hex_value CHR ''x'' = None" "hex_value CHR ''X'' = None"
    by (simp_all add: hex_value_def)
  with r have "\<not> starts_with s ''0x''" "\<not> starts_with s ''0X''"
    by (auto simp: s starts_with_def prefix_def)
  then have "parse_magnitude base s = Some (int (parse_digits base s 0))"
    by (simp add: parse_magnitude_def s d Let_def)
  with s hex_value_not_special [OF c] show ?thesis by (simp add: js_parse_int_def Let_def)
qed

lemma js_parse_show_nat: "js_parse_int 10 (show_nat n) = Some (int n)"
  using js_parse_digits [OF show_nat_not_Nil show_nat_values] by (simp add: parse_show_nat)

lemma show_nat_plain: "CHR ''.'' \<notin> set (show_nat n)" "CHR '':'' \<notin> set (show_nat n)"
  using show_nat_values [of n] hex_value_not_special digit_value_hex by (fastforce simp: list_all_iff)+

lemma js_split_Cons: "sep \<notin> set p \<Longrightarrow> js_split sep (p @ sep # q) = p # js_split sep q"
  by (simp add: js_split_at js_split_single)

lemma split_dotted:
  "js_split CHR ''.'' (dotted a b c d) = [show_nat a, show_nat b, show_nat c, show_nat d]"
  by (simp add: dotted_def js_split_Cons js_split_single show_nat_plain)

section \<open>IPv4 addresses\<close>

lemma octets:
  fixes w :: "32 word"
  obtains a b c d where "unat w = ((a * 256 + b) * 256 + c) * 256 + d"
    "a < 256" "b < 256" "c < 256" "d < 256"
    "octet 3 w = a" "octet 2 w = b" "octet 1 w = c" "octet 0 w = d"
proof -
  let ?n = "unat w"
  have n: "?n < 4294967296" using unsigned_less [of w] by simp
  have o: "octet i w = ?n div 2 ^ (8 * i) mod 256" for i
    by (simp only: octet_def unat_drop_bit_eq) (simp add: drop_bit_eq_div)
  show thesis
  proof (rule that [of "?n div 16777216" "?n div 65536 mod 256" "?n div 256 mod 256" "?n mod 256"])
    have s: "?n div 65536 = ?n div 256 div 256" "?n div 16777216 = ?n div 256 div 256 div 256"
      by (simp_all flip: div_mult2_eq)
    show "?n = ((?n div 16777216 * 256 + ?n div 65536 mod 256) * 256 + ?n div 256 mod 256) * 256 + ?n mod 256"
      unfolding s by (simp only: div_mult_mod_eq)
  qed (use n in \<open>simp_all add: o less_mult_imp_div_less\<close>)
qed

lemma div_range_16: "((b :: nat) div 16 = 1) = (16 \<le> b \<and> b \<le> 31)"
  by linarith

lemma div_range_64: "((b :: nat) div 64 = 1) = (64 \<le> b \<and> b \<le> 127)"
  by linarith

lemma div_range_high: "a < 256 \<Longrightarrow> ((a :: nat) div 16 = 14 \<or> a div 16 = 15) = (224 \<le> a)"
  by (auto; linarith)

lemma radix: "y < m \<Longrightarrow> (x * m + y = (n :: nat)) = (x = n div m \<and> y = n mod m)"
  by auto

lemma in_block_div:
  "in_block net len w \<longleftrightarrow> unat w div 2 ^ (32 - len) = unat net div 2 ^ (32 - len)"
  by (simp only: in_block_def word_unat_eq_iff unat_drop_bit_eq) (simp add: drop_bit_eq_div)

lemma in_private_div:
  "in_private_block w \<longleftrightarrow>
     unat w div 16777216 = 0 \<or> unat w div 16777216 = 10 \<or> unat w div 16777216 = 127 \<or>
     unat w div 65536 = 43518 \<or> unat w div 1048576 = 2753 \<or> unat w div 65536 = 49320 \<or>
     unat w div 256 = 12582912 \<or> unat w div 4194304 = 401 \<or>
     (unat w div 268435456 = 14 \<or> unat w div 268435456 = 15)"
proof -
  have block: "in_block net len w \<longleftrightarrow> unat w div m = k" if "2 ^ (32 - len) = m" "unat net div m = k" for net len m k
    using that by (simp only: in_block_div)
  have blocks: "in_block 0 8 w = (unat w div 16777216 = 0)" "in_block 0x0A000000 8 w = (unat w div 16777216 = 10)"
    "in_block 0x7F000000 8 w = (unat w div 16777216 = 127)" "in_block 0xA9FE0000 16 w = (unat w div 65536 = 43518)"
    "in_block 0xAC100000 12 w = (unat w div 1048576 = 2753)" "in_block 0xC0A80000 16 w = (unat w div 65536 = 49320)"
    "in_block 0xC0000000 24 w = (unat w div 256 = 12582912)" "in_block 0x64400000 10 w = (unat w div 4194304 = 401)"
    "in_block 0xE0000000 4 w = (unat w div 268435456 = 14)" "in_block 0xF0000000 4 w = (unat w div 268435456 = 15)"
    by (rule block; simp)+
  show ?thesis
    by (simp only: in_private_block_def private_blocks_def list_ex_Nil_iff list_ex_Cons_iff prod.case blocks simp_thms)
qed


lemma ipv4_blocks:
  "is_private_ipv4 (address_text w) = in_private_block w"
proof -
  obtain a b c d where n: "unat w = ((a * 256 + b) * 256 + c) * 256 + d"
    and lt: "a < 256" "b < 256" "c < 256" "d < 256"
    and o: "octet 3 w = a" "octet 2 w = b" "octet 1 w = c" "octet 0 w = d"
    by (rule octets [of w]) blast
  have "in_private_block w \<longleftrightarrow>
      a = 0 \<or> a = 10 \<or> a = 127 \<or> a = 169 \<and> b = 254 \<or> a = 172 \<and> 16 \<le> b \<and> b \<le> 31 \<or>
      a = 192 \<and> b = 168 \<or> a = 192 \<and> b = 0 \<and> c = 0 \<or> a = 100 \<and> 64 \<le> b \<and> b \<le> 127 \<or> 224 \<le> a"
  proof -
    have divs: "unat w div 16777216 = a" "unat w div 65536 = a * 256 + b"
      "unat w div 256 = (a * 256 + b) * 256 + c" "unat w div 1048576 = a * 16 + b div 16"
      "unat w div 4194304 = a * 4 + b div 64" "unat w div 268435456 = a div 16"
    proof -
      have d1: "unat w div 256 = (a * 256 + b) * 256 + c" using lt unfolding n by simp
      then show "unat w div 256 = (a * 256 + b) * 256 + c" .
      have "unat w div 65536 = unat w div 256 div 256" by (simp flip: div_mult2_eq)
      then show d2: "unat w div 65536 = a * 256 + b" using lt unfolding d1 by simp
      have "unat w div 16777216 = unat w div 65536 div 256" by (simp flip: div_mult2_eq)
      then show d3: "unat w div 16777216 = a" using lt unfolding d2 by simp
      have "unat w div 1048576 = unat w div 65536 div 16" by (simp flip: div_mult2_eq)
      also have "\<dots> = (b + (a * 16) * 16) div 16" unfolding d2 by (simp add: algebra_simps)
      finally show "unat w div 1048576 = a * 16 + b div 16" by (simp only: div_mult_self1)
      have "unat w div 4194304 = unat w div 65536 div 64" by (simp flip: div_mult2_eq)
      also have "\<dots> = (b + (a * 4) * 64) div 64" unfolding d2 by (simp add: algebra_simps)
      finally show "unat w div 4194304 = a * 4 + b div 64" by (simp only: div_mult_self1)
      have "unat w div 268435456 = unat w div 16777216 div 16" by (simp flip: div_mult2_eq)
      then show "unat w div 268435456 = a div 16" unfolding d3 .
    qed
    have pairs: "(a * 256 + b = 43518) = (a = 169 \<and> b = 254)" "(a * 256 + b = 49320) = (a = 192 \<and> b = 168)"
      "((a * 256 + b) * 256 + c = 12582912) = (a = 192 \<and> b = 0 \<and> c = 0)"
      "(a * 16 + b div 16 = 2753) = (a = 172 \<and> 16 \<le> b \<and> b \<le> 31)"
      "(a * 4 + b div 64 = 401) = (a = 100 \<and> 64 \<le> b \<and> b \<le> 127)"
      "(a div 16 = 14 \<or> a div 16 = 15) = (224 \<le> a)"
    proof -
      have b: "b div 16 < 16" "b div 64 < 4" using lt by simp_all
      have "(b div 16 = 1) = (16 \<le> b \<and> b \<le> 31)" "(b div 64 = 1) = (64 \<le> b \<and> b \<le> 127)"
        "(a div 16 = 14 \<or> a div 16 = 15) = (224 \<le> a)"
        by (rule div_range_16 div_range_64 div_range_high [OF lt(1)])+
      then show "(a * 16 + b div 16 = 2753) = (a = 172 \<and> 16 \<le> b \<and> b \<le> 31)"
        "(a * 4 + b div 64 = 401) = (a = 100 \<and> 64 \<le> b \<and> b \<le> 127)"
        "(a div 16 = 14 \<or> a div 16 = 15) = (224 \<le> a)"
        using radix [OF b(1), of a] radix [OF b(2), of a] by simp_all
      show "(a * 256 + b = 43518) = (a = 169 \<and> b = 254)" "(a * 256 + b = 49320) = (a = 192 \<and> b = 168)"
        "((a * 256 + b) * 256 + c = 12582912) = (a = 192 \<and> b = 0 \<and> c = 0)"
        using radix [OF lt(2), of a] radix [OF lt(3), of "a * 256 + b"] by simp_all
    qed
    have "in_private_block w \<longleftrightarrow>
      a = 0 \<or> a = 10 \<or> a = 127 \<or> a * 256 + b = 43518 \<or> a * 16 + b div 16 = 2753 \<or>
      a * 256 + b = 49320 \<or> (a * 256 + b) * 256 + c = 12582912 \<or> a * 4 + b div 64 = 401 \<or>
      (a div 16 = 14 \<or> a div 16 = 15)"
      unfolding in_private_div divs ..
    then show ?thesis unfolding pairs by blast
  qed
  moreover have "is_private_ipv4 (address_text w) \<longleftrightarrow>
      (if a = 0 then True else if a = 10 then True else if a = 127 then True
       else if a = 169 \<and> b = 254 then True else if a = 172 \<and> 16 \<le> b \<and> b \<le> 31 then True
       else if a = 192 \<and> b = 168 then True else if a = 192 \<and> b = 0 \<and> c = 0 then True
       else if a = 100 \<and> 64 \<le> b \<and> b \<le> 127 then True else 224 \<le> a)"
  proof -
    have small: "\<not> list_ex (\<lambda>n. n < 0 \<or> 255 < n) [int a, int b, int c, int d]" using lt by simp
    have cast: "(int a = 0) = (a = 0)" "(int a = 10) = (a = 10)" "(int a = 127) = (a = 127)"
      "(int a = 169) = (a = 169)" "(int b = 254) = (b = 254)" "(int a = 172) = (a = 172)"
      "(16 \<le> int b) = (16 \<le> b)" "(int b \<le> 31) = (b \<le> 31)" "(int a = 192) = (a = 192)"
      "(int b = 168) = (b = 168)" "(int b = 0) = (b = 0)" "(int c = 0) = (c = 0)" "(int a = 100) = (a = 100)"
      "(64 \<le> int b) = (64 \<le> b)" "(int b \<le> 127) = (b \<le> 127)" "(224 \<le> int a) = (224 \<le> a)"
      by linarith+
    show ?thesis
      unfolding address_text_def o is_private_ipv4_def split_dotted list.map js_parse_show_nat
      by (simp only: list.case option.case small if_False cast)
  qed
  ultimately show ?thesis by argo
qed


text \<open>C28. For every IPv4 address in its usual notation, the guard decides membership in the union of the
  private, loopback, link-local, shared, reserved and multicast blocks, bit for bit.\<close>

theorem ipv4_guard_is_block_list:
  "is_private_ipv4 (address_text w) = in_private_block w"
  by (rule ipv4_blocks)

section \<open>IPv6 addresses\<close>

text \<open>The hexadecimal notation of a group, as a specification of the literals.\<close>

definition hex_char :: "nat \<Rightarrow> char" where
  "hex_char d = (if d < 10 then char_of (48 + d) else char_of (87 + d))"

fun show_hex :: "nat \<Rightarrow> string" where
  "show_hex n = (if n < 16 then [hex_char n] else show_hex (n div 16) @ [hex_char (n mod 16)])"

declare show_hex.simps [simp del]

lemma digit_value_hex_char: "d < 16 \<Longrightarrow> digit_value 16 (hex_char d) = Some d"
  by (auto simp: digit_value_def hex_value_def hex_char_def Let_def)

lemma show_hex_not_Nil [simp]: "show_hex n \<noteq> []"
  by (subst show_hex.simps) simp

lemma show_hex_values: "list_all (\<lambda>c. digit_value 16 c \<noteq> None) (show_hex n)"
proof (induction n rule: show_hex.induct)
  case (1 n)
  then show ?case by (subst show_hex.simps) (auto simp: digit_value_hex_char)
qed

lemma parse_show_hex: "parse_digits 16 (show_hex n) 0 = n"
proof (induction n rule: show_hex.induct)
  case (1 n)
  show ?case
  proof (cases "n < 16")
    case True
    then show ?thesis by (subst show_hex.simps) (simp add: digit_value_hex_char)
  next
    case False
    with 1 show ?thesis
      by (subst show_hex.simps) (simp add: parse_digits_append [OF show_hex_values] digit_value_hex_char)
  qed
qed

lemma length_show_hex: "n < 16 ^ k \<Longrightarrow> 0 < k \<Longrightarrow> length (show_hex n) \<le> k"
proof (induction k arbitrary: n)
  case (Suc k)
  show ?case
  proof (cases "n < 16")
    case True
    then show ?thesis by (subst show_hex.simps) simp
  next
    case False
    with Suc.prems have "n div 16 < 16 ^ k" by (simp add: less_mult_imp_div_less)
    moreover have "0 < k" using False Suc.prems by (cases k) auto
    ultimately have "length (show_hex (n div 16)) \<le> k" by (rule Suc.IH)
    with False show ?thesis by (subst show_hex.simps) simp
  qed
qed simp

lemma js_parse_show_hex: "js_parse_int 16 (show_hex n) = Some (int n)"
  using js_parse_digits [OF show_hex_not_Nil show_hex_values] by (simp add: parse_show_hex)

lemma show_hex_plain: "CHR '':'' \<notin> set (show_hex n)"
  using show_hex_values [of n] hex_value_not_special digit_value_hex by (fastforce simp: list_all_iff)

text \<open>A run of groups as text.\<close>

definition groups_text :: "16 word list \<Rightarrow> string" where
  "groups_text gs = js_join '':'' (map (\<lambda>g. show_hex (unat g)) gs)"

lemma group_bounds:
  fixes g :: "16 word"
  shows "length (show_hex (unat g)) \<le> 4" "int (unat g) \<le> 0xFFFF"
proof -
  have "unat g < 65536" using unsigned_less [of g] by simp
  then show "length (show_hex (unat g)) \<le> 4" using length_show_hex [of "unat g" 4] by simp
  from \<open>unat g < 65536\<close> show "int (unat g) \<le> 0xFFFF" by linarith
qed

lemma split_groups_text:
  "gs \<noteq> [] \<Longrightarrow> js_split CHR '':'' (groups_text gs) = map (\<lambda>g. show_hex (unat g)) gs"
  unfolding groups_text_def
proof (induction gs)
  case (Cons g gs)
  then show ?case
    by (cases gs) (simp_all add: js_split_single js_split_Cons show_hex_plain)
qed simp

lemma parse_group_words:
  "parse_group_list (map (\<lambda>g. show_hex (unat g)) gs) = Some (map (\<lambda>g. int (unat (g :: 16 word))) gs)"
  by (induction gs) (use group_bounds in \<open>auto simp: js_parse_show_hex not_less\<close>)

lemma groups_text_Nil_iff [simp]: "groups_text gs = '''' \<longleftrightarrow> gs = []"
  by (cases gs; cases "tl gs") (auto simp: groups_text_def)

lemma parse_groups_text: "parse_groups (groups_text gs) = Some (map (\<lambda>g. int (unat g)) gs)"
  by (cases "gs = []") (simp_all add: parse_groups_def split_groups_text parse_group_words)

lemma split_double_plain:
  assumes "\<not> sublist ''::'' s"
  shows "split_double s = [s]"
  using assms
proof (induction s rule: split_double.induct)
  case (2 c s)
  from 2(3) have "\<not> prefix ''::'' (c # s)" "\<not> sublist ''::'' s"
    by (auto simp: sublist_Cons_right)
  with 2(2) show ?case by (simp add: starts_with_def)
qed simp


lemma double_colon_part: "sublist ''::'' s \<Longrightarrow> [] \<in> set (js_split CHR '':'' s)"
proof -
  assume "sublist ''::'' s"
  then obtain u v where s: "s = u @ CHR '':'' # CHR '':'' # v" by (auto simp: sublist_def)
  show ?thesis unfolding s js_split_append by simp
qed

lemma groups_text_single: "\<not> sublist ''::'' (groups_text gs)"
proof
  assume "sublist ''::'' (groups_text gs)"
  moreover from this have "gs \<noteq> []" by (auto simp: groups_text_def)
  moreover from \<open>sublist ''::'' (groups_text gs)\<close> have "[] \<in> set (js_split CHR '':'' (groups_text gs))"
    by (rule double_colon_part)
  ultimately obtain g :: "16 word" where "[] = show_hex (unat g)" by (auto simp: split_groups_text)
  then show False using show_hex_not_Nil by metis
qed

lemma groups_text_last: "gs \<noteq> [] \<Longrightarrow> last (groups_text gs) \<noteq> CHR '':''"
  unfolding groups_text_def
proof (induction gs)
  case (Cons g gs)
  have "last (show_hex (unat g)) \<noteq> CHR '':''"
    using show_hex_plain [of "unat g"] last_in_set [OF show_hex_not_Nil [of "unat g"]] by metis
  with Cons show ?case
    using groups_text_Nil_iff [of gs, unfolded groups_text_def] by (cases gs) auto
qed simp

lemma split_double_at:
  "\<not> sublist ''::'' a \<Longrightarrow> a = [] \<or> last a \<noteq> CHR '':'' \<Longrightarrow> split_double (a @ ''::'' @ b) = a # split_double b"
proof (induction a)
  case (Cons c a)
  have no: "\<not> prefix ''::'' (c # a)" "\<not> sublist ''::'' a" using Cons.prems(1) by (auto simp: sublist_Cons_right)
  have "\<not> prefix ''::'' (c # a @ ''::'' @ b)"
  proof
    assume "prefix ''::'' (c # a @ ''::'' @ b)"
    then have c: "c = CHR '':''" and "prefix '':'' (a @ ''::'' @ b)" by auto
    with no(1) Cons.prems(2) show False by (cases a) auto
  qed
  moreover have "split_double (a @ ''::'' @ b) = a # split_double b"
    using Cons.prems(2) no(2) by (intro Cons.IH) auto
  ultimately show ?case by (simp add: starts_with_def)
qed (simp add: starts_with_def)

text \<open>The guard reads IPv6 literals exactly: a text of hexadecimal groups is expanded to these groups
  if there are eight of them and refused otherwise, and with a double colon the missing groups are
  zero, if at most eight are written.\<close>

theorem ipv6_expansion_exact:
  "expand_ipv6 (groups_text gs) = (if length gs = 8 then Some (map (\<lambda>g. int (unat g)) gs) else None) \<and>
   expand_ipv6 (groups_text hs @ ''::'' @ groups_text ts) =
     (if length hs + length ts \<le> 8
      then Some (map (\<lambda>g. int (unat g)) (hs @ replicate (8 - length hs - length ts) 0 @ ts)) else None)"
proof
  show "expand_ipv6 (groups_text gs) = (if length gs = 8 then Some (map (\<lambda>g. int (unat g)) gs) else None)"
    by (simp add: expand_ipv6_def split_double_plain groups_text_single parse_groups_text)
  have "split_double (groups_text hs @ ''::'' @ groups_text ts) = [groups_text hs, groups_text ts]"
    using groups_text_last [of hs]
    by (subst split_double_at) (auto simp: groups_text_single split_double_plain)
  then show "expand_ipv6 (groups_text hs @ ''::'' @ groups_text ts) =
     (if length hs + length ts \<le> 8
      then Some (map (\<lambda>g. int (unat g)) (hs @ replicate (8 - length hs - length ts) 0 @ ts)) else None)"
    by (simp add: expand_ipv6_def parse_groups_text del: append_Cons)
qed

text \<open>The embedded IPv4 address of two groups, and the blocks of the first group.\<close>

definition embedded :: "16 word \<Rightarrow> 16 word \<Rightarrow> 32 word" where
  "embedded g h = word_of_nat (unat g * 65536 + unat h)"

definition in_block16 :: "16 word \<Rightarrow> nat \<Rightarrow> 16 word \<Rightarrow> bool" where
  "in_block16 net len g = (drop_bit (16 - len) g = drop_bit (16 - len) net)"

lemma group_word_unat [simp]: "group_word (int (unat g)) = g"
  by (simp add: group_word_def)

lemma embedded_octets:
  "octet 3 (embedded g h) = unat (drop_bit 8 g)" "octet 2 (embedded g h) = unat (g AND 0xFF)"
  "octet 1 (embedded g h) = unat (drop_bit 8 h)" "octet 0 (embedded g h) = unat (h AND 0xFF)"
proof -
  have g: "unat g < 65536" "unat h < 65536" using unsigned_less [of g] unsigned_less [of h] by simp_all
  have e: "unat (embedded g h) = unat g * 65536 + unat h"
  proof -
    have "unat (word_of_nat n :: 32 word) = n" if "n < 4294967296" for n
      using that by (simp only: unsigned_of_nat) (simp add: take_bit_nat_eq_self)
    moreover have "unat g * 65536 + unat h < 4294967296" using g by linarith
    ultimately show ?thesis unfolding embedded_def by blast
  qed
  have high: "unat (drop_bit 8 k) = unat k div 256" for k :: "16 word"
    by (simp only: unat_drop_bit_eq) (simp add: drop_bit_eq_div)
  have low: "unat (k AND 0xFF) = unat k mod 256" for k :: "16 word"
  proof -
    have "k AND 0xFF = take_bit 8 k" by (simp add: take_bit_eq_mask mask_eq_exp_minus_1)
    then show ?thesis by (simp only: unsigned_take_bit_eq) (simp add: take_bit_eq_mod)
  qed
  have o: "octet i w = unat w div 2 ^ (8 * i) mod 256" for i and w :: "32 word"
    by (simp only: octet_def unat_drop_bit_eq) (simp add: drop_bit_eq_div)
  have d: "unat (embedded g h) div 65536 = unat g" using g e by simp
  have "unat (embedded g h) div 16777216 = unat (embedded g h) div 65536 div 256" by (simp flip: div_mult2_eq)
  then have d3: "unat (embedded g h) div 16777216 = unat g div 256" unfolding d .
  have d0: "unat (embedded g h) mod 256 = unat h mod 256"
    unfolding e using mod_mult_self1 [of "unat h" "unat g * 256" 256] by (simp add: algebra_simps)
  have d1: "unat (embedded g h) div 256 = unat h div 256 + (unat g * 256)"
    unfolding e using div_mult_self1 [of 256 "unat h" "unat g * 256"] by (simp add: algebra_simps)
  show "octet 3 (embedded g h) = unat (drop_bit 8 g)" "octet 2 (embedded g h) = unat (g AND 0xFF)"
    "octet 1 (embedded g h) = unat (drop_bit 8 h)" "octet 0 (embedded g h) = unat (h AND 0xFF)"
    using g d0 by (simp_all add: o d d3 d1 high low less_mult_imp_div_less)
qed

lemma masked_block:
  fixes g net :: "16 word"
  shows "(g AND NOT (mask n) = push_bit n (drop_bit n net)) = (drop_bit n g = drop_bit n net)"
proof -
  have "g AND NOT (mask n) = push_bit n (drop_bit n g)"
    by (rule bit_eqI) (auto simp: bit_simps)
  moreover have "drop_bit n (push_bit n (drop_bit n x)) = drop_bit n x" for x :: "16 word"
    by (rule bit_eqI) (auto simp: bit_simps dest: bit_imp_le_length)
  ultimately show ?thesis by metis
qed

text \<open>For every IPv6 address the guard decides by blocks: an IPv4-mapped address by the IPv4 blocks,
  any other by unique local (fc00::/7), link-local (fe80::/10) and multicast (ff00::/8).\<close>

theorem ipv6_guard_is_block_list:
  "private_groups (map (\<lambda>g. int (unat g)) [g0, g1, g2, g3, g4, g5, g6, g7]) =
     (if [g0, g1, g2, g3, g4, g5] = [0, 0, 0, 0, 0, 0xFFFF] then in_private_block (embedded g6 g7)
      else in_block16 0xFC00 7 g0 \<or> in_block16 0xFE80 10 g0 \<or> in_block16 0xFF00 8 g0)"
proof -
  have ends: "(int (unat g) = 0) = (g = 0)" "(int (unat g) = 0xFFFF) = (g = 0xFFFF)" for g :: "16 word"
  proof -
    have "unat (0xFFFF :: 16 word) = 65535" by simp
    then show "(int (unat g) = 0xFFFF) = (g = 0xFFFF)" unfolding word_unat_eq_iff by linarith
    show "(int (unat g) = 0) = (g = 0)" by (simp only: word_unat_eq_iff unsigned_0 of_nat_eq_0_iff)
  qed
  have mapped: "(map (\<lambda>g. int (unat g)) [g0, g1, g2, g3, g4, g5] = [0, 0, 0, 0, 0, 0xFFFF]) =
      ([g0, g1, g2, g3, g4, g5] = [0, 0, 0, 0, 0, 0xFFFF])"
    unfolding list.map list.inject ends by blast
  have masks: "NOT (mask 9) = (0xFE00 :: 16 word)" "NOT (mask 6) = (0xFFC0 :: 16 word)"
    "NOT (mask 8) = (0xFF00 :: 16 word)" by code_simp+
  have nets: "push_bit 9 (drop_bit 9 0xFC00) = (0xFC00 :: 16 word)"
    "push_bit 6 (drop_bit 6 0xFE80) = (0xFE80 :: 16 word)" "push_bit 8 (drop_bit 8 0xFF00) = (0xFF00 :: 16 word)"
    by code_simp+
  have "(g0 AND 0xFE00 = 0xFC00) = in_block16 0xFC00 7 g0"
    using masked_block [of g0 9 "0xFC00"] unfolding masks nets in_block16_def by simp
  moreover have "(g0 AND 0xFFC0 = 0xFE80) = in_block16 0xFE80 10 g0"
    using masked_block [of g0 6 "0xFE80"] unfolding masks nets in_block16_def by simp
  moreover have "(g0 AND 0xFF00 = 0xFF00) = in_block16 0xFF00 8 g0"
    using masked_block [of g0 8 "0xFF00"] unfolding masks nets in_block16_def by simp
  moreover have "is_private_ipv4 (dotted (unat (drop_bit 8 g6)) (unat (g6 AND 0xFF))
      (unat (drop_bit 8 g7)) (unat (g7 AND 0xFF))) = in_private_block (embedded g6 g7)"
    using ipv4_blocks [of "embedded g6 g7"] by (simp only: address_text_def embedded_octets)
  moreover have "take 6 (map (\<lambda>g. int (unat g)) [g0, g1, g2, g3, g4, g5, g6, g7]) =
      map (\<lambda>g. int (unat g)) [g0, g1, g2, g3, g4, g5]" by (simp add: numeral_eq_Suc)
  moreover have "group_word (map (\<lambda>g. int (unat g)) [g0, g1, g2, g3, g4, g5, g6, g7] ! 0) = g0"
    "group_word (map (\<lambda>g. int (unat g)) [g0, g1, g2, g3, g4, g5, g6, g7] ! 6) = g6"
    "group_word (map (\<lambda>g. int (unat g)) [g0, g1, g2, g3, g4, g5, g6, g7] ! 7) = g7"
    by (simp_all add: numeral_eq_Suc del: of_nat_unat)
  ultimately show ?thesis by (simp only: private_groups_def Let_def mapped) (simp only: simp_thms if_bool_eq_conj; blast)
qed


section \<open>Host names\<close>

text \<open>A host name is let through only if no address it resolves to is in a private block: when the
  check of a name throws no error, every IPv4 record of the name lies outside the blocks.\<close>

theorem resolved_addresses_public:
  assumes "assert_not_private_host is_ip lookup host = None" "is_ip host \<notin> {4, 6}"
    "lookup host = Some rs" "(4, address_text w) \<in> set rs" "\<not> starts_with host ''[''"
  shows "\<not> in_private_block w"
proof -
  have "List.find bad_record rs = None"
    using assms(1,2,3,5) by (auto simp: assert_not_private_host_def Let_def split: if_splits)
  then have "\<forall>r\<in>set rs. \<not> bad_record r" unfolding find_None_iff by blast
  with assms(4) have "\<not> bad_record (4, address_text w)" by blast
  then show ?thesis by (simp add: bad_record_def ipv4_blocks)
qed

definition demo_address :: "32 word" where
  "demo_address = 0x01020304"

lemma show_nat_small: "n < 10 \<Longrightarrow> show_nat n = [digit_char n]"
  by (subst show_nat.simps) simp

lemma demo_address_text: "address_text demo_address = dotted 1 2 3 4"
proof -
  have o: "octet i w = unat w div 2 ^ (8 * i) mod 256" for i and w :: "32 word"
    by (simp only: octet_def unat_drop_bit_eq) (simp add: drop_bit_eq_div)
  have "unat demo_address = 16909060" by (simp add: demo_address_def)
  then show ?thesis by (simp add: address_text_def o)
qed

lemma demo_address_public: "\<not> is_private_ipv4 (dotted 1 2 3 4)"
  by (simp add: is_private_ipv4_def split_dotted js_parse_show_nat)

theorem resolved_addresses_public_witness:
  "\<not> in_private_block demo_address"
proof (rule resolved_addresses_public)
  show "assert_not_private_host (\<lambda>h. 0) (\<lambda>h. Some [(4, dotted 1 2 3 4)]) ''example.org'' = None"
    using demo_address_public
    by (simp add: assert_not_private_host_def Let_def starts_with_def ends_with_def suffix_def bad_record_def)
  show "(0 :: nat) \<notin> {4, 6}" by simp
  show "Some [(4, dotted 1 2 3 4)] = Some [(4 :: nat, dotted 1 2 3 4)]" ..
  show "(4, address_text demo_address) \<in> set [(4 :: nat, dotted 1 2 3 4)]" by (simp add: demo_address_text)
  show "\<not> starts_with ''example.org'' ''[''" by (simp add: starts_with_def)
qed

section \<open>Findings\<close>

lemma loopback_expands:
  "expand_ipv6 ''::1'' = Some [0, 0, 0, 0, 0, 0, 0, 1]"
  "expand_ipv6 ''0:0:0:0:0:0:0:1'' = Some [0, 0, 0, 0, 0, 0, 0, 1]"
  "expand_ipv6 ''0::1'' = Some [0, 0, 0, 0, 0, 0, 0, 1]"
  "expand_ipv6 ''0::0'' = Some [0, 0, 0, 0, 0, 0, 0, 0]"
  by code_simp+

lemma loopback_lower:
  "to_lower ''::1'' = ''::1''" "to_lower ''0:0:0:0:0:0:0:1'' = ''0:0:0:0:0:0:0:1''"
  "to_lower ''0::1'' = ''0::1''" "to_lower ''0::0'' = ''0::0''"
  by code_simp+

lemma low_groups_public:
  "\<not> private_groups [0, 0, 0, 0, 0, 0, 0, 1]" "\<not> private_groups [0, 0, 0, 0, 0, 0, 0, 0]"
  by code_simp+

text \<open>Loopback and the unspecified address are recognised by their shortest spelling only: written
  out they expand to groups no check is made for, and the guard lets them through.\<close>

theorem loopback_spelled_out_passes:
  "is_private_ipv6 ''::1'' \<and> expand_ipv6 ''::1'' = expand_ipv6 ''0:0:0:0:0:0:0:1'' \<and>
   \<not> is_private_ipv6 ''0:0:0:0:0:0:0:1'' \<and> \<not> is_private_ipv6 ''0::1'' \<and> \<not> is_private_ipv6 ''0::0''"
  by (simp add: is_private_ipv6_def loopback_lower loopback_expands low_groups_public Let_def)

lemma hex_digits:
  "digit_value 16 CHR ''0'' = Some 0" "digit_value 16 CHR ''1'' = Some 1" "digit_value 16 CHR ''4'' = Some 4"
  "digit_value 16 CHR ''6'' = Some 6" "digit_value 16 CHR ''9'' = Some 9" "digit_value 16 CHR ''a'' = Some 10"
  "digit_value 16 CHR ''b'' = Some 11" "digit_value 16 CHR ''f'' = Some 15"
  by code_simp+

text \<open>The translation prefix of NAT64 carries an IPv4 address, which is not examined: this is 10.0.0.1.\<close>

lemma nat64_private_passes: "\<not> is_private_ipv6 ''64:ff9b::a00:1''"
proof -
  have "split_double ''64:ff9b::a00:1'' = [''64:ff9b'', ''a00:1'']" by code_simp
  moreover have "js_split CHR '':'' ''64:ff9b'' = [''64'', ''ff9b'']" "js_split CHR '':'' ''a00:1'' = [''a00'', ''1'']"
    by code_simp+
  moreover have "js_parse_int 16 ''64'' = Some 100" "js_parse_int 16 ''ff9b'' = Some 65435"
    "js_parse_int 16 ''a00'' = Some 2560" "js_parse_int 16 ''1'' = Some 1"
    by (simp_all add: js_parse_int_def parse_magnitude_def is_js_space_def hex_digits starts_with_def Let_def)
  ultimately have "expand_ipv6 ''64:ff9b::a00:1'' = Some [100, 65435, 0, 0, 0, 0, 2560, 1]"
    by (simp add: expand_ipv6_def parse_groups_def numeral_eq_Suc del: split_double.simps)
  moreover have "\<not> private_groups [100, 65435, 0, 0, 0, 0, 2560, 1]"
    by (simp add: private_groups_def group_word_def)
  moreover have "to_lower ''64:ff9b::a00:1'' = ''64:ff9b::a00:1''" by code_simp
  ultimately show ?thesis by (simp add: is_private_ipv6_def Let_def)
qed

text \<open>A number is read up to the first character that is no digit, so groups that are no hexadecimal
  numbers are expanded instead of refused.\<close>

lemma malformed_group_accepted: "expand_ipv6 ''1z::2'' = Some [1, 0, 0, 0, 0, 0, 0, 2]"
  by code_simp

end
