(* ===== verification/Subagent_Budget.thy ===== *)
theory Subagent_Budget
  imports Prelude Complex_Main
begin

text \<open>
  The budget of a subagent, \<open>coordination/subagent-budget.ts\<close>: its limits and counters, the check after
  every recorded unit of work, the clocks, and the negotiation of an extension with whoever listens
  on the event bus.

  Numbers are exact rationals, times are numbers of milliseconds, and the current time is an argument
  of the operations that read the clock. The threshold handler is a function that says which limits it
  extended directly and what it returned; a promise is the value \<open>Promised\<close>, and the verdict it
  resolves to comes later, with \<open>settle\<close>. Microtasks are the operation \<open>run_microtasks\<close>.
\<close>

section \<open>Limits\<close>

datatype kind = Iterations | Tool_calls | Tokens | Cost | Idle_timeout | Timeout

record limits =
  max_iterations :: "rat option"
  max_tool_calls :: "rat option"
  max_tokens :: "rat option"
  max_cost :: "rat option"
  timeout_ms :: "rat option"
  idle_timeout_ms :: "rat option"

definition no_limits :: limits where
  "no_limits = \<lparr>max_iterations = None, max_tool_calls = None, max_tokens = None, max_cost = None,
     timeout_ms = None, idle_timeout_ms = None\<rparr>"

definition given :: "'a option \<Rightarrow> 'a option \<Rightarrow> 'a option" where
  "given new old = (case new of None \<Rightarrow> old | Some v \<Rightarrow> Some v)"

definition patch_limits :: "limits \<Rightarrow> limits \<Rightarrow> limits" where
  "patch_limits ext l =
     \<lparr>max_iterations = given (max_iterations ext) (max_iterations l),
      max_tool_calls = given (max_tool_calls ext) (max_tool_calls l),
      max_tokens = given (max_tokens ext) (max_tokens l),
      max_cost = given (max_cost ext) (max_cost l),
      timeout_ms = given (timeout_ms ext) (timeout_ms l),
      idle_timeout_ms = given (idle_timeout_ms ext) (idle_timeout_ms l)\<rparr>"

section \<open>State\<close>

record breach =
  br_kind :: kind
  br_used :: rat
  br_limit :: rat

datatype verdict = Stopped | Extended limits

text \<open>What a threshold handler returns.\<close>

datatype reply = Reply_throw | Reply_continue | Reply_stop | Reply_extend limits | Promised

type_synonym handler = "breach \<Rightarrow> limits list \<times> reply"

text \<open>A slot of the table of negotiations in flight: the marker of the path without a listener, a
  negotiation whose promise has resolved although the slot is occupied, one that resolves at the next
  microtask, and one that waits for the handler's promise.\<close>

datatype slot = Marker | Stuck verdict | Soon verdict | Asked

datatype mode = Auto | Sync

record budget =
  bu_limits :: limits
  bu_iterations :: nat
  bu_tool_calls :: nat
  bu_input :: nat
  bu_output :: nat
  bu_cost :: rat
  bu_start :: "rat option"
  bu_active :: "rat option"
  bu_handler :: "handler option"
  bu_mode :: mode
  bu_listener :: "bool option"
  bu_watchdog :: "rat option"
  bu_pending :: "(kind, slot) jsmap"

text \<open>\<open>bu_listener\<close> is None without a bus, and otherwise whether somebody listens for thresholds.\<close>

definition new_budget :: "limits \<Rightarrow> mode \<Rightarrow> budget" where
  "new_budget l m =
     \<lparr>bu_limits = l, bu_iterations = 0, bu_tool_calls = 0, bu_input = 0, bu_output = 0, bu_cost = 0,
      bu_start = None, bu_active = None, bu_handler = None, bu_mode = m, bu_listener = None,
      bu_watchdog = None, bu_pending = []\<rparr>"

definition patch :: "limits \<Rightarrow> budget \<Rightarrow> budget" where
  "patch ext b = b\<lparr>bu_limits := patch_limits ext (bu_limits b)\<rparr>"

definition set_watchdog_negotiation :: "rat \<Rightarrow> budget \<Rightarrow> budget" where
  "set_watchdog_negotiation t b = b\<lparr>bu_watchdog := Some t\<rparr>"

definition clear_watchdog_negotiation :: "budget \<Rightarrow> budget" where
  "clear_watchdog_negotiation b = b\<lparr>bu_watchdog := None\<rparr>"

definition start :: "rat \<Rightarrow> budget \<Rightarrow> budget" where
  "start now b = b\<lparr>bu_start := Some now, bu_active := Some now\<rparr>"

definition mark_activity :: "rat \<Rightarrow> budget \<Rightarrow> budget" where
  "mark_activity now b = b\<lparr>bu_active := Some now\<rparr>"

definition idle_ms :: "rat \<Rightarrow> budget \<Rightarrow> rat" where
  "idle_ms now b = (case given (bu_active b) (bu_start b) of None \<Rightarrow> 0 | Some since \<Rightarrow> now - since)"

definition total_tokens :: "budget \<Rightarrow> nat" where
  "total_tokens b = bu_input b + bu_output b"

definition near :: "rat option \<Rightarrow> rat \<Rightarrow> bool" where
  "near bound used = (case bound of None \<Rightarrow> False | Some l \<Rightarrow> l \<noteq> 0 \<and> l * (9 / 10) \<le> used)"

definition is_near_limit :: "budget \<Rightarrow> bool" where
  "is_near_limit b =
     (near (max_iterations (bu_limits b)) (of_nat (bu_iterations b)) \<or>
      near (max_tool_calls (bu_limits b)) (of_nat (bu_tool_calls b)) \<or>
      near (max_tokens (bu_limits b)) (of_nat (total_tokens b)) \<or>
      near (max_cost (bu_limits b)) (bu_cost b))"

section \<open>The check\<close>

definition over :: "kind \<Rightarrow> rat option \<Rightarrow> rat \<Rightarrow> breach list" where
  "over k bound used =
     (case bound of None \<Rightarrow> []
      | Some l \<Rightarrow> if l < used then [\<lparr>br_kind = k, br_used = used, br_limit = l\<rparr>] else [])"

definition wall_owned :: "budget \<Rightarrow> bool" where
  "wall_owned b = (bu_handler b \<noteq> None \<and> bu_watchdog b = timeout_ms (bu_limits b))"

definition exceeded :: "rat \<Rightarrow> rat option \<Rightarrow> budget \<Rightarrow> breach list" where
  "exceeded now elapsed b =
     over Iterations (max_iterations (bu_limits b)) (of_nat (bu_iterations b)) @
     over Tool_calls (max_tool_calls (bu_limits b)) (of_nat (bu_tool_calls b)) @
     over Tokens (max_tokens (bu_limits b)) (of_nat (total_tokens b)) @
     over Cost (max_cost (bu_limits b)) (bu_cost b) @
     (case elapsed of
        None \<Rightarrow> []
      | Some e \<Rightarrow>
          over Idle_timeout (idle_timeout_ms (bu_limits b)) (idle_ms now b) @
          (if wall_owned b then [] else over Timeout (timeout_ms (bu_limits b)) e))"

text \<open>The result of a check: the breaches found, a hard stop, or a signal that carries a negotiation.\<close>

datatype check = Passed "breach list" | Hard_stop breach | Signal breach

text \<open>\<open>_negotiateExtension\<close> up to its first \<open>await\<close>. A reply that is not awaited resolves the promise
  and clears the slot before the caller fills it.\<close>

definition negotiate :: "handler \<Rightarrow> breach \<Rightarrow> budget \<Rightarrow> budget" where
  "negotiate h br b =
     (case h br of (direct, r) \<Rightarrow>
        let b1 = fold patch direct b
        in b1\<lparr>bu_pending := jm_set (br_kind br)
             (case r of
                Reply_throw \<Rightarrow> Stuck Stopped
              | Reply_continue \<Rightarrow> Stuck (Extended no_limits)
              | Reply_stop \<Rightarrow> Soon Stopped
              | Reply_extend e \<Rightarrow> Soon (Extended e)
              | Promised \<Rightarrow> Asked) (bu_pending b1)\<rparr>)"

definition negotiate_new :: "handler \<Rightarrow> breach \<Rightarrow> budget \<Rightarrow> budget" where
  "negotiate_new h br b = (if jm_has (bu_pending b) (br_kind br) then b else negotiate h br b)"

text \<open>\<open>_invokeHandlerSync\<close>: only the last direct extension counts, and a returned one overrides it.\<close>

definition invoke_sync :: "handler \<Rightarrow> breach \<Rightarrow> budget \<Rightarrow> bool \<times> budget" where
  "invoke_sync h br b =
     (case h br of (direct, r) \<Rightarrow>
        let held = (if direct = [] then b else patch (last direct) b)
        in case r of
             Promised \<Rightarrow> (False, b)
           | Reply_throw \<Rightarrow> (False, b)
           | Reply_extend e \<Rightarrow> (True, patch e b)
           | Reply_continue \<Rightarrow> (True, held)
           | Reply_stop \<Rightarrow> (True, held))"

definition invoke_new :: "handler \<Rightarrow> breach \<Rightarrow> breach option \<times> budget \<Rightarrow> breach option \<times> budget" where
  "invoke_new h br sb =
     (case sb of (stop, b) \<Rightarrow>
        if jm_has (bu_pending b) (br_kind br) then (stop, b)
        else case invoke_sync h br (b\<lparr>bu_pending := jm_set (br_kind br) Marker (bu_pending b)\<rparr>) of
               (ok, b') \<Rightarrow> (if ok then stop else given stop (Some br), b'))"

definition check_limits :: "rat \<Rightarrow> rat option \<Rightarrow> budget \<Rightarrow> check \<times> budget" where
  "check_limits now elapsed b =
     (let ex = exceeded now elapsed b
      in if ex = [] then (Passed [], b)
         else case (bu_handler b, bu_mode b, bu_listener b) of
                (None, _, _) \<Rightarrow> (Hard_stop (hd ex), b)
              | (Some h, Sync, _) \<Rightarrow> (Hard_stop (hd ex), b)
              | (Some h, Auto, None) \<Rightarrow> (Hard_stop (hd ex), b)
              | (Some h, Auto, Some True) \<Rightarrow> (Signal (hd ex), fold (negotiate_new h) ex b)
              | (Some h, Auto, Some False) \<Rightarrow>
                  (case fold (invoke_new h) ex (None, b) of
                     (Some br, b') \<Rightarrow> (Hard_stop br, b')
                   | (None, b') \<Rightarrow> (Passed ex, b')))"

text \<open>The rest of \<open>_negotiateExtension\<close>, when the awaited verdict is in.\<close>

definition apply_verdict :: "kind \<Rightarrow> verdict \<Rightarrow> budget \<Rightarrow> budget" where
  "apply_verdict k v b =
     (case v of
        Stopped \<Rightarrow> b\<lparr>bu_pending := jm_del k (bu_pending b)\<rparr>
      | Extended e \<Rightarrow> (patch e b)\<lparr>bu_pending := jm_del k (bu_pending b)\<rparr>)"

definition settle :: "kind \<Rightarrow> verdict \<Rightarrow> budget \<Rightarrow> budget" where
  "settle k v b = (if jm_get (bu_pending b) k = Some Asked then apply_verdict k v b else b)"

definition run_microtask :: "kind \<times> slot \<Rightarrow> budget \<Rightarrow> budget" where
  "run_microtask ks b =
     (case snd ks of
        Marker \<Rightarrow> b\<lparr>bu_pending := jm_del (fst ks) (bu_pending b)\<rparr>
      | Soon v \<Rightarrow> apply_verdict (fst ks) v b
      | _ \<Rightarrow> b)"

definition run_microtasks :: "budget \<Rightarrow> budget" where
  "run_microtasks b = fold run_microtask (bu_pending b) b"

section \<open>Recording\<close>

definition record_iteration :: "rat \<Rightarrow> budget \<Rightarrow> check \<times> budget" where
  "record_iteration now b =
     check_limits now None (mark_activity now (b\<lparr>bu_iterations := bu_iterations b + 1\<rparr>))"

definition record_tool_call :: "rat \<Rightarrow> budget \<Rightarrow> check \<times> budget" where
  "record_tool_call now b =
     check_limits now None (mark_activity now (b\<lparr>bu_tool_calls := bu_tool_calls b + 1\<rparr>))"

definition record_usage :: "rat \<Rightarrow> nat \<Rightarrow> nat \<Rightarrow> rat \<Rightarrow> budget \<Rightarrow> check \<times> budget" where
  "record_usage now inp out cost b =
     check_limits now None
       (mark_activity now (b\<lparr>bu_input := bu_input b + inp, bu_output := bu_output b + out,
          bu_cost := bu_cost b + cost\<rparr>))"

definition above :: "rat option \<Rightarrow> rat \<Rightarrow> bool" where
  "above bound used = (case bound of None \<Rightarrow> False | Some l \<Rightarrow> l < used)"

definition timeout_tripped :: "rat \<Rightarrow> rat \<Rightarrow> budget \<Rightarrow> bool" where
  "timeout_tripped now elapsed b =
     (let l = bu_limits b;
          wall_skipped = (bu_handler b \<noteq> None \<and> timeout_ms l \<noteq> None \<and> bu_watchdog b = timeout_ms l);
          wall_tripped = (\<not> wall_skipped \<and> above (timeout_ms l) elapsed);
          idle_tripped = above (idle_timeout_ms l) (idle_ms now b)
      in \<not> (timeout_ms l = None \<and> idle_timeout_ms l = None) \<and> (wall_tripped \<or> idle_tripped))"

definition check_timeout :: "rat \<Rightarrow> budget \<Rightarrow> check \<times> budget" where
  "check_timeout now b =
     (case bu_start b of
        None \<Rightarrow> (Passed [], b)
      | Some s \<Rightarrow>
          if timeout_tripped now (now - s) b then check_limits now (Some (now - s)) b else (Passed [], b))"

definition is_timed_out :: "rat \<Rightarrow> budget \<Rightarrow> bool" where
  "is_timed_out now b =
     (case bu_start b of
        None \<Rightarrow> False
      | Some s \<Rightarrow> above (timeout_ms (bu_limits b)) (now - s) \<or> above (idle_timeout_ms (bu_limits b)) (idle_ms now b))"

record usage_report =
  us_iterations :: nat
  us_tool_calls :: nat
  us_input :: nat
  us_output :: nat
  us_total :: nat
  us_cost :: rat
  us_elapsed :: rat

definition usage :: "rat \<Rightarrow> budget \<Rightarrow> usage_report" where
  "usage now b =
     \<lparr>us_iterations = bu_iterations b, us_tool_calls = bu_tool_calls b,
      us_input = bu_input b, us_output = bu_output b, us_total = total_tokens b,
      us_cost = bu_cost b, us_elapsed = (case bu_start b of None \<Rightarrow> 0 | Some s \<Rightarrow> now - s)\<rparr>"

section \<open>The verdict of the bus\<close>

text \<open>\<open>_busRequestDecision\<close>: what listeners did during the emit, and what was settled afterwards, in
  order, before the time limit. A denial during the emit wins over a grant made there.\<close>

datatype response = Grant limits | Deny

definition first_response :: "response list \<Rightarrow> verdict" where
  "first_response rs = (case rs of [] \<Rightarrow> Stopped | Grant e # _ \<Rightarrow> Extended e | Deny # _ \<Rightarrow> Stopped)"

definition bus_request_decision :: "bool \<Rightarrow> response list \<Rightarrow> response list \<Rightarrow> verdict" where
  "bus_request_decision listening during later =
     (if \<not> listening then Stopped
      else if Deny \<in> set during then Stopped
      else first_response (during @ later))"

section \<open>Operations\<close>

datatype work = Iteration rat | Tool_call rat | Usage rat nat nat rat

fun do_work :: "work \<Rightarrow> budget \<Rightarrow> check \<times> budget" where
  "do_work (Iteration now) b = record_iteration now b"
| "do_work (Tool_call now) b = record_tool_call now b"
| "do_work (Usage now i out c) b = record_usage now i out c b"

text \<open>A run that ends at the first exception.\<close>

fun run_recording :: "work list \<Rightarrow> budget \<Rightarrow> check option \<times> budget" where
  "run_recording [] b = (None, b)"
| "run_recording (w # ws) b =
     (case do_work w b of
        (Passed _, b') \<Rightarrow> run_recording ws b'
      | (c, b') \<Rightarrow> (Some c, b'))"

text \<open>The counters alone.\<close>

fun tally :: "work \<Rightarrow> budget \<Rightarrow> budget" where
  "tally (Iteration now) b = mark_activity now (b\<lparr>bu_iterations := bu_iterations b + 1\<rparr>)"
| "tally (Tool_call now) b = mark_activity now (b\<lparr>bu_tool_calls := bu_tool_calls b + 1\<rparr>)"
| "tally (Usage now i out c) b =
     mark_activity now (b\<lparr>bu_input := bu_input b + i, bu_output := bu_output b + out, bu_cost := bu_cost b + c\<rparr>)"

fun no_refund :: "work \<Rightarrow> bool" where
  "no_refund (Usage now i out c) = (0 \<le> c)"
| "no_refund _ = True"

definition within_budget :: "budget \<Rightarrow> bool" where
  "within_budget b = (exceeded 0 None b = [])"

text \<open>Nobody can grant anything: the check has nobody to ask.\<close>

definition cannot_extend :: "budget \<Rightarrow> bool" where
  "cannot_extend b =
     (case bu_handler b of
        None \<Rightarrow> True
      | Some h \<Rightarrow> bu_mode b = Sync \<or> bu_listener b = None \<or>
          bu_listener b = Some False \<and> (\<forall>br. snd (h br) \<in> {Promised, Reply_throw}))"

lemma do_work_tally: "do_work w b = check_limits (case w of Iteration t \<Rightarrow> t | Tool_call t \<Rightarrow> t | Usage t i out c \<Rightarrow> t)
    None (tally w b)"
  by (cases w) (simp_all add: record_iteration_def record_tool_call_def record_usage_def)

lemma over_Nil: "over k bound used = [] \<longleftrightarrow> \<not> above bound used"
  by (simp add: over_def above_def split: option.split)

lemma exceeded_now: "exceeded now None b = exceeded 0 None b"
  by (simp add: exceeded_def)

lemma within_budget_iff:
  "within_budget b \<longleftrightarrow>
   \<not> above (max_iterations (bu_limits b)) (of_nat (bu_iterations b)) \<and>
   \<not> above (max_tool_calls (bu_limits b)) (of_nat (bu_tool_calls b)) \<and>
   \<not> above (max_tokens (bu_limits b)) (of_nat (total_tokens b)) \<and>
   \<not> above (max_cost (bu_limits b)) (bu_cost b)"
  by (simp add: within_budget_def exceeded_def over_Nil)

lemma tally_fields [simp]:
  "bu_limits (tally w b) = bu_limits b" "bu_handler (tally w b) = bu_handler b"
  "bu_mode (tally w b) = bu_mode b" "bu_listener (tally w b) = bu_listener b"
  "bu_pending (tally w b) = bu_pending b"
  by (cases w; simp add: mark_activity_def)+

lemma cannot_extend_tally [simp]: "cannot_extend (tally w b) = cannot_extend b"
  by (simp add: cannot_extend_def split: option.split)

lemma above_mono: "above bound x \<Longrightarrow> x \<le> y \<Longrightarrow> above bound y"
  by (auto simp: above_def split: option.splits)

lemma tally_grows:
  "no_refund w \<Longrightarrow> bu_iterations b \<le> bu_iterations (tally w b) \<and> bu_tool_calls b \<le> bu_tool_calls (tally w b) \<and>
   total_tokens b \<le> total_tokens (tally w b) \<and> bu_cost b \<le> bu_cost (tally w b)"
  by (cases w) (simp_all add: mark_activity_def total_tokens_def)

lemma within_budget_back:
  assumes "no_refund w" "within_budget (tally w b)"
  shows "within_budget b"
proof -
  have "\<not> above bound x" if "\<not> above bound y" "x \<le> y" for bound x y using that above_mono by blast
  then show ?thesis
    using assms(2) tally_grows [OF assms(1), of b] unfolding within_budget_iff tally_fields
    by (meson of_nat_mono)
qed

lemma within_budget_fold:
  "list_all no_refund ws \<Longrightarrow> within_budget (fold tally ws b) \<Longrightarrow> within_budget b"
  by (induction ws arbitrary: b) (auto dest: within_budget_back)

text \<open>A breach found with an empty table is a hard stop when nobody can extend.\<close>

lemma fold_invoke_stops: "fst (fold (invoke_new h) ex (Some br, b)) = Some br"
proof (induction ex arbitrary: b)
  case (Cons x ex)
  show ?case
    using Cons.IH by (auto simp: invoke_new_def given_def split: prod.split)
qed simp

lemma check_stops:
  assumes "cannot_extend b" "bu_pending b = []"
  shows "(exceeded now el b = [] \<longrightarrow> check_limits now el b = (Passed [], b)) \<and>
    (exceeded now el b \<noteq> [] \<longrightarrow> fst (check_limits now el b) = Hard_stop (hd (exceeded now el b)))"
proof (cases "exceeded now el b")
  case Nil
  then show ?thesis by (simp add: check_limits_def)
next
  case (Cons br brs)
  have hard: "fst (fold (invoke_new h) (br # brs) (None, b)) = Some br"
    if "snd (h br) \<in> {Promised, Reply_throw}" for h
    using that assms(2) fold_invoke_stops [of h brs br]
    by (auto simp: invoke_new_def jm_has_def invoke_sync_def given_def split: prod.split reply.split)
  show ?thesis
  proof (cases "bu_handler b")
    case None
    with Cons show ?thesis by (simp add: check_limits_def)
  next
    case (Some h)
    show ?thesis
    proof (cases "bu_mode b = Auto \<and> bu_listener b = Some False")
      case True
      with Some assms(1) have "snd (h br) \<in> {Promised, Reply_throw}" by (auto simp: cannot_extend_def)
      from hard [of h, OF this] Cons Some True show ?thesis
        by (cases "fold (invoke_new h) (br # brs) (None, b)") (simp add: check_limits_def)
    next
      case False
      with Some Cons assms(1) show ?thesis
        by (cases "bu_mode b"; cases "bu_listener b") (auto simp: check_limits_def cannot_extend_def)
    qed
  qed
qed

lemma run_recording_run:
  assumes "cannot_extend b" "bu_pending b = []" "list_all no_refund ws" "within_budget b"
  shows "case run_recording ws b of
      (None, b') \<Rightarrow> b' = fold tally ws b \<and> within_budget b'
    | (Some c, b') \<Rightarrow> \<exists>n br. n < length ws \<and> c = Hard_stop br \<and>
        within_budget (fold tally (take n ws) b) \<and> \<not> within_budget (fold tally (take (Suc n) ws) b) \<and>
        br \<in> set (exceeded 0 None (fold tally (take (Suc n) ws) b))"
  using assms
proof (induction ws arbitrary: b)
  case (Cons w ws)
  define b1 where "b1 = tally w b"
  have b1: "cannot_extend b1" "bu_pending b1 = []"
    using Cons.prems by (simp_all add: b1_def)
  obtain now where w: "do_work w b = check_limits now None b1" unfolding do_work_tally b1_def by blast
  show ?case
  proof (cases "within_budget b1")
    case True
    then have "exceeded now None b1 = []" by (simp add: within_budget_def exceeded_now [of now])
    then have "do_work w b = (Passed [], b1)" using w by (simp add: check_limits_def)
    then have run: "run_recording (w # ws) b = run_recording ws b1" by simp
    have ih: "case run_recording ws b1 of
      (None, b') \<Rightarrow> b' = fold tally ws b1 \<and> within_budget b'
    | (Some c, b') \<Rightarrow> \<exists>n br. n < length ws \<and> c = Hard_stop br \<and>
        within_budget (fold tally (take n ws) b1) \<and> \<not> within_budget (fold tally (take (Suc n) ws) b1) \<and>
        br \<in> set (exceeded 0 None (fold tally (take (Suc n) ws) b1))"
      using Cons.IH [OF b1 _ True] Cons.prems(3) by simp
    show ?thesis
    proof (cases "run_recording ws b1")
      case (Pair r b')
      show ?thesis
      proof (cases r)
        case None
        with ih Pair run show ?thesis by (auto simp: b1_def simp del: run_recording.simps)
      next
        case (Some c)
        with ih Pair obtain n br where n: "n < length ws" "c = Hard_stop br"
          "within_budget (fold tally (take n ws) b1)" "\<not> within_budget (fold tally (take (Suc n) ws) b1)"
          "br \<in> set (exceeded 0 None (fold tally (take (Suc n) ws) b1))" by auto
        with Some Pair run show ?thesis
          by (auto simp: b1_def intro!: exI [of _ "Suc n"])
      qed
    qed
  next
    case False
    then have "exceeded now None b1 \<noteq> []" by (simp add: within_budget_def exceeded_now [of now])
    then have "fst (do_work w b) = Hard_stop (hd (exceeded now None b1))"
      using check_stops [OF b1, of now None] w by simp
    then obtain b' where "run_recording (w # ws) b = (Some (Hard_stop (hd (exceeded now None b1))), b')"
      by (cases "do_work w b") auto
    moreover have "hd (exceeded now None b1) \<in> set (exceeded 0 None b1)"
      using \<open>exceeded now None b1 \<noteq> []\<close> exceeded_now [of now b1] by (metis list.set_sel(1))
    ultimately show ?thesis using False Cons.prems(4) by (auto simp: b1_def intro!: exI [of _ 0])
  qed
qed simp

text \<open>What a list of work adds up to, and whether that keeps within limits: a limit is exceeded by more
  than its value only, and a missing one never.\<close>

fun iterations_in :: "work list \<Rightarrow> nat" where
  "iterations_in [] = 0"
| "iterations_in (Iteration t # ws) = 1 + iterations_in ws"
| "iterations_in (w # ws) = iterations_in ws"

fun tool_calls_in :: "work list \<Rightarrow> nat" where
  "tool_calls_in [] = 0"
| "tool_calls_in (Tool_call t # ws) = 1 + tool_calls_in ws"
| "tool_calls_in (w # ws) = tool_calls_in ws"

fun tokens_in :: "work list \<Rightarrow> nat" where
  "tokens_in [] = 0"
| "tokens_in (Usage t i out c # ws) = i + out + tokens_in ws"
| "tokens_in (w # ws) = tokens_in ws"

fun cost_in :: "work list \<Rightarrow> rat" where
  "cost_in [] = 0"
| "cost_in (Usage t i out c # ws) = c + cost_in ws"
| "cost_in (w # ws) = cost_in ws"

fun at_most :: "rat \<Rightarrow> rat option \<Rightarrow> bool" where
  "at_most used None = True"
| "at_most used (Some l) = (used \<le> l)"

definition work_within :: "limits \<Rightarrow> work list \<Rightarrow> bool" where
  "work_within l ws \<longleftrightarrow>
     at_most (of_nat (iterations_in ws)) (max_iterations l) \<and>
     at_most (of_nat (tool_calls_in ws)) (max_tool_calls l) \<and>
     at_most (of_nat (tokens_in ws)) (max_tokens l) \<and> at_most (cost_in ws) (max_cost l)"

text \<open>A breach that the recorded work really is.\<close>

definition breached_by :: "limits \<Rightarrow> work list \<Rightarrow> breach \<Rightarrow> bool" where
  "breached_by l ws br \<longleftrightarrow> br_limit br < br_used br \<and>
     (br_kind br = Iterations \<and> max_iterations l = Some (br_limit br) \<and> br_used br = of_nat (iterations_in ws) \<or>
      br_kind br = Tool_calls \<and> max_tool_calls l = Some (br_limit br) \<and> br_used br = of_nat (tool_calls_in ws) \<or>
      br_kind br = Tokens \<and> max_tokens l = Some (br_limit br) \<and> br_used br = of_nat (tokens_in ws) \<or>
      br_kind br = Cost \<and> max_cost l = Some (br_limit br) \<and> br_used br = cost_in ws)"

definition unused :: "budget \<Rightarrow> bool" where
  "unused b \<longleftrightarrow> bu_iterations b = 0 \<and> bu_tool_calls b = 0 \<and> bu_input b = 0 \<and> bu_output b = 0 \<and> bu_cost b = 0"

lemma tally_counts:
  "bu_iterations (fold tally ws b) = bu_iterations b + iterations_in ws"
  "bu_tool_calls (fold tally ws b) = bu_tool_calls b + tool_calls_in ws"
  "total_tokens (fold tally ws b) = total_tokens b + tokens_in ws"
  "bu_cost (fold tally ws b) = bu_cost b + cost_in ws"
  "bu_limits (fold tally ws b) = bu_limits b"
proof (induction ws arbitrary: b)
  case (Cons w ws)
  { case 1 show ?case by (cases w) (simp_all add: Cons.IH mark_activity_def) }
  { case 2 show ?case by (cases w) (simp_all add: Cons.IH mark_activity_def) }
  { case 3
    have "total_tokens (tally w b) = total_tokens b + tokens_in [w]"
      by (cases w) (simp_all add: mark_activity_def total_tokens_def)
    then show ?case by (cases w) (simp_all add: Cons.IH(3)) }
  { case 4 show ?case by (cases w) (simp_all add: Cons.IH mark_activity_def) }
  { case 5 show ?case by (simp add: Cons.IH) }
qed simp_all

lemma unused_tokens: "unused b \<Longrightarrow> total_tokens b = 0"
  by (simp add: unused_def total_tokens_def)

lemma not_above: "\<not> above bound used \<longleftrightarrow> at_most used bound"
  by (cases bound) (auto simp: above_def)

lemma within_is_work_within:
  "unused b \<Longrightarrow> within_budget (fold tally ws b) \<longleftrightarrow> work_within (bu_limits b) ws"
  by (simp add: within_budget_iff not_above tally_counts work_within_def unused_tokens) (simp add: unused_def)

lemma exceeded_is_breached:
  "unused b \<Longrightarrow> br \<in> set (exceeded now None (fold tally ws b)) \<Longrightarrow> breached_by (bu_limits b) ws br"
  by (frule unused_tokens)
    (auto simp: exceeded_def over_def tally_counts breached_by_def unused_def split: option.splits if_splits)

text \<open>C15. Without anybody to grant an extension the budget of a subagent that has recorded nothing yet
  and is within its limits is exact: work whose costs are not negative is recorded without a stop if and
  only if its iterations, its tool calls, its input and output tokens together and its cost each stay at
  or below their limits, and the counters are then those sums. Otherwise the run is stopped hard by the
  first unit of work that takes a sum above its limit, and the stop names such a limit and sum.\<close>

theorem hard_budget_exact:
  assumes "cannot_extend b" "bu_pending b = []" "list_all no_refund ws" "unused b"
    "work_within (bu_limits b) []"
  shows "(fst (run_recording ws b) = None) = work_within (bu_limits b) ws \<and>
    (case run_recording ws b of
       (None, b') \<Rightarrow> bu_iterations b' = iterations_in ws \<and> bu_tool_calls b' = tool_calls_in ws \<and>
         bu_input b' + bu_output b' = tokens_in ws \<and> bu_cost b' = cost_in ws
     | (Some c, b') \<Rightarrow> \<exists>n br. n < length ws \<and> c = Hard_stop br \<and>
         work_within (bu_limits b) (take n ws) \<and> \<not> work_within (bu_limits b) (take (Suc n) ws) \<and>
         breached_by (bu_limits b) (take (Suc n) ws) br)"
proof -
  have within: "within_budget b" using within_is_work_within [OF assms(4), of "[]"] assms(5) by simp
  have "work_within (bu_limits b) (take n ws)" if "work_within (bu_limits b) ws" for n
    using within_budget_fold [of "drop n ws" "fold tally (take n ws) b"] that assms(3)
      within_is_work_within [OF assms(4)]
    by (metis append_take_drop_id comp_apply fold_append list_all_append)
  moreover have "bu_iterations b' = iterations_in ws \<and> bu_tool_calls b' = tool_calls_in ws \<and>
      bu_input b' + bu_output b' = tokens_in ws \<and> bu_cost b' = cost_in ws" if "b' = fold tally ws b" for b'
    using that tally_counts [of ws b] assms(4) unused_tokens [OF assms(4)]
    by (simp add: unused_def total_tokens_def)
  ultimately show ?thesis
    using run_recording_run [OF assms(1,2,3) within] assms(4)
    by (cases "run_recording ws b"; cases "fst (run_recording ws b)")
      (auto simp: within_is_work_within exceeded_is_breached)
qed

definition demo_limits :: limits where
  "demo_limits = no_limits\<lparr>max_iterations := Some 2\<rparr>"

lemma demo_exceeded:
  "exceeded now None (b\<lparr>bu_limits := demo_limits\<rparr>) =
     (if 2 < bu_iterations b then [\<lparr>br_kind = Iterations, br_used = of_nat (bu_iterations b), br_limit = 2\<rparr>] else [])"
  by (simp add: exceeded_def over_def demo_limits_def no_limits_def)

lemma demo_new_budget: "new_budget demo_limits m = (new_budget no_limits m)\<lparr>bu_limits := demo_limits\<rparr>"
  by (simp add: new_budget_def)

theorem hard_budget_exact_witness:
  "fst (run_recording [Iteration 1, Iteration 2, Iteration 3] (new_budget demo_limits Auto)) \<noteq> None"
proof -
  let ?b = "new_budget demo_limits Auto"
  let ?ws = "[Iteration 1, Iteration 2, Iteration 3]"
  have "cannot_extend ?b" "bu_pending ?b = []" by (simp_all add: cannot_extend_def new_budget_def)
  moreover have "list_all no_refund ?ws" by simp
  moreover have "unused ?b" "work_within (bu_limits ?b) []" "\<not> work_within (bu_limits ?b) ?ws"
    by (simp_all add: unused_def work_within_def new_budget_def demo_limits_def no_limits_def)
  ultimately show ?thesis using hard_budget_exact [of ?b ?ws] by simp
qed

section \<open>One negotiation at a time\<close>

datatype budget_op =
    Work work
  | Timeouts rat
  | Active rat
  | Watch rat
  | Unwatch
  | Verdict kind verdict
  | Microtasks

fun budget_step :: "budget_op \<Rightarrow> budget \<Rightarrow> budget" where
  "budget_step (Work w) b = snd (do_work w b)"
| "budget_step (Timeouts now) b = snd (check_timeout now b)"
| "budget_step (Active now) b = mark_activity now b"
| "budget_step (Watch t) b = set_watchdog_negotiation t b"
| "budget_step Unwatch b = clear_watchdog_negotiation b"
| "budget_step (Verdict k v) b = settle k v b"
| "budget_step Microtasks b = run_microtasks b"

text \<open>The breaches an operation finds, and the kinds among them the handler is asked about.\<close>

fun breaches :: "budget_op \<Rightarrow> budget \<Rightarrow> breach list" where
  "breaches (Work w) b = exceeded 0 None (tally w b)"
| "breaches (Timeouts now) b =
     (case bu_start b of
        None \<Rightarrow> []
      | Some s \<Rightarrow> if timeout_tripped now (now - s) b then exceeded now (Some (now - s)) b else [])"
| "breaches _ b = []"

definition asked_kinds :: "budget_op \<Rightarrow> budget \<Rightarrow> kind list" where
  "asked_kinds e b = filter (\<lambda>k. \<not> jm_has (bu_pending b) k) (map br_kind (breaches e b))"

fun times_asked :: "kind \<Rightarrow> budget_op list \<Rightarrow> budget \<Rightarrow> nat" where
  "times_asked k [] b = 0"
| "times_asked k (e # es) b = count_list (asked_kinds e b) k + times_asked k es (budget_step e b)"

definition negotiating :: "handler \<Rightarrow> budget \<Rightarrow> bool" where
  "negotiating h b \<longleftrightarrow>
     bu_handler b = Some h \<and> bu_mode b = Auto \<and> bu_listener b = Some True \<and>
     list_all (\<lambda>ks. snd ks = Asked) (bu_pending b)"

lemma patch_fields [simp]:
  "bu_handler (patch e b) = bu_handler b" "bu_mode (patch e b) = bu_mode b"
  "bu_listener (patch e b) = bu_listener b" "bu_pending (patch e b) = bu_pending b"
  by (simp_all add: patch_def)

lemma fold_patch_fields [simp]:
  "bu_handler (fold patch es b) = bu_handler b" "bu_mode (fold patch es b) = bu_mode b"
  "bu_listener (fold patch es b) = bu_listener b" "bu_pending (fold patch es b) = bu_pending b"
  by (induction es arbitrary: b) simp_all

lemma list_all_jm_set: "list_all P m \<Longrightarrow> P (k, v) \<Longrightarrow> list_all P (jm_set k v m)"
  by (induction m) auto

lemma negotiate_new_keeps:
  assumes "negotiating h b" "\<forall>br. snd (h br) = Promised"
  shows "negotiating h (negotiate_new h br b)"
    "jm_has (bu_pending (negotiate_new h br b)) k = (k = br_kind br \<or> jm_has (bu_pending b) k)"
proof -
  obtain ds where "h br = (ds, Promised)" using assms(2) by (metis prod.collapse)
  then show "negotiating h (negotiate_new h br b)"
    "jm_has (bu_pending (negotiate_new h br b)) k = (k = br_kind br \<or> jm_has (bu_pending b) k)"
    using assms(1)
    by (auto simp: negotiate_new_def negotiate_def negotiating_def Let_def intro: list_all_jm_set)
qed

lemma negotiate_fold_keeps:
  assumes "negotiating h b" "\<forall>br. snd (h br) = Promised"
  shows "negotiating h (fold (negotiate_new h) ex b) \<and>
    jm_has (bu_pending (fold (negotiate_new h) ex b)) k = (k \<in> set (map br_kind ex) \<or> jm_has (bu_pending b) k)"
  using assms(1)
proof (induction ex arbitrary: b)
  case (Cons br ex)
  from negotiate_new_keeps [OF Cons.prems assms(2), of br] Cons.IH [of "negotiate_new h br b"]
  show ?case by auto
qed simp

lemma check_negotiates:
  "negotiating h b \<Longrightarrow> check_limits now el b =
     (case exceeded now el b of [] \<Rightarrow> (Passed [], b)
      | br # brs \<Rightarrow> (Signal br, fold (negotiate_new h) (br # brs) b))"
  by (simp add: negotiating_def check_limits_def split: list.split)

lemma breaches_distinct: "distinct (map br_kind (exceeded now el b))"
  by (auto simp: exceeded_def over_def split: option.splits)

lemma breaches_step:
  assumes "negotiating h b" "e \<noteq> Microtasks" "\<forall>k v. e \<noteq> Verdict k v"
  shows "\<exists>b'. negotiating h b' \<and> bu_pending b' = bu_pending b \<and>
    budget_step e b = fold (negotiate_new h) (breaches e b) b'"
proof (cases e)
  case (Work w)
  have n: "negotiating h (tally w b)" using assms(1) by (simp add: negotiating_def)
  obtain now where w: "do_work w b = check_limits now None (tally w b)" unfolding do_work_tally by blast
  have "snd (do_work w b) = fold (negotiate_new h) (exceeded 0 None (tally w b)) (tally w b)"
    unfolding w check_negotiates [OF n] exceeded_now [of now] by (simp split: list.split)
  with n Work show ?thesis by (intro exI [of _ "tally w b"]) simp
next
  case (Timeouts now)
  show ?thesis
    using assms(1) Timeouts check_negotiates [OF assms(1)]
    by (intro exI [of _ b]) (auto simp: check_timeout_def split: list.split option.split)
qed (use assms in \<open>auto simp: negotiating_def mark_activity_def set_watchdog_negotiation_def clear_watchdog_negotiation_def\<close>)

lemma settle_negotiating:
  "negotiating h b \<Longrightarrow> negotiating h (settle k v b)"
  by (auto simp: negotiating_def settle_def apply_verdict_def jm_del_def list_all_iff split: verdict.split)

lemma microtasks_negotiating:
  assumes "negotiating h b"
  shows "run_microtasks b = b"
proof -
  have "fold run_microtask ps b' = b'" if "list_all (\<lambda>ks. snd ks = Asked) ps" for ps b'
    using that by (induction ps arbitrary: b') (auto simp: run_microtask_def)
  with assms show ?thesis by (simp add: run_microtasks_def negotiating_def)
qed

lemma settle_other:
  "k' \<noteq> k \<Longrightarrow> jm_has (bu_pending (settle k v b)) k' = jm_has (bu_pending b) k'"
  by (auto simp: settle_def apply_verdict_def split: verdict.split)

lemma count_filter_distinct:
  "distinct ks \<Longrightarrow> count_list (filter P ks) k = (if k \<in> set ks \<and> P k then 1 else 0)"
  by (induction ks) auto

lemma asked_once:
  assumes "negotiating h b" "\<forall>br. snd (h br) = Promised" "list_all (\<lambda>e. \<forall>v. e \<noteq> Verdict k v) es"
  shows "times_asked k es b \<le> (if jm_has (bu_pending b) k then 0 else 1)"
  using assms(1,3)
proof (induction es arbitrary: b)
  case (Cons e es)
  show ?case
  proof (cases "e = Microtasks \<or> (\<exists>k v. e = Verdict k v)")
    case True
    have "negotiating h (budget_step e b)"
      "jm_has (bu_pending (budget_step e b)) k = jm_has (bu_pending b) k" "breaches e b = []"
      using True Cons.prems settle_negotiating settle_other microtasks_negotiating by fastforce+
    with Cons.IH [of "budget_step e b"] Cons.prems show ?thesis by (simp add: asked_kinds_def)
  next
    case False
    then obtain b' where b': "negotiating h b'" "bu_pending b' = bu_pending b"
      "budget_step e b = fold (negotiate_new h) (breaches e b) b'"
      using breaches_step [OF Cons.prems(1), of e] by auto
    have keeps: "negotiating h (budget_step e b)"
      "jm_has (bu_pending (budget_step e b)) k = (k \<in> set (map br_kind (breaches e b)) \<or> jm_has (bu_pending b) k)"
      using negotiate_fold_keeps [OF b'(1) assms(2), of "breaches e b" k] b'(2,3) by auto
    have "distinct (map br_kind (breaches e b))"
      by (cases e) (auto simp: breaches_distinct split: option.split)
    then have c: "count_list (asked_kinds e b) k =
        (if k \<in> set (map br_kind (breaches e b)) \<and> \<not> jm_has (bu_pending b) k then 1 else 0)"
      unfolding asked_kinds_def by (rule count_filter_distinct)
    from Cons.IH [OF keeps(1)] Cons.prems(2) keeps(2) c show ?thesis by (auto split: if_splits)
  qed
qed simp

text \<open>However often a limit is overrun, and whatever else is recorded meanwhile, the coordinator is
  asked about it at most once until it has answered.\<close>

theorem one_negotiation_at_a_time:
  assumes "negotiating h b" "\<forall>br. snd (h br) = Promised" "list_all (\<lambda>e. \<forall>v. e \<noteq> Verdict k v) es"
  shows "times_asked k es b \<le> 1"
  using asked_once [OF assms] by (simp split: if_splits)

definition asking_budget :: "handler \<Rightarrow> budget" where
  "asking_budget h = (new_budget demo_limits Auto)\<lparr>bu_handler := Some h, bu_listener := Some True\<rparr>"

theorem one_negotiation_at_a_time_witness:
  "times_asked Iterations [Work (Iteration 1), Work (Iteration 2), Work (Iteration 3), Work (Iteration 4)]
     (asking_budget (\<lambda>br. ([], Promised))) \<le> 1"
  by (rule one_negotiation_at_a_time [where h = "\<lambda>br. ([], Promised)"])
    (simp_all add: asking_budget_def negotiating_def new_budget_def)

section \<open>Replies that are not awaited\<close>

definition stuck_at :: "kind \<Rightarrow> verdict \<Rightarrow> budget \<Rightarrow> bool" where
  "stuck_at k v b = (jm_wf (bu_pending b) \<and> jm_get (bu_pending b) k = Some (Stuck v))"

lemma stuck_negotiate_new: "stuck_at k v b \<Longrightarrow> stuck_at k v (negotiate_new h br b)"
  by (auto simp: stuck_at_def negotiate_new_def negotiate_def jm_has_def Let_def split: prod.split)

lemma stuck_fold_negotiate: "stuck_at k v b \<Longrightarrow> stuck_at k v (fold (negotiate_new h) ex b)"
  by (induction ex arbitrary: b) (auto intro: stuck_negotiate_new)

lemma invoke_sync_pending: "bu_pending (snd (invoke_sync h br b)) = bu_pending b"
  by (auto simp: invoke_sync_def Let_def split: prod.split reply.split)

lemma stuck_invoke_new: "stuck_at k v (snd sb) \<Longrightarrow> stuck_at k v (snd (invoke_new h br sb))"
proof -
  assume s: "stuck_at k v (snd sb)"
  obtain stop b where sb: "sb = (stop, b)" by fastforce
  obtain ok b' where r: "invoke_sync h br (b\<lparr>bu_pending := jm_set (br_kind br) Marker (bu_pending b)\<rparr>) = (ok, b')"
    by fastforce
  then have "bu_pending b' = jm_set (br_kind br) Marker (bu_pending b)"
    using invoke_sync_pending [of h br "b\<lparr>bu_pending := jm_set (br_kind br) Marker (bu_pending b)\<rparr>"] by simp
  with s sb r show ?thesis by (auto simp: invoke_new_def stuck_at_def jm_has_def)
qed

lemma stuck_fold_invoke: "stuck_at k v (snd sb) \<Longrightarrow> stuck_at k v (snd (fold (invoke_new h) ex sb))"
proof (induction ex arbitrary: sb)
  case (Cons br ex)
  from Cons.IH [OF stuck_invoke_new [OF Cons.prems, of h br]] show ?case by simp
qed simp

lemma stuck_check: "stuck_at k v b \<Longrightarrow> stuck_at k v (snd (check_limits now el b))"
  using stuck_fold_negotiate stuck_fold_invoke [of k v "(None, b)"]
  by (auto simp: check_limits_def Let_def split: option.split mode.split bool.split prod.split)
    (metis snd_conv)+

lemma stuck_step: "stuck_at k v b \<Longrightarrow> stuck_at k v (budget_step e b)"
proof (cases e)
  case (Work w)
  assume "stuck_at k v b"
  then have "stuck_at k v (tally w b)" by (simp add: stuck_at_def)
  with Work show ?thesis by (simp add: do_work_tally stuck_check)
next
  case (Timeouts now)
  assume "stuck_at k v b"
  with Timeouts show ?thesis by (auto simp: check_timeout_def stuck_check split: option.split)
next
  case Microtasks
  assume s: "stuck_at k v b"
  have task: "stuck_at k v (run_microtask ks b')" if "stuck_at k v b'" "fst ks = k \<longrightarrow> snd ks = Stuck v" for ks b'
    using that
    by (auto simp: run_microtask_def stuck_at_def apply_verdict_def split: slot.split verdict.split)
  have "stuck_at k v (fold run_microtask ps b')"
    if "stuck_at k v b'" "\<forall>ks \<in> set ps. fst ks = k \<longrightarrow> snd ks = Stuck v" for ps b'
    using that by (induction ps arbitrary: b') (auto intro: task)
  moreover have "\<forall>ks \<in> set (bu_pending b). fst ks = k \<longrightarrow> snd ks = Stuck v"
  proof
    fix ks assume "ks \<in> set (bu_pending b)"
    then show "fst ks = k \<longrightarrow> snd ks = Stuck v"
      using s jm_get_eq [of "bu_pending b" k "snd ks"] by (cases ks) (auto simp: stuck_at_def)
  qed
  ultimately show ?thesis using s Microtasks by (simp add: run_microtasks_def)
qed (auto simp: stuck_at_def mark_activity_def set_watchdog_negotiation_def clear_watchdog_negotiation_def
    settle_def apply_verdict_def split: verdict.split)

lemma stuck_never_asked: "stuck_at k v b \<Longrightarrow> times_asked k es b = 0"
proof (induction es arbitrary: b)
  case (Cons e es)
  then have "k \<notin> set (asked_kinds e b)" by (auto simp: asked_kinds_def stuck_at_def jm_has_def)
  with Cons.IH [OF stuck_step [OF Cons.prems]] show ?case by simp
qed simp

lemma stuck_run: "stuck_at k v b \<Longrightarrow> stuck_at k v (fold budget_step es b)"
  by (induction es arbitrary: b) (auto intro: stuck_step)

text \<open>A handler that answers at once with \<open>continue\<close> or \<open>throw\<close> is never asked about that kind
  again: the slot of the negotiation is cleared before it is filled, so it stays filled for good with
  the resolved answer.\<close>

theorem immediate_answer_is_final:
  "let b0 = b\<lparr>bu_pending := []\<rparr>;
       b1 = negotiate (\<lambda>_. ([], Reply_continue)) br b0;
       b2 = negotiate (\<lambda>_. ([], Reply_throw)) br b0
   in times_asked (br_kind br) es b1 = 0 \<and> times_asked (br_kind br) es b2 = 0 \<and>
      jm_get (bu_pending (fold budget_step es b1)) (br_kind br) = Some (Stuck (Extended no_limits)) \<and>
      jm_get (bu_pending (fold budget_step es b2)) (br_kind br) = Some (Stuck Stopped)"
proof -
  let ?b = "b\<lparr>bu_pending := []\<rparr>"
  have c: "stuck_at (br_kind br) (Extended no_limits) (negotiate (\<lambda>_. ([], Reply_continue)) br ?b)"
    and t: "stuck_at (br_kind br) Stopped (negotiate (\<lambda>_. ([], Reply_throw)) br ?b)"
    by (simp_all add: stuck_at_def negotiate_def jm_wf_def jm_keys_def jm_get_Cons)
  show ?thesis
    using stuck_never_asked [OF c] stuck_never_asked [OF t]
      stuck_run [OF c, of es, unfolded stuck_at_def] stuck_run [OF t, of es, unfolded stuck_at_def]
    by (simp only: Let_def simp_thms)
qed

text \<open>Without a listener a handler that answers \<open>stop\<close> does not stop anything.\<close>

lemma stop_ignored_without_listener:
  "case check_limits now el
      (b\<lparr>bu_handler := Some (\<lambda>_. ([], Reply_stop)), bu_mode := Auto, bu_listener := Some False\<rparr>) of
     (r, b') \<Rightarrow> (\<exists>ex. r = Passed ex) \<and> bu_limits b' = bu_limits b"
proof -
  define c where "c = b\<lparr>bu_handler := Some (\<lambda>_. ([], Reply_stop)), bu_mode := Auto, bu_listener := Some False\<rparr>"
  have "\<exists>b'. fold (invoke_new (\<lambda>_. ([], Reply_stop))) ex (None, b) = (None, b') \<and> bu_limits b' = bu_limits b" for ex b
  proof (induction ex arbitrary: b)
    case (Cons a ex)
    show ?case
      using Cons.IH [of b] Cons.IH [of "b\<lparr>bu_pending := jm_set (br_kind a) Marker (bu_pending b)\<rparr>"]
      by (cases "jm_has (bu_pending b) (br_kind a)") (simp_all add: invoke_new_def invoke_sync_def)
  qed simp
  then obtain b' where "fold (invoke_new (\<lambda>_. ([], Reply_stop))) (exceeded now el c) (None, c) = (None, b')"
    "bu_limits b' = bu_limits c" by blast
  moreover have "bu_limits c = bu_limits b" by (simp add: c_def)
  moreover have "bu_handler c = Some (\<lambda>_. ([], Reply_stop))" "bu_mode c = Auto" "bu_listener c = Some False"
    by (simp_all add: c_def)
  ultimately have "case check_limits now el c of (r, b') \<Rightarrow> (\<exists>ex. r = Passed ex) \<and> bu_limits b' = bu_limits b"
    by (simp add: check_limits_def Let_def)
  then show ?thesis by (simp add: c_def)
qed

end
