(* ===== verification/Auto_Extend.thy ===== *)
theory Auto_Extend
  imports Subagent_Budget
begin

text \<open>
  The policy that answers budget negotiations when no director does,
  \<open>coordination/auto-extend.ts\<close>: a listener on a subagent's event bus that grants a larger limit up
  to a number of times per kind and up to a ceiling, and extends timeouts only after progress. The
  answer to an event is a grant, a denial, or nothing.
\<close>

section \<open>The policy\<close>

record policy =
  po_factor :: "rat option"
  po_max_per_kind :: "rat option"
  po_ceiling :: limits

definition default_policy :: policy where
  "default_policy = \<lparr>po_factor = None, po_max_per_kind = None, po_ceiling = no_limits\<rparr>"

definition default_ceiling :: limits where
  "default_ceiling =
     \<lparr>max_iterations = Some 50000, max_tool_calls = Some 100000, max_tokens = Some 5000000,
      max_cost = Some 100, timeout_ms = Some (24 * 60 * 60 * 1000), idle_timeout_ms = None\<rparr>"

fun field_by_kind :: "kind \<Rightarrow> limits \<Rightarrow> rat option" where
  "field_by_kind Iterations l = max_iterations l"
| "field_by_kind Tool_calls l = max_tool_calls l"
| "field_by_kind Tokens l = max_tokens l"
| "field_by_kind Cost l = max_cost l"
| "field_by_kind Timeout l = timeout_ms l"
| "field_by_kind Idle_timeout l = timeout_ms l"

fun only_field :: "kind \<Rightarrow> rat \<Rightarrow> limits" where
  "only_field Iterations v = no_limits\<lparr>max_iterations := Some v\<rparr>"
| "only_field Tool_calls v = no_limits\<lparr>max_tool_calls := Some v\<rparr>"
| "only_field Tokens v = no_limits\<lparr>max_tokens := Some v\<rparr>"
| "only_field Cost v = no_limits\<lparr>max_cost := Some v\<rparr>"
| "only_field Timeout v = no_limits\<lparr>timeout_ms := Some v\<rparr>"
| "only_field Idle_timeout v = no_limits\<lparr>timeout_ms := Some v\<rparr>"

definition extension_factor :: "policy \<Rightarrow> rat" where
  "extension_factor p = (case po_factor p of None \<Rightarrow> 1 / 2 | Some f \<Rightarrow> f)"

definition extensions_per_kind :: "policy \<Rightarrow> rat" where
  "extensions_per_kind p = (case po_max_per_kind p of None \<Rightarrow> 8 | Some n \<Rightarrow> n)"

definition cap_of :: "policy \<Rightarrow> kind \<Rightarrow> rat" where
  "cap_of p k = (case field_by_kind k (po_ceiling p) of Some v \<Rightarrow> v | None \<Rightarrow> the (field_by_kind k default_ceiling))"

definition next_limit :: "policy \<Rightarrow> kind \<Rightarrow> rat \<Rightarrow> rat" where
  "next_limit p k limit = min (of_int \<lceil>limit * (1 + extension_factor p)\<rceil>) (cap_of p k)"

section \<open>The listener\<close>

record extender =
  ex_counts :: "(kind, nat) jsmap"
  ex_progress :: nat
  ex_last_timeout :: int
  ex_last_key :: "(kind \<times> rat) option"

definition fresh_extender :: extender where
  "fresh_extender = \<lparr>ex_counts = [], ex_progress = 0, ex_last_timeout = - 1, ex_last_key = None\<rparr>"

definition extension_count :: "kind \<Rightarrow> extender \<Rightarrow> nat" where
  "extension_count k x = (case jm_get (ex_counts x) k of None \<Rightarrow> 0 | Some n \<Rightarrow> n)"

definition on_threshold :: "policy \<Rightarrow> kind \<Rightarrow> rat \<Rightarrow> extender \<Rightarrow> response option \<times> extender" where
  "on_threshold p k limit x =
     (if ex_last_key x = Some (k, limit) then (None, x)
      else
        let x1 = x\<lparr>ex_last_key := Some (k, limit)\<rparr>
        in if k = Timeout \<or> k = Idle_timeout then
             (if ex_last_timeout x1 < int (ex_progress x1)
              then (Some (Grant (no_limits\<lparr>timeout_ms := Some (next_limit p k limit)\<rparr>)),
                    x1\<lparr>ex_last_timeout := int (ex_progress x1)\<rparr>)
              else (Some Deny, x1))
           else if extensions_per_kind p \<le> of_nat (extension_count k x1) then (Some Deny, x1)
           else (Some (Grant (only_field k (next_limit p k limit))),
                 x1\<lparr>ex_counts := jm_set k (extension_count k x1 + 1) (ex_counts x1)\<rparr>))"

datatype bus_event = Tool_executed | Iteration_started | Threshold kind rat

fun on_event :: "policy \<Rightarrow> bus_event \<Rightarrow> extender \<Rightarrow> response option \<times> extender" where
  "on_event p Tool_executed x = (None, x\<lparr>ex_progress := ex_progress x + 1\<rparr>)"
| "on_event p Iteration_started x = (None, x\<lparr>ex_progress := ex_progress x + 1\<rparr>)"
| "on_event p (Threshold k limit) x = on_threshold p k limit x"

definition after_event :: "policy \<Rightarrow> bus_event \<Rightarrow> extender \<Rightarrow> extender" where
  "after_event p e x = snd (on_event p e x)"

section \<open>How often an extension is granted\<close>

definition granted :: "response option \<Rightarrow> bool" where
  "granted r = (case r of Some (Grant _) \<Rightarrow> True | _ \<Rightarrow> False)"

definition grants_now :: "policy \<Rightarrow> kind set \<Rightarrow> bus_event \<Rightarrow> extender \<Rightarrow> nat" where
  "grants_now p K e x =
     (case e of Threshold k l \<Rightarrow> if k \<in> K \<and> granted (fst (on_event p e x)) then 1 else 0 | _ \<Rightarrow> 0)"

fun grants :: "policy \<Rightarrow> kind set \<Rightarrow> bus_event list \<Rightarrow> extender \<Rightarrow> nat" where
  "grants p K [] x = 0"
| "grants p K (e # es) x = grants_now p K e x + grants p K es (after_event p e x)"

definition is_progress :: "bus_event \<Rightarrow> bool" where
  "is_progress e = (case e of Threshold _ _ \<Rightarrow> False | _ \<Rightarrow> True)"

lemmas extender_defs = after_event_def on_threshold_def grants_now_def granted_def Let_def

lemma count_after:
  assumes "k \<noteq> Timeout" "k \<noteq> Idle_timeout"
  shows "extension_count k (after_event p e x) = extension_count k x + grants_now p {k} e x \<and>
    (0 < grants_now p {k} e x \<longrightarrow> of_nat (extension_count k x) < extensions_per_kind p)"
  using assms by (cases e) (auto simp: extender_defs extension_count_def)

lemma grants_counted:
  assumes "k \<noteq> Timeout" "k \<noteq> Idle_timeout"
  shows "of_nat (extension_count k x + grants p {k} es x) \<le>
    max (of_nat (extension_count k x)) (of_int \<lceil>extensions_per_kind p\<rceil> :: rat)"
proof (induction es arbitrary: x)
  case (Cons e es)
  let ?n = "grants_now p {k} e x"
  have c: "extension_count k (after_event p e x) = extension_count k x + ?n"
    "0 < ?n \<Longrightarrow> of_nat (extension_count k x) < extensions_per_kind p"
    using count_after [OF assms, of p e x] by auto
  have n: "?n = 0 \<or> ?n = 1" by (auto simp: grants_now_def split: bus_event.split)
  show ?case
  proof (cases "?n = 0")
    case True
    with Cons.IH [of "after_event p e x"] c(1) show ?thesis by simp
  next
    case False
    with n have n1: "?n = 1" by simp
    then have "of_nat (extension_count k x) < extensions_per_kind p" using c(2) by simp
    then have "(of_nat (extension_count k x + 1) :: rat) \<le> of_int \<lceil>extensions_per_kind p\<rceil>"
      by (metis Suc_eq_plus1 int_one_le_iff_zero_less less_ceiling_iff of_int_le_iff of_int_of_nat_eq
          of_nat_Suc add1_zle_eq add.commute)
    with Cons.IH [of "after_event p e x"] c(1) n1 show ?thesis by (simp add: algebra_simps max_def split: if_splits)
  qed
qed simp

lemma timeout_after:
  "ex_last_timeout x \<le> int (ex_progress x) \<Longrightarrow>
   ex_last_timeout (after_event p e x) \<le> int (ex_progress (after_event p e x)) \<and>
   (if is_progress e then grants_now p {Timeout, Idle_timeout} e x = 0
    else grants_now p {Timeout, Idle_timeout} e x +
      (if ex_last_timeout (after_event p e x) < int (ex_progress (after_event p e x)) then 1 else 0) \<le>
      (if ex_last_timeout x < int (ex_progress x) then 1 else (0 :: nat)))"
  by (cases e) (auto simp: extender_defs is_progress_def)

lemma timeout_grants_counted:
  "ex_last_timeout x \<le> int (ex_progress x) \<Longrightarrow>
   grants p {Timeout, Idle_timeout} es x \<le>
     length (filter is_progress es) + (if ex_last_timeout x < int (ex_progress x) then 1 else 0)"
proof (induction es arbitrary: x)
  case (Cons e es)
  from Cons.IH [of "after_event p e x"] timeout_after [OF Cons.prems, of p e] show ?case
    by (auto split: if_splits)
qed simp

text \<open>Extensions are rationed: in any sequence of events each kind but the timeouts is extended at
  most as often as the policy allows, and the timeouts at most once more than the agent made progress.\<close>

theorem extensions_rationed:
  "(if k = Timeout \<or> k = Idle_timeout then True
    else of_nat (grants p {k} es fresh_extender) \<le> max 0 (of_int \<lceil>extensions_per_kind p\<rceil> :: rat)) \<and>
   grants p {Timeout, Idle_timeout} es fresh_extender \<le> length (filter is_progress es) + 1"
  using grants_counted [of k fresh_extender p es] timeout_grants_counted [of fresh_extender p es]
  by (simp add: fresh_extender_def extension_count_def)
section \<open>An agent that makes progress\<close>

text \<open>Timeouts that are asked for one after the other, each at the limit granted last, with progress in
  between. The result is the responses.\<close>

fun timeout_rounds :: "policy \<Rightarrow> nat \<Rightarrow> rat \<Rightarrow> extender \<Rightarrow> response option list" where
  "timeout_rounds p 0 limit x = []"
| "timeout_rounds p (Suc n) limit x =
     (case on_threshold p Timeout limit (after_event p Tool_executed x) of
        (r, x') \<Rightarrow> r # timeout_rounds p n (case r of Some (Grant e) \<Rightarrow> the (timeout_ms e) | _ \<Rightarrow> limit) x')"

fun raised :: "policy \<Rightarrow> nat \<Rightarrow> rat \<Rightarrow> rat" where
  "raised p 0 limit = limit"
| "raised p (Suc n) limit = raised p n (next_limit p Timeout limit)"

lemma next_limit_grows:
  assumes "0 < extension_factor p" "0 < limit" "limit < cap_of p k"
  shows "limit < next_limit p k limit"
proof -
  have "limit < limit * (1 + extension_factor p)" using assms(1,2) by simp
  also have "\<dots> \<le> of_int \<lceil>limit * (1 + extension_factor p)\<rceil>" by simp
  finally show ?thesis using assms(3) by (simp add: next_limit_def)
qed

lemma raised_mono:
  assumes "0 < extension_factor p" "0 < limit" "limit < cap_of p Timeout"
  shows "limit \<le> raised p n limit"
  using assms(2,3)
proof (induction n arbitrary: limit)
  case (Suc n)
  have g: "limit < next_limit p Timeout limit" by (rule next_limit_grows [OF assms(1) Suc.prems])
  show ?case
  proof (cases "next_limit p Timeout limit < cap_of p Timeout")
    case True
    with Suc.IH [of "next_limit p Timeout limit"] g Suc.prems show ?thesis by simp
  next
    case False
    have "next_limit p Timeout l \<le> cap_of p Timeout" for l by (simp add: next_limit_def)
    with False have eq: "next_limit p Timeout limit = cap_of p Timeout" by (simp add: antisym not_less)
    have pos: "0 < cap_of p Timeout" using Suc.prems by simp
    have fixed: "next_limit p Timeout (cap_of p Timeout) = cap_of p Timeout"
    proof -
      have "cap_of p Timeout \<le> cap_of p Timeout * (1 + extension_factor p)" using pos assms(1) by simp
      also have "\<dots> \<le> of_int \<lceil>cap_of p Timeout * (1 + extension_factor p)\<rceil>" by simp
      finally show ?thesis by (simp add: next_limit_def)
    qed
    have "raised p m (cap_of p Timeout) = cap_of p Timeout" for m
      by (induction m) (simp_all add: fixed)
    with eq g show ?thesis by simp
  qed
qed simp

lemma timeout_round:
  assumes "ex_last_timeout x \<le> int (ex_progress x)" "ex_last_key x \<noteq> Some (Timeout, limit)"
  shows "\<exists>x'. on_threshold p Timeout limit (after_event p Tool_executed x) =
      (Some (Grant (no_limits\<lparr>timeout_ms := Some (next_limit p Timeout limit)\<rparr>)), x') \<and>
    ex_last_timeout x' \<le> int (ex_progress x') \<and> ex_last_key x' = Some (Timeout, limit)"
  using assms by (simp add: extender_defs)

text \<open>An agent that keeps working is not cut off by the clock: whenever it made progress since its last
  extension, and its limit is below the ceiling, the limit is raised, as often as it takes.\<close>

theorem progressing_agent_extended:
  assumes "0 < extension_factor p" "0 < limit"
    "ex_last_timeout x \<le> int (ex_progress x)" "ex_last_key x \<noteq> Some (Timeout, limit)"
    "\<forall>m<n. raised p m limit < cap_of p Timeout"
  shows "timeout_rounds p n limit x =
    map (\<lambda>m. Some (Grant (no_limits\<lparr>timeout_ms := Some (raised p (Suc m) limit)\<rparr>))) [0..<n]"
  using assms(2-)
proof (induction n arbitrary: limit x)
  case (Suc n)
  let ?next = "next_limit p Timeout limit"
  obtain x' where x': "on_threshold p Timeout limit (after_event p Tool_executed x) =
      (Some (Grant (no_limits\<lparr>timeout_ms := Some ?next\<rparr>)), x')"
    "ex_last_timeout x' \<le> int (ex_progress x')" "ex_last_key x' = Some (Timeout, limit)"
    using timeout_round [OF Suc.prems(2,3), of p] by auto
  have "limit < cap_of p Timeout" using Suc.prems(4) by (auto dest: spec [of _ 0])
  then have g: "limit < ?next" by (rule next_limit_grows [OF assms(1) Suc.prems(1)])
  have "\<forall>m<n. raised p m ?next < cap_of p Timeout"
    using Suc.prems(4) by (metis Suc_less_eq raised.simps(2))
  then have ih: "timeout_rounds p n ?next x' =
      map (\<lambda>m. Some (Grant (no_limits\<lparr>timeout_ms := Some (raised p (Suc m) ?next)\<rparr>))) [0..<n]"
    using Suc.IH [of ?next x'] g Suc.prems(1) x'(2,3) by simp
  have "[0..<Suc n] = 0 # map Suc [0..<n]" by (simp add: map_Suc_upt upt_conv_Cons del: upt_Suc)
  with ih x'(1) show ?case by simp
qed simp

theorem progressing_agent_extended_witness:
  "timeout_rounds default_policy 2 1000 fresh_extender =
     [Some (Grant (no_limits\<lparr>timeout_ms := Some 1500\<rparr>)), Some (Grant (no_limits\<lparr>timeout_ms := Some 2250\<rparr>))]"
proof -
  have f: "extension_factor default_policy = 1 / 2" "cap_of default_policy Timeout = 86400000"
    by (simp_all add: extension_factor_def default_policy_def cap_of_def default_ceiling_def no_limits_def)
  have r: "raised default_policy (Suc 0) 1000 = 1500" "raised default_policy (Suc (Suc 0)) 1000 = 2250"
    by (simp_all add: next_limit_def f)
  have "timeout_rounds default_policy 2 1000 fresh_extender =
      map (\<lambda>m. Some (Grant (no_limits\<lparr>timeout_ms := Some (raised default_policy (Suc m) 1000)\<rparr>))) [0..<2]"
  proof (rule progressing_agent_extended)
    show "\<forall>m<2. raised default_policy m 1000 < cap_of default_policy Timeout"
      using r by (auto simp: less_2_cases_iff f)
  qed (simp_all add: f fresh_extender_def)
  with r show ?thesis by (simp add: numeral_2_eq_2 del: raised.simps)
qed

section \<open>The policy and the budget together\<close>

text \<open>The budget's handler asks the bus, the policy answers, and the verdict is applied.\<close>

datatype loop_op = Budget_op budget_op | Bus_event bus_event | Negotiation breach

definition asking :: handler where
  "asking br = ([], Promised)"

definition answer :: "policy \<Rightarrow> breach \<Rightarrow> budget \<times> extender \<Rightarrow> budget \<times> extender" where
  "answer p br bx =
     (case on_threshold p (br_kind br) (br_limit br) (snd bx) of
        (r, x') \<Rightarrow>
          (settle (br_kind br) (bus_request_decision True (case r of None \<Rightarrow> [] | Some a \<Rightarrow> [a]) []) (fst bx), x'))"

fun loop_step :: "policy \<Rightarrow> loop_op \<Rightarrow> budget \<times> extender \<Rightarrow> budget \<times> extender" where
  "loop_step p (Budget_op e) bx =
     (case e of Verdict _ _ \<Rightarrow> bx | _ \<Rightarrow> (budget_step e (fst bx), snd bx))"
| "loop_step p (Bus_event e) bx = (fst bx, after_event p e (snd bx))"
| "loop_step p (Negotiation br) bx = answer p br bx"

definition no_higher :: "rat option \<Rightarrow> rat option \<Rightarrow> rat \<Rightarrow> bool" where
  "no_higher old new cap = (case new of None \<Rightarrow> True
     | Some v \<Rightarrow> v \<le> cap \<or> (case old of None \<Rightarrow> False | Some w \<Rightarrow> v \<le> w))"

definition limits_capped :: "policy \<Rightarrow> limits \<Rightarrow> limits \<Rightarrow> bool" where
  "limits_capped p l0 l =
     (no_higher (max_iterations l0) (max_iterations l) (cap_of p Iterations) \<and>
      no_higher (max_tool_calls l0) (max_tool_calls l) (cap_of p Tool_calls) \<and>
      no_higher (max_tokens l0) (max_tokens l) (cap_of p Tokens) \<and>
      no_higher (max_cost l0) (max_cost l) (cap_of p Cost) \<and>
      no_higher (timeout_ms l0) (timeout_ms l) (cap_of p Timeout) \<and>
      idle_timeout_ms l = idle_timeout_ms l0)"

definition loop_good :: "policy \<Rightarrow> limits \<Rightarrow> budget \<times> extender \<Rightarrow> bool" where
  "loop_good p l0 bx \<longleftrightarrow> negotiating asking (fst bx) \<and> limits_capped p l0 (bu_limits (fst bx))"

lemma cap_idle: "cap_of p Idle_timeout = cap_of p Timeout"
  by (simp add: cap_of_def split: option.split)

lemma next_limit_cap: "next_limit p k limit \<le> cap_of p k"
  by (simp add: next_limit_def)

lemma grant_capped:
  assumes "on_threshold p k limit x = (Some (Grant e), x')" "limits_capped p l0 l"
  shows "limits_capped p l0 (patch_limits e l)"
proof -
  have "e = only_field k (next_limit p k limit)"
    using assms(1) by (cases k) (auto simp: extender_defs split: if_splits)
  with assms(2) next_limit_cap [of p k limit] show ?thesis
    by (cases k)
      (auto simp: limits_capped_def no_higher_def patch_limits_def no_limits_def given_def cap_idle)
qed

lemma negotiate_asking_limits: "bu_limits (fold (negotiate_new asking) ex b) = bu_limits b"
  by (induction ex arbitrary: b) (simp_all add: negotiate_new_def negotiate_def asking_def)

lemma budget_step_asking:
  assumes "negotiating asking b" "\<forall>k v. e \<noteq> Verdict k v"
  shows "negotiating asking (budget_step e b) \<and> bu_limits (budget_step e b) = bu_limits b"
proof (cases "e = Microtasks")
  case True
  with assms(1) microtasks_negotiating show ?thesis by auto
next
  case False
  obtain b' where b': "negotiating asking b'" "budget_step e b = fold (negotiate_new asking) (breaches e b) b'"
    "bu_limits b' = bu_limits b"
  proof (cases e)
    case (Work w)
    have n: "negotiating asking (tally w b)" using assms(1) by (simp add: negotiating_def)
    obtain now where w: "do_work w b = check_limits now None (tally w b)" unfolding do_work_tally by blast
    have "snd (do_work w b) = fold (negotiate_new asking) (exceeded 0 None (tally w b)) (tally w b)"
      unfolding w check_negotiates [OF n] exceeded_now [of now] by (simp split: list.split)
    with n Work that show ?thesis by auto
  next
    case (Timeouts now)
    have "budget_step e b = fold (negotiate_new asking) (breaches e b) b"
      using check_negotiates [OF assms(1)]
      by (simp add: Timeouts check_timeout_def split: list.split option.split)
    with assms(1) that show ?thesis by blast
  next
    case (Active now)
    with assms(1) that [of "budget_step e b"] show ?thesis by (simp add: negotiating_def mark_activity_def)
  next
    case (Watch t)
    with assms(1) that [of "budget_step e b"] show ?thesis
      by (simp add: negotiating_def set_watchdog_negotiation_def)
  next
    case Unwatch
    with assms(1) that [of "budget_step e b"] show ?thesis
      by (simp add: negotiating_def clear_watchdog_negotiation_def)
  next
    case (Verdict k v)
    with assms(2) show ?thesis by blast
  next
    case Microtasks
    with False show ?thesis by blast
  qed
  with negotiate_fold_keeps [OF b'(1), of "breaches e b" Cost] negotiate_asking_limits [of "breaches e b" b']
  show ?thesis by (simp add: asking_def)
qed

lemma answer_good:
  assumes "loop_good p l0 bx"
  shows "loop_good p l0 (answer p br bx)"
proof -
  obtain r x' where r: "on_threshold p (br_kind br) (br_limit br) (snd bx) = (r, x')" by fastforce
  show ?thesis
  proof (cases "\<exists>e. r = Some (Grant e)")
    case True
    then obtain e where e: "r = Some (Grant e)" by blast
    have "limits_capped p l0 (patch_limits e (bu_limits (fst bx)))"
      using grant_capped [of p "br_kind br" "br_limit br" "snd bx" e x' l0] r e assms by (simp add: loop_good_def)
    with r e assms settle_negotiating [of asking "fst bx" "br_kind br" "Extended e"] show ?thesis
      by (auto simp: loop_good_def answer_def bus_request_decision_def first_response_def settle_def
          apply_verdict_def patch_def)
  next
    case False
    then have "bus_request_decision True (case r of None \<Rightarrow> [] | Some a \<Rightarrow> [a]) [] = Stopped"
      by (cases r) (auto simp: bus_request_decision_def first_response_def split: response.split)
    with r assms settle_negotiating [of asking "fst bx" "br_kind br" Stopped] show ?thesis
      by (auto simp: loop_good_def answer_def settle_def apply_verdict_def)
  qed
qed

lemma loop_step_good: "loop_good p l0 bx \<Longrightarrow> loop_good p l0 (loop_step p e bx)"
proof (cases e)
  case (Budget_op o')
  assume "loop_good p l0 bx"
  with Budget_op budget_step_asking [of "fst bx" o'] show ?thesis
    by (cases o') (auto simp: loop_good_def)
next
  case (Negotiation br)
  assume "loop_good p l0 bx"
  with Negotiation show ?thesis by (simp add: answer_good)
qed (simp add: loop_good_def)

interpretation negotiated_loop: state_contract "loop_step p" "loop_good p l0" for p l0
  by unfold_locales (rule loop_step_good)

text \<open>No sequence of work, clock checks, progress and negotiations lifts a limit above both its first
  value and the ceiling of the policy, and the idle window is never changed.\<close>

theorem auto_extension_capped:
  "limits_capped p l (bu_limits (fst (fold (loop_step p) es
     ((new_budget l Auto)\<lparr>bu_handler := Some asking, bu_listener := Some True\<rparr>, fresh_extender))))"
proof -
  have "loop_good p l ((new_budget l Auto)\<lparr>bu_handler := Some asking, bu_listener := Some True\<rparr>, fresh_extender)"
    by (auto simp: loop_good_def negotiating_def new_budget_def limits_capped_def no_higher_def split: option.split)
  from negotiated_loop.run_good [OF this, of es] show ?thesis by (simp add: loop_good_def)
qed

section \<open>Where the policy does not do what it says\<close>

text \<open>An idle window is answered with the wrong limit: the grant sets the wall clock to one and a half
  idle windows, which may cut a deadline that lay far ahead, and leaves the idle window as it was; and
  the next time the same window elapses nobody answers, however much the agent did in between, so the
  request runs into its time limit and the agent is stopped.\<close>

theorem idle_extension_cuts_deadline:
  "case on_threshold default_policy Idle_timeout 900000 fresh_extender of
     (r, x) \<Rightarrow>
       r = Some (Grant (no_limits\<lparr>timeout_ms := Some 1350000\<rparr>)) \<and>
       patch_limits (no_limits\<lparr>timeout_ms := Some 1350000\<rparr>)
         (no_limits\<lparr>timeout_ms := Some 36000000, idle_timeout_ms := Some 900000\<rparr>) =
         no_limits\<lparr>timeout_ms := Some 1350000, idle_timeout_ms := Some 900000\<rparr> \<and>
       fst (on_threshold default_policy Idle_timeout 900000
              ((after_event default_policy Tool_executed ^^ n) x)) = None \<and>
       bus_request_decision True [] [] = Stopped"
proof -
  have f: "next_limit default_policy Idle_timeout 900000 = 1350000"
    by (simp add: next_limit_def extension_factor_def default_policy_def cap_of_def default_ceiling_def no_limits_def)
  have key: "ex_last_key ((after_event default_policy Tool_executed ^^ n) x) = ex_last_key x" for x
    by (induction n) (simp_all add: after_event_def)
  show ?thesis
    by (simp add: on_threshold_def f fresh_extender_def Let_def key patch_limits_def given_def no_limits_def
        bus_request_decision_def first_response_def)
qed

text \<open>At the ceiling the policy falls silent: the grant that reaches the ceiling from the ceiling leaves
  the limit as it is, and the next request with that limit is taken for a repetition of the last one.
  A request is answered neither with a grant nor with a denial, and a limit that started above the
  ceiling is lowered by its extension.\<close>

theorem silent_at_ceiling:
  "(case on_threshold default_policy Iterations 50000 fresh_extender of
      (r, x) \<Rightarrow> r = Some (Grant (no_limits\<lparr>max_iterations := Some 50000\<rparr>)) \<and>
        fst (on_threshold default_policy Iterations 50000 x) = None) \<and>
   fst (on_threshold default_policy Iterations 80000 fresh_extender) =
     Some (Grant (no_limits\<lparr>max_iterations := Some 50000\<rparr>))"
proof -
  have c: "cap_of default_policy Iterations = 50000"
    "extensions_per_kind default_policy = 8" "extension_factor default_policy = 1 / 2"
    by (simp_all add: cap_of_def default_policy_def default_ceiling_def no_limits_def extensions_per_kind_def
        extension_factor_def)
  have n: "next_limit default_policy Iterations 50000 = 50000" "next_limit default_policy Iterations 80000 = 50000"
    by (simp_all add: next_limit_def c)
  show ?thesis by (simp add: on_threshold_def c n fresh_extender_def Let_def extension_count_def)
qed

end
