(* ===== verification/Watchdog.thy ===== *)
theory Watchdog
  imports Subagent_Budget
begin

text \<open>
  The watchdog of a running subagent, \<open>executeWithTimeout\<close> of
  \<open>coordination/multi-agent-coordinator.ts\<close>: a timer that is armed again at every tick for the next of
  three points in time, the idle window, the wall-clock deadline and the point before it at which an
  extension is negotiated ahead of time.

  Times are absolute numbers of milliseconds. A tick is told the time, how long the agent was idle,
  and, for the case that it negotiates, the reply with the time and idleness after waiting for it.
  Timers are exact.
\<close>

section \<open>State\<close>

record watch =
  wt_start :: rat
  wt_initial_timeout :: "rat option"
  wt_initial_idle :: "rat option"
  wt_timeout :: "rat option"
  wt_idle :: "rat option"
  wt_fraction :: rat
  wt_handler :: bool
  wt_listener :: bool
  wt_locked :: bool
  wt_ceiling :: "rat option"
  wt_last_grant :: rat

definition preempt_fraction :: rat where
  "preempt_fraction = 85 / 100"

definition new_watch :: "rat \<Rightarrow> limits \<Rightarrow> bool \<Rightarrow> bool \<Rightarrow> watch" where
  "new_watch now l handler listener =
     \<lparr>wt_start = now, wt_initial_timeout = timeout_ms l, wt_initial_idle = idle_timeout_ms l,
      wt_timeout = timeout_ms l, wt_idle = idle_timeout_ms l, wt_fraction = preempt_fraction,
      wt_handler = handler, wt_listener = listener, wt_locked = False, wt_ceiling = None, wt_last_grant = - 1\<rparr>"

definition wall_limit :: "watch \<Rightarrow> rat option" where
  "wall_limit w = (case wt_initial_timeout w of None \<Rightarrow> None | Some t \<Rightarrow> Some (case wt_timeout w of None \<Rightarrow> t | Some v \<Rightarrow> v))"

definition idle_limit :: "watch \<Rightarrow> rat option" where
  "idle_limit w = (case wt_initial_idle w of None \<Rightarrow> None | Some t \<Rightarrow> Some (case wt_idle w of None \<Rightarrow> t | Some v \<Rightarrow> v))"

section \<open>Arming the timer\<close>

text \<open>The finite ones of the three remainders.\<close>

definition remaining :: "watch \<Rightarrow> rat \<Rightarrow> rat \<Rightarrow> rat list" where
  "remaining w now idle =
     (case wall_limit w of None \<Rightarrow> [] | Some l \<Rightarrow> [l - (now - wt_start w)]) @
     (case idle_limit w of None \<Rightarrow> [] | Some l \<Rightarrow> [l - idle]) @
     (case wall_limit w of None \<Rightarrow> []
      | Some l \<Rightarrow> if wt_ceiling w = Some l then [] else [l * wt_fraction w - (now - wt_start w)])"

definition schedule_next :: "watch \<Rightarrow> rat \<Rightarrow> rat \<Rightarrow> rat" where
  "schedule_next w now idle =
     (case remaining w now idle of [] \<Rightarrow> 25 | r # rs \<Rightarrow> max 25 (fold min rs r))"

section \<open>A tick\<close>

datatype due =
    Reap_idle rat rat
  | Lock_early rat
  | Ask_early rat rat
  | Wait
  | Kill_at_deadline rat rat
  | Ask_at_deadline rat rat

definition what_is_due :: "watch \<Rightarrow> rat \<Rightarrow> rat \<Rightarrow> due" where
  "what_is_due w now idle =
     (let elapsed = now - wt_start w;
          wall = wall_limit w;
          wall_exceeded = (case wall of None \<Rightarrow> False | Some l \<Rightarrow> l \<le> elapsed);
          idle_exceeded = (case idle_limit w of None \<Rightarrow> False | Some l \<Rightarrow> l \<le> idle)
      in if idle_exceeded \<and> \<not> wall_exceeded then Reap_idle (the (idle_limit w)) idle
         else if wall \<noteq> None \<and> \<not> wall_exceeded \<and> wt_handler w \<and> \<not> wt_locked w \<and> the wall * wt_fraction w \<le> elapsed
         then (if now - idle \<le> wt_last_grant w then Lock_early (the wall) else Ask_early elapsed (the wall))
         else if \<not> wall_exceeded then Wait
         else if \<not> wt_handler w then Kill_at_deadline elapsed (the wall)
         else Ask_at_deadline elapsed (the wall))"

datatype negotiated = Says_stop | Says_continue | Says_throw | Says_extend "rat option" | Rejects

record tick =
  tk_now :: rat
  tk_idle :: rat
  tk_reply :: negotiated
  tk_now_after :: rat
  tk_idle_after :: rat

datatype tick_result =
    Rearm rat
  | Timed_out kind rat rat
  | Stopped_at rat rat

definition lock_at :: "rat \<Rightarrow> watch \<Rightarrow> watch" where
  "lock_at l w = w\<lparr>wt_locked := True, wt_ceiling := Some l\<rparr>"

definition grant_until :: "rat \<Rightarrow> tick \<Rightarrow> watch \<Rightarrow> watch" where
  "grant_until v t w =
     w\<lparr>wt_timeout := Some v, wt_last_grant := tk_now_after t - tk_idle_after t, wt_locked := False, wt_ceiling := None\<rparr>"

definition rearm_after :: "tick \<Rightarrow> watch \<Rightarrow> tick_result \<times> watch" where
  "rearm_after t w = (Rearm (schedule_next w (tk_now_after t) (tk_idle_after t)), w)"

definition terminate :: "watch \<Rightarrow> rat \<Rightarrow> rat \<Rightarrow> tick_result \<times> watch" where
  "terminate w limit used = (if wt_listener w then Stopped_at limit used else Timed_out Timeout limit used, w)"

definition finish_early :: "rat \<Rightarrow> tick \<Rightarrow> watch \<Rightarrow> tick_result \<times> watch" where
  "finish_early l t w =
     rearm_after t
       (case tk_reply t of
          Says_extend (Some v) \<Rightarrow> grant_until v t w
        | _ \<Rightarrow> lock_at l w)"

definition finish_deadline :: "rat \<Rightarrow> rat \<Rightarrow> tick \<Rightarrow> watch \<Rightarrow> tick_result \<times> watch" where
  "finish_deadline elapsed l t w =
     (case tk_reply t of
        Says_throw \<Rightarrow> terminate w l elapsed
      | Says_continue \<Rightarrow> (Rearm (max 1000 l), lock_at l w)
      | Says_stop \<Rightarrow> terminate w l elapsed
      | Says_extend (Some v) \<Rightarrow> rearm_after t (grant_until v t w)
      | Says_extend None \<Rightarrow> terminate w l elapsed
      | Rejects \<Rightarrow> (Timed_out Timeout l elapsed, w))"

definition on_tick :: "tick \<Rightarrow> watch \<Rightarrow> tick_result \<times> watch" where
  "on_tick t w =
     (case what_is_due w (tk_now t) (tk_idle t) of
        Reap_idle l used \<Rightarrow> (Timed_out Idle_timeout l used, w)
      | Lock_early l \<Rightarrow>
          let w' = lock_at l w in (Rearm (schedule_next w' (tk_now t) (tk_idle t)), w')
      | Ask_early elapsed l \<Rightarrow> finish_early l t w
      | Wait \<Rightarrow> (Rearm (schedule_next w (tk_now t) (tk_idle t)), w)
      | Kill_at_deadline elapsed l \<Rightarrow> (Timed_out Timeout l elapsed, w)
      | Ask_at_deadline elapsed l \<Rightarrow> finish_deadline elapsed l t w)"

text \<open>Another part of the program patches the limits of the budget between two ticks.\<close>

definition patched :: "limits \<Rightarrow> watch \<Rightarrow> watch" where
  "patched ext w = w\<lparr>wt_timeout := given (timeout_ms ext) (wt_timeout w), wt_idle := given (idle_timeout_ms ext) (wt_idle w)\<rparr>"

fun run_ticks :: "tick list \<Rightarrow> watch \<Rightarrow> tick_result option \<times> watch" where
  "run_ticks [] w = (None, w)"
| "run_ticks (t # ts) w =
     (case on_tick t w of
        (Rearm _, w') \<Rightarrow> run_ticks ts w'
      | (r, w') \<Rightarrow> (Some r, w'))"

section \<open>When a subagent is ended\<close>

definition wall_over :: "watch \<Rightarrow> rat \<Rightarrow> bool" where
  "wall_over w now = (case wall_limit w of None \<Rightarrow> False | Some l \<Rightarrow> l \<le> now - wt_start w)"

definition idle_over :: "watch \<Rightarrow> rat \<Rightarrow> bool" where
  "idle_over w idle = (case idle_limit w of None \<Rightarrow> False | Some l \<Rightarrow> l \<le> idle)"

definition refused :: "negotiated \<Rightarrow> bool" where
  "refused r = (case r of Says_continue \<Rightarrow> False | Says_extend (Some _) \<Rightarrow> False | _ \<Rightarrow> True)"

definition ends :: "tick_result \<Rightarrow> bool" where
  "ends r = (case r of Rearm _ \<Rightarrow> False | _ \<Rightarrow> True)"

lemmas tick_defs = on_tick_def finish_early_def finish_deadline_def rearm_after_def terminate_def lock_at_def
  grant_until_def

lemma due_by_limits:
  "what_is_due w now idle =
     (if wall_over w now
      then (if wt_handler w then Ask_at_deadline (now - wt_start w) (the (wall_limit w))
            else Kill_at_deadline (now - wt_start w) (the (wall_limit w)))
      else if idle_over w idle then Reap_idle (the (idle_limit w)) idle
      else if wall_limit w \<noteq> None \<and> wt_handler w \<and> \<not> wt_locked w \<and>
              the (wall_limit w) * wt_fraction w \<le> now - wt_start w
      then (if now - idle \<le> wt_last_grant w then Lock_early (the (wall_limit w))
            else Ask_early (now - wt_start w) (the (wall_limit w)))
      else Wait)"
  by (simp add: what_is_due_def wall_over_def idle_over_def Let_def)

text \<open>A subagent is ended in exactly two cases: it was idle for its whole window while its deadline has
  not passed, or its deadline has passed and nobody extends it or lets it go on.\<close>

theorem watchdog_ends_exactly:
  "ends (fst (on_tick t w)) \<longleftrightarrow>
     (if wall_over w (tk_now t) then \<not> wt_handler w \<or> refused (tk_reply t) else idle_over w (tk_idle t))"
  by (cases "tk_reply t")
    (auto simp: on_tick_def due_by_limits tick_defs ends_def refused_def Let_def split: option.split)
section \<open>No deadline is slept through\<close>

lemma fold_min_le: "fold min rs (r :: rat) \<le> r" "x \<in> set rs \<Longrightarrow> fold min rs (r :: rat) \<le> x"
proof -
  have both: "fold min rs (r :: rat) \<le> r \<and> (\<forall>x \<in> set rs. fold min rs r \<le> x)" for rs and r :: rat
  proof (induction rs arbitrary: r)
    case (Cons a rs)
    from Cons [of "min a r"] show ?case by auto
  qed simp
  then show "fold min rs (r :: rat) \<le> r" "x \<in> set rs \<Longrightarrow> fold min rs (r :: rat) \<le> x" by blast+
qed

lemma schedule_le: "x \<in> set (remaining w now idle) \<Longrightarrow> schedule_next w now idle \<le> max 25 x"
  using fold_min_le
  by (auto simp: schedule_next_def max_def split: list.split) (meson order_trans)+

lemma schedule_wall: "wall_limit w = Some l \<Longrightarrow> schedule_next w now idle \<le> max 25 (l - (now - wt_start w))"
  by (rule schedule_le) (simp add: remaining_def)

lemma schedule_idle: "idle_limit w = Some l \<Longrightarrow> schedule_next w now idle \<le> max 25 (l - idle)"
  by (rule schedule_le) (simp add: remaining_def)

text \<open>A silent agent: ticks exactly when the timer fires, with no activity since the time \<open>a\<close>.\<close>

definition silent_tick :: "rat \<Rightarrow> rat \<Rightarrow> tick" where
  "silent_tick a now =
     \<lparr>tk_now = now, tk_idle = now - a, tk_reply = Says_stop, tk_now_after = now, tk_idle_after = now - a\<rparr>"

lemma idle_only_tick:
  assumes "wt_initial_timeout w = None" "idle_limit w = Some l"
  shows "on_tick (silent_tick a now) w =
    (if l \<le> now - a then Timed_out Idle_timeout l (now - a) else Rearm (schedule_next w now (now - a)), w)"
  using assms by (simp add: on_tick_def due_by_limits wall_over_def idle_over_def wall_limit_def silent_tick_def)

text \<open>A tick of an agent without activity since the time \<open>a\<close>, whatever the reply when it negotiates and
  however long that takes; and the time at which a tick arms the timer again, which is after the reply
  when it negotiated ahead of the deadline.\<close>

definition silent_since :: "rat \<Rightarrow> tick \<Rightarrow> bool" where
  "silent_since a t \<longleftrightarrow> tk_idle t = tk_now t - a \<and> tk_idle_after t = tk_now_after t - a"

definition armed_at :: "tick \<Rightarrow> watch \<Rightarrow> rat" where
  "armed_at t w = (case what_is_due w (tk_now t) (tk_idle t) of Ask_early elapsed l \<Rightarrow> tk_now_after t | _ \<Rightarrow> tk_now t)"

lemma early_tick:
  assumes "\<not> wall_over w (tk_now t)" "on_tick t w = (Rearm ms, w')" "silent_since a t"
  shows "\<not> idle_over w (tk_idle t)" "idle_limit w' = idle_limit w"
    "ms = schedule_next w' (armed_at t w) (armed_at t w - a)"
  using assms
  by (auto simp: on_tick_def due_by_limits armed_at_def tick_defs silent_since_def Let_def idle_limit_def
      split: if_splits negotiated.splits option.splits)

text \<open>C19. A hung agent is freed in time. Let an agent be silent since some time and a tick before its
  wall-clock deadline (if it has one) arm the timer again. Then the idle window is not over yet; the
  timer fires at the end of the window at the latest, or within the 25 milliseconds that are its
  shortest delay; and a tick at or after the end of the window ends the agent, if its wall-clock
  deadline is not reached by then (when it is, the deadline's own rule applies, and a coordinator that
  lets the agent go on keeps it). Without a wall-clock limit the very next tick ends it, at most 25
  milliseconds after the window.\<close>

theorem hung_agent_reaped_in_time:
  assumes "idle_limit w = Some l" "silent_since a t" "\<not> wall_over w (tk_now t)"
    "on_tick t w = (Rearm ms, w')"
  shows "tk_now t < a + l \<and> armed_at t w + ms \<le> max (a + l) (armed_at t w + 25) \<and>
    (\<forall>t'. silent_since a t' \<and> a + l \<le> tk_now t' \<and> \<not> wall_over w' (tk_now t') \<longrightarrow>
       on_tick t' w' = (Timed_out Idle_timeout l (tk_now t' - a), w')) \<and>
    (wt_initial_timeout w = None \<longrightarrow>
       a + l \<le> tk_now t + ms \<and> tk_now t + ms \<le> a + l + 25 \<and> (\<forall>now. \<not> wall_over w' now))"
proof -
  note early = early_tick [OF assms(3,4,2)]
  have now: "tk_now t < a + l"
    using early(1) assms(1,2) by (simp add: idle_over_def silent_since_def)
  have "ms \<le> max 25 (l - (armed_at t w - a))"
    using schedule_idle [of w' l "armed_at t w" "armed_at t w - a"] early(2,3) assms(1) by simp
  then have fires: "armed_at t w + ms \<le> max (a + l) (armed_at t w + 25)" by (auto simp: max_def split: if_splits)
  have reaped: "on_tick t' w' = (Timed_out Idle_timeout l (tk_now t' - a), w')"
    if "silent_since a t'" "a + l \<le> tk_now t'" "\<not> wall_over w' (tk_now t')" for t'
    using that assms(1) early(2) by (simp add: on_tick_def due_by_limits idle_over_def silent_since_def)
  have "a + l \<le> tk_now t + ms \<and> tk_now t + ms \<le> a + l + 25 \<and> (\<forall>now. \<not> wall_over w' now)"
    if none: "wt_initial_timeout w = None"
  proof -
    have wait: "on_tick t w = (Rearm (schedule_next w (tk_now t) (tk_idle t)), w)"
      using none early(1) assms(3) by (simp add: on_tick_def due_by_limits wall_limit_def)
    have "remaining w (tk_now t) (tk_idle t) = [l - tk_idle t]"
      using none assms(1) by (simp add: remaining_def wall_limit_def)
    then have "ms = max 25 (l - tk_idle t)" using wait assms(4) by (simp add: schedule_next_def)
    moreover have "\<not> wall_over w' now" for now
      using wait assms(4) none by (simp add: wall_over_def wall_limit_def)
    ultimately show ?thesis using now assms(2) by (auto simp: silent_since_def)
  qed
  with now fires reaped show ?thesis by blast
qed

definition idle_watch :: watch where
  "idle_watch = new_watch 0 (no_limits\<lparr>idle_timeout_ms := Some 900000\<rparr>) True True"

lemma idle_watch_limits: "wt_initial_timeout idle_watch = None" "idle_limit idle_watch = Some 900000"
  by (simp_all add: idle_watch_def new_watch_def no_limits_def idle_limit_def)

theorem hung_agent_reaped_in_time_witness:
  "\<exists>ms used. on_tick (silent_tick 100 100) idle_watch = (Rearm ms, idle_watch) \<and>
     on_tick (silent_tick 100 (100 + ms)) idle_watch = (Timed_out Idle_timeout 900000 used, idle_watch)"
proof -
  have r: "on_tick (silent_tick 100 100) idle_watch = (Rearm (schedule_next idle_watch 100 0), idle_watch)"
    by (simp add: idle_only_tick [OF idle_watch_limits])
  have silent: "silent_since 100 (silent_tick 100 now)" for now
    by (simp add: silent_since_def silent_tick_def)
  have early: "\<not> wall_over idle_watch (tk_now (silent_tick 100 100))"
    by (simp add: wall_over_def wall_limit_def idle_watch_limits)
  note reaped = hung_agent_reaped_in_time [OF idle_watch_limits(2) silent early r]
  have "100 + 900000 \<le> tk_now (silent_tick 100 (100 + schedule_next idle_watch 100 0))"
    using reaped by (simp add: idle_watch_limits silent_tick_def)
  then have "on_tick (silent_tick 100 (100 + schedule_next idle_watch 100 0)) idle_watch =
      (Timed_out Idle_timeout 900000 (tk_now (silent_tick 100 (100 + schedule_next idle_watch 100 0)) - 100), idle_watch)"
    using reaped silent idle_watch_limits(1) by blast
  with r show ?thesis by blast
qed

text \<open>A deadline is enforced on time: whenever the timer is set while the deadline lies ahead it fires at
  most 25 milliseconds after it, and without a handler that tick ends the run.\<close>

theorem deadline_enforced:
  assumes "wall_limit w = Some l" "\<not> wall_over w (tk_now t)" "\<not> wt_handler w"
    "on_tick t w = (Rearm ms, w')"
  shows "tk_now t + ms \<le> max (wt_start w + l) (tk_now t + 25) \<and>
    (if wall_over w (tk_now t') then fst (on_tick t' w') = Timed_out Timeout l (tk_now t' - wt_start w) else True)"
proof -
  have "\<not> idle_over w (tk_idle t)" "w' = w" "ms = schedule_next w (tk_now t) (tk_idle t)"
    using assms by (auto simp: on_tick_def due_by_limits split: if_splits)
  with schedule_wall [OF assms(1), of "tk_now t" "tk_idle t"] assms show ?thesis
    by (auto simp: on_tick_def due_by_limits max_def split: if_splits)
qed

definition deadline_watch :: "bool \<Rightarrow> watch" where
  "deadline_watch h = new_watch 0 (no_limits\<lparr>timeout_ms := Some 10000\<rparr>) h True"

lemma deadline_watch_fields:
  "wall_limit (deadline_watch h) = Some 10000" "idle_limit (deadline_watch h) = None"
  "wt_start (deadline_watch h) = 0" "wt_handler (deadline_watch h) = h" "\<not> wt_locked (deadline_watch h)"
  "wt_fraction (deadline_watch h) = 85 / 100" "wt_last_grant (deadline_watch h) = - 1"
  by (simp_all add: deadline_watch_def new_watch_def no_limits_def wall_limit_def idle_limit_def preempt_fraction_def)

theorem deadline_enforced_witness:
  "fst (on_tick (silent_tick 0 10000) (deadline_watch False)) = Timed_out Timeout 10000 10000"
proof -
  let ?w = "deadline_watch False"
  have over: "wall_over ?w now = (10000 \<le> now)" for now
    by (simp add: wall_over_def deadline_watch_fields)
  have "on_tick (silent_tick 0 0) ?w = (Rearm (schedule_next ?w 0 0), ?w)"
    by (simp add: on_tick_def due_by_limits over deadline_watch_fields idle_over_def silent_tick_def)
  from deadline_enforced [OF deadline_watch_fields(1) _ _ this, of "silent_tick 0 10000"]
  show ?thesis by (simp add: over deadline_watch_fields silent_tick_def)
qed

section \<open>Where the watchdog does not do what it says\<close>

definition grants_always :: "tick \<Rightarrow> bool" where
  "grants_always t = (case tk_reply t of Says_extend (Some _) \<Rightarrow> True | _ \<Rightarrow> False)"

lemma granting_tick:
  assumes "grants_always t" "wt_handler w" "wt_initial_idle w = None"
  shows "\<exists>ms w'. on_tick t w = (Rearm ms, w') \<and> wt_handler w' \<and> wt_initial_idle w' = None"
  using assms
  by (auto simp: grants_always_def on_tick_def due_by_limits idle_over_def idle_limit_def tick_defs Let_def
      split: negotiated.splits option.splits)

lemma granting_run:
  "list_all grants_always ts \<Longrightarrow> wt_handler w \<Longrightarrow> wt_initial_idle w = None \<Longrightarrow> fst (run_ticks ts w) = None"
proof (induction ts arbitrary: w)
  case (Cons t ts)
  then obtain ms w' where w': "on_tick t w = (Rearm ms, w')" "wt_handler w'" "wt_initial_idle w' = None"
    using granting_tick [of t w] by auto
  with Cons.IH [OF _ w'(2,3)] Cons.prems show ?case by simp
qed simp

text \<open>The gate on early extensions does not reach the deadline: an agent that never does anything again
  is kept for ever by a coordinator that grants every request, since at the deadline it is asked
  whether or not there was activity.\<close>

theorem wedged_agent_outlives_deadline:
  "fst (run_ticks (map (\<lambda>k. (silent_tick 0 (of_nat k * 10000))\<lparr>tk_reply := Says_extend (Some (of_nat (k + 1) * 10000))\<rparr>) ks)
     (deadline_watch True)) = None"
proof (rule granting_run)
  show "list_all grants_always
      (map (\<lambda>k. (silent_tick 0 (of_nat k * 10000))\<lparr>tk_reply := Says_extend (Some (of_nat (k + 1) * 10000))\<rparr>) ks)"
    by (simp add: list_all_iff grants_always_def)
qed (simp_all add: deadline_watch_def new_watch_def no_limits_def)

definition declined_watch :: watch where
  "declined_watch = snd (on_tick (silent_tick 8000 8500) (deadline_watch True))"

definition raised_watch :: watch where
  "raised_watch = patched (no_limits\<lparr>timeout_ms := Some 20000\<rparr>) declined_watch"

text \<open>A lock on early negotiations that has become stale is noticed by the timer and not by the tick:
  after a refusal, when another part of the program raises the limit, no early negotiation takes place
  before the new deadline, and the watchdog ticks every 25 milliseconds instead.\<close>

theorem stale_lock_polls:
  "if 17000 \<le> t \<and> t < 20000
   then on_tick (silent_tick a t) raised_watch = (Rearm 25, raised_watch) else True"
proof -
  have over: "\<not> wall_over (deadline_watch True) 8500" by (simp add: wall_over_def deadline_watch_fields)
  have d: "declined_watch = lock_at 10000 (deadline_watch True)"
    by (simp add: declined_watch_def on_tick_def due_by_limits over idle_over_def deadline_watch_fields
        silent_tick_def finish_early_def rearm_after_def)
  have r: "raised_watch = (deadline_watch True)\<lparr>wt_locked := True, wt_ceiling := Some 10000, wt_timeout := Some 20000\<rparr>"
    by (simp add: raised_watch_def d patched_def lock_at_def no_limits_def given_def deadline_watch_def new_watch_def)
  have f: "wall_limit raised_watch = Some 20000" "idle_limit raised_watch = None" "wt_start raised_watch = 0"
    "wt_locked raised_watch" "wt_ceiling raised_watch = Some 10000" "wt_fraction raised_watch = 85 / 100"
    by (simp_all add: r wall_limit_def idle_limit_def deadline_watch_def new_watch_def no_limits_def preempt_fraction_def)
  show ?thesis
  proof (cases "17000 \<le> t \<and> t < 20000")
    case True
    have "remaining raised_watch t (t - a) = [20000 - t, 17000 - t]"
      by (simp add: remaining_def f)
    with True have "schedule_next raised_watch t (t - a) = 25" by (simp add: schedule_next_def max_def min_def)
    moreover have "what_is_due raised_watch t (t - a) = Wait"
      using True by (simp add: due_by_limits wall_over_def idle_over_def f)
    ultimately show ?thesis by (simp add: on_tick_def silent_tick_def)
  qed auto
qed

end
