(* ===== verification/Subagent_Runner.thy ===== *)
theory Subagent_Runner
  imports Subagent_Budget Js_String
begin

text \<open>
  The runner of a subagent, \<open>coordination/agent-subagent-runner.ts\<close>: it feeds the budget from the
  events of the agent, reacts to what the budget throws, and turns the result of the run into the
  outcome of the task. The agent itself is the sequence of events it emits and the result its run
  returns; the verdicts of negotiations are events of their own, and the promise carried by the last
  signal is an argument of the conclusion (None when it is rejected).
\<close>

section \<open>State and events\<close>

datatype budget_error = Hard_error breach | Soft_error breach

record runner =
  rn_budget :: budget
  rn_error :: "budget_error option"
  rn_aborted :: bool
  rn_last_failed :: "string option"
  rn_tool :: "string option"
  rn_text :: string
  rn_summary_at :: nat
  rn_summaries :: "(nat \<times> nat \<times> string option \<times> string) list"

datatype agent_event =
    Executed string "bool option" rat
  | Responded nat nat rat
  | Iterated rat
  | Progressed rat
  | Tool_begins string
  | Text_streamed string rat
  | Parent_aborts
  | Verdict_in kind verdict
  | Microtasks_run

definition asks_coordinator :: handler where
  "asks_coordinator br = ([], Promised)"

definition start_runner :: "bool \<Rightarrow> budget \<Rightarrow> runner" where
  "start_runner listening b =
     \<lparr>rn_budget = b\<lparr>bu_handler := Some asks_coordinator, bu_listener := Some listening\<rparr>,
      rn_error = None, rn_aborted = False, rn_last_failed = None, rn_tool = None, rn_text = [],
      rn_summary_at = 0, rn_summaries = []\<rparr>"

text \<open>What a record or a check threw, if anything, with the budget after it.\<close>

definition on_budget_error :: "check \<times> budget \<Rightarrow> runner \<Rightarrow> runner" where
  "on_budget_error cb r =
     (case cb of (c, b) \<Rightarrow>
        let r1 = r\<lparr>rn_budget := b\<rparr>
        in case c of
             Passed _ \<Rightarrow> r1
           | Signal br \<Rightarrow> r1\<lparr>rn_error := Some (Soft_error br)\<rparr>
           | Hard_stop br \<Rightarrow> r1\<lparr>rn_aborted := True, rn_error := Some (Hard_error br)\<rparr>)"

definition summary_interval :: nat where
  "summary_interval = 25"

definition summarise :: "runner \<Rightarrow> runner" where
  "summarise r =
     (let n = bu_iterations (rn_budget r)
      in if summary_interval \<le> n - rn_summary_at r
         then r\<lparr>rn_summary_at := n,
                rn_summaries := rn_summaries r @
                  [(n, bu_tool_calls (rn_budget r), rn_tool r, js_trim (rn_text r))]\<rparr>
         else r)"

definition keep_last :: "nat \<Rightarrow> string \<Rightarrow> string" where
  "keep_last n s = drop (length s - n) s"

fun runner_step :: "agent_event \<Rightarrow> runner \<Rightarrow> runner" where
  "runner_step (Executed name ok now) r =
     (let r1 = on_budget_error (record_tool_call now (rn_budget r)) r
      in case ok of
           Some False \<Rightarrow> r1\<lparr>rn_last_failed := Some name\<rparr>
         | Some True \<Rightarrow> r1\<lparr>rn_last_failed := None\<rparr>
         | None \<Rightarrow> r1)"
| "runner_step (Responded i out now) r = on_budget_error (record_usage now i out 0 (rn_budget r)) r"
| "runner_step (Iterated now) r = summarise (on_budget_error (record_iteration now (rn_budget r)) r)"
| "runner_step (Progressed now) r = on_budget_error (check_timeout now (mark_activity now (rn_budget r))) r"
| "runner_step (Tool_begins name) r = r\<lparr>rn_tool := Some name\<rparr>"
| "runner_step (Text_streamed s now) r =
     r\<lparr>rn_budget := mark_activity now (rn_budget r), rn_text := keep_last 2000 (rn_text r @ s)\<rparr>"
| "runner_step Parent_aborts r = r\<lparr>rn_aborted := True\<rparr>"
| "runner_step (Verdict_in k v) r = r\<lparr>rn_budget := settle k v (rn_budget r)\<rparr>"
| "runner_step Microtasks_run r = r\<lparr>rn_budget := run_microtasks (rn_budget r)\<rparr>"

section \<open>The outcome\<close>

datatype run_status = Done | Failed string | Aborted | Max_iterations | Threw string

record run_result =
  res_status :: run_status
  res_text :: "string option"
  res_iterations :: nat

datatype outcome =
    Succeeded "string option" nat nat
  | Budget_exceeded breach
  | Run_failed string
  | Agent_aborted
  | Iterations_exhausted
  | Empty_response
  | Tool_failure string

definition final_error :: "verdict option \<Rightarrow> runner \<Rightarrow> breach option" where
  "final_error promise r =
     (case rn_error r of
        None \<Rightarrow> None
      | Some (Hard_error br) \<Rightarrow> Some br
      | Some (Soft_error br) \<Rightarrow> (case promise of Some (Extended _) \<Rightarrow> None | _ \<Rightarrow> Some br))"

definition final_text :: "run_result \<Rightarrow> string" where
  "final_text res = js_trim (case res_text res of None \<Rightarrow> '''' | Some s \<Rightarrow> s)"

definition successful :: "run_result \<Rightarrow> runner \<Rightarrow> outcome" where
  "successful res r =
     (if final_text res = '''' \<and> bu_tool_calls (rn_budget r) = 0 then Empty_response
      else if final_text res = '''' \<and> rn_last_failed r \<noteq> None then Tool_failure (the (rn_last_failed r))
      else Succeeded (res_text res) (res_iterations res) (bu_tool_calls (rn_budget r)))"

definition conclude :: "verdict option \<Rightarrow> run_result \<Rightarrow> runner \<Rightarrow> outcome" where
  "conclude promise res r =
     (case res_status res of
        Threw e \<Rightarrow> Run_failed e
      | status \<Rightarrow>
          (case final_error promise r of
             Some br \<Rightarrow> Budget_exceeded br
           | None \<Rightarrow>
               (case status of
                  Failed e \<Rightarrow> Run_failed e
                | Aborted \<Rightarrow> Agent_aborted
                | Max_iterations \<Rightarrow> Iterations_exhausted
                | _ \<Rightarrow> successful res r)))"

text \<open>A success is earned: it is reported exactly when the agent ended its turn by itself, no budget
  was refused by the last signal, there is a text or a tool was called, and a failed last tool was
  followed by a text.\<close>

theorem success_is_earned:
  "(\<exists>s i n. conclude promise res r = Succeeded s i n) \<longleftrightarrow>
   res_status res = Done \<and> final_error promise r = None \<and>
   (if final_text res = '''' then 0 < bu_tool_calls (rn_budget r) \<and> rn_last_failed r = None else True)"
  by (auto simp: conclude_def successful_def split: run_status.split option.split if_splits)

section \<open>Overruns that are negotiated\<close>

definition asking_runner :: "runner \<Rightarrow> bool" where
  "asking_runner r = negotiating asks_coordinator (rn_budget r)"

lemma asks_promise: "\<forall>br. snd (asks_coordinator br) = Promised"
  by (simp add: asks_coordinator_def)

lemma check_asks:
  assumes "negotiating asks_coordinator b"
  shows "negotiating asks_coordinator (snd (check_limits now el b)) \<and>
    (\<forall>br. fst (check_limits now el b) \<noteq> Hard_stop br)"
  using check_negotiates [OF assms, of now el] negotiate_fold_keeps [OF assms asks_promise, of "exceeded now el b" Cost] assms
  by (auto split: list.splits)

lemma error_asks:
  assumes "asking_runner r" "negotiating asks_coordinator b"
  shows "asking_runner (on_budget_error (check_limits now el b) r) \<and>
    rn_aborted (on_budget_error (check_limits now el b) r) = rn_aborted r"
  using check_asks [OF assms(2), of now el]
  by (cases "check_limits now el b"; cases "fst (check_limits now el b)")
    (auto simp: on_budget_error_def asking_runner_def Let_def)

lemma activity_asks [simp]:
  "negotiating h (mark_activity now b) = negotiating h b"
  "negotiating h (b\<lparr>bu_iterations := n\<rparr>) = negotiating h b"
  "negotiating h (b\<lparr>bu_tool_calls := n\<rparr>) = negotiating h b"
  "negotiating h (b\<lparr>bu_input := n, bu_output := m, bu_cost := c\<rparr>) = negotiating h b"
  "negotiating h (b\<lparr>bu_input := n, bu_output := m\<rparr>) = negotiating h b"
  by (simp_all add: negotiating_def mark_activity_def)

lemma summarise_asks: "asking_runner (summarise r) = asking_runner r \<and> rn_aborted (summarise r) = rn_aborted r"
  by (simp add: summarise_def asking_runner_def Let_def)

lemma runner_step_asks:
  assumes "asking_runner r"
  shows "asking_runner (runner_step e r) \<and> rn_aborted (runner_step e r) = (rn_aborted r \<or> e = Parent_aborts)"
proof (cases e)
  case (Executed name ok now)
  have "asking_runner (on_budget_error (record_tool_call now (rn_budget r)) r) \<and>
      rn_aborted (on_budget_error (record_tool_call now (rn_budget r)) r) = rn_aborted r"
    unfolding record_tool_call_def using assms by (intro error_asks) (simp_all add: asking_runner_def)
  with Executed show ?thesis by (auto simp: Let_def asking_runner_def split: option.split bool.split)
next
  case (Responded i out now)
  have "asking_runner (on_budget_error (record_usage now i out 0 (rn_budget r)) r) \<and>
      rn_aborted (on_budget_error (record_usage now i out 0 (rn_budget r)) r) = rn_aborted r"
    unfolding record_usage_def using assms by (intro error_asks) (simp_all add: asking_runner_def)
  with Responded show ?thesis by simp
next
  case (Iterated now)
  have "asking_runner (on_budget_error (record_iteration now (rn_budget r)) r) \<and>
      rn_aborted (on_budget_error (record_iteration now (rn_budget r)) r) = rn_aborted r"
    unfolding record_iteration_def using assms by (intro error_asks) (simp_all add: asking_runner_def)
  with Iterated summarise_asks show ?thesis by simp
next
  case (Progressed now)
  let ?b = "mark_activity now (rn_budget r)"
  have n: "negotiating asks_coordinator ?b" using assms by (simp add: asking_runner_def)
  have "check_timeout now ?b = (Passed [], ?b) \<or> (\<exists>el. check_timeout now ?b = check_limits now el ?b)"
    by (auto simp: check_timeout_def split: option.split)
  with n error_asks [OF assms n] Progressed show ?thesis
    by (auto simp: on_budget_error_def asking_runner_def)
next
  case (Verdict_in k v)
  with assms settle_negotiating show ?thesis by (auto simp: asking_runner_def)
next
  case Microtasks_run
  with assms microtasks_negotiating show ?thesis by (auto simp: asking_runner_def)
qed (use assms in \<open>auto simp: asking_runner_def\<close>)

interpretation asking: state_contract runner_step asking_runner
  by unfold_locales (simp add: runner_step_asks)

lemma start_asks: "asking_runner (start_runner True (new_budget l Auto))"
  by (simp add: asking_runner_def start_runner_def negotiating_def new_budget_def)

text \<open>With somebody listening no overrun cuts a run short: whatever the events and whatever the verdicts,
  refusals included, the agent is aborted only by its parent. A refusal shows when the run is over.\<close>

theorem refused_budget_runs_on:
  "rn_aborted (fold runner_step es (start_runner True (new_budget l Auto))) = (Parent_aborts \<in> set es)"
proof -
  have "rn_aborted (fold runner_step es r) = (rn_aborted r \<or> Parent_aborts \<in> set es)" if "asking_runner r" for r
    using that
  proof (induction es arbitrary: r)
    case (Cons e es)
    with runner_step_asks [OF Cons.prems, of e] show ?case by auto
  qed simp
  from this [OF start_asks] show ?thesis by (simp add: start_runner_def)
qed
section \<open>Overruns that are not\<close>

text \<open>Without a listener the first unit of work beyond a limit aborts the agent, and the task ends with
  that limit, whatever the agent still returns in time.\<close>

theorem unattended_overrun_aborts:
  assumes "within_budget b" "bu_pending b = []" "\<not> within_budget (tally (Tool_call now) b)"
  shows "case runner_step (Executed name ok now) (start_runner False b) of
    r \<Rightarrow> rn_aborted r \<and>
      (\<exists>br. rn_error r = Some (Hard_error br) \<and>
        (case res_status res of Threw e \<Rightarrow> True | _ \<Rightarrow> conclude promise res r = Budget_exceeded br))"
proof -
  define c where "c = tally (Tool_call now) (b\<lparr>bu_handler := Some asks_coordinator, bu_listener := Some False\<rparr>)"
  have "cannot_extend c" "bu_pending c = []"
    using assms(2) by (simp_all add: c_def cannot_extend_def asks_coordinator_def mark_activity_def)
  moreover have "exceeded now None c = exceeded now None (tally (Tool_call now) b)"
    by (simp add: c_def exceeded_def mark_activity_def total_tokens_def)
  then have "exceeded now None c \<noteq> []" using assms(3) by (simp add: within_budget_def exceeded_now [of now])
  ultimately have hard: "fst (check_limits now None c) = Hard_stop (hd (exceeded now None c))"
    using check_stops [of c now None] by simp
  have "record_tool_call now (b\<lparr>bu_handler := Some asks_coordinator, bu_listener := Some False\<rparr>) = check_limits now None c"
    by (simp add: record_tool_call_def c_def)
  with hard show ?thesis
    by (cases "check_limits now None c")
      (auto simp: start_runner_def on_budget_error_def Let_def conclude_def final_error_def
        split: option.split bool.split run_status.split)
qed

definition tool_budget :: budget where
  "tool_budget = new_budget (no_limits\<lparr>max_tool_calls := Some 0\<rparr>) Auto"

theorem unattended_overrun_aborts_witness:
  "rn_aborted (runner_step (Executed ''read'' (Some True) 5) (start_runner False tool_budget))"
proof -
  have "within_budget tool_budget" "\<not> within_budget (tally (Tool_call 5) tool_budget)"
    by (simp_all add: within_budget_def exceeded_def over_def tool_budget_def new_budget_def no_limits_def
        mark_activity_def total_tokens_def)
  from unattended_overrun_aborts [OF this(1) _ this(2), of "''read''" "Some True"]
  show ?thesis by (simp add: tool_budget_def new_budget_def)
qed

definition two_limits :: limits where
  "two_limits = no_limits\<lparr>max_iterations := Some 0, max_tokens := Some 10\<rparr>"

text \<open>When two limits are exceeded at once only the verdict on the first counts: the budget of tokens is
  refused, the iterations are extended, and the task is reported as a success.\<close>

theorem second_refusal_lost:
  "case fold runner_step
      [Iterated 1, Responded 15 5 2, Verdict_in Tokens Stopped,
       Verdict_in Iterations (Extended (no_limits\<lparr>max_iterations := Some 100\<rparr>))]
      (start_runner True (new_budget two_limits Auto)) of
     r \<Rightarrow>
       max_tokens (bu_limits (rn_budget r)) = Some 10 \<and> total_tokens (rn_budget r) = 20 \<and>
       conclude (Some (Extended (no_limits\<lparr>max_iterations := Some 100\<rparr>)))
         \<lparr>res_status = Done, res_text = Some ''ok'', res_iterations = 1\<rparr> r = Succeeded (Some ''ok'') 1 0"
proof -
  have t: "js_trim ''ok'' = ''ok''" by code_simp
  show ?thesis
    by (simp add: start_runner_def new_budget_def two_limits_def no_limits_def record_iteration_def
        record_usage_def mark_activity_def check_limits_def exceeded_def over_def total_tokens_def Let_def
        on_budget_error_def summarise_def summary_interval_def negotiate_new_def negotiate_def jm_has_def jm_get_Cons
        asks_coordinator_def settle_def apply_verdict_def patch_def patch_limits_def given_def
        conclude_def final_error_def successful_def final_text_def t)
qed

end
