(* ===== verification/Coordinator.thy ===== *)
theory Coordinator
  imports Prelude Js_String Complex_Main "HOL-Library.Multiset"
begin

text \<open>
  The coordinator of several subagents, \<open>coordination/multi-agent-coordinator.ts\<close>: its subagents, the
  queue of tasks, the dispatcher, completion, stopping and removal.

  A task run by the runner is asynchronous: dispatching starts it, and it ends with the operation
  \<open>Finish\<close>; \<open>co_runs\<close> records the runs that have started and not ended. Events go to a log; their
  listeners do not call back. Budgets and the watchdog are modelled on their own, and so are not
  repeated here; names and the fleet bus are left out.
\<close>

section \<open>State\<close>

datatype agent_status = Running | Idle | Stopped_agent | Error_agent

record agent_entry =
  ae_status :: agent_status
  ae_task :: "string option"
  ae_aborted :: bool
  ae_bridge :: bool
  ae_tasks :: "string list"

record task_spec =
  ts_id :: string
  ts_agent :: "string option"

datatype task_status = Task_success | Task_failed | Task_timeout | Task_stopped

record task_result =
  tr_agent :: string
  tr_task :: string
  tr_status :: task_status
  tr_error :: "string option"
  tr_iterations :: nat

datatype co_event =
    Agent_started string
  | Agent_stopped string
  | Task_assigned string string
  | Task_completed task_result
  | Underflow string string
  | All_done nat nat

datatype done_condition = All_tasks_done | At_iterations "nat option"

record coordinator =
  co_max :: nat
  co_done :: done_condition
  co_runner :: bool
  co_agents :: "(string, agent_entry) jsmap"
  co_pending :: "task_spec list"
  co_results :: "task_result list"
  co_iterations :: nat
  co_in_flight :: nat
  co_terminating :: "string list"
  co_log :: "co_event list"
  co_runs :: "(string \<times> string) list"

definition new_coordinator :: "nat \<Rightarrow> done_condition \<Rightarrow> bool \<Rightarrow> coordinator" where
  "new_coordinator n d runner =
     \<lparr>co_max = n, co_done = d, co_runner = runner, co_agents = [], co_pending = [], co_results = [],
      co_iterations = 0, co_in_flight = 0, co_terminating = [], co_log = [], co_runs = []\<rparr>"

definition log_event :: "co_event \<Rightarrow> coordinator \<Rightarrow> coordinator" where
  "log_event e c = c\<lparr>co_log := co_log c @ [e]\<rparr>"

section \<open>Choosing the next task\<close>

definition available :: "coordinator \<Rightarrow> string \<Rightarrow> bool" where
  "available c a =
     (case jm_get (co_agents c) a of
        None \<Rightarrow> False
      | Some e \<Rightarrow> ae_status e = Idle \<and> a \<notin> set (co_terminating c))"

definition find_idle :: "coordinator \<Rightarrow> string option" where
  "find_idle c =
     map_option fst (List.find (\<lambda>(a, e). ae_status e = Idle \<and> a \<notin> set (co_terminating c)) (co_agents c))"

definition pinned :: "task_spec \<Rightarrow> string option" where
  "pinned t = (case ts_agent t of None \<Rightarrow> None | Some a \<Rightarrow> if a = '''' then None else Some a)"

definition target_of :: "coordinator \<Rightarrow> task_spec \<Rightarrow> string option" where
  "target_of c t =
     (case pinned t of
        Some a \<Rightarrow> if available c a then Some a else None
      | None \<Rightarrow> find_idle c)"

fun take_next :: "coordinator \<Rightarrow> task_spec list \<Rightarrow> (string \<times> task_spec \<times> task_spec list) option" where
  "take_next c [] = None"
| "take_next c (t # ts) =
     (case target_of c t of
        Some a \<Rightarrow> Some (a, t, ts)
      | None \<Rightarrow> map_option (\<lambda>(a, t', ts'). (a, t', t # ts')) (take_next c ts))"

definition can_dispatch :: "coordinator \<Rightarrow> bool" where
  "can_dispatch c = (co_in_flight c < co_max c \<and> co_pending c \<noteq> [])"

definition has_live :: "coordinator \<Rightarrow> bool" where
  "has_live c =
     (co_agents c = [] \<or>
      list_ex (\<lambda>(a, e). ae_status e \<noteq> Stopped_agent \<and> a \<notin> set (co_terminating c)) (co_agents c))"

section \<open>Dropping pending tasks\<close>

definition aborted_result :: "string \<Rightarrow> task_spec \<Rightarrow> task_result" where
  "aborted_result msg t =
     \<lparr>tr_agent = (case ts_agent t of None \<Rightarrow> ''unassigned'' | Some a \<Rightarrow> a), tr_task = ts_id t,
      tr_status = Task_stopped, tr_error = Some msg, tr_iterations = 0\<rparr>"

definition emit_pending_aborted :: "string \<Rightarrow> task_spec \<Rightarrow> coordinator \<Rightarrow> coordinator" where
  "emit_pending_aborted msg t c =
     log_event (Task_completed (aborted_result msg t)) (c\<lparr>co_results := co_results c @ [aborted_result msg t]\<rparr>)"

definition drain_pending :: "string \<Rightarrow> coordinator \<Rightarrow> coordinator" where
  "drain_pending msg c = fold (emit_pending_aborted msg) (co_pending c) (c\<lparr>co_pending := []\<rparr>)"

section \<open>Dispatch\<close>

definition no_live_message :: string where
  "no_live_message = ''No live subagent available '' @ [CHR 0x97] @ '' all stopped or mid-termination''"

text \<open>The part of \<open>runDispatched\<close> up to the runner's first \<open>await\<close>. Its two guards cannot fire when the
  dispatcher calls it (\<open>take_next_available\<close> below), so they leave the state as it is here.\<close>

definition run_dispatched :: "string \<Rightarrow> task_spec \<Rightarrow> coordinator \<Rightarrow> coordinator" where
  "run_dispatched a t c =
     (case jm_get (co_agents c) a of
        None \<Rightarrow> c
      | Some e \<Rightarrow>
          if a \<in> set (co_terminating c) \<or> ae_status e = Stopped_agent then c
          else
            let c1 = log_event (Task_assigned a (ts_id t))
                  (c\<lparr>co_agents := jm_set a
                     (e\<lparr>ae_status := Running, ae_task := Some (ts_id t), ae_tasks := ae_tasks e @ [ts_id t]\<rparr>) (co_agents c)\<rparr>)
            in if \<not> co_runner c1 then c1
               else c1\<lparr>co_in_flight := co_in_flight c1 + 1, co_runs := co_runs c1 @ [(a, ts_id t)]\<rparr>)"

lemma take_next_shorter: "take_next c ts = Some (a, t, ts') \<Longrightarrow> length ts = Suc (length ts')"
  by (induction ts arbitrary: ts') (auto split: option.splits)

lemma run_dispatched_pending [simp]: "co_pending (run_dispatched a t c) = co_pending c"
  by (simp add: run_dispatched_def log_event_def Let_def split: option.split)

function try_dispatch :: "coordinator \<Rightarrow> coordinator" where
  "try_dispatch c =
     (if \<not> can_dispatch c then c
      else case take_next c (co_pending c) of
             None \<Rightarrow>
               if co_pending c \<noteq> [] \<and> \<not> has_live c
               then drain_pending no_live_message c
               else c
           | Some (a, t, rest) \<Rightarrow> try_dispatch (run_dispatched a t (c\<lparr>co_pending := rest\<rparr>)))"
  by pat_completeness auto
termination
  by (relation "measure (\<lambda>c. length (co_pending c))") (auto dest: take_next_shorter)

declare try_dispatch.simps [simp del]

section \<open>Operations\<close>

definition is_done :: "coordinator \<Rightarrow> bool" where
  "is_done c =
     (case co_done c of
        All_tasks_done \<Rightarrow> co_pending c = [] \<and> co_in_flight c = 0
      | At_iterations m \<Rightarrow> (case m of None \<Rightarrow> False | Some n \<Rightarrow> n \<le> co_iterations c))"

definition max_completed_results :: nat where
  "max_completed_results = 10000"

definition release :: "string \<Rightarrow> coordinator \<Rightarrow> coordinator" where
  "release a c =
     (case jm_get (co_agents c) a of
        None \<Rightarrow> c
      | Some e \<Rightarrow>
          if ae_status e = Stopped_agent then c
          else c\<lparr>co_agents := jm_set a (e\<lparr>ae_status := Idle, ae_task := None, ae_aborted := False\<rparr>) (co_agents c)\<rparr>)"

definition announce_done :: "coordinator \<Rightarrow> coordinator" where
  "announce_done c =
     (if is_done c then log_event (All_done (length (co_results c)) (co_iterations c)) c else c)"

definition record_completion :: "task_result \<Rightarrow> coordinator \<Rightarrow> coordinator" where
  "record_completion r c =
     (let rs = co_results c @ [r];
          c1 = c\<lparr>co_results := drop (length rs - max_completed_results) rs,
                 co_iterations := co_iterations c + tr_iterations r\<rparr>
      in if co_in_flight c1 = 0 \<and> co_runner c1 then log_event (Underflow (tr_task r) (tr_agent r)) c1
         else
           let c2 = release (tr_agent r) (c1\<lparr>co_in_flight := co_in_flight c1 - 1\<rparr>);
               c3 = c2\<lparr>co_terminating := js_remove (tr_agent r) (co_terminating c2)\<rparr>
           in announce_done (try_dispatch (log_event (Task_completed r) c3)))"

definition spawn :: "string \<Rightarrow> coordinator \<Rightarrow> coordinator option" where
  "spawn a c =
     (if jm_has (co_agents c) a then None
      else Some (log_event (Agent_started a)
        (c\<lparr>co_agents := jm_set a
             \<lparr>ae_status = Idle, ae_task = None, ae_aborted = False, ae_bridge = False, ae_tasks = []\<rparr> (co_agents c)\<rparr>)))"

definition assign :: "task_spec \<Rightarrow> coordinator \<Rightarrow> coordinator" where
  "assign t c = try_dispatch (c\<lparr>co_pending := co_pending c @ [t]\<rparr>)"

definition stop :: "string \<Rightarrow> coordinator \<Rightarrow> coordinator" where
  "stop a c =
     (case jm_get (co_agents c) a of
        None \<Rightarrow> c
      | Some e \<Rightarrow>
          log_event (Agent_stopped a)
            (c\<lparr>co_terminating := js_add a (co_terminating c),
               co_agents := jm_set a
                 (e\<lparr>ae_aborted := True, ae_status := Stopped_agent, ae_task := None, ae_bridge := False\<rparr>) (co_agents c)\<rparr>))"

definition stop_all :: "coordinator \<Rightarrow> coordinator" where
  "stop_all c =
     (let c1 = drain_pending ''Coordinator stopAll() drained the pending queue'' c
      in fold stop (jm_keys (co_agents c1)) c1)"

definition quoted :: "string \<Rightarrow> string" where
  "quoted s = [CHR 0x22] @ s @ [CHR 0x22]"

definition removed_message :: "string \<Rightarrow> task_spec \<Rightarrow> string" where
  "removed_message a t = ''Subagent '' @ quoted a @ '' was removed while task '' @ quoted (ts_id t) @ '' was pending''"

definition remove :: "string \<Rightarrow> coordinator \<Rightarrow> coordinator" where
  "remove a c =
     (if \<not> jm_has (co_agents c) a then c
      else
        let orphaned = filter (\<lambda>t. ts_agent t = Some a) (co_pending c);
            c1 = c\<lparr>co_agents := jm_del a (co_agents c), co_terminating := js_remove a (co_terminating c),
                   co_pending := filter (\<lambda>t. ts_agent t \<noteq> Some a) (co_pending c)\<rparr>
        in fold (\<lambda>t. emit_pending_aborted (removed_message a t) t) orphaned c1)"

fun repin :: "string \<Rightarrow> string option \<Rightarrow> task_spec list \<Rightarrow> task_spec list" where
  "repin i a [] = []"
| "repin i a (t # ts) = (if ts_id t = i then t\<lparr>ts_agent := a\<rparr> # ts else t # repin i a ts)"

definition retarget :: "string \<Rightarrow> string option \<Rightarrow> coordinator \<Rightarrow> bool \<times> coordinator" where
  "retarget i a c =
     (if List.find (\<lambda>t. ts_id t = i) (co_pending c) = None then (False, c)
      else if (case a of None \<Rightarrow> False | Some b \<Rightarrow> \<not> jm_has (co_agents c) b) then (False, c)
      else (True, try_dispatch (c\<lparr>co_pending := repin i a (co_pending c)\<rparr>)))"

text \<open>A number below one is refused; the fraction of a larger one is cut off.\<close>

definition set_max_concurrent :: "rat \<Rightarrow> coordinator \<Rightarrow> coordinator option" where
  "set_max_concurrent n c =
     (if n < 1 then None else Some (try_dispatch (c\<lparr>co_max := nat \<lfloor>n\<rfloor>\<rparr>)))"

record co_stats =
  cs_total :: nat
  cs_running :: nat
  cs_idle :: nat
  cs_stopped :: nat
  cs_in_flight :: nat
  cs_pending :: nat
  cs_completed :: nat

definition get_stats :: "coordinator \<Rightarrow> co_stats" where
  "get_stats c =
     (let st = map (ae_status \<circ> snd) (co_agents c)
      in \<lparr>cs_total = length (co_agents c),
          cs_running = length (filter (\<lambda>s. s = Running) st),
          cs_idle = length (filter (\<lambda>s. s = Idle) st),
          cs_stopped = length (filter (\<lambda>s. s \<noteq> Running \<and> s \<noteq> Idle) st),
          cs_in_flight = co_in_flight c, cs_pending = length (co_pending c), cs_completed = length (co_results c)\<rparr>)"

text \<open>What \<open>awaitTasks\<close> and \<open>awaitTasksAny\<close> return at once, None when they wait.\<close>

definition await_task :: "string \<Rightarrow> coordinator \<Rightarrow> task_result option" where
  "await_task i c = List.find (\<lambda>r. tr_task r = i) (co_results c)"

definition await_any :: "string list \<Rightarrow> coordinator \<Rightarrow> (task_result list \<times> string list) option" where
  "await_any ids c =
     (let finished = filter (\<lambda>r. tr_task r \<in> set ids) (co_results c)
      in if finished \<noteq> [] \<or> ids = []
         then Some (finished, filter (\<lambda>i. i \<notin> set (map tr_task finished)) ids) else None)"

section \<open>Histories\<close>

datatype co_op =
    Spawn string
  | Assign task_spec
  | Stop string
  | Stop_all
  | Remove string
  | Retarget string "string option"
  | Set_max rat
  | Finish string string task_status nat
  | Complete task_result

definition run_result :: "string \<Rightarrow> string \<Rightarrow> task_status \<Rightarrow> nat \<Rightarrow> task_result" where
  "run_result a i st n =
     \<lparr>tr_agent = a, tr_task = i, tr_status = st, tr_error = None, tr_iterations = n\<rparr>"

text \<open>A call that throws changes nothing; a run can end only if it has started.\<close>

fun co_step :: "co_op \<Rightarrow> coordinator \<Rightarrow> coordinator" where
  "co_step (Spawn a) c = (case spawn a c of None \<Rightarrow> c | Some c' \<Rightarrow> c')"
| "co_step (Assign t) c = assign t c"
| "co_step (Stop a) c = stop a c"
| "co_step Stop_all c = stop_all c"
| "co_step (Remove a) c = remove a c"
| "co_step (Retarget i a) c = snd (retarget i a c)"
| "co_step (Set_max n) c = (case set_max_concurrent n c of None \<Rightarrow> c | Some c' \<Rightarrow> c')"
| "co_step (Finish a i st n) c =
     (if (a, i) \<in> set (co_runs c)
      then record_completion (run_result a i st n) (c\<lparr>co_runs := remove1 (a, i) (co_runs c)\<rparr>) else c)"
| "co_step (Complete r) c = record_completion r c"

section \<open>What the dispatcher does\<close>

definition settled_agents :: "coordinator \<Rightarrow> bool" where
  "settled_agents c = jm_wf (co_agents c)"

lemma find_idle_available:
  assumes "settled_agents c" "find_idle c = Some a"
  shows "available c a"
proof -
  obtain e where f: "List.find (\<lambda>(a, e). ae_status e = Idle \<and> a \<notin> set (co_terminating c)) (co_agents c) = Some (a, e)"
    using assms(2) by (auto simp: find_idle_def)
  then have "(a, e) \<in> set (co_agents c)" "ae_status e = Idle" "a \<notin> set (co_terminating c)"
    by (auto simp: find_Some_iff in_set_conv_nth)
  with assms(1) show ?thesis
    by (simp add: available_def settled_agents_def jm_get_eq [THEN iffD2])
qed

lemma target_available: "settled_agents c \<Longrightarrow> target_of c t = Some a \<Longrightarrow> available c a"
  by (auto simp: target_of_def find_idle_available split: option.splits if_splits)

lemma take_next_available:
  "settled_agents c \<Longrightarrow> take_next c ts = Some (a, t, ts') \<Longrightarrow> available c a \<and> mset ts = add_mset t (mset ts')"
  by (induction ts arbitrary: ts') (auto split: option.splits dest: target_available)

lemma take_next_None: "take_next c ts = None \<longleftrightarrow> (\<forall>t \<in> set ts. target_of c t = None)"
  by (induction ts) (auto split: option.splits)

text \<open>A task handed to an available agent.\<close>

lemma run_available:
  assumes "available c a"
  shows "\<exists>e. jm_get (co_agents c) a = Some e \<and> ae_status e = Idle \<and>
    run_dispatched a t c =
      (let c1 = log_event (Task_assigned a (ts_id t))
         (c\<lparr>co_agents := jm_set a
            (e\<lparr>ae_status := Running, ae_task := Some (ts_id t), ae_tasks := ae_tasks e @ [ts_id t]\<rparr>) (co_agents c)\<rparr>)
       in if co_runner c then c1\<lparr>co_in_flight := co_in_flight c + 1, co_runs := co_runs c @ [(a, ts_id t)]\<rparr> else c1)"
  using assms by (auto simp: available_def run_dispatched_def log_event_def Let_def split: option.splits)

lemma available_pending [simp]: "available (c\<lparr>co_pending := p\<rparr>) a = available c a"
  by (simp add: available_def split: option.split)

lemma run_available_fields:
  assumes "available c a"
  shows "\<exists>e. ae_status e = Running \<and> co_agents (run_dispatched a t c) = jm_set a e (co_agents c) \<and>
    co_runs (run_dispatched a t c) = co_runs c @ (if co_runner c then [(a, ts_id t)] else [])"
proof -
  obtain e where "run_dispatched a t c =
      (let c1 = log_event (Task_assigned a (ts_id t))
         (c\<lparr>co_agents := jm_set a
            (e\<lparr>ae_status := Running, ae_task := Some (ts_id t), ae_tasks := ae_tasks e @ [ts_id t]\<rparr>) (co_agents c)\<rparr>)
       in if co_runner c then c1\<lparr>co_in_flight := co_in_flight c + 1, co_runs := co_runs c @ [(a, ts_id t)]\<rparr> else c1)"
    using run_available [OF assms] by blast
  then show ?thesis
    by (intro exI [of _ "e\<lparr>ae_status := Running, ae_task := Some (ts_id t), ae_tasks := ae_tasks e @ [ts_id t]\<rparr>"])
      (simp add: log_event_def Let_def)
qed

text \<open>A property that dispatching one task and draining the queue keep is kept by the dispatcher.\<close>

lemma try_dispatch_keeps:
  assumes "P c"
    and "\<And>c a t rest. P c \<Longrightarrow> can_dispatch c \<Longrightarrow> take_next c (co_pending c) = Some (a, t, rest) \<Longrightarrow>
      P (run_dispatched a t (c\<lparr>co_pending := rest\<rparr>))"
    and "\<And>c. P c \<Longrightarrow> \<not> has_live c \<Longrightarrow> P (drain_pending no_live_message c)"
  shows "P (try_dispatch c)"
  using assms(1)
proof (induction c rule: try_dispatch.induct)
  case (1 c)
  show ?case
  proof (cases "take_next c (co_pending c)")
    case None
    with 1 assms(3) show ?thesis by (subst try_dispatch.simps) simp
  next
    case (Some x)
    obtain a t rest where x: "x = (a, t, rest)" by (cases x)
    show ?thesis
    proof (cases "can_dispatch c")
      case True
      have "P (try_dispatch (run_dispatched a t (c\<lparr>co_pending := rest\<rparr>)))"
        using 1(1) [of "(a, t, rest)" a "(t, rest)" t rest] True assms(2) [OF 1(2) True] Some x by simp
      with Some x True show ?thesis by (subst try_dispatch.simps) simp
    next
      case False
      with 1(2) show ?thesis by (subst try_dispatch.simps) simp
    qed
  qed
qed

lemma emit_pending_aborted_fields [simp]:
  "co_agents (emit_pending_aborted m t c) = co_agents c" "co_pending (emit_pending_aborted m t c) = co_pending c"
  "co_runner (emit_pending_aborted m t c) = co_runner c" "co_in_flight (emit_pending_aborted m t c) = co_in_flight c"
  "co_runs (emit_pending_aborted m t c) = co_runs c" "co_max (emit_pending_aborted m t c) = co_max c"
  "co_terminating (emit_pending_aborted m t c) = co_terminating c" "co_done (emit_pending_aborted m t c) = co_done c"
  "co_iterations (emit_pending_aborted m t c) = co_iterations c"
  "co_log (emit_pending_aborted m t c) = co_log c @ [Task_completed (aborted_result m t)]"
  by (simp_all add: emit_pending_aborted_def log_event_def)

lemma fold_emit_fields [simp]:
  "co_agents (fold (\<lambda>t. emit_pending_aborted (m t) t) ts c) = co_agents c"
  "co_pending (fold (\<lambda>t. emit_pending_aborted (m t) t) ts c) = co_pending c"
  "co_runner (fold (\<lambda>t. emit_pending_aborted (m t) t) ts c) = co_runner c"
  "co_in_flight (fold (\<lambda>t. emit_pending_aborted (m t) t) ts c) = co_in_flight c"
  "co_runs (fold (\<lambda>t. emit_pending_aborted (m t) t) ts c) = co_runs c"
  "co_max (fold (\<lambda>t. emit_pending_aborted (m t) t) ts c) = co_max c"
  "co_terminating (fold (\<lambda>t. emit_pending_aborted (m t) t) ts c) = co_terminating c"
  "co_log (fold (\<lambda>t. emit_pending_aborted (m t) t) ts c) =
     co_log c @ map (\<lambda>t. Task_completed (aborted_result (m t) t)) ts"
  by (induction ts arbitrary: c) simp_all

lemma drain_fields [simp]:
  "co_agents (drain_pending m c) = co_agents c" "co_pending (drain_pending m c) = []"
  "co_runner (drain_pending m c) = co_runner c" "co_in_flight (drain_pending m c) = co_in_flight c"
  "co_runs (drain_pending m c) = co_runs c" "co_max (drain_pending m c) = co_max c"
  "co_terminating (drain_pending m c) = co_terminating c"
  "co_log (drain_pending m c) = co_log c @ map (\<lambda>t. Task_completed (aborted_result m t)) (co_pending c)"
  by (simp_all add: drain_pending_def fold_emit_fields [where m = "\<lambda>_. m"])

lemma stop_fields [simp]:
  "co_pending (stop a c) = co_pending c" "co_runner (stop a c) = co_runner c"
  "co_in_flight (stop a c) = co_in_flight c" "co_runs (stop a c) = co_runs c" "co_max (stop a c) = co_max c"
  by (simp_all add: stop_def log_event_def split: option.split)

lemma fold_stop_fields [simp]:
  "co_pending (fold stop as c) = co_pending c" "co_runner (fold stop as c) = co_runner c"
  "co_in_flight (fold stop as c) = co_in_flight c" "co_runs (fold stop as c) = co_runs c"
  "co_max (fold stop as c) = co_max c"
  by (induction as arbitrary: c) simp_all

lemma release_fields [simp]:
  "co_pending (release a c) = co_pending c" "co_runner (release a c) = co_runner c"
  "co_in_flight (release a c) = co_in_flight c" "co_runs (release a c) = co_runs c" "co_max (release a c) = co_max c"
  "co_log (release a c) = co_log c" "co_terminating (release a c) = co_terminating c"
  by (simp_all add: release_def split: option.split)

lemma log_event_fields [simp]:
  "co_agents (log_event e c) = co_agents c" "co_pending (log_event e c) = co_pending c"
  "co_runner (log_event e c) = co_runner c" "co_in_flight (log_event e c) = co_in_flight c"
  "co_runs (log_event e c) = co_runs c" "co_max (log_event e c) = co_max c"
  "co_terminating (log_event e c) = co_terminating c" "co_log (log_event e c) = co_log c @ [e]"
  by (simp_all add: log_event_def)

lemma announce_done_fields [simp]:
  "co_agents (announce_done c) = co_agents c" "co_pending (announce_done c) = co_pending c"
  "co_runner (announce_done c) = co_runner c" "co_in_flight (announce_done c) = co_in_flight c"
  "co_runs (announce_done c) = co_runs c" "co_max (announce_done c) = co_max c"
  "co_terminating (announce_done c) = co_terminating c"
  by (simp_all add: announce_done_def)

section \<open>No task is lost\<close>

definition completed_now :: "co_event \<Rightarrow> string list" where
  "completed_now e = (case e of Task_completed r \<Rightarrow> [tr_task r] | _ \<Rightarrow> [])"

definition completed :: "coordinator \<Rightarrow> string multiset" where
  "completed c = mset (concat (map completed_now (co_log c)))"

text \<open>Where the tasks are: queued, running, or completed.\<close>

definition tasks_in :: "coordinator \<Rightarrow> string multiset" where
  "tasks_in c = mset (map ts_id (co_pending c)) + mset (map snd (co_runs c)) + completed c"

definition accounted :: "string multiset \<Rightarrow> coordinator \<Rightarrow> bool" where
  "accounted M c \<longleftrightarrow>
     settled_agents c \<and> co_runner c \<and> co_in_flight c = length (co_runs c) \<and> tasks_in c = M"

lemma completed_log_event [simp]: "completed (log_event e c) = completed c + mset (completed_now e)"
  by (simp add: completed_def)

lemma completed_announce [simp]: "completed (announce_done c) = completed c"
  by (simp add: announce_done_def completed_now_def)

lemma settled_agents_set: "settled_agents c \<Longrightarrow> settled_agents (c\<lparr>co_agents := jm_set a e (co_agents c)\<rparr>)"
  by (simp add: settled_agents_def)

lemma settled_agents_fields [simp]:
  "settled_agents (c\<lparr>co_pending := p\<rparr>) = settled_agents c"
  "settled_agents (log_event e c) = settled_agents c" "settled_agents (announce_done c) = settled_agents c"
  "settled_agents (drain_pending m c) = settled_agents c"
  by (simp_all add: settled_agents_def)

lemma settled_stop: "settled_agents c \<Longrightarrow> settled_agents (stop a c)"
  by (auto simp: stop_def settled_agents_def split: option.split)

lemma settled_fold_stop: "settled_agents c \<Longrightarrow> settled_agents (fold stop as c)"
  by (induction as arbitrary: c) (auto intro: settled_stop)

lemma settled_release: "settled_agents c \<Longrightarrow> settled_agents (release a c)"
  by (auto simp: release_def settled_agents_def split: option.split)

lemma run_dispatched_accounted:
  assumes "accounted M c" "take_next c (co_pending c) = Some (a, t, rest)"
  shows "accounted M (run_dispatched a t (c\<lparr>co_pending := rest\<rparr>))"
proof -
  have a: "available (c\<lparr>co_pending := rest\<rparr>) a" and m: "mset (co_pending c) = add_mset t (mset rest)"
    using take_next_available [OF _ assms(2)] assms(1) by (auto simp: accounted_def)
  have m': "mset (map ts_id (co_pending c)) = add_mset (ts_id t) (mset (map ts_id rest))"
    using m by (metis image_mset_add_mset mset_map)
  from run_available [OF a, of t] show ?thesis
    using assms(1) m'
    by (auto simp: accounted_def tasks_in_def Let_def settled_agents_def completed_def completed_now_def)
qed

lemma drain_accounted: "accounted M c \<Longrightarrow> accounted M (drain_pending m c)"
proof -
  have "concat (map completed_now (map (\<lambda>t. Task_completed (aborted_result m t)) ts)) = map ts_id ts" for ts
    by (induction ts) (simp_all add: completed_now_def aborted_result_def)
  then show "accounted M c \<Longrightarrow> ?thesis"
    by (auto simp: accounted_def tasks_in_def completed_def ac_simps)
qed

lemma try_dispatch_accounted: "accounted M c \<Longrightarrow> accounted M (try_dispatch c)"
  by (rule try_dispatch_keeps [where P = "accounted M"]) (auto intro: run_dispatched_accounted drain_accounted)

lemma finish_accounted:
  assumes "accounted M c" "(a, i) \<in> set (co_runs c)"
  shows "accounted M (record_completion (run_result a i st n) (c\<lparr>co_runs := remove1 (a, i) (co_runs c)\<rparr>))"
proof -
  let ?c = "c\<lparr>co_runs := remove1 (a, i) (co_runs c)\<rparr>"
  let ?r = "run_result a i st n"
  define rs where "rs = co_results c @ [?r]"
  define c2 where "c2 = release a (?c\<lparr>co_results := drop (length rs - max_completed_results) rs,
      co_iterations := co_iterations c + n, co_in_flight := co_in_flight c - 1\<rparr>)"
  define c3 where "c3 = log_event (Task_completed ?r) (c2\<lparr>co_terminating := js_remove a (co_terminating c2)\<rparr>)"
  have pos: "co_in_flight c \<noteq> 0" using assms by (auto simp: accounted_def)
  have rc: "record_completion ?r ?c = announce_done (try_dispatch c3)"
    using pos by (simp add: record_completion_def Let_def c3_def c2_def rs_def run_result_def)
  have "mset (co_runs c) = add_mset (a, i) (mset (remove1 (a, i) (co_runs c)))" using assms(2) by simp
  then have "image_mset snd (mset (co_runs c)) = image_mset snd (add_mset (a, i) (mset (remove1 (a, i) (co_runs c))))"
    by (rule arg_cong)
  then have "mset (map snd (co_runs c)) = add_mset i (mset (map snd (remove1 (a, i) (co_runs c))))"
    by (simp del: mset_remove1)
  moreover have "settled_agents c3"
    using assms(1) settled_release [of "?c\<lparr>co_results := drop (length rs - max_completed_results) rs,
      co_iterations := co_iterations c + n, co_in_flight := co_in_flight c - 1\<rparr>" a]
    by (simp add: c3_def c2_def accounted_def settled_agents_def)
  ultimately have "accounted M c3"
    using assms by (auto simp: accounted_def tasks_in_def c3_def c2_def length_remove1 completed_def
        completed_now_def run_result_def)
  from try_dispatch_accounted [OF this] show ?thesis
    by (simp add: rc accounted_def tasks_in_def)
qed

fun assigned_by :: "co_op \<Rightarrow> string list" where
  "assigned_by (Assign t) = [ts_id t]"
| "assigned_by _ = []"

text \<open>Completion reported from outside, for callers that have no runner.\<close>

definition by_hand :: "co_op \<Rightarrow> bool" where
  "by_hand e = (case e of Complete _ \<Rightarrow> True | _ \<Rightarrow> False)"

lemma accounted_by_fields:
  assumes "accounted M c" "co_runner c' = co_runner c" "co_in_flight c' = co_in_flight c"
    "co_runs c' = co_runs c" "co_pending c' = co_pending c" "completed c' = completed c" "settled_agents c'"
  shows "accounted M c'"
  using assms by (simp add: accounted_def tasks_in_def)

lemma completed_stop: "completed (stop a c) = completed c"
  by (auto simp: stop_def completed_def completed_now_def split: option.split)

lemma completed_fold_stop: "completed (fold stop as c) = completed c"
  by (induction as arbitrary: c) (simp_all add: completed_stop)

lemma repin_ids: "map ts_id (repin i a ts) = map ts_id ts"
  by (induction ts) simp_all

lemma removed_completions:
  "concat (map completed_now (map (\<lambda>t. Task_completed (aborted_result (m t) t)) ts)) = map ts_id ts"
  by (induction ts) (simp_all add: completed_now_def aborted_result_def)

lemma remove_accounted: "accounted M c \<Longrightarrow> accounted M (remove a c)"
proof (cases "jm_has (co_agents c) a")
  case True
  assume acc: "accounted M c"
  have part: "mset (map ts_id (filter (\<lambda>t. ts_agent t = Some a) ts)) + mset (map ts_id (filter (\<lambda>t. ts_agent t \<noteq> Some a) ts)) =
      mset (map ts_id ts)" for ts
    by (induction ts) auto
  have "completed (remove a c) =
      completed c + mset (map ts_id (filter (\<lambda>t. ts_agent t = Some a) (co_pending c)))"
    using True by (simp add: remove_def Let_def completed_def removed_completions del: map_map)
  moreover have "co_pending (remove a c) = filter (\<lambda>t. ts_agent t \<noteq> Some a) (co_pending c)"
    "co_runs (remove a c) = co_runs c" "co_in_flight (remove a c) = co_in_flight c"
    "co_runner (remove a c) = co_runner c" "co_agents (remove a c) = jm_del a (co_agents c)"
    using True by (simp_all add: remove_def Let_def)
  ultimately show ?thesis
    using acc part [of "co_pending c"]
    by (auto simp: accounted_def tasks_in_def settled_agents_def ac_simps)
qed (simp add: remove_def)

lemma step_accounted:
  assumes "accounted M c" "\<not> by_hand e"
  shows "accounted (M + mset (assigned_by e)) (co_step e c)"
proof (cases e)
  case (Spawn a)
  with assms(1) show ?thesis
    by (auto simp: spawn_def completed_now_def accounted_def tasks_in_def settled_agents_def completed_def)
next
  case (Assign t)
  have "accounted (M + {#ts_id t#}) (c\<lparr>co_pending := co_pending c @ [t]\<rparr>)"
    using assms(1) by (simp add: accounted_def tasks_in_def settled_agents_def completed_def ac_simps)
  with Assign show ?thesis by (simp add: assign_def try_dispatch_accounted)
next
  case (Stop a)
  with assms(1) show ?thesis
    by (auto intro: settled_stop simp: completed_stop accounted_def tasks_in_def)
next
  case Stop_all
  have "accounted M (drain_pending ''Coordinator stopAll() drained the pending queue'' c)"
    using assms(1) by (rule drain_accounted)
  then have "accounted M (stop_all c)"
    unfolding stop_all_def Let_def
    by (rule accounted_by_fields) (use assms(1) in \<open>auto simp: completed_fold_stop accounted_def intro: settled_fold_stop\<close>)
  with Stop_all show ?thesis by simp
next
  case (Remove a)
  with assms(1) remove_accounted show ?thesis by simp
next
  case (Retarget i a)
  have "accounted M (c\<lparr>co_pending := repin i a (co_pending c)\<rparr>)"
    using assms(1) by (simp add: accounted_def tasks_in_def settled_agents_def completed_def repin_ids)
  with Retarget assms(1) show ?thesis by (auto simp: retarget_def try_dispatch_accounted)
next
  case (Set_max n)
  have "accounted M (c\<lparr>co_max := nat \<lfloor>n\<rfloor>\<rparr>)"
    using assms(1) by (simp add: accounted_def tasks_in_def settled_agents_def completed_def)
  with Set_max assms(1) show ?thesis by (auto simp: set_max_concurrent_def try_dispatch_accounted)
next
  case (Finish a i st n)
  with assms(1) finish_accounted show ?thesis by simp
next
  case (Complete r)
  with assms(2) show ?thesis by (simp add: by_hand_def)
qed

lemma run_accounted:
  "accounted M c \<Longrightarrow> list_all (\<lambda>e. \<not> by_hand e) es \<Longrightarrow>
   accounted (M + mset (concat (map assigned_by es))) (fold co_step es c)"
proof (induction es arbitrary: M c)
  case (Cons e es)
  then have "accounted (M + mset (assigned_by e)) (co_step e c)" by (simp add: step_accounted)
  from Cons.IH [OF this] Cons.prems(2) show ?case by (simp add: ac_simps)
qed simp

lemma new_accounted: "accounted {#} (new_coordinator n d True)"
  by (simp add: accounted_def new_coordinator_def settled_agents_def tasks_in_def completed_def)

text \<open>C3. No task is lost and none is done twice: after any sequence of operations of a coordinator with a
  runner, every task that was assigned is queued, or running, or was reported complete, and exactly
  one of these, once; and the number of tasks in flight is the number of runs.\<close>

theorem no_task_lost:
  "let driven = filter (\<lambda>e. \<not> by_hand e) es;
       c = fold co_step driven (new_coordinator n d True)
   in mset (map ts_id (co_pending c)) + mset (map snd (co_runs c)) + completed c =
        mset (concat (map assigned_by driven)) \<and>
      co_in_flight c = length (co_runs c)"
  using run_accounted [OF new_accounted, of "filter (\<lambda>e. \<not> by_hand e) es" n d]
  by (simp add: accounted_def tasks_in_def Let_def list_all_iff)

section \<open>Capacity\<close>

definition within_capacity :: "nat \<Rightarrow> coordinator \<Rightarrow> bool" where
  "within_capacity n c = (co_max c = n \<and> co_in_flight c \<le> n)"

lemma run_dispatched_capacity:
  "within_capacity n c \<Longrightarrow> can_dispatch c \<Longrightarrow> within_capacity n (run_dispatched a t (c\<lparr>co_pending := rest\<rparr>))"
  by (auto simp: within_capacity_def run_dispatched_def can_dispatch_def Let_def split: option.split)

lemma try_dispatch_capacity: "within_capacity n c \<Longrightarrow> within_capacity n (try_dispatch c)"
proof (rule try_dispatch_keeps [where P = "within_capacity n"])
  fix c assume "within_capacity n c"
  then show "within_capacity n (drain_pending no_live_message c)" by (simp add: within_capacity_def)
qed (auto intro: run_dispatched_capacity)

lemma record_completion_capacity: "within_capacity n c \<Longrightarrow> within_capacity n (record_completion r c)"
proof -
  assume w: "within_capacity n c"
  have log: "within_capacity n (log_event e c') = within_capacity n c'"
    "within_capacity n (announce_done c') = within_capacity n c'" for e c' by (simp_all add: within_capacity_def)
  show ?thesis
    using w unfolding record_completion_def Let_def
    by (auto simp: log intro!: try_dispatch_capacity) (auto simp: within_capacity_def)
qed

definition resizes :: "co_op \<Rightarrow> bool" where
  "resizes e = (case e of Set_max _ \<Rightarrow> True | _ \<Rightarrow> False)"

lemma step_capacity: "within_capacity n c \<Longrightarrow> \<not> resizes e \<Longrightarrow> within_capacity n (co_step e c)"
proof (cases e)
  case (Assign t)
  assume "within_capacity n c"
  then have "within_capacity n (c\<lparr>co_pending := co_pending c @ [t]\<rparr>)" by (simp add: within_capacity_def)
  with Assign show ?thesis by (simp add: assign_def try_dispatch_capacity)
next
  case (Retarget i a)
  assume w: "within_capacity n c"
  then have "within_capacity n (c\<lparr>co_pending := repin i a (co_pending c)\<rparr>)" by (simp add: within_capacity_def)
  with w Retarget show ?thesis by (auto simp: retarget_def try_dispatch_capacity)
next
  case (Finish a i st k)
  assume w: "within_capacity n c"
  then have "within_capacity n (c\<lparr>co_runs := remove1 (a, i) (co_runs c)\<rparr>)" by (simp add: within_capacity_def)
  with w Finish show ?thesis by (simp add: record_completion_capacity)
next
  case (Complete r)
  assume "within_capacity n c"
  with Complete show ?thesis by (simp add: record_completion_capacity)
qed (auto simp: within_capacity_def spawn_def stop_all_def remove_def Let_def resizes_def)

interpretation capacity: state_contract "\<lambda>e c. if resizes e then c else co_step e c" "within_capacity n" for n
  by unfold_locales (simp add: step_capacity)

text \<open>The coordinator never runs more tasks at once than it may: with the cap it was made with, whatever
  happens, the number of runs stays at most the cap.\<close>

theorem never_over_capacity:
  "let driven = filter (\<lambda>e. \<not> by_hand e \<and> \<not> resizes e) es
   in length (co_runs (fold co_step driven (new_coordinator n d True))) \<le> n"
proof -
  let ?driven = "filter (\<lambda>e. \<not> by_hand e \<and> \<not> resizes e) es"
  let ?c = "new_coordinator n d True"
  have same: "fold co_step es c = fold (\<lambda>e c. if resizes e then c else co_step e c) es c"
    if "list_all (\<lambda>e. \<not> resizes e) es" for es c
    using that by (induction es arbitrary: c) simp_all
  have "within_capacity n ?c" by (simp add: within_capacity_def new_coordinator_def)
  then have "within_capacity n (fold co_step ?driven ?c)"
    using capacity.run_good [of n ?c ?driven] by (simp add: same list_all_iff)
  with run_accounted [OF new_accounted, of ?driven n d] show ?thesis
    by (auto simp: within_capacity_def accounted_def list_all_iff Let_def)
qed

section \<open>One task per subagent\<close>

text \<open>The subagents of the runs are different, and each is busy or stopped.\<close>

definition exclusive :: "coordinator \<Rightarrow> bool" where
  "exclusive c \<longleftrightarrow>
     settled_agents c \<and> distinct (map fst (co_runs c)) \<and>
     (\<forall>(a, i) \<in> set (co_runs c). \<exists>e. jm_get (co_agents c) a = Some e \<and> ae_status e \<in> {Running, Stopped_agent})"

definition removes :: "co_op \<Rightarrow> bool" where
  "removes e = (case e of Remove _ \<Rightarrow> True | _ \<Rightarrow> False)"

lemma exclusive_fields:
  "exclusive c \<Longrightarrow> co_agents c' = co_agents c \<Longrightarrow> co_runs c' = co_runs c \<Longrightarrow> exclusive c'"
  by (simp add: exclusive_def settled_agents_def)

lemma exclusive_set:
  assumes "exclusive c" "ae_status e \<in> {Running, Stopped_agent} \<or> a \<notin> fst ` set (co_runs c)"
  shows "exclusive (c\<lparr>co_agents := jm_set a e (co_agents c)\<rparr>)"
proof -
  have "\<exists>e'. jm_get (jm_set a e (co_agents c)) b = Some e' \<and> ae_status e' \<in> {Running, Stopped_agent}"
    if "(b, i) \<in> set (co_runs c)" for b i
  proof (cases "b = a")
    case True
    with that assms(2) show ?thesis by force
  next
    case False
    with that assms(1) show ?thesis by (auto simp: exclusive_def)
  qed
  then show ?thesis using assms(1) by (auto simp: exclusive_def settled_agents_def)
qed

lemma run_dispatched_exclusive:
  assumes "exclusive c" "take_next c (co_pending c) = Some (a, t, rest)"
  shows "exclusive (run_dispatched a t (c\<lparr>co_pending := rest\<rparr>))"
proof -
  have av: "available (c\<lparr>co_pending := rest\<rparr>) a"
    using take_next_available [OF _ assms(2)] assms(1) by (simp add: exclusive_def)
  then have new: "a \<notin> fst ` set (co_runs c)"
    using assms(1) by (fastforce simp: exclusive_def available_def split: option.splits)
  from run_available_fields [OF av, of t] obtain e where e: "ae_status e = Running"
    "co_agents (run_dispatched a t (c\<lparr>co_pending := rest\<rparr>)) = jm_set a e (co_agents c)"
    "co_runs (run_dispatched a t (c\<lparr>co_pending := rest\<rparr>)) = co_runs c @ (if co_runner c then [(a, ts_id t)] else [])"
    by auto
  have set: "exclusive (c\<lparr>co_agents := jm_set a e (co_agents c)\<rparr>)" using exclusive_set [OF assms(1)] e(1) by simp
  have "distinct (map fst (co_runs c @ [(a, ts_id t)]))" using new assms(1) by (auto simp: exclusive_def)
  with set e new show ?thesis
    by (auto simp: exclusive_def settled_agents_def)
qed

lemma try_dispatch_exclusive: "exclusive c \<Longrightarrow> exclusive (try_dispatch c)"
proof (rule try_dispatch_keeps [where P = exclusive])
  fix c assume "exclusive c"
  then show "exclusive (drain_pending no_live_message c)" by (rule exclusive_fields) simp_all
qed (auto intro: run_dispatched_exclusive)

lemma release_exclusive:
  "exclusive c \<Longrightarrow> a \<notin> fst ` set (co_runs c) \<Longrightarrow> exclusive (release a c)"
  by (auto simp: release_def intro: exclusive_set split: option.split)

lemma finish_exclusive:
  assumes "exclusive c" "(a, i) \<in> set (co_runs c)"
  shows "exclusive (record_completion (run_result a i st n) (c\<lparr>co_runs := remove1 (a, i) (co_runs c)\<rparr>))"
proof -
  have d: "distinct (map fst (co_runs c))" using assms(1) by (simp add: exclusive_def)
  have gone: "a \<notin> fst ` set (remove1 (a, i) rs)" if "distinct (map fst rs)" "(a, i) \<in> set rs" for rs
    using that by (induction rs) force+
  have keep: "distinct (map fst (remove1 (a, i) rs))" if "distinct (map fst rs)" for rs
    using that by (auto simp: distinct_map inj_on_diff)
  have ex: "exclusive c'" if "co_agents c' = co_agents c" "co_runs c' = remove1 (a, i) (co_runs c)" for c'
    using that assms(1) keep [OF d] set_remove1_subset [of "(a, i)" "co_runs c"]
    by (auto simp: exclusive_def settled_agents_def)
  have same: "exclusive (log_event e c') = exclusive c'" "exclusive (announce_done c') = exclusive c'"
    "exclusive (c'\<lparr>co_terminating := ts\<rparr>) = exclusive c'" for e c' ts
    by (simp_all add: exclusive_def settled_agents_def)
  have rel: "exclusive (release a c')" if "co_agents c' = co_agents c" "co_runs c' = remove1 (a, i) (co_runs c)" for c'
    using ex [OF that] gone [OF d assms(2)] that(2) by (intro release_exclusive) auto
  have tr: "tr_agent (run_result a i st n) = a" by (simp add: run_result_def)
  show ?thesis
  proof (cases "co_in_flight c = 0 \<and> co_runner c")
    case True
    then show ?thesis by (simp add: record_completion_def Let_def same) (rule ex; simp)
  next
    case False
    then show ?thesis
      by (auto simp: record_completion_def Let_def same tr intro!: try_dispatch_exclusive rel)
  qed
qed

lemma stop_exclusive: "exclusive c \<Longrightarrow> exclusive (stop a c)"
proof -
  assume ex: "exclusive c"
  have same: "exclusive (log_event e c') = exclusive c'" "exclusive (c'\<lparr>co_terminating := ts\<rparr>) = exclusive c'" for e c' ts
    by (simp_all add: exclusive_def settled_agents_def)
  have "exclusive (c\<lparr>co_terminating := ts, co_agents := jm_set a e (co_agents c)\<rparr>)" if "ae_status e = Stopped_agent" for e ts
    using exclusive_set [OF ex, of e a] that by (simp add: exclusive_def settled_agents_def)
  then show ?thesis using ex by (simp add: stop_def same split: option.split)
qed

lemma fold_stop_exclusive: "exclusive c \<Longrightarrow> exclusive (fold stop as c)"
  by (induction as arbitrary: c) (auto intro: stop_exclusive)

lemma step_exclusive:
  assumes "exclusive c" "\<not> by_hand e" "\<not> removes e"
  shows "exclusive (co_step e c)"
proof (cases e)
  case (Spawn a)
  have "exclusive (log_event ev (c\<lparr>co_agents := jm_set a x (co_agents c)\<rparr>))" if "\<not> jm_has (co_agents c) a" for x ev
  proof -
    have "a \<notin> fst ` set (co_runs c)" using assms(1) that by (fastforce simp: exclusive_def jm_has_def)
    with exclusive_set [OF assms(1), of x a] show ?thesis by (auto elim: exclusive_fields)
  qed
  with Spawn assms(1) show ?thesis by (auto simp: spawn_def)
next
  case (Assign t)
  have "exclusive (c\<lparr>co_pending := co_pending c @ [t]\<rparr>)" using assms(1) by (rule exclusive_fields) simp_all
  with Assign show ?thesis by (simp add: assign_def try_dispatch_exclusive)
next
  case (Stop a)
  with assms(1) show ?thesis by (simp add: stop_exclusive)
next
  case Stop_all
  have "exclusive (drain_pending m c)" for m using assms(1) by (rule exclusive_fields) simp_all
  with Stop_all show ?thesis by (simp add: stop_all_def Let_def fold_stop_exclusive)
next
  case (Retarget i a)
  have "exclusive (c\<lparr>co_pending := repin i a (co_pending c)\<rparr>)" using assms(1) by (rule exclusive_fields) simp_all
  with Retarget assms(1) show ?thesis by (auto simp: retarget_def try_dispatch_exclusive)
next
  case (Set_max n)
  have "exclusive (c\<lparr>co_max := nat \<lfloor>n\<rfloor>\<rparr>)" using assms(1) by (rule exclusive_fields) simp_all
  with Set_max assms(1) show ?thesis by (auto simp: set_max_concurrent_def try_dispatch_exclusive)
next
  case (Finish a i st n)
  with assms(1) finish_exclusive show ?thesis by simp
qed (use assms in \<open>simp_all add: by_hand_def removes_def\<close>)

interpretation exclusion: state_contract "\<lambda>e c. if by_hand e \<or> removes e then c else co_step e c" exclusive
  by unfold_locales (simp add: step_exclusive)

text \<open>C27. A subagent runs one task at a time: as long as nobody is removed, the runs of any history belong
  to different subagents.\<close>

theorem one_task_per_subagent:
  "let driven = filter (\<lambda>e. \<not> by_hand e \<and> \<not> removes e) es
   in distinct (map fst (co_runs (fold co_step driven (new_coordinator n d runner))))"
proof -
  have same: "fold co_step es c = fold (\<lambda>e c. if by_hand e \<or> removes e then c else co_step e c) es c"
    if "list_all (\<lambda>e. \<not> by_hand e \<and> \<not> removes e) es" for es c
    using that by (induction es arbitrary: c) simp_all
  have "exclusive (new_coordinator n d runner)" by (simp add: exclusive_def settled_agents_def new_coordinator_def)
  from exclusion.run_good [OF this, of "filter (\<lambda>e. \<not> by_hand e \<and> \<not> removes e) es"] show ?thesis
    by (simp add: same list_all_iff Let_def) (simp add: exclusive_def)
qed

section \<open>No subagent waits while there is work\<close>

text \<open>There is no free slot, or no queued task that an idle subagent could take.\<close>

definition exhausted :: "coordinator \<Rightarrow> bool" where
  "exhausted c = (\<not> can_dispatch c \<or> take_next c (co_pending c) = None)"

lemma try_dispatch_exhausts: "exhausted (try_dispatch c)"
proof (induction c rule: try_dispatch.induct)
  case (1 c)
  show ?case
  proof (cases "take_next c (co_pending c)")
    case None
    then show ?thesis by (subst try_dispatch.simps) (simp add: exhausted_def can_dispatch_def)
  next
    case (Some x)
    obtain a t rest where x: "x = (a, t, rest)" by (cases x)
    show ?thesis
    proof (cases "can_dispatch c")
      case True
      with 1 [of "(a, t, rest)" a "(t, rest)" t rest] Some x show ?thesis by (subst try_dispatch.simps) simp
    next
      case False
      then show ?thesis by (subst try_dispatch.simps) (simp add: exhausted_def)
    qed
  qed
qed

lemma exhausted_fewer:
  assumes "exhausted c" "co_in_flight c' = co_in_flight c" "co_max c' = co_max c"
    "set (co_pending c') \<subseteq> set (co_pending c)"
    "\<And>t. t \<in> set (co_pending c') \<Longrightarrow> target_of c t = None \<Longrightarrow> target_of c' t = None"
  shows "exhausted c'"
proof (cases "can_dispatch c")
  case True
  with assms(1) have "\<forall>t \<in> set (co_pending c). target_of c t = None" by (simp add: exhausted_def take_next_None)
  with assms(4,5) show ?thesis by (auto simp: exhausted_def take_next_None)
next
  case False
  with assms(2-4) show ?thesis by (auto simp: exhausted_def can_dispatch_def)
qed

lemma find_idle_None:
  "find_idle c = None \<longleftrightarrow> (\<forall>(a, e) \<in> set (co_agents c). \<not> (ae_status e = Idle \<and> a \<notin> set (co_terminating c)))"
  by (auto simp: find_idle_def find_None_iff)

lemma jm_set_subset: "set (jm_set k v m) \<subseteq> insert (k, v) (set m)"
  by (induction k v m rule: jm_set.induct) auto

lemma stop_targets: "target_of c t = None \<Longrightarrow> target_of (stop a c) t = None"
proof -
  have "available (stop a c) b \<Longrightarrow> available c b" for b
    by (auto simp: available_def stop_def split: option.splits if_splits)
  moreover have "find_idle c = None \<Longrightarrow> find_idle (stop a c) = None"
    using jm_set_subset [of a _ "co_agents c"]
    by (fastforce simp: find_idle_None stop_def split: option.split)
  ultimately show "target_of c t = None \<Longrightarrow> ?thesis" by (auto simp: target_of_def split: option.splits if_splits)
qed

lemma stop_exhausted: "exhausted c \<Longrightarrow> exhausted (stop a c)"
  by (erule exhausted_fewer) (auto intro: stop_targets)

lemma fold_stop_exhausted: "exhausted c \<Longrightarrow> exhausted (fold stop as c)"
  by (induction as arbitrary: c) (auto intro: stop_exhausted)

lemma remove_exhausted:
  assumes "exhausted c" "settled_agents c"
  shows "exhausted (remove a c)"
proof (cases "jm_has (co_agents c) a")
  case True
  have f: "co_agents (remove a c) = jm_del a (co_agents c)" "co_terminating (remove a c) = js_remove a (co_terminating c)"
    "co_pending (remove a c) = filter (\<lambda>t. ts_agent t \<noteq> Some a) (co_pending c)"
    "co_in_flight (remove a c) = co_in_flight c" "co_max (remove a c) = co_max c"
    using True by (simp_all add: remove_def Let_def)
  have av: "available (remove a c) b \<Longrightarrow> available c b" for b
    by (auto simp: available_def f js_remove_def split: option.splits if_splits)
  have fi: "find_idle c = None \<Longrightarrow> find_idle (remove a c) = None"
    by (auto simp: find_idle_None f jm_del_def js_remove_def)
  show ?thesis
    using assms(1)
  proof (rule exhausted_fewer)
    fix t assume "target_of c t = None"
    with av fi show "target_of (remove a c) t = None" by (auto simp: target_of_def split: option.splits if_splits)
  qed (auto simp: f)
qed (simp add: remove_def assms(1))

lemma take_next_log: "take_next (log_event e c) ts = take_next c ts"
proof -
  have "target_of (log_event e c) t = target_of c t" for t
    by (simp add: target_of_def available_def find_idle_def cong: option.case_cong)
  then show ?thesis by (induction ts) (simp_all cong: option.case_cong)
qed

lemma exhausted_same [simp]:
  "exhausted (log_event e c) = exhausted c" "exhausted (announce_done c) = exhausted c"
  by (simp_all add: exhausted_def can_dispatch_def announce_done_def take_next_log)

definition spawns :: "co_op \<Rightarrow> bool" where
  "spawns e = (case e of Spawn _ \<Rightarrow> True | _ \<Rightarrow> False)"

definition idle_free :: "coordinator \<Rightarrow> bool" where
  "idle_free c \<longleftrightarrow> exhausted c \<and> settled_agents c"

lemma settled_run_dispatched: "settled_agents c \<Longrightarrow> settled_agents (run_dispatched a t c)"
  by (auto simp: run_dispatched_def Let_def settled_agents_def split: option.split)

lemma try_dispatch_idle_free: "settled_agents c \<Longrightarrow> idle_free (try_dispatch c)"
  using try_dispatch_exhausts try_dispatch_keeps [where P = settled_agents]
  by (simp add: idle_free_def settled_run_dispatched)

lemma record_completion_idle_free: "idle_free c \<Longrightarrow> idle_free (record_completion r c)"
proof -
  assume i: "idle_free c"
  define rs where "rs = co_results c @ [r]"
  define c1 where "c1 = c\<lparr>co_results := drop (length rs - max_completed_results) rs,
      co_iterations := co_iterations c + tr_iterations r\<rparr>"
  have s: "settled_agents c" using i by (simp add: idle_free_def)
  have e: "exhausted c1"
    using i unfolding idle_free_def
    by (auto elim!: exhausted_fewer simp: c1_def target_of_def available_def find_idle_def split: option.splits)
  show ?thesis
  proof (cases "co_in_flight c1 = 0 \<and> co_runner c1")
    case True
    with e s show ?thesis
      by (simp add: record_completion_def Let_def idle_free_def flip: rs_def c1_def)
        (simp add: c1_def settled_agents_def)
  next
    case False
    define c2 where "c2 = release (tr_agent r) (c1\<lparr>co_in_flight := co_in_flight c1 - 1\<rparr>)"
    define c3 where "c3 = log_event (Task_completed r) (c2\<lparr>co_terminating := js_remove (tr_agent r) (co_terminating c2)\<rparr>)"
    have "settled_agents c2"
      unfolding c2_def using s by (intro settled_release) (simp add: c1_def settled_agents_def)
    then have "settled_agents c3" by (simp add: c3_def settled_agents_def)
    moreover have "record_completion r c = announce_done (try_dispatch c3)"
      using False by (auto simp: record_completion_def Let_def rs_def c1_def c2_def c3_def)
    ultimately show ?thesis using try_dispatch_idle_free [of c3] by (simp add: idle_free_def)
  qed
qed

lemma idle_free_runs: "idle_free c \<Longrightarrow> idle_free (c\<lparr>co_runs := rs\<rparr>)"
  unfolding idle_free_def
  by (auto elim!: exhausted_fewer simp: target_of_def available_def find_idle_def settled_agents_def split: option.splits)

lemma step_idle_free:
  assumes "idle_free c" "\<not> spawns e"
  shows "idle_free (co_step e c)"
proof (cases e)
  case (Assign t)
  with assms(1) show ?thesis by (simp add: assign_def try_dispatch_idle_free idle_free_def [of c])
next
  case (Stop a)
  with assms(1) show ?thesis by (simp add: idle_free_def stop_exhausted settled_stop)
next
  case Stop_all
  have "exhausted (drain_pending m c)" for m
    by (simp add: exhausted_def)
  with Stop_all assms(1) show ?thesis
    by (simp add: idle_free_def stop_all_def Let_def fold_stop_exhausted settled_fold_stop)
next
  case (Remove a)
  have "settled_agents (remove a c)"
    using assms(1) by (auto simp: idle_free_def settled_agents_def remove_def Let_def)
  with Remove assms(1) show ?thesis by (simp add: idle_free_def remove_exhausted)
next
  case (Retarget i a)
  with assms(1) show ?thesis by (auto simp: retarget_def try_dispatch_idle_free idle_free_def [of c])
next
  case (Set_max n)
  have "settled_agents (c\<lparr>co_max := m\<rparr>)" for m using assms(1) by (simp add: idle_free_def settled_agents_def)
  with Set_max assms(1) show ?thesis by (auto simp: set_max_concurrent_def try_dispatch_idle_free)
next
  case (Finish a i st n)
  with assms(1) show ?thesis by (simp add: record_completion_idle_free idle_free_runs)
next
  case (Complete r)
  with assms(1) show ?thesis by (simp add: record_completion_idle_free)
qed (use assms in \<open>simp add: spawns_def\<close>)

interpretation work_conserving: state_contract "\<lambda>e c. if spawns e then c else co_step e c" idle_free
  by unfold_locales (simp add: step_idle_free)

lemma settled_completion: "settled_agents c \<Longrightarrow> settled_agents (record_completion r c)"
proof -
  assume s: "settled_agents c"
  have keep: "settled_agents (try_dispatch x)" if "settled_agents x" for x
    using try_dispatch_idle_free [OF that] by (simp add: idle_free_def)
  have fields: "settled_agents (x\<lparr>co_results := a\<rparr>) = settled_agents x"
    "settled_agents (x\<lparr>co_iterations := i\<rparr>) = settled_agents x"
    "settled_agents (x\<lparr>co_in_flight := k\<rparr>) = settled_agents x"
    "settled_agents (x\<lparr>co_terminating := ts\<rparr>) = settled_agents x" for x a i k ts
    by (simp_all add: settled_agents_def)
  from s show ?thesis
    by (auto simp: record_completion_def Let_def fields intro!: keep settled_release)
qed

lemma settled_step: "settled_agents c \<Longrightarrow> settled_agents (co_step e c)"
proof (cases e)
  case (Spawn a)
  assume "settled_agents c"
  with Spawn show ?thesis by (auto simp: spawn_def settled_agents_def)
next
  case (Assign t)
  assume "settled_agents c"
  with Assign show ?thesis using try_dispatch_idle_free [of "c\<lparr>co_pending := co_pending c @ [t]\<rparr>"]
    by (simp add: assign_def idle_free_def)
next
  case (Stop a)
  assume "settled_agents c"
  with Stop show ?thesis by (simp add: settled_stop)
next
  case Stop_all
  assume "settled_agents c"
  with Stop_all show ?thesis by (simp add: stop_all_def Let_def settled_fold_stop)
next
  case (Remove a)
  assume "settled_agents c"
  with Remove show ?thesis by (auto simp: settled_agents_def remove_def Let_def)
next
  case (Retarget i a)
  assume "settled_agents c"
  with Retarget show ?thesis
    using try_dispatch_idle_free by (auto simp: retarget_def idle_free_def)
next
  case (Set_max m)
  assume "settled_agents c"
  moreover have "settled_agents (c\<lparr>co_max := k\<rparr>) = settled_agents c" for k by (simp add: settled_agents_def)
  ultimately show ?thesis
    using Set_max try_dispatch_idle_free by (auto simp: set_max_concurrent_def idle_free_def)
next
  case (Finish a i st k)
  assume "settled_agents c"
  moreover have "settled_agents (c\<lparr>co_runs := rs\<rparr>) = settled_agents c" for rs by (simp add: settled_agents_def)
  ultimately show ?thesis using Finish by (simp add: settled_completion)
next
  case (Complete r)
  assume "settled_agents c"
  with Complete show ?thesis by (simp add: settled_completion)
qed

text \<open>Whether a subagent was spawned while tasks were queued and no task was assigned since: the case in
  which the queue has not been looked at since the subagent is there (\<open>spawn_starts_nothing\<close>).\<close>

fun spawned_over_queue :: "bool \<Rightarrow> co_op list \<Rightarrow> coordinator \<Rightarrow> bool" where
  "spawned_over_queue w [] c = w"
| "spawned_over_queue w (e # es) c =
     spawned_over_queue
       (case e of Spawn a \<Rightarrow> w \<or> co_pending c \<noteq> [] | Assign t \<Rightarrow> False | _ \<Rightarrow> w) es (co_step e c)"

lemma history_idle_free:
  "settled_agents c \<Longrightarrow> (\<not> w \<Longrightarrow> exhausted c) \<Longrightarrow> \<not> spawned_over_queue w es c \<Longrightarrow> idle_free (fold co_step es c)"
proof (induction es arbitrary: w c)
  case Nil
  then show ?case by (simp add: idle_free_def)
next
  case (Cons e es)
  define w' where "w' = (case e of Spawn a \<Rightarrow> w \<or> co_pending c \<noteq> [] | Assign t \<Rightarrow> False | _ \<Rightarrow> w)"
  have "exhausted (co_step e c)" if nw: "\<not> w'"
  proof (cases e)
    case (Spawn a)
    with nw have "co_pending (co_step e c) = []"
      by (auto simp: w'_def spawn_def log_event_def split: if_splits)
    then show ?thesis by (simp add: exhausted_def)
  next
    case (Assign t)
    then show ?thesis by (simp add: assign_def try_dispatch_exhausts)
  qed (use nw Cons.prems(1,2) step_idle_free [of c e] in
        \<open>simp_all add: w'_def spawns_def idle_free_def del: co_step.simps\<close>)
  moreover have "settled_agents (co_step e c)" using Cons.prems(1) by (rule settled_step)
  ultimately have "idle_free (fold co_step es (co_step e c))"
    using Cons.prems(3) by (intro Cons.IH [of _ w']) (simp_all add: w'_def del: co_step.simps)
  then show ?case by simp
qed

lemma no_target:
  "settled_agents c \<Longrightarrow> target_of c t = None \<Longrightarrow> jm_get (co_agents c) a = Some e \<Longrightarrow> ae_status e = Idle \<Longrightarrow>
   a \<notin> set (co_terminating c) \<Longrightarrow> ts_agent t \<notin> {None, Some '''', Some a}"
proof
  assume "settled_agents c" "target_of c t = None" and a: "jm_get (co_agents c) a = Some e" "ae_status e = Idle"
    "a \<notin> set (co_terminating c)" and t: "ts_agent t \<in> {None, Some '''', Some a}"
  have "(a, e) \<in> set (co_agents c)" using a(1) by (rule jm_get_in_set)
  then have "find_idle c \<noteq> None" using a by (auto simp: find_idle_def find_None_iff)
  moreover have "available c a" using a by (simp add: available_def)
  ultimately show False
    using \<open>target_of c t = None\<close> t by (auto simp: target_of_def pinned_def split: if_splits)
qed

text \<open>C31. The dispatcher wastes no slot. Take any history of spawning, assigning, stopping, removing,
  retargeting, changing the cap and completing in which no subagent was spawned while tasks were queued
  without a task being assigned afterwards. Then either the cap is reached, or no queued task could be
  run by a subagent that is idle and not being stopped: each of them names another subagent.\<close>

theorem no_subagent_waits:
  assumes "\<not> spawned_over_queue False es (new_coordinator n d runner)"
    and "c = fold co_step es (new_coordinator n d runner)" and "co_in_flight c < co_max c"
    and "t \<in> set (co_pending c)"
    and "jm_get (co_agents c) a = Some e" "ae_status e = Idle" "a \<notin> set (co_terminating c)"
  shows "ts_agent t \<notin> {None, Some '''', Some a}"
proof -
  have "settled_agents (new_coordinator n d runner)" "exhausted (new_coordinator n d runner)"
    by (simp_all add: new_coordinator_def settled_agents_def exhausted_def can_dispatch_def)
  then have "idle_free c" unfolding assms(2) using assms(1) by (intro history_idle_free)
  then have "settled_agents c" "take_next c (co_pending c) = None"
    using assms(3,4) by (auto simp: idle_free_def exhausted_def can_dispatch_def)
  then show ?thesis using assms(4-7) by (intro no_target) (auto simp: take_next_None)
qed

lemma stats_add_up: "cs_running (get_stats c) + cs_idle (get_stats c) + cs_stopped (get_stats c) = cs_total (get_stats c)"
proof -
  have "length (filter (\<lambda>s. s = Running) st) + length (filter (\<lambda>s. s = Idle) st) +
      length (filter (\<lambda>s. s \<noteq> Running \<and> s \<noteq> Idle) st) = length st" for st
    by (induction st) auto
  from this [of "map (ae_status \<circ> snd) (co_agents c)"] show ?thesis by (simp add: get_stats_def Let_def)
qed

section \<open>Where the coordinator does not do what it says\<close>

lemma dispatch_stops: "\<not> can_dispatch c \<Longrightarrow> try_dispatch c = c"
  by (subst try_dispatch.simps) simp

lemma dispatch_one:
  "can_dispatch c \<Longrightarrow> take_next c (co_pending c) = Some (a, t, rest) \<Longrightarrow>
   try_dispatch c = try_dispatch (run_dispatched a t (c\<lparr>co_pending := rest\<rparr>))"
  by (subst try_dispatch.simps) simp

lemma dispatch_none:
  "can_dispatch c \<Longrightarrow> take_next c (co_pending c) = None \<Longrightarrow> has_live c \<Longrightarrow> try_dispatch c = c"
  by (subst try_dispatch.simps) simp

lemmas co_defs = assign_def spawn_def stop_def remove_def new_coordinator_def log_event_def can_dispatch_def
  target_of_def pinned_def available_def find_idle_def jm_get_Cons jm_has_def has_live_def run_dispatched_def
  Let_def js_add_def js_remove_def jm_del_def record_completion_def release_def announce_done_def is_done_def
  max_completed_results_def run_result_def aborted_result_def

definition task :: "string \<Rightarrow> string option \<Rightarrow> task_spec" where
  "task i a = \<lparr>ts_id = i, ts_agent = a\<rparr>"

text \<open>A task queued before its subagent is spawned is not started by the spawn: the subagent is idle, a
  slot is free, and the task waits for some other event.\<close>

theorem spawn_starts_nothing:
  "let c = fold co_step [Assign (task ''t'' None), Spawn ''a''] (new_coordinator 16 All_tasks_done True)
   in can_dispatch c \<and> take_next c (co_pending c) = Some (''a'', task ''t'' None, []) \<and> co_runs c = []"
proof -
  have "try_dispatch (new_coordinator 16 All_tasks_done True\<lparr>co_pending := [task ''t'' None]\<rparr>) =
      new_coordinator 16 All_tasks_done True\<lparr>co_pending := [task ''t'' None]\<rparr>"
    by (rule dispatch_none) (simp_all add: co_defs task_def)
  then show ?thesis by (simp add: assign_def) (simp add: co_defs task_def)
qed

text \<open>Two subagents, one of them stopped, and a task pinned to the stopped one.\<close>

definition waiting_history :: "co_op list" where
  "waiting_history = [Spawn ''a'', Spawn ''b'', Stop ''a'', Assign (task ''t'' (Some ''a''))]"

lemma waiting_state:
  "let c = fold co_step waiting_history (new_coordinator 16 All_tasks_done True)
   in \<not> spawned_over_queue False waiting_history (new_coordinator 16 All_tasks_done True) \<and>
      co_in_flight c < co_max c \<and> task ''t'' (Some ''a'') \<in> set (co_pending c) \<and>
      (\<exists>e. jm_get (co_agents c) ''b'' = Some e \<and> ae_status e = Idle) \<and> ''b'' \<notin> set (co_terminating c)"
proof -
  define c where "c = fold co_step [Spawn ''a'', Spawn ''b'', Stop ''a''] (new_coordinator 16 All_tasks_done True)"
  define c' where "c' = c\<lparr>co_pending := [task ''t'' (Some ''a'')]\<rparr>"
  have pend: "co_pending c = []" by (simp add: c_def co_defs)
  have "try_dispatch c' = c'"
    by (rule dispatch_none) (simp_all add: c'_def c_def co_defs task_def)
  moreover have "fold co_step waiting_history (new_coordinator 16 All_tasks_done True) =
      assign (task ''t'' (Some ''a'')) c"
    by (simp add: waiting_history_def c_def)
  moreover have "assign (task ''t'' (Some ''a'')) c = try_dispatch c'"
    by (simp add: assign_def c'_def pend)
  ultimately have "fold co_step waiting_history (new_coordinator 16 All_tasks_done True) = c'" by simp
  moreover have "\<not> spawned_over_queue False waiting_history (new_coordinator 16 All_tasks_done True)"
    by (simp add: waiting_history_def co_defs)
  ultimately show ?thesis
    by (simp add: Let_def) (simp add: c'_def c_def co_defs task_def)
qed

theorem no_subagent_waits_witness:
  "ts_agent (task ''t'' (Some ''a'')) \<notin> {None, Some '''', Some ''b''}"
proof -
  let ?c = "fold co_step waiting_history (new_coordinator 16 All_tasks_done True)"
  from waiting_state obtain e where "jm_get (co_agents ?c) ''b'' = Some e" "ae_status e = Idle"
    by (auto simp: Let_def)
  with waiting_state show ?thesis
    by (intro no_subagent_waits [where c = ?c, OF _ refl]) (auto simp: Let_def)
qed

text \<open>A queued task whose subagent is stopped while another one lives.\<close>

definition starving :: "task_spec \<Rightarrow> string \<Rightarrow> string \<Rightarrow> coordinator \<Rightarrow> bool" where
  "starving t a b c \<longleftrightarrow>
     settled_agents c \<and> t \<in> set (co_pending c) \<and> pinned t = Some a \<and>
     (\<exists>e. jm_get (co_agents c) a = Some e \<and> ae_status e = Stopped_agent) \<and>
     (\<exists>e. jm_get (co_agents c) b = Some e \<and> ae_status e \<noteq> Stopped_agent) \<and> b \<notin> set (co_terminating c)"

lemma starving_live: "starving t a b c \<Longrightarrow> has_live c"
  by (auto simp: starving_def has_live_def list_ex_iff dest!: jm_get_in_set)

lemma starving_fields:
  "starving t a b c \<Longrightarrow> co_agents c' = co_agents c \<Longrightarrow> set (co_pending c) \<subseteq> set (co_pending c') \<Longrightarrow>
   set (co_terminating c') \<subseteq> set (co_terminating c) \<Longrightarrow> starving t a b c'"
  by (auto simp: starving_def settled_agents_def)

lemma take_next_starving:
  "starving t a b c \<Longrightarrow> take_next c ts = Some (x, u, rest) \<Longrightarrow> t \<in> set ts \<Longrightarrow> t \<in> set rest"
proof (induction ts arbitrary: rest)
  case (Cons s ts)
  have "target_of c t = None"
    using Cons.prems(1) by (auto simp: starving_def target_of_def available_def)
  with Cons show ?case by (auto split: option.splits)
qed simp

lemma starving_dispatch: "starving t a b c \<Longrightarrow> starving t a b (try_dispatch c)"
proof (rule try_dispatch_keeps [where P = "starving t a b"])
  fix c x u rest assume s: "starving t a b c" and n: "take_next c (co_pending c) = Some (x, u, rest)"
  have "t \<in> set (co_pending c)" using s by (simp add: starving_def)
  then have rest: "t \<in> set rest" by (rule take_next_starving [OF s n])
  have x: "available (c\<lparr>co_pending := rest\<rparr>) x"
    using take_next_available [OF _ n] s by (simp add: starving_def)
  then have "x \<noteq> a" using s by (auto simp: starving_def available_def)
  with s x rest show "starving t a b (run_dispatched x u (c\<lparr>co_pending := rest\<rparr>))"
    by (auto simp: starving_def run_dispatched_def Let_def settled_agents_def split: option.split)
next
  fix c assume "starving t a b c" "\<not> has_live c"
  then show "starving t a b (drain_pending no_live_message c)" using starving_live by blast
qed

lemma starving_release: "starving t a b c \<Longrightarrow> starving t a b (release x c)"
  by (auto simp: starving_def release_def settled_agents_def split: option.split)

lemma starving_completion: "starving t a b c \<Longrightarrow> starving t a b (record_completion r c)"
proof -
  assume s: "starving t a b c"
  have upd: "starving t a b (c\<lparr>co_results := x, co_iterations := y, co_in_flight := z\<rparr>)"
    "starving t a b (c\<lparr>co_results := x, co_iterations := y\<rparr>)" for x y z
    using s by (auto elim!: starving_fields)
  have done': "starving t a b (announce_done c') = starving t a b c'" for c'
    by (simp add: starving_def settled_agents_def)
  have logged: "starving t a b (log_event e c') = starving t a b c'" for e c'
    by (simp add: starving_def settled_agents_def)
  have rel: "starving t a b (log_event e (release v c'\<lparr>co_terminating := js_remove w ts\<rparr>))"
    if "starving t a b c'" "ts = co_terminating c'" for e v w c' ts
    by (rule starving_fields [OF starving_release [OF that(1), of v]]) (auto simp: that(2) js_remove_def)
  show ?thesis
    using upd by (auto simp: record_completion_def Let_def done' intro!: starving_dispatch rel)
      (simp add: logged)
qed

definition goes_on :: "co_op \<Rightarrow> bool" where
  "goes_on e = (case e of Assign _ \<Rightarrow> True | Finish _ _ _ _ \<Rightarrow> True | _ \<Rightarrow> False)"

lemma starving_step: "starving t a b c \<Longrightarrow> goes_on e \<Longrightarrow> starving t a b (co_step e c)"
proof (cases e)
  case (Assign u)
  assume "starving t a b c"
  then have "starving t a b (c\<lparr>co_pending := co_pending c @ [u]\<rparr>)" by (auto elim!: starving_fields)
  with Assign show ?thesis by (simp add: assign_def starving_dispatch)
next
  case (Finish x i st n)
  assume s: "starving t a b c"
  then have "starving t a b (c\<lparr>co_runs := remove1 (x, i) (co_runs c)\<rparr>)" by (auto elim!: starving_fields)
  with s Finish show ?thesis by (simp add: starving_completion)
qed (simp_all add: goes_on_def)

text \<open>A task assigned to a stopped subagent is neither run nor reported: as long as another subagent is
  alive it stays in the queue, whatever is assigned and finished afterwards, and whoever waits for it
  waits in vain.\<close>

theorem pinned_task_starves:
  "task ''t'' (Some ''a'') \<in> set (co_pending (fold co_step (filter goes_on es)
     (fold co_step [Spawn ''a'', Spawn ''b'', Stop ''a'', Assign (task ''t'' (Some ''a''))]
        (new_coordinator 16 All_tasks_done True))))"
proof -
  define c where "c = fold co_step [Spawn ''a'', Spawn ''b'', Stop ''a''] (new_coordinator 16 All_tasks_done True)"
  have "starving (task ''t'' (Some ''a'')) ''a'' ''b'' (c\<lparr>co_pending := co_pending c @ [task ''t'' (Some ''a'')]\<rparr>)"
    by (simp add: c_def starving_def settled_agents_def jm_wf_def jm_keys_def) (simp add: co_defs task_def)
  then have start: "starving (task ''t'' (Some ''a'')) ''a'' ''b'' (co_step (Assign (task ''t'' (Some ''a''))) c)"
    by (simp add: assign_def starving_dispatch)
  have "starving t a b (fold co_step es c)" if "starving t a b c" "list_all goes_on es" for t a b c es
    using that by (induction es arbitrary: c) (simp_all add: starving_step)
  from this [OF start, of "filter goes_on es"] show ?thesis
    by (simp add: starving_def c_def list_all_iff)
qed

text \<open>A subagent that is removed while it works and spawned again under the same name can be given a
  second task while it works on the first: the completion of the removed one makes it idle.\<close>

theorem respawned_agent_runs_two:
  "co_runs (fold co_step
     [Spawn ''a'', Assign (task ''1'' None), Remove ''a'', Spawn ''a'', Assign (task ''2'' None),
      Assign (task ''3'' None), Finish ''a'' ''1'' Task_stopped 0]
     (new_coordinator 16 All_tasks_done True)) = [(''a'', ''2''), (''a'', ''3'')]"
  by (simp add: co_defs task_def try_dispatch.simps)

text \<open>Without a runner nothing counts as in flight, so the coordinator announces that all tasks are done
  when the first of two running ones is reported.\<close>

theorem done_while_running:
  "let c = fold co_step
     [Spawn ''a'', Spawn ''b'', Assign (task ''1'' None), Assign (task ''2'' None),
      Complete (run_result ''a'' ''1'' Task_success 1)]
     (new_coordinator 16 All_tasks_done False)
   in All_done 1 1 \<in> set (co_log c) \<and>
      map_option ae_task (jm_get (co_agents c) ''b'') = Some (Some ''2'') \<and> await_task ''2'' c = None"
  by (simp add: co_defs task_def try_dispatch.simps await_task_def)

end
