(* ===== verification/Spec2Isabelle.thy ===== *)
theory Spec2Isabelle
  imports Container Pipeline Run_Controller Event_Bus Tool_Registry Commands Task_Dag Task_Tracker Knowledge_Graph
    Auto_Executor Dispatcher Task_Auction Consensus Messages Conversation Permission Circuit_Breaker Retry Error_Recovery Fallback_Model Concurrency
    Json Deep_Merge Secret_Vault Config_Loader Schema Tool_Executor Steering Mailbox Agent_Loop
    Token_Estimate Compaction Auto_Compaction Sse Stream_Builder Ip_Guard Auto_Extend Watchdog Subagent_Runner Coordinator
begin

text \<open>
  A verification library for WrongStack, an agent framework in TypeScript. It models the core
  package, \<open>packages/core/src\<close>: the kernel that wires the program together, the registries, the
  agent loop with the conversation it works on, the executor of tools and its permission policies, the
  compaction of long conversations, the configuration with its secrets, and the coordination of
  several agents. Beside the core there are the circuit breaker of the tools package and, of the providers package, the
  parser of event streams and the classification of errors. All paths below are relative to that
  directory unless they start with \<open>packages\<close>.

  \<^bold>\<open>The program and its parts.\<close> A host binds its services in the dependency container
  (\<open>kernel/container.ts\<close>), from which everything else is resolved; its settings come from layers of
  JSON files (\<open>storage/config-loader.ts\<close>) with encrypted credentials (\<open>security/secret-vault.ts\<close>).
  The agent loop (\<open>core/agent-loop.ts\<close>) keeps the conversation (\<open>core/conversation-state.ts\<close>), lets notes
  and mail into it (\<open>core/btw.ts\<close>, \<open>core/mailbox-loop.ts\<close>), shrinks it when it grows too long
  (\<open>execution/auto-compaction-middleware.ts\<close> over \<open>execution/compaction-core.ts\<close>, measured by
  \<open>utils/token-estimate.ts\<close>), repairs it before it is sent (\<open>utils/message-invariants.ts\<close>), sends requests
  and answers through middleware pipelines (\<open>kernel/pipeline.ts\<close>) to a provider that it retries
  (\<open>execution/retry-policy.ts\<close>) or replaces by another model (\<open>execution/error-handler.ts\<close>,
  \<open>core/fallback-model.ts\<close>) and whose stream it reads (\<open>packages/providers/src/sse.ts\<close>) and assembles
  (\<open>core/streaming-response-builder.ts\<close>), and hands
  the calls of the answer to the tool executor (\<open>execution/tool-executor.ts\<close>). The executor looks up the tool
  (\<open>registry/tool-registry.ts\<close>), checks the input against its schema
  (\<open>utils/json-schema-validate.ts\<close>) and asks the permission policy
  (\<open>security/permission-policy.ts\<close>); tools that reach the network are guarded by
  \<open>utils/ip-guard.ts\<close>, those that start processes by the circuit breaker. What happens is announced
  on the event bus (\<open>kernel/events.ts\<close>). A run controller (\<open>kernel/run-controller.ts\<close>) holds
  the abort signal and the cleanup hooks of one run. Commands typed by the user go through the
  command registry (\<open>registry/slash-command-registry.ts\<close>).
  With several agents, a coordinator (\<open>coordination/multi-agent-coordinator.ts\<close>) queues their
  tasks, a watchdog and a budget bound each of them (\<open>coordination/subagent-budget.ts\<close>), a policy
  extends the budgets (\<open>coordination/auto-extend.ts\<close>), a mailbox in a shared file connects them
  (\<open>coordination/global-mailbox.ts\<close>); a director schedules a
  task graph (\<open>coordination/task-dag.ts\<close>), agents vote on changes
  (\<open>coordination/consensus-protocol.ts\<close>) and bid for tasks (\<open>coordination/task-auctioneer.ts\<close>) over a shared graph
  of what they know (\<open>coordination/knowledge-graph.ts\<close>), a dispatcher chooses the role for a description
  (\<open>coordination/dispatcher.ts\<close>), and the specification-driven workflow keeps its tasks in a
  tracker (\<open>sdd/task-tracker.ts\<close>), analyses them (\<open>sdd/critical-path.ts\<close>) and carries them out
  (\<open>sdd/auto-executor.ts\<close>).

  \<^bold>\<open>Theories: foundations.\<close>
  \<^item> \<open>Prelude\<close>: the insertion-ordered \<open>Map\<close> and \<open>Set\<close> of JavaScript as association lists and lists,
    the lemmas about them, and the contracts the components share: \<open>ordered_map\<close> (what a lookup
    returns after a change), \<open>state_contract\<close> (an operation keeps an invariant, hence so does every
    sequence), \<open>monotone_contract\<close> (and a counter never goes back), \<open>strict_registry\<close> (entering a new,
    acceptable name succeeds and adds it last; anything else fails and changes nothing).
  \<^item> \<open>Errors\<close>: the error values of \<open>types/errors.ts\<close>. \<open>Js_String\<close> and \<open>Js_Number\<close>: the string functions
    and the rounding used. \<open>Json\<close>: JSON values and the reading of their fields.

  \<^bold>\<open>Theories: the kernel and the registries.\<close>
  \<^item> \<open>Container\<close>: \<open>container.ts\<close>. A factory is a program over the container (it resolves, tries,
    returns or throws), so that factories that resolve further tokens, catch failures and re-enter are
    all covered. Shown: resolution always returns or throws, singletons are built once, re-entry is
    the circularity error.
  \<^item> \<open>Pipeline\<close>: \<open>pipeline.ts\<close>. A handler is a program that may call \<open>next\<close> any number of times, throw
    and catch. Shown: middlewares are entered in chain order and at most once whatever they do; a
    chain of well-behaved ones is the nesting of its parts; the error policy; the chain operations.
  \<^item> \<open>Run_Controller\<close>: \<open>run-controller.ts\<close>. Shown: hooks fire once, last in first out.
  \<^item> \<open>Event_Bus\<close>: \<open>EventBus\<close> and \<open>ScopedEventBus\<close> of \<open>events.ts\<close>. A listener is a list of operations
    on the bus, and may throw. Shown: an emit delivers to the listeners present when it started, in
    order, whatever they do; \<open>once\<close>; undoing scoped subscriptions.
  \<^item> \<open>Tool_Registry\<close>: \<open>tool-registry.ts\<close> with \<open>utils/tool-description-mode.ts\<close>. Shown: the cached
    list is never stale, description modes are reversible, what disabling hides.
  \<^item> \<open>Commands\<close>: \<open>slash-command-registry.ts\<close> and \<open>provider-registry.ts\<close>. Shown: what an external
    plugin can and cannot change, removal by any key, dispatch.

  \<^bold>\<open>Theories: configuration.\<close>
  \<^item> \<open>Deep_Merge\<close>: \<open>utils/deep-merge.ts\<close>. Shown: what the merged value holds at each path, and that one of
    its two options has no effect.
  \<^item> \<open>Secret_Vault\<close>: \<open>secret-vault.ts\<close>, over an authenticated cipher given by its documented law. Shown: the
    wire format and the encryption of a whole configuration are inverted exactly; rotation of the key keeps
    every secret, and which fields it does not protect.
  \<^item> \<open>Config_Loader\<close>: \<open>config-loader.ts\<close> and \<open>config-store.ts\<close>. Shown: the file inside a project
    cannot influence the fields reserved to the user; seeding happens once; how markers of the
    environment and a token are treated when a file is written back.

  \<^bold>\<open>Theories: the agent and its conversation.\<close>
  \<^item> \<open>Messages\<close> and \<open>Conversation\<close>: \<open>message-invariants.ts\<close>, \<open>conversation-state.ts\<close>,
    \<open>utils/lru-cache.ts\<close>. Shown: repair restores the adjacency of tool calls and results, loses
    nothing else, reports what it removes and is idempotent; a subscriber's mirror of the state; the cache keeps what was
    used recently.
  \<^item> \<open>Agent_Loop\<close>: \<open>agent-loop.ts\<close>, \<open>agent-response.ts\<close>, \<open>iteration-limit.ts\<close>, the outer \<open>run\<close> of
    \<open>agent.ts\<close>. Shown: every request sent has its tool calls and results
    adjacent, when compactions and answers keep them so; a run ends, within
    its number of iterations, unless somebody extends it; three equal batches of calls in a row stop it.
  \<^item> \<open>Steering\<close>: \<open>core/btw.ts\<close>, \<open>core/queued-messages.ts\<close>,
    \<open>core/continue-to-next-iteration.ts\<close>. Shown: notes arrive once and in order; when a queue is announced;
    which of several markers in an answer counts.
  \<^item> \<open>Mailbox\<close>: \<open>global-mailbox.ts\<close> and \<open>mailbox-loop.ts\<close>, several processes over one file; a read asks for
    the size and reads in two steps, as the code does without a lock. Shown: a process that does not send itself is
    answered exactly from what the file held when its read started, as long as nobody changes a message or appends between
    the steps of a read of the whole file; mail is injected once; the ways in which the copy goes wrong: own messages,
    appends and reads that overlap a read, rewrites that make the file longer.
  \<^item> \<open>Token_Estimate\<close>: \<open>token-estimate.ts\<close>. Shown: the cache is invisible, the calibration is bounded and
    where it settles.
  \<^item> \<open>Compaction\<close>: \<open>compaction-core.ts\<close>, \<open>compactor.ts\<close>, \<open>selective-compactor.ts\<close>,
    \<open>intelligent-compactor.ts\<close>, \<open>strategy-compactor.ts\<close>. Shown: a compacted conversation satisfies the protocol of
    providers, what is preserved is self-contained, the hybrid strategy loses no text that counts unless it
    is aggressive with its content-aware digest.
  \<^item> \<open>Auto_Compaction\<close>: \<open>auto-compaction-middleware.ts\<close>. Shown: pressure above the hard threshold is resolved or,
    where the failure mode says so, the request fails with the documented error; attempts that do not help are bounded.
  \<^item> \<open>Retry\<close>: \<open>execution/retry-policy.ts\<close>, the loop of \<open>core/provider-runner.ts\<close> and the
    classification of \<open>packages/providers/src/error-parse.ts\<close>. Shown: the loop ends, its bounds, and
    which errors are called retryable but never retried.
  \<^item> \<open>Sse\<close>: \<open>packages/providers/src/sse.ts\<close>. Shown: the events do not depend on how the stream is cut into
    chunks, except in one case; reading inverts printing.
  \<^item> \<open>Json_Repair\<close> and \<open>Stream_Builder\<close>: \<open>utils/json-repair.ts\<close>, \<open>streaming-response-builder.ts\<close>. Shown: a
    truncated object whose brackets match is completed to one that is closed, and completing twice is completing
    once; a call that arrives in fragments is in the response once, with the parse of its fragments put together;
    no text is lost or reordered, and batching is invisible; what becomes of calls that never close or are opened twice.
  \<^item> \<open>Error_Recovery\<close>: \<open>error-handler.ts\<close>. Shown: a switch of model goes to the cheapest one that is visible, cheaper
    and no less able, switches end; how its classification differs from the one of \<open>Retry\<close>.
  \<^item> \<open>Fallback_Model\<close>: \<open>fallback-model.ts\<close>. Shown: which targets a wrapped call tries and how it ends, that nothing
    is sent to a model that cools down, the ladder of cooldowns, the derived chain.

  \<^bold>\<open>Theories: tools and their guards.\<close>
  \<^item> \<open>Schema\<close>: \<open>json-schema-validate.ts\<close>. Shown: the validator decides a typing relation stated
    apart from it, for schemas without the two cases in which it errs.
  \<^item> \<open>Permission\<close>: both policies of \<open>permission-policy.ts\<close>. Shown: denials win after any
    history of a policy, also over the cache of decisions, the gate before
    destructive calls, the one hole in it, the exact grant of a subagent.
  \<^item> \<open>Tool_Executor\<close>: \<open>tool-executor.ts\<close>. Shown: nothing runs that the policy did not let through on the input that
    runs; every call of a batch is answered once, in order, whatever the tools do; the cap on the output.
  \<^item> \<open>Ip_Guard\<close>: \<open>ip-guard.ts\<close>. Shown: the guard on both kinds of address is the list of reserved blocks;
    an address is expanded exactly; the addresses that slip through in other spellings.
  \<^item> \<open>Circuit_Breaker\<close>: \<open>packages/tools/src/circuit-breaker.ts\<close>, the gate in front of processes. Shown:
    when it trips, as a rule over the history of calls that the counters implement; what it lets
    through; that slow calls one after the other never trip it.

  \<^bold>\<open>Theories: several agents.\<close>
  \<^item> \<open>Coordinator\<close>: \<open>multi-agent-coordinator.ts\<close>. Shown: no task is lost or done twice, the cap holds, a
    subagent runs one task at a time, no slot is wasted unless a subagent is spawned while tasks wait; and the histories in which a task starves.
  \<^item> \<open>Subagent_Budget\<close>, \<open>Auto_Extend\<close>, \<open>Watchdog\<close>, \<open>Subagent_Runner\<close>: \<open>subagent-budget.ts\<close>,
    \<open>auto-extend.ts\<close>, \<open>executeWithTimeout\<close> of \<open>multi-agent-coordinator.ts\<close>, \<open>agent-subagent-runner.ts\<close>. Shown:
    a budget nobody extends is exact; one negotiation at a time; extensions are rationed and go to agents that make
    progress; a silent agent is ended in time, before its wall-clock deadline; which overruns do not end an agent at all.
  \<^item> \<open>Concurrency\<close>: \<open>coordination/adaptive-concurrency.ts\<close>. Shown: its bounds, and that it never
    recovers.
  \<^item> \<open>Task_Dag\<close>: \<open>task-dag.ts\<close>. Shown: the graph stays free of cycles and the search that guards it is
    reachability; ready and running tasks have their dependencies settled; the topological order.
  \<^item> \<open>Task_Tracker\<close>: \<open>task-tracker.ts\<close> with \<open>types/task-graph.ts\<close>. Shown: the exact guard on new
    dependencies, the exact effect of a change of state, the progress report.
  \<^item> \<open>Critical_Path\<close> and \<open>Auto_Executor\<close>: \<open>sdd/critical-path.ts\<close>, \<open>sdd/auto-executor.ts\<close>, over the graph of the
    tracker. Shown: the path is a longest one, the order and the groups respect the edges where nothing is completed, the
    search for bottlenecks is reachability; the executor ends; and that both read the edges against the tracker,
    so that a task is run before what it waits for.
  \<^item> \<open>Consensus\<close>: \<open>consensus-protocol.ts\<close> over the changes of \<open>coordination/knowledge-graph.ts\<close>.
    Shown: the outcome as a decision table, one vote per eligible voter, monotonicity.
  \<^item> \<open>Knowledge_Graph\<close>: \<open>knowledge-graph.ts\<close>. Adding and updating change the memory at once, their
    writes stay pending and reach the file in any order or fail. Shown: a query through the index is a scan of all nodes; a
    graph that loads the log of another answers every query as it does when all writes have landed and those about one
    node, and the additions, landed in their order; what goes wrong otherwise; a subscription misses nothing; filters
    that have no effect.
  \<^item> \<open>Dispatcher\<close> and \<open>Task_Auction\<close>: \<open>dispatcher.ts\<close>, \<open>task-auctioneer.ts\<close>. The auction uses the graph through the
    contract \<open>node_store\<close>; the identifiers of tasks, parents and blockers name goals. Shown: the bounds of the
    confidence; a task is awarded once, to the best bidder with room; what can be worked on has its blockers done; a
    blocked task that expires, an unblocked one that is not shown, two awards that exceed the limit of an agent.

  \<^bold>\<open>How the code is rendered.\<close> A class is a record of its fields and a method a function from the
  state to its result and the next state. An exception is \<open>Inl\<close> of an error. \<open>undefined\<close> is \<open>None\<close>.
  Maps and sets keep insertion order because the code iterates over them. Callbacks that can reach
  the object they are registered with (factories, middlewares, listeners) are data with an
  interpreter, so the theorems quantify over everything they may do; other callbacks are functions.
  Numbers that the code divides, and times, are exact rationals instead of doubles. Characters have eight bits; a dash or
  an ellipsis in a message of the program has its code of the Windows character set.
  Time stamps, random identifiers, regular expressions, the decoding of bytes and the printing of JSON are
  arguments. The answer that a promise brings later (the verdict of a negotiation, the result of a
  run, the late reading of a file's size, the second half of a claim, the second step of a read of the mailbox, the landing
  of a write of the graph's log) and the expiry of a timer are each an operation of its own, so that every interleaving with
  other operations is a sequence of operations. What reaches an agent run from outside during an
  iteration (the provider's answer, notes, mail, aborts) is a record, one per iteration.

  \<^bold>\<open>Loops and fuel.\<close> Recursion is structural or has a proved measure (the retry loop, which
  has no bound in the code, ends because the policy allows at most five retries; the coordinator's dispatch
  shortens its queue; the folding of long lines shortens the text) except in four places. The
  container resolves with fuel for the nesting of resolutions: each nested resolution adds a bound
  token to the set of those being resolved, so one unit more than the number of bound tokens is enough,
  which is a theorem. The topological order of the director's graph recurses with fuel for the depth,
  one more than the number of nodes; the search for transitive dependencies in the tracker with two
  more than the number of edges. Each nested call marks a further node, and the theorems about both
  (\<open>topological_order_correct\<close>, \<open>depends_on_transitively_iff\<close>) hold for the fuel the definitions use.
  The agent loop has one unit of fuel per iteration; a run that nobody extends ends
  with one unit more than its limit, which is \<open>run_ends_unless_extended\<close>, and that an extension at every
  limit keeps it going for any fuel is \<open>automatic_extension_never_stops\<close>.

  \<^bold>\<open>What is not modelled.\<close> Promises are sequential where nothing above says otherwise: a call that awaits
  runs to its end before the next
  operation, except where a callback re-enters. Input and output (the trust file, stores of graphs and
  sessions, logging) are results of the environment or left out. The classifier of dangerous commands,
  glob matching and path resolution are parameters of the permission model, the cipher is a parameter of
  the vault, name resolution one of the address guard.
  The classifier model of the dispatcher, the parser and printer of JSON and the catalog of models are parameters.
  Outside the library are: directors, fleets, autonomous engines and the parallel
  specification runs, which are long asynchronous drivers around prompts to a model and whose bounded parts (graph, budget,
  coordinator, tracker) are here; the stores of sessions, memories and queues, which are file input and output;
  the catalogs of models and the prompts, which are tables and text; user interfaces, provider
  adapters and protocol bridges.
\<close>

end
